(* ===== verification/Island_Prelude.thy ===== *)
theory Island_Prelude
  imports Complex_Main "HOL-Library.Word" "HOL-Library.Char_ord" "HOL-Library.List_Lexorder" "HOL-Library.Product_Lexorder"
begin

text \<open>
  What every component of the development shares: the Python results and exceptions,
  the byte strings and the \<open>struct\<close> formats the tools read (little endian u16, u32 and
  i32), the text renderings that end up in keys and names, dictionaries as association
  lists, and the lemmas on them. Python's integers are \<open>int\<close>; \<open>x >> n\<close> and
  \<open>x & (2 ** n - 1)\<close> are floor division and remainder by \<open>2 ^ n\<close>, which is what Python
  computes for every integer, negative ones included.
\<close>

named_theorems res_simps \<open>evaluation of the result monad\<close>
named_theorems byte_simps \<open>lengths and slices of byte strings\<close>

section \<open>Results\<close>

text \<open>The exceptions the modelled code can raise. \<open>SystemExit\<close> carries the reason of a
  \<open>sys.exit(...)\<close>; its text is reduced to the message's constant part.\<close>

datatype py_error =
    StructError
  | IndexError
  | KeyError
  | ValueError
  | AssertionError
  | StopIteration
  | AttributeError
  | TypeError
  | ZeroDivisionError
  | KeyboardInterrupt
  | SystemExit string

type_synonym 'a res = "py_error + 'a"

definition rbind :: "'a res \<Rightarrow> ('a \<Rightarrow> 'b res) \<Rightarrow> 'b res" where
  "rbind m f = (case m of Inl e \<Rightarrow> Inl e | Inr x \<Rightarrow> f x)"

lemma rbind_simps [simp, res_simps]:
  "rbind (Inl e) f = Inl e"
  "rbind (Inr x) f = f x"
  by (simp_all add: rbind_def)

lemma rbind_Inr_iff [res_simps]:
  "rbind m f = Inr y \<longleftrightarrow> (\<exists>x. m = Inr x \<and> f x = Inr y)"
  by (cases m) auto

lemma rbind_Inl_iff [res_simps]:
  "rbind m f = Inl e \<longleftrightarrow> m = Inl e \<or> (\<exists>x. m = Inr x \<and> f x = Inl e)"
  by (cases m) auto

text \<open>A loop whose body may raise: the first exception ends it.\<close>

fun rmap :: "('a \<Rightarrow> 'b res) \<Rightarrow> 'a list \<Rightarrow> 'b list res" where
  "rmap f [] = Inr []"
| "rmap f (x # xs) = rbind (f x) (\<lambda>y. rbind (rmap f xs) (\<lambda>ys. Inr (y # ys)))"

lemma rmap_Inr_length: "rmap f xs = Inr ys \<Longrightarrow> length ys = length xs"
  by (induction xs arbitrary: ys) (auto simp: rbind_Inr_iff)

lemma rmap_total: "(\<And>x. x \<in> set xs \<Longrightarrow> f x = Inr (g x)) \<Longrightarrow> rmap f xs = Inr (map g xs)"
  by (induction xs) auto

lemma rmap_nth: "rmap f xs = Inr ys \<Longrightarrow> i < length xs \<Longrightarrow> f (xs ! i) = Inr (ys ! i)"
proof (induction xs arbitrary: ys i)
  case Nil
  then show ?case by simp
next
  case (Cons x xs)
  then obtain y zs where *: "f x = Inr y" "rmap f xs = Inr zs" "ys = y # zs"
    by (auto simp: rbind_Inr_iff)
  with Cons show ?case by (cases i) auto
qed

section \<open>Bytes and struct formats\<close>

type_synonym u32 = "32 word"
type_synonym byte = "8 word"
type_synonym bytes = "byte list"

definition bslice :: "'a list \<Rightarrow> nat \<Rightarrow> nat \<Rightarrow> 'a list" where
  \<comment> \<open>Python's \<open>b[i:j]\<close> for \<open>0 \<le> i\<close>, \<open>0 \<le> j\<close>: cut off at the end of \<open>b\<close>, empty when \<open>j \<le> i\<close>.\<close>
  "bslice b i j = take (j - i) (drop i b)"

lemma length_bslice [byte_simps]: "length (bslice b i j) = min (j - i) (length b - i)"
  by (simp add: bslice_def)

lemma bslice_append_left [byte_simps]: "j \<le> length a \<Longrightarrow> bslice (a @ b) i j = bslice a i j"
  by (cases "i \<le> length a") (auto simp: bslice_def)

lemma bslice_append_right [byte_simps]:
  "length a \<le> i \<Longrightarrow> bslice (a @ b) i j = bslice b (i - length a) (j - length a)"
  by (auto simp: bslice_def)

lemma bslice_drop: "bslice (drop k b) i j = bslice b (k + i) (k + j)"
  by (simp add: bslice_def add.commute)

text \<open>\<open>int.from_bytes(raw, "little", signed=False)\<close>.\<close>

fun le_int :: "bytes \<Rightarrow> int" where
  "le_int [] = 0"
| "le_int (b # bs) = uint b + 256 * le_int bs"

text \<open>\<open>int.from_bytes(raw, "little", signed=True)\<close>: two's complement at the width read.\<close>

definition le_sint :: "bytes \<Rightarrow> int" where
  "le_sint bs =
     (let u = le_int bs; m = 256 ^ length bs in if 2 * u < m \<or> bs = [] then u else u - m)"

text \<open>The \<open>n\<close> low bytes of a value, least significant first: what the C side stores.\<close>

fun le_bytes :: "nat \<Rightarrow> int \<Rightarrow> bytes" where
  "le_bytes 0 x = []"
| "le_bytes (Suc n) x = word_of_int x # le_bytes n (x div 256)"

lemma length_le_bytes [simp, byte_simps]: "length (le_bytes n x) = n"
  by (induction n arbitrary: x) auto

lemma le_int_nonneg [simp]: "0 \<le> le_int bs"
  by (induction bs) auto

lemma le_int_bound: "le_int bs < 256 ^ length bs"
proof (induction bs)
  case Nil
  then show ?case by simp
next
  case (Cons b bs)
  have "uint b < 256" using uint_lt2p [of b] by simp
  with Cons.IH show ?case by simp
qed

lemma le_int_le_bytes: "le_int (le_bytes n x) = x mod 256 ^ n"
proof (induction n arbitrary: x)
  case 0
  then show ?case by simp
next
  case (Suc n)
  have "x mod (256 * 256 ^ n) = 256 * (x div 256 mod 256 ^ n) + x mod 256"
    by (rule zmod_zmult2_eq) simp
  then show ?case using Suc by (simp add: uint_word_of_int)
qed

lemma le_int_le_bytes_id [simp]: "0 \<le> x \<Longrightarrow> x < 256 ^ n \<Longrightarrow> le_int (le_bytes n x) = x"
  by (simp add: le_int_le_bytes)

lemma le_int_append_zeros [simp]: "le_int (bs @ replicate n 0) = le_int bs"
proof (induction bs)
  case Nil
  show ?case by (induction n) auto
next
  case (Cons b bs)
  then show ?case by simp
qed

lemma le_int_replicate0 [simp]: "le_int (replicate n 0) = 0"
  by (induction n) auto

lemma le_int_eq_0_iff: "le_int bs = 0 \<longleftrightarrow> (\<forall>b \<in> set bs. b = 0)"
proof (induction bs)
  case Nil
  then show ?case by simp
next
  case (Cons b bs)
  have "uint b + 256 * le_int bs = 0 \<longleftrightarrow> uint b = 0 \<and> le_int bs = 0"
    using le_int_nonneg [of bs] uint_ge_0 [of b] by linarith
  with Cons show ?case by (simp add: uint_0_iff)
qed

lemma le_sint_le_bytes:
  assumes "0 < n" and "- (256 ^ n) \<le> 2 * x" and "2 * x < 256 ^ n"
  shows "le_sint (le_bytes n x) = x"
proof -
  let ?m = "256 ^ n :: int"
  have ne: "le_bytes n x \<noteq> []" using assms(1) by (cases n) auto
  show ?thesis
  proof (cases "0 \<le> x")
    case True
    with assms have "x mod ?m = x" by simp
    with assms ne True show ?thesis by (simp add: le_sint_def le_int_le_bytes)
  next
    case False
    have "x mod ?m = (x + ?m) mod ?m" by simp
    also have "\<dots> = x + ?m" using False assms by (intro mod_pos_pos_trivial) auto
    finally have "x mod ?m = x + ?m" .
    with assms ne False show ?thesis by (simp add: le_sint_def le_int_le_bytes)
  qed
qed

text \<open>\<open>struct.unpack_from\<close> for one field: \<open>struct.error\<close> when the buffer ends before it.\<close>

definition unpack_u :: "nat \<Rightarrow> bytes \<Rightarrow> nat \<Rightarrow> int res" where
  "unpack_u n b off = (if off + n \<le> length b then Inr (le_int (bslice b off (off + n))) else Inl StructError)"

abbreviation unpack_u16 :: "bytes \<Rightarrow> nat \<Rightarrow> int res" where "unpack_u16 \<equiv> unpack_u 2"
abbreviation unpack_u32 :: "bytes \<Rightarrow> nat \<Rightarrow> int res" where "unpack_u32 \<equiv> unpack_u 4"

text \<open>\<open>struct.unpack_from("<nI", b, off)\<close>: \<open>n\<close> words, all or none.\<close>

definition words_at :: "nat \<Rightarrow> bytes \<Rightarrow> nat \<Rightarrow> int list" where
  "words_at n b off = map (\<lambda>i. le_int (bslice b (off + 4 * i) (off + 4 * i + 4))) [0..<n]"

definition unpack_u32s :: "nat \<Rightarrow> bytes \<Rightarrow> nat \<Rightarrow> int list res" where
  "unpack_u32s n b off = (if off + 4 * n \<le> length b then Inr (words_at n b off) else Inl StructError)"

lemma length_words_at [simp, byte_simps]: "length (words_at n b off) = n"
  by (simp add: words_at_def)

lemma words_at_nth [simp]: "i < n \<Longrightarrow> words_at n b off ! i = le_int (bslice b (off + 4 * i) (off + 4 * i + 4))"
  by (simp add: words_at_def)

lemma words_at_range: "x \<in> set (words_at n b off) \<Longrightarrow> 0 \<le> x \<and> x < 2 ^ 32"
proof -
  assume "x \<in> set (words_at n b off)"
  then obtain i where x: "x = le_int (bslice b (off + 4 * i) (off + 4 * i + 4))"
    by (auto simp: words_at_def)
  have "le_int bs < 2 ^ 32" if "length bs \<le> 4" for bs
  proof -
    have "(256 :: int) ^ length bs \<le> 256 ^ 4" using that by (intro power_increasing) auto
    with le_int_bound [of bs] show ?thesis by simp
  qed
  with x show ?thesis by (simp add: byte_simps)
qed

lemma unpack_u_append_left [byte_simps]:
  "off + n \<le> length a \<Longrightarrow> unpack_u n (a @ b) off = unpack_u n a off"
  by (simp add: unpack_u_def byte_simps)

lemma unpack_u_append_right [byte_simps]:
  "length a \<le> off \<Longrightarrow> unpack_u n (a @ b) off = unpack_u n b (off - length a)"
  by (auto simp: unpack_u_def byte_simps)

lemma unpack_u_le_bytes:
  "0 \<le> x \<Longrightarrow> x < 256 ^ n \<Longrightarrow> unpack_u n (le_bytes n x @ b) 0 = Inr x"
  by (simp add: unpack_u_def bslice_def)

lemma unpack_u_Inr_range: "unpack_u n b off = Inr x \<Longrightarrow> 0 \<le> x \<and> x < 256 ^ n"
  using le_int_bound [of "bslice b off (off + n)"]
  by (auto simp: unpack_u_def byte_simps split: if_splits)

text \<open>The bytes of a list of u32 words.\<close>

definition pack_u32s :: "int list \<Rightarrow> bytes" where
  "pack_u32s ws = concat (map (le_bytes 4) ws)"

lemma length_pack_u32s [simp, byte_simps]: "length (pack_u32s ws) = 4 * length ws"
  by (induction ws) (simp_all add: pack_u32s_def)

lemma pack_u32s_append [simp]: "pack_u32s (vs @ ws) = pack_u32s vs @ pack_u32s ws"
  by (simp add: pack_u32s_def)

lemma words_at_pack_aux:
  assumes "\<forall>w \<in> set ws. 0 \<le> w \<and> w < 2 ^ 32" and "i < length ws"
  shows "le_int (bslice (pack_u32s ws @ b) (4 * i) (4 * i + 4)) = ws ! i"
  using assms
proof (induction ws arbitrary: i)
  case Nil
  then show ?case by simp
next
  case (Cons w ws)
  have split: "pack_u32s (w # ws) = le_bytes 4 w @ pack_u32s ws"
    by (simp add: pack_u32s_def)
  show ?case
  proof (cases i)
    case 0
    have "bslice (le_bytes 4 w @ pack_u32s ws @ b) 0 4 = le_bytes 4 w"
      by (simp add: bslice_def)
    with 0 Cons.prems show ?thesis by (simp add: split)
  next
    case (Suc j)
    with Cons have "le_int (bslice (pack_u32s ws @ b) (4 * j) (4 * j + 4)) = ws ! j" by simp
    with Suc show ?thesis by (simp add: split bslice_append_right add.commute)
  qed
qed

lemma words_at_pack:
  assumes "\<forall>w \<in> set ws. 0 \<le> w \<and> w < 2 ^ 32"
  shows "words_at (length ws) (pack_u32s ws @ b) 0 = ws"
  by (rule nth_equalityI) (use words_at_pack_aux [OF assms] in auto)

section \<open>Text\<close>

text \<open>\<open>bytes.decode("ascii", "replace")\<close>. A byte of 128 or more becomes U+FFFD, the one
  non-ASCII character such a text can hold; \<open>CHR 0xFF\<close> stands for it.\<close>

definition ascii_decode :: "bytes \<Rightarrow> string" where
  "ascii_decode bs = map (\<lambda>b. if uint b < 128 then char_of (nat (uint b)) else CHR 0xFF) bs"

text \<open>\<open>raw.split(b"\0", 1)[0].decode("ascii", "replace")\<close>.\<close>

definition cstr :: "bytes \<Rightarrow> string" where
  "cstr raw = ascii_decode (takeWhile (\<lambda>b. b \<noteq> 0) raw)"

definition ascii_encode :: "string \<Rightarrow> bytes" where
  "ascii_encode s = map (\<lambda>c. word_of_nat (of_char c)) s"

definition is_ascii :: "string \<Rightarrow> bool" where
  "is_ascii s = list_all (\<lambda>c. of_char c < (128 :: nat)) s"

lemma length_ascii_encode [simp]: "length (ascii_encode s) = length s"
  by (simp add: ascii_encode_def)

lemma ascii_byte:
  assumes "of_char c < (128 :: nat)"
  shows "uint (word_of_nat (of_char c) :: byte) = of_char c"
    and "char_of (nat (uint (word_of_nat (of_char c) :: byte))) = c"
proof -
  have "unat (word_of_nat (of_char c) :: byte) = of_char c"
    using assms by (simp add: unat_of_nat)
  then show u: "uint (word_of_nat (of_char c) :: byte) = of_char c"
    by (metis of_nat_of_char uint_nat)
  have "nat (of_char c) = (of_char c :: nat)"
    by (metis nat_int of_nat_of_char)
  with u show "char_of (nat (uint (word_of_nat (of_char c) :: byte))) = c" by simp
qed

lemma ascii_decode_encode: "is_ascii s \<Longrightarrow> ascii_decode (ascii_encode s) = s"
proof (induction s)
  case Nil
  then show ?case by (simp add: ascii_decode_def ascii_encode_def)
next
  case (Cons c s)
  then have c: "of_char c < (128 :: nat)" and s: "is_ascii s" by (simp_all add: is_ascii_def)
  have "of_char c < (128 :: int)" using c by (metis of_nat_less_iff of_nat_numeral of_nat_of_char)
  with Cons.IH [OF s] ascii_byte [OF c] show ?case
    by (simp add: ascii_decode_def ascii_encode_def)
qed

text \<open>\<open>f"{x:08x}"\<close> on a 32-bit value, and decimal rendering.\<close>

definition hexdig :: "int \<Rightarrow> char" where
  "hexdig d = (''0123456789abcdef'' ! nat d)"

fun hexw :: "nat \<Rightarrow> int \<Rightarrow> string" where
  "hexw 0 x = []"
| "hexw (Suc k) x = hexw k (x div 16) @ [hexdig (x mod 16)]"

abbreviation hex08 :: "int \<Rightarrow> string" where "hex08 \<equiv> hexw 8"

lemma length_hexw [simp]: "length (hexw k x) = k"
  by (induction k arbitrary: x) auto

lemma hexdig_inj:
  assumes "0 \<le> a" "a < 16" "0 \<le> b" "b < 16" "hexdig a = hexdig b"
  shows "a = b"
proof -
  have "distinct ''0123456789abcdef''" by simp
  moreover have "nat a < length ''0123456789abcdef''" "nat b < length ''0123456789abcdef''"
    using assms by simp_all
  ultimately have "nat a = nat b"
    using assms(5) nth_eq_iff_index_eq unfolding hexdig_def by blast
  with assms show ?thesis by simp
qed

lemma hexw_inj:
  "0 \<le> x \<Longrightarrow> x < 16 ^ k \<Longrightarrow> 0 \<le> y \<Longrightarrow> y < 16 ^ k \<Longrightarrow> hexw k x = hexw k y \<Longrightarrow> x = y"
proof (induction k arbitrary: x y)
  case 0
  then show ?case by simp
next
  case (Suc k)
  then have "hexdig (x mod 16) = hexdig (y mod 16)" and t: "hexw k (x div 16) = hexw k (y div 16)"
    by simp_all
  then have "x mod 16 = y mod 16" by (intro hexdig_inj) auto
  moreover have "x div 16 = y div 16"
    using Suc.prems by (intro Suc.IH t) (auto simp: div_less_iff_less_mult pos_imp_zdiv_nonneg_iff)
  ultimately show ?case by (metis div_mult_mod_eq)
qed

fun dec_nat :: "nat \<Rightarrow> string" where
  "dec_nat n = (if n < 10 then [char_of (48 + n)] else dec_nat (n div 10) @ [char_of (48 + n mod 10)])"

declare dec_nat.simps [simp del]

definition dec_int :: "int \<Rightarrow> string" where
  "dec_int x = (if x < 0 then ''-'' @ dec_nat (nat (- x)) else dec_nat (nat x))"

fun join :: "string \<Rightarrow> string list \<Rightarrow> string" where
  "join sep [] = []"
| "join sep [x] = x"
| "join sep (x # y # xs) = x @ sep @ join sep (y # xs)"

definition ljust :: "nat \<Rightarrow> string \<Rightarrow> string" where
  "ljust w s = s @ replicate (w - length s) CHR '' ''"

definition rjust :: "nat \<Rightarrow> string \<Rightarrow> string" where
  "rjust w s = replicate (w - length s) CHR '' '' @ s"

text \<open>\<open>max(len(x) for x in xs)\<close> of a list that is not empty.\<close>

definition max_len :: "string list \<Rightarrow> nat" where
  "max_len xs = foldr max (map length xs) 0"

text \<open>\<open>s.startswith(p)\<close>.\<close>

definition starts_with :: "string \<Rightarrow> string \<Rightarrow> bool" where
  "starts_with p s = (take (length p) s = p)"

text \<open>\<open>xs[i]\<close>: a negative index counts from the end.\<close>

definition py_nth :: "'a list \<Rightarrow> int \<Rightarrow> 'a res" where
  "py_nth xs i =
     (let j = (if i < 0 then i + int (length xs) else i)
      in if 0 \<le> j \<and> j < int (length xs) then Inr (xs ! nat j) else Inl IndexError)"

lemma py_nth_Inr [res_simps]: "0 \<le> i \<Longrightarrow> i < int (length xs) \<Longrightarrow> py_nth xs i = Inr (xs ! nat i)"
  by (simp add: py_nth_def)

text \<open>\<open>s.split(c)\<close> on one character.\<close>

fun split_on :: "'a \<Rightarrow> 'a list \<Rightarrow> 'a list list" where
  "split_on c [] = [[]]"
| "split_on c (x # xs) =
     (if x = c then [] # split_on c xs
      else (case split_on c xs of [] \<Rightarrow> [[x]] | y # ys \<Rightarrow> (x # y) # ys))"

lemma split_on_not_Nil [simp]: "split_on c s \<noteq> []"
  by (cases s) (auto split: list.split)

lemma split_on_no_sep: "c \<notin> set s \<Longrightarrow> split_on c s = [s]"
  by (induction s) auto

lemma split_on_append: "c \<notin> set x \<Longrightarrow> split_on c (x @ c # s) = x # split_on c s"
  by (induction x) auto

lemma split_on_join:
  "xs \<noteq> [] \<Longrightarrow> \<forall>x \<in> set xs. c \<notin> set x \<Longrightarrow> split_on c (join [c] xs) = xs"
  by (induction "[c]" xs rule: join.induct) (simp_all add: split_on_no_sep split_on_append)

text \<open>\<open>s.split(c, 1)\<close> when \<open>c in s\<close>: what is before the first \<open>c\<close>, and what is after.\<close>

definition split_once :: "'a \<Rightarrow> 'a list \<Rightarrow> ('a list \<times> 'a list) option" where
  "split_once c s =
     (if c \<in> set s then Some (takeWhile (\<lambda>x. x \<noteq> c) s, drop 1 (dropWhile (\<lambda>x. x \<noteq> c) s)) else None)"

lemma split_once_append: "c \<notin> set k \<Longrightarrow> split_once c (k @ c # v) = Some (k, v)"
  by (induction k) (auto simp: split_once_def)

text \<open>\<open>hex(n)\<close> without its prefix, of a value that is not negative.\<close>

fun hex_nat :: "nat \<Rightarrow> string" where
  "hex_nat n = (if n < 16 then [hexdig (int n)] else hex_nat (n div 16) @ [hexdig (int (n mod 16))])"

declare hex_nat.simps [simp del]

definition pad3 :: "int \<Rightarrow> string" where   \<comment> \<open>three digits\<close>
  "pad3 x = (if x < 10 then ''00'' else if x < 100 then ''0'' else []) @ dec_int x"

text \<open>\<open>f"{x / 1000:.3f}"\<close> of an integer that is not negative: exact, a thousandth is the last digit.\<close>

definition ms3 :: "int \<Rightarrow> string" where
  "ms3 x = dec_int (x div 1000) @ ''.'' @ pad3 (x mod 1000)"

definition py_hex :: "int \<Rightarrow> string" where   \<comment> \<open>\<open>hex(x)\<close> and \<open>{x:#x}\<close>, \<open>0 \<le> x\<close>\<close>
  "py_hex x = ''0x'' @ hex_nat (nat x)"

text \<open>\<open>f"{x / 1000:g}"\<close>: six significant digits, trailing zeros dropped, an exponent from \<open>10 ^ 6\<close> on. The quotient is
  rounded once, half to even, without the float in between.\<close>

definition strip0s :: "string \<Rightarrow> string" where
  "strip0s s = rev (dropWhile (\<lambda>c. c = CHR ''0'') (rev s))"

definition point_digits :: "string \<Rightarrow> string \<Rightarrow> string" where
  "point_digits whole fr = (let f = strip0s fr in if f = [] then whole else whole @ ''.'' @ f)"

definition six_digits :: "int \<Rightarrow> int" where
  "six_digits x =
     (let m = 10 ^ (length (dec_int x) - 6); q = x div m; r = x mod m
      in (if 2 * r > m \<or> 2 * r = m \<and> odd q then q + 1 else q) * m)"

definition g_ms :: "int \<Rightarrow> string" where
  "g_ms x =
     (let y = six_digits x
      in if y < 10 ^ 9 then point_digits (dec_int (y div 1000)) (pad3 (y mod 1000))
         else point_digits (take 1 (dec_int y)) (drop 1 (dec_int y)) @ ''e+0'' @ dec_nat (length (dec_int y) - 4))"

text \<open>\<open>f"{x:.kf}"\<close>: \<open>k\<close> decimals, rounded half to even.\<close>

definition half_even :: "rat \<Rightarrow> int" where
  "half_even x = (let q = \<lfloor>x\<rfloor>; r = x - of_int q in if r > 1 / 2 \<or> r = 1 / 2 \<and> odd q then q + 1 else q)"

definition zeros :: "nat \<Rightarrow> string \<Rightarrow> string" where
  "zeros w s = replicate (w - length s) CHR ''0'' @ s"

definition fix_digits :: "nat \<Rightarrow> rat \<Rightarrow> string" where
  "fix_digits k x =
     (let n = half_even (\<bar>x\<bar> * 10 ^ k)
      in (if x < 0 then ''-'' else []) @ dec_int (n div 10 ^ k)
         @ (if k = 0 then [] else ''.'' @ zeros k (dec_int (n mod 10 ^ k))))"

text \<open>White space, \<open>s.split()\<close>, \<open>s.strip()\<close> and \<open>s.lower()\<close> on ASCII text.\<close>

definition is_space :: "char \<Rightarrow> bool" where
  "is_space c = (let n = of_char c :: nat in 9 \<le> n \<and> n \<le> 13 \<or> 28 \<le> n \<and> n \<le> 32)"

function py_words :: "string \<Rightarrow> string list" where
  "py_words [] = []"
| "py_words (c # cs) =
     (if is_space c then py_words cs
      else (c # takeWhile (\<lambda>x. \<not> is_space x) cs) # py_words (dropWhile (\<lambda>x. \<not> is_space x) cs))"
  by pat_completeness auto

termination py_words
  by (relation "measure length") (auto simp: less_Suc_eq_le length_dropWhile_le)

definition strip :: "string \<Rightarrow> string" where
  "strip s = rev (dropWhile is_space (rev (dropWhile is_space s)))"

definition lower :: "string \<Rightarrow> string" where
  "lower s = map (\<lambda>c. let n = of_char c :: nat in if 65 \<le> n \<and> n \<le> 90 then char_of (n + 32) else c) s"

definition upper :: "string \<Rightarrow> string" where
  "upper s = map (\<lambda>c. let n = of_char c :: nat in if 97 \<le> n \<and> n \<le> 122 then char_of (n - 32) else c) s"

text \<open>\<open>int(s)\<close>: an optional sign, then digits, with single underscores between them; \<open>None\<close> stands for
  \<open>ValueError\<close>.\<close>

definition is_digit :: "char \<Rightarrow> bool" where
  "is_digit c = (let n = of_char c :: nat in 48 \<le> n \<and> n \<le> 57)"

definition digit_val :: "char \<Rightarrow> int" where
  "digit_val c = of_char c - 48"

fun py_digits :: "int \<Rightarrow> bool \<Rightarrow> string \<Rightarrow> int option" where
  "py_digits acc after [] = (if after then Some acc else None)"
| "py_digits acc after (c # cs) =
     (if is_digit c then py_digits (acc * 10 + digit_val c) True cs
      else if c = CHR ''_'' \<and> after then py_digits acc False cs
      else None)"

definition py_int :: "string \<Rightarrow> int option" where
  "py_int s =
     (case strip s of
        [] \<Rightarrow> None
      | c # cs \<Rightarrow> if c = CHR ''+'' then py_digits 0 False cs
                  else if c = CHR ''-'' then map_option uminus (py_digits 0 False cs)
                  else py_digits 0 False (c # cs))"

section \<open>Dictionaries\<close>

text \<open>A dictionary built from key/value pairs in order: a later pair replaces an earlier one.\<close>

definition dict_of :: "('k \<times> 'v) list \<Rightarrow> 'k \<Rightarrow> 'v option" where
  "dict_of kvs = map_of (rev kvs)"

lemma dict_of_distinct: "distinct (map fst kvs) \<Longrightarrow> dict_of kvs = map_of kvs"
  unfolding dict_of_def by (rule map_of_inject_set [THEN iffD2]) (simp_all flip: rev_map)

lemma dict_of_append: "dict_of (xs @ ys) k = (case dict_of ys k of Some v \<Rightarrow> Some v | None \<Rightarrow> dict_of xs k)"
  by (simp add: dict_of_def map_add_def split: option.split)

lemma dict_of_mem:
  "distinct (map fst kvs) \<Longrightarrow> (k, v) \<in> set kvs \<Longrightarrow> dict_of kvs k = Some v"
  by (simp add: dict_of_distinct)

lemma dict_of_None_iff: "dict_of kvs k = None \<longleftrightarrow> k \<notin> fst ` set kvs"
  by (simp add: dict_of_def map_of_eq_None_iff)

text \<open>\<open>tab.get(i, dflt)\<close> on a table of names.\<close>

definition name_of :: "(int \<times> string) list \<Rightarrow> int \<Rightarrow> string \<Rightarrow> string" where
  "name_of tab i dflt = (case dict_of tab i of Some s \<Rightarrow> s | None \<Rightarrow> dflt)"

text \<open>\<open>d[k]\<close>.\<close>

definition key_of :: "('k \<times> 'v) list \<Rightarrow> 'k \<Rightarrow> 'v res" where
  "key_of d k = (case dict_of d k of None \<Rightarrow> Inl KeyError | Some v \<Rightarrow> Inr v)"

lemma key_of_total: "k \<in> set (map fst d) \<Longrightarrow> \<exists>v. key_of d k = Inr v"
  using dict_of_None_iff [of d k] by (auto simp: key_of_def split: option.splits)

text \<open>Python's \<open>next((x for x in xs if P x), None)\<close> is \<open>List.find\<close>; \<open>zip(xs, xs[1:])\<close> is the
  list of adjacent pairs.\<close>

definition pairs :: "'a list \<Rightarrow> ('a \<times> 'a) list" where
  "pairs xs = zip xs (drop 1 xs)"

lemma pairs_simps [simp]:
  "pairs [] = []" "pairs [x] = []" "pairs (x # y # zs) = (x, y) # pairs (y # zs)"
  by (simp_all add: pairs_def)

lemma length_pairs [simp]: "length (pairs xs) = length xs - 1"
  by (simp add: pairs_def)

end
