(* ===== verification/Judge.thy ===== *)
theory Judge
  imports Island_Prelude
begin

text \<open>The standstill verdicts of the board's supervisor, \<^verbatim>\<open>src/zephyr_entry/src/island_supervisor_judge.h\<close>: pure
  functions on 32-bit words, times in ms since boot modulo \<open>2 ^ 32\<close>, speeds in mm/s.
  \<open>Reaction\<close> calls them at the due of a route.\<close>

section \<open>Definitions\<close>

definition ISLAND_STANDSTILL_FRESH_MS :: u32 where "ISLAND_STANDSTILL_FRESH_MS = 300"

definition island_judge_standstill :: "u32 \<Rightarrow> u32 \<Rightarrow> u32 \<Rightarrow> u32 \<Rightarrow> bool" where
  "island_judge_standstill now_ms speed at_ms fresh_ms \<longleftrightarrow> at_ms \<noteq> 0 \<and> now_ms - at_ms \<le> fresh_ms \<and> speed = 0"

definition island_judge_stale :: "u32 \<Rightarrow> u32 \<Rightarrow> u32 \<Rightarrow> bool" where
  "island_judge_stale now_ms at_ms fresh_ms \<longleftrightarrow> at_ms = 0 \<or> now_ms - at_ms > fresh_ms"

definition island_judge_unseen :: "u32 \<Rightarrow> bool" where
  "island_judge_unseen at_ms \<longleftrightarrow> at_ms = 0"

text \<open>\<open>ISLAND_FLOOR_IDLE\<close>, \<open>ISLAND_FLOOR_OPERATOR\<close> and \<open>ISLAND_FLOOR_DIRECT\<close> are 0, 1 and 2.\<close>

abbreviation ISLAND_FLOOR_IDLE :: u32 where "ISLAND_FLOOR_IDLE \<equiv> 0"
abbreviation ISLAND_FLOOR_OPERATOR :: u32 where "ISLAND_FLOOR_OPERATOR \<equiv> 1"
abbreviation ISLAND_FLOOR_DIRECT :: u32 where "ISLAND_FLOOR_DIRECT \<equiv> 2"

datatype island_floor_verdict = FLOOR_MET | FLOOR_LATCH | FLOOR_VEHICLE_FAULT | FLOOR_WAIT

definition floor_code :: "island_floor_verdict \<Rightarrow> u32" where
  "floor_code v = (case v of FLOOR_MET \<Rightarrow> 0 | FLOOR_LATCH \<Rightarrow> 1 | FLOOR_VEHICLE_FAULT \<Rightarrow> 2 | FLOOR_WAIT \<Rightarrow> 3)"

definition island_judge_floor :: "bool \<Rightarrow> bool \<Rightarrow> u32 \<Rightarrow> u32 \<Rightarrow> island_floor_verdict" where
  "island_judge_floor standstill latched braked_ms span_ms =
     (if standstill then FLOOR_MET
      else if \<not> latched then FLOOR_LATCH
      else if braked_ms \<ge> span_ms then FLOOR_VEHICLE_FAULT
      else FLOOR_WAIT)"

definition island_judge_responded :: "bool \<Rightarrow> bool \<Rightarrow> u32 \<Rightarrow> u32 \<Rightarrow> u32 \<Rightarrow> bool" where
  "island_judge_responded standstill fresh ref speed drop_mm_s =
     (if standstill then True else fresh \<and> ref \<ge> speed \<and> ref - speed \<ge> drop_mm_s)"

definition island_judge_shed :: "u32 \<Rightarrow> u32 \<Rightarrow> u32" where
  "island_judge_shed ref speed = (if ref > speed then ref - speed else 0)"

definition island_judge_resume :: "u32 \<Rightarrow> u32 \<Rightarrow> u32 \<Rightarrow> u32 \<Rightarrow> bool" where
  "island_judge_resume now_ms alive_ms period_ms periods \<longleftrightarrow> now_ms - alive_ms \<ge> period_ms * periods"

text \<open>\<open>ISLAND_MRM_OPERATING\<close>, \<open>ISLAND_MRM_SUCCEEDED\<close> and \<open>ISLAND_MRM_FAILED\<close> are 2, 3 and 4, the behaviour
  \<open>ISLAND_MRM_EMERGENCY_STOP\<close> is 2.\<close>

definition island_judge_mrm_state :: "16 word \<Rightarrow> bool \<Rightarrow> 16 word" where
  "island_judge_mrm_state st vehicle_fault = (if vehicle_fault then 4 else st)"

definition island_autoware_gate_emergency :: "16 word \<Rightarrow> 16 word \<Rightarrow> bool" where
  "island_autoware_gate_emergency st behavior \<longleftrightarrow> (st = 2 \<or> st = 3 \<or> st = 4) \<and> behavior = 2"

section \<open>Lemmas\<close>

lemma island_judge_floor_cases:
  "(island_judge_floor s l b n = FLOOR_MET) = s"
  "(island_judge_floor s l b n = FLOOR_LATCH) = (\<not> s \<and> \<not> l)"
  "(island_judge_floor s l b n = FLOOR_VEHICLE_FAULT) = (\<not> s \<and> l \<and> n \<le> b)"
  "(island_judge_floor s l b n = FLOOR_WAIT) = (\<not> s \<and> l \<and> b < n)"
  by (auto simp: island_judge_floor_def)

lemma standstill_not_stale: "island_judge_standstill n v m fresh \<Longrightarrow> \<not> island_judge_stale n m fresh"
  by (auto simp: island_judge_standstill_def island_judge_stale_def)

lemma standstill_responded [simp]: "island_judge_responded True fresh ref v d"
  by (simp add: island_judge_responded_def)

text \<open>The age of a time stamp read modulo \<open>2 ^ 32\<close>.\<close>

lemma unat_of_int_diff:
  assumes "0 \<le> t - (u :: int)" "t - u < 2 ^ 32"
  shows "int (unat (of_int t - of_int u :: u32)) = t - u"
proof -
  have "uint (of_int t - of_int u :: u32) = (t - u) mod 2 ^ 32"
    by (simp add: uint_word_of_int flip: of_int_diff)
  then show ?thesis using assms by simp
qed

end
