(* ===== verification/Reaction.thy ===== *)
theory Reaction
  imports Judge
begin

text \<open>The board's supervised-deadline rung, \<^verbatim>\<open>src/zephyr_entry/src/island_supervisor.c\<close>: five routes with a due,
  one timer armed to the earliest, a reaction thread that judges the routes past their due, drives
  the safe-state output and calls the direct emergency functions, and the calls the components and
  the executor's levels make.

  An uptime in ms (\<open>int64_t\<close>) is an int, a word of the record a 32-bit word. A route holds its words of the
  record together with \<open>due_valid\<close> and \<open>due_ms\<close>; a slot its words with the function registered, the
  last report and the period. Every call is one step, as the spinlock makes it; a pass of the
  reaction thread reads the clock several times, and the readings are inputs of the pass. What the
  program does to the outside is the log: pin writes, trace markers, calls of the direct functions
  and feeds of SWT0.\<close>

unbundle bit_operations_syntax

section \<open>State\<close>

record route =
  r_valid :: bool
  r_due :: int
  r_armed :: u32
  r_due_ms :: u32
  r_arms :: u32
  r_dones :: u32
  r_fired :: u32
  r_fire_due_ms :: u32
  r_fire_verdict_us :: u32

record slot =
  d_fn :: bool
  d_registered :: u32
  d_calls :: u32
  d_first_uptime_us :: u32
  d_handover :: u32
  d_handover_uptime_ms :: u32
  d_alive_ms :: u32
  d_alive_period_ms :: u32
  d_resumed :: u32
  d_resume_uptime_ms :: u32
  d_resume_silent_ms :: u32
  d_alive_after_resume :: u32

datatype sup_mark = SUPERVISOR_SAFE_STATE | SUPERVISOR_DEADLINE | SUPERVISOR_RESPONSE | SUPERVISOR_FLOOR_WAIT
  | SUPERVISOR_VEHICLE_FAULT | SUPERVISOR_RESUME | SUPERVISOR_DIRECT | SUPERVISOR_HANDOVER

datatype sup_out = Trace sup_mark u32 | Drive bool | Publish nat u32 u32 | Feed

record sup_state =
  s_rt :: "nat \<Rightarrow> route"
  s_slot :: "nat \<Rightarrow> slot"
  s_latched :: u32
  s_latch_cause :: u32
  s_latch_uptime_us :: u32
  s_latch_ms :: int
  s_wakes :: u32
  s_timer_expiries :: u32
  s_gpio_errors :: u32
  s_standstill_met :: u32
  s_speed_mm_s :: u32
  s_speed_at_ms :: u32
  s_route_watch_ok :: bool
  s_answered_at_expiry :: u32
  s_answered_first_due_ms :: u32
  s_answered_first_us :: u32
  s_later_take_at_expiry :: u32
  s_floor_stage :: u32
  s_floor_met :: u32
  s_floor_latches :: u32
  s_vehicle_fault :: u32
  s_vehicle_fault_uptime_ms :: u32
  s_vehicle_fault_speed_mm_s :: u32
  s_vehicle_fault_route :: u32
  s_stale_at_due :: u32
  s_floor_unseen :: u32
  s_floor_waits :: u32
  s_brake_since_ms :: u32
  s_response_ref_mm_s :: u32
  s_response_met :: u32
  s_response_latches :: u32
  s_response_waits :: u32
  s_response_unref :: u32
  s_response_last_shed_mm_s :: u32
  s_brake_since :: int
  s_brake_ref_mm_s :: u32
  s_brake_ref_ok :: bool
  s_direct_next_ms :: int
  s_hook_calls :: u32
  s_hook_last_rule :: u32
  s_pending_hook :: u32
  s_pending_swt :: u32
  s_swt_fires :: u32
  s_swt_fire_uptime_us :: u32
  s_swt_running :: bool
  s_due_timer :: "int option"   \<comment> \<open>the uptime the timer runs out at\<close>
  s_wake :: bool                \<comment> \<open>the semaphore, at most 1\<close>
  s_log :: "sup_out list"

text \<open>The image's Kconfig values. \<open>FLOOR_SPAN_MS\<close> and \<open>RESPONSE_SPAN_MS\<close> add the standstill observation.\<close>

record sup_conf =
  c_emergency_ms :: int
  c_response_ms :: int
  c_observe_ms :: int
  c_drop_mm_s :: u32
  c_resume_periods :: u32
  c_direct_period_ms :: u32
  c_swt_ms :: int

definition FLOOR_SPAN_MS :: "sup_conf \<Rightarrow> int" where "FLOOR_SPAN_MS c = c_emergency_ms c + c_observe_ms c"

definition RESPONSE_SPAN_MS :: "sup_conf \<Rightarrow> int" where "RESPONSE_SPAN_MS c = c_response_ms c + c_observe_ms c"

text \<open>The readings of one pass: the uptime at the judgement, at the latch, when the direct path is served
  and when it publishes; the microseconds since boot for \<open>executor_due_ms\<close>; the route watch's answer
  (\<open>None\<close>: not \<open>NROS_CPP_RET_OK\<close>); \<open>uptime_us32\<close> by the place it is read at (route \<open>i\<close>, 5 the latch, \<open>6 + i\<close>
  slot \<open>i\<close>); whether the port write succeeds.\<close>

record pass_in =
  i_t :: int
  i_t_latch :: int
  i_t_serve :: int
  i_t_pub :: int
  i_now_us :: int
  i_watch :: "64 word option"
  i_us :: "nat \<Rightarrow> u32"
  i_gpio :: bool

definition upd_rt :: "nat \<Rightarrow> (route \<Rightarrow> route) \<Rightarrow> sup_state \<Rightarrow> sup_state" where
  "upd_rt i f s = s\<lparr>s_rt := (s_rt s)(i := f (s_rt s i))\<rparr>"

definition upd_slot :: "nat \<Rightarrow> (slot \<Rightarrow> slot) \<Rightarrow> sup_state \<Rightarrow> sup_state" where
  "upd_slot i f s = s\<lparr>s_slot := (s_slot s)(i := f (s_slot s i))\<rparr>"

definition say :: "sup_out \<Rightarrow> sup_state \<Rightarrow> sup_state" where
  "say e s = s\<lparr>s_log := s_log s @ [e]\<rparr>"

section \<open>Arming and clearing a route\<close>

text \<open>A due pending, and none: the due, its word and \<open>armed\<close>.\<close>

definition due_set :: "int \<Rightarrow> route \<Rightarrow> route" where
  "due_set due r = r\<lparr>r_valid := True, r_due := due, r_armed := 1, r_due_ms := of_int due\<rparr>"

definition due_clear :: "route \<Rightarrow> route" where
  "due_clear r = r\<lparr>r_valid := False, r_armed := 0\<rparr>"

definition count_arm :: "route \<Rightarrow> route" where "count_arm r = r\<lparr>r_arms := r_arms r + 1\<rparr>"

definition count_done :: "route \<Rightarrow> route" where "count_done r = r\<lparr>r_dones := r_dones r + 1\<rparr>"

definition earliest_due :: "sup_state \<Rightarrow> int option" where
  "earliest_due s =
     fold (\<lambda>i e. if r_valid (s_rt s i) \<and> (case e of None \<Rightarrow> True | Some d \<Rightarrow> r_due (s_rt s i) < d)
                 then Some (r_due (s_rt s i)) else e) [0..<5] None"

definition rearm_locked :: "sup_state \<Rightarrow> sup_state" where
  "rearm_locked s = s\<lparr>s_due_timer := earliest_due s\<rparr>"

definition speed_fresh :: "int \<Rightarrow> sup_state \<Rightarrow> bool" where
  "speed_fresh now s = (\<not> island_judge_stale (of_int now) (s_speed_at_ms s) ISLAND_STANDSTILL_FRESH_MS)"

definition response_arm_locked :: "sup_conf \<Rightarrow> int \<Rightarrow> u32 \<Rightarrow> bool \<Rightarrow> sup_state \<Rightarrow> sup_state" where
  "response_arm_locked c start ref ref_ok s =
     (if c_response_ms c = 0 then s
      else if \<not> ref_ok then upd_rt 4 due_clear (s\<lparr>s_response_unref := s_response_unref s + 1\<rparr>)
      else (upd_rt 4 (count_arm \<circ> due_set (start + RESPONSE_SPAN_MS c)) s)\<lparr>s_response_ref_mm_s := ref\<rparr>)"

definition response_clear_locked :: "sup_state \<Rightarrow> sup_state" where
  "response_clear_locked s = (if r_valid (s_rt s 4) then upd_rt 4 (count_done \<circ> due_clear) s else s)"

text \<open>\<open>t\<close> and \<open>t'\<close>: the two readings of the uptime for route 4's start and the sample's age.\<close>

definition island_supervisor_arm :: "sup_conf \<Rightarrow> int \<Rightarrow> int \<Rightarrow> nat \<Rightarrow> int \<Rightarrow> sup_state \<Rightarrow> sup_state" where
  "island_supervisor_arm c t t' route due s =
     (if route \<ge> 5 then s
      else
        (let s1 = upd_rt route (count_arm \<circ> due_set due) s;
             s2 = (if route = 3
                   then response_arm_locked c t (s_speed_mm_s s1) (speed_fresh t' s1)
                          (s1\<lparr>s_floor_stage := ISLAND_FLOOR_OPERATOR\<rparr>)
                   else s1)
         in rearm_locked s2))"

definition island_supervisor_done :: "nat \<Rightarrow> sup_state \<Rightarrow> sup_state" where
  "island_supervisor_done route s =
     (if route \<ge> 5 then s
      else if r_valid (s_rt s route)
      then (let s1 = upd_rt route (count_done \<circ> due_clear) s;
                s2 = (if route = 3 then response_clear_locked (s1\<lparr>s_floor_stage := ISLAND_FLOOR_IDLE\<rparr>) else s1)
            in rearm_locked s2)
      else s)"

section \<open>What wakes the reaction thread\<close>

definition due_expiry :: "sup_state \<Rightarrow> sup_state" where
  "due_expiry s = s\<lparr>s_due_timer := None, s_timer_expiries := s_timer_expiries s + 1, s_wake := True\<rparr>"

definition swt_first_timeout :: "u32 \<Rightarrow> sup_state \<Rightarrow> sup_state" where
  "swt_first_timeout us s =
     s\<lparr>s_swt_fires := s_swt_fires s + 1,
       s_swt_fire_uptime_us := (if s_swt_fires s = 0 then us else s_swt_fire_uptime_us s),
       s_pending_swt := 1, s_wake := True\<rparr>"

definition nros_app_reaction_hook :: "u32 \<Rightarrow> sup_state \<Rightarrow> sup_state" where
  "nros_app_reaction_hook rule_code s =
     s\<lparr>s_hook_calls := s_hook_calls s + 1, s_hook_last_rule := rule_code, s_pending_hook := 1, s_wake := True\<rparr>"

section \<open>The safe state and the direct path\<close>

definition safe_state :: "u32 \<Rightarrow> bool \<Rightarrow> int \<Rightarrow> u32 \<Rightarrow> sup_state \<Rightarrow> sup_state" where
  "safe_state cause ok t us s =
     (if s_latched s \<noteq> 0 then s
      else say (Trace SUPERVISOR_SAFE_STATE cause)
        ((say (Drive ok) s)\<lparr>s_gpio_errors := (if ok then s_gpio_errors s else s_gpio_errors s + 1),
           s_latch_ms := t, s_latch_uptime_us := us, s_latch_cause := cause, s_latched := 1\<rparr>))"

definition standstill :: "int \<Rightarrow> sup_state \<Rightarrow> bool" where
  "standstill now s = island_judge_standstill (of_int now) (s_speed_mm_s s) (s_speed_at_ms s) ISLAND_STANDSTILL_FRESH_MS"

text \<open>\<open>standstill_now\<close> answers \<open>standstill\<close> and counts a miss judged without a fresh sample.\<close>

definition standstill_now :: "int \<Rightarrow> sup_state \<Rightarrow> sup_state \<times> bool" where
  "standstill_now now s =
     (let stopped = standstill now s
      in (if \<not> stopped \<and> island_judge_stale (of_int now) (s_speed_at_ms s) ISLAND_STANDSTILL_FRESH_MS
          then s\<lparr>s_stale_at_due := s_stale_at_due s + 1\<rparr> else s, stopped))"

definition direct_owns :: "sup_state \<Rightarrow> nat \<Rightarrow> bool" where
  "direct_owns s i = (d_fn (s_slot s i) \<and> (d_handover (s_slot s i) = 0 \<or> d_resumed (s_slot s i) \<noteq> 0))"

definition direct_pending :: "sup_state \<Rightarrow> bool" where
  "direct_pending s = list_ex (direct_owns s) [0..<2]"

definition direct_watched :: "sup_state \<Rightarrow> nat \<Rightarrow> bool" where
  "direct_watched s i = (d_fn (s_slot s i) \<and> d_handover (s_slot s i) \<noteq> 0 \<and> d_resumed (s_slot s i) = 0)"

definition watch_period :: "sup_conf \<Rightarrow> slot \<Rightarrow> u32" where
  "watch_period c d = (if d_alive_period_ms d \<noteq> 0 then d_alive_period_ms d else c_direct_period_ms c)"

definition resume_due :: "sup_conf \<Rightarrow> sup_state \<Rightarrow> nat \<Rightarrow> int \<Rightarrow> int" where
  "resume_due c s i now =
     (let silent = of_int now - d_alive_ms (s_slot s i);
          limit = watch_period c (s_slot s i) * c_resume_periods c
      in if silent \<ge> limit then now else now + uint (limit - silent))"

text \<open>The braking command restarts on the direct path: route 3 judges it a whole settle from here, armed
  now if nothing has it.\<close>

definition brake_restart :: "sup_conf \<Rightarrow> int \<Rightarrow> sup_state \<Rightarrow> sup_state" where
  "brake_restart c now s =
     (let s1 = s\<lparr>s_brake_since := now, s_brake_since_ms := of_int now, s_brake_ref_mm_s := s_speed_mm_s s,
                 s_brake_ref_ok := speed_fresh now s\<rparr>
      in if r_valid (s_rt s1 3) then s1
         else rearm_locked
                (response_arm_locked c now (s_brake_ref_mm_s s1) (s_brake_ref_ok s1)
                  ((upd_rt 3 (count_arm \<circ> due_set (now + FLOOR_SPAN_MS c)) s1)\<lparr>s_floor_stage := ISLAND_FLOOR_DIRECT\<rparr>)))"

definition nibble_arg :: "nat \<Rightarrow> u32 \<Rightarrow> u32" where
  "nibble_arg i x = push_bit 28 (of_nat i) OR (x AND 0x0FFFFFFF)"

definition watch_slot :: "sup_conf \<Rightarrow> int \<Rightarrow> nat \<Rightarrow> sup_state \<times> bool \<Rightarrow> sup_state \<times> bool" where
  "watch_slot c now i = (\<lambda>(s, any).
     if \<not> direct_watched s i then (s, any)
     else if \<not> island_judge_resume (of_int now) (d_alive_ms (s_slot s i)) (watch_period c (s_slot s i)) (c_resume_periods c)
     then (s, any)
     else
       (let silent = of_int now - d_alive_ms (s_slot s i);
            s1 = say (Trace SUPERVISOR_RESUME (nibble_arg i silent))
                   (upd_slot i (\<lambda>d. d\<lparr>d_resume_uptime_ms := of_int now, d_resume_silent_ms := silent, d_resumed := 1\<rparr>) s)
        in (if i = 1 then brake_restart c now s1 else s1, True)))"

definition direct_watch :: "sup_conf \<Rightarrow> int \<Rightarrow> sup_state \<Rightarrow> sup_state \<times> bool" where
  "direct_watch c now s = fold (watch_slot c now) [0..<2] (s, False)"

definition publish_slot :: "int \<Rightarrow> (nat \<Rightarrow> u32) \<Rightarrow> nat \<Rightarrow> sup_state \<Rightarrow> sup_state" where
  "publish_slot now us i s =
     (if \<not> direct_owns s i then s
      else
        (let seq = d_calls (s_slot s i)
         in say (Publish i seq (of_int (now - s_latch_ms s)))
              (say (Trace SUPERVISOR_DIRECT (nibble_arg i seq))
                (upd_slot i (\<lambda>d. d\<lparr>d_first_uptime_us := (if seq = 0 then us (6 + i) else d_first_uptime_us d),
                                  d_calls := seq + 1\<rparr>) s))))"

definition direct_publish :: "int \<Rightarrow> (nat \<Rightarrow> u32) \<Rightarrow> sup_state \<Rightarrow> sup_state" where
  "direct_publish now us s = fold (publish_slot now us) [0..<2] s"

definition direct_service :: "sup_conf \<Rightarrow> pass_in \<Rightarrow> sup_state \<Rightarrow> sup_state" where
  "direct_service c p s =
     (let (s1, any) = direct_watch c (i_t_serve p) s;
          s2 = (if any then s1\<lparr>s_direct_next_ms := i_t_serve p\<rparr> else s1)
      in if direct_pending s2 \<and> i_t_serve p \<ge> s_direct_next_ms s2
         then (direct_publish (i_t_pub p) (i_us p) s2)\<lparr>s_direct_next_ms := i_t_serve p + uint (c_direct_period_ms c)\<rparr>
         else s2)"

text \<open>\<open>None\<close> is \<open>K_FOREVER\<close>.\<close>

definition latched_wait :: "sup_conf \<Rightarrow> int \<Rightarrow> sup_state \<Rightarrow> int option" where
  "latched_wait c now s =
     (if s_latched s = 0 then None
      else
        (let dues = (if direct_pending s then [s_direct_next_ms s] else [])
               @ [resume_due c s i now. i \<leftarrow> [0..<2], direct_watched s i]
               @ (if s_swt_running s then [now + c_swt_ms c div 4] else [])
         in if dues = [] then None else Some (foldr min (tl dues) (hd dues))))"

section \<open>A pass of the reaction thread\<close>

definition executor_due_ms :: "int \<Rightarrow> 64 word \<Rightarrow> int" where
  "executor_due_ms now_us us = (now_us + sint us + 999) div 1000"

definition uint64_max :: "64 word" where "uint64_max = - 1"

text \<open>The verdict of a route past its due: what the loop does after the checks that clear or re-arm it.\<close>

definition record_fault :: "int \<Rightarrow> nat \<Rightarrow> sup_state \<Rightarrow> sup_state" where
  "record_fault now i s =
     (if s_vehicle_fault s = 0
      then s\<lparr>s_vehicle_fault_uptime_ms := of_int now, s_vehicle_fault_speed_mm_s := s_speed_mm_s s,
             s_vehicle_fault_route := of_nat i, s_vehicle_fault := 1\<rparr>
      else s)"

definition fire :: "sup_conf \<Rightarrow> pass_in \<Rightarrow> nat \<Rightarrow> island_floor_verdict \<Rightarrow> sup_state \<Rightarrow> sup_state \<times> bool" where
  "fire c p i verdict s =
     (let r = s_rt s i;
          s1 = say (Trace SUPERVISOR_DEADLINE (nibble_arg i (of_int (r_due r))))
                 (upd_rt i (\<lambda>r. r\<lparr>r_fire_due_ms := (if r_fired r = 0 then of_int (r_due r) else r_fire_due_ms r),
                                 r_fire_verdict_us := (if r_fired r = 0 then i_us p i else r_fire_verdict_us r),
                                 r_fired := r_fired r + 1\<rparr>) s)
      in if i \<noteq> 3 \<and> i \<noteq> 4 then (s1, True)
         else if verdict = FLOOR_LATCH
         then (let s2 = (if i = 3 then s1\<lparr>s_floor_latches := s_floor_latches s1 + 1\<rparr>
                         else s1\<lparr>s_response_latches := s_response_latches s1 + 1\<rparr>)
               in (response_arm_locked c (i_t p) (s_speed_mm_s s2) (speed_fresh (i_t p) s2)
                     (upd_rt 3 (due_set (i_t p + FLOOR_SPAN_MS c)) (s2\<lparr>s_floor_stage := ISLAND_FLOOR_DIRECT\<rparr>)), True))
         else (say (Trace SUPERVISOR_VEHICLE_FAULT (s_speed_mm_s s1))
                (record_fault (i_t p) i
                  (upd_rt (if i = 3 then 4 else 3) due_clear (s1\<lparr>s_floor_stage := ISLAND_FLOOR_IDLE\<rparr>))), False))"

text \<open>How long the island's braking command has run, 0 before the latch.\<close>

definition braked_ms :: "int \<Rightarrow> sup_state \<Rightarrow> u32" where
  "braked_ms now s = (if s_latched s \<noteq> 0 then of_int (now - s_brake_since s) else 0)"

definition judge_response :: "sup_conf \<Rightarrow> pass_in \<Rightarrow> sup_state \<Rightarrow> sup_state \<times> bool" where
  "judge_response c p s =
     (let ref = s_response_ref_mm_s s;
          v = s_speed_mm_s s;
          (s1, stopped) = standstill_now (i_t p) s;
          responded = island_judge_responded stopped (speed_fresh (i_t p) s1) ref v (c_drop_mm_s c);
          shed = island_judge_shed ref v;
          verdict = island_judge_floor responded (s_latched s1 \<noteq> 0) (braked_ms (i_t p) s1) (of_int (RESPONSE_SPAN_MS c));
          s2 = say (Trace SUPERVISOR_RESPONSE (push_bit 28 (floor_code verdict) OR (shed AND 0x0FFFFFFF)))
                 (s1\<lparr>s_response_last_shed_mm_s := shed\<rparr>)
      in if verdict = FLOOR_MET
         then ((upd_rt 4 count_done s2)\<lparr>s_response_met := s_response_met s2 + 1\<rparr>, False)
         else if verdict = FLOOR_WAIT
         then (response_arm_locked c (s_brake_since s2) (s_brake_ref_mm_s s2) (s_brake_ref_ok s2)
                 (s2\<lparr>s_response_waits := s_response_waits s2 + 1\<rparr>), False)
         else fire c p 4 verdict s2)"

definition judge_floor :: "sup_conf \<Rightarrow> pass_in \<Rightarrow> sup_state \<Rightarrow> sup_state \<times> bool" where
  "judge_floor c p s =
     (if island_judge_unseen (s_speed_at_ms s)
      then (upd_rt 3 (due_set (i_t p + FLOOR_SPAN_MS c)) (s\<lparr>s_floor_unseen := s_floor_unseen s + 1\<rparr>), False)
      else
        (let (s1, stopped) = standstill_now (i_t p) s;
             verdict = island_judge_floor stopped (s_latched s1 \<noteq> 0) (braked_ms (i_t p) s1) (of_int (FLOOR_SPAN_MS c))
         in if verdict = FLOOR_MET
            then (upd_rt 4 due_clear
                    ((upd_rt 3 count_done s1)\<lparr>s_floor_met := s_floor_met s1 + 1, s_floor_stage := ISLAND_FLOOR_IDLE\<rparr>), False)
            else if verdict = FLOOR_WAIT
            then (say (Trace SUPERVISOR_FLOOR_WAIT (of_int (s_brake_since s1 + FLOOR_SPAN_MS c) AND 0x0FFFFFFF))
                    (upd_rt 3 (due_set (s_brake_since s1 + FLOOR_SPAN_MS c))
                      (s1\<lparr>s_floor_waits := s_floor_waits s1 + 1, s_floor_stage := ISLAND_FLOOR_DIRECT\<rparr>)), False)
            else fire c p 3 verdict s1))"

definition judge_executor :: "sup_conf \<Rightarrow> pass_in \<Rightarrow> 64 word \<Rightarrow> sup_state \<Rightarrow> sup_state \<times> bool" where
  "judge_executor c p left s =
     (if left = uint64_max
      then (let s1 = upd_rt 1 count_done s
            in s1\<lparr>s_answered_at_expiry := s_answered_at_expiry s1 + 1,
                  s_answered_first_due_ms := (if s_answered_at_expiry s1 = 0 then of_int (r_due (s_rt s1 1))
                                              else s_answered_first_due_ms s1),
                  s_answered_first_us := (if s_answered_at_expiry s1 = 0 then i_us p 1 else s_answered_first_us s1)\<rparr>, False)
      else if left \<noteq> 0
      then ((upd_rt 1 (due_set (executor_due_ms (i_now_us p) left)) s)\<lparr>s_later_take_at_expiry := s_later_take_at_expiry s + 1\<rparr>,
            False)
      else fire c p 1 FLOOR_LATCH s)"

definition judge_comfortable :: "sup_conf \<Rightarrow> pass_in \<Rightarrow> sup_state \<Rightarrow> sup_state \<times> bool" where
  "judge_comfortable c p s =
     (let (s1, stopped) = standstill_now (i_t p) s
      in if stopped then ((upd_rt 2 count_done s1)\<lparr>s_standstill_met := s_standstill_met s1 + 1\<rparr>, False)
         else fire c p 2 FLOOR_LATCH s1)"

text \<open>One turn of the loop over the routes; the flag: a route fired that drives the output.\<close>

definition judge_route :: "sup_conf \<Rightarrow> pass_in \<Rightarrow> 64 word \<Rightarrow> nat \<Rightarrow> sup_state \<times> bool \<Rightarrow> sup_state \<times> bool" where
  "judge_route c p left i = (\<lambda>(s, fired).
     if r_valid (s_rt s i) \<and> r_due (s_rt s i) \<le> i_t p
     then (let s1 = upd_rt i due_clear s;
               (s2, f) = (if i = 1 then judge_executor c p left s1
                          else if i = 2 then judge_comfortable c p s1
                          else if i = 3 then judge_floor c p s1
                          else if i = 4 then judge_response c p s1
                          else fire c p i FLOOR_LATCH s1)
           in (s2, fired \<or> f))
     else (s, fired))"

definition keep_swt :: "sup_state \<Rightarrow> sup_state" where
  "keep_swt s = (if s_latched s \<noteq> 0 \<and> s_swt_running s then say Feed s else s)"

definition route1_left :: "pass_in \<Rightarrow> sup_state \<Rightarrow> 64 word" where
  "route1_left p s = (if s_route_watch_ok s then (case i_watch p of Some l \<Rightarrow> l | None \<Rightarrow> 0) else 0)"

definition judge_routes :: "sup_conf \<Rightarrow> pass_in \<Rightarrow> sup_state \<Rightarrow> sup_state \<times> bool" where
  "judge_routes c p s = fold (judge_route c p (route1_left p s)) [0..<5] (s, False)"

text \<open>The output, for a route, the executor's hook and SWT0, and what starts with it.\<close>

definition drive_output :: "pass_in \<Rightarrow> bool \<Rightarrow> sup_state \<Rightarrow> sup_state" where
  "drive_output p fired s =
     (let latch = (\<lambda>cause. safe_state cause (i_gpio p) (i_t_latch p) (i_us p 5));
          s1 = (if fired then latch 1 s else s);
          s2 = (if s_pending_hook s1 \<noteq> 0 then latch 3 (s1\<lparr>s_pending_hook := 0\<rparr>) else s1);
          s3 = (if s_pending_swt s2 \<noteq> 0 then latch 2 (s2\<lparr>s_pending_swt := 0\<rparr>) else s2)
      in if s_latched s = 0 \<and> s_latched s3 \<noteq> 0
         then s3\<lparr>s_brake_since := i_t p, s_brake_since_ms := of_int (i_t p), s_brake_ref_mm_s := s_speed_mm_s s3,
                 s_brake_ref_ok := speed_fresh (i_t p) s3, s_direct_next_ms := i_t p\<rparr>
         else s3)"

definition reaction_pass :: "sup_conf \<Rightarrow> pass_in \<Rightarrow> sup_state \<Rightarrow> sup_state" where
  "reaction_pass c p s =
     (let s0 = keep_swt (s\<lparr>s_wake := False\<rparr>);
          (s1, fired) = judge_routes c p (s0\<lparr>s_wakes := s_wakes s0 + 1\<rparr>);
          s2 = drive_output p fired (rearm_locked s1)
      in if s_latched s2 \<noteq> 0 then direct_service c p s2 else s2)"

text \<open>The wait ran out: a period or a resume deadline.\<close>

definition reaction_timeout :: "sup_conf \<Rightarrow> pass_in \<Rightarrow> sup_state \<Rightarrow> sup_state" where
  "reaction_timeout c p s =
     (let s0 = keep_swt s in if s_latched s0 \<noteq> 0 then direct_service c p s0 else s0)"

section \<open>The components' calls\<close>

definition island_supervisor_set_direct :: "nat \<Rightarrow> bool \<Rightarrow> sup_state \<Rightarrow> sup_state" where
  "island_supervisor_set_direct i fn s =
     (if i \<ge> 2 then s else upd_slot i (\<lambda>d. d\<lparr>d_fn := fn, d_registered := 1\<rparr>) s)"

definition island_supervisor_handover :: "u32 \<Rightarrow> nat \<Rightarrow> u32 \<Rightarrow> sup_state \<Rightarrow> sup_state \<times> u32" where
  "island_supervisor_handover now i period_ms s =
     (if i \<ge> 2 \<or> s_latched s = 0 then (s, 0)
      else if d_resumed (s_slot s i) \<noteq> 0
      then (upd_slot i (\<lambda>d. d\<lparr>d_alive_after_resume := d_alive_after_resume d + 1\<rparr>) s, 0)
      else
        (let s1 = upd_slot i (\<lambda>d. d\<lparr>d_alive_ms := now, d_alive_period_ms := period_ms\<rparr>) s
         in (if d_handover (s_slot s1 i) = 0
             then (say (Trace SUPERVISOR_HANDOVER (of_nat i))
                    (upd_slot i (\<lambda>d. d\<lparr>d_handover_uptime_ms := now, d_handover := 1\<rparr>) s1))\<lparr>s_wake := True\<rparr>
             else s1, 1)))"

definition island_supervisor_latched :: "sup_state \<Rightarrow> u32" where "island_supervisor_latched s = s_latched s"

definition island_supervisor_resumed :: "nat \<Rightarrow> sup_state \<Rightarrow> u32" where
  "island_supervisor_resumed i s = (if i < 2 then d_resumed (s_slot s i) else 0)"

definition island_supervisor_vehicle_fault :: "sup_state \<Rightarrow> u32" where
  "island_supervisor_vehicle_fault s = s_vehicle_fault s"

definition island_supervisor_note_speed :: "u32 \<Rightarrow> u32 \<Rightarrow> sup_state \<Rightarrow> sup_state" where
  "island_supervisor_note_speed now speed s = s\<lparr>s_speed_mm_s := speed, s_speed_at_ms := now\<rparr>"

section \<open>Runs\<close>

definition route_zero :: route where
  "route_zero = \<lparr>r_valid = False, r_due = 0, r_armed = 0, r_due_ms = 0, r_arms = 0, r_dones = 0, r_fired = 0,
     r_fire_due_ms = 0, r_fire_verdict_us = 0\<rparr>"

definition slot_zero :: slot where
  "slot_zero = \<lparr>d_fn = False, d_registered = 0, d_calls = 0, d_first_uptime_us = 0, d_handover = 0,
     d_handover_uptime_ms = 0, d_alive_ms = 0, d_alive_period_ms = 0, d_resumed = 0, d_resume_uptime_ms = 0,
     d_resume_silent_ms = 0, d_alive_after_resume = 0\<rparr>"

text \<open>The board at boot; \<open>ok\<close>: the pin was configured.\<close>

definition island_supervisor_init :: "bool \<Rightarrow> sup_state" where
  "island_supervisor_init ok =
     \<lparr>s_rt = (\<lambda>_. route_zero), s_slot = (\<lambda>_. slot_zero), s_latched = 0, s_latch_cause = 0, s_latch_uptime_us = 0,
      s_latch_ms = 0, s_wakes = 0, s_timer_expiries = 0, s_gpio_errors = (if ok then 0 else 1), s_standstill_met = 0,
      s_speed_mm_s = 0, s_speed_at_ms = 0, s_route_watch_ok = False, s_answered_at_expiry = 0,
      s_answered_first_due_ms = 0, s_answered_first_us = 0, s_later_take_at_expiry = 0, s_floor_stage = 0,
      s_floor_met = 0, s_floor_latches = 0, s_vehicle_fault = 0, s_vehicle_fault_uptime_ms = 0,
      s_vehicle_fault_speed_mm_s = 0, s_vehicle_fault_route = 0, s_stale_at_due = 0, s_floor_unseen = 0,
      s_floor_waits = 0, s_brake_since_ms = 0, s_response_ref_mm_s = 0, s_response_met = 0, s_response_latches = 0,
      s_response_waits = 0, s_response_unref = 0, s_response_last_shed_mm_s = 0, s_brake_since = 0,
      s_brake_ref_mm_s = 0, s_brake_ref_ok = False, s_direct_next_ms = 0, s_hook_calls = 0, s_hook_last_rule = 0,
      s_pending_hook = 0, s_pending_swt = 0, s_swt_fires = 0, s_swt_fire_uptime_us = 0, s_swt_running = False,
      s_due_timer = None, s_wake = False, s_log = []\<rparr>"

definition pass_ok :: "int \<Rightarrow> pass_in \<Rightarrow> bool" where
  "pass_ok t p \<longleftrightarrow> t \<le> i_t p \<and> i_t p \<le> i_t_latch p \<and> i_t_latch p \<le> i_t_serve p \<and> i_t_serve p \<le> i_t_pub p"

text \<open>What can happen, each with the uptime it happens at: the components' and the executor's calls (no
  component arms route 4), the interrupts, and the reaction thread when it is woken or its wait ran
  out. The timer runs out at its due or later.\<close>

datatype sup_step = Arm int nat int | Done nat | Expire | Swt u32 | Hook u32 | Pass pass_in | Timeout pass_in
  | Set_direct nat bool | Handover nat u32 | Note_speed u32 | Watch_filled | Swt_started | Swt_fed

definition sup_do :: "sup_conf \<Rightarrow> int \<Rightarrow> sup_step \<Rightarrow> sup_state \<Rightarrow> sup_state" where
  "sup_do c t x s = (case x of
       Arm t' route due \<Rightarrow> island_supervisor_arm c t t' route due s
     | Done route \<Rightarrow> island_supervisor_done route s
     | Expire \<Rightarrow> due_expiry s
     | Swt us \<Rightarrow> swt_first_timeout us s
     | Hook rule \<Rightarrow> nros_app_reaction_hook rule s
     | Pass p \<Rightarrow> reaction_pass c p s
     | Timeout p \<Rightarrow> reaction_timeout c p s
     | Set_direct i fn \<Rightarrow> island_supervisor_set_direct i fn s
     | Handover i period \<Rightarrow> fst (island_supervisor_handover (of_int t) i period s)
     | Note_speed v \<Rightarrow> island_supervisor_note_speed (of_int t) v s
     | Watch_filled \<Rightarrow> s\<lparr>s_route_watch_ok := True\<rparr>
     | Swt_started \<Rightarrow> s\<lparr>s_swt_running := True\<rparr>
     | Swt_fed \<Rightarrow> say Feed s)"

definition step_ok :: "int \<Rightarrow> sup_step \<Rightarrow> sup_state \<Rightarrow> bool" where
  "step_ok t x s = (case x of
       Arm t' route due \<Rightarrow> t \<le> t' \<and> route \<noteq> 4
     | Expire \<Rightarrow> (case s_due_timer s of None \<Rightarrow> False | Some d \<Rightarrow> d \<le> t)
     | Pass p \<Rightarrow> s_wake s \<and> pass_ok t p
     | Timeout p \<Rightarrow> pass_ok t p
     | _ \<Rightarrow> True)"

definition step_end :: "int \<Rightarrow> sup_step \<Rightarrow> int" where
  "step_end t x = (case x of Arm t' _ _ \<Rightarrow> t' | Pass p \<Rightarrow> i_t_pub p | Timeout p \<Rightarrow> i_t_pub p | _ \<Rightarrow> t)"

inductive reach :: "sup_conf \<Rightarrow> int \<Rightarrow> sup_state \<Rightarrow> bool" for c where
  boot: "0 \<le> t \<Longrightarrow> reach c t (island_supervisor_init ok)"
| step: "reach c t s \<Longrightarrow> t \<le> u \<Longrightarrow> step_ok u x s \<Longrightarrow> reach c (step_end u x) (sup_do c u x s)"

end
