(* ===== verification/Reaction_Laws.thy ===== *)
theory Reaction_Laws
  imports Reaction
begin

text \<open>What the steps of \<open>Reaction\<close> keep and do: the emergency stop's supervision and its stage agree, the timer
  is armed to the earliest due, the fault and the latch are for good, a pass judges each route on what
  it saw, and a service of the direct path publishes exactly the slots it owns.

  A judgement is cut into the first three routes (\<open>judge_low\<close>), route 3 (\<open>judge_3\<close>) and route 4 (\<open>judge_4\<close>);
  \<open>judged_on\<close> is the part of the state no judgement changes.\<close>

section \<open>Selectors\<close>

lemmas route_defs = due_set_def due_clear_def count_arm_def count_done_def
lemmas sup_upd_defs = upd_rt_def upd_slot_def say_def

lemma say_sel [simp]:
  "s_latched (say e s) = s_latched s" "s_floor_stage (say e s) = s_floor_stage s"
  "s_vehicle_fault (say e s) = s_vehicle_fault s" "s_speed_mm_s (say e s) = s_speed_mm_s s"
  "s_speed_at_ms (say e s) = s_speed_at_ms s" "s_brake_since (say e s) = s_brake_since s"
  "s_latch_ms (say e s) = s_latch_ms s" "s_due_timer (say e s) = s_due_timer s" "s_wake (say e s) = s_wake s"
  "s_direct_next_ms (say e s) = s_direct_next_ms s" "s_pending_hook (say e s) = s_pending_hook s"
  "s_pending_swt (say e s) = s_pending_swt s" "s_swt_running (say e s) = s_swt_running s"
  "s_brake_ref_ok (say e s) = s_brake_ref_ok s" "s_brake_ref_mm_s (say e s) = s_brake_ref_mm_s s"
  "s_rt (say e s) = s_rt s" "s_slot (say e s) = s_slot s" "s_log (say e s) = s_log s @ [e]"
  by (simp_all add: sup_upd_defs)

lemma upd_rt_sel [simp]:
  "s_latched (upd_rt i f s) = s_latched s" "s_floor_stage (upd_rt i f s) = s_floor_stage s"
  "s_vehicle_fault (upd_rt i f s) = s_vehicle_fault s" "s_speed_mm_s (upd_rt i f s) = s_speed_mm_s s"
  "s_speed_at_ms (upd_rt i f s) = s_speed_at_ms s" "s_brake_since (upd_rt i f s) = s_brake_since s"
  "s_latch_ms (upd_rt i f s) = s_latch_ms s" "s_due_timer (upd_rt i f s) = s_due_timer s"
  "s_wake (upd_rt i f s) = s_wake s" "s_direct_next_ms (upd_rt i f s) = s_direct_next_ms s"
  "s_pending_hook (upd_rt i f s) = s_pending_hook s" "s_pending_swt (upd_rt i f s) = s_pending_swt s"
  "s_swt_running (upd_rt i f s) = s_swt_running s" "s_brake_ref_ok (upd_rt i f s) = s_brake_ref_ok s"
  "s_brake_ref_mm_s (upd_rt i f s) = s_brake_ref_mm_s s" "s_rt (upd_rt i f s) = (s_rt s)(i := f (s_rt s i))"
  "s_slot (upd_rt i f s) = s_slot s" "s_log (upd_rt i f s) = s_log s"
  by (simp_all add: sup_upd_defs)

lemma upd_slot_sel [simp]:
  "s_latched (upd_slot i g s) = s_latched s" "s_floor_stage (upd_slot i g s) = s_floor_stage s"
  "s_vehicle_fault (upd_slot i g s) = s_vehicle_fault s" "s_speed_mm_s (upd_slot i g s) = s_speed_mm_s s"
  "s_speed_at_ms (upd_slot i g s) = s_speed_at_ms s" "s_brake_since (upd_slot i g s) = s_brake_since s"
  "s_latch_ms (upd_slot i g s) = s_latch_ms s" "s_due_timer (upd_slot i g s) = s_due_timer s"
  "s_wake (upd_slot i g s) = s_wake s" "s_direct_next_ms (upd_slot i g s) = s_direct_next_ms s"
  "s_pending_hook (upd_slot i g s) = s_pending_hook s" "s_pending_swt (upd_slot i g s) = s_pending_swt s"
  "s_swt_running (upd_slot i g s) = s_swt_running s" "s_brake_ref_ok (upd_slot i g s) = s_brake_ref_ok s"
  "s_brake_ref_mm_s (upd_slot i g s) = s_brake_ref_mm_s s"
  "s_slot (upd_slot i g s) = (s_slot s)(i := g (s_slot s i))" "s_rt (upd_slot i g s) = s_rt s"
  "s_log (upd_slot i g s) = s_log s"
  by (simp_all add: sup_upd_defs)

section \<open>The supervision and its stage\<close>

text \<open>The stage is idle exactly when route 3 has no due, and route 4 never runs without route 3.\<close>

definition floor_inv :: "sup_state \<Rightarrow> bool" where
  "floor_inv s \<longleftrightarrow> (s_floor_stage s \<noteq> 0 \<longleftrightarrow> r_valid (s_rt s 3)) \<and> (r_valid (s_rt s 4) \<longrightarrow> r_valid (s_rt s 3))"

named_theorems floor_intros

lemma floor_inv_other [floor_intros]:
  "i \<noteq> 3 \<Longrightarrow> i \<noteq> 4 \<Longrightarrow> floor_inv s \<Longrightarrow> floor_inv (upd_rt i f s)"
  by (simp add: floor_inv_def sup_upd_defs)

lemma floor_inv_arm [floor_intros]:
  "route \<noteq> 4 \<Longrightarrow> floor_inv s \<Longrightarrow> floor_inv (island_supervisor_arm c t t' route due s)"
  by (auto simp: floor_inv_def island_supervisor_arm_def response_arm_locked_def rearm_locked_def route_defs sup_upd_defs Let_def)

lemma floor_inv_done [floor_intros]: "floor_inv s \<Longrightarrow> floor_inv (island_supervisor_done route s)"
  by (auto simp: floor_inv_def island_supervisor_done_def response_clear_locked_def rearm_locked_def route_defs sup_upd_defs Let_def)

lemma floor_inv_safe_state [floor_intros]: "floor_inv s \<Longrightarrow> floor_inv (safe_state cause ok t us s)"
  by (simp add: floor_inv_def safe_state_def sup_upd_defs)

lemma floor_inv_standstill_now: "floor_inv (fst (standstill_now t s)) = floor_inv s"
  by (simp add: floor_inv_def standstill_now_def Let_def)

lemma floor_inv_brake_restart [floor_intros]: "floor_inv s \<Longrightarrow> floor_inv (brake_restart c t s)"
  by (auto simp: floor_inv_def brake_restart_def response_arm_locked_def rearm_locked_def route_defs sup_upd_defs Let_def)

lemma upto_5: "[0..<5] = [0, 1, 2, 3, 4 :: nat]" by (simp add: upt_rec)
lemma upto_2: "[0..<2] = [0, 1 :: nat]" by (simp add: upt_rec)

text \<open>What serving the direct path keeps: anything kept by a change of a slot, a line of the log and the
  restart of the braking command.\<close>

lemma direct_service_keeps:
  assumes s: "P s"
    and upd: "\<And>s i g. P s \<Longrightarrow> P (upd_slot i g s)"
    and log: "\<And>s e. P s \<Longrightarrow> P (say e s)"
    and brake: "\<And>s. P s \<Longrightarrow> P (brake_restart c (i_t_serve p) s)"
    and nxt: "\<And>s t. P s \<Longrightarrow> P (s\<lparr>s_direct_next_ms := t\<rparr>)"
  shows "P (direct_service c p s)"
proof -
  have watch: "P (fst (watch_slot c (i_t_serve p) i z))" if "P (fst z)" for i z
    using that by (cases z) (auto simp: watch_slot_def Let_def intro!: brake log upd)
  have pub: "P (publish_slot t us i s1)" if "P s1" for t us i s1
    using that by (auto simp: publish_slot_def Let_def intro!: log upd)
  have "P (fst (direct_watch c (i_t_serve p) s))"
    using s by (simp add: direct_watch_def upto_2 watch)
  then show ?thesis
    by (auto simp: direct_service_def direct_publish_def upto_2 Let_def split: prod.split intro!: nxt pub)
qed

lemma floor_inv_fire:
  "i \<noteq> 3 \<Longrightarrow> i \<noteq> 4 \<Longrightarrow> floor_inv s \<Longrightarrow> floor_inv (fst (fire c p i v s))"
  "\<not> r_valid (s_rt s 4) \<Longrightarrow> floor_inv (fst (fire c p 4 v s))"
  "\<not> r_valid (s_rt s 3) \<Longrightarrow> floor_inv (fst (fire c p 3 v s))"
  by (auto simp: floor_inv_def fire_def response_arm_locked_def record_fault_def route_defs sup_upd_defs Let_def)

lemma floor_inv_judge_executor: "floor_inv s \<Longrightarrow> floor_inv (fst (judge_executor c p l s))"
  by (auto simp: judge_executor_def Let_def floor_inv_fire) (auto simp: floor_inv_def sup_upd_defs)

lemma floor_inv_judge_comfortable: "floor_inv s \<Longrightarrow> floor_inv (fst (judge_comfortable c p s))"
  using floor_inv_standstill_now[of "i_t p" s]
  by (auto simp: judge_comfortable_def Let_def floor_inv_fire split: prod.split) (auto simp: floor_inv_def sup_upd_defs)

lemma standstill_now_same [simp]:
  "s_rt (fst (standstill_now t s)) = s_rt s" "s_latched (fst (standstill_now t s)) = s_latched s"
  "s_floor_stage (fst (standstill_now t s)) = s_floor_stage s" "snd (standstill_now t s) = standstill t s"
  "s_speed_mm_s (fst (standstill_now t s)) = s_speed_mm_s s" "s_speed_at_ms (fst (standstill_now t s)) = s_speed_at_ms s"
  "s_brake_since (fst (standstill_now t s)) = s_brake_since s" "s_slot (fst (standstill_now t s)) = s_slot s"
  "s_vehicle_fault (fst (standstill_now t s)) = s_vehicle_fault s" "s_log (fst (standstill_now t s)) = s_log s"
  "s_due_timer (fst (standstill_now t s)) = s_due_timer s" "s_wake (fst (standstill_now t s)) = s_wake s"
  by (simp_all add: standstill_now_def Let_def)

lemma standstill_now_pair: "standstill_now t s = (fst (standstill_now t s), standstill t s)"
  by (simp add: standstill_now_def Let_def)

lemma floor_inv_judge_floor:
  "s_floor_stage s \<noteq> 0 \<Longrightarrow> \<not> r_valid (s_rt s 3) \<Longrightarrow> floor_inv (fst (judge_floor c p s))"
  by (subst judge_floor_def, subst standstill_now_pair)
    (auto simp: Let_def floor_inv_fire, auto simp: floor_inv_def route_defs sup_upd_defs)

lemma floor_inv_simps [simp]:
  "floor_inv (say e s) = floor_inv s" "floor_inv (upd_rt i count_done s) = floor_inv s"
  "floor_inv (s\<lparr>s_response_met := x\<rparr>) = floor_inv s" "floor_inv (s\<lparr>s_response_waits := x\<rparr>) = floor_inv s"
  "floor_inv (s\<lparr>s_response_last_shed_mm_s := x\<rparr>) = floor_inv s" "floor_inv (s\<lparr>s_direct_next_ms := t\<rparr>) = floor_inv s"
  "floor_inv (upd_slot i g s) = floor_inv s" "floor_inv (s\<lparr>s_brake_since := t\<rparr>) = floor_inv s"
  "floor_inv (s\<lparr>s_brake_since_ms := x\<rparr>) = floor_inv s" "floor_inv (s\<lparr>s_brake_ref_mm_s := x\<rparr>) = floor_inv s"
  "floor_inv (s\<lparr>s_brake_ref_ok := b\<rparr>) = floor_inv s" "floor_inv (s\<lparr>s_pending_hook := x\<rparr>) = floor_inv s"
  "floor_inv (s\<lparr>s_pending_swt := x\<rparr>) = floor_inv s" "floor_inv (s\<lparr>s_wakes := x\<rparr>) = floor_inv s"
  "floor_inv (s\<lparr>s_wake := b\<rparr>) = floor_inv s" "floor_inv (s\<lparr>s_due_timer := d\<rparr>) = floor_inv s"
  by (auto simp: floor_inv_def sup_upd_defs count_done_def)

lemma floor_inv_response_arm:
  "floor_inv s \<Longrightarrow> r_valid (s_rt s 3) \<or> \<not> b \<Longrightarrow> floor_inv (response_arm_locked c t v b s)"
  by (auto simp: response_arm_locked_def floor_inv_def sup_upd_defs route_defs)

lemma floor_inv_judge_response:
  assumes "floor_inv s" "\<not> r_valid (s_rt s 4)" "r_valid (s_rt s 3)"
  shows "floor_inv (fst (judge_response c p s))"
proof -
  let ?s1 = "fst (standstill_now (i_t p) s)"
  have "floor_inv ?s1" using assms by (simp add: floor_inv_standstill_now)
  then show ?thesis using assms
    unfolding judge_response_def by (subst standstill_now_pair) (simp add: Let_def floor_inv_fire(2) floor_inv_response_arm)
qed

lemma floor_inv_judge_route: "floor_inv (fst z) \<Longrightarrow> floor_inv (fst (judge_route c p l i z))"
proof -
  assume h: "floor_inv (fst z)"
  obtain s f where z: "z = (s, f)" by (cases z)
  let ?s = "upd_rt i due_clear s"
  have v: "\<not> r_valid (s_rt ?s i)" and st: "s_floor_stage ?s = s_floor_stage s" by (simp_all add: sup_upd_defs due_clear_def)
  show ?thesis
  proof (cases "i = 3 \<and> r_valid (s_rt s 3)")
    case True
    then have "s_floor_stage ?s \<noteq> 0" using h z by (simp add: st floor_inv_def)
    with True z v h show ?thesis
      using floor_inv_judge_floor[of ?s c p] by (auto simp: judge_route_def Let_def split: prod.split)
  next
    case False
    then have f: "i \<noteq> 3 \<Longrightarrow> floor_inv ?s" and r3: "i = 4 \<Longrightarrow> r_valid (s_rt s 4) \<Longrightarrow> r_valid (s_rt ?s 3)"
      using h z by (auto simp: floor_inv_def sup_upd_defs due_clear_def)
    then show ?thesis using h z v False
      using floor_inv_judge_executor[of ?s c p l] floor_inv_judge_comfortable[of ?s c p]
        floor_inv_judge_response[of ?s c p] floor_inv_fire(1)[of i ?s c p FLOOR_LATCH]
      by (cases "i = 3") (auto simp: judge_route_def Let_def split: prod.split)
  qed
qed

lemma floor_inv_service [floor_intros]: "floor_inv s \<Longrightarrow> floor_inv (direct_service c p s)"
  by (rule direct_service_keeps[of floor_inv]) (simp_all add: floor_inv_brake_restart)

lemma floor_inv_drive_output [floor_intros]: "floor_inv s \<Longrightarrow> floor_inv (drive_output p f s)"
  by (simp add: drive_output_def Let_def floor_inv_safe_state)

lemma floor_inv_pass [floor_intros]: "floor_inv s \<Longrightarrow> floor_inv (reaction_pass c p s)"
proof -
  assume h: "floor_inv s"
  have "floor_inv (fst (judge_routes c p (keep_swt (s\<lparr>s_wake := False\<rparr>)\<lparr>s_wakes := w\<rparr>)))" for w
    using h by (simp add: judge_routes_def upto_5 floor_inv_judge_route keep_swt_def)
  then have "floor_inv (drive_output p f (rearm_locked (fst (judge_routes c p (keep_swt (s\<lparr>s_wake := False\<rparr>)\<lparr>s_wakes := w\<rparr>)))))" for f w
    by (intro floor_inv_drive_output) (simp add: rearm_locked_def)
  then show ?thesis
    by (simp add: reaction_pass_def case_prod_beta Let_def floor_inv_service)
qed

lemma floor_inv_do:
  assumes "floor_inv s" "step_ok t x s"
  shows "floor_inv (sup_do c t x s)"
proof (cases x)
  case (Handover i period)
  then show ?thesis using assms by (auto simp: sup_do_def island_supervisor_handover_def Let_def)
next
  case (Timeout p)
  then show ?thesis using assms by (simp add: sup_do_def reaction_timeout_def keep_swt_def Let_def floor_inv_service)
qed (use assms in \<open>auto simp: sup_do_def step_ok_def floor_intros due_expiry_def swt_first_timeout_def
      nros_app_reaction_hook_def island_supervisor_set_direct_def island_supervisor_note_speed_def\<close>,
    simp_all add: floor_inv_def)

lemma floor_inv_init: "floor_inv (island_supervisor_init ok)"
  by (simp add: floor_inv_def island_supervisor_init_def route_zero_def)

lemma floor_inv_reach: "reach c t s \<Longrightarrow> floor_inv s"
  by (induction rule: reach.induct) (simp_all add: floor_inv_do floor_inv_init)

section \<open>The timer\<close>

text \<open>The timer is armed to the earliest due, or the reaction thread is about to run.\<close>

definition timer_inv :: "sup_state \<Rightarrow> bool" where
  "timer_inv s \<longleftrightarrow> s_wake s \<or> s_due_timer s = earliest_due s"

lemma earliest_due_cong: "s_rt s = s_rt s' \<Longrightarrow> earliest_due s = earliest_due s'"
  by (simp only: earliest_due_def)

lemma earliest_due_le:
  assumes "i < 5" "r_valid (s_rt s i)"
  shows "\<exists>d. earliest_due s = Some d \<and> d \<le> r_due (s_rt s i)"
proof -
  define g where "g = (\<lambda>i e. if r_valid (s_rt s i) \<and> (case e of None \<Rightarrow> True | Some d \<Rightarrow> r_due (s_rt s i) < d)
                       then Some (r_due (s_rt s i)) else e)"
  have keep: "\<exists>d'. fold g xs (Some d) = Some d' \<and> d' \<le> d" for xs d
    by (induction xs arbitrary: d) (auto simp: g_def, (meson order_less_imp_le order_trans)+)
  have "i \<in> set xs \<Longrightarrow> \<exists>d. fold g xs e = Some d \<and> d \<le> r_due (s_rt s i)" for xs e
  proof (induction xs arbitrary: e)
    case (Cons x xs)
    show ?case
    proof (cases "i = x")
      case True
      then obtain d where "g x e = Some d" "d \<le> r_due (s_rt s i)"
        using assms(2) by (cases e; cases "r_due (s_rt s i) < the e") (auto simp: g_def)
      then show ?thesis using keep[of xs d] by fastforce
    qed (use Cons in auto)
  qed simp
  from this[of "[0..<5]" None] show ?thesis using assms(1) by (simp add: earliest_due_def g_def)
qed

definition timer_exact :: "sup_state \<Rightarrow> bool" where "timer_exact s \<longleftrightarrow> s_due_timer s = earliest_due s"

lemma timer_exact_rearm [simp]: "timer_exact (rearm_locked s)"
  using earliest_due_cong[of "s\<lparr>s_due_timer := earliest_due s\<rparr>" s] by (simp add: timer_exact_def rearm_locked_def)

lemma timer_exact_cong: "s_rt s' = s_rt s \<Longrightarrow> s_due_timer s' = s_due_timer s \<Longrightarrow> timer_exact s \<Longrightarrow> timer_exact s'"
  using earliest_due_cong[of s' s] by (simp add: timer_exact_def)

lemma timer_exact_service: "timer_exact s \<Longrightarrow> timer_exact (direct_service c p s)"
  by (rule direct_service_keeps[of timer_exact])
    (auto simp: brake_restart_def Let_def intro: timer_exact_cong[rotated 2])

lemma drive_output_same [simp]: "s_rt (drive_output p f s) = s_rt s" "s_due_timer (drive_output p f s) = s_due_timer s"
  "s_wake (drive_output p f s) = s_wake s"  "s_slot (drive_output p f s) = s_slot s"
  "s_vehicle_fault (drive_output p f s) = s_vehicle_fault s"
  by (simp_all add: drive_output_def safe_state_def Let_def)

lemma timer_exact_pass: "timer_exact (reaction_pass c p s)"
proof -
  have "timer_exact (drive_output p f (rearm_locked s1))" for f s1
    by (rule timer_exact_cong[of _ "rearm_locked s1"]) simp_all
  then show ?thesis by (simp add: reaction_pass_def case_prod_beta Let_def timer_exact_service)
qed

lemma wake_service [simp]: "s_wake (direct_service c p s) = s_wake s"
  by (rule direct_service_keeps[of "\<lambda>s'. s_wake s' = s_wake s"])
    (auto simp: brake_restart_def response_arm_locked_def rearm_locked_def Let_def)

lemma timer_inv_woken [simp]: "s_wake s \<Longrightarrow> timer_inv s" by (simp add: timer_inv_def)

lemma timer_inv_cong:
  "s_rt s' = s_rt s \<Longrightarrow> s_due_timer s' = s_due_timer s \<Longrightarrow> (s_wake s \<Longrightarrow> s_wake s') \<Longrightarrow> timer_inv s \<Longrightarrow> timer_inv s'"
  using timer_exact_cong[of s' s] by (auto simp: timer_inv_def timer_exact_def)

lemma timer_inv_do:
  assumes "timer_inv s"
  shows "timer_inv (sup_do c t x s)"
proof (cases x)
  case (Arm t' route due)
  then show ?thesis using assms
    by (auto simp: sup_do_def island_supervisor_arm_def timer_inv_def Let_def timer_exact_rearm[unfolded timer_exact_def])
next
  case (Done route)
  then show ?thesis using assms
    by (auto simp: sup_do_def island_supervisor_done_def timer_inv_def Let_def timer_exact_rearm[unfolded timer_exact_def])
next
  case (Pass p)
  then show ?thesis using timer_exact_pass[of c p s] by (simp add: sup_do_def timer_inv_def timer_exact_def)
next
  case (Timeout p)
  have "timer_exact s \<Longrightarrow> timer_exact (direct_service c p (say e s))" for e
    by (intro timer_exact_service) (auto intro: timer_exact_cong[rotated 2])
  then show ?thesis using Timeout assms timer_exact_service[of s c p]
    by (auto simp: sup_do_def reaction_timeout_def keep_swt_def Let_def timer_inv_def simp flip: timer_exact_def
        intro: timer_exact_cong[rotated 2])
next
  case (Handover i period)
  then show ?thesis
    by (auto simp: sup_do_def island_supervisor_handover_def Let_def intro: timer_inv_cong[OF _ _ _ assms])
next
  case (Set_direct i fn)
  then show ?thesis
    by (auto simp: sup_do_def island_supervisor_set_direct_def intro: timer_inv_cong[OF _ _ _ assms])
qed (auto simp: sup_do_def due_expiry_def swt_first_timeout_def nros_app_reaction_hook_def
      island_supervisor_note_speed_def timer_inv_woken intro: timer_inv_cong[OF _ _ _ assms])

lemma timer_inv_reach: "reach c t s \<Longrightarrow> timer_inv s"
proof (induction rule: reach.induct)
  case (boot t ok)
  show ?case by (simp add: timer_inv_def earliest_due_def upto_5 island_supervisor_init_def route_zero_def)
qed (rule timer_inv_do)

lemma due_has_timer:
  assumes "timer_inv s" "i < 5" "r_valid (s_rt s i)"
  shows "s_wake s \<or> (\<exists>d. s_due_timer s = Some d \<and> d \<le> r_due (s_rt s i))"
  using assms earliest_due_le[of i s] by (auto simp: timer_inv_def)

section \<open>What judging leaves alone\<close>

definition judged_on :: "sup_state \<Rightarrow> u32 \<times> int \<times> u32 \<times> u32 \<times> (nat \<Rightarrow> slot) \<times> u32 \<times> u32 \<times> bool \<times> bool" where
  "judged_on s = (s_latched s, s_brake_since s, s_speed_mm_s s, s_speed_at_ms s, s_slot s, s_pending_hook s, s_pending_swt s,
             s_wake s, s_swt_running s)"

lemma seen_simps [simp]:
  "judged_on (say e s) = judged_on s" "judged_on (upd_rt i f s) = judged_on s" "judged_on (fst (standstill_now t s)) = judged_on s"
  "judged_on (response_arm_locked c t v b s) = judged_on s" "judged_on (record_fault t i s) = judged_on s" "judged_on (rearm_locked s) = judged_on s"
  "judged_on (s\<lparr>s_floor_stage := x\<rparr>) = judged_on s" "judged_on (s\<lparr>s_floor_met := x\<rparr>) = judged_on s" "judged_on (s\<lparr>s_floor_latches := x\<rparr>) = judged_on s"
  "judged_on (s\<lparr>s_response_latches := x\<rparr>) = judged_on s" "judged_on (s\<lparr>s_response_met := x\<rparr>) = judged_on s"
  "judged_on (s\<lparr>s_response_waits := x\<rparr>) = judged_on s" "judged_on (s\<lparr>s_floor_waits := x\<rparr>) = judged_on s"
  "judged_on (s\<lparr>s_response_last_shed_mm_s := x\<rparr>) = judged_on s" "judged_on (s\<lparr>s_floor_unseen := x\<rparr>) = judged_on s"
  "judged_on (s\<lparr>s_answered_at_expiry := x\<rparr>) = judged_on s" "judged_on (s\<lparr>s_answered_first_due_ms := x\<rparr>) = judged_on s"
  "judged_on (s\<lparr>s_answered_first_us := x\<rparr>) = judged_on s" "judged_on (s\<lparr>s_later_take_at_expiry := x\<rparr>) = judged_on s"
  "judged_on (s\<lparr>s_standstill_met := x\<rparr>) = judged_on s" "judged_on (s\<lparr>s_wakes := x\<rparr>) = judged_on s"
  by (simp_all add: judged_on_def standstill_now_def response_arm_locked_def record_fault_def rearm_locked_def Let_def)

lemma seen_fire: "judged_on (fst (fire c p i v s)) = judged_on s"
  by (simp add: fire_def Let_def)

lemma seen_judge_route: "judged_on (fst (judge_route c p l i z)) = judged_on (fst z)"
proof -
  have "judged_on (fst (judge_executor c p l s)) = judged_on s" "judged_on (fst (judge_comfortable c p s)) = judged_on s"
    "judged_on (fst (judge_floor c p s)) = judged_on s" "judged_on (fst (judge_response c p s)) = judged_on s" for s
    by (simp_all add: judge_executor_def judge_comfortable_def judge_floor_def judge_response_def seen_fire
        case_prod_beta Let_def)
  then show ?thesis by (cases z) (simp add: judge_route_def case_prod_beta Let_def seen_fire)
qed

lemma seen_fold: "judged_on (fst (fold (judge_route c p l) is z)) = judged_on (fst z)"
  by (induction "is" arbitrary: z) (simp_all add: seen_judge_route)

lemma seen_judge_routes [simp]: "judged_on (fst (judge_routes c p s)) = judged_on s"
  by (simp add: judge_routes_def seen_fold)

section \<open>When the vehicle's fault is recorded\<close>

text \<open>What the verdict rests on: the output latched, the braking command as old as the span, no
  standstill by a fresh sample.\<close>

definition fault_due :: "int \<Rightarrow> int \<Rightarrow> sup_state \<Rightarrow> bool" where
  "fault_due t n s \<longleftrightarrow> s_latched s \<noteq> 0 \<and> (of_int n :: u32) \<le> of_int (t - s_brake_since s) \<and> \<not> standstill t s"

lemma fault_due_cong: "judged_on s = judged_on s' \<Longrightarrow> fault_due t n s = fault_due t n s'"
  by (simp add: fault_due_def standstill_def judged_on_def)

lemma judged_same [simp]:
  "braked_ms t (fst (standstill_now t' s)) = braked_ms t s" "speed_fresh t (fst (standstill_now t' s)) = speed_fresh t s"
  "standstill t (fst (standstill_now t' s)) = standstill t s"
  by (simp_all add: braked_ms_def speed_fresh_def standstill_def)

lemma fault_fire:
  "i \<noteq> 3 \<Longrightarrow> i \<noteq> 4 \<Longrightarrow> s_vehicle_fault (fst (fire c p i v s)) = s_vehicle_fault s"
  "s_vehicle_fault (fst (fire c p i FLOOR_LATCH s)) = s_vehicle_fault s"
  "s_vehicle_fault (fst (fire c p 3 FLOOR_VEHICLE_FAULT s)) \<noteq> 0"
  "s_vehicle_fault (fst (fire c p 4 FLOOR_VEHICLE_FAULT s)) \<noteq> 0"
  by (simp_all add: fire_def response_arm_locked_def record_fault_def Let_def)

lemma fault_response_arm [simp]: "s_vehicle_fault (response_arm_locked c t v b s) = s_vehicle_fault s"
  by (simp add: response_arm_locked_def)

definition floor_verdict :: "sup_conf \<Rightarrow> int \<Rightarrow> sup_state \<Rightarrow> island_floor_verdict" where
  "floor_verdict c t s = island_judge_floor (standstill t s) (s_latched s \<noteq> 0) (braked_ms t s) (of_int (FLOOR_SPAN_MS c))"

definition responded :: "sup_conf \<Rightarrow> int \<Rightarrow> sup_state \<Rightarrow> bool" where
  "responded c t s = island_judge_responded (standstill t s) (speed_fresh t s) (s_response_ref_mm_s s) (s_speed_mm_s s)
     (c_drop_mm_s c)"

definition response_verdict :: "sup_conf \<Rightarrow> int \<Rightarrow> sup_state \<Rightarrow> island_floor_verdict" where
  "response_verdict c t s = island_judge_floor (responded c t s) (s_latched s \<noteq> 0) (braked_ms t s) (of_int (RESPONSE_SPAN_MS c))"

lemma floor_verdict_fault: "floor_verdict c t s = FLOOR_VEHICLE_FAULT \<longleftrightarrow> fault_due t (FLOOR_SPAN_MS c) s"
  by (auto simp: floor_verdict_def island_judge_floor_cases fault_due_def braked_ms_def)

lemma response_verdict_fault:
  "response_verdict c t s = FLOOR_VEHICLE_FAULT \<longleftrightarrow> fault_due t (RESPONSE_SPAN_MS c) s \<and> \<not> responded c t s"
  by (auto simp: response_verdict_def island_judge_floor_cases fault_due_def braked_ms_def responded_def)

text \<open>Each verdict of route 3 and of route 4, and what it does.\<close>

lemma judge_floor_verdict:
  fixes s p
  defines "s1 \<equiv> fst (standstill_now (i_t p) s)"
  shows "judge_floor c p s =
    (if s_speed_at_ms s = 0
     then (upd_rt 3 (due_set (i_t p + FLOOR_SPAN_MS c)) (s\<lparr>s_floor_unseen := s_floor_unseen s + 1\<rparr>), False)
     else case floor_verdict c (i_t p) s of
       FLOOR_MET \<Rightarrow> (upd_rt 4 due_clear
          ((upd_rt 3 count_done s1)\<lparr>s_floor_met := s_floor_met s1 + 1, s_floor_stage := ISLAND_FLOOR_IDLE\<rparr>), False)
     | FLOOR_WAIT \<Rightarrow> (say (Trace SUPERVISOR_FLOOR_WAIT (of_int (s_brake_since s + FLOOR_SPAN_MS c) AND 0x0FFFFFFF))
          (upd_rt 3 (due_set (s_brake_since s + FLOOR_SPAN_MS c))
             (s1\<lparr>s_floor_waits := s_floor_waits s1 + 1, s_floor_stage := ISLAND_FLOOR_DIRECT\<rparr>)), False)
     | v \<Rightarrow> fire c p 3 v s1)"
  unfolding judge_floor_def s1_def floor_verdict_def
  by (subst standstill_now_pair) (simp add: Let_def island_judge_unseen_def split: island_floor_verdict.split)

lemma judge_response_verdict:
  fixes c s p
  defines "v \<equiv> response_verdict c (i_t p) s"
    and "shed \<equiv> island_judge_shed (s_response_ref_mm_s s) (s_speed_mm_s s)"
  defines "s2 \<equiv> say (Trace SUPERVISOR_RESPONSE (push_bit 28 (floor_code v) OR (shed AND 0x0FFFFFFF)))
                 ((fst (standstill_now (i_t p) s))\<lparr>s_response_last_shed_mm_s := shed\<rparr>)"
  shows "judge_response c p s =
    (case v of
       FLOOR_MET \<Rightarrow> ((upd_rt 4 count_done s2)\<lparr>s_response_met := s_response_met s2 + 1\<rparr>, False)
     | FLOOR_WAIT \<Rightarrow> (response_arm_locked c (s_brake_since s2) (s_brake_ref_mm_s s2) (s_brake_ref_ok s2)
                       (s2\<lparr>s_response_waits := s_response_waits s2 + 1\<rparr>), False)
     | _ \<Rightarrow> fire c p 4 v s2)"
  unfolding judge_response_def s2_def v_def shed_def response_verdict_def responded_def
  by (subst standstill_now_pair) (simp add: Let_def split: island_floor_verdict.split)

lemma fault_judge_floor:
  "s_vehicle_fault s = 0 \<Longrightarrow> s_vehicle_fault (fst (judge_floor c p s)) \<noteq> 0
     \<longleftrightarrow> s_speed_at_ms s \<noteq> 0 \<and> fault_due (i_t p) (FLOOR_SPAN_MS c) s"
  by (cases "floor_verdict c (i_t p) s")
    (auto simp: judge_floor_verdict fault_fire simp flip: floor_verdict_fault)

lemma fault_judge_response:
  "s_vehicle_fault s = 0 \<Longrightarrow> s_vehicle_fault (fst (judge_response c p s)) \<noteq> 0
     \<longleftrightarrow> fault_due (i_t p) (RESPONSE_SPAN_MS c) s \<and> \<not> responded c (i_t p) s"
  by (cases "response_verdict c (i_t p) s")
    (auto simp: judge_response_verdict fault_fire simp flip: response_verdict_fault)

lemma fault_judge_route:
  assumes "s_vehicle_fault (fst z) = 0" "s_vehicle_fault (fst (judge_route c p l i z)) \<noteq> 0"
  shows "fault_due (i_t p) (if i = 3 then FLOOR_SPAN_MS c else RESPONSE_SPAN_MS c) (fst z)"
proof -
  obtain s f where z: "z = (s, f)" by (cases z)
  let ?s = "upd_rt i due_clear s"
  have same: "fault_due t n ?s = fault_due t n s" for t n by (rule fault_due_cong) simp
  have "s_vehicle_fault (fst (judge_executor c p l s1)) = s_vehicle_fault s1"
    "s_vehicle_fault (fst (judge_comfortable c p s1)) = s_vehicle_fault s1" for s1
    by (simp_all add: judge_executor_def judge_comfortable_def fault_fire case_prod_beta Let_def)
  then show ?thesis
    using assms z fault_judge_floor[of ?s c p] fault_judge_response[of ?s c p]
    by (auto simp: judge_route_def case_prod_beta Let_def same fault_fire split: if_splits)
qed

lemma fault_fold:
  assumes "s_vehicle_fault (fst z) = 0" "s_vehicle_fault (fst (fold (judge_route c p l) is z)) \<noteq> 0"
  shows "\<exists>n \<in> {FLOOR_SPAN_MS c, RESPONSE_SPAN_MS c}. fault_due (i_t p) n (fst z)"
  using assms
proof (induction "is" arbitrary: z)
  case (Cons i "is")
  let ?z = "judge_route c p l i z"
  show ?case
  proof (cases "s_vehicle_fault (fst ?z) = 0")
    case True
    then show ?thesis using Cons.IH[of ?z] Cons.prems fault_due_cong[OF seen_judge_route, of _ _ c p l i z] by simp
  next
    case False
    then show ?thesis using fault_judge_route[OF Cons.prems(1) False] by (auto split: if_splits)
  qed
qed simp

lemma fault_service [simp]: "s_vehicle_fault (direct_service c p s) = s_vehicle_fault s"
  by (rule direct_service_keeps[of "\<lambda>s'. s_vehicle_fault s' = s_vehicle_fault s"])
    (auto simp: brake_restart_def rearm_locked_def Let_def)

lemma latched_service [simp]: "s_latched (direct_service c p s) = s_latched s"
  by (rule direct_service_keeps[of "\<lambda>s'. s_latched s' = s_latched s"])
    (auto simp: brake_restart_def response_arm_locked_def rearm_locked_def Let_def)

lemma rearm_sel [simp]:
  "s_rt (rearm_locked s) = s_rt s" "s_slot (rearm_locked s) = s_slot s" "s_latched (rearm_locked s) = s_latched s"
  "s_vehicle_fault (rearm_locked s) = s_vehicle_fault s" "s_log (rearm_locked s) = s_log s"
  "s_brake_since (rearm_locked s) = s_brake_since s" "s_pending_hook (rearm_locked s) = s_pending_hook s"
  "s_pending_swt (rearm_locked s) = s_pending_swt s" "s_speed_mm_s (rearm_locked s) = s_speed_mm_s s"
  "s_speed_at_ms (rearm_locked s) = s_speed_at_ms s"
  by (simp_all add: rearm_locked_def)

text \<open>The state a pass judges, and what it hands to the output.\<close>

definition woken :: "sup_state \<Rightarrow> sup_state" where
  "woken s = (let s0 = keep_swt (s\<lparr>s_wake := False\<rparr>) in s0\<lparr>s_wakes := s_wakes s0 + 1\<rparr>)"

lemma woken_sel [simp]:
  "s_rt (woken s) = s_rt s" "s_slot (woken s) = s_slot s" "s_latched (woken s) = s_latched s"
  "s_vehicle_fault (woken s) = s_vehicle_fault s" "s_brake_since (woken s) = s_brake_since s"
  "s_pending_hook (woken s) = s_pending_hook s" "s_pending_swt (woken s) = s_pending_swt s"
  "s_speed_mm_s (woken s) = s_speed_mm_s s" "s_speed_at_ms (woken s) = s_speed_at_ms s"
  "standstill t (woken s) = standstill t s" "fault_due t n (woken s) = fault_due t n s"
  "route1_left p (woken s) = route1_left p s" "responded c t (woken s) = responded c t s"
  by (simp_all add: woken_def keep_swt_def Let_def say_def standstill_def fault_due_def route1_left_def
      responded_def speed_fresh_def)

lemma reaction_pass_eq:
  "reaction_pass c p s =
     (let (s1, fired) = judge_routes c p (woken s); s2 = drive_output p fired (rearm_locked s1)
      in if s_latched s2 \<noteq> 0 then direct_service c p s2 else s2)"
  by (simp add: reaction_pass_def woken_def Let_def)

lemma fault_pass:
  assumes "s_vehicle_fault s = 0" "s_vehicle_fault (reaction_pass c p s) \<noteq> 0"
  shows "\<exists>n \<in> {FLOOR_SPAN_MS c, RESPONSE_SPAN_MS c}. fault_due (i_t p) n s"
proof -
  have "s_vehicle_fault (fst (judge_routes c p (woken s))) \<noteq> 0"
    using assms(2) by (auto simp: reaction_pass_eq case_prod_beta Let_def split: if_splits)
  then show ?thesis using fault_fold[of "(woken s, False)"] assms(1) by (simp add: judge_routes_def)
qed

lemma fault_do:
  assumes "s_vehicle_fault s = 0" "s_vehicle_fault (sup_do c t x s) \<noteq> 0"
  shows "\<exists>p. x = Pass p \<and> (\<exists>n \<in> {FLOOR_SPAN_MS c, RESPONSE_SPAN_MS c}. fault_due (i_t p) n s)"
  using assms fault_pass[of s c]
  by (cases x) (auto simp: sup_do_def island_supervisor_arm_def island_supervisor_done_def response_clear_locked_def
      due_expiry_def swt_first_timeout_def nros_app_reaction_hook_def reaction_timeout_def keep_swt_def
      island_supervisor_set_direct_def island_supervisor_handover_def island_supervisor_note_speed_def Let_def
      split: if_splits)

section \<open>What is for good\<close>

text \<open>The output stays driven, the fault recorded, a slot handed over or resumed.\<close>

definition grows :: "sup_state \<Rightarrow> sup_state \<Rightarrow> bool" where
  "grows s s' \<longleftrightarrow> (s_latched s \<noteq> 0 \<longrightarrow> s_latched s' \<noteq> 0) \<and> (s_vehicle_fault s \<noteq> 0 \<longrightarrow> s_vehicle_fault s' \<noteq> 0) \<and>
     (\<forall>i. (d_handover (s_slot s i) \<noteq> 0 \<longrightarrow> d_handover (s_slot s' i) \<noteq> 0) \<and>
          (d_resumed (s_slot s i) \<noteq> 0 \<longrightarrow> d_resumed (s_slot s' i) \<noteq> 0))"

lemma grows_refl [simp]: "grows s s" by (simp add: grows_def)

lemma grows_trans [trans]: "grows s s' \<Longrightarrow> grows s' s'' \<Longrightarrow> grows s s''" by (auto simp: grows_def)

lemma grows_same:
  "s_latched s' = s_latched s \<Longrightarrow> s_vehicle_fault s' = s_vehicle_fault s \<Longrightarrow> s_slot s' = s_slot s \<Longrightarrow> grows s s'"
  by (simp add: grows_def)

section \<open>Serving the direct path\<close>

text \<open>A slot handed over that has been silent too long at \<open>t\<close>.\<close>

definition silent :: "sup_conf \<Rightarrow> int \<Rightarrow> sup_state \<Rightarrow> nat \<Rightarrow> bool" where
  "silent c t s i \<longleftrightarrow> direct_watched s i \<and>
     island_judge_resume (of_int t) (d_alive_ms (s_slot s i)) (watch_period c (s_slot s i)) (c_resume_periods c)"

definition resume_slot :: "int \<Rightarrow> slot \<Rightarrow> slot" where
  "resume_slot t d = d\<lparr>d_resume_uptime_ms := of_int t, d_resume_silent_ms := of_int t - d_alive_ms d, d_resumed := 1\<rparr>"

lemma brake_restart_sel [simp]:
  "s_slot (brake_restart c t s) = s_slot s" "s_latched (brake_restart c t s) = s_latched s"
  "s_log (brake_restart c t s) = s_log s" "s_direct_next_ms (brake_restart c t s) = s_direct_next_ms s"
  "s_latch_ms (brake_restart c t s) = s_latch_ms s" "s_brake_since (brake_restart c t s) = t"
  "r_valid (s_rt s 3) \<Longrightarrow> s_rt (brake_restart c t s) = s_rt s"
  by (simp_all add: brake_restart_def response_arm_locked_def rearm_locked_def Let_def)

lemma watch_slot_silent:
  "watch_slot c t i (s, any) =
     (if silent c t s i
      then (let s1 = say (Trace SUPERVISOR_RESUME (nibble_arg i (of_int t - d_alive_ms (s_slot s i)))) (upd_slot i (resume_slot t) s)
            in (if i = 1 then brake_restart c t s1 else s1, True))
      else (s, any))"
  by (simp add: watch_slot_def silent_def resume_slot_def[abs_def] Let_def upd_slot_def)

lemma silent_cong: "s_slot s' i = s_slot s i \<Longrightarrow> silent c t s' i = silent c t s i"
  by (simp add: silent_def direct_watched_def)

lemma direct_watch_eq:
  fixes c t s
  defines "s' \<equiv> fst (direct_watch c t s)"
  shows "s_slot s' = (\<lambda>i. if i < 2 \<and> silent c t s i then resume_slot t (s_slot s i) else s_slot s i)"
    and "snd (direct_watch c t s) \<longleftrightarrow> silent c t s 0 \<or> silent c t s 1"
    and "s_brake_since s' = (if silent c t s 1 then t else s_brake_since s)"
    and "r_valid (s_rt s 3) \<Longrightarrow> s_rt s' = s_rt s"
    and "s_direct_next_ms s' = s_direct_next_ms s" "s_latched s' = s_latched s"
    and "\<exists>l. s_log s' = s_log s @ l"
proof -
  let ?s1 = "say (Trace SUPERVISOR_RESUME (nibble_arg 0 (of_int t - d_alive_ms (s_slot s 0)))) (upd_slot 0 (resume_slot t) s)"
  have 1: "silent c t ?s1 1 = silent c t s 1" by (rule silent_cong) simp
  have less: "i < 2 \<longleftrightarrow> i = 0 \<or> i = Suc 0" for i :: nat by auto
  show "s_slot s' = (\<lambda>i. if i < 2 \<and> silent c t s i then resume_slot t (s_slot s i) else s_slot s i)"
    using 1 by (auto simp: s'_def direct_watch_def upto_2 watch_slot_silent Let_def less)
  show "snd (direct_watch c t s) \<longleftrightarrow> silent c t s 0 \<or> silent c t s 1"
    "s_brake_since s' = (if silent c t s 1 then t else s_brake_since s)"
    "r_valid (s_rt s 3) \<Longrightarrow> s_rt s' = s_rt s"
    "s_direct_next_ms s' = s_direct_next_ms s" "s_latched s' = s_latched s" "\<exists>l. s_log s' = s_log s @ l"
    using 1 by (auto simp: s'_def direct_watch_def upto_2 watch_slot_silent Let_def)
qed

lemma publish_slot_sel [simp]:
  "s_rt (publish_slot t us i s) = s_rt s" "s_brake_since (publish_slot t us i s) = s_brake_since s"
  "d_fn (s_slot (publish_slot t us i s) j) = d_fn (s_slot s j)"
  "d_handover (s_slot (publish_slot t us i s) j) = d_handover (s_slot s j)"
  "d_resumed (s_slot (publish_slot t us i s) j) = d_resumed (s_slot s j)"
  "direct_owns (publish_slot t us i s) j = direct_owns s j"
  by (simp_all add: publish_slot_def direct_owns_def Let_def)

text \<open>The slots whose direct function a log calls.\<close>

fun published :: "sup_out list \<Rightarrow> nat set" where
  "published [] = {}"
| "published (Publish i _ _ # l) = insert i (published l)"
| "published (_ # l) = published l"

lemma published_append [simp]: "published (l @ m) = published l \<union> published m"
  by (induction l rule: published.induct) auto

lemma publish_slot_log:
  "\<exists>l. s_log (publish_slot t us i s) = s_log s @ l \<and> published l = (if direct_owns s i then {i} else {})"
  by (auto simp: publish_slot_def Let_def)

lemma direct_publish_log:
  "\<exists>l. s_log (direct_publish t us s) = s_log s @ l \<and> published l = {i. i < 2 \<and> direct_owns s i}"
proof -
  let ?s = "publish_slot t us 0 s"
  obtain l0 where "s_log ?s = s_log s @ l0" "published l0 = (if direct_owns s 0 then {0} else {})"
    using publish_slot_log by blast
  moreover obtain l1 where "s_log (publish_slot t us 1 ?s) = s_log ?s @ l1"
    "published l1 = (if direct_owns s 1 then {1} else {})"
    using publish_slot_log[of t us 1 ?s] by auto
  moreover have "{i. i < 2 \<and> direct_owns s i} = (if direct_owns s 0 then {0} else {}) \<union> (if direct_owns s 1 then {1} else {})"
  proof (rule set_eqI)
    fix x :: nat
    show "x \<in> {i. i < 2 \<and> direct_owns s i} \<longleftrightarrow>
      x \<in> (if direct_owns s 0 then {0} else {}) \<union> (if direct_owns s 1 then {1} else {})"
      by (cases "x = 0"; cases "x = 1") auto
  qed
  ultimately show ?thesis
    by (intro exI[of _ "l0 @ l1"]) (simp add: direct_publish_def upto_2)
qed

lemma direct_watch_log: "\<exists>l. s_log (fst (direct_watch c t s)) = s_log s @ l \<and> published l = {}"
  by (auto simp: direct_watch_def upto_2 watch_slot_silent Let_def)

lemma direct_publish_sel [simp]:
  "s_rt (direct_publish t us s) = s_rt s" "s_brake_since (direct_publish t us s) = s_brake_since s"
  "d_fn (s_slot (direct_publish t us s) j) = d_fn (s_slot s j)"
  "d_handover (s_slot (direct_publish t us s) j) = d_handover (s_slot s j)"
  "d_resumed (s_slot (direct_publish t us s) j) = d_resumed (s_slot s j)"
  by (simp_all add: direct_publish_def upto_2)

definition owned :: "sup_conf \<Rightarrow> int \<Rightarrow> sup_state \<Rightarrow> nat \<Rightarrow> bool" where
  "owned c t s i \<longleftrightarrow> i < 2 \<and> (direct_owns s i \<or> silent c t s i)"

text \<open>The service at \<open>t\<close>: a silent slot is resumed, and when one was, or the period is up, exactly the
  slots the direct path now owns are published.\<close>

lemma direct_service_slots:
  fixes c p s
  defines "s' \<equiv> direct_service c p s" and "t \<equiv> i_t_serve p"
  shows "d_fn (s_slot s' i) = d_fn (s_slot s i)" "d_handover (s_slot s' i) = d_handover (s_slot s i)"
    and "d_resumed (s_slot s' i) = (if i < 2 \<and> silent c t s i then 1 else d_resumed (s_slot s i))"
    and "s_brake_since s' = (if silent c t s 1 then t else s_brake_since s)"
    and "r_valid (s_rt s 3) \<Longrightarrow> s_rt s' = s_rt s"
    and "\<exists>l. s_log s' = s_log s @ l \<and> published l =
           (if silent c t s 0 \<or> silent c t s 1 \<or> s_direct_next_ms s \<le> t then {i. owned c t s i} else {})"
proof -
  note eq = direct_watch_eq[where c = c and t = t and s = s]
  let ?w = "fst (direct_watch c t s)"
  let ?s2 = "if snd (direct_watch c t s) then ?w\<lparr>s_direct_next_ms := t\<rparr> else ?w"
  have s': "s' = (if direct_pending ?s2 \<and> t \<ge> s_direct_next_ms ?s2
      then (direct_publish (i_t_pub p) (i_us p) ?s2)\<lparr>s_direct_next_ms := t + uint (c_direct_period_ms c)\<rparr> else ?s2)"
    by (simp add: s'_def t_def direct_service_def case_prod_beta Let_def)
  show "d_fn (s_slot s' i) = d_fn (s_slot s i)" "d_handover (s_slot s' i) = d_handover (s_slot s i)"
    "d_resumed (s_slot s' i) = (if i < 2 \<and> silent c t s i then 1 else d_resumed (s_slot s i))"
    "s_brake_since s' = (if silent c t s 1 then t else s_brake_since s)"
    by (simp_all add: s' eq resume_slot_def)
  show "r_valid (s_rt s 3) \<Longrightarrow> s_rt s' = s_rt s" by (simp add: s' eq(4))
  have owns: "i < 2 \<and> direct_owns ?s2 i \<longleftrightarrow> owned c t s i" for i
    by (auto simp: owned_def direct_owns_def eq resume_slot_def silent_def direct_watched_def)
  then have pend: "direct_pending ?s2 \<longleftrightarrow> (\<exists>i. owned c t s i)"
  proof -
    have "(\<exists>i. owned c t s i) \<longleftrightarrow> (\<exists>i<2. direct_owns ?s2 i)" by (simp only: owns[symmetric])
    also have "\<dots> \<longleftrightarrow> direct_pending ?s2"
      by (auto simp: direct_pending_def list_ex_iff)
    finally show ?thesis by simp
  qed
  obtain l0 where l0: "s_log ?s2 = s_log s @ l0" "published l0 = {}" using direct_watch_log[of c t s] by auto
  obtain l1 where "s_log (direct_publish (i_t_pub p) (i_us p) ?s2) = s_log ?s2 @ l1"
    "published l1 = {i. owned c t s i}" using direct_publish_log[of "i_t_pub p" "i_us p" ?s2] by (auto simp: owns)
  then have l1: "s_log (direct_publish (i_t_pub p) (i_us p) ?s2) = s_log s @ l0 @ l1" "published (l0 @ l1) = {i. owned c t s i}"
    using l0 by simp_all
  have W: "t \<ge> s_direct_next_ms ?s2 \<longleftrightarrow> silent c t s 0 \<or> silent c t s 1 \<or> s_direct_next_ms s \<le> t"
    by (simp add: eq)
  show "\<exists>l. s_log s' = s_log s @ l \<and> published l =
           (if silent c t s 0 \<or> silent c t s 1 \<or> s_direct_next_ms s \<le> t then {i. owned c t s i} else {})"
  proof (cases "direct_pending ?s2 \<and> t \<ge> s_direct_next_ms ?s2")
    case True
    then have "s_log s' = s_log s @ l0 @ l1" unfolding s' if_P[OF True] using l1(1) by simp
    then show ?thesis using l1(2) True W by (intro exI[of _ "l0 @ l1"]) simp
  next
    case False
    then have "s_log s' = s_log s @ l0" unfolding s' if_not_P[OF False] by (intro l0(1))
    then show ?thesis using l0(2) False W pend by (intro exI[of _ l0]) auto
  qed
qed

lemma grows_service: "grows s (direct_service c p s)"
  by (simp add: grows_def direct_service_slots)

lemma fault_kept:
  assumes "s_vehicle_fault (fst z) \<noteq> 0"
  shows "s_vehicle_fault (fst (judge_route c p l i z)) \<noteq> 0"
proof -
  obtain s f where z: "z = (s, f)" by (cases z)
  have fire: "s_vehicle_fault s \<noteq> 0 \<Longrightarrow> s_vehicle_fault (fst (fire c p i v s)) \<noteq> 0" for s i v
    by (simp add: fire_def record_fault_def Let_def)
  have "s_vehicle_fault s \<noteq> 0 \<Longrightarrow> s_vehicle_fault (fst (judge_floor c p s)) \<noteq> 0" for s
    by (cases "floor_verdict c (i_t p) s") (simp_all add: judge_floor_verdict fire)
  moreover have "s_vehicle_fault s \<noteq> 0 \<Longrightarrow> s_vehicle_fault (fst (judge_response c p s)) \<noteq> 0" for s
    by (cases "response_verdict c (i_t p) s") (simp_all add: judge_response_verdict fire)
  moreover have "s_vehicle_fault s \<noteq> 0 \<Longrightarrow> s_vehicle_fault (fst (judge_executor c p l s)) \<noteq> 0"
    "s_vehicle_fault s \<noteq> 0 \<Longrightarrow> s_vehicle_fault (fst (judge_comfortable c p s)) \<noteq> 0" for s
    by (simp_all add: judge_executor_def judge_comfortable_def fire case_prod_beta Let_def)
  ultimately show ?thesis using assms z by (simp add: judge_route_def fire case_prod_beta Let_def)
qed

lemma grows_judge_routes: "grows s (fst (judge_routes c p s))"
proof -
  have "s_vehicle_fault (fst z) \<noteq> 0 \<Longrightarrow> s_vehicle_fault (fst (fold (judge_route c p l) is z)) \<noteq> 0" for l "is" z
    by (induction "is" arbitrary: z) (simp_all add: fault_kept)
  from this[of "(s, False)"] show ?thesis
    using seen_judge_routes[of c p s] by (auto simp: grows_def judge_routes_def judged_on_def)
qed

text \<open>The output is driven for a route, the hook or SWT0; what starts with it.\<close>

definition latches :: "bool \<Rightarrow> sup_state \<Rightarrow> bool" where
  "latches f s \<longleftrightarrow> s_latched s = 0 \<and> (f \<or> s_pending_hook s \<noteq> 0 \<or> s_pending_swt s \<noteq> 0)"

lemma drive_output_latch:
  "s_latched (drive_output p f s) = (if latches f s then 1 else s_latched s)"
  "s_brake_since (drive_output p f s) = (if latches f s then i_t p else s_brake_since s)"
  "s_direct_next_ms (drive_output p f s) = (if latches f s then i_t p else s_direct_next_ms s)"
  "\<exists>a. s_log (drive_output p f s) =
       s_log s @ (if latches f s then [Drive (i_gpio p), Trace SUPERVISOR_SAFE_STATE a] else [])"
  by (cases "s_latched s = 0"; cases f; cases "s_pending_hook s = 0"; cases "s_pending_swt s = 0";
      simp add: drive_output_def safe_state_def latches_def Let_def)+

lemma grows_drive_output: "grows s (drive_output p f s)"
  by (auto simp: grows_def drive_output_latch)

lemma grows_pass: "grows s (reaction_pass c p s)"
proof -
  have "grows s (woken s)" by (rule grows_same) simp_all
  also have "grows (woken s) (fst (judge_routes c p (woken s)))" by (rule grows_judge_routes)
  also have "grows (fst (judge_routes c p (woken s))) (drive_output p f (rearm_locked (fst (judge_routes c p (woken s)))))" for f
    using grows_drive_output[of "rearm_locked (fst (judge_routes c p (woken s)))" p f] by (simp add: grows_def)
  finally have "grows s (drive_output p f (rearm_locked (fst (judge_routes c p (woken s)))))" for f .
  from this grows_trans[OF this grows_service] show ?thesis
    by (simp add: reaction_pass_eq case_prod_beta Let_def)
qed

lemma grows_do: "grows s (sup_do c t x s)"
proof (cases x)
  case (Timeout p)
  have "grows s (keep_swt s)" by (rule grows_same) (simp_all add: keep_swt_def)
  from this grows_trans[OF this grows_service] show ?thesis
    by (simp add: Timeout sup_do_def reaction_timeout_def Let_def)
qed (auto simp: grows_def sup_do_def grows_pass[unfolded grows_def] island_supervisor_arm_def response_arm_locked_def
      island_supervisor_done_def response_clear_locked_def due_expiry_def swt_first_timeout_def nros_app_reaction_hook_def
      island_supervisor_set_direct_def island_supervisor_handover_def island_supervisor_note_speed_def Let_def)

text \<open>What every reachable state keeps: the braking command started in the past, a fault only under the
  latch, a slot handed over only under the latch, resumed only after it was handed over.\<close>

definition latch_inv :: "int \<Rightarrow> sup_state \<Rightarrow> bool" where
  "latch_inv t s \<longleftrightarrow> 0 \<le> t \<and> (s_latched s \<noteq> 0 \<longrightarrow> 0 \<le> s_brake_since s \<and> s_brake_since s \<le> t) \<and>
     (s_vehicle_fault s \<noteq> 0 \<longrightarrow> s_latched s \<noteq> 0) \<and>
     (\<forall>i. (d_handover (s_slot s i) \<noteq> 0 \<longrightarrow> s_latched s \<noteq> 0) \<and>
          (d_resumed (s_slot s i) \<noteq> 0 \<longrightarrow> d_handover (s_slot s i) \<noteq> 0))"


lemma latch_inv_mono: "latch_inv t s \<Longrightarrow> t \<le> u \<Longrightarrow> latch_inv u s"
  by (auto simp: latch_inv_def)

lemma latch_inv_service:
  assumes "latch_inv t s" "t \<le> i_t_serve p" "s_latched s \<noteq> 0"
  shows "latch_inv (i_t_serve p) (direct_service c p s)"
  using assms by (auto simp: latch_inv_def direct_service_slots silent_def direct_watched_def)

lemma latch_inv_pass:
  assumes inv: "latch_inv t s" and ok: "pass_ok t p"
  shows "latch_inv (i_t_pub p) (reaction_pass c p s)"
proof -
  let ?s1 = "fst (judge_routes c p (woken s))" and ?f = "snd (judge_routes c p (woken s))"
  let ?s2 = "drive_output p ?f (rearm_locked ?s1)"
  have e: "judged_on ?s1 = judged_on (woken s)" by simp
  have "s_vehicle_fault ?s1 \<noteq> 0 \<Longrightarrow> s_latched s \<noteq> 0"
    using fault_fold[of "(woken s, False)" c p "route1_left p (woken s)"] inv
    by (cases "s_vehicle_fault s = 0") (auto simp: judge_routes_def latch_inv_def fault_due_def)
  then have s2: "latch_inv (i_t_serve p) ?s2"
    using inv ok e by (auto simp: latch_inv_def pass_ok_def drive_output_latch judged_on_def)
  then show ?thesis
    using latch_inv_service[OF s2, of p c] ok
    by (auto simp: reaction_pass_eq case_prod_beta Let_def pass_ok_def intro: latch_inv_mono)
qed

lemma latch_inv_do:
  assumes inv: "latch_inv u s" and ok: "step_ok u x s"
  shows "latch_inv (step_end u x) (sup_do c u x s)"
proof (cases x)
  case (Pass p)
  then show ?thesis using latch_inv_pass[OF inv] ok by (simp add: sup_do_def step_ok_def step_end_def)
next
  case (Timeout p)
  have "latch_inv u (keep_swt s)" using inv by (simp add: keep_swt_def latch_inv_def)
  then show ?thesis using Timeout ok latch_inv_service[of u "keep_swt s" p c]
    by (auto simp: sup_do_def reaction_timeout_def Let_def step_ok_def step_end_def pass_ok_def intro: latch_inv_mono)
next
  case (Handover i period)
  then show ?thesis using inv
    by (auto simp: sup_do_def step_end_def island_supervisor_handover_def latch_inv_def Let_def)
qed (use assms in \<open>auto simp: latch_inv_def sup_do_def step_ok_def step_end_def island_supervisor_arm_def
      response_arm_locked_def island_supervisor_done_def response_clear_locked_def due_expiry_def swt_first_timeout_def
      nros_app_reaction_hook_def island_supervisor_set_direct_def island_supervisor_note_speed_def Let_def\<close>)

lemma latch_inv_reach: "reach c t s \<Longrightarrow> latch_inv t s"
proof (induction rule: reach.induct)
  case (boot t ok)
  then show ?case by (simp add: latch_inv_def island_supervisor_init_def slot_zero_def)
next
  case (step t s u x)
  then show ?case by (blast intro: latch_inv_do latch_inv_mono)
qed

section \<open>When the output is driven\<close>

definition overdue :: "int \<Rightarrow> nat \<Rightarrow> sup_state \<Rightarrow> bool" where
  "overdue t i s \<longleftrightarrow> r_valid (s_rt s i) \<and> r_due (s_rt s i) \<le> t"

text \<open>A route is missed at the judgement: past its due, and for route 1 unanswered, for route 2 and 3 not at
  standstill (route 3 only once a vehicle was seen), for route 4 without a response.\<close>

definition missed :: "sup_conf \<Rightarrow> pass_in \<Rightarrow> sup_state \<Rightarrow> nat \<Rightarrow> bool" where
  "missed c p s i \<longleftrightarrow> overdue (i_t p) i s \<and>
     (if i = 1 then route1_left p s = 0
      else if i = 2 then \<not> standstill (i_t p) s
      else if i = 3 then s_speed_at_ms s \<noteq> 0 \<and> \<not> standstill (i_t p) s
      else if i = 4 then \<not> responded c (i_t p) s
      else True)"

lemma fire_frame:
  "i < 3 \<Longrightarrow> s_rt (fst (fire c p i v s)) = (s_rt s)(i := s_rt (fst (fire c p i v s)) i)"
  "i < 3 \<Longrightarrow> s_response_ref_mm_s (fst (fire c p i v s)) = s_response_ref_mm_s s"
  "i < 3 \<Longrightarrow> snd (fire c p i v s)" "snd (fire c p i FLOOR_LATCH s)" "\<not> snd (fire c p 3 FLOOR_VEHICLE_FAULT s)"
  "\<not> snd (fire c p 4 FLOOR_VEHICLE_FAULT s)"
  by (simp_all add: fire_def Let_def say_def upd_rt_def)

lemma ref_standstill_now [simp]: "s_response_ref_mm_s (fst (standstill_now t s)) = s_response_ref_mm_s s"
  by (simp add: standstill_now_def Let_def)

lemma judge_low_frame:
  assumes "i < 3"
  shows "j \<noteq> i \<Longrightarrow> s_rt (fst (judge_route c p l i z)) j = s_rt (fst z) j"
    and "s_response_ref_mm_s (fst (judge_route c p l i z)) = s_response_ref_mm_s (fst z)"
    and "snd (judge_route c p l i z) \<longleftrightarrow> snd z \<or> overdue (i_t p) i (fst z) \<and>
           (i = 1 \<longrightarrow> l = 0) \<and> (i = 2 \<longrightarrow> \<not> standstill (i_t p) (fst z))"
proof -
  obtain s f where z: "z = (s, f)" by (cases z)
  have i: "i = 0 \<or> i = 1 \<or> i = 2" using assms by auto
  have ref: "s_response_ref_mm_s (upd_rt i g s) = s_response_ref_mm_s s" for i g s by (simp add: upd_rt_def)
  have st: "standstill t (upd_rt i g s) = standstill t s" for t i g s by (simp add: standstill_def)
  have fr: "j \<noteq> i \<Longrightarrow> i < 3 \<Longrightarrow> s_rt (fst (fire c p i v s)) j = s_rt s j" for i j v s
    using fire_frame(1)[of i c p v s] by (metis fun_upd_other)
  show "j \<noteq> i \<Longrightarrow> s_rt (fst (judge_route c p l i z)) j = s_rt (fst z) j"
    using i z by (auto simp: judge_route_def judge_executor_def judge_comfortable_def case_prod_beta Let_def fr)
  show "s_response_ref_mm_s (fst (judge_route c p l i z)) = s_response_ref_mm_s (fst z)"
    using i z by (auto simp: judge_route_def judge_executor_def judge_comfortable_def case_prod_beta Let_def ref fire_frame)
  show "snd (judge_route c p l i z) \<longleftrightarrow> snd z \<or> overdue (i_t p) i (fst z) \<and>
           (i = 1 \<longrightarrow> l = 0) \<and> (i = 2 \<longrightarrow> \<not> standstill (i_t p) (fst z))"
    using i z by (auto simp: judge_route_def judge_executor_def judge_comfortable_def case_prod_beta Let_def fire_frame
        overdue_def st uint64_max_def)
qed

definition judge_low :: "sup_conf \<Rightarrow> pass_in \<Rightarrow> sup_state \<Rightarrow> sup_state \<times> bool" where
  "judge_low c p s = fold (judge_route c p (route1_left p s)) [0, 1, 2] (s, False)"

lemma judge_routes_low:
  "judge_routes c p s = judge_route c p (route1_left p s) 4 (judge_route c p (route1_left p s) 3 (judge_low c p s))"
  by (simp add: judge_routes_def judge_low_def upto_5)

lemma judge_low_eq:
  fixes c p s
  defines "z \<equiv> judge_low c p s"
  shows "j = 3 \<or> j = 4 \<Longrightarrow> s_rt (fst z) j = s_rt s j" "judged_on (fst z) = judged_on s" "responded c t (fst z) = responded c t s"
    "s_vehicle_fault s = 0 \<Longrightarrow> s_vehicle_fault (fst z) = 0"
    "snd z \<longleftrightarrow> missed c p s 0 \<or> missed c p s 1 \<or> missed c p s 2"
proof -
  let ?j = "judge_route c p (route1_left p s)"
  let ?z1 = "?j 0 (s, False)" and ?z2 = "?j 1 (?j 0 (s, False))"
  have z: "z = ?j 2 ?z2" by (simp add: z_def judge_low_def)
  show rt: "j = 3 \<or> j = 4 \<Longrightarrow> s_rt (fst z) j = s_rt s j" by (auto simp: z judge_low_frame(1))
  show e: "judged_on (fst z) = judged_on s" by (simp add: z seen_judge_route)
  have ref: "s_response_ref_mm_s (fst z) = s_response_ref_mm_s s" by (simp add: z judge_low_frame(2))
  show "responded c t (fst z) = responded c t s"
    using e ref by (simp add: responded_def standstill_def speed_fresh_def judged_on_def)
  have "s_vehicle_fault (fst (?j i (s1, b))) = s_vehicle_fault s1" if "i < 3" for i s1 b
    using that by (auto simp: judge_route_def judge_executor_def judge_comfortable_def fault_fire case_prod_beta Let_def)
  then have "s_vehicle_fault (fst (?j i x)) = s_vehicle_fault (fst x)" if "i < 3" for i x
    using that by (cases x) simp
  then show "s_vehicle_fault s = 0 \<Longrightarrow> s_vehicle_fault (fst z) = 0" by (simp add: z)
  have st: "standstill (i_t p) (fst ?z2) = standstill (i_t p) s"
    using seen_judge_route[of c p "route1_left p s" 1 ?z1] seen_judge_route[of c p "route1_left p s" 0 "(s, False)"]
    by (simp add: standstill_def judged_on_def)
  have ov: "overdue t 1 (fst ?z1) = overdue t 1 s" "overdue t 2 (fst ?z2) = overdue t 2 s" for t
    by (simp_all add: overdue_def judge_low_frame(1))
  show "snd z \<longleftrightarrow> missed c p s 0 \<or> missed c p s 1 \<or> missed c p s 2"
    unfolding z using st ov by (simp add: judge_low_frame(3) missed_def)
qed

text \<open>Route 3's turn while its due is pending: not due; latched for the first time; the fault; or
  re-armed at the braking command's start and the span.\<close>

lemma judge_3:
  fixes c p l f s
  assumes "r_valid (s_rt s 3)" "s_vehicle_fault s = 0"
  defines "z \<equiv> judge_route c p l 3 (s, f)"
  shows "\<not> overdue (i_t p) 3 s \<Longrightarrow> z = (s, f)"
    and "overdue (i_t p) 3 s \<Longrightarrow> s_speed_at_ms s \<noteq> 0 \<Longrightarrow> \<not> standstill (i_t p) s \<Longrightarrow> s_latched s = 0 \<Longrightarrow>
           r_valid (s_rt (fst z) 3) \<and> r_due (s_rt (fst z) 3) = i_t p + FLOOR_SPAN_MS c \<and> snd z"
    and "overdue (i_t p) 3 s \<Longrightarrow> s_speed_at_ms s \<noteq> 0 \<Longrightarrow> fault_due (i_t p) (FLOOR_SPAN_MS c) s \<Longrightarrow>
           s_vehicle_fault (fst z) \<noteq> 0"
    and "overdue (i_t p) 3 s \<Longrightarrow> s_speed_at_ms s \<noteq> 0 \<Longrightarrow> \<not> standstill (i_t p) s \<Longrightarrow> s_latched s \<noteq> 0 \<Longrightarrow>
           \<not> fault_due (i_t p) (FLOOR_SPAN_MS c) s \<Longrightarrow>
           r_valid (s_rt (fst z) 3) \<and> r_due (s_rt (fst z) 3) = s_brake_since s + FLOOR_SPAN_MS c \<and> snd z = f"
proof -
  let ?s = "upd_rt 3 due_clear s"
  have same: "standstill t ?s = standstill t s" "fault_due t n ?s = fault_due t n s" "floor_verdict c t ?s = floor_verdict c t s" for t n
    by (simp_all add: standstill_def fault_due_def floor_verdict_def braked_ms_def)
  show "\<not> overdue (i_t p) 3 s \<Longrightarrow> z = (s, f)" by (auto simp: z_def judge_route_def overdue_def)
  assume o: "overdue (i_t p) 3 s" and judged_on: "s_speed_at_ms s \<noteq> 0"
  have z: "z = (fst (judge_floor c p ?s), f \<or> snd (judge_floor c p ?s))"
    using o by (simp add: z_def judge_route_def overdue_def case_prod_beta Let_def)
  show "\<not> standstill (i_t p) s \<Longrightarrow> s_latched s = 0 \<Longrightarrow>
           r_valid (s_rt (fst z) 3) \<and> r_due (s_rt (fst z) 3) = i_t p + FLOOR_SPAN_MS c \<and> snd z"
    using judged_on by (simp add: z judge_floor_verdict same floor_verdict_def island_judge_floor_def fire_def Let_def
        response_arm_locked_def due_set_def)
  show "fault_due (i_t p) (FLOOR_SPAN_MS c) s \<Longrightarrow> s_vehicle_fault (fst z) \<noteq> 0"
    using judged_on fault_judge_floor[of ?s c p] assms(2) by (simp add: z same)
  show "\<not> standstill (i_t p) s \<Longrightarrow> s_latched s \<noteq> 0 \<Longrightarrow> \<not> fault_due (i_t p) (FLOOR_SPAN_MS c) s \<Longrightarrow>
           r_valid (s_rt (fst z) 3) \<and> r_due (s_rt (fst z) 3) = s_brake_since s + FLOOR_SPAN_MS c \<and> snd z = f"
    using judged_on by (auto simp: z judge_floor_verdict same floor_verdict_def island_judge_floor_def fault_due_def
        braked_ms_def not_le due_set_def)
qed

lemma judge_4:
  fixes c p l f s
  assumes "r_valid (s_rt s 3)" "s_vehicle_fault s = 0"
  defines "z \<equiv> judge_route c p l 4 (s, f)"
  shows "s_vehicle_fault (fst z) \<noteq> 0 \<or> s_rt (fst z) 3 = s_rt s 3 \<and> (f \<longrightarrow> snd z) \<or>
         r_valid (s_rt (fst z) 3) \<and> r_due (s_rt (fst z) 3) = i_t p + FLOOR_SPAN_MS c \<and> s_latched s = 0 \<and> snd z"
proof (cases "overdue (i_t p) 4 s")
  case False
  then have "z = (s, f)" by (auto simp: z_def judge_route_def overdue_def)
  then show ?thesis by simp
next
  case True
  let ?s = "upd_rt 4 due_clear s"
  have z: "z = (fst (judge_response c p ?s), f \<or> snd (judge_response c p ?s))"
    using True by (simp add: z_def judge_route_def overdue_def case_prod_beta Let_def)
  have lat: "response_verdict c (i_t p) ?s = FLOOR_LATCH \<Longrightarrow> s_latched s = 0"
    by (simp add: response_verdict_def island_judge_floor_cases)
  show ?thesis
    using lat by (cases "response_verdict c (i_t p) ?s")
      (simp_all add: z judge_response_verdict fault_fire fire_frame response_arm_locked_def,
       simp add: fire_def Let_def response_arm_locked_def due_set_def)
qed

text \<open>Whether routes 3 and 4 fire, before the latch.\<close>

lemma judge_high_fires:
  assumes "s_latched s = 0"
  shows "snd (judge_route c p l 4 (judge_route c p l 3 (s, f))) \<longleftrightarrow> f \<or> missed c p s 3 \<or> missed c p s 4"
proof -
  let ?r3 = "overdue (i_t p) 3 s \<and> s_speed_at_ms s \<noteq> 0 \<and> \<not> standstill (i_t p) s"
  let ?z = "judge_route c p l 3 (s, f)"
  have st: "floor_verdict c (i_t p) (upd_rt 3 due_clear s) = (if standstill (i_t p) s then FLOOR_MET else FLOOR_LATCH)"
    using assms by (simp add: floor_verdict_def standstill_def island_judge_floor_def)
  have snd3: "snd ?z \<longleftrightarrow> f \<or> ?r3"
    using st by (auto simp: judge_route_def overdue_def case_prod_beta Let_def judge_floor_verdict fire_frame)
  have snd4: "snd (judge_route c p l 4 (s1, g)) \<longleftrightarrow> g \<or> overdue (i_t p) 4 s1 \<and> \<not> responded c (i_t p) s1"
    if "s_latched s1 = 0" for s1 g
  proof -
    have "response_verdict c (i_t p) (upd_rt 4 due_clear s1) = (if responded c (i_t p) s1 then FLOOR_MET else FLOOR_LATCH)"
      using that by (simp add: response_verdict_def responded_def standstill_def speed_fresh_def island_judge_floor_def
          upd_rt_def)
    then show ?thesis
      by (auto simp: judge_route_def overdue_def case_prod_beta Let_def judge_response_verdict fire_frame)
  qed
  have lat: "s_latched (fst ?z) = 0" using seen_judge_route[of c p l 3 "(s, f)"] assms by (simp add: judged_on_def)
  have resp: "standstill (i_t p) s \<Longrightarrow> responded c (i_t p) s" by (simp add: responded_def)
  show ?thesis
  proof (cases ?r3)
    case True
    then have "snd (judge_route c p l 4 (fst ?z, snd ?z))" using snd4[OF lat, of "snd ?z"] snd3 by simp
    then show ?thesis using True by (simp add: missed_def)
  next
    case False
    have "overdue (i_t p) 4 (fst ?z) \<and> \<not> responded c (i_t p) (fst ?z) \<longleftrightarrow> overdue (i_t p) 4 s \<and> \<not> responded c (i_t p) s"
    proof (cases "overdue (i_t p) 3 s")
      case False
      then have "?z = (s, f)" by (auto simp: judge_route_def overdue_def)
      then show ?thesis by simp
    next
      case True
      then have z: "fst ?z = fst (judge_floor c p (upd_rt 3 due_clear s))"
        by (simp add: judge_route_def overdue_def case_prod_beta Let_def)
      show ?thesis
      proof (cases "s_speed_at_ms s = 0")
        case unseen: True
        then show ?thesis
          by (simp add: z judge_floor_verdict overdue_def responded_def standstill_def speed_fresh_def upd_rt_def)
      next
        case judged_on: False
        with \<open>\<not> ?r3\<close> True have ss: "standstill (i_t p) s" by simp
        with st judged_on have "\<not> r_valid (s_rt (fst ?z) 4)" by (simp add: z judge_floor_verdict due_clear_def)
        then show ?thesis using resp[OF ss] by (simp add: overdue_def)
      qed
    qed
    then have "snd (judge_route c p l 4 (fst ?z, snd ?z)) \<longleftrightarrow> f \<or> missed c p s 4"
      using False snd4[OF lat, of "snd ?z"] snd3 by (simp add: missed_def) blast
    then show ?thesis using False by (auto simp: missed_def)
  qed
qed

lemma judge_routes_fires:
  assumes "s_latched s = 0"
  shows "snd (judge_routes c p s) \<longleftrightarrow> (\<exists>i<5. missed c p s i)"
proof -
  obtain s1 f where z: "judge_low c p s = (s1, f)" by (cases "judge_low c p s")
  have low: "s_rt s1 3 = s_rt s 3" "s_rt s1 4 = s_rt s 4" "judged_on s1 = judged_on s" "responded c t s1 = responded c t s"
    "f \<longleftrightarrow> missed c p s 0 \<or> missed c p s 1 \<or> missed c p s 2" for t
    using judge_low_eq(1)[where j = 3 and c = c and p = p and s = s] judge_low_eq(1)[where j = 4 and c = c and p = p and s = s]
      judge_low_eq(2, 3, 5)[where c = c and p = p and s = s] z by simp_all
  have "missed c p s1 3 = missed c p s 3" "missed c p s1 4 = missed c p s 4" "s_latched s1 = 0"
    using low assms by (simp_all add: missed_def overdue_def standstill_def judged_on_def)
  then have "snd (judge_routes c p s) \<longleftrightarrow> missed c p s 0 \<or> missed c p s 1 \<or> missed c p s 2 \<or> missed c p s 3 \<or> missed c p s 4"
    using judge_high_fires[of s1 c p "route1_left p s" f] low(5) by (simp add: judge_routes_low z)
  moreover have "(\<exists>i<5. Q i) \<longleftrightarrow> Q 0 \<or> Q 1 \<or> Q 2 \<or> Q 3 \<or> Q (4 :: nat)" for Q
    by (auto simp: numeral_eq_Suc less_Suc_eq)
  ultimately show ?thesis by simp
qed

section \<open>The log of a judgement\<close>

text \<open>Lines that drive nothing and publish nothing.\<close>

definition only_says :: "sup_out list \<Rightarrow> bool" where
  "only_says l \<longleftrightarrow> published l = {} \<and> (\<forall>b. Drive b \<notin> set l)"

definition says :: "sup_state \<Rightarrow> sup_state \<Rightarrow> bool" where
  "says s s' \<longleftrightarrow> (\<exists>l. s_log s' = s_log s @ l \<and> only_says l)"

lemma says_refl: "s_log s' = s_log s \<Longrightarrow> says s s'" by (simp add: says_def only_says_def)

lemma says_trans [trans]: "says s s' \<Longrightarrow> says s' s'' \<Longrightarrow> says s s''"
  by (auto simp: says_def only_says_def)

lemma says_say: "s_log s' = s_log s \<Longrightarrow> says s (say (Trace m a) s')"
  by (simp add: says_def only_says_def)

lemma says_log: "says s s' \<Longrightarrow> s_log s'' = s_log s' \<Longrightarrow> says s s''" by (simp add: says_def)

lemma log_same [simp]:
  "s_log (response_arm_locked c t v b s) = s_log s" "s_log (record_fault t i s) = s_log s"
  by (simp_all add: response_arm_locked_def record_fault_def)

lemma says_fire: "says s (fst (fire c p i v s))"
  by (auto simp: fire_def Let_def says_def only_says_def)

lemma says_judge_route: "says (fst z) (fst (judge_route c p l i z))"
proof -
  obtain s f where z: "z = (s, f)" by (cases z)
  let ?s = "upd_rt i due_clear s"
  have from_s: "s_log s1 = s_log s \<Longrightarrow> says s (fst (fire c p j v s1))" for s1 j v
    using says_fire[of s1 c p j v] by (simp add: says_def)
  have "says s (fst (judge_floor c p ?s))"
    by (cases "floor_verdict c (i_t p) ?s"; cases "s_speed_at_ms s = 0"; simp add: judge_floor_verdict;
        (rule from_s says_say says_refl)?; simp)
  moreover have "says s (fst (judge_executor c p l ?s))"
    unfolding judge_executor_def Let_def by (simp; (intro conjI impI)?; (rule from_s says_refl)?; simp)
  moreover have "says s (fst (judge_comfortable c p ?s))"
    unfolding judge_comfortable_def case_prod_beta Let_def by (simp; (intro conjI impI)?; (rule from_s says_refl)?; simp)
  moreover have "says s (fst (judge_response c p ?s))"
    by (cases "response_verdict c (i_t p) ?s"; simp add: judge_response_verdict;
        (rule says_trans[OF says_say says_fire])?; simp add: says_def only_says_def)
  moreover have "says s (fst (fire c p i FLOOR_LATCH ?s))" by (rule from_s) simp
  ultimately show ?thesis
    using z by (auto simp: judge_route_def case_prod_beta Let_def intro: says_refl)
qed

lemma says_judge_routes: "says s (fst (judge_routes c p s))"
proof -
  have "says (fst z) (fst (fold (judge_route c p l) is z))" for l "is" z
  proof (induction "is" arbitrary: z)
    case (Cons i "is")
    show ?case using says_trans[OF says_judge_route Cons.IH] by simp
  qed (simp add: says_refl)
  from this[of "(s, False)"] show ?thesis by (simp add: judge_routes_def)
qed

end
