(* ===== verification/Reaction_Runs.thy ===== *)
theory Reaction_Runs
  imports Reaction_Laws
begin

text \<open>The properties of the supervisor's reaction thread, over every reachable state of \<open>Reaction\<close>, and a run of
  the board with the image's configuration at which each of them is applied.

  \<open>floor_rank\<close> counts what can still keep a moving vehicle from being reported; every pass at or after
  route 3's due lowers it.\<close>

section \<open>The supervisor\<close>

definition sup_conf_ok :: "sup_conf \<Rightarrow> bool" where
  "sup_conf_ok c \<longleftrightarrow> 0 \<le> c_observe_ms c \<and> 0 \<le> c_response_ms c \<and> c_response_ms c \<le> c_emergency_ms c \<and> FLOOR_SPAN_MS c < 2 ^ 32"

definition output_due :: "sup_conf \<Rightarrow> pass_in \<Rightarrow> sup_state \<Rightarrow> bool" where
  "output_due c p s \<longleftrightarrow> (\<exists>i<5. missed c p s i) \<or> s_pending_hook s \<noteq> 0 \<or> s_pending_swt s \<noteq> 0"

lemma missed_woken [simp]: "missed c p (woken s) i = missed c p s i"
  by (simp add: missed_def overdue_def)

lemma log_woken: "s_latched s = 0 \<Longrightarrow> s_log (woken s) = s_log s"
  by (simp add: woken_def keep_swt_def)

text \<open>C9. The output is driven exactly when it must be: before the latch, a pass drives the output if and only if a
  route is missed at that moment, the executor's hook was called or SWT0 timed out, whatever else is
  due and whatever the same pass clears or re-arms; and in that same pass it calls the direct
  function of every slot that has one, and of no other. A pass that does not drive it publishes nothing.\<close>

theorem pass_drives_on_miss:
  assumes "reach c t s" "s_latched s = 0" "pass_ok t p"
  shows "(s_latched (reaction_pass c p s) \<noteq> 0 \<longleftrightarrow> output_due c p s) \<and>
         (\<exists>l. s_log (reaction_pass c p s) = s_log s @ l \<and> ((\<exists>b. Drive b \<in> set l) \<longleftrightarrow> output_due c p s) \<and>
              published l = (if output_due c p s then {i. i < 2 \<and> d_fn (s_slot s i)} else {}))"
proof -
  let ?s1 = "fst (judge_routes c p (woken s))" and ?f = "snd (judge_routes c p (woken s))"
  let ?s2 = "drive_output p ?f (rearm_locked ?s1)"
  have e: "judged_on ?s1 = judged_on (woken s)" by simp
  have pend: "s_pending_hook ?s1 = s_pending_hook s" "s_pending_swt ?s1 = s_pending_swt s" "s_latched ?s1 = 0"
    "s_slot ?s1 = s_slot s"
    using e assms(2) by (simp_all add: judged_on_def)
  have lat: "latches ?f (rearm_locked ?s1) \<longleftrightarrow> output_due c p s"
    using judge_routes_fires[of "woken s" c p] assms(2) pend by (simp add: latches_def output_due_def)
  obtain l1 where l1: "s_log ?s1 = s_log s @ l1" "only_says l1"
    using says_judge_routes[of "woken s" c p] log_woken[OF assms(2)] by (auto simp: says_def)
  obtain x where l2: "s_log ?s2 = s_log s @ l1 @ (if output_due c p s then [Drive (i_gpio p), Trace SUPERVISOR_SAFE_STATE x] else [])"
    using drive_output_latch(4)[of p ?f "rearm_locked ?s1"] lat l1(1) by auto
  show ?thesis
  proof (cases "output_due c p s")
    case False
    then have "reaction_pass c p s = ?s2"
      using lat pend by (simp add: reaction_pass_eq case_prod_beta Let_def drive_output_latch)
    then show ?thesis using False l1 l2 lat pend by (simp add: drive_output_latch only_says_def)
  next
    case True
    have s': "reaction_pass c p s = direct_service c p ?s2"
      using True lat by (simp add: reaction_pass_eq case_prod_beta Let_def drive_output_latch)
    have ho: "d_handover (s_slot s i) = 0" for i
      using latch_inv_reach[OF assms(1)] assms(2) by (auto simp: latch_inv_def)
    then have own: "{i. owned c u ?s2 i} = {i. i < 2 \<and> d_fn (s_slot s i)}" for u
      using pend by (auto simp: owned_def direct_owns_def silent_def direct_watched_def)
    have "s_direct_next_ms ?s2 \<le> i_t_serve p" using True lat assms(3) by (simp add: drive_output_latch pass_ok_def)
    then obtain l3 where l3: "s_log (direct_service c p ?s2) = s_log ?s2 @ l3" "published l3 = {i. i < 2 \<and> d_fn (s_slot s i)}"
      using direct_service_slots(6)[of c p ?s2] own by auto
    then show ?thesis
      using True l1 l2 l3 lat pend s'
      by (intro conjI exI[of _ "l1 @ [Drive (i_gpio p), Trace SUPERVISOR_SAFE_STATE x] @ l3"]) (simp_all add: drive_output_latch only_says_def, blast)
  qed
qed

text \<open>C10. Supervision is never lost: in every reachable state, whatever was called, interrupted or judged in
  whatever order, an emergency stop is being supervised exactly when route 3 has a due, the response
  check never runs without it, every pending due has the timer armed at or before it or the reaction
  thread about to run, and a vehicle fault stands only under the latch.\<close>

theorem supervision_never_lost:
  assumes "reach c t s"
  shows "(s_floor_stage s \<noteq> ISLAND_FLOOR_IDLE \<longleftrightarrow> r_valid (s_rt s 3)) \<and>
         (r_valid (s_rt s 4) \<longrightarrow> r_valid (s_rt s 3)) \<and>
         (\<forall>i<5. r_valid (s_rt s i) \<longrightarrow> s_wake s \<or> (\<exists>d. s_due_timer s = Some d \<and> d \<le> r_due (s_rt s i))) \<and>
         (s_vehicle_fault s \<noteq> 0 \<longrightarrow> s_latched s \<noteq> 0)"
  using floor_inv_reach[OF assms] latch_inv_reach[OF assms] due_has_timer[OF timer_inv_reach[OF assms]]
  by (simp add: floor_inv_def latch_inv_def)

lemma word_age_le:
  assumes "(of_int n :: u32) \<le> of_int a" "0 \<le> n" "n < 2 ^ 32" "0 \<le> a"
  shows "n \<le> a"
proof -
  have "uint (of_int n :: u32) \<le> uint (of_int a :: u32)" using assms(1) by (simp add: word_le_def)
  then have "n mod 2 ^ 32 \<le> a mod 2 ^ 32" by (simp add: uint_word_of_int)
  then have "n \<le> a mod 2 ^ 32" using assms(2, 3) by simp
  also have "\<dots> \<le> a" using assms(4) by (simp add: zmod_le_nonneg_dividend)
  finally show ?thesis .
qed

text \<open>C7. No false vehicle fault: the step that records the fault is a pass that found the output already
  latched, the vehicle not at standstill by a fresh sample, and the island's own braking command at
  least a whole response span old in real time, although the thread reads its age modulo \<open>2 ^ 32\<close>.\<close>

theorem no_false_vehicle_fault:
  assumes "reach c t s" "t \<le> u" "step_ok u x s" "sup_conf_ok c"
    and "s_vehicle_fault s = 0" "s_vehicle_fault (sup_do c u x s) \<noteq> 0"
  shows "\<exists>p. x = Pass p \<and> s_latched s \<noteq> 0 \<and> \<not> standstill (i_t p) s \<and> s_brake_since s + RESPONSE_SPAN_MS c \<le> i_t p"
proof -
  obtain p n where x: "x = Pass p" and n: "n \<in> {FLOOR_SPAN_MS c, RESPONSE_SPAN_MS c}" and f: "fault_due (i_t p) n s"
    using fault_do[OF assms(5, 6)] by blast
  have rng: "RESPONSE_SPAN_MS c \<le> n" "0 \<le> n" "n < 2 ^ 32"
    using n assms(4) by (auto simp: sup_conf_ok_def FLOOR_SPAN_MS_def RESPONSE_SPAN_MS_def)
  have "s_brake_since s \<le> i_t p"
    using latch_inv_reach[OF assms(1)] f assms(2, 3) x by (auto simp: latch_inv_def fault_due_def step_ok_def pass_ok_def)
  moreover have w: "(of_int n :: u32) \<le> of_int (i_t p - s_brake_since s)" "s_latched s \<noteq> 0" "\<not> standstill (i_t p) s"
    using f unfolding fault_due_def by blast+
  ultimately have "n \<le> i_t p - s_brake_since s" using word_age_le[OF w(1) rng(2, 3)] by linarith
  then have "s_brake_since s + RESPONSE_SPAN_MS c \<le> i_t p" using rng(1) by linarith
  then show ?thesis using x w by blast
qed

section \<open>One publisher for each slot\<close>

lemma published_says: "says s s' \<Longrightarrow> \<exists>l. s_log s' = s_log s @ l \<and> published l = {}"
  by (auto simp: says_def only_says_def)

lemma service_publishes_owned:
  "\<exists>l. s_log (direct_service c p s) = s_log s @ l \<and> (\<forall>i \<in> published l. direct_owns (direct_service c p s) i)"
proof -
  obtain l where l: "s_log (direct_service c p s) = s_log s @ l" "published l \<subseteq> {i. owned c (i_t_serve p) s i}"
    using direct_service_slots(6)[of c p s] by (auto split: if_splits)
  have "direct_owns (direct_service c p s) i" if "owned c (i_t_serve p) s i" for i
    using that by (auto simp: owned_def direct_owns_def direct_service_slots silent_def direct_watched_def)
  then show ?thesis using l by blast
qed

lemma keep_swt_log: "\<exists>l. s_log (keep_swt s) = s_log s @ l \<and> published l = {}"
  by (auto simp: keep_swt_def)

lemma step_publishes_owned:
  "\<exists>l. s_log (sup_do c u x s) = s_log s @ l \<and>
       (\<forall>i \<in> published l. direct_owns (sup_do c u x s) i \<and> s_latched (sup_do c u x s) \<noteq> 0)"
proof (cases x)
  case (Pass p)
  let ?s1 = "fst (judge_routes c p (woken s))" and ?f = "snd (judge_routes c p (woken s))"
  let ?s2 = "drive_output p ?f (rearm_locked ?s1)"
  obtain l0 where "s_log (woken s) = s_log s @ l0" "published l0 = {}"
    using keep_swt_log[of "s\<lparr>s_wake := False\<rparr>"] by (auto simp: woken_def Let_def)
  moreover obtain l1 where "s_log ?s1 = s_log (woken s) @ l1" "published l1 = {}"
    using published_says[OF says_judge_routes[of "woken s" c p]] by auto
  moreover obtain l2 where "s_log ?s2 = s_log ?s1 @ l2" "published l2 = {}"
    using drive_output_latch(4)[of p ?f "rearm_locked ?s1"] by fastforce
  ultimately have l: "s_log ?s2 = s_log s @ l0 @ l1 @ l2" "published (l0 @ l1 @ l2) = {}" by simp_all
  obtain l3 where l3: "s_log (direct_service c p ?s2) = s_log ?s2 @ l3"
    "\<forall>i \<in> published l3. direct_owns (direct_service c p ?s2) i"
    using service_publishes_owned by blast
  show ?thesis
  proof (cases "s_latched ?s2 = 0")
    case True
    then have "sup_do c u x s = ?s2" by (simp add: Pass sup_do_def reaction_pass_eq case_prod_beta Let_def)
    then show ?thesis using l by (intro exI[of _ "l0 @ l1 @ l2"]) simp
  next
    case False
    then have "sup_do c u x s = direct_service c p ?s2" by (simp add: Pass sup_do_def reaction_pass_eq case_prod_beta Let_def)
    then show ?thesis using l l3 False by (intro exI[of _ "l0 @ l1 @ l2 @ l3"]) auto
  qed
next
  case (Timeout p)
  obtain l0 where l0: "s_log (keep_swt s) = s_log s @ l0" "published l0 = {}" using keep_swt_log by blast
  obtain l3 where l3: "s_log (direct_service c p (keep_swt s)) = s_log (keep_swt s) @ l3"
    "\<forall>i \<in> published l3. direct_owns (direct_service c p (keep_swt s)) i"
    using service_publishes_owned by blast
  show ?thesis
  proof (cases "s_latched (keep_swt s) = 0")
    case True
    then show ?thesis using l0 by (intro exI[of _ l0]) (simp add: Timeout sup_do_def reaction_timeout_def Let_def)
  next
    case False
    then show ?thesis using l0 l3
      by (intro exI[of _ "l0 @ l3"]) (simp add: Timeout sup_do_def reaction_timeout_def Let_def)
  qed
next
  case (Handover i period)
  then show ?thesis by (auto simp: sup_do_def island_supervisor_handover_def Let_def)
qed (auto simp: sup_do_def island_supervisor_arm_def island_supervisor_done_def response_clear_locked_def due_expiry_def
      swt_first_timeout_def nros_app_reaction_hook_def island_supervisor_set_direct_def island_supervisor_note_speed_def
      Let_def)

lemma resumed_stays: "d_resumed (s_slot s i) \<noteq> 0 \<Longrightarrow> d_resumed (s_slot (sup_do c u x s) i) \<noteq> 0"
  using grows_do[of s c u x] by (simp add: grows_def)

text \<open>C12. One publisher for each slot: what a step publishes, it publishes for a slot the direct path owns
  under the latch; a hand-over that is answered with 1 leaves the slot to its component; and once the
  direct path has resumed a slot, every later hand-over is answered with 0, after any step.\<close>

theorem one_publisher_per_slot:
  "(\<exists>l. s_log (sup_do c u x s) = s_log s @ l \<and>
        (\<forall>i \<in> published l. direct_owns (sup_do c u x s) i \<and> s_latched (sup_do c u x s) \<noteq> 0)) \<and>
   (snd (island_supervisor_handover w i period s) = 1 \<longrightarrow>
      \<not> direct_owns (fst (island_supervisor_handover w i period s)) i) \<and>
   (d_resumed (s_slot s i) \<noteq> 0 \<longrightarrow> snd (island_supervisor_handover w i period (sup_do c u x s)) = 0)"
proof (intro conjI impI)
  show "\<exists>l. s_log (sup_do c u x s) = s_log s @ l \<and>
        (\<forall>i \<in> published l. direct_owns (sup_do c u x s) i \<and> s_latched (sup_do c u x s) \<noteq> 0)"
    by (rule step_publishes_owned)
  show "snd (island_supervisor_handover w i period s) = 1 \<Longrightarrow> \<not> direct_owns (fst (island_supervisor_handover w i period s)) i"
    by (auto simp: island_supervisor_handover_def direct_owns_def Let_def split: if_splits)
  show "d_resumed (s_slot s i) \<noteq> 0 \<Longrightarrow> snd (island_supervisor_handover w i period (sup_do c u x s)) = 0"
    using resumed_stays[of s i c u x] by (simp add: island_supervisor_handover_def)
qed

section \<open>A slot that falls silent\<close>

text \<open>The deadline the thread sleeps to and the verdict it takes there agree.\<close>

lemma resume_due_silent:
  assumes "d_alive_ms (s_slot s i) = of_int a" "direct_watched s i" "a \<le> now" "now \<le> t" "t - a < 2 ^ 32"
    and "resume_due c s i now \<le> t"
  shows "silent c t s i"
proof -
  define lim where "lim = watch_period c (s_slot s i) * c_resume_periods c"
  have age: "uint (of_int x - of_int a :: u32) = x - a" if "a \<le> x" "x \<le> t" for x
    using unat_of_int_diff[of x a] assms(5) that by simp
  have "uint lim \<le> t - a"
  proof (cases "of_int now - of_int a \<ge> lim")
    case True
    then have "uint lim \<le> now - a" using age[of now] assms(3, 4) by (simp add: word_le_def)
    then show ?thesis using assms(4) by simp
  next
    case False
    then have "uint (of_int now - of_int a :: u32) \<le> uint lim" by (simp add: word_le_def)
    then have "uint (lim - (of_int now - of_int a)) = uint lim - uint (of_int now - of_int a :: u32)"
      by (simp only: uint_sub_lem)
    then have "uint (lim - (of_int now - of_int a)) = uint lim - (now - a)" using age[of now] assms(3, 4) by simp
    then have "resume_due c s i now = now + (uint lim - (now - a))"
      using False by (simp add: resume_due_def assms(1) lim_def[symmetric])
    then show ?thesis using assms(6) by simp
  qed
  then have "lim \<le> of_int t - of_int a" using age[of t] assms(3, 4) by (simp add: word_le_def)
  then show ?thesis using assms(1, 2) by (simp add: silent_def island_judge_resume_def lim_def)
qed


lemma latched_wait_le:
  assumes "s_latched s \<noteq> 0" "i < 2" "direct_watched s i"
  shows "\<exists>w. latched_wait c now s = Some w \<and> w \<le> resume_due c s i now"
proof -
  define ds where "ds = (if direct_pending s then [s_direct_next_ms s] else [])
      @ [resume_due c s i now. i \<leftarrow> [0..<2], direct_watched s i] @ (if s_swt_running s then [now + c_swt_ms c div 4] else [])"
  have mem: "resume_due c s i now \<in> set ds" using assms(2, 3) by (auto simp: ds_def)
  have low: "d \<in> set ds \<Longrightarrow> foldr min (tl ds) (hd ds) \<le> d" for d :: int
  proof -
    have "foldr min xs e \<le> e \<and> (\<forall>d \<in> set xs. foldr min xs e \<le> d)" for xs and e :: int
      by (induction xs) (auto simp: min_le_iff_disj)
    then show "d \<in> set ds \<Longrightarrow> foldr min (tl ds) (hd ds) \<le> d" by (cases ds) auto
  qed
  have "ds \<noteq> []" using mem by auto
  then have "latched_wait c now s = Some (foldr min (tl ds) (hd ds))"
    unfolding latched_wait_def using assms(1) by (simp add: ds_def Let_def)
  then show ?thesis using low[OF mem] by blast
qed

text \<open>C11. A slot that falls silent is taken back: the reaction thread never sleeps past the resume deadline of a
  slot handed over, and when it wakes at that deadline or later with no report in between, it resumes the
  slot and calls its direct function in the same service, the clocks wrapping at \<open>2 ^ 32\<close>.\<close>

theorem silent_slot_resumed:
  assumes "reach c t s" "i < 2" "direct_watched s i" "d_alive_ms (s_slot s i) = of_int a" "a \<le> now"
    and "now \<le> i_t_serve p" "i_t_serve p - a < 2 ^ 32" "resume_due c s i now \<le> i_t_serve p"
  shows "(\<exists>w. latched_wait c now s = Some w \<and> w \<le> resume_due c s i now) \<and>
         d_resumed (s_slot (reaction_timeout c p s) i) \<noteq> 0 \<and>
         (\<exists>l. s_log (reaction_timeout c p s) = s_log s @ l \<and> i \<in> published l)"
proof -
  have lat: "s_latched s \<noteq> 0"
    using latch_inv_reach[OF assms(1)] assms(3) by (auto simp: latch_inv_def direct_watched_def)
  have sil: "silent c (i_t_serve p) (keep_swt s) i"
    using resume_due_silent[OF assms(4, 3) assms(5-8)] silent_cong[of "keep_swt s" i s c] by (simp add: keep_swt_def)
  have eq: "reaction_timeout c p s = direct_service c p (keep_swt s)" using lat by (simp add: reaction_timeout_def Let_def keep_swt_def)
  obtain l0 where l0: "s_log (keep_swt s) = s_log s @ l0" using keep_swt_log by blast
  have "silent c (i_t_serve p) (keep_swt s) 0 \<or> silent c (i_t_serve p) (keep_swt s) 1"
    using sil assms(2) by (auto simp: less_2_cases_iff)
  then obtain l where l: "s_log (direct_service c p (keep_swt s)) = s_log (keep_swt s) @ l"
    "published l = {j. owned c (i_t_serve p) (keep_swt s) j}"
    using direct_service_slots(6)[of c p "keep_swt s"] by auto
  have "s_log (reaction_timeout c p s) = s_log s @ l0 @ l \<and> i \<in> published (l0 @ l)"
    using l l0 sil assms(2) by (simp add: eq owned_def)
  then show ?thesis
    using latched_wait_le[OF lat assms(2, 3)] sil assms(2) by (auto simp: eq direct_service_slots)
qed

section \<open>A vehicle that does not stop\<close>

text \<open>What is left to happen before the fault: the latch, the resume of the braking slot, and a wait for a
  braking command younger than the span.\<close>

definition floor_rank :: "sup_conf \<Rightarrow> sup_state \<Rightarrow> nat" where
  "floor_rank c s = (if s_latched s = 0 \<or> r_due (s_rt s 3) < s_brake_since s + FLOOR_SPAN_MS c then 1 else 0) +
     (if d_resumed (s_slot s 1) = 0 then 1 else 0)"

lemma floor_rank_service:
  assumes "r_valid (s_rt s 3)" "s_latched s \<noteq> 0"
  shows "floor_rank c (direct_service c p s) \<le> floor_rank c s" "s_rt (direct_service c p s) = s_rt s"
  using assms by (auto simp: floor_rank_def direct_service_slots silent_def direct_watched_def)

lemma word_age_less:
  assumes "\<not> (of_int n :: u32) \<le> of_int a" "0 \<le> n" "n < 2 ^ 32" "0 \<le> a" "a < 2 ^ 32"
  shows "a < n"
proof -
  have "\<not> uint (of_int n :: u32) \<le> uint (of_int a :: u32)" using assms(1) by (simp add: word_le_def)
  then have "\<not> n mod 2 ^ 32 \<le> a mod 2 ^ 32" by (simp add: uint_word_of_int)
  then show ?thesis using assms(2-5) by simp
qed

lemma floor_judged:
  assumes v: "r_valid (s_rt s 3)" and nf: "s_vehicle_fault s = 0"
    and mv: "s_speed_at_ms s \<noteq> 0" "\<not> standstill (i_t p) s"
    and t: "s_latched s \<noteq> 0 \<Longrightarrow> 0 \<le> s_brake_since s \<and> s_brake_since s \<le> i_t p" "i_t p < 2 ^ 32" "sup_conf_ok c"
  defines "s1 \<equiv> fst (judge_routes c p s)" and "f \<equiv> snd (judge_routes c p s)"
  shows "s_vehicle_fault s1 \<noteq> 0 \<or> r_valid (s_rt s1 3) \<and>
     (s_latched s = 0 \<and> f \<and> (overdue (i_t p) 3 s \<longrightarrow> r_due (s_rt s1 3) = i_t p + FLOOR_SPAN_MS c) \<or>
      \<not> overdue (i_t p) 3 s \<and> r_due (s_rt s1 3) = r_due (s_rt s 3) \<or>
      s_latched s \<noteq> 0 \<and> overdue (i_t p) 3 s \<and> r_due (s_rt s1 3) = s_brake_since s + FLOOR_SPAN_MS c \<and> i_t p < r_due (s_rt s1 3))"
proof -
  obtain sl fl where z: "judge_low c p s = (sl, fl)" by (cases "judge_low c p s")
  have rt3: "s_rt sl 3 = s_rt s 3" and e: "judged_on sl = judged_on s" and nfl: "s_vehicle_fault sl = 0"
    using judge_low_eq(1)[where j = 3 and c = c and p = p and s = s] judge_low_eq(2)[of c p s] judge_low_eq(4)[of s c p] nf z
    by simp_all
  have same: "s_latched sl = s_latched s" "s_brake_since sl = s_brake_since s" "s_speed_at_ms sl = s_speed_at_ms s"
    "standstill (i_t p) sl = standstill (i_t p) s" "overdue (i_t p) 3 sl = overdue (i_t p) 3 s" "r_valid (s_rt sl 3)"
    using e rt3 v by (simp_all add: judged_on_def standstill_def overdue_def)
  have fd: "fault_due (i_t p) n sl = fault_due (i_t p) n s" for n by (rule fault_due_cong[OF e])
  let ?l = "route1_left p s"
  obtain s3 f3 where z3: "judge_route c p ?l 3 (sl, fl) = (s3, f3)" by (cases "judge_route c p ?l 3 (sl, fl)")
  have z4: "judge_routes c p s = judge_route c p ?l 4 (s3, f3)" by (simp add: judge_routes_low z z3)
  have lat3: "s_latched s3 = s_latched s"
    using seen_judge_route[of c p ?l 3 "(sl, fl)"] z3 e by (simp add: judged_on_def)
  note j3 = judge_3[OF same(6) nfl, of p c ?l fl, unfolded z3 same fd fst_conv snd_conv]
  have j4: "r_valid (s_rt s3 3) \<Longrightarrow> s_vehicle_fault s3 = 0 \<Longrightarrow> s_vehicle_fault s1 \<noteq> 0 \<or> s_rt s1 3 = s_rt s3 3 \<and> (f3 \<longrightarrow> f) \<or>
         r_valid (s_rt s1 3) \<and> r_due (s_rt s1 3) = i_t p + FLOOR_SPAN_MS c \<and> s_latched s = 0 \<and> f"
    using judge_4[of s3 c p ?l f3] by (simp add: s1_def f_def z4 lat3)
  have kept: "s_vehicle_fault s3 \<noteq> 0 \<Longrightarrow> s_vehicle_fault s1 \<noteq> 0"
    using fault_kept[of "(s3, f3)"] by (simp add: s1_def z4)
  show ?thesis
  proof (cases "overdue (i_t p) 3 s")
    case False
    then have "s3 = sl" "f3 = fl" using j3(1) by simp_all
    then show ?thesis using j4 same(6) nfl rt3 False v by auto
  next
    case True
    consider "fault_due (i_t p) (FLOOR_SPAN_MS c) s" | "s_latched s = 0"
      | "s_latched s \<noteq> 0" "\<not> fault_due (i_t p) (FLOOR_SPAN_MS c) s" by blast
    then show ?thesis
    proof cases
      case 1
      then show ?thesis using j3(3)[OF True mv(1)] kept by blast
    next
      case 2
      then show ?thesis using j3(2)[OF True mv] j4 kept by (cases "s_vehicle_fault s3 = 0") auto
    next
      case 3
      have w: "\<not> (of_int (FLOOR_SPAN_MS c) :: u32) \<le> of_int (i_t p - s_brake_since s)"
        using 3 mv(2) unfolding fault_due_def by blast
      have span: "0 \<le> FLOOR_SPAN_MS c" "FLOOR_SPAN_MS c < 2 ^ 32" using t(3) by (auto simp: sup_conf_ok_def FLOOR_SPAN_MS_def)
      have age: "0 \<le> i_t p - s_brake_since s" "i_t p - s_brake_since s < 2 ^ 32" using t(1)[OF 3(1)] t(2) by linarith+
      have lt: "i_t p < s_brake_since s + FLOOR_SPAN_MS c"
        using word_age_less[OF w span age] by linarith
      have d: "r_valid (s_rt s3 3)" "r_due (s_rt s3 3) = s_brake_since s + FLOOR_SPAN_MS c"
        using j3(4)[OF True mv 3] by simp_all
      have "s_vehicle_fault s1 \<noteq> 0 \<or> s_rt s1 3 = s_rt s3 3" using j4[OF d(1)] kept 3(1) by blast
      then show ?thesis
      proof
        assume rt: "s_rt s1 3 = s_rt s3 3"
        show ?thesis unfolding rt using d lt 3(1) True by presburger
      qed blast
    qed
  qed
qed

lemma floor_rank_pass:
  assumes inv: "latch_inv t s" and ok: "pass_ok t p" "i_t p < 2 ^ 32" "sup_conf_ok c"
    and v: "r_valid (s_rt s 3)" and nf: "s_vehicle_fault s = 0" and mv: "s_speed_at_ms s \<noteq> 0" "\<not> standstill (i_t p) s"
  defines "s' \<equiv> reaction_pass c p s"
  shows "s_vehicle_fault s' \<noteq> 0 \<or>
         r_valid (s_rt s' 3) \<and> floor_rank c s' + (if overdue (i_t p) 3 s then 1 else 0) \<le> floor_rank c s"
proof -
  let ?s1 = "fst (judge_routes c p (woken s))" and ?f = "snd (judge_routes c p (woken s))"
  let ?s2 = "drive_output p ?f (rearm_locked ?s1)"
  have e: "judged_on ?s1 = judged_on (woken s)" by simp
  then have same: "s_latched ?s1 = s_latched s" "s_slot ?s1 = s_slot s" "s_brake_since ?s1 = s_brake_since s"
    by (simp_all add: judged_on_def)
  have ov: "overdue u 3 (woken s) = overdue u 3 s" for u by (simp add: overdue_def)
  have bs: "s_latched s \<noteq> 0 \<Longrightarrow> 0 \<le> s_brake_since s \<and> s_brake_since s \<le> i_t p"
    using inv ok(1) by (auto simp: latch_inv_def pass_ok_def)
  have J: "s_vehicle_fault ?s1 \<noteq> 0 \<or> r_valid (s_rt ?s1 3) \<and>
     (s_latched s = 0 \<and> ?f \<and> (overdue (i_t p) 3 s \<longrightarrow> r_due (s_rt ?s1 3) = i_t p + FLOOR_SPAN_MS c) \<or>
      \<not> overdue (i_t p) 3 s \<and> r_due (s_rt ?s1 3) = r_due (s_rt s 3) \<or>
      s_latched s \<noteq> 0 \<and> overdue (i_t p) 3 s \<and> r_due (s_rt ?s1 3) = s_brake_since s + FLOOR_SPAN_MS c \<and> i_t p < r_due (s_rt ?s1 3))"
    using floor_judged[of "woken s" p c] v nf mv bs ok by (simp add: ov)
  have s': "s' = (if s_latched ?s2 \<noteq> 0 then direct_service c p ?s2 else ?s2)"
    by (simp add: s'_def reaction_pass_eq case_prod_beta Let_def)
  show ?thesis
  proof (cases "s_vehicle_fault ?s1 = 0")
    case False
    then show ?thesis by (simp add: s')
  next
    case True
    with J have v1: "r_valid (s_rt ?s1 3)" by blast
    have "floor_rank c ?s2 + (if overdue (i_t p) 3 s then 1 else 0) \<le> floor_rank c s"
      using J True bs by (auto simp: floor_rank_def drive_output_latch same latches_def overdue_def)
    moreover have "floor_rank c s' \<le> floor_rank c ?s2" "s_rt s' = s_rt ?s1"
      using floor_rank_service[of ?s2 c p] v1 by (auto simp: s')
    ultimately show ?thesis using v1 by simp
  qed
qed

text \<open>Runs from a state: the steps with the uptime they begin at. While the vehicle moves the handler
  neither calls nor cancels the emergency stop again, and a pass sees a vehicle not at standstill.\<close>

fun sup_run :: "sup_conf \<Rightarrow> (int \<times> sup_step) list \<Rightarrow> sup_state \<Rightarrow> sup_state" where
  "sup_run c [] s = s"
| "sup_run c ((u, x) # xs) s = sup_run c xs (sup_do c u x s)"

fun run_ok :: "sup_conf \<Rightarrow> int \<Rightarrow> (int \<times> sup_step) list \<Rightarrow> sup_state \<Rightarrow> bool" where
  "run_ok c t [] s = True"
| "run_ok c t ((u, x) # xs) s \<longleftrightarrow> t \<le> u \<and> step_ok u x s \<and> run_ok c (step_end u x) xs (sup_do c u x s)"

definition still_moving :: "sup_step \<Rightarrow> sup_state \<Rightarrow> bool" where
  "still_moving x s = (case x of
       Arm _ route _ \<Rightarrow> route \<noteq> 3
     | Done route \<Rightarrow> route \<noteq> 3
     | Pass p \<Rightarrow> s_speed_at_ms s \<noteq> 0 \<and> \<not> standstill (i_t p) s \<and> i_t p < 2 ^ 32
     | _ \<Rightarrow> True)"

fun moving_run :: "sup_conf \<Rightarrow> (int \<times> sup_step) list \<Rightarrow> sup_state \<Rightarrow> bool" where
  "moving_run c [] s = True"
| "moving_run c ((u, x) # xs) s \<longleftrightarrow> still_moving x s \<and> moving_run c xs (sup_do c u x s)"

text \<open>The passes at or after route 3's due.\<close>

definition due_pass :: "sup_step \<Rightarrow> sup_state \<Rightarrow> bool" where
  "due_pass x s = (case x of Pass p \<Rightarrow> overdue (i_t p) 3 s | _ \<Rightarrow> False)"

fun due_passes :: "sup_conf \<Rightarrow> (int \<times> sup_step) list \<Rightarrow> sup_state \<Rightarrow> nat" where
  "due_passes c [] s = 0"
| "due_passes c ((u, x) # xs) s = (if due_pass x s then 1 else 0) + due_passes c xs (sup_do c u x s)"

fun run_end :: "int \<Rightarrow> (int \<times> sup_step) list \<Rightarrow> int" where
  "run_end t [] = t"
| "run_end t ((u, x) # xs) = run_end (step_end u x) xs"

lemma run_reach: "reach c t s \<Longrightarrow> run_ok c t xs s \<Longrightarrow> reach c (run_end t xs) (sup_run c xs s)"
proof (induction xs arbitrary: t s)
  case (Cons a xs)
  then show ?case by (cases a) (auto dest: reach.step)
qed simp

lemma floor_rank_step:
  assumes inv: "latch_inv u s" and ok: "step_ok u x s" "still_moving x s" "sup_conf_ok c"
    and v: "r_valid (s_rt s 3)" and nf: "s_vehicle_fault s = 0"
  defines "s' \<equiv> sup_do c u x s"
  shows "s_vehicle_fault s' \<noteq> 0 \<or>
         r_valid (s_rt s' 3) \<and> floor_rank c s' + (if due_pass x s then 1 else 0) \<le> floor_rank c s"
proof (cases x)
  case (Pass p)
  then show ?thesis using floor_rank_pass[OF inv _ _ ok(3) v nf, of p] ok
    by (simp add: s'_def sup_do_def step_ok_def still_moving_def due_pass_def)
next
  case (Timeout p)
  have k: "s_rt (keep_swt s) = s_rt s" "s_latched (keep_swt s) = s_latched s" "floor_rank c (keep_swt s) = floor_rank c s"
    by (simp_all add: keep_swt_def floor_rank_def)
  then show ?thesis using Timeout floor_rank_service[of "keep_swt s" c p] v
    by (auto simp: s'_def sup_do_def reaction_timeout_def Let_def due_pass_def)
next
  case (Handover i period)
  then show ?thesis using v
    by (auto simp: s'_def sup_do_def island_supervisor_handover_def Let_def floor_rank_def due_pass_def)
qed (use v ok in \<open>auto simp: s'_def sup_do_def step_ok_def still_moving_def due_pass_def floor_rank_def island_supervisor_arm_def
      island_supervisor_done_def due_expiry_def swt_first_timeout_def nros_app_reaction_hook_def
      island_supervisor_set_direct_def island_supervisor_note_speed_def Let_def\<close>)

lemma fault_run: "s_vehicle_fault s \<noteq> 0 \<Longrightarrow> s_vehicle_fault (sup_run c xs s) \<noteq> 0"
proof (induction xs arbitrary: s)
  case (Cons a xs)
  then show ?case using grows_do by (cases a) (auto simp: grows_def)
qed simp

lemma moving_run_fault:
  assumes "latch_inv t s" "run_ok c t xs s" "moving_run c xs s" "sup_conf_ok c"
    and "s_vehicle_fault s \<noteq> 0 \<or> r_valid (s_rt s 3) \<and> floor_rank c s < due_passes c xs s"
  shows "s_vehicle_fault (sup_run c xs s) \<noteq> 0"
  using assms
proof (induction xs arbitrary: t s)
  case (Cons a xs)
  obtain u x where a: "a = (u, x)" by (cases a)
  show ?case
  proof (cases "s_vehicle_fault s = 0")
    case False
    then show ?thesis using fault_run[of s c "a # xs"] by simp
  next
    case True
    have inv: "latch_inv u s" using Cons.prems(1, 2) a by (auto intro: latch_inv_mono)
    have inv': "latch_inv (step_end u x) (sup_do c u x s)" using latch_inv_do[OF inv] Cons.prems(2) a by simp
    have "s_vehicle_fault (sup_do c u x s) \<noteq> 0 \<or> r_valid (s_rt (sup_do c u x s) 3) \<and>
        floor_rank c (sup_do c u x s) + (if due_pass x s then 1 else 0) \<le> floor_rank c s"
      using Cons.prems a True by (intro floor_rank_step[OF inv]) auto
    then show ?thesis using Cons.IH[OF inv'] Cons.prems a True by auto
  qed
qed simp

text \<open>C8. A vehicle that does not stop is reported: from any reachable state in which the emergency stop is
  supervised, three passes at or after route 3's due record the vehicle fault, whatever happens between
  them (latches by any cause, hand-overs, a resume that restarts the braking command), as long as the
  handler neither renews nor cancels the call, the vehicle is never seen at standstill and the board has
  been up for less than \<open>2 ^ 32\<close> ms.\<close>

theorem moving_vehicle_reported:
  assumes "reach c t s" "sup_conf_ok c" "s_floor_stage s \<noteq> ISLAND_FLOOR_IDLE"
    and "run_ok c t xs s" "moving_run c xs s" "3 \<le> due_passes c xs s"
  shows "s_vehicle_fault (sup_run c xs s) \<noteq> 0"
proof (rule moving_run_fault[OF latch_inv_reach[OF assms(1)] assms(4, 5, 2)])
  have "r_valid (s_rt s 3)" using floor_inv_reach[OF assms(1)] assms(3) by (simp add: floor_inv_def)
  moreover have "floor_rank c s \<le> 2" by (simp add: floor_rank_def)
  ultimately show "s_vehicle_fault s \<noteq> 0 \<or> r_valid (s_rt s 3) \<and> floor_rank c s < due_passes c xs s"
    using assms(6) by auto
qed

section \<open>A run on the board\<close>

text \<open>The image's Kconfig values.\<close>

definition island_conf :: sup_conf where
  "island_conf = \<lparr>c_emergency_ms = 4485, c_response_ms = 1319, c_observe_ms = 136, c_drop_mm_s = 250,
     c_resume_periods = 3, c_direct_period_ms = 33, c_swt_ms = 300\<rparr>"

definition pass_at :: "int \<Rightarrow> pass_in" where
  "pass_at t = \<lparr>i_t = t, i_t_latch = t, i_t_serve = t, i_t_pub = t, i_now_us = 1000 * t, i_watch = None,
     i_us = (\<lambda>_. 0), i_gpio = True\<rparr>"

text \<open>The emergency stop is called at 1 s and route 4 met at 2455.\<close>

definition called_run :: "(int \<times> sup_step) list" where
  "called_run = [(0, Set_direct 0 True), (0, Set_direct 1 True), (1000, Note_speed 8000), (1000, Arm 1000 3 5621),
     (2400, Note_speed 7000), (2455, Expire), (2455, Pass (pass_at 2455))]"

definition called :: sup_state where "called = sup_run island_conf called_run (island_supervisor_init True)"

lemma called_reach: "reach island_conf 2455 called"
proof -
  have "run_ok island_conf 0 called_run (island_supervisor_init True)" by code_simp
  from run_reach[OF reach.boot this] show ?thesis
    unfolding called_def by (simp add: called_run_def step_end_def pass_at_def)
qed

text \<open>The vehicle goes on moving: the latch at 5621, the operator takes over at 5650 and falls silent, the
  resume at 7076, the wait at 10242 and the fault at 11697.\<close>

definition never_stops :: "(int \<times> sup_step) list" where
  "never_stops = [(5600, Note_speed 6000), (5621, Expire), (5621, Pass (pass_at 5621)), (5650, Handover 1 33),
     (7000, Note_speed 5000), (7076, Expire), (7076, Pass (pass_at 7076)), (10200, Note_speed 4000),
     (10242, Expire), (10242, Pass (pass_at 10242)), (11600, Note_speed 3000), (11697, Expire), (11697, Pass (pass_at 11697))]"

theorem moving_vehicle_reported_witness: "s_vehicle_fault (sup_run island_conf never_stops called) \<noteq> 0"
proof (rule moving_vehicle_reported[OF called_reach])
  show "sup_conf_ok island_conf" by code_simp
  show "s_floor_stage called \<noteq> ISLAND_FLOOR_IDLE" by code_simp
  show "run_ok island_conf 2455 never_stops called" by code_simp
  show "moving_run island_conf never_stops called" by code_simp
  show "3 \<le> due_passes island_conf never_stops called" by code_simp
qed

lemma never_stops_reach:
  assumes "run_ok island_conf 2455 xs called"
  shows "reach island_conf (run_end 2455 xs) (sup_run island_conf xs called)"
  by (rule run_reach[OF called_reach assms])

theorem pass_drives_on_miss_witness:
  "s_latched (reaction_pass island_conf (pass_at 5621) called) \<noteq> 0 \<and>
   (\<exists>l. s_log (reaction_pass island_conf (pass_at 5621) called) = s_log called @ l \<and> (\<exists>b. Drive b \<in> set l) \<and>
        published l = {i. i < 2 \<and> d_fn (s_slot called i)})"
proof -
  have "missed island_conf (pass_at 5621) called 3" by code_simp
  then have due: "output_due island_conf (pass_at 5621) called" unfolding output_due_def by (intro disjI1 exI[of _ 3]) simp
  have "s_latched called = 0" "pass_ok 2455 (pass_at 5621)" by code_simp+
  from pass_drives_on_miss[OF called_reach this] due show ?thesis by (simp only: if_True simp_thms)
qed

theorem supervision_never_lost_witness:
  "r_valid (s_rt called 3) \<and> (\<exists>d. s_due_timer called = Some d \<and> d \<le> r_due (s_rt called 3))"
proof -
  have "s_floor_stage called \<noteq> ISLAND_FLOOR_IDLE" "\<not> s_wake called" by code_simp+
  then show ?thesis using supervision_never_lost[OF called_reach] by auto
qed

definition before_fault :: "(int \<times> sup_step) list" where "before_fault = butlast never_stops"

theorem no_false_vehicle_fault_witness:
  "\<exists>p. Pass (pass_at 11697) = Pass p \<and> s_latched (sup_run island_conf before_fault called) \<noteq> 0 \<and>
       \<not> standstill (i_t p) (sup_run island_conf before_fault called) \<and>
       s_brake_since (sup_run island_conf before_fault called) + RESPONSE_SPAN_MS island_conf \<le> i_t p"
proof (rule no_false_vehicle_fault)
  have "run_ok island_conf 2455 before_fault called" by code_simp
  from never_stops_reach[OF this] show "reach island_conf (run_end 2455 before_fault) (sup_run island_conf before_fault called)" .
  show "run_end 2455 before_fault \<le> 11697" by code_simp
  show "step_ok 11697 (Pass (pass_at 11697)) (sup_run island_conf before_fault called)" by code_simp
  show "sup_conf_ok island_conf" by code_simp
  show "s_vehicle_fault (sup_run island_conf before_fault called) = 0" by code_simp
  show "s_vehicle_fault (sup_do island_conf 11697 (Pass (pass_at 11697)) (sup_run island_conf before_fault called)) \<noteq> 0"
    by code_simp
qed

text \<open>After the latch at 5621, and after the operator's first report at 5650.\<close>

definition braking :: sup_state where "braking = sup_run island_conf (take 3 never_stops) called"

definition handed_over :: sup_state where "handed_over = sup_run island_conf (take 4 never_stops) called"

theorem one_publisher_per_slot_witness: "\<not> direct_owns (fst (island_supervisor_handover 5650 1 33 braking)) 1"
proof -
  have "snd (island_supervisor_handover 5650 1 33 braking) = 1" by code_simp
  then show ?thesis using one_publisher_per_slot[where s = braking and w = 5650 and i = 1 and period = 33] by blast
qed

theorem silent_slot_resumed_witness:
  "d_resumed (s_slot (reaction_timeout island_conf (pass_at 5749) handed_over) 1) \<noteq> 0"
proof -
  have r: "reach island_conf (run_end 2455 (take 4 never_stops)) handed_over"
    unfolding handed_over_def by (rule never_stops_reach) code_simp
  have "direct_watched handed_over 1" "d_alive_ms (s_slot handed_over 1) = of_int 5650"
    "resume_due island_conf handed_over 1 5650 \<le> i_t_serve (pass_at 5749)" by code_simp+
  then show ?thesis
    using silent_slot_resumed[OF r, of 1 5650 5650 "pass_at 5749"] by (simp add: pass_at_def)
qed

end
