(* ===== verification/Levels.thy ===== *)
theory Levels
  imports Reaction_Runs
begin

text \<open>The executor's levels in \<^verbatim>\<open>src/zephyr_entry/src/island_supervisor.c\<close>: every thread that spins checks its level
  in, SWT0 is started by the first spin and fed when nano-ros reports every level alive, and only the
  level that hosts the MRM handler arms or clears route 1. \<open>Reaction\<close> holds the routes and the thread that
  judges them.

  The inputs of a spin: the thread with its priority and name, the nano-ros level it runs, the cycle
  counter and the uptime, what the watchdog driver and \<open>nros_cpp_levels_take_alive\<close> answer, and
  \<open>k_cyc_to_us_floor64\<close> as a function. \<open>prio_take\<close>, which copies the priority plan into the record, and the
  injections of \<open>CONFIG_ISLAND_DEBUG_SPIN_STALL\<close> are not modelled.\<close>

section \<open>State and operations\<close>

record exec_level =
  lv_tid :: nat
  lv_prio :: "32 word"
  lv_name :: string
  lv_spins :: u32
  lv_gap_max_us :: u32
  lv_gap_max_at_ms :: u32
  lv_route_foreign :: u32
  lv_nros_level :: "8 word"
  lv_last_cyc :: u32

record exec_board =
  b_sup :: sup_state
  b_level :: "exec_level list"
  b_route_owner :: "nat option"
  b_spins :: u32
  b_level_overflow :: u32
  b_checkin_mask :: u32
  b_feeds :: u32
  b_spin_gap_max_us :: u32
  b_spin_gap_max_at_ms :: u32
  b_last_feed_cyc :: u32
  b_swt_errors :: u32
  b_swt_starting :: bool
  b_swt_started :: u32
  b_swt_timeout_ms :: u32

record spin_in =
  sp_self :: nat
  sp_prio :: "32 word"
  sp_name :: string
  sp_nros_level :: "8 word"
  sp_now :: u32
  sp_uptime :: u32
  sp_cyc_us :: "u32 \<Rightarrow> u32"
  sp_start_ok :: bool
  sp_alive :: bool
  sp_feed_ok :: bool

definition level_index :: "nat \<Rightarrow> exec_board \<Rightarrow> nat option" where
  "level_index self b = find (\<lambda>i. lv_tid (b_level b ! i) = self) [0..<length (b_level b)]"

text \<open>\<open>strncpy\<close> into \<open>name[16]\<close> keeps at most 15 characters.\<close>

definition level_of_locked :: "spin_in \<Rightarrow> bool \<Rightarrow> exec_board \<Rightarrow> exec_board \<times> nat option" where
  "level_of_locked p tak b =
     (case level_index (sp_self p) b of
        Some i \<Rightarrow> (b, Some i)
      | None \<Rightarrow>
          if \<not> tak \<or> length (b_level b) \<ge> 4 then (b, None)
          else (b\<lparr>b_level := b_level b @ [\<lparr>lv_tid = sp_self p, lv_prio = sp_prio p, lv_name = take 15 (sp_name p),
                  lv_spins = 0, lv_gap_max_us = 0, lv_gap_max_at_ms = 0, lv_route_foreign = 0, lv_nros_level = 0,
                  lv_last_cyc = 0\<rparr>]\<rparr>, Some (length (b_level b))))"

definition spin_level :: "spin_in \<Rightarrow> exec_level \<Rightarrow> exec_level" where
  "spin_level p v =
     (let gap = sp_cyc_us p (sp_now p - lv_last_cyc v);
          worse = lv_spins v \<noteq> 0 \<and> gap > lv_gap_max_us v
      in v\<lparr>lv_nros_level := sp_nros_level p,
           lv_gap_max_us := (if worse then gap else lv_gap_max_us v),
           lv_gap_max_at_ms := (if worse then sp_uptime p else lv_gap_max_at_ms v),
           lv_last_cyc := sp_now p, lv_spins := lv_spins v + 1\<rparr>)"

definition swt_begin :: "u32 \<Rightarrow> spin_in \<Rightarrow> exec_board \<Rightarrow> exec_board" where
  "swt_begin swt_ms p b =
     (if b_swt_errors b \<noteq> 0 \<or> b_swt_starting b then b
      else if sp_start_ok p
      then b\<lparr>b_swt_starting := True, b_swt_started := 1, b_swt_timeout_ms := swt_ms, b_last_feed_cyc := sp_now p, b_checkin_mask := 0,
             b_sup := (b_sup b)\<lparr>s_swt_running := True\<rparr>\<rparr>
      else b\<lparr>b_swt_starting := True, b_swt_errors := b_swt_errors b + 1\<rparr>)"

definition swt_check_in :: "spin_in \<Rightarrow> nat \<Rightarrow> exec_board \<Rightarrow> exec_board" where
  "swt_check_in p self b =
     (let b1 = b\<lparr>b_checkin_mask := b_checkin_mask b OR push_bit self 1\<rparr>
      in if \<not> sp_alive p then b1
         else
           (let gap = sp_cyc_us p (sp_now p - b_last_feed_cyc b1);
                worse = gap > b_spin_gap_max_us b1
            in b1\<lparr>b_spin_gap_max_us := (if worse then gap else b_spin_gap_max_us b1),
                  b_spin_gap_max_at_ms := (if worse then sp_uptime p else b_spin_gap_max_at_ms b1),
                  b_last_feed_cyc := sp_now p, b_checkin_mask := 0, b_feeds := b_feeds b1 + 1,
                  b_swt_errors := (if sp_feed_ok p then b_swt_errors b1 else b_swt_errors b1 + 1),
                  b_sup := say Feed (b_sup b1)\<rparr>))"

text \<open>\<open>swt\<close>: \<open>CONFIG_ISLAND_SUPERVISOR_SWT_MS\<close>, \<open>None\<close> without \<open>CONFIG_ISLAND_SUPERVISOR_SWT\<close>.\<close>

definition island_supervisor_spin :: "u32 option \<Rightarrow> spin_in \<Rightarrow> exec_board \<Rightarrow> exec_board" where
  "island_supervisor_spin swt p b =
     (let (b1, self) = level_of_locked p True b;
          b2 = b1\<lparr>b_spins := b_spins b1 + 1\<rparr>
      in case self of
           None \<Rightarrow> b2\<lparr>b_level_overflow := b_level_overflow b2 + 1\<rparr>
         | Some i \<Rightarrow>
             (let b3 = b2\<lparr>b_level := (b_level b2)[i := spin_level p (b_level b2 ! i)]\<rparr>
              in case swt of
                   None \<Rightarrow> b3
                 | Some ms \<Rightarrow> if \<not> s_swt_running (b_sup b3) then swt_begin ms p b3 else swt_check_in p i b3))"

text \<open>\<open>reported\<close>: the executor's next due in microseconds, \<open>None\<close> without an executor or an answer; \<open>watch\<close>:
  the route watch was filled; \<open>handler\<close> is \<open>NROS_ENTRY_LEVEL_OF_MRM_HANDLER\<close>.\<close>

definition route1_report :: "sup_conf \<Rightarrow> 64 word option \<Rightarrow> int \<Rightarrow> int \<Rightarrow> sup_state \<Rightarrow> sup_state" where
  "route1_report c reported t now_us s =
     (case reported of
        None \<Rightarrow> island_supervisor_done 1 s
      | Some us \<Rightarrow> if us = uint64_max then island_supervisor_done 1 s
                   else island_supervisor_arm c t t 1 (executor_due_ms now_us us) s)"

definition island_supervisor_spin_after ::
    "sup_conf \<Rightarrow> 8 word \<Rightarrow> spin_in \<Rightarrow> 64 word option \<Rightarrow> bool \<Rightarrow> int \<Rightarrow> int \<Rightarrow> exec_board \<Rightarrow> exec_board" where
  "island_supervisor_spin_after c handler p reported watch t now_us b =
     (let self = snd (level_of_locked p False b);
          takes = b_route_owner b = None \<and> self \<noteq> None \<and> sp_nros_level p = handler;
          b1 = (if takes then b\<lparr>b_route_owner := self\<rparr> else b)
      in case self of
           None \<Rightarrow> b1
         | Some i \<Rightarrow>
             if b_route_owner b1 \<noteq> Some i
             then (if reported \<noteq> None \<and> reported \<noteq> Some uint64_max
                   then b1\<lparr>b_level := (b_level b1)[i := (b_level b1 ! i)\<lparr>lv_route_foreign := lv_route_foreign (b_level b1 ! i) + 1\<rparr>]\<rparr>
                   else b1)
             else
               (let s1 = (if takes \<and> watch then (b_sup b1)\<lparr>s_route_watch_ok := True\<rparr> else b_sup b1)
                in b1\<lparr>b_sup := route1_report c reported t now_us s1\<rparr>))"

section \<open>Levels and routes\<close>

lemma find_SomeD: "find P xs = Some x \<Longrightarrow> x \<in> set xs \<and> P x"
  by (induction xs) (auto split: if_splits)

text \<open>The levels: at most four, one for each thread, and the route's owner one of them.\<close>

definition levels_inv :: "exec_board \<Rightarrow> bool" where
  "levels_inv b \<longleftrightarrow> length (b_level b) \<le> 4 \<and> distinct (map lv_tid (b_level b)) \<and>
     (\<forall>i. b_route_owner b = Some i \<longrightarrow> i < length (b_level b))"

lemma level_index_None: "level_index self b = None \<longleftrightarrow> self \<notin> lv_tid ` set (b_level b)"
  by (auto simp: level_index_def find_None_iff in_set_conv_nth image_iff Bex_def)

lemma level_index_Some: "level_index self b = Some i \<Longrightarrow> i < length (b_level b) \<and> lv_tid (b_level b ! i) = self"
  using find_SomeD[of _ "[0..<length (b_level b)]" i] by (auto simp: level_index_def)

lemma level_of_locked_inv:
  assumes "levels_inv b" "level_of_locked p tak b = (b1, self)"
  shows "levels_inv b1" "self = Some i \<Longrightarrow> i < length (b_level b1)" "b_sup b1 = b_sup b"
    "b_route_owner b1 = b_route_owner b" "\<not> tak \<Longrightarrow> b1 = b"
  using assms level_index_Some[of "sp_self p" b] level_index_None[of "sp_self p" b]
  by (auto simp: level_of_locked_def levels_inv_def split: option.splits if_splits)

lemma map_update_same: "i < length xs \<Longrightarrow> f y = f (xs ! i) \<Longrightarrow> map f (xs[i := y]) = map f xs"
  by (simp add: map_update) (metis list_update_id map_update nth_map)

lemma levels_inv_update:
  assumes "levels_inv b" "lv_tid v = lv_tid (b_level b ! i)" "i < length (b_level b)"
  shows "levels_inv (b\<lparr>b_level := (b_level b)[i := v]\<rparr>)"
  using assms by (simp add: levels_inv_def map_update_same)

lemma levels_inv_spin:
  assumes "levels_inv b"
  shows "levels_inv (island_supervisor_spin swt p b)"
proof -
  obtain b1 self where l: "level_of_locked p True b = (b1, self)" by (cases "level_of_locked p True b")
  note inv = level_of_locked_inv[OF assms l]
  have b2: "levels_inv (b1\<lparr>b_spins := n\<rparr>)" "levels_inv (b1\<lparr>b_spins := n, b_level_overflow := m\<rparr>)" for n m
    using inv(1) by (simp_all add: levels_inv_def)
  have swt: "levels_inv x \<Longrightarrow> levels_inv (swt_begin ms p x)" "levels_inv x \<Longrightarrow> levels_inv (swt_check_in p i x)" for x i ms
    by (simp_all add: levels_inv_def swt_begin_def swt_check_in_def Let_def)
  show ?thesis
  proof (cases self)
    case None
    then show ?thesis using b2 by (simp add: island_supervisor_spin_def l)
  next
    case (Some i)
    have "levels_inv (b1\<lparr>b_spins := n, b_level := (b_level b1)[i := spin_level p (b_level b1 ! i)]\<rparr>)" for n
      using levels_inv_update[OF b2(1)[of n], of "spin_level p (b_level b1 ! i)" i] inv(2)[OF Some]
      by (simp add: spin_level_def Let_def)
    then show ?thesis using Some by (auto simp: island_supervisor_spin_def l Let_def intro!: swt split: option.split)
  qed
qed

lemma levels_inv_spin_after:
  assumes "levels_inv b"
  shows "levels_inv (island_supervisor_spin_after c h p r w t u b)"
proof -
  let ?self = "snd (level_of_locked p False b)"
  have own: "?self = Some i \<Longrightarrow> i < length (b_level b)" for i
    using level_index_Some[of "sp_self p" b i] by (auto simp: level_of_locked_def split: option.splits)
  have upd: "levels_inv (x\<lparr>b_level := (b_level x)[i := v]\<rparr>)" if "levels_inv x" "?self = Some i" "b_level x = b_level b"
    "lv_tid v = lv_tid (b_level x ! i)" for x i v
    using levels_inv_update[OF that(1, 4)] own[OF that(2)] that(3) by simp
  have b1: "levels_inv (b\<lparr>b_route_owner := ?self\<rparr>)" using assms own by (simp add: levels_inv_def)
  have sup: "levels_inv (x\<lparr>b_sup := s\<rparr>) = levels_inv x" for x s by (simp add: levels_inv_def)
  show ?thesis
    using assms b1 by (auto simp: island_supervisor_spin_after_def Let_def sup split: option.split intro!: upd)
qed

text \<open>To the routes and the reaction thread a spin is at most one step, and its end at most two; only the
  level that owns route 1 touches a route.\<close>

lemma spin_steps:
  "\<exists>xs. run_ok c t xs (b_sup b) \<and> b_sup (island_supervisor_spin swt p b) = sup_run c xs (b_sup b)"
proof -
  obtain b1 self where l: "level_of_locked p True b = (b1, self)" by (cases "level_of_locked p True b")
  have same: "b_sup b1 = b_sup b" using l by (auto simp: level_of_locked_def split: option.splits if_splits)
  have sup: "b_sup (swt_begin ms p x) \<in> {b_sup x, sup_do c t Swt_started (b_sup x)}"
    "b_sup (swt_check_in p i x) \<in> {b_sup x, sup_do c t Swt_fed (b_sup x)}" for x i ms
    by (simp_all add: swt_begin_def swt_check_in_def sup_do_def Let_def)
  have "b_sup (island_supervisor_spin swt p b) \<in>
      {b_sup b, sup_do c t Swt_started (b_sup b), sup_do c t Swt_fed (b_sup b)}"
  proof (cases self)
    case None
    then show ?thesis by (simp add: island_supervisor_spin_def l same)
  next
    case (Some i)
    define b3 where "b3 = b1\<lparr>b_spins := b_spins b1 + 1, b_level := (b_level b1)[i := spin_level p (b_level b1 ! i)]\<rparr>"
    have "b_sup b3 = b_sup b" by (simp add: b3_def same)
    moreover have "island_supervisor_spin swt p b =
        (case swt of None \<Rightarrow> b3
         | Some ms \<Rightarrow> if \<not> s_swt_running (b_sup b3) then swt_begin ms p b3 else swt_check_in p i b3)"
      by (cases swt) (simp_all add: island_supervisor_spin_def l Some Let_def b3_def)
    ultimately show ?thesis
      using sup(1)[of _ b3] sup(2)[of i b3] by (cases swt; cases "s_swt_running (b_sup b3)") (simp only: option.case if_True if_False simp_thms; blast)+
  qed
  then have "b_sup (island_supervisor_spin swt p b) \<in>
      (\<lambda>xs. sup_run c xs (b_sup b)) ` {[], [(t, Swt_started)], [(t, Swt_fed)]}" by simp
  then obtain xs where xs: "xs \<in> {[], [(t, Swt_started)], [(t, Swt_fed)]}"
    "b_sup (island_supervisor_spin swt p b) = sup_run c xs (b_sup b)" by blast
  have "step_ok t Swt_started s" "step_ok t Swt_fed s" for s by (simp_all add: step_ok_def)
  then have "run_ok c t xs (b_sup b)" using xs(1) by (elim insertE) simp_all
  then show ?thesis using xs(2) by blast
qed

lemma spin_after_steps:
  "\<exists>xs. run_ok c t xs (b_sup b) \<and> b_sup (island_supervisor_spin_after c h p r w t u b) = sup_run c xs (b_sup b)"
proof -
  let ?s' = "b_sup (island_supervisor_spin_after c h p r w t u b)"
  define last where "last = (case r of None \<Rightarrow> Done 1
    | Some us \<Rightarrow> if us = uint64_max then Done 1 else Arm t 1 (executor_due_ms u us))"
  have rep: "route1_report c r t u s = sup_do c t last s" for s
    by (simp add: route1_report_def last_def sup_do_def split: option.split)
  have wf: "s\<lparr>s_route_watch_ok := True\<rparr> = sup_do c t Watch_filled s" for s by (simp add: sup_do_def)
  have "?s' \<in> {b_sup b, sup_do c t last (b_sup b), sup_do c t last (sup_do c t Watch_filled (b_sup b))}"
    by (cases "snd (level_of_locked p False b)") (simp_all add: island_supervisor_spin_after_def Let_def rep wf)
  then have "?s' \<in> (\<lambda>xs. sup_run c xs (b_sup b)) ` {[], [(t, last)], [(t, Watch_filled), (t, last)]}" by simp
  then obtain xs where xs: "xs \<in> {[], [(t, last)], [(t, Watch_filled), (t, last)]}" "?s' = sup_run c xs (b_sup b)" by blast
  have "step_ok t last s" "step_ok t Watch_filled s" "step_end t last = t" "step_end t Watch_filled = t" for s
    by (auto simp: last_def step_ok_def step_end_def split: option.split)
  then have "run_ok c t xs (b_sup b)" using xs(1) by (elim insertE) simp_all
  then show ?thesis using xs(2) by blast
qed

lemma foreign_level_keeps_routes:
  "b_route_owner (island_supervisor_spin_after c h p r w t u b) \<noteq> snd (level_of_locked p False b) \<Longrightarrow>
   b_sup (island_supervisor_spin_after c h p r w t u b) = b_sup b"
  by (auto simp: island_supervisor_spin_after_def Let_def split: option.splits if_splits)

text \<open>So the levels keep every state of the supervisor reachable.\<close>

lemma levels_reach:
  assumes "reach c t (b_sup b)"
  shows "\<exists>u. reach c u (b_sup (island_supervisor_spin swt p b))"
    and "\<exists>v. reach c v (b_sup (island_supervisor_spin_after c h p r w t u b))"
  using spin_steps[of c t b swt p] spin_after_steps[of c t b h p r w u] assms
  by (metis run_reach)+

end
