(* ===== verification/Board_Session.thy ===== *)
theory Board_Session
  imports Island_Prelude "HOL-Library.List_Lexorder" "HOL-Library.Char_ord"
begin

text \<open>Sessions of the tools with a target: a computation over the board's answers that records what it did, in order.
  Every access may raise, and an answer may depend on all that was done before. \<open>sfinally\<close> is Python's \<open>finally\<close>: the
  clean-up runs whether the body raised or not, and an exception of its own replaces the body's. A loop has fuel:
  \<open>Going\<close> is the outcome of a session still in its loop when the fuel is used up, before any clean-up.

  The one-shot diagnostics \<^verbatim>\<open>tools/diag/swd_where.py\<close> and \<^verbatim>\<open>tools/diag/swd_stackwalk.py\<close> are the first two sessions. What
  addr2line prints and the symbol table's answer are arguments.\<close>

section \<open>Sessions\<close>

datatype bop = O_attach | O_halt | O_resume | O_close | O_get32 int | O_get16 int | O_block int int | O_core string
  | O_put32 int int | O_sleep | O_clock

text \<open>The data handed to \<open>json.dump\<close>; \<open>J_num\<close> is a float by its text.\<close>

datatype js = J_int int | J_str string | J_num string | J_dict "(string \<times> js) list"

datatype board_act = Did bop | Printed string | Saved_text string string | Saved_bytes string bytes | Saved_json string js

datatype 'a outcome = Ret 'a | Exn py_error | Going

record board =
  bd_raise :: "board_act list \<Rightarrow> bop \<Rightarrow> py_error option"
  bd_num :: "board_act list \<Rightarrow> bop \<Rightarrow> int"       \<comment> \<open>a word, or the host's clock in microseconds\<close>
  bd_block :: "board_act list \<Rightarrow> int \<Rightarrow> int \<Rightarrow> bytes"
  bd_stamp :: "board_act list \<Rightarrow> string"          \<comment> \<open>a text made of the host's clocks\<close>

type_synonym 'a probe_run = "board \<Rightarrow> board_act list \<Rightarrow> 'a outcome \<times> board_act list"

definition sret :: "'a \<Rightarrow> 'a probe_run" where "sret x = (\<lambda>b h. (Ret x, h))"

definition sfail :: "py_error \<Rightarrow> 'a probe_run" where "sfail e = (\<lambda>b h. (Exn e, h))"

definition slift :: "'a res \<Rightarrow> 'a probe_run" where "slift r = (\<lambda>b h. (case r of Inl e \<Rightarrow> Exn e | Inr x \<Rightarrow> Ret x, h))"

definition sbind :: "'a probe_run \<Rightarrow> ('a \<Rightarrow> 'b probe_run) \<Rightarrow> 'b probe_run" where
  "sbind m f = (\<lambda>b h. case m b h of (Ret x, h1) \<Rightarrow> f x b h1 | (Exn e, h1) \<Rightarrow> (Exn e, h1) | (Going, h1) \<Rightarrow> (Going, h1))"

abbreviation sthen :: "unit probe_run \<Rightarrow> 'b probe_run \<Rightarrow> 'b probe_run" where
  "sthen m n \<equiv> sbind m (\<lambda>_. n)"

definition sfinally :: "'a probe_run \<Rightarrow> unit probe_run \<Rightarrow> 'a probe_run" where
  "sfinally m f = (\<lambda>b h. case m b h of
     (Going, h1) \<Rightarrow> (Going, h1)
   | (r, h1) \<Rightarrow> (case f b h1 of (Ret _, h2) \<Rightarrow> (r, h2) | (Exn e, h2) \<Rightarrow> (Exn e, h2) | (Going, h2) \<Rightarrow> (Going, h2)))"

definition on_interrupt :: "unit probe_run \<Rightarrow> unit probe_run" where   \<comment> \<open>\<open>except KeyboardInterrupt: pass\<close>\<close>
  "on_interrupt m = (\<lambda>b h. case m b h of (Exn KeyboardInterrupt, h1) \<Rightarrow> (Ret (), h1) | r \<Rightarrow> r)"

definition do_op :: "bop \<Rightarrow> unit probe_run" where
  "do_op op = (\<lambda>b h. (case bd_raise b h op of Some e \<Rightarrow> Exn e | None \<Rightarrow> Ret (), h @ [Did op]))"

definition get_num :: "bop \<Rightarrow> int probe_run" where
  "get_num op = (\<lambda>b h. (case bd_raise b h op of Some e \<Rightarrow> Exn e | None \<Rightarrow> Ret (bd_num b h op), h @ [Did op]))"

definition get_block :: "int \<Rightarrow> int \<Rightarrow> bytes probe_run" where
  "get_block p n = (\<lambda>b h. (case bd_raise b h (O_block p n) of Some e \<Rightarrow> Exn e | None \<Rightarrow> Ret (bd_block b h p n), h @ [Did (O_block p n)]))"

definition get_stamp :: "string probe_run" where
  "get_stamp = (\<lambda>b h. (Ret (bd_stamp b h), h))"

definition record_acts :: "board_act list \<Rightarrow> unit probe_run" where
  "record_acts xs = (\<lambda>b h. (Ret (), h @ xs))"

abbreviation prints :: "string list \<Rightarrow> unit probe_run" where
  "prints ls \<equiv> record_acts (map Printed ls)"

fun smap :: "('a \<Rightarrow> 'b probe_run) \<Rightarrow> 'a list \<Rightarrow> 'b list probe_run" where
  "smap f [] = sret []"
| "smap f (x # xs) = sbind (f x) (\<lambda>y. sbind (smap f xs) (\<lambda>ys. sret (y # ys)))"

text \<open>A loop whose turn either gives the next state or leaves with a result.\<close>

fun sloop :: "nat \<Rightarrow> ('s \<Rightarrow> ('s + 'a) probe_run) \<Rightarrow> 's \<Rightarrow> 'a probe_run" where
  "sloop 0 f s = (\<lambda>b h. (Going, h))"
| "sloop (Suc n) f s = sbind (f s) (\<lambda>r. case r of Inl s1 \<Rightarrow> sloop n f s1 | Inr x \<Rightarrow> sret x)"

section \<open>Symbols\<close>

text \<open>What pyelftools gives of an ELF: the symbols of \<open>.symtab\<close> in order, each with its address and size, or no such
  section.\<close>

type_synonym elf_symtab = "(string \<times> int \<times> int) list option"

definition take_symbol :: "string list \<Rightarrow> (string \<times> int \<times> int) list \<Rightarrow> string \<times> int \<times> int \<Rightarrow> (string \<times> int \<times> int) list" where
  "take_symbol names out s = (if fst s \<in> set names \<and> fst s \<notin> set (map fst out) then out @ [s] else out)"

definition symbols :: "string list \<Rightarrow> elf_symtab \<Rightarrow> (string \<times> int \<times> int) list res" where
  "symbols names st = (case st of None \<Rightarrow> Inl AttributeError | Some ss \<Rightarrow> Inr (foldl (take_symbol names) [] ss))"

definition symbol :: "string \<Rightarrow> elf_symtab \<Rightarrow> (int \<times> int) option res" where   \<comment> \<open>the first of that name\<close>
  "symbol name st = (case st of None \<Rightarrow> Inl AttributeError | Some ss \<Rightarrow> Inr (map_option snd (find (\<lambda>s. fst s = name) ss)))"

section \<open>The one-shot diagnostics\<close>

text \<open>Where addr2line is: \<open>$ADDR2LINE\<close>, the SDK's, the newest in the nros store, else the search path.\<close>

definition find_addr2line :: "string \<Rightarrow> string \<Rightarrow> (string \<Rightarrow> bool) \<Rightarrow> string list \<Rightarrow> string option \<Rightarrow> string" where
  "find_addr2line env_tool env_sdk there store path =
     (let tool = ''arm-zephyr-eabi-addr2line''; sdk = env_sdk @ ''/gnu/arm-zephyr-eabi/bin/'' @ tool
      in if env_tool \<noteq> [] then env_tool
         else if env_sdk \<noteq> [] \<and> there sdk then sdk
         else if store \<noteq> [] then last (sort store)
         else case path of Some w \<Rightarrow> if w \<noteq> [] then w else tool | None \<Rightarrow> tool)"

definition kv_hex :: "(string \<times> int) list \<Rightarrow> string" where
  "kv_hex kvs = join '' '' (map (\<lambda>(k, v). k @ ''='' @ py_hex v) kvs)"

definition opt_num :: "int option \<Rightarrow> string" where
  "opt_num x = (case x of None \<Rightarrow> ''None'' | Some v \<Rightarrow> dec_int v)"

text \<open>The address of the heartbeat word, when the image has one; 0 counts as none.\<close>

definition heartbeat :: "int option \<Rightarrow> int option probe_run" where
  "heartbeat hb =
     (case hb of None \<Rightarrow> sret None | Some p \<Rightarrow> if p = 0 then sret None else sbind (get_num (O_get32 p)) (\<lambda>v. sret (Some v)))"

definition FAULT_REGS :: "(string \<times> int) list" where
  "FAULT_REGS = [(''CFSR'', 0xE000ED28), (''HFSR'', 0xE000ED2C), (''MMFAR'', 0xE000ED34), (''BFAR'', 0xE000ED38)]"

definition WHERE_REGS :: "string list" where "WHERE_REGS = [''pc'', ''lr'', ''sp'', ''xpsr'']"

definition where_reads :: "(int list \<times> int list) probe_run" where
  "where_reads =
     sbind (smap (\<lambda>r. get_num (O_core r)) WHERE_REGS) (\<lambda>regs.
     sbind (smap (\<lambda>(n, p). get_num (O_get32 p)) FAULT_REGS) (\<lambda>fsr. sret (regs, fsr)))"

definition swd_where :: "int option \<Rightarrow> (int list \<Rightarrow> string) \<Rightarrow> unit probe_run" where
  "swd_where hb addr2line =
     sthen (do_op O_attach) (sbind (heartbeat hb) (\<lambda>hb0.
     sthen (do_op O_halt) (sbind where_reads (\<lambda>(regs, fsr).
     sthen (do_op O_resume) (sthen (do_op O_sleep) (sbind (heartbeat hb) (\<lambda>hb1.
     sthen (do_op O_close)
       (prints ([kv_hex (zip WHERE_REGS regs) @ '' IPSR='' @ dec_int (regs ! 3 mod 512) @ '' '' @ kv_hex (zip (map fst FAULT_REGS) fsr)
                 @ '' heartbeat '' @ opt_num hb0 @ '' -> '' @ opt_num hb1 @ '' in 1 s'']
                @ [addr2line [regs ! 0, regs ! 1 - regs ! 1 mod 2]])))))))))"

definition WALK_REGS :: "string list" where
  "WALK_REGS = [''pc'', ''lr'', ''r0'', ''r1'', ''r2'', ''r3'', ''r4'', ''r5'', ''r6'', ''r7'']"

definition code_word :: "int \<Rightarrow> bool" where
  "code_word x = ((0x400000 \<le> x \<and> x < 0x600000 \<or> 0x100 \<le> x \<and> x < 0x10000) \<and> x mod 2 = 1)"

definition candidates :: "int list \<Rightarrow> (nat \<times> int) list" where
  "candidates w = filter (\<lambda>(i, x). code_word x) (enumerate 0 w)"

definition walk_lines :: "(int list \<Rightarrow> string list) \<Rightarrow> int list \<Rightarrow> string list" where
  "walk_lines addr2line w =
     (let cs = candidates w
      in map (\<lambda>((i, x), l). ''sp+'' @ rjust 4 (dec_nat (4 * i)) @ '' '' @ py_hex x @ '' '' @ l) (zip cs (addr2line (map (\<lambda>(i, x). x - 1) cs))))"

text \<open>\<open>struct.unpack(f"<{n // 4}I", blob)\<close> takes exactly the whole blob.\<close>

definition unpack_all :: "nat \<Rightarrow> bytes \<Rightarrow> int list res" where
  "unpack_all k blob = (if length blob = 4 * k then Inr (words_at k blob 0) else Inl StructError)"

definition swd_stackwalk :: "nat \<Rightarrow> (int list \<Rightarrow> string list) \<Rightarrow> unit probe_run" where
  "swd_stackwalk n addr2line =
     sthen (do_op O_attach) (sthen (do_op O_halt)
     (sbind (get_num (O_core ''sp'')) (\<lambda>sp. sbind (smap (\<lambda>r. get_num (O_core r)) WALK_REGS) (\<lambda>regs.
     sbind (get_block sp (int n)) (\<lambda>blob.
     sthen (do_op O_resume) (sthen (do_op O_close)
     (sthen (prints [''sp='' @ py_hex sp @ '' '' @ kv_hex (zip WALK_REGS regs)])
     (sbind (slift (unpack_all (n div 4) blob)) (\<lambda>w. prints (walk_lines addr2line w))))))))))"

section \<open>What a session leaves behind\<close>

text \<open>A session only adds to what was done, and it does the operations of a set.\<close>

definition uses :: "bop set \<Rightarrow> 'a probe_run \<Rightarrow> bool" where
  "uses P m = (\<forall>b h. \<exists>xs. snd (m b h) = h @ xs \<and> (\<forall>op. Did op \<in> set xs \<longrightarrow> op \<in> P))"

lemma usesI: "(\<And>b h. \<exists>xs. snd (m b h) = h @ xs \<and> (\<forall>op. Did op \<in> set xs \<longrightarrow> op \<in> P)) \<Longrightarrow> uses P m"
  by (simp add: uses_def)

lemma usesE:
  assumes "uses P m" "m b h = (r, h1)"
  obtains xs where "h1 = h @ xs" "\<And>op. Did op \<in> set xs \<Longrightarrow> op \<in> P"
  using assms unfolding uses_def by (metis snd_conv)

lemma uses_mono: "uses P m \<Longrightarrow> P \<subseteq> Q \<Longrightarrow> uses Q m"
  unfolding uses_def by blast

lemmas session_defs = sret_def sfail_def slift_def do_op_def get_num_def get_block_def get_stamp_def record_acts_def

lemma uses_ops [intro]:
  "uses P (sret x)" "uses P (sfail e)" "uses P (slift r)" "uses P get_stamp" "uses P (prints ls)"
  "op \<in> P \<Longrightarrow> uses P (do_op op)" "op \<in> P \<Longrightarrow> uses P (get_num op)" "O_block p n \<in> P \<Longrightarrow> uses P (get_block p n)"
  "uses P (\<lambda>b h. (Going, h))" "\<forall>op. Did op \<notin> set xs \<Longrightarrow> uses P (record_acts xs)"
  by (auto simp: uses_def session_defs)

lemma uses_cases [intro]:
  "uses P m \<Longrightarrow> uses P n \<Longrightarrow> uses P (if c then m else n)"
  "(\<And>x. uses P (f x)) \<Longrightarrow> (\<And>y. uses P (g y)) \<Longrightarrow> uses P (case_sum f g r)"
  "uses P n \<Longrightarrow> (\<And>y. uses P (g y)) \<Longrightarrow> uses P (case_option n g z)"
  "(\<And>x y. uses P (k x y)) \<Longrightarrow> uses P (case_prod k w)"
  by (cases c; cases r; cases z; cases w; simp)+

lemma uses_sbind [intro]:
  assumes "uses P m" "\<And>x. uses P (f x)"
  shows "uses P (sbind m f)"
proof (rule usesI)
  fix b h
  obtain r h1 where m: "m b h = (r, h1)" by (cases "m b h")
  then obtain xs where xs: "h1 = h @ xs" "\<And>op. Did op \<in> set xs \<Longrightarrow> op \<in> P" using usesE [OF assms(1)] by blast
  show "\<exists>xs. snd (sbind m f b h) = h @ xs \<and> (\<forall>op. Did op \<in> set xs \<longrightarrow> op \<in> P)"
  proof (cases r)
    case (Ret x)
    obtain r2 h2 where f: "f x b h1 = (r2, h2)" by (cases "f x b h1")
    then obtain ys where "h2 = h1 @ ys" "\<And>op. Did op \<in> set ys \<Longrightarrow> op \<in> P" using usesE [OF assms(2)] by blast
    then show ?thesis using m f xs Ret by (intro exI [of _ "xs @ ys"]) (auto simp: sbind_def)
  qed (use m xs in \<open>auto simp: sbind_def\<close>)
qed

lemma uses_sfinally [intro]:
  assumes "uses P m" "uses P f"
  shows "uses P (sfinally m f)"
proof (rule usesI)
  fix b h
  obtain r h1 where m: "m b h = (r, h1)" by (cases "m b h")
  then obtain xs where xs: "h1 = h @ xs" "\<And>op. Did op \<in> set xs \<Longrightarrow> op \<in> P" using usesE [OF assms(1)] by blast
  obtain r2 h2 where f: "f b h1 = (r2, h2)" by (cases "f b h1")
  then obtain ys where ys: "h2 = h1 @ ys" "\<And>op. Did op \<in> set ys \<Longrightarrow> op \<in> P" using usesE [OF assms(2)] by blast
  show "\<exists>xs. snd (sfinally m f b h) = h @ xs \<and> (\<forall>op. Did op \<in> set xs \<longrightarrow> op \<in> P)"
    by (intro exI [of _ "if r = Going then xs else xs @ ys"], cases r; cases r2) (use m f xs ys in \<open>auto simp: sfinally_def\<close>)
qed

lemma uses_on_interrupt [intro]: "uses P m \<Longrightarrow> uses P (on_interrupt m)"
proof (rule usesI)
  fix b h
  assume "uses P m"
  moreover have "snd (on_interrupt m b h) = snd (m b h)"
    by (auto simp: on_interrupt_def split: prod.splits outcome.splits py_error.splits)
  ultimately show "\<exists>xs. snd (on_interrupt m b h) = h @ xs \<and> (\<forall>op. Did op \<in> set xs \<longrightarrow> op \<in> P)" by (simp add: uses_def)
qed

lemma uses_smap [intro]: "(\<And>x. x \<in> set xs \<Longrightarrow> uses P (f x)) \<Longrightarrow> uses P (smap f xs)"
  by (induction xs) auto

lemma uses_sloop [intro]: "(\<And>s. uses P (f s)) \<Longrightarrow> uses P (sloop n f s)"
  by (induction n arbitrary: s) (auto simp: comp_def)

lemmas uses_rules = uses_ops uses_cases uses_sbind uses_sfinally uses_on_interrupt uses_smap uses_sloop

lemma sbind_Ret:
  assumes "sbind m f b h = (Ret y, h2)"
  obtains x h1 where "m b h = (Ret x, h1)" "f x b h1 = (Ret y, h2)"
  using assms by (auto simp: sbind_def split: prod.splits outcome.splits)

text \<open>More fuel changes nothing for a loop that has ended.\<close>

lemma sloop_more: "fst (sloop n f s b h) \<noteq> Going \<Longrightarrow> sloop (n + k) f s b h = sloop n f s b h"
  by (induction n arbitrary: s h) (auto simp: sbind_def split: prod.splits outcome.splits sum.splits)


text \<open>Sessions without a loop end.\<close>

definition ends :: "'a probe_run \<Rightarrow> bool" where
  "ends m = (\<forall>b h. fst (m b h) \<noteq> Going)"

lemma ends_ops [intro]:
  "ends (sret x)" "ends (sfail e)" "ends (slift r)" "ends get_stamp" "ends (record_acts xs)" "ends (do_op op)" "ends (get_num op)" "ends (get_block p n)"
  by (auto simp: ends_def session_defs split: option.splits sum.splits)

lemma ends_cases [intro]:
  "ends m \<Longrightarrow> ends n \<Longrightarrow> ends (if c then m else n)"
  "ends n \<Longrightarrow> (\<And>y. ends (g y)) \<Longrightarrow> ends (case_option n g z)"
  "(\<And>x y. ends (k x y)) \<Longrightarrow> ends (case_prod k w)"
  by (cases c; cases w; cases z; simp)+

lemma ends_sbind [intro]: "ends m \<Longrightarrow> (\<And>x. ends (f x)) \<Longrightarrow> ends (sbind m f)"
  by (auto simp: ends_def sbind_def split: prod.splits outcome.splits) (metis fst_conv)

lemma ends_sfinally [intro]: "ends m \<Longrightarrow> ends f \<Longrightarrow> ends (sfinally m f)"
  by (auto simp: ends_def sfinally_def split: prod.splits outcome.splits) (metis fst_conv)+

lemma ends_smap [intro]: "(\<And>x. ends (f x)) \<Longrightarrow> ends (smap f xs)"
  by (induction xs) auto

lemmas ends_rules = ends_ops ends_cases ends_sbind ends_sfinally ends_smap

text \<open>What a session that has ended did after an operation that succeeded.\<close>

definition after_op :: "bop \<Rightarrow> (board_act list \<Rightarrow> bool) \<Rightarrow> 'a probe_run \<Rightarrow> bool" where
  "after_op op Q m = (\<forall>b h. \<exists>xs. snd (m b h) = h @ xs
     \<and> (fst (m b h) \<noteq> Going \<longrightarrow> (\<forall>pre post. xs = pre @ Did op # post \<longrightarrow> bd_raise b (h @ pre) op = None \<longrightarrow> Q post)))"

lemma after_opD:
  assumes "after_op op Q m" "snd (m b []) = pre @ Did op # post" "bd_raise b pre op = None" "fst (m b []) \<noteq> Going"
  shows "Q post"
proof -
  from assms(1) obtain xs where "snd (m b []) = [] @ xs"
    "fst (m b []) \<noteq> Going \<Longrightarrow> \<forall>pre post. xs = pre @ Did op # post \<longrightarrow> bd_raise b ([] @ pre) op = None \<longrightarrow> Q post"
    unfolding after_op_def by blast
  then show ?thesis using assms(2-4) by (metis append_Nil)
qed

lemma after_op_without: "uses P m \<Longrightarrow> op \<notin> P \<Longrightarrow> after_op op Q m"
  unfolding uses_def after_op_def by (metis in_set_conv_decomp)

lemma after_op_pure: "after_op op Q (sret x)" "after_op op Q (sfail e)" "after_op op Q (slift r)"
  by (rule after_op_without [where P = "{}"]; auto)+

lemma after_op_cases:
  "after_op op Q m \<Longrightarrow> after_op op Q n \<Longrightarrow> after_op op Q (if c then m else n)"
  "after_op op Q n \<Longrightarrow> (\<And>y. after_op op Q (g y)) \<Longrightarrow> after_op op Q (case_option n g z)"
  "(\<And>x y. after_op op Q (k x y)) \<Longrightarrow> after_op op Q (case_prod k w)"
  by (cases c; cases w; cases z; simp)+

lemma after_op_sbind:
  assumes "uses P m" "op \<notin> P" "\<And>x. after_op op Q (f x)"
  shows "after_op op Q (sbind m f)"
  unfolding after_op_def
proof (intro allI)
  fix b h
  obtain r h1 where m: "m b h = (r, h1)" by (cases "m b h")
  then obtain us where us: "h1 = h @ us" "\<And>op. Did op \<in> set us \<Longrightarrow> op \<in> P" using usesE [OF assms(1)] by blast
  then have no: "Did op \<notin> set us" using assms(2) by blast
  show "\<exists>xs. snd (sbind m f b h) = h @ xs \<and> (fst (sbind m f b h) \<noteq> Going
      \<longrightarrow> (\<forall>pre post. xs = pre @ Did op # post \<longrightarrow> bd_raise b (h @ pre) op = None \<longrightarrow> Q post))"
  proof (cases r)
    case (Ret x)
    from assms(3) [of x] obtain vs where vs: "snd (f x b h1) = h1 @ vs"
      "\<And>pre post. fst (f x b h1) \<noteq> Going \<Longrightarrow> vs = pre @ Did op # post \<Longrightarrow> bd_raise b (h1 @ pre) op = None \<Longrightarrow> Q post"
      unfolding after_op_def by blast
    have s: "sbind m f b h = f x b h1" using m Ret by (simp add: sbind_def)
    have "Q post" if "fst (f x b h1) \<noteq> Going" "us @ vs = pre @ Did op # post" "bd_raise b (h @ pre) op = None" for pre post
    proof -
      from that(2) no obtain pre' where "pre = us @ pre'" "vs = pre' @ Did op # post"
        by (auto simp: append_eq_append_conv2 append_eq_Cons_conv Cons_eq_append_conv)
      then show ?thesis using vs(2) [of pre' post] that us(1) by simp
    qed
    then show ?thesis using us(1) vs(1) unfolding s by (intro exI [of _ "us @ vs"]) auto
  qed (use m us(1) no in \<open>auto simp: sbind_def\<close>)
qed

lemma after_op_prints: "after_op op Q n \<Longrightarrow> after_op op Q (sthen (prints ls) n)"
  by (rule after_op_sbind [where P = "{}"]) auto

lemma after_op_slift: "(\<And>x. after_op op Q (f x)) \<Longrightarrow> after_op op Q (sbind (slift r) f)"
  by (rule after_op_sbind [where P = "{}"]) auto

lemma after_op_do:
  assumes "\<And>b h. bd_raise b h op = None \<Longrightarrow> \<exists>post. snd (n b (h @ [Did op])) = (h @ [Did op]) @ post \<and> Did op \<notin> set post
    \<and> (fst (n b (h @ [Did op])) \<noteq> Going \<longrightarrow> Q post)"
  shows "after_op op Q (sthen (do_op op) n)"
  unfolding after_op_def
proof (intro allI)
  fix b h
  let ?S = "sthen (do_op op) n"
  show "\<exists>xs. snd (?S b h) = h @ xs \<and> (fst (?S b h) \<noteq> Going
      \<longrightarrow> (\<forall>pre post. xs = pre @ Did op # post \<longrightarrow> bd_raise b (h @ pre) op = None \<longrightarrow> Q post))"
  proof (cases "bd_raise b h op")
    case None
    from assms [OF this] obtain post where p: "snd (n b (h @ [Did op])) = (h @ [Did op]) @ post" "Did op \<notin> set post"
      "fst (n b (h @ [Did op])) \<noteq> Going \<Longrightarrow> Q post" by blast
    have "?S b h = n b (h @ [Did op])" using None by (simp add: sbind_def do_op_def)
    then show ?thesis using p by (intro exI [of _ "Did op # post"]) (auto simp: Cons_eq_append_conv)
  next
    case (Some x)
    then show ?thesis by (intro exI [of _ "[Did op]"]) (auto simp: sbind_def do_op_def Cons_eq_append_conv)
  qed
qed


section \<open>Properties\<close>

text \<open>C22. A failed register read leaves the core halted: when the target answers everything but one of the registers pc, lr and sp, both one-shot diagnostics end with that read's exception after the halt, with neither a resume nor a close of the probe's session.\<close>

theorem swd_failed_read_leaves_halted:
  assumes "r \<in> {''pc'', ''lr'', ''sp''}" "\<And>h op. bd_raise b h op = (if op = O_core r then Some x else None)"
    and "m \<in> {swd_where hb text_where, swd_stackwalk n text_walk}"
  shows "fst (m b []) = Exn x \<and> Did O_halt \<in> set (snd (m b [])) \<and> Did O_resume \<notin> set (snd (m b [])) \<and> Did O_close \<notin> set (snd (m b []))"
proof -
  have h: "\<exists>v xs. heartbeat hb b h = (Ret v, h @ xs) \<and> set xs \<subseteq> range (\<lambda>p. Did (O_get32 p))" for h
    by (cases hb) (auto simp: heartbeat_def sret_def sbind_def get_num_def assms(2))
  from h [of "[Did O_attach]"] obtain v xs where hb: "heartbeat hb b [Did O_attach] = (Ret v, [Did O_attach] @ xs)"
    "set xs \<subseteq> range (\<lambda>p. Did (O_get32 p))" by blast
  have "Did O_resume \<notin> set xs" "Did O_close \<notin> set xs" using hb(2) by auto
  then have "fst (swd_where hb text_where b []) = Exn x \<and> Did O_halt \<in> set (snd (swd_where hb text_where b []))
    \<and> Did O_resume \<notin> set (snd (swd_where hb text_where b [])) \<and> Did O_close \<notin> set (snd (swd_where hb text_where b []))"
    using assms(1) hb(1) by (auto simp: swd_where_def where_reads_def WHERE_REGS_def sbind_def do_op_def get_num_def sret_def assms(2))
  moreover have "fst (swd_stackwalk n text_walk b []) = Exn x \<and> Did O_halt \<in> set (snd (swd_stackwalk n text_walk b []))
    \<and> Did O_resume \<notin> set (snd (swd_stackwalk n text_walk b [])) \<and> Did O_close \<notin> set (snd (swd_stackwalk n text_walk b []))"
    using assms(1) by (auto simp: swd_stackwalk_def WALK_REGS_def sbind_def do_op_def get_num_def sret_def assms(2))
  ultimately show ?thesis using assms(3) by auto
qed

section \<open>Witnesses\<close>

definition demo_no_lr :: board where
  "demo_no_lr = \<lparr>bd_raise = (\<lambda>h op. if op = O_core ''lr'' then Some ValueError else None), bd_num = (\<lambda>h op. 0x400101),
     bd_block = (\<lambda>h p n. replicate (nat n) 0), bd_stamp = (\<lambda>h. [])\<rparr>"

theorem swd_failed_read_leaves_halted_witness:
  "fst (swd_where None (\<lambda>_. []) demo_no_lr []) = Exn ValueError \<and> Did O_halt \<in> set (snd (swd_where None (\<lambda>_. []) demo_no_lr []))
    \<and> Did O_resume \<notin> set (snd (swd_where None (\<lambda>_. []) demo_no_lr []))"
proof -
  have "bd_raise demo_no_lr h op = (if op = O_core ''lr'' then Some ValueError else None)" for h op by (simp add: demo_no_lr_def)
  from swd_failed_read_leaves_halted [of "''lr''", OF _ this, of "swd_where None (\<lambda>_. [])" None "\<lambda>_. []" 8 "\<lambda>_. []"]
  show ?thesis by simp
qed

end
