(* ===== verification/Trace_Decode.thy ===== *)
theory Trace_Decode
  imports Island_Prelude
begin

text \<open>
  The trace decoder of \<^verbatim>\<open>src/safety_island_tracing/island_trace.py\<close>: the record loop of
  \<open>load\<close>, the anchoring of a trace window's segment, the dump header and \<open>wrap\<close>; and the
  writer's side of the format (the \<open>island_trace_put_*\<close> functions of
  \<^verbatim>\<open>src/safety_island_tracing/include/island_trace.h\<close>), against which decoding is proved.

  The TSDL metadata belongs to the pinned Zephyr tree: the event layouts read from it are a
  parameter (\<open>tsdl\<close>). A decoded record keeps the fields of a Zephyr event apart from the
  record's own keys. Timestamps and fields are integers; \<open>x & 0xFFFFFFFF\<close> is \<open>x mod 2 ^ 32\<close>.
\<close>

unbundle bit_operations_syntax

section \<open>Event layouts and records\<close>

record tfield =
  tf_name :: string
  tf_type :: string
  tf_arr :: "nat option"
  tf_size :: nat

record tsdl =
  id_size :: nat
  events :: "int \<Rightarrow> (string \<times> tfield list) option"

datatype fval = FInt int | FStr string

definition field_value :: "string \<Rightarrow> bytes \<Rightarrow> fval" where
  "field_value t raw =
     (if t = ''ctf_bounded_string_t'' then FStr (cstr raw)
      else FInt (if starts_with ''int'' t then le_sint raw else le_int raw))"

definition field_bytes :: "tfield \<Rightarrow> nat" where
  "field_bytes f = tf_size f * (case tf_arr f of Some n \<Rightarrow> (if n = 0 then 1 else n) | None \<Rightarrow> 1)"

fun read_fields :: "bytes \<Rightarrow> nat \<Rightarrow> tfield list \<Rightarrow> (string \<times> fval) list \<times> nat" where
  "read_fields buf p [] = ([], p)"
| "read_fields buf p (f # fs) =
     (let n = field_bytes f; v = field_value (tf_type f) (bslice buf p (p + n));
          r = read_fields buf (p + n) fs
      in ((tf_name f, v) # fst r, snd r))"

datatype payload =
    Marker int string int                       \<comment> \<open>marker id, name, arg\<close>
  | Heartbeat int int                           \<comment> \<open>seq, uptime_ms\<close>
  | Provenance string                           \<comment> \<open>text\<close>
  | Trigger int string int int int int int      \<comment> \<open>marker, name, pre_ms, pre_kept, spin_keep, pre_lost, filtered\<close>
  | Zephyr string "(string \<times> fval) list"       \<comment> \<open>event name, fields\<close>

fun kind_of :: "payload \<Rightarrow> string" where
  "kind_of (Marker _ _ _) = ''marker''"
| "kind_of (Heartbeat _ _) = ''heartbeat''"
| "kind_of (Provenance _) = ''provenance''"
| "kind_of (Trigger _ _ _ _ _ _ _) = ''trigger''"
| "kind_of (Zephyr n _) = n"

record trec =
  off :: nat
  t_ns :: int
  eid :: int
  pay :: payload

text \<open>What the decoder needs of the tree and of the table: the event layouts, the first of the
  island's four event ids, and the marker names.\<close>

record dconf =
  dc_tsdl :: tsdl
  dc_base :: int
  dc_names :: "int \<Rightarrow> string option"

definition ev_base :: "tsdl \<Rightarrow> int" where
  "ev_base t = (if id_size t = 2 then 0x1E0 else 0xE0)"

definition marker_name :: "(int \<Rightarrow> string option) \<Rightarrow> int \<Rightarrow> string" where
  "marker_name names mk = (case names mk of Some n \<Rightarrow> n | None \<Rightarrow> ''UNKNOWN_'' @ dec_int mk)"

section \<open>The record loop\<close>

text \<open>One record's payload at \<open>p\<close>: \<open>None\<close> for an event id that neither the TSDL nor the island
  knows.\<close>

definition read_payload :: "dconf \<Rightarrow> bytes \<Rightarrow> int \<Rightarrow> nat \<Rightarrow> (payload \<times> nat) option res" where
  "read_payload cfg buf e p =
     (if e = dc_base cfg then
        rbind (unpack_u16 buf p) (\<lambda>mk. rbind (unpack_u32 buf (p + 2)) (\<lambda>arg.
          Inr (Some (Marker mk (marker_name (dc_names cfg) mk) arg, p + 6))))
      else if e = dc_base cfg + 1 then
        rbind (unpack_u32 buf p) (\<lambda>seq. rbind (unpack_u32 buf (p + 4)) (\<lambda>up.
          Inr (Some (Heartbeat seq up, p + 8))))
      else if e = dc_base cfg + 2 then
        rbind (unpack_u16 buf p) (\<lambda>n.
          Inr (Some (Provenance (ascii_decode (bslice buf (p + 2) (p + 2 + nat n))), p + 2 + nat n)))
      else if e = dc_base cfg + 3 then
        rbind (unpack_u16 buf p) (\<lambda>mk. rbind (unpack_u16 buf (p + 2)) (\<lambda>pre_ms.
        rbind (unpack_u16 buf (p + 4)) (\<lambda>kept. rbind (unpack_u16 buf (p + 6)) (\<lambda>spin.
        rbind (unpack_u32 buf (p + 8)) (\<lambda>lost. rbind (unpack_u32 buf (p + 12)) (\<lambda>filt.
          Inr (Some (Trigger mk (marker_name (dc_names cfg) mk) pre_ms kept spin lost filt, p + 16))))))))
      else case events (dc_tsdl cfg) e of
        Some (name, flds) \<Rightarrow>
          (let r = read_fields buf p flds in Inr (Some (Zephyr name (fst r), snd r)))
      | None \<Rightarrow> Inr None)"

text \<open>The u32 nanosecond stamp, unwrapped against the previous one.\<close>

definition unwrap_ts :: "int option \<Rightarrow> int \<Rightarrow> int \<Rightarrow> int" where
  "unwrap_ts prev_ts ext ts =
     (case prev_ts of
        None \<Rightarrow> ts
      | Some prev \<Rightarrow>
          (let d = (ts - prev) mod 2 ^ 32
           in ext + (if d \<ge> 2 ^ 31 then d - 2 ^ 32 else d)))"

fun contains :: "'a list \<Rightarrow> 'a list \<Rightarrow> bool" where
  "contains p [] = (p = [])"
| "contains p (c # s) = (take (length p) (c # s) = p \<or> contains p s)"

fun opens_window :: "payload \<Rightarrow> bool" where
  "opens_window (Provenance t) = contains ''window=trigger'' t"
| "opens_window _ = False"

text \<open>The loop's variables. \<open>ds_error\<close> is the unknown event id, its offset and the number of
  records before it.\<close>

record dstate =
  ds_pos :: nat
  ds_prev :: "int option"
  ds_ext :: int
  ds_recs :: "trec list"
  ds_sizes :: "string \<Rightarrow> nat"
  ds_seg :: "nat option"
  ds_error :: "(int \<times> nat \<times> nat) option"

definition dstate0 :: dstate where
  "dstate0 = \<lparr>ds_pos = 0, ds_prev = None, ds_ext = 0, ds_recs = [], ds_sizes = (\<lambda>_. 0), ds_seg = None,
              ds_error = None\<rparr>"

definition hsz :: "dconf \<Rightarrow> nat" where
  "hsz cfg = 4 + id_size (dc_tsdl cfg)"

text \<open>The end of a turn: the record is kept, its bytes are counted, and a provenance that says
  \<open>window=trigger\<close> starts a new segment.\<close>

definition push_rec :: "dstate \<Rightarrow> int \<Rightarrow> int \<Rightarrow> payload \<Rightarrow> nat \<Rightarrow> dstate" where
  "push_rec st t e pl p =
     (let pos = ds_pos st;
          recs = ds_recs st @ [\<lparr>off = pos, t_ns = t, eid = e, pay = pl\<rparr>];
          st2 = st\<lparr>ds_pos := p, ds_recs := recs,
                   ds_sizes := (ds_sizes st)(kind_of pl := ds_sizes st (kind_of pl) + (p - pos))\<rparr>
      in if opens_window pl then st2\<lparr>ds_prev := None, ds_seg := Some (length recs)\<rparr> else st2)"

text \<open>One turn of the loop: \<open>True\<close> when it goes on to the next record.\<close>

definition decode_step :: "dconf \<Rightarrow> bytes \<Rightarrow> dstate \<Rightarrow> (bool \<times> dstate) res" where
  "decode_step cfg buf st =
     (let pos = ds_pos st in
      if pos + hsz cfg \<le> length buf then
        (let ts = le_int (bslice buf pos (pos + 4));
             e = le_int (bslice buf (pos + 4) (pos + hsz cfg))
         in if e = 0 then Inr (False, st)
            else
              (let t = unwrap_ts (ds_prev st) (ds_ext st) ts;
                   st1 = st\<lparr>ds_prev := Some ts, ds_ext := t\<rparr>
               in rbind (read_payload cfg buf e (pos + hsz cfg)) (\<lambda>r.
                    case r of
                      None \<Rightarrow> Inr (False, st1\<lparr>ds_error := Some (e, pos, length (ds_recs st))\<rparr>)
                    | Some (pl, p) \<Rightarrow> Inr (True, push_rec st1 t e pl p))))
      else Inr (False, st))"

lemma push_rec_sel [simp]:
  "ds_pos (push_rec st t e pl p) = p"
  "ds_recs (push_rec st t e pl p) = ds_recs st @ [\<lparr>off = ds_pos st, t_ns = t, eid = e, pay = pl\<rparr>]"
  "ds_ext (push_rec st t e pl p) = ds_ext st"
  "ds_error (push_rec st t e pl p) = ds_error st"
  "ds_prev (push_rec st t e pl p) = (if opens_window pl then None else ds_prev st)"
  "ds_seg (push_rec st t e pl p) = (if opens_window pl then Some (Suc (length (ds_recs st))) else ds_seg st)"
  "ds_sizes (push_rec st t e pl p) =
     (ds_sizes st)(kind_of pl := ds_sizes st (kind_of pl) + (p - ds_pos st))"
  by (simp_all add: push_rec_def Let_def)

lemma read_fields_pos: "p \<le> snd (read_fields buf p fs)"
  by (induction fs arbitrary: p) (auto simp: Let_def intro: order_trans [OF le_add1])

lemma read_payload_pos: "read_payload cfg buf e p = Inr (Some (pl, q)) \<Longrightarrow> p \<le> q"
  using read_fields_pos [of p buf]
  by (auto simp: read_payload_def rbind_Inr_iff Let_def split: if_splits option.splits)

lemma decode_step_pos:
  assumes "decode_step cfg buf st = Inr (True, st')"
  shows "ds_pos st + hsz cfg \<le> ds_pos st'" "ds_pos st + hsz cfg \<le> length buf"
proof -
  from assms obtain pl q where
    len: "ds_pos st + hsz cfg \<le> length buf"
    and pl: "read_payload cfg buf (le_int (bslice buf (ds_pos st + 4) (ds_pos st + hsz cfg))) (ds_pos st + hsz cfg)
          = Inr (Some (pl, q))"
    and q: "ds_pos st' = q"
    by (auto simp: decode_step_def Let_def rbind_Inr_iff split: if_splits option.splits)
  from read_payload_pos [OF pl] q show "ds_pos st + hsz cfg \<le> ds_pos st'" by simp
  from len show "ds_pos st + hsz cfg \<le> length buf" .
qed

lemma hsz_pos [simp]: "0 < hsz cfg" "4 \<le> hsz cfg"
  by (simp_all add: hsz_def)

function decode_loop :: "dconf \<Rightarrow> bytes \<Rightarrow> dstate \<Rightarrow> dstate res" where
  "decode_loop cfg buf st =
     (case decode_step cfg buf st of
        Inl e \<Rightarrow> Inl e
      | Inr (go, st') \<Rightarrow> if go then decode_loop cfg buf st' else Inr st')"
  by pat_completeness auto
termination
proof (relation "measure (\<lambda>(cfg, buf, st). length buf - ds_pos st)")
  show "wf (measure (\<lambda>(cfg, buf, st). length buf - ds_pos st))" by simp
next
  fix cfg buf st x go st'
  assume "decode_step cfg buf st = Inr x" and "(go, st') = x" and go
  then have "decode_step cfg buf st = Inr (True, st')" by auto
  from decode_step_pos [OF this] hsz_pos(1) [of cfg]
  have "ds_pos st < ds_pos st'" "ds_pos st < length buf" by linarith+
  then show "((cfg, buf, st'), cfg, buf, st) \<in> measure (\<lambda>(cfg, buf, st). length buf - ds_pos st)"
    by simp
qed

declare decode_loop.simps [simp del]

section \<open>Anchoring, the dump header, wrap\<close>

text \<open>Python's \<open>round(n / m)\<close> for a positive \<open>m\<close>, half to even. The quotient by \<open>2 ** 32\<close> is exact
  in the source's floats for every numerator below \<open>2 ** 53\<close>, which 32-bit uptimes in ms stay
  under.\<close>

definition round_div :: "int \<Rightarrow> int \<Rightarrow> int" where
  "round_div n m =
     (let q = n div m; r = n mod m
      in if 2 * r < m then q else if 2 * r > m then q + 1 else if even q then q else q + 1)"

fun is_heartbeat :: "payload \<Rightarrow> bool" where
  "is_heartbeat (Heartbeat _ _) = True"
| "is_heartbeat _ = False"

fun uptime_of :: "payload \<Rightarrow> int" where
  "uptime_of (Heartbeat _ up) = up"
| "uptime_of _ = 0"

definition shift_t :: "int \<Rightarrow> trec \<Rightarrow> trec" where
  "shift_t k r = r\<lparr>t_ns := t_ns r + k * 2 ^ 32\<rparr>"

definition anchor :: "trec list \<Rightarrow> nat option \<Rightarrow> trec list" where
  "anchor recs seg =
     (case seg of
        None \<Rightarrow> recs
      | Some i \<Rightarrow>
          (case List.find (\<lambda>r. is_heartbeat (pay r)) (drop i recs) of
             None \<Rightarrow> recs
           | Some hb \<Rightarrow>
               (let k = round_div (uptime_of (pay hb) * 1000000 - t_ns hb) (2 ^ 32)
                in take i recs @ map (shift_t k) (drop i recs))))"

record header =
  zephyr_version :: int
  buffer_size :: int
  heartbeats_emitted :: int
  heartbeat_ms :: int
  last_heartbeat_uptime_ms :: int
  dumped_len :: int

definition MAGIC :: bytes where
  "MAGIC = ascii_encode ''ISLTRC01''"

definition zephyr_text :: "int \<Rightarrow> string" where
  "zephyr_text v = dec_int (v div 2 ^ 16) @ ''.'' @ dec_int (v div 2 ^ 8 mod 2 ^ 8)"

definition truthy :: "string option \<Rightarrow> bool" where
  "truthy z = (case z of None \<Rightarrow> False | Some s \<Rightarrow> s \<noteq> [])"

text \<open>The first half of \<open>load\<close>: the header, when the file has one, the Zephyr version, and the
  buffer. The source unpacks seven words from offset 12; the header has six after its length.\<close>

definition load_head :: "bytes \<Rightarrow> string option \<Rightarrow> (header option \<times> string \<times> bytes) res" where
  "load_head data zephyr =
     (if take 8 data = MAGIC then
        rbind (unpack_u32 data 8) (\<lambda>hlen.
        rbind (unpack_u32s 7 data 12) (\<lambda>f.
          let h = \<lparr>zephyr_version = f ! 0, buffer_size = f ! 1, heartbeats_emitted = f ! 2, heartbeat_ms = f ! 3,
                   last_heartbeat_uptime_ms = f ! 4, dumped_len = f ! 5\<rparr>
          in Inr (Some h, if truthy zephyr then the zephyr else zephyr_text (f ! 0),
                  bslice data (nat hlen) (nat hlen + nat (f ! 5)))))
      else if \<not> truthy zephyr then Inl (SystemExit ''a raw buffer needs --zephyr <major.minor>'')
      else Inr (None, the zephyr, data))"

definition rstrip0 :: "bytes \<Rightarrow> bytes" where
  "rstrip0 data = rev (dropWhile (\<lambda>b. b = 0) (rev data))"

definition u32_ok :: "int \<Rightarrow> bool" where
  "u32_ok x = (0 \<le> x \<and> x < 2 ^ 32)"

text \<open>\<open>wrap\<close>: the file it writes. \<open>struct.pack\<close> refuses a value that does not fit its word.\<close>

definition wrap :: "bytes \<Rightarrow> int \<Rightarrow> int \<Rightarrow> int \<Rightarrow> int \<Rightarrow> int \<Rightarrow> bytes res" where
  "wrap data major minor hb_emitted hb_last_uptime_ms hb_ms =
     (let used = length (rstrip0 data);
          ws = [36, major * 2 ^ 16 OR minor * 2 ^ 8, int (length data), hb_emitted, hb_ms, hb_last_uptime_ms,
                int used, 0]
      in if list_all u32_ok ws
         then Inr (MAGIC @ take 28 (pack_u32s ws) @ take used data)
         else Inl StructError)"

section \<open>The writer\<close>

text \<open>The records \<open>island_trace.h\<close> writes, at their true time in ns; the stamp is the low 32 bits.\<close>

datatype wrec =
    WMarker int int
  | WHeartbeat int int
  | WProvenance string
  | WTrigger int int int int int int

fun wrec_bytes :: "wrec \<Rightarrow> bytes" where
  "wrec_bytes (WMarker m arg) = le_bytes 2 m @ le_bytes 4 arg"
| "wrec_bytes (WHeartbeat seq up) = le_bytes 4 seq @ le_bytes 4 up"
| "wrec_bytes (WProvenance s) = le_bytes 2 (int (length s)) @ ascii_encode s"
| "wrec_bytes (WTrigger m pre_ms kept spin lost filt) =
     le_bytes 2 m @ le_bytes 2 pre_ms @ le_bytes 2 kept @ le_bytes 2 spin @ le_bytes 4 lost @ le_bytes 4 filt"

fun wrec_ev :: "wrec \<Rightarrow> int" where
  "wrec_ev (WMarker _ _) = 0"
| "wrec_ev (WHeartbeat _ _) = 1"
| "wrec_ev (WProvenance _) = 2"
| "wrec_ev (WTrigger _ _ _ _ _ _) = 3"

definition put_rec :: "dconf \<Rightarrow> int \<times> wrec \<Rightarrow> bytes" where
  "put_rec cfg tw =
     le_bytes 4 (fst tw) @ le_bytes (id_size (dc_tsdl cfg)) (dc_base cfg + wrec_ev (snd tw)) @ wrec_bytes (snd tw)"

definition stream :: "dconf \<Rightarrow> (int \<times> wrec) list \<Rightarrow> bytes" where
  "stream cfg tws = concat (map (put_rec cfg) tws)"

definition u16_ok :: "int \<Rightarrow> bool" where
  "u16_ok x = (0 \<le> x \<and> x < 2 ^ 16)"

fun wrec_ok :: "wrec \<Rightarrow> bool" where
  "wrec_ok (WMarker m arg) = (u16_ok m \<and> u32_ok arg)"
| "wrec_ok (WHeartbeat seq up) = (u32_ok seq \<and> u32_ok up)"
| "wrec_ok (WProvenance s) = (u16_ok (int (length s)) \<and> is_ascii s)"
| "wrec_ok (WTrigger m pre_ms kept spin lost filt) =
     (u16_ok m \<and> u16_ok pre_ms \<and> u16_ok kept \<and> u16_ok spin \<and> u32_ok lost \<and> u32_ok filt)"

fun wrec_payload :: "(int \<Rightarrow> string option) \<Rightarrow> wrec \<Rightarrow> payload" where
  "wrec_payload names (WMarker m arg) = Marker m (marker_name names m) arg"
| "wrec_payload names (WHeartbeat seq up) = Heartbeat seq up"
| "wrec_payload names (WProvenance s) = Provenance s"
| "wrec_payload names (WTrigger m pre_ms kept spin lost filt) =
     Trigger m (marker_name names m) pre_ms kept spin lost filt"

text \<open>The configurations the island uses: u8 event ids with the block at 0xE0, u16 ids with the
  block at 0x1E0.\<close>

definition conf_ok :: "dconf \<Rightarrow> bool" where
  "conf_ok cfg = (id_size (dc_tsdl cfg) \<in> {1, 2} \<and> dc_base cfg = ev_base (dc_tsdl cfg))"

section \<open>Decoding never fails on a padded buffer\<close>

definition padded :: "bytes \<Rightarrow> bytes" where
  "padded data = data @ replicate 64 0"

lemma length_padded [simp]: "length (padded data) = length data + 64"
  by (simp add: padded_def)

lemma unpack_u_total: "i + n \<le> length b \<Longrightarrow> \<exists>x. unpack_u n b i = Inr x"
  by (simp add: unpack_u_def)

lemma read_payload_total:
  assumes "p + 16 \<le> length buf"
  shows "\<exists>r. read_payload cfg buf e p = Inr r"
proof -
  have u: "\<exists>x. unpack_u n buf (p + k) = Inr x" if "k + n \<le> 16" for k n
    using assms that by (intro unpack_u_total) simp
  from u [of 0 2] u [of 2 4] u [of 0 4] u [of 4 4] u [of 2 2] u [of 4 2] u [of 6 2] u [of 8 4] u [of 12 4]
  show ?thesis
    by (auto simp: read_payload_def Let_def split: option.splits)
qed

lemma bslice_padding:
  assumes "length data \<le> i"
  shows "le_int (bslice (data @ replicate n 0) i j) = 0"
  using assms by (auto simp: bslice_def le_int_eq_0_iff dest!: in_set_takeD in_set_dropD)

lemma decode_step_total:
  assumes "id_size (dc_tsdl cfg) \<le> 44"
  shows "\<exists>r. decode_step cfg (padded data) st = Inr r"
proof (cases "ds_pos st < length data")
  case True
  let ?e = "le_int (bslice (padded data) (ds_pos st + 4) (ds_pos st + hsz cfg))"
  have "ds_pos st + hsz cfg + 16 \<le> length (padded data)"
    using True assms by (simp add: hsz_def)
  from read_payload_total [OF this, of cfg ?e]
  obtain r where "read_payload cfg (padded data) ?e (ds_pos st + hsz cfg) = Inr r" by blast
  then show ?thesis
    by (cases r) (auto simp: decode_step_def Let_def)
next
  case False
  then have "le_int (bslice (padded data) (ds_pos st + 4) (ds_pos st + hsz cfg)) = 0"
    unfolding padded_def by (intro bslice_padding) simp
  then have "decode_step cfg (padded data) st = Inr (False, st)" by (simp add: decode_step_def Let_def)
  then show ?thesis by blast
qed

lemma decode_loop_total:
  "id_size (dc_tsdl cfg) \<le> 44 \<Longrightarrow> \<exists>st'. decode_loop cfg (padded data) st = Inr st'"
proof (induction cfg "padded data" st rule: decode_loop.induct)
  case (1 cfg st)
  from decode_step_total [OF "1.prems"] obtain go st1 where
    step: "decode_step cfg (padded data) st = Inr (go, st1)" by (metis surj_pair)
  show ?case
  proof (cases go)
    case True
    from "1.hyps" [OF step refl True "1.prems"] obtain st2 where
      "decode_loop cfg (padded data) st1 = Inr st2" by blast
    with step True show ?thesis by (subst decode_loop.simps) simp
  next
    case False
    with step show ?thesis by (subst decode_loop.simps) simp
  qed
qed

section \<open>Decoding what the writer wrote\<close>

lemma read_payload_wrec:
  assumes w: "wrec_ok w" and p: "length pre = p"
  shows "read_payload cfg (pre @ wrec_bytes w @ rest) (dc_base cfg + wrec_ev w) p
       = Inr (Some (wrec_payload (dc_names cfg) w, p + length (wrec_bytes w)))"
proof -
  have ub: "unpack_u n (le_bytes n x @ b) 0 = Inr x" if "0 \<le> x" "x < 256 ^ n" for n x b
    using that by (rule unpack_u_le_bytes)
  show ?thesis
  proof (cases w)
    case (WMarker m arg)
    with w p show ?thesis
      by (simp add: read_payload_def u16_ok_def u32_ok_def unpack_u_append_right ub)
  next
    case (WHeartbeat seq up)
    with w p show ?thesis
      by (simp add: read_payload_def u16_ok_def u32_ok_def unpack_u_append_right ub)
  next
    case (WProvenance s)
    with w p show ?thesis
      by (simp add: read_payload_def u16_ok_def u32_ok_def unpack_u_append_right ub
          bslice_append_right bslice_append_left ascii_decode_encode)
        (simp add: bslice_def ascii_decode_encode)
  next
    case (WTrigger m pre_ms kept spin lost filt)
    with w p show ?thesis
      by (simp add: read_payload_def u16_ok_def u32_ok_def unpack_u_append_right ub)
  qed
qed

lemma id_bytes:
  assumes "conf_ok cfg"
  shows "le_int (le_bytes (id_size (dc_tsdl cfg)) (dc_base cfg + wrec_ev w)) = dc_base cfg + wrec_ev w"
    and "dc_base cfg + wrec_ev w \<noteq> 0"
proof -
  have ev: "0 \<le> wrec_ev w" "wrec_ev w \<le> 3" by (cases w; simp)+
  then have b: "0 < dc_base cfg + wrec_ev w" "dc_base cfg + wrec_ev w < 256 ^ id_size (dc_tsdl cfg)"
    using assms by (auto simp: conf_ok_def ev_base_def)
  then show "le_int (le_bytes (id_size (dc_tsdl cfg)) (dc_base cfg + wrec_ev w)) = dc_base cfg + wrec_ev w"
    by simp
  from b show "dc_base cfg + wrec_ev w \<noteq> 0" by simp
qed

lemma decode_step_put_rec:
  assumes cfg: "conf_ok cfg" and w: "wrec_ok w" and pos: "ds_pos st = length pre"
    and t: "t = unwrap_ts (ds_prev st) (ds_ext st) (T mod 2 ^ 32)"
  shows "decode_step cfg (pre @ put_rec cfg (T, w) @ rest) st =
    Inr (True, push_rec (st\<lparr>ds_prev := Some (T mod 2 ^ 32), ds_ext := t\<rparr>) t (dc_base cfg + wrec_ev w)
                 (wrec_payload (dc_names cfg) w) (length pre + length (put_rec cfg (T, w))))"
proof -
  let ?id = "le_bytes (id_size (dc_tsdl cfg)) (dc_base cfg + wrec_ev w)"
  let ?pre = "pre @ le_bytes 4 T @ ?id"
  have buf: "pre @ put_rec cfg (T, w) @ rest = ?pre @ wrec_bytes w @ rest"
    by (simp add: put_rec_def)
  have ts: "le_int (bslice (pre @ put_rec cfg (T, w) @ rest) (length pre) (length pre + 4)) = T mod 2 ^ 32"
    by (simp add: put_rec_def bslice_append_right bslice_append_left le_int_le_bytes)
      (simp add: bslice_def le_int_le_bytes)
  have e: "le_int (bslice (pre @ put_rec cfg (T, w) @ rest) (length pre + 4) (length pre + hsz cfg))
      = dc_base cfg + wrec_ev w"
    using id_bytes(1) [OF cfg, of w]
    by (simp add: put_rec_def hsz_def bslice_append_right) (simp add: bslice_def)
  have pl: "read_payload cfg (pre @ put_rec cfg (T, w) @ rest) (dc_base cfg + wrec_ev w) (length pre + hsz cfg)
      = Inr (Some (wrec_payload (dc_names cfg) w, length pre + length (put_rec cfg (T, w))))"
    unfolding buf by (subst read_payload_wrec [OF w]) (simp_all add: hsz_def put_rec_def)
  have len: "length pre + hsz cfg \<le> length (pre @ put_rec cfg (T, w) @ rest)"
    by (simp add: put_rec_def hsz_def)
  show ?thesis
    using pos ts e pl len id_bytes(2) [OF cfg, of w] t
    by (simp add: decode_step_def Let_def)
qed

lemma decode_loop_put_rec:
  assumes "conf_ok cfg" and "wrec_ok w" and "ds_pos st = length pre"
    and "t = unwrap_ts (ds_prev st) (ds_ext st) (T mod 2 ^ 32)"
  shows "decode_loop cfg (pre @ put_rec cfg (T, w) @ rest) st =
    decode_loop cfg (pre @ put_rec cfg (T, w) @ rest)
      (push_rec (st\<lparr>ds_prev := Some (T mod 2 ^ 32), ds_ext := t\<rparr>) t (dc_base cfg + wrec_ev w)
         (wrec_payload (dc_names cfg) w) (length pre + length (put_rec cfg (T, w))))"
  by (subst decode_loop.simps) (simp add: decode_step_put_rec [OF assms])

lemma decode_loop_end:
  assumes "ds_pos st = length pre"
  shows "decode_loop cfg (pre @ replicate n 0) st = Inr st"
proof -
  have "le_int (bslice (pre @ replicate n 0) (length pre + 4) (length pre + hsz cfg)) = 0"
    by (rule bslice_padding) simp
  with assms show ?thesis
    by (subst decode_loop.simps) (simp add: decode_step_def Let_def)
qed

text \<open>Consecutive stamps are less than half the stamp's range apart, in either direction.\<close>

fun times_ok :: "int \<Rightarrow> (int \<times> wrec) list \<Rightarrow> bool" where
  "times_ok T0 [] = True"
| "times_ok T0 ((T, w) # tws) = (- (2 ^ 31) \<le> T - T0 \<and> T - T0 < 2 ^ 31 \<and> times_ok T tws)"

text \<open>The records a decoder should produce for a stream starting at \<open>pos\<close>, \<open>k\<close> stamp ranges early.\<close>

fun expect :: "dconf \<Rightarrow> int \<Rightarrow> nat \<Rightarrow> (int \<times> wrec) list \<Rightarrow> trec list" where
  "expect cfg k pos [] = []"
| "expect cfg k pos ((T, w) # tws) =
     \<lparr>off = pos, t_ns = T - k * 2 ^ 32, eid = dc_base cfg + wrec_ev w, pay = wrec_payload (dc_names cfg) w\<rparr>
     # expect cfg k (pos + length (put_rec cfg (T, w))) tws"

fun opens :: "wrec \<Rightarrow> bool" where
  "opens (WProvenance s) = contains ''window=trigger'' s"
| "opens _ = False"

lemma opens_window_payload [simp]: "opens_window (wrec_payload names w) = opens w"
  by (cases w) auto

lemma unwrap_ts_close:
  assumes "- (2 ^ 31) \<le> T - T0" and "T - T0 < 2 ^ 31"
  shows "unwrap_ts (Some (T0 mod 2 ^ 32)) (T0 - k * 2 ^ 32) (T mod 2 ^ 32) = T - k * 2 ^ 32"
proof -
  have d: "(T mod 2 ^ 32 - T0 mod 2 ^ 32) mod 2 ^ 32 = (T - T0) mod 2 ^ 32"
    by (simp add: mod_diff_eq)
  show ?thesis
  proof (cases "0 \<le> T - T0")
    case True
    with assms have "(T - T0) mod 2 ^ 32 = T - T0" by (intro mod_pos_pos_trivial) auto
    with d assms True show ?thesis by (simp add: unwrap_ts_def Let_def)
  next
    case False
    have "(T - T0) mod 2 ^ 32 = (T - T0 + 2 ^ 32) mod 2 ^ 32" by simp
    also have "\<dots> = T - T0 + 2 ^ 32" using False assms by (intro mod_pos_pos_trivial) auto
    finally show ?thesis using d assms False by (simp add: unwrap_ts_def Let_def)
  qed
qed

lemma stream_Cons: "stream cfg (tw # tws) = put_rec cfg tw @ stream cfg tws"
  by (simp add: stream_def)

lemma decode_loop_stream:
  assumes cfg: "conf_ok cfg"
  shows "\<forall>(T, w) \<in> set tws. wrec_ok w \<and> \<not> opens w \<Longrightarrow> times_ok T0 tws \<Longrightarrow>
    ds_pos st = length pre \<Longrightarrow> ds_prev st = Some (T0 mod 2 ^ 32) \<Longrightarrow> ds_ext st = T0 - k * 2 ^ 32 \<Longrightarrow>
    \<exists>st'. decode_loop cfg (pre @ stream cfg tws @ replicate n 0) st = Inr st'
      \<and> ds_recs st' = ds_recs st @ expect cfg k (length pre) tws \<and> ds_error st' = ds_error st
      \<and> ds_seg st' = ds_seg st \<and> ds_pos st' = length pre + length (stream cfg tws)"
proof (induction tws arbitrary: T0 st pre)
  case Nil
  then show ?case by (simp add: stream_def decode_loop_end)
next
  case (Cons tw tws)
  obtain T w where tw: "tw = (T, w)" by fastforce
  let ?t = "T - k * 2 ^ 32"
  let ?pre = "pre @ put_rec cfg (T, w)"
  let ?st = "push_rec (st\<lparr>ds_prev := Some (T mod 2 ^ 32), ds_ext := ?t\<rparr>) ?t (dc_base cfg + wrec_ev w)
         (wrec_payload (dc_names cfg) w) (length pre + length (put_rec cfg (T, w)))"
  from Cons.prems tw unwrap_ts_close [of T T0 k]
  have t: "?t = unwrap_ts (ds_prev st) (ds_ext st) (T mod 2 ^ 32)"
    by simp
  have step: "decode_loop cfg (pre @ stream cfg (tw # tws) @ replicate n 0) st
      = decode_loop cfg (?pre @ stream cfg tws @ replicate n 0) ?st"
    using decode_loop_put_rec [OF cfg _ Cons.prems(3) t, of w "stream cfg tws @ replicate n 0"] Cons.prems(1) tw
    by (simp add: stream_Cons)
  have "\<exists>st'. decode_loop cfg (?pre @ stream cfg tws @ replicate n 0) ?st = Inr st'
      \<and> ds_recs st' = ds_recs ?st @ expect cfg k (length ?pre) tws \<and> ds_error st' = ds_error ?st
      \<and> ds_seg st' = ds_seg ?st \<and> ds_pos st' = length ?pre + length (stream cfg tws)"
    using Cons.prems tw by (intro Cons.IH [of T]) auto
  with step tw Cons.prems show ?case by (auto simp: stream_Cons)
qed

text \<open>A segment starts without a previous stamp: its first record is taken at the stamp itself, so
  the whole segment comes out as many stamp ranges early as the first record's time has.\<close>

lemma decode_loop_segment:
  assumes cfg: "conf_ok cfg" and ok: "\<forall>(T, w) \<in> set ((T, w) # tws). wrec_ok w \<and> \<not> opens w"
    and times: "times_ok T tws" and pos: "ds_pos st = length pre" and prev: "ds_prev st = None"
  shows "\<exists>st'. decode_loop cfg (pre @ stream cfg ((T, w) # tws) @ replicate n 0) st = Inr st'
      \<and> ds_recs st' = ds_recs st @ expect cfg (T div 2 ^ 32) (length pre) ((T, w) # tws)
      \<and> ds_error st' = ds_error st \<and> ds_seg st' = ds_seg st
      \<and> ds_pos st' = length pre + length (stream cfg ((T, w) # tws))"
proof -
  let ?k = "T div 2 ^ 32" and ?t = "T mod 2 ^ 32"
  let ?pre = "pre @ put_rec cfg (T, w)"
  let ?st = "push_rec (st\<lparr>ds_prev := Some ?t, ds_ext := ?t\<rparr>) ?t (dc_base cfg + wrec_ev w)
         (wrec_payload (dc_names cfg) w) (length pre + length (put_rec cfg (T, w)))"
  have t: "?t = unwrap_ts (ds_prev st) (ds_ext st) ?t" using prev by (simp add: unwrap_ts_def)
  have tk: "?t = T - ?k * 2 ^ 32" by (metis minus_div_mult_eq_mod)
  have step: "decode_loop cfg (pre @ stream cfg ((T, w) # tws) @ replicate n 0) st
      = decode_loop cfg (?pre @ stream cfg tws @ replicate n 0) ?st"
    using decode_loop_put_rec [OF cfg _ pos t, of w "stream cfg tws @ replicate n 0"] ok
    by (simp add: stream_Cons)
  have "\<exists>st'. decode_loop cfg (?pre @ stream cfg tws @ replicate n 0) ?st = Inr st'
      \<and> ds_recs st' = ds_recs ?st @ expect cfg ?k (length ?pre) tws \<and> ds_error st' = ds_error ?st
      \<and> ds_seg st' = ds_seg ?st \<and> ds_pos st' = length ?pre + length (stream cfg tws)"
    using ok times tk by (intro decode_loop_stream [OF cfg, of _ T]) auto
  with step pos ok tk show ?thesis by (auto simp: stream_Cons)
qed

lemma expect_pay: "map pay (expect cfg k pos tws) = map (wrec_payload (dc_names cfg) \<circ> snd) tws"
  by (induction tws arbitrary: pos) auto

lemma expect_shift: "map (shift_t k) (expect cfg k pos tws) = expect cfg 0 pos tws"
  by (induction tws arbitrary: pos) (auto simp: shift_t_def)

lemma round_div_exact:
  assumes "\<bar>x\<bar> < 2 ^ 31"
  shows "round_div (x + k * 2 ^ 32) (2 ^ 32) = k"
proof (cases "0 \<le> x")
  case True
  with assms have "(x + k * 2 ^ 32) div 2 ^ 32 = k" "(x + k * 2 ^ 32) mod 2 ^ 32 = x" by auto
  with assms True show ?thesis by (simp add: round_div_def Let_def)
next
  case False
  have eq: "x + k * 2 ^ 32 = 2 ^ 32 * (k - 1) + (x + 2 ^ 32)" by (simp add: algebra_simps)
  have "(x + k * 2 ^ 32) div 2 ^ 32 = k - 1" "(x + k * 2 ^ 32) mod 2 ^ 32 = x + 2 ^ 32"
    using int_div_pos_eq [OF eq] int_mod_pos_eq [OF eq] assms False by auto
  with assms False show ?thesis by (simp add: round_div_def Let_def)
qed

text \<open>The first heartbeat of a written segment, with its true time.\<close>

fun first_hb :: "(int \<times> wrec) list \<Rightarrow> (int \<times> int) option" where
  "first_hb [] = None"
| "first_hb ((T, WHeartbeat seq up) # tws) = Some (T, up)"
| "first_hb ((T, w) # tws) = first_hb tws"

lemma find_hb_expect:
  "first_hb tws = Some (T, up) \<Longrightarrow>
   \<exists>r. List.find (\<lambda>r. is_heartbeat (pay r)) (expect cfg k pos tws) = Some r
     \<and> t_ns r = T - k * 2 ^ 32 \<and> uptime_of (pay r) = up"
  by (induction tws arbitrary: pos rule: first_hb.induct) auto

lemma anchor_expect:
  assumes hb: "first_hb tws = Some (Th, up)" and near: "\<bar>up * 1000000 - Th\<bar> < 2 ^ 31"
  shows "anchor (recs @ expect cfg k pos tws) (Some (length recs)) = recs @ expect cfg 0 pos tws"
proof -
  from find_hb_expect [OF hb] obtain r where
    r: "List.find (\<lambda>r. is_heartbeat (pay r)) (expect cfg k pos tws) = Some r"
      "t_ns r = Th - k * 2 ^ 32" "uptime_of (pay r) = up" by blast
  have "up * 1000000 - t_ns r = up * 1000000 - Th + k * 2 ^ 32" using r(2) by simp
  then have "round_div (up * 1000000 - t_ns r) (2 ^ 32) = k"
    by (simp only: round_div_exact [OF near])
  with r show ?thesis by (simp add: anchor_def Let_def expect_shift)
qed

text \<open>A small configuration for the examples.\<close>

definition demo_tsdl :: tsdl where
  "demo_tsdl = \<lparr>id_size = 1, events = (\<lambda>e. if e = 0x10 then
     Some (''thread_switched_out'', [\<lparr>tf_name = ''id'', tf_type = ''uint32_t'', tf_arr = None, tf_size = 4\<rparr>]) else None)\<rparr>"

definition demo_conf :: dconf where
  "demo_conf = \<lparr>dc_tsdl = demo_tsdl, dc_base = 0xE0, dc_names = (\<lambda>k. if k = 3 then Some ''M'' else None)\<rparr>"

text \<open>C23. Decoding the padded buffer never raises, whatever bytes the buffer holds: the loop ends
  with records, an unknown event id or the end of the data, and never with a struct error. (An
  event id of up to 44 bytes; the trees use one and two.)\<close>

theorem decode_never_raises:
  assumes "id_size (dc_tsdl cfg) \<le> 44"
  shows "\<exists>st. decode_loop cfg (padded data) dstate0 = Inr st"
  using decode_loop_total [OF assms] .

theorem decode_never_raises_witness:
  "\<exists>st. decode_loop demo_conf (padded [1, 0, 0, 0, 224, 3]) dstate0 = Inr st"
proof -
  have "id_size (dc_tsdl demo_conf) \<le> 44" by (simp add: demo_conf_def demo_tsdl_def)
  from decode_never_raises [OF this] show ?thesis .
qed

text \<open>C2. Decoding what the island wrote gives back every record, in order, at its true time in
  nanoseconds, although the stamps on the wire wrap every 4.29 s, provided consecutive records are
  less than half that apart (in either direction) and the first is before the first wrap; no decode
  error, and exactly the written bytes are used.\<close>

theorem decode_written_stream:
  assumes "conf_ok cfg" and "\<forall>(T, w) \<in> set ((T, w) # tws). wrec_ok w \<and> \<not> opens w"
    and "0 \<le> T" "T < 2 ^ 32" and "times_ok T tws"
  shows "\<exists>st. decode_loop cfg (padded (stream cfg ((T, w) # tws))) dstate0 = Inr st
    \<and> ds_recs st = expect cfg 0 0 ((T, w) # tws) \<and> ds_error st = None
    \<and> ds_pos st = length (stream cfg ((T, w) # tws))"
  using decode_loop_segment [OF assms(1,2,5), of dstate0 "[]" 64] assms(3,4)
  by (auto simp: dstate0_def padded_def)

theorem decode_written_stream_witness:
  "\<exists>st. decode_loop demo_conf (padded (stream demo_conf [(4294967000, WMarker 3 9), (4294967900, WHeartbeat 0 4294)])) dstate0 = Inr st
    \<and> map t_ns (ds_recs st) = [4294967000, 4294967900]"
proof -
  let ?tws = "[(4294967900 :: int, WHeartbeat 0 4294)]"
  have "conf_ok demo_conf" by (simp add: conf_ok_def demo_conf_def demo_tsdl_def ev_base_def)
  from decode_written_stream [OF this, of 4294967000 "WMarker 3 9" ?tws]
  obtain st where "decode_loop demo_conf (padded (stream demo_conf ((4294967000, WMarker 3 9) # ?tws))) dstate0 = Inr st"
    "ds_recs st = expect demo_conf 0 0 ((4294967000, WMarker 3 9) # ?tws)"
    by (auto simp: u16_ok_def u32_ok_def)
  then show ?thesis by auto
qed

text \<open>A windowed trace: after a provenance that says the window opens at the trigger, an
  unknown time passes before the next record. The segment's first heartbeat places it: with its
  uptime within 2.1 s of its true time, every record of the segment comes out at its true time.\<close>

theorem decode_windowed_stream:
  assumes cfg: "conf_ok cfg" and prov: "wrec_ok (WProvenance s)" "contains ''window=trigger'' s"
    and Tp: "0 \<le> Tp" "Tp < 2 ^ 32"
    and ok: "\<forall>(T, w) \<in> set ((T, w) # tws). wrec_ok w \<and> \<not> opens w" and times: "times_ok T tws"
    and hb: "first_hb ((T, w) # tws) = Some (Th, up)" and near: "\<bar>up * 1000000 - Th\<bar> < 2 ^ 31"
  shows "\<exists>st. decode_loop cfg (padded (stream cfg ((Tp, WProvenance s) # (T, w) # tws))) dstate0 = Inr st
    \<and> anchor (ds_recs st) (ds_seg st) = expect cfg 0 0 ((Tp, WProvenance s) # (T, w) # tws)
    \<and> ds_error st = None"
proof -
  let ?seg = "(T, w) # tws" and ?pw = "put_rec cfg (Tp, WProvenance s)"
  let ?st = "push_rec (dstate0\<lparr>ds_prev := Some (Tp mod 2 ^ 32), ds_ext := Tp\<rparr>) Tp (dc_base cfg + wrec_ev (WProvenance s))
         (wrec_payload (dc_names cfg) (WProvenance s)) (length ([] :: bytes) + length ?pw)"
  have first: "decode_loop cfg (padded (stream cfg ((Tp, WProvenance s) # ?seg))) dstate0
      = decode_loop cfg (?pw @ stream cfg ?seg @ replicate 64 0) ?st"
    using decode_loop_put_rec [OF cfg prov(1), of dstate0 "[]" Tp Tp "stream cfg ?seg @ replicate 64 0"] Tp
    by (simp add: padded_def stream_Cons dstate0_def unwrap_ts_def)
  have sel: "ds_prev ?st = None" "ds_seg ?st = Some (length (ds_recs ?st))" "ds_error ?st = None"
    "ds_recs ?st = expect cfg 0 0 [(Tp, WProvenance s)]"
    using prov(2) by (simp_all add: dstate0_def)
  have "\<exists>st'. decode_loop cfg (?pw @ stream cfg ?seg @ replicate 64 0) ?st = Inr st'
      \<and> ds_recs st' = ds_recs ?st @ expect cfg (T div 2 ^ 32) (length ?pw) ?seg
      \<and> ds_error st' = ds_error ?st \<and> ds_seg st' = ds_seg ?st
      \<and> ds_pos st' = length ?pw + length (stream cfg ?seg)"
    by (rule decode_loop_segment [OF cfg ok times _ sel(1)]) simp
  then obtain st' where st': "decode_loop cfg (?pw @ stream cfg ?seg @ replicate 64 0) ?st = Inr st'"
    "ds_recs st' = ds_recs ?st @ expect cfg (T div 2 ^ 32) (length ?pw) ?seg"
    "ds_error st' = None" "ds_seg st' = Some (length (ds_recs ?st))"
    using sel by auto
  have "anchor (ds_recs st') (ds_seg st') = ds_recs ?st @ expect cfg 0 (length ?pw) ?seg"
    unfolding st' by (rule anchor_expect [OF hb near])
  with first st'(1,3) sel(4) show ?thesis by auto
qed

theorem decode_windowed_stream_witness:
  "\<exists>st. decode_loop demo_conf (padded (stream demo_conf
        [(5, WProvenance '';window=trigger''), (90000000900, WMarker 3 9), (90000002000, WHeartbeat 7 90000)])) dstate0 = Inr st
    \<and> map t_ns (anchor (ds_recs st) (ds_seg st)) = [5, 90000000900, 90000002000]"
proof -
  let ?tws = "[(90000002000 :: int, WHeartbeat 7 90000)]" and ?s = "'';window=trigger''"
  have c: "conf_ok demo_conf" by (simp add: conf_ok_def demo_conf_def demo_tsdl_def ev_base_def)
  have p: "wrec_ok (WProvenance ?s)" by (simp add: u16_ok_def is_ascii_def)
  have q: "contains ''window=trigger'' ?s" by simp
  from decode_windowed_stream [OF c p q, of 5 90000000900 "WMarker 3 9" ?tws 90000002000 90000]
  obtain st where "decode_loop demo_conf (padded (stream demo_conf ((5, WProvenance ?s) # (90000000900, WMarker 3 9) # ?tws))) dstate0 = Inr st"
    "anchor (ds_recs st) (ds_seg st) = expect demo_conf 0 0 ((5, WProvenance ?s) # (90000000900, WMarker 3 9) # ?tws)"
    by (auto simp: u16_ok_def u32_ok_def)
  then show ?thesis by auto
qed

section \<open>Trailing zeros\<close>

lemma rstrip0_split: "\<exists>k. data = rstrip0 data @ replicate k 0"
proof -
  let ?z = "takeWhile (\<lambda>b. b = 0) (rev data)"
  have "?z = replicate (length ?z) 0"
    by (metis (full_types) replicate_length_same set_takeWhileD)
  then have "rev ?z = replicate (length ?z) 0"
    by (metis rev_replicate)
  moreover have "data = rstrip0 data @ rev ?z"
    unfolding rstrip0_def by (metis rev_append rev_rev_ident takeWhile_dropWhile_id)
  ultimately show ?thesis by metis
qed

lemma rstrip0_take: "take (length (rstrip0 data)) data = rstrip0 data"
  using rstrip0_split [of data] by (metis append_eq_conv_conj)

lemma read_fields_append:
  "snd (read_fields b p fs) \<le> length b \<Longrightarrow> read_fields (b @ c) p fs = read_fields b p fs"
proof (induction fs arbitrary: p)
  case Nil
  then show ?case by simp
next
  case (Cons f fs)
  from Cons.prems have q: "snd (read_fields b (p + field_bytes f) fs) \<le> length b" by (simp add: Let_def)
  with read_fields_pos [of "p + field_bytes f" b fs] have "p + field_bytes f \<le> length b" by simp
  with Cons.IH [OF q] show ?case by (simp add: Let_def bslice_append_left)
qed

lemma read_fields_end: "snd (read_fields b p fs) = snd (read_fields b' p fs)"
  by (induction fs arbitrary: p) (auto simp: Let_def)

lemma read_payload_append:
  assumes p: "p + 16 \<le> length b"
    and q: "\<And>pl q. read_payload cfg (b @ c) e p = Inr (Some (pl, q)) \<Longrightarrow> q \<le> length b"
  shows "read_payload cfg (b @ c) e p = read_payload cfg b e p"
proof -
  have u: "unpack_u n (b @ c) (p + k) = unpack_u n b (p + k)" if "k + n \<le> 16" for k n
    using p that by (intro unpack_u_append_left) simp
  have u0: "unpack_u n (b @ c) p = unpack_u n b p" if "n \<le> 16" for n
    using u [of 0 n] that by simp
  consider "e = dc_base cfg" | "e = dc_base cfg + 1" | "e = dc_base cfg + 2" | "e = dc_base cfg + 3"
    | "e \<notin> {dc_base cfg, dc_base cfg + 1, dc_base cfg + 2, dc_base cfg + 3}" by blast
  then show ?thesis
  proof cases
    case 3
    from unpack_u_total [of p 2 b] p obtain n where n: "unpack_u16 b p = Inr n" by auto
    with 3 q u0 [of 2] have "p + 2 + nat n \<le> length b" by (auto simp: read_payload_def)
    with 3 n u0 [of 2] show ?thesis by (simp add: read_payload_def bslice_append_left)
  next
    case 5
    show ?thesis
    proof (cases "events (dc_tsdl cfg) e")
      case (Some ev)
      with 5 q have "snd (read_fields (b @ c) p (snd ev)) \<le> length b"
        by (cases ev) (auto simp: read_payload_def Let_def)
      then have "snd (read_fields b p (snd ev)) \<le> length b" using read_fields_end by metis
      from read_fields_append [OF this, of c] 5 Some show ?thesis
        by (cases ev) (simp add: read_payload_def)
    qed (use 5 in \<open>simp add: read_payload_def\<close>)
  qed (simp_all add: read_payload_def u u0 del: add_2_eq_Suc')
qed

lemma decode_step_zeros:
  assumes id: "id_size (dc_tsdl cfg) \<le> 44"
    and q: "\<And>st'. decode_step cfg (padded r @ replicate k 0) st = Inr (True, st') \<Longrightarrow> ds_pos st' \<le> length r + 64"
  shows "decode_step cfg (padded r @ replicate k 0) st = decode_step cfg (padded r) st"
proof (cases "ds_pos st < length r")
  case True
  let ?p = "ds_pos st + hsz cfg" and ?b = "padded r @ replicate k 0"
  let ?e = "le_int (bslice (padded r) (ds_pos st + 4) ?p)"
  have h: "?p + 16 \<le> length (padded r)" using True id by (simp add: hsz_def)
  then have hdr: "bslice ?b (ds_pos st) (ds_pos st + 4) = bslice (padded r) (ds_pos st) (ds_pos st + 4)"
    "bslice ?b (ds_pos st + 4) ?p = bslice (padded r) (ds_pos st + 4) ?p"
    by (auto simp: hsz_def intro!: bslice_append_left)
  show ?thesis
  proof (cases "?e = 0")
    case False
    have "read_payload cfg ?b ?e ?p = read_payload cfg (padded r) ?e ?p"
    proof (rule read_payload_append [OF h])
      fix pl q
      assume "read_payload cfg ?b ?e ?p = Inr (Some (pl, q))"
      with assms(2) False hdr h show "q \<le> length (padded r)" by (auto simp: decode_step_def Let_def)
    qed
    with hdr h show ?thesis by (simp add: decode_step_def Let_def)
  qed (use hdr h in \<open>simp add: decode_step_def Let_def\<close>)
next
  case False
  then have z: "le_int (bslice (r @ replicate n 0) (ds_pos st + 4) j) = 0" for n j
    by (intro bslice_padding) simp
  have "padded r @ replicate k 0 = r @ replicate (64 + k) 0"
    by (simp add: padded_def replicate_add)
  with z [of "64 + k"] z [of 64] show ?thesis
    by (simp add: decode_step_def Let_def padded_def)
qed

lemma decode_step_stop_pos: "decode_step cfg buf st = Inr (False, st') \<Longrightarrow> ds_pos st' = ds_pos st"
  by (auto simp: decode_step_def Let_def rbind_Inr_iff split: if_splits option.splits)

lemma decode_loop_pos: "decode_loop cfg buf st = Inr st' \<Longrightarrow> ds_pos st \<le> ds_pos st'"
proof (induction cfg buf st rule: decode_loop.induct)
  case (1 cfg buf st)
  from "1.prems" obtain go st1 where s: "decode_step cfg buf st = Inr (go, st1)"
    by (subst (asm) decode_loop.simps) (auto split: sum.splits)
  show ?case
  proof (cases go)
    case True
    with "1.prems" s have "decode_loop cfg buf st1 = Inr st'" by (subst (asm) decode_loop.simps) simp
    from "1.IH" [OF s refl True this] decode_step_pos(1) [of cfg buf st st1] s True show ?thesis by simp
  next
    case False
    with "1.prems" s have "st' = st1" by (subst (asm) decode_loop.simps) simp
    with decode_step_stop_pos [of cfg buf st st1] s False show ?thesis by simp
  qed
qed

lemma decode_loop_zeros:
  assumes id: "id_size (dc_tsdl cfg) \<le> 44"
  shows "decode_loop cfg (padded r @ replicate k 0) st = Inr st' \<Longrightarrow> ds_pos st' \<le> length r + 64 \<Longrightarrow>
    decode_loop cfg (padded r) st = Inr st'"
proof (induction "length r + 64 - ds_pos st" arbitrary: st rule: less_induct)
  case less
  let ?b = "padded r @ replicate k 0"
  from less.prems obtain go st1 where s: "decode_step cfg ?b st = Inr (go, st1)"
    by (subst (asm) decode_loop.simps) (auto split: sum.splits)
  have rest: "decode_loop cfg ?b st1 = Inr st'" if go
    using less.prems s that by (subst (asm) decode_loop.simps) simp
  have "ds_pos st1 \<le> length r + 64" if go
    using decode_loop_pos [OF rest [OF that]] less.prems by simp
  with s have eq: "decode_step cfg (padded r) st = Inr (go, st1)"
    using decode_step_zeros [OF id, of r k st] by auto
  show ?case
  proof (cases go)
    case True
    have "ds_pos st < ds_pos st1" "ds_pos st1 \<le> length r + 64"
      using decode_step_pos(1) [of cfg ?b st st1] s True hsz_pos(2) [of cfg] decode_loop_pos [OF rest [OF True]] less.prems(2)
      by (simp_all del: hsz_pos)
    then have "length r + 64 - ds_pos st1 < length r + 64 - ds_pos st" by simp
    from less.hyps [OF this rest [OF True] less.prems(2)] eq True show ?thesis
      by (subst decode_loop.simps) simp
  next
    case False
    with less.prems s have "st' = st1" by (subst (asm) decode_loop.simps) simp
    with eq False show ?thesis by (subst decode_loop.simps) simp
  qed
qed

lemma decode_loop_stripped:
  assumes "id_size (dc_tsdl cfg) \<le> 44"
    and "decode_loop cfg (padded data) dstate0 = Inr st" and "ds_pos st \<le> length (rstrip0 data) + 64"
  shows "decode_loop cfg (padded (rstrip0 data)) dstate0 = Inr st"
proof -
  from rstrip0_split [of data] obtain k where "data = rstrip0 data @ replicate k 0" by blast
  then have "padded data = padded (rstrip0 data) @ replicate k 0"
    by (metis (no_types, lifting) append.assoc padded_def replicate_add add.commute)
  with assms decode_loop_zeros [of cfg "rstrip0 data" k dstate0 st] show ?thesis by metis
qed

text \<open>Cutting a dump at its last non-zero byte, as the native_sim dump and \<open>wrap\<close> do, loses nothing:
  the decoder ends in the same state (records, times, byte counts, error) as on the whole buffer,
  whenever the last record reaches no further than the 64 bytes of padding past the cut.\<close>

theorem decode_stripped:
  assumes "id_size (dc_tsdl cfg) \<le> 44"
    and "decode_loop cfg (padded data) dstate0 = Inr st" and "ds_pos st \<le> length (rstrip0 data) + 64"
  shows "decode_loop cfg (padded (rstrip0 data)) dstate0 = Inr st"
  by (rule decode_loop_stripped [OF assms])

theorem decode_stripped_witness:
  "\<exists>st. decode_loop demo_conf (padded [1, 0, 0, 0, 224, 3]) dstate0 = Inr st \<and> ds_pos st = 11 \<and>
    decode_loop demo_conf (padded [1, 0, 0, 0, 224, 3, 0, 0]) dstate0 = Inr st"
proof -
  let ?d = "[1, 0, 0, 0, 224, 3, 0, 0] :: bytes"
  have id: "id_size (dc_tsdl demo_conf) \<le> 44" by (simp add: demo_conf_def demo_tsdl_def)
  have r: "rstrip0 ?d = [1, 0, 0, 0, 224, 3]" by code_simp
  have "case decode_loop demo_conf (padded ?d) dstate0 of Inr st \<Rightarrow> ds_pos st = 11 | Inl _ \<Rightarrow> False" by code_simp
  then obtain st where st: "decode_loop demo_conf (padded ?d) dstate0 = Inr st" "ds_pos st = 11"
    by (auto split: sum.splits)
  from decode_stripped [OF id st(1)] st show ?thesis unfolding r by auto
qed

lemma length_MAGIC: "length MAGIC = 8"
  by (simp add: MAGIC_def)

lemma wrap_words:
  assumes "wrap data major minor emitted lastu ms = Inr file"
  shows "\<exists>ws. length ws = 7 \<and> (\<forall>w \<in> set ws. 0 \<le> w \<and> w < 2 ^ 32) \<and>
    ws = [36, major * 2 ^ 16 OR minor * 2 ^ 8, int (length data), emitted, ms, lastu, int (length (rstrip0 data))] \<and>
    file = MAGIC @ pack_u32s ws @ rstrip0 data"
  using assms by (auto simp: wrap_def Let_def u32_ok_def rstrip0_take pack_u32s_def split: if_splits)

lemma load_head_file:
  assumes ws: "length ws = 7" "\<forall>w \<in> set ws. 0 \<le> w \<and> w < 2 ^ 32" and h: "ws ! 0 = 36" "ws ! 6 = int (length r)"
  shows "load_head (MAGIC @ pack_u32s ws @ r) z =
    (if length r < 4 then Inl StructError
     else Inr (Some \<lparr>zephyr_version = ws ! 1, buffer_size = ws ! 2, heartbeats_emitted = ws ! 3,
                     heartbeat_ms = ws ! 4, last_heartbeat_uptime_ms = ws ! 5, dumped_len = ws ! 6\<rparr>,
               if truthy z then the z else zephyr_text (ws ! 1), r))"
proof -
  let ?f = "MAGIC @ pack_u32s ws @ r"
  have w: "le_int (bslice ?f (8 + 4 * i) (8 + 4 * i + 4)) = ws ! i" if "i < 7" for i
    using words_at_pack_aux [OF ws(2), of i r] that ws(1) by (simp add: bslice_append_right length_MAGIC add.commute)
  have hlen: "unpack_u32 ?f 8 = Inr 36"
    using w [of 0] h ws(1) by (simp add: unpack_u_def length_MAGIC)
  have wi: "words_at 7 ?f 12 ! i = ws ! Suc i" if "i < 6" for i
    using w [of "Suc i"] that by simp
  have at: "words_at 7 ?f 12 ! 0 = ws ! 1" "words_at 7 ?f 12 ! 1 = ws ! 2" "words_at 7 ?f 12 ! 2 = ws ! 3"
    "words_at 7 ?f 12 ! 3 = ws ! 4" "words_at 7 ?f 12 ! 4 = ws ! 5" "words_at 7 ?f 12 ! 5 = ws ! 6"
    using wi [of 0] wi [of 1] wi [of 2] wi [of 3] wi [of 4] wi [of 5] by (simp_all add: numeral_eq_Suc)
  have fs: "unpack_u32s 7 ?f 12 = (if length r < 4 then Inl StructError else Inr (words_at 7 ?f 12))"
    using ws(1) by (simp add: unpack_u32s_def length_MAGIC)
  have body: "bslice ?f 36 (36 + length r) = r"
    using ws(1) by (simp add: bslice_append_right length_MAGIC) (simp add: bslice_def)
  have magic: "take 8 ?f = MAGIC" using length_MAGIC by simp
  show ?thesis
    using magic hlen fs at body h by (simp add: load_head_def Let_def del: words_at_nth)
qed

lemma zephyr_text_version:
  assumes "0 \<le> minor" "minor < 256"
  shows "zephyr_text (major * 2 ^ 16 OR minor * 2 ^ 8) = dec_int major @ ''.'' @ dec_int minor"
proof -
  have hi: "(major * 2 ^ 16 OR minor * 2 ^ 8) div 2 ^ 16 = major"
  proof -
    have "drop_bit 16 (major * 2 ^ 16 OR minor * 2 ^ 8) = drop_bit 16 (major * 2 ^ 16) OR drop_bit 16 (minor * 2 ^ 8)"
      by (rule drop_bit_or)
    moreover have "drop_bit 16 (major * 2 ^ 16) = major" "drop_bit 16 (minor * 2 ^ 8) = 0"
      using assms by (auto simp: drop_bit_eq_div)
    ultimately show ?thesis by (simp add: drop_bit_eq_div)
  qed
  have lo: "(major * 2 ^ 16 OR minor * 2 ^ 8) div 2 ^ 8 mod 2 ^ 8 = minor"
  proof -
    have "take_bit 8 (drop_bit 8 (major * 2 ^ 16 OR minor * 2 ^ 8))
        = take_bit 8 (drop_bit 8 (major * 2 ^ 16)) OR take_bit 8 (drop_bit 8 (minor * 2 ^ 8))"
      by (simp only: drop_bit_or take_bit_or)
    moreover have "take_bit 8 (drop_bit 8 (minor * 2 ^ 8)) = minor"
      using assms by (simp add: drop_bit_eq_div take_bit_eq_mod)
    moreover have "take_bit 8 (drop_bit 8 (major * 2 ^ 16)) = 0"
    proof -
      have "major * 2 ^ 16 = (major * 2 ^ 8) * 2 ^ 8" by simp
      then have "drop_bit 8 (major * 2 ^ 16) = major * 2 ^ 8" by (simp add: drop_bit_eq_div)
      then show ?thesis by (simp add: take_bit_eq_mod)
    qed
    ultimately show ?thesis by (simp add: drop_bit_eq_div take_bit_eq_mod)
  qed
  show ?thesis unfolding zephyr_text_def hi lo by simp
qed

lemma wrap_loads:
  assumes "wrap data major minor emitted lastu ms = Inr file" and "4 \<le> length (rstrip0 data)"
    and "0 \<le> minor" "minor < 256"
  shows "\<exists>h. load_head file None = Inr (Some h, dec_int major @ ''.'' @ dec_int minor, rstrip0 data)
    \<and> heartbeats_emitted h = emitted \<and> heartbeat_ms h = ms \<and> last_heartbeat_uptime_ms h = lastu
    \<and> buffer_size h = int (length data) \<and> dumped_len h = int (length (rstrip0 data))"
proof -
  from wrap_words [OF assms(1)] obtain ws where ws: "length ws = 7" "\<forall>w \<in> set ws. 0 \<le> w \<and> w < 2 ^ 32"
    "ws = [36, major * 2 ^ 16 OR minor * 2 ^ 8, int (length data), emitted, ms, lastu, int (length (rstrip0 data))]"
    "file = MAGIC @ pack_u32s ws @ rstrip0 data" by blast
  have "ws ! 0 = 36" "ws ! 6 = int (length (rstrip0 data))" using ws(3) by simp_all
  from load_head_file [OF ws(1,2) this, of None] ws(3,4) assms(2) zephyr_text_version [OF assms(3,4), of major]
  show ?thesis by (simp add: truthy_def)
qed

text \<open>A wrapped read comes back: \<open>load\<close> finds the header with the counters \<open>wrap\<close> was given, the
  Zephyr version it was given, and the used bytes of the buffer.\<close>

theorem wrap_load_head:
  assumes "wrap data major minor emitted lastu ms = Inr file" and "4 \<le> length (rstrip0 data)"
    and "0 \<le> minor" "minor < 256"
  shows "\<exists>h. load_head file None = Inr (Some h, dec_int major @ ''.'' @ dec_int minor, rstrip0 data)
    \<and> heartbeats_emitted h = emitted \<and> heartbeat_ms h = ms \<and> last_heartbeat_uptime_ms h = lastu
    \<and> buffer_size h = int (length data) \<and> dumped_len h = int (length (rstrip0 data))"
  by (rule wrap_loads [OF assms])

theorem wrap_load_head_witness:
  "\<exists>file h. wrap [0, 0, 0, 0, 224, 7, 0, 1, 0, 0] 4 4 3 200 100 = Inr file
    \<and> load_head file None = Inr (Some h, ''4.4'', [0, 0, 0, 0, 224, 7, 0, 1])
    \<and> heartbeats_emitted h = 3 \<and> buffer_size h = 10 \<and> dumped_len h = 8"
proof -
  have "case wrap [0, 0, 0, 0, 224, 7, 0, 1, 0, 0] 4 4 3 200 100 of Inr _ \<Rightarrow> True | Inl _ \<Rightarrow> False" by code_simp
  then obtain img where f: "wrap [0, 0, 0, 0, 224, 7, 0, 1, 0, 0] 4 4 3 200 100 = Inr img"
    by (auto split: sum.splits)
  have s: "rstrip0 [0, 0, 0, 0, 224, 7, 0, 1, 0, 0] = [0, 0, 0, 0, 224, 7, 0, 1]" by code_simp
  have d: "dec_int 4 @ ''.'' @ dec_int 4 = ''4.4''" by code_simp
  show ?thesis using wrap_load_head [OF f] f unfolding s d by auto
qed

text \<open>A dump with fewer than four used bytes, such as the one of an image that recorded nothing,
  cannot be loaded: the header has six words after its length and \<open>load\<close> unpacks seven.\<close>

theorem load_rejects_short_dump:
  assumes "wrap data major minor emitted lastu ms = Inr file" and "length (rstrip0 data) < 4"
  shows "load_head file zephyr = Inl StructError"
proof -
  from wrap_words [OF assms(1)] obtain ws where ws: "length ws = 7" "\<forall>w \<in> set ws. 0 \<le> w \<and> w < 2 ^ 32"
    "ws = [36, major * 2 ^ 16 OR minor * 2 ^ 8, int (length data), emitted, ms, lastu, int (length (rstrip0 data))]"
    "file = MAGIC @ pack_u32s ws @ rstrip0 data" by blast
  have "ws ! 0 = 36" "ws ! 6 = int (length (rstrip0 data))" using ws(3) by simp_all
  from load_head_file [OF ws(1,2) this, of zephyr] ws(4) assms(2) show ?thesis by simp
qed

theorem load_rejects_short_dump_witness:
  "\<exists>file. wrap (replicate 8 0) 4 4 0 0 100 = Inr file \<and> load_head file None = Inl StructError"
proof -
  have "case wrap (replicate 8 0) 4 4 0 0 100 of Inr _ \<Rightarrow> True | Inl _ \<Rightarrow> False" by code_simp
  then obtain img where f: "wrap (replicate 8 0) 4 4 0 0 100 = Inr img"
    by (auto split: sum.splits)
  have s: "length (rstrip0 (replicate 8 0)) < 4" by code_simp
  from f load_rejects_short_dump [OF f s] show ?thesis by blast
qed

end
