(* ===== verification/Ring_Log.thy ===== *)
theory Ring_Log
  imports Island_Prelude
begin

text \<open>The two interfaces the live readouts rest on.

  \<open>ring_log\<close> is the contract between a firmware ring (an all-time counter beside \<open>cap\<close> slots, the
  entry \<open>n\<close> at slot \<open>n mod cap\<close>, the counter stepped last) and a debugger that reads both: the buttons'
  presses, the LEDs' transitions and the spin diagnostics' late records are such rings. Its lemmas say
  which part of the full history a reading still holds.

  \<open>line_feed\<close> is the contract of an incremental line reader: a buffer of the unfinished line, fed
  chunk by chunk. Its lemmas say that where the chunks were cut does not matter.

  Before them: the words and slots of such a record in memory, and codes packed into one word.\<close>

unbundle bit_operations_syntax

section \<open>Four bytes in a word\<close>

lemma or_shift:
  fixes x y :: int
  assumes "0 \<le> y" "y < 2 ^ n"
  shows "push_bit n x OR y = x * 2 ^ n + y"
proof -
  have "take_bit n y = y" using assms by (simp add: take_bit_int_eq_self)
  then have "bit y m \<Longrightarrow> m < n" for m by (metis bit_take_bit_iff)
  then have "push_bit n x AND y = 0" by (intro bit_eqI) (fastforce simp: bit_simps)
  from disjunctive_add_eq_or [OF this] show ?thesis by (simp add: push_bit_eq_mult)
qed

lemma uint_and_ff: "uint (x AND 0xff :: u32) = uint x mod 256"
proof -
  have "x AND 0xff = take_bit 8 x" by (simp add: take_bit_eq_mask mask_eq_exp_minus_1)
  then show ?thesis by (simp only: unsigned_take_bit_eq) (simp add: take_bit_eq_mod)
qed

lemma uint_push_bit: "n \<le> 32 \<Longrightarrow> uint (push_bit n x :: u32) = push_bit n (uint x mod 2 ^ (32 - n))"
  by (simp only: unsigned_push_bit_eq take_bit_push_bit) (simp add: take_bit_eq_mod)

lemma pack4:
  fixes x y z w :: u32
  assumes "uint y < 256" "uint z < 256" "uint w < 256"
  shows "uint (push_bit 24 x OR push_bit 16 y OR push_bit 8 z OR w)
    = (uint x mod 256) * 2 ^ 24 + uint y * 2 ^ 16 + uint z * 2 ^ 8 + uint w"
proof -
  have "uint (push_bit 24 x OR push_bit 16 y OR push_bit 8 z OR w)
      = push_bit 24 (uint x mod 256) OR push_bit 16 (uint y) OR push_bit 8 (uint z) OR uint w"
    using assms by (simp only: uint_or uint_push_bit) simp
  also have "push_bit 8 (uint z) OR uint w = uint z * 2 ^ 8 + uint w" using assms by (intro or_shift) simp_all
  also have "push_bit 16 (uint y) OR (uint z * 2 ^ 8 + uint w) = uint y * 2 ^ 16 + (uint z * 2 ^ 8 + uint w)"
    using assms by (intro or_shift) simp_all
  also have "push_bit 24 (uint x mod 256) OR (uint y * 2 ^ 16 + (uint z * 2 ^ 8 + uint w))
      = (uint x mod 256) * 2 ^ 24 + (uint y * 2 ^ 16 + (uint z * 2 ^ 8 + uint w))"
    using assms by (intro or_shift) simp_all
  finally show ?thesis by simp
qed

lemma div_mod_sum: "x = q * m + r \<Longrightarrow> 0 \<le> r \<Longrightarrow> r < m \<Longrightarrow> x div m = q \<and> x mod m = r" for x q m r :: int
  by (simp add: div_pos_pos_trivial mod_pos_pos_trivial)

lemma byte_fields:
  fixes B W S H :: int
  assumes "c = B * 2 ^ 24 + W * 2 ^ 16 + S * 2 ^ 8 + H" "0 \<le> W" "W < 256" "0 \<le> S" "S < 256" "0 \<le> H" "H < 256"
  shows "c div 2 ^ 24 = B" "c div 2 ^ 16 mod 256 = W" "c div 2 ^ 8 mod 256 = S" "c mod 256 = H"
    and "W < 16 \<Longrightarrow> c div 2 ^ 16 mod 16 = W"
proof -
  have e: "c = ((B * 256 + W) * 256 + S) * 2 ^ 8 + H" "c = (B * 256 + W) * 2 ^ 16 + (S * 2 ^ 8 + H)"
    "c = B * 2 ^ 24 + (W * 2 ^ 16 + S * 2 ^ 8 + H)"
    using assms(1) by simp_all
  have d: "c div 2 ^ 8 = (B * 256 + W) * 256 + S \<and> c mod 2 ^ 8 = H" "c div 2 ^ 16 = B * 256 + W \<and> c mod 2 ^ 16 = S * 2 ^ 8 + H"
    "c div 2 ^ 24 = B \<and> c mod 2 ^ 24 = W * 2 ^ 16 + S * 2 ^ 8 + H"
    using assms by (intro div_mod_sum e; simp)+
  have m: "((B * 256 + W) * 256 + S) mod 256 = S" "(B * 256 + W) mod 256 = W" "W < 16 \<Longrightarrow> (B * 256 + W) mod 16 = W"
    using assms div_mod_sum [OF refl, of S 256 "B * 256 + W"] div_mod_sum [OF refl, of W 256 B]
      div_mod_sum [of "B * 256 + W" "B * 16" 16 W] by simp_all
  show "c div 2 ^ 24 = B" "c div 2 ^ 16 mod 256 = W" "c div 2 ^ 8 mod 256 = S" "c mod 256 = H"
    "W < 16 \<Longrightarrow> c div 2 ^ 16 mod 16 = W"
    using d m by simp_all
qed

section \<open>Memory images of u32 records\<close>

text \<open>The record of a ring, as the debugger reads it: its words, then its slots of two words each.\<close>

definition unpack_pair :: "bytes \<Rightarrow> nat \<Rightarrow> (int \<times> int) res" where   \<comment> \<open>\<open>struct.unpack_from("<2I", blob, o1)\<close>\<close>
  "unpack_pair blob o1 =
     rbind (unpack_u32 blob o1) (\<lambda>u. rbind (unpack_u32 blob (o1 + 4)) (\<lambda>c. Inr (u, c)))"

definition image :: "u32 list \<Rightarrow> (u32 \<times> u32) list \<Rightarrow> bytes" where
  "image hs ring = pack_u32s (map uint (hs @ concat (map (\<lambda>(u, c). [u, c]) ring)))"

definition uints :: "u32 \<times> u32 \<Rightarrow> int \<times> int" where
  "uints e = (uint (fst e), uint (snd e))"

lemma length_flat [simp]: "length (concat (map (\<lambda>(u, c). [u, c]) ring)) = 2 * length ring"
  by (induction ring) auto

lemma flat_nth:
  "i < length ring \<Longrightarrow> concat (map (\<lambda>(u, c). [u, c]) ring) ! (2 * i) = fst (ring ! i)
     \<and> concat (map (\<lambda>(u, c). [u, c]) ring) ! (2 * i + 1) = snd (ring ! i)"
proof (induction ring arbitrary: i)
  case (Cons e ring)
  then show ?case by (cases i) (auto split: prod.split)
qed simp

lemma unpack_word:
  assumes "i < length ws"
  shows "unpack_u32 (pack_u32s (map uint (ws :: u32 list))) (4 * i) = Inr (uint (ws ! i))"
proof -
  have "\<forall>w \<in> set (map uint ws). 0 \<le> w \<and> w < 2 ^ 32" using uint_lt2p [where 'a = 32] by auto
  from words_at_pack_aux [OF this, of i "[]"] assms show ?thesis by (simp add: unpack_u_def)
qed

lemma unpack_head:
  "unpack_u32s (length hs) (image hs ring) 0 = Inr (map uint hs)"
proof -
  have "\<forall>w \<in> set (map uint hs). 0 \<le> w \<and> w < 2 ^ 32" using uint_lt2p [where 'a = 32] by auto
  from words_at_pack [OF this, of "pack_u32s (map uint (concat (map (\<lambda>(u, c). [u, c]) ring)))"] show ?thesis
    by (simp add: unpack_u32s_def image_def)
qed

lemma unpack_slot:
  assumes "i < length ring"
  shows "unpack_pair (image hs ring) (4 * length hs + 8 * i) = Inr (uints (ring ! i))"
proof -
  let ?ws = "hs @ concat (map (\<lambda>(u, c). [u, c]) ring)"
  have "?ws ! (length hs + 2 * i) = fst (ring ! i)" "?ws ! (length hs + (2 * i + 1)) = snd (ring ! i)"
    using flat_nth [OF assms] by (simp_all only: nth_append_length_plus)
  moreover have "4 * length hs + 8 * i = 4 * (length hs + 2 * i)" "4 * length hs + 8 * i + 4 = 4 * (length hs + (2 * i + 1))"
    by simp_all
  ultimately show ?thesis
    using unpack_word [of "length hs + 2 * i" ?ws] unpack_word [of "length hs + (2 * i + 1)" ?ws] assms
    by (simp only: unpack_pair_def image_def uints_def length_append length_flat rbind_simps)
qed

lemma unpack_slots:
  "length ring = n \<Longrightarrow> rmap (\<lambda>i. unpack_pair (image hs ring) (4 * length hs + 8 * i)) [0..<n] = Inr (map uints ring)"
  by (subst rmap_total [where g = "\<lambda>i. uints (ring ! i)"]) (auto simp: unpack_slot intro: nth_equalityI)

lemma unpack_seg:
  assumes "blob = pre @ pack_u32s (map uint (ws :: u32 list)) @ post" and n: "length ws = n"
  shows "unpack_u32s n blob (length pre) = Inr (map uint ws)"
proof -
  have ok: "\<forall>w \<in> set (map uint ws). 0 \<le> w \<and> w < 2 ^ 32" using uint_lt2p [where 'a = 32] by auto
  have "words_at (length ws) blob (length pre) = words_at (length (map uint ws)) (pack_u32s (map uint ws) @ post) 0"
    by (simp add: words_at_def assms bslice_append_right)
  then show ?thesis using words_at_pack [OF ok, of post] by (simp add: unpack_u32s_def assms flip: n)
qed

lemma block_at:
  assumes "\<forall>x \<in> set xs. length (f x) = k" "i < length xs"
  shows "\<exists>p q. concat (map f xs) = p @ f (xs ! i) @ q \<and> length p = i * k"
proof -
  have xs: "xs = take i xs @ xs ! i # drop (Suc i) xs" using assms(2) by (rule id_take_nth_drop)
  let ?p = "concat (map f (take i xs))"
  have "concat (map f xs) = ?p @ f (xs ! i) @ concat (map f (drop (Suc i) xs))"
    by (subst xs) (simp only: map_append concat_append list.map concat.simps)
  moreover have "length ?p = i * k"
  proof -
    have "map (length \<circ> f) (take i xs) = replicate i k"
      using assms by (intro nth_equalityI) auto
    then show ?thesis by (simp add: length_concat sum_list_replicate)
  qed
  ultimately show ?thesis by blast
qed

text \<open>A table in memory, block by block.\<close>

lemma read_blocks:
  assumes "\<forall>x \<in> set xs. length (f x) = k \<and> (\<forall>pre post. blob = pre @ f x @ post \<longrightarrow> (\<forall>i. rd (length pre) i = Inr (g i x)))"
    and "blob = pb @ concat (map f xs) @ qb" "length xs = n"
  shows "rmap (\<lambda>i. rd (length pb + i * k) i) [0..<n] = Inr (map (\<lambda>i. g i (xs ! i)) [0..<n])"
proof (rule rmap_total)
  fix i assume "i \<in> set [0..<n]"
  then have i: "i < length xs" using assms(3) by simp
  have k: "\<forall>x \<in> set xs. length (f x) = k" using assms(1) by blast
  obtain p q where pq: "concat (map f xs) = p @ f (xs ! i) @ q" "length p = i * k" using block_at [OF k i] by blast
  then have "blob = (pb @ p) @ f (xs ! i) @ (q @ qb)" using assms(2) by simp
  then have "rd (length (pb @ p)) i = Inr (g i (xs ! i))" using assms(1) nth_mem [OF i] by blast
  then show "rd (length pb + i * k) i = Inr (g i (xs ! i))" by (simp add: pq(2))
qed

section \<open>Rings read by a debugger\<close>

lemma upto_int: "[int m..int n - 1] = map int [m..<n]"
  by (rule nth_equalityI) (auto simp: nth_upto)

lemma unat_step: "unat w + 1 < 2 ^ 32 \<Longrightarrow> unat (w + 1 :: u32) = unat w + 1"
  by (simp add: unat_word_ariths)

locale ring_log =
  fixes cap :: nat
    and limit :: nat
    and count :: "'s \<Rightarrow> nat"
    and slots :: "'s \<Rightarrow> 'a list"
    and push :: "'a \<Rightarrow> 's \<Rightarrow> 's"
  assumes cap_pos: "0 < cap"
    and count_push: "count s + 1 < limit \<Longrightarrow> count (push x s) = count s + 1"
    and slots_push: "slots (push x s) = (slots s)[count s mod cap := x]"
begin

text \<open>The ring holds a history: the counter is its length and every one of the last \<open>cap\<close> entries is in its
  slot.\<close>

definition holds :: "'s \<Rightarrow> 'a list \<Rightarrow> bool" where
  "holds s hist \<longleftrightarrow> count s = length hist \<and> length (slots s) = cap
     \<and> (\<forall>i < length hist. length hist \<le> i + cap \<longrightarrow> slots s ! (i mod cap) = hist ! i)"

lemma mod_cap_neq:
  assumes "i < n" "n \<le> i + cap" "i + cap \<noteq> n"
  shows "i mod cap \<noteq> n mod cap"
proof
  assume "i mod cap = n mod cap"
  then have "cap dvd n - i" using assms(1) by (metis less_imp_le_nat mod_eq_dvd_iff_nat)
  moreover have "0 < n - i" "n - i < cap" using assms by linarith+
  ultimately show False using nat_dvd_not_less by blast
qed

lemma holds_push:
  assumes h: "holds s hist" and lim: "length hist + 1 < limit"
  shows "holds (push x s) (hist @ [x])"
proof -
  have c: "count s = length hist" and l: "length (slots s) = cap" using h by (simp_all add: holds_def)
  have "slots (push x s) ! (i mod cap) = (hist @ [x]) ! i" if i: "i < Suc (length hist)" "Suc (length hist) \<le> i + cap" for i
  proof (cases "i = length hist")
    case True
    then show ?thesis using l cap_pos by (simp add: slots_push c)
  next
    case False
    with i have "i < length hist" "length hist \<le> i + cap" "i + cap \<noteq> length hist" by linarith+
    then have "i mod cap \<noteq> length hist mod cap" "slots s ! (i mod cap) = hist ! i"
      using mod_cap_neq h by (blast, simp add: holds_def)
    then show ?thesis using \<open>i < length hist\<close> by (simp add: slots_push c nth_append)
  qed
  then show ?thesis using c l lim by (simp add: holds_def count_push slots_push)
qed

lemma holds_fold:
  "holds s hist \<Longrightarrow> length hist + length xs < limit \<Longrightarrow> holds (fold push xs s) (hist @ xs)"
proof (induction xs arbitrary: s hist)
  case (Cons x xs)
  have "holds (push x s) (hist @ [x])" using Cons.prems by (intro holds_push) simp_all
  then have "holds (fold push xs (push x s)) ((hist @ [x]) @ xs)" using Cons.prems(2) by (intro Cons.IH) simp_all
  then show ?case by simp
qed simp

text \<open>A reader that takes the entries from \<open>seen\<close> on, and no further back than the ring reaches, gets
  exactly that part of the history.\<close>

lemma read_since:
  assumes "holds s hist" "length hist \<le> k + cap"
  shows "map (\<lambda>i. slots s ! (i mod cap)) [k..<count s] = drop k hist"
  using assms by (intro nth_equalityI) (auto simp: holds_def)

end

section \<open>Incremental line readers\<close>

lemma takeWhile_until: "c \<notin> set l \<Longrightarrow> takeWhile (\<lambda>x. x \<noteq> c) (l @ c # r) = l"
  by (induction l) auto

locale line_feed =
  fixes sep :: 'c
    and feed :: "'c list \<Rightarrow> 'c list \<Rightarrow> 'c list list \<times> 'c list"
  assumes feed_rest: "sep \<notin> set buf \<Longrightarrow> sep \<notin> set (snd (feed buf chunk))"
    and feed_lines: "sep \<notin> set buf \<Longrightarrow> l \<in> set (fst (feed buf chunk)) \<Longrightarrow> sep \<notin> set l"
    and feed_all: "concat (map (\<lambda>l. l @ [sep]) (fst (feed buf chunk))) @ snd (feed buf chunk) = buf @ chunk"
begin

fun feed_all_chunks :: "'c list \<Rightarrow> 'c list list \<Rightarrow> 'c list list \<times> 'c list" where
  "feed_all_chunks buf [] = ([], buf)"
| "feed_all_chunks buf (c # cs) =
     (let (ls, b) = feed buf c; (ls', b') = feed_all_chunks b cs in (ls @ ls', b'))"

lemma unique_lines:
  assumes "concat (map (\<lambda>l. l @ [sep]) ls) @ b = concat (map (\<lambda>l. l @ [sep]) ls') @ b'"
    and "\<forall>l \<in> set ls. sep \<notin> set l" "\<forall>l \<in> set ls'. sep \<notin> set l" "sep \<notin> set b" "sep \<notin> set b'"
  shows "ls = ls' \<and> b = b'"
  using assms
proof (induction ls arbitrary: ls')
  case Nil
  then show ?case by (cases ls') auto
next
  case (Cons l ls)
  from Cons.prems obtain l' ks where ls': "ls' = l' # ks" by (cases ls') auto
  let ?r = "concat (map (\<lambda>l. l @ [sep]) ls) @ b" and ?r' = "concat (map (\<lambda>l. l @ [sep]) ks) @ b'"
  have eq: "l @ sep # ?r = l' @ sep # ?r'" using Cons.prems(1) by (simp add: ls')
  have n: "sep \<notin> set l" "sep \<notin> set l'" using Cons.prems(2,3) by (auto simp: ls')
  then have "l = l'" using eq takeWhile_until by metis
  with eq Cons.IH [of ks] Cons.prems show ?case by (simp add: ls')
qed

lemma feed_chunks_lines:
  assumes "sep \<notin> set buf"
  shows "concat (map (\<lambda>l. l @ [sep]) (fst (feed_all_chunks buf cs))) @ snd (feed_all_chunks buf cs) = buf @ concat cs
    \<and> (\<forall>l \<in> set (fst (feed_all_chunks buf cs)). sep \<notin> set l) \<and> sep \<notin> set (snd (feed_all_chunks buf cs))"
  using assms
proof (induction cs arbitrary: buf)
  case (Cons c cs)
  obtain ls b where f: "feed buf c = (ls, b)" by (metis surj_pair)
  obtain ls' b' where g: "feed_all_chunks b cs = (ls', b')" by (metis surj_pair)
  have b: "sep \<notin> set b" "\<forall>l \<in> set ls. sep \<notin> set l" "concat (map (\<lambda>l. l @ [sep]) ls) @ b = buf @ c"
    using feed_rest [OF Cons.prems, of c] feed_lines [OF Cons.prems, of _ c] feed_all [of buf c] by (simp_all add: f)
  have "concat (map (\<lambda>l. l @ [sep]) ls') @ b' = b @ concat cs" "\<forall>l \<in> set ls'. sep \<notin> set l" "sep \<notin> set b'"
    using Cons.IH [OF b(1)] by (simp_all add: g)
  then show ?case using b(2,3) by (auto simp: f g)
qed simp

text \<open>Where the chunks are cut makes no difference: the same lines come out, and the same rest is kept.\<close>

lemma chunking_irrelevant:
  assumes "sep \<notin> set buf" "concat cs = concat cs'"
  shows "feed_all_chunks buf cs = feed_all_chunks buf cs'"
proof -
  have "fst (feed_all_chunks buf cs) = fst (feed_all_chunks buf cs') \<and> snd (feed_all_chunks buf cs) = snd (feed_all_chunks buf cs')"
    by (rule unique_lines) (use feed_chunks_lines [OF assms(1), of cs] feed_chunks_lines [OF assms(1), of cs'] assms(2) in auto)
  then show ?thesis by (simp add: prod_eq_iff)
qed

text \<open>In particular whole lines sent in any pieces come out as sent.\<close>

lemma whole_lines:
  assumes "\<forall>l \<in> set ls. sep \<notin> set l" "concat cs = concat (map (\<lambda>l. l @ [sep]) ls)"
  shows "feed_all_chunks [] cs = (ls, [])"
proof -
  have "fst (feed_all_chunks [] cs) = ls \<and> snd (feed_all_chunks [] cs) = []"
    by (rule unique_lines) (use feed_chunks_lines [of "[]" cs] assms in auto)
  then show ?thesis by (simp add: prod_eq_iff)
qed

end

end
