(* ===== verification/Buttons.thy ===== *)
theory Buttons
  imports Ring_Log
begin

text \<open>The visitor's buttons: \<^verbatim>\<open>src/zephyr_entry/src/island_buttons.c\<close>, which debounces two pins at the
  handler's tick and logs every press in \<open>island_button_record\<close>, and \<^verbatim>\<open>tools/board/board_buttons.py\<close>,
  which reads the record over SWD, injects presses and bridges them to the act.

  The record keeps the C widths (\<open>u32\<close>); the reader's values are Python integers. A reading is taken
  between two ticks. Bytes on the bridge's standard input are read as ASCII.\<close>


section \<open>The firmware side\<close>

record btn =
  b_magic :: u32
  b_ticks :: u32
  b_level :: u32
  b_debounced :: u32
  b_presses :: u32
  b_accepted :: "u32 list"
  b_ignored :: "u32 list"
  b_inject :: "u32 list"
  b_gpio_errors :: u32
  b_ring :: "(u32 \<times> u32) list"
  b_last_sample :: u32   \<comment> \<open>the static beside the record\<close>

text \<open>What one tick reads: each button's port bit (\<open>None\<close> when the driver's read fails), its polarity, the
  handler's arguments and the uptime at a press.\<close>

record btn_in =
  in_raw :: "nat \<Rightarrow> bool option"
  in_active_low :: "nat \<Rightarrow> bool"
  in_run :: u32
  in_state :: u32
  in_behavior :: u32
  in_takeover :: u32
  in_uptime :: "nat \<Rightarrow> u32"

definition BTN_MAGIC :: u32 where "BTN_MAGIC = 0x534e5442"

definition BTN_RING :: nat where "BTN_RING = 8"

abbreviation BIT :: "nat \<Rightarrow> u32" where "BIT n \<equiv> 2 ^ n"

definition pin_read :: "btn_in \<Rightarrow> nat \<Rightarrow> btn \<Rightarrow> bool \<times> btn" where
  "pin_read i b s =
     (case in_raw i b of
        None \<Rightarrow> (False, s\<lparr>b_gpio_errors := b_gpio_errors s + 1\<rparr>)
      | Some high \<Rightarrow> (if in_active_low i b then \<not> high else high, s))"

definition sample_one :: "btn_in \<Rightarrow> nat \<Rightarrow> u32 \<times> u32 \<times> btn \<Rightarrow> u32 \<times> u32 \<times> btn" where
  "sample_one i b acc =
     (let (level, sample, s) = acc;
          inj = b_inject s ! b;
          (pin, s1) = pin_read i b s;
          s2 = (if inj \<noteq> 0 then s1\<lparr>b_inject := (b_inject s1)[b := inj - 1]\<rparr> else s1);
          level1 = (if inj \<noteq> 0 then level OR BIT (16 + b) else level);
          level2 = (if pin then level1 OR BIT (8 + b) else level1)
      in (level2, if pin \<or> inj \<noteq> 0 then sample OR BIT b else sample, s2))"

definition why_of :: "btn_in \<Rightarrow> nat \<Rightarrow> u32" where
  "why_of i b =
     (if in_run i = 0 then 1
      else if b = 0 then (if in_takeover i \<noteq> 0 then 0 else 2)
      else (if in_state i = 1 then 0 else 3))"

definition press_code :: "btn_in \<Rightarrow> nat \<Rightarrow> u32" where
  "press_code i b =
     push_bit 24 (of_nat b + 1) OR push_bit 16 (why_of i b) OR push_bit 8 (in_state i AND 0xff) OR (in_behavior i AND 0xff)"

definition push_press :: "u32 \<times> u32 \<Rightarrow> btn \<Rightarrow> btn" where
  "push_press e s =
     s\<lparr>b_ring := (b_ring s)[unat (b_presses s) mod BTN_RING := e], b_presses := b_presses s + 1\<rparr>"

definition count_press :: "btn_in \<Rightarrow> nat \<Rightarrow> btn \<Rightarrow> btn" where
  "count_press i b s =
     (if why_of i b = 0 then s\<lparr>b_accepted := (b_accepted s)[b := b_accepted s ! b + 1]\<rparr>
      else s\<lparr>b_ignored := (b_ignored s)[b := b_ignored s ! b + 1]\<rparr>)"

definition press_one :: "btn_in \<Rightarrow> u32 \<Rightarrow> u32 \<Rightarrow> nat \<Rightarrow> btn \<Rightarrow> btn" where
  "press_one i prev now b s =
     (if now AND NOT prev AND BIT b = 0 then s
      else push_press (in_uptime i b, press_code i b) (count_press i b s))"

definition island_buttons_update :: "btn_in \<Rightarrow> btn \<Rightarrow> btn" where
  "island_buttons_update i s =
     (if b_magic s \<noteq> BTN_MAGIC then s
      else
        (let (level, sample, s1) = fold (sample_one i) [0, 1] (0, 0, s);
             s2 = s1\<lparr>b_ticks := b_ticks s1 + 1, b_level := level OR sample\<rparr>;
             stable = NOT (sample XOR b_last_sample s2) AND 3;
             prev = b_debounced s2;
             now = (prev AND NOT stable) OR (sample AND stable);
             s3 = s2\<lparr>b_last_sample := sample, b_debounced := now\<rparr>
         in fold (press_one i prev now) [0, 1] s3))"

text \<open>\<open>island_buttons_init\<close> on a zeroed record; \<open>bad\<close> says which pins could not be configured.\<close>

definition btn_zero :: btn where
  "btn_zero = \<lparr>b_magic = 0, b_ticks = 0, b_level = 0, b_debounced = 0, b_presses = 0, b_accepted = [0, 0],
     b_ignored = [0, 0], b_inject = [0, 0], b_gpio_errors = 0, b_ring = replicate BTN_RING (0, 0), b_last_sample = 0\<rparr>"

definition island_buttons_init :: "(nat \<Rightarrow> bool) \<Rightarrow> btn \<Rightarrow> btn" where
  "island_buttons_init bad s =
     fold (\<lambda>b s. if bad b then s\<lparr>b_gpio_errors := b_gpio_errors s + 1\<rparr> else s) [0, 1] s \<lparr>b_magic := BTN_MAGIC\<rparr>"

definition btn_bytes :: "btn \<Rightarrow> bytes" where
  "btn_bytes s =
     image ([b_magic s, b_ticks s, b_level s, b_debounced s, b_presses s] @ b_accepted s @ b_ignored s
            @ b_inject s @ [b_gpio_errors s]) (b_ring s)"

section \<open>The reader\<close>

definition HDR :: "string list" where
  "HDR = [''magic'', ''ticks'', ''level'', ''debounced'', ''presses'', ''acc1'', ''acc2'', ''ign1'', ''ign2'', ''inj1'', ''inj2'',
          ''gpio_errors'']"

definition OFF_INJECT :: int where "OFF_INJECT = 4 * 9"

definition OFF_RING :: nat where "OFF_RING = 4 * length HDR"

definition RING :: nat where "RING = 8"

record btn_view =
  v_hdr :: "(string \<times> int) list"
  v_ring :: "(int \<times> int) list"

definition read_record :: "bytes \<Rightarrow> btn_view res" where
  "read_record blob =
     rbind (unpack_u32s (length HDR) blob 0) (\<lambda>ws.
     rbind (rmap (\<lambda>i. unpack_pair blob (OFF_RING + 8 * i)) [0..<RING]) (\<lambda>ring.
       Inr \<lparr>v_hdr = zip HDR ws, v_ring = ring\<rparr>))"

definition hdr_get :: "btn_view \<Rightarrow> string \<Rightarrow> int" where
  "hdr_get v k = the (map_of (v_hdr v) k)"

definition NAMES :: "(int \<times> string) list" where "NAMES = [(1, ''SW1''), (2, ''SW2'')]"

definition WHY :: "(int \<times> string) list" where
  "WHY = [(0, ''accepted''), (1, ''ignored (handler in INIT)''), (2, ''ignored (no takeover request)''), (3, ''ignored (not NORMAL)'')]"

definition BTN_STATE :: "(int \<times> string) list" where
  "BTN_STATE = [(0, ''-''), (1, ''NORMAL''), (2, ''MRM_OPERATING''), (3, ''MRM_SUCCEEDED''), (4, ''MRM_FAILED'')]"

definition BTN_BEHAVIOR :: "(int \<times> string) list" where
  "BTN_BEHAVIOR = [(0, ''-''), (1, ''NONE''), (2, ''EMERGENCY_STOP''), (3, ''COMFORTABLE_STOP''), (4, ''PULL_OVER'')]"

definition press_text :: "int \<Rightarrow> int \<Rightarrow> string" where
  "press_text up code =
     (let b = code div 2 ^ 24; why = code div 2 ^ 16 mod 16; st = code div 2 ^ 8 mod 256; beh = code mod 256
      in name_of NAMES b (dec_int b) @ '' '' @ name_of WHY why (dec_int why) @ '' uptime_ms='' @ dec_int up
         @ '' state='' @ name_of BTN_STATE st (dec_int st) @ ''/'' @ name_of BTN_BEHAVIOR beh (dec_int beh))"

definition new_presses :: "btn_view \<Rightarrow> int \<Rightarrow> (int \<times> int \<times> int) list" where
  "new_presses v seen =
     (let n = hdr_get v ''presses''
      in map (\<lambda>i. (i + 1, v_ring v ! nat (i mod int RING))) [max seen (n - int RING)..n - 1])"

definition summary :: "btn_view \<Rightarrow> string" where
  "summary v =
     (let g = (\<lambda>k. dec_int (hdr_get v k))
      in ''presses '' @ g ''presses'' @ '', SW1 accepted '' @ g ''acc1'' @ '' ignored '' @ g ''ign1''
         @ '', SW2 accepted '' @ g ''acc2'' @ '' ignored '' @ g ''ign2'' @ '', ticks '' @ g ''ticks''
         @ '', gpio_errors '' @ g ''gpio_errors'')"

text \<open>The pads, read straight from the peripheral's input registers.\<close>

definition PGPDI :: "(string \<times> int \<times> nat) list" where
  "PGPDI = [(''SW1'', (0x4029174E, 15)), (''SW2'', (0x40291740, 9))]"

definition read_pins :: "(int \<Rightarrow> int) \<Rightarrow> (string \<times> int) list" where
  "read_pins read16 =
     map (\<lambda>(n, reg, pin). (n, if read16 reg div 2 ^ (15 - pin) mod 2 = 1 then 1 else 0)) PGPDI"

definition show_lines :: "btn_view \<Rightarrow> (string \<times> int) list option \<Rightarrow> string list" where
  "show_lines v pins =
     (let lv = hdr_get v ''level''; db = hdr_get v ''debounced''; bit_at = (\<lambda>x k. dec_int (x div 2 ^ k mod 2));
          m = hdr_get v ''magic''
      in [''record: magic='' @ (if m = 0x534E5442 then ''ok'' else ''0x'' @ hex_nat (nat m)) @ '' '' @ summary v,
          ''  last tick: SW1 pin '' @ bit_at lv 8 @ '' inject '' @ bit_at lv 16 @ '' -> down '' @ bit_at db 0
          @ ''; SW2 pin '' @ bit_at lv 9 @ '' inject '' @ bit_at lv 17 @ '' -> down '' @ bit_at db 1
          @ (case pins of None \<Rightarrow> []
             | Some p \<Rightarrow> ''; pads now SW1 '' @ dec_int (the (map_of p ''SW1'')) @ '' SW2 '' @ dec_int (the (map_of p ''SW2'')))]
         @ map (\<lambda>(n, up, code). ''  #'' @ ljust 3 (dec_int n) @ '' '' @ rjust 9 (ms3 up) @ '' s  '' @ press_text up code)
             (new_presses v 0))"

text \<open>One turn of \<open>watch\<close>: the pads' edges, the debounced edges and the new presses since the turn before, each
  line opened by the wall clock's text.\<close>

definition watch_lines :: "string \<Rightarrow> (string \<times> int) list \<Rightarrow> (string \<times> int) list \<Rightarrow> btn_view \<Rightarrow> int \<Rightarrow> int \<Rightarrow> string list" where
  "watch_lines ts pins last_pins v last_db seen =
     (let db = hdr_get v ''debounced''; bit_at = (\<lambda>x b. x div 2 ^ b mod 2 :: int); p = (\<lambda>m n. the (map_of m n) :: int)
      in concat (map (\<lambda>n. if p pins n \<noteq> p last_pins n
                           then [ts @ '' pad '' @ n @ '' '' @ (if p pins n \<noteq> 0 then ''DOWN'' else ''up'')] else []) [''SW1'', ''SW2''])
         @ concat (map (\<lambda>(b, n). if bit_at db b \<noteq> bit_at last_db b
                           then [ts @ '' island '' @ n @ '' '' @ (if bit_at db b \<noteq> 0 then ''down'' else ''released'')
                                 @ '' (debounced, tick '' @ dec_int (hdr_get v ''ticks'') @ '')''] else [])
                      [(0, ''SW1''), (1, ''SW2'')])
         @ map (\<lambda>(n, up, code). ts @ '' island press '' @ press_text up code @ '' n='' @ dec_int n) (new_presses v seen))"

section \<open>The bridge\<close>

text \<open>What the bridge does, in order: a printed line (that of a press by its number, uptime and code), or a
  write into the target's memory. It ends with an exit code, or with the exception a bad tick count
  raises.\<close>

datatype bridge_out = Say string | Press int int int | Write32 int int

fun out_line :: "bridge_out \<Rightarrow> string option" where
  "out_line (Say s) = Some s"
| "out_line (Press n up code) = Some (''buttons: press '' @ press_text up code @ '' n='' @ dec_int n)"
| "out_line (Write32 a v) = None"

datatype bridge_status = Running bytes | Exited int | Raised py_error

definition inject_at :: "int \<Rightarrow> string \<Rightarrow> int \<Rightarrow> bridge_out" where
  "inject_at addr button ticks =
     Write32 (addr + OFF_INJECT + 4 * (if lower button = ''sw1'' then 0 else 1)) ticks"

definition bridge_cmd :: "int \<Rightarrow> string list \<Rightarrow> bridge_out list res" where
  "bridge_cmd addr w =
     (if 2 \<le> length w \<and> w ! 0 = ''inject'' \<and> lower (w ! 1) \<in> {''sw1'', ''sw2''}
      then rbind (if 2 < length w then (case py_int (w ! 2) of Some n \<Rightarrow> Inr n | None \<Rightarrow> Inl ValueError) else Inr 3)
             (\<lambda>ticks. Inr [inject_at addr (w ! 1) ticks,
                           Say (''buttons: injected '' @ upper (w ! 1) @ '' '' @ dec_int ticks @ '' ticks'')])
      else Inr [])"

text \<open>\<open>while b"\n" in buf\<close>.\<close>

function bridge_lines :: "int \<Rightarrow> bytes \<Rightarrow> bridge_out list \<times> bridge_status" where
  "bridge_lines addr buf =
     (case split_once 10 buf of
        None \<Rightarrow> ([], Running buf)
      | Some (line, rest) \<Rightarrow>
          (let w = py_words (ascii_decode line)
           in if w = [''quit''] then ([Say ''buttons: bridge done''], Exited 0)
              else (case bridge_cmd addr w of
                      Inl e \<Rightarrow> ([], Raised e)
                    | Inr outs \<Rightarrow> (let (outs', st) = bridge_lines addr rest in (outs @ outs', st)))))"
  by pat_completeness auto

lemma split_once_shorter: "split_once c s = Some (l, r) \<Longrightarrow> length r < length s"
proof -
  assume "split_once c s = Some (l, r)"
  then have r: "r = drop 1 (dropWhile (\<lambda>x. x \<noteq> c) s)" and "c \<in> set s"
    by (auto simp: split_once_def split: if_splits)
  then have "dropWhile (\<lambda>x. x \<noteq> c) s \<noteq> []" by (auto simp: dropWhile_eq_Nil_conv)
  then show ?thesis using length_dropWhile_le [of "\<lambda>x. x \<noteq> c" s] by (cases "dropWhile (\<lambda>x. x \<noteq> c) s") (auto simp: r)
qed

termination bridge_lines
  by (relation "measure (length \<circ> snd)") (auto dest: split_once_shorter)

declare bridge_lines.simps [simp del]

text \<open>One turn: the chunk \<open>select\<close> and \<open>read\<close> gave (\<open>None\<close> on a timeout, empty at the end of the input),
  then the record as the target shows it.\<close>

definition press_lines :: "btn_view \<Rightarrow> int \<Rightarrow> bridge_out list" where
  "press_lines v seen =
     map (\<lambda>(n, up, code). Press n up code) (new_presses v seen)"

definition bridge_turn :: "int \<Rightarrow> bytes \<times> int \<Rightarrow> bytes option \<times> btn_view \<Rightarrow> bridge_out list \<times> bridge_status \<times> int" where
  "bridge_turn addr st inp =
     (let (buf, seen) = st; (chunk, v) = inp
      in if chunk = Some [] then ([Say ''buttons: bridge done (EOF)''], Exited 0, seen)
         else (case bridge_lines addr (buf @ (case chunk of Some c \<Rightarrow> c | None \<Rightarrow> [])) of
                 (outs, Running b) \<Rightarrow> (outs @ press_lines v seen, Running b, hdr_get v ''presses'')
               | (outs, s) \<Rightarrow> (outs, s, seen)))"

fun bridge_loop :: "int \<Rightarrow> bytes \<times> int \<Rightarrow> (bytes option \<times> btn_view) list \<Rightarrow> bridge_out list \<times> bridge_status \<times> int" where
  "bridge_loop addr st [] = ([], Running (fst st), snd st)"
| "bridge_loop addr st (inp # inps) =
     (case bridge_turn addr st inp of
        (outs, Running b, seen) \<Rightarrow> (let (outs', r) = bridge_loop addr (b, seen) inps in (outs @ outs', r))
      | r \<Rightarrow> r)"

definition bridge :: "int \<Rightarrow> btn_view \<Rightarrow> (bytes option \<times> btn_view) list \<Rightarrow> bridge_out list \<times> bridge_status" where
  "bridge addr v0 inps =
     (let m = hdr_get v0 ''magic''
      in if m \<noteq> 0x534E5442
         then ([Say (''buttons: BRIDGE FAILED record magic 0x'' @ hex_nat (nat m) @ '' (built without CONFIG_ISLAND_BUTTONS?)'')], Exited 1)
         else (let (outs, st, _) = bridge_loop addr ([], hdr_get v0 ''presses'') inps
               in (Say (''buttons: bridge ready ('' @ summary v0 @ '')'') # outs, st)))"

section \<open>What a tick does\<close>

interpretation btn_ring: ring_log BTN_RING "2 ^ 32" "\<lambda>s. unat (b_presses s)" b_ring push_press
  by unfold_locales (simp_all add: push_press_def BTN_RING_def unat_step)

text \<open>The pin's level, what a tick samples, and the entries it logs: a button is logged when it reads
  pressed for the second tick running and was not down.\<close>

definition pin_of :: "btn_in \<Rightarrow> nat \<Rightarrow> bool" where
  "pin_of i b = (case in_raw i b of None \<Rightarrow> False | Some high \<Rightarrow> high \<noteq> in_active_low i b)"

definition sampled :: "btn_in \<Rightarrow> btn \<Rightarrow> nat \<Rightarrow> bool" where
  "sampled i s b = (pin_of i b \<or> b_inject s ! b \<noteq> 0)"

definition entry :: "btn_in \<Rightarrow> nat \<Rightarrow> u32 \<times> u32" where
  "entry i b = (in_uptime i b, press_code i b)"

definition rises :: "btn_in \<Rightarrow> btn \<Rightarrow> nat \<Rightarrow> bool" where
  "rises i s b = (sampled i s b \<and> bit (b_last_sample s) b \<and> \<not> bit (b_debounced s) b)"

definition tick_log :: "btn_in \<Rightarrow> btn \<Rightarrow> (u32 \<times> u32) list" where
  "tick_log i s = map (entry i) (filter (rises i s) [0, 1])"

definition btn_wf :: "btn \<Rightarrow> bool" where
  "btn_wf s \<longleftrightarrow> b_magic s = BTN_MAGIC \<and> length (b_accepted s) = 2 \<and> length (b_ignored s) = 2 \<and> length (b_inject s) = 2
     \<and> length (b_ring s) = BTN_RING"

lemma pin_read_fst: "fst (pin_read i b s) = pin_of i b"
  by (auto simp: pin_read_def pin_of_def split: option.split)

lemma pin_read_snd: "\<exists>e. snd (pin_read i b s) = s\<lparr>b_gpio_errors := e\<rparr>"
  by (cases "in_raw i b") (auto simp: pin_read_def intro: exI [of _ "b_gpio_errors s"])

lemma sample_one_eq:
  "\<exists>e l. sample_one i b (level, sample, s)
     = (l, if sampled i s b then sample OR BIT b else sample,
        s\<lparr>b_gpio_errors := e, b_inject := (b_inject s)[b := (if b_inject s ! b = 0 then 0 else b_inject s ! b - 1)]\<rparr>)"
proof -
  obtain e where e: "snd (pin_read i b s) = s\<lparr>b_gpio_errors := e\<rparr>" using pin_read_snd by blast
  have p: "pin_read i b s = (pin_of i b, s\<lparr>b_gpio_errors := e\<rparr>)" by (simp add: prod_eq_iff pin_read_fst e)
  have "b_inject s ! b = 0 \<Longrightarrow> (b_inject s)[b := 0] = b_inject s" by (metis list_update_id)
  then show ?thesis by - (rule exI [of _ e], auto simp: sample_one_def p sampled_def Let_def)
qed

definition tick_inject :: "btn \<Rightarrow> u32 list" where
  "tick_inject s = map (\<lambda>n. if n = 0 then 0 else n - 1) (b_inject s)"

lemma bit_sample:
  "bit ((if p1 then (if p0 then 1 else 0) OR BIT 1 else (if p0 then 1 else 0)) :: u32) 0 = p0"
  "bit ((if p1 then (if p0 then 1 else 0) OR BIT 1 else (if p0 then 1 else 0)) :: u32) 1 = p1"
  by (auto simp: bit_simps)

lemma samples:
  assumes "length (b_inject s) = 2"
  obtains level sample e where
    "fold (sample_one i) [0, 1] (0, 0, s) = (level, sample, s\<lparr>b_gpio_errors := e, b_inject := tick_inject s\<rparr>)"
    and "bit sample 0 = sampled i s 0" "bit sample (Suc 0) = sampled i s 1"
proof -
  obtain x y where xy: "b_inject s = [x, y]" using assms by (auto simp: numeral_2_eq_2 length_Suc_conv)
  obtain e l where 0: "sample_one i 0 (0, 0, s) = (l, if sampled i s 0 then 0 OR BIT 0 else 0,
      s\<lparr>b_gpio_errors := e, b_inject := (b_inject s)[0 := (if b_inject s ! 0 = 0 then 0 else b_inject s ! 0 - 1)]\<rparr>)"
    (is "_ = (l, ?p, ?s)")
    using sample_one_eq [of i 0 0 0 s] by blast
  obtain e' l' where 1: "sample_one i 1 (l, ?p, ?s) = (l', if sampled i ?s 1 then ?p OR BIT 1 else ?p,
      ?s\<lparr>b_gpio_errors := e', b_inject := (b_inject ?s)[1 := (if b_inject ?s ! 1 = 0 then 0 else b_inject ?s ! 1 - 1)]\<rparr>)"
    using sample_one_eq [of i 1 l ?p ?s] by blast
  have s1: "sampled i ?s 1 = sampled i s 1" by (simp add: sampled_def xy)
  have st: "?s\<lparr>b_gpio_errors := e', b_inject := (b_inject ?s)[1 := (if b_inject ?s ! 1 = 0 then 0 else b_inject ?s ! 1 - 1)]\<rparr>
    = s\<lparr>b_gpio_errors := e', b_inject := tick_inject s\<rparr>"
    by (simp add: tick_inject_def xy)
  have "fold (sample_one i) [0, 1] (0, 0, s)
      = (l', if sampled i s 1 then ?p OR BIT 1 else ?p, s\<lparr>b_gpio_errors := e', b_inject := tick_inject s\<rparr>)"
    using 0 1 unfolding st s1 by simp
  then show thesis by (rule that) (auto simp: bit_simps)
qed

lemma rise_bit:
  fixes prev now sample last_s :: u32
  assumes "b < 2" "stb = NOT (sample XOR last_s) AND 3" "now = (prev AND NOT stb) OR (sample AND stb)"
  shows "bit now b = (if bit sample b = bit last_s b then bit sample b else bit prev b)"
    and "now AND NOT prev AND BIT b = 0 \<longleftrightarrow> \<not> (bit sample b \<and> bit last_s b \<and> \<not> bit prev b)"
proof -
  have "bit (3 :: u32) b" using assms(1) by (auto simp: less_2_cases_iff)
  moreover have "b < 32" using assms(1) by simp
  ultimately show n: "bit now b = (if bit sample b = bit last_s b then bit sample b else bit prev b)"
    unfolding assms(2,3) by (auto simp: bit_simps)
  have "now AND NOT prev AND BIT b = 0 \<longleftrightarrow> \<not> bit (now AND NOT prev) b"
    by (metis and.assoc and_exp_eq_0_iff_not_bit)
  then show "now AND NOT prev AND BIT b = 0 \<longleftrightarrow> \<not> (bit sample b \<and> bit last_s b \<and> \<not> bit prev b)"
    using n \<open>b < 32\<close> by (auto simp: bit_simps)
qed

lemma count_press_push [simp]:
  "b_presses (count_press i b s) = b_presses s" "b_ring (count_press i b s) = b_ring s"
  "b_inject (count_press i b s) = b_inject s" "b_debounced (count_press i b s) = b_debounced s"
  "b_last_sample (count_press i b s) = b_last_sample s" "b_magic (count_press i b s) = b_magic s"
  "length (b_accepted (count_press i b s)) = length (b_accepted s)"
  "length (b_ignored (count_press i b s)) = length (b_ignored s)"
  by (simp_all add: count_press_def)

lemma push_press_sel [simp]:
  "b_inject (push_press e s) = b_inject s" "b_debounced (push_press e s) = b_debounced s"
  "b_last_sample (push_press e s) = b_last_sample s" "b_magic (push_press e s) = b_magic s"
  "b_accepted (push_press e s) = b_accepted s" "b_ignored (push_press e s) = b_ignored s"
  by (simp_all add: push_press_def)

text \<open>The log part of the record: what the ring interface reads.\<close>

definition log_part :: "btn \<Rightarrow> u32 \<times> (u32 \<times> u32) list" where
  "log_part s = (b_presses s, b_ring s)"

lemma push_log_cong: "log_part s = log_part t \<Longrightarrow> log_part (push_press e s) = log_part (push_press e t)"
  by (simp add: log_part_def push_press_def)

definition tally :: "btn \<Rightarrow> u32" where
  "tally s = b_accepted s ! 0 + b_accepted s ! 1 + b_ignored s ! 0 + b_ignored s ! 1"

lemma count_press_tally:
  "length (b_accepted s) = 2 \<Longrightarrow> length (b_ignored s) = 2 \<Longrightarrow> b < 2 \<Longrightarrow> tally (count_press i b s) = tally s + 1"
  by (auto simp: tally_def count_press_def less_2_cases_iff)

lemma press_one_eq:
  assumes "b < 2" "btn_wf s" "now AND NOT prev AND BIT b = 0 \<longleftrightarrow> \<not> r"
  shows "log_part (press_one i prev now b s) = log_part (if r then push_press (entry i b) s else s)"
    and "b_inject (press_one i prev now b s) = b_inject s" "b_debounced (press_one i prev now b s) = b_debounced s"
    and "b_last_sample (press_one i prev now b s) = b_last_sample s"
    and "btn_wf (press_one i prev now b s)" "tally (press_one i prev now b s) = tally s + (if r then 1 else 0)"
proof -
  have t: "tally (push_press e u) = tally u" for e u by (simp add: tally_def)
  show "log_part (press_one i prev now b s) = log_part (if r then push_press (entry i b) s else s)"
    "b_inject (press_one i prev now b s) = b_inject s" "b_debounced (press_one i prev now b s) = b_debounced s"
    "b_last_sample (press_one i prev now b s) = b_last_sample s"
    using assms(3) by (simp_all add: press_one_def entry_def log_part_def push_press_def)
  show "btn_wf (press_one i prev now b s)" using assms(2) by (simp add: press_one_def btn_wf_def push_press_def)
  show "tally (press_one i prev now b s) = tally s + (if r then 1 else 0)"
    using assms by (simp add: press_one_def t count_press_tally btn_wf_def)
qed

lemma update_spec:
  assumes wf: "btn_wf s" and t_def: "t = island_buttons_update i s"
  shows "btn_wf t" "b_inject t = tick_inject s"
    and "log_part t = log_part (fold push_press (tick_log i s) s)"
    and "tally t = tally s + of_nat (length (tick_log i s))"
    and "\<And>b. b < 2 \<Longrightarrow> bit (b_last_sample t) b = sampled i s b"
    and "\<And>b. b < 2 \<Longrightarrow> bit (b_debounced t) b
           = (if sampled i s b = bit (b_last_sample s) b then sampled i s b else bit (b_debounced s) b)"
proof -
  have "length (b_inject s) = 2" using wf by (simp add: btn_wf_def)
  then obtain level sample e where
    f: "fold (sample_one i) [0, 1] (0, 0, s) = (level, sample, s\<lparr>b_gpio_errors := e, b_inject := tick_inject s\<rparr>)"
    and sb: "bit sample 0 = sampled i s 0" "bit sample (Suc 0) = sampled i s 1"
    by (rule samples)
  have bits: "bit sample b = sampled i s b" if "b < 2" for b using that sb by (auto simp: less_2_cases_iff)
  define stb where "stb = NOT (sample XOR b_last_sample s) AND 3"
  define now where "now = (b_debounced s AND NOT stb) OR (sample AND stb)"
  define s3 where "s3 = s\<lparr>b_gpio_errors := e, b_inject := tick_inject s, b_ticks := b_ticks s + 1,
      b_level := level OR sample, b_last_sample := sample, b_debounced := now\<rparr>"
  note rb = rise_bit [OF _ stb_def now_def]
  have r: "now AND NOT (b_debounced s) AND BIT b = 0 \<longleftrightarrow> \<not> rises i s b" if "b < 2" for b
    using rb(2) [OF that] bits [OF that] by (simp add: rises_def)
  have t: "t = press_one i (b_debounced s) now 1 (press_one i (b_debounced s) now 0 s3)"
    using wf unfolding t_def island_buttons_update_def f by (simp add: btn_wf_def Let_def s3_def now_def stb_def)
  have w3: "btn_wf s3" using wf by (simp add: btn_wf_def s3_def tick_inject_def)
  have l3: "log_part s3 = log_part s" "tally s3 = tally s" by (simp_all add: s3_def log_part_def tally_def)
  note p0 = press_one_eq [OF _ w3 r [of 0], of i, simplified]
  let ?s4 = "press_one i (b_debounced s) now 0 s3"
  have w4: "btn_wf ?s4" by (rule p0(5))
  note p1 = press_one_eq [OF _ w4 r [of 1], of i, simplified]
  show "btn_wf t" unfolding t using p1(5) by simp
  show "b_inject t = tick_inject s" unfolding t using p1(2) p0(2) by (simp add: s3_def)
  have l4: "log_part ?s4 = log_part (if rises i s 0 then push_press (entry i 0) s else s)"
    using p0(1) push_log_cong [OF l3(1)] l3(1) by simp
  have "log_part t = log_part (if rises i s 1 then push_press (entry i 1) ?s4 else ?s4)"
    unfolding t using p1(1) by simp
  also have "\<dots> = log_part (fold push_press (tick_log i s) s)"
    using push_log_cong [OF l4] l4 by (simp add: tick_log_def)
  finally show "log_part t = log_part (fold push_press (tick_log i s) s)" .
  show "tally t = tally s + of_nat (length (tick_log i s))"
    unfolding t using p1(6) p0(6) l3(2) by (simp add: tick_log_def)
  have d: "b_debounced t = now" "b_last_sample t = sample"
    unfolding t using p1(3,4) p0(3,4) by (simp_all add: s3_def)
  show "bit (b_last_sample t) b = sampled i s b" if "b < 2" for b using bits [OF that] d by simp
  show "bit (b_debounced t) b = (if sampled i s b = bit (b_last_sample s) b then sampled i s b else bit (b_debounced s) b)"
    if "b < 2" for b using rb(1) [OF that] bits [OF that] d by simp
qed

section \<open>The record and its history\<close>

text \<open>The states a board can be in, each with the presses logged since boot: the start, a tick, and a
  debugger's write of an inject word between two ticks.\<close>

inductive btn_reach :: "btn \<Rightarrow> (u32 \<times> u32) list \<Rightarrow> bool" where
  boot: "btn_reach (island_buttons_init bad btn_zero) []"
| tick: "btn_reach s h \<Longrightarrow> btn_reach (island_buttons_update i s) (h @ tick_log i s)"
| inject: "btn_reach s h \<Longrightarrow> b < 2 \<Longrightarrow> btn_reach (s\<lparr>b_inject := (b_inject s)[b := n]\<rparr>) h"

lemma holds_log_cong: "log_part s = log_part t \<Longrightarrow> btn_ring.holds s h = btn_ring.holds t h"
  by (simp add: btn_ring.holds_def log_part_def)

lemma btn_holds_iff:
  "btn_ring.holds s h \<longleftrightarrow> unat (b_presses s) = length h \<and> length (b_ring s) = 8
     \<and> (\<forall>i < length h. length h \<le> i + 8 \<longrightarrow> b_ring s ! (i mod 8) = h ! i)"
  unfolding btn_ring.holds_def unfolding BTN_RING_def by simp

lemma btn_boot:
  "btn_wf (island_buttons_init bad btn_zero)" "log_part (island_buttons_init bad btn_zero) = log_part btn_zero"
  "tally (island_buttons_init bad btn_zero) = 0"
  by (simp_all add: island_buttons_init_def btn_zero_def btn_wf_def log_part_def tally_def)

lemma btn_reach_inv:
  assumes "btn_reach s h"
  shows "btn_wf s \<and> tally s = of_nat (length h) \<and> (length h < 2 ^ 32 \<longrightarrow> btn_ring.holds s h)"
  using assms
proof (induction rule: btn_reach.induct)
  case (boot bad)
  have "btn_ring.holds btn_zero []" by (simp add: btn_ring.holds_def btn_zero_def)
  then have "btn_ring.holds (island_buttons_init bad btn_zero) []" using holds_log_cong [OF btn_boot(2)] by blast
  with btn_boot(1,3) [of bad] show ?case by simp
next
  case (tick s h i)
  then have wf: "btn_wf s" and tl: "tally s = of_nat (length h)" by simp_all
  note u = update_spec [OF wf refl, where i = i]
  have "btn_ring.holds (island_buttons_update i s) (h @ tick_log i s)" if l: "length (h @ tick_log i s) < 2 ^ 32"
  proof -
    have "btn_ring.holds (fold push_press (tick_log i s) s) (h @ tick_log i s)"
      using tick.IH l by (intro btn_ring.holds_fold) simp_all
    then show ?thesis using holds_log_cong [OF u(3)] by blast
  qed
  with u(1,4) tl show ?case by simp
next
  case (inject s h b n)
  have "log_part (s\<lparr>b_inject := (b_inject s)[b := n]\<rparr>) = log_part s" by (simp add: log_part_def)
  from holds_log_cong [OF this] inject.IH show ?case by (simp add: btn_wf_def tally_def)
qed

lemma read_record_image:
  assumes "btn_wf s"
  shows "\<exists>v. read_record (btn_bytes s) = Inr v \<and> v_ring v = map uints (b_ring s)
    \<and> hdr_get v ''magic'' = uint (b_magic s) \<and> hdr_get v ''presses'' = uint (b_presses s)
    \<and> hdr_get v ''level'' = uint (b_level s) \<and> hdr_get v ''debounced'' = uint (b_debounced s)"
proof -
  let ?hs = "[b_magic s, b_ticks s, b_level s, b_debounced s, b_presses s] @ b_accepted s @ b_ignored s
            @ b_inject s @ [b_gpio_errors s]"
  have l: "length HDR = length ?hs" "length (b_ring s) = RING" "OFF_RING = 4 * length ?hs"
    using assms by (simp_all add: HDR_def btn_wf_def BTN_RING_def RING_def OFF_RING_def)
  define v where "v = \<lparr>v_hdr = zip HDR (map uint ?hs), v_ring = map uints (b_ring s)\<rparr>"
  have r: "read_record (btn_bytes s) = Inr v"
    unfolding v_def read_record_def btn_bytes_def l(1,3) unpack_head by (simp only: rbind_simps unpack_slots [OF l(2)])
  have g: "hdr_get v k = the (map_of (zip HDR (map uint ?hs)) k)" for k by (simp add: v_def hdr_get_def)
  have "hdr_get v ''magic'' = uint (b_magic s)" "hdr_get v ''presses'' = uint (b_presses s)"
    "hdr_get v ''level'' = uint (b_level s)" "hdr_get v ''debounced'' = uint (b_debounced s)"
    unfolding g HDR_def by simp_all
  moreover have "v_ring v = map uints (b_ring s)" by (simp add: v_def)
  ultimately show ?thesis using r by blast
qed

lemma read_new_presses:
  assumes h: "btn_ring.holds s h" and wf: "btn_wf s" and v: "read_record (btn_bytes s) = Inr v" and seen: "0 \<le> seen"
  shows "new_presses v seen = map (\<lambda>k. (int k + 1, uints (h ! k))) [max (nat seen) (length h - 8)..<length h]"
proof -
  let ?m = "max (nat seen) (length h - 8)"
  have n: "hdr_get v ''presses'' = int (length h)" "v_ring v = map uints (b_ring s)"
  proof -
    from read_record_image [OF wf] v have "v_ring v = map uints (b_ring s)" "hdr_get v ''presses'' = uint (b_presses s)"
      by auto
    moreover have "unat (b_presses s) = length h" using h by (simp add: btn_ring.holds_def)
    ultimately show "hdr_get v ''presses'' = int (length h)" "v_ring v = map uints (b_ring s)" by (metis uint_nat)+
  qed
  have len: "length (b_ring s) = 8" using wf by (simp add: btn_wf_def BTN_RING_def)
  have "max seen (int (length h) - 8) = int ?m" using seen by auto
  then have up: "[max seen (int (length h) - 8)..int (length h) - 1] = map int [?m..<length h]"
    by (simp only: upto_int)
  have "b_ring s ! (k mod 8) = h ! k" if "k \<in> set [?m..<length h]" for k
    using that h by (auto simp: btn_holds_iff)
  then show ?thesis
    using up len by (auto simp: new_presses_def Let_def n RING_def nat_mod_distrib)
qed


section \<open>Properties of the log\<close>

text \<open>C28. What the debugger reads of the log is what the firmware logged: in every state the board can
  reach, with fewer than 2^32 presses since boot, the reading gives the count and, numbered from 1, exactly the presses
  after the first \<open>seen\<close> ones, no further back than the ring's eight.\<close>

theorem button_log_readout:
  assumes "btn_reach s h" "length h < 2 ^ 32" "0 \<le> seen"
  shows "\<exists>v. read_record (btn_bytes s) = Inr v \<and> hdr_get v ''presses'' = int (length h)
    \<and> new_presses v seen = map (\<lambda>k. (int k + 1, uints (h ! k))) [max (nat seen) (length h - 8)..<length h]"
proof -
  from btn_reach_inv [OF assms(1)] assms(2) have wf: "btn_wf s" and h: "btn_ring.holds s h" by simp_all
  from read_record_image [OF wf] obtain v where v: "read_record (btn_bytes s) = Inr v"
    "hdr_get v ''presses'' = uint (b_presses s)" by blast
  have "hdr_get v ''presses'' = int (length h)" using v(2) h by (metis btn_holds_iff uint_nat)
  with v(1) read_new_presses [OF h wf v(1) assms(3)] show ?thesis by blast
qed

text \<open>A press is a button that reads pressed in two consecutive ticks and was not down: exactly these are
  logged and counted, both buttons apart, and a level that two ticks disagree on changes nothing.\<close>

theorem press_debounced:
  assumes "btn_reach s h" "s' = island_buttons_update i s" "s'' = island_buttons_update j s'"
  shows "tick_log j s' = map (entry j) (filter (\<lambda>b. sampled i s b \<and> sampled j s' b \<and> \<not> bit (b_debounced s') b) [0, 1])
    \<and> b_presses s'' = b_presses s' + of_nat (length (tick_log j s'))
    \<and> (\<forall>b < 2. bit (b_debounced s'') b
          = (if sampled j s' b = sampled i s b then sampled j s' b else bit (b_debounced s') b))"
proof -
  have wf: "btn_wf s" using btn_reach_inv [OF assms(1)] by simp
  note u = update_spec [OF wf assms(2)]
  note w = update_spec [OF u(1) assms(3)]
  have "fst (log_part (fold push_press es t)) = b_presses t + of_nat (length es)" for es t
    by (induction es arbitrary: t) (simp_all add: log_part_def push_press_def)
  then have "b_presses s'' = b_presses s' + of_nat (length (tick_log j s'))"
    using w(3) by (metis fst_conv log_part_def)
  moreover have "rises j s' b = (sampled i s b \<and> sampled j s' b \<and> \<not> bit (b_debounced s') b)" if "b < 2" for b
    using u(5) [OF that] by (auto simp: rises_def)
  then have "filter (rises j s') [0, 1] = filter (\<lambda>b. sampled i s b \<and> sampled j s' b \<and> \<not> bit (b_debounced s') b) [0, 1]"
    by (intro filter_cong) (auto simp: less_2_cases_iff)
  ultimately show ?thesis using u(5) w(6) by (simp add: tick_log_def)
qed

text \<open>Every logged press is counted once, as accepted or as ignored (modulo 2^32, like the counters).\<close>

theorem every_press_counted:
  assumes "btn_reach s h"
  shows "b_accepted s ! 0 + b_accepted s ! 1 + b_ignored s ! 0 + b_ignored s ! 1 = of_nat (length h)"
  using btn_reach_inv [OF assms] by (simp add: tally_def)


section \<open>Injected presses\<close>

fun run_log :: "btn_in list \<Rightarrow> btn \<Rightarrow> (u32 \<times> u32) list" where
  "run_log [] s = []"
| "run_log (i # is) s = tick_log i s @ run_log is (island_buttons_update i s)"

text \<open>Nothing more comes of a button that is up with nothing to inject, or down.\<close>

definition quiet :: "btn \<Rightarrow> nat \<Rightarrow> bool" where
  "quiet s b = (if bit (b_last_sample s) b then bit (b_debounced s) b else b_inject s ! b = 0)"

lemma tick_inject_nth: "btn_wf s \<Longrightarrow> b < 2 \<Longrightarrow> tick_inject s ! b = (if b_inject s ! b = 0 then 0 else b_inject s ! b - 1)"
  by (simp add: tick_inject_def btn_wf_def)

lemma quiet_update:
  assumes "btn_wf s" "b < 2" "\<not> pin_of i b" "quiet s b"
  shows "\<not> rises i s b" "quiet (island_buttons_update i s) b"
  using assms(3,4) update_spec(2) [OF assms(1) refl, of i] update_spec(5,6) [OF assms(1) refl assms(2), of i]
    tick_inject_nth [OF assms(1,2)]
  by (auto simp: quiet_def rises_def sampled_def split: if_splits)

lemma quiet_run:
  "btn_wf s \<Longrightarrow> \<forall>i \<in> set is. \<forall>b < 2. \<not> pin_of i b \<Longrightarrow> \<forall>b < 2. quiet s b \<Longrightarrow> run_log is s = []"
proof (induction "is" arbitrary: s)
  case (Cons i "is")
  then have q: "\<not> rises i s b" "quiet (island_buttons_update i s) b" if "b < 2" for b
    using quiet_update [OF Cons.prems(1) that] that by auto
  then have "tick_log i s = []" by (simp add: tick_log_def)
  moreover have "run_log is (island_buttons_update i s) = []"
    using Cons.prems q(2) update_spec(1) [OF Cons.prems(1) refl] by (intro Cons.IH) auto
  ultimately show ?case by simp
qed simp

text \<open>An injected press comes through: from rest with both pads up, writing \<open>n\<close> into an inject word logs, over
  any number of ticks from two on, exactly one press of that button, at the second tick; a write of 0 or 1 is
  filtered by the debounce and logs nothing.\<close>

theorem inject_logs_one_press:
  assumes "btn_reach s h" "b < 2"
    and idle: "\<forall>c < 2. \<not> bit (b_last_sample s) c \<and> \<not> bit (b_debounced s) c \<and> b_inject s ! c = 0"
    and up: "\<forall>i \<in> set is. \<forall>c < 2. \<not> pin_of i c" and len: "2 \<le> length is"
  shows "run_log is (s\<lparr>b_inject := (b_inject s)[b := n]\<rparr>) = (if n = 0 \<or> n = 1 then [] else [entry (is ! 1) b])"
proof -
  let ?s0 = "s\<lparr>b_inject := (b_inject s)[b := n]\<rparr>"
  obtain i j "is'" where "is": "is = i # j # is'"
    using len by (cases "is"; cases "tl is") auto
  have pins: "\<not> pin_of i c" "\<not> pin_of j c" if "c < 2" for c using up that by (auto simp: "is")
  have "btn_reach ?s0 h" by (rule btn_reach.inject) fact+
  then have w0: "btn_wf ?s0" using btn_reach_inv by blast
  have i0: "b_inject ?s0 ! c = (if c = b then n else 0)" if "c < 2" for c
    using idle that w0 by (auto simp: btn_wf_def nth_list_update)
  have sm0: "sampled i ?s0 c = (c = b \<and> n \<noteq> 0)" if "c < 2" for c
    using i0 [OF that] pins(1) [OF that] by (auto simp: sampled_def)
  define s1 where "s1 = island_buttons_update i ?s0"
  note u = update_spec [OF w0 s1_def]
  have i1: "b_inject s1 ! c = (if c = b \<and> n \<noteq> 0 then n - 1 else 0)" if "c < 2" for c
    using i0 [OF that] tick_inject_nth [OF w0 that] by (auto simp: u(2))
  have l1: "bit (b_last_sample s1) c = (c = b \<and> n \<noteq> 0)" "\<not> bit (b_debounced s1) c" if "c < 2" for c
    using u(5,6) [OF that] sm0 [OF that] idle that by auto
  have t0: "tick_log i ?s0 = []" using idle by (simp add: tick_log_def rises_def)
  define s2 where "s2 = island_buttons_update j s1"
  note v = update_spec [OF u(1) s2_def]
  have sm1: "sampled j s1 c = (c = b \<and> n \<noteq> 0 \<and> n \<noteq> 1)" if "c < 2" for c
    using i1 [OF that] pins(2) [OF that] by (auto simp: sampled_def)
  have r: "rises j s1 c = (c = b \<and> n \<noteq> 0 \<and> n \<noteq> 1)" if "c < 2" for c
    using sm1 [OF that] l1 [OF that] by (auto simp: rises_def)
  have t1: "tick_log j s1 = (if n = 0 \<or> n = 1 then [] else [entry j b])"
    using r [of 0] r [of 1] assms(2) by (auto simp: tick_log_def less_2_cases_iff)
  have "quiet s2 c" if "c < 2" for c
    using v(5,6) [OF that] sm1 [OF that] l1 [OF that] i1 [OF that] tick_inject_nth [OF u(1) that]
    by (auto simp: quiet_def v(2) split: if_splits)
  then have "run_log is' s2 = []" using up v(1) by (intro quiet_run) (auto simp: "is")
  then show ?thesis using t0 t1 by (simp add: "is" s1_def [symmetric] s2_def [symmetric])
qed


section \<open>What a line says\<close>

lemma press_code_uint:
  assumes "b < 2"
  shows "uint (press_code i b) = (int b + 1) * 2 ^ 24 + uint (why_of i b) * 2 ^ 16 + (uint (in_state i) mod 256) * 2 ^ 8
    + uint (in_behavior i) mod 256"
proof -
  have w: "uint (why_of i b) < 256" by (simp add: why_of_def)
  have b: "uint (of_nat b + 1 :: u32) mod 256 = int b + 1" using assms by (auto simp: less_2_cases_iff)
  have "uint (x AND 0xff :: u32) < 256" for x by (simp add: uint_and_ff)
  from pack4 [OF w this this, of "of_nat b + 1"] show ?thesis unfolding press_code_def by (simp only: uint_and_ff b)
qed

text \<open>The line of a press is decided by the handler's arguments at that tick.\<close>

definition verdict :: "btn_in \<Rightarrow> nat \<Rightarrow> string" where
  "verdict i b =
     (if in_run i = 0 then ''ignored (handler in INIT)''
      else if b = 0 then (if in_takeover i \<noteq> 0 then ''accepted'' else ''ignored (no takeover request)'')
      else if in_state i = 1 then ''accepted'' else ''ignored (not NORMAL)'')"

text \<open>The line printed for a press names the button that was pressed and says accepted exactly when the firmware's
  rule accepts it: SW1 while the takeover request is on, SW2 in NORMAL, neither in INIT; and it shows the handler's state
  and behaviour at that tick.\<close>

theorem press_text_verdict:
  assumes "b < 2" "uint (in_state i) < 256" "uint (in_behavior i) < 256"
  shows "press_text (uint (in_uptime i b)) (uint (press_code i b)) =
    (if b = 0 then ''SW1 '' else ''SW2 '') @ verdict i b @ '' uptime_ms='' @ dec_int (uint (in_uptime i b)) @ '' state=''
    @ name_of BTN_STATE (uint (in_state i)) (dec_int (uint (in_state i))) @ ''/''
    @ name_of BTN_BEHAVIOR (uint (in_behavior i)) (dec_int (uint (in_behavior i)))"
proof -
  have w: "0 \<le> uint (why_of i b)" "uint (why_of i b) < 16" by (simp_all add: why_of_def)
  have m: "uint (in_state i) mod 256 = uint (in_state i)" "uint (in_behavior i) mod 256 = uint (in_behavior i)"
    using assms by simp_all
  have c: "uint (press_code i b) = (int b + 1) * 2 ^ 24 + uint (why_of i b) * 2 ^ 16 + uint (in_state i) * 2 ^ 8 + uint (in_behavior i)"
    using press_code_uint [OF assms(1)] by (simp only: m)
  have r: "0 \<le> uint (in_state i)" "0 \<le> uint (in_behavior i)" "uint (why_of i b) < 256" using w by simp_all
  note f = byte_fields (1,3,4) [OF c w(1) r(3) r(1) assms(2) r(2) assms(3)]
    byte_fields(5) [OF c w(1) r(3) r(1) assms(2) r(2) assms(3) w(2)]
  have n: "name_of NAMES (int b + 1) x @ '' '' = (if b = 0 then ''SW1 '' else ''SW2 '')" for x
    using assms(1) by (auto simp: less_2_cases_iff NAMES_def name_of_def dict_of_def)
  have v: "name_of WHY (uint (why_of i b)) x = verdict i b" for x
    by (simp add: why_of_def verdict_def WHY_def name_of_def dict_of_def)
  show ?thesis unfolding press_text_def Let_def f v by (simp only: append_assoc [symmetric] n)
qed

section \<open>The bridge's commands and reports\<close>

lemma split_once_None: "split_once c s = None \<longleftrightarrow> c \<notin> set s"
  by (simp add: split_once_def)

lemma split_once_Some: "split_once c s = Some (l, r) \<longleftrightarrow> s = l @ c # r \<and> c \<notin> set l"
proof
  assume a: "split_once c s = Some (l, r)"
  then have "c \<in> set s" by (simp add: split_once_def split: if_splits)
  then obtain x y where s: "s = x @ c # y" "c \<notin> set x" by (meson split_list_first)
  with a split_once_append [of c x y] show "s = l @ c # r \<and> c \<notin> set l" by simp
next
  assume "s = l @ c # r \<and> c \<notin> set l"
  then show "split_once c s = Some (l, r)" using split_once_append by auto
qed

lemma bridge_lines_None: "10 \<notin> set a \<Longrightarrow> bridge_lines addr a = ([], Running a)"
  by (subst bridge_lines.simps) (simp add: split_once_def)

lemma bridge_lines_append:
  "bridge_lines addr (a @ b) =
     (case bridge_lines addr a of
        (outs, Running r) \<Rightarrow> (outs @ fst (bridge_lines addr (r @ b)), snd (bridge_lines addr (r @ b)))
      | res \<Rightarrow> res)"
proof (induction addr a rule: bridge_lines.induct)
  case (1 addr a)
  show ?case
  proof (cases "split_once 10 a")
    case None
    then show ?thesis by (simp add: split_once_None bridge_lines_None)
  next
    case (Some lr)
    then obtain l r where lr: "split_once 10 a = Some (l, r)" by (cases lr) auto
    then have "split_once 10 (a @ b) = Some (l, r @ b)" by (simp add: split_once_Some)
    then have e: "bridge_lines addr (a @ b) = (let w = py_words (ascii_decode l)
           in if w = [''quit''] then ([Say ''buttons: bridge done''], Exited 0)
              else (case bridge_cmd addr w of Inl e \<Rightarrow> ([], Raised e)
                    | Inr outs \<Rightarrow> (let (outs', st) = bridge_lines addr (r @ b) in (outs @ outs', st))))"
      by (subst bridge_lines.simps) simp
    have e': "bridge_lines addr a = (let w = py_words (ascii_decode l)
           in if w = [''quit''] then ([Say ''buttons: bridge done''], Exited 0)
              else (case bridge_cmd addr w of Inl e \<Rightarrow> ([], Raised e)
                    | Inr outs \<Rightarrow> (let (outs', st) = bridge_lines addr r in (outs @ outs', st))))"
      using lr by (subst bridge_lines.simps) simp
    from 1 [OF lr refl refl] show ?thesis unfolding e e' Let_def
      by (auto split: sum.splits prod.splits bridge_status.splits)
  qed
qed

fun is_press :: "bridge_out \<Rightarrow> bool" where
  "is_press (Press _ _ _) = True"
| "is_press _ = False"

lemma bridge_lines_outs:
  "(\<forall>x \<in> set (fst (bridge_lines addr a)). \<not> is_press x)
   \<and> (case snd (bridge_lines addr a) of Running b \<Rightarrow> 10 \<notin> set b | _ \<Rightarrow> True)"
proof (induction addr a rule: bridge_lines.induct)
  case (1 addr a)
  have cmd: "bridge_cmd addr w = Inr outs \<Longrightarrow> \<forall>x \<in> set outs. \<not> is_press x" for w outs
    by (auto simp: bridge_cmd_def inject_at_def rbind_Inr_iff split: if_splits)
  show ?case
  proof (cases "split_once 10 a")
    case None
    then show ?thesis by (simp add: split_once_None bridge_lines_None)
  next
    case (Some lr)
    then obtain l r where lr: "split_once 10 a = Some (l, r)" by (cases lr) auto
    let ?w = "py_words (ascii_decode l)"
    note IH = 1 [OF lr refl refl]
    show ?thesis
      using lr IH cmd [of ?w] by (subst (1 2) bridge_lines.simps) (auto simp: Let_def split: sum.splits prod.splits)
  qed
qed

lemma press_lines_only: "filter (\<lambda>x. \<not> is_press x) (press_lines v seen) = []" "filter is_press (press_lines v seen) = press_lines v seen"
  by (auto simp: press_lines_def filter_empty_conv filter_id_conv)

text \<open>The chunks of the input joined.\<close>

definition stdin :: "(bytes option \<times> btn_view) list \<Rightarrow> bytes" where
  "stdin inps = concat (map (\<lambda>(c, _). case c of Some b \<Rightarrow> b | None \<Rightarrow> []) inps)"

lemma bridge_loop_commands:
  assumes "10 \<notin> set buf" "Some [] \<notin> fst ` set inps"
  shows "filter (\<lambda>x. \<not> is_press x) (fst (bridge_loop addr (buf, seen) inps)) = fst (bridge_lines addr (buf @ stdin inps))
    \<and> fst (snd (bridge_loop addr (buf, seen) inps)) = snd (bridge_lines addr (buf @ stdin inps))"
  using assms
proof (induction inps arbitrary: buf seen)
  case Nil
  then show ?case by (simp add: stdin_def bridge_lines_None)
next
  case (Cons inp inps)
  obtain c v where inp: "inp = (c, v)" by (cases inp)
  let ?a = "buf @ (case c of Some b \<Rightarrow> b | None \<Rightarrow> [])"
  obtain outs st where l: "bridge_lines addr ?a = (outs, st)" by (metis surj_pair)
  have o: "filter (\<lambda>x. \<not> is_press x) outs = outs" "\<And>b. st = Running b \<Longrightarrow> 10 \<notin> set b"
    using bridge_lines_outs [of addr ?a] by (auto simp: l filter_id_conv split: bridge_status.splits)
  have s: "buf @ stdin (inp # inps) = ?a @ stdin inps" by (simp add: stdin_def inp)
  have c: "c \<noteq> Some []" "Some [] \<notin> fst ` set inps" using Cons.prems(2) by (auto simp: inp)
  note ap = bridge_lines_append [of addr ?a "stdin inps", folded s, unfolded l]
  show ?case
  proof (cases st)
    case (Running b)
    note IH = Cons.IH [OF o(2) [OF Running] c(2), of "hdr_get v ''presses''"]
    show ?thesis using IH Running c(1) o(1) press_lines_only(1) [of v seen] unfolding ap
      by (auto simp: bridge_turn_def inp l Let_def split: prod.split)
  qed (unfold ap, use c(1) o(1) in \<open>simp_all add: bridge_turn_def inp l Let_def\<close>)
qed

text \<open>The readings of a run: each is of a state the board can be in, at most eight presses after the one
  before.\<close>

inductive readings :: "(u32 \<times> u32) list \<Rightarrow> (bytes option \<times> btn_view) list \<Rightarrow> (u32 \<times> u32) list \<Rightarrow> bool" where
  over: "readings h [] h"
| poll: "btn_reach s (h @ new) \<Longrightarrow> length new \<le> 8 \<Longrightarrow> length (h @ new) < 2 ^ 32 \<Longrightarrow> read_record (btn_bytes s) = Inr v
     \<Longrightarrow> readings (h @ new) inps h' \<Longrightarrow> readings h ((c, v) # inps) h'"

lemma readings_prefix: "readings h inps h' \<Longrightarrow> \<exists>t. h' = h @ t"
  by (induction rule: readings.induct) auto

lemma bridge_loop_presses:
  assumes "readings h inps h'" "bridge_loop addr (buf, int (length h)) inps = (outs, Running b, n)"
  shows "filter is_press outs = map (\<lambda>k. Press (int k + 1) (uint (fst (h' ! k))) (uint (snd (h' ! k)))) [length h..<length h']
    \<and> n = int (length h')"
  using assms
proof (induction arbitrary: buf outs rule: readings.induct)
  case (over h)
  then show ?case by simp
next
  case (poll s h new v inps h' c)
  let ?a = "buf @ (case c of Some b \<Rightarrow> b | None \<Rightarrow> [])"
  from poll.prems obtain o1 b1 o2 where l: "bridge_lines addr ?a = (o1, Running b1)" and c: "c \<noteq> Some []"
    and o2: "bridge_loop addr (b1, hdr_get v ''presses'') inps = (o2, Running b, n)"
    and outs: "outs = o1 @ press_lines v (int (length h)) @ o2"
    by (auto simp: bridge_turn_def Let_def split: prod.splits bridge_status.splits if_splits)
  from btn_reach_inv [OF poll.hyps(1)] poll.hyps(3) have wf: "btn_wf s" and hold: "btn_ring.holds s (h @ new)" by simp_all
  have np: "hdr_get v ''presses'' = int (length (h @ new))"
    using read_record_image [OF wf] poll.hyps(4) hold by (metis btn_holds_iff sum.inject(2) uint_nat)
  have "new_presses v (int (length h)) = map (\<lambda>k. (int k + 1, uints ((h @ new) ! k))) [length h..<length (h @ new)]"
    using read_new_presses [OF hold wf poll.hyps(4), of "int (length h)"] poll.hyps(2) by (simp add: max_absorb1)
  moreover obtain t where h': "h' = (h @ new) @ t" using readings_prefix [OF poll.hyps(5)] by blast
  ultimately have p: "press_lines v (int (length h))
      = map (\<lambda>k. Press (int k + 1) (uint (fst (h' ! k))) (uint (snd (h' ! k)))) [length h..<length (h @ new)]"
    by (auto simp: press_lines_def uints_def nth_append)
  have "filter is_press o1 = []" using bridge_lines_outs [of addr ?a] by (simp add: l filter_empty_conv)
  moreover note poll.IH [OF o2 [unfolded np]]
  moreover have "[length h..<length h'] = [length h..<length (h @ new)] @ [length (h @ new)..<length h']"
    by (metis h' le_add1 length_append upt_add_eq_append)
  ultimately show ?case using p press_lines_only(2) by (simp add: outs)
qed


text \<open>Where standard input is cut into chunks does not matter to the bridge: over any turns without an end of
  file its writes and command lines, and how it ends, are those of the whole input read at once.\<close>

theorem bridge_chunks_irrelevant:
  assumes "Some [] \<notin> fst ` set inps" "hdr_get v0 ''magic'' = 0x534E5442"
  shows "\<exists>outs st. bridge addr v0 inps = (outs, st)
    \<and> filter (\<lambda>x. \<not> is_press x) (tl outs) = fst (bridge_lines addr (stdin inps)) \<and> st = snd (bridge_lines addr (stdin inps))"
proof -
  obtain outs st n where l: "bridge_loop addr ([], hdr_get v0 ''presses'') inps = (outs, st, n)" by (metis surj_pair)
  from bridge_loop_commands [of "[]" inps addr "hdr_get v0 ''presses''"] assms show ?thesis
    by (simp add: bridge_def Let_def l)
qed

text \<open>C34. The bridge reports every press exactly once and in order, with its all-time number, as long as no more than
  eight presses fall between two of its readings.\<close>

theorem bridge_reports_each_press:
  assumes "btn_reach s h" "length h < 2 ^ 32" "read_record (btn_bytes s) = Inr v0" "readings h inps h'"
    and "bridge addr v0 inps = (outs, Running b)"
  shows "filter is_press outs = map (\<lambda>k. Press (int k + 1) (uint (fst (h' ! k))) (uint (snd (h' ! k)))) [length h..<length h']"
proof -
  from btn_reach_inv [OF assms(1)] assms(2) have wf: "btn_wf s" and hold: "btn_ring.holds s h" by simp_all
  have np: "hdr_get v0 ''presses'' = int (length h)"
    using read_record_image [OF wf] assms(3) hold by (metis btn_holds_iff sum.inject(2) uint_nat)
  obtain o1 st n where l: "bridge_loop addr ([], int (length h)) inps = (o1, st, n)" by (metis surj_pair)
  with assms(5) np have "st = Running b" "filter is_press outs = filter is_press o1"
    by (auto simp: bridge_def Let_def split: if_splits)
  with bridge_loop_presses [OF assms(4)] l show ?thesis by simp
qed


text \<open>An inject command with a tick count is carried out only if the count is a number; otherwise the exception ends
  the bridge, lines that follow it included.\<close>

theorem bridge_bad_ticks:
  assumes "py_words (ascii_decode line) = [''inject'', button, ticks]" "lower button \<in> {''sw1'', ''sw2''}" "10 \<notin> set line"
  shows "bridge_lines addr (line @ 10 # rest) =
    (case py_int ticks of
       None \<Rightarrow> ([], Raised ValueError)
     | Some n \<Rightarrow> (let (outs, st) = bridge_lines addr rest
                  in (inject_at addr button n # Say (''buttons: injected '' @ upper button @ '' '' @ dec_int n @ '' ticks'') # outs, st)))"
proof -
  have "split_once 10 (line @ 10 # rest) = Some (line, rest)" using assms(3) by (rule split_once_append)
  then show ?thesis using assms(1,2)
    by (subst bridge_lines.simps) (auto simp: bridge_cmd_def Let_def numeral_2_eq_2 numeral_3_eq_3 split: option.split prod.split)
qed

section \<open>Witnesses\<close>

lemma btn_reach_run: "btn_reach s h \<Longrightarrow> btn_reach (fold island_buttons_update is s) (h @ run_log is s)"
proof (induction "is" arbitrary: s h)
  case (Cons i "is")
  from Cons.IH [OF btn_reach.tick [OF Cons.prems, of i]] show ?case by simp
qed simp

definition demo_in :: btn_in where
  "demo_in = \<lparr>in_raw = (\<lambda>_. Some False), in_active_low = (\<lambda>_. False), in_run = 1, in_state = 1, in_behavior = 1,
     in_takeover = 0, in_uptime = (\<lambda>_. 100)\<rparr>"

definition demo_boot :: btn where "demo_boot = island_buttons_init (\<lambda>_. False) btn_zero"

definition demo_injected :: btn where "demo_injected = demo_boot\<lparr>b_inject := (b_inject demo_boot)[1 := 3]\<rparr>"

definition demo_after :: btn where "demo_after = fold island_buttons_update [demo_in, demo_in, demo_in] demo_injected"

lemma demo_boot_reach: "btn_reach demo_boot []"
  unfolding demo_boot_def by (rule btn_reach.boot)

lemma demo_injected_reach: "btn_reach demo_injected []"
  unfolding demo_injected_def by (rule btn_reach.inject [OF demo_boot_reach]) simp

lemma demo_run: "run_log [demo_in, demo_in, demo_in] demo_injected = [(100, 0x02000101)]"
  by code_simp

lemma demo_after_reach: "btn_reach demo_after [(100, 0x02000101)]"
  using btn_reach_run [OF demo_injected_reach, of "[demo_in, demo_in, demo_in]"] unfolding demo_run demo_after_def by simp

theorem button_log_readout_witness:
  "\<exists>v. read_record (btn_bytes demo_after) = Inr v \<and> new_presses v 0 = [(1, 100, 0x02000101)]"
  using button_log_readout [OF demo_after_reach, of 0] by (auto simp: uints_def)

theorem press_debounced_witness:
  "b_presses (island_buttons_update demo_in (island_buttons_update demo_in demo_injected)) = 1"
proof -
  have "length (tick_log demo_in (island_buttons_update demo_in demo_injected)) = 1"
    "b_presses (island_buttons_update demo_in demo_injected) = 0" by code_simp+
  with press_debounced [OF demo_injected_reach refl refl, of demo_in demo_in] show ?thesis by simp
qed

theorem every_press_counted_witness: "b_accepted demo_after ! 1 = 1"
proof -
  have "b_accepted demo_after ! 0 = 0 \<and> b_ignored demo_after ! 0 = 0 \<and> b_ignored demo_after ! 1 = 0" by code_simp
  with every_press_counted [OF demo_after_reach] show ?thesis by simp
qed

theorem inject_logs_one_press_witness:
  "run_log [demo_in, demo_in, demo_in] demo_injected = [entry demo_in 1]"
proof -
  have "\<forall>c < 2. \<not> bit (b_last_sample demo_boot) c \<and> \<not> bit (b_debounced demo_boot) c \<and> b_inject demo_boot ! c = 0"
    by (auto simp: demo_boot_def island_buttons_init_def btn_zero_def less_2_cases_iff)
  moreover have "\<forall>i \<in> set [demo_in, demo_in, demo_in]. \<forall>c < 2. \<not> pin_of i c" by (simp add: pin_of_def demo_in_def)
  ultimately show ?thesis
    using inject_logs_one_press [OF demo_boot_reach, of 1 "[demo_in, demo_in, demo_in]" 3] by (simp add: demo_injected_def)
qed

theorem press_text_verdict_witness:
  "press_text 100 (uint (press_code demo_in 1)) = ''SW2 accepted uptime_ms=100 state=NORMAL/NONE''"
proof -
  have "dec_int 100 = ''100''" by code_simp
  with press_text_verdict [of 1 demo_in] show ?thesis
    by (simp add: demo_in_def verdict_def name_of_def BTN_STATE_def BTN_BEHAVIOR_def dict_of_def)
qed

definition demo_view :: btn_view where
  "demo_view = (case read_record (btn_bytes demo_boot) of Inr v \<Rightarrow> v | Inl _ \<Rightarrow> \<lparr>v_hdr = [], v_ring = []\<rparr>)"

theorem bridge_chunks_irrelevant_witness:
  "\<exists>outs. bridge 0 demo_view [(Some (ascii_encode ''injec''), demo_view), (None, demo_view), (Some (ascii_encode ''t sw2'' @ [10]), demo_view)]
     = (outs, Running []) \<and> Write32 40 3 \<in> set outs"
proof -
  let ?i = "[(Some (ascii_encode ''injec''), demo_view), (None, demo_view), (Some (ascii_encode ''t sw2'' @ [10]), demo_view)]"
  have e: "Some [] \<notin> fst ` set ?i" by (simp add: ascii_encode_def)
  have m: "hdr_get demo_view ''magic'' = 0x534E5442" by code_simp
  have b: "bridge_lines 0 (stdin ?i) = ([Write32 40 3, Say ''buttons: injected SW2 3 ticks''], Running [])" by code_simp
  from bridge_chunks_irrelevant [OF e m, of 0] obtain outs where r: "bridge 0 demo_view ?i = (outs, Running [])"
    "filter (\<lambda>x. \<not> is_press x) (tl outs) = [Write32 40 3, Say ''buttons: injected SW2 3 ticks'']" unfolding b by auto
  have "Write32 40 3 \<in> set (filter (\<lambda>x. \<not> is_press x) (tl outs))" by (simp add: r(2))
  then have "Write32 40 3 \<in> set outs" by (cases outs) auto
  with r(1) show ?thesis by blast
qed

definition demo_view2 :: btn_view where
  "demo_view2 = (case read_record (btn_bytes demo_after) of Inr v \<Rightarrow> v | Inl _ \<Rightarrow> \<lparr>v_hdr = [], v_ring = []\<rparr>)"

lemma demo_views: "read_record (btn_bytes demo_boot) = Inr demo_view" "read_record (btn_bytes demo_after) = Inr demo_view2"
proof -
  have "btn_wf demo_boot" "btn_wf demo_after" using btn_reach_inv demo_boot_reach demo_after_reach by blast+
  from this [THEN read_record_image] show "read_record (btn_bytes demo_boot) = Inr demo_view"
    "read_record (btn_bytes demo_after) = Inr demo_view2"
    unfolding demo_view_def demo_view2_def by (metis sum.simps(6))+
qed

theorem bridge_reports_each_press_witness:
  "\<exists>outs. bridge 0 demo_view [(None, demo_view2), (None, demo_view2)] = (outs, Running []) \<and> filter is_press outs = [Press 1 100 0x02000101]"
proof -
  have "readings [(100, 0x02000101)] [(None, demo_view2)] [(100, 0x02000101)]"
    using readings.poll [of demo_after "[(100, 0x02000101)]" "[]", OF _ _ _ demo_views(2) readings.over] demo_after_reach by simp
  then have r: "readings [] [(None, demo_view2), (None, demo_view2)] [(100, 0x02000101)]"
    using readings.poll [of demo_after "[]" "[(100, 0x02000101)]", OF _ _ _ demo_views(2)] demo_after_reach by simp
  have "snd (bridge 0 demo_view [(None, demo_view2), (None, demo_view2)]) = Running []" by code_simp
  then obtain outs where o: "bridge 0 demo_view [(None, demo_view2), (None, demo_view2)] = (outs, Running [])"
    by (metis prod.collapse)
  from bridge_reports_each_press [OF demo_boot_reach _ demo_views(1) r o] o show ?thesis by simp
qed

theorem bridge_bad_ticks_witness:
  "bridge_lines 0 (ascii_encode ''inject SW1 many'' @ 10 # ascii_encode ''quit'' @ [10]) = ([], Raised ValueError)"
proof -
  have w: "py_words (ascii_decode (ascii_encode ''inject SW1 many'')) = [''inject'', ''SW1'', ''many'']" by code_simp
  have l: "lower ''SW1'' \<in> {''sw1'', ''sw2''}" by code_simp
  have s: "10 \<notin> set (ascii_encode ''inject SW1 many'')" by code_simp
  have p: "py_int ''many'' = None" by code_simp
  from bridge_bad_ticks [OF w l s, of 0] p show ?thesis by simp
qed

end
