(* ===== verification/Leds.thy ===== *)
theory Leds
  imports Ring_Log
begin

text \<open>The island's state on the board's LEDs: \<^verbatim>\<open>src/zephyr_entry/src/island_led.c\<close>, which picks a pattern from the
  handler's state at every tick, writes a pin only when its level changes and logs every change of
  state in \<open>island_led_record\<close>, and \<^verbatim>\<open>tools/board/led_readout.py\<close>, which reads the pads and the record.

  The record keeps the C widths; \<open>l_pad\<close> is the level each pad drives, as the driver's port writes leave
  it, and \<open>l_level\<close> the cache beside the record. A reading is taken between two ticks.\<close>

section \<open>The firmware side\<close>

record led =
  l_magic :: u32
  l_pattern :: u32
  l_code :: u32
  l_ticks :: u32
  l_transitions :: u32
  l_gpio_errors :: u32
  l_ring :: "(u32 \<times> u32) list"
  l_level :: u32
  l_pad :: "nat \<Rightarrow> bool"          \<comment> \<open>by LED bit: 0 red, 1 green, 2 blue, 4 heartbeat\<close>
  l_active_low :: "nat \<Rightarrow> bool"   \<comment> \<open>\<open>GPIO_ACTIVE_LOW\<close> of the LED's devicetree flags\<close>

record led_in =
  li_run :: u32
  li_state :: u32
  li_behavior :: u32
  li_takeover :: u32
  li_uptime :: u32
  li_ok :: "nat \<Rightarrow> bool"   \<comment> \<open>the driver's write to this LED's port succeeds\<close>

definition LED_MAGIC :: u32 where "LED_MAGIC = 0x5344454c"

definition LED_RING :: nat where "LED_RING = 8"

definition led_set :: "(nat \<Rightarrow> bool) \<Rightarrow> nat \<Rightarrow> bool \<Rightarrow> led \<Rightarrow> led" where
  "led_set ok b on s =
     (let want = (if on then 2 ^ b else 0)
      in if l_level s AND 2 ^ b = want then s
         else if \<not> ok b then s\<lparr>l_gpio_errors := l_gpio_errors s + 1\<rparr>
         else s\<lparr>l_pad := (l_pad s)(b := (if l_active_low s b then \<not> on else on)),
                l_level := (l_level s AND NOT (2 ^ b)) OR want\<rparr>)"

definition led_show :: "(nat \<Rightarrow> bool) \<Rightarrow> u32 \<Rightarrow> led \<Rightarrow> led" where
  "led_show ok rgb s = fold (\<lambda>b. led_set ok b (rgb AND 2 ^ b \<noteq> 0)) [0, 1, 2] s"

text \<open>\<open>LED_R\<close>, \<open>LED_G\<close>, \<open>LED_B\<close> and \<open>LED_BLINK\<close> are 1, 2, 4 and 8.\<close>

definition led_pattern :: "led_in \<Rightarrow> u32" where
  "led_pattern i =
     (if li_run i = 0 then 4 OR 8
      else if li_state i = 1 then (if li_takeover i \<noteq> 0 then 1 OR 2 OR 8 else 2)
      else if li_state i = 2 then (if li_behavior i = 3 then 1 OR 2 else 1 OR 8)
      else if li_state i = 3 then 1
      else 1 OR 4 OR 8)"

definition led_code :: "led_in \<Rightarrow> u32" where
  "led_code i = push_bit 24 (li_state i) OR push_bit 16 (li_behavior i AND 0xff) OR push_bit 8 (li_takeover i AND 0xff) OR led_pattern i"

definition push_transition :: "u32 \<times> u32 \<Rightarrow> led \<Rightarrow> led" where
  "push_transition e s =
     s\<lparr>l_ring := (l_ring s)[unat (l_transitions s) mod LED_RING := e], l_transitions := l_transitions s + 1\<rparr>"

definition shown :: "led_in \<Rightarrow> u32 \<Rightarrow> u32" where
  "shown i tick =
     (let pattern = led_pattern i; half = (if li_run i \<noteq> 0 then 2 else 5)
      in if pattern AND 8 \<noteq> 0 \<and> (tick div half) AND 1 \<noteq> 0 then 0 else pattern AND (1 OR 2 OR 4))"

definition island_led_update :: "led_in \<Rightarrow> led \<Rightarrow> led" where
  "island_led_update i s =
     (let pattern = led_pattern i; code = led_code i; tick = l_ticks s + 1;
          s1 = s\<lparr>l_ticks := tick\<rparr>;
          s2 = (if code \<noteq> l_code s1 \<or> pattern \<noteq> l_pattern s1
                then push_transition (li_uptime i, code) (s1\<lparr>l_code := code, l_pattern := pattern\<rparr>) else s1);
          s3 = led_show (li_ok i) (shown i tick) s2
      in led_set (li_ok i) 4 ((tick div 5) AND 1 \<noteq> 0) s3)"

definition led_zero :: "(nat \<Rightarrow> bool) \<Rightarrow> led" where
  "led_zero low = \<lparr>l_magic = 0, l_pattern = 0, l_code = 0, l_ticks = 0, l_transitions = 0, l_gpio_errors = 0,
     l_ring = replicate LED_RING (0, 0), l_level = 0, l_pad = low, l_active_low = low\<rparr>"

text \<open>\<open>island_led_init\<close>: the pins are configured inactive (\<open>bad\<close>: the ones that fail), then blue is shown.\<close>

definition island_led_init :: "(nat \<Rightarrow> bool) \<Rightarrow> (nat \<Rightarrow> bool) \<Rightarrow> led \<Rightarrow> led" where
  "island_led_init bad ok s =
     (let s1 = fold (\<lambda>b s. if bad b then s\<lparr>l_gpio_errors := l_gpio_errors s + 1\<rparr>
                           else s\<lparr>l_pad := (l_pad s)(b := l_active_low s b)\<rparr>) [0, 1, 2, 4] s;
          s2 = led_show ok 4 (s1\<lparr>l_pattern := 4\<rparr>)
      in s2\<lparr>l_magic := LED_MAGIC\<rparr>)"

definition led_bytes :: "led \<Rightarrow> bytes" where
  "led_bytes s = image [l_magic s, l_pattern s, l_code s, l_ticks s, l_transitions s, l_gpio_errors s] (l_ring s)"

section \<open>The reader\<close>

definition PGPDO :: "(string \<times> int) list" where
  "PGPDO = [(''A_H'', 0x40291700), (''C_H'', 0x40291708), (''E_L'', 0x40291712)]"

definition PINS :: "(string \<times> string \<times> nat) list" where
  "PINS = [(''red'', (''E_L'', 14)), (''green'', (''A_H'', 11)), (''blue'', (''E_L'', 12)), (''hb'', (''C_H'', 2))]"

definition read_pins :: "(int \<Rightarrow> int) \<Rightarrow> (string \<times> int) list" where
  "read_pins read16 =
     map (\<lambda>(n, r, pin). (n, if read16 (the (map_of PGPDO r)) div 2 ^ (15 - pin) mod 2 = 1 then 0 else 1)) PINS"

definition LED_STATE :: "(int \<times> string) list" where
  "LED_STATE = [(1, ''NORMAL''), (2, ''MRM_OPERATING''), (3, ''MRM_SUCCEEDED''), (4, ''MRM_FAILED''), (0, ''-'')]"

definition LED_BEHAVIOR :: "(int \<times> string) list" where
  "LED_BEHAVIOR = [(0, ''''), (1, ''NONE''), (2, ''EMERGENCY_STOP''), (3, ''COMFORTABLE_STOP''), (4, ''PULL_OVER'')]"

definition pattern_text :: "int \<Rightarrow> string" where
  "pattern_text p =
     (let c = concat (map (\<lambda>(k, n). if p div 2 ^ k mod 2 = 1 then n else []) [(0, ''R''), (1, ''G''), (2, ''B'')])
      in (if c = [] then ''off'' else c) @ (if p div 8 mod 2 = 1 then '' blink'' else []))"

definition code_text :: "int \<Rightarrow> string" where
  "code_text code =
     (let st = code div 2 ^ 24; beh = code div 2 ^ 16 mod 256; tk = code div 2 ^ 8 mod 256; p = code mod 256;
          b = name_of LED_BEHAVIOR beh [];
          s = name_of LED_STATE st (dec_int st) @ (if b \<noteq> [] then ''/'' @ b else []) @ (if tk \<noteq> 0 then '' +takeover'' else [])
      in ljust 36 s @ '' -> '' @ pattern_text p)"

record led_view =
  lv_hdr :: "int list"   \<comment> \<open>magic, pattern, code, ticks, transitions, errors\<close>
  lv_ring :: "(int \<times> int) list"

definition read_led_record :: "bytes \<Rightarrow> led_view res" where
  "read_led_record blob =
     rbind (unpack_u32s 6 blob 0) (\<lambda>ws.
     rbind (rmap (\<lambda>i. unpack_pair blob (24 + 8 * i)) [0..<8]) (\<lambda>ring. Inr \<lparr>lv_hdr = ws, lv_ring = ring\<rparr>))"

definition lit_text :: "(string \<times> int) list \<Rightarrow> string" where
  "lit_text pins =
     (let c = concat (map (\<lambda>n. if the (map_of pins n) \<noteq> 0 then upper (take 1 n) else []) [''red'', ''green'', ''blue''])
      in if c = [] then ''off'' else c)"

text \<open>The transitions \<open>show\<close> lists: number, uptime and code.\<close>

definition last_transitions :: "led_view \<Rightarrow> (int \<times> int \<times> int) list" where
  "last_transitions v =
     (let trans = lv_hdr v ! 4; n = min trans 8
      in map (\<lambda>i. (i, lv_ring v ! nat (i mod 8))) [trans - n..trans - 1])"

definition show_lines :: "led_view \<Rightarrow> (string \<times> int) list \<Rightarrow> string list" where
  "show_lines v pins =
     (let h = lv_hdr v
      in (''pins lit='' @ ljust 3 (lit_text pins) @ '' hb='' @ dec_int (the (map_of pins ''hb'')) @ ''  record: magic=''
          @ (if h ! 0 = 0x5344454C then ''ok'' else ''0x'' @ hex_nat (nat (h ! 0))) @ '' pattern='' @ pattern_text (h ! 1)
          @ '' ticks='' @ dec_int (h ! 3) @ '' transitions='' @ dec_int (h ! 4) @ '' gpio_errors='' @ dec_int (h ! 5))
         # map (\<lambda>(i, up, c). ''  #'' @ ljust 3 (dec_int i) @ '' '' @ rjust 9 (ms3 up) @ '' s  '' @ code_text c) (last_transitions v))"

text \<open>One turn of \<open>--watch\<close>: a line when the pads or the pattern changed.\<close>

definition watch_key :: "led_view \<Rightarrow> (string \<times> int) list \<Rightarrow> int list" where
  "watch_key v pins = map (\<lambda>n. the (map_of pins n)) [''red'', ''green'', ''blue''] @ [lv_hdr v ! 1]"

definition watch_line :: "string \<Rightarrow> int list option \<Rightarrow> led_view \<Rightarrow> (string \<times> int) list \<Rightarrow> string list" where
  "watch_line ts last_key v pins =
     (if Some (watch_key v pins) = last_key then []
      else [ts @ '' pins lit='' @ ljust 3 (lit_text pins) @ '' hb='' @ dec_int (the (map_of pins ''hb''))
            @ '' pattern='' @ pattern_text (lv_hdr v ! 1) @ '' ticks='' @ dec_int (lv_hdr v ! 3)])"

section \<open>What the pads show\<close>

interpretation led_ring: ring_log LED_RING "2 ^ 32" "\<lambda>s. unat (l_transitions s)" l_ring push_transition
  by unfold_locales (simp_all add: push_transition_def LED_RING_def unat_step)

definition lit :: "led \<Rightarrow> nat \<Rightarrow> bool" where
  "lit s b = (l_pad s b \<noteq> l_active_low s b)"

text \<open>The level cache agrees with the pads.\<close>

definition cached :: "led \<Rightarrow> bool" where
  "cached s = (\<forall>b \<in> {0, 1, 2, 4}. lit s b = bit (l_level s) b)"

lemma and_exp_bit: "(x AND 2 ^ b = 0) = (\<not> bit x b)" for x :: u32
  by (rule and_exp_eq_0_iff_not_bit)

lemma led_set_lit:
  assumes "cached s" "b \<in> {0, 1, 2, 4}" "ok b"
  shows "lit (led_set ok b on s) c = (if c = b then on else lit s c)" "cached (led_set ok b on s)"
proof -
  have b: "b < 32" using assms(2) by auto
  have w: "(l_level s AND 2 ^ b = (if on then 2 ^ b else 0)) = (bit (l_level s) b = on)"
    using b by (auto simp: bit_eq_iff [of "l_level s AND 2 ^ b"] bit_simps)
  have l: "bit (l_level (led_set ok b on s)) c = (if c = b then on else bit (l_level s) c)" for c
    using w b assms(3) by (auto simp: led_set_def Let_def bit_simps dest: bit_imp_le_length)
  have p: "lit (led_set ok b on s) c = (if c = b then (if bit (l_level s) b = on then lit s b else on) else lit s c)" for c
    using w assms(3) by (auto simp: led_set_def Let_def lit_def)
  then show "lit (led_set ok b on s) c = (if c = b then on else lit s c)"
    using assms(1,2) by (auto simp: cached_def)
  show "cached (led_set ok b on s)" using assms(1,2) by (auto simp: cached_def p l)
qed

lemma led_set_sel [simp]:
  "l_ring (led_set ok b on s) = l_ring s" "l_transitions (led_set ok b on s) = l_transitions s"
  "l_ticks (led_set ok b on s) = l_ticks s" "l_code (led_set ok b on s) = l_code s"
  "l_pattern (led_set ok b on s) = l_pattern s" "l_active_low (led_set ok b on s) = l_active_low s"
  "l_magic (led_set ok b on s) = l_magic s"
  by (simp_all add: led_set_def Let_def)

lemma led_show_sel [simp]:
  "l_ring (led_show ok rgb s) = l_ring s" "l_transitions (led_show ok rgb s) = l_transitions s"
  "l_ticks (led_show ok rgb s) = l_ticks s" "l_code (led_show ok rgb s) = l_code s"
  "l_pattern (led_show ok rgb s) = l_pattern s" "l_active_low (led_show ok rgb s) = l_active_low s"
  "l_magic (led_show ok rgb s) = l_magic s"
  by (simp_all add: led_show_def)

lemma led_show_lit:
  assumes "cached s" "\<forall>b. ok b"
  shows "\<forall>b < 3. lit (led_show ok rgb s) b = bit rgb b" "lit (led_show ok rgb s) 4 = lit s 4" "cached (led_show ok rgb s)"
proof -
  let ?on = "bit rgb"
  let ?s0 = "led_set ok 0 (?on 0) s" and ?s1 = "led_set ok 1 (?on 1) (led_set ok 0 (?on 0) s)"
  note l0 = led_set_lit [where b = 0 and on = "?on 0", OF assms(1)]
  have c0: "cached ?s0" using l0(2) assms(2) by simp
  note l1 = led_set_lit [where b = 1 and on = "?on 1", OF c0]
  have c1: "cached ?s1" using l1(2) assms(2) by simp
  note l2 = led_set_lit [where b = 2 and on = "?on 2", OF c1]
  have s: "led_show ok rgb s = led_set ok 2 (?on 2) ?s1" by (simp only: led_show_def fold_simps id_apply and_exp_bit not_not)
  have e: "lit (led_show ok rgb s) c = (if c = 2 then bit rgb 2 else if c = 1 then bit rgb 1 else if c = 0 then bit rgb 0 else lit s c)" for c
    unfolding s using l0(1) l1(1) l2(1) assms(2) by simp
  show "\<forall>b < 3. lit (led_show ok rgb s) b = bit rgb b" unfolding e by (auto simp: numeral_3_eq_3 numeral_2_eq_2 less_Suc_eq)
  show "lit (led_show ok rgb s) 4 = lit s 4" unfolding e by simp
  show "cached (led_show ok rgb s)" unfolding s using l2(2) assms(2) by simp
qed

lemma odd_unat: "odd (unat w) = odd w" for w :: u32
  using bit_unsigned_iff [of w 0, where 'a = nat] by (simp add: bit_0)

lemma and_1_iff: "(x AND 1 \<noteq> 0) = odd (unat x)" for x :: u32
  unfolding odd_unat by (simp add: and_one_eq odd_iff_mod_2_eq_one)

definition half_of :: "led_in \<Rightarrow> nat" where
  "half_of i = (if li_run i \<noteq> 0 then 2 else 5)"

text \<open>What a tick has the LEDs show: the pattern's colours, dark in every second half period when it blinks.\<close>

definition on_at :: "led_in \<Rightarrow> nat \<Rightarrow> nat \<Rightarrow> bool" where
  "on_at i n b = (bit (led_pattern i) b \<and> \<not> (bit (led_pattern i) 3 \<and> odd (n div half_of i)))"

lemma bit_shown:
  assumes "b < 3"
  shows "bit (shown i tick) b = on_at i (unat tick) b"
proof -
  have 7: "bit (7 :: u32) b" using assms by (auto simp: numeral_3_eq_3 less_Suc_eq)
  have "(led_pattern i AND 8 = 0) = (\<not> bit (led_pattern i) 3)" using and_exp_bit [of "led_pattern i" 3] by simp
  moreover have "((tick div (if li_run i \<noteq> 0 then 2 else 5)) AND 1 \<noteq> 0) = odd (unat tick div half_of i)"
    by (simp only: and_1_iff unat_div half_of_def) simp
  ultimately show ?thesis using 7 by (auto simp: shown_def Let_def on_at_def bit_simps)
qed

lemma update_pads:
  assumes "cached s" "\<forall>b. li_ok i b"
  shows "\<forall>b < 3. lit (island_led_update i s) b = on_at i (unat (l_ticks s + 1)) b"
    and "lit (island_led_update i s) 4 = odd (unat (l_ticks s + 1) div 5)" "cached (island_led_update i s)"
proof -
  let ?t = "l_ticks s + 1"
  obtain s2 where s2: "island_led_update i s = led_set (li_ok i) 4 ((?t div 5) AND 1 \<noteq> 0) (led_show (li_ok i) (shown i ?t) s2)"
    "l_pad s2 = l_pad s" "l_level s2 = l_level s" "l_active_low s2 = l_active_low s"
    by (rule that [of "if led_code i \<noteq> l_code s \<or> led_pattern i \<noteq> l_pattern s
          then push_transition (li_uptime i, led_code i) (s\<lparr>l_ticks := ?t, l_code := led_code i, l_pattern := led_pattern i\<rparr>)
          else s\<lparr>l_ticks := ?t\<rparr>"]) (auto simp: island_led_update_def Let_def push_transition_def)
  then have "cached s2" using assms(1) by (simp add: cached_def lit_def)
  note sh = led_show_lit [OF this assms(2), of "shown i ?t"]
  note hb = led_set_lit [OF sh(3) _ assms(2) [rule_format], of 4, simplified]
  have h: "((?t div 5) AND 1 \<noteq> 0) = odd (unat ?t div 5)" by (simp only: and_1_iff unat_div) simp
  show "\<forall>b < 3. lit (island_led_update i s) b = on_at i (unat ?t) b"
    using hb(1) sh(1) bit_shown by (simp add: s2(1))
  show "lit (island_led_update i s) 4 = odd (unat ?t div 5)"
    using hb(1) h by (simp add: s2(1))
  show "cached (island_led_update i s)" using hb(2) by (simp add: s2(1))
qed

definition led_boot :: "(nat \<Rightarrow> bool) \<Rightarrow> led" where
  "led_boot low = island_led_init (\<lambda>_. False) (\<lambda>_. True) (led_zero low)"

lemma led_boot_cached: "cached (led_boot low)" "l_ticks (led_boot low) = 0" "l_active_low (led_boot low) = low"
proof -
  let ?s1 = "(fold (\<lambda>b s. s\<lparr>l_pad := (l_pad s)(b := l_active_low s b)\<rparr>) [0, 1, 2, 4] (led_zero low))\<lparr>l_pattern := 4\<rparr>"
  have "cached ?s1" by (simp add: cached_def lit_def led_zero_def)
  from led_show_lit(3) [OF this, of "\<lambda>_. True" 4] show "cached (led_boot low)"
    by (simp add: led_boot_def island_led_init_def Let_def cached_def lit_def)
  show "l_ticks (led_boot low) = 0" "l_active_low (led_boot low) = low"
    by (simp_all add: led_boot_def island_led_init_def Let_def led_zero_def)
qed

lemma update_ticks: "l_ticks (island_led_update i s) = l_ticks s + 1" "l_active_low (island_led_update i s) = l_active_low s"
  by (simp_all add: island_led_update_def Let_def push_transition_def)

lemma led_run:
  assumes "\<forall>i \<in> set is. \<forall>b. li_ok i b"
  shows "cached (fold island_led_update is (led_boot low)) \<and> l_ticks (fold island_led_update is (led_boot low)) = of_nat (length is)
    \<and> l_active_low (fold island_led_update is (led_boot low)) = low"
  using assms
proof (induction "is" rule: rev_induct)
  case (snoc i "is")
  then show ?case using update_pads(3) by (simp add: update_ticks add.commute)
qed (simp add: led_boot_cached)

text \<open>The port registers show the pads: bit \<open>15 - pin\<close> is the pad's level.\<close>

definition pads_on :: "led \<Rightarrow> (int \<Rightarrow> int) \<Rightarrow> bool" where
  "pads_on s regs =
     (\<forall>(r, pin, b) \<in> {(0x40291712, 14, 0), (0x40291700, 11, 1), (0x40291712, 12, 2), (0x40291708, 2, 4)}.
        (regs r div 2 ^ (15 - pin) mod 2 = 1) = l_pad s b)"

lemma read_pins_lit:
  assumes "pads_on s regs" "l_active_low s = (\<lambda>_. True)"
  shows "read_pins regs = [(''red'', of_bool (lit s 0)), (''green'', of_bool (lit s 1)), (''blue'', of_bool (lit s 2)), (''hb'', of_bool (lit s 4))]"
  using assms by (simp add: read_pins_def PINS_def PGPDO_def pads_on_def lit_def)



section \<open>The transitions\<close>

definition led_log :: "led_in \<Rightarrow> led \<Rightarrow> (u32 \<times> u32) list" where
  "led_log i s = (if led_code i \<noteq> l_code s \<or> led_pattern i \<noteq> l_pattern s then [(li_uptime i, led_code i)] else [])"

inductive led_reach :: "led \<Rightarrow> (u32 \<times> u32) list \<Rightarrow> bool" where
  boot: "led_reach (island_led_init bad ok (led_zero low)) []"
| tick: "led_reach s h \<Longrightarrow> led_reach (island_led_update i s) (h @ led_log i s)"

lemma led_holds_iff:
  "led_ring.holds s h \<longleftrightarrow> unat (l_transitions s) = length h \<and> length (l_ring s) = 8
     \<and> (\<forall>i < length h. length h \<le> i + 8 \<longrightarrow> l_ring s ! (i mod 8) = h ! i)"
  unfolding led_ring.holds_def unfolding LED_RING_def by simp

lemma update_log:
  "l_transitions (island_led_update i s) = l_transitions (fold push_transition (led_log i s) s)"
  "l_ring (island_led_update i s) = l_ring (fold push_transition (led_log i s) s)"
  "l_code (island_led_update i s) = led_code i" "l_pattern (island_led_update i s) = led_pattern i"
  by (simp_all add: island_led_update_def Let_def led_log_def push_transition_def)

lemma pattern_below: "uint (led_pattern i) < 16"
  by (simp add: led_pattern_def)

lemma led_code_uint:
  "uint (led_code i) = (uint (li_state i) mod 256) * 2 ^ 24 + (uint (li_behavior i) mod 256) * 2 ^ 16
     + (uint (li_takeover i) mod 256) * 2 ^ 8 + uint (led_pattern i)"
proof -
  have p: "uint (led_pattern i) < 256" using pattern_below [of i] by simp
  have "uint (x AND 0xff :: u32) < 256" for x by (simp add: uint_and_ff)
  from pack4 [OF this this p, of "li_state i"] show ?thesis unfolding led_code_def by (simp only: uint_and_ff)
qed

lemma pattern_of_code: "uint (led_code i) mod 256 = uint (led_pattern i)"
  using pattern_below [of i] by (intro byte_fields(4) [OF led_code_uint]) simp_all

lemma same_code_same_pattern: "led_code i = led_code j \<Longrightarrow> led_pattern i = led_pattern j"
  by (metis pattern_of_code word_uint_eqI)

lemma led_reach_inv:
  assumes "led_reach s h"
  shows "(length h < 2 ^ 32 \<longrightarrow> led_ring.holds s h)
    \<and> (h \<noteq> [] \<longrightarrow> (\<exists>j. l_code s = led_code j \<and> l_pattern s = led_pattern j \<and> snd (last h) = led_code j))
    \<and> successively (\<lambda>a b. snd a \<noteq> snd b) h"
  using assms
proof (induction rule: led_reach.induct)
  case (boot bad ok low)
  show ?case unfolding led_holds_iff by (simp add: island_led_init_def Let_def led_zero_def LED_RING_def)
next
  case (tick s h i)
  have hold: "led_ring.holds (island_led_update i s) (h @ led_log i s)" if l: "length (h @ led_log i s) < 2 ^ 32"
  proof -
    have "led_ring.holds (fold push_transition (led_log i s) s) (h @ led_log i s)"
      using tick.IH l by (intro led_ring.holds_fold) simp_all
    then show ?thesis by (simp add: led_ring.holds_def update_log)
  qed
  show ?case
  proof (cases "led_log i s = []")
    case True
    then have "led_code i = l_code s" "led_pattern i = l_pattern s" by (simp_all add: led_log_def split: if_splits)
    with True hold tick.IH show ?thesis by (simp add: update_log)
  next
    case False
    then have g: "led_log i s = [(li_uptime i, led_code i)]" "led_code i \<noteq> l_code s \<or> led_pattern i \<noteq> l_pattern s"
      by (auto simp: led_log_def split: if_splits)
    have "h = [] \<or> snd (last h) \<noteq> led_code i" using tick.IH g(2) same_code_same_pattern by metis
    then have "successively (\<lambda>a b. snd a \<noteq> snd b) (h @ led_log i s)"
      using tick.IH by (simp add: g(1) successively_append_iff)
    with hold show ?thesis by (auto simp: g(1) update_log)
  qed
qed

text \<open>The transitions \<open>show\<close> lists are the last eight the firmware logged, numbered by their place in the whole history,
  and no two consecutive ones are the same state.\<close>

theorem led_log_readout:
  assumes "led_reach s h" "length h < 2 ^ 32"
  shows "\<exists>v. read_led_record (led_bytes s) = Inr v
    \<and> last_transitions v = map (\<lambda>k. (int k, uints (h ! k))) [length h - 8..<length h]
    \<and> successively (\<lambda>a b. snd a \<noteq> snd b) h"
proof -
  from led_reach_inv [OF assms(1)] assms(2) have hold: "led_ring.holds s h" "successively (\<lambda>a b. snd a \<noteq> snd b) h" by simp_all
  from hold(1) have h: "unat (l_transitions s) = length h" "length (l_ring s) = 8"
    "\<And>i. i < length h \<Longrightarrow> length h \<le> i + 8 \<Longrightarrow> l_ring s ! (i mod 8) = h ! i" by (simp_all add: led_holds_iff)
  let ?hs = "[l_magic s, l_pattern s, l_code s, l_ticks s, l_transitions s, l_gpio_errors s]"
  have l: "6 = length ?hs" "24 = 4 * length ?hs" by simp_all
  have r: "read_led_record (led_bytes s) = Inr \<lparr>lv_hdr = map uint ?hs, lv_ring = map uints (l_ring s)\<rparr>"
    unfolding read_led_record_def led_bytes_def l unpack_head by (simp only: rbind_simps unpack_slots [OF h(2)])
  have t: "uint (l_transitions s) = int (length h)" using h(1) by (metis uint_nat)
  have "int (length h) - min (int (length h)) 8 = int (length h - 8)" by auto
  then have up: "[int (length h) - min (int (length h)) 8..int (length h) - 1] = map int [length h - 8..<length h]"
    by (simp only: upto_int)
  have "last_transitions \<lparr>lv_hdr = map uint ?hs, lv_ring = map uints (l_ring s)\<rparr>
      = map (\<lambda>k. (int k, uints (h ! k))) [length h - 8..<length h]"
    using h(2,3) by (auto simp: last_transitions_def Let_def t up nat_mod_distrib)
  with r hold(2) show ?thesis by blast
qed

section \<open>The table of patterns\<close>

text \<open>The table at the head of \<open>island_led.c\<close>, in the reader's words.\<close>

definition led_table :: "led_in \<Rightarrow> string" where
  "led_table i =
     (if li_run i = 0 then ''B blink''
      else if li_state i = 1 then (if li_takeover i = 0 then ''G'' else ''RG blink'')
      else if li_state i = 2 then (if li_behavior i = 3 then ''RG'' else ''R blink'')
      else if li_state i = 3 then ''R'' else ''RB blink'')"

text \<open>The line of a logged transition gives back the state, the behaviour and the takeover flag it was logged with, and
  the pattern it names is the one the table at the head of \<open>island_led.c\<close> gives for them.\<close>

theorem led_code_text:
  assumes "uint (li_state i) < 256" "uint (li_behavior i) < 256" "uint (li_takeover i) < 256"
  shows "code_text (uint (led_code i)) =
    ljust 36 (name_of LED_STATE (uint (li_state i)) (dec_int (uint (li_state i)))
      @ (if name_of LED_BEHAVIOR (uint (li_behavior i)) [] \<noteq> [] then ''/'' @ name_of LED_BEHAVIOR (uint (li_behavior i)) [] else [])
      @ (if li_takeover i \<noteq> 0 then '' +takeover'' else []))
    @ '' -> '' @ led_table i"
proof -
  have m: "uint (li_state i) mod 256 = uint (li_state i)" "uint (li_behavior i) mod 256 = uint (li_behavior i)"
    "uint (li_takeover i) mod 256 = uint (li_takeover i)" using assms by simp_all
  have p: "uint (led_pattern i) < 256" using pattern_below [of i] by simp
  have c: "uint (led_code i) = uint (li_state i) * 2 ^ 24 + uint (li_behavior i) * 2 ^ 16 + uint (li_takeover i) * 2 ^ 8 + uint (led_pattern i)"
    using led_code_uint [of i] by (simp only: m)
  note f = byte_fields(1-4) [OF c uint_ge_0 assms(2) uint_ge_0 assms(3) uint_ge_0 p]
  have t: "pattern_text (uint (led_pattern i)) = led_table i"
    by (simp add: led_pattern_def led_table_def pattern_text_def)
  show ?thesis unfolding code_text_def Let_def f t by (simp add: uint_0_iff)
qed


section \<open>Witnesses\<close>

definition demo_led_in :: led_in where
  "demo_led_in = \<lparr>li_run = 1, li_state = 2, li_behavior = 2, li_takeover = 0, li_uptime = 700, li_ok = (\<lambda>_. True)\<rparr>"


lemma demo_led_reach: "led_reach (island_led_update demo_led_in (led_boot (\<lambda>_. True))) [(700, 0x02020009)]"
proof -
  have "led_log demo_led_in (led_boot (\<lambda>_. True)) = [(700, 0x02020009)]" by code_simp
  then show ?thesis using led_reach.tick [OF led_reach.boot, of demo_led_in "\<lambda>_. False" "\<lambda>_. True" "\<lambda>_. True"]
    by (simp add: led_boot_def)
qed

theorem led_log_readout_witness:
  "\<exists>v. read_led_record (led_bytes (island_led_update demo_led_in (led_boot (\<lambda>_. True)))) = Inr v
     \<and> last_transitions v = [(0, 700, 0x02020009)]"
  using led_log_readout [OF demo_led_reach] by (auto simp: uints_def)

theorem led_code_text_witness: "code_text 0x02020009 = ljust 36 ''MRM_OPERATING/EMERGENCY_STOP'' @ '' -> R blink''"
proof -
  have c: "uint (led_code demo_led_in) = 0x02020009" by code_simp
  from led_code_text [of demo_led_in] show ?thesis unfolding c
    by (simp add: demo_led_in_def led_table_def name_of_def LED_STATE_def LED_BEHAVIOR_def dict_of_def)
qed

end
