(* ===== verification/Spin_Diag.thy ===== *)
theory Spin_Diag
  imports Ring_Log "HOL-Library.AList"
begin

text \<open>The spin latency diagnostics: \<^verbatim>\<open>src/safety_island_tracing/include/island_spin_diag.h\<close>, which files every interval
  between two spins of an executor level in \<open>island_spin_diag\<close>, and \<^verbatim>\<open>tools/board/spin_diag.py\<close>, which decodes the
  struct (\<open>parse\<close>, \<open>decode\<close>) and subtracts two readings of it (\<open>segment\<close>).

  The struct keeps the C widths. A reading is taken between two filings. Names are ASCII. The tool
  \<open>addr2line\<close> is the parameter \<open>a2l\<close>: the words it prints for an address, or \<open>None\<close> when it cannot be started.\<close>

section \<open>The reader\<close>

abbreviation nl :: string where "nl \<equiv> [CHR 0x0A]"

definition SEGS :: "string list" where
  "SEGS = [''S0 pre'', ''S1 wait'', ''S2 disp'', ''S3 post'', ''S4 loop'']"

definition REC :: "string list" where
  "REC = [''uptime_ms'', ''interval_us''] @ map (\<lambda>i. ''wall'' @ dec_nat i) [0..<5] @ map (\<lambda>i. ''main'' @ dec_nat i) [0..<5]
     @ map (\<lambda>i. ''idle'' @ dec_nat i) [0..<5]
     @ [''park_bound_us'', ''idle_path'', ''ncb'', ''ntake'', ''cb_slot'', ''cb_wall_us'',
        ''cb_main_us'', ''cb_idle_us'', ''cb_off_us'', ''lk_main_n'', ''lk_main_us'',
        ''lk_main_max_us'', ''lk_main_max_ra'', ''lk_main_max_m'', ''lk_oth_n'',
        ''lk_oth_us'', ''lk_oth_max_us'', ''lk_oth_max_ra'', ''isr_us'', ''isr_n'',
        ''tt0'', ''tt1'', ''tt2'', ''tu0'', ''tu1'', ''tu2'', ''cb_isr_us'', ''cb_isr_n'',
        ''level'', ''late_us'']"

definition LEV :: "string list" where
  "LEV = [''tid'', ''prio''] @ replicate 4 ''name'' @ [''spins'', ''nobound'', ''late'', ''max_late_us'', ''bound_min_us'',
     ''bound_max_us'', ''interval_max_us'']"

definition MAGIC_V1 :: int where "MAGIC_V1 = 0x31474453"
definition SD_MAGIC :: int where "SD_MAGIC = 0x32474453"
definition HEAD_WORDS :: nat where "HEAD_WORDS = 9"
definition NO_BOUND :: int where "NO_BOUND = 0xFFFFFFFF"

definition fn_at :: "(int \<Rightarrow> string list option) option \<Rightarrow> int \<Rightarrow> string" where
  "fn_at elf addr =
     (if addr = 0 then ''-''
      else (case elf of
              None \<Rightarrow> py_hex addr
            | Some a2l \<Rightarrow>
                (case a2l (addr - addr mod 2) of
                   Some (f # l # _) \<Rightarrow> f @ ''@'' @ l
                 | _ \<Rightarrow> py_hex addr)))"

definition sprio :: "int \<Rightarrow> int" where
  "sprio p = (if p \<ge> 2 ^ 31 then p - 2 ^ 32 else p)"

type_synonym sd_dict = "(string \<times> int) list"

text \<open>\<open>r[k]\<close> for a key the dictionary is built with.\<close>

definition sd_get :: "sd_dict \<Rightarrow> string \<Rightarrow> int" where
  "sd_get r k = (case map_of r k of Some v \<Rightarrow> v | None \<Rightarrow> 0)"

record lev_view =
  x_index :: nat
  x_tid :: int
  x_prio :: int
  x_name :: string
  x_spins :: int
  x_nobound :: int
  x_late :: int
  x_max_late :: int
  x_bound_min :: int
  x_bound_max :: int
  x_interval_max :: int
  x_hist :: "int list"
  x_segmax :: "int list"
  x_worst :: sd_dict

record spin_view =
  sp_levels :: "lev_view list"
  sp_dropped :: int
  sp_ring_next :: int
  sp_ring_n :: nat
  sp_bins :: nat
  sp_late_thr :: int
  sp_thr :: "(int \<times> string) list"
  sp_ring :: "(nat \<times> sd_dict) list"

datatype spin_parse = Unreadable string | Parsed spin_view

definition sd_name :: "bytes \<Rightarrow> nat \<Rightarrow> int \<Rightarrow> string" where   \<comment> \<open>\<open>name(o1) or hex(tid)\<close>\<close>
  "sd_name blob o1 tid = (let n = cstr (bslice blob o1 (o1 + 16)) in if n = [] then py_hex tid else n)"

definition read_rec :: "bytes \<Rightarrow> nat \<Rightarrow> sd_dict res" where
  "read_rec blob o1 = rbind (unpack_u32s (length REC) blob o1) (\<lambda>ws. Inr (zip REC ws))"

definition read_level :: "bytes \<Rightarrow> nat \<Rightarrow> nat \<Rightarrow> nat \<Rightarrow> lev_view res" where
  "read_level blob bins o1 i =
     rbind (unpack_u32s 2 blob o1) (\<lambda>tp.
     rbind (unpack_u32s 7 blob (o1 + 24)) (\<lambda>v.
     rbind (unpack_u32s bins blob (o1 + 52)) (\<lambda>h.
     rbind (unpack_u32s 5 blob (o1 + 52 + 4 * bins)) (\<lambda>sg.
     rbind (read_rec blob (o1 + 52 + 4 * bins + 20)) (\<lambda>w.
       Inr \<lparr>x_index = i, x_tid = tp ! 0, x_prio = sprio (tp ! 1), x_name = sd_name blob (o1 + 8) (tp ! 0),
            x_spins = v ! 0, x_nobound = v ! 1, x_late = v ! 2, x_max_late = v ! 3, x_bound_min = v ! 4,
            x_bound_max = v ! 5, x_interval_max = v ! 6, x_hist = h, x_segmax = sg, x_worst = w\<rparr>)))))"

definition read_thr :: "bytes \<Rightarrow> nat \<Rightarrow> (int \<times> string) res" where
  "read_thr blob o1 =
     rbind (unpack_u32s 2 blob o1) (\<lambda>tp.
       Inr (tp ! 0, sd_name blob (o1 + 8) (tp ! 0) @ ''(p'' @ dec_int (sprio (tp ! 1)) @ '')''))"

definition read_body :: "bytes \<Rightarrow> nat \<Rightarrow> nat \<times> nat \<times> nat \<times> nat \<Rightarrow> int list \<Rightarrow> spin_parse res" where
  "read_body blob lev_words dims hs =
     (let (nlevels, bins, ring_n, nthreads) = dims; (late_thr, nlev, dropped, ring_next, nthr) = (hs ! 4, hs ! 5, hs ! 6, hs ! 7, hs ! 8);
          o1 = 4 * HEAD_WORDS; o2 = o1 + nlevels * 4 * lev_words; o3 = o2 + nthreads * 24;
          n = min (nat ring_next) ring_n;
          order = map (\<lambda>i. nat ((ring_next - int n + int i) mod int ring_n)) [0..<n]
      in rbind (rmap (\<lambda>i. read_level blob bins (o1 + i * 4 * lev_words) i) [0..<nlevels]) (\<lambda>levels.
         rbind (rmap (\<lambda>i. read_thr blob (o2 + i * 24)) [0..<nthreads]) (\<lambda>thr.
         rbind (rmap (\<lambda>i. read_rec blob (o3 + i * (4 * length REC))) [0..<ring_n]) (\<lambda>ring.
           Inr (Parsed \<lparr>sp_levels = take (nat nlev) levels, sp_dropped = dropped, sp_ring_next = ring_next,
             sp_ring_n = ring_n, sp_bins = bins, sp_late_thr = late_thr,
             sp_thr = foldl (\<lambda>d (t, n). AList.update t n d) [] (take (nat nthr) thr),
             sp_ring = map (\<lambda>i. (i, ring ! i)) order\<rparr>)))))"

definition parse :: "bytes \<Rightarrow> spin_parse res" where
  "parse blob =
     (if length blob < 4 * HEAD_WORDS then Inr (Unreadable (''spin_diag: short read'' @ nl))
      else
        rbind (unpack_u32s HEAD_WORDS blob 0) (\<lambda>hs.
          let magic = hs ! 0; rec_words = hs ! 1; lev_words = hs ! 2; dims = hs ! 3;
              bins = nat (dims div 2 ^ 8 mod 256); lev_known = int (length LEV) + int bins + 5 + rec_words
          in if magic = MAGIC_V1 then
               Inr (Unreadable (''spin_diag: an SDG1 image (one thread, lateness against 10 ms, before island #14): ''
                 @ ''decode it with spin_diag.py of island 378dd11'' @ nl))
             else if magic \<noteq> SD_MAGIC then
               Inr (Unreadable (''spin_diag: bad magic '' @ py_hex magic @ '' (no spin yet?)'' @ nl))
             else if rec_words \<noteq> int (length REC) then
               Inr (Unreadable (''spin_diag: record is '' @ dec_int rec_words @ '' words, decoder knows ''
                 @ dec_nat (length REC) @ nl))
             else if lev_words \<noteq> lev_known then
               Inr (Unreadable (''spin_diag: level is '' @ dec_int lev_words @ '' words, decoder expects ''
                 @ dec_int lev_known @ nl))
             else read_body blob (nat lev_words)
                    (nat (dims mod 256), bins, nat (dims div 2 ^ 16 mod 256), nat (dims div 2 ^ 24)) hs))"

section \<open>Texts\<close>

definition lvname :: "lev_view \<Rightarrow> string" where
  "lvname lv = x_name lv @ ''(p'' @ dec_int (x_prio lv) @ '')''"

definition hist_str :: "int list \<Rightarrow> string" where
  "hist_str h = join '' '' (map (\<lambda>(i, c). dec_nat i @ '':'' @ dec_int c) (filter (\<lambda>(i, c). c \<noteq> 0) (enumerate 0 h)))"

definition bounds :: "lev_view \<Rightarrow> string" where
  "bounds lv =
     (if x_spins lv - x_nobound lv = 0 then ''-''
      else dec_int (x_bound_min lv) @ ''..'' @ dec_int (x_bound_max lv))"

definition fmt_rec :: "(int \<Rightarrow> string list option) option \<Rightarrow> (nat \<times> string) list \<Rightarrow> (int \<times> string) list \<Rightarrow> sd_dict \<Rightarrow> string \<Rightarrow> string" where
  "fmt_rec elf names thr r tag =
     (let g = sd_get r; d = (\<lambda>k. dec_int (g k)); lvl = g ''level'';
          k = (\<lambda>p (i :: nat). p @ dec_nat i)
      in join nl (
        [tag @ '' lvl='' @ (case map_of names (nat lvl) of Some n \<Rightarrow> n | None \<Rightarrow> dec_int lvl) @ '' t='' @ d ''uptime_ms''
           @ ''ms interval='' @ d ''interval_us'' @ ''us late='' @ d ''late_us'' @ ''us park_bound=''
           @ (if g ''park_bound_us'' = NO_BOUND then ''none'' else d ''park_bound_us'' @ ''us'')
           @ '' idle_path='' @ d ''idle_path'' @ '' ncb='' @ d ''ncb'' @ '' ntake='' @ d ''ntake'' @ '' isr='' @ d ''isr_us'' @ ''us/''
           @ d ''isr_n'']
        @ map (\<lambda>i. let wl = g (k ''wall'' i); mn = g (k ''main'' i); idl = g (k ''idle'' i)
                   in ''    '' @ SEGS ! i @ '': wall='' @ rjust 6 (dec_int wl) @ '' spin='' @ rjust 6 (dec_int mn)
                      @ '' idle='' @ rjust 6 (dec_int idl) @ '' other='' @ rjust 6 (dec_int (wl - mn - idl))) [0..<5]
        @ [''    longest cb: slot='' @ d ''cb_slot'' @ '' wall='' @ d ''cb_wall_us'' @ '' spin='' @ d ''cb_main_us''
             @ '' idle='' @ d ''cb_idle_us'' @ '' isr='' @ d ''cb_isr_us'' @ ''us/'' @ d ''cb_isr_n'' @ '' at +'' @ d ''cb_off_us'' @ ''us'',
           ''    spin lock waits: n='' @ d ''lk_main_n'' @ '' total='' @ d ''lk_main_us'' @ ''us max='' @ d ''lk_main_max_us''
             @ ''us in '' @ fn_at elf (g ''lk_main_max_ra'') @ '' m='' @ py_hex (g ''lk_main_max_m''),
           ''    other lock waits: n='' @ d ''lk_oth_n'' @ '' total='' @ d ''lk_oth_us'' @ ''us max='' @ d ''lk_oth_max_us''
             @ ''us in '' @ fn_at elf (g ''lk_oth_max_ra''),
           ''    other threads: '' @ join '' '' (map (\<lambda>i. let t = g (k ''tt'' i)
                in (case map_of thr t of Some n \<Rightarrow> n | None \<Rightarrow> py_hex t) @ ''='' @ d (k ''tu'' i) @ ''us'')
                (filter (\<lambda>i. g (k ''tt'' i) \<noteq> 0) [0..<3]))]))"

definition level_lines :: "string \<Rightarrow> lev_view \<Rightarrow> string list" where
  "level_lines thr_ms x =
     (let lv = ''level '' @ dec_nat (x_index x)
      in [lv @ '' '' @ lvname x @ '': spins='' @ dec_int (x_spins x) @ '' judged='' @ dec_int (x_spins x - x_nobound x)
            @ '' nobound='' @ dec_int (x_nobound x) @ '' late(>='' @ thr_ms @ ''ms)='' @ dec_int (x_late x) @ '' max_late_us=''
            @ dec_int (x_max_late x) @ '' park_bound_us='' @ bounds x @ '' interval_max_us='' @ dec_int (x_interval_max x),
          lv @ '' lateness (ms bin: count): '' @ hist_str (x_hist x),
          lv @ '' segment max wall us: ''
            @ join '' '' (map (\<lambda>k. SEGS ! k @ ''='' @ dec_int (x_segmax x ! k)) [0..<5])])"

definition hist_sum :: "nat \<Rightarrow> lev_view list \<Rightarrow> int list" where
  "hist_sum bins lv = map (\<lambda>b. sum_list (map (\<lambda>x. x_hist x ! b) lv)) [0..<bins]"

definition decode_text :: "(int \<Rightarrow> string list option) option \<Rightarrow> spin_view \<Rightarrow> string" where
  "decode_text elf d =
     (let lv = sp_levels d; thr_ms = g_ms (sp_late_thr d); names = map (\<lambda>x. (x_index x, x_name x)) lv;
          fmt = fmt_rec elf names (sp_thr d)
      in join nl (
        [''spins='' @ dec_int (sum_list (map x_spins lv)) @ '' late(>='' @ thr_ms @ ''ms)=''
           @ dec_int (sum_list (map x_late lv)) @ '' max_late_us='' @ dec_int (foldr max (map x_max_late lv) 0)
           @ '' levels='' @ dec_nat (length lv) @ '' dropped='' @ dec_int (sp_dropped d)
           @ '' (lateness = interval past its own park bound; sum over the levels below)'',
         ''lateness histogram (ms bin: count): '' @ hist_str (hist_sum (sp_bins d) lv)]
        @ concat (map (level_lines thr_ms) lv)
        @ [''threads: '' @ join '' '' (map (\<lambda>(t, n). py_hex t @ ''='' @ n) (sp_thr d))]
        @ map (\<lambda>x. fmt (x_worst x) ''WORST'') (filter (\<lambda>x. x_max_late x \<noteq> 0) lv)
        @ map (\<lambda>(i, r). fmt r (''late#'' @ dec_nat i)) (sp_ring d)) @ nl)"

definition spin_decode :: "(int \<Rightarrow> string list option) option \<Rightarrow> bytes \<Rightarrow> string res" where
  "spin_decode elf blob =
     rbind (parse blob) (\<lambda>p. case p of Unreadable s \<Rightarrow> Inr s | Parsed d \<Rightarrow> Inr (decode_text elf d))"

section \<open>The act segment\<close>

datatype seg_worst = Exact int | Below nat | No_late

record seg_row =
  g_level :: lev_view
  g_spins :: int
  g_judged :: int
  g_ms1 :: int
  g_late :: int
  g_worst :: seg_worst
  g_hist :: "int list"

text \<open>The levels and ring counter of the pre reading; an unreadable one counts as no spin yet.\<close>

definition pre_of :: "spin_parse \<Rightarrow> lev_view list \<times> int" where
  "pre_of p = (case p of Unreadable _ \<Rightarrow> ([], 0) | Parsed d \<Rightarrow> (sp_levels d, sp_ring_next d))"

definition zero_level :: "lev_view \<Rightarrow> lev_view" where
  "zero_level x = x\<lparr>x_spins := 0, x_nobound := 0, x_late := 0, x_max_late := 0, x_hist := replicate (length (x_hist x)) 0\<rparr>"

definition ring_lates :: "spin_view \<Rightarrow> int \<Rightarrow> nat \<Rightarrow> int list" where
  "ring_lates a fresh i =
     map (\<lambda>(_, r). sd_get r ''late_us'')
       (filter (\<lambda>(_, r). sd_get r ''level'' = int i) (drop (nat (max 0 (int (length (sp_ring a)) - fresh))) (sp_ring a)))"

definition worst_of :: "spin_view \<Rightarrow> int \<Rightarrow> lev_view \<Rightarrow> lev_view \<Rightarrow> int list \<Rightarrow> seg_worst" where
  "worst_of a fresh x q h =
     (let ls = ring_lates a fresh (x_index x); bs = map fst (filter (\<lambda>(b, c). c \<noteq> 0) (enumerate 0 h))
      in if x_max_late x > x_max_late q then Exact (x_max_late x)
         else if ls \<noteq> [] \<and> fresh \<le> int (sp_ring_n a) then Exact (foldr max (tl ls) (hd ls))
         else if bs = [] then No_late else Below (last bs + 1))"

definition seg_row_of :: "(lev_view list \<times> int) \<Rightarrow> spin_view \<Rightarrow> lev_view \<Rightarrow> seg_row" where
  "seg_row_of p a x =
     (let q = (case dict_of (map (\<lambda>y. (x_tid y, y)) (fst p)) (x_tid x) of Some y \<Rightarrow> y | None \<Rightarrow> zero_level x);
          fresh = sp_ring_next a - snd p;
          h = map (\<lambda>(c, c0). c - c0) (zip (x_hist x) (x_hist q));
          spins = x_spins x - x_spins q
      in \<lparr>g_level = x, g_spins = spins, g_judged = spins - (x_nobound x - x_nobound q), g_ms1 = sum_list (drop 1 h),
          g_late = x_late x - x_late q, g_worst = worst_of a fresh x q h, g_hist = h\<rparr>)"

definition worst_text :: "seg_worst \<Rightarrow> string" where
  "worst_text w = (case w of Exact m \<Rightarrow> dec_int m @ ''us'' | Below k \<Rightarrow> ''<'' @ dec_nat k @ ''ms'' | No_late \<Rightarrow> ''-'')"

definition row_text :: "seg_row \<Rightarrow> string" where
  "row_text g =
     ljust 34 (lvname (g_level g)) @ '' '' @ rjust 6 (dec_int (g_spins g)) @ '' '' @ rjust 6 (dec_int (g_judged g)) @ '' ''
     @ rjust 6 (dec_int (g_ms1 g)) @ '' '' @ rjust 6 (dec_int (g_late g)) @ '' '' @ rjust 12 (worst_text (g_worst g)) @ '' ''
     @ rjust 20 (bounds (g_level g)) @ ''  '' @ (let s = hist_str (g_hist g) in if s = [] then ''-'' else s)"

definition segment_text :: "(lev_view list \<times> int) \<Rightarrow> spin_view \<Rightarrow> string" where
  "segment_text p a =
     (let fresh = sp_ring_next a - snd p
      in join nl (
        [ljust 34 ''level'' @ '' '' @ rjust 6 ''spins'' @ '' '' @ rjust 6 ''judged'' @ '' '' @ rjust 6 ''>=1ms'' @ '' ''
           @ rjust 6 (''>='' @ g_ms (sp_late_thr a) @ ''ms'') @ '' '' @ rjust 12 ''worst late'' @ '' ''
           @ rjust 20 ''park bound us (boot)'' @ ''  lateness ms bins (act)'']
        @ map (\<lambda>x. row_text (seg_row_of p a x)) (sp_levels a)
        @ (if fresh > int (sp_ring_n a)
           then [''(ring wrapped: '' @ dec_int fresh @ '' late records in the act, '' @ dec_nat (sp_ring_n a) @ '' kept)'']
           else [])) @ nl)"

definition segment :: "bytes \<Rightarrow> bytes \<Rightarrow> string res" where
  "segment pre_blob act_blob =
     rbind (parse act_blob) (\<lambda>a. case a of
       Unreadable s \<Rightarrow> Inr s
     | Parsed d \<Rightarrow> rbind (parse pre_blob) (\<lambda>p. Inr (segment_text (pre_of p) d)))"


section \<open>The firmware side\<close>

record sd_rec =
  r_uptime_ms :: u32
  r_interval_us :: u32
  r_seg_wall :: "u32 list"
  r_seg_main :: "u32 list"
  r_seg_idle :: "u32 list"
  r_park_bound_us :: u32
  r_idle_path :: u32
  r_ncb :: u32
  r_ntake :: u32
  r_cb :: "u32 list"          \<comment> \<open>\<open>cb_slot\<close>, \<open>cb_wall_us\<close>, \<open>cb_main_us\<close>, \<open>cb_idle_us\<close>, \<open>cb_off_us\<close>\<close>
  r_lk_main :: "u32 list"     \<comment> \<open>\<open>lk_main_n\<close> to \<open>lk_main_max_m\<close>\<close>
  r_lk_oth :: "u32 list"      \<comment> \<open>\<open>lk_oth_n\<close> to \<open>lk_oth_max_ra\<close>\<close>
  r_isr_us :: u32
  r_isr_n :: u32
  r_top_tid :: "u32 list"
  r_top_us :: "u32 list"
  r_cb_isr_us :: u32
  r_cb_isr_n :: u32
  r_level :: u32
  r_late_us :: u32

record sd_thr =
  t_tid :: u32
  t_prio :: u32
  t_name :: bytes

record sd_level =
  l_tid :: u32
  l_prio :: u32
  l_name :: bytes
  l_spins :: u32
  l_nobound :: u32
  l_late :: u32
  l_max_late_us :: u32
  l_bound_min_us :: u32
  l_bound_max_us :: u32
  l_interval_max_us :: u32
  l_hist :: "u32 list"
  l_seg_max_wall :: "u32 list"
  l_worst :: sd_rec

record sdiag =
  d_magic :: u32
  d_rec_words :: u32
  d_lev_words :: u32
  d_dims :: u32
  d_late_us :: u32
  d_nlev :: u32
  d_lev_dropped :: u32
  d_ring_next :: u32
  d_nthr :: u32
  d_lev :: "sd_level list"
  d_thr :: "sd_thr list"
  d_ring :: "sd_rec list"

definition SD_LEVELS :: nat where "SD_LEVELS = 4"
definition SD_BINS :: nat where "SD_BINS = 40"
definition SD_RING :: nat where "SD_RING = 48"
definition SD_LATE_US :: u32 where "SD_LATE_US = 2000"
definition SD_THREADS :: nat where "SD_THREADS = 16"
definition SD_SEGS :: nat where "SD_SEGS = 5"
definition SD_NO_BOUND :: u32 where "SD_NO_BOUND = 0xFFFFFFFF"

lemmas sd_consts = SD_LEVELS_def SD_BINS_def SD_RING_def SD_LATE_US_def SD_THREADS_def SD_SEGS_def SD_NO_BOUND_def

definition rec_zero :: sd_rec where
  "rec_zero = \<lparr>r_uptime_ms = 0, r_interval_us = 0, r_seg_wall = replicate SD_SEGS 0, r_seg_main = replicate SD_SEGS 0,
     r_seg_idle = replicate SD_SEGS 0, r_park_bound_us = 0, r_idle_path = 0, r_ncb = 0, r_ntake = 0, r_cb = replicate 5 0,
     r_lk_main = replicate 5 0, r_lk_oth = replicate 4 0, r_isr_us = 0, r_isr_n = 0, r_top_tid = replicate 3 0,
     r_top_us = replicate 3 0, r_cb_isr_us = 0, r_cb_isr_n = 0, r_level = 0, r_late_us = 0\<rparr>"

definition level_zero :: sd_level where
  "level_zero = \<lparr>l_tid = 0, l_prio = 0, l_name = replicate 16 0, l_spins = 0, l_nobound = 0, l_late = 0, l_max_late_us = 0,
     l_bound_min_us = 0, l_bound_max_us = 0, l_interval_max_us = 0, l_hist = replicate SD_BINS 0,
     l_seg_max_wall = replicate SD_SEGS 0, l_worst = rec_zero\<rparr>"

definition sd_boot :: sdiag where
  "sd_boot = \<lparr>d_magic = 0, d_rec_words = 0, d_lev_words = 0, d_dims = 0, d_late_us = 0, d_nlev = 0, d_lev_dropped = 0,
     d_ring_next = 0, d_nthr = 0, d_lev = replicate SD_LEVELS level_zero,
     d_thr = replicate SD_THREADS \<lparr>t_tid = 0, t_prio = 0, t_name = replicate 16 0\<rparr>, d_ring = replicate SD_RING rec_zero\<rparr>"

definition sd_copy_name :: "bytes option \<Rightarrow> bytes" where
  "sd_copy_name nm =
     (let n = (case nm of None \<Rightarrow> [] | Some b \<Rightarrow> takeWhile (\<lambda>c. c \<noteq> 0) (take 15 b)) in n @ replicate (16 - length n) 0)"

definition sd_work_of :: "u32 \<Rightarrow> sdiag \<Rightarrow> nat option" where
  "sd_work_of t s = List.find (\<lambda>i. l_tid (d_lev s ! i) = t) [0..<unat (d_nlev s)]"

definition sd_magic_set :: "sdiag \<Rightarrow> sdiag" where
  "sd_magic_set s =
     (if d_magic s \<noteq> 0x32474453 then
        s\<lparr>d_rec_words := 47, d_lev_words := 105,
          d_dims := of_nat SD_LEVELS OR push_bit 8 (of_nat SD_BINS) OR push_bit 16 (of_nat SD_RING) OR push_bit 24 (of_nat SD_THREADS),
          d_late_us := SD_LATE_US, d_magic := 0x32474453\<rparr>
      else s)"

definition sd_register :: "u32 \<Rightarrow> u32 \<Rightarrow> bytes option \<Rightarrow> sdiag \<Rightarrow> sdiag" where
  "sd_register t prio nm s0 =
     (let s = sd_magic_set s0; i = unat (d_nlev s)
      in if i < SD_LEVELS then
           s\<lparr>d_lev := (d_lev s)[i := (d_lev s ! i)\<lparr>l_tid := t, l_prio := prio, l_name := sd_copy_name nm,
               l_bound_min_us := SD_NO_BOUND\<rparr>],
             d_nlev := d_nlev s + 1\<rparr>
         else s\<lparr>d_lev_dropped := d_lev_dropped s + 1\<rparr>)"

text \<open>The thread table's part of \<open>sd_thread_cb\<close>.\<close>

definition sd_thr_index :: "u32 \<Rightarrow> sdiag \<Rightarrow> nat option" where
  "sd_thr_index tid s = List.find (\<lambda>i. t_tid (d_thr s ! i) = tid) [0..<unat (d_nthr s)]"

definition sd_thread_cb :: "u32 \<Rightarrow> u32 \<Rightarrow> bytes option \<Rightarrow> sdiag \<Rightarrow> sdiag" where
  "sd_thread_cb t prio nm s =
     (if sd_thr_index t s = None \<and> unat (d_nthr s) < SD_THREADS then
        s\<lparr>d_thr := (d_thr s)[unat (d_nthr s) := \<lparr>t_tid = t, t_prio = prio, t_name = sd_copy_name nm\<rparr>],
          d_nthr := d_nthr s + 1\<rparr>
      else s)"

text \<open>\<open>sd_close_interval\<close>, from the filled record \<open>c\<close> on: what it adds to its level and to the ring.\<close>

definition push_late :: "sd_rec \<Rightarrow> sdiag \<Rightarrow> sdiag" where
  "push_late c s = s\<lparr>d_ring := (d_ring s)[unat (d_ring_next s mod of_nat SD_RING) := c], d_ring_next := d_ring_next s + 1\<rparr>"

definition close_any :: "sd_rec \<Rightarrow> sd_level \<Rightarrow> sd_level" where
  "close_any c l =
     l\<lparr>l_spins := l_spins l + 1,
       l_interval_max_us := (if r_interval_us c > l_interval_max_us l then r_interval_us c else l_interval_max_us l),
       l_seg_max_wall := map2 (\<lambda>w m. if w > m then w else m) (r_seg_wall c) (l_seg_max_wall l)\<rparr>"

definition close_judged :: "sd_rec \<Rightarrow> u32 \<Rightarrow> sd_level \<Rightarrow> sd_level" where
  "close_judged c late l =
     (let bound = r_park_bound_us c;
          bin = (if late div 1000 \<ge> of_nat SD_BINS then of_nat SD_BINS - 1 else late div 1000);
          l1 = l\<lparr>l_bound_min_us := (if bound < l_bound_min_us l then bound else l_bound_min_us l),
                 l_bound_max_us := (if bound > l_bound_max_us l then bound else l_bound_max_us l),
                 l_hist := (l_hist l)[unat bin := l_hist l ! unat bin + 1],
                 l_late := (if late \<ge> SD_LATE_US then l_late l + 1 else l_late l)\<rparr>
      in if late > l_max_late_us l1 then l1\<lparr>l_max_late_us := late, l_worst := c\<rparr> else l1)"

definition sd_file :: "bool \<Rightarrow> sd_rec \<Rightarrow> sdiag \<Rightarrow> sdiag" where
  "sd_file have_bound c s =
     (let li = unat (r_level c); l = close_any c (d_lev s ! li)
      in if \<not> have_bound then s\<lparr>d_lev := (d_lev s)[li := l\<lparr>l_nobound := l_nobound l + 1\<rparr>]\<rparr>
         else
           (let late = (if r_interval_us c > r_park_bound_us c then r_interval_us c - r_park_bound_us c else 0);
                c1 = c\<lparr>r_late_us := late\<rparr>;
                s1 = s\<lparr>d_lev := (d_lev s)[li := close_judged c1 late l]\<rparr>
            in if late \<ge> SD_LATE_US then push_late c1 s1 else s1))"

text \<open>The struct in memory.\<close>

definition rec_words :: "sd_rec \<Rightarrow> u32 list" where
  "rec_words c = [r_uptime_ms c, r_interval_us c] @ r_seg_wall c @ r_seg_main c @ r_seg_idle c
     @ [r_park_bound_us c, r_idle_path c, r_ncb c, r_ntake c] @ r_cb c @ r_lk_main c @ r_lk_oth c @ [r_isr_us c, r_isr_n c]
     @ r_top_tid c @ r_top_us c @ [r_cb_isr_us c, r_cb_isr_n c, r_level c, r_late_us c]"

definition rec_bytes :: "sd_rec \<Rightarrow> bytes" where
  "rec_bytes c = pack_u32s (map uint (rec_words c))"

definition sd_level_bytes :: "sd_level \<Rightarrow> bytes" where
  "sd_level_bytes l = pack_u32s (map uint [l_tid l, l_prio l]) @ l_name l
     @ pack_u32s (map uint [l_spins l, l_nobound l, l_late l, l_max_late_us l, l_bound_min_us l, l_bound_max_us l, l_interval_max_us l])
     @ pack_u32s (map uint (l_hist l)) @ pack_u32s (map uint (l_seg_max_wall l)) @ rec_bytes (l_worst l)"

definition thr_bytes :: "sd_thr \<Rightarrow> bytes" where
  "thr_bytes t = pack_u32s (map uint [t_tid t, t_prio t]) @ t_name t"

definition sd_head :: "sdiag \<Rightarrow> u32 list" where
  "sd_head s = [d_magic s, d_rec_words s, d_lev_words s, d_dims s, d_late_us s, d_nlev s, d_lev_dropped s, d_ring_next s, d_nthr s]"

definition sd_bytes :: "sdiag \<Rightarrow> bytes" where
  "sd_bytes s = pack_u32s (map uint (sd_head s)) @ concat (map sd_level_bytes (d_lev s)) @ concat (map thr_bytes (d_thr s))
     @ concat (map rec_bytes (d_ring s))"

text \<open>A run of the firmware: what it files between two states.\<close>

definition rec_ok :: "sd_rec \<Rightarrow> bool" where
  "rec_ok c = (length (r_seg_wall c) = 5 \<and> length (r_seg_main c) = 5 \<and> length (r_seg_idle c) = 5 \<and> length (r_cb c) = 5
     \<and> length (r_lk_main c) = 5 \<and> length (r_lk_oth c) = 4 \<and> length (r_top_tid c) = 3 \<and> length (r_top_us c) = 3)"

inductive sd_run :: "sdiag \<Rightarrow> (bool \<times> sd_rec) list \<Rightarrow> sdiag \<Rightarrow> bool" for s0 where
  start: "sd_run s0 [] s0"
| level: "sd_run s0 h s \<Longrightarrow> sd_work_of t s = None \<Longrightarrow> sd_run s0 h (sd_register t prio nm s)"
| thread: "sd_run s0 h s \<Longrightarrow> sd_run s0 h (sd_thread_cb t prio nm s)"
| spin: "sd_run s0 h s \<Longrightarrow> unat (r_level c) < unat (d_nlev s) \<Longrightarrow> rec_ok c \<Longrightarrow> sd_run s0 (h @ [(b, c)]) (sd_file b c s)"


section \<open>Reading the struct back\<close>

lemma REC_facts: "length REC = 47" "distinct REC" "REC ! 45 = ''level''" "REC ! 46 = ''late_us''" "length LEV = 13"
  by code_simp+

lemma length_rec_words: "rec_ok c \<Longrightarrow> length (rec_words c) = 47"
  by (simp add: rec_ok_def rec_words_def)

lemma rec_words_nth: "rec_ok c \<Longrightarrow> rec_words c ! 45 = r_level c \<and> rec_words c ! 46 = r_late_us c"
  by (simp add: rec_ok_def rec_words_def nth_append)

definition rec_view :: "sd_rec \<Rightarrow> sd_dict" where
  "rec_view c = zip REC (map uint (rec_words c))"

lemma rec_view_get:
  assumes "rec_ok c"
  shows "sd_get (rec_view c) ''level'' = uint (r_level c)" "sd_get (rec_view c) ''late_us'' = uint (r_late_us c)"
proof -
  have "map_of (rec_view c) (REC ! i) = Some (uint (rec_words c ! i))" if "i < 47" for i
    using that length_rec_words [OF assms] REC_facts unfolding rec_view_def by (subst map_of_zip_nth) simp_all
  from this [of 45] this [of 46] show "sd_get (rec_view c) ''level'' = uint (r_level c)" "sd_get (rec_view c) ''late_us'' = uint (r_late_us c)"
    using rec_words_nth [OF assms] by (simp_all add: REC_facts sd_get_def)
qed

lemma length_rec_bytes [simp]: "rec_ok c \<Longrightarrow> length (rec_bytes c) = 188"
  by (simp add: rec_bytes_def length_rec_words)

lemma read_rec_seg: "rec_ok c \<Longrightarrow> blob = pre @ rec_bytes c @ post \<Longrightarrow> read_rec blob (length pre) = Inr (rec_view c)"
  using unpack_seg [of blob pre "rec_words c" post 47] by (simp add: read_rec_def rec_bytes_def length_rec_words REC_facts rec_view_def)

definition sd_level_ok :: "sd_level \<Rightarrow> bool" where
  "sd_level_ok l = (length (l_name l) = 16 \<and> length (l_hist l) = 40 \<and> length (l_seg_max_wall l) = 5 \<and> rec_ok (l_worst l))"

definition level_view :: "nat \<Rightarrow> sd_level \<Rightarrow> lev_view" where
  "level_view i l = \<lparr>x_index = i, x_tid = uint (l_tid l), x_prio = sprio (uint (l_prio l)),
     x_name = (let n = cstr (l_name l) in if n = [] then py_hex (uint (l_tid l)) else n),
     x_spins = uint (l_spins l), x_nobound = uint (l_nobound l), x_late = uint (l_late l), x_max_late = uint (l_max_late_us l),
     x_bound_min = uint (l_bound_min_us l), x_bound_max = uint (l_bound_max_us l),
     x_interval_max = uint (l_interval_max_us l), x_hist = map uint (l_hist l),
     x_segmax = map uint (l_seg_max_wall l), x_worst = rec_view (l_worst l)\<rparr>"

lemma length_level_bytes [simp]: "sd_level_ok l \<Longrightarrow> length (sd_level_bytes l) = 420"
  by (simp add: sd_level_bytes_def sd_level_ok_def)

lemma read_level_seg:
  assumes ok: "sd_level_ok l" and blob: "blob = pre @ sd_level_bytes l @ post"
  shows "read_level blob 40 (length pre) i = Inr (level_view i l)"
proof -
  let ?a = "pack_u32s (map uint [l_tid l, l_prio l])"
  let ?b = "pack_u32s (map uint [l_spins l, l_nobound l, l_late l, l_max_late_us l, l_bound_min_us l, l_bound_max_us l, l_interval_max_us l])"
  let ?c = "pack_u32s (map uint (l_hist l))" and ?d = "pack_u32s (map uint (l_seg_max_wall l))"
  have len: "length (l_name l) = 16" "length (l_hist l) = 40" "length (l_seg_max_wall l) = 5" "rec_ok (l_worst l)"
    using ok by (simp_all add: sd_level_ok_def)
  have b: "blob = pre @ ?a @ (l_name l @ ?b @ ?c @ ?d @ rec_bytes (l_worst l) @ post)"
    "blob = (pre @ ?a @ l_name l) @ ?b @ (?c @ ?d @ rec_bytes (l_worst l) @ post)"
    "blob = (pre @ ?a @ l_name l @ ?b) @ ?c @ (?d @ rec_bytes (l_worst l) @ post)"
    "blob = (pre @ ?a @ l_name l @ ?b @ ?c) @ ?d @ (rec_bytes (l_worst l) @ post)"
    "blob = (pre @ ?a @ l_name l @ ?b @ ?c @ ?d) @ rec_bytes (l_worst l) @ post"
    by (simp_all only: blob sd_level_bytes_def append_assoc)
  have n: "bslice blob (length pre + 8) (length pre + 8 + 16) = l_name l"
    unfolding b(1) using len(1) by (simp add: bslice_def)
  have "unpack_u32s 2 blob (length pre) = Inr (map uint [l_tid l, l_prio l])"
    "unpack_u32s 7 blob (length pre + 24)
       = Inr (map uint [l_spins l, l_nobound l, l_late l, l_max_late_us l, l_bound_min_us l, l_bound_max_us l, l_interval_max_us l])"
    "unpack_u32s 40 blob (length pre + 52) = Inr (map uint (l_hist l))"
    "unpack_u32s 5 blob (length pre + 52 + 4 * 40) = Inr (map uint (l_seg_max_wall l))"
    "read_rec blob (length pre + 52 + 4 * 40 + 20) = Inr (rec_view (l_worst l))"
    using unpack_seg [OF b(1), of 2] unpack_seg [OF b(2), of 7] unpack_seg [OF b(3), of 40] unpack_seg [OF b(4), of 5] read_rec_seg [OF len(4) b(5)] len
    by (simp_all add: add.commute add.left_commute)
  moreover have n': "sd_name blob (length pre + 8) t = (let n = cstr (l_name l) in if n = [] then py_hex t else n)" for t
    unfolding sd_name_def n ..
  ultimately show ?thesis by (simp add: read_level_def level_view_def Let_def)
qed


definition thr_ok :: "sd_thr \<Rightarrow> bool" where
  "thr_ok t = (length (t_name t) = 16)"

definition thr_view :: "sd_thr \<Rightarrow> int \<times> string" where
  "thr_view t = (uint (t_tid t), (let n = cstr (t_name t) in if n = [] then py_hex (uint (t_tid t)) else n)
     @ ''(p'' @ dec_int (sprio (uint (t_prio t))) @ '')'')"

lemma length_thr_bytes [simp]: "thr_ok t \<Longrightarrow> length (thr_bytes t) = 24"
  by (simp add: thr_bytes_def thr_ok_def)

lemma read_thr_seg:
  assumes "thr_ok t" "blob = pre @ thr_bytes t @ post"
  shows "read_thr blob (length pre) = Inr (thr_view t)"
proof -
  have b: "blob = pre @ pack_u32s (map uint [t_tid t, t_prio t]) @ (t_name t @ post)" by (simp add: assms(2) thr_bytes_def)
  have "bslice blob (length pre + 8) (length pre + 8 + 16) = t_name t" unfolding b using assms(1) by (simp add: bslice_def thr_ok_def)
  with unpack_seg [OF b, of 2] show ?thesis by (simp add: read_thr_def sd_name_def thr_view_def Let_def)
qed

definition sd_ok :: "sdiag \<Rightarrow> bool" where
  "sd_ok s = (length (d_lev s) = 4 \<and> length (d_thr s) = 16 \<and> length (d_ring s) = 48 \<and> list_all sd_level_ok (d_lev s)
     \<and> list_all thr_ok (d_thr s) \<and> list_all rec_ok (d_ring s) \<and> unat (d_nlev s) \<le> 4)"

definition sd_live :: "sdiag \<Rightarrow> bool" where
  "sd_live s = (d_magic s = 0x32474453 \<and> d_rec_words s = 47 \<and> d_lev_words s = 105 \<and> d_dims s = 0x10302804 \<and> d_late_us s = 2000)"

definition ring_view :: "sdiag \<Rightarrow> (nat \<times> sd_dict) list" where
  "ring_view s = (let n = min (unat (d_ring_next s)) 48
     in map (\<lambda>i. let j = (unat (d_ring_next s) - n + i) mod 48 in (j, rec_view (d_ring s ! j))) [0..<n])"

definition sd_view :: "sdiag \<Rightarrow> spin_view" where
  "sd_view s = \<lparr>sp_levels = map (\<lambda>i. level_view i (d_lev s ! i)) [0..<unat (d_nlev s)], sp_dropped = uint (d_lev_dropped s),
     sp_ring_next = uint (d_ring_next s), sp_ring_n = 48, sp_bins = 40, sp_late_thr = 2000,
     sp_thr = foldl (\<lambda>d (t, n). AList.update t n d) [] (map thr_view (take (unat (d_nthr s)) (d_thr s))),
     sp_ring = ring_view s\<rparr>"

lemma length_sd_blocks:
  assumes "sd_ok s"
  shows "length (concat (map sd_level_bytes (d_lev s))) = 4 * 420" "length (concat (map thr_bytes (d_thr s))) = 16 * 24"
proof -
  have "map (length \<circ> sd_level_bytes) (d_lev s) = replicate 4 420" "map (length \<circ> thr_bytes) (d_thr s) = replicate 16 24"
    using assms by (intro nth_equalityI; simp add: sd_ok_def list_all_length)+
  then show "length (concat (map sd_level_bytes (d_lev s))) = 4 * 420" "length (concat (map thr_bytes (d_thr s))) = 16 * 24"
    by (simp_all add: length_concat sum_list_replicate)
qed

lemma unpack_sd_head: "unpack_u32s 9 (sd_bytes s) 0 = Inr (map uint (sd_head s))"
  using unpack_seg [of "sd_bytes s" "[]" "sd_head s" _ 9] by (simp add: sd_bytes_def sd_head_def)

lemma sd_tables:
  assumes "sd_ok s"
  shows "rmap (\<lambda>i. read_level (sd_bytes s) 40 (4 * 9 + i * 4 * 105) i) [0..<4] = Inr (map (\<lambda>i. level_view i (d_lev s ! i)) [0..<4])"
    and "rmap (\<lambda>i. read_thr (sd_bytes s) (4 * 9 + 4 * 4 * 105 + i * 24)) [0..<16] = Inr (map (\<lambda>i. thr_view (d_thr s ! i)) [0..<16])"
    and "rmap (\<lambda>i. read_rec (sd_bytes s) (4 * 9 + 4 * 4 * 105 + 16 * 24 + i * (4 * 47))) [0..<48]
      = Inr (map (\<lambda>i. rec_view (d_ring s ! i)) [0..<48])"
proof -
  let ?b = "sd_bytes s" and ?h = "pack_u32s (map uint (sd_head s))"
  let ?l = "concat (map sd_level_bytes (d_lev s))" and ?t = "concat (map thr_bytes (d_thr s))" and ?r = "concat (map rec_bytes (d_ring s))"
  have ok: "length (d_lev s) = 4" "length (d_thr s) = 16" "length (d_ring s) = 48" "\<forall>l \<in> set (d_lev s). sd_level_ok l"
    "\<forall>t \<in> set (d_thr s). thr_ok t" "\<forall>c \<in> set (d_ring s). rec_ok c"
    using assms by (simp_all add: sd_ok_def list_all_iff)
  have len: "length ?h = 36" "length (?h @ ?l) = 1716" "length (?h @ ?l @ ?t) = 2100"
    using length_sd_blocks [OF assms] by (simp_all add: sd_head_def)
  have "rmap (\<lambda>i. read_level ?b 40 (length ?h + i * 420) i) [0..<4] = Inr (map (\<lambda>i. level_view i (d_lev s ! i)) [0..<4])"
    using read_level_seg ok by (intro read_blocks [where qb = "?t @ ?r" and f = sd_level_bytes]) (simp_all add: sd_bytes_def)
  then show "rmap (\<lambda>i. read_level ?b 40 (4 * 9 + i * 4 * 105) i) [0..<4] = Inr (map (\<lambda>i. level_view i (d_lev s ! i)) [0..<4])"
    unfolding len by (simp add: mult.assoc)
  have "rmap (\<lambda>i. (\<lambda>o1 _. read_thr ?b o1) (length (?h @ ?l) + i * 24) i) [0..<16] = Inr (map (\<lambda>i. (\<lambda>_. thr_view) i (d_thr s ! i)) [0..<16])"
    using read_thr_seg ok by (intro read_blocks [where qb = ?r and f = thr_bytes]) (simp_all add: sd_bytes_def)
  then show "rmap (\<lambda>i. read_thr ?b (4 * 9 + 4 * 4 * 105 + i * 24)) [0..<16] = Inr (map (\<lambda>i. thr_view (d_thr s ! i)) [0..<16])"
    unfolding len by simp
  have "rmap (\<lambda>i. (\<lambda>o1 _. read_rec ?b o1) (length (?h @ ?l @ ?t) + i * 188) i) [0..<48] = Inr (map (\<lambda>i. (\<lambda>_. rec_view) i (d_ring s ! i)) [0..<48])"
    using read_rec_seg ok by (intro read_blocks [where qb = "[]" and f = rec_bytes]) (simp_all add: sd_bytes_def)
  then show "rmap (\<lambda>i. read_rec ?b (4 * 9 + 4 * 4 * 105 + 16 * 24 + i * (4 * 47))) [0..<48] = Inr (map (\<lambda>i. rec_view (d_ring s ! i)) [0..<48])"
    unfolding len by simp
qed

lemma ring_order:
  fixes w :: u32
  assumes "n \<le> unat w"
  shows "map (\<lambda>i. nat ((uint w - int n + int i) mod 48)) [0..<n] = map (\<lambda>i. (unat w - n + i) mod 48) [0..<n]"
proof (rule map_cong [OF refl])
  fix i
  have "uint w - int n + int i = int (unat w - n + i)" using assms by (simp add: of_nat_diff)
  then show "nat ((uint w - int n + int i) mod 48) = (unat w - n + i) mod 48"
    using nat_mod_distrib [of "int (unat w - n + i)" 48] by (simp only: nat_int) simp
qed

lemma read_body_sd:
  assumes "sd_ok s"
  shows "read_body (sd_bytes s) 105 (4, 40, 48, 16) (map uint (sd_head s)) = Inr (Parsed ((sd_view s)\<lparr>sp_late_thr := uint (d_late_us s)\<rparr>))"
proof -
  define n where "n = min (unat (d_ring_next s)) 48"
  have tk: "take k (map (\<lambda>i. thr_view (d_thr s ! i)) [0..<16]) = map thr_view (take k (d_thr s))" for k
    using assms by (intro nth_equalityI) (simp_all add: sd_ok_def)
  have nl: "take (unat (d_nlev s)) (map (\<lambda>i. level_view i (d_lev s ! i)) [0..<4]) = map (\<lambda>i. level_view i (d_lev s ! i)) [0..<unat (d_nlev s)]"
    using assms by (intro nth_equalityI) (simp_all add: sd_ok_def)
  have order: "map (\<lambda>i. nat ((uint (d_ring_next s) - int n + int i) mod 48)) [0..<n] = map (\<lambda>i. (unat (d_ring_next s) - n + i) mod 48) [0..<n]"
    by (rule ring_order) (simp add: n_def)
  have rv: "map (\<lambda>i. (i, map (\<lambda>i. rec_view (d_ring s ! i)) [0..<48] ! i)) (map (\<lambda>i. (unat (d_ring_next s) - n + i) mod 48) [0..<n]) = ring_view s"
    by (simp add: ring_view_def Let_def flip: n_def)
  have h: "map uint (sd_head s) ! 4 = uint (d_late_us s)" "map uint (sd_head s) ! 5 = uint (d_nlev s)"
    "map uint (sd_head s) ! 6 = uint (d_lev_dropped s)" "map uint (sd_head s) ! 7 = uint (d_ring_next s)"
    "map uint (sd_head s) ! 8 = uint (d_nthr s)"
    by (simp_all add: sd_head_def)
  have u: "nat (uint w) = unat w" for w :: u32 by simp
  show ?thesis
    unfolding read_body_def Let_def prod.case h REC_facts HEAD_WORDS_def sd_tables [OF assms] rbind_simps u tk nl
      n_def [symmetric] of_nat_numeral order rv
    by (simp add: sd_view_def)
qed

lemma parse_sd_bytes:
  assumes "sd_ok s" "sd_live s"
  shows "parse (sd_bytes s) = Inr (Parsed (sd_view s))"
proof -
  have n: "\<not> length (sd_bytes s) < 4 * 9" by (simp add: sd_bytes_def sd_head_def)
  have h: "map uint (sd_head s) ! 0 = 0x32474453" "map uint (sd_head s) ! 1 = 47" "map uint (sd_head s) ! 2 = 105"
    "map uint (sd_head s) ! 3 = 0x10302804"
    using assms(2) by (simp_all add: sd_head_def sd_live_def)
  have "uint (d_late_us s) = 2000" using assms(2) by (simp add: sd_live_def)
  then show ?thesis
    using read_body_sd [OF assms(1)] n
    by (simp add: parse_def HEAD_WORDS_def unpack_sd_head h h(2) [unfolded One_nat_def] MAGIC_V1_def SD_MAGIC_def REC_facts sd_view_def Let_def)
qed

lemma parse_sd_early:
  assumes "d_magic s = 0"
  shows "\<exists>t. parse (sd_bytes s) = Inr (Unreadable t)"
proof -
  have "\<not> length (sd_bytes s) < 4 * 9" by (simp add: sd_bytes_def sd_head_def)
  moreover have "map uint (sd_head s) ! 0 = 0" using assms by (simp add: sd_head_def)
  ultimately show ?thesis
    by (simp add: parse_def HEAD_WORDS_def unpack_sd_head MAGIC_V1_def SD_MAGIC_def Let_def)
qed

end
