(* ===== verification/Lock_Probe.thy ===== *)
theory Lock_Probe
  imports Ring_Log
begin

text \<open>The executor lock's measurement: \<^verbatim>\<open>src/zephyr_entry/src/island_lock_probe.c\<close>, which times every outermost hold of
  the lock, the uncontended pairs at boot and the stacks, and \<^verbatim>\<open>tools/board/lock_probe.py\<close>, which decodes the record
  (\<open>decode\<close>) and prints it (\<open>report\<close>).

  The record keeps the C widths. A cycle or uptime counter is read at a point of the call, so each reading is an argument;
  so are the results of the wrapped lock and of the kernel's queries. What two nested locks do to the lock itself is the
  lock's own documented behaviour (one owner, recursive), the state \<open>m\<close> of \<open>lp_run\<close>.\<close>

section \<open>The reader\<close>

definition LP_MAGIC :: int where "LP_MAGIC = 0x4C4B5052"
definition HOLDERS :: nat where "HOLDERS = 4"
definition STACKS :: nat where "STACKS = 16"
definition BUCKETS :: nat where "BUCKETS = 8"
definition LEVELS :: nat where "LEVELS = 4"
definition LEVEL_MAGIC :: int where "LEVEL_MAGIC = 0x4C564C46"

lemmas lp_consts = LP_MAGIC_def HOLDERS_def STACKS_def BUCKETS_def LEVELS_def LEVEL_MAGIC_def

record bench_view =
  be_min :: int
  be_avg :: int
  be_max :: int

record holder_view =
  hv_tid :: int
  hv_prio :: int
  hv_name :: string
  hv_holds :: int
  hv_hold_max :: int
  hv_hold_max_ms :: int
  hv_steady_hold_max :: int
  hv_steady_hold_max_ms :: int
  hv_hold_sum :: int
  hv_wait_max :: int
  hv_steady_wait_max :: int
  hv_waits_over_5us :: int
  hv_buckets :: "int list"

record stack_view =
  sv_name :: string
  sv_size :: int
  sv_used :: int

record frame_view =
  fv_name :: string
  fv_size :: int
  fv_setup :: int
  fv_entry :: int
  fv_steady :: int
  fv_passes :: int
  fv_scans :: int

record probe_view =
  pv_levels :: "frame_view list"
  pv_hz :: int
  pv_n :: int
  pv_empty :: int
  pv_bench :: "(string \<times> bench_view) list"
  pv_installed :: int
  pv_overflow :: int
  pv_depth_errors :: int
  pv_steady_ms :: int
  pv_scans :: int
  pv_holders :: "holder_view list"
  pv_stacks :: "stack_view list"

definition bench_keys :: "nat \<Rightarrow> string list" where
  "bench_keys n = [''kmutex_pair'', ''kmutex_nested'', ''rec_pair''] @ (if n \<ge> 852 then [''exec_pair''] else [])"

definition read_bench :: "bytes \<Rightarrow> nat \<Rightarrow> bench_view res" where
  "read_bench blob o1 = rbind (unpack_u32s 3 blob o1) (\<lambda>v. Inr \<lparr>be_min = v ! 0, be_avg = v ! 1, be_max = v ! 2\<rparr>)"

definition read_holder :: "bytes \<Rightarrow> nat \<Rightarrow> holder_view res" where   \<comment> \<open>\<open>HOLDER\<close>, 96 bytes\<close>
  "read_holder blob o1 =
     (if o1 + 96 > length blob then Inl StructError
      else (let tid = words_at 1 blob o1 ! 0; v = words_at (10 + BUCKETS) blob (o1 + 24)
            in Inr \<lparr>hv_tid = tid, hv_prio = le_sint (bslice blob (o1 + 4) (o1 + 8)),
                 hv_name = cstr (bslice blob (o1 + 8) (o1 + 24)), hv_holds = v ! 0, hv_hold_max = v ! 1, hv_hold_max_ms = v ! 2,
                 hv_steady_hold_max = v ! 3, hv_steady_hold_max_ms = v ! 4, hv_hold_sum = v ! 5 OR push_bit 32 (v ! 6),
                 hv_wait_max = v ! 7, hv_steady_wait_max = v ! 8, hv_waits_over_5us = v ! 9,
                 hv_buckets = drop 10 v\<rparr>))"

definition read_stack :: "bytes \<Rightarrow> nat \<Rightarrow> stack_view option res" where   \<comment> \<open>\<open>STACK\<close>; \<open>None\<close> when \<open>name[0]\<close> is 0\<close>
  "read_stack blob o1 =
     (if o1 + 24 > length blob then Inl StructError
      else (let name = bslice blob o1 (o1 + 16); v = words_at 2 blob (o1 + 16)
            in Inr (if name ! 0 \<noteq> 0 then Some \<lparr>sv_name = cstr name, sv_size = v ! 0, sv_used = v ! 1\<rparr> else None)))"

definition read_frame :: "bytes \<Rightarrow> int \<Rightarrow> nat \<Rightarrow> frame_view option res" where   \<comment> \<open>\<open>LEVEL\<close>, 44 bytes\<close>
  "read_frame blob lmagic o1 =
     (if o1 + 44 > length blob then Inl StructError
      else (let tid = words_at 1 blob o1 ! 0; v = words_at 6 blob (o1 + 20)
            in Inr (if lmagic = LEVEL_MAGIC \<and> tid \<noteq> 0
                    then Some \<lparr>fv_name = cstr (bslice blob (o1 + 4) (o1 + 20)), fv_size = v ! 0, fv_setup = v ! 1, fv_entry = v ! 2,
                           fv_steady = v ! 3, fv_passes = v ! 4, fv_scans = v ! 5\<rparr>
                    else None)))"

definition lock_decode :: "bytes \<Rightarrow> probe_view res" where
  "lock_decode blob =
     rbind (unpack_u32s 4 blob 0) (\<lambda>h.
     if h ! 0 \<noteq> LP_MAGIC then Inl (SystemExit ''lock_probe: bad magic'')
     else
       let ks = bench_keys (length blob); o1 = 16 + 12 * length ks; o2 = o1 + 20; o3 = o2 + HOLDERS * 96; o4 = o3 + STACKS * 24
       in rbind (rmap (\<lambda>i. read_bench blob (16 + i * 12)) [0..<length ks]) (\<lambda>bs.
          rbind (unpack_u32s 5 blob o1) (\<lambda>t.
          rbind (rmap (\<lambda>i. read_holder blob (o2 + i * 96)) [0..<HOLDERS]) (\<lambda>hs.
          rbind (rmap (\<lambda>i. read_stack blob (o3 + i * 24)) [0..<STACKS]) (\<lambda>ss.
          rbind (if o4 + 4 + LEVELS * 44 \<le> length blob
                 then rbind (unpack_u32 blob o4) (\<lambda>lmagic. rmap (\<lambda>i. read_frame blob lmagic (o4 + 4 + i * 44)) [0..<LEVELS])
                 else Inr []) (\<lambda>ls.
            Inr \<lparr>pv_levels = List.map_filter id ls, pv_hz = h ! 1, pv_n = h ! 2, pv_empty = h ! 3,
              pv_bench = zip ks bs, pv_installed = t ! 0, pv_overflow = t ! 1, pv_depth_errors = t ! 2, pv_steady_ms = t ! 3,
              pv_scans = t ! 4, pv_holders = filter (\<lambda>x. hv_tid x \<noteq> 0) hs, pv_stacks = List.map_filter id ss\<rparr>))))))"

section \<open>The text\<close>

definition us_text :: "nat \<Rightarrow> int \<Rightarrow> rat \<Rightarrow> string res" where   \<comment> \<open>\<open>f"{us(c):.kf}"\<close>\<close>
  "us_text k hz c = (if hz = 0 then Inl ZeroDivisionError else Inr (fix_digits k (c * 1000000 / of_int hz)))"

definition bench_line :: "probe_view \<Rightarrow> string \<times> string \<Rightarrow> string list res" where
  "bench_line d kl =
     (case map_of (pv_bench d) (fst kl) of
        None \<Rightarrow> Inr []
      | Some b \<Rightarrow>
          if be_min b = 0 \<and> be_avg b = 0 then Inr []
          else rbind (us_text 3 (pv_hz d) (of_int (be_avg b))) (\<lambda>u.
            Inr [''    '' @ ljust 38 (snd kl) @ '' '' @ dec_int (be_min b) @ ''/'' @ dec_int (be_avg b) @ ''/'' @ dec_int (be_max b)
                   @ ''  ('' @ u @ '' us)'']))"

definition bench_labels :: "(string \<times> string) list" where
  "bench_labels = [(''kmutex_pair'', ''k_mutex lock+unlock, uncontended''),
     (''kmutex_nested'', ''k_mutex nested pair (already held)''),
     (''rec_pair'', ''nros_platform_mutex_rec lock+unlock''),
     (''exec_pair'', ''nros_zephyr_exec_lock+unlock (P10)'')]"

definition lp_edges_text :: "string list" where
  "lp_edges_text = [''<2'', ''2-5'', ''5-10'', ''10-50'', ''50-100'', ''100-500'', ''500-1000'', ''>=1000'']"

definition holder_lines :: "int \<Rightarrow> holder_view \<Rightarrow> string list res" where
  "holder_lines hz h =
     (let us1 = (\<lambda>x. us_text 1 hz (of_int x)) in
      rbind (us_text 3 hz (if hv_holds h \<noteq> 0 then of_int (hv_hold_sum h) / of_int (hv_holds h) else 0)) (\<lambda>a.
      rbind (us1 (hv_hold_max h)) (\<lambda>m. rbind (us1 (hv_steady_hold_max h)) (\<lambda>sm.
      rbind (us1 (hv_wait_max h)) (\<lambda>w. rbind (us1 (hv_steady_wait_max h)) (\<lambda>sw.
        Inr [''  holder '' @ (if hv_name h = [] then py_hex (hv_tid h) else hv_name h) @ '' prio '' @ dec_int (hv_prio h) @ '': holds ''
               @ dec_int (hv_holds h) @ '', avg '' @ a @ '' us, max '' @ m @ '' us (uptime '' @ dec_int (hv_hold_max_ms h)
               @ '' ms), steady max '' @ sm @ '' us (uptime '' @ dec_int (hv_steady_hold_max_ms h) @ '' ms); wait max '' @ w
               @ '' us, steady '' @ sw @ '' us, waits over 5 us '' @ dec_int (hv_waits_over_5us h),
             ''    holds by us: '' @ join '', '' (map (\<lambda>(e, c). e @ '' '' @ dec_int c)
               (filter (\<lambda>(e, c). c \<noteq> 0) (zip lp_edges_text (hv_buckets h))))]))))))"

definition stack_line :: "stack_view \<Rightarrow> string" where
  "stack_line s =
     ''    '' @ ljust 16 (sv_name s) @ '' '' @ rjust 6 (dec_int (sv_used s)) @ '' of '' @ rjust 6 (dec_int (sv_size s)) @ '' B (''
     @ (if sv_size s \<noteq> 0 then fix_digits 0 (100 * of_int (sv_used s) / of_int (sv_size s)) else ''0'') @ ''%), ''
     @ dec_int (sv_size s - sv_used s) @ '' spare''"

definition frame_line :: "frame_view \<Rightarrow> string" where
  "frame_line l =
     (let peak = max (fv_setup l) (fv_steady l)
      in ''    '' @ ljust 16 (fv_name l) @ '' setup '' @ rjust 6 (dec_int (fv_setup l)) @ '' B, steady '' @ rjust 6 (dec_int (fv_steady l))
         @ '' B (first-pass entry depth '' @ dec_int (fv_entry l) @ '' B; '' @ dec_int (fv_passes l) @ '' passes, '' @ dec_int (fv_scans l)
         @ '' scans) of '' @ dec_int (fv_size l) @ '' B; peak '' @ dec_int peak @ '' B, next KiB ''
         @ dec_int (- ((- peak) div 1024) * 1024) @ '' B'')"

definition lock_report :: "probe_view \<Rightarrow> string res" where
  "lock_report d =
     rbind (rmap (bench_line d) bench_labels) (\<lambda>bs.
     rbind (rmap (holder_lines (pv_hz d)) (pv_holders d)) (\<lambda>hs.
       Inr (join [CHR 0x0A] (
         [''lock probe (island_lock_probe_record), '' @ dec_int (pv_hz d) @ '' cycles/s, DWT read pair '' @ dec_int (pv_empty d)
            @ '' cycles subtracted'',
          ''  lock cost, '' @ dec_int (pv_n d) @ '' pairs each (cycles min/avg/max, us avg):'']
         @ concat bs
         @ [''  executor lock wrapped: '' @ (if pv_installed d \<noteq> 0 then ''yes'' else ''NO'') @ ''; holder overflow ''
              @ dec_int (pv_overflow d) @ '', depth errors '' @ dec_int (pv_depth_errors d) @ ''; steady from ''
              @ dec_int (pv_steady_ms d) @ '' ms'']
         @ concat hs
         @ [''  stack high-water ('' @ dec_int (pv_scans d) @ '' scans, 1 s apart):'']
         @ map stack_line (sort_key sv_name (pv_stacks d))
         @ (if pv_levels d \<noteq> [] then
              [''  spawned level worker frame (nano-ros issue 2065; setup = high-water at the first pass,'',
               ''  steady = high-water of the stack repainted at the first pass, passes only):'']
              @ map frame_line (pv_levels d)
            else [])) @ [CHR 0x0A])))"

end
