(* ===== verification/Board_Commands.thy ===== *)
theory Board_Commands
  imports Board_Session Trace_Decode Buttons Leds Spin_Diag Lock_Probe
begin

text \<open>The commands of the board tools that read over the probe without a halt, as sessions: \<^verbatim>\<open>board_buttons.py\<close> (show,
  inject, watch), \<^verbatim>\<open>led_readout.py\<close> (with \<open>--watch\<close>), \<^verbatim>\<open>spin_diag.py\<close> read and \<^verbatim>\<open>lock_probe.py\<close>. The host's clock counts
  microseconds, a sleep and every access may raise, Ctrl-C being \<open>KeyboardInterrupt\<close>; a loop over the clock has fuel.\<close>

section \<open>The button reader\<close>

definition POLL_US :: int where "POLL_US = 25000"

definition fetch_buttons :: "int \<Rightarrow> int \<Rightarrow> btn_view probe_run" where
  "fetch_buttons ad sz = sbind (get_block ad sz) (\<lambda>blob. slift (read_record blob))"

definition fetch_pads :: "(string \<times> int) list probe_run" where
  "fetch_pads =
     sbind (smap (\<lambda>(n, reg, pin). get_num (O_get16 reg)) PGPDI) (\<lambda>vs.
       sret (Buttons.read_pins (\<lambda>r. the (map_of (zip (map (\<lambda>(n, reg, pin). reg) PGPDI) vs) r))))"

definition put_inject :: "int \<Rightarrow> string \<Rightarrow> int \<Rightarrow> unit probe_run" where
  "put_inject ad button ticks = (case inject_at ad button ticks of Write32 p v \<Rightarrow> do_op (O_put32 p v) | _ \<Rightarrow> sret ())"

definition injected_line :: "string \<Rightarrow> int \<Rightarrow> int \<times> int \<times> int \<Rightarrow> unit probe_run" where
  "injected_line button t0 q =
     (case q of (n, up, code) \<Rightarrow> sbind (get_num O_clock) (\<lambda>t.
        prints [''injected '' @ upper button @ '': press '' @ press_text up code @ '' n='' @ dec_int n @ '', seen ''
                @ dec_int (round_div (t - t0) 1000) @ '' ms after the write'']))"

text \<open>\<open>while time.monotonic() - t0 < 2.0\<close>.\<close>

definition inject_poll :: "int \<Rightarrow> int \<Rightarrow> string \<Rightarrow> int \<Rightarrow> int \<Rightarrow> btn_view \<Rightarrow> int \<Rightarrow> (btn_view + int) probe_run" where
  "inject_poll ad sz button seen t0 v0 t =
     (if t - t0 < 2000000 then
        sbind (fetch_buttons ad sz) (\<lambda>v.
          if hdr_get v ''presses'' > seen
          then sbind (smap (injected_line button t0) (new_presses v seen)) (\<lambda>_. sret (Inr 0))
          else sthen (do_op O_sleep) (sret (Inl v)))
      else sthen (prints [''injected '' @ upper button @ '': NO press recorded in 2 s ('' @ summary v0 @ '')'']) (sret (Inr 1)))"

definition inject_turn :: "int \<Rightarrow> int \<Rightarrow> string \<Rightarrow> int \<Rightarrow> int \<Rightarrow> btn_view \<Rightarrow> (btn_view + int) probe_run" where
  "inject_turn ad sz button seen t0 v0 = sbind (get_num O_clock) (inject_poll ad sz button seen t0 v0)"

definition inject_cmd :: "nat \<Rightarrow> int \<Rightarrow> int \<Rightarrow> string \<Rightarrow> int \<Rightarrow> btn_view \<Rightarrow> int probe_run" where
  "inject_cmd fuel ad sz button ticks v =
     sbind (get_num O_clock) (\<lambda>t0.
     sthen (put_inject ad button ticks)
     (sloop fuel (inject_turn ad sz button (hdr_get v ''presses'') t0) v))"

definition before_end :: "int option \<Rightarrow> bool probe_run" where
  "before_end end_at = (case end_at of None \<Rightarrow> sret True | Some e \<Rightarrow> sbind (get_num O_clock) (\<lambda>t. sret (t < e)))"

text \<open>The state of \<open>watch\<close>: the presses seen, the pads and the debounced levels of the turn before.\<close>

definition watch_turn :: "int \<Rightarrow> int \<Rightarrow> int option \<Rightarrow> int \<times> (string \<times> int) list \<times> int \<Rightarrow> ((int \<times> (string \<times> int) list \<times> int) + unit) probe_run" where
  "watch_turn ad sz end_at s =
     (case s of (seen, last_pins, last_db) \<Rightarrow>
        sbind (before_end end_at) (\<lambda>go.
          if \<not> go then sret (Inr ())
          else
            sthen (do_op O_sleep) (sbind fetch_pads (\<lambda>pins. sbind (fetch_buttons ad sz) (\<lambda>v. sbind get_stamp (\<lambda>ts.
            sthen (prints (watch_lines ts pins last_pins v last_db seen))
              (sret (Inl (hdr_get v ''presses'', pins, hdr_get v ''debounced''))))))))) "

definition watch_cmd :: "nat \<Rightarrow> int \<Rightarrow> int \<Rightarrow> int \<Rightarrow> btn_view \<Rightarrow> unit probe_run" where
  "watch_cmd fuel ad sz us v =
     sthen (prints [''watching: press SW1 and SW2 (hold each about half a second); Ctrl-C to stop''])
     (sbind fetch_pads (\<lambda>pins.
      sbind (if us \<noteq> 0 then sbind (get_num O_clock) (\<lambda>t. sret (Some (t + us))) else sret None) (\<lambda>end_at.
      sthen (on_interrupt (sloop fuel (watch_turn ad sz end_at) (hdr_get v ''presses'', pins, hdr_get v ''debounced'')))
      (sbind (fetch_buttons ad sz) (\<lambda>v1. sbind fetch_pads (\<lambda>p1. prints (Buttons.show_lines v1 (Some p1))))))))"

datatype btn_cmd = Show | Inject "string option" int | Watch int   \<comment> \<open>the button and its ticks; the microseconds of \<open>--secs\<close>\<close>

definition buttons_session :: "nat \<Rightarrow> btn_cmd \<Rightarrow> int \<Rightarrow> int \<Rightarrow> int probe_run" where
  "buttons_session fuel c ad sz =
     sbind (fetch_buttons ad sz) (\<lambda>v.
       if hdr_get v ''magic'' \<noteq> 0x534E5442
       then sthen (prints [''board_buttons: record magic '' @ py_hex (hdr_get v ''magic'') @ '': is the image on the board this ELF?'']) (sret 1)
       else sbind fetch_pads (\<lambda>pins. sthen (prints (Buttons.show_lines v (Some pins)))
         (case c of
            Show \<Rightarrow> sret 0
          | Inject button ticks \<Rightarrow> inject_cmd fuel ad sz (the button) ticks v
          | Watch us \<Rightarrow> sthen (watch_cmd fuel ad sz us v) (sret 0))))"

definition buttons_main :: "nat \<Rightarrow> btn_cmd \<Rightarrow> string \<Rightarrow> bool \<Rightarrow> elf_symtab \<Rightarrow> int probe_run" where
  "buttons_main fuel c elf dry st =
     sbind (slift (symbol ''island_button_record'' st)) (\<lambda>sym.
       case sym of
         None \<Rightarrow> sfail (SystemExit ''no island_button_record (built without CONFIG_ISLAND_BUTTONS: the booth image, just board-build-booth, has it)'')
       | Some (ad, sz) \<Rightarrow>
           sthen (prints [''board_buttons: island_button_record @ 0x'' @ hex08 ad @ '', '' @ dec_int sz @ '' B''])
           (if dry then sret 0
            else if (case c of Inject None _ \<Rightarrow> True | _ \<Rightarrow> False) then sfail (SystemExit ''inject sw1|sw2'')
            else sthen (do_op O_attach) (sfinally (buttons_session fuel c ad sz) (do_op O_close))))"

section \<open>The LED reader\<close>

definition fetch_leds :: "(string \<times> int) list probe_run" where
  "fetch_leds =
     sbind (smap (\<lambda>(k, p). get_num (O_get16 p)) PGPDO) (\<lambda>vs.
       sret (Leds.read_pins (\<lambda>r. the (map_of (zip (map snd PGPDO) vs) r))))"

definition fetch_led_record :: "int \<Rightarrow> int \<Rightarrow> led_view probe_run" where
  "fetch_led_record ad sz = sbind (get_block ad sz) (\<lambda>blob. slift (read_led_record blob))"

definition led_turn :: "int \<Rightarrow> int \<Rightarrow> int \<Rightarrow> int list option \<Rightarrow> (int list option + unit) probe_run" where
  "led_turn ad sz end_at last_key =
     sbind (get_num O_clock) (\<lambda>t.
       if t < end_at then
         sthen (do_op O_sleep) (sbind fetch_leds (\<lambda>pins. sbind (fetch_led_record ad sz) (\<lambda>v. sbind get_stamp (\<lambda>ts.
           sthen (prints (watch_line ts last_key v pins)) (sret (Inl (Some (watch_key v pins))))))))
       else sret (Inr ()))"

definition led_session :: "nat \<Rightarrow> int \<Rightarrow> int \<Rightarrow> int \<Rightarrow> unit probe_run" where
  "led_session fuel us ad sz =
     sbind fetch_leds (\<lambda>pins. sbind (fetch_led_record ad sz) (\<lambda>v. sthen (prints (Leds.show_lines v pins))
     (sbind (get_num O_clock) (\<lambda>t0. sthen (sloop fuel (led_turn ad sz (t0 + us)) None)
     (if us \<noteq> 0 then sbind (fetch_led_record ad sz) (\<lambda>v1. sbind fetch_leds (\<lambda>p1. prints (Leds.show_lines v1 p1))) else sret ())))))"

definition led_main :: "nat \<Rightarrow> int \<Rightarrow> bool \<Rightarrow> elf_symtab \<Rightarrow> int probe_run" where
  "led_main fuel us dry st =
     sbind (slift (symbol ''island_led_record'' st)) (\<lambda>sym.
       case sym of
         None \<Rightarrow> sfail (SystemExit ''no island_led_record (built without CONFIG_ISLAND_LED)'')
       | Some (ad, sz) \<Rightarrow>
           sthen (prints [''led_readout: island_led_record @ 0x'' @ hex08 ad @ '', '' @ dec_int sz @ '' B''])
           (if dry then sret 0
            else sthen (do_op O_attach) (sthen (sfinally (led_session fuel us ad sz) (do_op O_close)) (sret 0))))"

section \<open>Spin diagnostics and lock probe\<close>

definition SYM :: string where "SYM = ''island_spin_diag''"

definition EXTRA :: "string list" where
  "EXTRA = [''_z_zephyr_serial_stats'', ''_z_zephyr_serial_tx_stats'', ''_z_zephyr_serial_isr_cycles'', ''_z_zephyr_serial_isr_calls'',
     ''_z_zephyr_serial_async_stats'']"

definition extra_text :: "string \<times> bytes \<Rightarrow> string res" where
  "extra_text q = rbind (unpack_all (length (snd q) div 4) (snd q)) (\<lambda>ws. Inr (fst q @ '': '' @ join '' '' (map dec_int ws) @ nl))"

definition spin_fetch :: "(string \<times> int \<times> int) list \<Rightarrow> (bytes \<times> (string \<times> bytes) list) probe_run" where
  "spin_fetch syms =
     sbind (slift (key_of syms SYM)) (\<lambda>(ad, sz).
     sbind (get_block ad sz) (\<lambda>blob.
     sbind (smap (\<lambda>n. let (p, k) = the (map_of syms n) in sbind (get_block p k) (\<lambda>d. sret (n, d)))
              (filter (\<lambda>n. map_of syms n \<noteq> None) EXTRA)) (\<lambda>ex. sret (blob, ex))))"

definition spin_read :: "(int \<Rightarrow> string list option) option \<Rightarrow> string \<Rightarrow> elf_symtab \<Rightarrow> int probe_run" where
  "spin_read addr2line out st =
     sbind (slift (symbols (SYM # EXTRA) st)) (\<lambda>syms.
     sthen (do_op O_attach)
     (sbind (sfinally (spin_fetch syms) (do_op O_close)) (\<lambda>(blob, ex).
      sthen (record_acts [Saved_bytes (out @ ''.bin'') blob])
      (sbind (slift (spin_decode addr2line blob)) (\<lambda>t.
       sbind (slift (rmap extra_text ex)) (\<lambda>xs.
        let text = t @ concat xs in sthen (record_acts [Saved_text (out @ ''.txt'') text, Printed text]) (sret 0)))))))"

text \<open>\<open>decode\<close> and \<open>segment\<close> of \<^verbatim>\<open>spin_diag.py\<close> read files, \<open>segment\<close> either two of them or those of a run's directory.\<close>

definition spin_decode_cmd :: "(string \<Rightarrow> bytes) \<Rightarrow> (int \<Rightarrow> string list option) option \<Rightarrow> string list \<Rightarrow> string res" where
  "spin_decode_cmd files addr2line args = rbind (py_nth args 0) (\<lambda>f. spin_decode addr2line (files f))"

definition spin_segment_cmd :: "(string \<Rightarrow> bytes) \<Rightarrow> string list \<Rightarrow> string res" where
  "spin_segment_cmd files args =
     (case args of
        [d] \<Rightarrow> segment (files (d @ ''/spin-diag-pre.bin'')) (files (d @ ''/spin-diag-act.bin''))
      | pre # act # _ \<Rightarrow> segment (files pre) (files act)
      | _ \<Rightarrow> Inl ValueError)"

definition lock_main :: "bytes option \<Rightarrow> string \<Rightarrow> elf_symtab \<Rightarrow> int probe_run" where   \<comment> \<open>the dump of \<open>decode\<close>, or \<open>read\<close>\<close>
  "lock_main dump out st =
     sbind (slift (symbols [''island_lock_probe_record''] st)) (\<lambda>syms.
       case map_of syms ''island_lock_probe_record'' of
         None \<Rightarrow> sfail (SystemExit ''no island_lock_probe_record (built without CONFIG_ISLAND_LOCK_PROBE)'')
       | Some (ad, sz) \<Rightarrow>
           sbind (case dump of Some d \<Rightarrow> sret d
                  | None \<Rightarrow> sthen (do_op O_attach) (sfinally (get_block ad sz) (do_op O_close))) (\<lambda>blob.
           sbind (slift (rbind (lock_decode blob) lock_report)) (\<lambda>text.
           sthen (record_acts ((if out \<noteq> [] then [Saved_bytes (out @ ''.bin'') blob, Saved_text (out @ ''.txt'') text] else []) @ [Printed text]))
             (sret 0))))"


section \<open>The probe is released\<close>

definition gentle :: "bop set" where "gentle = - {O_attach, O_halt, O_resume, O_close}"

lemma gentle_ops [simp, intro]: "O_get32 p \<in> gentle" "O_get16 p \<in> gentle" "O_block p n \<in> gentle" "O_put32 p v \<in> gentle" "O_sleep \<in> gentle" "O_clock \<in> gentle"
  by (simp_all add: gentle_def)

definition session_closed :: "board_act list \<Rightarrow> bool" where
  "session_closed post = (\<exists>us vs. post = us @ Did O_close # vs \<and> (\<forall>op. Did op \<in> set us \<longrightarrow> op \<in> gentle) \<and> (\<forall>op. Did op \<notin> set vs))"

lemma sbind_sret: "sbind m sret = m"
  by (intro ext) (auto simp: sbind_def sret_def split: prod.splits outcome.splits)

lemma sbind_assoc: "sbind (sbind m f) g = sbind m (\<lambda>x. sbind (f x) g)"
  by (intro ext) (auto simp: sbind_def split: prod.splits outcome.splits)

lemma closing:
  assumes "uses gentle m"
  shows "\<exists>us post. snd (sfinally m (do_op O_close) b h) = h @ post \<and> (\<forall>op. Did op \<in> set us \<longrightarrow> op \<in> gentle)
    \<and> (post = us @ [Did O_close] \<or> post = us \<and> fst (sfinally m (do_op O_close) b h) = Going)"
proof -
  obtain r h1 where m: "m b h = (r, h1)" by (cases "m b h")
  then obtain us where us: "h1 = h @ us" "\<And>op. Did op \<in> set us \<Longrightarrow> op \<in> gentle" using usesE [OF assms] by blast
  show ?thesis
  proof (cases r)
    case Going
    then show ?thesis using m us by (intro exI [of _ us] exI [of _ us]) (simp add: sfinally_def)
  qed (use m us in \<open>(intro exI [of _ us] exI [of _ "us @ [Did O_close]"]; auto simp: sfinally_def do_op_def split: option.splits)+\<close>)
qed

lemma after_attach:
  assumes "uses gentle m" "\<And>x. uses {} (f x)"
  shows "after_op O_attach session_closed (sthen (do_op O_attach) (sbind (sfinally m (do_op O_close)) f))"
proof (rule after_op_do)
  fix b h
  let ?h = "h @ [Did O_attach]" and ?m = "sfinally m (do_op O_close)"
  obtain r h1 where m: "?m b ?h = (r, h1)" by (metis surj_pair)
  from closing [OF assms(1), of b ?h] m obtain us post where c: "h1 = ?h @ post" "\<forall>op. Did op \<in> set us \<longrightarrow> op \<in> gentle"
    "post = us @ [Did O_close] \<or> post = us \<and> r = Going" by auto
  then have no: "Did O_attach \<notin> set post" by (auto simp: gentle_def)
  show "\<exists>post. snd (sbind ?m f b ?h) = ?h @ post \<and> Did O_attach \<notin> set post \<and> (fst (sbind ?m f b ?h) \<noteq> Going \<longrightarrow> session_closed post)"
  proof (cases r)
    case (Ret x)
    obtain r2 h2 where f: "f x b h1 = (r2, h2)" by (metis surj_pair)
    from usesE [OF assms(2) f] obtain ws where ws: "h2 = h1 @ ws" "\<And>op. Did op \<notin> set ws" by (metis empty_iff)
    then have "session_closed (post @ ws)" using c(2,3) Ret unfolding session_closed_def by (intro exI [of _ us] exI [of _ ws]) simp
    then show ?thesis using m f ws c(1) no Ret by (intro exI [of _ "post @ ws"]) (auto simp: sbind_def)
  next
    case (Exn x)
    then have "session_closed post" using c(2,3) unfolding session_closed_def by (intro exI [of _ us] exI [of _ "[]"]) simp
    then show ?thesis using m c(1) no Exn by (intro exI [of _ post]) (auto simp: sbind_def)
  next
    case Going
    then show ?thesis using m c(1) no by (intro exI [of _ post]) (auto simp: sbind_def)
  qed
qed

lemma after_attach_last:
  "uses gentle m \<Longrightarrow> after_op O_attach session_closed (sthen (do_op O_attach) (sfinally m (do_op O_close)))"
  using after_attach [of m sret] by (simp add: sbind_sret uses_ops)

lemma uses_fetch:
  "uses gentle (fetch_buttons ad sz)" "uses gentle fetch_pads" "uses gentle fetch_leds" "uses gentle (fetch_led_record ad sz)"
  unfolding fetch_buttons_def fetch_pads_def fetch_leds_def fetch_led_record_def by (intro uses_rules; simp)+

lemma uses_put_inject: "uses gentle (put_inject ad button ticks)"
  by (simp add: put_inject_def inject_at_def uses_ops)

lemma uses_injected_line: "uses gentle (injected_line button t0 q)"
  unfolding injected_line_def by (intro uses_rules; simp)

lemma uses_inject: "uses gentle (inject_cmd fuel ad sz button ticks v)"
  unfolding inject_cmd_def inject_turn_def inject_poll_def by (intro uses_rules uses_fetch uses_put_inject uses_injected_line; simp)

lemma uses_watch: "uses gentle (watch_cmd fuel ad sz us v)"
  unfolding watch_cmd_def watch_turn_def before_end_def by (intro uses_rules uses_fetch; simp)

lemma uses_buttons: "uses gentle (buttons_session fuel c ad sz)"
  unfolding buttons_session_def by (cases c) (simp_all only: btn_cmd.case, (intro uses_rules uses_fetch uses_inject uses_watch; simp)+)

lemma uses_leds: "uses gentle (led_session fuel us ad sz)"
  unfolding led_session_def led_turn_def by (intro uses_rules uses_fetch; simp)

lemma uses_spin_fetch: "uses gentle (spin_fetch syms)"
  unfolding spin_fetch_def Let_def by (intro uses_rules; simp)

lemma buttons_attach: "after_op O_attach session_closed (buttons_main fuel c elf dry st)"
  unfolding buttons_main_def by (intro after_op_slift after_op_cases after_op_prints after_op_pure after_attach_last uses_buttons)

lemma led_attach: "after_op O_attach session_closed (led_main fuel us dry st)"
  unfolding led_main_def by (intro after_op_slift after_op_cases after_op_prints after_op_pure after_attach uses_leds uses_ops)

lemma spin_attach: "after_op O_attach session_closed (spin_read addr2line out st)"
  unfolding spin_read_def Let_def by (intro after_op_slift after_attach uses_spin_fetch uses_rules; simp)

lemma lock_attach: "after_op O_attach session_closed (lock_main dump out st)"
proof -
  have u: "uses {} (sbind (slift (rbind (lock_decode blob) lock_report)) (\<lambda>text.
           sthen (record_acts ((if out \<noteq> [] then [Saved_bytes (out @ ''.bin'') blob, Saved_text (out @ ''.txt'') text] else []) @ [Printed text]))
             (sret 0)))" for blob by (intro uses_rules; auto)
  define F where "F = (\<lambda>blob. sbind (slift (rbind (lock_decode blob) lock_report)) (\<lambda>text.
           sthen (record_acts ((if out \<noteq> [] then [Saved_bytes (out @ ''.bin'') blob, Saved_text (out @ ''.txt'') text] else []) @ [Printed text]))
             (sret (0 :: int))))"
  have F: "uses {} (F blob)" for blob unfolding F_def by (rule u)
  have "after_op O_attach session_closed (sbind (case dump of Some d \<Rightarrow> sret d
      | None \<Rightarrow> sthen (do_op O_attach) (sfinally (get_block ad sz) (do_op O_close))) F)" for ad sz
  proof (cases dump)
    case None
    then show ?thesis using after_attach [OF _ F, of "get_block ad sz"] by (simp add: sbind_assoc uses_ops)
  next
    case (Some d)
    then show ?thesis using after_op_without [OF F, of O_attach session_closed d] by (simp add: sbind_def sret_def)
  qed
  then show ?thesis unfolding lock_main_def F_def by (intro after_op_slift after_op_cases after_op_pure)
qed

section \<open>Properties\<close>

text \<open>C20. The tools give the probe back: after an attach that succeeded, a command of the button, LED, spin diagnostics and lock probe readers that has ended closed its session whatever access, report or interrupt raised, never halted the core, and did nothing on the board afterwards.\<close>

theorem tools_release_probe:
  assumes "m \<in> {buttons_main fuel c elf dry st, led_main fuel us dry st, spin_read addr2line out st, lock_main dump out st}"
    and "snd (m b []) = pre @ Did O_attach # post" "bd_raise b pre O_attach = None" "fst (m b []) \<noteq> Going"
  shows "\<exists>us vs. post = us @ Did O_close # vs \<and> (\<forall>op. Did op \<in> set us \<longrightarrow> op \<in> gentle) \<and> (\<forall>op. Did op \<notin> set vs)"
proof -
  have "after_op O_attach session_closed m"
    using assms(1) buttons_attach led_attach spin_attach lock_attach by blast
  from after_opD [OF this assms(2-4)] show ?thesis by (simp add: session_closed_def)
qed


section \<open>Injecting a press\<close>

text \<open>The host's clock does not run backwards, and a sleep lasts its 25 ms.\<close>

definition clock_runs :: "board \<Rightarrow> bool" where
  "clock_runs b = ((\<forall>h xs. bd_num b h O_clock \<le> bd_num b (h @ xs) O_clock) \<and> (\<forall>h. bd_num b h O_clock + POLL_US \<le> bd_num b (h @ [Did O_sleep]) O_clock))"

lemma fetch_buttons_Ret:
  "fetch_buttons ad sz b h = (Ret v, h1) \<Longrightarrow> h1 = h @ [Did (O_block ad sz)] \<and> read_record (bd_block b h ad sz) = Inr v"
  by (auto simp: fetch_buttons_def sbind_def get_block_def slift_def split: option.splits sum.splits)

lemma get_num_Ret: "get_num op b h = (Ret x, h1) \<Longrightarrow> x = bd_num b h op \<and> h1 = h @ [Did op]"
  by (auto simp: get_num_def split: option.splits)

lemma sbind_get_num: "sbind (get_num op) f b h = (Ret y, h2) \<Longrightarrow> f (bd_num b h op) b (h @ [Did op]) = (Ret y, h2)"
  by (auto simp: get_num_def sbind_def split: option.splits)

lemma do_op_Ret: "do_op op b h = (Ret x, h1) \<Longrightarrow> h1 = h @ [Did op]"
  by (auto simp: do_op_def split: option.splits)

lemma ends_inject_turn: "ends (inject_turn ad sz button seen t0 v)"
  unfolding inject_turn_def inject_poll_def fetch_buttons_def injected_line_def by (intro ends_rules)

lemma ends_fetch: "ends (fetch_buttons ad sz)" "ends fetch_pads"
  unfolding fetch_buttons_def fetch_pads_def by (intro ends_rules)+

lemma inject_turn_again:
  assumes "clock_runs b" "inject_turn ad sz button seen t0 v b h = (Ret (Inl v1), h1)"
  shows "bd_num b h O_clock - t0 < 2000000" "bd_num b h O_clock + POLL_US \<le> bd_num b h1 O_clock" "\<exists>xs. h1 = h @ xs"
proof -
  define h2 where c: "h2 = h @ [Did O_clock]"
  have r: "inject_poll ad sz button seen t0 v (bd_num b h O_clock) b h2 = (Ret (Inl v1), h1)"
    using assms(2) unfolding inject_turn_def c by (rule sbind_get_num)
  show t: "bd_num b h O_clock - t0 < 2000000" using r by (rule_tac ccontr) (simp add: inject_poll_def sbind_def record_acts_def sret_def)
  from r [unfolded inject_poll_def if_P [OF t]] obtain v2 h3 where f: "fetch_buttons ad sz b h2 = (Ret v2, h3)"
    and k: "(if hdr_get v2 ''presses'' > seen then sbind (smap (injected_line button t0) (new_presses v2 seen)) (\<lambda>_. sret (Inr (0 :: int)))
           else sthen (do_op O_sleep) (sret (Inl v2))) b h3 = (Ret (Inl v1), h1)"
    by (rule sbind_Ret) (rule that)
  have "\<not> hdr_get v2 ''presses'' > seen" using k by (auto simp: sret_def elim!: sbind_Ret split: if_split_asm)
  then have h1: "h1 = h3 @ [Did O_sleep]" using k by (auto simp: sret_def elim!: sbind_Ret dest: do_op_Ret)
  have h3: "h3 = h @ [Did O_clock, Did (O_block ad sz)]" using fetch_buttons_Ret [OF f] c by simp
  have "bd_num b h O_clock \<le> bd_num b h3 O_clock" using assms(1) unfolding clock_runs_def h3 by blast
  moreover have "bd_num b h3 O_clock + POLL_US \<le> bd_num b h1 O_clock" using assms(1) unfolding clock_runs_def h1 by blast
  ultimately show "bd_num b h O_clock + POLL_US \<le> bd_num b h1 O_clock" by simp
  show "\<exists>xs. h1 = h @ xs" using h1 h3 by simp
qed

lemma inject_loop_ends:
  assumes "clock_runs b" "t0 + 2000000 \<le> bd_num b h O_clock + POLL_US * int n"
  shows "fst (sloop (Suc n) (inject_turn ad sz button seen t0) v b h) \<noteq> Going"
  using assms(2)
proof (induction n arbitrary: v h)
  case 0
  obtain r h1 where t: "inject_turn ad sz button seen t0 v b h = (r, h1)" by (metis surj_pair)
  then have "r \<noteq> Going" using ends_inject_turn unfolding ends_def by (metis fst_conv)
  moreover have "r \<noteq> Ret (Inl v1)" for v1 using inject_turn_again [OF assms(1)] t 0 by fastforce
  ultimately show ?case using t by (cases r) (auto simp: sbind_def sret_def split: sum.splits)
next
  case (Suc n)
  obtain r h1 where t: "inject_turn ad sz button seen t0 v b h = (r, h1)" by (metis surj_pair)
  then have "r \<noteq> Going" using ends_inject_turn unfolding ends_def by (metis fst_conv)
  moreover have "fst (sloop (Suc n) (inject_turn ad sz button seen t0) v1 b h1) \<noteq> Going" if "r = Ret (Inl v1)" for v1
    using inject_turn_again(2) [OF assms(1)] t that Suc.prems by (intro Suc.IH) (fastforce simp: algebra_simps)
  ultimately show ?case using t by (subst sloop.simps) (cases r, auto simp: sbind_def sret_def split: sum.splits)
qed

lemma inject_turn_found:
  assumes "inject_turn ad sz button seen t0 v b h = (Ret (Inr 0), h1)"
  shows "\<exists>v1 zs. h1 = h @ [Did O_clock] @ Did (O_block ad sz) # zs \<and> read_record (bd_block b (h @ [Did O_clock]) ad sz) = Inr v1 \<and> hdr_get v1 ''presses'' > seen"
proof -
  define h2 where c: "h2 = h @ [Did O_clock]"
  have r: "inject_poll ad sz button seen t0 v (bd_num b h O_clock) b h2 = (Ret (Inr 0), h1)"
    using assms unfolding inject_turn_def c by (rule sbind_get_num)
  have t: "bd_num b h O_clock - t0 < 2000000" using r by (rule_tac ccontr) (simp add: inject_poll_def sbind_def record_acts_def sret_def)
  from r [unfolded inject_poll_def if_P [OF t]] obtain v2 h3 where f: "fetch_buttons ad sz b h2 = (Ret v2, h3)"
    and k: "(if hdr_get v2 ''presses'' > seen then sbind (smap (injected_line button t0) (new_presses v2 seen)) (\<lambda>_. sret (Inr (0 :: int)))
           else sthen (do_op O_sleep) (sret (Inl v2))) b h3 = (Ret (Inr 0), h1)"
    by (rule sbind_Ret) (rule that)
  have p: "hdr_get v2 ''presses'' > seen" using k by (rule_tac ccontr) (auto simp: sret_def elim!: sbind_Ret)
  with k have "sbind (smap (injected_line button t0) (new_presses v2 seen)) (\<lambda>_. sret (Inr 0 :: btn_view + int)) b h3 = (Ret (Inr 0), h1)" by simp
  moreover have "uses gentle (sbind (smap (injected_line button t0) (new_presses v2 seen)) (\<lambda>_. sret (Inr 0 :: btn_view + int)))"
    by (intro uses_rules uses_injected_line)
  ultimately obtain zs where "h1 = h3 @ zs" using usesE by metis
  then show ?thesis using fetch_buttons_Ret [OF f] p c by auto
qed

lemma inject_loop_found:
  assumes "clock_runs b" "sloop n (inject_turn ad sz button seen t0) v b h = (Ret 0, h1)"
  shows "\<exists>ys v1 zs. h1 = h @ ys @ Did (O_block ad sz) # zs \<and> read_record (bd_block b (h @ ys) ad sz) = Inr v1 \<and> hdr_get v1 ''presses'' > seen"
  using assms(2)
proof (induction n arbitrary: v h)
  case (Suc n)
  from Suc.prems obtain r h2 where t: "inject_turn ad sz button seen t0 v b h = (Ret r, h2)"
    "(case r of Inl s1 \<Rightarrow> sloop n (inject_turn ad sz button seen t0) s1 | Inr x \<Rightarrow> sret x) b h2 = (Ret 0, h1)" by (auto elim: sbind_Ret)
  show ?case
  proof (cases r)
    case (Inl v1)
    then obtain xs where "h2 = h @ xs" using inject_turn_again(3) [OF assms(1)] t(1) by blast
    moreover from Inl t(2) obtain ys v2 zs where "h1 = h2 @ ys @ Did (O_block ad sz) # zs"
      "read_record (bd_block b (h2 @ ys) ad sz) = Inr v2" "hdr_get v2 ''presses'' > seen" using Suc.IH [of v1 h2] by auto
    ultimately show ?thesis by (intro exI [of _ "xs @ ys"]) auto
  next
    case (Inr x)
    then have "x = 0" "h1 = h2" using t(2) by (simp_all add: sret_def)
    then show ?thesis using inject_turn_found t(1) Inr by blast
  qed
qed simp


definition inject_word :: "int \<Rightarrow> string \<Rightarrow> int" where
  "inject_word ad button = ad + 36 + 4 * (if lower button = ''sw1'' then 0 else 1)"

lemma put_inject_word: "put_inject ad button ticks = do_op (O_put32 (inject_word ad button) ticks)"
  by (simp add: put_inject_def inject_at_def inject_word_def OFF_INJECT_def)

lemma inject_cmd_ends:
  assumes "clock_runs b" "81 \<le> fuel"
  shows "fst (inject_cmd fuel ad sz button ticks v b h) \<noteq> Going"
proof (cases "bd_raise b h O_clock")
  case None
  let ?t0 = "bd_num b h O_clock" and ?h1 = "h @ [Did O_clock]"
  let ?h2 = "?h1 @ [Did (O_put32 (inject_word ad button) ticks)]"
  have c: "inject_cmd fuel ad sz button ticks v b h
      = (case bd_raise b ?h1 (O_put32 (inject_word ad button) ticks) of Some x \<Rightarrow> (Exn x, ?h2)
         | None \<Rightarrow> sloop fuel (inject_turn ad sz button (hdr_get v ''presses'') ?t0) v b ?h2)"
    using None by (auto simp: inject_cmd_def put_inject_word sbind_def get_num_def do_op_def split: option.splits)
  obtain n where n: "fuel = Suc n" "80 \<le> n" using assms(2) by (cases fuel) auto
  have "?t0 \<le> bd_num b (h @ ([Did O_clock] @ [Did (O_put32 (inject_word ad button) ticks)])) O_clock"
    using assms(1) unfolding clock_runs_def by blast
  then have "?t0 + 2000000 \<le> bd_num b ?h2 O_clock + POLL_US * int n" using n(2) by (simp add: POLL_US_def)
  from inject_loop_ends [OF assms(1) this, folded n(1)] show ?thesis unfolding c by (simp split: option.splits)
next
  case (Some x)
  then show ?thesis by (simp add: inject_cmd_def sbind_def get_num_def)
qed

lemma inject_cmd_found:
  assumes "clock_runs b" "inject_cmd fuel ad sz button ticks v b h = (Ret 0, h1)"
  shows "\<exists>ys v1 zs. h1 = h @ ys @ Did (O_block ad sz) # zs \<and> read_record (bd_block b (h @ ys) ad sz) = Inr v1
    \<and> hdr_get v1 ''presses'' > hdr_get v ''presses'' \<and> Did (O_put32 (inject_word ad button) ticks) \<in> set ys"
proof -
  let ?t0 = "bd_num b h O_clock" and ?P = "Did (O_put32 (inject_word ad button) ticks)"
  from sbind_get_num [OF assms(2) [unfolded inject_cmd_def put_inject_word]]
  have "sloop fuel (inject_turn ad sz button (hdr_get v ''presses'') ?t0) v b ((h @ [Did O_clock]) @ [?P]) = (Ret 0, h1)"
    by (auto elim!: sbind_Ret dest!: do_op_Ret)
  from inject_loop_found [OF assms(1) this] obtain ys v1 zs where "h1 = ((h @ [Did O_clock]) @ [?P]) @ ys @ Did (O_block ad sz) # zs"
    "read_record (bd_block b (((h @ [Did O_clock]) @ [?P]) @ ys) ad sz) = Inr v1" "hdr_get v1 ''presses'' > hdr_get v ''presses''" by blast
  then show ?thesis by (intro exI [of _ "[Did O_clock, ?P] @ ys"] exI [of _ v1] exI [of _ zs]) simp
qed


lemma session_ends:
  assumes "\<And>h. fst (m b h) \<noteq> Going"
  shows "fst (sthen (do_op O_attach) (sfinally m (do_op O_close)) b h) \<noteq> Going"
proof -
  obtain r h1 where m: "m b (h @ [Did O_attach]) = (r, h1)" by (metis surj_pair)
  then have "r \<noteq> Going" using assms by (metis fst_conv)
  then show ?thesis using m by (cases r) (auto simp: sbind_def do_op_def sfinally_def split: option.splits)
qed

text \<open>What the command before the polling: the record and the pads, printed.\<close>

lemma buttons_session_inject:
  assumes "buttons_session fuel (Inject (Some button) ticks) ad sz b h = (Ret 0, h1)"
  obtains xs v h2 where "read_record (bd_block b h ad sz) = Inr v" "h2 = (h @ [Did (O_block ad sz)]) @ xs"
    "inject_cmd fuel ad sz button ticks v b h2 = (Ret 0, h1)"
proof -
  from assms [unfolded buttons_session_def] obtain v h3 where f: "fetch_buttons ad sz b h = (Ret v, h3)"
    and r: "(if hdr_get v ''magic'' \<noteq> 0x534E5442
       then sthen (prints [''board_buttons: record magic '' @ py_hex (hdr_get v ''magic'') @ '': is the image on the board this ELF?'']) (sret 1)
       else sbind fetch_pads (\<lambda>pins. sthen (prints (Buttons.show_lines v (Some pins)))
         (case Inject (Some button) ticks of
            Show \<Rightarrow> sret 0
          | Inject button ticks \<Rightarrow> inject_cmd fuel ad sz (the button) ticks v
          | Watch us \<Rightarrow> sthen (watch_cmd fuel ad sz us v) (sret 0)))) b h3 = (Ret 0, h1)" by (rule sbind_Ret) (rule that)
  have "hdr_get v ''magic'' = 0x534E5442" using r by (rule_tac ccontr) (simp add: sbind_def record_acts_def sret_def)
  with r have "sbind fetch_pads (\<lambda>pins. sthen (prints (Buttons.show_lines v (Some pins))) (inject_cmd fuel ad sz button ticks v)) b h3 = (Ret 0, h1)" by simp
  then obtain pins h4 where p: "fetch_pads b h3 = (Ret pins, h4)"
    and q: "sthen (prints (Buttons.show_lines v (Some pins))) (inject_cmd fuel ad sz button ticks v) b h4 = (Ret 0, h1)" by (rule sbind_Ret)
  from q obtain x h5 where l: "prints (Buttons.show_lines v (Some pins)) b h4 = (Ret x, h5)"
    and i: "inject_cmd fuel ad sz button ticks v b h5 = (Ret 0, h1)" by (rule sbind_Ret)
  obtain ys where "h4 = h3 @ ys" using usesE [OF uses_fetch(2) p] by metis
  then have "h5 = (h @ [Did (O_block ad sz)]) @ ys @ map Printed (Buttons.show_lines v (Some pins))"
    using l fetch_buttons_Ret [OF f] by (simp add: record_acts_def)
  with that [of v] i fetch_buttons_Ret [OF f] show thesis by blast
qed

text \<open>C21. Injecting a press ends and does not lie: with a clock that runs, \<open>inject\<close> ends within 81 polls; it writes nothing but its tick count into the named button's injection word; and it exits with 0 only after that write and a later reading of the record that counts more presses than the reading before the write.\<close>

theorem inject_reports_recorded_press:
  assumes "clock_runs b" "81 \<le> fuel" "symbol ''island_button_record'' st = Inr (Some (ad, sz))"
    and "buttons_main fuel (Inject (Some button) ticks) elf False st b [] = (r, acts)"
  shows "r \<noteq> Going \<and> (\<forall>p v. Did (O_put32 p v) \<in> set acts \<longrightarrow> p = inject_word ad button \<and> v = ticks)
    \<and> (r = Ret 0 \<longrightarrow> (\<exists>xs ys zs v0 v1. acts = xs @ Did (O_block ad sz) # ys @ Did (O_block ad sz) # zs
        \<and> read_record (bd_block b xs ad sz) = Inr v0 \<and> read_record (bd_block b (xs @ Did (O_block ad sz) # ys) ad sz) = Inr v1
        \<and> Did (O_put32 (inject_word ad button) ticks) \<in> set ys \<and> hdr_get v1 ''presses'' > hdr_get v0 ''presses''))"
proof (intro conjI)
  let ?S = "buttons_session fuel (Inject (Some button) ticks) ad sz"
  let ?l = "Printed (''board_buttons: island_button_record @ 0x'' @ hex08 ad @ '', '' @ dec_int sz @ '' B'')"
  have m: "buttons_main fuel (Inject (Some button) ticks) elf False st b []
      = sthen (do_op O_attach) (sfinally ?S (do_op O_close)) b [?l]"
    by (simp add: buttons_main_def assms(3) sbind_def slift_def record_acts_def)
  have going: "fst (?S b h) \<noteq> Going" for h
  proof -
    have "fst (inject_cmd fuel ad sz button ticks v b h) \<noteq> Going" for v h by (rule inject_cmd_ends [OF assms(1,2)])
    moreover have "fst (fetch_buttons ad sz b h) \<noteq> Going" "fst (fetch_pads b h) \<noteq> Going" for h
      using ends_fetch unfolding ends_def by blast+
    ultimately show ?thesis unfolding buttons_session_def
      by (simp add: sbind_def record_acts_def sret_def split: prod.splits outcome.splits) (metis fst_conv)
  qed
  show "r \<noteq> Going" using session_ends [of ?S, OF going] assms(4) unfolding m by (metis fst_conv)
  let ?P = "{op. \<forall>p v. op = O_put32 p v \<longrightarrow> p = inject_word ad button \<and> v = ticks}"
  have "uses ?P (sthen (do_op O_attach) (sfinally ?S (do_op O_close)))"
    unfolding buttons_session_def inject_cmd_def inject_turn_def inject_poll_def injected_line_def put_inject_word fetch_buttons_def fetch_pads_def
    by (simp only: btn_cmd.case option.sel) (intro uses_rules; simp)
  then obtain ws where "acts = [?l] @ ws" "\<And>op. Did op \<in> set ws \<Longrightarrow> op \<in> ?P" using assms(4) unfolding m
    by (rule usesE) (rule that)
  then show "\<forall>p v. Did (O_put32 p v) \<in> set acts \<longrightarrow> p = inject_word ad button \<and> v = ticks" by auto
  show "r = Ret 0 \<longrightarrow> (\<exists>xs ys zs v0 v1. acts = xs @ Did (O_block ad sz) # ys @ Did (O_block ad sz) # zs
        \<and> read_record (bd_block b xs ad sz) = Inr v0 \<and> read_record (bd_block b (xs @ Did (O_block ad sz) # ys) ad sz) = Inr v1
        \<and> Did (O_put32 (inject_word ad button) ticks) \<in> set ys \<and> hdr_get v1 ''presses'' > hdr_get v0 ''presses'')"
  proof
    assume "r = Ret 0"
    let ?h = "[?l, Did O_attach]"
    obtain h1 where s: "?S b ?h = (Ret 0, h1)" "acts = h1 @ [Did O_close]"
      using assms(4) \<open>r = Ret 0\<close> unfolding m
      by (auto simp: sbind_def do_op_def sfinally_def split: option.splits prod.splits outcome.splits)
    from buttons_session_inject [OF s(1)] obtain xs v h2 where a: "read_record (bd_block b ?h ad sz) = Inr v"
      "h2 = (?h @ [Did (O_block ad sz)]) @ xs" "inject_cmd fuel ad sz button ticks v b h2 = (Ret 0, h1)" by blast
    from inject_cmd_found [OF assms(1) a(3)] obtain ys v1 zs where z: "h1 = h2 @ ys @ Did (O_block ad sz) # zs"
      "read_record (bd_block b (h2 @ ys) ad sz) = Inr v1" "hdr_get v1 ''presses'' > hdr_get v ''presses''"
      "Did (O_put32 (inject_word ad button) ticks) \<in> set ys" by blast
    show "\<exists>xs ys zs v0 v1. acts = xs @ Did (O_block ad sz) # ys @ Did (O_block ad sz) # zs
        \<and> read_record (bd_block b xs ad sz) = Inr v0 \<and> read_record (bd_block b (xs @ Did (O_block ad sz) # ys) ad sz) = Inr v1
        \<and> Did (O_put32 (inject_word ad button) ticks) \<in> set ys \<and> hdr_get v1 ''presses'' > hdr_get v0 ''presses''"
      by (rule exI [of _ ?h], rule exI [of _ "xs @ ys"], rule exI [of _ "zs @ [Did O_close]"], rule exI [of _ v], rule exI [of _ v1])
        (use s(2) a z in auto)
  qed
qed



section \<open>Witnesses\<close>

definition demo_image :: elf_symtab where
  "demo_image = Some [(''main'', 0x400400, 64), (''island_button_record'', 0x20440000, 112)]"

text \<open>A board that logs a press of SW2 once its injection word was written; the clock counts the sleeps.\<close>

definition demo_pressing :: board where
  "demo_pressing = \<lparr>bd_raise = (\<lambda>h op. None), bd_num = (\<lambda>h op. if op = O_clock then 25000 * int (length (filter (\<lambda>x. x = Did O_sleep) h)) else 0),
     bd_block = (\<lambda>h p n. if Did (O_put32 0x20440028 3) \<in> set h then btn_bytes demo_after else btn_bytes demo_boot), bd_stamp = (\<lambda>h. [])\<rparr>"

lemma demo_pressing_clock: "clock_runs demo_pressing"
  by (simp add: clock_runs_def demo_pressing_def POLL_US_def)

lemma demo_fetch:
  "fetch_buttons ad sz demo_pressing h = (Ret (if Did (O_put32 0x20440028 3) \<in> set h then demo_view2 else demo_view), h @ [Did (O_block ad sz)])"
  by (simp add: fetch_buttons_def sbind_def get_block_def demo_pressing_def slift_def demo_views)

lemma demo_pads: "\<exists>p. fetch_pads demo_pressing h = (Ret p, h @ [Did (O_get16 0x4029174E), Did (O_get16 0x40291740)])"
  by (simp add: fetch_pads_def PGPDI_def sbind_def get_num_def sret_def demo_pressing_def)

lemma demo_lines: "\<exists>ys xs. smap (injected_line button t0) qs demo_pressing h = (Ret ys, h @ xs)"
proof (induction qs arbitrary: h)
  case (Cons q qs)
  obtain x xs where "injected_line button t0 q demo_pressing h = (Ret x, h @ xs)"
    by (cases q) (simp add: injected_line_def sbind_def get_num_def record_acts_def demo_pressing_def)
  moreover obtain ys zs where "smap (injected_line button t0) qs demo_pressing (h @ xs) = (Ret ys, (h @ xs) @ zs)" using Cons.IH by blast
  ultimately show ?case by (simp add: sbind_def sret_def)
qed (simp add: sret_def)

lemma demo_counts: "hdr_get demo_view ''magic'' = 0x534E5442" "hdr_get demo_view ''presses'' = 0" "hdr_get demo_view2 ''presses'' = 1"
  by code_simp+

lemma demo_turn:
  assumes "Did (O_put32 0x20440028 3) \<in> set h" "bd_num demo_pressing h O_clock = 0"
  shows "\<exists>xs. inject_turn ad sz button 0 0 v demo_pressing h = (Ret (Inr 0), h @ xs)"
proof -
  obtain ys xs where "smap (injected_line button 0) (new_presses demo_view2 0) demo_pressing (h @ [Did O_clock, Did (O_block ad sz)])
      = (Ret ys, (h @ [Did O_clock, Did (O_block ad sz)]) @ xs)" using demo_lines by blast
  moreover have "bd_raise demo_pressing h O_clock = None" by (simp add: demo_pressing_def)
  ultimately show ?thesis using assms by (simp add: inject_turn_def inject_poll_def sbind_def get_num_def sret_def demo_fetch demo_counts)
qed

lemma demo_inject: "fst (buttons_main 81 (Inject (Some ''sw2'') 3) ''zephyr.elf'' False demo_image demo_pressing []) = Ret 0"
proof -
  have w: "inject_word 0x20440000 ''sw2'' = 0x20440028" by code_simp
  have ok: "bd_raise demo_pressing h op = None" for h op by (simp add: demo_pressing_def)
  have c: "bd_num demo_pressing h O_clock = 0" if "Did O_sleep \<notin> set h" for h
    using that by (auto simp: demo_pressing_def filter_empty_conv)
  have i: "\<exists>xs. inject_cmd 81 0x20440000 0x70 ''sw2'' 3 demo_view demo_pressing h = (Ret 0, h @ xs)" if "Did O_sleep \<notin> set h" for h
  proof -
    let ?h = "h @ [Did O_clock, Did (O_put32 0x20440028 3)]"
    have "bd_num demo_pressing ?h O_clock = 0" using that by (intro c) simp
    then obtain xs where "inject_turn 0x20440000 0x70 ''sw2'' 0 0 demo_view demo_pressing ?h = (Ret (Inr 0), ?h @ xs)"
      using demo_turn [of ?h "0x20440000" "0x70" "''sw2''" demo_view] by auto
    then have "sloop (Suc 80) (inject_turn 0x20440000 0x70 ''sw2'' 0 0) demo_view demo_pressing ?h = (Ret 0, ?h @ xs)"
      unfolding sloop.simps by (simp add: sbind_def sret_def)
    then have "sloop 81 (inject_turn 0x20440000 0x70 ''sw2'' 0 0) demo_view demo_pressing ?h = (Ret 0, ?h @ xs)"
      by (simp only: Suc_numeral semiring_norm)
    then show ?thesis using c [OF that] ok
      by (simp add: inject_cmd_def put_inject_word w sbind_def get_num_def do_op_def demo_counts sret_def)
  qed
  define l where "l = Printed (''board_buttons: island_button_record @ 0x'' @ hex08 0x20440000 @ '', '' @ dec_int 0x70 @ '' B'')"
  let ?S = "buttons_session 81 (Inject (Some ''sw2'') 3) 0x20440000 0x70"
  have s: "symbol ''island_button_record'' demo_image = Inr (Some (0x20440000, 0x70))" by (simp add: symbol_def demo_image_def)
  have m: "buttons_main 81 (Inject (Some ''sw2'') 3) ''zephyr.elf'' False demo_image demo_pressing []
      = sthen (do_op O_attach) (sfinally ?S (do_op O_close)) demo_pressing [l]"
    unfolding l_def buttons_main_def s by (simp add: sbind_def slift_def record_acts_def del: hexw.simps)
  have l: "l \<noteq> Did op" "Did op \<noteq> l" for op by (simp_all add: l_def)
  have f: "fetch_buttons 0x20440000 0x70 demo_pressing [l, Did O_attach] = (Ret demo_view, [l, Did O_attach, Did (O_block 0x20440000 0x70)])"
    using l by (simp add: demo_fetch) 
  obtain p where p: "fetch_pads demo_pressing [l, Did O_attach, Did (O_block 0x20440000 0x70)]
      = (Ret p, [l, Did O_attach, Did (O_block 0x20440000 0x70), Did (O_get16 0x4029174E), Did (O_get16 0x40291740)])"
    using demo_pads [of "[l, Did O_attach, Did (O_block 0x20440000 0x70)]"] by auto
  let ?h = "[l, Did O_attach, Did (O_block 0x20440000 0x70), Did (O_get16 0x4029174E), Did (O_get16 0x40291740)] @ map Printed (Buttons.show_lines demo_view (Some p))"
  have "Did O_sleep \<notin> set ?h" using l by auto
  from i [OF this] obtain xs where "inject_cmd 81 0x20440000 0x70 ''sw2'' 3 demo_view demo_pressing ?h = (Ret 0, ?h @ xs)" by blast
  then have "?S demo_pressing [l, Did O_attach] = (Ret 0, ?h @ xs)"
    unfolding buttons_session_def by (simp add: sbind_def f p record_acts_def demo_counts)
  then show ?thesis unfolding m using ok by (simp add: sbind_def do_op_def sfinally_def)
qed

theorem inject_reports_recorded_press_witness:
  "fst (buttons_main 81 (Inject (Some ''sw2'') 3) ''zephyr.elf'' False demo_image demo_pressing []) = Ret 0
   \<and> {(p, v). Did (O_put32 p v) \<in> set (snd (buttons_main 81 (Inject (Some ''sw2'') 3) ''zephyr.elf'' False demo_image demo_pressing []))} = {(0x20440028, 3)}"
proof -
  let ?m = "buttons_main 81 (Inject (Some ''sw2'') 3) ''zephyr.elf'' False demo_image"
  have s: "symbol ''island_button_record'' demo_image = Inr (Some (0x20440000, 112))" by (simp add: symbol_def demo_image_def)
  obtain acts where r: "?m demo_pressing [] = (Ret 0, acts)" using demo_inject by (metis prod.collapse)
  have w: "inject_word 0x20440000 ''sw2'' = 0x20440028" by code_simp
  have "81 \<le> (81 :: nat)" by simp
  note q = inject_reports_recorded_press [OF demo_pressing_clock this s r, unfolded w]
  from q have a: "Did (O_put32 p v) \<in> set acts \<Longrightarrow> p = 0x20440028 \<and> v = 3" for p v by blast
  from q obtain xs ys zs where "acts = xs @ Did (O_block 0x20440000 112) # ys @ Did (O_block 0x20440000 112) # zs" "Did (O_put32 0x20440028 3) \<in> set ys" by blast
  then have "Did (O_put32 0x20440028 3) \<in> set acts" by simp
  with a have "{(p, v). Did (O_put32 p v) \<in> set acts} = {(0x20440028, 3)}" by blast
  then show ?thesis unfolding r by simp
qed


definition demo_unreadable :: board where
  "demo_unreadable = demo_pressing\<lparr>bd_raise := (\<lambda>h op. if op = O_block 0x20450000 8 then Some ValueError else None)\<rparr>"

theorem tools_release_probe_witness:
  "\<exists>us vs. snd (spin_read None ''diag'' (Some [(''island_spin_diag'', 0x20450000, 8)]) demo_unreadable []) = [] @ Did O_attach # us @ Did O_close # vs
    \<and> {op. Did op \<in> set us} \<subseteq> gentle \<and> (\<forall>op. Did op \<notin> set vs)"
proof -
  let ?st = "Some [(''island_spin_diag'', 0x20450000, 8)]" and ?post = "[Did (O_block 0x20450000 8), Did O_close]"
  have r: "spin_read None ''diag'' ?st demo_unreadable [] = (Exn ValueError, [] @ Did O_attach # ?post)"
    by (simp add: spin_read_def spin_fetch_def symbols_def take_symbol_def SYM_def EXTRA_def key_of_def dict_of_def sbind_def slift_def sfinally_def do_op_def get_block_def
        demo_unreadable_def demo_pressing_def)
  have n: "bd_raise demo_unreadable [] O_attach = None" "fst (spin_read None ''diag'' ?st demo_unreadable []) \<noteq> Going" unfolding r by (simp_all add: demo_unreadable_def)
  have mem: "spin_read None ''diag'' ?st \<in> {buttons_main 0 Show [] False ?st, led_main 0 0 False ?st, spin_read None ''diag'' ?st, lock_main None ''diag'' ?st}"
    by simp
  have "snd (spin_read None ''diag'' ?st demo_unreadable []) = [] @ Did O_attach # ?post" unfolding r by simp
  from tools_release_probe [OF mem this n] obtain us vs where "?post = us @ Did O_close # vs" "\<forall>op. Did op \<in> set us \<longrightarrow> op \<in> gentle" "\<forall>op. Did op \<notin> set vs" by blast
  then show ?thesis unfolding r by (intro exI [of _ us] exI [of _ vs]) auto
qed

end
