(* ===== verification/Readout.thy ===== *)
theory Readout
  imports Trace_Decode Ring_Log
begin

text \<open>The readout of a running target, \<^verbatim>\<open>tools/board/readout.py\<close>: the serial counters and the assert record, the re-arm
  handshake of the trace window and the halted read of the buffer; and the firmware it talks to, the assert
  hook of \<^verbatim>\<open>src/zephyr_entry/src/assert_record.c\<close> and the handshake words of \<^verbatim>\<open>include/island_trace.h\<close>.

  A word or block is read by its symbol; that the symbol table gives its address is the linker's part. What the
  firmware does between two accesses, the host's clock and the line on standard input are inputs. The
  phase stamps of the re-arm helper are left out of the printed lines.\<close>

section \<open>Serial counters\<close>

definition SERIAL :: string where "SERIAL = ''_z_zephyr_serial_stats''"

definition SERIAL_FIELDS :: "string list" where
  "SERIAL_FIELDS = [''rx_bytes'', ''rx_frames'', ''rx_bad_frames'', ''rx_partial'', ''overruns'', ''ring_overflows'',
     ''ring_high_water'', ''tx_bytes'', ''tx_frames'', ''tx_busy_cycles'', ''framing_errors'',
     ''noise_errors'', ''parity_errors'', ''rx_wakes'']"

definition SERIAL_ERRORS :: "string list" where
  "SERIAL_ERRORS = [''rx_bad_frames'', ''overruns'', ''ring_overflows'', ''framing_errors'', ''noise_errors'', ''parity_errors'']"

definition words_dict :: "string list \<Rightarrow> bytes \<Rightarrow> (string \<times> int) list" where
  "words_dict names blob = (let n = min (length blob div 4) (length names) in zip names (words_at n blob 0))"

definition serial_decode :: "bytes \<Rightarrow> (string \<times> int) list" where
  "serial_decode blob = words_dict SERIAL_FIELDS blob"

definition get_or0 :: "(string \<times> int) list \<Rightarrow> string \<Rightarrow> int" where   \<comment> \<open>\<open>d.get(k, 0)\<close>\<close>
  "get_or0 d k = (case dict_of d k of None \<Rightarrow> 0 | Some v \<Rightarrow> v)"

definition kv_text :: "(string \<times> int) list \<Rightarrow> string" where
  "kv_text d = join '' '' (map (\<lambda>(k, v). k @ ''='' @ dec_int v) d)"

definition serial_errs :: "(string \<times> int) list \<Rightarrow> (string \<times> int) list" where
  "serial_errs d = List.map_filter (\<lambda>k. map_option (Pair k) (dict_of d k)) SERIAL_ERRORS"

definition serial_delta :: "(string \<times> int) list \<Rightarrow> (string \<times> int) list \<Rightarrow> (string \<times> int) list" where
  "serial_delta fin pre = map (\<lambda>(k, v). (k, v - get_or0 pre k)) (serial_errs fin)"

definition serial_text :: "(string \<times> int) list \<Rightarrow> (string \<times> int) list option \<Rightarrow> string list" where
  "serial_text fin pre =
     (let errs = serial_errs fin
      in [''serial counters ('' @ SERIAL @ '') at the readout, after the act:'', ''  '' @ kv_text fin]
         @ (case pre of
              None \<Rightarrow>
                [''  no act-start snapshot: errors since boot '' @ kv_text errs,
                 ''  in the act: unknown; since boot: overruns='' @ dec_int (get_or0 errs ''overruns'') @ '' bad_frames=''
                   @ dec_int (get_or0 errs ''rx_bad_frames'')]
            | Some p \<Rightarrow>
                (let d = serial_delta fin p
                 in [''  at the act's start: '' @ kv_text (map (\<lambda>(k, v). (k, get_or0 p k)) errs),
                     ''  during the act:     '' @ kv_text d,
                     ''  in the act: overruns='' @ dec_int (get_or0 d ''overruns'') @ '' bad_frames='' @ dec_int (get_or0 d ''rx_bad_frames'')
                       @ ''; before it: overruns='' @ dec_int (get_or0 p ''overruns'') @ '' bad_frames=''
                       @ dec_int (get_or0 p ''rx_bad_frames'') @ ''; ring high water '' @ dec_int (get_or0 fin ''ring_high_water'') @ '' B''])))"

section \<open>The assert record\<close>

definition ASSERT :: string where "ASSERT = ''island_assert_record''"

definition ASSERT_FIELDS :: "string list" where
  "ASSERT_FIELDS = [''magic'', ''count'', ''file'', ''line'', ''uptime_ms'', ''in_isr'', ''nested_file'', ''nested_line'']"

definition ASSERT_MAGIC :: int where "ASSERT_MAGIC = 0x54525341"

text \<open>\<open>str_at\<close> is the string the ELF has at a non-zero address.\<close>

definition elf_string :: "(int \<Rightarrow> string) \<Rightarrow> int \<Rightarrow> string" where
  "elf_string str_at addr = (if addr = 0 then ''None'' else str_at addr)"

definition assert_text :: "(int \<Rightarrow> string) \<Rightarrow> bytes \<Rightarrow> string list option res" where
  "assert_text str_at blob =
     (let r = words_dict ASSERT_FIELDS blob
      in if dict_of r ''magic'' \<noteq> Some ASSERT_MAGIC then Inr None
         else
           rbind (key_of r ''file'') (\<lambda>f. rbind (key_of r ''line'') (\<lambda>l. rbind (key_of r ''uptime_ms'') (\<lambda>u.
           rbind (key_of r ''in_isr'') (\<lambda>i. rbind (key_of r ''count'') (\<lambda>c.
             let first = ''ASSERT '' @ elf_string str_at f @ '':'' @ dec_int l @ '' at uptime '' @ dec_int u @ '' ms (''
                   @ (if i \<noteq> 0 then ''ISR/exception'' else ''thread'') @ '' context); failing asserts seen: '' @ dec_int c
             in if get_or0 r ''nested_file'' = 0 then Inr (Some [first])
                else rbind (key_of r ''nested_line'') (\<lambda>nl.
                  Inr (Some [first, ''  nested: '' @ elf_string str_at (get_or0 r ''nested_file'') @ '':'' @ dec_int nl
                    @ '' fired while the first was handled; the record halted the core there'']))))))))"

record assert_rec =
  a_magic :: u32
  a_count :: u32
  a_file :: u32
  a_line :: u32
  a_uptime_ms :: u32
  a_in_isr :: u32
  a_nested_file :: u32
  a_nested_line :: u32

record failing =
  f_file :: u32
  f_line :: u32
  f_uptime :: u32
  f_isr :: bool

definition assert_boot :: assert_rec where
  "assert_boot = \<lparr>a_magic = 0, a_count = 0, a_file = 0, a_line = 0, a_uptime_ms = 0, a_in_isr = 0, a_nested_file = 0, a_nested_line = 0\<rparr>"

definition assert_post_action :: "assert_rec \<Rightarrow> failing \<Rightarrow> assert_rec" where
  "assert_post_action r f =
     (let n = a_count r + 1; r1 = r\<lparr>a_count := n\<rparr>
      in if n = 1 then
           r1\<lparr>a_file := f_file f, a_line := f_line f, a_uptime_ms := f_uptime f, a_in_isr := (if f_isr f then 1 else 0), a_magic := 0x54525341\<rparr>
         else if a_nested_file r1 = 0 then r1\<lparr>a_nested_file := f_file f, a_nested_line := f_line f\<rparr>
         else r1)"

definition assert_bytes :: "assert_rec \<Rightarrow> bytes" where
  "assert_bytes r = pack_u32s (map uint [a_magic r, a_count r, a_file r, a_line r, a_uptime_ms r, a_in_isr r, a_nested_file r, a_nested_line r])"

section \<open>The re-arm handshake\<close>

text \<open>The firmware's words, its heartbeat and the trigger.\<close>

record tw =
  w_hb_seq :: u32
  w_hb_uptime :: u32
  w_triggered :: u32
  w_trigger_uptime :: u32
  w_rearm :: u32
  w_rearms :: u32
  w_rearm_uptime :: u32

definition rearm_now :: "u32 \<Rightarrow> tw \<Rightarrow> tw" where
  "rearm_now up s = s\<lparr>w_trigger_uptime := 0, w_rearms := w_rearms s + 1, w_rearm_uptime := up, w_triggered := 0, w_rearm := 0\<rparr>"

datatype fw_ev = Heartbeat_at u32 | Fire_at u32

definition fw_step :: "tw \<Rightarrow> fw_ev \<Rightarrow> tw" where
  "fw_step s ev = (case ev of
     Heartbeat_at up \<Rightarrow>
       (let s1 = s\<lparr>w_hb_seq := w_hb_seq s + 1, w_hb_uptime := up\<rparr> in if w_rearm s1 \<noteq> 0 then rearm_now up s1 else s1)
   | Fire_at up \<Rightarrow> if w_triggered s = 0 then s\<lparr>w_trigger_uptime := up, w_triggered := 1\<rparr> else s)"

abbreviation fw_run :: "fw_ev list \<Rightarrow> tw \<Rightarrow> tw" where
  "fw_run evs s \<equiv> foldl fw_step s evs"

definition REARM :: string where "REARM = ''island_trace_rearm''"

record rearm_args =
  ra_elf :: string
  ra_board :: bool
  ra_dry_run :: bool
  ra_wait_go :: bool
  ra_buttons :: bool

text \<open>What meets the helper: the firmware's steps before its \<open>k\<close>-th access, the clock at its \<open>k\<close>-th reading (in us),
  the line on standard input and the result of the button bridge.\<close>

record renv =
  e_idle :: "nat \<Rightarrow> fw_ev list"
  e_clock :: "nat \<Rightarrow> int"
  e_line :: string
  e_bridge :: int

record rearm_out =
  o_rc :: int
  o_says :: "string list"
  o_tw :: tw

partial_function (option) poll_ack :: "renv \<Rightarrow> nat \<Rightarrow> tw \<Rightarrow> (bool \<times> nat \<times> tw) option" where
  "poll_ack e k s =
     (let s1 = fw_run (e_idle e (2 + k)) s
      in if w_rearm s1 = 0 then Some (True, k, s1)
         else if e_clock e (k + 1) - e_clock e 0 > 2000000 then Some (False, k, s1)
         else poll_ack e (k + 1) s1)"

definition rearm_acked :: "rearm_args \<Rightarrow> (string \<Rightarrow> (int \<times> int) option) \<Rightarrow> renv \<Rightarrow> u32 \<Rightarrow> nat \<Rightarrow> tw \<Rightarrow> rearm_out res" where
  "rearm_acked a syms e before k s =
     (let s1 = fw_run (e_idle e (k + 3)) s; n = w_rearms s1;
          s2 = fw_run (e_idle e (k + 4)) s1; s3 = fw_run (e_idle e (k + 5)) s2;
          took = (e_clock e (k + 1) - e_clock e 0)
      in if syms ''island_trace_rearm_uptime_ms'' = None \<or> syms ''island_trace_triggered'' = None then Inl KeyError
         else if uint n \<noteq> uint before + 1 then
           Inr \<lparr>o_rc = 1, o_says = [''readout: REARM FAILED re-arm count '' @ dec_int (uint before) @ '' -> '' @ dec_int (uint n)], o_tw = s3\<rparr>
         else
           (let line = ''readout: re-armed: window '' @ dec_int (uint n + 1) @ '' since boot (re-arm '' @ dec_int (uint n)
                  @ '') at uptime '' @ dec_int (uint (w_rearm_uptime s2)) @ '' ms, acknowledged after '' @ dec_int (round_div took 1000)
                  @ '' ms; triggered='' @ dec_int (uint (w_triggered s3))
            in if \<not> ra_buttons a then Inr \<lparr>o_rc = 0, o_says = [line], o_tw = s3\<rparr>
               else if syms ''island_button_record'' = None then
                 Inr \<lparr>o_rc = 1, o_says = [line, ''buttons: BRIDGE FAILED '' @ ra_elf a @ '' has no island_button_record ''
                    @ ''(built without CONFIG_ISLAND_BUTTONS: the booth image has it)''], o_tw = s3\<rparr>
               else Inr \<lparr>o_rc = e_bridge e, o_says = [line], o_tw = s3\<rparr>))"

definition ready_lines :: "rearm_args \<Rightarrow> string list" where
  "ready_lines a = (if ra_wait_go a then [''readout: re-arm ready (attached; waiting for go on stdin)''] else [])"

definition rearm :: "rearm_args \<Rightarrow> (string \<Rightarrow> (int \<times> int) option) \<Rightarrow> renv \<Rightarrow> tw \<Rightarrow> rearm_out res option" where
  "rearm a syms e s =
     (if syms REARM = None \<or> syms ''island_trace_rearms'' = None then
        Some (Inr \<lparr>o_rc = 1, o_says = [''readout: REARM FAILED '' @ ra_elf a @ '' has no '' @ REARM @ '': an image from before phase9-W2 ''
          @ ''cannot re-arm its trace window; flash and reset for the next act''], o_tw = s\<rparr>)
      else if \<not> ra_board a then Some (Inr \<lparr>o_rc = 1, o_says = [''readout: REARM FAILED --rearm-only is board-only''], o_tw = s\<rparr>)
      else if ra_dry_run a then
        Some (Inr \<lparr>o_rc = 0, o_says = [''readout: write32 '' @ REARM @ '' @ 0x'' @ hex08 (fst (the (syms REARM))) @ '' = 1, wait for 0''], o_tw = s\<rparr>)
      else
        (let s0 = fw_run (e_idle e 0) s; before = w_rearms s0; ready = ready_lines a
         in if ra_wait_go a \<and> strip (e_line e) = [] then
              Some (Inr \<lparr>o_rc = 3, o_says = ready @ [''readout: REARM CANCELLED no go on stdin (the act ended or gave up)''], o_tw = s0\<rparr>)
            else
              (let s1 = (fw_run (e_idle e 1) s0)\<lparr>w_rearm := 1\<rparr>
               in case poll_ack e 0 s1 of
                    None \<Rightarrow> None
                  | Some (False, k, s2) \<Rightarrow>
                      Some (Inr \<lparr>o_rc = 1, o_says = ready @ [''readout: REARM FAILED the image did not acknowledge in 2 s ('' @ REARM @ '' still set): is the core running?''], o_tw = s2\<rparr>)
                  | Some (True, k, s2) \<Rightarrow> Some (rbind (rearm_acked a syms e before k s2) (\<lambda>r. Inr (r\<lparr>o_says := ready @ o_says r\<rparr>))))))"


section \<open>The halted read\<close>

definition BUFFER :: string where "BUFFER = ''ram_tracing''"
definition VIOLATION_RECORD :: string where "VIOLATION_RECORD = ''NROS_VIOLATION_RECORD''"
definition BOOTREC :: string where "BOOTREC = ''NROS_BOOT_REPORT''"
definition SUPERVISOR :: string where "SUPERVISOR = ''island_supervisor_record''"

definition WORDS :: "string list" where
  "WORDS = [''island_trace_hb_seq'', ''island_trace_hb_last_uptime_ms'',
     ''island_trace_triggered'', ''island_trace_trigger_uptime_ms'',
     ''island_trace_filtered'', ''island_trace_pre_n'', ''island_trace_pre_lost'',
     ''island_trace_cost_n'', ''island_trace_cost_min'', ''island_trace_cost_max'', ''island_trace_cost_empty'',
     ''island_trace_rearms'', ''island_trace_rearm_uptime_ms'']"

definition ARM_WORDS :: "string list" where
  "ARM_WORDS = [''island_monitors_armed_uptime_ms'', ''island_monitors_armed_via'', ''island_trace_hb_last_uptime_ms'']"

datatype dop = Halt | Resume | Close | Read32 string | Block string

type_synonym symtab = "string \<Rightarrow> (int \<times> int) option"

definition in_syms :: "symtab \<Rightarrow> string \<Rightarrow> bool" where
  "in_syms syms n = (syms n \<noteq> None)"

definition word_names :: "symtab \<Rightarrow> string list" where
  "word_names syms = filter (in_syms syms) WORDS
     @ (if in_syms syms VIOLATION_RECORD then filter (\<lambda>n. in_syms syms n \<and> n \<notin> set WORDS) ARM_WORDS else [])"

definition extra_names :: "symtab \<Rightarrow> string list" where
  "extra_names syms = filter (in_syms syms) [SERIAL, BOOTREC, ASSERT, SUPERVISOR]"

text \<open>The plan it prints, and the accesses it makes.\<close>

definition sym_at :: "symtab \<Rightarrow> string \<Rightarrow> string" where
  "sym_at syms n = n @ '' @ 0x'' @ hex08 (fst (the (syms n)))"

definition sym_block :: "symtab \<Rightarrow> string \<Rightarrow> string" where
  "sym_block syms n = ''read '' @ sym_at syms n @ '', '' @ dec_int (snd (the (syms n))) @ '' B''"

definition plan :: "symtab \<Rightarrow> string list" where
  "plan syms = [sym_block syms BUFFER] @ map (\<lambda>n. ''read32 '' @ sym_at syms n) (filter (in_syms syms) WORDS)
     @ (if in_syms syms VIOLATION_RECORD
        then sym_block syms VIOLATION_RECORD
          # map (\<lambda>n. ''read32 '' @ sym_at syms n) (filter (\<lambda>n. in_syms syms n \<and> n \<notin> set WORDS) ARM_WORDS)
        else [])
     @ map (sym_block syms) (extra_names syms)"

definition accesses :: "symtab \<Rightarrow> dop list" where
  "accesses syms = map Read32 (filter (in_syms syms) WORDS) @ [Block BUFFER]
     @ (if in_syms syms VIOLATION_RECORD
        then Block VIOLATION_RECORD # map Read32 (filter (\<lambda>n. in_syms syms n \<and> n \<notin> set (filter (in_syms syms) WORDS)) ARM_WORDS)
        else [])
     @ map Block (extra_names syms)"

text \<open>The session: \<open>halt\<close>, the accesses in a \<open>try\<close>, and its \<open>finally\<close>. \<open>fails\<close> says which operation raises; the result
  has the operations tried and whether an exception leaves it.\<close>

definition halted_session :: "bool \<Rightarrow> (dop \<Rightarrow> bool) \<Rightarrow> dop list \<Rightarrow> dop list \<times> bool" where
  "halted_session no_resume fails ops =
     (if fails Halt then ([Halt], True)
      else
        (let ok = takeWhile (\<lambda>d. \<not> fails d) ops; bad = take 1 (dropWhile (\<lambda>d. \<not> fails d) ops);
             tried = Halt # ok @ bad
         in if no_resume then (tried @ [Close], bad \<noteq> [] \<or> fails Close)
            else if fails Resume then (tried @ [Resume], True)
            else (tried @ [Resume, Close], bad \<noteq> [] \<or> fails Close)))"

record readout_out =
  ro_vals :: "(string \<times> int) list"
  ro_file :: bytes
  ro_warn :: bool      \<comment> \<open>the window never triggered\<close>

text \<open>What the halted core holds (\<open>words\<close>, \<open>blocks\<close>) and the trace file made of it; the texts beside it are the
  other decoders' reports.\<close>

definition readout :: "symtab \<Rightarrow> (string \<Rightarrow> int) \<Rightarrow> (string \<Rightarrow> bytes) \<Rightarrow> int \<Rightarrow> int \<Rightarrow> readout_out res" where
  "readout syms words blocks major minor =
     (if \<not> in_syms syms BUFFER then Inl (SystemExit ''no ram_tracing (tracing is not in this image)'')
      else
        (let vals = map (\<lambda>n. (n, words n)) (word_names syms); data = blocks BUFFER
         in if int (length data) \<noteq> snd (the (syms BUFFER)) then Inl (SystemExit ''short read'')
            else
              rbind (wrap data major minor (get_or0 vals ''island_trace_hb_seq'') (get_or0 vals ''island_trace_hb_last_uptime_ms'') 100)
                (\<lambda>f. Inr \<lparr>ro_vals = vals, ro_file = f, ro_warn = (dict_of vals ''island_trace_triggered'' = Some 0)\<rparr>)))"

section \<open>The handshake\<close>

fun is_heartbeat_ev :: "fw_ev \<Rightarrow> bool" where
  "is_heartbeat_ev (Heartbeat_at _) = True"
| "is_heartbeat_ev (Fire_at _) = False"

abbreviation beats :: "fw_ev list \<Rightarrow> bool" where
  "beats evs \<equiv> list_ex is_heartbeat_ev evs"

lemma fw_run_rearm:
  "w_rearm (fw_run evs s) = (if beats evs then 0 else w_rearm s)
   \<and> w_rearms (fw_run evs s) = w_rearms s + (if beats evs \<and> w_rearm s \<noteq> 0 then 1 else 0)"
proof (induction evs arbitrary: s)
  case (Cons ev evs)
  then show ?case by (cases ev) (auto simp: fw_step_def rearm_now_def Let_def)
qed simp

text \<open>Between two readings of the clock the loop sleeps at least 50 ms.\<close>

definition sleeps :: "renv \<Rightarrow> bool" where
  "sleeps e \<longleftrightarrow> e_clock e 0 \<le> e_clock e 1 \<and> (\<forall>k. e_clock e (k + 1) + 50000 \<le> e_clock e (k + 2))"

lemma sleeps_clock: "sleeps e \<Longrightarrow> e_clock e 0 + 50000 * int k \<le> e_clock e (k + 1)"
proof (induction k)
  case (Suc k)
  then have "e_clock e (k + 1) + 50000 \<le> e_clock e (Suc k + 1)" by (simp add: sleeps_def)
  then show ?case using Suc by simp
qed (simp add: sleeps_def)

lemma poll_ack_ends: "sleeps e \<Longrightarrow> k \<le> 41 \<Longrightarrow> \<exists>r. poll_ack e k s = Some r"
proof (induction "41 - k" arbitrary: k s)
  case 0
  then have "e_clock e (k + 1) - e_clock e 0 > 2000000" using sleeps_clock [of e k] by simp
  then show ?case by (subst poll_ack.simps) (auto simp: Let_def)
next
  case (Suc n)
  then have "\<exists>r. poll_ack e (k + 1) s1 = Some r" for s1 by simp
  then show ?case by (subst poll_ack.simps) (auto simp: Let_def)
qed

lemma poll_ack_result:
  assumes "poll_ack e k s = Some r"
  shows "w_rearm s \<noteq> 0 \<longrightarrow> (fst r \<longleftrightarrow> w_rearm (snd (snd r)) = 0) \<and> w_rearms (snd (snd r)) = w_rearms s + (if fst r then 1 else 0)"
proof (rule poll_ack.raw_induct [OF _ assms], goal_cases)
  case (1 poll e k s r)
  define s1 where "s1 = fw_run (e_idle e (2 + k)) s"
  have f: "w_rearm s1 = (if beats (e_idle e (2 + k)) then 0 else w_rearm s)"
    "w_rearms s1 = w_rearms s + (if beats (e_idle e (2 + k)) \<and> w_rearm s \<noteq> 0 then 1 else 0)"
    using fw_run_rearm [where evs = "e_idle e (2 + k)" and s = s] by (simp_all only: s1_def)
  consider "w_rearm s1 = 0" "r = (True, k, s1)" | "w_rearm s1 \<noteq> 0" "r = (False, k, s1)" | "w_rearm s1 \<noteq> 0" "poll e (k + 1) s1 = Some r"
    using 1(2) unfolding Let_def s1_def [symmetric] by (metis option.inject)
  then show ?case
  proof cases
    case 3
    then show ?thesis using 1(1) [OF 3(2)] f by (auto split: if_split_asm)
  qed (use f in \<open>auto split: if_split_asm\<close>)
qed

lemma poll_ack_in_time:
  assumes "beats (e_idle e (2 + j))" "\<forall>i < j. e_clock e (i + 1) - e_clock e 0 \<le> 2000000" "k \<le> j"
  shows "\<exists>i s'. poll_ack e k s = Some (True, i, s')"
  using assms(3)
proof (induction "j - k" arbitrary: k s)
  case 0
  then have "w_rearm (fw_run (e_idle e (2 + k)) s) = 0" using assms(1) fw_run_rearm by simp
  then show ?case by (subst poll_ack.simps) (simp add: Let_def)
next
  case (Suc n)
  then have "k < j" by simp
  then have "\<not> e_clock e (k + 1) - e_clock e 0 > 2000000" using assms(2) by (simp add: not_less)
  moreover have "\<exists>i s'. poll_ack e (k + 1) s1 = Some (True, i, s')" for s1 using Suc by simp
  ultimately show ?case by (subst poll_ack.simps) (simp add: Let_def)
qed


section \<open>Properties\<close>

text \<open>The state the word is written in, and the poll from there.\<close>

definition armed_state :: "renv \<Rightarrow> tw \<Rightarrow> tw" where
  "armed_state e s = (fw_run (e_idle e 1) (fw_run (e_idle e 0) s))\<lparr>w_rearm := 1\<rparr>"

lemma armed_state_words:
  assumes "w_rearm s = 0"
  shows "w_rearm (armed_state e s) = 1" "w_rearms (armed_state e s) = w_rearms s" "w_rearms (fw_run (e_idle e 0) s) = w_rearms s"
    "w_rearm (fw_run (e_idle e 0) s) = 0"
  using assms by (simp_all add: armed_state_def fw_run_rearm)

definition refused :: "rearm_args \<Rightarrow> (string \<Rightarrow> (int \<times> int) option) \<Rightarrow> renv \<Rightarrow> bool" where
  "refused a syms e \<longleftrightarrow> syms REARM = None \<or> syms ''island_trace_rearms'' = None \<or> \<not> ra_board a \<or> ra_dry_run a \<or> ra_wait_go a \<and> strip (e_line e) = []"

lemma rearm_refused:
  assumes "refused a syms e"
  shows "\<exists>r. rearm a syms e s = Some (Inr r) \<and> (o_tw r = s \<or> o_tw r = fw_run (e_idle e 0) s)"
  using assms by (auto simp: refused_def rearm_def Let_def)

lemma rearm_polled:
  assumes "\<not> refused a syms e" "poll_ack e 0 (armed_state e s) = Some (b, k, s')"
  shows "rearm a syms e s = Some (if b
    then rbind (rearm_acked a syms e (w_rearms (fw_run (e_idle e 0) s)) k s') (\<lambda>r. Inr (r\<lparr>o_says := ready_lines a @ o_says r\<rparr>))
    else Inr \<lparr>o_rc = 1, o_says = ready_lines a @ [''readout: REARM FAILED the image did not acknowledge in 2 s ('' @ REARM @ '' still set): is the core running?''], o_tw = s'\<rparr>)"
  using assms unfolding refused_def rearm_def Let_def armed_state_def [symmetric] by (cases b) auto

text \<open>The re-arm helper ends: with a pause of 50 ms between two polls it stops polling after at most 42 of them, acknowledged or not, whatever the firmware does meanwhile.\<close>

theorem rearm_terminates:
  assumes "sleeps e"
  shows "\<exists>r. rearm a syms e s = Some r"
proof (cases "refused a syms e")
  case True
  then show ?thesis using rearm_refused by blast
next
  case False
  obtain b k s' where "poll_ack e 0 (armed_state e s) = Some (b, k, s')"
    using poll_ack_ends [OF assms, of 0 "armed_state e s"] by auto
  then show ?thesis using rearm_polled [OF False] by blast
qed

text \<open>C30. A re-arm is acknowledged: when the image has the words, nobody else has one pending and a heartbeat falls before the helper's two seconds are over, the helper ends with 0, the word is cleared and the window was re-armed exactly once.\<close>

theorem rearm_succeeds:
  assumes go: "\<not> refused a syms e" and sy: "syms ''island_trace_rearm_uptime_ms'' \<noteq> None" "syms ''island_trace_triggered'' \<noteq> None"
    and a: "\<not> ra_buttons a" and s: "w_rearm s = 0" "unat (w_rearms s) + 1 < 2 ^ 32"
    and hb: "beats (e_idle e (2 + j))" "\<forall>i < j. e_clock e (i + 1) - e_clock e 0 \<le> 2000000"
  shows "\<exists>r. rearm a syms e s = Some (Inr r) \<and> o_rc r = 0 \<and> w_rearm (o_tw r) = 0 \<and> w_rearms (o_tw r) = w_rearms s + 1"
proof -
  obtain k s' where p: "poll_ack e 0 (armed_state e s) = Some (True, k, s')"
    using poll_ack_in_time [OF hb, of 0 "armed_state e s"] by auto
  have s': "w_rearm s' = 0" "w_rearms s' = w_rearms s + 1"
    using poll_ack_result [OF p] armed_state_words [OF s(1)] by simp_all
  have n: "uint (w_rearms s + 1) = uint (w_rearms s) + 1"
    by (simp only: uint_nat unat_step [OF s(2)] of_nat_add of_nat_1)
  have f: "w_rearm (fw_run evs s') = 0" "w_rearms (fw_run evs s') = w_rearms s + 1" for evs using s' by (simp_all add: fw_run_rearm)
  obtain says s3 where "rearm_acked a syms e (w_rearms (fw_run (e_idle e 0) s)) k s' = Inr \<lparr>o_rc = 0, o_says = says, o_tw = s3\<rparr>"
    "w_rearm s3 = 0" "w_rearms s3 = w_rearms s + 1"
    using sy a f n armed_state_words(3) [OF s(1), of e] by (auto simp: rearm_acked_def Let_def fw_run_rearm s')
  then show ?thesis using rearm_polled [OF go p] by simp
qed

lemma rearm_refusal_writes_nothing:
  assumes "refused a syms e" "w_rearm s = 0"
  shows "\<exists>r. rearm a syms e s = Some (Inr r) \<and> w_rearm (o_tw r) = 0 \<and> w_rearms (o_tw r) = w_rearms s"
  using rearm_refused [OF assms(1), of s] armed_state_words(3,4) [OF assms(2)] assms(2) by auto


lemma words_dict_pack:
  assumes "length names = length (ws :: u32 list)"
  shows "words_dict names (pack_u32s (map uint ws)) = zip names (map uint ws)"
proof -
  have "\<forall>w \<in> set (map uint ws). 0 \<le> w \<and> w < 2 ^ 32" using uint_lt2p [where 'a = 32] by auto
  from words_at_pack [OF this, of "[]"] show ?thesis using assms by (simp add: words_dict_def Let_def)
qed

definition asserted :: "failing list \<Rightarrow> assert_rec" where
  "asserted fs = foldl assert_post_action assert_boot fs"

lemma asserted_later:
  assumes "0 < unat (a_count r)" "unat (a_count r) + length fs < 2 ^ 32" "a_nested_file r \<noteq> 0"
  shows "unat (a_count (foldl assert_post_action r fs)) = unat (a_count r) + length fs
    \<and> (foldl assert_post_action r fs)\<lparr>a_count := 0\<rparr> = r\<lparr>a_count := 0\<rparr>"
  using assms
proof (induction fs arbitrary: r)
  case (Cons f fs)
  have n: "unat (a_count r + 1) = unat (a_count r) + 1" using Cons.prems by (intro unat_step) simp
  then have "a_count r + 1 \<noteq> 1" using Cons.prems(1) by (metis add_0 add_right_imp_eq less_nat_zero_code unat_1)
  then have "assert_post_action r f = r\<lparr>a_count := a_count r + 1\<rparr>" using Cons.prems(3) by (simp add: assert_post_action_def Let_def)
  then show ?case using Cons.IH [of "r\<lparr>a_count := a_count r + 1\<rparr>"] Cons.prems n by simp
qed simp

lemma asserted_one:
  "asserted [f] = \<lparr>a_magic = 0x54525341, a_count = 1, a_file = f_file f, a_line = f_line f, a_uptime_ms = f_uptime f,
     a_in_isr = (if f_isr f then 1 else 0), a_nested_file = 0, a_nested_line = 0\<rparr>"
  by (simp add: asserted_def assert_post_action_def assert_boot_def)

lemma asserted_more:
  assumes "length fs + 2 < 2 ^ 32" "f_file g \<noteq> 0"
  shows "unat (a_count (asserted (f # g # fs))) = length fs + 2
    \<and> (asserted (f # g # fs))\<lparr>a_count := 0\<rparr> = (asserted [f])\<lparr>a_count := 0, a_nested_file := f_file g, a_nested_line := f_line g\<rparr>"
proof -
  have "asserted (f # g # fs) = foldl assert_post_action ((asserted [f])\<lparr>a_count := 2, a_nested_file := f_file g, a_nested_line := f_line g\<rparr>) fs"
    by (simp add: asserted_def assert_post_action_def assert_boot_def)
  then show ?thesis using asserted_later [of "(asserted [f])\<lparr>a_count := 2, a_nested_file := f_file g, a_nested_line := f_line g\<rparr>" fs] assms by simp
qed

lemma assert_dict:
  "words_dict ASSERT_FIELDS (assert_bytes r) = [(''magic'', uint (a_magic r)), (''count'', uint (a_count r)), (''file'', uint (a_file r)),
     (''line'', uint (a_line r)), (''uptime_ms'', uint (a_uptime_ms r)), (''in_isr'', uint (a_in_isr r)),
     (''nested_file'', uint (a_nested_file r)), (''nested_line'', uint (a_nested_line r))]"
  unfolding assert_bytes_def by (subst words_dict_pack) (simp_all add: ASSERT_FIELDS_def)

text \<open>What assert.txt is to say of the failing asserts.\<close>

definition assert_report :: "(int \<Rightarrow> string) \<Rightarrow> failing list \<Rightarrow> string list option" where
  "assert_report str_at fs =
     (case fs of
        [] \<Rightarrow> None
      | f # rest \<Rightarrow>
          Some ((''ASSERT '' @ str_at (uint (f_file f)) @ '':'' @ dec_int (uint (f_line f)) @ '' at uptime '' @ dec_int (uint (f_uptime f))
                 @ '' ms ('' @ (if f_isr f then ''ISR/exception'' else ''thread'') @ '' context); failing asserts seen: '' @ dec_int (int (length fs)))
            # (case rest of [] \<Rightarrow> []
               | g # _ \<Rightarrow> [''  nested: '' @ str_at (uint (f_file g)) @ '':'' @ dec_int (uint (f_line g))
                   @ '' fired while the first was handled; the record halted the core there''])))"

text \<open>assert.txt names the first failing assert since boot with its line, uptime and context, counts all of them and names the second as nested; without a failing assert there is no assert.txt.\<close>

theorem assert_readout:
  assumes "length fs < 2 ^ 32" "\<forall>f \<in> set fs. f_file f \<noteq> 0"
  shows "assert_text str_at (assert_bytes (asserted fs)) = Inr (assert_report str_at fs)"
proof -
  consider "fs = []" | f where "fs = [f]" | f g gs where "fs = f # g # gs" by (metis neq_Nil_conv)
  then show ?thesis
  proof cases
    case 1
    then show ?thesis by (simp add: assert_text_def Let_def assert_dict asserted_def assert_boot_def dict_of_def ASSERT_MAGIC_def assert_report_def)
  next
    case 2
    then show ?thesis using assms(2)
      by (simp add: assert_text_def Let_def assert_dict asserted_one dict_of_def key_of_def get_or0_def elf_string_def uint_0_iff ASSERT_MAGIC_def
          assert_report_def)
  next
    case 3
    define r where "r = asserted fs"
    have r: "unat (a_count r) = length fs" "r\<lparr>a_count := 0\<rparr> = (asserted [f])\<lparr>a_count := 0, a_nested_file := f_file g, a_nested_line := f_line g\<rparr>"
      using asserted_more [of gs g f] assms 3 by (simp_all add: r_def)
    define z where "z = r\<lparr>a_count := 0\<rparr>"
    have "a_magic z = 0x54525341" "a_file z = f_file f" "a_line z = f_line f" "a_uptime_ms z = f_uptime f"
      "a_in_isr z = (if f_isr f then 1 else 0)" "a_nested_file z = f_file g" "a_nested_line z = f_line g"
      unfolding z_def r(2) asserted_one by simp_all
    then have sel: "a_magic r = 0x54525341" "a_file r = f_file f" "a_line r = f_line f" "a_uptime_ms r = f_uptime f"
      "a_in_isr r = (if f_isr f then 1 else 0)" "a_nested_file r = f_file g" "a_nested_line r = f_line g"
      by (simp_all add: z_def)
    have "uint (a_count r) = int (length fs)" by (simp only: uint_nat r(1))
    then show ?thesis using assms(2) 3 sel unfolding r_def [symmetric]
      by (simp add: assert_text_def Let_def assert_dict dict_of_def key_of_def get_or0_def elf_string_def uint_0_iff ASSERT_MAGIC_def assert_report_def)
  qed
qed


lemma halted_session_between:
  assumes "\<not> fails Halt" "\<not> fails Resume"
  shows "\<exists>tried rest. ops = tried @ rest \<and> fst (halted_session False fails ops) = Halt # tried @ [Resume, Close]"
proof -
  let ?t = "takeWhile (\<lambda>d. \<not> fails d) ops @ take 1 (dropWhile (\<lambda>d. \<not> fails d) ops)"
  have "ops = ?t @ drop 1 (dropWhile (\<lambda>d. \<not> fails d) ops)" by (simp add: append_take_drop_id)
  moreover have "fst (halted_session False fails ops) = Halt # ?t @ [Resume, Close]" using assms by (simp add: halted_session_def Let_def)
  ultimately show ?thesis by blast
qed

lemma dict_of_words: "n \<in> set ns \<Longrightarrow> dict_of (map (\<lambda>n. (n, f n)) ns) n = Some (f n)"
  unfolding dict_of_def rev_map map_of_map_restrict by simp

text \<open>The trace file a readout writes loads with the heartbeat counter and uptime the halted core held, the buffer's size from the symbol table, and the used bytes of the buffer.\<close>

theorem readout_file_loads:
  assumes "readout syms words blocks major minor = Inr r" "in_syms syms ''island_trace_hb_seq''" "in_syms syms ''island_trace_hb_last_uptime_ms''"
    and "4 \<le> length (rstrip0 (blocks BUFFER))" "0 \<le> minor" "minor < 256"
  shows "\<exists>h. load_head (ro_file r) None = Inr (Some h, dec_int major @ ''.'' @ dec_int minor, rstrip0 (blocks BUFFER))
    \<and> heartbeats_emitted h = words ''island_trace_hb_seq'' \<and> last_heartbeat_uptime_ms h = words ''island_trace_hb_last_uptime_ms''
    \<and> buffer_size h = snd (the (syms BUFFER)) \<and> dumped_len h = int (length (rstrip0 (blocks BUFFER)))"
proof -
  let ?vals = "map (\<lambda>n. (n, words n)) (word_names syms)"
  have "''island_trace_hb_seq'' \<in> set (word_names syms)" "''island_trace_hb_last_uptime_ms'' \<in> set (word_names syms)"
    using assms(2,3) by (simp_all add: word_names_def WORDS_def)
  then have v: "get_or0 ?vals ''island_trace_hb_seq'' = words ''island_trace_hb_seq''"
    "get_or0 ?vals ''island_trace_hb_last_uptime_ms'' = words ''island_trace_hb_last_uptime_ms''"
    by (simp_all add: get_or0_def dict_of_words)
  have "wrap (blocks BUFFER) major minor (words ''island_trace_hb_seq'') (words ''island_trace_hb_last_uptime_ms'') 100 = Inr (ro_file r)"
    and "int (length (blocks BUFFER)) = snd (the (syms BUFFER))"
    using assms(1) by (auto simp: readout_def Let_def v rbind_Inr_iff split: if_split_asm)
  then show ?thesis using wrap_loads [OF _ assms(4-6)] by metis
qed


section \<open>Witnesses\<close>

definition demo_syms :: symtab where
  "demo_syms n = (if n = ''ram_tracing'' then Some (0x20400000, 6) else if n \<in> set WORDS \<or> n = REARM then Some (0x20410000, 4) else None)"

definition demo_renv :: renv where
  "demo_renv = \<lparr>e_idle = (\<lambda>k. if k = 3 then [Heartbeat_at 4200] else []), e_clock = (\<lambda>k. 60000 * int k), e_line = [], e_bridge = 0\<rparr>"

definition demo_rearm_args :: rearm_args where
  "demo_rearm_args = \<lparr>ra_elf = ''zephyr.elf'', ra_board = True, ra_dry_run = False, ra_wait_go = False, ra_buttons = False\<rparr>"

definition demo_tw :: tw where
  "demo_tw = \<lparr>w_hb_seq = 41, w_hb_uptime = 4100, w_triggered = 1, w_trigger_uptime = 900, w_rearm = 0, w_rearms = 2, w_rearm_uptime = 300\<rparr>"

lemma demo_not_refused: "\<not> refused demo_rearm_args demo_syms demo_renv"
  by (simp add: refused_def demo_rearm_args_def demo_syms_def WORDS_def REARM_def)

theorem rearm_terminates_witness:
  "\<exists>r. rearm demo_rearm_args demo_syms demo_renv demo_tw = Some r"
  by (rule rearm_terminates) (simp add: sleeps_def demo_renv_def)

theorem rearm_succeeds_witness:
  "\<exists>r. rearm demo_rearm_args demo_syms demo_renv demo_tw = Some (Inr r) \<and> o_rc r = 0 \<and> w_rearm (o_tw r) = 0 \<and> w_rearms (o_tw r) = 3"
  using rearm_succeeds [OF demo_not_refused, of demo_tw 1]
  by (simp add: demo_syms_def WORDS_def demo_rearm_args_def demo_tw_def demo_renv_def)

definition demo_failing :: "failing list" where
  "demo_failing = [\<lparr>f_file = 0x404000, f_line = 88, f_uptime = 1500, f_isr = False\<rparr>, \<lparr>f_file = 0x404100, f_line = 12, f_uptime = 1500, f_isr = True\<rparr>]"

theorem assert_readout_witness:
  "assert_text (\<lambda>_. ''main.c'') (assert_bytes (asserted demo_failing)) = Inr (assert_report (\<lambda>_. ''main.c'') demo_failing)
    \<and> assert_report (\<lambda>_. ''main.c'') demo_failing \<noteq> None"
  using assert_readout [of demo_failing "\<lambda>_. ''main.c''"] by (simp add: demo_failing_def assert_report_def)

theorem readout_file_loads_witness:
  "\<exists>r h. readout demo_syms (\<lambda>_. 41) (\<lambda>_. [1, 0, 2, 3, 4, 0]) 4 4 = Inr r
    \<and> load_head (ro_file r) None = Inr (Some h, dec_int 4 @ ''.'' @ dec_int 4, [1, 0, 2, 3, 4]) \<and> heartbeats_emitted h = 41"
proof -
  have r: "rstrip0 [1, 0, 2, 3, 4, 0] = [1, 0, 2, 3, 4]" by (simp add: rstrip0_def)
  have "case readout demo_syms (\<lambda>_. 41) (\<lambda>_. [1, 0, 2, 3, 4, 0]) 4 4 of Inr _ \<Rightarrow> True | Inl _ \<Rightarrow> False" by code_simp
  then obtain x where x: "readout demo_syms (\<lambda>_. 41) (\<lambda>_. [1, 0, 2, 3, 4, 0]) 4 4 = Inr x" by (auto split: sum.splits)
  from readout_file_loads [OF x] show ?thesis
    using x by (simp add: r in_syms_def demo_syms_def WORDS_def) blast
qed

end
