(* ===== verification/Marker_Table.thy ===== *)
theory Marker_Table
  imports Island_Prelude
begin

text \<open>
  The marker generator, \<^verbatim>\<open>src/safety_island_tracing/gen_markers.py\<close>: the marker ids read
  from the resolved SystemModel (\<open>build_table\<close>), the record policy, the trigger and the arm
  of the trace window (\<open>window_policy\<close>), and the endpoint hash \<open>fnv1a32\<close>.

  The YAML reader is not code of this repository: a SystemModel is a record with the keys the
  generator reads. Python's dictionaries are association lists in insertion order.
\<close>

unbundle bit_operations_syntax

section \<open>The resolved SystemModel\<close>

datatype trigger =
    No_trigger
  | Timer_trigger rat            \<comment> \<open>kind timer, value.rate_hz\<close>
  | Input_trigger "string list"  \<comment> \<open>kind input, value (endpoint refs)\<close>
  | Other_trigger string

fun trigger_kind :: "trigger \<Rightarrow> string option" where
  "trigger_kind No_trigger = None"
| "trigger_kind (Timer_trigger r) = Some ''timer''"
| "trigger_kind (Input_trigger vs) = Some ''input''"
| "trigger_kind (Other_trigger k) = Some k"

record node_path =
  np_trigger :: trigger
  np_max_latency_ms :: "rat option"
  np_input :: "string list"

record service =
  srv_client :: "string list"
  srv_server :: "string list"

record topic =
  tp_pub :: "string list"
  tp_sub :: "string list"

record system_model =
  node_paths :: "(string \<times> node_path) list"
  pub_endpoints :: "string list"
  sub_endpoints :: "string list"
  hazards :: "(string \<times> string list list) list"  \<comment> \<open>per hazard, the members of each guard\<close>
  services :: "(string \<times> service) list"
  topics :: "(string \<times> topic) list"
  meta_inputs :: "(string \<times> string) list"  \<comment> \<open>path, sha256\<close>

section \<open>Names\<close>

definition strip_of :: "('a \<Rightarrow> bool) \<Rightarrow> 'a list \<Rightarrow> 'a list" where
  "strip_of p s = rev (dropWhile p (rev (dropWhile p s)))"

definition is_alnum :: "char \<Rightarrow> bool" where
  "is_alnum c =
     (let n = of_char c :: nat in 48 \<le> n \<and> n \<le> 57 \<or> 65 \<le> n \<and> n \<le> 90 \<or> 97 \<le> n \<and> n \<le> 122)"

definition c_ident :: "string \<Rightarrow> string" where
  "c_ident s =
     upper (strip_of (\<lambda>c. c = CHR ''_'') (map (\<lambda>c. if is_alnum c then c else CHR ''_'') s))"

fun split_slash :: "string \<Rightarrow> (string \<times> string) option" where
  \<comment> \<open>\<open>s.split("/", 1)\<close> when it has two parts\<close>
  "split_slash [] = None"
| "split_slash (c # s) =
     (if c = CHR ''/'' then Some ([], s)
      else map_option (\<lambda>(a, b). (c # a, b)) (split_slash s))"

definition split_endpoint :: "string \<Rightarrow> (string \<times> string) res" where
  "split_endpoint ep =
     (case split_slash (strip_of (\<lambda>c. c = CHR ''/'') ep) of
        None \<Rightarrow> Inl IndexError
      | Some parts \<Rightarrow> Inr parts)"

definition fnv_step :: "int \<Rightarrow> char \<Rightarrow> int" where
  "fnv_step h b = ((h XOR of_char b) * 0x01000193) mod 2 ^ 32"

definition fnv1a32 :: "string \<Rightarrow> int" where
  "fnv1a32 text = foldl fnv_step 0x811C9DC5 text"

section \<open>The marker table\<close>

datatype mkind =
    Path_entry | Path_exit | Take | Service_call | Service_serve_entry | Service_serve_exit
  | Publish | Other_kind string

record marker =
  mid :: int
  mname :: string
  mkind :: mkind
  melement :: string
  mnode :: string
  mtrigger :: "string option"      \<comment> \<open>paths only\<close>
  mmax_latency_ms :: "rat option"  \<comment> \<open>paths only\<close>
  mrate_hz :: "rat option"         \<comment> \<open>timer paths only\<close>
  mtriggers :: "string option"     \<comment> \<open>takes only\<close>
  mservice :: "string option"      \<comment> \<open>service calls and callbacks only\<close>
  mtopic :: "string option"        \<comment> \<open>publishes only\<close>
  mrecord :: "string option"       \<comment> \<open>set by \<open>render\<close>\<close>

definition new_marker :: "string \<Rightarrow> mkind \<Rightarrow> string \<Rightarrow> string \<Rightarrow> marker" where
  "new_marker name kind element node =
     \<lparr>mid = 0, mname = name, mkind = kind, melement = element, mnode = node, mtrigger = None,
      mmax_latency_ms = None, mrate_hz = None, mtriggers = None, mservice = None, mtopic = None,
      mrecord = None\<rparr>"

text \<open>The closure \<open>add\<close> of \<open>build_table\<close>: the id is the table's length plus one.\<close>

definition add :: "marker list \<Rightarrow> marker \<Rightarrow> marker list" where
  "add markers m = markers @ [m\<lparr>mid := int (length markers) + 1\<rparr>]"

definition number_markers :: "marker list \<Rightarrow> marker list" where
  "number_markers ms = foldl add [] ms"

definition LIFECYCLE :: "(string \<times> string \<times> string) list" where
  "LIFECYCLE =
    [(''/mrm_handler/init'', ''MRM_HANDLER_INIT_DONE'', ''lifecycle_done''),
     (''/mrm_handler/init'', ''MRM_HANDLER_INIT_TIMEOUT'', ''lifecycle_timeout'')]"

definition SUPERVISION :: "(string \<times> string \<times> string) list" where
  "SUPERVISION =
    [(''/mrm_handler/call_mrm'', ''SUPERVISOR_DEADLINE'', ''supervisor_deadline''),
     (''/mrm_handler/call_mrm'', ''SUPERVISOR_SAFE_STATE'', ''supervisor_safe_state''),
     (''/mrm_handler/call_mrm'', ''SUPERVISOR_INJECT'', ''supervisor_inject''),
     (''/mrm_handler/call_mrm'', ''SUPERVISOR_DIRECT'', ''supervisor_direct''),
     (''/mrm_handler/call_mrm'', ''SUPERVISOR_HANDOVER'', ''supervisor_handover''),
     (''/mrm_handler/call_mrm'', ''SUPERVISOR_VEHICLE_FAULT'', ''supervisor_vehicle_fault''),
     (''/mrm_handler/call_mrm'', ''SUPERVISOR_RESUME'', ''supervisor_resume''),
     (''/mrm_handler/call_mrm'', ''SUPERVISOR_FLOOR_WAIT'', ''supervisor_floor_wait''),
     (''/mrm_handler/call_mrm'', ''SUPERVISOR_RESPONSE'', ''supervisor_response'')]"

definition lookup_path :: "system_model \<Rightarrow> string \<Rightarrow> node_path" where
  "lookup_path model key =
     (case map_of (node_paths model) key of
        Some p \<Rightarrow> p
      | None \<Rightarrow> \<lparr>np_trigger = No_trigger, np_max_latency_ms = None, np_input = []\<rparr>)"

definition path_markers :: "system_model \<Rightarrow> string \<Rightarrow> marker list res" where
  "path_markers model key =
     rbind (split_endpoint key) (\<lambda>(node, path).
       let p = lookup_path model key;
           info = (\<lambda>m. m\<lparr>mtrigger := trigger_kind (np_trigger p),
                         mmax_latency_ms := np_max_latency_ms p,
                         mrate_hz := (case np_trigger p of Timer_trigger r \<Rightarrow> Some r | _ \<Rightarrow> None)\<rparr>)
       in Inr [info (new_marker (''PATH_'' @ c_ident node @ ''_'' @ c_ident path @ ''_ENTRY'')
                       Path_entry key node),
               info (new_marker (''PATH_'' @ c_ident node @ ''_'' @ c_ident path @ ''_EXIT'')
                       Path_exit key node)])"

definition take_marker :: "string \<times> string \<Rightarrow> marker res" where
  "take_marker ek =
     (case ek of (ep, key) \<Rightarrow>
       rbind (split_endpoint ep) (\<lambda>(node, name).
         Inr ((new_marker (''TAKE_'' @ c_ident node @ ''_'' @ c_ident name) Take ep node)
                \<lparr>mtriggers := Some key\<rparr>)))"

definition call_marker :: "string \<times> string \<Rightarrow> marker res" where
  "call_marker se =
     (case se of (srv, ep) \<Rightarrow>
       rbind (split_endpoint ep) (\<lambda>(node, name).
         Inr ((new_marker (''CALL_'' @ c_ident node @ ''_'' @ c_ident name) Service_call ep node)
                \<lparr>mservice := Some srv\<rparr>)))"

definition serve_markers :: "string \<times> string \<Rightarrow> marker list res" where
  "serve_markers se =
     (case se of (srv, ep) \<Rightarrow>
       rbind (split_endpoint ep) (\<lambda>(node, name).
         Inr [(new_marker (''SERVE_'' @ c_ident node @ ''_'' @ c_ident name @ ''_ENTRY'')
                 Service_serve_entry ep node)\<lparr>mservice := Some srv\<rparr>,
              (new_marker (''SERVE_'' @ c_ident node @ ''_'' @ c_ident name @ ''_EXIT'')
                 Service_serve_exit ep node)\<lparr>mservice := Some srv\<rparr>]))"

definition pub_marker :: "(string \<Rightarrow> string option) \<Rightarrow> string \<Rightarrow> marker res" where
  "pub_marker topics_by_pub ep =
     rbind (split_endpoint ep) (\<lambda>(node, name).
       Inr ((new_marker (''PUB_'' @ c_ident node @ ''_'' @ c_ident name) Publish ep node)
              \<lparr>mtopic := topics_by_pub ep\<rparr>))"

definition fixed_marker :: "string \<times> string \<times> string \<Rightarrow> marker res" where
  "fixed_marker e =
     (case e of (element, name, kind) \<Rightarrow>
       rbind (split_endpoint element) (\<lambda>(node, _). Inr (new_marker name (Other_kind kind) element node)))"

definition path_keys :: "system_model \<Rightarrow> string list" where
  "path_keys model = sort (map fst (node_paths model))"

definition take_keys :: "system_model \<Rightarrow> (string \<times> string) list" where
  \<comment> \<open>\<open>sorted(takes)\<close>, \<open>takes\<close> the set of (input endpoint, path)\<close>
  "take_keys model =
     sort (remdups (concat (map (\<lambda>key. map (\<lambda>ep. (ep, key)) (np_input (lookup_path model key)))
                              (path_keys model))))"

definition lookup_service :: "system_model \<Rightarrow> string \<Rightarrow> service" where
  "lookup_service model srv =
     (case map_of (services model) srv of
        Some s \<Rightarrow> s | None \<Rightarrow> \<lparr>srv_client = [], srv_server = []\<rparr>)"

definition service_keys :: "system_model \<Rightarrow> string list" where
  "service_keys model = sort (map fst (services model))"

definition topics_by_pub :: "system_model \<Rightarrow> string \<Rightarrow> string option" where
  "topics_by_pub model =
     dict_of (concat (map (\<lambda>(t, v). map (\<lambda>ep. (ep, t)) (tp_pub v)) (topics model)))"

definition build_table :: "system_model \<Rightarrow> marker list res" where
  "build_table model =
     rbind (rmap (path_markers model) (path_keys model)) (\<lambda>ps.
     rbind (rmap take_marker (take_keys model)) (\<lambda>ts.
     rbind (rmap call_marker
              (concat (map (\<lambda>srv. map (Pair srv) (srv_client (lookup_service model srv))) (service_keys model)))) (\<lambda>cs.
     rbind (rmap serve_markers
              (concat (map (\<lambda>srv. map (Pair srv) (srv_server (lookup_service model srv))) (service_keys model)))) (\<lambda>ss.
     rbind (rmap (pub_marker (topics_by_pub model)) (sort (pub_endpoints model))) (\<lambda>us.
     rbind (rmap fixed_marker (LIFECYCLE @ SUPERVISION)) (\<lambda>fs.
       Inr (number_markers (concat ps @ ts @ cs @ concat ss @ us @ fs))))))))"

section \<open>The trace window's record policy\<close>

datatype rec_policy = REC_EVERY | REC_CHANGE | REC_SPIN_ENTRY | REC_SPIN_EXIT

fun REC_NAME :: "rec_policy \<Rightarrow> string" where
  "REC_NAME REC_EVERY = ''every''"
| "REC_NAME REC_CHANGE = ''change''"
| "REC_NAME REC_SPIN_ENTRY = ''spin''"
| "REC_NAME REC_SPIN_EXIT = ''spin''"

definition lookup_topic_sub :: "system_model \<Rightarrow> string \<Rightarrow> string list" where
  "lookup_topic_sub model t = (case map_of (topics model) t of Some v \<Rightarrow> tp_sub v | None \<Rightarrow> [])"

definition guarded_inputs :: "system_model \<Rightarrow> string list" where
  "guarded_inputs model =
     concat (map (\<lambda>t. lookup_topic_sub model t) (concat (concat (map snd (hazards model)))))"

definition served_endpoints :: "system_model \<Rightarrow> string list" where
  "served_endpoints model = concat (map (\<lambda>(_, v). srv_server v) (services model))"

definition policy_of :: "string list \<Rightarrow> string list \<Rightarrow> marker \<Rightarrow> rec_policy" where
  "policy_of guarded served m =
     (case mkind m of
        Path_entry \<Rightarrow> if mtrigger m = Some ''timer'' then REC_SPIN_ENTRY else REC_EVERY
      | Path_exit \<Rightarrow> if mtrigger m = Some ''timer'' then REC_SPIN_EXIT else REC_EVERY
      | Take \<Rightarrow> if melement m \<in> set guarded \<or> melement m \<in> set served then REC_EVERY else REC_CHANGE
      | Publish \<Rightarrow> REC_CHANGE
      | _ \<Rightarrow> REC_EVERY)"

definition trigger_inputs :: "system_model \<Rightarrow> string \<Rightarrow> string list" where
  "trigger_inputs model element =
     (case np_trigger (lookup_path model element) of Input_trigger vs \<Rightarrow> vs | _ \<Rightarrow> [])"

definition is_detector :: "system_model \<Rightarrow> string list \<Rightarrow> marker \<Rightarrow> bool" where
  "is_detector model guarded m =
     (mkind m = Path_entry \<and> list_ex (\<lambda>v. v \<in> set guarded) (trigger_inputs model (melement m)))"

text \<open>The second loop of \<open>window_policy\<close>: the marker before a SPIN exit must be its entry.\<close>

definition spin_exit_check :: "marker list \<Rightarrow> (int \<Rightarrow> rec_policy option) \<Rightarrow> marker \<Rightarrow> unit res" where
  "spin_exit_check markers policy m =
     (if policy (mid m) = Some REC_SPIN_EXIT then
        (case List.find (\<lambda>x. mid x = mid m - 1) markers of
           None \<Rightarrow> Inl StopIteration
         | Some prev \<Rightarrow>
             if mkind prev = Path_entry \<and> melement prev = melement m then Inr () else Inl AssertionError)
      else Inr ())"

definition window_policy :: "system_model \<Rightarrow> marker list \<Rightarrow> ((int \<times> rec_policy) list \<times> int \<times> int) res" where
  "window_policy model markers =
     (let guarded = guarded_inputs model;
          served = served_endpoints model;
          policy = map (\<lambda>m. (mid m, policy_of guarded served m)) markers;
          detectors = filter (is_detector model guarded) markers
      in rbind (rmap (spin_exit_check markers (dict_of policy)) markers) (\<lambda>_.
         case detectors of
           [det] \<Rightarrow>
             (let trig_inputs = filter (\<lambda>v. v \<in> set guarded) (trigger_inputs model (melement det));
                  arms = filter (\<lambda>m. mkind m = Take \<and> melement m \<in> set trig_inputs) markers
              in case arms of
                [arm] \<Rightarrow> Inr (policy, mid det, mid arm)
              | _ \<Rightarrow> Inl (SystemExit ''the trace window needs one take of the detector's guarded input''))
         | _ \<Rightarrow> Inl (SystemExit ''the trace window needs exactly one detector path'')))"

section \<open>Numbering\<close>

lemma foldl_add_eq:
  "foldl add ms xs = ms @ map (\<lambda>(i, m). m\<lparr>mid := int i + 1\<rparr>) (enumerate (length ms) xs)"
  by (induction xs arbitrary: ms) (auto simp: add_def)

lemma length_number_markers [simp]: "length (number_markers xs) = length xs"
  by (simp add: number_markers_def foldl_add_eq)

lemma number_markers_nth:
  "i < length xs \<Longrightarrow> number_markers xs ! i = (xs ! i)\<lparr>mid := int i + 1\<rparr>"
  by (simp add: number_markers_def foldl_add_eq nth_enumerate_eq)

lemma set_number_markers:
  "m \<in> set (number_markers xs) \<longleftrightarrow> (\<exists>i < length xs. m = (xs ! i)\<lparr>mid := int i + 1\<rparr>)"
  by (auto simp: in_set_conv_nth number_markers_nth)

text \<open>The table before numbering: the path pairs first, then markers of other kinds.\<close>

definition entry_of :: "marker \<Rightarrow> marker \<Rightarrow> bool" where
  "entry_of e x \<longleftrightarrow> mkind e = Path_entry \<and> melement e = melement x \<and> mtrigger e = mtrigger x"

fun exits_ok :: "marker option \<Rightarrow> marker list \<Rightarrow> bool" where
  "exits_ok p [] = True"
| "exits_ok p (m # ms) =
     ((mkind m = Path_exit \<longrightarrow> (case p of None \<Rightarrow> False | Some e \<Rightarrow> entry_of e m)) \<and> exits_ok (Some m) ms)"

lemma exits_ok_no_exit: "\<forall>m \<in> set ms. mkind m \<noteq> Path_exit \<Longrightarrow> exits_ok p ms"
  by (induction ms arbitrary: p) auto

lemma exits_ok_nth:
  "exits_ok p ms \<Longrightarrow> i < length ms \<Longrightarrow> mkind (ms ! i) = Path_exit \<Longrightarrow>
   (i = 0 \<and> (\<exists>e. p = Some e \<and> entry_of e (ms ! 0))) \<or> (0 < i \<and> entry_of (ms ! (i - 1)) (ms ! i))"
proof (induction ms arbitrary: p i)
  case Nil
  then show ?case by simp
next
  case (Cons m ms)
  show ?case
  proof (cases i)
    case 0
    with Cons.prems show ?thesis by (auto split: option.splits)
  next
    case (Suc j)
    with Cons.prems have "(j = 0 \<and> (\<exists>e. Some m = Some e \<and> entry_of e (ms ! 0)))
        \<or> (0 < j \<and> entry_of (ms ! (j - 1)) (ms ! j))"
      by (intro Cons.IH) auto
    with Suc show ?thesis by (cases j) auto
  qed
qed

definition path_marker_ok :: "system_model \<Rightarrow> marker \<Rightarrow> bool" where
  "path_marker_ok model m \<longleftrightarrow>
     (mkind m = Path_entry \<or> mkind m = Path_exit \<longrightarrow>
        mtrigger m = trigger_kind (np_trigger (lookup_path model (melement m))))"

lemma path_markers_Inr:
  assumes "path_markers model key = Inr xs"
  shows "\<exists>a b. xs = [a, b] \<and> mkind a = Path_entry \<and> mkind b = Path_exit \<and> entry_of a b
           \<and> path_marker_ok model a \<and> path_marker_ok model b"
  using assms
  by (auto simp: path_markers_def rbind_Inr_iff new_marker_def entry_of_def path_marker_ok_def Let_def)

lemma exits_ok_path_groups:
  "rmap (path_markers model) keys = Inr ps \<Longrightarrow> (\<And>q. exits_ok q rest) \<Longrightarrow> exits_ok p (concat ps @ rest)"
proof (induction keys arbitrary: ps p)
  case Nil
  then show ?case by simp
next
  case (Cons k keys)
  from Cons.prems(1) obtain xs qs where
    xs: "path_markers model k = Inr xs" and qs: "rmap (path_markers model) keys = Inr qs" "ps = xs # qs"
    by (auto simp: rbind_Inr_iff)
  from path_markers_Inr [OF xs] obtain a b where
    ab: "xs = [a, b]" "mkind a = Path_entry" "mkind b = Path_exit" "entry_of a b" by blast
  have "exits_ok (Some b) (concat qs @ rest)"
    using Cons.IH [OF qs(1) Cons.prems(2)] .
  with ab qs(2) show ?case by simp
qed

lemma path_groups_ok:
  "rmap (path_markers model) keys = Inr ps \<Longrightarrow> m \<in> set (concat ps) \<Longrightarrow> path_marker_ok model m"
proof (induction keys arbitrary: ps)
  case Nil
  then show ?case by simp
next
  case (Cons k keys)
  then obtain xs qs where *: "path_markers model k = Inr xs" "rmap (path_markers model) keys = Inr qs"
    "ps = xs # qs" by (auto simp: rbind_Inr_iff)
  with Cons.IH [of qs] Cons.prems(2) path_markers_Inr [OF *(1)] show ?case by auto
qed

lemma other_groups_kind:
  "rmap take_marker ts = Inr xs \<Longrightarrow> m \<in> set xs \<Longrightarrow> mkind m = Take"
  "rmap call_marker cs = Inr xs \<Longrightarrow> m \<in> set xs \<Longrightarrow> mkind m = Service_call"
  "rmap (pub_marker tb) us = Inr xs \<Longrightarrow> m \<in> set xs \<Longrightarrow> mkind m = Publish"
  "rmap serve_markers ss = Inr ys \<Longrightarrow> m \<in> set (concat ys) \<Longrightarrow>
     mkind m = Service_serve_entry \<or> mkind m = Service_serve_exit"
  "rmap fixed_marker fs = Inr xs \<Longrightarrow> m \<in> set xs \<Longrightarrow> (\<exists>k. mkind m = Other_kind k)"
proof -
  show "rmap take_marker ts = Inr xs \<Longrightarrow> m \<in> set xs \<Longrightarrow> mkind m = Take"
    by (induction ts arbitrary: xs) (auto simp: rbind_Inr_iff take_marker_def new_marker_def)
  show "rmap call_marker cs = Inr xs \<Longrightarrow> m \<in> set xs \<Longrightarrow> mkind m = Service_call"
    by (induction cs arbitrary: xs) (auto simp: rbind_Inr_iff call_marker_def new_marker_def)
  show "rmap (pub_marker tb) us = Inr xs \<Longrightarrow> m \<in> set xs \<Longrightarrow> mkind m = Publish"
    by (induction us arbitrary: xs) (auto simp: rbind_Inr_iff pub_marker_def new_marker_def)
  show "rmap serve_markers ss = Inr ys \<Longrightarrow> m \<in> set (concat ys) \<Longrightarrow>
     mkind m = Service_serve_entry \<or> mkind m = Service_serve_exit"
    by (induction ss arbitrary: ys)
      (auto simp: rbind_Inr_iff serve_markers_def new_marker_def simp del: set_concat)
  show "rmap fixed_marker fs = Inr xs \<Longrightarrow> m \<in> set xs \<Longrightarrow> (\<exists>k. mkind m = Other_kind k)"
    by (induction fs arbitrary: xs) (auto simp: rbind_Inr_iff fixed_marker_def new_marker_def)
qed

lemma build_table_shape:
  assumes "build_table model = Inr markers"
  shows "\<exists>ps rest. rmap (path_markers model) (path_keys model) = Inr ps
    \<and> (\<forall>m \<in> set rest. mkind m \<noteq> Path_entry \<and> mkind m \<noteq> Path_exit)
    \<and> markers = number_markers (concat ps @ rest)"
proof -
  from assms obtain ps ts cs ss us fs where
    parts: "rmap (path_markers model) (path_keys model) = Inr ps"
      "rmap take_marker (take_keys model) = Inr ts"
      "rmap call_marker (concat (map (\<lambda>srv. map (Pair srv) (srv_client (lookup_service model srv))) (service_keys model))) = Inr cs"
      "rmap serve_markers (concat (map (\<lambda>srv. map (Pair srv) (srv_server (lookup_service model srv))) (service_keys model))) = Inr ss"
      "rmap (pub_marker (topics_by_pub model)) (sort (pub_endpoints model)) = Inr us"
      "rmap fixed_marker (LIFECYCLE @ SUPERVISION) = Inr fs"
    and m: "markers = number_markers (concat ps @ ts @ cs @ concat ss @ us @ fs)"
    unfolding build_table_def rbind_Inr_iff by blast
  have "mkind m \<noteq> Path_entry \<and> mkind m \<noteq> Path_exit" if "m \<in> set (ts @ cs @ concat ss @ us @ fs)" for m
    using that other_groups_kind(1) [OF parts(2), of m] other_groups_kind(2) [OF parts(3), of m]
      other_groups_kind(4) [OF parts(4), of m] other_groups_kind(3) [OF parts(5), of m]
      other_groups_kind(5) [OF parts(6), of m]
    by (auto simp del: set_concat)
  with parts(1) m show ?thesis by blast
qed

lemma build_table_nth_mid:
  assumes "build_table model = Inr ms" and "i < length ms"
  shows "mid (ms ! i) = int i + 1"
  using build_table_shape [OF assms(1)] assms(2) by (auto simp: number_markers_nth)

lemma build_table_exit:
  assumes "build_table model = Inr ms" and "i < length ms" and "mkind (ms ! i) = Path_exit"
  shows "0 < i \<and> entry_of (ms ! (i - 1)) (ms ! i)"
proof -
  from assms(1) obtain ps rest where
    ps: "rmap (path_markers model) (path_keys model) = Inr ps"
    and rest: "\<forall>m \<in> set rest. mkind m \<noteq> Path_entry \<and> mkind m \<noteq> Path_exit"
    and ms: "ms = number_markers (concat ps @ rest)"
    using build_table_shape by blast
  let ?xs = "concat ps @ rest"
  have "exits_ok None ?xs"
    by (rule exits_ok_path_groups [OF ps]) (use rest exits_ok_no_exit in blast)
  moreover have i: "i < length ?xs" using assms(2) ms by simp
  ultimately have "0 < i \<and> entry_of (?xs ! (i - 1)) (?xs ! i)"
    using exits_ok_nth [of None ?xs i] assms(3) ms by (simp add: number_markers_nth)
  moreover have "entry_of (a\<lparr>mid := x\<rparr>) (b\<lparr>mid := y\<rparr>) = entry_of a b" for a b x y
    by (simp add: entry_of_def)
  ultimately show ?thesis
    using i ms by (simp add: number_markers_nth)
qed

lemma build_table_path_marker:
  assumes "build_table model = Inr ms" and "m \<in> set ms"
  shows "path_marker_ok model m"
proof -
  from assms(1) obtain ps rest where
    ps: "rmap (path_markers model) (path_keys model) = Inr ps"
    and rest: "\<forall>m \<in> set rest. mkind m \<noteq> Path_entry \<and> mkind m \<noteq> Path_exit"
    and ms: "ms = number_markers (concat ps @ rest)"
    using build_table_shape by blast
  from assms(2) ms obtain i where i: "i < length (concat ps @ rest)"
    "m = ((concat ps @ rest) ! i)\<lparr>mid := int i + 1\<rparr>"
    by (auto simp only: set_number_markers)
  have "path_marker_ok model x" if "x \<in> set (concat ps @ rest)" for x
    using that path_groups_ok [OF ps, of x] rest by (auto simp: path_marker_ok_def)
  with i nth_mem have "path_marker_ok model ((concat ps @ rest) ! i)" by blast
  with i(2) show ?thesis by (simp add: path_marker_ok_def)
qed

lemma distinct_mids:
  assumes "build_table model = Inr ms"
  shows "distinct (map mid ms)"
proof -
  have "map mid ms = map (\<lambda>i. int i + 1) [0..<length ms]"
    by (rule nth_equalityI) (auto simp: build_table_nth_mid [OF assms])
  then show ?thesis by (simp add: distinct_map inj_on_def)
qed

section \<open>A small SystemModel, for the witnesses\<close>

definition demo_model :: system_model where
  "demo_model =
     \<lparr>node_paths =
        [(''/h/t'', \<lparr>np_trigger = Timer_trigger 10, np_max_latency_ms = Some 100, np_input = []\<rparr>),
         (''/h/c'', \<lparr>np_trigger = Input_trigger [''/h/a''], np_max_latency_ms = Some 149, np_input = [''/h/a'']\<rparr>)],
      pub_endpoints = [''/h/s''],
      sub_endpoints = [''/h/a''],
      hazards = [(''z'', [[''/a'']])],
      services = [],
      topics = [(''/a'', \<lparr>tp_pub = [], tp_sub = [''/h/a'']\<rparr>)],
      meta_inputs = []\<rparr>"

section \<open>The generator's guarantees\<close>

lemma spin_exit_check_ok:
  assumes ms: "build_table model = Inr ms" and m: "m \<in> set ms"
    and pol: "\<And>x. x \<in> set ms \<Longrightarrow> policy (mid x) = Some (policy_of g s x)"
  shows "spin_exit_check ms policy m = Inr ()"
proof (cases "policy (mid m) = Some REC_SPIN_EXIT")
  case False
  then show ?thesis by (simp add: spin_exit_check_def)
next
  case True
  then have "mkind m = Path_exit"
    using pol [OF m] by (auto simp: policy_of_def split: mkind.splits if_splits)
  moreover from m obtain i where i: "i < length ms" "m = ms ! i" by (auto simp: in_set_conv_nth)
  ultimately have e: "0 < i" "entry_of (ms ! (i - 1)) m" using build_table_exit [OF ms i(1)] by auto
  have "List.find (\<lambda>x. mid x = mid m - 1) ms = Some (ms ! (i - 1))"
    unfolding find_Some_iff
    by (rule exI [of _ "i - 1"])
      (use i e(1) in \<open>auto simp: build_table_nth_mid [OF ms]\<close>)
  with e(2) show ?thesis by (simp add: spin_exit_check_def entry_of_def)
qed

lemma window_policy_dict:
  assumes "build_table model = Inr ms" and "x \<in> set ms"
  shows "dict_of (map (\<lambda>m. (mid m, policy_of g s m)) ms) (mid x) = Some (policy_of g s x)"
  by (rule dict_of_mem) (use assms distinct_mids [OF assms(1)] in \<open>auto simp: comp_def\<close>)

lemma window_policy_checks:
  assumes "build_table model = Inr ms"
  shows "rmap (spin_exit_check ms (dict_of (map (\<lambda>m. (mid m, policy_of g s m)) ms))) ms
           = Inr (map (\<lambda>_. ()) ms)"
  by (rule rmap_total) (rule spin_exit_check_ok [OF assms _ window_policy_dict [OF assms]])

lemma window_policy_Inr:
  assumes ms: "build_table model = Inr ms" and w: "window_policy model ms = Inr (policy, t, a)"
  obtains det arm where
    "policy = map (\<lambda>m. (mid m, policy_of (guarded_inputs model) (served_endpoints model) m)) ms"
    "det \<in> set ms" "is_detector model (guarded_inputs model) det" "mid det = t"
    "arm \<in> set ms" "mkind arm = Take" "melement arm \<in> set (guarded_inputs model)"
    "melement arm \<in> set (trigger_inputs model (melement det))" "mid arm = a"
proof -
  let ?g = "guarded_inputs model" and ?s = "served_endpoints model"
  let ?det = "filter (is_detector model ?g) ms"
  have run: "window_policy model ms =
      (case ?det of
         [det] \<Rightarrow>
           (case filter (\<lambda>m. mkind m = Take \<and> melement m \<in> set (filter (\<lambda>v. v \<in> set ?g) (trigger_inputs model (melement det)))) ms of
              [arm] \<Rightarrow> Inr (map (\<lambda>m. (mid m, policy_of ?g ?s m)) ms, mid det, mid arm)
            | _ \<Rightarrow> Inl (SystemExit ''the trace window needs one take of the detector's guarded input''))
       | _ \<Rightarrow> Inl (SystemExit ''the trace window needs exactly one detector path''))"
    unfolding window_policy_def Let_def window_policy_checks [OF ms] by simp
  from w obtain det where d: "?det = [det]"
    unfolding run by (auto split: list.splits)
  with w obtain arm where a: "filter (\<lambda>m. mkind m = Take \<and> melement m \<in> set (filter (\<lambda>v. v \<in> set ?g) (trigger_inputs model (melement det)))) ms = [arm]"
    unfolding run by (auto split: list.splits)
  from d have "det \<in> set ?det" by simp
  moreover from a have "arm \<in> set (filter (\<lambda>m. mkind m = Take \<and> melement m \<in> set (filter (\<lambda>v. v \<in> set ?g) (trigger_inputs model (melement det)))) ms)"
    by simp
  moreover from w d a have "policy = map (\<lambda>m. (mid m, policy_of ?g ?s m)) ms" "mid det = t" "mid arm = a"
    unfolding run by auto
  ultimately show ?thesis by (intro that [of det arm]) auto
qed



text \<open>C24. When the policy pass returns, it gives every marker of the table exactly one policy;
  the trigger is the ENTRY of an input-triggered path, recorded every time; the arm is the take
  of a hazard-guarded input that triggers that path, recorded every time.\<close>

theorem window_policy_trigger_arm:
  assumes "build_table model = Inr ms" and "window_policy model ms = Inr (policy, t, a)"
  shows "map fst policy = map mid ms
    \<and> (\<exists>det \<in> set ms. \<exists>arm \<in> set ms. mid det = t \<and> mid arm = a
         \<and> mkind det = Path_entry \<and> mtrigger det = Some ''input'' \<and> dict_of policy t = Some REC_EVERY
         \<and> mkind arm = Take \<and> melement arm \<in> set (guarded_inputs model)
         \<and> melement arm \<in> set (trigger_inputs model (melement det)) \<and> dict_of policy a = Some REC_EVERY)"
proof -
  let ?g = "guarded_inputs model" and ?s = "served_endpoints model"
  from assms obtain det arm where
    pol: "policy = map (\<lambda>m. (mid m, policy_of ?g ?s m)) ms"
    and det: "det \<in> set ms" "is_detector model ?g det" "mid det = t"
    and arm: "arm \<in> set ms" "mkind arm = Take" "melement arm \<in> set ?g"
      "melement arm \<in> set (trigger_inputs model (melement det))" "mid arm = a"
    by (rule window_policy_Inr)
  from det(2) have dk: "mkind det = Path_entry" by (simp add: is_detector_def)
  moreover have "mtrigger det = Some ''input''"
    using build_table_path_marker [OF assms(1) det(1)] dk arm(4)
    by (cases "np_trigger (lookup_path model (melement det))")
      (auto simp: path_marker_ok_def trigger_inputs_def)
  moreover have "dict_of policy t = Some (policy_of ?g ?s det)" "dict_of policy a = Some (policy_of ?g ?s arm)"
    using window_policy_dict [OF assms(1) det(1)] window_policy_dict [OF assms(1) arm(1)] pol det(3) arm(5)
    by auto
  ultimately show ?thesis using pol det arm by (force simp: policy_of_def comp_def)
qed

theorem window_policy_trigger_arm_witness:
  "\<exists>ms policy. build_table demo_model = Inr ms \<and> window_policy demo_model ms = Inr (policy, 1, 5)
     \<and> map fst policy = map mid ms"
proof -
  have "case build_table demo_model of
          Inr ms \<Rightarrow> (case window_policy demo_model ms of Inr (p, t, a) \<Rightarrow> t = 1 \<and> a = 5 | Inl _ \<Rightarrow> False)
        | Inl _ \<Rightarrow> False" by code_simp
  then obtain ms policy where ms: "build_table demo_model = Inr ms"
    and w: "window_policy demo_model ms = Inr (policy, 1, 5)"
    by (auto split: sum.splits)
  with window_policy_trigger_arm [OF ms w] show ?thesis by blast
qed

section \<open>Endpoint hashes and the nano-ros block\<close>

text \<open>The runtime computes the endpoint hash in 32-bit unsigned arithmetic.\<close>

definition fnv1a32_word :: "string \<Rightarrow> 32 word" where
  "fnv1a32_word text = foldl (\<lambda>h b. (h XOR word_of_nat (of_char b)) * 0x01000193) 0x811C9DC5 text"

lemma fnv_step_word:
  "fnv_step (uint (h :: 32 word)) b = uint ((h XOR word_of_nat (of_char b)) * 0x01000193)"
proof -
  have "(of_char b :: nat) < 256" by (rule nat_of_char_less_256)
  then have "(of_char b :: nat) < 2 ^ LENGTH(32)" by (rule less_trans) simp
  then have "(of_char b :: nat) mod 2 ^ LENGTH(32) = of_char b" by (rule mod_less)
  then have "unat (word_of_nat (of_char b) :: 32 word) = of_char b"
    by (simp only: unat_of_nat)
  then have "uint (word_of_nat (of_char b) :: 32 word) = of_char b"
    by (metis of_nat_of_char uint_nat)
  then have "uint (h XOR word_of_nat (of_char b)) = uint h XOR of_char b"
    by (simp add: uint_xor)
  then show ?thesis by (simp add: fnv_step_def uint_word_ariths)
qed

lemma foldl_fnv_step:
  "foldl fnv_step (uint h) s =
     uint (foldl (\<lambda>h b. (h XOR word_of_nat (of_char b)) * 0x01000193) (h :: 32 word) s)"
  by (induction s arbitrary: h) (simp_all add: fnv_step_word)

lemma fnv_range: "0 \<le> fnv1a32 s \<and> fnv1a32 s < 16 ^ 8"
proof -
  have "fnv1a32 s = uint (fnv1a32_word s)"
    using foldl_fnv_step [of "0x811C9DC5" s] by (simp add: fnv1a32_def fnv1a32_word_def)
  then show ?thesis using uint_lt2p [of "fnv1a32_word s"] by simp
qed

text \<open>The generator's FNV-1a, computed with Python's unbounded integers and a mask, is the
  32-bit hash the runtime computes with wrapping machine arithmetic.\<close>

theorem fnv1a32_is_word_hash: "fnv1a32 s = uint (fnv1a32_word s)"
  using foldl_fnv_step [of "0x811C9DC5" s] by (simp add: fnv1a32_def fnv1a32_word_def)

end
