(* ===== verification/Marker_Render.thy ===== *)
theory Marker_Render
  imports Marker_Table
begin

text \<open>
  The rest of the marker generator, \<^verbatim>\<open>src/safety_island_tracing/gen_markers.py\<close>: the forwarded
  nano-ros markers with the endpoint hashes (\<open>nros_violation_table\<close>), the knob names, and the two
  files \<open>render\<close> makes, the C header as its lines and markers.json as a record.

  The pinned nano-ros sources, the TOML reader and SHA-256 are not code of this repository: the
  constants of the pinned Rust files are lookup functions, the knob tables and the cmake
  registry come parsed, the digest is a function argument.
\<close>

section \<open>The forwarded nano-ros markers\<close>

datatype nkind = Nros_violation | Nros_take | Nros_timer

record nros_marker =
  nm_id :: int      \<comment> \<open>the island id\<close>
  nros_id :: int
  nm_name :: string
  nm_kind :: nkind
  nm_arg :: string  \<comment> \<open>what the arg carries\<close>

record take_input =
  ti_index :: int
  ti_endpoint :: string
  ti_keep :: int
  ti_stamp_offset :: int

text \<open>The pinned nano-ros sources: the u32 constants of monitor.rs and callback_trace.rs, and
  \<open>RULE_IDS\<close>; \<open>None\<close> where the file, or the table in it, is missing.\<close>

record nros_pin =
  monitor_rs :: "(string \<Rightarrow> nat option) option"
  rule_ids_rs :: "string list option"
  callback_trace_rs :: "(string \<Rightarrow> nat option) option"

definition NROS_BASE :: int where "NROS_BASE = 256"

definition NROS_VIOLATION_MARKERS :: "(string \<times> string \<times> string) list" where
  "NROS_VIOLATION_MARKERS =
     [(''MARKER_VIOLATION'', ''NROS_VIOLATION'', ''seq << 8 | rule code (RULE_IDS index + 1)''),
      (''MARKER_VIOLATION_FQN'', ''NROS_VIOLATION_FQN'', ''FNV-1a 32 of the endpoint ref''),
      (''MARKER_VIOLATION_MEASURED'', ''NROS_VIOLATION_MEASURED'', ''measured''),
      (''MARKER_VIOLATION_DECLARED'', ''NROS_VIOLATION_DECLARED'', ''declared'')]"

definition NROS_TAKE_MARKERS :: "(string \<times> string \<times> string) list" where
  "NROS_TAKE_MARKERS =
     [(''MARKER_TAKE'', ''NROS_TAKE'', ''input index << 24 | take seq (nano-ros: slot handle << 24 | seq)''),
      (''MARKER_TAKE_STAMP_SEC'', ''NROS_TAKE_STAMP_SEC'', ''source stamp sec (only when it changed for this input)''),
      (''MARKER_TAKE_STAMP_NSEC'', ''NROS_TAKE_STAMP_NSEC'', ''source stamp nanosec'')]"

definition NROS_DISPATCH :: "(string \<times> string) list" where
  "NROS_DISPATCH = [(''MARKER_START'', ''START''), (''MARKER_END'', ''END'')]"

definition NROS_TIMER_MARKERS :: "(string \<times> string \<times> string) list" where
  "NROS_TIMER_MARKERS =
     [(''START'', ''NROS_TIMER_START'', ''timer slot (the bound timer only)''),
      (''END'', ''NROS_TIMER_END'', ''timer slot (the bound timer only)'')]"

definition NROS_TAKE_INPUTS :: "(string \<times> int) list" where
  "NROS_TAKE_INPUTS =
     [(''/mrm_handler/kinematic_state'', 4),
      (''/mrm_handler/operation_mode_state'', 1),
      (''/mrm_emergency_stop_operator/control_cmd'', 12)]"

definition NROS_TAKE_STAMP_OFFSET :: int where "NROS_TAKE_STAMP_OFFSET = 4"

definition NROS_STAND_INS :: "string list" where "NROS_STAND_INS = [''timer'', ''spin'']"

definition read_const :: "(string \<Rightarrow> nat option) \<Rightarrow> nkind \<Rightarrow> string \<times> string \<times> string \<Rightarrow> nros_marker res" where
  "read_const src kind row =
     (case row of (const, name, arg) \<Rightarrow>
       (case src const of
          None \<Rightarrow> Inl (SystemExit ''constant not found in the pinned source'')
        | Some nid \<Rightarrow> Inr \<lparr>nm_id = NROS_BASE + int nid, nros_id = int nid, nm_name = name, nm_kind = kind,
                           nm_arg = arg\<rparr>))"

text \<open>A row of \<open>NROS_DISPATCH\<close>: the name and the arg come from \<open>NROS_TIMER_MARKERS\<close>.\<close>

definition read_dispatch :: "(string \<Rightarrow> nat option) \<Rightarrow> string \<times> string \<Rightarrow> nros_marker res" where
  "read_dispatch cbt row =
     (case map_of NROS_TIMER_MARKERS (snd row) of
        None \<Rightarrow> Inl KeyError
      | Some (tname, targ) \<Rightarrow> read_const cbt Nros_timer (fst row, tname, targ))"

definition endpoint_refs :: "system_model \<Rightarrow> string list" where
  "endpoint_refs model = sort (remdups (pub_endpoints model @ sub_endpoints model)) @ NROS_STAND_INS"

definition endpoint_hash_items :: "string list \<Rightarrow> (string \<times> string) list" where
  "endpoint_hash_items refs = map (\<lambda>r. (hex08 (fnv1a32 r), r)) refs"

type_synonym nros_table =
  "nros_marker list \<times> string list \<times> (string \<times> string) list \<times> (string \<times> int) list \<times> take_input list"

definition nros_violation_table :: "nros_pin \<Rightarrow> system_model \<Rightarrow> nros_table res" where
  "nros_violation_table pin model =
     (case monitor_rs pin of
        None \<Rightarrow> Inl (SystemExit ''no monitor.rs -- is the nano-ros submodule checked out?'')
      | Some mon \<Rightarrow>
     rbind (rmap (read_const mon Nros_violation) NROS_VIOLATION_MARKERS) (\<lambda>vm.
     (case rule_ids_rs pin of
        None \<Rightarrow> Inl (SystemExit ''RULE_IDS not found in the pinned monitor.rs'')
      | Some rules \<Rightarrow>
     (case callback_trace_rs pin of
        None \<Rightarrow> Inl (SystemExit ''no callback_trace.rs'')
      | Some cbt \<Rightarrow>
     rbind (rmap (read_const cbt Nros_take) NROS_TAKE_MARKERS) (\<lambda>tm.
     rbind (rmap (read_dispatch cbt) NROS_DISPATCH) (\<lambda>dm.
     let dispatch = zip (map snd NROS_DISPATCH) (map nros_id dm) in
     if \<not> list_all (\<lambda>(ref, _). ref \<in> set (sub_endpoints model)) NROS_TAKE_INPUTS
     then Inl (SystemExit ''a take input is not a subscriber endpoint of the contract'')
     else
     let refs = endpoint_refs model; hashes = endpoint_hash_items refs in
     if length (remdups (map fst hashes)) \<noteq> length refs
     then Inl (SystemExit ''two endpoint refs share an FNV-1a hash'')
     else
     let takes = map (\<lambda>(i, ref, keep). \<lparr>ti_index = int i, ti_endpoint = ref, ti_keep = keep,
                                        ti_stamp_offset = NROS_TAKE_STAMP_OFFSET\<rparr>)
                   (enumerate 0 NROS_TAKE_INPUTS)
     in Inr (sort_key nm_id (vm @ tm @ dm), rules, hashes, dispatch, takes)))))))"

section \<open>markers.json\<close>

record entities =
  ent_pub :: nat
  ent_sub :: nat
  ent_srv :: nat
  ent_cli :: nat
  ent_timer :: nat

definition entity_counts :: "system_model \<Rightarrow> entities" where
  "entity_counts model =
     \<lparr>ent_pub = length (pub_endpoints model), ent_sub = length (sub_endpoints model),
      ent_srv = sum_list (map (\<lambda>(_, v). length (srv_server v)) (services model)),
      ent_cli = sum_list (map (\<lambda>(_, v). length (srv_client v)) (services model)),
      ent_timer = length (filter (\<lambda>(_, p). trigger_kind (np_trigger p) = Some ''timer'') (node_paths model))\<rparr>"

record marker_table =
  contract_sha256 :: string
  table_sha256 :: string
  tb_entities :: entities
  tb_knobs :: "string list"
  tb_trigger :: int
  tb_arm :: int
  tb_markers :: "marker list"
  nros_markers :: "nros_marker list"
  rule_ids :: "string list"
  endpoint_hashes :: "(string \<times> string) list"
  take_inputs :: "take_input list"

text \<open>The rows the table digest covers.\<close>

definition digest_rows :: "marker list \<Rightarrow> nros_marker list \<Rightarrow> (int \<times> string \<times> string) list" where
  "digest_rows markers nms =
     map (\<lambda>m. (mid m, mname m, melement m)) markers @ map (\<lambda>m. (nm_id m, nm_name m, ''nano-ros'')) nms"

section \<open>The C header\<close>

fun mkind_text :: "mkind \<Rightarrow> string" where
  "mkind_text Path_entry = ''path_entry''"
| "mkind_text Path_exit = ''path_exit''"
| "mkind_text Take = ''take''"
| "mkind_text Service_call = ''service_call''"
| "mkind_text Service_serve_entry = ''service_serve_entry''"
| "mkind_text Service_serve_exit = ''service_serve_exit''"
| "mkind_text Publish = ''publish''"
| "mkind_text (Other_kind k) = k"

fun rec_code :: "rec_policy \<Rightarrow> int" where
  "rec_code REC_EVERY = 0"
| "rec_code REC_CHANGE = 1"
| "rec_code REC_SPIN_ENTRY = 2"
| "rec_code REC_SPIN_EXIT = 3"

abbreviation quote :: string where "quote \<equiv> [CHR 0x22]"
abbreviation backslash :: string where "backslash \<equiv> [CHR 0x5C]"

text \<open>The initialiser of \<open>ISLAND_TRACE_POLICY_TABLE\<close>: index 0 is unused.\<close>

definition policy_codes :: "(int \<times> rec_policy) list \<Rightarrow> marker list \<Rightarrow> int list" where
  "policy_codes policy markers = 0 # map (\<lambda>m. rec_code (the (dict_of policy (mid m)))) markers"

definition head_lines :: "string \<Rightarrow> string \<Rightarrow> nat \<Rightarrow> entities \<Rightarrow> string list" where
  "head_lines contract_sha table_sha n counts =
    [''/* GENERATED by src/safety_island_tracing/gen_markers.py -- DO NOT EDIT.'',
     '' *'',
     '' * Trace-marker ids for the safety island, one per executing contract element'',
     '' * of src/safety_island_bringup/launch/safety_island.contract.yaml, read from'',
     '' * the resolved model (`just sync`). Regenerate with `just trace-gen`; the'',
     '' * meaning of every id is in markers.json beside this file and in'',
     '' * docs/tracing.md. */'',
     ''#ifndef ISLAND_TRACE_MARKERS_H'',
     ''#define ISLAND_TRACE_MARKERS_H'',
     [],
     ''#define ISLAND_TRACE_CONTRACT_SHA256 '' @ quote @ contract_sha @ quote,
     ''#define ISLAND_TRACE_TABLE_SHA256 '' @ quote @ table_sha @ quote,
     ''#define ISLAND_TRACE_MARKER_COUNT '' @ dec_nat n,
     ''#define ISLAND_TRACE_ENTITIES '' @ quote @ ''pub='' @ dec_nat (ent_pub counts) @ '',sub='' @ dec_nat (ent_sub counts)
       @ '',srv='' @ dec_nat (ent_srv counts) @ '',cli='' @ dec_nat (ent_cli counts)
       @ '',timer='' @ dec_nat (ent_timer counts) @ quote,
     []]"

definition marker_line :: "nat \<Rightarrow> marker \<Rightarrow> string" where
  "marker_line width m =
     ''#define '' @ ljust width (''ISLAND_MK_'' @ mname m) @ '' '' @ rjust 3 (dec_int (mid m)) @ '' /* ''
       @ ljust 20 (mkind_text (mkind m)) @ '' '' @ melement m @ '' */''"

definition marker_lines :: "marker list \<Rightarrow> string list" where
  "marker_lines markers =
     (let width = max_len (map mname markers) + length ''ISLAND_MK_''
      in map (marker_line width) markers @ [[]])"

definition window_lines :: "(int \<times> rec_policy) list \<Rightarrow> marker list \<Rightarrow> int \<Rightarrow> int \<Rightarrow> string list res" where
  "window_lines policy markers trigger_id arm_id =
     rbind (py_nth markers (trigger_id - 1)) (\<lambda>tm.
     rbind (py_nth markers (arm_id - 1)) (\<lambda>am.
       Inr
    [''/* The trace window (phase8-W17, include/island_trace.h, docs/tracing.md'',
     '' * section 8): the record policy of every id (index 0 unused), the trigger'',
     '' * (the detector path's ENTRY) and the arm (the take of its guarded input). */'',
     ''#define ISLAND_TRACE_REC_EVERY 0'',
     ''#define ISLAND_TRACE_REC_CHANGE 1'',
     ''#define ISLAND_TRACE_REC_SPIN_ENTRY 2'',
     ''#define ISLAND_TRACE_REC_SPIN_EXIT 3'',
     ''#define ISLAND_TRACE_POLICY_TABLE { '' @ join '', '' (map dec_int (policy_codes policy markers)) @ '' }'',
     ''#define ISLAND_TRACE_TRIGGER_MARKER '' @ dec_int trigger_id @ '' /* '' @ mname tm @ '' */'',
     ''#define ISLAND_TRACE_ARM_MARKER '' @ dec_int arm_id @ '' /* '' @ mname am @ '' */'',
     []]))"

definition nros_line :: "nat \<Rightarrow> nros_marker \<Rightarrow> string" where
  "nros_line nw m =
     ''#define '' @ ljust nw (''ISLAND_MK_'' @ nm_name m) @ '' '' @ rjust 3 (dec_int (nm_id m)) @ '' /* nano-ros ''
       @ dec_int (nros_id m) @ '': '' @ nm_arg m @ '' */''"

text \<open>\<open>viol[0]\<close> and \<open>viol[-1]\<close> are indexed, \<open>dispatch\<close> and \<open>take_mk\<close> looked up: each may raise.\<close>

definition nros_lines :: "nros_marker list \<Rightarrow> string list res" where
  "nros_lines nms =
     (let viol = filter (\<lambda>m. nm_kind m = Nros_violation) nms;
          nw = max_len (map nm_name nms) + length ''ISLAND_MK_''
      in rbind (py_nth viol 0) (\<lambda>v0. rbind (py_nth viol (- 1)) (\<lambda>v1. Inr (
    [''/* phase9-W4: nano-ros's contract-violation markers, forwarded by the sink in'',
     '' * include/island_trace.h at island id = ISLAND_TRACE_NROS_BASE + nano-ros id'',
     '' * (nano-ros numbers them in a block that overlaps the ids above). A stored'',
     '' * violation is four records in a row; the first one also opens the trace'',
     '' * window. Ids read from the pinned monitor.rs. */'',
     ''#define ISLAND_TRACE_NROS_BASE '' @ dec_int NROS_BASE,
     ''#define ISLAND_TRACE_NROS_FIRST '' @ dec_int (nros_id v0),
     ''#define ISLAND_TRACE_NROS_LAST '' @ dec_int (nros_id v1)]
    @ map (nros_line nw) nms @ [[]]))))"

definition take_lines :: "nat \<Rightarrow> take_input \<Rightarrow> string list" where
  "take_lines tw t =
     [''#define '' @ ljust tw (''ISLAND_TRACE_TAKE_'' @ c_ident (ti_endpoint t)) @ '' '' @ dec_int (ti_index t) @ '' /* ''
        @ ti_endpoint t @ '' */'',
      ''#define '' @ ljust tw (''ISLAND_TRACE_TAKE_KEEP_'' @ c_ident (ti_endpoint t)) @ '' '' @ dec_int (ti_keep t)]"

definition sink_lines :: "nros_marker list \<Rightarrow> (string \<times> int) list \<Rightarrow> take_input list \<Rightarrow> string list res" where
  "sink_lines nms dispatch takes =
     (let take_mk = map (\<lambda>m. (nm_name m, nros_id m)) (filter (\<lambda>m. nm_kind m = Nros_take) nms);
          tw = max_len (map (c_ident \<circ> ti_endpoint) takes) + length ''ISLAND_TRACE_TAKE_KEEP_''
      in rbind (key_of dispatch ''START'') (\<lambda>start. rbind (key_of dispatch ''END'') (\<lambda>stop.
         rbind (key_of take_mk ''NROS_TAKE'') (\<lambda>tk. rbind (key_of take_mk ''NROS_TAKE_STAMP_SEC'') (\<lambda>sec.
         rbind (key_of take_mk ''NROS_TAKE_STAMP_NSEC'') (\<lambda>nsec. Inr (
    [''/* phase9-W4 rerun (phase-474 I3, F4): the nano-ros ids the sink reads, and'',
     '' * the inputs whose takes it forwards (index, one in KEEP, stamp offset). */'',
     ''#define ISLAND_TRACE_NROS_START '' @ dec_int start,
     ''#define ISLAND_TRACE_NROS_END '' @ dec_int stop,
     ''#define ISLAND_TRACE_NROS_TAKE '' @ dec_int tk,
     ''#define ISLAND_TRACE_NROS_TAKE_STAMP_SEC '' @ dec_int sec,
     ''#define ISLAND_TRACE_NROS_TAKE_STAMP_NSEC '' @ dec_int nsec,
     ''#define ISLAND_TRACE_TAKE_INPUTS '' @ dec_nat (length takes),
     ''#define ISLAND_TRACE_TAKE_STAMP_OFFSET '' @ dec_int NROS_TAKE_STAMP_OFFSET]
    @ concat (map (take_lines tw) takes)
    @ [''#define ISLAND_TRACE_TAKE_KEEPS '' @ quote @ join '','' (map (dec_int \<circ> ti_keep) takes) @ quote, []])))))))"

definition knob_lines :: "string list \<Rightarrow> string list" where
  "knob_lines knobs =
     [''/* Knobs that size the image, as the build delivered them (autoconf.h). */'']
     @ concat (map (\<lambda>k. let short = drop (length ''CONFIG_'') k in
         [''#ifdef '' @ k,
          ''#define ISLAND_TRACE_KNOB_'' @ short @ '' '' @ quote @ '';'' @ short @ ''='' @ quote @ '' ISLAND_TRACE_STR('' @ k @ '')'',
          ''#else'',
          ''#define ISLAND_TRACE_KNOB_'' @ short @ '' '' @ quote @ quote,
          ''#endif'']) knobs)
     @ [''#define ISLAND_TRACE_KNOBS '' @ backslash]
     @ map (\<lambda>k. ''  ISLAND_TRACE_KNOB_'' @ drop (length ''CONFIG_'') k @ '' '' @ backslash) knobs
     @ [''  '' @ quote @ quote, [], ''#endif /* ISLAND_TRACE_MARKERS_H */'']"

section \<open>The knobs\<close>

definition is_upper_id :: "char \<Rightarrow> bool" where
  "is_upper_id c = (let n = of_char c :: nat in 48 \<le> n \<and> n \<le> 57 \<or> 65 \<le> n \<and> n \<le> 90 \<or> c = CHR ''_'')"

definition is_hex :: "char \<Rightarrow> bool" where
  "is_hex c = (let n = of_char c :: nat in 48 \<le> n \<and> n \<le> 57 \<or> 65 \<le> n \<and> n \<le> 70 \<or> 97 \<le> n \<and> n \<le> 102)"

text \<open>What may follow the value on a Kconfig line: \<open>\s*(#.*)?$\<close>, on one line.\<close>

definition line_rest :: "string \<Rightarrow> bool" where
  "line_rest s = (let r = dropWhile is_space s in r = [] \<or> hd r = CHR ''#'')"

definition knob_value :: "string \<Rightarrow> bool" where
  "knob_value s =
     ((let d = (if starts_with ''-'' s then drop 1 s else s)
       in d \<noteq> [] \<and> is_digit (hd d) \<and> line_rest (dropWhile is_digit d))
      \<or> (starts_with ''0x'' s \<and> (let d = drop 2 s in d \<noteq> [] \<and> is_hex (hd d) \<and> line_rest (dropWhile is_hex d))))"

text \<open>One line of a Kconfig file: the name of the integer knob it sets.\<close>

definition knob_line :: "string \<Rightarrow> string option" where
  "knob_line line =
     (let s = dropWhile is_space line in
      if starts_with ''CONFIG_'' s then
        (let k = takeWhile is_upper_id (drop 7 s); r = dropWhile is_upper_id (drop 7 s)
         in if k \<noteq> [] \<and> starts_with ''='' r \<and> knob_value (drop 1 r) then Some (''CONFIG_'' @ k) else None)
      else None)"

text \<open>The registry: (table, name) of an image knob to its Kconfig symbol, from the \<open>set(...)\<close> lines of
  the pinned cmake file, given as its variables in order.\<close>

definition knob_registry :: "(string \<times> string) list \<Rightarrow> ((string \<times> string) \<times> string) list" where
  "knob_registry sets =
     concat (map (\<lambda>(key, ksym).
       let pre = ''NROS_KNOB_KCONFIG_SYMBOL_'' in
       if starts_with pre key then
         (let kid = drop (length pre) key in
          case (dict_of sets (''NROS_KNOB_IMAGE_TABLE_'' @ kid), dict_of sets (''NROS_KNOB_IMAGE_NAME_'' @ kid)) of
            (Some table, Some name) \<Rightarrow> [((table, name), ''CONFIG_'' @ ksym)]
          | _ \<Rightarrow> [])
       else []) sets)"

text \<open>A knob of a system.toml: its table, name and whether its value is an integer (booleans are
  not).\<close>

type_synonym toml_knob = "string \<times> string \<times> bool"

definition system_knob :: "((string \<times> string) \<times> string) list \<Rightarrow> toml_knob \<Rightarrow> string list res" where
  "system_knob reg kn =
     (case kn of (table, name, is_int) \<Rightarrow>
       if \<not> is_int then Inr []
       else (case dict_of reg (table, name) of
               None \<Rightarrow> Inl (SystemExit ''no Kconfig symbol for the knob in the pinned registry'')
             | Some cfg \<Rightarrow> Inr [cfg]))"

definition system_knob_names :: "(string \<times> string) list option \<Rightarrow> toml_knob list \<Rightarrow> string list res" where
  "system_knob_names registry knobs =
     (case registry of
        None \<Rightarrow> if list_ex (\<lambda>(_, _, is_int). is_int) knobs then Inl (SystemExit ''the knob registry is missing'') else Inr []
      | Some sets \<Rightarrow> rbind (rmap (system_knob (knob_registry sets)) knobs) (\<lambda>xs. Inr (concat xs)))"

definition TRACING_KNOBS :: "string list" where
  "TRACING_KNOBS = [''CONFIG_RAM_TRACING_BUFFER_SIZE'', ''CONFIG_TRACING_PACKET_MAX_SIZE'',
                    ''CONFIG_TRACING_BUFFER_SIZE'', ''CONFIG_SYS_CLOCK_HW_CYCLES_PER_SEC'']"

definition knob_names :: "(string \<times> string) list option \<Rightarrow> toml_knob list \<Rightarrow> string list \<Rightarrow> string list res" where
  "knob_names registry toml_knobs conf_lines =
     rbind (system_knob_names registry toml_knobs) (\<lambda>sys.
       Inr (sort (remdups (sys @ List.map_filter knob_line conf_lines @ TRACING_KNOBS))))"

section \<open>Rendering\<close>

text \<open>What the generator reads besides the model: the pinned nano-ros sources, the knob files (the
  existing ones, as one list of lines), and SHA-256 of the digest rows.\<close>

record gen_env =
  ge_sha256 :: "(int \<times> string \<times> string) list \<Rightarrow> string list \<Rightarrow> string"
  ge_pin :: nros_pin
  ge_registry :: "(string \<times> string) list option"
  ge_toml :: "toml_knob list"
  ge_conf :: "string list"

definition render :: "gen_env \<Rightarrow> system_model \<Rightarrow> marker list \<Rightarrow> (string list \<times> marker_table) res" where
  "render env model markers =
     (if int (length markers) \<ge> NROS_BASE
      then Inl (SystemExit ''island markers reach the nano-ros block'')
      else
      rbind (nros_violation_table (ge_pin env) model) (\<lambda>(nms, rules, hashes, dispatch, takes).
      rbind (window_policy model markers) (\<lambda>(policy, trigger_id, arm_id).
      let contract_sha = (case dict_of (meta_inputs model) ''launch/safety_island.contract.yaml'' of
                            Some s \<Rightarrow> s | None \<Rightarrow> ''unknown'');
          table_sha = ge_sha256 env (digest_rows markers nms) rules;
          counts = entity_counts model
      in rbind (knob_names (ge_registry env) (ge_toml env) (ge_conf env)) (\<lambda>knobs.
         rbind (window_lines policy markers trigger_id arm_id) (\<lambda>wl.
         rbind (nros_lines nms) (\<lambda>nl.
         rbind (sink_lines nms dispatch takes) (\<lambda>sl.
           Inr (head_lines contract_sha table_sha (length markers) counts @ marker_lines markers @ wl @ nl @ sl
                  @ knob_lines knobs,
                \<lparr>contract_sha256 = contract_sha, table_sha256 = table_sha, tb_entities = counts, tb_knobs = knobs,
                 tb_trigger = trigger_id, tb_arm = arm_id,
                 tb_markers = map (\<lambda>m. m\<lparr>mrecord := map_option REC_NAME (dict_of policy (mid m))\<rparr>) markers,
                 nros_markers = nms, rule_ids = rules, endpoint_hashes = hashes,
                 take_inputs = takes\<rparr>))))))))"

text \<open>\<open>load_model\<close>'s staleness check, given the digest of every input that exists.\<close>

definition load_model :: "(string \<Rightarrow> string option) \<Rightarrow> system_model \<Rightarrow> system_model res" where
  "load_model file_sha model =
     (if list_ex (\<lambda>(p, sha). case file_sha p of None \<Rightarrow> False | Some s \<Rightarrow> s \<noteq> sha) (meta_inputs model)
      then Inl (SystemExit ''the model is STALE -- run `just sync` first'') else Inr model)"

text \<open>\<open>gen_markers.py gen\<close> and \<open>check\<close>: what \<open>gen\<close> writes, and the exit code of \<open>check\<close> on the files
  found.\<close>

definition gen :: "gen_env \<Rightarrow> (string \<Rightarrow> string option) \<Rightarrow> system_model \<Rightarrow> (string list \<times> marker_table) res" where
  "gen env file_sha model =
     rbind (load_model file_sha model) (\<lambda>model. rbind (build_table model) (\<lambda>markers. render env model markers))"

definition gen_check ::
    "gen_env \<Rightarrow> (string \<Rightarrow> string option) \<Rightarrow> system_model \<Rightarrow> string list option \<Rightarrow> marker_table option \<Rightarrow> int res" where
  "gen_check env file_sha model header table =
     rbind (gen env file_sha model) (\<lambda>(h, t). Inr (if header = Some h \<and> table = Some t then 0 else 1))"

section \<open>What the generator guarantees of its output\<close>

lemma read_const_Inr:
  "read_const src k (c, n, a) = Inr m \<longleftrightarrow>
     (\<exists>nid. src c = Some nid \<and>
       m = \<lparr>nm_id = NROS_BASE + int nid, nros_id = int nid, nm_name = n, nm_kind = k, nm_arg = a\<rparr>)"
  by (auto simp: read_const_def split: option.splits)

definition nros_ok :: "nros_marker \<Rightarrow> bool" where
  "nros_ok m = (nm_id m = NROS_BASE + nros_id m \<and> 0 \<le> nros_id m)"

lemma read_const_ok: "read_const src k row = Inr m \<Longrightarrow> nros_ok m \<and> nm_kind m = k \<and> nm_name m = fst (snd row)"
  by (cases row) (auto simp: read_const_Inr nros_ok_def)

lemma read_consts_ok:
  "rmap (read_const src k) rows = Inr ms \<Longrightarrow>
   list_all nros_ok ms \<and> list_all (\<lambda>m. nm_kind m = k) ms \<and> map nm_name ms = map (fst \<circ> snd) rows"
  by (induction rows arbitrary: ms) (auto simp: rbind_Inr_iff dest!: read_const_ok)

lemma read_dispatch_ok:
  "rmap (read_dispatch cbt) NROS_DISPATCH = Inr ms \<Longrightarrow>
   list_all nros_ok ms \<and> list_all (\<lambda>m. nm_kind m = Nros_timer) ms
   \<and> map nm_name ms = [''NROS_TIMER_START'', ''NROS_TIMER_END'']"
  by (auto simp: NROS_DISPATCH_def NROS_TIMER_MARKERS_def read_dispatch_def rbind_Inr_iff dest!: read_const_ok)

lemma nros_violation_table_Inr:
  assumes "nros_violation_table pin model = Inr (nms, rules, hashes, dispatch, takes)"
  obtains vm tm dm where "nms = sort_key nm_id (vm @ tm @ dm)"
    "list_all nros_ok nms"
    "list_all (\<lambda>m. nm_kind m = Nros_violation) vm" "map nm_name vm = map (fst \<circ> snd) NROS_VIOLATION_MARKERS"
    "list_all (\<lambda>m. nm_kind m = Nros_take) tm" "map nm_name tm = map (fst \<circ> snd) NROS_TAKE_MARKERS"
    "list_all (\<lambda>m. nm_kind m = Nros_timer) dm" "map nm_name dm = [''NROS_TIMER_START'', ''NROS_TIMER_END'']"
    "hashes = endpoint_hash_items (endpoint_refs model)" "distinct (map fst hashes)"
    "dispatch = zip (map snd NROS_DISPATCH) (map nros_id dm)"
proof -
  from assms obtain mon cbt vm tm dm where
    vm: "rmap (read_const mon Nros_violation) NROS_VIOLATION_MARKERS = Inr vm"
    and tm: "rmap (read_const cbt Nros_take) NROS_TAKE_MARKERS = Inr tm"
    and dm: "rmap (read_dispatch cbt) NROS_DISPATCH = Inr dm"
    and nms: "nms = sort_key nm_id (vm @ tm @ dm)"
    and h: "hashes = endpoint_hash_items (endpoint_refs model)"
      "length (remdups (map fst hashes)) = length (endpoint_refs model)"
    and d: "dispatch = zip (map snd NROS_DISPATCH) (map nros_id dm)"
    by (cases "monitor_rs pin"; cases "rule_ids_rs pin"; cases "callback_trace_rs pin")
      (auto simp: nros_violation_table_def rbind_Inr_iff Let_def split: if_splits)
  have "length (remdups (map fst hashes)) = length (map fst hashes)"
    using h by (simp add: endpoint_hash_items_def)
  then have "distinct (map fst hashes)" by (metis distinct_remdups length_remdups_eq)
  moreover from read_consts_ok [OF vm] read_consts_ok [OF tm] read_dispatch_ok [OF dm]
  have "list_all nros_ok nms" by (auto simp: nms list_all_iff)
  ultimately show thesis
    using nms h(1) d read_consts_ok [OF vm] read_consts_ok [OF tm] read_dispatch_ok [OF dm]
    by (intro that [of vm tm dm]) simp_all
qed


lemma read_const_err: "read_const src k row = Inl e \<Longrightarrow> \<exists>s. e = SystemExit s"
  by (auto simp: read_const_def split: option.splits prod.splits)

lemma rmap_err: "rmap f xs = Inl e \<Longrightarrow> \<exists>x \<in> set xs. f x = Inl e"
  by (induction xs) (auto simp: rbind_Inl_iff)

lemma nros_violation_table_err:
  assumes "nros_violation_table pin model = Inl e"
  shows "\<exists>s. e = SystemExit s"
proof -
  have d: "\<exists>s. x = SystemExit s" if "rmap (read_dispatch cbt) NROS_DISPATCH = Inl x" for cbt x
    using that by (auto simp: NROS_DISPATCH_def NROS_TIMER_MARKERS_def read_dispatch_def rbind_Inl_iff
        dest: read_const_err)
  have c: "\<exists>s. x = SystemExit s" if "rmap (read_const src k) rows = Inl x" for src k rows x
    using that by (auto dest!: rmap_err read_const_err)
  from assms show ?thesis
    by (cases "monitor_rs pin"; cases "rule_ids_rs pin"; cases "callback_trace_rs pin")
      (auto simp: nros_violation_table_def rbind_Inl_iff Let_def dest: c d split: if_splits)
qed

lemma window_policy_err:
  assumes "build_table model = Inr ms" and "window_policy model ms = Inl e"
  shows "\<exists>s. e = SystemExit s"
  using assms(2) unfolding window_policy_def Let_def window_policy_checks [OF assms(1)]
  by (auto split: list.splits)

lemma knob_names_err: "knob_names reg toml conf = Inl e \<Longrightarrow> \<exists>s. e = SystemExit s"
  by (auto simp: knob_names_def system_knob_names_def system_knob_def rbind_Inl_iff
      split: option.splits if_splits prod.splits dest!: rmap_err)

lemma py_nth_last: "xs \<noteq> [] \<Longrightarrow> py_nth xs (- 1) = Inr (last xs)"
  by (cases xs rule: rev_cases) (simp_all add: py_nth_def nth_append)

lemma nros_lines_total:
  assumes "nros_violation_table pin model = Inr (nms, rules, hashes, dispatch, takes)"
  shows "\<exists>nl. nros_lines nms = Inr nl"
proof -
  from assms obtain vm tm dm where nms: "nms = sort_key nm_id (vm @ tm @ dm)"
    "list_all (\<lambda>m. nm_kind m = Nros_violation) vm" "map nm_name vm = map (fst \<circ> snd) NROS_VIOLATION_MARKERS"
    by (rule nros_violation_table_Inr)
  then obtain v where "v \<in> set vm" "nm_kind v = Nros_violation"
    by (cases vm) (auto simp: NROS_VIOLATION_MARKERS_def)
  with nms(1) have "v \<in> set (filter (\<lambda>m. nm_kind m = Nros_violation) nms)" by simp
  then have "filter (\<lambda>m. nm_kind m = Nros_violation) nms \<noteq> []" by (metis list.set_cases list.simps(3))
  then show ?thesis by (auto simp: nros_lines_def Let_def py_nth_last py_nth_Inr)
qed

lemma sink_lines_total:
  assumes "nros_violation_table pin model = Inr (nms, rules, hashes, dispatch, takes)"
  shows "\<exists>sl. sink_lines nms dispatch takes = Inr sl"
proof -
  from assms obtain vm tm dm where nms: "nms = sort_key nm_id (vm @ tm @ dm)"
    and tm: "list_all (\<lambda>m. nm_kind m = Nros_take) tm" "map nm_name tm = map (fst \<circ> snd) NROS_TAKE_MARKERS"
    and dm: "map nm_name dm = [''NROS_TIMER_START'', ''NROS_TIMER_END'']"
    and d: "dispatch = zip (map snd NROS_DISPATCH) (map nros_id dm)"
    by (rule nros_violation_table_Inr)
  let ?mk = "map (\<lambda>m. (nm_name m, nros_id m)) (filter (\<lambda>m. nm_kind m = Nros_take) nms)"
  from dm have "length dm = 2" by (metis length_map length_Cons list.size(3) numeral_2_eq_2)
  then have "map fst dispatch = [''START'', ''END'']" unfolding d by (simp add: NROS_DISPATCH_def)
  then have k: "\<exists>v. key_of dispatch k = Inr v" if "k \<in> {''START'', ''END''}" for k
    using that by (intro key_of_total) auto
  have t: "\<exists>v. key_of ?mk k = Inr v" if "k \<in> set (map nm_name tm)" for k
    using that tm(1) nms by (intro key_of_total) (force simp: list_all_iff)
  from k [of "''START''"] k [of "''END''"] t [of "''NROS_TAKE''"] t [of "''NROS_TAKE_STAMP_SEC''"]
    t [of "''NROS_TAKE_STAMP_NSEC''"]
  show ?thesis by (auto simp: sink_lines_def Let_def tm(2) NROS_TAKE_MARKERS_def)
qed

lemma window_lines_total:
  assumes "build_table model = Inr ms" and "window_policy model ms = Inr (policy, t, a)"
  shows "\<exists>wl. window_lines policy ms t a = Inr wl"
proof -
  from assms obtain det arm where "det \<in> set ms" "mid det = t" "arm \<in> set ms" "mid arm = a"
    by (rule window_policy_Inr)
  then obtain i j where "i < length ms" "mid (ms ! i) = t" "j < length ms" "mid (ms ! j) = a"
    by (metis in_set_conv_nth)
  with build_table_nth_mid [OF assms(1)] have "t = int i + 1" "a = int j + 1" "i < length ms" "j < length ms"
    by auto
  then show ?thesis by (auto simp: window_lines_def py_nth_Inr)
qed


definition demo_env :: gen_env where
  "demo_env = \<lparr>ge_sha256 = (\<lambda>rows rules. ''abc''),
     ge_pin = \<lparr>monitor_rs = Some (map_of [(''MARKER_VIOLATION'', 21), (''MARKER_VIOLATION_FQN'', 22),
                                        (''MARKER_VIOLATION_MEASURED'', 23), (''MARKER_VIOLATION_DECLARED'', 24)]),
               rule_ids_rs = Some [''rate'', ''age''],
               callback_trace_rs = Some (map_of [(''MARKER_TAKE'', 25), (''MARKER_TAKE_STAMP_SEC'', 26),
                                        (''MARKER_TAKE_STAMP_NSEC'', 27), (''MARKER_START'', 18), (''MARKER_END'', 19)])\<rparr>,
     ge_registry = None, ge_toml = [], ge_conf = [''CONFIG_X=1'']\<rparr>"

definition demo_model2 :: system_model where
  "demo_model2 = demo_model\<lparr>sub_endpoints := ''/h/a'' # map fst NROS_TAKE_INPUTS\<rparr>"


lemma gen_Inr:
  assumes "gen env file_sha model = Inr (hdr, tb)"
  obtains ms policy dispatch where "build_table model = Inr ms"
    "window_policy model ms = Inr (policy, tb_trigger tb, tb_arm tb)"
    "nros_violation_table (ge_pin env) model = Inr (nros_markers tb, rule_ids tb, endpoint_hashes tb, dispatch, take_inputs tb)"
    "tb_markers tb = map (\<lambda>m. m\<lparr>mrecord := map_option REC_NAME (dict_of policy (mid m))\<rparr>) ms"
    "int (length ms) < NROS_BASE"
proof -
  from assms obtain ms where ms: "build_table model = Inr ms" "render env model ms = Inr (hdr, tb)"
    by (auto simp: gen_def load_model_def rbind_Inr_iff split: if_splits)
  then show thesis
    using that by (auto simp: render_def rbind_Inr_iff Let_def split: if_splits)
qed

lemma render_total:
  assumes "build_table model = Inr ms" and "window_policy model ms = Inr (policy, t, a)" and "int (length ms) < NROS_BASE"
    and "nros_violation_table (ge_pin env) model = Inr (nms, rules, hashes, dispatch, takes)"
    and "knob_names (ge_registry env) (ge_toml env) (ge_conf env) = Inr knobs"
  shows "\<exists>hdr tb. render env model ms = Inr (hdr, tb)"
  using window_lines_total [OF assms(1,2)] nros_lines_total [OF assms(4)] sink_lines_total [OF assms(4)] assms
  by (auto simp: render_def Let_def)

lemma demo_gen: "\<exists>hdr tb. gen demo_env (\<lambda>_. None) demo_model2 = Inr (hdr, tb)"
proof -
  have "case build_table demo_model2 of
          Inr ms \<Rightarrow> int (length ms) < NROS_BASE \<and> (case window_policy demo_model2 ms of Inr _ \<Rightarrow> True | Inl _ \<Rightarrow> False)
        | Inl _ \<Rightarrow> False" by code_simp
  then obtain ms policy t a where ms: "build_table demo_model2 = Inr ms" "window_policy demo_model2 ms = Inr (policy, t, a)"
    "int (length ms) < NROS_BASE" by (auto split: sum.splits)
  have "case nros_violation_table (ge_pin demo_env) demo_model2 of Inr _ \<Rightarrow> True | Inl _ \<Rightarrow> False" by code_simp
  then obtain nms rules hashes dispatch takes where
    n: "nros_violation_table (ge_pin demo_env) demo_model2 = Inr (nms, rules, hashes, dispatch, takes)"
    by (auto split: sum.splits)
  have "case knob_names (ge_registry demo_env) (ge_toml demo_env) (ge_conf demo_env) of Inr _ \<Rightarrow> True | Inl _ \<Rightarrow> False"
    by code_simp
  then obtain knobs where k: "knob_names (ge_registry demo_env) (ge_toml demo_env) (ge_conf demo_env) = Inr knobs"
    by (auto split: sum.splits)
  have "load_model (\<lambda>_. None) demo_model2 = Inr demo_model2"
    by (simp add: load_model_def demo_model2_def demo_model_def)
  with render_total [OF ms n k] ms(1) show ?thesis by (auto simp: gen_def)
qed

text \<open>The ids of markers.json: the island's are exactly 1, 2, ... in order and below 256, the
  forwarded nano-ros ones are 256 plus the nano-ros id, sorted, and never below 256, so no id of one block is in
  the other; the violation markers are among them.\<close>

theorem gen_ids_disjoint:
  assumes "gen env file_sha model = Inr (hdr, tb)"
  shows "map mid (tb_markers tb) = [1..int (length (tb_markers tb))] \<and> int (length (tb_markers tb)) < 256
    \<and> (\<forall>m \<in> set (nros_markers tb). nm_id m = 256 + nros_id m \<and> 256 \<le> nm_id m)
    \<and> sorted (map nm_id (nros_markers tb))
    \<and> {m \<in> set (nros_markers tb). nm_kind m = Nros_violation} \<noteq> {}"
proof -
  from assms obtain ms policy dispatch where ms: "build_table model = Inr ms"
    and n: "nros_violation_table (ge_pin env) model = Inr (nros_markers tb, rule_ids tb, endpoint_hashes tb, dispatch, take_inputs tb)"
    and tb: "tb_markers tb = map (\<lambda>m. m\<lparr>mrecord := map_option REC_NAME (dict_of policy (mid m))\<rparr>) ms"
    and len: "int (length ms) < NROS_BASE"
    by (rule gen_Inr)
  from n obtain vm tm dm where s: "nros_markers tb = sort_key nm_id (vm @ tm @ dm)" and ok: "list_all nros_ok (nros_markers tb)"
    and v: "list_all (\<lambda>m. nm_kind m = Nros_violation) vm" "map nm_name vm = map (fst \<circ> snd) NROS_VIOLATION_MARKERS"
    by (rule nros_violation_table_Inr)
  have "map mid (tb_markers tb) = [1..int (length (tb_markers tb))]"
    unfolding tb by (rule nth_equalityI) (auto simp: build_table_nth_mid [OF ms])
  moreover have "\<exists>x \<in> set vm. nm_kind x = Nros_violation"
    using v by (cases vm) (auto simp: NROS_VIOLATION_MARKERS_def)
  ultimately show ?thesis
    using len ok by (auto simp: tb s NROS_BASE_def nros_ok_def list_all_iff)
qed

theorem gen_ids_disjoint_witness:
  "\<exists>hdr tb. gen demo_env (\<lambda>_. None) demo_model2 = Inr (hdr, tb) \<and> int (length (tb_markers tb)) < 256"
proof -
  from demo_gen obtain hdr tb where *: "gen demo_env (\<lambda>_. None) demo_model2 = Inr (hdr, tb)" by blast
  with gen_ids_disjoint [OF *] show ?thesis by blast
qed

text \<open>The policy table of the C header has one entry more than there are markers, and the entry at a
  marker's id is the code of that marker's record policy: the window filter can index it by id.\<close>

theorem policy_table_indexed_by_id:
  assumes "build_table model = Inr ms" and "window_policy model ms = Inr (policy, t, a)"
  shows "length (policy_codes policy ms) = length ms + 1 \<and> (\<forall>m \<in> set ms. 0 < mid m \<and> nat (mid m) < length (policy_codes policy ms)
    \<and> policy_codes policy ms ! nat (mid m) = rec_code (policy_of (guarded_inputs model) (served_endpoints model) m))"
proof -
  let ?g = "guarded_inputs model" and ?s = "served_endpoints model"
  from assms have pol: "policy = map (\<lambda>m. (mid m, policy_of ?g ?s m)) ms" by (rule window_policy_Inr)
  have "0 < mid m \<and> nat (mid m) < length (policy_codes policy ms)
    \<and> policy_codes policy ms ! nat (mid m) = rec_code (policy_of ?g ?s m)" if m: "m \<in> set ms" for m
  proof -
    from m obtain i where i: "i < length ms" "m = ms ! i" by (metis in_set_conv_nth)
    with build_table_nth_mid [OF assms(1) i(1)] have "nat (mid m) = Suc i" "0 < mid m" by auto
    with i window_policy_dict [OF assms(1) m] pol show ?thesis by (simp add: policy_codes_def)
  qed
  then show ?thesis by (metis length_Cons length_map policy_codes_def Suc_eq_plus1)
qed

theorem policy_table_indexed_by_id_witness:
  "\<exists>ms policy t a. build_table demo_model = Inr ms \<and> window_policy demo_model ms = Inr (policy, t, a)
     \<and> length (policy_codes policy ms) = length ms + 1"
proof -
  have "case build_table demo_model of
          Inr ms \<Rightarrow> (case window_policy demo_model ms of Inr _ \<Rightarrow> True | Inl _ \<Rightarrow> False) | Inl _ \<Rightarrow> False"
    by code_simp
  then obtain ms policy t a where *: "build_table demo_model = Inr ms" "window_policy demo_model ms = Inr (policy, t, a)"
    by (auto split: sum.splits)
  with policy_table_indexed_by_id [OF *] show ?thesis by blast
qed

end
