(* ===== verification/Trace_Join.thy ===== *)
theory Trace_Join
  imports Marker_Render Trace_Decode
begin

text \<open>
  What \<^verbatim>\<open>src/safety_island_tracing/island_trace.py\<close> builds on the decoded records: the marker
  names of a generated table, the joins of the contract violations and of the forwarded takes,
  the bound timer's ticks, and \<open>load\<close> as a whole; and the nano-ros sink of
  \<^verbatim>\<open>src/safety_island_tracing/include/island_trace.h\<close>, whose output the takes are joined from.

  A dictionary the source extends in place while it is the last element of its list is that
  element here, and a flag says whether it is still open. Durations in ms are rationals: the
  source's quotient by \<open>1e6\<close>, without its rounding.
\<close>

section \<open>Names\<close>

definition names_of :: "marker_table \<Rightarrow> int \<Rightarrow> string option" where
  "names_of table =
     dict_of (map (\<lambda>m. (mid m, mname m)) (tb_markers table) @ map (\<lambda>m. (nm_id m, nm_name m)) (nros_markers table))"

definition nros_names :: "marker_table \<Rightarrow> int \<Rightarrow> string option" where
  "nros_names table = dict_of (map (\<lambda>m. (nm_id m, nm_name m)) (nros_markers table))"

definition rule_name :: "marker_table \<Rightarrow> int \<Rightarrow> string" where
  "rule_name table code =
     (let rules = rule_ids table
      in if 1 \<le> code \<and> code \<le> int (length rules) then rules ! nat (code - 1) else ''rule#'' @ dec_int code)"

definition endpoint_name :: "marker_table \<Rightarrow> int \<Rightarrow> string" where
  "endpoint_name table h =
     (case dict_of (endpoint_hashes table) (hex08 h) of Some r \<Rightarrow> r | None \<Rightarrow> ''fqn#'' @ hex08 h)"

section \<open>Violations\<close>

record viol =
  v_t_ns :: int
  v_seq :: int
  v_rule_code :: int
  v_rule :: string
  v_fqn :: "(int \<times> string) option"   \<comment> \<open>fqn_hash, endpoint\<close>
  v_measured :: "int option"
  v_declared :: "int option"

definition upd_last :: "('a \<Rightarrow> 'a) \<Rightarrow> 'a list \<Rightarrow> 'a list" where
  "upd_last f xs = (if xs = [] then [] else butlast xs @ [f (last xs)])"

lemma upd_last_snoc [simp]: "upd_last f (xs @ [x]) = xs @ [f x]"
  by (simp add: upd_last_def)

type_synonym vjoin = "viol list \<times> bool"

definition violation_step ::
    "marker_table \<Rightarrow> string \<times> string \<times> string \<times> string \<Rightarrow> vjoin \<Rightarrow> trec \<Rightarrow> vjoin" where
  "violation_step table ord st r =
     (case (ord, st, pay r) of ((hd_n, f_fqn, f_meas, f_decl), (out, op), Marker mk n arg) \<Rightarrow>
        if n = hd_n then
          (out @ [\<lparr>v_t_ns = t_ns r, v_seq = arg div 2 ^ 8, v_rule_code = arg mod 2 ^ 8,
                   v_rule = rule_name table (arg mod 2 ^ 8), v_fqn = None, v_measured = None,
                   v_declared = None\<rparr>], True)
        else if op \<and> n = f_fqn \<and> v_fqn (last out) = None then
          (upd_last (\<lambda>v. v\<lparr>v_fqn := Some (arg, endpoint_name table arg)\<rparr>) out, op)
        else if op \<and> n = f_meas \<and> v_measured (last out) = None then
          (upd_last (\<lambda>v. v\<lparr>v_measured := Some arg\<rparr>) out, op)
        else if op \<and> n = f_decl \<and> v_declared (last out) = None then
          (upd_last (\<lambda>v. v\<lparr>v_declared := Some arg\<rparr>) out, False)
        else st
      | _ \<Rightarrow> st)"

definition violation_order :: "marker_table \<Rightarrow> string list" where
  "violation_order table = map nm_name (filter (\<lambda>m. nm_kind m = Nros_violation) (nros_markers table))"

definition join_violations :: "trec list \<Rightarrow> marker_table \<Rightarrow> viol list" where
  "join_violations recs table =
     (case violation_order table of
        [a, b, c, d] \<Rightarrow> fst (foldl (violation_step table (a, b, c, d)) ([], False) recs)
      | _ \<Rightarrow> [])"

section \<open>Takes\<close>

record take_rec =
  k_t_ns :: int
  k_input :: int
  k_endpoint :: string
  k_seq :: int
  k_stamp_ns :: "int option"

record tjoin =
  tj_out :: "take_rec list"
  tj_open :: bool
  tj_sec :: "int \<Rightarrow> int option"

definition take_step :: "(int \<Rightarrow> string option) \<Rightarrow> tjoin \<Rightarrow> trec \<Rightarrow> tjoin" where
  "take_step inputs st r =
     (case pay r of
        Marker mk n arg \<Rightarrow>
          if n = ''NROS_TAKE'' then
            (let i = arg div 2 ^ 24
             in st\<lparr>tj_out := tj_out st @ [\<lparr>k_t_ns = t_ns r, k_input = i,
                      k_endpoint = (case inputs i of Some e \<Rightarrow> e | None \<Rightarrow> ''input#'' @ dec_int i),
                      k_seq = arg mod 2 ^ 24, k_stamp_ns = None\<rparr>],
                   tj_open := True\<rparr>)
          else if n = ''NROS_TAKE_STAMP_SEC'' \<and> tj_open st then
            st\<lparr>tj_sec := (tj_sec st)(k_input (last (tj_out st)) \<mapsto> arg)\<rparr>
          else if n = ''NROS_TAKE_STAMP_NSEC'' \<and> tj_open st then
            st\<lparr>tj_out := (case tj_sec st (k_input (last (tj_out st))) of
                            None \<Rightarrow> tj_out st
                          | Some s \<Rightarrow> upd_last (\<lambda>k. k\<lparr>k_stamp_ns := Some (s * 1000000000 + arg)\<rparr>) (tj_out st)),
               tj_open := False\<rparr>
          else st
      | _ \<Rightarrow> st)"

definition join_takes :: "trec list \<Rightarrow> marker_table \<Rightarrow> take_rec list" where
  "join_takes recs table =
     (let inputs = map (\<lambda>t. (ti_index t, ti_endpoint t)) (take_inputs table)
      in if inputs = [] then []
         else tj_out (foldl (take_step (dict_of inputs)) \<lparr>tj_out = [], tj_open = False, tj_sec = (\<lambda>_. None)\<rparr> recs))"

definition take_counts :: "take_rec list \<Rightarrow> marker_table \<Rightarrow> (string \<times> nat \<times> nat) list" where
  "take_counts takes table =
     map (\<lambda>t. (ti_endpoint t,
               length (filter (\<lambda>k. k_endpoint k = ti_endpoint t) takes),
               length (filter (\<lambda>k. k_endpoint k = ti_endpoint t \<and> k_stamp_ns k \<noteq> None) takes)))
       (take_inputs table)"

section \<open>Timer ticks\<close>

definition tick_step :: "(int \<times> int option) list \<Rightarrow> trec \<Rightarrow> (int \<times> int option) list" where
  "tick_step out r =
     (case pay r of
        Marker mk n arg \<Rightarrow>
          if n = ''NROS_TIMER_START'' then out @ [(t_ns r, None)]
          else if n = ''NROS_TIMER_END'' \<and> out \<noteq> [] \<and> snd (last out) = None
          then upd_last (\<lambda>(s, _). (s, Some (t_ns r))) out
          else out
      | _ \<Rightarrow> out)"

definition timer_ticks :: "trec list \<Rightarrow> (int \<times> int option) list" where
  "timer_ticks recs = foldl tick_step [] recs"

record tick_stat =
  ts_n :: nat
  ts_gaps :: nat
  ts_mean :: rat
  ts_min :: rat
  ts_max :: rat
  ts_hist :: "int list"   \<comment> \<open>the bins of the gaps; a bin's count is how often it occurs\<close>
  ts_span_ms :: rat
  ts_dur_max :: "rat option"
  ts_dur_mean :: "rat option"

definition ms_of :: "int \<Rightarrow> rat" where
  "ms_of ns = of_int ns / 1000000"

definition trunc :: "rat \<Rightarrow> int" where
  "trunc x = (if x < 0 then - floor (- x) else floor x)"

definition list_min :: "rat list \<Rightarrow> rat" where
  "list_min xs = foldr min (tl xs) (hd xs)"

definition list_max :: "rat list \<Rightarrow> rat" where
  "list_max xs = foldr max (tl xs) (hd xs)"

definition tick_stats :: "(int \<times> int option) list \<Rightarrow> tick_stat option" where
  "tick_stats ticks =
     (let st = map fst ticks;
          d = map (\<lambda>(a, b). ms_of (b - a)) (pairs st);
          dur = List.map_filter (\<lambda>(s, e). map_option (\<lambda>x. ms_of (x - s)) e) ticks
      in if d = [] then None
         else Some \<lparr>ts_n = length st, ts_gaps = length d, ts_mean = sum_list d / of_nat (length d),
                    ts_min = list_min d, ts_max = list_max d, ts_hist = map trunc d,
                    ts_span_ms = ms_of (last st - hd st),
                    ts_dur_max = (if dur = [] then None else Some (list_max dur)),
                    ts_dur_mean = (if dur = [] then None else Some (sum_list dur / of_nat (length dur)))\<rparr>)"

section \<open>load\<close>

record trace =
  tr_header :: "header option"
  tr_zephyr :: string
  tr_records :: "trec list"
  tr_bytes_by_kind :: "string \<Rightarrow> nat"
  tr_used :: nat
  tr_error :: "(int \<times> nat \<times> nat) option"
  tr_table :: marker_table
  tr_violations :: "viol list"
  tr_takes :: "take_rec list"

text \<open>\<open>tsdls\<close> gives the event layouts of a Zephyr version (the pinned tree's metadata).\<close>

definition conf_of :: "tsdl \<Rightarrow> marker_table \<Rightarrow> dconf" where
  "conf_of t table = \<lparr>dc_tsdl = t, dc_base = ev_base t, dc_names = names_of table\<rparr>"

definition load :: "(string \<Rightarrow> tsdl) \<Rightarrow> marker_table \<Rightarrow> bytes \<Rightarrow> string option \<Rightarrow> trace res" where
  "load tsdls table data zephyr =
     rbind (load_head data zephyr) (\<lambda>(h, z, buf).
       let t = tsdls z; cfg = conf_of t table in
       if list_ex (\<lambda>k. events t (ev_base t + k) \<noteq> None) [0, 1, 2, 3]
       then Inl (SystemExit ''an island event id collides with a Zephyr CTF event'')
       else
         rbind (decode_loop cfg (padded buf) dstate0) (\<lambda>st.
           let recs = anchor (ds_recs st) (ds_seg st) in
           Inr \<lparr>tr_header = h, tr_zephyr = z, tr_records = recs, tr_bytes_by_kind = ds_sizes st,
                tr_used = ds_pos st, tr_error = ds_error st, tr_table = table,
                tr_violations = join_violations recs table, tr_takes = join_takes recs table\<rparr>))"

section \<open>The nano-ros sink\<close>

text \<open>\<open>island_trace_nros_sink\<close> for the take events, at u8 and u32 width: \<open>sk_slot\<close> holds slot + 1 (0
  when not bound), \<open>sk_cur\<close> is the input whose stamp follows (\<open>None\<close> for 0xFF). A step gives the
  markers it emits.\<close>

datatype nros_ev = NTake int int | NSec int | NNsec int   \<comment> \<open>slot, seq; sec; nanosec\<close>

record sink =
  sk_slot :: "int list"
  sk_keep :: "int list"
  sk_n :: "int list"
  sk_sec :: "int list"
  sk_cur :: "nat option"

definition find_input :: "sink \<Rightarrow> int \<Rightarrow> nat option" where
  "find_input s slot = List.find (\<lambda>i. sk_slot s ! i = (slot + 1) mod 2 ^ 8) [0..<length (sk_slot s)]"

fun sink_step :: "sink \<Rightarrow> nros_ev \<Rightarrow> sink \<times> (string \<times> int) list" where
  "sink_step s (NTake slot seq) =
     (case find_input s slot of
        None \<Rightarrow> (s\<lparr>sk_cur := None\<rparr>, [])
      | Some i \<Rightarrow>
          (let n = (sk_n s ! i + 1) mod 2 ^ 8
           in if n \<ge> sk_keep s ! i
              then (s\<lparr>sk_n := (sk_n s)[i := 0], sk_cur := Some i\<rparr>,
                    [(''NROS_TAKE'', int i * 2 ^ 24 + seq mod 2 ^ 24)])
              else (s\<lparr>sk_n := (sk_n s)[i := n], sk_cur := None\<rparr>, [])))"
| "sink_step s (NSec sec) =
     (case sk_cur s of
        None \<Rightarrow> (s, [])
      | Some i \<Rightarrow>
          if sk_sec s ! i \<noteq> sec
          then (s\<lparr>sk_sec := (sk_sec s)[i := sec]\<rparr>, [(''NROS_TAKE_STAMP_SEC'', sec)])
          else (s, []))"
| "sink_step s (NNsec nsec) =
     (case sk_cur s of
        None \<Rightarrow> (s\<lparr>sk_cur := None\<rparr>, [])
      | Some i \<Rightarrow> (s\<lparr>sk_cur := None\<rparr>, [(''NROS_TAKE_STAMP_NSEC'', nsec)]))"

fun sink_run :: "sink \<Rightarrow> nros_ev list \<Rightarrow> (string \<times> int) list" where
  "sink_run s [] = []"
| "sink_run s (e # es) = (let (s', out) = sink_step s e in out @ sink_run s' es)"

section \<open>Joins read only their own markers\<close>

type_synonym mark = "int \<times> string \<times> int"   \<comment> \<open>time, name, arg\<close>

definition mark_in :: "string set \<Rightarrow> trec \<Rightarrow> mark option" where
  "mark_in S r = (case pay r of Marker mk n arg \<Rightarrow> if n \<in> S then Some (t_ns r, n, arg) else None | _ \<Rightarrow> None)"

definition mk_rec :: "mark \<Rightarrow> trec" where
  "mk_rec m = (case m of (t, n, arg) \<Rightarrow> \<lparr>off = 0, t_ns = t, eid = 0, pay = Marker 0 n arg\<rparr>)"

definition marks :: "string set \<Rightarrow> trec list \<Rightarrow> mark list" where
  "marks S recs = List.map_filter (mark_in S) recs"

lemma marks_simps [simp]:
  "marks S [] = []"
  "marks S (r # rs) = (case mark_in S r of None \<Rightarrow> marks S rs | Some m \<Rightarrow> m # marks S rs)"
  by (simp_all add: marks_def map_filter_simps split: option.split)

lemma mark_in_Some_iff:
  "mark_in S r = Some m \<longleftrightarrow> (\<exists>mk n arg. pay r = Marker mk n arg \<and> n \<in> S \<and> m = (t_ns r, n, arg))"
  by (cases "pay r") (auto simp: mark_in_def)

lemma mark_in_None_iff: "mark_in S r = None \<longleftrightarrow> (\<forall>mk n arg. pay r = Marker mk n arg \<longrightarrow> n \<notin> S)"
  by (cases "pay r") (auto simp: mark_in_def)

locale mark_join =
  fixes names :: "string set" and join_step :: "'s \<Rightarrow> trec \<Rightarrow> 's"
  assumes other: "mark_in names r = None \<Longrightarrow> join_step st r = st"
    and own: "mark_in names r = Some m \<Longrightarrow> join_step st r = join_step st (mk_rec m)"
begin

lemma run_marks: "foldl join_step st recs = foldl join_step st (map mk_rec (marks names recs))"
proof (induction recs arbitrary: st)
  case Nil
  then show ?case by simp
next
  case (Cons r rs)
  then show ?case by (cases "mark_in names r") (simp_all add: other own)
qed

lemma run_cong: "marks names recs = marks names recs' \<Longrightarrow> foldl join_step st recs = foldl join_step st recs'"
  using run_marks [of st recs] run_marks [of st recs'] by simp

end

interpretation vj: mark_join "{a, b, c, d}" "violation_step table (a, b, c, d)" for a b c d table
proof unfold_locales
  fix r st
  assume "mark_in {a, b, c, d} r = None"
  then show "violation_step table (a, b, c, d) st r = st" by (cases "pay r"; cases st) (auto simp: mark_in_None_iff violation_step_def)
next
  fix r m st
  assume "mark_in {a, b, c, d} r = Some m"
  then show "violation_step table (a, b, c, d) st r = violation_step table (a, b, c, d) st (mk_rec m)"
    by (cases st) (auto simp: mark_in_Some_iff violation_step_def mk_rec_def)
qed

interpretation tj: mark_join "{''NROS_TAKE'', ''NROS_TAKE_STAMP_SEC'', ''NROS_TAKE_STAMP_NSEC''}" "take_step inputs" for inputs
proof unfold_locales
  fix r st
  assume "mark_in {''NROS_TAKE'', ''NROS_TAKE_STAMP_SEC'', ''NROS_TAKE_STAMP_NSEC''} r = None"
  then show "take_step inputs st r = st" by (cases "pay r") (auto simp: mark_in_None_iff take_step_def)
next
  fix r m st
  assume "mark_in {''NROS_TAKE'', ''NROS_TAKE_STAMP_SEC'', ''NROS_TAKE_STAMP_NSEC''} r = Some m"
  then show "take_step inputs st r = take_step inputs st (mk_rec m)"
    by (auto simp: mark_in_Some_iff take_step_def mk_rec_def)
qed

interpretation kj: mark_join "{''NROS_TIMER_START'', ''NROS_TIMER_END''}" tick_step
proof unfold_locales
  fix r st
  assume "mark_in {''NROS_TIMER_START'', ''NROS_TIMER_END''} r = None"
  then show "tick_step st r = st" by (cases "pay r") (auto simp: mark_in_None_iff tick_step_def)
next
  fix r m st
  assume "mark_in {''NROS_TIMER_START'', ''NROS_TIMER_END''} r = Some m"
  then show "tick_step st r = tick_step st (mk_rec m)"
    by (auto simp: mark_in_Some_iff tick_step_def mk_rec_def)
qed

section \<open>Names of a generated table\<close>

text \<open>Every endpoint ref of the contract, and every stand-in, is decoded back from its hash: the
  generator refuses a table in which two refs share one.\<close>

theorem endpoint_name_generated:
  assumes "gen env file_sha model = Inr (hdr, tb)" and "ref \<in> set (endpoint_refs model)"
  shows "endpoint_name tb (fnv1a32 ref) = ref"
proof -
  from assms(1) obtain dispatch where
    n: "nros_violation_table (ge_pin env) model = Inr (nros_markers tb, rule_ids tb, endpoint_hashes tb, dispatch, take_inputs tb)"
    by (rule gen_Inr)
  then have h: "endpoint_hashes tb = endpoint_hash_items (endpoint_refs model)" "distinct (map fst (endpoint_hashes tb))"
    by (auto elim: nros_violation_table_Inr)
  from assms(2) h(1) have "(hex08 (fnv1a32 ref), ref) \<in> set (endpoint_hashes tb)"
    by (auto simp: endpoint_hash_items_def)
  from dict_of_mem [OF h(2) this] show ?thesis by (simp add: endpoint_name_def)
qed

theorem endpoint_name_generated_witness:
  "\<exists>hdr tb. gen demo_env (\<lambda>_. None) demo_model2 = Inr (hdr, tb) \<and> endpoint_name tb (fnv1a32 ''/h/a'') = ''/h/a''"
proof -
  from demo_gen obtain hdr tb where *: "gen demo_env (\<lambda>_. None) demo_model2 = Inr (hdr, tb)" by blast
  have "''/h/a'' \<in> set (endpoint_refs demo_model2)"
    by (simp add: endpoint_refs_def demo_model2_def)
  from endpoint_name_generated [OF * this] * show ?thesis by blast
qed

lemma gen_ids:
  assumes "gen env file_sha model = Inr (hdr, tb)"
  shows "distinct (map mid (tb_markers tb))" "\<And>m. m \<in> set (tb_markers tb) \<Longrightarrow> 1 \<le> mid m \<and> mid m < 256"
    "\<And>m. m \<in> set (nros_markers tb) \<Longrightarrow> 256 \<le> nm_id m"
proof -
  from assms obtain ms policy dispatch where ms: "build_table model = Inr ms"
    and n: "nros_violation_table (ge_pin env) model = Inr (nros_markers tb, rule_ids tb, endpoint_hashes tb, dispatch, take_inputs tb)"
    and tb: "tb_markers tb = map (\<lambda>m. m\<lparr>mrecord := map_option REC_NAME (dict_of policy (mid m))\<rparr>) ms"
    and len: "int (length ms) < NROS_BASE"
    by (rule gen_Inr)
  from n have ok: "list_all nros_ok (nros_markers tb)" by (rule nros_violation_table_Inr)
  have ids: "map mid (tb_markers tb) = [1..int (length ms)]"
    unfolding tb by (rule nth_equalityI) (auto simp: build_table_nth_mid [OF ms])
  show "distinct (map mid (tb_markers tb))" unfolding ids by simp
  show "1 \<le> mid m \<and> mid m < 256" if "m \<in> set (tb_markers tb)" for m
  proof -
    from that have "mid m \<in> set (map mid (tb_markers tb))" by simp
    then show ?thesis unfolding ids using len by (simp add: NROS_BASE_def)
  qed
  show "256 \<le> nm_id m" if "m \<in> set (nros_markers tb)" for m
    using ok that by (auto simp: list_all_iff nros_ok_def NROS_BASE_def)
qed

text \<open>The decoder's name table has every island marker under its own name, and, when the pinned
  nano-ros ids differ, every forwarded marker under its own; the two blocks never hide each other.\<close>

theorem names_of_generated:
  assumes "gen env file_sha model = Inr (hdr, tb)"
  shows "(\<forall>m \<in> set (tb_markers tb). names_of tb (mid m) = Some (mname m))
    \<and> (distinct (map nm_id (nros_markers tb)) \<longrightarrow> (\<forall>m \<in> set (nros_markers tb). names_of tb (nm_id m) = Some (nm_name m)))"
proof (intro conjI ballI impI)
  let ?is = "map (\<lambda>m. (mid m, mname m)) (tb_markers tb)" and ?ns = "map (\<lambda>m. (nm_id m, nm_name m)) (nros_markers tb)"
  note ids = gen_ids [OF assms]
  fix m assume m: "m \<in> set (tb_markers tb)"
  have "dict_of ?ns (mid m) = None"
    using ids(2) [OF m] ids(3) by (fastforce simp: dict_of_None_iff)
  moreover have "dict_of ?is (mid m) = Some (mname m)"
    using ids(1) m by (intro dict_of_mem) (auto simp: comp_def)
  ultimately show "names_of tb (mid m) = Some (mname m)"
    by (simp add: names_of_def dict_of_append)
next
  let ?ns = "map (\<lambda>m. (nm_id m, nm_name m)) (nros_markers tb)"
  fix m assume d: "distinct (map nm_id (nros_markers tb))" and m: "m \<in> set (nros_markers tb)"
  then have "dict_of ?ns (nm_id m) = Some (nm_name m)" by (intro dict_of_mem) (auto simp: comp_def)
  then show "names_of tb (nm_id m) = Some (nm_name m)" by (simp add: names_of_def dict_of_append)
qed

theorem names_of_generated_witness:
  "\<exists>hdr tb. gen demo_env (\<lambda>_. None) demo_model2 = Inr (hdr, tb) \<and> (\<forall>m \<in> set (tb_markers tb). names_of tb (mid m) = Some (mname m))"
proof -
  from demo_gen obtain hdr tb where *: "gen demo_env (\<lambda>_. None) demo_model2 = Inr (hdr, tb)" by blast
  from names_of_generated [OF *] * show ?thesis by blast
qed

section \<open>The violation join\<close>

record wviol =
  w_t :: "int \<times> int \<times> int \<times> int"
  w_seq :: int
  w_code :: int
  w_hash :: int
  w_measured :: int
  w_declared :: int

definition viol_marks :: "string \<times> string \<times> string \<times> string \<Rightarrow> wviol \<Rightarrow> mark list" where
  "viol_marks ord w =
     (case (ord, w_t w) of ((a, b, c, d), (t1, t2, t3, t4)) \<Rightarrow>
        [(t1, a, w_seq w * 2 ^ 8 + w_code w), (t2, b, w_hash w), (t3, c, w_measured w), (t4, d, w_declared w)])"

definition joined :: "marker_table \<Rightarrow> wviol \<Rightarrow> viol" where
  "joined tb w =
     \<lparr>v_t_ns = fst (w_t w), v_seq = w_seq w, v_rule_code = w_code w, v_rule = rule_name tb (w_code w),
      v_fqn = Some (w_hash w, endpoint_name tb (w_hash w)), v_measured = Some (w_measured w),
      v_declared = Some (w_declared w)\<rparr>"

lemma violation_quad:
  assumes "distinct [a, b, c, d]" "0 \<le> w_code w" "w_code w < 2 ^ 8"
  shows "foldl (violation_step tb (a, b, c, d)) (out, op) (map mk_rec (viol_marks (a, b, c, d) w))
       = (out @ [joined tb w], False)"
  using assms by (cases "w_t w") (auto simp: viol_marks_def mk_rec_def violation_step_def joined_def)

lemma violation_quads:
  assumes "distinct [a, b, c, d]"
  shows "\<forall>w \<in> set ws. 0 \<le> w_code w \<and> w_code w < 2 ^ 8 \<Longrightarrow>
    foldl (violation_step tb (a, b, c, d)) (out, False) (map mk_rec (concat (map (viol_marks (a, b, c, d)) ws)))
    = (out @ map (joined tb) ws, False)"
  by (induction ws arbitrary: out) (simp_all add: violation_quad [OF assms])

text \<open>C14. Whenever each stored violation is written as its four markers in order, with any other records
  in between, the join gives exactly the violations written, complete and in order, each with its
  rule and its endpoint named.\<close>

theorem join_violations_written:
  assumes "violation_order tb = [a, b, c, d]" and "distinct [a, b, c, d]"
    and "\<forall>w \<in> set ws. 0 \<le> w_code w \<and> w_code w < 2 ^ 8"
    and "marks {a, b, c, d} recs = concat (map (viol_marks (a, b, c, d)) ws)"
  shows "join_violations recs tb = map (joined tb) ws"
  using violation_quads [OF assms(2,3), of tb "[]"] vj.run_marks [of tb a b c d "([], False)" recs] assms(1,4)
  by (simp add: join_violations_def)


definition demo_table :: marker_table where
  "demo_table =
     \<lparr>contract_sha256 = ''c'', table_sha256 = ''t'', tb_entities = entity_counts demo_model, tb_knobs = [],
      tb_trigger = 1, tb_arm = 2,
      tb_markers = [(new_marker ''A'' Path_entry ''/h/c'' ''h'')\<lparr>mid := 1\<rparr>, (new_marker ''B'' Take ''/h/a'' ''h'')\<lparr>mid := 2\<rparr>],
      nros_markers = map (\<lambda>(i, n). \<lparr>nm_id = 256 + i, nros_id = i, nm_name = n, nm_kind = Nros_violation, nm_arg = []\<rparr>)
                       [(21, ''V''), (22, ''F''), (23, ''M''), (24, ''D'')],
      rule_ids = [''rate'', ''age''],
      endpoint_hashes = endpoint_hash_items [''/h/a''],
      take_inputs = [\<lparr>ti_index = 0, ti_endpoint = ''/h/a'', ti_keep = 2, ti_stamp_offset = 4\<rparr>]\<rparr>"

theorem join_violations_written_witness:
  "join_violations (map mk_rec [(5, ''V'', 770), (5, ''X'', 1), (6, ''F'', 9), (7, ''M'', 10), (8, ''D'', 11)]) demo_table
   = [joined demo_table \<lparr>w_t = (5, 6, 7, 8), w_seq = 3, w_code = 2, w_hash = 9, w_measured = 10, w_declared = 11\<rparr>]"
proof -
  have o: "violation_order demo_table = [''V'', ''F'', ''M'', ''D'']"
    by (simp add: violation_order_def demo_table_def)
  show ?thesis
    using join_violations_written [OF o, of "[\<lparr>w_t = (5, 6, 7, 8), w_seq = 3, w_code = 2, w_hash = 9, w_measured = 10, w_declared = 11\<rparr>]"
      "map mk_rec [(5, ''V'', 770), (5, ''X'', 1), (6, ''F'', 9), (7, ''M'', 10), (8, ''D'', 11)]"]
    by (simp add: viol_marks_def mark_in_def mk_rec_def)
qed

section \<open>The take join\<close>

type_synonym take_ev = "int \<times> int \<times> int \<times> int"   \<comment> \<open>slot, seq, stamp sec, stamp nanosec\<close>

definition take_evs :: "take_ev \<Rightarrow> nros_ev list" where
  "take_evs k = (case k of (slot, seq, sec, nsec) \<Rightarrow> [NTake slot seq, NSec sec, NNsec nsec])"

text \<open>Which takes the sink should forward: of each bound input, every \<open>keep\<close>-th.\<close>

fun kept :: "sink \<Rightarrow> (nat \<Rightarrow> nat) \<Rightarrow> take_ev list \<Rightarrow> (nat \<times> int \<times> int) list" where
  "kept s cnt [] = []"
| "kept s cnt ((slot, seq, sec, nsec) # ks) =
     (case find_input s slot of
        None \<Rightarrow> kept s cnt ks
      | Some i \<Rightarrow>
          (let c = cnt i + 1
           in (if int c mod sk_keep s ! i = 0 then [(i, seq mod 2 ^ 24, sec * 1000000000 + nsec)] else [])
              @ kept s (cnt(i := c)) ks))"

definition sink_ok :: "sink \<Rightarrow> bool" where
  "sink_ok s = (length (sk_keep s) = length (sk_slot s) \<and> length (sk_n s) = length (sk_slot s)
     \<and> length (sk_sec s) = length (sk_slot s) \<and> (\<forall>k \<in> set (sk_keep s). 1 \<le> k \<and> k < 256))"

definition take_view :: "tjoin \<Rightarrow> (int \<times> int \<times> int option) list" where
  "take_view st = map (\<lambda>k. (k_input k, k_seq k, k_stamp_ns k)) (tj_out st)"

text \<open>How the decoder's last seconds follow the sink's, and the sink's counters the takes.\<close>

definition take_sim :: "sink \<Rightarrow> sink \<Rightarrow> (nat \<Rightarrow> nat) \<Rightarrow> tjoin \<Rightarrow> bool" where
  "take_sim s0 s cnt st =
     (sink_ok s \<and> sk_slot s = sk_slot s0 \<and> sk_keep s = sk_keep s0
      \<and> (\<forall>i < length (sk_slot s0). sk_n s ! i = int (cnt i) mod sk_keep s0 ! i
           \<and> tj_sec st (int i) = (if sk_sec s ! i = 0 then None else Some (sk_sec s ! i))))"

lemma find_input_lt: "find_input s slot = Some i \<Longrightarrow> i < length (sk_slot s)"
  by (auto simp: find_input_def find_Some_iff)

lemma find_input_cong: "sk_slot s = sk_slot s' \<Longrightarrow> find_input s slot = find_input s' slot"
  by (simp add: find_input_def)

lemma count_mod:
  assumes "1 \<le> k" "k < (256 :: int)"
  shows "((int c mod k + 1) mod 2 ^ 8 \<ge> k) = (int (c + 1) mod k = 0)"
    and "\<not> (int c mod k + 1) mod 2 ^ 8 \<ge> k \<Longrightarrow> (int c mod k + 1) mod 2 ^ 8 = int (c + 1) mod k"
proof -
  have r: "0 \<le> int c mod k" "int c mod k < k" using assms by auto
  have m: "(int c mod k + 1) mod 2 ^ 8 = int c mod k + 1"
  proof (rule mod_pos_pos_trivial)
    have "int c mod k + 1 < 256" using r assms by linarith
    then show "int c mod k + 1 < 2 ^ 8" by simp
    show "0 \<le> int c mod k + 1" using r by linarith
  qed
  have s: "int (c + 1) mod k = (int c mod k + 1) mod k" by (metis mod_add_left_eq of_nat_add of_nat_1)
  show "((int c mod k + 1) mod 2 ^ 8 \<ge> k) = (int (c + 1) mod k = 0)"
  proof (cases "int c mod k + 1 = k")
    case True
    then show ?thesis unfolding m s by simp
  next
    case False
    with r have "(int c mod k + 1) mod k = int c mod k + 1" by simp
    with r False show ?thesis unfolding m s by simp
  qed
  assume "\<not> (int c mod k + 1) mod 2 ^ 8 \<ge> k"
  then have "int c mod k + 1 < k" unfolding m by simp
  with r show "(int c mod k + 1) mod 2 ^ 8 = int (c + 1) mod k" unfolding m s by simp
qed

lemma take_sim_update:
  assumes sim: "take_sim s0 s cnt st" and i: "i < length (sk_slot s0)"
    and s': "sk_slot s' = sk_slot s" "sk_keep s' = sk_keep s" "sk_sec s' = (sk_sec s)[i := sv]"
      "sk_n s' = (sk_n s)[i := int (cnt i + 1) mod sk_keep s0 ! i]"
    and st': "tj_sec st' = (tj_sec st)(int i := if sv = 0 then None else Some sv)"
  shows "take_sim s0 s' (cnt(i := cnt i + 1)) st'"
proof -
  from sim have ok: "sink_ok s" "sk_slot s = sk_slot s0" "sk_keep s = sk_keep s0"
    and inv: "\<And>j. j < length (sk_slot s0) \<Longrightarrow> sk_n s ! j = int (cnt j) mod sk_keep s0 ! j"
      "\<And>j. j < length (sk_slot s0) \<Longrightarrow> tj_sec st (int j) = (if sk_sec s ! j = 0 then None else Some (sk_sec s ! j))"
    by (simp_all add: take_sim_def)
  have len: "length (sk_n s) = length (sk_slot s0)" "length (sk_sec s) = length (sk_slot s0)"
    using ok by (simp_all add: sink_ok_def)
  have "sk_n s' ! j = int ((cnt(i := cnt i + 1)) j) mod sk_keep s0 ! j
      \<and> tj_sec st' (int j) = (if sk_sec s' ! j = 0 then None else Some (sk_sec s' ! j))"
    if "j < length (sk_slot s0)" for j
    using inv [OF that] that i len by (cases "j = i") (simp_all add: s' st')
  moreover have "sink_ok s'" using ok(1) by (simp add: sink_ok_def s')
  ultimately show ?thesis using ok s' by (simp add: take_sim_def)
qed

text \<open>One take through the sink and the decoder.\<close>

lemma take_sim_step:
  assumes sim: "take_sim s0 s cnt st" and sec: "sec \<noteq> 0"
    and run: "sink_run s (take_evs (slot, seq, sec, nsec) @ es) = out"
  shows "\<exists>s' o1 cnt'. out = o1 @ sink_run s' es \<and>
    (\<forall>ms. map snd ms = o1 \<longrightarrow>
       (\<exists>st'. foldl (take_step inputs) st (map mk_rec ms) = st' \<and> take_sim s0 s' cnt' st'
         \<and> take_view st' @ map (\<lambda>(i, q, t). (int i, q, Some t)) (kept s0 cnt' ks)
           = take_view st @ map (\<lambda>(i, q, t). (int i, q, Some t)) (kept s0 cnt ((slot, seq, sec, nsec) # ks))))"
proof (cases "find_input s0 slot")
  case None
  with sim have "find_input s slot = None" using find_input_cong [of s s0] by (simp add: take_sim_def)
  with run have o: "out = [] @ sink_run (s\<lparr>sk_cur := None\<rparr>) es" by (simp add: take_evs_def)
  have "take_sim s0 (s\<lparr>sk_cur := None\<rparr>) cnt st" using sim by (auto simp: take_sim_def sink_ok_def)
  with o None show ?thesis by (intro exI [of _ "s\<lparr>sk_cur := None\<rparr>"] exI [of _ "[]"] exI [of _ cnt]) simp
next
  case (Some i)
  with sim have fi: "find_input s slot = Some i" using find_input_cong [of s s0] by (simp add: take_sim_def)
  from find_input_lt [OF Some] have i: "i < length (sk_slot s0)" .
  with sim have n: "sk_n s ! i = int (cnt i) mod sk_keep s0 ! i" and k: "sk_keep s ! i = sk_keep s0 ! i"
    and len: "length (sk_n s) = length (sk_slot s0)" "length (sk_sec s) = length (sk_slot s0)"
    and ts: "tj_sec st (int i) = (if sk_sec s ! i = 0 then None else Some (sk_sec s ! i))"
    by (simp_all add: take_sim_def sink_ok_def)
  have "sk_keep s0 ! i \<in> set (sk_keep s)" using sim i by (metis nth_mem sink_ok_def take_sim_def)
  with sim have kr: "1 \<le> sk_keep s0 ! i" "sk_keep s0 ! i < 256" by (auto simp: take_sim_def sink_ok_def)
  note cm = count_mod [OF kr, of "cnt i"]
  show ?thesis
  proof (cases "int (cnt i + 1) mod sk_keep s0 ! i = 0")
    case False
    let ?n = "(sk_n s ! i + 1) mod 2 ^ 8"
    let ?s = "s\<lparr>sk_n := (sk_n s)[i := ?n], sk_cur := None\<rparr>" and ?c = "cnt(i := cnt i + 1)"
    have lt: "\<not> ?n \<ge> sk_keep s0 ! i" using cm(1) False unfolding n by blast
    have "?n = int (cnt i + 1) mod sk_keep s0 ! i" using cm(2) lt unfolding n by blast
    then have sim': "take_sim s0 ?s ?c st"
      using ts by (intro take_sim_update [OF sim i, of _ "sk_sec s ! i"]) auto
    have "out = [] @ sink_run ?s es" using run fi lt k by (simp add: take_evs_def Let_def)
    with sim' Some False show ?thesis
      by (intro exI [of _ ?s] exI [of _ "[]"] exI [of _ ?c]) (simp add: Let_def)
  next
    case True
    let ?s = "s\<lparr>sk_n := (sk_n s)[i := 0], sk_sec := (sk_sec s)[i := sec], sk_cur := None\<rparr>" and ?c = "cnt(i := cnt i + 1)"
    let ?o = "(''NROS_TAKE'', int i * 2 ^ 24 + seq mod 2 ^ 24)
      # (if sk_sec s ! i \<noteq> sec then [(''NROS_TAKE_STAMP_SEC'', sec)] else []) @ [(''NROS_TAKE_STAMP_NSEC'', nsec)]"
    have ge: "(sk_n s ! i + 1) mod 2 ^ 8 \<ge> sk_keep s0 ! i" using cm(1) True unfolding n by blast
    have same: "s\<lparr>sk_n := (sk_n s)[i := 0], sk_cur := None\<rparr> = ?s" if "sk_sec s ! i = sec"
      using that by (cases s) auto
    have o: "out = ?o @ sink_run ?s es"
      using run fi ge k same by (auto simp: take_evs_def Let_def)
    have arg: "(int i * 2 ^ 24 + seq mod 2 ^ 24) div 2 ^ 24 = int i"
      "(int i * 2 ^ 24 + seq mod 2 ^ 24) mod 2 ^ 24 = seq mod 2 ^ 24" by simp_all
    have em: "\<exists>st'. foldl (take_step inputs) st (map mk_rec ms) = st' \<and> take_sim s0 ?s ?c st'
         \<and> take_view st' = take_view st @ [(int i, seq mod 2 ^ 24, Some (sec * 1000000000 + nsec))]"
      if ms: "map snd ms = ?o" for ms
    proof -
      from ms obtain t1 t2 ms' where m: "ms = (t1, ''NROS_TAKE'', int i * 2 ^ 24 + seq mod 2 ^ 24) # ms' @ [(t2, ''NROS_TAKE_STAMP_NSEC'', nsec)]"
        and m': "map snd ms' = (if sk_sec s ! i \<noteq> sec then [(''NROS_TAKE_STAMP_SEC'', sec)] else [])"
        by (auto simp: map_eq_Cons_conv map_eq_append_conv)
      let ?st = "foldl (take_step inputs) st (map mk_rec ms)"
      have st: "tj_sec ?st = (tj_sec st)(int i \<mapsto> sec) \<and>
          take_view ?st = take_view st @ [(int i, seq mod 2 ^ 24, Some (sec * 1000000000 + nsec))]"
      proof (cases "sk_sec s ! i = sec")
        case True
        with m' ts sec have "ms' = []" "tj_sec st (int i) = Some sec" by auto
        with arg show ?thesis unfolding m by (auto simp: mk_rec_def take_step_def take_view_def Let_def)
      next
        case False
        with m' obtain t3 where "ms' = [(t3, ''NROS_TAKE_STAMP_SEC'', sec)]" by auto
        with arg show ?thesis unfolding m by (auto simp: mk_rec_def take_step_def take_view_def Let_def)
      qed
      moreover have "take_sim s0 ?s ?c ?st"
        using st True sec by (intro take_sim_update [OF sim i, of _ sec]) auto
      ultimately show ?thesis by blast
    qed
    have kc: "map (\<lambda>(i, q, t). (int i, q, Some t)) (kept s0 cnt ((slot, seq, sec, nsec) # ks))
        = (int i, seq mod 2 ^ 24, Some (sec * 1000000000 + nsec)) # map (\<lambda>(i, q, t). (int i, q, Some t)) (kept s0 ?c ks)"
      using Some True by (simp add: Let_def)
    show ?thesis
      unfolding kc
    proof (rule exI [of _ ?s], rule exI [of _ ?o], rule exI [of _ ?c], intro conjI allI impI)
      show "out = ?o @ sink_run ?s es" by (rule o)
    next
      fix ms :: "mark list"
      assume "map snd ms = ?o"
      from em [OF this] obtain st' where st': "foldl (take_step inputs) st (map mk_rec ms) = st'" "take_sim s0 ?s ?c st'"
        "take_view st' = take_view st @ [(int i, seq mod 2 ^ 24, Some (sec * 1000000000 + nsec))]" by blast
      show "\<exists>st'. foldl (take_step inputs) st (map mk_rec ms) = st' \<and> take_sim s0 ?s ?c st' \<and>
          take_view st' @ map (\<lambda>(i, q, t). (int i, q, Some t)) (kept s0 ?c ks) = take_view st @
          (int i, seq mod 2 ^ 24, Some (sec * 1000000000 + nsec)) # map (\<lambda>(i, q, t). (int i, q, Some t)) (kept s0 ?c ks)"
        by (rule exI [of _ st'], intro conjI, rule st'(1), rule st'(2)) (simp only: st'(3) append.assoc append.simps)
    qed
  qed
qed

lemma take_sim_run:
  "take_sim s0 s cnt st \<Longrightarrow> \<forall>(slot, seq, sec, nsec) \<in> set ks. sec \<noteq> 0 \<Longrightarrow>
   map snd ms = sink_run s (concat (map take_evs ks)) \<Longrightarrow>
   take_view (foldl (take_step inputs) st (map mk_rec ms)) = take_view st @ map (\<lambda>(i, q, t). (int i, q, Some t)) (kept s0 cnt ks)"
proof (induction ks arbitrary: s cnt st ms)
  case Nil
  then show ?case by simp
next
  case (Cons k ks)
  obtain slot seq sec nsec where k: "k = (slot, seq, sec, nsec)" by (cases k)
  from Cons.prems k have sec: "sec \<noteq> 0" by simp
  from take_sim_step [OF Cons.prems(1) sec refl, of slot seq nsec "concat (map take_evs ks)" inputs ks]
  obtain s' o1 cnt' where o: "map snd ms = o1 @ sink_run s' (concat (map take_evs ks))"
    and step: "\<And>ms1. map snd ms1 = o1 \<Longrightarrow> \<exists>st'. foldl (take_step inputs) st (map mk_rec ms1) = st' \<and> take_sim s0 s' cnt' st'
         \<and> take_view st' @ map (\<lambda>(i, q, t). (int i, q, Some t)) (kept s0 cnt' ks)
           = take_view st @ map (\<lambda>(i, q, t). (int i, q, Some t)) (kept s0 cnt (k # ks))"
    using Cons.prems(3) k by auto
  from o obtain ms1 ms2 where ms: "ms = ms1 @ ms2" "map snd ms1 = o1" "map snd ms2 = sink_run s' (concat (map take_evs ks))"
    by (auto simp: map_eq_append_conv)
  from step [OF ms(2)] obtain st' where st': "foldl (take_step inputs) st (map mk_rec ms1) = st'" "take_sim s0 s' cnt' st'"
    "take_view st' @ map (\<lambda>(i, q, t). (int i, q, Some t)) (kept s0 cnt' ks)
           = take_view st @ map (\<lambda>(i, q, t). (int i, q, Some t)) (kept s0 cnt (k # ks))" by blast
  have "take_view (foldl (take_step inputs) st' (map mk_rec ms2)) = take_view st' @ map (\<lambda>(i, q, t). (int i, q, Some t)) (kept s0 cnt' ks)"
    using Cons.prems(2) by (intro Cons.IH [OF st'(2) _ ms(3)]) simp
  with st' ms(1) show ?case by simp
qed

definition sink0 :: "int list \<Rightarrow> int list \<Rightarrow> sink" where
  "sink0 slots keeps = \<lparr>sk_slot = slots, sk_keep = keeps, sk_n = map (\<lambda>_. 0) slots, sk_sec = map (\<lambda>_. 0) slots, sk_cur = None\<rparr>"

abbreviation take_names :: "string set" where
  "take_names \<equiv> {''NROS_TAKE'', ''NROS_TAKE_STAMP_SEC'', ''NROS_TAKE_STAMP_NSEC''}"



section \<open>Ticks\<close>

lemma ms_of_add: "ms_of (a + b) = ms_of a + ms_of b"
  by (simp add: ms_of_def add_divide_distrib)

lemma pairs_telescope:
  "xs \<noteq> [] \<Longrightarrow> sum_list (map (\<lambda>(a, b). ms_of (b - a)) (pairs xs)) = ms_of (last xs - hd xs)"
proof (induction xs rule: induct_list012)
  case 1
  then show ?case by simp
next
  case (2 x)
  then show ?case by (simp add: ms_of_def)
next
  case (3 x y zs)
  have "ms_of (y - x) + ms_of (last (y # zs) - y) = ms_of (last (y # zs) - x)"
    by (simp flip: ms_of_add)
  with 3 show ?case by simp
qed

lemma foldr_min_le: "x \<in> set (y # ys) \<Longrightarrow> foldr min ys y \<le> (x :: rat)"
  by (induction ys) (auto simp: min_le_iff_disj)

lemma foldr_max_ge: "x \<in> set (y # ys) \<Longrightarrow> x \<le> foldr max ys (y :: rat)"
  by (induction ys) (auto simp: le_max_iff_disj)

lemma sum_list_bounds:
  "(\<And>x. x \<in> set xs \<Longrightarrow> lo \<le> x \<and> x \<le> (hi :: rat)) \<Longrightarrow>
   lo * of_nat (length xs) \<le> sum_list xs \<and> sum_list xs \<le> hi * of_nat (length xs)"
proof (induction xs)
  case Nil
  then show ?case by simp
next
  case (Cons x xs)
  then have "lo \<le> x \<and> x \<le> hi" "lo * of_nat (length xs) \<le> sum_list xs \<and> sum_list xs \<le> hi * of_nat (length xs)"
    by simp_all
  then show ?case by (simp add: algebra_simps)
qed

lemma mean_between:
  assumes "xs \<noteq> []"
  shows "list_min xs \<le> sum_list xs / of_nat (length xs) \<and> sum_list xs / of_nat (length xs) \<le> list_max xs"
proof -
  have "list_min xs \<le> x \<and> x \<le> list_max xs" if "x \<in> set xs" for x
    using that assms foldr_min_le [of x "hd xs" "tl xs"] foldr_max_ge [of x "hd xs" "tl xs"]
    by (simp add: list_min_def list_max_def)
  from sum_list_bounds [of xs, OF this] assms show ?thesis
    by (simp add: pos_le_divide_eq pos_divide_le_eq)
qed

lemma tick_pairs:
  "foldl tick_step out (map mk_rec ms) = out @ map (\<lambda>(s, e). (s, Some e)) ts"
  if "map (\<lambda>(t, n, a). (t, n)) ms = concat (map (\<lambda>(s, e). [(s, ''NROS_TIMER_START''), (e, ''NROS_TIMER_END'')]) ts)"
  using that
proof (induction ts arbitrary: ms out)
  case Nil
  then show ?case by simp
next
  case (Cons se ts)
  obtain s e where se: "se = (s, e)" by (cases se)
  with Cons.prems obtain a b ms' where ms: "ms = (s, ''NROS_TIMER_START'', a) # (e, ''NROS_TIMER_END'', b) # ms'"
    and ms': "map (\<lambda>(t, n, a). (t, n)) ms' = concat (map (\<lambda>(s, e). [(s, ''NROS_TIMER_START''), (e, ''NROS_TIMER_END'')]) ts)"
    by (auto simp: map_eq_Cons_conv)
  have "foldl tick_step out (map mk_rec ms) = foldl tick_step (out @ [(s, Some e)]) (map mk_rec ms')"
    unfolding ms by (simp add: mk_rec_def tick_step_def)
  with Cons.IH [OF ms'] se show ?case by simp
qed

lemma tick_stats_Some:
  assumes "2 \<le> length ticks"
  shows "\<exists>s. tick_stats ticks = Some s \<and> ts_n s = length ticks \<and> ts_gaps s = length ticks - 1
    \<and> ts_mean s * of_nat (ts_gaps s) = ms_of (fst (last ticks) - fst (hd ticks))
    \<and> ts_span_ms s = ms_of (fst (last ticks) - fst (hd ticks))
    \<and> ts_min s \<le> ts_mean s \<and> ts_mean s \<le> ts_max s \<and> length (ts_hist s) = ts_gaps s"
proof -
  let ?st = "map fst ticks"
  let ?d = "map (\<lambda>(a, b). ms_of (b - a)) (pairs ?st)"
  have ne: "ticks \<noteq> []" "?d \<noteq> []" "length ?d = length ticks - 1" "of_nat (length ?d) \<noteq> (0 :: rat)"
    using assms by (auto simp: pairs_def)
  have "sum_list ?d = ms_of (fst (last ticks) - fst (hd ticks))"
    using pairs_telescope [of ?st] ne(1) by (simp add: last_map hd_map)
  moreover note mean_between [OF ne(2)]
  moreover have "sum_list ?d / of_nat (length ?d) * of_nat (length ?d) = sum_list ?d" using ne(4) by simp
  ultimately show ?thesis
    using ne(1,2,3) unfolding tick_stats_def Let_def by (simp add: last_map hd_map)
qed

text \<open>The bound timer's ticks: every START is paired with the END that follows, the spacings add up to
  the span from the first start to the last, the mean lies between the minimum and the maximum, and
  the histogram counts every spacing once.\<close>

theorem timer_tick_report:
  assumes "map (\<lambda>(t, n, a). (t, n)) (marks {''NROS_TIMER_START'', ''NROS_TIMER_END''} recs)
      = concat (map (\<lambda>(s, e). [(s, ''NROS_TIMER_START''), (e, ''NROS_TIMER_END'')]) ts)"
    and "2 \<le> length ts"
  shows "timer_ticks recs = map (\<lambda>(s, e). (s, Some e)) ts
    \<and> (\<exists>s. tick_stats (timer_ticks recs) = Some s \<and> ts_n s = length ts \<and> ts_gaps s = length ts - 1
         \<and> ts_mean s * of_nat (ts_gaps s) = ms_of (fst (last ts) - fst (hd ts))
         \<and> ts_min s \<le> ts_mean s \<and> ts_mean s \<le> ts_max s \<and> length (ts_hist s) = ts_gaps s)"
proof -
  have t: "timer_ticks recs = map (\<lambda>(s, e). (s, Some e)) ts"
    using tick_pairs [OF assms(1), of "[]"] kj.run_marks [of "[]" recs] by (simp add: timer_ticks_def)
  have ne: "ts \<noteq> []" using assms(2) by auto
  have "fst (last (map (\<lambda>(s, e). (s, Some e)) ts)) = fst (last ts)" "fst (hd (map (\<lambda>(s, e). (s, Some e)) ts)) = fst (hd ts)"
    using ne by (simp_all add: last_map hd_map split: prod.split)
  with tick_stats_Some [of "map (\<lambda>(s, e). (s, Some e)) ts"] assms(2) t show ?thesis by auto
qed

theorem timer_tick_report_witness:
  "timer_ticks (map mk_rec [(0, ''NROS_TIMER_START'', 3), (1, ''NROS_TIMER_END'', 3), (40, ''NROS_TIMER_START'', 3), (42, ''NROS_TIMER_END'', 3)])
   = [(0, Some 1), (40, Some 42)]"
proof -
  let ?r = "map mk_rec [(0, ''NROS_TIMER_START'', 3), (1, ''NROS_TIMER_END'', 3), (40, ''NROS_TIMER_START'', 3), (42, ''NROS_TIMER_END'', 3)]"
  have "map (\<lambda>(t, n, a). (t, n)) (marks {''NROS_TIMER_START'', ''NROS_TIMER_END''} ?r)
      = concat (map (\<lambda>(s, e). [(s, ''NROS_TIMER_START''), (e, ''NROS_TIMER_END'')]) [(0, 1), (40, 42)])"
    by (simp add: mark_in_def mk_rec_def)
  from timer_tick_report [OF this] show ?thesis by simp
qed

section \<open>A whole dump\<close>

lemma load_long_enough:
  assumes "conf_ok cfg"
  shows "4 \<le> length (rstrip0 (stream cfg ((T, w) # tws) @ replicate n 0))"
proof (rule ccontr)
  let ?d = "stream cfg ((T, w) # tws) @ replicate n 0"
  assume "\<not> 4 \<le> length (rstrip0 ?d)"
  then have "length (rstrip0 ?d) \<le> 4" by simp
  from bslice_padding [OF this] have z: "le_int (bslice (rstrip0 ?d @ replicate k 0) 4 j) = 0" for k j .
  from rstrip0_split [of ?d] obtain k where "?d = rstrip0 ?d @ replicate k 0" by blast
  with z [of k] have "le_int (bslice ?d 4 (4 + id_size (dc_tsdl cfg))) = 0" by simp
  moreover have "bslice ?d 4 (4 + id_size (dc_tsdl cfg)) = le_bytes (id_size (dc_tsdl cfg)) (dc_base cfg + wrec_ev w)"
    by (simp add: stream_Cons put_rec_def bslice_def)
  ultimately show False using id_bytes [OF assms, of w] by simp
qed

text \<open>A whole dump: the island's records, left in a zeroed buffer, read off the target and wrapped,
  load as the records written, each at its true time, with no decode error, the used length of the
  stream and the heartbeat counter that was read beside the buffer.\<close>

theorem load_wrapped_trace:
  assumes wr: "wrap (stream cfg ((T, w) # tws) @ replicate n 0) major minor emitted lastu ms = Inr img"
    and minor: "0 \<le> minor" "minor < 256"
    and cfg: "cfg = conf_of (tsdls (dec_int major @ ''.'' @ dec_int minor)) tb" "id_size (dc_tsdl cfg) \<in> {1, 2}"
      "\<forall>k \<in> {0, 1, 2, 3}. events (dc_tsdl cfg) (dc_base cfg + k) = None"
    and ok: "\<forall>(T, w) \<in> set ((T, w) # tws). wrec_ok w \<and> \<not> opens w" and T: "0 \<le> T" "T < 2 ^ 32" and times: "times_ok T tws"
    and tail: "length (stream cfg ((T, w) # tws)) \<le> length (rstrip0 (stream cfg ((T, w) # tws) @ replicate n 0)) + 64"
  shows "\<exists>tr h. load tsdls tb img None = Inr tr \<and> tr_records tr = expect cfg 0 0 ((T, w) # tws) \<and> tr_error tr = None
    \<and> tr_used tr = length (stream cfg ((T, w) # tws)) \<and> tr_header tr = Some h \<and> heartbeats_emitted h = emitted"
proof -
  let ?s = "stream cfg ((T, w) # tws)" and ?v = "dec_int major @ ''.'' @ dec_int minor"
  let ?d = "?s @ replicate n 0"
  have c: "conf_ok cfg" using cfg by (auto simp: conf_ok_def conf_of_def)
  from wrap_loads [OF wr load_long_enough [OF c] minor] obtain h where
    h: "load_head img None = Inr (Some h, ?v, rstrip0 ?d)" "heartbeats_emitted h = emitted" by blast
  have pad: "padded ?d = [] @ ?s @ replicate (n + 64) 0"
    by (simp add: padded_def replicate_add)
  from decode_loop_segment [OF c ok times, of dstate0 "[]" "n + 64"] T obtain st where
    st: "decode_loop cfg (padded ?d) dstate0 = Inr st" "ds_recs st = expect cfg 0 0 ((T, w) # tws)"
      "ds_error st = None" "ds_seg st = None" "ds_pos st = length ?s"
    unfolding pad by (auto simp: dstate0_def)
  have "decode_loop cfg (padded (rstrip0 ?d)) dstate0 = Inr st"
    using cfg(2) tail st(1,5) by (intro decode_loop_stripped) auto
  with h st cfg show ?thesis
    by (auto simp: load_def Let_def anchor_def conf_of_def)
qed

theorem load_wrapped_trace_witness:
  "\<exists>img tr. wrap (stream (conf_of demo_tsdl demo_table) [(7, WMarker 1 9)] @ replicate 3 0) 4 4 2 100 100 = Inr img
     \<and> load (\<lambda>_. demo_tsdl) demo_table img None = Inr tr \<and> map (kind_of \<circ> pay) (tr_records tr) = [''marker'']"
proof -
  let ?c = "conf_of demo_tsdl demo_table"
  let ?d = "stream ?c [(7, WMarker 1 9)] @ replicate 3 0"
  have "case wrap ?d 4 4 2 100 100 of Inr _ \<Rightarrow> True | Inl _ \<Rightarrow> False" by code_simp
  then obtain img where img: "wrap ?d 4 4 2 100 100 = Inr img" by (auto split: sum.splits)
  have tail: "length (stream ?c [(7, WMarker 1 9)]) \<le> length (rstrip0 ?d) + 64" by code_simp
  have col: "\<forall>k \<in> {0, 1, 2, 3}. events (dc_tsdl ?c) (dc_base ?c + k) = None"
    by (simp add: conf_of_def demo_tsdl_def ev_base_def)
  have sz: "id_size (dc_tsdl ?c) \<in> {1, 2}" by (simp add: conf_of_def demo_tsdl_def)
  from load_wrapped_trace [OF img _ _ refl [of ?c, THEN trans] sz col _ _ _ _ tail, of "\<lambda>_. demo_tsdl" demo_table]
  obtain tr where "load (\<lambda>_. demo_tsdl) demo_table img None = Inr tr" "tr_records tr = expect ?c 0 0 [(7, WMarker 1 9)]"
    by (auto simp: u16_ok_def u32_ok_def)
  with img show ?thesis by auto
qed

end
