(* ===== verification/Supervisor_Record.thy ===== *)
theory Supervisor_Record
  imports Island_Prelude
begin

text \<open>
  The supervisor record of the board, \<^verbatim>\<open>tools/board/violations.py\<close>: the decoder of
  \<open>island_supervisor_record\<close>, the size of its layout, the priority findings, the report, and the
  checks \<open>main\<close> makes before it writes a debug word.

  A dictionary is an association list of its keys. An f-string is a list of pieces: literal
  text, a key rendered as a number, a key in microseconds rendered in ms with three digits.
\<close>

section \<open>The layout\<close>

definition SUP_HEADER :: "string list" where
  "SUP_HEADER = [''magic'', ''latched'', ''latch_cause'', ''latch_uptime_us'', ''wakes'', ''timer_expiries'',
     ''swt_started'', ''swt_timeout_ms'', ''swt_fires'', ''swt_fire_uptime_us'', ''swt_errors'',
     ''spins'', ''spin_gap_max_us'', ''spin_gap_max_at_ms'', ''gpio_errors'', ''routes'', ''hook_calls'',
     ''hook_last_rule'']"

definition SUP_ROUTE :: "string list" where
  "SUP_ROUTE = [''armed'', ''due_ms'', ''arms'', ''dones'', ''fired'', ''fire_due_ms'', ''fire_verdict_us'']"

definition SUP_DIRECT :: "string list" where
  "SUP_DIRECT = [''registered'', ''calls'', ''first_uptime_us'', ''handover'', ''handover_uptime_ms'']"

definition SUP_DIRECT_SLOTS :: nat where "SUP_DIRECT_SLOTS = 2"

definition SUP_TAIL :: "string list" where
  "SUP_TAIL = [''standstill_met'', ''speed_mm_s'', ''speed_at_ms'']"

definition SUP_PRIO :: "string list" where
  "SUP_PRIO = [''prio_taken'', ''prio_plan_transport_lo'', ''prio_plan_transport_hi'', ''prio_plan_app_lo'',
     ''prio_plan_app_hi'', ''prio_plan_sched_task'', ''prio_plan_reaction'', ''prio_spin'', ''prio_reaction'',
     ''prio_threads'']"

definition SUP_PRIO_THREADS :: nat where "SUP_PRIO_THREADS = 12"

definition SUP_LATE :: "string list" where
  "SUP_LATE = [''watch_ok'', ''answered_at_expiry'', ''answered_first_due_ms'', ''answered_first_us'',
     ''later_take_at_expiry'']"

definition SUP_LEVELS :: "string list" where
  "SUP_LEVELS = [''levels'', ''level_count'', ''level_overflow'', ''checkin_mask'', ''feeds'', ''route_owner'',
     ''route_nros_level'', ''nros_level_count'']"

definition SUP_LEVEL :: "string list" where
  "SUP_LEVEL = [''spins'', ''gap_max_us'', ''gap_max_at_ms'', ''prio'', ''route_foreign'']"

definition SUP_LEVEL_BYTES :: nat where "SUP_LEVEL_BYTES = length SUP_LEVEL * 4 + 16 + 4"

definition SUP_FLOOR :: "string list" where
  "SUP_FLOOR = [''floor_stage'', ''floor_met'', ''floor_latches'', ''vehicle_fault'', ''vehicle_fault_uptime_ms'',
     ''vehicle_fault_speed_mm_s'', ''stale_at_due'']"

definition SUP_FLOOR_UNSEEN :: "string list" where "SUP_FLOOR_UNSEEN = [''floor_unseen'']"

definition SUP_RESUME :: "string list" where
  "SUP_RESUME = [''resume_periods'', ''resumed_0'', ''resumed_1'', ''resume_uptime_ms_0'', ''resume_uptime_ms_1'',
     ''resume_silent_ms_0'', ''resume_silent_ms_1'', ''alive_after_resume_0'', ''alive_after_resume_1'',
     ''floor_waits'', ''brake_since_ms'']"

definition SUP_RESPONSE :: "string list" where
  "SUP_RESPONSE = [''response_within_ms'', ''response_drop_mm_s'', ''response_ref_mm_s'', ''response_met'',
     ''response_latches'', ''response_waits'', ''response_unref'', ''response_last_shed_mm_s'',
     ''vehicle_fault_route'']"

definition SUP_MAGIC :: int where "SUP_MAGIC = 0x56505553"

lemmas sup_layout = SUP_HEADER_def SUP_ROUTE_def SUP_DIRECT_def SUP_DIRECT_SLOTS_def SUP_TAIL_def SUP_PRIO_def
  SUP_PRIO_THREADS_def SUP_LATE_def SUP_LEVELS_def SUP_LEVEL_def SUP_LEVEL_BYTES_def SUP_FLOOR_def
  SUP_FLOOR_UNSEEN_def SUP_RESUME_def SUP_RESPONSE_def

section \<open>Decoding\<close>

type_synonym kv = "(string \<times> int) list"

record level =
  lv_kv :: kv
  lv_name :: string
  lv_nros_level :: int

record sup =
  sd_kv :: kv
  sd_route :: "kv list"
  sd_direct :: "kv list"
  sd_threads :: "(string \<times> int) list option"
  sd_level :: "level list option"

definition get0 :: "kv \<Rightarrow> string \<Rightarrow> int" where   \<comment> \<open>\<open>d.get(k, 0)\<close>\<close>
  "get0 d k = (case dict_of d k of Some v \<Rightarrow> v | None \<Rightarrow> 0)"

text \<open>\<open>dict(zip(names, w[o:o + len(names)]))\<close>.\<close>

definition words_kv :: "string list \<Rightarrow> int list \<Rightarrow> nat \<Rightarrow> kv" where
  "words_kv names w o1 = zip names (take (length names) (drop o1 w))"

definition word_group :: "string list \<Rightarrow> int list \<Rightarrow> nat \<Rightarrow> kv" where
  "word_group names w o1 = (if o1 + length names \<le> length w then words_kv names w o1 else [])"

definition read_groups :: "string list \<Rightarrow> int list \<Rightarrow> nat \<Rightarrow> nat \<Rightarrow> kv list" where
  "read_groups names w o1 k =
     map (\<lambda>i. words_kv names w (o1 + i * length names))
       (filter (\<lambda>i. o1 + i * length names + length names \<le> length w) [0..<k])"

definition thread_entry :: "bytes \<Rightarrow> string \<times> int" where
  "thread_entry e = (cstr (bslice e 0 16), le_sint (bslice e 16 20))"

text \<open>A loop over entries of \<open>sz\<close> bytes that breaks at the first short one.\<close>

definition entries :: "bytes \<Rightarrow> nat \<Rightarrow> nat \<Rightarrow> nat \<Rightarrow> bytes list" where
  "entries blob b sz k =
     takeWhile (\<lambda>e. length e = sz) (map (\<lambda>i. bslice blob (b + i * sz) (b + (i + 1) * sz)) [0..<k])"

definition level_entry :: "bytes \<Rightarrow> level" where
  "level_entry e =
     \<lparr>lv_kv = zip SUP_LEVEL [le_int (bslice e 0 4), le_int (bslice e 4 8), le_int (bslice e 8 12),
                            le_sint (bslice e 12 16), le_int (bslice e 16 20)],
      lv_name = cstr (bslice e 20 36),
      lv_nros_level = le_int (bslice e 36 40)\<rparr>"

text \<open>The tail of the record, from the level slots' end: route 3 and its words, then the later
  additions, each present only when the record reaches that far.\<close>

definition decode_floor :: "int list \<Rightarrow> nat \<Rightarrow> sup \<Rightarrow> sup" where
  "decode_floor w o4 d =
     (if o4 + length SUP_ROUTE + length SUP_FLOOR \<le> length w then
        (let o5 = o4 + length SUP_ROUTE; o6 = o5 + length SUP_FLOOR; o7 = o6 + length SUP_FLOOR_UNSEEN;
             o8 = o7 + length SUP_RESUME; o9 = o8 + length SUP_ROUTE;
             d5 = d\<lparr>sd_route := sd_route d @ [words_kv SUP_ROUTE w o4],
                    sd_kv := sd_kv d @ words_kv SUP_FLOOR w o5 @ word_group SUP_FLOOR_UNSEEN w o6 @ word_group SUP_RESUME w o7\<rparr>
         in if o8 + length SUP_ROUTE + length SUP_RESPONSE \<le> length w
            then d5\<lparr>sd_route := sd_route d5 @ [words_kv SUP_ROUTE w o8],
                    sd_kv := sd_kv d5 @ words_kv SUP_RESPONSE w o9\<rparr>
            else d5)
      else d)"

definition decode_levels :: "bytes \<Rightarrow> int list \<Rightarrow> nat \<Rightarrow> sup \<Rightarrow> sup" where
  "decode_levels blob w o3 d =
     (if o3 + length SUP_LEVELS \<le> length w then
        (let lk = words_kv SUP_LEVELS w o3;
             b = (o3 + length SUP_LEVELS) * 4;
             k = nat (min (get0 lk ''level_count'') (get0 lk ''levels''));
             d1 = d\<lparr>sd_kv := sd_kv d @ lk, sd_level := Some (map level_entry (entries blob b SUP_LEVEL_BYTES k))\<rparr>;
             o4 = o3 + length SUP_LEVELS + nat (get0 lk ''levels'') * SUP_LEVEL_BYTES div 4
         in decode_floor w o4 d1)
      else d)"

definition decode_prio :: "bytes \<Rightarrow> int list \<Rightarrow> nat \<Rightarrow> sup \<Rightarrow> sup" where
  "decode_prio blob w o1 d =
     (if o1 + length SUP_PRIO \<le> length w then
        (let signed = map (\<lambda>i. le_sint (bslice blob ((o1 + i) * 4) ((o1 + i) * 4 + 4))) [0..<length SUP_PRIO];
             pk = zip SUP_PRIO signed;
             b = (o1 + length SUP_PRIO) * 4;
             k = nat (min (max (get0 pk ''prio_threads'') 0) (int SUP_PRIO_THREADS));
             o2 = o1 + length SUP_PRIO + SUP_PRIO_THREADS * 5;
             d1 = d\<lparr>sd_kv := sd_kv d @ pk @ word_group SUP_LATE w o2, sd_threads := Some (map thread_entry (entries blob b 20 k))\<rparr>
         in decode_levels blob w (o2 + length SUP_LATE) d1)
      else d)"

definition supervisor_decode :: "bytes \<Rightarrow> sup" where
  "supervisor_decode blob =
     (let n = length blob div 4; w = words_at n blob 0;
          hdr = words_kv SUP_HEADER w 0;
          routes = nat (get0 hdr ''routes'');
          o1 = length SUP_HEADER + routes * length SUP_ROUTE;
          o2 = o1 + SUP_DIRECT_SLOTS * length SUP_DIRECT;
          d = \<lparr>sd_kv = hdr @ word_group SUP_TAIL w o2,
               sd_route = read_groups SUP_ROUTE w (length SUP_HEADER) routes,
               sd_direct = read_groups SUP_DIRECT w o1 SUP_DIRECT_SLOTS,
               sd_threads = None, sd_level = None\<rparr>
      in decode_prio blob w (o2 + length SUP_TAIL) d)"

definition supervisor_layout_bytes :: "nat \<Rightarrow> nat \<Rightarrow> nat" where
  "supervisor_layout_bytes routes levels =
     (length SUP_HEADER + routes * length SUP_ROUTE + SUP_DIRECT_SLOTS * length SUP_DIRECT + length SUP_TAIL
      + length SUP_PRIO + SUP_PRIO_THREADS * 5 + length SUP_LATE + length SUP_LEVELS
      + levels * SUP_LEVEL_BYTES div 4 + length SUP_ROUTE + length SUP_FLOOR + length SUP_FLOOR_UNSEEN
      + length SUP_RESUME + length SUP_ROUTE + length SUP_RESPONSE) * 4"

section \<open>Priorities\<close>

datatype pfinding =
    PF_spin int int | PF_reaction int int | PF_absent string | PF_outside string int int int | PF_not_above int int int

definition TRANSPORT_THREADS :: "string list" where
  "TRANSPORT_THREADS = [''zpico_exec'', ''zpico_flush'']"

definition TRANSPORT_THREADS_PRE_1_9 :: "string list" where
  "TRANSPORT_THREADS_PRE_1_9 = [''zpico_read'', ''zpico_lease'', ''zpico_flush'']"

definition thread_finding :: "int \<Rightarrow> int \<Rightarrow> (string \<Rightarrow> int option) \<Rightarrow> string \<Rightarrow> pfinding list" where
  "thread_finding lo hi seen name =
     (case seen name of
        None \<Rightarrow> [PF_absent name]
      | Some p \<Rightarrow> if lo \<le> p \<and> p \<le> hi then [] else [PF_outside name p lo hi])"

definition priority_findings :: "sup \<Rightarrow> pfinding list option res" where
  "priority_findings d =
     (if get0 (sd_kv d) ''prio_taken'' = 0 then Inr None
      else
        rbind (key_of (sd_kv d) ''prio_spin'') (\<lambda>spin. rbind (key_of (sd_kv d) ''prio_plan_sched_task'') (\<lambda>sched.
        rbind (key_of (sd_kv d) ''prio_reaction'') (\<lambda>react. rbind (key_of (sd_kv d) ''prio_plan_reaction'') (\<lambda>plan.
        rbind (key_of (sd_kv d) ''prio_plan_transport_lo'') (\<lambda>lo. rbind (key_of (sd_kv d) ''prio_plan_transport_hi'') (\<lambda>hi.
          let seen = dict_of (case sd_threads d of None \<Rightarrow> [] | Some ts \<Rightarrow> ts);
              names = (if seen ''zpico_exec'' \<noteq> None then TRANSPORT_THREADS else TRANSPORT_THREADS_PRE_1_9)
          in Inr (Some ((if spin \<noteq> sched then [PF_spin spin sched] else [])
                 @ (if react \<noteq> plan then [PF_reaction react plan] else [])
                 @ concat (map (thread_finding lo hi seen) names)
                 @ (if react < min lo spin then [] else [PF_not_above react lo spin]))))))))))"

fun pf_text :: "pfinding \<Rightarrow> string" where
  "pf_text (PF_spin a b) = ''spin thread at '' @ dec_int a @ '', the plan's sched task at '' @ dec_int b"
| "pf_text (PF_reaction a b) = ''reaction thread at '' @ dec_int a @ '', planned '' @ dec_int b"
| "pf_text (PF_absent n) = ''no thread named '' @ n @ '' in the record''"
| "pf_text (PF_outside n p lo hi) =
     n @ '' at '' @ dec_int p @ '', outside the transport band ['' @ dec_int lo @ '', '' @ dec_int hi @ '']''"
| "pf_text (PF_not_above r lo s) =
     ''reaction thread at '' @ dec_int r @ '' is not above the transport ('' @ dec_int lo @ '') and the spin thread ('' @ dec_int s @ '')''"

section \<open>The report\<close>

datatype piece = T string | D string | M string

definition ms3_signed :: "int \<Rightarrow> string" where   \<comment> \<open>\<open>f"{x / 1000:+.3f}"\<close>\<close>
  "ms3_signed x = (if x < 0 then ''-'' @ ms3 (- x) else ''+'' @ ms3 x)"

fun piece_text :: "kv \<Rightarrow> piece \<Rightarrow> string res" where
  "piece_text d (T s) = Inr s"
| "piece_text d (D k) = rbind (key_of d k) (\<lambda>v. Inr (dec_int v))"
| "piece_text d (M k) = rbind (key_of d k) (\<lambda>v. Inr (ms3 v))"

definition fstr :: "kv \<Rightarrow> piece list \<Rightarrow> string res" where
  "fstr d ps = rbind (rmap (piece_text d) ps) (\<lambda>ss. Inr (concat ss))"

text \<open>\<open>x if d[k] else y\<close> in a line.\<close>

definition if_key :: "kv \<Rightarrow> string \<Rightarrow> piece list \<Rightarrow> piece list \<Rightarrow> string res" where
  "if_key d k ps qs = rbind (key_of d k) (\<lambda>v. fstr d (if v \<noteq> 0 then ps else qs))"

definition cat :: "string res list \<Rightarrow> string res" where
  "cat rs = rbind (rmap (\<lambda>r. r) rs) (\<lambda>ss. Inr (concat ss))"

definition SUP_CAUSE :: "(int \<times> string) list" where
  "SUP_CAUSE = [(0, ''-''), (1, ''route deadline''), (2, ''SWT0 first timeout''), (3, ''the executor's reaction hook'')]"

definition SUP_ROUTE_NAME :: "(int \<times> string) list" where
  "SUP_ROUTE_NAME = [(0, ''hpc_loss reaction (mrm_handler/call_mrm)''),
     (1, ''the executor's next supervised route (nano-ros phase-503)''),
     (2, ''the comfortable stop's standstill (call + settle + response)''),
     (3, ''the emergency stop's standstill, the floor (call + settle + response)''),
     (4, ''the floor's response check (call + within: shed the drop or stop)'')]"

definition SUP_DIRECT_NAME :: "(int \<times> string) list" where
  "SUP_DIRECT_NAME = [(0, ''mrm_handler (mrm_state, hazard lights)''), (1, ''emergency operator (braking command)'')]"

definition SUP_FLOOR_STAGE :: "(int \<times> string) list" where
  "SUP_FLOOR_STAGE = [(0, ''idle''), (1, ''the operator's settle''), (2, ''the direct path's settle'')]"

definition has :: "kv \<Rightarrow> string \<Rightarrow> bool" where   \<comment> \<open>\<open>k in d\<close>\<close>
  "has d k = (dict_of d k \<noteq> None)"

definition head_report :: "kv \<Rightarrow> string res list" where
  "head_report d =
     [rbind (key_of d ''latched'') (\<lambda>l. if l \<noteq> 0
        then rbind (key_of d ''latch_cause'') (\<lambda>c.
               fstr d [T (''  safe-state output LATCHED by '' @ name_of SUP_CAUSE c (dec_int c) @ '' at uptime ''),
                       M ''latch_uptime_us'', T '' ms''])
        else Inr ''  safe-state output not driven''),
      cat [fstr d [T ''  reaction thread wakes='', D ''wakes'', T '' timer expiries='', D ''timer_expiries'',
                   T '' gpio_errors='', D ''gpio_errors'', T (''; reaction hook calls='' @ dec_int (get0 d ''hook_calls''))],
           (if get0 d ''hook_calls'' \<noteq> 0 then fstr d [T '' (last rule '', D ''hook_last_rule'', T '')''] else Inr [])],
      rbind (key_of d ''swt_started'') (\<lambda>s. if s \<noteq> 0
        then cat [fstr d [T ''  SWT0 running, timeout '', D ''swt_timeout_ms'', T '' ms; first-timeout callbacks '', D ''swt_fires''],
                  if_key d ''swt_fires'' [T '' (first at uptime '', M ''swt_fire_uptime_us'', T '' ms)''] [],
                  fstr d [T ''; errors '', D ''swt_errors'']]
        else fstr d [T ''  SWT0 not running (errors '', D ''swt_errors'', T '')'']),
      fstr d [T ''  spins='', D ''spins'', T ''; longest feed-to-feed gap '', M ''spin_gap_max_us'',
              T '' ms (ended at uptime '', D ''spin_gap_max_at_ms'', T '' ms)'']]"

definition route_report :: "nat \<Rightarrow> kv \<Rightarrow> string res" where
  "route_report i r =
     cat [fstr r [T (''  route '' @ dec_nat i @ '' '' @ name_of SUP_ROUTE_NAME (int i) (''route '' @ dec_nat i) @ '': arms=''), D ''arms'',
                  T '' dones='', D ''dones'', T '' deadline verdicts='', D ''fired'', T ''; ''],
          if_key r ''armed'' [T ''armed, due at '', D ''due_ms'', T '' ms''] [T ''not armed''],
          rbind (key_of r ''fired'') (\<lambda>f. if f = 0 then Inr [] else
            rbind (key_of r ''fire_verdict_us'') (\<lambda>v. rbind (key_of r ''fire_due_ms'') (\<lambda>u.
              fstr r [T ''; first verdict at '', M ''fire_verdict_us'', T '' ms for the due at '', D ''fire_due_ms'',
                      T ('' ms ('' @ ms3_signed (v - u * 1000) @ '' ms)'')])))]"

definition late_report :: "kv \<Rightarrow> string res list" where
  "late_report d =
     (if \<not> has d ''watch_ok'' then [] else
      [cat [if_key d ''watch_ok'' [T ''  route 1 at its expiry: read from the executor's route cells'']
              [T ''  route 1 at its expiry: NO route watch (the armed due stands)''],
            fstr d [T ''; expiries answered by then='', D ''answered_at_expiry''],
            if_key d ''answered_at_expiry''
              [T '' (first read at '', M ''answered_first_us'', T '' ms for the due at '', D ''answered_first_due_ms'', T '' ms)''] [],
            fstr d [T ''; re-armed to a later take='', D ''later_take_at_expiry'']]])"

definition direct_report :: "kv \<Rightarrow> nat \<Rightarrow> kv \<Rightarrow> string list res" where
  "direct_report d i dd =
     rbind (key_of dd ''registered'') (\<lambda>reg. if reg = 0 then Inr [] else
       (let n = dec_nat i in
        rbind (cat [fstr dd [T (''  direct emergency slot '' @ n @ '' '' @ name_of SUP_DIRECT_NAME (int i) [] @ '': calls=''), D ''calls''],
             if_key dd ''calls'' [T '', first at uptime '', M ''first_uptime_us'', T '' ms''] [],
             if_key dd ''handover'' [T ''; handed over to the executor at uptime '', D ''handover_uptime_ms'', T '' ms'']
               [T ''; not handed over''],
             (if get0 d (''resumed_'' @ n) = 0 then Inr [] else
              fstr d [T ''; RESUMED by the direct path at uptime '', D (''resume_uptime_ms_'' @ n), T '' ms, the executor path silent '',
                      D (''resume_silent_ms_'' @ n), T '' ms (limit '', D ''resume_periods'', T '' periods); its reports after that '',
                      D (''alive_after_resume_'' @ n)])]) (\<lambda>s. Inr [s])))"

definition level_report :: "nat \<Rightarrow> level \<Rightarrow> string res" where
  "level_report i lv =
     fstr (lv_kv lv) [T (''  level '' @ dec_nat i @ '' '' @ (if lv_name lv = [] then ''?'' else lv_name lv) @ '' prio ''), D ''prio'',
        T ('' (nano-ros level '' @ (if lv_nros_level lv \<noteq> 0xFF then dec_int (lv_nros_level lv) else ''?'') @ ''): spins=''), D ''spins'',
        T ''; longest spin-to-spin gap '', M ''gap_max_us'', T '' ms (ended at uptime '', D ''gap_max_at_ms'',
        T '' ms); foreign route-1 dues '', D ''route_foreign'']"

definition levels_report :: "sup \<Rightarrow> string res list" where
  "levels_report s =
     (let d = sd_kv s in
      if \<not> has d ''level_count'' then [] else
      rbind (key_of d ''route_owner'') (\<lambda>owner.
        fstr d [T ''  levels='', D ''level_count'', T '' of '', D ''levels'', T '' (overflow spins '', D ''level_overflow'', T ''); nano-ros levels '',
                D ''nros_level_count'', T '', mrm_handler's level '', D ''route_nros_level'', T ''; SWT0 fed '', D ''feeds'',
                T '' times, each once every level had checked in; route 1 owned by '',
                T (if owner \<noteq> 0 then ''level '' @ dec_int (owner - 1) else ''no level yet'')])
      # map (\<lambda>(i, lv). level_report i lv) (enumerate 0 (case sd_level s of None \<Rightarrow> [] | Some ls \<Rightarrow> ls)))"

definition standstill_report :: "kv \<Rightarrow> string res list" where
  "standstill_report d =
     (if \<not> has d ''standstill_met'' then [] else
      [fstr d [T ''  route 2 dues met at standstill='', D ''standstill_met'', T ''; last speed '', D ''speed_mm_s'', T '' mm/s at uptime '',
               D ''speed_at_ms'', T '' ms'']])"

definition floor_line :: "kv \<Rightarrow> string res" where
  "floor_line d =
     rbind (key_of d ''floor_stage'') (\<lambda>st.
       cat [fstr d [T ''  route 3 (the floor): dues met at standstill='', D ''floor_met'', T ''; misses that latched the direct path='',
                    D ''floor_latches'', T (''; armed for '' @ name_of SUP_FLOOR_STAGE st (dec_int st)),
                    T ''; dues judged with no fresh kinematic_state (routes 2, 3)='', D ''stale_at_due''],
            (if has d ''floor_unseen'' then fstr d [T ''; dues re-armed before any kinematic_state since boot='', D ''floor_unseen''] else Inr []),
            (if has d ''floor_waits'' then fstr d [T ''; dues deferred to the braking command's own settle='', D ''floor_waits'',
               T '' (the island's braking command since uptime '', D ''brake_since_ms'', T '' ms)''] else Inr [])])"

definition response_report :: "kv \<Rightarrow> string res list" where
  "response_report d =
     (if \<not> has d ''response_within_ms'' then [] else
      [fstr d [T ''  route 4 (the response check, '', D ''response_within_ms'', T '' ms, '', D ''response_drop_mm_s'', T '' mm/s): dues responded by='',
               D ''response_met'', T ''; misses that latched the direct path='', D ''response_latches'',
               T ''; dues deferred to the braking command's own start='', D ''response_waits'',
               T ''; starts with no fresh sample (not armed)='', D ''response_unref'', T ''; armed against '', D ''response_ref_mm_s'',
               T '' mm/s; shed at the last verdict '', D ''response_last_shed_mm_s'', T '' mm/s'']])"

definition vehicle_fault_how :: "int \<Rightarrow> string" where
  "vehicle_fault_how route =
     (if route = 4 then ''found by route 4 (the response check): the vehicle did not slow under the island's braking command that ran the response span''
      else ''under the island's braking command that ran a whole settle'')"

definition vehicle_fault_line :: "kv \<Rightarrow> string res" where
  "vehicle_fault_line d =
     rbind (key_of d ''vehicle_fault'') (\<lambda>vf. if vf = 0 then Inr ''  no vehicle-side fault'' else
       fstr d [T ''  VEHICLE-SIDE FAULT latched at uptime '', D ''vehicle_fault_uptime_ms'', T '' ms: the vehicle still moved ('',
               D ''vehicle_fault_speed_mm_s'', T '' mm/s), '',
               T (vehicle_fault_how (case dict_of d ''vehicle_fault_route'' of Some v \<Rightarrow> v | None \<Rightarrow> 3)),
               T ''; mrm_state reports MRM_FAILED / EMERGENCY_STOP from then on (phase15-S7), the braking command and the hazard lights kept''])"

definition floor_report :: "kv \<Rightarrow> string res list" where
  "floor_report d =
     standstill_report d
     @ (if \<not> has d ''floor_stage'' then [] else [floor_line d] @ response_report d @ [vehicle_fault_line d])"

definition prio_lines :: "kv \<Rightarrow> (string \<times> int) list \<Rightarrow> pfinding list \<Rightarrow> string res list" where
  "prio_lines d ts fs =
     [fstr d [T ''  priority plan: transport ['', D ''prio_plan_transport_lo'', T '', '', D ''prio_plan_transport_hi'', T ''], pool.app ['',
              D ''prio_plan_app_lo'', T '', '', D ''prio_plan_app_hi'', T ''], sched task '', D ''prio_plan_sched_task'',
              T '', reaction '', D ''prio_plan_reaction''],
      fstr d [T ''  priorities at the first spin: spin thread '', D ''prio_spin'', T '', reaction thread '', D ''prio_reaction'', T ''; '',
              T (join '', '' (map (\<lambda>(n, p). (if n = [] then ''?'' else n) @ '' '' @ dec_int p) ts))],
      Inr (''  priorities: '' @ (if fs = [] then ''AGREE with the plan'' else ''DISAGREE: '' @ join ''; '' (map pf_text fs)))]"

definition prio_report :: "sup \<Rightarrow> string list res" where
  "prio_report s =
     rbind (priority_findings s) (\<lambda>pf. case pf of
       None \<Rightarrow> Inr []
     | Some fs \<Rightarrow>
         (case sd_threads s of
            None \<Rightarrow> Inl KeyError
          | Some ts \<Rightarrow> rmap (\<lambda>r. r) (prio_lines (sd_kv s) ts fs)))"

definition supervisor_report :: "bytes \<Rightarrow> string list res" where
  "supervisor_report blob =
     (let s = supervisor_decode blob; d = sd_kv s in
      if dict_of d ''magic'' \<noteq> Some SUP_MAGIC
      then Inr [''supervisor record (island_supervisor_record): magic 0x'' @ hex08 (get0 d ''magic'') @ '', not initialised'']
      else
        rbind (rmap (\<lambda>r. r) (head_report d @ map (\<lambda>(i, r). route_report i r) (enumerate 0 (sd_route s)) @ late_report d)) (\<lambda>a.
        rbind (rmap (\<lambda>(i, dd). direct_report d i dd) (enumerate 0 (sd_direct s))) (\<lambda>b.
        rbind (rmap (\<lambda>r. r) (levels_report s @ floor_report d)) (\<lambda>c.
        rbind (prio_report s) (\<lambda>e.
          Inr (''supervisor record (island_supervisor_record):'' # a @ concat b @ c @ e))))))"

section \<open>The debug words\<close>

text \<open>What a command of \<open>main\<close> would write, given the symbols of the image, and why it refuses. An argument
  the command line leaves out is the empty text.\<close>

definition STALL :: int where "STALL = 0xFFFFFFFF"

definition FLOOR_WORDS :: "(string \<times> string) list" where
  "FLOOR_WORDS = [(''drop'', ''island_debug_floor_drop''), (''stall'', ''island_debug_floor_stall''),
                  (''hold'', ''island_debug_floor_hold_mm_s'')]"

definition FLOOR_VALUE :: "(string \<times> string \<times> int) list" where
  "FLOOR_VALUE = [(''stall-after'', (''stall'', 2)), (''stall-now'', (''stall'', 3))]"

definition int_arg :: "string \<Rightarrow> int \<Rightarrow> int res" where   \<comment> \<open>\<open>int(a or dflt)\<close>\<close>
  "int_arg a dflt =
     (if a = [] then Inr dflt else (case py_int a of None \<Rightarrow> Inl ValueError | Some v \<Rightarrow> Inr v))"

definition floor_writes :: "string \<Rightarrow> string \<Rightarrow> (string \<times> int) list res" where
  "floor_writes kind val =
     (if kind = ''clear'' then Inr (map (\<lambda>(_, w). (w, 0)) FLOOR_WORDS)
      else (case map_of FLOOR_VALUE kind of
              Some (k, v) \<Rightarrow> rbind (key_of FLOOR_WORDS k) (\<lambda>w. Inr [(w, v)])
            | None \<Rightarrow>
                (case map_of FLOOR_WORDS kind of
                   None \<Rightarrow> Inl (SystemExit ''floor-inject takes drop, stall, stall-after, stall-now, hold [mm/s] or clear'')
                 | Some w \<Rightarrow> if kind = ''hold'' then rbind (int_arg val 1000) (\<lambda>v. Inr [(w, v)]) else Inr [(w, 1)])))"

definition floor_check :: "(string \<Rightarrow> bool) \<Rightarrow> string \<Rightarrow> string \<times> int \<Rightarrow> unit res" where
  "floor_check syms kind wv =
     (if \<not> syms (fst wv) then Inl (SystemExit ''not the island-floor-inject image'')
      else if kind = ''hold'' \<and> \<not> (0 < snd wv \<and> snd wv \<le> 30000) then Inl (SystemExit ''floor-inject hold takes 1..30000 mm/s'')
      else Inr ())"

definition floor_inject :: "(string \<Rightarrow> bool) \<Rightarrow> string \<Rightarrow> string \<Rightarrow> (string \<times> int) list res" where
  "floor_inject syms kind val =
     rbind (floor_writes kind val) (\<lambda>ws. rbind (rmap (floor_check syms kind) ws) (\<lambda>_. Inr ws))"

definition debug_word :: "string \<Rightarrow> string" where
  "debug_word cmd =
     (if cmd = ''fault-overrun'' then ''island_debug_fault_overrun_ms''
      else if cmd = ''spin-stall'' then ''island_debug_spin_stall''
      else if cmd = ''comfortable-inert'' then ''island_debug_comfortable_inert''
      else if cmd = ''late-return'' then ''island_debug_late_return_ms''
      else ''island_debug_overrun_ms'')"

definition debug_write :: "(string \<Rightarrow> bool) \<Rightarrow> string \<Rightarrow> string \<Rightarrow> (string \<times> int) res" where
  "debug_write syms cmd arg =
     (let word = debug_word cmd in
      if \<not> syms word then Inl (SystemExit ''the image has no such word'')
      else if cmd = ''spin-stall'' \<or> cmd = ''comfortable-inert'' then Inr (word, 1)
      else if cmd = ''late-return'' then
        rbind (int_arg arg 0) (\<lambda>v. if 0 < v \<and> v \<le> 100 then Inr (word, v) else Inl (SystemExit ''late-return takes 1..100 ms''))
      else if cmd = ''fault-overrun'' \<and> arg = ''stall'' then Inr (word, STALL)
      else
        rbind (int_arg arg 0) (\<lambda>v. if 0 < v \<and> v \<le> 2000 then Inr (word, v) else Inl (SystemExit ''takes 1..2000 ms'')))"

section \<open>The record the board keeps\<close>

text \<open>\<open>struct island_supervisor_record\<close> of \<^verbatim>\<open>src/zephyr_entry/src/island_supervisor.c\<close>, member by member;
  groups of words are lists. \<open>encode\<close> is its memory image (little endian, no padding).\<close>

record c_level =
  cl_spins :: int
  cl_gap_max_us :: int
  cl_gap_max_at_ms :: int
  cl_prio :: int
  cl_route_foreign :: int
  cl_name :: string
  cl_nros_level :: int

record c_record =
  c_header :: "int list"
  c_route :: "int list list"
  c_direct :: "int list list"
  c_tail :: "int list"
  c_prio :: "int list"
  c_thread :: "(string \<times> int) list"
  c_late :: "int list"
  c_levels :: "int list"
  c_level :: "c_level list"
  c_route_floor :: "int list"
  c_floor :: "int list"
  c_floor_unseen :: "int list"
  c_resume :: "int list"
  c_route_response :: "int list"
  c_response :: "int list"

definition name16 :: "string \<Rightarrow> bytes" where
  "name16 s = ascii_encode s @ replicate (16 - length s) 0"

definition thread_bytes :: "string \<times> int \<Rightarrow> bytes" where
  "thread_bytes t = name16 (fst t) @ le_bytes 4 (snd t)"

definition level_bytes :: "c_level \<Rightarrow> bytes" where
  "level_bytes l =
     le_bytes 4 (cl_spins l) @ le_bytes 4 (cl_gap_max_us l) @ le_bytes 4 (cl_gap_max_at_ms l) @ le_bytes 4 (cl_prio l)
     @ le_bytes 4 (cl_route_foreign l) @ name16 (cl_name l) @ le_bytes 4 (cl_nros_level l)"

definition encode :: "c_record \<Rightarrow> bytes" where
  "encode r =
     pack_u32s (c_header r) @ pack_u32s (concat (c_route r)) @ pack_u32s (concat (c_direct r)) @ pack_u32s (c_tail r)
     @ pack_u32s (c_prio r) @ concat (map thread_bytes (c_thread r)) @ pack_u32s (c_late r) @ pack_u32s (c_levels r)
     @ concat (map level_bytes (c_level r)) @ pack_u32s (c_route_floor r) @ pack_u32s (c_floor r)
     @ pack_u32s (c_floor_unseen r) @ pack_u32s (c_resume r) @ pack_u32s (c_route_response r) @ pack_u32s (c_response r)"

definition u32s_ok :: "nat \<Rightarrow> int list \<Rightarrow> bool" where
  "u32s_ok n ws = (length ws = n \<and> (\<forall>w \<in> set ws. 0 \<le> w \<and> w < 2 ^ 32))"

definition i32_ok :: "int \<Rightarrow> bool" where
  "i32_ok x = (- (2 ^ 31) \<le> x \<and> x < 2 ^ 31)"

definition u32_word :: "int \<Rightarrow> bool" where
  "u32_word x = (0 \<le> x \<and> x < 2 ^ 32)"

definition name_ok :: "string \<Rightarrow> bool" where
  "name_ok s = (length s \<le> 16 \<and> is_ascii s \<and> CHR 0x00 \<notin> set s)"

definition level_ok :: "c_level \<Rightarrow> bool" where
  "level_ok l = (u32_word (cl_spins l) \<and> u32_word (cl_gap_max_us l) \<and> u32_word (cl_gap_max_at_ms l) \<and> i32_ok (cl_prio l)
     \<and> u32_word (cl_route_foreign l) \<and> name_ok (cl_name l) \<and> u32_word (cl_nros_level l))"

text \<open>A record of \<open>routes\<close> routes and \<open>levels\<close> level slots that holds its own counts.\<close>

definition c_record_ok :: "c_record \<Rightarrow> bool" where
  "c_record_ok r =
     (u32s_ok 18 (c_header r) \<and> c_header r ! 15 = int (length (c_route r)) \<and> list_all (u32s_ok 7) (c_route r)
      \<and> length (c_direct r) = 2 \<and> list_all (u32s_ok 5) (c_direct r) \<and> u32s_ok 3 (c_tail r)
      \<and> length (c_prio r) = 10 \<and> list_all i32_ok (c_prio r)
      \<and> length (c_thread r) = 12 \<and> list_all (\<lambda>(n, p). name_ok n \<and> i32_ok p) (c_thread r)
      \<and> u32s_ok 5 (c_late r) \<and> u32s_ok 8 (c_levels r) \<and> c_levels r ! 0 = int (length (c_level r))
      \<and> list_all level_ok (c_level r) \<and> u32s_ok 7 (c_route_floor r) \<and> u32s_ok 7 (c_floor r)
      \<and> u32s_ok 1 (c_floor_unseen r) \<and> u32s_ok 11 (c_resume r) \<and> u32s_ok 7 (c_route_response r)
      \<and> u32s_ok 9 (c_response r))"

definition level_of :: "c_level \<Rightarrow> level" where
  "level_of l =
     \<lparr>lv_kv = zip SUP_LEVEL [cl_spins l, cl_gap_max_us l, cl_gap_max_at_ms l, cl_prio l, cl_route_foreign l],
      lv_name = cl_name l, lv_nros_level = cl_nros_level l\<rparr>"

text \<open>What a reader should see of the record.\<close>

definition sup_of :: "c_record \<Rightarrow> sup" where
  "sup_of r =
     \<lparr>sd_kv = zip SUP_HEADER (c_header r) @ zip SUP_TAIL (c_tail r) @ zip SUP_PRIO (c_prio r) @ zip SUP_LATE (c_late r)
        @ zip SUP_LEVELS (c_levels r) @ zip SUP_FLOOR (c_floor r) @ zip SUP_FLOOR_UNSEEN (c_floor_unseen r)
        @ zip SUP_RESUME (c_resume r) @ zip SUP_RESPONSE (c_response r),
      sd_route = map (zip SUP_ROUTE) (c_route r @ [c_route_floor r, c_route_response r]),
      sd_direct = map (zip SUP_DIRECT) (c_direct r),
      sd_threads = Some (take (nat (c_prio r ! 9)) (c_thread r)),
      sd_level = Some (map level_of (take (nat (c_levels r ! 1)) (c_level r)))\<rparr>"

section \<open>Decoding the memory image\<close>

lemma words_seg:
  assumes "blob = pre @ pack_u32s ws @ post" "length pre = 4 * o1" "\<forall>w \<in> set ws. 0 \<le> w \<and> w < 2 ^ 32"
  shows "take (length ws) (drop o1 (words_at (length blob div 4) blob 0)) = ws"
proof (rule nth_equalityI)
  have n: "o1 + length ws \<le> length blob div 4" using assms(1,2) by simp
  then show len: "length (take (length ws) (drop o1 (words_at (length blob div 4) blob 0))) = length ws" by simp
  fix i assume "i < length (take (length ws) (drop o1 (words_at (length blob div 4) blob 0)))"
  then have i: "i < length ws" using len by simp
  have "take (length ws) (drop o1 (words_at (length blob div 4) blob 0)) ! i = le_int (bslice blob (4 * (o1 + i)) (4 * (o1 + i) + 4))"
    using i n by simp
  also have "\<dots> = le_int (bslice (pack_u32s ws @ post) (4 * i) (4 * i + 4))"
    unfolding assms(1) using assms(2) by (simp add: bslice_append_right algebra_simps)
  also have "\<dots> = ws ! i" by (rule words_at_pack_aux [OF assms(3) i])
  finally show "take (length ws) (drop o1 (words_at (length blob div 4) blob 0)) ! i = ws ! i" .
qed

lemma words_kv_seg:
  assumes "blob = pre @ pack_u32s ws @ post" "length pre = 4 * o1" "u32s_ok (length names) ws"
  shows "words_kv names (words_at (length blob div 4) blob 0) o1 = zip names ws"
  using words_seg [OF assms(1,2)] assms(3) by (simp add: words_kv_def u32s_ok_def)

lemma group_seg:
  assumes "blob = pre @ pack_u32s ws @ post" "length pre = 4 * o1" "u32s_ok (length names) ws"
  shows "word_group names (words_at (length blob div 4) blob 0) o1 = zip names ws"
proof -
  have "o1 + length names \<le> length blob div 4" using assms by (simp add: u32s_ok_def)
  then show ?thesis using words_kv_seg [OF assms] by (simp add: word_group_def)
qed

lemma length_concat_ok: "list_all (u32s_ok k) gs \<Longrightarrow> length (concat gs) = length gs * k"
  by (induction gs) (auto simp: u32s_ok_def)

lemma groups_seg:
  assumes "blob = pre @ pack_u32s (concat gs) @ post" "length pre = 4 * o1" "list_all (u32s_ok (length names)) gs"
  shows "read_groups names (words_at (length blob div 4) blob 0) o1 (length gs) = map (zip names) gs"
proof -
  let ?k = "length names" and ?w = "words_at (length blob div 4) blob 0"
  have one: "words_kv names ?w (o1 + i * ?k) = zip names (gs ! i) \<and> o1 + i * ?k + ?k \<le> length ?w" if i: "i < length gs" for i
  proof -
    have g: "gs = take i gs @ gs ! i # drop (Suc i) gs" using i by (rule id_take_nth_drop)
    have ok: "list_all (u32s_ok ?k) (take i gs)" "u32s_ok ?k (gs ! i)"
      using assms(3) i by (auto simp: list_all_iff dest: in_set_takeD)
    let ?pre = "pre @ pack_u32s (concat (take i gs))" and ?post = "pack_u32s (concat (drop (Suc i) gs)) @ post"
    have "concat gs = concat (take i gs) @ gs ! i @ concat (drop (Suc i) gs)"
      by (subst g) (simp only: concat_append concat.simps)
    then have b: "blob = ?pre @ pack_u32s (gs ! i) @ ?post" using assms(1) by simp
    have l: "length ?pre = 4 * (o1 + i * ?k)"
      using assms(2) length_concat_ok [OF ok(1)] i by simp
    have "o1 + i * ?k + ?k \<le> length blob div 4"
    proof -
      have "length blob \<ge> length ?pre + 4 * ?k" using ok(2) by (subst b) (simp add: u32s_ok_def)
      with l show ?thesis by simp
    qed
    with words_kv_seg [OF b l ok(2)] show ?thesis by simp
  qed
  then have "filter (\<lambda>i. o1 + i * ?k + ?k \<le> length ?w) [0..<length gs] = [0..<length gs]"
    by (intro filter_True) auto
  with one show ?thesis
    by (auto simp: read_groups_def intro!: nth_equalityI)
qed

lemma entries_seg:
  assumes "blob = pre @ concat es @ post" "length pre = b" "\<forall>e \<in> set es. length e = sz" "k \<le> length es"
  shows "entries blob b sz k = take k es"
proof -
  have one: "bslice blob (b + i * sz) (b + (i + 1) * sz) = es ! i" if i: "i < length es" for i
  proof -
    have g: "es = take i es @ es ! i # drop (Suc i) es" using i by (rule id_take_nth_drop)
    have lt: "length (concat xs) = length xs * sz" if "set xs \<subseteq> set es" for xs
      using that assms(3) by (induction xs) auto
    have "length (concat (take i es)) = i * sz" using lt [of "take i es"] i by (auto dest: in_set_takeD)
    moreover have "concat es = concat (take i es) @ es ! i @ concat (drop (Suc i) es)"
      by (subst g) (simp only: concat_append concat.simps)
    moreover have "length (es ! i) = sz" using assms(3) i by simp
    ultimately show ?thesis using assms(1,2) by (simp add: bslice_def)
  qed
  have "map (\<lambda>i. bslice blob (b + i * sz) (b + (i + 1) * sz)) [0..<k] = take k es"
    using one assms(4) by (intro nth_equalityI) auto
  then show ?thesis
    unfolding entries_def using assms(3) by (auto intro!: takeWhile_eq_all_conv [THEN iffD2] dest: in_set_takeD)
qed

lemma get0_zip:
  assumes "distinct names" "length vs = length names" "i < length names"
  shows "get0 (zip names vs) (names ! i) = vs ! i"
proof -
  have "dict_of (zip names vs) (names ! i) = Some (vs ! i)"
    using assms by (intro dict_of_mem) (auto simp: set_zip)
  then show ?thesis by (simp add: get0_def)
qed

lemma cstr_name16: "name_ok s \<Longrightarrow> cstr (name16 s) = s"
proof -
  assume s: "name_ok s"
  have nz: "b \<noteq> 0" if "b \<in> set (ascii_encode s)" for b
  proof -
    from that obtain c where c: "c \<in> set s" "b = word_of_nat (of_char c)" by (auto simp: ascii_encode_def)
    with s have "of_char c < (128 :: nat)" "c \<noteq> CHR 0x00" by (auto simp: name_ok_def is_ascii_def list_all_iff)
    moreover have "of_char (CHR 0x00) = (0 :: nat)" by simp
    ultimately have "of_char c \<noteq> (0 :: nat)" by (metis of_char_eq_iff)
    moreover have "unat b = of_char c" using ascii_byte(1) [of c] c(2) \<open>of_char c < 128\<close> by (simp add: unat_of_nat)
    ultimately show ?thesis by auto
  qed
  then have "takeWhile (\<lambda>b. b \<noteq> 0) (name16 s) = ascii_encode s"
    unfolding name16_def by (subst takeWhile_append2) (auto simp: takeWhile_replicate)
  with s show ?thesis by (simp add: cstr_def ascii_decode_encode name_ok_def)
qed

lemma length_name16 [simp]: "name_ok s \<Longrightarrow> length (name16 s) = 16"
  by (simp add: name16_def name_ok_def)

lemma le_sint_word: "i32_ok x \<Longrightarrow> le_sint (le_bytes 4 x) = x"
  by (intro le_sint_le_bytes) (auto simp: i32_ok_def)

lemma thread_entry_bytes: "name_ok n \<Longrightarrow> i32_ok p \<Longrightarrow> thread_entry (thread_bytes (n, p)) = (n, p) \<and> length (thread_bytes (n, p)) = 20"
  by (simp add: thread_entry_def thread_bytes_def bslice_def cstr_name16 le_sint_word)

lemma level_entry_bytes:
  assumes "level_ok l"
  shows "level_entry (level_bytes l) = level_of l" "length (level_bytes l) = 40"
  using assms
  by (simp_all add: level_entry_def level_bytes_def level_of_def level_ok_def u32_word_def bslice_def cstr_name16 le_sint_word)

text \<open>The image from a point on: \<open>floor_bytes\<close> from route 3, \<open>levels_bytes\<close> from the level words,
  \<open>prio_bytes\<close> from the priority words.\<close>

definition floor_bytes :: "c_record \<Rightarrow> bytes" where
  "floor_bytes r = pack_u32s (c_route_floor r) @ pack_u32s (c_floor r) @ pack_u32s (c_floor_unseen r)
     @ pack_u32s (c_resume r) @ pack_u32s (c_route_response r) @ pack_u32s (c_response r)"

definition levels_bytes :: "c_record \<Rightarrow> bytes" where
  "levels_bytes r = pack_u32s (c_levels r) @ concat (map level_bytes (c_level r)) @ floor_bytes r"

definition prio_bytes :: "c_record \<Rightarrow> bytes" where
  "prio_bytes r = pack_u32s (c_prio r) @ concat (map thread_bytes (c_thread r)) @ pack_u32s (c_late r) @ levels_bytes r"

lemma encode_split:
  "encode r = pack_u32s (c_header r) @ pack_u32s (concat (c_route r)) @ pack_u32s (concat (c_direct r)) @ pack_u32s (c_tail r)
     @ prio_bytes r"
  by (simp add: encode_def prio_bytes_def levels_bytes_def floor_bytes_def)

lemma sup_lengths:
  "length SUP_HEADER = 18" "length SUP_ROUTE = 7" "length SUP_DIRECT = 5" "SUP_DIRECT_SLOTS = 2" "length SUP_TAIL = 3"
  "length SUP_PRIO = 10" "SUP_PRIO_THREADS = 12" "length SUP_LATE = 5" "length SUP_LEVELS = 8" "SUP_LEVEL_BYTES = 40"
  "length SUP_FLOOR = 7" "length SUP_FLOOR_UNSEEN = 1" "length SUP_RESUME = 11" "length SUP_RESPONSE = 9"
  by (simp_all add: sup_layout)

lemma c_record_okD:
  assumes "c_record_ok r"
  shows "u32s_ok 18 (c_header r)" "c_header r ! 15 = int (length (c_route r))" "list_all (u32s_ok 7) (c_route r)"
    "length (c_direct r) = 2" "list_all (u32s_ok 5) (c_direct r)" "u32s_ok 3 (c_tail r)"
    "length (c_prio r) = 10" "list_all i32_ok (c_prio r)" "length (c_thread r) = 12"
    "list_all (\<lambda>(n, p). name_ok n \<and> i32_ok p) (c_thread r)" "u32s_ok 5 (c_late r)" "u32s_ok 8 (c_levels r)"
    "c_levels r ! 0 = int (length (c_level r))" "list_all level_ok (c_level r)"
  using assms by (simp_all add: c_record_ok_def)

lemma c_record_ok_floor:
  assumes "c_record_ok r"
  shows "u32s_ok 7 (c_route_floor r)" "u32s_ok 7 (c_floor r)" "u32s_ok 1 (c_floor_unseen r)"
    "u32s_ok 11 (c_resume r)" "u32s_ok 7 (c_route_response r)" "u32s_ok 9 (c_response r)"
  using assms by (simp_all add: c_record_ok_def)

lemma length_u32s: "u32s_ok n ws \<Longrightarrow> length ws = n"
  by (simp add: u32s_ok_def)

lemma length_entries:
  "\<forall>e \<in> set es. length (f e) = sz \<Longrightarrow> length (concat (map f es)) = length es * sz"
  by (induction es) auto

lemma length_floor_bytes: "c_record_ok r \<Longrightarrow> length (floor_bytes r) = 168"
  using c_record_ok_floor [of r] by (simp add: floor_bytes_def length_u32s)

lemma level_bytes_40: "c_record_ok r \<Longrightarrow> \<forall>l \<in> set (c_level r). length (level_bytes l) = 40"
  using c_record_okD(14) [of r] level_entry_bytes(2) by (auto simp: list_all_iff)

lemma thread_bytes_20: "c_record_ok r \<Longrightarrow> \<forall>t \<in> set (c_thread r). length (thread_bytes t) = 20 \<and> thread_entry (thread_bytes t) = t"
  using c_record_okD(10) [of r] thread_entry_bytes by (fastforce simp: list_all_iff)

lemma length_levels_bytes: "c_record_ok r \<Longrightarrow> length (levels_bytes r) = 200 + length (c_level r) * 40"
  using length_floor_bytes [of r] length_entries [OF level_bytes_40, of r] c_record_okD(12) [of r]
  by (simp add: levels_bytes_def length_u32s)

lemma length_prio_bytes: "c_record_ok r \<Longrightarrow> length (prio_bytes r) = 500 + length (c_level r) * 40"
  using length_levels_bytes [of r] length_entries [of "c_thread r" thread_bytes 20] thread_bytes_20 [of r]
    c_record_okD(7,9,11) [of r]
  by (simp add: prio_bytes_def length_u32s)

lemma length_encode:
  assumes "c_record_ok r"
  shows "length (encode r) = supervisor_layout_bytes (length (c_route r)) (length (c_level r))"
  using length_prio_bytes [OF assms] length_concat_ok [OF c_record_okD(3) [OF assms]]
    length_concat_ok [OF c_record_okD(5) [OF assms]] c_record_okD(1,4,6) [OF assms]
  by (simp add: encode_split supervisor_layout_bytes_def sup_lengths length_u32s)

lemma decode_floor_seg:
  assumes r: "c_record_ok r" and b: "blob = pre @ floor_bytes r" "length pre = 4 * o4"
  shows "decode_floor (words_at (length blob div 4) blob 0) o4 d =
    d\<lparr>sd_route := sd_route d @ [zip SUP_ROUTE (c_route_floor r), zip SUP_ROUTE (c_route_response r)],
      sd_kv := sd_kv d @ zip SUP_FLOOR (c_floor r) @ zip SUP_FLOOR_UNSEEN (c_floor_unseen r) @ zip SUP_RESUME (c_resume r)
        @ zip SUP_RESPONSE (c_response r)\<rparr>"
proof -
  note ok = c_record_ok_floor [OF r]
  note len = ok [THEN length_u32s]
  let ?w = "words_at (length blob div 4) blob 0"
  have n: "length blob div 4 = o4 + 42" using b length_floor_bytes [OF r] by simp
  have "words_kv SUP_ROUTE ?w o4 = zip SUP_ROUTE (c_route_floor r)"
    using b ok(1) by (intro words_kv_seg [of _ pre]) (simp_all add: floor_bytes_def sup_lengths)
  moreover have "words_kv SUP_FLOOR ?w (o4 + 7) = zip SUP_FLOOR (c_floor r)"
    using b ok(2) len by (intro words_kv_seg [of _ "pre @ pack_u32s (c_route_floor r)"]) (simp_all add: floor_bytes_def sup_lengths)
  moreover have "word_group SUP_FLOOR_UNSEEN ?w (14 + o4) = zip SUP_FLOOR_UNSEEN (c_floor_unseen r)"
    using b ok(3) len by (intro group_seg [of _ "pre @ pack_u32s (c_route_floor r @ c_floor r)"]) (simp_all add: floor_bytes_def sup_lengths)
  moreover have "word_group SUP_RESUME ?w (15 + o4) = zip SUP_RESUME (c_resume r)"
    using b ok(4) len by (intro group_seg [of _ "pre @ pack_u32s (c_route_floor r @ c_floor r @ c_floor_unseen r)"])
      (simp_all add: floor_bytes_def sup_lengths)
  moreover have "words_kv SUP_ROUTE ?w (26 + o4) = zip SUP_ROUTE (c_route_response r)"
    using b ok(5) len by (intro words_kv_seg [of _ "pre @ pack_u32s (c_route_floor r @ c_floor r @ c_floor_unseen r @ c_resume r)"])
      (simp_all add: floor_bytes_def sup_lengths)
  moreover have "words_kv SUP_RESPONSE ?w (33 + o4) = zip SUP_RESPONSE (c_response r)"
    using b ok(6) len
    by (intro words_kv_seg [of _ "pre @ pack_u32s (c_route_floor r @ c_floor r @ c_floor_unseen r @ c_resume r @ c_route_response r)" _ "[]"])
      (simp_all add: floor_bytes_def sup_lengths)
  ultimately show ?thesis using n by (simp add: decode_floor_def Let_def sup_lengths)
qed

lemma decode_levels_seg:
  assumes r: "c_record_ok r" and b: "blob = pre @ levels_bytes r" "length pre = 4 * o3"
  shows "decode_levels blob (words_at (length blob div 4) blob 0) o3 d =
    d\<lparr>sd_route := sd_route d @ [zip SUP_ROUTE (c_route_floor r), zip SUP_ROUTE (c_route_response r)],
      sd_level := Some (map level_of (take (nat (c_levels r ! 1)) (c_level r))),
      sd_kv := sd_kv d @ zip SUP_LEVELS (c_levels r) @ zip SUP_FLOOR (c_floor r) @ zip SUP_FLOOR_UNSEEN (c_floor_unseen r)
        @ zip SUP_RESUME (c_resume r) @ zip SUP_RESPONSE (c_response r)\<rparr>"
proof -
  let ?w = "words_at (length blob div 4) blob 0" and ?L = "length (c_level r)"
  let ?k = "nat (min (c_levels r ! 1) (c_levels r ! 0))"
  note ok = c_record_okD(12-14) [OF r]
  have len: "length (c_levels r) = 8" using ok(1) by (rule length_u32s)
  have n: "length blob div 4 = o3 + 50 + ?L * 10" using b length_levels_bytes [OF r] by simp
  have lk: "words_kv SUP_LEVELS ?w o3 = zip SUP_LEVELS (c_levels r)"
    using b ok(1) by (intro words_kv_seg [of _ pre]) (simp_all add: levels_bytes_def sup_lengths)
  have g: "get0 (zip SUP_LEVELS (c_levels r)) ''levels'' = c_levels r ! 0" "get0 (zip SUP_LEVELS (c_levels r)) ''level_count'' = c_levels r ! 1"
    using get0_zip [of SUP_LEVELS "c_levels r" 0] get0_zip [of SUP_LEVELS "c_levels r" 1] len by (simp_all add: SUP_LEVELS_def)
  have kL: "?k \<le> ?L" using ok(2) by simp
  have "entries blob ((o3 + 8) * 4) 40 ?k = take ?k (map level_bytes (c_level r))"
    using b len level_bytes_40 [OF r] kL
    by (intro entries_seg [of _ "pre @ pack_u32s (c_levels r)" _ "floor_bytes r"]) (simp_all add: levels_bytes_def)
  also have "take ?k (map level_bytes (c_level r)) = take (nat (c_levels r ! 1)) (map level_bytes (c_level r))"
    using ok(2) by (auto simp: min_def)
  finally have lv: "map level_entry (entries blob ((o3 + 8) * 4) 40 ?k) = map level_of (take (nat (c_levels r ! 1)) (c_level r))"
    using ok(3) level_entry_bytes(1) by (auto simp: take_map list_all_iff dest: in_set_takeD)
  have f: "decode_floor ?w (o3 + 8 + 10 * ?L) d' = d'\<lparr>sd_route := sd_route d' @ [zip SUP_ROUTE (c_route_floor r), zip SUP_ROUTE (c_route_response r)],
      sd_kv := sd_kv d' @ zip SUP_FLOOR (c_floor r) @ zip SUP_FLOOR_UNSEEN (c_floor_unseen r) @ zip SUP_RESUME (c_resume r)
        @ zip SUP_RESPONSE (c_response r)\<rparr>" for d'
    using b len length_entries [OF level_bytes_40 [OF r]]
    by (intro decode_floor_seg [OF r, of _ "pre @ pack_u32s (c_levels r) @ concat (map level_bytes (c_level r))"]) (simp_all add: levels_bytes_def)
  show ?thesis
    unfolding decode_levels_def Let_def sup_lengths lk g lv using n f ok(2) by simp
qed

lemma signed_seg:
  assumes "blob = pre @ pack_u32s ws @ post" "length pre = 4 * o1" "list_all i32_ok ws" "i < length ws"
  shows "le_sint (bslice blob ((o1 + i) * 4) ((o1 + i) * 4 + 4)) = ws ! i"
proof -
  have "bslice blob ((o1 + i) * 4) ((o1 + i) * 4 + 4) = bslice (pack_u32s ws) (i * 4) (i * 4 + 4)"
    using assms by (simp add: bslice_append_right bslice_append_left algebra_simps)
  also have "\<dots> = le_bytes 4 (ws ! i)"
    using assms(4)
  proof (induction ws arbitrary: i)
    case (Cons x xs)
    then show ?case by (cases i) (simp_all add: pack_u32s_def bslice_def)
  qed simp
  finally show ?thesis using le_sint_word [of "ws ! i"] assms(3,4) by (simp add: list_all_length)
qed

lemma decode_prio_seg:
  assumes r: "c_record_ok r" and b: "blob = pre @ prio_bytes r" "length pre = 4 * o1"
  shows "decode_prio blob (words_at (length blob div 4) blob 0) o1 d =
    d\<lparr>sd_route := sd_route d @ [zip SUP_ROUTE (c_route_floor r), zip SUP_ROUTE (c_route_response r)],
      sd_level := Some (map level_of (take (nat (c_levels r ! 1)) (c_level r))),
      sd_threads := Some (take (nat (c_prio r ! 9)) (c_thread r)),
      sd_kv := sd_kv d @ zip SUP_PRIO (c_prio r) @ zip SUP_LATE (c_late r) @ zip SUP_LEVELS (c_levels r) @ zip SUP_FLOOR (c_floor r)
        @ zip SUP_FLOOR_UNSEEN (c_floor_unseen r) @ zip SUP_RESUME (c_resume r) @ zip SUP_RESPONSE (c_response r)\<rparr>"
proof -
  let ?w = "words_at (length blob div 4) blob 0"
  let ?k = "nat (min (max (c_prio r ! 9) 0) 12)"
  note ok = c_record_okD(7-11) [OF r]
  have n: "length blob div 4 = o1 + 125 + length (c_level r) * 10" using b length_prio_bytes [OF r] by simp
  have pk: "map (\<lambda>i. le_sint (bslice blob ((o1 + i) * 4) ((o1 + i) * 4 + 4))) [0..<10] = c_prio r"
    using signed_seg [of blob pre "c_prio r" _ o1] b ok(1,2) by (intro nth_equalityI) (simp_all add: prio_bytes_def)
  have g: "get0 (zip SUP_PRIO (c_prio r)) ''prio_threads'' = c_prio r ! 9"
    using get0_zip [of SUP_PRIO "c_prio r" 9] ok(1) by (simp add: SUP_PRIO_def)
  have "entries blob ((o1 + 10) * 4) 20 ?k = take ?k (map thread_bytes (c_thread r))"
    using b ok thread_bytes_20 [OF r]
    by (intro entries_seg [of _ "pre @ pack_u32s (c_prio r)" _ "pack_u32s (c_late r) @ levels_bytes r"]) (auto simp: prio_bytes_def)
  also have "\<dots> = take (nat (c_prio r ! 9)) (map thread_bytes (c_thread r))"
    using ok(3) by (auto simp: min_def max_def)
  finally have th: "map thread_entry (entries blob ((o1 + 10) * 4) 20 ?k) = take (nat (c_prio r ! 9)) (c_thread r)"
    using thread_bytes_20 [OF r] by (auto simp: take_map intro!: map_idI dest: in_set_takeD)
  have tl: "length (concat (map thread_bytes (c_thread r))) = 240"
    using length_entries [of "c_thread r" thread_bytes 20] thread_bytes_20 [OF r] ok(3) by simp
  have la: "word_group SUP_LATE ?w (70 + o1) = zip SUP_LATE (c_late r)"
    using b ok(1,5) tl
    by (intro group_seg [of _ "pre @ pack_u32s (c_prio r) @ concat (map thread_bytes (c_thread r))"]) (simp_all add: prio_bytes_def sup_lengths)
  have lv: "decode_levels blob ?w (75 + o1) d' = d'\<lparr>sd_route := sd_route d' @ [zip SUP_ROUTE (c_route_floor r), zip SUP_ROUTE (c_route_response r)],
      sd_level := Some (map level_of (take (nat (c_levels r ! 1)) (c_level r))),
      sd_kv := sd_kv d' @ zip SUP_LEVELS (c_levels r) @ zip SUP_FLOOR (c_floor r) @ zip SUP_FLOOR_UNSEEN (c_floor_unseen r)
        @ zip SUP_RESUME (c_resume r) @ zip SUP_RESPONSE (c_response r)\<rparr>" for d'
    using b ok(1) tl length_u32s [OF ok(5)]
    by (intro decode_levels_seg [OF r, of _ "pre @ pack_u32s (c_prio r) @ concat (map thread_bytes (c_thread r)) @ pack_u32s (c_late r)"])
      (simp_all add: prio_bytes_def)
  show ?thesis
    unfolding decode_prio_def Let_def sup_lengths pk g using n th la lv by simp
qed

lemma decode_encode:
  assumes "c_record_ok r"
  shows "supervisor_decode (encode r) = sup_of r"
proof -
  let ?b = "encode r" and ?R = "length (c_route r)"
  let ?w = "words_at (length ?b div 4) ?b 0"
  note ok = c_record_okD(1-6) [OF assms]
  note len = ok(1) [THEN length_u32s] ok(6) [THEN length_u32s] length_concat_ok [OF ok(3)] length_concat_ok [OF ok(5)]
  have h: "words_kv SUP_HEADER ?w 0 = zip SUP_HEADER (c_header r)"
    using ok(1) by (intro words_kv_seg [of _ "[]"]) (simp_all add: encode_split sup_lengths)
  have g: "nat (get0 (zip SUP_HEADER (c_header r)) ''routes'') = ?R"
    using get0_zip [of SUP_HEADER "c_header r" 15] len(1) ok(2) by (simp add: SUP_HEADER_def)
  have rt: "read_groups SUP_ROUTE ?w 18 ?R = map (zip SUP_ROUTE) (c_route r)"
    using ok(3) len by (intro groups_seg [of _ "pack_u32s (c_header r)"]) (simp_all add: encode_split sup_lengths)
  have di: "read_groups SUP_DIRECT ?w (18 + ?R * 7) 2 = map (zip SUP_DIRECT) (c_direct r)"
    using groups_seg [of ?b "pack_u32s (c_header r @ concat (c_route r))" "c_direct r" "pack_u32s (c_tail r) @ prio_bytes r" "18 + ?R * 7" SUP_DIRECT]
      ok(4,5) len by (simp add: encode_split sup_lengths)
  have ta: "word_group SUP_TAIL ?w (28 + ?R * 7) = zip SUP_TAIL (c_tail r)"
    using ok(4,6) len
    by (intro group_seg [of _ "pack_u32s (c_header r @ concat (c_route r) @ concat (c_direct r))" _ "prio_bytes r"])
      (simp_all add: encode_split sup_lengths)
  note pr = decode_prio_seg [OF assms, of ?b "pack_u32s (c_header r @ concat (c_route r) @ concat (c_direct r) @ c_tail r)" "31 + ?R * 7"]
  show ?thesis
    unfolding supervisor_decode_def Let_def sup_lengths h g
    using rt di ta pr ok(4) len by (simp add: encode_split sup_of_def)
qed

section \<open>Which keys a decoded record has\<close>

definition key_groups :: "string list list" where
  "key_groups = [SUP_TAIL, SUP_PRIO, SUP_LATE, SUP_LEVELS, SUP_FLOOR, SUP_FLOOR_UNSEEN, SUP_RESUME, SUP_RESPONSE]"

text \<open>Keys come in whole groups: the header's, and some of the later ones.\<close>

definition kv_ok :: "sup \<Rightarrow> bool" where
  "kv_ok s = (\<exists>gs. map fst (sd_kv s) = SUP_HEADER @ concat gs \<and> set gs \<subseteq> set key_groups
     \<and> (SUP_PRIO \<in> set gs \<longrightarrow> sd_threads s \<noteq> None))"

definition sup_ok :: "sup \<Rightarrow> bool" where
  "sup_ok s = (kv_ok s \<and> (\<forall>r \<in> set (sd_route s). map fst r = SUP_ROUTE) \<and> (\<forall>r \<in> set (sd_direct s). map fst r = SUP_DIRECT)
     \<and> (\<forall>ls. sd_level s = Some ls \<longrightarrow> (\<forall>l \<in> set ls. map fst (lv_kv l) = SUP_LEVEL)))"

lemma prio_group_ne:
  "SUP_PRIO \<noteq> SUP_TAIL" "SUP_PRIO \<noteq> SUP_LATE" "SUP_PRIO \<noteq> SUP_LEVELS" "SUP_PRIO \<noteq> SUP_FLOOR" "SUP_PRIO \<noteq> SUP_FLOOR_UNSEEN"
  "SUP_PRIO \<noteq> SUP_RESUME" "SUP_PRIO \<noteq> SUP_RESPONSE"
  by (rule notI, drule arg_cong [where f = length], simp add: sup_lengths)+

lemma in_key_groups:
  "SUP_TAIL \<in> set key_groups" "SUP_PRIO \<in> set key_groups" "SUP_LATE \<in> set key_groups" "SUP_LEVELS \<in> set key_groups"
  "SUP_FLOOR \<in> set key_groups" "SUP_FLOOR_UNSEEN \<in> set key_groups" "SUP_RESUME \<in> set key_groups" "SUP_RESPONSE \<in> set key_groups"
  by (simp_all add: key_groups_def)

lemma words_kv_keys: "o1 + length names \<le> length w \<Longrightarrow> map fst (words_kv names w o1) = names"
  by (simp add: words_kv_def)

lemma word_group_keys: "map fst (word_group names w o1) = [] \<or> map fst (word_group names w o1) = names"
  by (auto simp: word_group_def words_kv_keys)

lemma group_choice: "\<exists>gs. map fst (word_group names w o1) = concat gs \<and> set gs \<subseteq> {names}"
  using word_group_keys [of names w o1]
proof
  assume "map fst (word_group names w o1) = []"
  then show ?thesis by (intro exI [of _ "[]"]) simp
next
  assume "map fst (word_group names w o1) = names"
  then show ?thesis by (intro exI [of _ "[names]"]) simp
qed

lemma kv_ok_append:
  assumes "kv_ok s" "sd_kv s' = sd_kv s @ kv" "map fst kv = concat gs" "set gs \<subseteq> set key_groups"
    "sd_threads s \<noteq> None \<longrightarrow> sd_threads s' \<noteq> None" "SUP_PRIO \<in> set gs \<longrightarrow> sd_threads s' \<noteq> None"
  shows "kv_ok s'"
proof -
  from assms(1) obtain hs where "map fst (sd_kv s) = SUP_HEADER @ concat hs" "set hs \<subseteq> set key_groups"
    "SUP_PRIO \<in> set hs \<longrightarrow> sd_threads s \<noteq> None" by (auto simp: kv_ok_def)
  with assms show ?thesis unfolding kv_ok_def by (intro exI [of _ "hs @ gs"]) auto
qed

lemma decode_floor_ok:
  assumes "sup_ok d"
  shows "sup_ok (decode_floor w o4 d)"
proof (cases "o4 + length SUP_ROUTE + length SUP_FLOOR \<le> length w")
  case True
  let ?o5 = "o4 + length SUP_ROUTE" let ?o6 = "?o5 + length SUP_FLOOR" let ?o7 = "?o6 + length SUP_FLOOR_UNSEEN"
  let ?o8 = "?o7 + length SUP_RESUME" let ?o9 = "?o8 + length SUP_ROUTE"
  let ?B = "?o9 + length SUP_RESPONSE \<le> length w"
  let ?kv = "words_kv SUP_FLOOR w ?o5 @ word_group SUP_FLOOR_UNSEEN w ?o6 @ word_group SUP_RESUME w ?o7
    @ (if ?B then words_kv SUP_RESPONSE w ?o9 else [])"
  obtain g1 where g1: "map fst (word_group SUP_FLOOR_UNSEEN w ?o6) = concat g1" "set g1 \<subseteq> {SUP_FLOOR_UNSEEN}"
    using group_choice [of SUP_FLOOR_UNSEEN w ?o6] by blast
  obtain g2 where g2: "map fst (word_group SUP_RESUME w ?o7) = concat g2" "set g2 \<subseteq> {SUP_RESUME}"
    using group_choice [of SUP_RESUME w ?o7] by blast
  let ?gs = "[SUP_FLOOR] @ g1 @ g2 @ (if ?B then [SUP_RESPONSE] else [])"
  have k: "map fst ?kv = concat ?gs"
    using True g1(1) g2(1) by (simp add: words_kv_keys)
  have "SUP_PRIO \<notin> set ?gs" using g1(2) g2(2) prio_group_ne by auto
  moreover have "set ?gs \<subseteq> set key_groups" using g1(2) g2(2) in_key_groups by auto
  moreover have "sd_kv (decode_floor w o4 d) = sd_kv d @ ?kv" "sd_threads (decode_floor w o4 d) = sd_threads d"
    using True by (simp_all add: decode_floor_def Let_def)
  ultimately have "kv_ok (decode_floor w o4 d)"
    using kv_ok_append [of d "decode_floor w o4 d" ?kv ?gs] k assms by (simp only: sup_ok_def) blast
  moreover have "\<forall>r \<in> set (sd_route (decode_floor w o4 d)). map fst r = SUP_ROUTE"
    using True assms by (auto simp: decode_floor_def Let_def sup_ok_def words_kv_keys)
  ultimately show ?thesis using assms by (auto simp: sup_ok_def decode_floor_def Let_def)
qed (use assms in \<open>simp add: decode_floor_def\<close>)

lemma decode_levels_ok:
  assumes "sup_ok d"
  shows "sup_ok (decode_levels blob w o3 d)"
proof (cases "o3 + length SUP_LEVELS \<le> length w")
  case True
  let ?f = "\<lambda>es. d\<lparr>sd_kv := sd_kv d @ words_kv SUP_LEVELS w o3, sd_level := Some (map level_entry es)\<rparr>"
  have "sup_ok (?f es)" for es
  proof -
    have "kv_ok (?f es)"
      using kv_ok_append [of d "?f es" "words_kv SUP_LEVELS w o3" "[SUP_LEVELS]"] assms True in_key_groups prio_group_ne
      by (simp add: sup_ok_def words_kv_keys)
    then show ?thesis using assms by (auto simp: sup_ok_def level_entry_def SUP_LEVEL_def)
  qed
  then show ?thesis using True by (simp add: decode_levels_def Let_def decode_floor_ok)
qed (use assms in \<open>simp add: decode_levels_def\<close>)

lemma decode_prio_ok:
  assumes "sup_ok d"
  shows "sup_ok (decode_prio blob w o1 d)"
proof (cases "o1 + length SUP_PRIO \<le> length w")
  case True
  let ?sg = "map (\<lambda>i. le_sint (bslice blob ((o1 + i) * 4) ((o1 + i) * 4 + 4))) [0..<length SUP_PRIO]"
  have "sup_ok (d\<lparr>sd_kv := sd_kv d @ zip SUP_PRIO ?sg @ word_group SUP_LATE w o2, sd_threads := Some ts\<rparr>)" for o2 ts
  proof -
    obtain g where g: "map fst (word_group SUP_LATE w o2) = concat g" "set g \<subseteq> {SUP_LATE}"
      using group_choice [of SUP_LATE w o2] by blast
    have "kv_ok (d\<lparr>sd_kv := sd_kv d @ zip SUP_PRIO ?sg @ word_group SUP_LATE w o2, sd_threads := Some ts\<rparr>)"
      using kv_ok_append [of d "d\<lparr>sd_kv := sd_kv d @ zip SUP_PRIO ?sg @ word_group SUP_LATE w o2, sd_threads := Some ts\<rparr>"
          "zip SUP_PRIO ?sg @ word_group SUP_LATE w o2" "SUP_PRIO # g"] assms g in_key_groups
      by (auto simp: sup_ok_def)
    then show ?thesis using assms by (auto simp: sup_ok_def)
  qed
  then show ?thesis using True by (simp add: decode_prio_def Let_def decode_levels_ok)
qed (use assms in \<open>simp add: decode_prio_def\<close>)

lemma read_groups_keys: "r \<in> set (read_groups names w o1 k) \<Longrightarrow> map fst r = names"
  by (auto simp: read_groups_def words_kv_keys)

lemma supervisor_decode_ok:
  assumes "72 \<le> length blob"
  shows "sup_ok (supervisor_decode blob)"
proof -
  let ?w = "words_at (length blob div 4) blob 0"
  have h: "map fst (words_kv SUP_HEADER ?w 0) = SUP_HEADER"
    using assms by (intro words_kv_keys) (simp add: sup_lengths)
  have "sup_ok \<lparr>sd_kv = words_kv SUP_HEADER ?w 0 @ word_group SUP_TAIL ?w o2, sd_route = read_groups SUP_ROUTE ?w a k,
      sd_direct = read_groups SUP_DIRECT ?w b l, sd_threads = None, sd_level = None\<rparr>" for o2 a k b l
  proof -
    obtain g where g: "map fst (word_group SUP_TAIL ?w o2) = concat g" "set g \<subseteq> {SUP_TAIL}"
      using group_choice [of SUP_TAIL ?w o2] by blast
    have "SUP_PRIO \<notin> set g" "set g \<subseteq> set key_groups" using g(2) prio_group_ne in_key_groups by auto
    with g h have "kv_ok \<lparr>sd_kv = words_kv SUP_HEADER ?w 0 @ word_group SUP_TAIL ?w o2, sd_route = read_groups SUP_ROUTE ?w a k,
      sd_direct = read_groups SUP_DIRECT ?w b l, sd_threads = None, sd_level = None\<rparr>"
      unfolding kv_ok_def by (intro exI [of _ g]) simp
    then show ?thesis by (auto simp: sup_ok_def read_groups_keys)
  qed
  then show ?thesis unfolding supervisor_decode_def Let_def by (intro decode_prio_ok)
qed

lemma keys_distinct: "distinct (concat (SUP_HEADER # key_groups))"
  by code_simp

lemma keys_disjoint:
  assumes "g \<in> set key_groups" "h \<in> set key_groups" "k \<in> set g" "k \<in> set h"
  shows "g = h"
proof -
  have "distinct (concat key_groups)" using keys_distinct by simp
  moreover have "SUP_TAIL \<noteq> []" by (simp add: sup_layout)
  ultimately show ?thesis using assms by (auto simp: distinct_concat_iff)
qed

text \<open>A record with one key of a group has all of them.\<close>

lemma has_group:
  assumes s: "kv_ok s" and g: "g \<in> set key_groups" "k \<in> set g" "has (sd_kv s) k" and k': "k' \<in> set g"
  shows "has (sd_kv s) k'"
proof -
  from s obtain gs where gs: "map fst (sd_kv s) = SUP_HEADER @ concat gs" "set gs \<subseteq> set key_groups" by (auto simp: kv_ok_def)
  have mem: "has (sd_kv s) x \<longleftrightarrow> x \<in> set (SUP_HEADER @ concat gs)" for x
    using dict_of_None_iff [of "sd_kv s" x] gs(1) by (metis has_def set_map)
  have "k \<notin> set SUP_HEADER" using keys_distinct g by auto
  with g(3) mem obtain h where "h \<in> set gs" "k \<in> set h" by auto
  with keys_disjoint [OF _ g(1) _ g(2)] gs(2) have "g \<in> set gs" by blast
  with k' mem show ?thesis by auto
qed

lemma has_header: "kv_ok s \<Longrightarrow> k \<in> set SUP_HEADER \<Longrightarrow> has (sd_kv s) k"
  using dict_of_None_iff [of "sd_kv s" k] unfolding kv_ok_def has_def by (metis Un_iff set_append set_map)


section \<open>The report never fails a lookup\<close>

definition returns :: "'a res \<Rightarrow> bool" where
  "returns r = (case r of Inr _ \<Rightarrow> True | Inl _ \<Rightarrow> False)"

lemma total_simps [simp]: "returns (Inr x)" "\<not> returns (Inl e)"
  by (simp_all add: returns_def)

lemma total_iff: "returns r \<longleftrightarrow> (\<exists>x. r = Inr x)"
  by (cases r) simp_all

lemma total_rbind: "returns m \<Longrightarrow> (\<And>x. m = Inr x \<Longrightarrow> returns (f x)) \<Longrightarrow> returns (rbind m f)"
  by (cases m) simp_all

lemma total_rmap: "(\<And>x. x \<in> set xs \<Longrightarrow> returns (f x)) \<Longrightarrow> returns (rmap f xs)"
  by (induction xs) (auto intro!: total_rbind)

lemma total_key_of [simp]: "returns (key_of d k) \<longleftrightarrow> has d k"
  by (simp add: key_of_def has_def split: option.split)

fun piece_has :: "kv \<Rightarrow> piece \<Rightarrow> bool" where
  "piece_has d (T s) = True"
| "piece_has d (D k) = has d k"
| "piece_has d (M k) = has d k"

lemma total_fstr: "\<forall>p \<in> set ps. piece_has d p \<Longrightarrow> returns (fstr d ps)"
  unfolding fstr_def
proof (rule total_rbind [OF total_rmap])
  fix p assume "\<forall>p \<in> set ps. piece_has d p" "p \<in> set ps"
  then show "returns (piece_text d p)" by (cases p) (auto intro!: total_rbind)
qed simp

lemma total_if_key: "has d k \<Longrightarrow> \<forall>p \<in> set ps \<union> set qs. piece_has d p \<Longrightarrow> returns (if_key d k ps qs)"
  unfolding if_key_def by (auto intro!: total_rbind total_fstr split: if_splits)

lemma total_cat: "(\<And>r. r \<in> set rs \<Longrightarrow> returns r) \<Longrightarrow> returns (cat rs)"
  unfolding cat_def by (auto intro!: total_rbind total_rmap)

lemmas total_intros = total_rbind total_fstr total_if_key total_cat

lemma has_keys: "map fst d = names \<Longrightarrow> k \<in> set names \<Longrightarrow> has d k"
  using dict_of_None_iff [of d k] by (auto simp: has_def)

lemma head_report_total:
  assumes "\<forall>k \<in> set SUP_HEADER. has d k" "r \<in> set (head_report d)"
  shows "returns r"
  using assms by (auto simp: head_report_def SUP_HEADER_def intro!: total_intros)

lemma route_report_total: "map fst r = SUP_ROUTE \<Longrightarrow> returns (route_report i r)"
proof -
  assume "map fst r = SUP_ROUTE"
  then have "\<forall>k \<in> set SUP_ROUTE. has r k" by (simp add: has_keys)
  then show ?thesis by (auto simp: route_report_def SUP_ROUTE_def intro!: total_intros)
qed

lemma late_report_total:
  assumes "has d ''watch_ok'' \<longrightarrow> (\<forall>k \<in> set SUP_LATE. has d k)" "r \<in> set (late_report d)"
  shows "returns r"
  using assms by (auto simp: late_report_def SUP_LATE_def intro!: total_intros split: if_splits)

lemma direct_report_total:
  assumes "map fst dd = SUP_DIRECT" "i < 2" "\<forall>k. k \<in> set SUP_RESUME \<and> has d k \<longrightarrow> (\<forall>k' \<in> set SUP_RESUME. has d k')"
  shows "returns (direct_report d i dd)"
proof -
  have dk: "\<forall>k \<in> set SUP_DIRECT. has dd k" using assms(1) by (simp add: has_keys)
  have n: "dec_nat 0 = ''0''" "dec_nat 1 = ''1''" by code_simp+
  have i: "i = 0 \<or> i = 1" using assms(2) by auto
  have k: "{''resumed_'' @ dec_nat i, ''resume_uptime_ms_'' @ dec_nat i, ''resume_silent_ms_'' @ dec_nat i, ''resume_periods'',
      ''alive_after_resume_'' @ dec_nat i} \<subseteq> set SUP_RESUME"
    using i by (elim disjE) (simp_all add: n [simplified] SUP_RESUME_def)
  have res: "has d x" if "get0 d (''resumed_'' @ dec_nat i) \<noteq> 0" "x \<in> {''resume_uptime_ms_'' @ dec_nat i, ''resume_silent_ms_'' @ dec_nat i,
      ''resume_periods'', ''alive_after_resume_'' @ dec_nat i}" for x
  proof -
    from that(1) have "has d (''resumed_'' @ dec_nat i)" by (auto simp: get0_def has_def split: option.splits)
    with assms(3) k that(2) show ?thesis by blast
  qed
  from dk have dks: "has dd ''registered''" "has dd ''calls''" "has dd ''first_uptime_us''" "has dd ''handover''" "has dd ''handover_uptime_ms''"
    by (simp_all add: SUP_DIRECT_def)
  have resumed: "returns (fstr d [T ''; RESUMED by the direct path at uptime '', D (''resume_uptime_ms_'' @ dec_nat i), T '' ms, the executor path silent '',
                      D (''resume_silent_ms_'' @ dec_nat i), T '' ms (limit '', D ''resume_periods'', T '' periods); its reports after that '',
                      D (''alive_after_resume_'' @ dec_nat i)])" if "get0 d (''resumed_'' @ dec_nat i) \<noteq> 0"
    using res [OF that] by (intro total_fstr) simp
  show ?thesis
    unfolding direct_report_def Let_def
    by (rule total_rbind, simp add: dks, simp only: split: if_split, intro impI conjI, simp, rule total_rbind, rule total_cat)
      (use dks resumed in \<open>auto intro!: total_intros\<close>)
qed

lemma level_report_total: "map fst (lv_kv lv) = SUP_LEVEL \<Longrightarrow> returns (level_report i lv)"
proof -
  assume "map fst (lv_kv lv) = SUP_LEVEL"
  then have "\<forall>k \<in> set SUP_LEVEL. has (lv_kv lv) k" by (simp add: has_keys)
  then show ?thesis by (auto simp: level_report_def SUP_LEVEL_def intro!: total_intros)
qed

lemma levels_report_total:
  assumes "has (sd_kv s) ''level_count'' \<longrightarrow> (\<forall>k \<in> set SUP_LEVELS. has (sd_kv s) k)"
    "\<forall>ls. sd_level s = Some ls \<longrightarrow> (\<forall>l \<in> set ls. map fst (lv_kv l) = SUP_LEVEL)" "r \<in> set (levels_report s)"
  shows "returns r"
proof -
  have l: "map fst (lv_kv lv) = SUP_LEVEL" if "(i, lv) \<in> set (enumerate 0 (case sd_level s of None \<Rightarrow> [] | Some ls \<Rightarrow> ls))" for i lv
    using that assms(2) by (cases "sd_level s") (auto simp: in_set_enumerate_eq)
  from assms(1,3) l show ?thesis
    by (auto simp: levels_report_def Let_def SUP_LEVELS_def level_report_total intro!: total_intros split: if_splits)
qed

lemma standstill_report_total:
  "has d ''standstill_met'' \<longrightarrow> (\<forall>k \<in> set SUP_TAIL. has d k) \<Longrightarrow> r \<in> set (standstill_report d) \<Longrightarrow> returns r"
  by (auto simp: standstill_report_def SUP_TAIL_def intro!: total_fstr split: if_splits)

lemma floor_line_total:
  assumes "\<forall>k \<in> set SUP_FLOOR. has d k" "has d ''floor_waits'' \<longrightarrow> (\<forall>k \<in> set SUP_RESUME. has d k)"
  shows "returns (floor_line d)"
  using assms unfolding floor_line_def
  by (intro total_rbind total_cat) (auto simp: SUP_FLOOR_def SUP_RESUME_def intro!: total_fstr split: if_splits)

lemma response_report_total:
  "has d ''response_within_ms'' \<longrightarrow> (\<forall>k \<in> set SUP_RESPONSE. has d k) \<Longrightarrow> r \<in> set (response_report d) \<Longrightarrow> returns r"
  by (auto simp: response_report_def SUP_RESPONSE_def intro!: total_fstr split: if_splits)

lemma vehicle_fault_line_total: "\<forall>k \<in> set SUP_FLOOR. has d k \<Longrightarrow> returns (vehicle_fault_line d)"
  unfolding vehicle_fault_line_def by (rule total_rbind) (auto simp: SUP_FLOOR_def intro!: total_fstr)

lemma floor_report_total:
  assumes "has d ''standstill_met'' \<longrightarrow> (\<forall>k \<in> set SUP_TAIL. has d k)" "has d ''floor_stage'' \<longrightarrow> (\<forall>k \<in> set SUP_FLOOR. has d k)"
    "has d ''floor_waits'' \<longrightarrow> (\<forall>k \<in> set SUP_RESUME. has d k)"
    "has d ''response_within_ms'' \<longrightarrow> (\<forall>k \<in> set SUP_RESPONSE. has d k)" "r \<in> set (floor_report d)"
  shows "returns r"
  using assms(5) standstill_report_total [OF assms(1)] response_report_total [OF assms(4)]
    floor_line_total [OF _ assms(3)] vehicle_fault_line_total [of d] assms(2)
  by (auto simp: floor_report_def split: if_splits)

lemma threads_of_group:
  assumes "kv_ok s" "has (sd_kv s) k" and k: "k \<in> set SUP_PRIO"
  shows "sd_threads s \<noteq> None"
proof -
  from assms(1) obtain gs where gs: "map fst (sd_kv s) = SUP_HEADER @ concat gs" "set gs \<subseteq> set key_groups"
    "SUP_PRIO \<in> set gs \<longrightarrow> sd_threads s \<noteq> None" by (auto simp: kv_ok_def)
  have "k \<notin> set SUP_HEADER" using keys_distinct in_key_groups(2) k by auto
  moreover have "k \<in> set (SUP_HEADER @ concat gs)"
    using assms(2) dict_of_None_iff [of "sd_kv s" k] gs(1) by (metis has_def set_map)
  ultimately obtain h where "h \<in> set gs" "k \<in> set h" by auto
  with keys_disjoint [OF in_key_groups(2) _ k] gs(2) have "SUP_PRIO \<in> set gs" by blast
  with gs(3) show ?thesis by simp
qed

lemma threads_of_prio: "kv_ok s \<Longrightarrow> has (sd_kv s) ''prio_taken'' \<Longrightarrow> sd_threads s \<noteq> None"
  by (rule threads_of_group [of _ "''prio_taken''"], assumption, assumption) (simp add: SUP_PRIO_def)

lemma prio_keys:
  assumes "kv_ok s" "get0 (sd_kv s) ''prio_taken'' \<noteq> 0" "k \<in> set SUP_PRIO"
  shows "key_of (sd_kv s) k = Inr (get0 (sd_kv s) k)"
proof -
  have "has (sd_kv s) ''prio_taken''" using assms(2) by (auto simp: get0_def has_def split: option.splits)
  then have "has (sd_kv s) k"
    using has_group [OF assms(1) in_key_groups(2) _ _ assms(3), of "''prio_taken''"] by (simp add: SUP_PRIO_def)
  then show ?thesis by (auto simp: has_def key_of_def get0_def)
qed

lemma priority_findings_Inr:
  assumes "kv_ok s" "get0 (sd_kv s) ''prio_taken'' \<noteq> 0"
  shows "priority_findings s =
    (let g = get0 (sd_kv s); lo = g ''prio_plan_transport_lo''; hi = g ''prio_plan_transport_hi'';
         seen = dict_of (case sd_threads s of None \<Rightarrow> [] | Some ts \<Rightarrow> ts);
         names = (if seen ''zpico_exec'' \<noteq> None then TRANSPORT_THREADS else TRANSPORT_THREADS_PRE_1_9)
     in Inr (Some ((if g ''prio_spin'' \<noteq> g ''prio_plan_sched_task'' then [PF_spin (g ''prio_spin'') (g ''prio_plan_sched_task'')] else [])
          @ (if g ''prio_reaction'' \<noteq> g ''prio_plan_reaction'' then [PF_reaction (g ''prio_reaction'') (g ''prio_plan_reaction'')] else [])
          @ concat (map (thread_finding lo hi seen) names)
          @ (if g ''prio_reaction'' < min lo (g ''prio_spin'') then [] else [PF_not_above (g ''prio_reaction'') lo (g ''prio_spin'')]))))"
proof -
  have k: "key_of (sd_kv s) ''prio_spin'' = Inr (get0 (sd_kv s) ''prio_spin'')"
    "key_of (sd_kv s) ''prio_plan_sched_task'' = Inr (get0 (sd_kv s) ''prio_plan_sched_task'')"
    "key_of (sd_kv s) ''prio_reaction'' = Inr (get0 (sd_kv s) ''prio_reaction'')"
    "key_of (sd_kv s) ''prio_plan_reaction'' = Inr (get0 (sd_kv s) ''prio_plan_reaction'')"
    "key_of (sd_kv s) ''prio_plan_transport_lo'' = Inr (get0 (sd_kv s) ''prio_plan_transport_lo'')"
    "key_of (sd_kv s) ''prio_plan_transport_hi'' = Inr (get0 (sd_kv s) ''prio_plan_transport_hi'')"
    by (rule prio_keys [OF assms], simp add: SUP_PRIO_def)+
  show ?thesis unfolding priority_findings_def k Let_def rbind_simps using assms(2) by simp
qed

lemma thread_finding_Nil: "thread_finding lo hi seen n = [] \<longleftrightarrow> (\<exists>p. seen n = Some p \<and> lo \<le> p \<and> p \<le> hi)"
  by (simp add: thread_finding_def split: option.split)

text \<open>The report says the priorities agree exactly when the spin and the reaction thread run where the
  plan put them, every transport thread of the record's generation is there and inside the transport
  band, and the reaction thread is above both the transport and the spin thread.\<close>

theorem priorities_agree_iff:
  assumes "72 \<le> length blob" "s = supervisor_decode blob" "g = get0 (sd_kv s)" "g ''prio_taken'' \<noteq> 0"
    and "seen = dict_of (the (sd_threads s))"
    and "names = (if seen ''zpico_exec'' \<noteq> None then TRANSPORT_THREADS else TRANSPORT_THREADS_PRE_1_9)"
  shows "priority_findings s = Inr (Some []) \<longleftrightarrow>
    g ''prio_spin'' = g ''prio_plan_sched_task'' \<and> g ''prio_reaction'' = g ''prio_plan_reaction''
    \<and> (\<forall>n \<in> set names. \<exists>p. seen n = Some p \<and> g ''prio_plan_transport_lo'' \<le> p \<and> p \<le> g ''prio_plan_transport_hi'')
    \<and> g ''prio_reaction'' < g ''prio_plan_transport_lo'' \<and> g ''prio_reaction'' < g ''prio_spin''"
proof -
  have ok: "kv_ok s" using supervisor_decode_ok [OF assms(1)] assms(2) by (simp add: sup_ok_def)
  have t: "get0 (sd_kv s) ''prio_taken'' \<noteq> 0" using assms(3,4) by simp
  have "has (sd_kv s) ''prio_taken''" using t by (auto simp: get0_def has_def split: option.splits)
  from threads_of_prio [OF ok this] have th: "(case sd_threads s of None \<Rightarrow> [] | Some ts \<Rightarrow> ts) = the (sd_threads s)" by auto
  show ?thesis
    unfolding priority_findings_Inr [OF ok t] th Let_def assms(5) [symmetric] assms(6) [symmetric] assms(3) [symmetric]
    by (auto simp: thread_finding_Nil)
qed

lemma prio_report_total:
  assumes ok: "kv_ok s"
  shows "returns (prio_report s)"
proof (cases "get0 (sd_kv s) ''prio_taken'' = 0")
  case True
  then show ?thesis by (simp add: prio_report_def priority_findings_def)
next
  case False
  then have h: "has (sd_kv s) ''prio_taken''" by (auto simp: get0_def has_def split: option.splits)
  from threads_of_prio [OF ok h] obtain ts where ts: "sd_threads s = Some ts" by auto
  have k: "has (sd_kv s) x" if "x \<in> set SUP_PRIO" for x
    using prio_keys [OF ok False that] by (metis total_key_of total_iff)
  have ks: "\<forall>x \<in> set SUP_PRIO. has (sd_kv s) x" using k by blast
  from priority_findings_Inr [OF ok False] obtain fs where "priority_findings s = Inr (Some fs)" by (simp add: Let_def)
  with ts have "prio_report s = rmap (\<lambda>r. r) (prio_lines (sd_kv s) ts fs)" by (simp add: prio_report_def Let_def)
  moreover have "returns (rmap (\<lambda>r. r) (prio_lines (sd_kv s) ts fs))"
    using ks by (intro total_rmap) (auto simp: prio_lines_def SUP_PRIO_def intro!: total_fstr)
  ultimately show ?thesis by simp
qed

lemma decode_direct: "sd_direct (decode_prio blob w o1 d) = sd_direct d"
  by (simp add: decode_prio_def decode_levels_def decode_floor_def Let_def)

lemma length_direct: "length (sd_direct (supervisor_decode blob)) \<le> 2"
  unfolding supervisor_decode_def Let_def decode_direct
  using length_filter_le [of _ "[0..<SUP_DIRECT_SLOTS]"] by (simp add: read_groups_def sup_lengths)

text \<open>The report never fails on a lookup: whatever the words, and however old the record (each later
  group present or cut off), a record of at least a whole header gives a text.\<close>

theorem supervisor_report_total:
  assumes "72 \<le> length blob"
  shows "\<exists>lines. supervisor_report blob = Inr lines"
proof -
  let ?s = "supervisor_decode blob"
  let ?d = "sd_kv ?s"
  have s: "sup_ok ?s" and ok: "kv_ok ?s" using supervisor_decode_ok [OF assms] by (auto simp: sup_ok_def)
  have g: "has ?d k \<longrightarrow> (\<forall>k' \<in> set names. has ?d k')" if "names \<in> set key_groups" "k \<in> set names" for names k
    using has_group [OF ok that] by blast
  have hd: "\<forall>k \<in> set SUP_HEADER. has ?d k" using has_header [OF ok] by blast
  have late: "has ?d ''watch_ok'' \<longrightarrow> (\<forall>k \<in> set SUP_LATE. has ?d k)" by (rule g [OF in_key_groups(3)]) (simp add: SUP_LATE_def)
  have lev: "has ?d ''level_count'' \<longrightarrow> (\<forall>k \<in> set SUP_LEVELS. has ?d k)" by (rule g [OF in_key_groups(4)]) (simp add: SUP_LEVELS_def)
  have tail: "has ?d ''standstill_met'' \<longrightarrow> (\<forall>k \<in> set SUP_TAIL. has ?d k)" by (rule g [OF in_key_groups(1)]) (simp add: SUP_TAIL_def)
  have flo: "has ?d ''floor_stage'' \<longrightarrow> (\<forall>k \<in> set SUP_FLOOR. has ?d k)" by (rule g [OF in_key_groups(5)]) (simp add: SUP_FLOOR_def)
  have wai: "has ?d ''floor_waits'' \<longrightarrow> (\<forall>k \<in> set SUP_RESUME. has ?d k)" by (rule g [OF in_key_groups(7)]) (simp add: SUP_RESUME_def)
  have rsp: "has ?d ''response_within_ms'' \<longrightarrow> (\<forall>k \<in> set SUP_RESPONSE. has ?d k)" by (rule g [OF in_key_groups(8)]) (simp add: SUP_RESPONSE_def)
  have res: "\<forall>k. k \<in> set SUP_RESUME \<and> has ?d k \<longrightarrow> (\<forall>k' \<in> set SUP_RESUME. has ?d k')" using g [OF in_key_groups(7)] by blast
  have a: "returns (rmap (\<lambda>r. r) (head_report ?d @ map (\<lambda>(i, r). route_report i r) (enumerate 0 (sd_route ?s)) @ late_report ?d))"
  proof (rule total_rmap)
    fix x assume "x \<in> set (head_report ?d @ map (\<lambda>(i, r). route_report i r) (enumerate 0 (sd_route ?s)) @ late_report ?d)"
    then consider "x \<in> set (head_report ?d)" | i r where "x = route_report i r" "r \<in> set (sd_route ?s)" | "x \<in> set (late_report ?d)"
      by (auto simp: in_set_enumerate_eq)
    then show "returns x"
      by cases (use head_report_total [OF hd] route_report_total s late_report_total [OF late] in \<open>auto simp: sup_ok_def\<close>)
  qed
  have b: "returns (rmap (\<lambda>(i, dd). direct_report ?d i dd) (enumerate 0 (sd_direct ?s)))"
  proof (rule total_rmap)
    fix x assume "x \<in> set (enumerate 0 (sd_direct ?s))"
    moreover obtain i dd where "x = (i, dd)" by fastforce
    ultimately have x: "x = (i, dd)" "i < length (sd_direct ?s)" "dd \<in> set (sd_direct ?s)"
      by (auto simp: in_set_enumerate_eq)
    with length_direct [of blob] s direct_report_total [of dd i ?d, OF _ _ res] show "returns (case x of (i, dd) \<Rightarrow> direct_report ?d i dd)"
      by (simp add: sup_ok_def)
  qed
  have c: "returns (rmap (\<lambda>r. r) (levels_report ?s @ floor_report ?d))"
    using levels_report_total [OF lev] floor_report_total [OF tail flo wai rsp] s
    by (intro total_rmap) (auto simp: sup_ok_def)
  have "returns (supervisor_report blob)"
    unfolding supervisor_report_def Let_def using a b c prio_report_total [OF ok]
    by (auto intro!: total_rbind)
  then show ?thesis by (simp add: total_iff)
qed


section \<open>Properties of the record\<close>

definition demo_record :: c_record where
  "demo_record =
     \<lparr>c_header = SUP_MAGIC # replicate 14 0 @ [1, 0, 0], c_route = [[1, 24621, 1, 0, 2, 20000, 20000400]],
      c_direct = [[1, 0, 0, 1, 5], [0, 0, 0, 0, 0]], c_tail = [0, 8300, 7],
      c_prio = [1, 4, 6, 7, 9, 8, -2, 8, -2, 2],
      c_thread = [(''zpico_exec'', 5), (''zpico_flush'', 6)] @ replicate 10 ([], 0),
      c_late = replicate 5 0, c_levels = [1, 1, 0, 0, 0, 0, 0, 1],
      c_level = [\<lparr>cl_spins = 9, cl_gap_max_us = 100, cl_gap_max_at_ms = 3, cl_prio = -1, cl_route_foreign = 0, cl_name = ''main'',
                   cl_nros_level = 0\<rparr>],
      c_route_floor = replicate 7 0, c_floor = replicate 7 0, c_floor_unseen = [0], c_resume = replicate 11 0,
      c_route_response = replicate 7 0, c_response = replicate 9 0\<rparr>"

lemma demo_record_ok: "c_record_ok demo_record"
  by code_simp



text \<open>The size the self-test expects of the symbol is the size of the struct's image, for any number of
  routes and levels; 868 bytes for the image's three routes and four levels.\<close>

theorem supervisor_layout_is_struct:
  assumes "c_record_ok r"
  shows "length (encode r) = supervisor_layout_bytes (length (c_route r)) (length (c_level r)) \<and> supervisor_layout_bytes 3 4 = 868"
  using length_encode [OF assms] by (simp add: supervisor_layout_bytes_def sup_lengths)

theorem supervisor_layout_is_struct_witness: "length (encode demo_record) = supervisor_layout_bytes 1 1"
  using supervisor_layout_is_struct [OF demo_record_ok] by (simp add: demo_record_def)

lemma demo_record_long: "72 \<le> length (encode demo_record)"
  unfolding length_encode [OF demo_record_ok] by (simp add: supervisor_layout_bytes_def sup_lengths)

theorem priorities_agree_iff_witness: "priority_findings (supervisor_decode (encode demo_record)) = Inr (Some [])"
proof -
  let ?s = "supervisor_decode (encode demo_record)"
  have s: "?s = sup_of demo_record" by (rule decode_encode [OF demo_record_ok])
  have th: "the (sd_threads ?s) = [(''zpico_exec'', 5), (''zpico_flush'', 6)]"
    unfolding s by (simp add: sup_of_def demo_record_def)
  have g: "get0 (sd_kv ?s) ''prio_taken'' = 1" "get0 (sd_kv ?s) ''prio_spin'' = 8" "get0 (sd_kv ?s) ''prio_plan_sched_task'' = 8"
    "get0 (sd_kv ?s) ''prio_reaction'' = -2" "get0 (sd_kv ?s) ''prio_plan_reaction'' = -2"
    "get0 (sd_kv ?s) ''prio_plan_transport_lo'' = 4" "get0 (sd_kv ?s) ''prio_plan_transport_hi'' = 6"
    unfolding s by code_simp+
  show ?thesis
    using priorities_agree_iff [OF demo_record_long refl refl _ refl refl] g th
    by (simp add: TRANSPORT_THREADS_def dict_of_def)
qed

theorem supervisor_report_total_witness: "\<exists>lines. supervisor_report (encode demo_record) = Inr lines"
  using supervisor_report_total [OF demo_record_long] .

text \<open>A debug command writes only a word the image has, and only a value in its documented range: 1 to
  2000 ms, at most 100 for a late return, or the stall marker for a fault overrun.\<close>

theorem debug_writes_bounded:
  assumes "debug_write syms cmd arg = Inr (w, v)"
  shows "syms w \<and> w = debug_word cmd \<and> (v = STALL \<and> cmd = ''fault-overrun'' \<or> 1 \<le> v \<and> v \<le> 2000)
    \<and> (cmd = ''late-return'' \<longrightarrow> v \<le> 100)"
  using assms by (auto simp: debug_write_def Let_def rbind_Inr_iff split: if_splits)

theorem debug_writes_bounded_witness:
  "debug_write (\<lambda>_. True) ''late-return'' ''50'' = Inr (''island_debug_late_return_ms'', 50) \<and> (50 :: int) \<le> 100"
proof -
  have w: "debug_write (\<lambda>_. True) ''late-return'' ''50'' = Inr (''island_debug_late_return_ms'', 50)"
    by code_simp
  from debug_writes_bounded [OF w] w show ?thesis by blast
qed

lemma rmap_unit: "rmap f xs = Inr us \<Longrightarrow> x \<in> set xs \<Longrightarrow> \<exists>u. f x = Inr u"
  by (induction xs arbitrary: us) (auto simp: rbind_Inr_iff)

text \<open>A floor injection is all or nothing and bounded: every word it writes is one of the image's three
  floor words; a held speed is 1 to 30000 mm/s, everything else 0 to 3, and \<open>clear\<close> zeroes all three.\<close>

theorem floor_inject_bounded:
  assumes "floor_inject syms kind val = Inr ws" "(w, v) \<in> set ws"
  shows "syms w \<and> w \<in> snd ` set FLOOR_WORDS \<and> (if kind = ''hold'' then 1 \<le> v \<and> v \<le> 30000 else 0 \<le> v \<and> v \<le> 3)
    \<and> (kind = ''clear'' \<longrightarrow> v = 0 \<and> map fst ws = map snd FLOOR_WORDS)"
proof -
  from assms(1) obtain us where fw: "floor_writes kind val = Inr ws" and ch: "rmap (floor_check syms kind) ws = Inr us"
    by (auto simp: floor_inject_def rbind_Inr_iff)
  from rmap_unit [OF ch assms(2)] have c: "syms w" "kind = ''hold'' \<longrightarrow> 1 \<le> v \<and> v \<le> 30000"
    by (auto simp: floor_check_def split: if_splits)
  from fw assms(2) have "w \<in> snd ` set FLOOR_WORDS" "kind \<noteq> ''hold'' \<longrightarrow> 0 \<le> v \<and> v \<le> 3"
    "kind = ''clear'' \<longrightarrow> v = 0 \<and> map fst ws = map snd FLOOR_WORDS"
    by (auto simp: floor_writes_def FLOOR_VALUE_def FLOOR_WORDS_def key_of_def dict_of_def rbind_Inr_iff split: if_splits)
  with c show ?thesis by auto
qed

theorem floor_inject_bounded_witness:
  "floor_inject (\<lambda>_. True) ''hold'' [] = Inr [(''island_debug_floor_hold_mm_s'', 1000)] \<and> (1000 :: int) \<le> 30000"
proof -
  have w: "floor_inject (\<lambda>_. True) ''hold'' [] = Inr [(''island_debug_floor_hold_mm_s'', 1000)]"
    by (simp add: floor_inject_def floor_writes_def floor_check_def FLOOR_VALUE_def FLOOR_WORDS_def int_arg_def)
  from floor_inject_bounded [OF w, of "''island_debug_floor_hold_mm_s''" 1000] w show ?thesis by simp
qed

end
