(* ===== verification/Violation_Session.thy ===== *)
theory Violation_Session
  imports Trace_Join Supervisor_Record
begin

text \<open>The rest of \<^verbatim>\<open>tools/board/violations.py\<close>: the text of the contract violation record (\<open>report\<close>) and what each command
  of \<open>main\<close> says, does to the board and saves.

  The record's decoder is nano-ros's (not in the tree): \<open>report\<close> takes the header and the slots, newest first, that it
  returns, its rule names, and the ELF bytes behind a name. \<open>main\<close> takes the image's symbols, what the board's reads give,
  and the report of the record read; the parsed arguments, where a missing text is the empty one.\<close>

section \<open>The violation record\<close>

record viol_hdr =
  vh_version :: int
  vh_capacity :: int
  vh_total :: int
  vh_dropped :: int
  vh_suppressed :: int
  vh_armed :: int

record viol_slot =
  vs_rule :: int
  vs_fqn_len :: int
  vs_fqn_addr :: int
  vs_fqn_hash :: int
  vs_measured :: int
  vs_declared :: int

definition ARM_VIA :: "(int \<times> string) list" where
  "ARM_VIA = [(0, ''not armed''), (1, ''INIT_DONE''), (2, ''init failure cleared'')]"

definition RULE_NOTE :: "(string \<times> string) list" where
  "RULE_NOTE = [(''max-latency-runtime'', ''one dispatch, ms''), (''route-latency-runtime'', ''take of the trigger to the output, ms'')]"

definition arm_lines :: "(string \<times> int) list \<Rightarrow> string list" where
  "arm_lines words =
     (case dict_of words ''island_monitors_armed_via'' of
        None \<Rightarrow> []
      | Some via \<Rightarrow>
          (let up = (case dict_of words ''island_monitors_armed_uptime_ms'' of Some u \<Rightarrow> u | None \<Rightarrow> 0)
           in [''  handler armed the monitors: '' @ name_of ARM_VIA via (''via#'' @ dec_int via)
               @ (if via \<noteq> 0 then '' at uptime '' @ dec_int up @ '' ms'' else [])]))"

text \<open>The name of an endpoint: the ELF's, else the one the generated table has for the hash, else the hash. \<open>None\<close> for the
  helpers that read the ELF stands for their absence, and for a name for bytes the ELF does not hold.\<close>

definition slot_fqn :: "(int \<Rightarrow> int \<Rightarrow> string option) option \<Rightarrow> (string \<times> string) list \<Rightarrow> viol_slot \<Rightarrow> string" where
  "slot_fqn elf_bytes hashes s =
     (case (case elf_bytes of Some f \<Rightarrow> if vs_fqn_len s \<noteq> 0 then f (vs_fqn_addr s) (vs_fqn_len s) else None | None \<Rightarrow> None) of
        Some n \<Rightarrow> n
      | None \<Rightarrow> (case dict_of hashes (hex08 (vs_fqn_hash s)) of Some n \<Rightarrow> n | None \<Rightarrow> ''fqn#'' @ hex08 (vs_fqn_hash s)))"

definition slot_rule :: "(int \<Rightarrow> string option) \<Rightarrow> viol_slot \<Rightarrow> string" where
  "slot_rule rule_of s =
     (case rule_of (vs_rule s) of Some n \<Rightarrow> if n \<noteq> [] then n else ''rule#'' @ dec_int (vs_rule s) | None \<Rightarrow> ''rule#'' @ dec_int (vs_rule s))"

definition slot_line :: "(int \<Rightarrow> string option) \<Rightarrow> (int \<Rightarrow> int \<Rightarrow> string option) option \<Rightarrow> (string \<times> string) list
    \<Rightarrow> int \<times> viol_slot option \<Rightarrow> string" where
  "slot_line rule_of elf_bytes hashes qs =
     (case snd qs of
        None \<Rightarrow> ''  #'' @ dec_int (fst qs) @ '': (being written or overwritten)''
      | Some s \<Rightarrow>
          ''  #'' @ dec_int (fst qs) @ '': '' @ slot_rule rule_of s @ '' '' @ slot_fqn elf_bytes hashes s
          @ '' measured='' @ dec_int (vs_measured s) @ '' declared='' @ dec_int (vs_declared s)
          @ (case map_of RULE_NOTE (slot_rule rule_of s) of Some note \<Rightarrow> '' ('' @ note @ '')'' | None \<Rightarrow> []))"

definition violation_report :: "viol_hdr \<Rightarrow> (int \<times> viol_slot option) list \<Rightarrow> (int \<Rightarrow> string option) \<Rightarrow> (int \<Rightarrow> int \<Rightarrow> string option) option
    \<Rightarrow> (string \<times> string) list \<Rightarrow> (string \<times> int) list \<Rightarrow> string list" where
  "violation_report h slots rule_of elf_bytes hashes words =
     [''violation record (NROS_VIOLATION_RECORD, layout v'' @ dec_int (vh_version h) @ '', capacity '' @ dec_int (vh_capacity h) @ ''):'',
      ''  total='' @ dec_int (vh_total h) @ '' dropped='' @ dec_int (vh_dropped h) @ '' suppressed_before_arm='' @ dec_int (vh_suppressed h)
        @ '' armed='' @ dec_int (vh_armed h)]
     @ arm_lines words
     @ (case dict_of words ''island_trace_hb_last_uptime_ms'' of
          Some up \<Rightarrow> [''  read at uptime ~'' @ dec_int up @ '' ms (last trace heartbeat)''] | None \<Rightarrow> [])
     @ (if vh_total h = 0 then [''  EMPTY: no violation stored since boot''] else [])
     @ map (slot_line rule_of elf_bytes hashes) slots"

section \<open>The commands\<close>

datatype act = Say string | Attach | Write32 int int | Read32 int | Read_block int int | Detach | Save string

record vargs =
  va_cmd :: string
  va_arg :: string
  va_val :: string
  va_elf :: string
  va_out :: string
  va_dry :: bool

record venv =
  ve_syms :: "(string \<times> int \<times> int) list"   \<comment> \<open>address and length\<close>
  ve_back :: "int \<Rightarrow> int"                     \<comment> \<open>a word read back\<close>
  ve_blob :: bytes
  ve_report :: "string list"
  ve_selftest :: int

definition has_sym :: "venv \<Rightarrow> string \<Rightarrow> bool" where
  "has_sym e w = (map_of (ve_syms e) w \<noteq> None)"

definition addr_of :: "venv \<Rightarrow> string \<Rightarrow> int" where
  "addr_of e w = fst (the (map_of (ve_syms e) w))"

definition hex010 :: "int \<Rightarrow> string" where "hex010 x = ''0x'' @ hexw 8 x"

definition text_of :: "string list \<Rightarrow> string" where
  "text_of ls = concat (map (\<lambda>l. l @ [CHR 0x0A]) ls)"

definition session :: "act list \<Rightarrow> act list" where
  "session acts = Attach # acts @ [Detach]"

definition main_floor :: "vargs \<Rightarrow> venv \<Rightarrow> act list \<times> int res" where
  "main_floor a e =
     (case floor_inject (has_sym e) (va_arg a) (va_val a) of
        Inl x \<Rightarrow> ([], Inl x)
      | Inr ws \<Rightarrow>
          (map (\<lambda>(w, v). Say (''violations: write '' @ py_hex v @ '' -> '' @ w @ '' @ '' @ hex010 (addr_of e w))) ws
           @ (if va_dry a then []
              else session (concat (map (\<lambda>(w, v). [Write32 (addr_of e w) v, Read32 (addr_of e w),
                     Say (''violations: '' @ w @ '' reads '' @ py_hex (ve_back e (addr_of e w)) @ '' after the write'')]) ws))),
           Inr 0))"

definition main_supervisor :: "vargs \<Rightarrow> venv \<Rightarrow> act list \<times> int res" where
  "main_supervisor a e =
     (case map_of (ve_syms e) ''island_supervisor_record'' of
        None \<Rightarrow> ([], Inl (SystemExit ''built without CONFIG_ISLAND_SUPERVISOR''))
      | Some (ad, sz) \<Rightarrow>
          (let say = [Say (''violations: read island_supervisor_record @ '' @ hex010 ad @ '', '' @ dec_int sz @ '' B (attach, no halt)'')]
           in if va_dry a then (say, Inr 0)
              else (case supervisor_report (ve_blob e) of
                  Inl x \<Rightarrow> (say @ session [Read_block ad sz], Inl x)
                | Inr ls \<Rightarrow>
                    (say @ session [Read_block ad sz]
                     @ (if va_out a \<noteq> [] then [Save (va_out a @ ''.bin''), Save (va_out a @ ''.txt'')] else []) @ [Say (text_of ls)], Inr 0))))"

definition main_debug :: "vargs \<Rightarrow> venv \<Rightarrow> act list \<times> int res" where
  "main_debug a e =
     (case debug_write (has_sym e) (va_cmd a) (va_arg a) of
        Inl x \<Rightarrow> ([], Inl x)
      | Inr (w, v) \<Rightarrow>
          (let ad = addr_of e w; back = ve_back e ad; over = (va_cmd a = ''overrun''); num = (if over then dec_int else py_hex)
           in (Say (''violations: write '' @ num v @ '' -> '' @ w @ '' @ '' @ hex010 ad) #
               (if va_dry a then []
                else session [Write32 ad v, Read32 ad]
                  @ [Say (''violations: '' @ w @ '' reads '' @ num back @ '' after the write (''
                       @ (if back \<noteq> 0 then ''not yet taken'' else if over then ''already taken by a tick'' else ''already taken'') @ '')'')]), Inr 0)))"

definition RECORD_WORDS :: "string list" where
  "RECORD_WORDS = [''island_monitors_armed_uptime_ms'', ''island_monitors_armed_via'', ''island_trace_hb_last_uptime_ms'']"

definition main_read :: "vargs \<Rightarrow> venv \<Rightarrow> act list \<times> int res" where
  "main_read a e =
     (case map_of (ve_syms e) ''NROS_VIOLATION_RECORD'' of
        None \<Rightarrow> ([], Inl (SystemExit ''built without CONFIG_NROS_BOOT_REPORT''))
      | Some (ad, sz) \<Rightarrow>
          if va_out a = [] then ([], Inl (SystemExit ''read needs --out <prefix>''))
          else
            (let words = filter (has_sym e) RECORD_WORDS;
                 say = [Say (''violations: read NROS_VIOLATION_RECORD @ '' @ hex010 ad @ '', '' @ dec_int sz @ '' B; ''
                   @ join '', '' (map (\<lambda>n. n @ '' @ '' @ hex010 (addr_of e n)) words))]
             in if va_dry a then (say, Inr 0)
                else (say @ session (Read_block ad sz # map (\<lambda>n. Read32 (addr_of e n)) words)
                      @ [Save (va_out a @ ''.bin''), Save (va_out a @ ''.words.json''), Save (va_out a @ ''.txt''), Say (text_of (ve_report e))],
                      Inr 0)))"

definition violations_main :: "vargs \<Rightarrow> venv \<Rightarrow> act list \<times> int res" where
  "violations_main a e =
     (if va_cmd a = ''selftest'' then ([], Inr (ve_selftest e))
      else if va_elf a = [] then ([], Inl (SystemExit ''--elf is required''))
      else if va_cmd a = ''floor-inject'' then main_floor a e
      else if va_cmd a = ''supervisor'' then main_supervisor a e
      else if va_cmd a \<in> {''fault-overrun'', ''spin-stall'', ''comfortable-inert'', ''late-return'', ''overrun''} then main_debug a e
      else if va_cmd a = ''decode'' then ([Say (text_of (ve_report e))], Inr 0)
      else main_read a e)"

section \<open>What a command touches\<close>

fun on_board :: "act \<Rightarrow> bool" where
  "on_board (Say s) = False"
| "on_board (Save s) = False"
| "on_board _ = True"

definition bracketed :: "act list \<Rightarrow> bool" where
  "bracketed acts \<longleftrightarrow> (\<forall>x \<in> set acts. \<not> on_board x)
     \<or> (\<exists>pre inner post. acts = pre @ session inner @ post \<and> (\<forall>x \<in> set (pre @ post). \<not> on_board x) \<and> Attach \<notin> set inner \<and> Detach \<notin> set inner)"

definition writes :: "act list \<Rightarrow> (int \<times> int) list" where
  "writes acts = List.map_filter (\<lambda>x. case x of Write32 p v \<Rightarrow> Some (p, v) | _ \<Rightarrow> None) acts"

lemma writes_simps [simp]: "writes [] = []" "writes (xs @ ys) = writes xs @ writes ys"
  "writes (Say s # xs) = writes xs" "writes (Save s # xs) = writes xs" "writes (Attach # xs) = writes xs" "writes (Detach # xs) = writes xs"
  "writes (Read32 p # xs) = writes xs" "writes (Read_block p n # xs) = writes xs" "writes (Write32 p v # xs) = (p, v) # writes xs"
  by (simp_all add: writes_def map_filter_def)

lemma writes_none: "\<forall>x \<in> set xs. \<not> on_board x \<Longrightarrow> writes xs = []"
  by (induction xs) (auto simp: writes_def map_filter_def split: act.splits)

lemma writes_reads: "writes (map (\<lambda>n. Read32 (f n)) ns) = []"
  by (induction ns) auto

lemma bracketedI: "\<forall>x \<in> set (pre @ post). \<not> on_board x \<Longrightarrow> Attach \<notin> set inner \<Longrightarrow> Detach \<notin> set inner \<Longrightarrow> bracketed (pre @ session inner @ post)"
  unfolding bracketed_def by blast

lemma main_floor_acts:
  assumes "main_floor a e = (acts, r)"
  shows "bracketed acts \<and> (va_dry a \<longrightarrow> (\<forall>x \<in> set acts. \<not> on_board x))
    \<and> (writes acts \<noteq> [] \<longrightarrow> (\<exists>ws. floor_inject (has_sym e) (va_arg a) (va_val a) = Inr ws \<and> writes acts = map (\<lambda>(w, v). (addr_of e w, v)) ws))"
proof (cases "floor_inject (has_sym e) (va_arg a) (va_val a)")
  case (Inl x)
  then show ?thesis using assms by (auto simp: main_floor_def bracketed_def)
next
  case (Inr ws)
  let ?say = "map (\<lambda>(w, v). Say (''violations: write '' @ py_hex v @ '' -> '' @ w @ '' @ '' @ hex010 (addr_of e w))) ws"
  let ?inner = "concat (map (\<lambda>(w, v). [Write32 (addr_of e w) v, Read32 (addr_of e w),
                     Say (''violations: '' @ w @ '' reads '' @ py_hex (ve_back e (addr_of e w)) @ '' after the write'')]) ws)"
  have acts: "acts = ?say @ (if va_dry a then [] else session ?inner)" using assms Inr by (auto simp: main_floor_def)
  have s: "\<forall>x \<in> set ?say. \<not> on_board x" by auto
  note ws = writes_none [OF s]
  have m: "Attach \<notin> set ?inner" "Detach \<notin> set ?inner" "writes ?inner = map (\<lambda>(w, v). (addr_of e w, v)) ws"
    by (auto) (induction ws, auto)
  have "bracketed acts"
  proof (cases "va_dry a")
    case True
    then show ?thesis using s by (simp add: acts bracketed_def)
  next
    case False
    then show ?thesis using bracketedI [of ?say "[]" ?inner] s m by (simp add: acts)
  qed
  then show ?thesis using Inr s m ws by (auto simp: acts session_def)
qed

lemma main_debug_acts:
  assumes "main_debug a e = (acts, r)"
  shows "bracketed acts \<and> (va_dry a \<longrightarrow> (\<forall>x \<in> set acts. \<not> on_board x))
    \<and> (writes acts \<noteq> [] \<longrightarrow> (\<exists>w v. debug_write (has_sym e) (va_cmd a) (va_arg a) = Inr (w, v) \<and> writes acts = [(addr_of e w, v)]))"
proof (cases "debug_write (has_sym e) (va_cmd a) (va_arg a)")
  case (Inl x)
  then show ?thesis using assms by (auto simp: main_debug_def bracketed_def)
next
  case (Inr wv)
  obtain w v where wv: "wv = (w, v)" by (cases wv)
  obtain s1 s2 where acts: "acts = Say s1 # (if va_dry a then [] else session [Write32 (addr_of e w) v, Read32 (addr_of e w)] @ [Say s2])"
    using assms Inr by (auto simp: main_debug_def wv Let_def)
  have "bracketed acts"
  proof (cases "va_dry a")
    case True
    then show ?thesis by (simp add: acts bracketed_def)
  next
    case False
    then show ?thesis using bracketedI [of "[Say s1]" "[Say s2]" "[Write32 (addr_of e w) v, Read32 (addr_of e w)]"] by (simp add: acts)
  qed
  then show ?thesis using Inr by (auto simp: acts session_def wv)
qed

lemma main_supervisor_acts:
  assumes "main_supervisor a e = (acts, r)"
  shows "bracketed acts \<and> (va_dry a \<longrightarrow> (\<forall>x \<in> set acts. \<not> on_board x)) \<and> writes acts = []"
proof (cases "map_of (ve_syms e) ''island_supervisor_record''")
  case None
  then show ?thesis using assms by (auto simp: main_supervisor_def bracketed_def)
next
  case (Some az)
  show ?thesis
  proof (cases "va_dry a")
    case True
    then have "\<exists>s1. acts = [Say s1]" using assms Some by (auto simp: main_supervisor_def Let_def split: prod.splits)
    then show ?thesis by (auto simp: bracketed_def)
  next
    case False
    obtain s1 post where "acts = [Say s1] @ session [Read_block (fst az) (snd az)] @ post" "\<forall>x \<in> set post. \<not> on_board x"
    proof (cases "supervisor_report (ve_blob e)")
      case (Inl x)
      then show ?thesis using assms Some False that [of _ "[]"] by (auto simp: main_supervisor_def Let_def split: prod.splits)
    next
      case (Inr ls)
      then show ?thesis using assms Some False that by (cases "va_out a = []") (auto simp: main_supervisor_def Let_def split: prod.splits)
    qed
    then show ?thesis
      using False writes_none [of post] bracketedI [of "[Say s1]" post "[Read_block (fst az) (snd az)]"] by (auto simp: session_def)
  qed
qed

lemma main_read_acts:
  assumes "main_read a e = (acts, r)"
  shows "bracketed acts \<and> (va_dry a \<longrightarrow> (\<forall>x \<in> set acts. \<not> on_board x)) \<and> writes acts = []"
proof (cases "map_of (ve_syms e) ''NROS_VIOLATION_RECORD'' = None \<or> va_out a = []")
  case True
  then show ?thesis using assms by (auto simp: main_read_def bracketed_def split: option.splits)
next
  case False
  define inner where "inner = map (\<lambda>n. Read32 (addr_of e n)) (filter (has_sym e) RECORD_WORDS)"
  obtain az where az: "map_of (ve_syms e) ''NROS_VIOLATION_RECORD'' = Some az" using False by auto
  have inner: "Attach \<notin> set inner" "Detach \<notin> set inner" "writes inner = []"
    by (auto simp: inner_def writes_reads)
  show ?thesis
  proof (cases "va_dry a")
    case True
    then have "\<exists>s1. acts = [Say s1]" using assms False az by (auto simp: main_read_def Let_def split: prod.splits)
    then show ?thesis by (auto simp: bracketed_def)
  next
    case dry: False
    obtain s1 post where "acts = [Say s1] @ session (Read_block (fst az) (snd az) # inner) @ post" "\<forall>x \<in> set post. \<not> on_board x"
      using assms False az dry that by (cases az) (auto simp: main_read_def Let_def inner_def)
    then show ?thesis
      using dry writes_none [of post] inner bracketedI [of "[Say s1]" post "Read_block (fst az) (snd az) # inner"] by (auto simp: session_def)
  qed
qed

section \<open>The properties\<close>

definition writing_cmds :: "string list" where
  "writing_cmds = [''fault-overrun'', ''spin-stall'', ''comfortable-inert'', ''late-return'', ''overrun'', ''floor-inject'']"


text \<open>The report names the endpoint a violation is about: for a record of an image whose marker table was generated from
  the model, a slot whose name the ELF does not give is reported under the contract's own endpoint ref, with its rule,
  measured and declared values.\<close>

theorem violation_report_names:
  assumes "gen env file_sha model = Inr (hdr, tb)" and "ref \<in> set (endpoint_refs model)"
    and "(sq, Some s) \<in> set slots" "vs_fqn_hash s = fnv1a32 ref" "elf_bytes = None \<or> vs_fqn_len s = 0"
    and "rule_of (vs_rule s) = Some rule" "rule \<noteq> []" "map_of RULE_NOTE rule = None"
  shows "''  #'' @ dec_int sq @ '': '' @ rule @ '' '' @ ref @ '' measured='' @ dec_int (vs_measured s) @ '' declared='' @ dec_int (vs_declared s)
    \<in> set (violation_report h slots rule_of elf_bytes (endpoint_hashes tb) words)"
proof -
  obtain dispatch where
    n: "nros_violation_table (ge_pin env) model = Inr (nros_markers tb, rule_ids tb, endpoint_hashes tb, dispatch, take_inputs tb)"
    using assms(1) by (rule gen_Inr)
  then have t: "endpoint_hashes tb = endpoint_hash_items (endpoint_refs model)" "distinct (map fst (endpoint_hashes tb))"
    by (auto elim: nros_violation_table_Inr)
  from assms(2) t(1) have "(hex08 (fnv1a32 ref), ref) \<in> set (endpoint_hashes tb)" by (auto simp: endpoint_hash_items_def)
  from dict_of_mem [OF t(2) this] have "slot_fqn elf_bytes (endpoint_hashes tb) s = ref"
    using assms(4,5) by (cases elf_bytes) (auto simp: slot_fqn_def)
  moreover have "slot_rule rule_of s = rule" using assms(6,7) by (simp add: slot_rule_def)
  ultimately have "slot_line rule_of elf_bytes (endpoint_hashes tb) (sq, Some s)
      = ''  #'' @ dec_int sq @ '': '' @ rule @ '' '' @ ref @ '' measured='' @ dec_int (vs_measured s) @ '' declared='' @ dec_int (vs_declared s)"
    using assms(8) by (simp add: slot_line_def)
  moreover have "slot_line rule_of elf_bytes (endpoint_hashes tb) (sq, Some s)
      \<in> set (violation_report h slots rule_of elf_bytes (endpoint_hashes tb) words)"
    unfolding violation_report_def using assms(3) by (simp only: set_append set_map Un_iff) (blast intro: imageI)
  ultimately show ?thesis by simp
qed


theorem violation_report_names_witness:
  "\<exists>hdr tb. gen demo_env (\<lambda>_. None) demo_model2 = Inr (hdr, tb)
    \<and> ''  #7: max-age /h/a measured=900 declared=500''
      \<in> set (violation_report \<lparr>vh_version = 1, vh_capacity = 4, vh_total = 8, vh_dropped = 4, vh_suppressed = 0, vh_armed = 1\<rparr>
          [(7, Some \<lparr>vs_rule = 2, vs_fqn_len = 0, vs_fqn_addr = 0, vs_fqn_hash = fnv1a32 ''/h/a'', vs_measured = 900, vs_declared = 500\<rparr>)]
          (\<lambda>_. Some ''max-age'') None (endpoint_hashes tb) [])"
proof -
  let ?s = "\<lparr>vs_rule = 2, vs_fqn_len = 0, vs_fqn_addr = 0, vs_fqn_hash = fnv1a32 ''/h/a'', vs_measured = 900, vs_declared = 500\<rparr>"
  from demo_gen obtain hdr tb where *: "gen demo_env (\<lambda>_. None) demo_model2 = Inr (hdr, tb)" by blast
  have r: "''/h/a'' \<in> set (endpoint_refs demo_model2)" by (simp add: endpoint_refs_def demo_model2_def)
  have d: "dec_int 7 = ''7''" "dec_int 900 = ''900''" "dec_int 500 = ''500''" by code_simp+
  from violation_report_names [OF * r, of 7 ?s "[(7, Some ?s)]" None "\<lambda>_. Some ''max-age''" "''max-age''"] * d
  show ?thesis by (auto simp: RULE_NOTE_def)
qed

end
