(* ===== verification/Yaml.thy ===== *)
theory Yaml
  imports Island_Prelude
begin

text \<open>What the readers of YAML documents share: the parsed values and the Python operations on them (truth,
  equality, \<open>get\<close>, iteration), the numbers and texts the contract's values are written in, and a loop
  that threads a state through steps that may raise.

  A key that is absent and a key whose value is null both read as \<open>None\<close>. Numbers are rationals: the
  rounding of floats is not modelled.\<close>

section \<open>Values\<close>

text \<open>A parsed YAML value. Python compares booleans and numbers by value.\<close>

datatype yaml = YNone | YBool bool | YNum rat | YStr string | YList "yaml list" | YDict "(string \<times> yaml) list"

fun yaml_num :: "yaml \<Rightarrow> rat option" where
  "yaml_num (YBool b) = Some (if b then 1 else 0)"
| "yaml_num (YNum q) = Some q"
| "yaml_num _ = None"

definition yaml_eq :: "yaml \<Rightarrow> yaml \<Rightarrow> bool" where
  "yaml_eq a b =
     (case (yaml_num a, yaml_num b) of (Some p, Some q) \<Rightarrow> p = q | _ \<Rightarrow> a = b)"

fun yaml_falsy :: "yaml \<Rightarrow> bool" where
  "yaml_falsy YNone = True"
| "yaml_falsy (YBool b) = (\<not> b)"
| "yaml_falsy (YNum q) = (q = 0)"
| "yaml_falsy (YStr s) = (s = [])"
| "yaml_falsy (YList xs) = (xs = [])"
| "yaml_falsy (YDict kvs) = (kvs = [])"

text \<open>\<open>kvs.get(k)\<close>, \<open>y.get(k)\<close> (only a dictionary has it), \<open>y.get(k, d)\<close>, \<open>y.get(k) or {}\<close>, and
  \<open>for x in y\<close>.\<close>

definition dget :: "(string \<times> yaml) list \<Rightarrow> string \<Rightarrow> yaml" where
  "dget kvs k = (case dict_of kvs k of Some v \<Rightarrow> v | None \<Rightarrow> YNone)"

fun yget :: "yaml \<Rightarrow> string \<Rightarrow> yaml res" where
  "yget (YDict kvs) k = Inr (dget kvs k)"
| "yget _ k = Inl AttributeError"

fun yget_or :: "yaml \<Rightarrow> string \<Rightarrow> yaml \<Rightarrow> yaml res" where
  "yget_or (YDict kvs) k d = Inr (case dict_of kvs k of Some v \<Rightarrow> v | None \<Rightarrow> d)"
| "yget_or _ k d = Inl AttributeError"

definition yor :: "yaml \<Rightarrow> string \<Rightarrow> yaml res" where
  "yor y k = rbind (yget y k) (\<lambda>v. Inr (if yaml_falsy v then YDict [] else v))"

fun yitems :: "yaml \<Rightarrow> (string \<times> yaml) list res" where
  "yitems (YDict kvs) = Inr kvs"
| "yitems _ = Inl AttributeError"

fun yiter :: "yaml \<Rightarrow> yaml list res" where
  "yiter (YList xs) = Inr xs"
| "yiter (YDict kvs) = Inr (map (YStr \<circ> fst) kvs)"
| "yiter (YStr s) = Inr (map (\<lambda>c. YStr [c]) s)"
| "yiter _ = Inl TypeError"

fun rfoldl :: "('s \<Rightarrow> 'a \<Rightarrow> 's res) \<Rightarrow> 's \<Rightarrow> 'a list \<Rightarrow> 's res" where
  "rfoldl f s [] = Inr s"
| "rfoldl f s (x # xs) = rbind (f s x) (\<lambda>s'. rfoldl f s' xs)"

section \<open>Numbers in text\<close>

definition ends_with :: "string \<Rightarrow> string \<Rightarrow> bool" where
  "ends_with p s = (length p \<le> length s \<and> drop (length s - length p) s = p)"

text \<open>\<open>float(s)\<close>: an optional sign, digits with at most one point, and an optional exponent. Underscores and the
  words for infinity and not-a-number, which a contract does not use, are refused here.\<close>

definition digits_int :: "string \<Rightarrow> int" where
  "digits_int s = foldl (\<lambda>n c. n * 10 + digit_val c) 0 s"

fun exponent :: "string \<Rightarrow> int option" where
  "exponent [] = Some 0"
| "exponent (c # r) =
     (if c = CHR ''e'' \<or> c = CHR ''E'' then
        (let (sg, ds) = (case r of [] \<Rightarrow> (1, []) | d # ds \<Rightarrow> if d = CHR ''-'' then (- 1, ds) else if d = CHR ''+'' then (1, ds) else (1, r))
         in if ds \<noteq> [] \<and> list_all is_digit ds then Some (sg * digits_int ds) else None)
      else None)"

definition unsigned_float :: "string \<Rightarrow> rat option" where
  "unsigned_float u =
     (let ip = takeWhile is_digit u; r1 = dropWhile is_digit u;
          point = (r1 \<noteq> [] \<and> hd r1 = CHR ''.'');
          fp = (if point then takeWhile is_digit (tl r1) else []);
          r2 = (if point then dropWhile is_digit (tl r1) else r1)
      in if ip = [] \<and> fp = [] then None
         else map_option (\<lambda>e. of_int (digits_int (ip @ fp)) * (10 powi (e - int (length fp)))) (exponent r2))"

definition py_float :: "string \<Rightarrow> rat option" where
  "py_float s =
     (case strip s of
        [] \<Rightarrow> None
      | c # cs \<Rightarrow> if c = CHR ''-'' then map_option uminus (unsigned_float cs)
                  else if c = CHR ''+'' then unsigned_float cs
                  else unsigned_float (c # cs))"

lemma digits_int_append: "digits_int (s @ [c]) = digits_int s * 10 + digit_val c"
  by (simp add: digits_int_def)

lemma digit_char: "d < 10 \<Longrightarrow> digit_val (char_of (48 + d)) = int d" "d < 10 \<Longrightarrow> is_digit (char_of (48 + d))"
proof -
  assume d: "d < (10 :: nat)"
  then have "of_char (char_of (48 + d)) = (48 + d :: nat)" by (simp add: of_char_of)
  moreover from this have "of_char (char_of (48 + d)) = (48 + int d)"
    by (metis of_nat_add of_nat_numeral of_nat_of_char)
  ultimately show "digit_val (char_of (48 + d)) = int d" "is_digit (char_of (48 + d))"
    using d by (simp_all only: digit_val_def is_digit_def Let_def) simp_all
qed

lemma dec_nat_digits: "digits_int (dec_nat n) = int n \<and> list_all is_digit (dec_nat n) \<and> dec_nat n \<noteq> []"
proof (induction n rule: dec_nat.induct)
  case (1 n)
  show ?case
  proof (cases "n < 10")
    case True
    then show ?thesis using digit_char [of n] by (subst (1 2 3) dec_nat.simps) (simp add: digits_int_def)
  next
    case False
    have "n mod 10 < 10" by simp
    moreover have "int (n div 10) * 10 + int (n mod 10) = int n"
      by (metis div_mult_mod_eq of_nat_add of_nat_mult of_nat_numeral)
    ultimately show ?thesis using digit_char [of "n mod 10"] 1 [OF False] False
      by (subst (1 2 3) dec_nat.simps) (simp add: digits_int_append)
  qed
qed

lemma unsigned_float_int: "unsigned_float (dec_nat n) = Some (of_nat n)"
proof -
  have d: "takeWhile is_digit (dec_nat n) = dec_nat n" "dropWhile is_digit (dec_nat n) = []"
    using dec_nat_digits [of n] by (simp_all add: list_all_iff takeWhile_eq_all_conv)
  show ?thesis unfolding unsigned_float_def d Let_def using dec_nat_digits [of n] by simp
qed

end
