(* ===== verification/Trace_Check.thy ===== *)
theory Trace_Check
  imports Trace_Join Yaml
begin

text \<open>
  The verdict on a trace, \<^verbatim>\<open>src/safety_island_tracing/island_trace.py\<close>: the parameter lookup that
  decides an exemption (\<open>param_value\<close>), the window's figures (\<open>window_stats\<close>), \<open>check\<close>, the
  Perfetto export and the exit codes of \<open>main\<close>.

  The report's lines are constructors that carry the values printed; their layout is not
  modelled. Figures in seconds and bytes per second are rationals.
\<close>

section \<open>Parameters of the resolved model\<close>

datatype param_source =
    File_source yaml             \<comment> \<open>kind file: the parsed content\<close>
  | Inline_source string yaml    \<comment> \<open>kind inline: name, value\<close>
  | Other_source

type_synonym node_params = "(string \<times> param_source list) list"

text \<open>\<open>cur = cur.get(part) if isinstance(cur, dict) else None\<close>, over the parts of the name.\<close>

definition step_into :: "yaml option \<Rightarrow> string \<Rightarrow> yaml option" where
  "step_into cur part = (case cur of Some (YDict kvs) \<Rightarrow> dict_of kvs part | _ \<Rightarrow> None)"

definition not_none :: "yaml option \<Rightarrow> yaml option" where
  "not_none v = (case v of Some YNone \<Rightarrow> None | _ \<Rightarrow> v)"

text \<open>One section of a parameter file: the parameter's value in it, if any.\<close>

definition section_value :: "string \<Rightarrow> yaml \<Rightarrow> yaml option res" where
  "section_value param sect =
     (if yaml_falsy sect then Inr (not_none (foldl step_into (Some (YDict [])) (split_on CHR ''.'' param)))
      else (case sect of
              YDict kvs \<Rightarrow>
                (let cur = (case dict_of kvs ''ros__parameters'' of Some v \<Rightarrow> v | None \<Rightarrow> YDict [])
                 in Inr (not_none (foldl step_into (Some cur) (split_on CHR ''.'' param))))
            | _ \<Rightarrow> Inl AttributeError))"

fun later :: "yaml option \<Rightarrow> yaml option \<Rightarrow> yaml option" where
  "later val None = val"
| "later val (Some v) = Some v"

definition source_value :: "string \<Rightarrow> yaml option \<Rightarrow> param_source \<Rightarrow> yaml option res" where
  "source_value param val src =
     (case src of
        File_source doc \<Rightarrow>
          (if yaml_falsy doc then Inr val
           else (case doc of
                   YDict kvs \<Rightarrow> rbind (rmap (section_value param \<circ> snd) kvs) (\<lambda>vs. Inr (foldl later val vs))
                 | _ \<Rightarrow> Inl AttributeError))
      | Inline_source name v \<Rightarrow> Inr (if name = param then not_none (Some v) else val)
      | Other_source \<Rightarrow> Inr val)"

text \<open>A value of null and no value are both Python's \<open>None\<close>.\<close>

definition param_value :: "node_params \<Rightarrow> string \<Rightarrow> string \<Rightarrow> yaml option res" where
  "param_value nodes node param =
     (case map_of nodes node of
        None \<Rightarrow> Inr None
      | Some srcs \<Rightarrow> rfoldl (source_value param) None srcs)"

section \<open>The window's figures\<close>

fun BOARD_BYTES :: "payload \<Rightarrow> int" where
  "BOARD_BYTES (Marker _ _ _) = 12"
| "BOARD_BYTES (Heartbeat _ _) = 14"
| "BOARD_BYTES (Trigger _ _ _ _ _ _ _) = 22"
| "BOARD_BYTES _ = 0"

fun is_trigger :: "payload \<Rightarrow> bool" where
  "is_trigger (Trigger _ _ _ _ _ _ _) = True"
| "is_trigger _ = False"

fun is_own :: "payload \<Rightarrow> bool" where   \<comment> \<open>a marker or a heartbeat\<close>
  "is_own (Marker _ _ _) = True"
| "is_own (Heartbeat _ _) = True"
| "is_own _ = False"

record window_stat =
  ws_trigger :: trec
  ws_pre :: "trec list"
  ws_post :: "trec list"
  ws_span_s :: rat
  ws_pre_span_ms :: rat
  ws_post_bytes :: rat
  ws_post_board :: int
  ws_pre_board :: int
  ws_prov_board :: int
  ws_board_rate :: "rat option"

definition count_kind :: "trec list \<Rightarrow> string \<Rightarrow> nat" where
  "count_kind recs k = length (filter (\<lambda>r. kind_of (pay r) = k) recs)"

fun prov_bytes :: "payload \<Rightarrow> int" where
  "prov_bytes (Provenance t) = 4 + 2 + 2 + int (length t)"
| "prov_bytes _ = 0"

definition window_stats :: "trace \<Rightarrow> window_stat option" where
  "window_stats tr =
     (let recs = tr_records tr; before = takeWhile (\<lambda>r. \<not> is_trigger (pay r)) recs;
          rest = dropWhile (\<lambda>r. \<not> is_trigger (pay r)) recs
      in case rest of
           [] \<Rightarrow> None
         | trig # tail \<Rightarrow>
             (let pre = filter (\<lambda>r. is_own (pay r) \<and> t_ns r \<le> t_ns trig \<and> t_ns r \<ge> t_ns trig - 2100000000) before;
                  post = filter (\<lambda>r. is_own (pay r)) tail;
                  t_end = (if post = [] then t_ns trig else t_ns (last post));
                  span = of_int (t_end - t_ns trig) / 1000000000;
                  per = (\<lambda>k. of_nat (tr_bytes_by_kind tr k) / of_nat (count_kind recs k));
                  post_board = sum_list (map (BOARD_BYTES \<circ> pay) post)
              in Some \<lparr>ws_trigger = trig, ws_pre = pre, ws_post = post, ws_span_s = span,
                       ws_pre_span_ms = (if pre = [] then 0 else ms_of (t_ns trig - t_ns (hd pre))),
                       ws_post_bytes = sum_list (map (per \<circ> kind_of \<circ> pay) post),
                       ws_post_board = post_board,
                       ws_pre_board = sum_list (map (BOARD_BYTES \<circ> pay) pre),
                       ws_prov_board = sum_list (map (prov_bytes \<circ> pay) recs),
                       ws_board_rate = (if span > 0 then Some (of_int post_board / span) else None)\<rparr>))"

section \<open>The report\<close>

datatype check_line =
    Fail_decode "int \<times> nat \<times> nat" | Ok_decode nat nat
  | Fail_provenance | Fail_table "string option" string | Ok_provenance string
  | Row int string nat | Fail_unknown "int list"
  | Info_window_markers "string list" | Fail_missing "string list" | Ok_markers nat nat
  | Fail_no_heartbeat | Fail_heartbeat int "(int \<times> int) list" | Ok_heartbeat int int nat
  | Fail_window | Ok_window trec nat rat | Ok_window_rate nat rat rat int rat | Info_window_cost int rat rat rat
  | Info_violations "viol list" | Ok_violations | Info_takes "(string \<times> nat \<times> nat) list"
  | Info_ticks tick_stat | Fail_complete int int | Ok_complete int | Verdict bool

definition window_report :: "trace \<Rightarrow> bool \<times> check_line list" where
  "window_report tr =
     (case window_stats tr of
        None \<Rightarrow> (False, [Fail_window])
      | Some w \<Rightarrow>
          (True,
           Ok_window (ws_trigger w) (length (ws_pre w)) (ws_pre_span_ms w) #
           (case ws_board_rate w of
              None \<Rightarrow> []
            | Some rate \<Rightarrow>
                if rate = 0 then []
                else
                  (let fixed = ws_prov_board w + ws_pre_board w + 22
                   in [Ok_window_rate (length (ws_post w)) (ws_span_s w) (ws_post_bytes w) (ws_post_board w) (1024 / rate),
                       Info_window_cost fixed (of_int (16384 - fixed) / rate) (of_int (24576 - fixed) / rate)
                         (of_int (32768 - fixed) / rate)]))))"

section \<open>check\<close>

datatype unreachable =
    Fault_entry string string                 \<comment> \<open>marker, fault\<close>
  | Param_entry string string string yaml     \<comment> \<open>marker, node, param, value\<close>

fun entry_marker :: "unreachable \<Rightarrow> string" where
  "entry_marker (Fault_entry m _) = m"
| "entry_marker (Param_entry m _ _ _) = m"

definition opt_eq :: "yaml option \<Rightarrow> yaml \<Rightarrow> bool" where
  "opt_eq actual v = (case actual of None \<Rightarrow> v = YNone | Some a \<Rightarrow> yaml_eq a v)"

definition entry_holds :: "node_params option \<Rightarrow> unreachable \<Rightarrow> (string \<times> bool) res" where
  "entry_holds model e =
     (case e of
        Fault_entry m _ \<Rightarrow> Inr (m, True)
      | Param_entry m node param v \<Rightarrow>
          (case model of
             None \<Rightarrow> Inr (m, opt_eq None v)
           | Some nodes \<Rightarrow> rbind (param_value nodes node param) (\<lambda>actual. Inr (m, opt_eq actual v))))"

text \<open>The key/value fields of a provenance text, after the first field.\<close>

definition prov_kv :: "string \<Rightarrow> string \<Rightarrow> string option" where
  "prov_kv txt = dict_of (List.map_filter (split_once CHR ''='') (drop 1 (split_on CHR '';'' txt)))"

fun prov_text :: "payload \<Rightarrow> string option" where
  "prov_text (Provenance t) = Some t"
| "prov_text _ = None"

fun hb_seq :: "payload \<Rightarrow> int option" where
  "hb_seq (Heartbeat s _) = Some s"
| "hb_seq _ = None"

fun marker_id :: "payload \<Rightarrow> int option" where
  "marker_id (Marker mk _ _) = Some mk"
| "marker_id _ = None"

definition provs :: "trace \<Rightarrow> string list" where
  "provs tr = List.map_filter (prov_text \<circ> pay) (tr_records tr)"

definition hbs :: "trace \<Rightarrow> int list" where
  "hbs tr = List.map_filter (hb_seq \<circ> pay) (tr_records tr)"

definition seen :: "trace \<Rightarrow> int list" where
  "seen tr = List.map_filter (marker_id \<circ> pay) (tr_records tr)"

definition kv_of :: "trace \<Rightarrow> string \<Rightarrow> string option" where
  "kv_of tr = (case provs tr of [] \<Rightarrow> (\<lambda>_. None) | t # _ \<Rightarrow> prov_kv t)"

definition windowed :: "trace \<Rightarrow> bool" where
  "windowed tr = (kv_of tr ''window'' = Some ''trigger'')"

definition seen_count :: "trace \<Rightarrow> int \<Rightarrow> nat" where
  "seen_count tr i = length (filter (\<lambda>x. x = i) (seen tr))"

definition excused :: "(string \<Rightarrow> bool option) \<Rightarrow> trace \<Rightarrow> string list" where
  "excused exempt tr =
     map mname (filter (\<lambda>m. seen_count tr (mid m) = 0 \<and> exempt (mname m) = Some True) (tb_markers (tr_table tr)))"

definition missing :: "(string \<Rightarrow> bool option) \<Rightarrow> trace \<Rightarrow> string list" where
  "missing exempt tr =
     map mname (filter (\<lambda>m. seen_count tr (mid m) = 0 \<and> exempt (mname m) \<noteq> Some True) (tb_markers (tr_table tr)))"

definition unknown_ids :: "trace \<Rightarrow> int list" where
  "unknown_ids tr =
     sort (remdups (filter (\<lambda>i. i \<notin> set (map mid (tb_markers (tr_table tr)))
                               \<and> i \<notin> set (map nm_id (nros_markers (tr_table tr)))) (seen tr)))"

definition gaps :: "int list \<Rightarrow> (int \<times> int) list" where
  "gaps xs = filter (\<lambda>(a, b). b \<noteq> a + 1) (pairs xs)"

text \<open>Each part of \<open>check\<close> gives whether it leaves \<open>ok\<close> standing, and its lines.\<close>

definition check_decode :: "trace \<Rightarrow> bool \<times> check_line list" where
  "check_decode tr =
     (case tr_error tr of
        Some e \<Rightarrow> (False, [Fail_decode e])
      | None \<Rightarrow> (True, [Ok_decode (length (tr_records tr)) (tr_used tr)]))"

definition check_provenance :: "trace \<Rightarrow> bool \<times> check_line list" where
  "check_provenance tr =
     (if provs tr = [] then (False, [Fail_provenance])
      else if kv_of tr ''table_sha256'' \<noteq> Some (table_sha256 (tr_table tr))
      then (False, [Fail_table (kv_of tr ''table_sha256'') (table_sha256 (tr_table tr))])
      else (True, [Ok_provenance (table_sha256 (tr_table tr))]))"

definition check_markers :: "(string \<Rightarrow> bool option) \<Rightarrow> trace \<Rightarrow> bool \<times> check_line list" where
  "check_markers exempt tr =
     (let rows = map (\<lambda>m. Row (mid m) (mname m) (seen_count tr (mid m))) (tb_markers (tr_table tr));
          ms = missing exempt tr; n = length (tb_markers (tr_table tr)); ex = length (excused exempt tr);
          unk = unknown_ids tr
      in (unk = [] \<and> (ms = [] \<or> windowed tr),
          rows @ (if unk = [] then [] else [Fail_unknown unk])
          @ (if ms \<noteq> [] \<and> windowed tr then [Info_window_markers ms]
             else if ms \<noteq> [] then [Fail_missing ms] else [Ok_markers (n - ex) ex])))"

definition check_heartbeats :: "trace \<Rightarrow> bool \<times> check_line list" where
  "check_heartbeats tr =
     (let hs = hbs tr
      in if hs = [] then (False, [Fail_no_heartbeat])
         else if (hd hs \<noteq> 0 \<and> \<not> windowed tr) \<or> gaps hs \<noteq> [] then (False, [Fail_heartbeat (hd hs) (take 5 (gaps hs))])
         else (True, [Ok_heartbeat (hd hs) (last hs) (length hs)]))"

definition check_window :: "trace \<Rightarrow> bool \<times> check_line list" where
  "check_window tr = (if windowed tr then window_report tr else (True, []))"

definition check_info :: "trace \<Rightarrow> check_line list" where
  "check_info tr =
     (if tr_violations tr = [] then [Ok_violations] else [Info_violations (tr_violations tr)])
     @ (if take_inputs (tr_table tr) = [] then [] else [Info_takes (take_counts (tr_takes tr) (tr_table tr))])
     @ (case tick_stats (timer_ticks (tr_records tr)) of None \<Rightarrow> [] | Some s \<Rightarrow> [Info_ticks s])"

definition check_complete :: "trace \<Rightarrow> bool \<times> check_line list" where
  "check_complete tr =
     (case tr_header tr of
        None \<Rightarrow> (True, [])
      | Some h \<Rightarrow>
          (let hs = hbs tr; emitted = heartbeats_emitted h
           in if hs = [] then (True, [])
              else if last hs + 1 \<noteq> emitted then (False, [Fail_complete emitted (last hs + 1)])
              else (True, [Ok_complete emitted])))"

definition check :: "node_params option \<Rightarrow> unreachable list \<Rightarrow> trace \<Rightarrow> (bool \<times> check_line list) res" where
  "check model unreach tr =
     rbind (rmap (entry_holds model) unreach) (\<lambda>es.
       let exempt = dict_of es;
           parts = [check_decode tr, check_provenance tr, check_markers exempt tr, check_heartbeats tr,
                    check_window tr, (True, check_info tr), check_complete tr];
           ok = list_all fst parts
       in Inr (ok, concat (map snd parts) @ [Verdict ok]))"

section \<open>Perfetto and the exit codes\<close>

record pf_event =
  pf_name :: string
  pf_ph :: char
  pf_ts :: rat
  pf_pid :: int
  pf_tid :: "string option"
  pf_scope :: "char option"
  pf_args :: "(string \<times> int) list"

definition perfetto_phase :: "string \<Rightarrow> char \<times> string" where
  "perfetto_phase m =
     (if ends_with ''_ENTRY'' m then (CHR ''B'', take (length m - 6) m)
      else if ends_with ''_EXIT'' m then (CHR ''E'', take (length m - 5) m)
      else (CHR ''i'', m))"

definition thread_label :: "(string \<times> fval) list \<Rightarrow> string" where
  "thread_label flds =
     (case dict_of flds ''name'' of
        Some (FStr (c # s)) \<Rightarrow> c # s
      | _ \<Rightarrow> ''0x'' @ hex_nat (case dict_of flds ''thread_id'' of Some (FInt i) \<Rightarrow> nat i | _ \<Rightarrow> 0))"

definition perfetto_event :: "marker_table \<Rightarrow> int \<Rightarrow> trec \<Rightarrow> pf_event option" where
  "perfetto_event table t0 r =
     (let us = of_int (t_ns r - t0) / 1000 in
      case pay r of
        Marker mk n arg \<Rightarrow>
          (let node = (case dict_of (map (\<lambda>m. (mid m, mnode m)) (tb_markers table)) mk of Some x \<Rightarrow> x | None \<Rightarrow> ''?'');
               ph = fst (perfetto_phase n)
           in Some \<lparr>pf_name = snd (perfetto_phase n), pf_ph = ph, pf_ts = us, pf_pid = 1, pf_tid = Some (''node '' @ node),
                    pf_scope = (if ph = CHR ''i'' then Some CHR ''t'' else None), pf_args = [(''arg'', arg)]\<rparr>)
      | Heartbeat s _ \<Rightarrow>
          Some \<lparr>pf_name = ''heartbeat_seq'', pf_ph = CHR ''C'', pf_ts = us, pf_pid = 1, pf_tid = None,
                pf_scope = None, pf_args = [(''seq'', s)]\<rparr>
      | Zephyr k flds \<Rightarrow>
          if k = ''thread_switched_in'' \<or> k = ''thread_switched_out''
          then Some \<lparr>pf_name = thread_label flds, pf_ph = (if ends_with ''in'' k then CHR ''B'' else CHR ''E''),
                     pf_ts = us, pf_pid = 2, pf_tid = Some (''thread '' @ thread_label flds), pf_scope = None, pf_args = []\<rparr>
          else None
      | _ \<Rightarrow> None)"

definition perfetto :: "marker_table \<Rightarrow> trec list \<Rightarrow> pf_event list" where
  "perfetto table recs =
     List.map_filter (perfetto_event table (case recs of [] \<Rightarrow> 0 | r # _ \<Rightarrow> t_ns r)) recs"

datatype trace_cmd = Cmd_violations | Cmd_takes | Cmd_ticks | Cmd_decode | Cmd_check

definition exit_code :: "trace_cmd \<Rightarrow> node_params option \<Rightarrow> unreachable list \<Rightarrow> trace \<Rightarrow> int res" where
  "exit_code cmd model unreach tr =
     (case cmd of
        Cmd_check \<Rightarrow> rbind (check model unreach tr) (\<lambda>(ok, _). Inr (if ok then 0 else 1))
      | _ \<Rightarrow> Inr (if tr_error tr \<noteq> None then 1 else 0))"

section \<open>The verdict\<close>

lemma gaps_upto: "gaps [i..j] = []"
  by (auto simp: gaps_def pairs_def filter_empty_conv set_zip nth_upto)

lemma gaps_Nil_iff: "xs \<noteq> [] \<Longrightarrow> gaps xs = [] \<longleftrightarrow> xs = [hd xs..last xs]"
proof (induction xs rule: induct_list012)
  case (3 x y zs)
  have e: "gaps (x # y # zs) = [] \<longleftrightarrow> y = x + 1 \<and> gaps (y # zs) = []" by (simp add: gaps_def)
  show ?case
  proof
    assume "gaps (x # y # zs) = []"
    with e have *: "y = x + 1" "gaps (y # zs) = []" by blast+
    have "y # zs = [y..last (y # zs)]" using "3.IH"(2) *(2) by (metis list.distinct(1) list.sel(1))
    note * = *(1) this
    have "y \<in> set [y..last (y # zs)]" using *(2) by (metis list.set_intros(1))
    then have "y \<le> last (y # zs)" by (simp only: atLeastAtMost_iff set_upto)
    then have "[x..last (y # zs)] = x # [x + 1..last (y # zs)]" using *(1) by (intro upto_rec1) linarith
    then have "x # y # zs = [x..last (y # zs)]" using * by metis
    then show "x # y # zs = [hd (x # y # zs)..last (x # y # zs)]"
      by (metis last_ConsR list.distinct(1) list.sel(1))
  next
    assume "x # y # zs = [hd (x # y # zs)..last (x # y # zs)]"
    then show "gaps (x # y # zs) = []" by (metis gaps_upto)
  qed
qed (simp_all add: gaps_def)

lemma window_stats_None_iff: "window_stats tr = None \<longleftrightarrow> (\<forall>r \<in> set (tr_records tr). \<not> is_trigger (pay r))"
proof -
  let ?d = "dropWhile (\<lambda>r. \<not> is_trigger (pay r)) (tr_records tr)"
  have "window_stats tr = None \<longleftrightarrow> ?d = []"
    by (cases ?d) (simp_all add: window_stats_def Let_def del: dropWhile_eq_Nil_conv)
  then show ?thesis by simp
qed

lemma fst_window_report: "fst (window_report tr) \<longleftrightarrow> (\<exists>r \<in> set (tr_records tr). is_trigger (pay r))"
  using window_stats_None_iff [of tr] by (auto simp: window_report_def Let_def split: option.splits)

lemma missing_Nil_iff:
  "missing exempt tr = [] \<longleftrightarrow>
     (\<forall>m \<in> set (tb_markers (tr_table tr)). mid m \<in> set (seen tr) \<or> exempt (mname m) = Some True)"
  by (auto simp: missing_def seen_count_def filter_empty_conv)

lemma unknown_Nil_iff:
  "unknown_ids tr = [] \<longleftrightarrow>
     set (seen tr) \<subseteq> mid ` set (tb_markers (tr_table tr)) \<union> nm_id ` set (nros_markers (tr_table tr))"
proof -
  have "unknown_ids tr = [] \<longleftrightarrow> set (unknown_ids tr) = {}" by simp
  then show ?thesis by (auto simp: unknown_ids_def)
qed

lemma check_heartbeats_iff:
  "fst (check_heartbeats tr) \<longleftrightarrow>
     hbs tr \<noteq> [] \<and> hbs tr = [hd (hbs tr)..last (hbs tr)] \<and> (windowed tr \<or> hd (hbs tr) = 0)"
  using gaps_Nil_iff [of "hbs tr"] by (auto simp: check_heartbeats_def Let_def)

lemma check_Inr:
  assumes "check model unreach tr = Inr (ok, lines)"
  obtains es where "rmap (entry_holds model) unreach = Inr es"
    "ok \<longleftrightarrow> tr_error tr = None \<and> (provs tr \<noteq> [] \<and> kv_of tr ''table_sha256'' = Some (table_sha256 (tr_table tr)))
      \<and> (unknown_ids tr = [] \<and> (missing (dict_of es) tr = [] \<or> windowed tr)) \<and> fst (check_heartbeats tr)
      \<and> fst (check_window tr) \<and> fst (check_complete tr)"
proof -
  have d: "fst (check_decode tr) \<longleftrightarrow> tr_error tr = None" by (auto simp: check_decode_def split: option.splits)
  have p: "fst (check_provenance tr) \<longleftrightarrow> provs tr \<noteq> [] \<and> kv_of tr ''table_sha256'' = Some (table_sha256 (tr_table tr))"
    by (simp add: check_provenance_def)
  have m: "fst (check_markers ex tr) \<longleftrightarrow> unknown_ids tr = [] \<and> (missing ex tr = [] \<or> windowed tr)" for ex
    by (simp add: check_markers_def Let_def)
  from assms obtain es where "rmap (entry_holds model) unreach = Inr es"
    and ok: "ok = list_all fst [check_decode tr, check_provenance tr, check_markers (dict_of es) tr, check_heartbeats tr,
                    check_window tr, (True, check_info tr), check_complete tr]"
    by (auto simp: check_def rbind_Inr_iff Let_def)
  then show thesis by (intro that [of es]) (simp_all add: d p m)
qed

text \<open>C26. The verdict of \<open>check\<close> is exactly its documented contract: PASS iff the decode is clean; the
  provenance names this marker table; every marker id seen is in the table; every marker is seen or
  holds a confirmed exemption (a windowed trace is excused); the heartbeats are an unbroken run, from
  0 unless windowed; a windowed trace has its trigger; and with a header the last heartbeat recorded
  is the last one emitted.\<close>

theorem check_pass_iff:
  assumes "check model unreach tr = Inr (ok, lines)" and "rmap (entry_holds model) unreach = Inr es"
  shows "ok \<longleftrightarrow>
    tr_error tr = None
    \<and> provs tr \<noteq> [] \<and> kv_of tr ''table_sha256'' = Some (table_sha256 (tr_table tr))
    \<and> set (seen tr) \<subseteq> mid ` set (tb_markers (tr_table tr)) \<union> nm_id ` set (nros_markers (tr_table tr))
    \<and> (windowed tr \<or> (\<forall>m \<in> set (tb_markers (tr_table tr)). mid m \<in> set (seen tr) \<or> dict_of es (mname m) = Some True))
    \<and> hbs tr \<noteq> [] \<and> hbs tr = [hd (hbs tr)..last (hbs tr)] \<and> (windowed tr \<or> hd (hbs tr) = 0)
    \<and> (windowed tr \<longrightarrow> (\<exists>r \<in> set (tr_records tr). is_trigger (pay r)))
    \<and> (\<forall>h. tr_header tr = Some h \<longrightarrow> last (hbs tr) + 1 = heartbeats_emitted h)"
proof -
  from assms obtain es' where es: "rmap (entry_holds model) unreach = Inr es'"
    and ok: "ok \<longleftrightarrow> tr_error tr = None \<and> (provs tr \<noteq> [] \<and> kv_of tr ''table_sha256'' = Some (table_sha256 (tr_table tr)))
      \<and> (unknown_ids tr = [] \<and> (missing (dict_of es') tr = [] \<or> windowed tr)) \<and> fst (check_heartbeats tr)
      \<and> fst (check_window tr) \<and> fst (check_complete tr)"
    by (elim check_Inr)
  have "es' = es" using es assms(2) by simp
  moreover have "fst (check_window tr) \<longleftrightarrow> (windowed tr \<longrightarrow> (\<exists>r \<in> set (tr_records tr). is_trigger (pay r)))"
    by (simp add: check_window_def fst_window_report)
  moreover have "fst (check_complete tr) \<longleftrightarrow> hbs tr = [] \<or> (\<forall>h. tr_header tr = Some h \<longrightarrow> last (hbs tr) + 1 = heartbeats_emitted h)"
    by (auto simp: check_complete_def Let_def split: option.splits)
  ultimately show ?thesis
    unfolding ok missing_Nil_iff unknown_Nil_iff check_heartbeats_iff by blast
qed

definition demo_trace :: trace where
  "demo_trace =
     \<lparr>tr_header = Some \<lparr>zephyr_version = 0, buffer_size = 64, heartbeats_emitted = 2, heartbeat_ms = 100,
                        last_heartbeat_uptime_ms = 100, dumped_len = 60\<rparr>,
      tr_zephyr = ''4.4'',
      tr_records = map (\<lambda>p. \<lparr>off = 0, t_ns = 0, eid = 0, pay = p\<rparr>)
        [Provenance ''p;table_sha256=t'', Marker 1 ''A'' 0, Marker 2 ''B'' 0, Heartbeat 0 0, Heartbeat 1 100],
      tr_bytes_by_kind = (\<lambda>_. 0), tr_used = 60, tr_error = None, tr_table = demo_table, tr_violations = [],
      tr_takes = []\<rparr>"

lemma demo_check: "\<exists>lines. check None [] demo_trace = Inr (True, lines)"
proof -
  have "case check None [] demo_trace of Inr (ok, _) \<Rightarrow> ok | Inl _ \<Rightarrow> False" by code_simp
  then show ?thesis by (auto split: sum.splits)
qed

theorem check_pass_iff_witness:
  "\<exists>lines. check None [] demo_trace = Inr (True, lines) \<and> set (seen demo_trace) \<subseteq> {1, 2, 277, 278, 279, 280}"
proof -
  from demo_check obtain lines where c: "check None [] demo_trace = Inr (True, lines)" by blast
  have es: "rmap (entry_holds None) [] = Inr []" by simp
  have "mid ` set (tb_markers demo_table) \<union> nm_id ` set (nros_markers demo_table) \<subseteq> {1, 2, 277, 278, 279, 280}"
    by (simp add: demo_table_def)
  moreover have "tr_table demo_trace = demo_table" by (simp add: demo_trace_def)
  ultimately show ?thesis using check_pass_iff [OF c es] c by (metis subset_trans)
qed

text \<open>A passing full dump lost nothing: its heartbeats are exactly 0, 1, ..., emitted - 1.\<close>

theorem check_pass_no_heartbeat_lost:
  assumes "check model unreach tr = Inr (True, lines)" and "\<not> windowed tr" and "tr_header tr = Some h"
  shows "hbs tr = [0..heartbeats_emitted h - 1]"
proof -
  from assms(1) have hb: "fst (check_heartbeats tr)" and c: "fst (check_complete tr)"
    by (auto elim: check_Inr)
  from hb assms(2) have h: "hbs tr \<noteq> []" "hbs tr = [0..last (hbs tr)]"
    unfolding check_heartbeats_iff by auto
  with c assms(3) have "last (hbs tr) = heartbeats_emitted h - 1"
    by (auto simp: check_complete_def Let_def split: if_splits)
  with h show ?thesis by metis
qed

theorem check_pass_no_heartbeat_lost_witness: "hbs demo_trace = [0..1]"
proof -
  from demo_check obtain lines where c: "check None [] demo_trace = Inr (True, lines)" by blast
  have w: "\<not> windowed demo_trace" by code_simp
  from check_pass_no_heartbeat_lost [OF c w] show ?thesis by (simp add: demo_trace_def)
qed

section \<open>Byte accounts\<close>

definition kinds :: "trec list \<Rightarrow> string set" where
  "kinds recs = (kind_of \<circ> pay) ` set recs"

definition accounted :: "dstate \<Rightarrow> bool" where
  "accounted st = ((\<Sum>k \<in> kinds (ds_recs st). ds_sizes st k) = ds_pos st \<and> (\<forall>k. k \<notin> kinds (ds_recs st) \<longrightarrow> ds_sizes st k = 0))"

lemma finite_kinds [simp]: "finite (kinds recs)"
  by (simp add: kinds_def)

lemma accounted_push:
  assumes "accounted st" and "ds_pos st \<le> p"
  shows "accounted (push_rec (st\<lparr>ds_prev := a, ds_ext := b\<rparr>) t e pl p)"
proof -
  let ?K = "kinds (ds_recs st)" and ?k = "kind_of pl" and ?n = "p - ds_pos st"
  let ?f = "(ds_sizes st)(?k := ds_sizes st ?k + ?n)"
  have "(\<Sum>k \<in> insert ?k ?K. ?f k) = (\<Sum>k \<in> insert ?k ?K. ds_sizes st k + (if k = ?k then ?n else 0))"
    by (rule sum.cong) auto
  also have "\<dots> = (\<Sum>k \<in> insert ?k ?K. ds_sizes st k) + ?n"
    by (simp add: sum.distrib)
  also have "(\<Sum>k \<in> insert ?k ?K. ds_sizes st k) = (\<Sum>k \<in> ?K. ds_sizes st k)"
    using assms(1) by (cases "?k \<in> ?K") (auto simp: accounted_def insert_absorb)
  finally have "(\<Sum>k \<in> insert ?k ?K. ?f k) = p" using assms by (simp add: accounted_def)
  with assms(1) show ?thesis by (auto simp: accounted_def kinds_def)
qed

lemma accounted_step:
  assumes "accounted st" and "decode_step cfg buf st = Inr (go, st')"
  shows "accounted st'"
proof (cases go)
  case True
  with assms(2) obtain a b t e pl p where st': "st' = push_rec (st\<lparr>ds_prev := a, ds_ext := b\<rparr>) t e pl p"
    by (auto simp: decode_step_def Let_def rbind_Inr_iff split: if_splits option.splits)
  moreover have "ds_pos st \<le> p" using decode_step_pos(1) [of cfg buf st st'] assms(2) True st' by simp
  ultimately show ?thesis using accounted_push [OF assms(1)] by simp
next
  case False
  with assms show ?thesis
    by (auto simp: decode_step_def Let_def rbind_Inr_iff accounted_def split: if_splits option.splits)
qed

lemma accounted_loop: "decode_loop cfg buf st = Inr st' \<Longrightarrow> accounted st \<Longrightarrow> accounted st'"
proof (induction cfg buf st rule: decode_loop.induct)
  case (1 cfg buf st)
  from "1.prems" obtain go st1 where s: "decode_step cfg buf st = Inr (go, st1)"
    by (subst (asm) decode_loop.simps) (auto split: sum.splits)
  from accounted_step [OF "1.prems"(2) s] have a: "accounted st1" .
  show ?case
  proof (cases go)
    case True
    with "1.prems"(1) s have "decode_loop cfg buf st1 = Inr st'" by (subst (asm) decode_loop.simps) simp
    from "1.IH" [OF s refl True this a] show ?thesis .
  next
    case False
    with "1.prems"(1) s have "st' = st1" by (subst (asm) decode_loop.simps) simp
    with a show ?thesis by simp
  qed
qed

lemma accounted_dstate0: "accounted dstate0"
  by (simp add: accounted_def dstate0_def kinds_def)

lemma kinds_anchor: "kinds (anchor recs seg) = kinds recs"
proof -
  have sh: "(kind_of \<circ> pay) (shift_t k r) = (kind_of \<circ> pay) r" for k r by (simp add: shift_t_def)
  have "kinds (take i recs @ map (shift_t k) (drop i recs)) = kinds recs" for i k
  proof -
    have "kinds (take i recs @ map (shift_t k) (drop i recs)) = kinds (take i recs @ drop i recs)"
      unfolding kinds_def set_append set_map image_Un image_image sh by (simp add: comp_def)
    then show ?thesis by simp
  qed
  then show ?thesis by (auto simp: anchor_def Let_def split: option.splits)
qed

text \<open>The summary adds up: over the kinds that occur, the bytes by kind of a loaded trace sum to its
  used length.\<close>

theorem bytes_by_kind_total:
  assumes "load tsdls table data zephyr = Inr tr"
  shows "(\<Sum>k \<in> kinds (tr_records tr). tr_bytes_by_kind tr k) = tr_used tr"
proof -
  from assms obtain cfg buf st where st: "decode_loop cfg (padded buf) dstate0 = Inr st"
    and tr: "tr_records tr = anchor (ds_recs st) (ds_seg st)" "tr_bytes_by_kind tr = ds_sizes st" "tr_used tr = ds_pos st"
    by (auto simp: load_def Let_def rbind_Inr_iff split: if_splits)
  from accounted_loop [OF st accounted_dstate0] show ?thesis
    unfolding tr kinds_anchor by (simp add: accounted_def)
qed

theorem bytes_by_kind_total_witness:
  "\<exists>tr. load (\<lambda>_. demo_tsdl) demo_table [1, 0, 0, 0, 224, 1, 0, 5] (Some ''4.4'') = Inr tr
     \<and> (\<Sum>k \<in> kinds (tr_records tr). tr_bytes_by_kind tr k) = tr_used tr"
proof -
  have "case load (\<lambda>_. demo_tsdl) demo_table [1, 0, 0, 0, 224, 1, 0, 5] (Some ''4.4'') of Inr _ \<Rightarrow> True | Inl _ \<Rightarrow> False"
    by code_simp
  then obtain tr where tr: "load (\<lambda>_. demo_tsdl) demo_table [1, 0, 0, 0, 224, 1, 0, 5] (Some ''4.4'') = Inr tr"
    by (auto split: sum.splits)
  with bytes_by_kind_total [OF tr] show ?thesis by blast
qed

text \<open>The board's record sizes in the window report are the sizes the writer gives: with 16-bit event
  ids a marker is 12 bytes, a heartbeat 14, a trigger 22, a provenance 8 and its text.\<close>

theorem board_bytes_are_record_sizes:
  assumes "id_size (dc_tsdl cfg) = 2"
  shows "int (length (put_rec cfg (T, w))) = BOARD_BYTES (wrec_payload (dc_names cfg) w) + prov_bytes (wrec_payload (dc_names cfg) w)"
  using assms by (cases w) (simp_all add: put_rec_def)

section \<open>Perfetto\<close>

lemma ends_with_append [simp]: "ends_with p (s @ p)"
  by (simp add: ends_with_def)

lemma ends_with_last: "ends_with p s \<Longrightarrow> p \<noteq> [] \<Longrightarrow> last s = last p"
  by (metis append_take_drop_id ends_with_def last_append)

text \<open>In the Perfetto export the ENTRY and EXIT markers of a path are a begin and an end event of the
  same name on the same track.\<close>

theorem perfetto_paths_paired:
  assumes "path_markers model key = Inr [e, x]"
  shows "fst (perfetto_phase (mname e)) = CHR ''B'' \<and> fst (perfetto_phase (mname x)) = CHR ''E''
    \<and> snd (perfetto_phase (mname e)) = snd (perfetto_phase (mname x)) \<and> mnode e = mnode x"
proof -
  from assms obtain node path where n: "split_endpoint key = Inr (node, path)"
    by (cases "split_endpoint key") (auto simp: path_markers_def)
  let ?b = "''PATH_'' @ c_ident node @ ''_'' @ c_ident path"
  from assms n have names: "mname e = ?b @ ''_ENTRY''" "mname x = ?b @ ''_EXIT''" "mnode e = node" "mnode x = node"
    by (auto simp: path_markers_def Let_def new_marker_def)
  have "\<not> ends_with ''_ENTRY'' (?b @ ''_EXIT'')"
    by (rule notI, drule ends_with_last) simp_all
  then show ?thesis
    using ends_with_append [of "''_ENTRY''" ?b] ends_with_append [of "''_EXIT''" ?b]
    unfolding names perfetto_phase_def by simp
qed


theorem board_bytes_are_record_sizes_witness:
  "int (length (put_rec (demo_conf\<lparr>dc_tsdl := demo_tsdl\<lparr>id_size := 2\<rparr>\<rparr>) (5, WHeartbeat 1 2))) = 14"
proof -
  have i: "id_size (dc_tsdl (demo_conf\<lparr>dc_tsdl := demo_tsdl\<lparr>id_size := 2\<rparr>\<rparr>)) = 2" by simp
  from board_bytes_are_record_sizes [OF i, of 5 "WHeartbeat 1 2"] show ?thesis by simp
qed

theorem perfetto_paths_paired_witness:
  "\<exists>e x. path_markers demo_model ''/h/t'' = Inr [e, x] \<and> snd (perfetto_phase (mname e)) = snd (perfetto_phase (mname x))"
proof -
  have "case path_markers demo_model ''/h/t'' of Inr ms \<Rightarrow> length ms = 2 | Inl _ \<Rightarrow> False" by code_simp
  then obtain e x where p: "path_markers demo_model ''/h/t'' = Inr [e, x]"
    by (auto split: sum.splits simp: numeral_2_eq_2 length_Suc_conv)
  with perfetto_paths_paired [OF p] show ?thesis by blast
qed

end
