(* ===== verification/Trace_Text.thy ===== *)
theory Trace_Text
  imports Trace_Check
begin

text \<open>What \<^verbatim>\<open>src/safety_island_tracing/island_trace.py\<close> prints: \<open>summarize\<close> and the lines of the commands \<open>decode\<close>,
  \<open>violations\<close>, \<open>takes\<close> and \<open>ticks\<close> of \<open>main\<close>. A float with three decimals is its exact value rounded half to even.
  \<open>meta\<close> is the path of the event metadata (\<open>tr.tsdl\<close>).\<close>

section \<open>Pieces\<close>

definition first_uniq :: "'a list \<Rightarrow> 'a list" where   \<comment> \<open>the keys of a \<open>Counter\<close>, in the order they were first counted\<close>
  "first_uniq xs = rev (remdups (rev xs))"

definition opt_text :: "('a \<Rightarrow> string) \<Rightarrow> 'a option \<Rightarrow> string" where
  "opt_text f x = (case x of Some y \<Rightarrow> f y | None \<Rightarrow> ''?'')"

definition fmt_violation :: "viol \<Rightarrow> string" where
  "fmt_violation v =
     ''#'' @ dec_int (v_seq v) @ '': '' @ v_rule v @ '' '' @ opt_text snd (v_fqn v) @ '' measured='' @ opt_text dec_int (v_measured v)
     @ '' declared='' @ opt_text dec_int (v_declared v)"

definition fmt_ms :: "int \<Rightarrow> string" where
  "fmt_ms ns = rjust 12 (fix_digits 3 (ms_of ns))"

definition t_zero :: "trace \<Rightarrow> int" where   \<comment> \<open>\<open>t0\<close>\<close>
  "t_zero tr = (case tr_records tr of [] \<Rightarrow> 0 | r # _ \<Rightarrow> t_ns r)"

definition error_text :: "int \<times> nat \<times> nat \<Rightarrow> string" where
  "error_text e =
     (case e of (i, pos, n) \<Rightarrow> ''unknown event id '' @ py_hex i @ '' at buffer offset '' @ dec_nat pos @ '' (after '' @ dec_nat n @ '' records)'')"

section \<open>summarize\<close>

text \<open>The rows of the table: a kind, its records and its bytes, most bytes first.\<close>

definition kind_rows :: "trace \<Rightarrow> (string \<times> nat \<times> nat) list" where
  "kind_rows tr =
     map (\<lambda>k. (k, count_kind (tr_records tr) k, tr_bytes_by_kind tr k))
       (sort_key (\<lambda>k. - int (tr_bytes_by_kind tr k)) (first_uniq (map (kind_of \<circ> pay) (tr_records tr))))"

definition kind_line :: "string \<times> nat \<times> nat \<Rightarrow> string" where
  "kind_line row = (case row of (k, n, b) \<Rightarrow>
     ljust 28 k @ rjust 10 (dec_nat n) @ rjust 12 (dec_nat b) @ rjust 9 (fix_digits 1 (of_nat b / of_nat n)))"

definition header_line :: "header \<Rightarrow> string" where
  "header_line h = ''dump : buffer '' @ dec_int (buffer_size h) @ '' B, '' @ dec_int (dumped_len h) @ '' B used, ''
     @ dec_int (heartbeats_emitted h) @ '' heartbeats emitted, last at uptime '' @ dec_int (last_heartbeat_uptime_ms h) @ '' ms''"

definition time_unit :: "trace \<Rightarrow> string" where
  "time_unit tr = (if tr_header tr \<noteq> None then ''simulated time on native_sim'' else ''cycle-counter time, zephyr '' @ tr_zephyr tr)"

definition span_line :: "trace \<Rightarrow> string list" where
  "span_line tr =
     (if tr_records tr = [] then []
      else [''span : '' @ dec_nat (length (tr_records tr)) @ '' records over ''
        @ fix_digits 3 (of_int (t_ns (last (tr_records tr)) - t_ns (hd (tr_records tr))) / 1000000000) @ '' s ('' @ time_unit tr @ '')''])"

definition summarize :: "string \<Rightarrow> trace \<Rightarrow> string list" where
  "summarize meta tr =
     [''trace: zephyr '' @ tr_zephyr tr @ '', TSDL '' @ meta]
     @ (case tr_header tr of Some h \<Rightarrow> [header_line h] | None \<Rightarrow> [])
     @ span_line tr
     @ [ljust 28 ''event'' @ rjust 10 ''count'' @ rjust 12 ''bytes'' @ rjust 9 ''B/event'']
     @ map kind_line (kind_rows tr)
     @ [ljust 28 ''total'' @ rjust 10 (dec_nat (length (tr_records tr))) @ rjust 12 (dec_nat (tr_used tr))]
     @ map (\<lambda>t. ''provenance: '' @ t) (provs tr)
     @ map (\<lambda>v. ''violation: '' @ fmt_violation v) (tr_violations tr)
     @ (case tr_error tr of Some e \<Rightarrow> [''DECODE ERROR: '' @ error_text e] | None \<Rightarrow> [])"

section \<open>The commands\<close>

fun trigger_name :: "payload \<Rightarrow> string" where
  "trigger_name (Trigger _ n _ _ _ _ _) = n"
| "trigger_name _ = []"

definition violations_lines :: "trace \<Rightarrow> string list" where
  "violations_lines tr =
     (''trace violations: '' @ dec_nat (length (tr_violations tr))
        @ (case find (\<lambda>r. is_trigger (pay r)) (tr_records tr) of
             Some r \<Rightarrow> '' (trace window opened by '' @ trigger_name (pay r) @ '')'' | None \<Rightarrow> []))
     # map (\<lambda>v. ''  '' @ fmt_ms (v_t_ns v - t_zero tr) @ '' ms  '' @ fmt_violation v) (tr_violations tr)"

definition stamp_text :: "int option \<Rightarrow> string" where
  "stamp_text st =
     (case st of
        None \<Rightarrow> ''no stamp''
      | Some s \<Rightarrow> ''stamp '' @ dec_int (s div 1000000000) @ ''.'' @ zeros 9 (dec_int (s mod 1000000000)))"

definition take_line :: "int \<Rightarrow> take_rec \<Rightarrow> string" where
  "take_line t0 k =
     ''  '' @ fmt_ms (k_t_ns k - t0) @ '' ms  '' @ k_endpoint k @ '' seq='' @ dec_int (k_seq k) @ '' '' @ stamp_text (k_stamp_ns k)"

definition takes_lines :: "trace \<Rightarrow> string list" where
  "takes_lines tr =
     (''trace takes: '' @ dec_nat (length (tr_takes tr)) @ ''; ''
        @ join '', '' (map (\<lambda>(ep, n, st). ep @ '' '' @ dec_nat n @ '' ('' @ dec_nat st @ '' stamped)'')
            (first_uniq (take_counts (tr_takes tr) (tr_table tr)))))
     # map (take_line (t_zero tr)) (tr_takes tr)"

definition tick_gap_lines :: "int \<Rightarrow> rat \<Rightarrow> int list \<Rightarrow> string list" where
  "tick_gap_lines t0 mean st =
     List.map_filter (\<lambda>(a, b). if ms_of (b - a) \<ge> 3 / 2 * mean
        then Some (''  long gap at '' @ fix_digits 3 (ms_of (a - t0)) @ '' ms: '' @ fix_digits 3 (ms_of (b - a)) @ '' ms'') else None) (pairs st)"

definition ticks_lines :: "trace \<Rightarrow> string list res" where
  "ticks_lines tr =
     (let ticks = timer_ticks (tr_records tr)
      in case tick_stats ticks of
           None \<Rightarrow> Inr [''trace ticks: '' @ dec_nat (length ticks) @ '' of the bound timer (274/275): no spacing to report'']
         | Some s \<Rightarrow>
             if ts_mean s = 0 then Inl ZeroDivisionError
             else Inr
               ([''trace ticks: '' @ dec_nat (ts_n s) @ '' of the bound timer (274/275) over '' @ fix_digits 3 (ts_span_ms s) @ '' ms, from ''
                   @ fix_digits 3 (ms_of (fst (hd ticks) - t_zero tr)) @ '' ms'',
                 ''  start-to-start: '' @ dec_nat (ts_gaps s) @ '' gaps, mean '' @ fix_digits 3 (ts_mean s) @ '' ms, min '' @ fix_digits 3 (ts_min s)
                   @ '', max '' @ fix_digits 3 (ts_max s) @ ''; '' @ fix_digits 0 (1000000 / ts_mean s) @ '' mHz'']
                @ (case (ts_dur_mean s, ts_dur_max s) of
                     (Some m, Some x) \<Rightarrow> [''  callback (start to end): mean '' @ fix_digits 3 m @ '' ms, max '' @ fix_digits 3 x] | _ \<Rightarrow> [])
                @ [''  histogram (1 ms bins, [k, k+1) ms):'']
                @ map (\<lambda>k. ''    '' @ rjust 5 (dec_int k) @ ''  '' @ dec_nat (length (filter (\<lambda>x. x = k) (ts_hist s)))) (sort (remdups (ts_hist s)))
                @ tick_gap_lines (t_zero tr) (ts_mean s) (map fst ticks)))"

text \<open>A record of \<open>--timeline\<close>: a marker (with the violation it begins) or a heartbeat; other records are passed over.\<close>

definition timeline_line :: "trace \<Rightarrow> trec \<Rightarrow> string option" where
  "timeline_line tr r =
     (case pay r of
        Marker _ n arg \<Rightarrow>
          Some (fmt_ms (t_ns r - t_zero tr) @ '' ms  '' @ ljust 56 n @ '' arg='' @ dec_int arg
            @ (if n = ''NROS_VIOLATION'' then
                 (case find (\<lambda>v. v_t_ns v = t_ns r \<and> v_seq v = arg div 256) (tr_violations tr) of
                    Some v \<Rightarrow> ''  '' @ fmt_violation v | None \<Rightarrow> [])
               else []))
      | Heartbeat sq up \<Rightarrow>
          Some (fmt_ms (t_ns r - t_zero tr) @ '' ms  heartbeat seq='' @ dec_int sq @ '' uptime='' @ dec_int up @ '' ms'')
      | _ \<Rightarrow> None)"

definition timeline_lines :: "trace \<Rightarrow> int \<Rightarrow> string list" where
  "timeline_lines tr n =
     (if n = 0 then [] else take (max 1 (nat n)) (List.map_filter (timeline_line tr) (tr_records tr)))"

definition decode_lines :: "string \<Rightarrow> trace \<Rightarrow> int \<Rightarrow> string \<Rightarrow> string list" where
  "decode_lines meta tr n pf =
     summarize meta tr @ timeline_lines tr n
     @ (if pf = [] then [] else [''perfetto: '' @ pf @ '' (open in https://ui.perfetto.dev)''])"

section \<open>The table adds up\<close>

lemma first_uniq_facts: "set (first_uniq xs) = set xs" "distinct (first_uniq xs)"
  by (simp_all add: first_uniq_def)

lemma count_kinds: "sum_list (map (count_kind recs) ks) = length recs" if "distinct ks" "(kind_of \<circ> pay) ` set recs \<subseteq> set ks" for recs ks
  using that
proof (induction recs)
  case (Cons r recs)
  have "sum_list (map (count_kind (r # recs)) ks) = sum_list (map (\<lambda>k. (if kind_of (pay r) = k then 1 else 0) + count_kind recs k) ks)"
    by (rule arg_cong [where f = sum_list], rule map_cong) (auto simp: count_kind_def)
  also have "\<dots> = sum_list (map (\<lambda>k. if kind_of (pay r) = k then 1 else 0) ks) + sum_list (map (count_kind recs) ks)"
    by (induction ks) auto
  also have "sum_list (map (\<lambda>k. if kind_of (pay r) = k then 1 else 0) ks) = (1 :: nat)"
  proof -
    have "sum_list (map (\<lambda>k. if a = k then 1 else 0) ks) = (if a \<in> set ks then 1 else 0 :: nat)" if "distinct ks" for a :: string and ks
      using that by (induction ks) auto
    then show ?thesis using Cons.prems by auto
  qed
  finally show ?case using Cons by auto
qed (simp add: count_kind_def)

text \<open>The summary's table accounts for the whole trace: every kind of record has one row, most bytes first, the rows'
  counts add up to the records and their bytes to the used length of the buffer, the figures on the total line.\<close>

theorem summary_adds_up:
  assumes "load tsdls table data zephyr = Inr tr"
  shows "set (map fst (kind_rows tr)) = (kind_of \<circ> pay) ` set (tr_records tr) \<and> distinct (map fst (kind_rows tr))
    \<and> sum_list (map (fst \<circ> snd) (kind_rows tr)) = length (tr_records tr) \<and> sum_list (map (snd \<circ> snd) (kind_rows tr)) = tr_used tr
    \<and> sorted (rev (map (snd \<circ> snd) (kind_rows tr)))"
proof -
  define ks where "ks = sort_key (\<lambda>k. - int (tr_bytes_by_kind tr k)) (first_uniq (map (kind_of \<circ> pay) (tr_records tr)))"
  have rows: "kind_rows tr = map (\<lambda>k. (k, count_kind (tr_records tr) k, tr_bytes_by_kind tr k)) ks"
    by (simp add: kind_rows_def ks_def)
  have ks: "distinct ks" "set ks = (kind_of \<circ> pay) ` set (tr_records tr)"
    using first_uniq_facts [of "map (kind_of \<circ> pay) (tr_records tr)"] by (simp_all add: ks_def)
  have "sum_list (map (tr_bytes_by_kind tr) ks) = (\<Sum>k \<in> set ks. tr_bytes_by_kind tr k)"
    using ks(1) by (rule sum_list_distinct_conv_sum_set)
  also have "\<dots> = tr_used tr" using bytes_by_kind_total [OF assms] by (simp add: ks(2) kinds_def)
  finally have b: "sum_list (map (tr_bytes_by_kind tr) ks) = tr_used tr" .
  have "sorted (map (\<lambda>k. - int (tr_bytes_by_kind tr k)) ks)" by (simp add: ks_def)
  then have "sorted (rev (map (tr_bytes_by_kind tr) ks))"
    by (simp add: sorted_wrt_rev sorted_wrt_map)
  then show ?thesis
    using count_kinds [OF ks(1), of "tr_records tr"] ks b by (simp add: rows comp_def)
qed

theorem summary_adds_up_witness:
  "\<exists>tr. load (\<lambda>_. demo_tsdl) demo_table [1, 0, 0, 0, 224, 1, 0, 5] (Some ''4.4'') = Inr tr
     \<and> sum_list (map (fst \<circ> snd) (kind_rows tr)) = length (tr_records tr)"
proof -
  have "case load (\<lambda>_. demo_tsdl) demo_table [1, 0, 0, 0, 224, 1, 0, 5] (Some ''4.4'') of Inr _ \<Rightarrow> True | Inl _ \<Rightarrow> False"
    by code_simp
  then obtain tr where tr: "load (\<lambda>_. demo_tsdl) demo_table [1, 0, 0, 0, 224, 1, 0, 5] (Some ''4.4'') = Inr tr"
    by (auto split: sum.splits)
  with summary_adds_up [OF tr] show ?thesis by blast
qed

text \<open>A trace read off the board and wrapped (as \<^verbatim>\<open>tools/board/readout.py\<close> does) has a header like a native_sim dump, so the
  summary calls its time simulated.\<close>

theorem board_trace_called_simulated:
  assumes "wrap raw major minor emitted lastu ms = Inr img" "4 \<le> length (rstrip0 raw)" "0 \<le> minor" "minor < 256"
    and "load tsdls table img None = Inr tr" "tr_records tr \<noteq> []"
  shows "span_line tr = [''span : '' @ dec_nat (length (tr_records tr)) @ '' records over ''
        @ fix_digits 3 (of_int (t_ns (last (tr_records tr)) - t_ns (hd (tr_records tr))) / 1000000000)
        @ '' s (simulated time on native_sim)'']"
proof -
  obtain h where "load_head img None = Inr (Some h, dec_int major @ ''.'' @ dec_int minor, rstrip0 raw)"
    using wrap_loads [OF assms(1-4)] by blast
  then have "tr_header tr \<noteq> None" using assms(5) by (auto simp: load_def Let_def rbind_Inr_iff split: if_splits)
  then show ?thesis using assms(6) by (simp add: span_line_def time_unit_def)
qed

theorem board_trace_called_simulated_witness:
  "\<exists>img tr. wrap (stream (conf_of demo_tsdl demo_table) [(7, WMarker 1 9)]) 4 4 2 100 100 = Inr img
     \<and> load (\<lambda>_. demo_tsdl) demo_table img None = Inr tr \<and> span_line tr = [''span : 1 records over 0.000 s (simulated time on native_sim)'']"
proof -
  let ?d = "stream (conf_of demo_tsdl demo_table) [(7, WMarker 1 9)]"
  have "case wrap ?d 4 4 2 100 100 of Inr img \<Rightarrow> (case load (\<lambda>_. demo_tsdl) demo_table img None of Inr tr \<Rightarrow>
      map t_ns (tr_records tr) = [7] | Inl _ \<Rightarrow> False) | Inl _ \<Rightarrow> False" by code_simp
  then obtain img tr where i: "wrap ?d 4 4 2 100 100 = Inr img" "load (\<lambda>_. demo_tsdl) demo_table img None = Inr tr"
    "map t_ns (tr_records tr) = [7]" by (auto split: sum.splits)
  have r: "4 \<le> length (rstrip0 ?d)" by code_simp
  obtain x where x: "tr_records tr = [x]" using i(3) by auto
  have t: "dec_nat 1 = ''1''" "fix_digits 3 0 = ''0.000''" by code_simp+
  from board_trace_called_simulated [OF i(1) r _ _ i(2)] i x t show ?thesis by auto
qed

end
