(* ===== verification/Readout_Session.thy ===== *)
theory Readout_Session
  imports Board_Session Readout Violation_Session Trace_Text
begin

text \<open>The command \<^verbatim>\<open>tools/board/readout.py\<close> as sessions with the target: the assert record alone, the serial counters alone,
  and the whole halted readout with every text and file it leaves. \<open>--rearm-only\<close> is \<open>rearm\<close> of \<open>Readout\<close>, which runs with the
  firmware beside it.

  Arguments are the symbols, the loadable sections of the ELF, nano-ros's two decoders (the violation slots and the
  program that prints the boot record) and the clock's text of the halt. Making the output's directory is left out.\<close>

section \<open>Inputs\<close>

record elf_section =
  es_addr :: int
  es_size :: int
  es_progbits :: bool
  es_alloc :: bool
  es_data :: bytes

record ro_args =
  ro_elf :: string
  ro_abs_elf :: string
  ro_out :: string
  ro_dir :: string        \<comment> \<open>the directory of \<open>--out\<close>\<close>
  ro_board :: bool
  ro_monitor :: bool
  ro_no_resume :: bool
  ro_dry_run :: bool
  ro_serial_only :: bool
  ro_assert_only :: bool
  ro_serial_pre :: "(string \<times> int) list option"
  ro_zephyr :: "int \<times> int"

record ro_env =
  re_symbols :: "(string \<times> int \<times> int) list"
  re_sections :: "elf_section list"
  re_slots :: "bytes \<Rightarrow> (viol_hdr \<times> (int \<times> viol_slot option) list) res"
  re_rule :: "int \<Rightarrow> string option"
  re_names :: "(int \<Rightarrow> int \<Rightarrow> string option) option"
  re_hashes :: "(string \<times> string) list"
  re_repr :: "py_error \<Rightarrow> string"
  re_bootrec :: "bytes \<Rightarrow> int \<times> string \<times> string"    \<comment> \<open>exit code, standard output, standard error\<close>

abbreviation re_syms :: "ro_env \<Rightarrow> symtab" where
  "re_syms e \<equiv> map_of (re_symbols e)"

section \<open>Texts\<close>

text \<open>\<open>elf_string\<close>: the string in the first loadable section that holds the address.\<close>

definition elf_string_at :: "elf_section list \<Rightarrow> nat \<Rightarrow> int \<Rightarrow> string" where
  "elf_string_at secs limit p =
     (case find (\<lambda>s. es_progbits s \<and> es_addr s \<le> p \<and> p < es_addr s + es_size s \<and> es_alloc s) secs of
        Some s \<Rightarrow> cstr (bslice (es_data s) (nat (p - es_addr s)) (nat (p - es_addr s) + limit))
      | None \<Rightarrow> ''<'' @ hex010 p @ '': not in the ELF>'')"

definition rstrip_text :: "string \<Rightarrow> string" where
  "rstrip_text s = rev (dropWhile is_space (rev s))"

text \<open>\<open>"readout: " + text.rstrip().replace("\n", "\nreadout: ")\<close>.\<close>

definition said :: "string \<Rightarrow> string" where
  "said t = ''readout: '' @ concat (map (\<lambda>c. if c = CHR 0x0A then c # ''readout: '' else [c]) (rstrip_text t))"

text \<open>\<open>str.splitlines\<close> of a text whose lines end in line feeds.\<close>

definition text_lines :: "string \<Rightarrow> string list" where
  "text_lines s = (let ls = split_on (CHR 0x0A) s in if last ls = [] then butlast ls else ls)"

definition bootrec_text :: "int \<times> string \<times> string \<Rightarrow> string" where
  "bootrec_text run =
     (let (rc, stdout, stderr) = run; t = stdout @ text_of (filter (\<lambda>l. \<not> contains ''self-test'' l) (text_lines stderr))
      in if strip t \<noteq> [] then t else text_of [''read-boot-report.py exit '' @ dec_int rc @ '', no output''])"

definition boot_lines :: "string \<Rightarrow> string list" where
  "boot_lines t = map (\<lambda>l. ''readout: '' @ strip l)
     (filter (\<lambda>l. contains ''HEAP HEADROOM'' l \<or> contains ''PEAK'' l \<or> contains ''arena used'' l) (text_lines t))"

definition report_of :: "ro_env \<Rightarrow> bytes \<Rightarrow> (string \<times> int) list \<Rightarrow> string res" where
  "report_of e blob words =
     rbind (re_slots e blob) (\<lambda>(h, slots). Inr (text_of (violation_report h slots (re_rule e) (re_names e) (re_hashes e) words)))"

definition short_name :: "string \<Rightarrow> string" where
  "short_name k = (if starts_with ''island_trace_'' k then drop 13 k else k)"

definition in_dir :: "ro_args \<Rightarrow> string \<Rightarrow> string" where
  "in_dir a f = ro_dir a @ ''/'' @ f"

definition symbol_json :: "ro_env \<Rightarrow> js" where
  "symbol_json e = J_dict (map (\<lambda>(n, p, sz). (n, J_int p)) (re_symbols e))"

section \<open>The probe\<close>

text \<open>A block is read and written to its file.\<close>

definition read_block :: "symtab \<Rightarrow> string \<Rightarrow> string \<Rightarrow> bytes probe_run" where
  "read_block syms n path =
     (let (p, sz) = the (syms n)
      in sbind (get_block p sz) (\<lambda>d. sthen (record_acts [Saved_bytes path d]) (sret d)))"

definition read_words :: "symtab \<Rightarrow> string list \<Rightarrow> (string \<times> int) list probe_run" where
  "read_words syms ns = smap (\<lambda>n. sbind (get_num (O_get32 (fst (the (syms n))))) (\<lambda>v. sret (n, v))) ns"

definition release :: "bool \<Rightarrow> unit probe_run" where
  "release no_resume = (if no_resume then do_op O_close else sthen (do_op O_resume) (do_op O_close))"

section \<open>One record\<close>

definition assert_only :: "ro_args \<Rightarrow> ro_env \<Rightarrow> int probe_run" where
  "assert_only a e =
     (if \<not> in_syms (re_syms e) ASSERT
      then sthen (prints [''readout: '' @ ro_elf a @ '' has no '' @ ASSERT @ '' (CONFIG_ISLAND_ASSERT_RECORD is off)'']) (sret 0)
      else if ro_dry_run a then sthen (prints [''readout: '' @ sym_block (re_syms e) ASSERT]) (sret 0)
      else
        sthen (do_op O_attach)
        (sbind (sfinally (sthen (do_op O_halt) (read_block (re_syms e) ASSERT (ro_out a @ ''.assert.bin''))) (release (ro_no_resume a))) (\<lambda>blob.
         sbind (slift (assert_text (elf_string_at (re_sections e) 256) blob)) (\<lambda>t.
           case t of
             None \<Rightarrow> sthen (prints [''readout: no failing assert recorded'']) (sret 0)
           | Some ls \<Rightarrow> sthen (record_acts [Saved_text (in_dir a ''assert.txt'') (text_of ls), Printed (said (text_of ls))]) (sret 0)))))"

definition serial_line :: "(string \<times> int) list \<Rightarrow> string" where
  "serial_line snap = ''readout: serial at the act's start: '' @ kv_text (serial_errs snap)"

definition serial_only :: "ro_args \<Rightarrow> ro_env \<Rightarrow> int probe_run" where
  "serial_only a e =
     (if \<not> in_syms (re_syms e) SERIAL
      then sthen (prints [''readout: '' @ ro_elf a @ '' has no '' @ SERIAL @ '': no serial snapshot'']) (sret 0)
      else if ro_dry_run a then sthen (prints [''readout: '' @ sym_block (re_syms e) SERIAL @ '' (no halt)'']) (sret 0)
      else
        sthen (do_op O_attach)
        (sbind (sfinally (sbind (read_block (re_syms e) SERIAL (ro_out a @ ''.bin'')) (\<lambda>b. sret (serial_decode b))) (do_op O_close)) (\<lambda>snap.
           sthen (record_acts [Saved_json (ro_out a @ ''.json'') (J_dict (map (\<lambda>(k, v). (k, J_int v)) snap)), Printed (serial_line snap)]) (sret 0))))"

section \<open>The whole readout\<close>

record halted_data =
  hd_vals :: "(string \<times> int) list"
  hd_buffer :: bytes
  hd_violations :: "bytes option"
  hd_extra :: "(string \<times> bytes) list"

definition EXTRA_FILES :: "(string \<times> string) list" where
  "EXTRA_FILES = [(SERIAL, ''serial.bin''), (BOOTREC, ''bootrec.bin''), (ASSERT, ''assert.bin''), (SUPERVISOR, ''supervisor.bin'')]"

definition arm_names :: "symtab \<Rightarrow> string list" where
  "arm_names syms = filter (\<lambda>n. in_syms syms n \<and> n \<notin> set (filter (in_syms syms) WORDS)) ARM_WORDS"

definition halted_reads :: "ro_args \<Rightarrow> symtab \<Rightarrow> halted_data probe_run" where
  "halted_reads a syms =
     sbind (read_words syms (filter (in_syms syms) WORDS)) (\<lambda>ws.
     sbind (read_block syms BUFFER (ro_out a @ ''.raw'')) (\<lambda>data.
     sbind (if in_syms syms VIOLATION_RECORD
            then sbind (read_block syms VIOLATION_RECORD (in_dir a ''violations.bin'')) (\<lambda>v.
                 sbind (read_words syms (arm_names syms)) (\<lambda>as. sret (Some v, as)))
            else sret (None, [])) (\<lambda>(v, as).
     sbind (smap (\<lambda>(n, f). sbind (read_block syms n (in_dir a f)) (\<lambda>b. sret (n, b))) (filter (\<lambda>(n, f). in_syms syms n) EXTRA_FILES)) (\<lambda>extra.
       sret \<lparr>hd_vals = ws @ as, hd_buffer = data, hd_violations = v, hd_extra = extra\<rparr>))))"

text \<open>What follows the halt, each on the bytes just read.\<close>

definition readout_json :: "ro_args \<Rightarrow> ro_env \<Rightarrow> (string \<times> int) list \<Rightarrow> string \<Rightarrow> js" where
  "readout_json a e vals took =
     (let (p, sz) = the (re_syms e BUFFER)
      in J_dict [(''target'', J_str (if ro_board a then ''board'' else ''qemu'')), (''elf'', J_str (ro_abs_elf a)),
           (''buffer_addr'', J_int p), (''buffer_size'', J_int sz), (''symbols'', symbol_json e),
           (''values'', J_dict (map (\<lambda>(k, v). (k, J_int v)) vals @ [(''halted_s'', J_num took)]))])"

definition vals_line :: "(string \<times> int) list \<Rightarrow> string \<Rightarrow> string" where
  "vals_line vals took =
     ''readout: '' @ join '', '' (map (\<lambda>(k, v). short_name k @ ''='' @ dec_int v) vals @ [''halted_s='' @ took])"

definition save_violations :: "ro_args \<Rightarrow> ro_env \<Rightarrow> halted_data \<Rightarrow> unit probe_run" where
  "save_violations a e d =
     (case hd_violations d of
        None \<Rightarrow> record_acts [Saved_text (in_dir a ''violations.txt'') (text_of [''no '' @ VIOLATION_RECORD @ '' in '' @ ro_elf a
                  @ '' (no CONFIG_NROS_BOOT_REPORT on this target): the board's record was not read''])]
      | Some v \<Rightarrow>
          (let words = List.map_filter (\<lambda>n. map_option (Pair n) (dict_of (hd_vals d) n)) ARM_WORDS;
               t = (case report_of e v words of
                      Inr t \<Rightarrow> t
                    | Inl x \<Rightarrow> text_of [''violation record unreadable: '' @ re_repr e x @ '' (raw bytes in violations.bin)''])
           in record_acts [Saved_text (in_dir a ''violations.txt'') t, Printed (said t)]))"

definition save_extra :: "ro_args \<Rightarrow> ro_env \<Rightarrow> halted_data \<Rightarrow> unit probe_run" where
  "save_extra a e d =
     (let x = dict_of (hd_extra d)
      in sthen (case x SERIAL of None \<Rightarrow> sret ()
                | Some b \<Rightarrow> (let t = text_of (serial_text (serial_decode b) (ro_serial_pre a))
                             in record_acts [Saved_text (in_dir a ''serial.txt'') t, Printed (said t)]))
         (sthen (case x BOOTREC of None \<Rightarrow> sret ()
                | Some b \<Rightarrow> (let t = bootrec_text (re_bootrec e b)
                             in record_acts (Saved_text (in_dir a ''bootrec.txt'') t # map Printed (boot_lines t))))
         (sthen (case x ASSERT of None \<Rightarrow> sret ()
                | Some b \<Rightarrow> sbind (slift (assert_text (elf_string_at (re_sections e) 256) b)) (\<lambda>t.
                    case t of None \<Rightarrow> sret ()
                    | Some ls \<Rightarrow> record_acts [Saved_text (in_dir a ''assert.txt'') (text_of ls), Printed (said (text_of ls))]))
         (case x SUPERVISOR of None \<Rightarrow> sret ()
          | Some b \<Rightarrow> sbind (slift (supervisor_report b)) (\<lambda>ls.
              record_acts [Saved_text (in_dir a ''supervisor.txt'') (text_of ls), Printed (said (text_of ls))])))))"

definition wrap_file :: "ro_args \<Rightarrow> halted_data \<Rightarrow> unit probe_run" where
  "wrap_file a d =
     (let hb = get_or0 (hd_vals d) ''island_trace_hb_seq'';
          used = length (rstrip0 (hd_buffer d))
      in sbind (slift (wrap (hd_buffer d) (fst (ro_zephyr a)) (snd (ro_zephyr a)) hb (get_or0 (hd_vals d) ''island_trace_hb_last_uptime_ms'') 100)) (\<lambda>f.
           record_acts [Saved_bytes (ro_out a) f,
             Printed (''island_trace: wrapped '' @ ro_out a @ ''.raw ('' @ dec_nat used @ '' of '' @ dec_nat (length (hd_buffer d))
               @ '' B used, '' @ dec_int hb @ '' heartbeats emitted) -> '' @ ro_out a)]))"

definition after_halt :: "ro_args \<Rightarrow> ro_env \<Rightarrow> halted_data \<Rightarrow> string \<Rightarrow> int probe_run" where
  "after_halt a e d took =
     (if int (length (hd_buffer d)) \<noteq> snd (the (re_syms e BUFFER)) then sfail (SystemExit ''short read'')
      else
        sthen (record_acts [Saved_json (ro_out a @ ''.readout.json'') (readout_json a e (hd_vals d) took), Printed (vals_line (hd_vals d) took)])
        (sthen (save_violations a e d)
        (sthen (save_extra a e d)
        (sthen (wrap_file a d)
        (sthen (if dict_of (hd_vals d) ''island_trace_triggered'' = Some 0
                then prints [''readout: WARNING the trace window never triggered: the buffer holds the provenance only''] else sret ())
        (sret 0))))))"

definition whole_readout :: "ro_args \<Rightarrow> ro_env \<Rightarrow> int probe_run" where
  "whole_readout a e =
     (let syms = re_syms e
      in if \<not> in_syms syms BUFFER then sfail (SystemExit ''no ram_tracing (tracing is not in this image)'')
         else
           sthen (prints ((''readout: '' @ (if ro_board a then ''board'' else ''qemu'') @ '', '' @ ro_elf a)
                          # map (\<lambda>p. ''readout:   '' @ p) (plan syms)))
           (if ro_dry_run a then sthen (prints [''readout: --dry-run, nothing read'']) (sret 0)
            else if \<not> ro_board a \<and> \<not> ro_monitor a then sfail (SystemExit ''--target qemu needs --monitor <socket>'')
            else
              sthen (do_op O_attach) (sthen (do_op O_halt)
              (sbind (sfinally (halted_reads a syms) (release (ro_no_resume a))) (\<lambda>d.
               sbind get_stamp (\<lambda>took. after_halt a e d took))))))"

definition readout_main :: "ro_args \<Rightarrow> ro_env \<Rightarrow> int probe_run" where
  "readout_main a e = (if ro_assert_only a then assert_only a e else if ro_serial_only a then serial_only a e else whole_readout a e)"

text \<open>With the symbols of the image.\<close>

definition readout_names :: "string list" where
  "readout_names = WORDS @ [BUFFER, VIOLATION_RECORD, SERIAL, BOOTREC, ASSERT, SUPERVISOR] @ ARM_WORDS @ [REARM, ''island_button_record'']"

definition readout_symbols :: "elf_symtab \<Rightarrow> (string \<times> int \<times> int) list res" where
  "readout_symbols st = (if st = None then Inl (SystemExit ''no symbol table'') else symbols readout_names st)"

definition readout_run :: "ro_args \<Rightarrow> ro_env \<Rightarrow> elf_symtab \<Rightarrow> int probe_run" where
  "readout_run a e st = sbind (slift (readout_symbols st)) (\<lambda>ss. readout_main a (e\<lparr>re_symbols := ss\<rparr>))"

section \<open>Every halt is undone\<close>

definition reading :: "bop set" where "reading = range O_get32 \<union> range (\<lambda>(p, n). O_block p n)"

lemma reading_ops [simp, intro]: "O_get32 p \<in> reading" "O_block p n \<in> reading" "O_halt \<notin> reading" "O_resume \<notin> reading" "O_put32 p v \<notin> reading"
  by (auto simp: reading_def)

text \<open>After a halt: reads, then a resume, then nothing but the closing of the session.\<close>

definition resumed :: "board_act list \<Rightarrow> bool" where
  "resumed post = (\<exists>us vs. post = us @ Did O_resume # vs \<and> (\<forall>op. Did op \<in> set us \<longrightarrow> op \<in> reading) \<and> (\<forall>op. Did op \<in> set vs \<longrightarrow> op = O_close))"

abbreviation halt_safe :: "'a probe_run \<Rightarrow> bool" where
  "halt_safe \<equiv> after_op O_halt resumed"

lemma release_resumes:
  "\<exists>r vs. release False b h = (r, h @ Did O_resume # vs) \<and> (\<forall>op. Did op \<in> set vs \<longrightarrow> op = O_close)"
  by (auto simp: release_def sbind_def do_op_def split: option.splits)

lemma bracket_resumes:
  assumes "uses reading m" "ends m" "\<And>x. uses {} (f x)"
  shows "\<exists>post. snd (sbind (sfinally m (release False)) f b h) = h @ post \<and> resumed post \<and> Did O_halt \<notin> set post"
proof -
  obtain r h1 where m: "m b h = (r, h1)" by (cases "m b h")
  then obtain us where us: "h1 = h @ us" "\<And>op. Did op \<in> set us \<Longrightarrow> op \<in> reading" using usesE [OF assms(1)] by blast
  have r: "r \<noteq> Going" using m assms(2) by (metis ends_def fst_conv)
  obtain r2 vs where rel: "release False b h1 = (r2, h1 @ Did O_resume # vs)" "\<And>op. Did op \<in> set vs \<Longrightarrow> op = O_close"
    using release_resumes [of b h1] by blast
  obtain r3 where fin: "sfinally m (release False) b h = (r3, h @ us @ Did O_resume # vs)"
    using m rel(1) r us(1) by (cases r; cases r2) (auto simp: sfinally_def)
  obtain ws where ws: "snd (sbind (sfinally m (release False)) f b h) = h @ us @ Did O_resume # vs @ ws" "\<And>op. Did op \<notin> set ws"
  proof (cases r3)
    case (Ret x)
    obtain r4 h4 where f: "f x b (h @ us @ Did O_resume # vs) = (r4, h4)" by (metis surj_pair)
    from usesE [OF assms(3) f] obtain ws where "h4 = (h @ us @ Did O_resume # vs) @ ws" "\<And>op. Did op \<in> set ws \<Longrightarrow> op \<in> {}" by blast
    then show thesis using that [of ws] f fin Ret by (simp add: sbind_def) blast
  qed (use that [of "[]"] fin in \<open>auto simp: sbind_def\<close>)
  then show ?thesis using us(2) rel(2) unfolding resumed_def
    by (intro exI [of _ "us @ Did O_resume # vs @ ws"] conjI exI [of _ us] exI [of _ "vs @ ws"]) (auto dest: us(2))
qed

lemma halt_safe_halt:
  assumes "uses reading m" "ends m" "\<And>x. uses {} (f x)"
  shows "halt_safe (sthen (do_op O_halt) (sbind (sfinally m (release False)) f))"
proof (rule after_op_do)
  fix b h
  from bracket_resumes [OF assms(1,2), of f b "h @ [Did O_halt]"] assms(3)
  show "\<exists>post. snd (sbind (sfinally m (release False)) f b (h @ [Did O_halt])) = (h @ [Did O_halt]) @ post \<and> Did O_halt \<notin> set post
    \<and> (fst (sbind (sfinally m (release False)) f b (h @ [Did O_halt])) \<noteq> Going \<longrightarrow> resumed post)" by blast
qed

lemma halt_safe_halt_inside:
  assumes "uses reading m" "ends m" "\<And>x. uses {} (f x)"
  shows "halt_safe (sbind (sfinally (sthen (do_op O_halt) m) (release False)) f)"
  unfolding after_op_def
proof (intro allI)
  fix b h
  let ?S = "sbind (sfinally (sthen (do_op O_halt) m) (release False)) f"
  show "\<exists>xs. snd (?S b h) = h @ xs \<and> (fst (?S b h) \<noteq> Going
      \<longrightarrow> (\<forall>pre post. xs = pre @ Did O_halt # post \<longrightarrow> bd_raise b (h @ pre) O_halt = None \<longrightarrow> resumed post))"
  proof (cases "bd_raise b h O_halt")
    case None
    then have "?S b h = sbind (sfinally m (release False)) f b (h @ [Did O_halt])" by (simp add: sbind_def sfinally_def do_op_def)
    moreover obtain post where "snd (sbind (sfinally m (release False)) f b (h @ [Did O_halt])) = (h @ [Did O_halt]) @ post"
      "resumed post" "Did O_halt \<notin> set post" using bracket_resumes [OF assms(1,2), of f b "h @ [Did O_halt]"] assms(3) by blast
    ultimately show ?thesis by (intro exI [of _ "Did O_halt # post"]) (auto simp: Cons_eq_append_conv)
  next
    case (Some x)
    obtain r vs where rel: "release False b (h @ [Did O_halt]) = (r, (h @ [Did O_halt]) @ Did O_resume # vs)" "\<And>op. Did op \<in> set vs \<Longrightarrow> op = O_close"
      using release_resumes [of b "h @ [Did O_halt]"] by blast
    have "snd (?S b h) = h @ Did O_halt # Did O_resume # vs"
      using Some rel(1) by (cases r) (simp_all add: sbind_def sfinally_def do_op_def)
    moreover have "Did O_halt \<notin> set vs" using rel(2) by blast
    ultimately show ?thesis using Some
      by (intro exI [of _ "Did O_halt # Did O_resume # vs"]) (auto simp: Cons_eq_append_conv)
  qed
qed


lemma uses_read_block: "uses reading (read_block syms n path)"
  unfolding read_block_def Let_def by (auto intro!: uses_rules)

lemma uses_read_words: "uses reading (read_words syms ns)"
  unfolding read_words_def by (auto intro!: uses_rules)

lemma ends_reads: "ends (read_block syms n path)" "ends (read_words syms ns)"
  unfolding read_block_def read_words_def by (auto simp: Let_def)

lemma uses_halted_reads: "uses reading (halted_reads a syms)"
  unfolding halted_reads_def by (intro uses_rules uses_read_block uses_read_words)

lemma ends_halted_reads: "ends (halted_reads a syms)"
  unfolding halted_reads_def by (intro ends_reads ends_rules)

lemma uses_after_halt: "uses {} (after_halt a e d took)"
  unfolding after_halt_def save_violations_def save_extra_def wrap_file_def
  by (simp only: Let_def) (intro uses_rules; auto)

lemma halt_safe_whole:
  assumes "\<not> ro_no_resume a"
  shows "halt_safe (whole_readout a e)"
proof -
  let ?f = "\<lambda>d. sbind get_stamp (\<lambda>took. after_halt a e d took)"
  have core: "halt_safe (sthen (do_op O_halt) (sbind (sfinally (halted_reads a (re_syms e)) (release (ro_no_resume a))) ?f))"
    using halt_safe_halt [OF uses_halted_reads ends_halted_reads uses_sbind [OF uses_ops(4) uses_after_halt]] assms by simp
  have "halt_safe (sthen (do_op O_attach) (sthen (do_op O_halt) (sbind (sfinally (halted_reads a (re_syms e)) (release (ro_no_resume a))) ?f)))"
    by (rule after_op_sbind [where P = "{O_attach}"]) (use core in auto)
  then show ?thesis unfolding whole_readout_def Let_def
    by (intro after_op_cases after_op_prints after_op_pure)
qed

lemma halt_safe_assert_only:
  assumes "\<not> ro_no_resume a"
  shows "halt_safe (assert_only a e)"
proof -
  let ?r = "read_block (re_syms e) ASSERT (ro_out a @ ''.assert.bin'')"
  let ?f = "\<lambda>blob. sbind (slift (assert_text (elf_string_at (re_sections e) 256) blob)) (\<lambda>t.
           case t of
             None \<Rightarrow> sthen (prints [''readout: no failing assert recorded'']) (sret 0)
           | Some ls \<Rightarrow> sthen (record_acts [Saved_text (in_dir a ''assert.txt'') (text_of ls), Printed (said (text_of ls))]) (sret 0))"
  have "uses {} (?f x)" for x by (intro uses_rules; simp)
  then have "halt_safe (sbind (sfinally (sthen (do_op O_halt) ?r) (release False)) ?f)"
    by (intro halt_safe_halt_inside [OF uses_read_block ends_reads(1)])
  then have "halt_safe (sbind (sfinally (sthen (do_op O_halt) ?r) (release (ro_no_resume a))) ?f)" using assms by simp
  then have "halt_safe (sthen (do_op O_attach) (sbind (sfinally (sthen (do_op O_halt) ?r) (release (ro_no_resume a))) ?f))"
    by (rule after_op_sbind [where P = "{O_attach}", rotated 2]) auto
  then show ?thesis unfolding assert_only_def by (intro after_op_cases after_op_prints after_op_pure)
qed

lemma halt_safe_serial_only: "halt_safe (serial_only a e)"
proof (rule after_op_without)
  show "uses (insert O_attach (insert O_close reading)) (serial_only a e)"
    unfolding serial_only_def
    by (intro uses_rules uses_mono [OF uses_read_block]; auto)
qed auto

lemma halt_safe_readout:
  "\<not> ro_no_resume a \<Longrightarrow> halt_safe (readout_main a e)"
  by (simp add: readout_main_def halt_safe_whole halt_safe_assert_only halt_safe_serial_only)

lemma ends_readout: "ends (readout_main a e)"
  unfolding readout_main_def assert_only_def serial_only_def whole_readout_def after_halt_def save_violations_def save_extra_def wrap_file_def release_def Let_def
  by (intro ends_rules ends_halted_reads ends_reads)

section \<open>Properties\<close>

text \<open>C19. The readout undoes every halt: whatever access raises, after a halt that succeeded the command only reads words and blocks, then resumes the core and at most closes its session, unless it was told to leave the core halted.\<close>

theorem readout_undoes_halt:
  assumes "\<not> ro_no_resume a" "snd (readout_main a e b []) = pre @ Did O_halt # post" "bd_raise b pre O_halt = None"
  shows "\<exists>us vs. post = us @ Did O_resume # vs \<and> (\<forall>op. Did op \<in> set us \<longrightarrow> op \<in> reading) \<and> (\<forall>op. Did op \<in> set vs \<longrightarrow> op = O_close)"
  using after_opD [OF halt_safe_readout [OF assms(1)] assms(2,3)] ends_readout unfolding ends_def resumed_def by blast


text \<open>A target that stands still and answers.\<close>

definition still :: "(int \<Rightarrow> int) \<Rightarrow> (int \<Rightarrow> int \<Rightarrow> bytes) \<Rightarrow> board \<Rightarrow> bool" where
  "still word mem b = ((\<forall>h op. bd_raise b h op = None) \<and> (\<forall>h p. bd_num b h (O_get32 p) = word p) \<and> (\<forall>h p n. bd_block b h p n = mem p n))"

definition gives :: "board \<Rightarrow> 'a probe_run \<Rightarrow> 'a \<Rightarrow> bool" where
  "gives b m x = (\<forall>h. \<exists>xs. m b h = (Ret x, h @ xs))"

lemma gives_ops:
  "gives b (sret x) x" "gives b (record_acts xs) ()"
  "still w mem b \<Longrightarrow> gives b (do_op op) ()" "still w mem b \<Longrightarrow> gives b (get_num (O_get32 p)) (w p)" "still w mem b \<Longrightarrow> gives b (get_block p n) (mem p n)"
  by (auto simp: gives_def still_def session_defs)

lemma gives_sbind:
  assumes "gives b m x" "gives b (f x) y"
  shows "gives b (sbind m f) y"
  unfolding gives_def
proof
  fix h
  obtain xs where "m b h = (Ret x, h @ xs)" using assms(1) unfolding gives_def by blast
  moreover obtain ys where "f x b (h @ xs) = (Ret y, (h @ xs) @ ys)" using assms(2) unfolding gives_def by blast
  ultimately show "\<exists>xs. sbind m f b h = (Ret y, h @ xs)" by (simp add: sbind_def)
qed

lemma gives_sfinally:
  assumes "gives b m x" "gives b f ()"
  shows "gives b (sfinally m f) x"
  unfolding gives_def
proof
  fix h
  obtain xs where "m b h = (Ret x, h @ xs)" using assms(1) unfolding gives_def by blast
  moreover obtain ys where "f b (h @ xs) = (Ret (), (h @ xs) @ ys)" using assms(2) unfolding gives_def by blast
  ultimately show "\<exists>xs. sfinally m f b h = (Ret x, h @ xs)" by (simp add: sfinally_def)
qed

lemma gives_smap: "(\<And>x. gives b (f x) (g x)) \<Longrightarrow> gives b (smap f xs) (map g xs)"
  by (induction xs) (auto intro!: gives_sbind gives_ops)

lemma gives_read_block: "still w mem b \<Longrightarrow> gives b (read_block syms n path) (case_prod mem (the (syms n)))"
  unfolding read_block_def Let_def by (cases "the (syms n)") (auto intro!: gives_sbind gives_ops)

lemma gives_read_words: "still w mem b \<Longrightarrow> gives b (read_words syms ns) (map (\<lambda>n. (n, w (fst (the (syms n))))) ns)"
  unfolding read_words_def by (rule gives_smap) (auto intro!: gives_sbind gives_ops)

lemma arm_names_words: "filter (in_syms syms) WORDS @ (if in_syms syms VIOLATION_RECORD then arm_names syms else []) = word_names syms"
  by (auto simp: word_names_def arm_names_def intro!: filter_cong)

lemma gives_halted_reads:
  assumes "still w mem b"
  shows "\<exists>d. gives b (halted_reads a syms) d \<and> hd_vals d = map (\<lambda>n. (n, w (fst (the (syms n))))) (word_names syms)
    \<and> hd_buffer d = case_prod mem (the (syms BUFFER))"
proof -
  let ?vs = "\<lambda>ns. map (\<lambda>n. (n, w (fst (the (syms n))))) ns" and ?mem = "\<lambda>n. case_prod mem (the (syms n))"
  let ?v = "if in_syms syms VIOLATION_RECORD then (Some (?mem VIOLATION_RECORD), ?vs (arm_names syms)) else (None, [])"
  let ?x = "map (\<lambda>(n, f). (n, ?mem n)) (filter (\<lambda>(n, f). in_syms syms n) EXTRA_FILES)"
  let ?d = "\<lparr>hd_vals = ?vs (filter (in_syms syms) WORDS) @ snd ?v, hd_buffer = ?mem BUFFER, hd_violations = fst ?v, hd_extra = ?x\<rparr>"
  note g = gives_read_words [OF assms] gives_read_block [OF assms]
  have v: "gives b (if in_syms syms VIOLATION_RECORD
            then sbind (read_block syms VIOLATION_RECORD (in_dir a ''violations.bin'')) (\<lambda>v.
                 sbind (read_words syms (arm_names syms)) (\<lambda>as. sret (Some v, as)))
            else sret (None, [])) ?v"
    by (cases "in_syms syms VIOLATION_RECORD") (auto intro!: gives_sbind [OF g(2)] gives_sbind [OF g(1)] gives_ops)
  have x: "gives b (smap (\<lambda>(n, f). sbind (read_block syms n (in_dir a f)) (\<lambda>b. sret (n, b))) (filter (\<lambda>(n, f). in_syms syms n) EXTRA_FILES)) ?x"
    by (rule gives_smap) (auto intro!: gives_sbind [OF g(2)] gives_ops)
  have "gives b (halted_reads a syms) ?d"
    unfolding halted_reads_def
    by (rule gives_sbind [OF g(1)], rule gives_sbind [OF g(2)], rule gives_sbind [OF v], unfold case_prod_beta, rule gives_sbind [OF x [unfolded case_prod_beta]])
      (rule gives_ops)
  moreover have "hd_vals ?d = ?vs (word_names syms)" unfolding arm_names_words [symmetric] by simp
  ultimately show ?thesis by (intro exI [of _ ?d]) simp
qed

lemma sthen_Ret: "sthen m n b h = (Ret y, h2) \<Longrightarrow> \<exists>h1. n b h1 = (Ret y, h2)"
  by (auto elim: sbind_Ret)

lemma after_halt_saves:
  assumes "after_halt a e d took b h = (Ret rc, h2)"
  shows "rc = 0 \<and> int (length (hd_buffer d)) = snd (the (re_syms e BUFFER))
    \<and> (\<exists>f. wrap (hd_buffer d) (fst (ro_zephyr a)) (snd (ro_zephyr a)) (get_or0 (hd_vals d) ''island_trace_hb_seq'')
          (get_or0 (hd_vals d) ''island_trace_hb_last_uptime_ms'') 100 = Inr f \<and> Saved_bytes (ro_out a) f \<in> set h2)"
proof -
  have len: "int (length (hd_buffer d)) = snd (the (re_syms e BUFFER))"
    using assms by (auto simp: after_halt_def sfail_def split: if_splits)
  note run = assms [unfolded after_halt_def, simplified len, simplified]
  from run obtain h3 x4 h4 h5 x5 where w: "wrap_file a d b h3 = (Ret x4, h4)"
    and l: "(if dict_of (hd_vals d) ''island_trace_triggered'' = Some 0
                then prints [''readout: WARNING the trace window never triggered: the buffer holds the provenance only''] else sret ()) b h4 = (Ret x5, h5)"
    and s: "sret 0 b h5 = (Ret rc, h2)"
    by (elim sbind_Ret) (rule that)
  have "set h4 \<subseteq> set h5" using l by (auto simp: record_acts_def sret_def split: if_split_asm)
  moreover have "rc = 0" "h5 = h2" using s by (simp_all add: sret_def)
  moreover obtain f where "wrap (hd_buffer d) (fst (ro_zephyr a)) (snd (ro_zephyr a)) (get_or0 (hd_vals d) ''island_trace_hb_seq'')
          (get_or0 (hd_vals d) ''island_trace_hb_last_uptime_ms'') 100 = Inr f" "Saved_bytes (ro_out a) f \<in> set h4"
    using w by (auto simp: wrap_file_def Let_def sbind_def slift_def record_acts_def split: sum.splits)
  ultimately show ?thesis using len by blast
qed


text \<open>C18. A readout that ends well has saved the trace: from a target that stands still, a run without dry run that exits with 0 leaves under its output name a file that loads with the buffer's used bytes, the heartbeat counter and uptime the halted core held, and the buffer's size of the symbol table.\<close>

theorem readout_saves_trace:
  assumes ok: "still word mem b" "fst (readout_main a e b []) = Ret rc" "\<not> ro_assert_only a" "\<not> ro_serial_only a" "\<not> ro_dry_run a"
    and sy: "re_syms e ''island_trace_hb_seq'' = Some (p, n)" "re_syms e ''island_trace_hb_last_uptime_ms'' = Some (q, k)" "re_syms e BUFFER = Some (u, sz)"
    and sz: "ro_zephyr a = (major, minor)" "0 \<le> minor" "minor < 256" "4 \<le> length (rstrip0 (mem u sz))"
  shows "rc = 0 \<and> (\<exists>f h. Saved_bytes (ro_out a) f \<in> set (snd (readout_main a e b []))
    \<and> load_head f None = Inr (Some h, dec_int major @ ''.'' @ dec_int minor, rstrip0 (mem u sz))
    \<and> heartbeats_emitted h = word p \<and> last_heartbeat_uptime_ms h = word q \<and> buffer_size h = sz)"
proof -
  let ?w = "\<lambda>n. word (fst (the (re_syms e n)))"
  obtain h2 where run: "whole_readout a e b [] = (Ret rc, h2)" "snd (readout_main a e b []) = h2"
    using ok(2-4) by (cases "whole_readout a e b []") (simp add: readout_main_def)
  obtain d where g: "gives b (halted_reads a (re_syms e)) d" and vals: "hd_vals d = map (\<lambda>n. (n, ?w n)) (word_names (re_syms e))"
    and "hd_buffer d = case_prod mem (the (re_syms e BUFFER))" using gives_halted_reads [OF ok(1), of a "re_syms e"] by blast
  then have data: "hd_buffer d = mem u sz" using sy(3) by simp
  have "gives b (release (ro_no_resume a)) ()" unfolding release_def
    by (simp add: gives_ops(3) [OF ok(1)] gives_sbind [OF gives_ops(3) [OF ok(1)] gives_ops(3) [OF ok(1)]])
  from gives_sfinally [OF g this] have fin: "gives b (sfinally (halted_reads a (re_syms e)) (release (ro_no_resume a))) d" .
  have live: "ro_board a \<or> ro_monitor a"
    using run(1) ok(5) sy(3) by (rule_tac ccontr) (simp add: whole_readout_def in_syms_def sbind_def record_acts_def sfail_def)
  then have cond: "(re_syms e BUFFER = None) = False" "ro_dry_run a = False" "(\<not> ro_board a \<and> \<not> ro_monitor a) = False" using ok(5) sy(3) by auto
  have "\<exists>h. sbind (sfinally (halted_reads a (re_syms e)) (release (ro_no_resume a))) (\<lambda>d. sbind get_stamp (\<lambda>took. after_halt a e d took)) b h = (Ret rc, h2)"
    using run(1) [unfolded whole_readout_def Let_def in_syms_def cond if_False if_True not_False_eq_True not_True_eq_False]
    by (blast dest: sthen_Ret)
  then obtain h x h1 took h3 where x: "sfinally (halted_reads a (re_syms e)) (release (ro_no_resume a)) b h = (Ret x, h1)"
    and "after_halt a e x took b h3 = (Ret rc, h2)" by (elim exE sbind_Ret) (rule that)
  moreover obtain xs where "sfinally (halted_reads a (re_syms e)) (release (ro_no_resume a)) b h = (Ret d, h @ xs)"
    using fin unfolding gives_def by blast
  ultimately have "after_halt a e d took b h3 = (Ret rc, h2)" by simp
  note s = after_halt_saves [OF this]
  have names: "''island_trace_hb_seq'' \<in> set (word_names (re_syms e))" "''island_trace_hb_last_uptime_ms'' \<in> set (word_names (re_syms e))"
    using sy by (auto simp: word_names_def in_syms_def WORDS_def)
  then have v: "get_or0 (hd_vals d) ''island_trace_hb_seq'' = word p" "get_or0 (hd_vals d) ''island_trace_hb_last_uptime_ms'' = word q"
    using sy by (simp_all add: get_or0_def vals dict_of_words)
  obtain f where f: "wrap (mem u sz) major minor (word p) (word q) 100 = Inr f" "Saved_bytes (ro_out a) f \<in> set h2" "int (length (mem u sz)) = sz"
    using s v sz(1) sy(3) data by auto
  show ?thesis using wrap_loads [OF f(1) sz(4,2,3)] s f(2,3) run(2) by metis
qed


section \<open>Witnesses\<close>

definition demo_ro :: ro_args where
  "demo_ro = \<lparr>ro_elf = ''zephyr.elf'', ro_abs_elf = ''/w/zephyr.elf'', ro_out = ''/w/run/trace'', ro_dir = ''/w/run'', ro_board = True, ro_monitor = False,
     ro_no_resume = False, ro_dry_run = False, ro_serial_only = False, ro_assert_only = False, ro_serial_pre = None, ro_zephyr = (4, 4)\<rparr>"

definition demo_ro_env :: ro_env where
  "demo_ro_env = \<lparr>re_symbols = [(''ram_tracing'', 0x20400000, 6), (''island_trace_hb_seq'', 0x20410000, 4),
        (''island_trace_hb_last_uptime_ms'', 0x20410004, 4)],
     re_sections = [], re_slots = (\<lambda>_. Inl IndexError), re_rule = (\<lambda>_. None), re_names = None, re_hashes = [], re_repr = (\<lambda>_. []), re_bootrec = (\<lambda>_. (0, [], []))\<rparr>"

definition demo_still :: board where
  "demo_still = \<lparr>bd_raise = (\<lambda>h op. None), bd_num = (\<lambda>h op. if op = O_get32 0x20410000 then 41 else 4100),
     bd_block = (\<lambda>h p n. if p = 0x20400000 then [1, 0, 2, 3, 4, 0] else replicate (nat n) 0), bd_stamp = (\<lambda>h. ''0.012'')\<rparr>"

definition demo_broken :: board where   \<comment> \<open>the probe fails at the buffer\<close>
  "demo_broken = demo_still\<lparr>bd_raise := (\<lambda>h op. if op = O_block 0x20400000 6 then Some ValueError else None)\<rparr>"

definition demo_said :: "board_act list" where
  "demo_said = map Printed [''readout: board, zephyr.elf'', ''readout:   read ram_tracing @ 0x20400000, 6 B'',
     ''readout:   read32 island_trace_hb_seq @ 0x20410000'', ''readout:   read32 island_trace_hb_last_uptime_ms @ 0x20410004''] @ [Did O_attach]"

theorem readout_undoes_halt_witness:
  "\<exists>post us vs. snd (readout_main demo_ro demo_ro_env demo_broken []) = demo_said @ Did O_halt # post \<and> length post = 5
    \<and> post = us @ Did O_resume # vs \<and> {op. Did op \<in> set us} \<subseteq> reading \<and> {op. Did op \<in> set vs} \<subseteq> {O_close}"
proof -
  let ?post = "[Did (O_get32 0x20410000), Did (O_get32 0x20410004), Did (O_block 0x20400000 6), Did O_resume, Did O_close]"
  have r: "snd (readout_main demo_ro demo_ro_env demo_broken []) = demo_said @ Did O_halt # ?post" by code_simp
  have "\<not> ro_no_resume demo_ro" "bd_raise demo_broken demo_said O_halt = None" by (simp_all add: demo_ro_def demo_broken_def demo_still_def)
  from readout_undoes_halt [OF this(1) r this(2)] obtain us vs where "?post = us @ Did O_resume # vs"
    "\<forall>op. Did op \<in> set us \<longrightarrow> op \<in> reading" "\<forall>op. Did op \<in> set vs \<longrightarrow> op = O_close" by blast
  moreover have "length ?post = 5" by simp
  ultimately show ?thesis using r by blast
qed

lemma demo_wrap: "\<exists>f. wrap [1, 0, 2, 3, 4, 0] 4 4 41 4100 100 = Inr f"
proof -
  have "case wrap [1, 0, 2, 3, 4, 0] 4 4 41 4100 100 of Inr f \<Rightarrow> True | Inl _ \<Rightarrow> False" by code_simp
  then show ?thesis by (auto split: sum.splits)
qed

definition demo_data :: halted_data where
  "demo_data = \<lparr>hd_vals = [(''island_trace_hb_seq'', 41), (''island_trace_hb_last_uptime_ms'', 4100)], hd_buffer = [1, 0, 2, 3, 4, 0],
     hd_violations = None, hd_extra = []\<rparr>"

lemma demo_names:
  "filter (in_syms (re_syms demo_ro_env)) WORDS = [''island_trace_hb_seq'', ''island_trace_hb_last_uptime_ms'']"
  "filter (\<lambda>(n, f). in_syms (re_syms demo_ro_env) n) EXTRA_FILES = []"
  "in_syms (re_syms demo_ro_env) VIOLATION_RECORD = False"
  "map (\<lambda>n. the (re_syms demo_ro_env n)) [''island_trace_hb_seq'', ''island_trace_hb_last_uptime_ms'', BUFFER] = [(0x20410000, 4), (0x20410004, 4), (0x20400000, 6)]"
  "in_syms (re_syms demo_ro_env) BUFFER = True"
  by (code_simp)+

lemma demo_reads: "gives demo_still (halted_reads demo_ro (re_syms demo_ro_env)) demo_data"
  using demo_names(4)
  by (simp add: gives_def halted_reads_def read_words_def read_block_def demo_names session_defs sbind_def demo_data_def demo_still_def)

lemma demo_after: "gives demo_still (after_halt demo_ro demo_ro_env demo_data took) 0"
proof -
  obtain f where f: "wrap [1, 0, 2, 3, 4, 0] 4 4 41 4100 100 = Inr f" using demo_wrap by blast
  have sz: "snd (the (re_syms demo_ro_env BUFFER)) = 6" using demo_names(4) by simp
  have "gives demo_still (save_violations demo_ro demo_ro_env demo_data) ()" "gives demo_still (save_extra demo_ro demo_ro_env demo_data) ()"
    by (simp_all add: save_violations_def save_extra_def demo_data_def gives_def session_defs sbind_def dict_of_def)
  moreover have "gives demo_still (wrap_file demo_ro demo_data) ()"
    by (simp add: wrap_file_def demo_data_def demo_ro_def gives_def session_defs sbind_def get_or0_def dict_of_def f)
  moreover have "dict_of (hd_vals demo_data) ''island_trace_triggered'' \<noteq> Some 0" by (simp add: demo_data_def dict_of_def)
  moreover have "int (length (hd_buffer demo_data)) = 6" by (simp add: demo_data_def)
  ultimately show ?thesis unfolding after_halt_def sz by (simp add: gives_sbind gives_ops)
qed

lemma demo_whole: "fst (readout_main demo_ro demo_ro_env demo_still []) = Ret 0"
proof -
  have st: "still (\<lambda>p. if p = 0x20410000 then 41 else 4100) (\<lambda>p n. if p = 0x20400000 then [1, 0, 2, 3, 4, 0] else replicate (nat n) 0) demo_still"
    by (simp add: still_def demo_still_def)
  have "gives demo_still (release False) ()" unfolding release_def by (simp add: gives_ops(3) [OF st] gives_sbind [OF gives_ops(3) [OF st] gives_ops(3) [OF st]])
  note fin = gives_sfinally [OF demo_reads this]
  have "gives demo_still (sbind get_stamp (\<lambda>took. after_halt demo_ro demo_ro_env demo_data took)) 0"
    using demo_after by (simp add: gives_def get_stamp_def sbind_def)
  then have "gives demo_still (sbind (sfinally (halted_reads demo_ro (re_syms demo_ro_env)) (release False))
      (\<lambda>d. sbind get_stamp (\<lambda>took. after_halt demo_ro demo_ro_env d took))) 0" by (rule gives_sbind [OF fin])
  then have core: "gives demo_still (sthen (record_acts xs) (sthen (do_op O_attach) (sthen (do_op O_halt)
      (sbind (sfinally (halted_reads demo_ro (re_syms demo_ro_env)) (release False)) (\<lambda>d. sbind get_stamp (\<lambda>took. after_halt demo_ro demo_ro_env d took)))))) 0"
    for xs by (intro gives_sbind [OF gives_ops(2)] gives_sbind [OF gives_ops(3) [OF st]])
  have "readout_main demo_ro demo_ro_env = whole_readout demo_ro demo_ro_env" "\<not> ro_dry_run demo_ro" "ro_board demo_ro" "\<not> ro_no_resume demo_ro"
    by (simp_all add: demo_ro_def readout_main_def)
  then have "gives demo_still (readout_main demo_ro demo_ro_env) 0"
    using core by (simp add: whole_readout_def Let_def demo_names(5))
  then show ?thesis unfolding gives_def by (metis fst_conv)
qed

theorem readout_saves_trace_witness:
  "\<exists>f h. Saved_bytes ''/w/run/trace'' f \<in> set (snd (readout_main demo_ro demo_ro_env demo_still []))
    \<and> load_head f None = Inr (Some h, dec_int 4 @ ''.'' @ dec_int 4, [1, 0, 2, 3, 4]) \<and> heartbeats_emitted h = 41 \<and> last_heartbeat_uptime_ms h = 4100"
proof -
  have st: "still (\<lambda>p. if p = 0x20410000 then 41 else 4100) (\<lambda>p n. if p = 0x20400000 then [1, 0, 2, 3, 4, 0] else replicate (nat n) 0) demo_still"
    by (simp add: still_def demo_still_def)
  have z: "rstrip0 [1, 0, 2, 3, 4, 0] = [1, 0, 2, 3, 4]" by (simp add: rstrip0_def)
  from readout_saves_trace [OF st demo_whole, where p = "0x20410000" and n = 4 and q = "0x20410004" and k = 4 and u = "0x20400000" and sz = 6 and major = 4 and minor = 4] z show ?thesis
    by (auto simp: demo_ro_def demo_ro_env_def BUFFER_def)
qed

end
