(* ===== verification/Contract.thy ===== *)
theory Contract
  imports Yaml
begin

text \<open>The declared side of the timeline, \<^verbatim>\<open>tools/board/tlcommon.py\<close>: durations, speeds and \<open>$(let name)\<close>
  references of the contract, the bounds looked up in it (\<open>path_latency_ms\<close>, \<open>sub_max_age_ms\<close>,
  \<open>sub_transport_ms\<close>, \<open>supervision_ms\<close>), the freshness of the model (\<open>load_model\<close>, \<open>contract_path\<close>), what the
  probe and the timeline take from it (\<open>declared\<close>) and a predicate's truth (\<open>evaluate\<close>).

  The YAML parser and the hash of a file's content are parameters: a document comes in parsed, and
  \<open>load_model\<close> is given the hash each input has now. \<open>str_of\<close> is Python's \<open>str\<close> on a parsed value.\<close>

section \<open>Durations and speeds\<close>

definition UNITS :: "(string \<times> rat) list" where
  "UNITS = [(''ns'', 1 / 1000000), (''us'', 1 / 1000), (''ms'', 1), (''s'', 1000)]"

definition is_num_char :: "char \<Rightarrow> bool" where
  "is_num_char c = (is_digit c \<or> c = CHR ''.'')"

text \<open>The match of \<open>^\s*([0-9.]+)\s*(ns|us|ms|s)\s*$\<close>, and the number in ms.\<close>

definition duration_text :: "string \<Rightarrow> rat option res" where
  "duration_text s =
     (let t = dropWhile is_space s; num = takeWhile is_num_char t; rest = strip (dropWhile is_num_char t)
      in if num = [] then Inl ValueError
         else (case map_of UNITS rest of
                 None \<Rightarrow> Inl ValueError
               | Some k \<Rightarrow> (case py_float num of None \<Rightarrow> Inl ValueError | Some q \<Rightarrow> Inr (Some (q * k)))))"

definition duration_ms :: "yaml \<Rightarrow> rat option res" where
  "duration_ms v =
     (let w = (case v of YDict kvs \<Rightarrow> dget kvs ''duration'' | _ \<Rightarrow> v)
      in case w of
           YNone \<Rightarrow> Inr None
         | YNum q \<Rightarrow> Inr (Some (q * 1000))
         | YBool b \<Rightarrow> Inr (Some ((if b then 1 else 0) * 1000))
         | YStr s \<Rightarrow> duration_text s
         | _ \<Rightarrow> Inl ValueError)"

definition speed_mps :: "yaml \<Rightarrow> rat res" where
  "speed_mps v =
     (case v of
        YStr s \<Rightarrow>
          (let t = strip s; u = (if ends_with ''m/s'' t then strip (take (length t - 3) t) else t)
           in case py_float u of None \<Rightarrow> Inl ValueError | Some q \<Rightarrow> Inr q)
      | _ \<Rightarrow> (case yaml_num v of Some q \<Rightarrow> Inr q | None \<Rightarrow> Inl TypeError))"

section \<open>References into the contract's \<open>let:\<close>\<close>

definition ident_start :: "char \<Rightarrow> bool" where
  "ident_start c = (let n = of_char c :: nat in 65 \<le> n \<and> n \<le> 90 \<or> 97 \<le> n \<and> n \<le> 122 \<or> n = 95)"

definition ident_char :: "char \<Rightarrow> bool" where
  "ident_char c = (ident_start c \<or> is_digit c)"

text \<open>A match of \<open>LET_RE\<close> at the start of a text: the name, and what follows.\<close>

definition let_at :: "string \<Rightarrow> (string \<times> string) option" where
  "let_at s =
     (if starts_with ''$(let'' s then
        (let r = drop 5 s; r1 = dropWhile is_space r
         in if length r1 = length r \<or> r1 = [] \<or> \<not> ident_start (hd r1) then None
            else (case dropWhile is_space (dropWhile ident_char r1) of
                    c # r3 \<Rightarrow> if c = CHR '')'' then Some (takeWhile ident_char r1, r3) else None
                  | [] \<Rightarrow> None))
      else None)"

lemma let_at_shorter: "let_at s = Some (n, r) \<Longrightarrow> length r < length s"
proof -
  assume a: "let_at s = Some (n, r)"
  define r1 where "r1 = dropWhile is_space (drop 5 s)"
  from a have "dropWhile is_space (dropWhile ident_char r1) = CHR '')'' # r"
    by (auto simp: let_at_def Let_def r1_def split: if_splits list.splits)
  then have "Suc (length r) \<le> length r1"
    by (metis length_Cons length_dropWhile_le order_trans)
  also have "length r1 \<le> length s" unfolding r1_def by (metis length_drop length_dropWhile_le diff_le_self order_trans)
  finally show ?thesis by simp
qed

text \<open>\<open>LET_RE.sub(one, v)\<close>.\<close>

function let_sub :: "(string \<Rightarrow> string res) \<Rightarrow> string \<Rightarrow> string res" where
  "let_sub one [] = Inr []"
| "let_sub one (c # cs) =
     (case let_at (c # cs) of
        Some (n, rest) \<Rightarrow> rbind (one n) (\<lambda>x. rbind (let_sub one rest) (\<lambda>r. Inr (x @ r)))
      | None \<Rightarrow> rbind (let_sub one cs) (\<lambda>r. Inr (c # r)))"
  by pat_completeness auto

termination let_sub
  by (relation "measure (length \<circ> snd)") (auto dest: let_at_shorter)

definition contains :: "string \<Rightarrow> string \<Rightarrow> bool" where
  "contains p s = list_ex (\<lambda>i. starts_with p (drop i s)) [0..<length s + 1]"

definition let_value :: "(yaml \<Rightarrow> string) \<Rightarrow> yaml \<Rightarrow> (string \<times> yaml) list \<Rightarrow> yaml res" where
  "let_value str_of v lets =
     (case v of
        YStr s \<Rightarrow>
          if \<not> contains ''$(let'' s then Inr v
          else (let missing = SystemExit ''the contract names a let entry its root has not''
                in case let_at (strip s) of
                     Some (n, []) \<Rightarrow> (case dict_of lets n of Some w \<Rightarrow> Inr w | None \<Rightarrow> Inl missing)
                   | _ \<Rightarrow> rbind (let_sub (\<lambda>n. case dict_of lets n of Some w \<Rightarrow> Inr (str_of w) | None \<Rightarrow> Inl missing) s)
                            (\<lambda>t. Inr (YStr t)))
      | _ \<Rightarrow> Inr v)"

section \<open>Bounds of the contract\<close>

definition path_latency_ms :: "yaml \<Rightarrow> string \<Rightarrow> string \<Rightarrow> rat option res" where
  "path_latency_ms c node path =
     rbind (yor c ''nodes'') (\<lambda>ns. rbind (yor ns node) (\<lambda>n. rbind (yor n ''paths'') (\<lambda>ps.
     rbind (yget_or ps path (YDict [])) (\<lambda>p. rbind (yget p ''max_latency'') duration_ms))))"

definition sub_ms :: "string \<Rightarrow> yaml \<Rightarrow> string \<Rightarrow> string \<Rightarrow> rat option res" where
  "sub_ms key c node sub =
     rbind (yor c ''nodes'') (\<lambda>ns. rbind (yor ns node) (\<lambda>n. rbind (yor n ''sub'') (\<lambda>ss.
     rbind (yget_or ss sub (YDict [])) (\<lambda>v.
       duration_ms (case v of YDict kvs \<Rightarrow> dget kvs key | _ \<Rightarrow> YNone)))))"

definition sub_max_age_ms :: "yaml \<Rightarrow> string \<Rightarrow> string \<Rightarrow> rat option res" where
  "sub_max_age_ms = sub_ms ''max_age''"

definition sub_transport_ms :: "yaml \<Rightarrow> string \<Rightarrow> string \<Rightarrow> rat option res" where
  "sub_transport_ms = sub_ms ''max_transport''"

definition SUPERVISION_DEFAULT :: "rat \<times> rat" where
  "SUPERVISION_DEFAULT = (1, 1)"

text \<open>\<open>None\<close> is a contract that cannot be opened.\<close>

definition supervision_ms :: "yaml option \<Rightarrow> (rat \<times> rat \<times> string) res" where
  "supervision_ms doc =
     (let c = (case doc of Some d \<Rightarrow> if yaml_falsy d then YDict [] else d | None \<Rightarrow> YDict [])
      in rbind (yor c ''supervision'') (\<lambda>sv.
         rbind (rbind (yget sv ''tick'') duration_ms) (\<lambda>tick.
         rbind (rbind (yget sv ''switch'') duration_ms) (\<lambda>switch.
           Inr (case (tick, switch) of
                  (Some t, Some w) \<Rightarrow> (t, w, ''the contract's supervision:'')
                | _ \<Rightarrow> (fst SUPERVISION_DEFAULT, snd SUPERVISION_DEFAULT, ''tlcommon.SUPERVISION_DEFAULT''))))))"

section \<open>The model's inputs\<close>

text \<open>An input: its path, the hash the model recorded, and the hash it has now (\<open>None\<close>: no such file).\<close>

record model_input =
  mi_path :: string
  mi_sha :: string
  mi_now :: "string option"

definition stale_inputs :: "model_input list \<Rightarrow> string list" where
  "stale_inputs inps = map mi_path (filter (\<lambda>i. mi_now i \<noteq> None \<and> mi_now i \<noteq> Some (mi_sha i)) inps)"

definition load_model :: "model_input list \<Rightarrow> unit res" where
  "load_model inps =
     (if stale_inputs inps \<noteq> [] then Inl (SystemExit (''the model is STALE against '' @ join '', '' (stale_inputs inps))) else Inr ())"

definition contract_path :: "model_input list \<Rightarrow> string res" where
  "contract_path inps =
     (case find (\<lambda>i. ends_with ''.contract.yaml'' (mi_path i)) inps of
        Some i \<Rightarrow> Inr (mi_path i)
      | None \<Rightarrow> Inl (SystemExit ''the model records no contract input''))"

section \<open>Predicates and what is declared\<close>

definition PRED_OPS :: "string list" where
  "PRED_OPS = [''equals'', ''not_equals'', ''lt'', ''le'', ''gt'', ''ge'']"

record pred =
  p_field :: yaml
  p_op :: string
  p_value :: yaml

definition make_pred :: "yaml \<Rightarrow> pred res" where   \<comment> \<open>\<open>_pred\<close>\<close>
  "make_pred w =
     (case w of
        YDict kvs \<Rightarrow>
          rbind (key_of kvs ''field'') (\<lambda>f.
            (case filter (\<lambda>k. dict_of kvs k \<noteq> None) PRED_OPS of
               [] \<Rightarrow> Inl IndexError
             | k # _ \<Rightarrow> Inr \<lparr>p_field = f, p_op = k, p_value = dget kvs k\<rparr>))
      | _ \<Rightarrow> Inl TypeError)"

record named_pred =
  np_name :: string
  np_hazard :: bool   \<comment> \<open>kind: hazard, else function\<close>
  np_topic :: yaml
  np_pred :: pred

record hazard =
  hz_on :: yaml
  hz_ftti_ms :: "rat option"
  hz_severity :: yaml
  hz_guards :: yaml

record dwell =
  w_duration_ms :: "rat option"
  w_param :: yaml

record declarations =
  d_predicates :: "named_pred list"
  d_windows :: "(string \<times> dwell) list"
  d_exits :: "(string \<times> (string \<times> yaml) list) list"
  d_entry_speed :: "(string \<times> rat) list"
  d_hazards :: "(string \<times> hazard) list"

definition preds_over :: "string \<Rightarrow> bool \<Rightarrow> yaml \<Rightarrow> yaml \<Rightarrow> named_pred list res" where
  "preds_over name hz topics w =
     rbind (yiter topics) (\<lambda>ts.
       rmap (\<lambda>t. rbind (make_pred w) (\<lambda>p. Inr \<lparr>np_name = name, np_hazard = hz, np_topic = t, np_pred = p\<rparr>)) ts)"

definition function_preds :: "string \<times> yaml \<Rightarrow> named_pred list res" where
  "function_preds nf =
     (case snd nf of
        YDict kvs \<Rightarrow>
          if yaml_falsy (dget kvs ''when'') then Inr []
          else rbind (yget_or (YDict kvs) ''of'' (YList [])) (\<lambda>ts. preds_over (fst nf) False ts (dget kvs ''when''))
      | _ \<Rightarrow> Inr [])"

definition hazard_guards :: "yaml \<Rightarrow> yaml res" where
  "hazard_guards hz = rbind (yget_or hz ''guards'' (YList [])) (yget_or hz ''monitors'')"

definition declare_hazard :: "(yaml \<Rightarrow> string) \<Rightarrow> (string \<times> yaml) list \<Rightarrow> string \<times> yaml
    \<Rightarrow> ((string \<times> hazard) \<times> (string \<times> rat) list \<times> named_pred list) res" where
  "declare_hazard str_of lets nh =
     (let name = fst nh; hz = snd nh
      in rbind (yget hz ''on'') (\<lambda>on. rbind (rbind (yget hz ''ftti'') duration_ms) (\<lambda>ftti.
         rbind (rbind (yget hz ''severity'') (yget_or hz ''integrity'')) (\<lambda>sev. rbind (hazard_guards hz) (\<lambda>gs.
         rbind (yget hz ''entry_speed'') (\<lambda>es.
         rbind (if es = YNone then Inr [] else rbind (let_value str_of es lets) (\<lambda>v. rbind (speed_mps v) (\<lambda>q. Inr [(name, q)]))) (\<lambda>entry.
         rbind (yget hz ''when'') (\<lambda>w.
         rbind (if yaml_falsy w then Inr [] else preds_over name True gs w) (\<lambda>ps.
           Inr ((name, \<lparr>hz_on = on, hz_ftti_ms = ftti, hz_severity = sev, hz_guards = gs\<rparr>), entry, ps))))))))))"

definition declare_mode :: "string \<times> yaml \<Rightarrow> ((string \<times> dwell) list \<times> (string \<times> (string \<times> yaml) list) list) res" where
  "declare_mode nm =
     (let name = fst nm; m = snd nm
      in rbind (rbind (yget m ''window'') (yget_or m ''min_dwell'')) (\<lambda>w.
         rbind (case w of
                  YNone \<Rightarrow> Inr []
                | YDict kvs \<Rightarrow> rbind (key_of kvs ''duration'') (\<lambda>d. rbind (duration_ms d) (\<lambda>q.
                    Inr [(name, \<lparr>w_duration_ms = q, w_param = dget kvs ''param''\<rparr>)]))
                | _ \<Rightarrow> rbind (duration_ms w) (\<lambda>q. Inr [(name, \<lparr>w_duration_ms = q, w_param = YNone\<rparr>)])) (\<lambda>ws.
         rbind (yget m ''exit'') (\<lambda>x.
         rbind (if yaml_falsy x then Inr [] else (case x of YDict kvs \<Rightarrow> Inr [(name, kvs)] | YStr _ \<Rightarrow> Inl ValueError
                  | YList _ \<Rightarrow> Inl ValueError | _ \<Rightarrow> Inl TypeError)) (\<lambda>es. Inr (ws, es))))))"

text \<open>\<open>c.get("let") or {}\<close>, as \<open>let_value\<close> uses it.\<close>

definition lets_of :: "yaml \<Rightarrow> (string \<times> yaml) list" where
  "lets_of c = (case c of YDict kvs \<Rightarrow> (case dget kvs ''let'' of YDict l \<Rightarrow> l | _ \<Rightarrow> []) | _ \<Rightarrow> [])"

definition declared :: "(yaml \<Rightarrow> string) \<Rightarrow> yaml \<Rightarrow> declarations res" where
  "declared str_of c =
     rbind (rbind (yor c ''functions'') yitems) (\<lambda>fns. rbind (rmap function_preds fns) (\<lambda>fps.
     rbind (rbind (yor c ''hazards'') yitems) (\<lambda>hzs. rbind (rmap (declare_hazard str_of (lets_of c)) hzs) (\<lambda>hs.
     rbind (rbind (yor c ''modes'') yitems) (\<lambda>ms. rbind (rmap declare_mode ms) (\<lambda>mds.
       Inr \<lparr>d_predicates = concat fps @ concat (map (snd \<circ> snd) hs),
            d_windows = concat (map fst mds), d_exits = concat (map snd mds),
            d_entry_speed = concat (map (fst \<circ> snd) hs), d_hazards = map fst hs\<rparr>))))))"

text \<open>\<open>evaluate\<close> on a scalar message field. All six comparisons are made, and the one asked for is taken: a
  number and a text have no order, so every operation on them raises.\<close>

datatype scalar = SNum rat | SStr string

fun scalar_less :: "scalar \<Rightarrow> scalar \<Rightarrow> bool res" where
  "scalar_less (SNum a) (SNum b) = Inr (a < b)"
| "scalar_less (SStr a) (SStr b) = Inr (a < b)"
| "scalar_less _ _ = Inl TypeError"

definition evaluate :: "string \<Rightarrow> scalar \<Rightarrow> scalar \<Rightarrow> bool res" where
  "evaluate op v msg_value =
     rbind (scalar_less msg_value v) (\<lambda>lt. rbind (scalar_less v msg_value) (\<lambda>gt.
       key_of [(''equals'', msg_value = v), (''not_equals'', msg_value \<noteq> v), (''lt'', lt), (''le'', \<not> gt), (''gt'', gt), (''ge'', \<not> lt)] op))"

section \<open>Durations\<close>

lemma strip_core:
  assumes "list_all is_space a" "list_all is_space b" "u \<noteq> []" "\<not> is_space (hd u)" "\<not> is_space (last u)"
  shows "strip (a @ u @ b) = u"
proof -
  have 1: "dropWhile is_space (a @ u @ b) = u @ b"
    using assms(1,3,4) by (cases u) (auto simp: list_all_iff dropWhile_append)
  have "dropWhile is_space (rev b @ rev u) = rev u"
    using assms(2,3,5) by (cases u rule: rev_cases) (auto simp: list_all_iff dropWhile_append)
  with 1 show ?thesis by (simp add: strip_def)
qed

lemma digit_not_space: "is_digit c \<Longrightarrow> \<not> is_space c"
  by (auto simp: is_digit_def is_space_def Let_def)

lemma space_not_num: "is_space c \<Longrightarrow> \<not> is_num_char c"
  by (auto simp: is_num_char_def is_digit_def is_space_def Let_def)

lemma unit_shape: "map_of UNITS u = Some k \<Longrightarrow> u \<noteq> [] \<and> \<not> is_space (hd u) \<and> \<not> is_space (last u) \<and> \<not> is_num_char (hd u)"
  by (auto simp: UNITS_def is_space_def is_num_char_def is_digit_def split: if_splits)

lemma py_float_dec_nat: "py_float (dec_nat n) = Some (of_nat n)"
proof -
  have d: "list_all is_digit (dec_nat n)" "dec_nat n \<noteq> []" using dec_nat_digits by auto
  then have h: "is_digit (hd (dec_nat n))" "is_digit (last (dec_nat n))" by (simp_all add: list_all_iff)
  have "strip (dec_nat n) = dec_nat n"
    using strip_core [of "[]" "[]" "dec_nat n"] d h digit_not_space by simp
  moreover have "hd (dec_nat n) \<noteq> CHR ''-''" "hd (dec_nat n) \<noteq> CHR ''+''" using h(1) by (auto simp: is_digit_def)
  ultimately show ?thesis using d(2) unsigned_float_int [of n] by (cases "dec_nat n") (auto simp: py_float_def)
qed

lemma duration_text_nat:
  assumes "list_all is_space a" "list_all is_space b" "list_all is_space c" "map_of UNITS u = Some k"
  shows "duration_text (a @ dec_nat n @ b @ u @ c) = Inr (Some (of_nat n * k))"
proof -
  have d: "list_all is_digit (dec_nat n)" "dec_nat n \<noteq> []" using dec_nat_digits by auto
  note us = unit_shape [OF assms(4)]
  have 1: "dropWhile is_space (a @ dec_nat n @ b @ u @ c) = dec_nat n @ b @ u @ c"
    using assms(1) d digit_not_space by (cases "dec_nat n") (auto simp: list_all_iff dropWhile_append)
  have nx: "takeWhile is_num_char (b @ u @ c) = [] \<and> dropWhile is_num_char (b @ u @ c) = b @ u @ c"
    using us assms(2) space_not_num by (cases b; cases u) auto
  have num: "\<forall>x \<in> set (dec_nat n). is_num_char x" using d(1) by (auto simp: list_all_iff is_num_char_def)
  then have 2: "takeWhile is_num_char (dec_nat n @ b @ u @ c) = dec_nat n"
    "dropWhile is_num_char (dec_nat n @ b @ u @ c) = b @ u @ c"
    using nx by (simp_all add: takeWhile_append2 dropWhile_append2)
  show ?thesis unfolding duration_text_def Let_def 1 2
    using strip_core [OF assms(2,3)] us d(2) assms(4) py_float_dec_nat by simp
qed

text \<open>A whole number with a unit, blanks or none around and between them, reads as that many milliseconds times the
  unit; a budget's map form reads as its duration; a bare number is seconds.\<close>

theorem duration_ms_reads_units:
  assumes "list_all is_space a" "list_all is_space b" "list_all is_space c" "map_of UNITS u = Some k"
  shows "duration_ms (YStr (a @ dec_nat n @ b @ u @ c)) = Inr (Some (of_nat n * k))
    \<and> duration_ms (YDict ((''duration'', YStr (a @ dec_nat n @ b @ u @ c)) # kvs)) =
        (if ''duration'' \<in> fst ` set kvs then duration_ms (YDict kvs) else Inr (Some (of_nat n * k)))
    \<and> duration_ms (YNum q) = Inr (Some (q * the (map_of UNITS ''s'')))"
proof -
  note t = duration_text_nat [OF assms, of n]
  have "dget ((''duration'', v) # kvs) ''duration'' = (if ''duration'' \<in> fst ` set kvs then dget kvs ''duration'' else v)" for v
    using dict_of_append [of "[(''duration'', v)]" kvs "''duration''"] dict_of_None_iff [of kvs "''duration''"]
    by (auto simp: dget_def dict_of_def split: option.splits)
  with t show ?thesis by (simp add: duration_ms_def UNITS_def)
qed

section \<open>References\<close>

lemma let_at_ref:
  assumes "n \<noteq> []" "ident_start (hd n)" "list_all ident_char n" "list_all is_space a" "a \<noteq> []" "list_all is_space b"
  shows "let_at (''$(let'' @ a @ n @ b @ '')'' @ r) = Some (n, r)"
proof -
  have ns: "\<not> is_space c" if "ident_char c" for c
    using that by (auto simp: ident_char_def ident_start_def is_digit_def is_space_def Let_def)
  have sp: "\<not> ident_char c" if "is_space c" for c using that ns by blast
  have 1: "dropWhile is_space (a @ n @ b @ '')'' @ r) = n @ b @ '')'' @ r"
    using assms ns by (cases n) (auto simp: list_all_iff dropWhile_append)
  have p: "\<not> ident_char CHR '')''" "\<not> is_space CHR '')''"
    by (simp_all add: ident_char_def ident_start_def is_digit_def is_space_def)
  have nx: "takeWhile ident_char (b @ '')'' @ r) = []" "dropWhile ident_char (b @ '')'' @ r) = b @ '')'' @ r"
    using assms(6) sp p by (cases b; auto)+
  have 2: "takeWhile ident_char (n @ b @ '')'' @ r) = n" "dropWhile ident_char (n @ b @ '')'' @ r) = b @ '')'' @ r"
    using assms(3) nx by (simp_all add: list_all_iff takeWhile_append2 dropWhile_append2)
  have 3: "dropWhile is_space (b @ '')'' @ r) = '')'' @ r"
    using assms(6) p by (auto simp: list_all_iff dropWhile_append)
  have "drop 5 (''$(let'' @ a @ n @ b @ '')'' @ r) = a @ n @ b @ '')'' @ r" "starts_with ''$(let'' (''$(let'' @ a @ n @ b @ '')'' @ r)"
    by (simp_all add: starts_with_def)
  then show ?thesis unfolding let_at_def Let_def using 1 2 3 assms(1,2,5) by simp
qed

text \<open>A value that is one \<open>$(let name)\<close> reference, blanks allowed, resolves to the contract's entry itself, and to an
  exit naming it when the contract has none.\<close>

theorem let_value_reference:
  assumes "n \<noteq> []" "ident_start (hd n)" "list_all ident_char n" "list_all is_space a" "a \<noteq> []" "list_all is_space b"
    and "list_all is_space l" "list_all is_space r"
  shows "let_value str_of (YStr (l @ ''$(let'' @ a @ n @ b @ '')'' @ r)) lets =
    (case dict_of lets n of
       Some v \<Rightarrow> Inr v
     | None \<Rightarrow> Inl (SystemExit ''the contract names a let entry its root has not''))"
proof -
  let ?ref = "''$(let'' @ a @ n @ b @ '')''"
  have s: "strip (l @ ?ref @ r) = ?ref"
    by (rule strip_core [OF assms(7,8)]) (simp_all add: is_space_def)
  have c: "contains ''$(let'' (l @ ?ref @ r)"
    unfolding contains_def list_ex_iff by (rule bexI [of _ "length l"]) (simp_all add: starts_with_def)
  have m: "let_at ?ref = Some (n, [])" using let_at_ref [OF assms(1-6), of "[]"] by simp
  have e: "l @ ''$(let'' @ a @ n @ b @ '')'' @ r = l @ ?ref @ r" by simp
  show ?thesis unfolding e let_value_def using c s m by (simp only: yaml.case not_True_eq_False if_False Let_def) simp
qed

section \<open>Predicates\<close>

definition holds_op :: "string \<Rightarrow> rat \<Rightarrow> rat \<Rightarrow> bool" where
  "holds_op op m v =
     (if op = ''equals'' then m = v else if op = ''not_equals'' then m \<noteq> v else if op = ''lt'' then m < v
      else if op = ''le'' then m \<le> v else if op = ''gt'' then m > v else m \<ge> v)"

lemma evaluate_num: "op \<in> set PRED_OPS \<Longrightarrow> evaluate op (SNum v) (SNum m) = Inr (holds_op op m v)"
  by (auto simp: PRED_OPS_def evaluate_def key_of_def dict_of_def holds_op_def)

lemma make_pred_op: "make_pred w = Inr p \<Longrightarrow> p_op p \<in> set PRED_OPS"
proof -
  assume p: "make_pred w = Inr p"
  then obtain kvs where w: "w = YDict kvs" by (cases w) (simp_all add: make_pred_def)
  let ?ks = "filter (\<lambda>k. dict_of kvs k \<noteq> None) PRED_OPS"
  show ?thesis
  proof (cases ?ks)
    case Nil
    from p show ?thesis unfolding make_pred_def w yaml.case Nil by (simp add: rbind_Inr_iff)
  next
    case (Cons k ks)
    from p have "p_op p = k" unfolding make_pred_def w yaml.case Cons by (auto simp: rbind_Inr_iff)
    moreover have "k \<in> set ?ks" using Cons by simp
    ultimately show ?thesis by simp
  qed
qed

lemma rmap_member: "rmap f xs = Inr ys \<Longrightarrow> y \<in> set ys \<Longrightarrow> \<exists>x \<in> set xs. f x = Inr y"
  by (induction xs arbitrary: ys) (auto simp: rbind_Inr_iff)

lemma preds_over_ops:
  "preds_over name hz ts w = Inr ps \<Longrightarrow> p \<in> set ps \<Longrightarrow> np_name p = name \<and> np_hazard p = hz \<and> p_op (np_pred p) \<in> set PRED_OPS"
  by (auto simp: preds_over_def rbind_Inr_iff dest!: rmap_member make_pred_op)

lemma function_preds_ops:
  "function_preds nf = Inr ps \<Longrightarrow> p \<in> set ps \<Longrightarrow> np_name p = fst nf \<and> \<not> np_hazard p \<and> p_op (np_pred p) \<in> set PRED_OPS"
  by (auto simp: function_preds_def rbind_Inr_iff split: yaml.splits if_splits dest: preds_over_ops)

lemma declare_hazard_ops:
  "declare_hazard str_of lets nh = Inr (h, e, ps) \<Longrightarrow>
     fst h = fst nh \<and> (p \<in> set ps \<longrightarrow> np_name p = fst nh \<and> np_hazard p \<and> p_op (np_pred p) \<in> set PRED_OPS)"
  by (auto simp: declare_hazard_def Let_def rbind_Inr_iff split: if_splits dest: preds_over_ops)

text \<open>Every predicate taken from a contract evaluates on numbers: its operator is one \<open>evaluate\<close> knows, so no key is
  missing at run time, and the result is the comparison it names; a hazard's predicate belongs to a declared hazard.\<close>

theorem declared_predicates_evaluate:
  assumes "declared str_of c = Inr d" "p \<in> set (d_predicates d)"
  shows "evaluate (p_op (np_pred p)) (SNum v) (SNum m) = Inr (holds_op (p_op (np_pred p)) m v)
    \<and> (np_hazard p \<longrightarrow> np_name p \<in> fst ` set (d_hazards d))"
proof -
  from assms(1) obtain fns fps hzs hs where f: "rmap function_preds fns = Inr fps"
    and h: "rmap (declare_hazard str_of (lets_of c)) hzs = Inr hs"
    and d: "d_predicates d = concat fps @ concat (map (snd \<circ> snd) hs)" "d_hazards d = map fst hs"
    by (auto simp: declared_def rbind_Inr_iff)
  from assms(2) d(1) consider ps where "ps \<in> set fps" "p \<in> set ps" | x where "x \<in> set hs" "p \<in> set (snd (snd x))" by auto
  then show ?thesis
  proof cases
    case 1
    from rmap_member [OF f 1(1)] obtain nf where "function_preds nf = Inr ps" by blast
    from function_preds_ops [OF this 1(2)] show ?thesis by (simp add: evaluate_num)
  next
    case 2
    obtain a e ps where x: "x = (a, e, ps)" by (metis surj_pair)
    from rmap_member [OF h 2(1)] obtain nh where "declare_hazard str_of (lets_of c) nh = Inr (a, e, ps)" unfolding x by blast
    from declare_hazard_ops [OF this, of p] 2 show ?thesis by (force simp: x d(2) evaluate_num)
  qed
qed

text \<open>The model is accepted exactly when every input that exists still has the hash the model was resolved from.\<close>

theorem stale_model_refused:
  "load_model inps = Inr () \<longleftrightarrow> (\<forall>i \<in> set inps. mi_now i = None \<or> mi_now i = Some (mi_sha i))"
  by (auto simp: load_model_def stale_inputs_def filter_empty_conv)


section \<open>Witnesses\<close>

theorem duration_ms_reads_units_witness: "duration_ms (YStr ''149 ms'') = Inr (Some 149)"
proof -
  have "dec_nat 149 = ''149''" by code_simp
  with duration_ms_reads_units [of "[]" "'' ''" "[]" "''ms''" 1 149] show ?thesis by (simp add: UNITS_def is_space_def)
qed

theorem let_value_reference_witness:
  "let_value (\<lambda>_. []) (YStr ''$(let odd_speed_bound)'') [(''odd_speed_bound'', YStr ''8.33 m/s'')] = Inr (YStr ''8.33 m/s'')"
  using let_value_reference [of "''odd_speed_bound''" "'' ''" "[]" "[]" "[]" "\<lambda>_. []" "[(''odd_speed_bound'', YStr ''8.33 m/s'')]"]
  by (simp add: ident_start_def ident_char_def is_space_def dict_of_def)

definition demo_contract :: yaml where
  "demo_contract = YDict [(''hazards'', YDict [(''odd_exit'', YDict [(''on'', YStr ''odd''), (''ftti'', YStr ''30s''),
     (''monitors'', YList [YStr ''/gate/availability'']),
     (''when'', YDict [(''field'', YStr ''autonomous''), (''equals'', YBool False)])])])]"

theorem declared_predicates_evaluate_witness:
  "\<exists>d p. declared (\<lambda>_. []) demo_contract = Inr d \<and> d_predicates d = [p] \<and> evaluate (p_op (np_pred p)) (SNum 0) (SNum 0) = Inr True"
proof -
  have "case declared (\<lambda>_. []) demo_contract of Inr d \<Rightarrow> map (p_op \<circ> np_pred) (d_predicates d) = [''equals''] | Inl _ \<Rightarrow> False" by code_simp
  then obtain d where d: "declared (\<lambda>_. []) demo_contract = Inr d" "map (p_op \<circ> np_pred) (d_predicates d) = [''equals'']"
    by (auto split: sum.splits)
  then obtain p where p: "d_predicates d = [p]" "p_op (np_pred p) = ''equals''" by (auto simp: map_eq_Cons_conv)
  with declared_predicates_evaluate [OF d(1), of p 0 0] d(1) show ?thesis by (simp add: holds_op_def)
qed

theorem stale_model_refused_witness: "load_model [\<lparr>mi_path = ''a'', mi_sha = ''1'', mi_now = Some ''1''\<rparr>] = Inr ()"
  using stale_model_refused [of "[\<lparr>mi_path = ''a'', mi_sha = ''1'', mi_now = Some ''1''\<rparr>]"] by simp

end
