(* ===== verification/Timeline.thy ===== *)
theory Timeline
  imports Contract Ring_Log
begin

text \<open>The timeline's inputs, \<^verbatim>\<open>tools/board/tlcommon.py\<close>: the event files (\<open>read_events\<close> after a run and \<open>Tail\<close> for the
  live view) and the fault-reaction table of the contract checker (\<open>parse_explain\<close>).

  \<open>json.loads\<close> on a line is the parameter \<open>parse\<close> (\<open>None\<close>: it raises \<open>ValueError\<close>) and an event's time the
  parameter \<open>t_of\<close> (\<open>None\<close>: the key is missing). Files hold ASCII text.\<close>

section \<open>Event files\<close>

abbreviation newline :: char where "newline \<equiv> CHR 0x0A"

text \<open>The events of some lines: blank lines and lines being written are passed over.\<close>

definition line_events :: "(string \<Rightarrow> 'e option) \<Rightarrow> string list \<Rightarrow> 'e list" where
  "line_events parse ls = List.map_filter (\<lambda>l. if strip l = [] then None else parse l) ls"

definition read_events :: "(string \<Rightarrow> 'e option) \<Rightarrow> ('e \<Rightarrow> int option) \<Rightarrow> string option list \<Rightarrow> 'e list res" where
  "read_events parse t_of files =
     (let out = concat (map (\<lambda>f. case f of None \<Rightarrow> []
                                | Some content \<Rightarrow> line_events (parse \<circ> strip) (split_on newline content)) files)
      in if list_all (\<lambda>e. t_of e \<noteq> None) out then Inr (sort_key (the \<circ> t_of) out) else Inl KeyError)"

record tail =
  tl_pos :: nat
  tl_buf :: string

definition Tail :: tail where "Tail = \<lparr>tl_pos = 0, tl_buf = []\<rparr>"

text \<open>The chunk's whole lines, and the line being written.\<close>

definition tail_feed :: "string \<Rightarrow> string \<Rightarrow> string list \<times> string" where
  "tail_feed buf chunk = (let ls = split_on newline (buf @ chunk) in (butlast ls, last ls))"

definition poll :: "(string \<Rightarrow> 'e option) \<Rightarrow> string option \<Rightarrow> tail \<Rightarrow> 'e list \<times> tail" where
  "poll parse file t =
     (case file of
        None \<Rightarrow> ([], t)
      | Some content \<Rightarrow>
          (let chunk = drop (tl_pos t) content; (ls, buf) = tail_feed (tl_buf t) chunk
           in (line_events parse ls, \<lparr>tl_pos = max (tl_pos t) (length content), tl_buf = buf\<rparr>)))"

fun polls :: "(string \<Rightarrow> 'e option) \<Rightarrow> string option list \<Rightarrow> tail \<Rightarrow> 'e list \<times> tail" where
  "polls parse [] t = ([], t)"
| "polls parse (f # fs) t = (let (es, t') = poll parse f t; (es', t'') = polls parse fs t' in (es @ es', t''))"

section \<open>The checker's table\<close>

record row =
  r_hazard :: string
  r_rung :: string
  r_role :: string
  r_detect :: "rat option"
  r_windows :: "rat option"
  r_route :: "rat option"
  r_settle :: "rat option"
  r_settle_kind :: "string option"
  r_total :: "rat option"
  r_ftti :: "rat option"
  r_slack :: "rat option"
  r_window_end :: "rat option"
  r_term :: "string option"

definition num_tok :: "string \<Rightarrow> rat option res" where   \<comment> \<open>\<open>_num\<close>\<close>
  "num_tok tok = (if tok = ''-'' then Inr None else (case py_float tok of None \<Rightarrow> Inl ValueError | Some q \<Rightarrow> Inr (Some q)))"

definition ROLE_SPELLING :: "(string \<times> string) list" where
  "ROLE_SPELLING = [(''mrc'', ''floor''), (''level'', ''rung''), (''dwell'', ''window'')]"

definition spell :: "string \<Rightarrow> string" where
  "spell t = (case map_of ROLE_SPELLING t of Some u \<Rightarrow> u | None \<Rightarrow> t)"

definition strip_parens :: "string \<Rightarrow> string" where   \<comment> \<open>\<open>s.strip("()")\<close>\<close>
  "strip_parens s =
     (let p = (\<lambda>c. c = CHR ''('' \<or> c = CHR '')'') in rev (dropWhile p (rev (dropWhile p s))))"

definition removeprefix :: "string \<Rightarrow> string \<Rightarrow> string" where
  "removeprefix p s = (if starts_with p s then drop (length p) s else s)"

definition num_at :: "string list \<Rightarrow> int \<Rightarrow> rat option res" where
  "num_at xs i = rbind (py_nth xs i) num_tok"

definition parse_settle :: "string list \<Rightarrow> (rat option \<times> string option \<times> string list) res" where
  "parse_settle rest =
     rbind (py_nth rest 3) (\<lambda>t.
       if t = ''window'' then rbind (py_nth rest 4) (\<lambda>u. rbind (num_tok (removeprefix ''>='' u)) (\<lambda>q. Inr (q, Some ''window'', drop 5 rest)))
       else if t = ''-'' then Inr (None, None, drop 4 rest)
       else rbind (num_tok t) (\<lambda>q. rbind (py_nth rest 4) (\<lambda>k. Inr (q, Some k, drop 5 rest))))"

definition parse_row :: "(string \<times> string \<Rightarrow> rat option) \<Rightarrow> string list \<Rightarrow> row res" where
  "parse_row ends tok =
     rbind (py_nth tok 0) (\<lambda>hazard. rbind (py_nth tok 1) (\<lambda>rung. rbind (py_nth tok 2) (\<lambda>role0.
     rbind (if starts_with ''('' role0 then rbind (py_nth tok 3) (\<lambda>r. Inr (Some (strip_parens role0), r, drop 4 tok))
            else Inr (None, role0, drop 3 tok)) (\<lambda>(term, role, rest).
     rbind (num_at rest 0) (\<lambda>detect. rbind (num_at rest 1) (\<lambda>windows. rbind (num_at rest 2) (\<lambda>route.
     rbind (parse_settle rest) (\<lambda>(settle, kind, rest2).
     rbind (num_at rest2 0) (\<lambda>total. rbind (num_at rest2 1) (\<lambda>ftti. rbind (num_at rest2 2) (\<lambda>slack.
       Inr \<lparr>r_hazard = hazard, r_rung = rung, r_role = role, r_detect = detect, r_windows = windows, r_route = route,
            r_settle = settle, r_settle_kind = kind, r_total = total, r_ftti = ftti, r_slack = slack,
            r_window_end = ends (hazard, rung), r_term = term\<rparr>)))))))))))"

text \<open>The note on a window's end: \<open>^  (\w+)/(\w+): lasts at least ([0-9.]+)ms once on, and ends within ([0-9.]+)ms\<close>.\<close>

definition eat :: "string \<Rightarrow> string \<Rightarrow> string option" where
  "eat p s = (if starts_with p s then Some (drop (length p) s) else None)"

definition eat_while :: "(char \<Rightarrow> bool) \<Rightarrow> string \<Rightarrow> (string \<times> string) option" where
  "eat_while p s = (if takeWhile p s = [] then None else Some (takeWhile p s, dropWhile p s))"

definition window_note :: "string \<Rightarrow> ((string \<times> string) \<times> string) option" where
  "window_note line =
     Option.bind (eat ''  '' line) (\<lambda>a. Option.bind (eat_while ident_char a) (\<lambda>(hz, b).
     Option.bind (eat ''/'' b) (\<lambda>c. Option.bind (eat_while ident_char c) (\<lambda>(rung, d).
     Option.bind (eat '': lasts at least '' d) (\<lambda>e. Option.bind (eat_while is_num_char e) (\<lambda>(_, f).
     Option.bind (eat ''ms once on, and ends within '' f) (\<lambda>g. Option.bind (eat_while is_num_char g) (\<lambda>(x, h).
     Option.bind (eat ''ms'' h) (\<lambda>_. Some ((hz, rung), x))))))))))"

definition window_ends :: "string list \<Rightarrow> ((string \<times> string) \<times> rat) list res" where
  "window_ends ls =
     rmap (\<lambda>(k, x). case py_float x of None \<Rightarrow> Inl ValueError | Some q \<Rightarrow> Inr (k, q)) (List.map_filter window_note ls)"

fun explain_rows :: "(string \<times> string \<Rightarrow> rat option) \<Rightarrow> bool \<Rightarrow> row list \<Rightarrow> string list \<Rightarrow> row list res" where
  "explain_rows ends on rows [] = Inr rows"
| "explain_rows ends on rows (line # ls) =
     (if starts_with ''-- Fault-reaction'' line then explain_rows ends True rows ls
      else if \<not> on then explain_rows ends on rows ls
      else if starts_with ''HAZARD'' line then explain_rows ends on rows ls
      else (let tok = py_words line
            in if tok = [] \<or> starts_with '' '' line
               then (if rows \<noteq> [] \<and> (tok = [] \<or> \<not> starts_with ''  '' line) then Inr rows else explain_rows ends on rows ls)
               else rbind (parse_row ends (map spell tok)) (\<lambda>r. explain_rows ends on (rows @ [r]) ls)))"

definition parse_explain :: "string list \<Rightarrow> row list res" where
  "parse_explain ls = rbind (window_ends ls) (\<lambda>ends. explain_rows (dict_of ends) False [] ls)"

section \<open>Live and after the run\<close>

lemma split_on_pieces: "p \<in> set (split_on c s) \<Longrightarrow> c \<notin> set p"
proof (induction s arbitrary: p)
  case (Cons x s)
  show ?case
  proof (cases "split_on c s")
    case (Cons y ys)
    then show ?thesis using Cons.prems Cons.IH by (auto split: if_splits)
  qed simp
qed simp

lemma split_on_concat: "concat (map (\<lambda>l. l @ [c]) (butlast (split_on c s))) @ last (split_on c s) = s"
proof (induction s)
  case (Cons x s)
  obtain y ys where e: "split_on c s = y # ys" by (cases "split_on c s") auto
  show ?case using Cons by (cases "ys = []") (auto simp: e)
qed simp

interpretation tail_line: line_feed newline tail_feed
proof
  fix buf chunk :: string
  show "newline \<notin> set (snd (tail_feed buf chunk))" using split_on_pieces [OF last_in_set, OF split_on_not_Nil] by (simp add: tail_feed_def Let_def)
  show "concat (map (\<lambda>l. l @ [newline]) (fst (tail_feed buf chunk))) @ snd (tail_feed buf chunk) = buf @ chunk"
    by (simp add: tail_feed_def Let_def split_on_concat)
  show "newline \<notin> set l" if "l \<in> set (fst (tail_feed buf chunk))" for l
    using split_on_pieces [OF in_set_butlastD, of l newline "buf @ chunk"] that by (simp add: tail_feed_def Let_def)
qed

text \<open>A file that only grows, from content \<open>c\<close> on.\<close>

fun growing :: "string \<Rightarrow> string list \<Rightarrow> bool" where
  "growing c [] = True"
| "growing c (d # ds) = (take (length c) d = c \<and> growing d ds)"

lemma polls_growing:
  "growing c cs \<Longrightarrow> tl_pos t = length c \<Longrightarrow> \<exists>ds. c @ concat ds = last (c # cs) \<and>
     polls parse (map Some cs) t =
       (line_events parse (fst (tail_line.feed_all_chunks (tl_buf t) ds)),
        \<lparr>tl_pos = length (last (c # cs)), tl_buf = snd (tail_line.feed_all_chunks (tl_buf t) ds)\<rparr>)"
proof (induction cs arbitrary: c t)
  case Nil
  then show ?case by (intro exI [of _ "[]"]) (simp add: line_events_def map_filter_def)
next
  case (Cons d cs)
  then obtain x where d: "d = c @ x" and g: "growing d cs" by (metis append_take_drop_id growing.simps(2))
  obtain ls b where f: "tail_feed (tl_buf t) x = (ls, b)" by (metis surj_pair)
  define t' where "t' = \<lparr>tl_pos = length d, tl_buf = b\<rparr>"
  have p: "poll parse (Some d) t = (line_events parse ls, t')"
    using Cons.prems(2) f by (simp add: poll_def d t'_def)
  obtain ds where ds: "d @ concat ds = last (d # cs)"
    "polls parse (map Some cs) t' = (line_events parse (fst (tail_line.feed_all_chunks b ds)),
        \<lparr>tl_pos = length (last (d # cs)), tl_buf = snd (tail_line.feed_all_chunks b ds)\<rparr>)"
    using Cons.IH [OF g, of t'] by (auto simp: t'_def)
  have "c @ concat (x # ds) = last (c # d # cs)" using ds(1) by (simp add: d)
  moreover have "polls parse (map Some (d # cs)) t =
      (line_events parse (fst (tail_line.feed_all_chunks (tl_buf t) (x # ds))),
       \<lparr>tl_pos = length (last (c # d # cs)), tl_buf = snd (tail_line.feed_all_chunks (tl_buf t) (x # ds))\<rparr>)"
    using p ds(2) by (simp add: f line_events_def map_filter_def split: prod.split)
  ultimately show ?case by blast
qed

lemma tail_whole:
  assumes "growing [] cs"
  shows "polls parse (map Some cs) Tail =
    (line_events parse (butlast (split_on newline (last ([] # cs)))),
     \<lparr>tl_pos = length (last ([] # cs)), tl_buf = last (split_on newline (last ([] # cs)))\<rparr>)"
proof -
  obtain ds where ds: "concat ds = last ([] # cs)"
    "polls parse (map Some cs) Tail = (line_events parse (fst (tail_line.feed_all_chunks [] ds)),
       \<lparr>tl_pos = length (last ([] # cs)), tl_buf = snd (tail_line.feed_all_chunks [] ds)\<rparr>)"
    using polls_growing [OF assms, of Tail parse] by (auto simp: Tail_def)
  have "tail_line.feed_all_chunks [] ds = tail_line.feed_all_chunks [] [last ([] # cs)]"
    by (rule tail_line.chunking_irrelevant) (simp_all add: ds(1))
  also have "\<dots> = (butlast (split_on newline (last ([] # cs))), last (split_on newline (last ([] # cs))))"
    by (simp add: tail_feed_def Let_def)
  finally show ?thesis using ds(2) by simp
qed

text \<open>The live view and the reading after the run see the same events: however often a growing file is polled, once its last
  line is whole the events polled are, sorted by time, exactly what \<open>read_events\<close> gives; \<open>json.loads\<close> ignores blanks around a line.\<close>

theorem live_view_agrees_with_run:
  assumes "growing [] (cs @ [body @ [newline]])" "\<forall>l. parse (strip l) = parse l"
    and "\<forall>e \<in> set (fst (polls parse (map Some (cs @ [body @ [newline]])) Tail)). t_of e \<noteq> None"
  shows "read_events parse t_of [Some (body @ [newline])] =
    Inr (sort_key (the \<circ> t_of) (fst (polls parse (map Some (cs @ [body @ [newline]])) Tail)))"
proof -
  let ?c = "body @ [newline]"
  have sp: "split_on c (s @ [c]) = split_on c s @ [[]]" for c :: char and s
    by (induction s) (auto split: list.splits)
  have p: "fst (polls parse (map Some (cs @ [?c])) Tail) = line_events parse (split_on newline body)"
    using tail_whole [OF assms(1), of parse] by (simp add: sp)
  have "line_events (parse \<circ> strip) (split_on newline ?c) = line_events parse (split_on newline body)"
    using assms(2) by (simp add: sp line_events_def map_filter_def strip_def)
  then show ?thesis using assms(3) unfolding p by (auto simp: read_events_def list_all_iff)
qed


section \<open>The table read back\<close>

text \<open>A row as the checker prints it: the texts of its columns, the settle column in one of its three forms, and
  the columns after the slack.\<close>

datatype settle_cols = No_settle | Window_settle bool string | Settle string string

record printed =
  pr_hazard :: string
  pr_rung :: string
  pr_term :: "string option"
  pr_role :: string
  pr_nums :: "string \<times> string \<times> string"
  pr_settle :: settle_cols
  pr_sums :: "string \<times> string \<times> string"
  pr_more :: "string list"

fun settle_toks :: "settle_cols \<Rightarrow> string list" where
  "settle_toks No_settle = [''-'']"
| "settle_toks (Window_settle atleast n) = [''window'', (if atleast then ''>='' else []) @ n]"
| "settle_toks (Settle n k) = [n, k]"

definition row_toks :: "printed \<Rightarrow> string list" where
  "row_toks r =
     [pr_hazard r, pr_rung r] @ (case pr_term r of None \<Rightarrow> [] | Some k \<Rightarrow> [''('' @ k @ '')'']) @ [pr_role r]
     @ (case pr_nums r of (a, b, c) \<Rightarrow> [a, b, c]) @ settle_toks (pr_settle r)
     @ (case pr_sums r of (a, b, c) \<Rightarrow> [a, b, c]) @ pr_more r"

definition num_of :: "string \<Rightarrow> rat option" where
  "num_of s = (case num_tok s of Inr q \<Rightarrow> q | Inl _ \<Rightarrow> None)"

fun settle_of :: "settle_cols \<Rightarrow> rat option \<times> string option" where
  "settle_of No_settle = (None, None)"
| "settle_of (Window_settle _ n) = (num_of n, Some ''window'')"
| "settle_of (Settle n k) = (num_of n, Some k)"

definition row_of :: "(string \<times> string \<Rightarrow> rat option) \<Rightarrow> printed \<Rightarrow> row" where
  "row_of ends r =
     (case (pr_nums r, pr_sums r) of ((d, w, o1), (t, f, s)) \<Rightarrow>
       \<lparr>r_hazard = pr_hazard r, r_rung = pr_rung r, r_role = pr_role r, r_detect = num_of d, r_windows = num_of w,
        r_route = num_of o1, r_settle = fst (settle_of (pr_settle r)), r_settle_kind = snd (settle_of (pr_settle r)),
        r_total = num_of t, r_ftti = num_of f, r_slack = num_of s,
        r_window_end = ends (pr_hazard r, pr_rung r), r_term = pr_term r\<rparr>)"

definition is_num :: "string \<Rightarrow> bool" where   \<comment> \<open>a number of the table: digits and a point, or a dash\<close>
  "is_num s = (s = ''-'' \<or> s \<noteq> [] \<and> list_all is_num_char s \<and> py_float s \<noteq> None)"

fun settle_ok :: "settle_cols \<Rightarrow> bool" where
  "settle_ok No_settle = True"
| "settle_ok (Window_settle _ n) = (is_num n \<and> n \<noteq> ''-'')"
| "settle_ok (Settle n k) = (is_num n \<and> n \<noteq> ''-'' \<and> spell k = k)"

definition printed_ok :: "printed \<Rightarrow> bool" where
  "printed_ok r \<longleftrightarrow> spell (pr_hazard r) = pr_hazard r \<and> spell (pr_rung r) = pr_rung r \<and> spell (pr_role r) = pr_role r
     \<and> \<not> starts_with ''('' (pr_role r) \<and> settle_ok (pr_settle r)
     \<and> (\<forall>k. pr_term r = Some k \<longrightarrow> k \<noteq> [] \<and> hd k \<notin> set ''()'' \<and> last k \<notin> set ''()'')
     \<and> (case pr_nums r of (a, b, c) \<Rightarrow> is_num a \<and> is_num b \<and> is_num c)
     \<and> (case pr_sums r of (a, b, c) \<Rightarrow> is_num a \<and> is_num b \<and> is_num c)"

lemma is_num_tok:
  assumes "is_num s"
  shows "num_tok s = Inr (num_of s)" "spell s = s" "s \<noteq> ''window''" "removeprefix ''>='' s = s"
proof -
  show "num_tok s = Inr (num_of s)" using assms by (auto simp: is_num_def num_of_def num_tok_def)
  have n: "hd s \<noteq> CHR ''m''" "hd s \<noteq> CHR ''l''" "hd s \<noteq> CHR ''d''" "hd s \<noteq> CHR ''w''" "hd s \<noteq> CHR ''>''" "s \<noteq> []"
    using assms by (cases s; auto simp: is_num_def is_num_char_def is_digit_def)+
  then show "spell s = s" "s \<noteq> ''window''" "removeprefix ''>='' s = s"
    by (auto simp: spell_def ROLE_SPELLING_def removeprefix_def starts_with_def split: if_splits) (cases s; simp)
qed

lemma paren_tok: "spell (''('' @ k @ '')'') = ''('' @ k @ '')''" "starts_with ''('' (''('' @ k @ '')'')"
  by (simp_all add: spell_def ROLE_SPELLING_def starts_with_def)

lemma strip_parens_term:
  assumes "k \<noteq> []" "hd k \<notin> set ''()''" "last k \<notin> set ''()''"
  shows "strip_parens (''('' @ k @ '')'') = k"
proof -
  let ?p = "\<lambda>c. c = CHR ''('' \<or> c = CHR '')''"
  have "dropWhile ?p (''('' @ k @ '')'') = k @ '')''" using assms by (cases k) auto
  moreover have "dropWhile ?p (rev (k @ '')'')) = rev k" using assms by (cases k rule: rev_cases) auto
  ultimately show ?thesis by (simp add: strip_parens_def Let_def)
qed

lemma py_nth_Cons: "py_nth (x # xs) 0 = Inr x" "0 < i \<Longrightarrow> py_nth (x # xs) i = py_nth xs (i - 1)"
  by (simp_all add: py_nth_def nat_diff_distrib nth_Cons' Let_def)

lemma parse_settle_toks:
  assumes "settle_ok c"
  shows "parse_settle (a # b # d # map spell (settle_toks c) @ rest) = Inr (fst (settle_of c), snd (settle_of c), rest)"
proof (cases c)
  case No_settle
  then show ?thesis by (simp add: parse_settle_def py_nth_Cons spell_def ROLE_SPELLING_def)
next
  case (Window_settle atleast n)
  have n: "is_num n" using assms Window_settle by simp
  have s: "spell ((if atleast then ''>='' else []) @ n) = (if atleast then ''>='' else []) @ n"
    using is_num_tok(2) [OF n] by (auto simp: spell_def ROLE_SPELLING_def)
  have r: "removeprefix ''>='' ((if atleast then ''>='' else []) @ n) = n"
    using is_num_tok(4) [OF n] by (auto simp: removeprefix_def starts_with_def)
  have w: "spell ''window'' = ''window''" by (simp add: spell_def ROLE_SPELLING_def)
  define u where "u = (if atleast then ''>='' else []) @ n"
  have "map spell (settle_toks c) = [''window'', u]" by (simp only: Window_settle settle_toks.simps list.map s w u_def)
  moreover have "removeprefix ''>='' u = n" by (simp only: r u_def)
  ultimately show ?thesis using is_num_tok(1) [OF n] by (simp add: Window_settle parse_settle_def py_nth_Cons)
next
  case (Settle n k)
  then have n: "is_num n" "n \<noteq> ''-''" "spell k = k" using assms by simp_all
  then show ?thesis using is_num_tok [OF n(1)] by (simp add: Settle parse_settle_def py_nth_Cons)
qed


lemma parse_row_toks:
  assumes "printed_ok r"
  shows "parse_row ends (map spell (row_toks r)) = Inr (row_of ends r)"
proof -
  obtain d w o1 where n: "pr_nums r = (d, w, o1)" by (metis surj_pair)
  obtain x f s where m: "pr_sums r = (x, f, s)" by (metis surj_pair)
  have ok: "spell (pr_hazard r) = pr_hazard r" "spell (pr_rung r) = pr_rung r" "spell (pr_role r) = pr_role r"
    "\<not> starts_with ''('' (pr_role r)" "settle_ok (pr_settle r)" "is_num d" "is_num w" "is_num o1" "is_num x" "is_num f" "is_num s"
    using assms by (simp_all add: printed_ok_def n m)
  define S where "S = [x, f, s] @ map spell (pr_more r)"
  define R where "R = [d, w, o1] @ map spell (settle_toks (pr_settle r)) @ S"
  have rest: "num_at R 0 = Inr (num_of d)" "num_at R 1 = Inr (num_of w)" "num_at R 2 = Inr (num_of o1)"
    "parse_settle R = Inr (fst (settle_of (pr_settle r)), snd (settle_of (pr_settle r)), S)"
    using is_num_tok(1) ok parse_settle_toks [OF ok(5), of d w o1] by (simp_all add: R_def num_at_def py_nth_Cons)
  have sums: "num_at S 0 = Inr (num_of x)" "num_at S 1 = Inr (num_of f)" "num_at S 2 = Inr (num_of s)"
    using is_num_tok(1) ok by (simp_all add: S_def num_at_def py_nth_Cons)
  note facts = rest sums row_of_def n m py_nth_Cons
  show ?thesis
  proof (cases "pr_term r")
    case None
    have "map spell (row_toks r) = pr_hazard r # pr_rung r # pr_role r # R"
      using ok is_num_tok(2) None by (simp add: row_toks_def n m R_def S_def)
    then show ?thesis using ok(4) None by (simp add: parse_row_def facts)
  next
    case (Some k)
    have t: "map spell (row_toks r) = pr_hazard r # pr_rung r # (''('' @ k @ '')'') # pr_role r # R"
      using ok is_num_tok(2) paren_tok(1) Some by (simp add: row_toks_def n m R_def S_def)
    have "strip_parens (''('' @ k @ '')'') = k" using assms Some by (intro strip_parens_term) (simp_all add: printed_ok_def)
    then show ?thesis using paren_tok(2) [of k] Some t by (simp add: parse_row_def facts)
  qed
qed

text \<open>A printed table: the heading, the column names, the rows and a blank line, after lines that are not the
  heading.\<close>

definition row_line :: "printed \<Rightarrow> string \<Rightarrow> bool" where
  "row_line r line \<longleftrightarrow> py_words line = row_toks r \<and> \<not> starts_with '' '' line \<and> \<not> starts_with ''-- Fault-reaction'' line
     \<and> \<not> starts_with ''HAZARD'' line"

lemma explain_before:
  "\<forall>l \<in> set pre. \<not> starts_with ''-- Fault-reaction'' l \<Longrightarrow> explain_rows ends False [] (pre @ ls) = explain_rows ends False [] ls"
  by (induction pre) auto

lemma explain_body:
  "list_all2 row_line rs ls \<Longrightarrow> \<forall>r \<in> set rs. printed_ok r \<Longrightarrow> rows \<noteq> [] \<or> rs \<noteq> [] \<Longrightarrow>
     explain_rows ends True rows (ls @ [] # post) = Inr (rows @ map (row_of ends) rs)"
proof (induction rs ls arbitrary: rows rule: list_all2_induct)
  case Nil
  then show ?case by (simp add: starts_with_def)
next
  case (Cons r rs line ls)
  have ne: "py_words line \<noteq> []" using Cons.hyps(1) by (simp add: row_line_def row_toks_def)
  show ?case
    using Cons.hyps(1) ne Cons.prems Cons.IH [of "rows @ [row_of ends r]"] parse_row_toks [of r ends] by (simp add: row_line_def)
qed

text \<open>The budget table reads back as printed: every row between the column names and the blank line gives its hazard, rung,
  role, supervised term, times, settle form and sums, in order, with its window's end from the checker's note.\<close>

theorem explain_table_read_back:
  assumes "\<forall>l \<in> set pre. \<not> starts_with ''-- Fault-reaction'' l" "starts_with ''-- Fault-reaction'' heading" "starts_with ''HAZARD'' columns"
    and "list_all2 row_line rs ls" "\<forall>r \<in> set rs. printed_ok r" "rs \<noteq> []"
    and "window_ends (pre @ [heading, columns] @ ls @ [] # post) = Inr ends"
  shows "parse_explain (pre @ [heading, columns] @ ls @ [] # post) = Inr (map (row_of (dict_of ends)) rs)"
proof -
  have c: "\<not> starts_with ''-- Fault-reaction'' columns" using assms(3) by (cases columns) (auto simp: starts_with_def)
  have "parse_explain (pre @ [heading, columns] @ ls @ [] # post)
      = explain_rows (dict_of ends) False [] (pre @ [heading, columns] @ ls @ [] # post)"
    using assms(7) by (simp only: parse_explain_def rbind_simps)
  also have "\<dots> = explain_rows (dict_of ends) True [] (ls @ [] # post)"
    using assms(2,3) c by (simp add: explain_before [OF assms(1)])
  also have "\<dots> = Inr (map (row_of (dict_of ends)) rs)" using explain_body [OF assms(4,5), of "[]"] assms(6) by simp
  finally show ?thesis .
qed


section \<open>Witnesses\<close>

definition demo_row :: printed where
  "demo_row = \<lparr>pr_hazard = ''odd_exit'', pr_rung = ''stop'', pr_term = Some ''settle'', pr_role = ''overrun'',
     pr_nums = (''100.00'', ''-'', ''205''), pr_settle = Window_settle True ''10000.00'', pr_sums = (''305.5'', ''-'', ''1''), pr_more = [''x'']\<rparr>"

definition demo_line :: string where
  "demo_line = ''odd_exit  stop (settle) overrun 100.00 - 205 window >=10000.00 305.5 - 1 x''"

theorem explain_table_read_back_witness:
  "\<exists>rows. parse_explain [''note'', ''-- Fault-reaction budgets'', ''HAZARD RUNG'', demo_line, [], ''end''] = Inr rows
     \<and> map r_term rows = [Some ''settle''] \<and> map r_settle rows = [Some 10000]"
proof -
  have l: "list_all2 row_line [demo_row] [demo_line]" unfolding row_line_def list_all2_Cons by code_simp
  have nums: "is_num ''100.00''" "is_num ''-''" "is_num ''205''" "is_num ''10000.00''" "is_num ''305.5''" "is_num ''1''" by code_simp+
  have k: "\<forall>r \<in> set [demo_row]. printed_ok r"
    using nums by (simp add: printed_ok_def demo_row_def spell_def ROLE_SPELLING_def starts_with_def)
  have p: "\<forall>l \<in> set [''note'']. \<not> starts_with ''-- Fault-reaction'' l" "starts_with ''-- Fault-reaction'' ''-- Fault-reaction budgets''"
    "starts_with ''HAZARD'' ''HAZARD RUNG''" by code_simp+
  have e: "window_ends ([''note''] @ [''-- Fault-reaction budgets'', ''HAZARD RUNG''] @ [demo_line] @ [] # [''end'']) = Inr []" by code_simp
  have n: "num_of ''10000.00'' = Some 10000" by code_simp
  from explain_table_read_back [OF p l k _ e] n show ?thesis by (simp add: row_of_def demo_row_def)
qed

theorem live_view_agrees_with_run_witness:
  "read_events py_int Some [Some ([CHR ''7'', newline, CHR ''3''] @ [newline])] = Inr [3, 7]"
proof -
  let ?cs = "[[CHR ''7''], [CHR ''7'', newline]]"
  have g: "growing [] (?cs @ [[CHR ''7'', newline, CHR ''3''] @ [newline]])" by code_simp
  have strip2: "strip (strip l) = strip l" for l
  proof -
    have h: "dropWhile is_space u = u" if "u = [] \<or> \<not> is_space (hd u)" for u using that by (cases u) auto
    define v where "v = dropWhile is_space l"
    define w where "w = dropWhile is_space (rev v)"
    have "w = [] \<or> \<not> is_space (hd w)" unfolding w_def by (metis hd_dropWhile)
    moreover have "rev w = [] \<or> \<not> is_space (hd (rev w))"
    proof (cases "w = []")
      case False
      obtain a where a: "rev v = a @ w" unfolding w_def by (metis takeWhile_dropWhile_id)
      then have "v = rev w @ rev a" by (metis rev_append rev_rev_ident)
      then have "hd v = hd (rev w)" "v \<noteq> []" using False by auto
      then show ?thesis unfolding v_def by (metis hd_dropWhile)
    qed simp
    ultimately show ?thesis unfolding strip_def v_def [symmetric] w_def [symmetric] using h by simp
  qed
  have j: "\<forall>l. py_int (strip l) = py_int l" by (simp add: py_int_def strip2)
  have f: "fst (polls py_int (map Some (?cs @ [[CHR ''7'', newline, CHR ''3''] @ [newline]])) Tail) = [7, 3]" by code_simp
  have t: "\<forall>e \<in> set (fst (polls py_int (map Some (?cs @ [[CHR ''7'', newline, CHR ''3''] @ [newline]])) Tail)). Some e \<noteq> None" by simp
  from live_view_agrees_with_run [OF g j t] show ?thesis unfolding f by (simp add: sort_key_def comp_def)
qed

end
