(* ===== verification/Text_Scan.thy ===== *)
theory Text_Scan
  imports Timeline
begin

text \<open>What the tools use of Python's \<open>re\<close>, on ASCII text. A pattern is a function from a text to what its groups hold and
  what follows the match, when it matches at the start; \<open>search\<close> tries it at every position from the left, \<open>findall\<close>
  goes on after each match. Every pattern of the tools reads white space, words and numbers greedily, and a shorter
  reading never lets the rest match, so a match at a position is found without backtracking.\<close>

abbreviation skip_ws :: "string \<Rightarrow> string" where "skip_ws \<equiv> dropWhile is_space"

fun search :: "(string \<Rightarrow> 'a option) \<Rightarrow> string \<Rightarrow> 'a option" where
  "search p [] = p []"
| "search p (c # s) = (case p (c # s) of Some x \<Rightarrow> Some x | None \<Rightarrow> search p s)"

text \<open>The patterns read at least one character; the test keeps the function total for every \<open>p\<close>.\<close>

function findall :: "(string \<Rightarrow> ('a \<times> string) option) \<Rightarrow> string \<Rightarrow> 'a list" where
  "findall p s =
     (case p s of
        Some (x, r) \<Rightarrow> if length r < length s then x # findall p r else []
      | None \<Rightarrow> (case s of [] \<Rightarrow> [] | _ # t \<Rightarrow> findall p t))"
  by pat_completeness auto

termination findall
  by (relation "measure (length \<circ> snd)") auto

declare findall.simps [simp del]

text \<open>\<open>lit\s*c\<close>, then \<open>p\<close>.\<close>

definition blk :: "string \<Rightarrow> char \<Rightarrow> (string \<Rightarrow> 'a option) \<Rightarrow> string \<Rightarrow> 'a option" where
  "blk lit c p s = Option.bind (eat lit s) (\<lambda>r. Option.bind (eat [c] (skip_ws r)) p)"

text \<open>\<open>(\w+)\<close> and \<open>(\d+)\<close>.\<close>

abbreviation eat_word :: "string \<Rightarrow> (string \<times> string) option" where "eat_word \<equiv> eat_while ident_char"
abbreviation eat_digits :: "string \<Rightarrow> (string \<times> string) option" where "eat_digits \<equiv> eat_while is_digit"

definition upper_char :: "char \<Rightarrow> bool" where
  "upper_char c = (let n = of_char c :: nat in 65 \<le> n \<and> n \<le> 90)"

definition of_opt :: "py_error \<Rightarrow> 'a option \<Rightarrow> 'a res" where   \<comment> \<open>a use of a match that may be \<open>None\<close>\<close>
  "of_opt e x = (case x of None \<Rightarrow> Inl e | Some y \<Rightarrow> Inr y)"

lemma of_opt_simps [simp]: "of_opt e None = Inl e" "of_opt e (Some x) = Inr x"
  by (simp_all add: of_opt_def)

section \<open>Reading words and numbers\<close>

lemma eat_append [simp]: "eat p (p @ s) = Some s"
  by (simp add: eat_def starts_with_def)

lemma eat_Cons [simp]: "eat (c # p) (d # s) = (if c = d then eat p s else None)" "eat [] s = Some s" "eat (c # p) [] = None"
  by (simp_all add: eat_def starts_with_def)

lemma eat_Some: "eat p s = Some r \<longleftrightarrow> s = p @ r"
  by (auto simp: eat_def starts_with_def) (metis append_take_drop_id)

lemma eat_while_append: "w \<noteq> [] \<Longrightarrow> list_all p w \<Longrightarrow> s = [] \<or> \<not> p (hd s) \<Longrightarrow> eat_while p (w @ s) = Some (w, s)"
  by (cases s) (auto simp: eat_while_def list_all_iff takeWhile_append dropWhile_append takeWhile_eq_all_conv [THEN iffD2])

lemma eat_while_None: "s = [] \<or> \<not> p (hd s) \<Longrightarrow> eat_while p s = None"
  by (cases s) (auto simp: eat_while_def)

lemma drop_spaces: "list_all is_space w \<Longrightarrow> s = [] \<or> \<not> is_space (hd s) \<Longrightarrow> dropWhile is_space (w @ s) = s"
  by (cases s) (auto simp: list_all_iff dropWhile_append)

lemma scan_chars: "is_space c \<Longrightarrow> \<not> ident_char c" "is_digit c \<Longrightarrow> ident_char c"
  by (auto simp: is_space_def ident_char_def ident_start_def is_digit_def Let_def)

lemma chars_not [simp]:
  "\<not> ident_char CHR '';''" "\<not> ident_char CHR '' ''" "\<not> ident_char CHR ''{''" "\<not> ident_char CHR ''}''" "\<not> ident_char CHR ''=''"
  "\<not> ident_char CHR ''[''" "\<not> ident_char CHR '']''" "\<not> ident_char CHR '':''" "\<not> ident_char CHR ''/''" "\<not> ident_char CHR ''*''"
  "\<not> ident_char CHR 0x0A" "\<not> ident_char CHR 9"
  "is_space CHR '' ''" "is_space CHR 0x0A" "is_space CHR 9" "\<not> is_space CHR '';''" "\<not> is_space CHR ''{''" "\<not> is_space CHR ''}''"
  "\<not> is_space CHR ''=''" "\<not> is_space CHR ''[''" "\<not> is_space CHR '']''" "\<not> is_space CHR '':''" "\<not> is_space CHR ''r''" "\<not> is_space CHR ''e''"
  "\<not> is_space CHR ''d''" "\<not> is_space CHR ''s''" "\<not> is_space CHR ''t''"
  "\<not> is_digit CHR '';''" "\<not> is_digit CHR '']''"
  by (simp_all add: ident_char_def ident_start_def is_space_def is_digit_def Let_def)

definition word :: "string \<Rightarrow> bool" where
  "word w = (w \<noteq> [] \<and> list_all ident_char w)"

lemma eat_word_append: "word w \<Longrightarrow> s = [] \<or> \<not> ident_char (hd s) \<Longrightarrow> eat_word (w @ s) = Some (w, s)"
  by (simp add: word_def eat_while_append)

lemma skip_ws_word: "word w \<Longrightarrow> skip_ws (w @ s) = w @ s"
  by (cases w) (auto simp: word_def dest: scan_chars(1))

lemma word_chars: "word w \<Longrightarrow> \<not> ident_char c \<Longrightarrow> c \<notin> set w"
  by (auto simp: word_def list_all_iff)

lemma eat_digits_dec: "s = [] \<or> \<not> is_digit (hd s) \<Longrightarrow> eat_digits (dec_nat n @ s) = Some (dec_nat n, s)"
  using dec_nat_digits [of n] by (intro eat_while_append) auto

lemma word_dec_nat: "word (dec_nat n)"
  using dec_nat_digits [of n] scan_chars(2) by (auto simp: word_def list_all_iff)

section \<open>Searching\<close>

text \<open>\<open>u\<close> ends with \<open>lit\<close> and white space.\<close>

definition ends_blk :: "string \<Rightarrow> string \<Rightarrow> bool" where
  "ends_blk lit u = (take (length lit) (skip_ws (rev u)) = rev lit)"

lemma ends_blk_iff:
  assumes "lit \<noteq> []" "\<not> is_space (last lit)"
  shows "ends_blk lit u \<longleftrightarrow> (\<exists>v w. u = v @ lit @ w \<and> list_all is_space w)"
proof
  assume "ends_blk lit u"
  then have "skip_ws (rev u) = rev lit @ drop (length lit) (skip_ws (rev u))"
    unfolding ends_blk_def by (metis append_take_drop_id)
  then have "rev u = takeWhile is_space (rev u) @ rev lit @ drop (length lit) (skip_ws (rev u))"
    by (metis takeWhile_dropWhile_id)
  then have "u = rev (drop (length lit) (skip_ws (rev u))) @ lit @ rev (takeWhile is_space (rev u))"
    by (metis append.assoc rev_append rev_rev_ident)
  moreover have "list_all is_space (rev (takeWhile is_space (rev u)))"
    by (auto simp: list_all_iff dest: set_takeWhileD)
  ultimately show "\<exists>v w. u = v @ lit @ w \<and> list_all is_space w" by blast
next
  assume "\<exists>v w. u = v @ lit @ w \<and> list_all is_space w"
  then obtain v w where u: "u = v @ lit @ w" "list_all is_space w" by blast
  have h: "rev lit @ rev v = [] \<or> \<not> is_space (hd (rev lit @ rev v))"
    using assms by (cases lit rule: rev_cases) auto
  have "skip_ws (rev u) = rev lit @ rev v"
    using drop_spaces [OF _ h, of "rev w"] u by (simp add: list_all_iff)
  then show "ends_blk lit u" by (simp add: ends_blk_def)
qed

lemma blk_at:
  assumes "c \<notin> set u" "c \<notin> set lit" "\<not> is_space c"
  shows "blk lit c p (u @ c # s) = (if \<exists>w. u = lit @ w \<and> list_all is_space w then p s else None)"
proof (cases "\<exists>w. u = lit @ w \<and> list_all is_space w")
  case True
  then obtain w where w: "u = lit @ w" "list_all is_space w" by blast
  then have "skip_ws (w @ c # s) = c # s" using drop_spaces [of w "c # s"] assms(3) by simp
  then show ?thesis using w by (auto simp: blk_def)
next
  case False
  have "blk lit c p (u @ c # s) = None"
  proof (rule ccontr)
    assume "blk lit c p (u @ c # s) \<noteq> None"
    then obtain r t where r: "u @ c # s = lit @ r" "skip_ws r = c # t"
      by (auto simp: blk_def bind_eq_Some_conv eat_Some)
    then have "r = takeWhile is_space r @ c # t" by (metis takeWhile_dropWhile_id)
    moreover have sp: "list_all is_space (takeWhile is_space r)" by (auto simp: list_all_iff dest: set_takeWhileD)
    ultimately have e: "u @ c # s = (lit @ takeWhile is_space r) @ c # t" using r(1) by simp
    have n: "c \<notin> set (lit @ takeWhile is_space r)" using assms(2,3) by (auto dest: set_takeWhileD)
    have tw: "takeWhile (\<lambda>x. x \<noteq> c) (v @ c # y) = v" if "c \<notin> set v" for v y
      using that by (subst takeWhile_append2) auto
    have "u = lit @ takeWhile is_space r" using tw [OF assms(1), of s] tw [OF n, of t] e by simp
    with sp False show False by blast
  qed
  then show ?thesis by (simp only: if_not_P [OF False])
qed

lemma blk_None: "c \<notin> set u \<Longrightarrow> \<not> is_space c \<Longrightarrow> blk lit c p u = None"
proof (rule ccontr)
  assume c: "c \<notin> set u" "\<not> is_space c" "blk lit c p u \<noteq> None"
  then obtain r t where r: "u = lit @ r" "skip_ws r = c # t" by (auto simp: blk_def bind_eq_Some_conv eat_Some)
  then have "c \<in> set r" by (metis list.set_intros(1) set_dropWhileD)
  with r c(1) show False by simp
qed

text \<open>A pattern \<open>lit\s*c\<close> on a text cut at its first \<open>c\<close>.\<close>

lemma search_blk:
  assumes "c \<notin> set u" "c \<notin> set lit" "\<not> is_space c" "lit \<noteq> []" "\<not> is_space (last lit)"
  shows "search (blk lit c p) (u @ c # s) =
    (if ends_blk lit u then (case p s of Some x \<Rightarrow> Some x | None \<Rightarrow> search (blk lit c p) s) else search (blk lit c p) s)"
  using assms(1)
proof (induction u)
  case Nil
  have "blk lit c p (c # s) = None" using blk_at [of c "[]" lit p s] assms by auto
  moreover have "\<not> ends_blk lit []" using assms(4) by (simp add: ends_blk_def)
  ultimately show ?case by simp
next
  case (Cons x u)
  have at: "blk lit c p ((x # u) @ c # s) = (if \<exists>w. x # u = lit @ w \<and> list_all is_space w then p s else None)"
    by (rule blk_at [OF Cons.prems assms(2,3)])
  note e = ends_blk_iff [OF assms(4,5)]
  show ?case
  proof (cases "\<exists>w. x # u = lit @ w \<and> list_all is_space w")
    case True
    then obtain w where w: "x # u = lit @ w" "list_all is_space w" by blast
    have "\<not> ends_blk lit u"
    proof
      assume "ends_blk lit u"
      then obtain v w' where v: "u = v @ lit @ w'" "list_all is_space w'" unfolding e by blast
      have "lit @ w = (x # v) @ lit @ w'" using w(1) v(1) by simp
      then have "rev w @ rev lit = rev w' @ rev lit @ rev (x # v)"
        by (metis append.assoc rev_append)
      moreover have "skip_ws (rev w @ rev lit) = rev lit" "skip_ws (rev w' @ rev lit @ rev (x # v)) = rev lit @ rev (x # v)"
        using w(2) v(2) assms(4,5) drop_spaces [of "rev w" "rev lit"] drop_spaces [of "rev w'" "rev lit @ rev (x # v)"]
        by (simp_all add: list_all_iff hd_rev hd_append)
      ultimately have "length (rev lit) = length (rev lit @ rev (x # v))" by metis
      then show False by simp
    qed
    moreover have "ends_blk lit (x # u)" unfolding e using w by (metis append_Nil)
    ultimately show ?thesis using at True Cons.IH Cons.prems by (auto split: option.splits)
  next
    case False
    have "ends_blk lit (x # u) = ends_blk lit u"
    proof
      assume "ends_blk lit (x # u)"
      then obtain v w where v: "x # u = v @ lit @ w" "list_all is_space w" unfolding e by blast
      with False obtain v' where "v = x # v'" by (cases v) auto
      with v show "ends_blk lit u" unfolding e by auto
    next
      assume "ends_blk lit u"
      then show "ends_blk lit (x # u)" unfolding e by (metis append_Cons)
    qed
    then show ?thesis using at False Cons.IH Cons.prems by simp
  qed
qed

lemma search_blk_none: "c \<notin> set u \<Longrightarrow> \<not> is_space c \<Longrightarrow> search (blk lit c p) u = None"
  by (induction u) (auto simp: blk_None)

lemma findall_search:
  assumes "\<And>s x r. p s = Some (x, r) \<Longrightarrow> length r < length s"
  shows "findall p s = (case search p s of None \<Rightarrow> [] | Some (x, r) \<Rightarrow> x # findall p r)"
proof (induction s)
  case Nil
  then show ?case using assms [of "[]"] by (subst findall.simps) (auto split: option.splits)
next
  case (Cons c s)
  then show ?case using assms [of "c # s"] by (subst findall.simps) (auto split: option.splits)
qed

lemma findall_skip: "p (c # s) = None \<Longrightarrow> findall p (c # s) = findall p s"
  by (subst findall.simps) simp

lemma findall_step: "p s = Some (x, r) \<Longrightarrow> length r < length s \<Longrightarrow> findall p s = x # findall p r"
  by (subst findall.simps) simp

lemma findall_end: "p [] = None \<Longrightarrow> findall p [] = []"
  by (subst findall.simps) simp

lemma blk_shorter:
  assumes "\<And>s x r. q s = Some (x, r) \<Longrightarrow> length r \<le> length s" "blk lit c q s = Some (x, r)"
  shows "length r < length s"
proof -
  obtain a b where s: "s = lit @ a" "skip_ws a = c # b" "q b = Some (x, r)"
    using assms(2) by (auto simp: blk_def bind_eq_Some_conv eat_Some)
  have "length b < length a" using length_dropWhile_le [of is_space a] s(2) by simp
  then show ?thesis using assms(1) [OF s(3)] s(1) by simp
qed

lemma findall_blk:
  assumes "c \<notin> set u" "c \<notin> set lit" "\<not> is_space c" "lit \<noteq> []" "\<not> is_space (last lit)"
    and q: "\<And>s x r. q s = Some (x, r) \<Longrightarrow> length r \<le> length s"
  shows "findall (blk lit c q) (u @ c # s) =
    (if ends_blk lit u then (case q s of Some (x, r) \<Rightarrow> x # findall (blk lit c q) r | None \<Rightarrow> findall (blk lit c q) s)
     else findall (blk lit c q) s)"
proof -
  have f: "findall (blk lit c q) s = (case search (blk lit c q) s of None \<Rightarrow> [] | Some (x, r) \<Rightarrow> x # findall (blk lit c q) r)" for s
    by (rule findall_search) (rule blk_shorter [OF q])
  show ?thesis
    by (subst f) (subst search_blk [OF assms(1-5)], auto simp: f [of s] split: option.splits)
qed

lemma findall_blk_none:
  assumes "c \<notin> set u" "\<not> is_space c" "\<And>s x r. q s = Some (x, r) \<Longrightarrow> length r \<le> length s"
  shows "findall (blk lit c q) u = []"
  by (subst findall_search) (auto simp: search_blk_none [OF assms(1,2)] intro: blk_shorter [OF assms(3)])

end
