(* ===== verification/Tsdl.thy ===== *)
theory Tsdl
  imports Text_Scan Trace_Join
begin

text \<open>The TSDL metadata of the pinned Zephyr tree, as \<open>parse_tsdl\<close> of \<^verbatim>\<open>src/safety_island_tracing/island_trace.py\<close> reads
  it: comments removed, the sizes of the integer types, the event header, and of every event its name, id and fields.

  The file is ASCII text. A use of a match that is \<open>None\<close> is an \<open>AttributeError\<close>, a body without its closing brace an
  \<open>IndexError\<close>.\<close>

section \<open>The parser\<close>

text \<open>\<open>re.sub(r"/\*.*?\*/", "", text, flags=re.S)\<close>.\<close>

function strip_comments :: "string \<Rightarrow> string" where
  "strip_comments s =
     (case Option.bind (eat ''/*'' s) (search (eat ''*/'')) of
        Some r \<Rightarrow> if length r < length s then strip_comments r else []
      | None \<Rightarrow> (case s of [] \<Rightarrow> [] | c # t \<Rightarrow> c # strip_comments t))"
  by pat_completeness auto

termination strip_comments
  by (relation "measure length") auto

declare strip_comments.simps [simp del]

text \<open>\<open>typealias integer\s*\{([^}]*)\}\s*:=\s*(\w+)\s*;\<close> after its opening brace: the attributes and the name.\<close>

definition alias_body :: "string \<Rightarrow> ((string \<times> string) \<times> string) option" where
  "alias_body s =
     Option.bind (eat ''}'' (dropWhile (\<lambda>c. c \<noteq> CHR ''}'') s)) (\<lambda>a.
     Option.bind (eat '':='' (skip_ws a)) (\<lambda>b.
     Option.bind (eat_word (skip_ws b)) (\<lambda>(n, d).
     Option.bind (eat '';'' (skip_ws d)) (\<lambda>e. Some ((takeWhile (\<lambda>c. c \<noteq> CHR ''}'') s, n), e)))))"

definition number_after :: "string \<Rightarrow> string \<Rightarrow> string option" where   \<comment> \<open>\<open>lit\s*=\s*(\d+)\<close>\<close>
  "number_after lit = search (blk lit CHR ''='' (\<lambda>s. map_option fst (eat_digits (skip_ws s))))"

definition alias_size :: "string \<times> string \<Rightarrow> (string \<times> nat) res" where
  "alias_size gn = rbind (of_opt AttributeError (number_after ''size'' (fst gn))) (\<lambda>ds. Inr (snd gn, nat (digits_int ds) div 8))"

definition header_body :: "string \<Rightarrow> string option" where   \<comment> \<open>\<open>([^}]*)\}\<close>\<close>
  "header_body s = (if CHR ''}'' \<in> set s then Some (takeWhile (\<lambda>c. c \<noteq> CHR ''}'') s) else None)"

definition decl :: "string \<Rightarrow> ((string \<times> string) \<times> string) option" where   \<comment> \<open>\<open>(\w+)\s+(\w+)\s*\<close>\<close>
  "decl s =
     Option.bind (eat_word s) (\<lambda>(t, a). Option.bind (eat_while is_space a) (\<lambda>(_, b).
     Option.bind (eat_word b) (\<lambda>(n, c). Some ((t, n), skip_ws c))))"

definition header_field :: "string \<Rightarrow> ((string \<times> string) \<times> string) option" where
  "header_field s = Option.bind (decl s) (\<lambda>(tn, c). Option.bind (eat '';'' c) (\<lambda>d. Some (tn, d)))"

definition array_part :: "string \<Rightarrow> nat option \<times> string" where   \<comment> \<open>\<open>(?:\[(\d+)\])?\s*\<close>\<close>
  "array_part c =
     (case Option.bind (eat ''['' c) (\<lambda>a. Option.bind (eat_digits a) (\<lambda>(ds, b).
        Option.bind (eat '']'' b) (\<lambda>d. Some (nat (digits_int ds), skip_ws d)))) of
        Some (k, d) \<Rightarrow> (Some k, d) | None \<Rightarrow> (None, c))"

definition event_field :: "string \<Rightarrow> ((string \<times> string \<times> nat option) \<times> string) option" where
  "event_field s =
     Option.bind (decl s) (\<lambda>((t, n), c). (case array_part c of (arr, d) \<Rightarrow>
       Option.bind (eat '';'' d) (\<lambda>e. Some ((t, n, arr), e))))"

text \<open>The text up to the brace that closes the body; \<open>d\<close> is the depth.\<close>

fun braces :: "nat \<Rightarrow> string \<Rightarrow> string option" where
  "braces 0 s = Some []"
| "braces (Suc d) [] = None"
| "braces (Suc d) (c # s) =
     (if c = CHR ''{'' then map_option ((#) c) (braces (Suc (Suc d)) s)
      else if c = CHR ''}'' then (if d = 0 then Some [] else map_option ((#) c) (braces d s))
      else map_option ((#) c) (braces (Suc d) s))"

definition name_value :: "string \<Rightarrow> string option" where   \<comment> \<open>\<open>\s*(\w+)\s*;\<close> after the \<open>=\<close>\<close>
  "name_value s = Option.bind (eat_word (skip_ws s)) (\<lambda>(n, r). map_option (\<lambda>_. n) (eat '';'' (skip_ws r)))"

definition hex_digit :: "char \<Rightarrow> bool" where
  "hex_digit c = (let n = of_char c :: nat in is_digit c \<or> 65 \<le> n \<and> n \<le> 70 \<or> 97 \<le> n \<and> n \<le> 102)"

definition hex_val :: "char \<Rightarrow> int" where
  "hex_val c = (if is_digit c then digit_val c else if of_char c < (97 :: nat) then of_char c - 55 else of_char c - 87)"

definition id_value :: "string \<Rightarrow> string option" where   \<comment> \<open>\<open>\s*(0x[0-9A-Fa-f]+|\d+)\s*;\<close>\<close>
  "id_value s =
     (let t = skip_ws s;
          ends = (\<lambda>g r. map_option (\<lambda>_. g) (eat '';'' (skip_ws r)))
      in case Option.bind (eat ''0x'' t) (\<lambda>a. Option.bind (eat_while hex_digit a) (\<lambda>(hs, r). ends (''0x'' @ hs) r)) of
           Some g \<Rightarrow> Some g
         | None \<Rightarrow> Option.bind (eat_digits t) (\<lambda>(ds, r). ends ds r))"

definition int_base0 :: "string \<Rightarrow> int res" where   \<comment> \<open>\<open>int(x, 0)\<close> of what \<open>id_value\<close> gives\<close>
  "int_base0 g =
     (if starts_with ''0x'' g then Inr (foldl (\<lambda>n c. n * 16 + hex_val c) 0 (drop 2 g))
      else if starts_with ''0'' g \<and> (\<exists>c \<in> set g. c \<noteq> CHR ''0'') then Inl ValueError
      else Inr (digits_int g))"

text \<open>\<open>fields\s*:=\s*struct\s*\{(.*)\}\<close>, up to the last closing brace.\<close>

definition fields_body :: "string \<Rightarrow> string option" where
  "fields_body s =
     Option.bind (eat ''='' s) (\<lambda>a. Option.bind (eat ''struct'' (skip_ws a)) (\<lambda>b. Option.bind (eat ''{'' (skip_ws b)) (\<lambda>d.
       if CHR ''}'' \<in> set d then Some (rev (tl (dropWhile (\<lambda>c. c \<noteq> CHR ''}'') (rev d)))) else None)))"

definition field_of :: "(string \<times> nat) list \<Rightarrow> string \<times> string \<times> nat option \<Rightarrow> tfield res" where
  "field_of sizes f =
     (case f of (t, n, arr) \<Rightarrow>
        rbind (key_of sizes t) (\<lambda>sz. Inr \<lparr>tf_name = n, tf_type = t, tf_arr = arr, tf_size = sz\<rparr>))"

definition event_of :: "(string \<times> nat) list \<Rightarrow> string \<Rightarrow> (int \<times> string \<times> tfield list) res" where
  "event_of sizes rest =
     rbind (of_opt IndexError (braces 1 rest)) (\<lambda>body.
     rbind (of_opt AttributeError (search (blk ''name'' CHR ''='' name_value) body)) (\<lambda>name.
     rbind (of_opt AttributeError (search (blk ''id'' CHR ''='' id_value) body)) (\<lambda>g.
     rbind (int_base0 g) (\<lambda>e.
     rbind (case search (blk ''fields'' CHR '':'' fields_body) body of
              None \<Rightarrow> Inr [] | Some inner \<Rightarrow> rmap (field_of sizes) (findall event_field inner)) (\<lambda>fs.
       Inr (e, name, fs))))))"

definition parse_tsdl :: "string \<Rightarrow> tsdl res" where
  "parse_tsdl metadata =
     (let t = strip_comments metadata
      in rbind (rmap alias_size (findall (blk ''typealias integer'' CHR ''{'' alias_body) t)) (\<lambda>sizes.
         rbind (of_opt AttributeError (search (blk ''struct event_header'' CHR ''{'' header_body) t)) (\<lambda>h.
         rbind (key_of (map (\<lambda>(ty, n). (n, ty)) (findall header_field h)) ''id'') (\<lambda>ty.
         rbind (key_of sizes ty) (\<lambda>sz.
         rbind (rmap (event_of sizes) (findall (blk ''event'' CHR ''{'' (\<lambda>s. Some (s, s))) t)) (\<lambda>es.
           Inr \<lparr>id_size = sz, events = dict_of es\<rparr>))))))"

text \<open>The metadata of a version: an override, else the file of the workspace store.\<close>

section \<open>Metadata as Zephyr writes it\<close>

definition alias_text :: "string \<times> nat \<Rightarrow> string" where
  "alias_text nb =
     ''typealias integer { size = '' @ dec_nat (snd nb) @ ''; align = 8; signed = ''
     @ (if starts_with ''int'' (fst nb) then ''true'' else ''false'') @ ''; } := '' @ fst nb @ '';'' @ [newline]"

definition header_text :: "(string \<times> string) list \<Rightarrow> string" where
  "header_text hs =
     ''struct event_header {'' @ [newline]
     @ concat (map (\<lambda>(t, n). CHR 9 # t @ '' '' @ n @ '';'' @ [newline]) hs) @ ''};'' @ [newline, newline]"

definition field_text :: "tfield \<Rightarrow> string" where
  "field_text f =
     [CHR 9, CHR 9] @ tf_type f @ '' '' @ tf_name f
     @ (case tf_arr f of None \<Rightarrow> [] | Some k \<Rightarrow> ''['' @ dec_nat k @ '']'') @ '';'' @ [newline]"

definition event_body :: "int \<times> string \<times> tfield list \<Rightarrow> string" where
  "event_body e =
     [newline, CHR 9] @ ''name = '' @ fst (snd e) @ '';'' @ [newline, CHR 9] @ ''id = '' @ py_hex (fst e) @ '';'' @ [newline]
     @ (if snd (snd e) = [] then []
        else CHR 9 # ''fields := struct {'' @ [newline] @ concat (map field_text (snd (snd e))) @ CHR 9 # ''};'' @ [newline])"

definition event_text :: "int \<times> string \<times> tfield list \<Rightarrow> string" where
  "event_text e = ''event {'' @ event_body e @ ''};'' @ [newline, newline]"

definition stream_text :: string where
  "stream_text =
     ''trace {'' @ [newline] @ ''major = 1;'' @ [newline] @ ''minor = 8;'' @ [newline] @ ''byte_order = le;'' @ [newline] @ ''};'' @ [newline, newline]
     @ ''stream {'' @ [newline] @ ''event.header := struct event_header;'' @ [newline] @ ''};'' @ [newline, newline]"

definition tsdl_text :: "(string \<times> nat) list \<Rightarrow> (string \<times> string) list \<Rightarrow> (int \<times> string \<times> tfield list) list \<Rightarrow> string" where
  "tsdl_text als hs evs = concat (map alias_text als) @ header_text hs @ stream_text @ concat (map event_text evs)"

section \<open>Reading it back\<close>

lemma word_no [simp]:
  "word w \<Longrightarrow> CHR ''{'' \<notin> set w" "word w \<Longrightarrow> CHR ''}'' \<notin> set w" "word w \<Longrightarrow> CHR ''='' \<notin> set w" "word w \<Longrightarrow> CHR '':'' \<notin> set w"
  "word w \<Longrightarrow> CHR ''/'' \<notin> set w"
  by (erule word_chars, simp)+

lemma cut_at [simp]:
  assumes "c \<notin> set u"
  shows "takeWhile (\<lambda>x. x \<noteq> c) (u @ c # s) = u" "dropWhile (\<lambda>x. x \<noteq> c) (u @ c # s) = c # s"
  using assms by (subst takeWhile_append2, auto) (subst dropWhile_append2, auto)

lemma drop_shorter: "length (skip_ws s) \<le> length s"
  by (rule length_dropWhile_le)

lemma eat_while_shorter: "eat_while p s = Some (w, r) \<Longrightarrow> length r \<le> length s"
  by (auto simp: eat_while_def length_dropWhile_le split: if_splits)

lemma eat_shorter: "eat p s = Some r \<Longrightarrow> length r \<le> length s"
  by (auto simp: eat_Some)

lemma alias_body_shorter: "alias_body s = Some (x, r) \<Longrightarrow> length r \<le> length s"
  by (auto simp: alias_body_def bind_eq_Some_conv dest!: eat_shorter eat_while_shorter)
    (meson drop_shorter length_dropWhile_le order_trans)

text \<open>The texts cut at their opening braces.\<close>

definition alias_attrs :: "string \<times> nat \<Rightarrow> string" where
  "alias_attrs nb = '' size = '' @ dec_nat (snd nb) @ ''; align = 8; signed = '' @ (if starts_with ''int'' (fst nb) then ''true'' else ''false'') @ ''; ''"

lemma alias_cut: "alias_text nb @ s = ''typealias integer '' @ CHR ''{'' # alias_attrs nb @ CHR ''}'' # '' := '' @ fst nb @ CHR '';'' # newline # s"
  by (simp add: alias_text_def alias_attrs_def)

lemma alias_attrs_no: "CHR ''}'' \<notin> set (alias_attrs nb)"
  using word_dec_nat [of "snd nb"] by (simp add: alias_attrs_def)

lemma alias_body_text:
  "word (fst nb) \<Longrightarrow> alias_body (alias_attrs nb @ CHR ''}'' # '' := '' @ fst nb @ CHR '';'' # s) = Some ((alias_attrs nb, fst nb), s)"
  unfolding alias_body_def cut_at [OF alias_attrs_no]
  by (simp add: eat_word_append skip_ws_word)

lemma alias_size_text: "alias_size (alias_attrs nb, fst nb) = Inr (fst nb, snd nb div 8)"
proof -
  have a: "alias_attrs nb = '' size '' @ CHR ''='' # '' '' @ dec_nat (snd nb) @ CHR '';''
      # '' align = 8; signed = '' @ (if starts_with ''int'' (fst nb) then ''true'' else ''false'') @ ''; ''"
    by (simp add: alias_attrs_def)
  have "number_after ''size'' (alias_attrs nb) = Some (dec_nat (snd nb))"
    unfolding number_after_def a
    by (subst search_blk) (simp_all add: ends_blk_def skip_ws_word word_dec_nat eat_digits_dec)
  then show ?thesis using dec_nat_digits [of "snd nb"] by (simp add: alias_size_def)
qed

abbreviation alias_pat :: "string \<Rightarrow> ((string \<times> string) \<times> string) option" where
  "alias_pat \<equiv> blk ''typealias integer'' CHR ''{'' alias_body"

abbreviation event_pat :: "string \<Rightarrow> (string \<times> string) option" where
  "event_pat \<equiv> blk ''event'' CHR ''{'' (\<lambda>s. Some (s, s))"

lemma find_aliases:
  assumes "\<forall>nb \<in> set als. word (fst nb)" "CHR ''{'' \<notin> set u"
  shows "\<exists>u'. CHR ''{'' \<notin> set u' \<and> findall alias_pat (u @ concat (map alias_text als) @ s)
    = map (\<lambda>nb. (alias_attrs nb, fst nb)) als @ findall alias_pat (u' @ s)"
  using assms
proof (induction als arbitrary: u)
  case Nil
  then show ?case by auto
next
  case (Cons nb als)
  let ?r = "newline # concat (map alias_text als) @ s"
  have t: "u @ concat (map alias_text (nb # als)) @ s
      = (u @ ''typealias integer '') @ CHR ''{'' # alias_attrs nb @ CHR ''}'' # '' := '' @ fst nb @ CHR '';'' # ?r"
    using alias_cut [of nb "concat (map alias_text als) @ s"] by simp
  have "findall alias_pat (u @ concat (map alias_text (nb # als)) @ s) = (alias_attrs nb, fst nb) # findall alias_pat ?r"
    unfolding t
    by (subst findall_blk) (use Cons.prems alias_body_text [of nb ?r] in \<open>simp_all add: ends_blk_def alias_body_shorter\<close>)
  then show ?case using Cons.IH [of "[newline]"] Cons.prems by auto
qed

lemma skip_aliases:
  assumes "CHR ''{'' \<notin> set u" "\<And>v. \<not> ends_blk lit (v @ ''typealias integer '')" "\<forall>nb \<in> set als. word (fst nb)"
    and "CHR ''{'' \<notin> set lit" "lit \<noteq> []" "\<not> is_space (last lit)" "\<And>s x r. q s = Some (x, r) \<Longrightarrow> length r \<le> length s"
  shows "\<exists>u'. CHR ''{'' \<notin> set u' \<and> findall (blk lit CHR ''{'' q) (u @ concat (map alias_text als) @ s) = findall (blk lit CHR ''{'' q) (u' @ s)"
  using assms(1,3)
proof (induction als arbitrary: u)
  case Nil
  then show ?case by auto
next
  case (Cons nb als)
  let ?u = "alias_attrs nb @ CHR ''}'' # '' := '' @ fst nb @ CHR '';'' # [newline]"
  have t: "u @ concat (map alias_text (nb # als)) @ s = (u @ ''typealias integer '') @ CHR ''{'' # ?u @ concat (map alias_text als) @ s"
    using alias_cut [of nb "concat (map alias_text als) @ s"] by simp
  have n: "CHR ''{'' \<notin> set ?u" using Cons.prems(2) word_dec_nat [of "snd nb"] by (simp add: alias_attrs_def)
  have "findall (blk lit CHR ''{'' q) (u @ concat (map alias_text (nb # als)) @ s) = findall (blk lit CHR ''{'' q) (?u @ concat (map alias_text als) @ s)"
    unfolding t by (subst findall_blk) (use assms Cons.prems(1) in simp_all)
  then show ?case using Cons.IH [OF n] Cons.prems by simp
qed

lemma search_map: "search (\<lambda>s. map_option f (p s)) s = map_option f (search p s)"
  by (induction s) (auto split: option.splits)

lemma search_first:
  "search (blk lit c p) s = (case findall (blk lit c (\<lambda>s. map_option (\<lambda>x. (x, [])) (p s))) s of [] \<Rightarrow> None | x # _ \<Rightarrow> Some x)"
proof -
  have b: "blk lit c (\<lambda>s. map_option (\<lambda>x. (x, [])) (p s)) = (\<lambda>s. map_option (\<lambda>x. (x, [])) (blk lit c p s))"
    by (rule ext) (auto simp: blk_def split: Option.bind_splits)
  have f: "findall (blk lit c (\<lambda>s. map_option (\<lambda>x. (x, [])) (p s))) s
      = (case search (blk lit c (\<lambda>s. map_option (\<lambda>x. (x, [])) (p s))) s of None \<Rightarrow> [] | Some (x, r) \<Rightarrow> x # findall (blk lit c (\<lambda>s. map_option (\<lambda>x. (x, [])) (p s))) r)"
    by (rule findall_search) (rule blk_shorter, auto)
  show ?thesis unfolding f by (simp add: b search_map split: option.splits)
qed

definition header_lines :: "(string \<times> string) list \<Rightarrow> string" where
  "header_lines hs = newline # concat (map (\<lambda>(t, n). CHR 9 # t @ '' '' @ n @ '';'' @ [newline]) hs)"

definition stream_tail :: string where   \<comment> \<open>what stands between the stream's opening brace and the first event\<close>
  "stream_tail = newline # ''event.header := struct event_header;'' @ [newline] @ ''};'' @ [newline, newline]"

lemma header_cut: "header_text hs @ s = ''struct event_header '' @ CHR ''{'' # header_lines hs @ CHR ''}'' # '';'' @ [newline, newline] @ s"
  by (simp add: header_text_def header_lines_def)

lemma stream_cut:
  "stream_text @ s = ''trace '' @ CHR ''{'' # ([newline] @ ''major = 1;'' @ [newline] @ ''minor = 8;'' @ [newline] @ ''byte_order = le;'' @ [newline] @ ''};'' @ [newline, newline] @ ''stream '')
     @ CHR ''{'' # stream_tail @ s"
  by (simp add: stream_text_def stream_tail_def)

lemma header_lines_no:
  assumes "\<forall>(t, n) \<in> set hs. word t \<and> word n"
  shows "CHR ''{'' \<notin> set (header_lines hs)" "CHR ''}'' \<notin> set (header_lines hs)"
  using assms by (induction hs) (auto simp: header_lines_def)

text \<open>After the header: the text from there on has no alias and no header, and its events are those written.\<close>

lemma after_header:
  assumes "\<forall>(t, n) \<in> set hs. word t \<and> word n" "CHR ''{'' \<notin> set u" "CHR ''{'' \<notin> set lit" "lit \<noteq> []" "\<not> is_space (last lit)"
    and "\<And>s x r. q s = Some (x, r) \<Longrightarrow> length r \<le> length s"
    and "\<And>v. \<not> ends_blk lit (v @ ''struct event_header '')" "\<And>v. \<not> ends_blk lit (v @ ''trace '')" "\<And>v. \<not> ends_blk lit (v @ ''stream '')"
  shows "findall (blk lit CHR ''{'' q) (u @ header_text hs @ stream_text @ s) = findall (blk lit CHR ''{'' q) (stream_tail @ s)"
proof -
  let ?u1 = "header_lines hs @ CHR ''}'' # '';'' @ [newline, newline] @ ''trace ''"
  let ?u2 = "[newline] @ ''major = 1;'' @ [newline] @ ''minor = 8;'' @ [newline] @ ''byte_order = le;'' @ [newline] @ ''};'' @ [newline, newline] @ ''stream ''"
  have skip: "findall (blk lit CHR ''{'' q) (v @ CHR ''{'' # t) = findall (blk lit CHR ''{'' q) t"
    if "CHR ''{'' \<notin> set v" "\<not> ends_blk lit v" for v t
    using that assms(3-6) by (subst findall_blk) simp_all
  have t: "u @ header_text hs @ stream_text @ s = (u @ ''struct event_header '') @ CHR ''{'' # ?u1 @ CHR ''{'' # ?u2 @ CHR ''{'' # stream_tail @ s"
    unfolding header_cut stream_cut by simp
  have e: "\<not> ends_blk lit (u @ ''struct event_header '')" "\<not> ends_blk lit ?u1" "\<not> ends_blk lit ?u2"
    using assms(7) [of u] assms(8) [of "header_lines hs @ CHR ''}'' # '';'' @ [newline, newline]"]
      assms(9) [of "[newline] @ ''major = 1;'' @ [newline] @ ''minor = 8;'' @ [newline] @ ''byte_order = le;'' @ [newline] @ ''};'' @ [newline, newline]"] by simp_all
  have n: "CHR ''{'' \<notin> set (u @ ''struct event_header '')" "CHR ''{'' \<notin> set ?u1" "CHR ''{'' \<notin> set ?u2"
    using assms(2) header_lines_no(1) [OF assms(1)] by simp_all
  show ?thesis unfolding t skip [OF n(1) e(1)] skip [OF n(2) e(2)] skip [OF n(3) e(3)] ..
qed

lemma find_header:
  assumes "\<forall>nb \<in> set als. word (fst nb)" "\<forall>(t, n) \<in> set hs. word t \<and> word n"
  shows "search (blk ''struct event_header'' CHR ''{'' header_body) (concat (map alias_text als) @ header_text hs @ s) = Some (header_lines hs)"
proof -
  let ?q = "\<lambda>s. map_option (\<lambda>x. (x, [])) (header_body s)"
  let ?p = "blk ''struct event_header'' CHR ''{'' ?q"
  have "\<exists>u. CHR ''{'' \<notin> set u \<and> findall ?p ([] @ concat (map alias_text als) @ header_text hs @ s) = findall ?p (u @ header_text hs @ s)"
    by (rule skip_aliases) (use assms(1) in \<open>auto simp: ends_blk_def\<close>)
  then obtain u where u: "CHR ''{'' \<notin> set u"
    "findall ?p (concat (map alias_text als) @ header_text hs @ s) = findall ?p (u @ header_text hs @ s)" by auto
  have t: "u @ header_text hs @ s = (u @ ''struct event_header '') @ CHR ''{'' # header_lines hs @ CHR ''}'' # '';'' @ [newline, newline] @ s"
    unfolding header_cut by simp
  have "findall ?p (u @ header_text hs @ s) = header_lines hs # findall ?p []"
    unfolding t by (subst findall_blk) (use u(1) header_lines_no(2) [OF assms(2)] in \<open>auto simp: ends_blk_def header_body_def\<close>)
  then show ?thesis unfolding search_first u(2) by simp
qed

section \<open>An event's body\<close>

lemma braces_skip: "CHR ''{'' \<notin> set u \<Longrightarrow> CHR ''}'' \<notin> set u \<Longrightarrow> braces (Suc d) (u @ s) = map_option ((@) u) (braces (Suc d) s)"
proof (induction u)
  case Nil
  have "(@) [] = (\<lambda>x :: string. x)" by (rule ext) simp
  then show ?case by (simp add: option.map_ident)
next
  case (Cons c u)
  then show ?case by (cases "braces (Suc d) s") auto
qed

definition event_head :: "int \<times> string \<times> tfield list \<Rightarrow> string" where   \<comment> \<open>up to the fields\<close>
  "event_head e = [newline, CHR 9] @ ''name = '' @ fst (snd e) @ '';'' @ [newline, CHR 9] @ ''id = '' @ py_hex (fst e) @ '';'' @ [newline]"

definition field_lines :: "tfield list \<Rightarrow> string" where
  "field_lines fs = newline # concat (map field_text fs) @ [CHR 9]"

lemma event_body_cut:
  "event_body e = event_head e @ (if snd (snd e) = [] then []
     else CHR 9 # ''fields := struct '' @ CHR ''{'' # field_lines (snd (snd e)) @ CHR ''}'' # '';'' @ [newline])"
  by (simp add: event_body_def event_head_def field_lines_def)

definition event_ok :: "(string \<times> nat) list \<Rightarrow> int \<times> string \<times> tfield list \<Rightarrow> bool" where
  "event_ok sizes e =
     (0 \<le> fst e \<and> word (fst (snd e))
      \<and> (\<forall>f \<in> set (snd (snd e)). word (tf_type f) \<and> word (tf_name f) \<and> dict_of sizes (tf_type f) = Some (tf_size f)))"

lemma hex_char: "d < 16 \<Longrightarrow> hex_digit (hexdig (int d)) \<and> hex_val (hexdig (int d)) = int d \<and> ident_char (hexdig (int d))"
proof -
  assume "d < 16"
  then have "d \<in> {0, 1, 2, 3, 4, 5, 6, 7, 8, 9, 10, 11, 12, 13, 14, 15}" by (auto simp: numeral_eq_Suc less_Suc_eq)
  then show ?thesis
    by (auto simp: hexdig_def hex_digit_def hex_val_def is_digit_def digit_val_def ident_char_def ident_start_def)
qed

lemma hex_nat_chars:
  "list_all hex_digit (hex_nat n) \<and> hex_nat n \<noteq> [] \<and> word (hex_nat n) \<and> foldl (\<lambda>n c. n * 16 + hex_val c) 0 (hex_nat n) = int n"
proof (induction n rule: hex_nat.induct)
  case (1 n)
  show ?case
  proof (cases "n < 16")
    case True
    then show ?thesis using hex_char [of n] by (subst (1 2 3 4) hex_nat.simps) (simp add: word_def)
  next
    case False
    have "n mod 16 < 16" by simp
    moreover have "int (n div 16) * 16 + int (n mod 16) = int n"
      by (metis div_mult_mod_eq of_nat_add of_nat_mult of_nat_numeral)
    ultimately show ?thesis using hex_char [of "n mod 16"] 1 [OF False] False
      by (subst (1 2 3 4) hex_nat.simps) (simp add: word_def)
  qed
qed

lemma word_py_hex: "word (py_hex e)"
proof -
  have "ident_char CHR ''0''" "ident_char CHR ''x''" by (simp_all add: ident_char_def ident_start_def is_digit_def)
  then show ?thesis using hex_nat_chars [of "nat e"] by (simp add: py_hex_def word_def)
qed

lemma int_base0_hex: "0 \<le> e \<Longrightarrow> int_base0 (py_hex e) = Inr e"
  using hex_nat_chars [of "nat e"] by (simp add: int_base0_def py_hex_def starts_with_def)

lemma id_value_hex: "id_value ('' '' @ py_hex e @ CHR '';'' # s) = Some (py_hex e)"
proof -
  have w: "skip_ws (py_hex e @ CHR '';'' # s) = py_hex e @ CHR '';'' # s" by (rule skip_ws_word [OF word_py_hex])
  have "eat_while hex_digit (hex_nat (nat e) @ CHR '';'' # s) = Some (hex_nat (nat e), CHR '';'' # s)"
    using hex_nat_chars [of "nat e"] by (intro eat_while_append) (auto simp: hex_digit_def is_digit_def)
  then show ?thesis using w by (simp add: id_value_def Let_def py_hex_def)
qed

lemma event_head_no:
  assumes "event_ok sizes e"
  shows "CHR ''{'' \<notin> set (event_head e)" "CHR ''}'' \<notin> set (event_head e)" "CHR '':'' \<notin> set (event_head e)"
  using assms word_py_hex [of "fst e"] by (simp_all add: event_head_def event_ok_def)

lemma field_lines_no:
  assumes "event_ok sizes e"
  shows "CHR ''{'' \<notin> set (field_lines (snd (snd e)))" "CHR ''}'' \<notin> set (field_lines (snd (snd e)))"
proof -
  have "CHR ''{'' \<notin> set (field_text f) \<and> CHR ''}'' \<notin> set (field_text f)" if "f \<in> set (snd (snd e))" for f
    using that assms word_dec_nat by (auto simp: field_text_def event_ok_def split: option.splits)
  then show "CHR ''{'' \<notin> set (field_lines (snd (snd e)))" "CHR ''}'' \<notin> set (field_lines (snd (snd e)))"
    by (auto simp: field_lines_def)
qed

lemma braces_body:
  assumes "event_ok sizes e"
  shows "braces 1 (event_body e @ CHR ''}'' # s) = Some (event_body e)"
proof -
  note h = event_head_no(1,2) [OF assms] and f = field_lines_no [OF assms]
  have "CHR ''{'' \<notin> set ''fields := struct ''" "CHR ''}'' \<notin> set ''fields := struct ''" by simp_all
  note b = braces_skip [OF h] braces_skip [OF f] braces_skip [OF this]
  show ?thesis by (auto simp: event_body_cut b)
qed

lemma event_head_cut:
  "event_head e @ s = ([newline, CHR 9] @ ''name '') @ CHR ''='' # ('' '' @ fst (snd e) @ CHR '';'' # [newline, CHR 9] @ ''id '')
     @ CHR ''='' # '' '' @ py_hex (fst e) @ CHR '';'' # newline # s"
  by (simp add: event_head_def)

lemma search_name:
  assumes "event_ok sizes e"
  shows "search (blk ''name'' CHR ''='' name_value) (event_head e @ s) = Some (fst (snd e))"
  unfolding event_head_cut
  by (subst search_blk) (use assms in \<open>simp_all add: ends_blk_def name_value_def skip_ws_word eat_word_append event_ok_def\<close>)

lemma search_id:
  assumes "event_ok sizes e"
  shows "search (blk ''id'' CHR ''='' id_value) (event_head e @ s) = Some (py_hex (fst e))"
proof -
  let ?u = "'' '' @ fst (snd e) @ CHR '';'' # [newline, CHR 9] @ ''id ''" and ?p = "blk ''id'' CHR ''='' id_value"
  have u: "CHR ''='' \<notin> set ?u" using assms by (simp add: event_ok_def)
  have "search ?p (([newline, CHR 9] @ ''name '') @ CHR ''='' # r) = search ?p r" for r
    by (subst search_blk) (simp_all add: ends_blk_def)
  moreover have "search ?p (?u @ CHR ''='' # r) = (case id_value r of Some x \<Rightarrow> Some x | None \<Rightarrow> search ?p r)" for r
    by (subst search_blk [OF u]) (simp_all add: ends_blk_def)
  ultimately show ?thesis unfolding event_head_cut id_value_hex by (simp only: id_value_hex option.case)
qed

lemma fields_body_text:
  assumes "CHR ''}'' \<notin> set z"
  shows "fields_body (''= struct '' @ CHR ''{'' # x @ CHR ''}'' # z) = Some x"
  using assms by (simp add: fields_body_def)

lemma search_fields:
  assumes "event_ok sizes e"
  shows "search (blk ''fields'' CHR '':'' fields_body) (event_body e) =
    (if snd (snd e) = [] then None else Some (field_lines (snd (snd e))))"
proof (cases "snd (snd e) = []")
  case True
  then show ?thesis using search_blk_none [OF event_head_no(3) [OF assms]] by (simp add: event_body_cut)
next
  case False
  have t: "event_body e = (event_head e @ CHR 9 # ''fields '') @ CHR '':'' # ''= struct '' @ CHR ''{'' # field_lines (snd (snd e)) @ CHR ''}'' # [CHR '';'', newline]"
    using False by (simp add: event_body_cut)
  show ?thesis unfolding t
    by (subst search_blk) (use False event_head_no(3) [OF assms] fields_body_text [of "[CHR '';'', newline]" "field_lines (snd (snd e))"]
      in \<open>simp_all add: ends_blk_def\<close>)
qed

section \<open>The fields\<close>

lemma decl_none: "\<not> ident_char c \<Longrightarrow> decl (c # s) = None" "decl [] = None"
  by (simp_all add: decl_def eat_while_None)

lemma field_none: "\<not> ident_char c \<Longrightarrow> header_field (c # s) = None" "header_field [] = None"
  "\<not> ident_char c \<Longrightarrow> event_field (c # s) = None" "event_field [] = None"
  by (simp_all add: header_field_def event_field_def decl_none)

lemma decl_text:
  assumes "word t" "word n" "r = [] \<or> \<not> ident_char (hd r)"
  shows "decl (t @ '' '' @ n @ r) = Some ((t, n), skip_ws r)"
proof -
  have h: "n @ r \<noteq> []" "\<not> is_space (hd (n @ r))" using assms(2) by (auto simp: word_def dest: scan_chars(1) split: list.splits)
      (metis hd_append2 list.set_sel(1) list_all_iff scan_chars(1))
  have "eat_while is_space ('' '' @ n @ r) = Some ('' '', n @ r)" by (rule eat_while_append) (use h in simp_all)
  moreover have "eat_word (t @ '' '' @ n @ r) = Some (t, '' '' @ n @ r)" by (rule eat_word_append [OF assms(1)]) simp
  ultimately show ?thesis using eat_word_append [OF assms(2,3)] by (simp add: decl_def)
qed

lemma header_fields:
  assumes "\<forall>(t, n) \<in> set hs. word t \<and> word n"
  shows "findall header_field (header_lines hs) = hs"
proof -
  have "findall header_field (newline # concat (map (\<lambda>(t, n). CHR 9 # t @ '' '' @ n @ '';'' @ [newline]) hs)) = hs"
    using assms
  proof (induction hs)
    case Nil
    then show ?case by (simp add: findall_skip findall_end field_none)
  next
    case (Cons h hs)
    obtain t n where h: "h = (t, n)" by (cases h)
    let ?r = "newline # concat (map (\<lambda>(t, n). CHR 9 # t @ '' '' @ n @ '';'' @ [newline]) hs)"
    have "header_field (t @ '' '' @ n @ CHR '';'' # ?r) = Some ((t, n), ?r)"
      using decl_text [of t n "CHR '';'' # ?r"] Cons.prems h by (simp add: header_field_def)
    then have "findall header_field (t @ '' '' @ n @ CHR '';'' # ?r) = (t, n) # findall header_field ?r"
      by (rule findall_step) simp
    then show ?case using Cons h by (simp add: findall_skip field_none)
  qed
  then show ?thesis by (simp add: header_lines_def)
qed

definition raw_field :: "tfield \<Rightarrow> string \<times> string \<times> nat option" where
  "raw_field f = (tf_type f, tf_name f, tf_arr f)"

lemma event_field_text:
  assumes "word (tf_type f)" "word (tf_name f)"
  shows "event_field (tf_type f @ '' '' @ tf_name f @ (case tf_arr f of None \<Rightarrow> [] | Some k \<Rightarrow> ''['' @ dec_nat k @ '']'') @ CHR '';'' # s) = Some (raw_field f, s)"
proof (cases "tf_arr f")
  case None
  then show ?thesis using decl_text [OF assms, of "CHR '';'' # s"] by (simp add: event_field_def array_part_def raw_field_def)
next
  case (Some k)
  have "eat_digits (dec_nat k @ CHR '']'' # CHR '';'' # s) = Some (dec_nat k, CHR '']'' # CHR '';'' # s)"
    by (rule eat_digits_dec) simp
  then show ?thesis using Some decl_text [OF assms, of "CHR ''['' # dec_nat k @ CHR '']'' # CHR '';'' # s"] dec_nat_digits [of k]
    by (simp add: event_field_def array_part_def raw_field_def)
qed

lemma event_fields:
  assumes "\<forall>f \<in> set fs. word (tf_type f) \<and> word (tf_name f)"
  shows "findall event_field (field_lines fs) = map raw_field fs"
proof -
  have "findall event_field (newline # concat (map field_text fs) @ [CHR 9]) = map raw_field fs"
    using assms
  proof (induction fs)
    case Nil
    then show ?case by (simp add: findall_skip findall_end field_none)
  next
    case (Cons f fs)
    let ?r = "newline # concat (map field_text fs) @ [CHR 9]"
    let ?t = "tf_type f @ '' '' @ tf_name f @ (case tf_arr f of None \<Rightarrow> [] | Some k \<Rightarrow> ''['' @ dec_nat k @ '']'') @ CHR '';'' # ?r"
    have "event_field ?t = Some (raw_field f, ?r)" by (rule event_field_text) (use Cons.prems in auto)
    then have "findall event_field ?t = raw_field f # findall event_field ?r" by (rule findall_step) simp
    moreover have "findall event_field (newline # concat (map field_text (f # fs)) @ [CHR 9]) = findall event_field ?t"
      by (simp add: field_text_def findall_skip field_none)
    ultimately show ?case using Cons by simp
  qed
  then show ?thesis by (simp add: field_lines_def)
qed

lemma event_of_text:
  assumes "event_ok sizes e"
  shows "event_of sizes (event_body e @ CHR ''}'' # s) = Inr e"
proof -
  have f: "rmap (field_of sizes) (map raw_field (snd (snd e))) = Inr (snd (snd e))"
  proof -
    have "field_of sizes (raw_field f) = Inr f" if "f \<in> set (snd (snd e))" for f
      using that assms by (auto simp: event_ok_def field_of_def raw_field_def key_of_def)
    then have "rmap (field_of sizes) (map raw_field fs) = Inr fs" if "set fs \<subseteq> set (snd (snd e))" for fs
      using that by (induction fs) auto
    then show ?thesis by simp
  qed
  have "0 \<le> fst e" using assms by (simp add: event_ok_def)
  note i = int_base0_hex [OF this]
  have n: "search (blk ''name'' CHR ''='' name_value) (event_body e) = Some (fst (snd e))"
    "search (blk ''id'' CHR ''='' id_value) (event_body e) = Some (py_hex (fst e))"
    unfolding event_body_cut by (rule search_name [OF assms]) (rule search_id [OF assms])
  have w: "\<forall>f \<in> set (snd (snd e)). word (tf_type f) \<and> word (tf_name f)" using assms by (auto simp: event_ok_def)
  show ?thesis using f event_fields [OF w]
    unfolding event_of_def braces_body [OF assms] by (auto simp: n i search_fields [OF assms] prod_eq_iff)
qed

section \<open>The whole file\<close>

lemma event_cut: "event_text e @ s = ''event '' @ CHR ''{'' # event_body e @ CHR ''}'' # '';'' @ [newline, newline] @ s"
  by (simp add: event_text_def)

text \<open>The events: each is found at its opening brace, and no brace of a body opens another or an alias.\<close>

lemma find_events:
  assumes "\<forall>e \<in> set evs. event_ok sizes e" "CHR ''{'' \<notin> set u"
  shows "rmap (event_of sizes) (findall event_pat (u @ concat (map event_text evs))) = Inr evs"
  using assms
proof (induction evs arbitrary: u)
  case Nil
  then show ?case by simp (subst findall_blk_none, auto)
next
  case (Cons e evs)
  let ?z = "CHR ''}'' # '';'' @ [newline, newline]"
  let ?s = "concat (map event_text evs)" and ?fs = "snd (snd e)"
  have ok: "event_ok sizes e" using Cons.prems by simp
  have t: "u @ concat (map event_text (e # evs)) = (u @ ''event '') @ CHR ''{'' # event_body e @ ?z @ ?s"
    using event_cut [of e ?s] by simp
  have first: "findall event_pat ((u @ ''event '') @ CHR ''{'' # r) = r # findall event_pat r" for r
    by (subst findall_blk) (use Cons.prems(2) in \<open>simp_all add: ends_blk_def\<close>)
  have "\<exists>u'. CHR ''{'' \<notin> set u' \<and> findall event_pat (event_body e @ ?z @ ?s) = findall event_pat (u' @ ?s)"
  proof (cases "?fs = []")
    case True
    then show ?thesis using event_head_no(1) [OF ok] by (intro exI [of _ "event_head e @ ?z"]) (simp add: event_body_cut)
  next
    case False
    have b: "event_body e @ ?z @ ?s = (event_head e @ CHR 9 # ''fields := struct '') @ CHR ''{'' # (field_lines ?fs @ CHR ''}'' # '';'' @ [newline] @ ?z) @ ?s"
      using False by (simp add: event_body_cut)
    have "findall event_pat (event_body e @ ?z @ ?s) = findall event_pat ((field_lines ?fs @ CHR ''}'' # '';'' @ [newline] @ ?z) @ ?s)"
      unfolding b by (subst findall_blk) (use event_head_no(1) [OF ok] in \<open>simp_all add: ends_blk_def\<close>)
    then show ?thesis using field_lines_no(1) [OF ok] by (intro exI [of _ "field_lines ?fs @ CHR ''}'' # '';'' @ [newline] @ ?z"]) simp
  qed
  then obtain u' where u': "CHR ''{'' \<notin> set u'" "findall event_pat (event_body e @ ?z @ ?s) = findall event_pat (u' @ ?s)" by blast
  have "event_of sizes (event_body e @ ?z @ ?s) = Inr e" using event_of_text [OF ok, of "'';'' @ [newline, newline] @ ?s"] by simp
  then show ?case unfolding t first u'(2) using Cons.IH [OF _ u'(1)] Cons.prems(1) by simp
qed

lemma events_no_alias:
  assumes "\<forall>e \<in> set evs. event_ok sizes e" "CHR ''{'' \<notin> set u"
  shows "findall alias_pat (u @ concat (map event_text evs)) = []"
  using assms
proof (induction evs arbitrary: u)
  case Nil
  then show ?case by (simp add: findall_blk_none alias_body_shorter)
next
  case (Cons e evs)
  let ?z = "CHR ''}'' # '';'' @ [newline, newline]"
  let ?s = "concat (map event_text evs)" and ?fs = "snd (snd e)"
  have ok: "event_ok sizes e" using Cons.prems by simp
  have t: "u @ concat (map event_text (e # evs)) = (u @ ''event '') @ CHR ''{'' # event_body e @ ?z @ ?s"
    using event_cut [of e ?s] by simp
  have skip: "findall alias_pat (v @ CHR ''{'' # r) = findall alias_pat r"
    if "CHR ''{'' \<notin> set v" "\<not> ends_blk ''typealias integer'' v" for v r
    using that by (subst findall_blk) (simp_all add: alias_body_shorter)
  have first: "findall alias_pat ((u @ ''event '') @ CHR ''{'' # r) = findall alias_pat r" for r
    by (rule skip) (use Cons.prems(2) in \<open>simp_all add: ends_blk_def\<close>)
  show ?case
  proof (cases "?fs = []")
    case True
    then show ?thesis unfolding t first
      using Cons.IH [of "event_head e @ ?z"] event_head_no(1) [OF ok] Cons.prems(1) by (simp add: event_body_cut)
  next
    case False
    have b: "event_body e @ ?z @ ?s = (event_head e @ CHR 9 # ''fields := struct '') @ CHR ''{'' # (field_lines ?fs @ CHR ''}'' # '';'' @ [newline] @ ?z) @ ?s"
      using False by (simp add: event_body_cut)
    have "findall alias_pat (event_body e @ ?z @ ?s) = findall alias_pat ((field_lines ?fs @ CHR ''}'' # '';'' @ [newline] @ ?z) @ ?s)"
      unfolding b by (rule skip) (use event_head_no(1) [OF ok] in \<open>simp_all add: ends_blk_def\<close>)
    then show ?thesis unfolding t first
      using Cons.IH [of "field_lines ?fs @ CHR ''}'' # '';'' @ [newline] @ ?z"] field_lines_no(1) [OF ok] Cons.prems(1) by simp
  qed
qed

lemma strip_plain: "CHR ''/'' \<notin> set s \<Longrightarrow> strip_comments s = s"
proof (induction s)
  case Nil
  show ?case by (subst strip_comments.simps) simp
next
  case (Cons c s)
  then show ?case by (subst strip_comments.simps) auto
qed

lemma parse_tsdl_text:
  assumes "strip_comments metadata = tsdl_text als hs evs"
    and ok: "\<forall>nb \<in> set als. word (fst nb)" "\<forall>(t, n) \<in> set hs. word t \<and> word n"
      "\<forall>e \<in> set evs. event_ok (map (\<lambda>nb. (fst nb, snd nb div 8)) als) e"
    and "dict_of (map (\<lambda>(t, n). (n, t)) hs) ''id'' = Some ty" "dict_of (map (\<lambda>nb. (fst nb, snd nb div 8)) als) ty = Some sz"
  shows "parse_tsdl metadata = Inr \<lparr>id_size = sz, events = dict_of evs\<rparr>"
proof -
  let ?t = "tsdl_text als hs evs" and ?sizes = "map (\<lambda>nb. (fst nb, snd nb div 8)) als"
  let ?after = "header_text hs @ stream_text @ concat (map event_text evs)"
  have st: "CHR ''{'' \<notin> set stream_tail" by (simp add: stream_tail_def)
  obtain u where u: "CHR ''{'' \<notin> set u"
    "findall alias_pat ([] @ concat (map alias_text als) @ ?after) = map (\<lambda>nb. (alias_attrs nb, fst nb)) als @ findall alias_pat (u @ ?after)"
    using find_aliases [OF ok(1), of "[]" ?after] by auto
  have "findall alias_pat (u @ ?after) = findall alias_pat (stream_tail @ concat (map event_text evs))"
    by (rule after_header [OF ok(2) u(1)]) (simp_all add: alias_body_shorter ends_blk_def)
  then have "findall alias_pat ?t = map (\<lambda>nb. (alias_attrs nb, fst nb)) als"
    using u(2) events_no_alias [OF ok(3) st] by (simp add: tsdl_text_def)
  moreover have "rmap alias_size (map (\<lambda>nb. (alias_attrs nb, fst nb)) als) = Inr ?sizes"
    by (induction als) (simp_all add: alias_size_text)
  ultimately have sizes: "rmap alias_size (findall alias_pat ?t) = Inr ?sizes" by simp
  have hdr: "search (blk ''struct event_header'' CHR ''{'' header_body) ?t = Some (header_lines hs)"
    using find_header [OF ok(1,2), of "stream_text @ concat (map event_text evs)"] by (simp add: tsdl_text_def)
  have "\<exists>u. CHR ''{'' \<notin> set u \<and> findall event_pat ([] @ concat (map alias_text als) @ ?after) = findall event_pat (u @ ?after)"
    by (rule skip_aliases) (use ok(1) in \<open>auto simp: ends_blk_def\<close>)
  then obtain v where v: "CHR ''{'' \<notin> set v" "findall event_pat ?t = findall event_pat (v @ ?after)"
    by (auto simp: tsdl_text_def)
  have "findall event_pat (v @ ?after) = findall event_pat (stream_tail @ concat (map event_text evs))"
    by (rule after_header [OF ok(2) v(1)]) (simp_all add: ends_blk_def)
  then have evs: "rmap (event_of ?sizes) (findall event_pat ?t) = Inr evs"
    using find_events [OF ok(3) st] v(2) by simp
  show ?thesis
    unfolding parse_tsdl_def assms(1) Let_def sizes rbind_simps hdr of_opt_simps header_fields [OF ok(2)]
    using assms(5,6) evs by (simp add: key_of_def)
qed

section \<open>Loading a dump with its metadata\<close>

text \<open>\<open>load\<close> with the metadata file of a Zephyr version: the header names the version, the layouts come from its metadata.\<close>

definition load_file :: "(string \<Rightarrow> string) \<Rightarrow> marker_table \<Rightarrow> bytes \<Rightarrow> string option \<Rightarrow> trace res" where
  "load_file metadata table data zephyr =
     rbind (load_head data zephyr) (\<lambda>(h, z, buf). rbind (parse_tsdl (metadata z)) (\<lambda>t. load (\<lambda>_. t) table data zephyr))"

text \<open>The event layouts \<open>evs\<close> with their integer types \<open>als\<close> (name and bits) and the header's fields \<open>hs\<close>, whose id has \<open>sz\<close>
  bytes: names are words, and every field's size is that of its type.\<close>

definition layouts :: "(string \<times> nat) list \<Rightarrow> (string \<times> string) list \<Rightarrow> (int \<times> string \<times> tfield list) list \<Rightarrow> nat \<Rightarrow> bool" where
  "layouts als hs evs sz =
     (let sizes = map (\<lambda>nb. (fst nb, snd nb div 8)) als
      in (\<forall>nb \<in> set als. word (fst nb)) \<and> (\<forall>(t, n) \<in> set hs. word t \<and> word n) \<and> (\<forall>e \<in> set evs. event_ok sizes e)
         \<and> Option.bind (dict_of (map (\<lambda>(t, n). (n, t)) hs) ''id'') (dict_of sizes) = Some sz)"



section \<open>Witnesses\<close>

definition demo_aliases :: "(string \<times> nat) list" where
  "demo_aliases = [(''uint8_t'', 8), (''uint32_t'', 32), (''ctf_bounded_string_t'', 8)]"

definition demo_header :: "(string \<times> string) list" where
  "demo_header = [(''uint32_t'', ''timestamp''), (''uint8_t'', ''id'')]"

definition demo_events :: "(int \<times> string \<times> tfield list) list" where
  "demo_events =
     [(0x10, ''thread_switched_out'',
        [\<lparr>tf_name = ''id'', tf_type = ''uint32_t'', tf_arr = None, tf_size = 4\<rparr>,
         \<lparr>tf_name = ''name'', tf_type = ''ctf_bounded_string_t'', tf_arr = Some 20, tf_size = 1\<rparr>]),
      (0x20, ''idle'', [])]"

definition demo_metadata :: string where
  "demo_metadata = ''/* CTF 1.8 */'' @ tsdl_text demo_aliases demo_header demo_events"

lemma demo_layouts: "layouts demo_aliases demo_header demo_events 1"
  by code_simp

lemma demo_stripped: "strip_comments demo_metadata = tsdl_text demo_aliases demo_header demo_events"
proof -
  have p: "CHR ''/'' \<notin> set (tsdl_text demo_aliases demo_header demo_events)" by code_simp
  have "strip_comments demo_metadata = strip_comments (tsdl_text demo_aliases demo_header demo_events)"
    unfolding demo_metadata_def by (subst strip_comments.simps) simp
  with strip_plain [OF p] show ?thesis by simp
qed



end
