(* ===== verification/Qemu_Monitor.thy ===== *)
theory Qemu_Monitor
  imports Tsdl
begin

text \<open>The QEMU target of \<^verbatim>\<open>tools/board/readout.py\<close>: the human monitor over a socket. What the monitor sends arrives in
  chunks, cut anywhere; an empty chunk is the end of the connection and no further chunk a time-out.\<close>

section \<open>The monitor\<close>

datatype mon_error = Closed | Timed_out | Unparsed string | No_file

record monitor =
  mo_chunks :: "bytes list"   \<comment> \<open>still to come\<close>
  mo_sent :: bytes

definition byte_space :: "byte \<Rightarrow> bool" where
  "byte_space x = (9 \<le> uint x \<and> uint x \<le> 13 \<or> uint x = 32)"

definition at_prompt :: "bytes \<Rightarrow> bool" where
  "at_prompt buf = (let s = rev (dropWhile byte_space (rev buf)); p = ascii_encode ''(qemu)'' in drop (length s - length p) s = p)"

fun until_prompt :: "bytes \<Rightarrow> bytes list \<Rightarrow> (mon_error + string) \<times> bytes list" where
  "until_prompt buf [] = (if at_prompt buf then Inr (ascii_decode buf) else Inl Timed_out, [])"
| "until_prompt buf (c # cs) =
     (if at_prompt buf then (Inr (ascii_decode buf), c # cs)
      else if c = [] then (Inl Closed, cs)
      else until_prompt (buf @ c) cs)"

definition qemu_connect :: "bytes list \<Rightarrow> (mon_error + monitor)" where
  "qemu_connect cs =
     (case until_prompt [] cs of (Inl e, _) \<Rightarrow> Inl e | (Inr _, rest) \<Rightarrow> Inr \<lparr>mo_chunks = rest, mo_sent = []\<rparr>)"

definition qemu_cmd :: "string \<Rightarrow> monitor \<Rightarrow> (mon_error + string) \<times> monitor" where
  "qemu_cmd line m =
     (case until_prompt [] (mo_chunks m) of
        (r, rest) \<Rightarrow> (r, \<lparr>mo_chunks = rest, mo_sent = mo_sent m @ ascii_encode line @ [10]\<rparr>))"

definition qemu_halt :: "monitor \<Rightarrow> (mon_error + string) \<times> monitor" where "qemu_halt = qemu_cmd ''stop''"

definition qemu_resume :: "monitor \<Rightarrow> (mon_error + string) \<times> monitor" where "qemu_resume = qemu_cmd ''cont''"

text \<open>\<open>[0-9a-fA-F]+:\s+0x([0-9a-fA-F]+)\<close>.\<close>

definition word_line :: "string \<Rightarrow> string option" where
  "word_line s =
     Option.bind (eat_while hex_digit s) (\<lambda>(a, r).
     Option.bind (eat '':'' r) (\<lambda>t.
     Option.bind (eat_while is_space t) (\<lambda>(w, u).
     Option.bind (eat ''0x'' u) (\<lambda>v.
     map_option fst (eat_while hex_digit v)))))"

definition hex_int :: "string \<Rightarrow> int" where
  "hex_int ds = foldl (\<lambda>n c. n * 16 + hex_val c) 0 ds"

definition qemu_read32 :: "int \<Rightarrow> monitor \<Rightarrow> (mon_error + int) \<times> monitor" where
  "qemu_read32 p m =
     (case qemu_cmd (''xp /1wx '' @ py_hex p) m of
        (Inl e, m1) \<Rightarrow> (Inl e, m1)
      | (Inr t, m1) \<Rightarrow> (case search word_line t of None \<Rightarrow> Inl (Unparsed t) | Some ds \<Rightarrow> Inr (hex_int ds), m1))"

text \<open>\<open>pmemsave\<close> writes the file; \<open>looks k\<close> is what is under its name at the \<open>k\<close>-th look, of which there are at most 50
  before the file is read.\<close>

definition looks_needed :: "int \<Rightarrow> (nat \<Rightarrow> bytes option) \<Rightarrow> nat" where
  "looks_needed n looks =
     length (takeWhile (\<lambda>k. case looks k of Some d \<Rightarrow> int (length d) \<noteq> n | None \<Rightarrow> True) [0..<50])"

definition qemu_read_block :: "int \<Rightarrow> int \<Rightarrow> string \<Rightarrow> (nat \<Rightarrow> bytes option) \<Rightarrow> monitor \<Rightarrow> (mon_error + bytes) \<times> monitor" where
  "qemu_read_block p n path looks m =
     (case qemu_cmd (''pmemsave '' @ py_hex p @ '' '' @ dec_int n @ '' \"'' @ path @ ''\"'') m of
        (Inl e, m1) \<Rightarrow> (Inl e, m1)
      | (Inr t, m1) \<Rightarrow> (case looks (looks_needed n looks + 1) of Some d \<Rightarrow> Inr d | None \<Rightarrow> Inl No_file, m1))"

section \<open>Answers\<close>

text \<open>However an answer is cut, the command gets all of it, as long as no chunk before the last ends at a prompt.\<close>

lemma until_prompt_chunks:
  assumes "[] \<notin> set cs" "\<forall>k < length cs. \<not> at_prompt (buf @ concat (take k cs))" "at_prompt (buf @ concat cs)"
  shows "until_prompt buf (cs @ rest) = (Inr (ascii_decode (buf @ concat cs)), rest)"
  using assms
proof (induction cs arbitrary: buf)
  case Nil
  then show ?case by (cases rest) simp_all
next
  case (Cons c cs)
  have "\<not> at_prompt buf" using Cons.prems(2) by (metis append_Nil2 concat.simps(1) length_greater_0_conv list.distinct(1) take_0)
  moreover have "\<forall>k < length cs. \<not> at_prompt ((buf @ c) @ concat (take k cs))"
  proof (intro allI impI)
    fix k assume "k < length cs"
    then show "\<not> at_prompt ((buf @ c) @ concat (take k cs))" using Cons.prems(2) [rule_format, of "Suc k"] by simp
  qed
  moreover have "c \<noteq> []" using Cons.prems(1) by auto
  ultimately show ?case using Cons.IH [of "buf @ c"] Cons.prems by simp
qed

lemma word_line_skips:
  assumes "CHR '':'' \<notin> set u" "u \<noteq> []" "\<not> hex_digit (last u)"
  shows "word_line (u @ s) = None"
proof -
  have "\<exists>x \<in> set u. \<not> hex_digit x" using assms(2,3) last_in_set by blast
  then have "dropWhile hex_digit (u @ s) = dropWhile hex_digit u @ s" "dropWhile hex_digit u \<noteq> []"
    by (auto simp: dropWhile_append dropWhile_eq_Nil_conv)
  moreover have "hd (dropWhile hex_digit u) \<in> set u" using calculation(2) by (metis hd_in_set set_dropWhileD)
  ultimately have "eat '':'' (dropWhile hex_digit (u @ s)) = None" using assms(1)
    by (cases "dropWhile hex_digit u") auto
  then show ?thesis by (auto simp: word_line_def eat_while_def)
qed

lemma search_word:
  assumes "CHR '':'' \<notin> set u" "u = [] \<or> \<not> hex_digit (last u)" "word_line s = Some w"
  shows "search word_line (u @ s) = Some w"
  using assms(1,2)
proof (induction u)
  case Nil
  then show ?case using assms(3) by (cases s) simp_all
next
  case (Cons c u)
  have "word_line ((c # u) @ s) = None" using Cons.prems by (intro word_line_skips) auto
  moreover have "search word_line (u @ s) = Some w" using Cons.prems by (intro Cons.IH) (auto split: if_splits)
  ultimately show ?case by simp
qed

lemma hex_int_hexw: "0 \<le> v \<Longrightarrow> list_all hex_digit (hexw k v) \<and> hex_int (hexw k v) = v mod 16 ^ k"
proof (induction k arbitrary: v)
  case (Suc k)
  have "nat (v mod 16) < 16" by simp
  from hex_char [OF this] have d: "hex_digit (hexdig (v mod 16))" "hex_val (hexdig (v mod 16)) = v mod 16" by simp_all
  have "v mod 16 ^ Suc k = (v div 16 mod 16 ^ k) * 16 + v mod 16"
    using mod_mult2_eq' [of v 16 "16 ^ k"] by (simp add: mod_mult2_eq ac_simps)
  then show ?case using Suc.IH [of "v div 16"] Suc.prems d by (simp add: hex_int_def)
qed (simp add: hex_int_def)

lemma hex_ascii: "list_all hex_digit s \<Longrightarrow> list_all (\<lambda>c. of_char c < (128 :: nat)) s"
  by (auto simp: list_all_iff hex_digit_def is_digit_def Let_def)

lemma at_prompt_end: "at_prompt (ascii_encode (s @ ''(qemu) ''))"
proof -
  have "ascii_encode (s @ ''(qemu) '') = ascii_encode s @ ascii_encode ''(qemu)'' @ [32]" by (simp add: ascii_encode_def)
  moreover have "\<not> byte_space (hd (rev (ascii_encode s @ ascii_encode ''(qemu)'')))" by (simp add: ascii_encode_def byte_space_def)
  moreover have "byte_space 32" by (simp add: byte_space_def)
  ultimately have "rev (dropWhile byte_space (rev (ascii_encode (s @ ''(qemu) '')))) = ascii_encode s @ ascii_encode ''(qemu)''"
    by (simp add: ascii_encode_def)
  then show ?thesis by (simp add: at_prompt_def Let_def)
qed

text \<open>A word read through the monitor is the word it printed: when the answer to \<open>xp\<close> is an echo without a colon, a line feed, the
  address and the word, cut into chunks anywhere but at an earlier prompt, \<open>read32\<close> gives that word.\<close>

lemma qemu_read32_word:
  assumes "concat cs = ascii_encode (echo @ [CHR 0x0A] @ hexw 16 p @ '': 0x'' @ hexw 8 v @ [CHR 0x0D, CHR 0x0A] @ ''(qemu) '')"
    and "[] \<notin> set cs" "\<forall>k < length cs. \<not> at_prompt (concat (take k cs))" "mo_chunks m = cs @ rest"
    and "CHR '':'' \<notin> set echo" "is_ascii echo" "0 \<le> p" "0 \<le> v" "v < 2 ^ 32"
  shows "qemu_read32 p m = (Inr v, \<lparr>mo_chunks = rest, mo_sent = mo_sent m @ ascii_encode (''xp /1wx '' @ py_hex p) @ [10]\<rparr>)"
proof -
  define line where "line = hexw 16 p @ '': 0x'' @ hexw 8 v @ [CHR 0x0D, CHR 0x0A] @ ''(qemu) ''"
  let ?t = "echo @ [CHR 0x0A] @ line"
  have hp: "list_all hex_digit (hexw 16 p)" and hv: "list_all hex_digit (hexw 8 v)" "hex_int (hexw 8 v) = v"
    using hex_int_hexw [OF assms(7), of 16] hex_int_hexw [OF assms(8), of 8] assms(8,9) by simp_all
  have "is_ascii ?t" using assms(6) hex_ascii [OF hp] hex_ascii [OF hv(1)] by (simp add: line_def is_ascii_def)
  then have d: "ascii_decode (concat cs) = ?t" using assms(1) by (simp add: line_def ascii_decode_encode)
  have "at_prompt (concat cs)"
    using at_prompt_end [of "echo @ [CHR 0x0A] @ hexw 16 p @ '': 0x'' @ hexw 8 v @ [CHR 0x0D, CHR 0x0A]"] unfolding assms(1) by simp
  with until_prompt_chunks [OF assms(2), of "[]" rest] assms(3) d
  have u: "until_prompt [] (mo_chunks m) = (Inr ?t, rest)" by (simp add: assms(4))
  have "hexw 16 p \<noteq> []" "hexw 8 v \<noteq> []" by (metis length_hexw length_0_conv zero_neq_numeral)+
  then have "eat_while hex_digit line = Some (hexw 16 p, '': 0x'' @ hexw 8 v @ [CHR 0x0D, CHR 0x0A] @ ''(qemu) '')"
    "eat_while hex_digit (hexw 8 v @ [CHR 0x0D, CHR 0x0A] @ ''(qemu) '') = Some (hexw 8 v, [CHR 0x0D, CHR 0x0A] @ ''(qemu) '')"
    unfolding line_def using hp hv(1) by (intro eat_while_append; simp add: hex_digit_def is_digit_def)+
  then have w: "word_line line = Some (hexw 8 v)"
    by (simp add: word_line_def eat_while_def [of is_space] is_space_def)
  have "search word_line ((echo @ [CHR 0x0A]) @ line) = Some (hexw 8 v)"
    by (rule search_word [OF _ _ w]) (use assms(5) in \<open>auto simp: hex_digit_def is_digit_def\<close>)
  then show ?thesis by (simp add: qemu_read32_def qemu_cmd_def u hv(2))
qed

end
