(* ===== verification/Marker_Sites.thy ===== *)
theory Marker_Sites
  imports Text_Scan Marker_Render "HOL-Library.AList"
begin

text \<open>\<open>find_sites\<close> and the commands of \<open>main\<close> in \<^verbatim>\<open>src/safety_island_tracing/gen_markers.py\<close>: the call sites of the
  \<open>ISLAND_TRACE\<close> macro in the component sources, the table that \<open>sites\<close> prints, and what \<open>gen\<close> and \<open>check\<close> leave behind.

  The tree under the component directories is the list of its directories as \<open>os.walk\<close> gives them, each with its
  files and their lines (each with its line break).\<close>

section \<open>The scan\<close>

type_synonym tree = "(string \<times> (string \<times> string list) list) list"   \<comment> \<open>directory, relative to the root, and its files\<close>

definition alpha :: "char \<Rightarrow> bool" where
  "alpha c = (ident_start c \<and> c \<noteq> CHR ''_'')"

definition decl_char :: "char \<Rightarrow> bool" where   \<comment> \<open>\<open>[\w:<>,\s\*&]\<close>\<close>
  "decl_char c = (ident_char c \<or> is_space c \<or> c \<in> set '':<>,*&'')"

text \<open>\<open>\b([A-Za-z_][\w]*::[A-Za-z_]\w*)\s*\(\<close> after the character \<open>prev\<close>: the part after the colons.\<close>

definition method_at :: "char \<Rightarrow> string \<Rightarrow> string option" where
  "method_at prev s =
     (if ident_char prev \<or> s = [] \<or> \<not> ident_start (hd s) then None
      else Option.bind (eat ''::'' (dropWhile ident_char s)) (\<lambda>t.
        if t = [] \<or> \<not> ident_start (hd t) then None
        else map_option (\<lambda>_. takeWhile ident_char t) (eat ''('' (skip_ws (dropWhile ident_char t)))))"

fun method_from :: "char \<Rightarrow> string \<Rightarrow> string option" where   \<comment> \<open>the characters before it, as few as may be\<close>
  "method_from prev [] = method_at prev []"
| "method_from prev (c # s) =
     (case method_at prev (c # s) of Some n \<Rightarrow> Some n | None \<Rightarrow> if decl_char c then method_from c s else None)"

definition func_of :: "string \<Rightarrow> string option" where   \<comment> \<open>\<open>func.match(line)\<close>\<close>
  "func_of line = (case line of c # s \<Rightarrow> if alpha c then method_from c s else None | [] \<Rightarrow> None)"

definition marker_char :: "char \<Rightarrow> bool" where
  "marker_char c = (upper_char c \<or> is_digit c \<or> c = CHR ''_'')"

definition trace_call :: "string \<Rightarrow> (string \<times> string) option" where   \<comment> \<open>\<open>pat\<close>\<close>
  "trace_call s =
     Option.bind (eat ''ISLAND_TRACE('' s) (\<lambda>a. Option.bind (eat ''ISLAND_MK_'' (skip_ws a)) (eat_while marker_char))"

text \<open>The calls of a file in order: the marker, and where it is.\<close>

fun line_calls :: "string \<Rightarrow> nat \<Rightarrow> string \<Rightarrow> string list \<Rightarrow> (string \<times> string) list" where
  "line_calls path n cur [] = []"
| "line_calls path n cur (l # ls) =
     (let f = (case func_of l of Some m \<Rightarrow> m | None \<Rightarrow> cur)
      in map (\<lambda>mk. (mk, path @ '':'' @ dec_nat n @ '' ('' @ f @ '')'')) (findall trace_call l) @ line_calls path (Suc n) f ls)"

definition is_source :: "string \<Rightarrow> bool" where
  "is_source fn = list_ex (\<lambda>e. ends_with e fn) [''.cpp'', ''.hpp'', ''.c'', ''.h'']"

definition dir_calls :: "string \<times> (string \<times> string list) list \<Rightarrow> (string \<times> string) list" where
  "dir_calls d = concat (map (\<lambda>f. line_calls (fst d @ ''/'' @ fst f) 1 ''?'' (snd f)) (filter (\<lambda>f. is_source (fst f)) (sort_key fst (snd d))))"

definition calls :: "tree \<Rightarrow> (string \<times> string) list" where
  "calls t = concat (map dir_calls t)"

text \<open>\<open>sites.setdefault(k, []).append(x)\<close>.\<close>

definition add_site :: "(string \<times> string list) list \<Rightarrow> string \<times> string \<Rightarrow> (string \<times> string list) list" where
  "add_site d c =
     (if fst c \<in> fst ` set d then map (\<lambda>(k, xs). if k = fst c then (k, xs @ [snd c]) else (k, xs)) d else d @ [(fst c, [snd c])])"

definition find_sites :: "marker list \<Rightarrow> tree \<Rightarrow> (string \<times> string list) list" where
  "find_sites markers t = foldl add_site (foldl (\<lambda>d m. AList.update (mname m) [] d) [] markers) (calls t)"

section \<open>The commands\<close>

definition sites_of :: "(string \<times> string list) list \<Rightarrow> marker \<Rightarrow> string list" where
  "sites_of sites m = (case map_of sites (mname m) of Some s \<Rightarrow> s | None \<Rightarrow> [])"

definition site_row :: "(string \<times> string list) list \<Rightarrow> marker \<Rightarrow> string" where
  "site_row sites m =
     ''| '' @ dec_int (mid m) @ '' | `'' @ mname m @ ''` | `'' @ melement m @ ''` ('' @ mkind_text (mkind m) @ '') | ''
     @ (if sites_of sites m = [] then ''**NO CALL SITE**'' else join ''<br>'' (sites_of sites m)) @ '' |''"

definition sites_main :: "marker list \<Rightarrow> tree \<Rightarrow> string list \<times> string list \<times> int" where   \<comment> \<open>stdout, stderr, exit code\<close>
  "sites_main markers t =
     (let sites = find_sites markers t;
          missing = length (filter (\<lambda>m. sites_of sites m = []) markers);
          unknown = sort (filter (\<lambda>k. k \<notin> mname ` set markers) (map fst sites))
      in ([''| id | marker | contract element | source site |'', ''| ---: | --- | --- | --- |''] @ map (site_row sites) markers,
          map (\<lambda>u. ''gen_markers: call site names an unknown marker ISLAND_MK_'' @ u) unknown
            @ (if missing > 0 then [''gen_markers: '' @ dec_nat missing @ '' marker(s) have no call site''] else []),
          if missing > 0 \<or> unknown \<noteq> [] then 1 else 0))"

text \<open>The files that \<open>gen\<close> writes and \<open>check\<close> reads; \<open>None\<close> is a file that is not there.\<close>

record gen_files =
  gf_header :: "string list option"
  gf_table :: "marker_table option"

definition stale_files :: "gen_files \<Rightarrow> string list \<Rightarrow> marker_table \<Rightarrow> string list" where
  "stale_files files h tb =
     (if gf_header files = Some h then [] else [''src/safety_island_tracing/include/island_trace_markers.h''])
     @ (if gf_table files = Some tb then [] else [''src/safety_island_tracing/markers.json''])"

definition gen_main :: "string \<Rightarrow> gen_env \<Rightarrow> (string \<Rightarrow> string option) \<Rightarrow> system_model option \<Rightarrow> tree \<Rightarrow> gen_files
    \<Rightarrow> (gen_files \<times> string list \<times> string list \<times> int) res" where
  "gen_main cmd env file_sha model t files =
     (case model of
        None \<Rightarrow> Inl (SystemExit ''no resolved model: run just sync first'')
      | Some mdl \<Rightarrow>
          rbind (load_model file_sha mdl) (\<lambda>md. rbind (build_table md) (\<lambda>markers. rbind (render env md markers) (\<lambda>(h, tb).
            let n = dec_nat (length markers);
                stale = stale_files files h tb
            in if cmd = ''gen'' then
                 Inr (\<lparr>gf_header = Some h, gf_table = Some tb\<rparr>,
                      [''gen_markers: '' @ n @ '' markers -> src/safety_island_tracing/include/island_trace_markers.h, src/safety_island_tracing/markers.json''], [], 0)
               else if cmd = ''check'' then
                 Inr (files, if stale = [] then [''gen_markers: header and table current ('' @ n @ '' markers)'']
                             else map (\<lambda>p. ''gen_markers: '' @ p @ '' is stale against the model -- run `just trace-gen`'') stale,
                      [], if stale = [] then 0 else 1)
               else (let (out, err, rc) = sites_main markers t in Inr (files, out, err, rc))))))"

section \<open>What the table of sites shows\<close>

lemma add_site_keys: "fst ` set (add_site d c) = insert (fst c) (fst ` set d)"
  by (force simp: add_site_def)

lemma add_site_distinct: "distinct (map fst d) \<Longrightarrow> distinct (map fst (add_site d c))"
proof -
  assume d: "distinct (map fst d)"
  have "map fst (map (\<lambda>(k, xs). if k = fst c then (k, xs @ [snd c]) else (k, xs)) d) = map fst d" by (induction d) auto
  with d show "distinct (map fst (add_site d c))" by (auto simp add: add_site_def simp del: map_map)
qed

lemma add_site_value:
  "(case map_of (add_site d c) k of Some s \<Rightarrow> s | None \<Rightarrow> [])
    = (case map_of d k of Some s \<Rightarrow> s | None \<Rightarrow> []) @ (if fst c = k then [snd c] else [])"
proof (cases "fst c \<in> fst ` set d")
  case True
  have "map_of (map (\<lambda>(k, xs). if k = fst c then (k, xs @ [snd c]) else (k, xs)) d) k
      = map_option (\<lambda>xs. xs @ (if fst c = k then [snd c] else [])) (map_of d k)"
    by (induction d) auto
  moreover have "map_of d k \<noteq> None" if "fst c = k" using True that by (simp add: map_of_eq_None_iff)
  ultimately show ?thesis using True by (cases "map_of d k") (auto simp: add_site_def)
next
  case False
  then have "map_of d (fst c) = None" by (simp add: map_of_eq_None_iff)
  then show ?thesis using False by (cases "map_of d k") (auto simp: add_site_def map_add_def)
qed

lemma foldl_sites:
  "fst ` set (foldl add_site d cs) = fst ` set d \<union> fst ` set cs"
  "distinct (map fst d) \<Longrightarrow> distinct (map fst (foldl add_site d cs))"
  "(case map_of (foldl add_site d cs) k of Some s \<Rightarrow> s | None \<Rightarrow> [])
    = (case map_of d k of Some s \<Rightarrow> s | None \<Rightarrow> []) @ map snd (filter (\<lambda>c. fst c = k) cs)"
proof (induction cs arbitrary: d)
  case (Cons c cs)
  { case 1 show ?case using Cons.IH(1) [of "add_site d c"] add_site_keys [of d c] by auto }
  { case 2 then show ?case using Cons.IH(2) [OF add_site_distinct] by simp }
  { case 3 show ?case using Cons.IH(3) [of "add_site d c"] add_site_value [of d c k] by simp }
qed simp_all

lemma start_sites:
  "fst ` set (foldl (\<lambda>d m. AList.update (mname m) [] d) d ms) = fst ` set d \<union> mname ` set ms"
  "distinct (map fst d) \<Longrightarrow> distinct (map fst (foldl (\<lambda>d m. AList.update (mname m) [] d) d ms))"
  "(\<And>k. (case map_of d k of Some s \<Rightarrow> s | None \<Rightarrow> []) = []) \<Longrightarrow>
    (case map_of (foldl (\<lambda>d m. AList.update (mname m) [] d) d ms) k of Some s \<Rightarrow> s | None \<Rightarrow> []) = []"
proof (induction ms arbitrary: d)
  case (Cons m ms)
  { case 1 show ?case using Cons.IH(1) [of "AList.update (mname m) [] d"] by (auto simp: dom_update) }
  { case 2 then show ?case using Cons.IH(2) [OF distinct_update] by simp }
  { case 3
    show ?case by simp (rule Cons.IH(3), use 3 in \<open>auto simp: update_conv split: option.splits\<close>) }
qed simp_all

lemma find_sites_keys: "fst ` set (find_sites ms t) = mname ` set ms \<union> fst ` set (calls t)"
  by (simp add: find_sites_def foldl_sites(1) start_sites(1))

lemma sites_of_find: "sites_of (find_sites ms t) m = map snd (filter (\<lambda>c. fst c = mname m) (calls t))"
  unfolding sites_of_def find_sites_def foldl_sites(3) by (subst start_sites(3)) simp_all

lemma find_sites_distinct: "distinct (map fst (find_sites ms t))"
  unfolding find_sites_def by (intro foldl_sites(2) start_sites(2)) simp

lemma filter_one: "distinct xs \<Longrightarrow> k \<in> set xs \<Longrightarrow> filter (\<lambda>x. x = k) xs = [k]"
  by (induction xs) (auto simp: filter_empty_conv)

text \<open>C17. \<open>sites\<close> tells whether the table and the sources agree: it exits with 0 exactly when the markers of the table are the markers
  that the sources use, and it prints one row for each marker with every call of it in the sources, in their order; each
  unknown marker is named once.\<close>

theorem sites_main_agrees:
  "sites_main markers t = (out, err, rc) \<Longrightarrow>
    (rc = 0 \<longleftrightarrow> fst ` set (calls t) = mname ` set markers) \<and> (rc = 0 \<longrightarrow> err = [])
    \<and> drop 2 out = map (\<lambda>m. site_row [(mname m, map snd (filter (\<lambda>c. fst c = mname m) (calls t)))] m) markers
    \<and> (\<forall>k \<in> fst ` set (calls t) - mname ` set markers.
         length (filter (\<lambda>l. l = ''gen_markers: call site names an unknown marker ISLAND_MK_'' @ k) err) = 1)"
proof -
  assume s: "sites_main markers t = (out, err, rc)"
  let ?sites = "find_sites markers t" and ?pre = "''gen_markers: call site names an unknown marker ISLAND_MK_''"
  let ?unknown = "sort (filter (\<lambda>k. k \<notin> mname ` set markers) (map fst ?sites))"
  let ?missing = "filter (\<lambda>m. sites_of ?sites m = []) markers"
  let ?tail = "if length ?missing > 0 then [''gen_markers: '' @ dec_nat (length ?missing) @ '' marker(s) have no call site''] else []"
  have o: "drop 2 out = map (site_row ?sites) markers" "err = map ((@) ?pre) ?unknown @ ?tail" "rc = (if length ?missing > 0 \<or> ?unknown \<noteq> [] then 1 else 0)"
    using s by (auto simp: sites_main_def Let_def)
  have u: "set ?unknown = fst ` set (calls t) - mname ` set markers" "distinct ?unknown"
    using find_sites_keys [of markers t] find_sites_distinct [of markers t] by auto
  have m: "set ?missing = {m \<in> set markers. mname m \<notin> fst ` set (calls t)}"
    by (force simp: sites_of_find filter_empty_conv)
  have "rc = 0 \<longleftrightarrow> set ?unknown = {} \<and> set ?missing = {}" using o(3) unfolding set_empty by (cases "?missing = []"; cases "?unknown = []") (simp_all del: filter_empty_conv sort_key_simps)
  then have 1: "rc = 0 \<longleftrightarrow> fst ` set (calls t) = mname ` set markers" unfolding u(1) m by auto
  have 2: "rc = 0 \<longrightarrow> err = []" using o(2,3) by auto
  have "site_row ?sites m = site_row [(mname m, map snd (filter (\<lambda>c. fst c = mname m) (calls t)))] m" for m
    by (simp add: site_row_def sites_of_find) (simp add: sites_of_def)
  then have 3: "drop 2 out = map (\<lambda>m. site_row [(mname m, map snd (filter (\<lambda>c. fst c = mname m) (calls t)))] m) markers"
    using o(1) by simp
  have "length (filter (\<lambda>l. l = ?pre @ k) err) = 1" if "k \<in> fst ` set (calls t) - mname ` set markers" for k
  proof -
    have "length (filter (\<lambda>l. l = ?pre @ k) (map ((@) ?pre) ks)) = length (filter (\<lambda>x. x = k) ks)" for ks
      by (induction ks) auto
    moreover have "k \<in> set ?unknown" using that u(1) by simp
    then have "length (filter (\<lambda>x. x = k) ?unknown) = 1" by (simp only: filter_one [OF u(2)]) simp
    moreover have "''gen_markers: '' @ dec_nat n @ '' marker(s) have no call site'' \<noteq> ?pre @ k" for n
      using dec_nat_digits [of n] by (cases "dec_nat n") (auto simp: is_digit_def)
    then have "filter (\<lambda>l. l = ?pre @ k) ?tail = []" by (simp only: filter.simps split: if_split) simp
    ultimately show ?thesis unfolding o(2) by (simp only: filter_append length_append) simp
  qed
  with 1 2 3 show ?thesis by blast
qed

text \<open>A fresh table is current: \<open>check\<close> passes on what \<open>gen\<close> has written, and on nothing else.\<close>

theorem check_after_gen:
  assumes "gen_main ''gen'' env file_sha model t files = Inr (files', out, err, rc)"
  shows "rc = 0 \<and> (\<exists>o2 e2 rc2. gen_main ''check'' env file_sha model t' f2 = Inr (f2, o2, e2, rc2) \<and> (rc2 = 0 \<longleftrightarrow> f2 = files'))"
proof -
  obtain mdl md markers h tb where g: "model = Some mdl" "load_model file_sha mdl = Inr md" "build_table md = Inr markers"
    "render env md markers = Inr (h, tb)" "files' = \<lparr>gf_header = Some h, gf_table = Some tb\<rparr>" "rc = 0"
    using assms by (auto simp: gen_main_def rbind_Inr_iff Let_def split: option.splits)
  have "\<exists>o2. gen_main ''check'' env file_sha model t' f2 = Inr (f2, o2, [], if stale_files f2 h tb = [] then 0 else 1)"
    by (simp add: gen_main_def g(1-4) Let_def)
  moreover have "stale_files f2 h tb = [] \<longleftrightarrow> f2 = files'" unfolding g(5) by (cases f2) (auto simp: stale_files_def)
  ultimately show ?thesis using g(6) by auto
qed

definition demo_tree :: tree where
  "demo_tree = [(''src/autoware_mrm_handler'', [(''notes.md'', [''ISLAND_TRACE(ISLAND_MK_X)'']),
     (''a.cpp'', [''void A::B::on_timer(int x) {'', ''  ISLAND_TRACE(ISLAND_MK_TICK, 1);'', ''}''])])]"

lemma demo_calls: "calls demo_tree = [(''TICK'', ''src/autoware_mrm_handler/a.cpp:2 (on_timer)'')]"
  by code_simp

theorem sites_main_agrees_witness:
  "\<exists>out err rc. sites_main [new_marker ''TICK'' Publish ''/h/t'' ''h''] demo_tree = (out, err, rc) \<and> rc = 0
    \<and> (\<exists>out err rc. sites_main [] demo_tree = (out, err, rc) \<and> rc \<noteq> 0)"
proof -
  obtain out err rc where 1: "sites_main [new_marker ''TICK'' Publish ''/h/t'' ''h''] demo_tree = (out, err, rc)" by (metis prod_cases3)
  obtain out' err' rc' where 2: "sites_main [] demo_tree = (out', err', rc')" by (metis prod_cases3)
  show ?thesis using sites_main_agrees [OF 1] sites_main_agrees [OF 2] 1 2 by (simp add: demo_calls new_marker_def)
qed

theorem check_after_gen_witness:
  "\<exists>files out err rc. gen_main ''gen'' demo_env (\<lambda>_. None) (Some demo_model2) [] \<lparr>gf_header = None, gf_table = None\<rparr> = Inr (files, out, err, rc) \<and> rc = 0
    \<and> (\<exists>o2 e2 rc2. gen_main ''check'' demo_env (\<lambda>_. None) (Some demo_model2) [] files = Inr (files, o2, e2, rc2) \<and> rc2 = 0)"
proof -
  have "\<exists>files out err rc. gen_main ''gen'' demo_env (\<lambda>_. None) (Some demo_model2) [] \<lparr>gf_header = None, gf_table = None\<rparr> = Inr (files, out, err, rc)"
    using demo_gen by (auto simp: gen_main_def gen_def rbind_Inr_iff Let_def)
  then obtain files out err rc where g: "gen_main ''gen'' demo_env (\<lambda>_. None) (Some demo_model2) [] \<lparr>gf_header = None, gf_table = None\<rparr> = Inr (files, out, err, rc)"
    by blast
  from check_after_gen [OF g, of "[]" files] g show ?thesis by blast
qed

end
