(* ===== verification/Late_Records.thy ===== *)
theory Late_Records
  imports Text_Scan Spin_Diag
begin

text \<open>\<^verbatim>\<open>tools/diag/late_records.py\<close>: the late records of a text of \<open>spin_diag.py\<close>, one line each, read back by regular
  expressions from what \<open>decode\<close> printed; and the console's stamps, \<^verbatim>\<open>tools/board/stamp.py\<close>.\<close>

section \<open>The reader\<close>

record late_rec =   \<comment> \<open>the groups of \<open>REC\<close> that are used\<close>
  lr_lvl :: "string option"
  lr_t :: string
  lr_late :: string
  lr_bound :: string
  lr_idle :: string
  lr_ncb :: string
  lr_ntake :: string
  lr_isr :: string
  lr_isr_n :: string

abbreviation solid :: "char \<Rightarrow> bool" where "solid c \<equiv> \<not> is_space c"   \<comment> \<open>\<open>\S\<close>\<close>

definition lit_num :: "string \<Rightarrow> string \<Rightarrow> (string \<times> string) option" where   \<comment> \<open>a literal, then \<open>(\d+)\<close>\<close>
  "lit_num lit s = Option.bind (eat lit s) eat_digits"

definition one_digit :: "string \<Rightarrow> (string \<times> string) option" where   \<comment> \<open>\<open>(\d)\<close>\<close>
  "one_digit s = (case s of [] \<Rightarrow> None | c # r \<Rightarrow> if is_digit c then Some ([c], r) else None)"

definition rec_tag :: "string \<Rightarrow> string option" where   \<comment> \<open>\<open>(late#\d+|WORST)\<close>: what follows\<close>
  "rec_tag s = (case lit_num ''late#'' s of Some (_, r) \<Rightarrow> Some r | None \<Rightarrow> eat ''WORST'' s)"

definition rec_lvl :: "string \<Rightarrow> string option \<times> string" where   \<comment> \<open>\<open>(?: lvl=(\S+))?\<close>\<close>
  "rec_lvl s = (case Option.bind (eat '' lvl='' s) (eat_while solid) of Some (n, r) \<Rightarrow> (Some n, r) | None \<Rightarrow> (None, s))"

definition rec_bound :: "string \<Rightarrow> (string \<times> string) option" where   \<comment> \<open>\<open>park_bound=(\d+us|none)\<close>\<close>
  "rec_bound s =
     Option.bind (eat ''us park_bound='' s) (\<lambda>a.
       (case Option.bind (eat_digits a) (\<lambda>(n, b). map_option (\<lambda>r. (n @ ''us'', r)) (eat ''us'' b)) of
          Some x \<Rightarrow> Some x | None \<Rightarrow> map_option (\<lambda>r. (''none'', r)) (eat ''none'' a)))"

definition match_rec :: "string \<Rightarrow> late_rec option" where   \<comment> \<open>\<open>REC.match\<close>\<close>
  "match_rec b =
     Option.bind (rec_tag b) (\<lambda>s0. (let (lvl, s1) = rec_lvl s0 in
     Option.bind (lit_num '' t='' s1) (\<lambda>(t, s2). Option.bind (lit_num ''ms interval='' s2) (\<lambda>(_, s3).
     Option.bind (lit_num ''us late='' s3) (\<lambda>(late, s4). Option.bind (rec_bound s4) (\<lambda>(pb, s5).
     Option.bind (eat '' idle_path='' s5) (\<lambda>s6. Option.bind (one_digit s6) (\<lambda>(ip, s7).
     Option.bind (lit_num '' ncb='' s7) (\<lambda>(ncb, s8). Option.bind (lit_num '' ntake='' s8) (\<lambda>(ntk, s9).
     Option.bind (lit_num '' isr='' s9) (\<lambda>(isr, s10). Option.bind (lit_num ''us/'' s10) (\<lambda>(isrn, s11).
       Some \<lparr>lr_lvl = lvl, lr_t = t, lr_late = late, lr_bound = pb, lr_idle = ip, lr_ncb = ncb, lr_ntake = ntk,
             lr_isr = isr, lr_isr_n = isrn\<rparr>))))))))))))"

text \<open>\<open>(S\d) \w+: wall=\s*(\d+) spin=\s*(\d+) idle=\s*(\d+) other=\s*(-?\d+)\<close>.\<close>

definition padded_num :: "string \<Rightarrow> string \<Rightarrow> (string \<times> string) option" where
  "padded_num lit s = Option.bind (eat lit s) (\<lambda>r. eat_digits (skip_ws r))"

definition signed_num :: "string \<Rightarrow> (string \<times> string) option" where   \<comment> \<open>\<open>(-?\d+)\<close>\<close>
  "signed_num s =
     (case s of
        c # r \<Rightarrow> if c = CHR ''-'' then map_option (\<lambda>(n, q). (c # n, q)) (eat_digits r) else eat_digits s
      | [] \<Rightarrow> None)"

definition seg_at :: "string \<Rightarrow> ((string \<times> string \<times> string \<times> string \<times> string) \<times> string) option" where
  "seg_at s =
     Option.bind (eat ''S'' s) (\<lambda>s0. Option.bind (one_digit s0) (\<lambda>(k, s1). Option.bind (eat '' '' s1) (\<lambda>s2.
     Option.bind (eat_word s2) (\<lambda>(_, s3). Option.bind (padded_num '': wall='' s3) (\<lambda>(w, s4).
     Option.bind (padded_num '' spin='' s4) (\<lambda>(sp, s5). Option.bind (padded_num '' idle='' s5) (\<lambda>(i, s6).
     Option.bind (eat '' other='' s6) (\<lambda>s7. Option.bind (signed_num (skip_ws s7)) (\<lambda>(o1, s8).
       Some ((''S'' @ k, w, sp, i, o1), s8))))))))))"

definition others_at :: "string \<Rightarrow> string option" where   \<comment> \<open>\<open>other threads: (.*)\<close>\<close>
  "others_at s = map_option (takeWhile (\<lambda>c. c \<noteq> newline)) (eat ''other threads: '' s)"

definition locks_at :: "string \<Rightarrow> (string \<times> string \<times> string \<times> string) option" where
  "locks_at s =
     Option.bind (lit_num ''spin lock waits: n='' s) (\<lambda>(n, s1). Option.bind (lit_num '' total='' s1) (\<lambda>(tot, s2).
     Option.bind (lit_num ''us max='' s2) (\<lambda>(mx, s3). Option.bind (eat ''us in '' s3) (\<lambda>s4.
     Option.bind (eat_while solid s4) (\<lambda>(w, _). Some (n, tot, mx, w))))))"

definition longest_at :: "string \<Rightarrow> (string \<times> string \<times> string) option" where
  "longest_at s =
     Option.bind (lit_num ''longest cb: slot='' s) (\<lambda>(sl, s1). Option.bind (lit_num '' wall='' s1) (\<lambda>(w, s2).
     Option.bind (lit_num '' spin='' s2) (\<lambda>(sp, _). Some (sl, w, sp))))"

text \<open>\<open>re.split(r"\n(?=late#|WORST)", txt)\<close>.\<close>

definition tagged :: "string \<Rightarrow> bool" where
  "tagged s = (starts_with ''late#'' s \<or> starts_with ''WORST'' s)"

fun split_recs :: "string \<Rightarrow> string list" where
  "split_recs [] = [[]]"
| "split_recs (c # s) =
     (if c = newline \<and> tagged s then [] # split_recs s
      else (case split_recs s of x # xs \<Rightarrow> (c # x) # xs | [] \<Rightarrow> [[c]]))"

text \<open>The line of a record: its own fields, then what the search finds in the rest of its block.\<close>

definition bound_shown :: "string \<Rightarrow> string" where
  "bound_shown pb = (if ends_with ''us'' pb then take (length pb - 2) pb else pb)"

definition head_text :: "late_rec \<Rightarrow> string" where
  "head_text m =
     ''lvl='' @ (case lr_lvl m of Some n \<Rightarrow> n | None \<Rightarrow> ''-'') @ '' '' @ rjust 6 (lr_t m) @ '' late='' @ rjust 6 (dec_int (digits_int (lr_late m)))
     @ '' pb='' @ rjust 5 (bound_shown (lr_bound m))
     @ '' ip='' @ lr_idle m @ '' cb='' @ lr_ncb m @ '' tk='' @ lr_ntake m @ '' isr='' @ lr_isr m @ ''/'' @ lr_isr_n m @ '' | ''"

definition rest_text :: "string \<Rightarrow> string" where
  "rest_text b =
     join '' '' (map (\<lambda>(n, w, sp, i, o1). n @ '':'' @ w @ ''/'' @ sp @ ''/'' @ i @ ''/'' @ o1)
                  (filter (\<lambda>(n, w, sp, i, o1). digits_int w > 1500) (findall seg_at b)))
     @ '' | ''
     @ (case search locks_at b of Some (n, tot, mx, w) \<Rightarrow> ''lk='' @ n @ ''/'' @ tot @ ''/'' @ mx @ '' '' @ w | None \<Rightarrow> ''lk=-'')
     @ '' ''
     @ (case search longest_at b of Some (sl, w, sp) \<Rightarrow> ''cbmax='' @ sl @ '':'' @ w @ ''/'' @ sp | None \<Rightarrow> ''cbmax=-'')
     @ '' | '' @ (case search others_at b of Some x \<Rightarrow> x | None \<Rightarrow> ''-'')"

definition late_line :: "int \<Rightarrow> string \<Rightarrow> string option" where
  "late_line minlate b =
     (case match_rec b of
        None \<Rightarrow> None
      | Some m \<Rightarrow> if digits_int (lr_late m) < minlate then None else Some (head_text m @ rest_text b))"

definition late_lines :: "string \<Rightarrow> int \<Rightarrow> string list" where
  "late_lines txt minlate = List.map_filter (late_line minlate) (split_recs txt)"

text \<open>The command: the text of the file, and a lateness that may be given.\<close>

definition late_main :: "string \<Rightarrow> string option \<Rightarrow> string list res" where
  "late_main txt arg =
     (case arg of
        None \<Rightarrow> Inr (late_lines txt 0)
      | Some a \<Rightarrow> (case py_int a of None \<Rightarrow> Inl ValueError | Some k \<Rightarrow> Inr (late_lines txt k)))"

section \<open>Console stamps\<close>

text \<open>\<^verbatim>\<open>tools/board/stamp.py\<close> copies its input to one file unchanged and to another with the host's time before each line. A line
  keeps its line feed; the last may lack one. \<open>at_ns k\<close> is the clock when line \<open>k\<close> was read.\<close>

fun keep_lines :: "bytes \<Rightarrow> bytes list" where
  "keep_lines [] = []"
| "keep_lines (c # cs) =
     (if c = 10 then [c] # keep_lines cs
      else case keep_lines cs of [] \<Rightarrow> [[c]] | l # ls \<Rightarrow> (c # l) # ls)"

definition stamp_console :: "(nat \<Rightarrow> int) \<Rightarrow> bytes \<Rightarrow> bytes \<times> bytes" where
  "stamp_console at_ns input =
     (let ls = enumerate 0 (keep_lines input)
      in (concat (map snd ls), concat (map (\<lambda>(k, l). ascii_encode (dec_int (at_ns k) @ '' '') @ l) ls)))"

lemma concat_keep_lines [simp]: "concat (keep_lines s) = s"
  by (induction s) (auto split: list.splits)

lemma stamp_console_raw: "fst (stamp_console at_ns input) = input"
  by (simp add: stamp_console_def Let_def)

section \<open>A text of \<open>decode\<close> read back\<close>

lemma starts_with_Cons [simp]:
  "starts_with (a # p) (b # s) = (a = b \<and> starts_with p s)" "starts_with [] s" "\<not> starts_with (a # p) []"
  by (auto simp: starts_with_def)

lemma starts_with_line: "newline \<notin> set p \<Longrightarrow> starts_with p (w @ newline # s) = starts_with p w"
proof (induction p arbitrary: w)
  case (Cons a p)
  then show ?case by (cases w) auto
qed simp

lemma tagged_line: "tagged (w @ newline # s) = tagged w"
  by (simp add: tagged_def starts_with_line)

lemma split_recs_not_Nil: "split_recs s \<noteq> []"
  by (induction s) (auto split: list.splits)

lemma split_recs_line:
  assumes "newline \<notin> set l"
  shows "split_recs (l @ newline # s) =
    (if tagged s then l # split_recs s else (l @ newline # hd (split_recs s)) # tl (split_recs s))"
  using assms by (induction l) (auto split: list.splits simp: split_recs_not_Nil)

lemma split_recs_one: "newline \<notin> set l \<Longrightarrow> split_recs l = [l]"
  by (induction l) auto

text \<open>Lines, those after the first untagged, then a tagged text: one block.\<close>

lemma split_recs_block:
  assumes "ls \<noteq> []" "\<forall>l \<in> set ls. newline \<notin> set l" "\<forall>l \<in> set (tl ls). \<not> tagged l" "tagged s"
  shows "split_recs (join [newline] ls @ newline # s) = join [newline] ls # split_recs s"
  using assms(1-3)
proof (induction "[newline]" ls rule: join.induct)
  case (2 x)
  then show ?case using assms(4) by (simp add: split_recs_line)
next
  case (3 x y xs)
  have "split_recs (join [newline] (y # xs) @ newline # s) = join [newline] (y # xs) # split_recs s" using 3 by auto
  moreover have "\<not> tagged (join [newline] (y # xs) @ newline # s)"
    using 3 by (cases xs) (simp_all add: tagged_line)
  ultimately show ?case using 3 by (simp add: split_recs_line)
qed simp

lemma split_recs_last:
  assumes "ls \<noteq> []" "\<forall>l \<in> set ls. newline \<notin> set l" "\<forall>l \<in> set (tl ls). \<not> tagged l"
  shows "split_recs (join [newline] ls @ [newline]) = [join [newline] ls @ [newline]]"
  using assms
proof (induction "[newline]" ls rule: join.induct)
  case (2 x)
  then show ?case by (simp add: split_recs_line tagged_def)
next
  case (3 x y xs)
  have "split_recs (join [newline] (y # xs) @ [newline]) = [join [newline] (y # xs) @ [newline]]" using 3 by auto
  moreover have "\<not> tagged (join [newline] (y # xs) @ [newline])"
    using 3 by (cases xs) (simp_all add: tagged_line)
  ultimately show ?case using 3 by (simp add: split_recs_line)
qed simp

text \<open>The blocks of a text: a head, then records.\<close>

definition is_block :: "string list \<Rightarrow> bool" where
  "is_block ls = (ls \<noteq> [] \<and> tagged (hd ls) \<and> (\<forall>l \<in> set ls. newline \<notin> set l) \<and> (\<forall>l \<in> set (tl ls). \<not> tagged l))"

lemma tagged_block: "is_block ls \<Longrightarrow> tagged (join [newline] ls)" "is_block ls \<Longrightarrow> tagged (join [newline] ls @ newline # s)"
  by (cases ls; cases "tl ls"; auto simp: is_block_def tagged_line)+

lemma split_recs_blocks:
  assumes "ls \<noteq> []" "\<forall>l \<in> set ls. newline \<notin> set l" "\<forall>l \<in> set (tl ls). \<not> tagged l" "\<forall>b \<in> set bs. is_block b"
  shows "split_recs (join [newline] (join [newline] ls # map (join [newline]) bs) @ [newline])
    = butlast (join [newline] ls # map (join [newline]) bs) @ [last (join [newline] ls # map (join [newline]) bs) @ [newline]]"
  using assms
proof (induction bs arbitrary: ls)
  case Nil
  then show ?case by (simp add: split_recs_last)
next
  case (Cons b bs)
  have b: "is_block b" using Cons.prems(4) by simp
  have "tagged (join [newline] (map (join [newline]) (b # bs)) @ [newline])"
    using tagged_block [OF b] by (cases bs) simp_all
  from split_recs_block [OF Cons.prems(1-3) this] Cons.IH [of b] Cons.prems(4) b
  show ?case by (simp add: is_block_def)
qed

section \<open>One record\<close>

lemma dec_int_nonneg: "0 \<le> x \<Longrightarrow> dec_int x = dec_nat (nat x)"
  by (simp add: dec_int_def)

lemma eat_digits_int [simp]:
  "0 \<le> x \<Longrightarrow> \<not> is_digit c \<Longrightarrow> eat_digits (dec_int x @ c # s) = Some (dec_int x, c # s)"
  by (simp add: dec_int_nonneg eat_digits_dec)

lemma digits_int_dec [simp]: "0 \<le> x \<Longrightarrow> digits_int (dec_int x) = x"
  using dec_nat_digits [of "nat x"] by (simp add: dec_int_nonneg)

lemma one_digit_dec: "0 \<le> x \<Longrightarrow> x < 10 \<Longrightarrow> one_digit (dec_int x @ s) = Some (dec_int x, s)"
proof -
  assume x: "0 \<le> x" "x < 10"
  then have n: "nat x < 10" by simp
  have "dec_nat (nat x) = [char_of (48 + nat x)]" by (subst dec_nat.simps) (simp only: n if_True)
  moreover have "is_digit (char_of (48 + nat x))" by (rule digit_char(2) [OF n])
  moreover have "dec_int x = dec_nat (nat x)" by (rule dec_int_nonneg [OF x(1)])
  ultimately have "dec_int x = [char_of (48 + nat x)]" "is_digit (char_of (48 + nat x))" by simp_all
  then show ?thesis by (simp add: one_digit_def)
qed

lemma not_digit [simp]:
  "\<not> is_digit CHR ''m''" "\<not> is_digit CHR ''u''" "\<not> is_digit CHR '' ''" "\<not> is_digit CHR ''/''" "\<not> is_digit CHR ''n''" "\<not> is_digit CHR 0x0A"
  by (simp_all add: is_digit_def)

text \<open>The first line of a record, and the groups it is read to.\<close>

definition lvl_text :: "(nat \<times> string) list \<Rightarrow> sd_dict \<Rightarrow> string" where
  "lvl_text names r = (case map_of names (nat (sd_get r ''level'')) of Some n \<Rightarrow> n | None \<Rightarrow> dec_int (sd_get r ''level''))"

definition bound_text :: "sd_dict \<Rightarrow> string" where
  "bound_text r = (if sd_get r ''park_bound_us'' = NO_BOUND then ''none'' else dec_int (sd_get r ''park_bound_us'') @ ''us'')"

definition groups_of :: "(nat \<times> string) list \<Rightarrow> sd_dict \<Rightarrow> late_rec" where
  "groups_of names r =
     (let d = (\<lambda>k. dec_int (sd_get r k))
      in \<lparr>lr_lvl = Some (lvl_text names r), lr_t = d ''uptime_ms'', lr_late = d ''late_us'', lr_bound = bound_text r,
          lr_idle = d ''idle_path'', lr_ncb = d ''ncb'', lr_ntake = d ''ntake'', lr_isr = d ''isr_us'', lr_isr_n = d ''isr_n''\<rparr>)"

definition first_line :: "(nat \<times> string) list \<Rightarrow> string \<Rightarrow> sd_dict \<Rightarrow> string" where
  "first_line names tag r =
     (let d = (\<lambda>k. dec_int (sd_get r k))
      in tag @ '' lvl='' @ lvl_text names r @ '' t='' @ d ''uptime_ms'' @ ''ms interval='' @ d ''interval_us'' @ ''us late='' @ d ''late_us''
         @ ''us park_bound='' @ bound_text r @ '' idle_path='' @ d ''idle_path'' @ '' ncb='' @ d ''ncb'' @ '' ntake='' @ d ''ntake''
         @ '' isr='' @ d ''isr_us'' @ ''us/'' @ d ''isr_n'')"

definition tag_ok :: "string \<Rightarrow> bool" where
  "tag_ok tag = (tag = ''WORST'' \<or> (\<exists>i. tag = ''late#'' @ dec_nat i))"

lemma rec_tag_ok: "tag_ok tag \<Longrightarrow> rec_tag (tag @ '' lvl='' @ s) = Some ('' lvl='' @ s)"
  using eat_digits_dec [of "'' lvl='' @ s"] by (auto simp: tag_ok_def rec_tag_def lit_num_def)

lemma rec_lvl_ok: "n \<noteq> [] \<Longrightarrow> list_all solid n \<Longrightarrow> rec_lvl ('' lvl='' @ n @ '' t='' @ s) = (Some n, '' t='' @ s)"
  using eat_while_append [of n solid "'' t='' @ s"] by (simp add: rec_lvl_def is_space_def)

lemma rec_bound_ok:
  "0 \<le> sd_get r ''park_bound_us'' \<Longrightarrow> rec_bound (''us park_bound='' @ bound_text r @ s) = Some (bound_text r, s)"
  by (simp add: rec_bound_def bound_text_def eat_while_None)

definition nonneg :: "sd_dict \<Rightarrow> bool" where
  "nonneg r = (\<forall>k. 0 \<le> sd_get r k)"

lemma match_first_line:
  assumes "tag_ok tag" "lvl_text names r \<noteq> []" "list_all solid (lvl_text names r)" "nonneg r" "sd_get r ''idle_path'' < 10"
    and "s = [] \<or> \<not> is_digit (hd s)"
  shows "match_rec (first_line names tag r @ s) = Some (groups_of names r)"
proof -
  have nn: "0 \<le> sd_get r k" for k using assms(4) by (simp add: nonneg_def)
  note t = rec_tag_ok [OF assms(1)] rec_lvl_ok [OF assms(2,3)] rec_bound_ok [OF nn]
  have e: "eat_digits (dec_int (sd_get r k) @ s) = Some (dec_int (sd_get r k), s)" for k
    using eat_digits_dec [OF assms(6)] nn by (simp add: dec_int_nonneg)
  show ?thesis
    using nn assms(5) unfolding match_rec_def first_line_def Let_def append_assoc t(1) Option.bind.simps t(2) prod.case
    by (simp add: lit_num_def t(3) [simplified] one_digit_dec e groups_of_def)
qed

section \<open>The text of a reading\<close>

definition flat :: "string \<Rightarrow> bool" where "flat s = (newline \<notin> set s)"

lemma flat_simps [simp]: "flat []" "flat (c # s) = (c \<noteq> newline \<and> flat s)" "flat (s @ t) = (flat s \<and> flat t)"
  by (auto simp: flat_def)

lemma flat_solid: "list_all solid s \<Longrightarrow> flat s"
  by (induction s) (auto simp: is_space_def)

lemma flat_word: "word s \<Longrightarrow> flat s"
  by (auto simp: flat_def dest: word_chars [of s newline] simp: ident_char_def ident_start_def is_digit_def)

lemma flat_dec [simp]: "flat (dec_nat n)" "flat (dec_int x)"
  using flat_word [OF word_dec_nat] by (auto simp: dec_int_def)

lemma flat_hex [simp]: "flat (py_hex x)"
proof -
  have h: "hexdig (int n) \<noteq> newline" if "n < 16" for n
    using that by (auto simp: hexdig_def less_Suc_eq numeral_eq_Suc)
  have "flat (hex_nat n)" for n
    by (induction n rule: hex_nat.induct) (subst hex_nat.simps, simp add: h)
  then show ?thesis by (simp add: py_hex_def)
qed

lemma flat_join: "flat sep \<Longrightarrow> \<forall>x \<in> set xs. flat x \<Longrightarrow> flat (join sep xs)"
  by (induction sep xs rule: join.induct) auto

lemma flat_subset: "set s \<subseteq> set t \<Longrightarrow> flat t \<Longrightarrow> flat s"
  by (auto simp: flat_def)

lemma flat_rjust [simp]: "flat (rjust n s) = flat s"
  by (auto simp: rjust_def flat_def)

lemma flat_g_ms [simp]: "flat (g_ms x)"
proof -
  have z: "flat s \<Longrightarrow> flat (strip0s s)" for s
    by (rule flat_subset [of _ s]) (auto simp: strip0s_def dest: set_dropWhileD)
  have p: "flat a \<Longrightarrow> flat b \<Longrightarrow> flat (point_digits a b)" for a b using z [of b] by (simp add: point_digits_def Let_def)
  have td: "flat (take n (dec_int y))" "flat (drop n (dec_int y))" for n y
    using flat_dec(2) [of y] by (auto simp: flat_def dest: in_set_takeD in_set_dropD)
  have "flat (pad3 y)" for y by (simp add: pad3_def)
  then show ?thesis using p td by (simp add: g_ms_def Let_def)
qed

definition texts_ok :: "(int \<Rightarrow> string list option) option \<Rightarrow> spin_view \<Rightarrow> bool" where
  "texts_ok elf d =
     ((\<forall>x \<in> set (sp_levels d). x_name x \<noteq> [] \<and> list_all solid (x_name x)) \<and> (\<forall>(t, n) \<in> set (sp_thr d). list_all solid n)
      \<and> (\<forall>a2l a ws. elf = Some a2l \<longrightarrow> a2l a = Some ws \<longrightarrow> (\<forall>w \<in> set ws. list_all solid w)))"

lemma solid_word: "word s \<Longrightarrow> list_all solid s"
  by (auto simp: word_def list_all_iff dest: scan_chars(1))

lemma solid_texts [simp]: "list_all solid (dec_nat n)" "list_all solid (dec_int x)" "list_all solid (py_hex x)"
proof -
  show d: "list_all solid (dec_nat n)" for n by (rule solid_word [OF word_dec_nat])
  show "list_all solid (dec_int x)" using d by (simp add: dec_int_def is_space_def)
  have h: "solid (hexdig (int n))" if "n < 16" for n
    using that by (auto simp: hexdig_def is_space_def less_Suc_eq numeral_eq_Suc)
  have "list_all solid (hex_nat n)" for n
    by (induction n rule: hex_nat.induct) (subst hex_nat.simps, simp add: h)
  then show "list_all solid (py_hex x)" by (simp add: py_hex_def is_space_def)
qed

lemma solid_fn_at: "texts_ok elf d \<Longrightarrow> list_all solid (fn_at elf a) \<and> fn_at elf a \<noteq> []"
proof -
  have "py_hex x \<noteq> []" for x by (simp add: py_hex_def)
  moreover have "solid CHR ''@''" "solid CHR ''-''" by (simp_all add: is_space_def)
  ultimately show "texts_ok elf d \<Longrightarrow> list_all solid (fn_at elf a) \<and> fn_at elf a \<noteq> []"
    unfolding texts_ok_def fn_at_def by (auto split: option.splits list.splits)
qed

lemmas flat_fn_at = flat_solid [OF conjunct1 [OF solid_fn_at]]

definition seg_line :: "sd_dict \<Rightarrow> nat \<Rightarrow> string" where
  "seg_line r i =
     (let wl = sd_get r (''wall'' @ dec_nat i); mn = sd_get r (''main'' @ dec_nat i); idl = sd_get r (''idle'' @ dec_nat i)
      in ''    '' @ SEGS ! i @ '': wall='' @ rjust 6 (dec_int wl) @ '' spin='' @ rjust 6 (dec_int mn)
         @ '' idle='' @ rjust 6 (dec_int idl) @ '' other='' @ rjust 6 (dec_int (wl - mn - idl)))"

definition cb_line :: "sd_dict \<Rightarrow> string" where
  "cb_line r =
     (let d = (\<lambda>k. dec_int (sd_get r k))
      in ''    longest cb: slot='' @ d ''cb_slot'' @ '' wall='' @ d ''cb_wall_us'' @ '' spin='' @ d ''cb_main_us''
         @ '' idle='' @ d ''cb_idle_us'' @ '' isr='' @ d ''cb_isr_us'' @ ''us/'' @ d ''cb_isr_n'' @ '' at +'' @ d ''cb_off_us'' @ ''us'')"

definition lk_line :: "string \<Rightarrow> sd_dict \<Rightarrow> string" where
  "lk_line fn r =
     (let d = (\<lambda>k. dec_int (sd_get r k))
      in ''    spin lock waits: n='' @ d ''lk_main_n'' @ '' total='' @ d ''lk_main_us'' @ ''us max='' @ d ''lk_main_max_us''
         @ ''us in '' @ fn @ '' m='' @ py_hex (sd_get r ''lk_main_max_m''))"

definition ol_line :: "string \<Rightarrow> sd_dict \<Rightarrow> string" where
  "ol_line fn r =
     (let d = (\<lambda>k. dec_int (sd_get r k))
      in ''    other lock waits: n='' @ d ''lk_oth_n'' @ '' total='' @ d ''lk_oth_us'' @ ''us max='' @ d ''lk_oth_max_us'' @ ''us in '' @ fn)"

definition busy_threads :: "(int \<times> string) list \<Rightarrow> sd_dict \<Rightarrow> string" where
  "busy_threads thr r =
     join '' '' (map (\<lambda>i. (case map_of thr (sd_get r (''tt'' @ dec_nat i)) of Some n \<Rightarrow> n | None \<Rightarrow> py_hex (sd_get r (''tt'' @ dec_nat i)))
         @ ''='' @ dec_int (sd_get r (''tu'' @ dec_nat i)) @ ''us'')
       (filter (\<lambda>i. sd_get r (''tt'' @ dec_nat i) \<noteq> 0) [0..<3]))"

definition rest_lines :: "(int \<Rightarrow> string list option) option \<Rightarrow> (int \<times> string) list \<Rightarrow> sd_dict \<Rightarrow> string list" where
  "rest_lines elf thr r = map (seg_line r) [0..<5] @ [cb_line r, lk_line (fn_at elf (sd_get r ''lk_main_max_ra'')) r,
     ol_line (fn_at elf (sd_get r ''lk_oth_max_ra'')) r, ''    other threads: '' @ busy_threads thr r]"

lemma fmt_rec_lines: "fmt_rec elf names thr r tag = join [newline] (first_line names tag r # rest_lines elf thr r)"
  by (simp only: fmt_rec_def first_line_def rest_lines_def seg_line_def [abs_def] cb_line_def lk_line_def ol_line_def busy_threads_def
    bound_text_def lvl_text_def Let_def append_Cons append_Nil append_assoc)

lemma rest_lines_ok:
  assumes "texts_ok elf d" "thr = sp_thr d"
  shows "\<forall>l \<in> set (rest_lines elf thr r). flat l \<and> \<not> tagged l"
proof -
  have t: "flat (case map_of thr t of Some n \<Rightarrow> n | None \<Rightarrow> py_hex t)" for t
    using assms by (auto simp: texts_ok_def split: option.splits dest!: map_of_SomeD intro!: flat_solid)
  have s: "flat (SEGS ! i)" if "i < 5" for i using that by (auto simp: SEGS_def less_Suc_eq numeral_eq_Suc)
  have j: "flat (join '' '' (map (\<lambda>i. (case map_of thr (f i) of Some n \<Rightarrow> n | None \<Rightarrow> py_hex (f i)) @ ''='' @ dec_int (g i) @ ''us'') xs))" for f g and xs :: "nat list"
    by (rule flat_join) (use t in auto)
  show ?thesis
    using s flat_fn_at [OF assms(1)]
      j [of "\<lambda>i. sd_get r (''tt'' @ dec_nat i)" "\<lambda>i. sd_get r (''tu'' @ dec_nat i)" "filter (\<lambda>i. sd_get r (''tt'' @ dec_nat i) \<noteq> 0) [0..<3]"]
    by (auto simp: rest_lines_def seg_line_def cb_line_def lk_line_def ol_line_def busy_threads_def Let_def tagged_def)
qed

text \<open>The lines before the first record.\<close>

definition intro_lines :: "spin_view \<Rightarrow> string list" where
  "intro_lines d =
     (let lv = sp_levels d; thr_ms = g_ms (sp_late_thr d)
      in [''spins='' @ dec_int (sum_list (map x_spins lv)) @ '' late(>='' @ thr_ms @ ''ms)=''
           @ dec_int (sum_list (map x_late lv)) @ '' max_late_us='' @ dec_int (foldr max (map x_max_late lv) 0)
           @ '' levels='' @ dec_nat (length lv) @ '' dropped='' @ dec_int (sp_dropped d)
           @ '' (lateness = interval past its own park bound; sum over the levels below)'',
         ''lateness histogram (ms bin: count): '' @ hist_str (hist_sum (sp_bins d) lv)]
        @ concat (map (level_lines thr_ms) lv)
        @ [''threads: '' @ join '' '' (map (\<lambda>(t, n). py_hex t @ ''='' @ n) (sp_thr d))])"

definition shown_recs :: "spin_view \<Rightarrow> (string \<times> sd_dict) list" where
  "shown_recs d = map (\<lambda>x. (''WORST'', x_worst x)) (filter (\<lambda>x. x_max_late x \<noteq> 0) (sp_levels d))
     @ map (\<lambda>(i, r). (''late#'' @ dec_nat i, r)) (sp_ring d)"

definition lvl_names :: "spin_view \<Rightarrow> (nat \<times> string) list" where
  "lvl_names d = map (\<lambda>x. (x_index x, x_name x)) (sp_levels d)"

definition block_of :: "(int \<Rightarrow> string list option) option \<Rightarrow> spin_view \<Rightarrow> string \<times> sd_dict \<Rightarrow> string list" where
  "block_of elf d tr = first_line (lvl_names d) (fst tr) (snd tr) # rest_lines elf (sp_thr d) (snd tr)"

lemma join_append: "xs \<noteq> [] \<Longrightarrow> join sep (xs @ ys) = join sep (join sep xs # ys)"
proof (induction sep xs rule: join.induct)
  case (2 sep x)
  then show ?case by simp
next
  case (3 sep x y xs)
  then show ?case by (cases ys) simp_all
qed simp

lemma decode_text_blocks:
  "decode_text elf d = join [newline] (join [newline] (intro_lines d) # map (join [newline]) (map (block_of elf d) (shown_recs d))) @ [newline]"
proof -
  have h: "intro_lines d \<noteq> []" by (simp add: intro_lines_def Let_def)
  have "decode_text elf d = join [newline] (intro_lines d @ map (join [newline]) (map (block_of elf d) (shown_recs d))) @ [newline]"
    unfolding decode_text_def intro_lines_def shown_recs_def Let_def
    by (simp add: fmt_rec_lines block_of_def lvl_names_def comp_def case_prod_unfold)
  then show ?thesis unfolding join_append [OF h] .
qed

lemma intro_lines_ok:
  assumes "texts_ok elf d"
  shows "intro_lines d \<noteq> []" "\<forall>l \<in> set (intro_lines d). flat l" "\<forall>l \<in> set (tl (intro_lines d)). \<not> tagged l"
    "match_rec (join [newline] (intro_lines d) @ s) = None"
proof -
  have hist: "flat (hist_str h)" for h unfolding hist_str_def by (rule flat_join) auto
  have seg: "flat (join '' '' (map (\<lambda>k. SEGS ! k @ ''='' @ dec_int (f k)) [0..<5]))" for f
    by (rule flat_join) (auto simp: SEGS_def less_Suc_eq numeral_eq_Suc)
  have nm: "flat (lvname x)" if "x \<in> set (sp_levels d)" for x
    using assms that by (auto simp: lvname_def texts_ok_def flat_solid)
  have b: "flat (bounds x)" for x by (simp add: bounds_def)
  have th: "flat (join '' '' (map (\<lambda>(t, n). py_hex t @ ''='' @ n) (sp_thr d)))"
  proof -
    have "flat n" if "(t, n) \<in> set (sp_thr d)" for t n
      using assms that by (intro flat_solid) (auto simp: texts_ok_def)
    then show ?thesis by (intro flat_join) auto
  qed
  show "intro_lines d \<noteq> []" by (simp add: intro_lines_def Let_def)
  show "\<forall>l \<in> set (intro_lines d). flat l" using hist seg nm b th by (auto simp: intro_lines_def level_lines_def Let_def)
  show "\<forall>l \<in> set (tl (intro_lines d)). \<not> tagged l" by (auto simp: intro_lines_def level_lines_def Let_def tagged_def)
  have "\<exists>u. join [newline] (intro_lines d) @ s = CHR ''s'' # u"
    by (cases "join [newline] (tl (intro_lines d))"; cases "tl (intro_lines d)") (auto simp: intro_lines_def Let_def)
  then show "match_rec (join [newline] (intro_lines d) @ s) = None"
    by (auto simp: match_rec_def rec_tag_def lit_num_def)
qed

section \<open>What the search finds in a block\<close>

fun occurs :: "string \<Rightarrow> string \<Rightarrow> bool" where
  "occurs p [] = (p = [])"
| "occurs p (c # s) = (starts_with p (c # s) \<or> occurs p s)"

abbreviation first_of :: "string \<Rightarrow> string" where "first_of \<equiv> takeWhile (\<lambda>c. c \<noteq> newline)"

text \<open>A pattern that needs \<open>lit\<close> in its line passes over the lines without it.\<close>

definition needs :: "string \<Rightarrow> (string \<Rightarrow> 'a option) \<Rightarrow> bool" where
  "needs lit p = (lit \<noteq> [] \<and> (\<forall>t x. p t = Some x \<longrightarrow> occurs lit (first_of t)))"

lemma first_of_line: "flat l \<Longrightarrow> first_of (l @ newline # s) = l" "flat l \<Longrightarrow> first_of l = l"
  by (auto simp: flat_def) (subst takeWhile_append2, auto)

lemma needs_none: "needs lit p \<Longrightarrow> \<not> occurs lit (first_of t) \<Longrightarrow> p t = None"
  by (cases "p t") (auto simp: needs_def)

lemma search_line:
  assumes "needs lit p" "flat l" "\<not> occurs lit l"
  shows "search p (l @ newline # s) = search p s"
  using assms(2,3)
proof (induction l)
  case Nil
  then show ?case using needs_none [OF assms(1), of "newline # s"] assms(1) by (simp add: needs_def)
next
  case (Cons c l)
  have "p (c # l @ newline # s) = None"
    using needs_none [OF assms(1), of "(c # l) @ newline # s"] first_of_line(1) [of "c # l" s] Cons.prems by simp
  then show ?case using Cons by simp
qed

lemma findall_line:
  assumes "needs lit p" "flat l" "\<not> occurs lit l"
  shows "findall p (l @ newline # s) = findall p s"
  using assms(2,3)
proof (induction l)
  case Nil
  then show ?case using needs_none [OF assms(1), of "newline # s"] assms(1) by (simp add: needs_def findall_skip)
next
  case (Cons c l)
  have "p (c # l @ newline # s) = None"
    using needs_none [OF assms(1), of "(c # l) @ newline # s"] first_of_line(1) [of "c # l" s] Cons.prems by simp
  then show ?case using Cons by (simp add: findall_skip)
qed

lemma occurs_starts: "starts_with lit s \<Longrightarrow> occurs lit s"
  by (cases s) (auto simp: starts_with_def)

lemma starts_first: "flat lit \<Longrightarrow> starts_with lit t \<Longrightarrow> starts_with lit (first_of t)"
proof (induction lit arbitrary: t)
  case (Cons a lit)
  then show ?case by (cases t) auto
qed simp

lemma needs_eat:
  assumes "lit \<noteq> []" "flat lit" "\<And>t x. p t = Some x \<Longrightarrow> eat lit t \<noteq> None"
  shows "needs lit p"
  unfolding needs_def using assms(1,3)
proof (intro conjI allI impI)
  fix t x
  assume "p t = Some x"
  from assms(3) [OF this] have "starts_with lit t" unfolding eat_def by (cases "starts_with lit t") simp_all
  then show "occurs lit (first_of t)" by (intro occurs_starts starts_first [OF assms(2)])
qed

lemma needs_locks: "needs ''spin lock waits: n='' locks_at"
  by (rule needs_eat) (auto simp: locks_at_def lit_num_def bind_eq_Some_conv simp del: eat_Cons)

lemma needs_longest: "needs ''longest cb: slot='' longest_at"
  by (rule needs_eat) (auto simp: longest_at_def lit_num_def bind_eq_Some_conv simp del: eat_Cons)

lemma needs_others: "needs ''other threads: '' others_at"
  by (rule needs_eat) (auto simp: others_at_def simp del: eat_Cons)

text \<open>Solid text before \<open>s\<close> holds no literal with a space in it, unless the literal's rest starts at \<open>s\<close>.\<close>

definition tails :: "string \<Rightarrow> string list" where
  "tails lit = map (\<lambda>i. drop i lit) [1..<Suc (length (takeWhile solid lit))]"

lemma starts_solid:
  assumes "starts_with lit (u @ s)" "list_all solid u" "u \<noteq> []" "\<not> list_all solid lit"
  shows "\<exists>w \<in> set (tails lit). starts_with w s"
proof -
  have l: "lit = take (length lit) u @ take (length lit - length u) s" using assms(1) by (simp add: starts_with_def)
  have n: "length u \<le> length lit"
  proof (rule ccontr)
    assume "\<not> length u \<le> length lit"
    then have "lit = take (length lit) u" using l by simp
    then have "set lit \<subseteq> set u" by (metis set_take_subset)
    with assms(2,4) show False by (auto simp: list_all_iff)
  qed
  then have l: "lit = u @ take (length lit - length u) s" using l by simp
  let ?w = "take (length lit - length u) s"
  have "length u \<le> length (takeWhile solid lit)"
  proof -
    have "takeWhile solid (u @ ?w) = u @ takeWhile solid ?w" using assms(2) by (simp add: takeWhile_append list_all_iff)
    then show ?thesis using l by (metis le_add1 length_append)
  qed
  moreover have "?w = drop (length u) lit" using l by (metis append_eq_conv_conj)
  ultimately have "?w \<in> set (tails lit)" using assms(3) by (auto simp: tails_def Suc_le_eq intro!: image_eqI [of _ _ "length u"])
  moreover have "starts_with ?w s" by (simp add: starts_with_def min_def)
  ultimately show ?thesis by blast
qed

lemma occurs_solid:
  assumes "list_all solid u" "\<not> list_all solid lit" "\<forall>w \<in> set (tails lit). \<not> starts_with w s"
  shows "occurs lit (u @ s) = occurs lit s"
  using assms(1)
proof (induction u)
  case (Cons c u)
  then show ?case using starts_solid [of lit "c # u" s] assms(2,3) by auto
qed simp

lemma occurs_all_solid: "list_all solid u \<Longrightarrow> \<not> list_all solid lit \<Longrightarrow> \<not> occurs lit u"
proof (induction u)
  case (Cons c u)
  have "\<not> starts_with lit (c # u)"
  proof
    assume "starts_with lit (c # u)"
    then have "set lit \<subseteq> set (c # u)" unfolding starts_with_def by (metis set_take_subset)
    with Cons.prems show False by (auto simp: list_all_iff)
  qed
  with Cons show ?case by simp
qed auto

lemma first_of_app: "flat u \<Longrightarrow> first_of (u @ s) = u @ first_of s"
  by (induction u) auto

text \<open>The pattern of a segment needs \<open>": wall="\<close> in its line.\<close>

lemma eat_while_Some: "eat_while p s = Some (w, r) \<longleftrightarrow> s = w @ r \<and> w \<noteq> [] \<and> list_all p w \<and> (r = [] \<or> \<not> p (hd r))"
proof
  assume e: "eat_while p s = Some (w, r)"
  then have "w = takeWhile p s" "r = dropWhile p s" "w \<noteq> []" by (auto simp: eat_while_def split: if_splits)
  then show "s = w @ r \<and> w \<noteq> [] \<and> list_all p w \<and> (r = [] \<or> \<not> p (hd r))"
    using hd_dropWhile [of p s] by (auto simp: list_all_iff dest: set_takeWhileD)
next
  assume "s = w @ r \<and> w \<noteq> [] \<and> list_all p w \<and> (r = [] \<or> \<not> p (hd r))"
  then show "eat_while p s = Some (w, r)" using eat_while_append [of w p r] by simp
qed

lemma occurs_append: "occurs lit s \<Longrightarrow> occurs lit (u @ s)"
  by (induction u) auto

lemma needs_seg: "needs '': wall='' seg_at"
  unfolding needs_def
proof (intro conjI allI impI)
  fix t x
  assume "seg_at t = Some x"
  then obtain k s1 s0 s2 w s3 y where p: "eat ''S'' t = Some s1" "one_digit s1 = Some (k, s0)" "eat '' '' s0 = Some s2"
    "eat_word s2 = Some (w, s3)" "padded_num '': wall='' s3 = Some y"
    by (auto simp: seg_at_def bind_eq_Some_conv simp del: eat_Cons)
  then obtain s4 where t: "eat ''S'' t = Some s1" "one_digit s1 = Some (k, CHR '' '' # w @ s3)" "word w" "eat '': wall='' s3 = Some s4"
    by (auto simp: padded_num_def bind_eq_Some_conv eat_while_Some word_def eat_Some [of "'' ''"] simp del: eat_Cons)
  have s1: "s1 = k @ CHR '' '' # w @ s3" "flat k"
    using t(2) by (auto simp: one_digit_def is_digit_def split: list.splits if_splits)
  have "t = (''S'' @ k @ '' '' @ w) @ '': wall='' @ s4" using t(1,4) s1(1) by (simp add: eat_Some)
  moreover have f: "flat (''S'' @ k @ '' '' @ w)" using s1(2) flat_word [OF t(3)] by simp
  ultimately have "first_of t = (''S'' @ k @ '' '' @ w) @ '': wall='' @ first_of s4"
    using first_of_app [OF f, of "'': wall='' @ s4"] by simp
  then show "occurs '': wall='' (first_of t)" using occurs_append [OF occurs_starts] by (metis append_eq_conv_conj starts_with_def)
qed simp

lemma tails_lits:
  "tails '': wall='' = ['' wall='']"
  "tails ''spin lock waits: n='' = [''pin lock waits: n='', ''in lock waits: n='', ''n lock waits: n='', '' lock waits: n='']"
  "tails ''longest cb: slot='' = [''ongest cb: slot='', ''ngest cb: slot='', ''gest cb: slot='', ''est cb: slot='', ''st cb: slot='', ''t cb: slot='', '' cb: slot='']"
  "tails ''other threads: '' = [''ther threads: '', ''her threads: '', ''er threads: '', ''r threads: '', '' threads: '']"
  by (simp_all add: tails_def is_space_def upt_rec numeral_eq_Suc)

lemma space_lits: "\<not> list_all solid '': wall=''" "\<not> list_all solid ''spin lock waits: n=''" "\<not> list_all solid ''longest cb: slot=''"
  "\<not> list_all solid ''other threads: ''"
  by (simp_all add: is_space_def)

lemmas occurs_lits = occurs_all_solid [OF _ space_lits(1)] occurs_all_solid [OF _ space_lits(2)]
  occurs_all_solid [OF _ space_lits(3)] occurs_all_solid [OF _ space_lits(4)] occurs_solid [OF _ space_lits(1), unfolded tails_lits] occurs_solid [OF _ space_lits(2), unfolded tails_lits]
  occurs_solid [OF _ space_lits(3), unfolded tails_lits] occurs_solid [OF _ space_lits(4), unfolded tails_lits]

lemma occurs_dec:
  assumes "\<not> is_digit c" "c \<noteq> CHR ''-''"
  shows "occurs (c # lit) (dec_int x @ s) = occurs (c # lit) s" "occurs (c # lit) (dec_nat n @ s) = occurs (c # lit) s"
proof -
  have d: "c \<notin> set (dec_nat n)" for n using dec_nat_digits [of n] assms(1) by (auto simp: list_all_iff)
  then have x: "c \<notin> set (dec_int x)" using assms(2) by (simp add: dec_int_def)
  have skip: "c \<notin> set u \<Longrightarrow> occurs (c # lit) (u @ s) = occurs (c # lit) s" for u by (induction u) auto
  show "occurs (c # lit) (dec_int x @ s) = occurs (c # lit) s" "occurs (c # lit) (dec_nat n @ s) = occurs (c # lit) s"
    by (rule skip [OF x]) (rule skip [OF d])
qed

lemma lit_heads: "\<not> is_digit CHR '':''" "\<not> is_digit CHR ''s''" "\<not> is_digit CHR ''l''" "\<not> is_digit CHR ''o''"
  by (simp_all add: is_digit_def)

lemmas occurs_decs = lit_heads occurs_dec

lemma first_line_quiet:
  assumes "tag_ok tag" "list_all solid (lvl_text names r)"
  shows "\<not> occurs '': wall='' (first_line names tag r)" "\<not> occurs ''spin lock waits: n='' (first_line names tag r)"
    "\<not> occurs ''longest cb: slot='' (first_line names tag r)" "\<not> occurs ''other threads: '' (first_line names tag r)"
  using assms by (auto simp: tag_ok_def first_line_def Let_def bound_text_def occurs_decs occurs_lits)

lemma occurs_rjust:
  assumes "hd lit \<noteq> CHR '' ''" "lit \<noteq> []"
  shows "occurs lit (rjust n u @ s) = occurs lit (u @ s)" "occurs lit (rjust n u) = occurs lit u"
proof -
  have "\<not> starts_with lit (CHR '' '' # t)" for t using assms by (cases lit) auto
  then have "occurs lit (replicate k CHR '' '' @ t) = occurs lit t" for k t by (induction k) auto
  then show "occurs lit (rjust n u @ s) = occurs lit (u @ s)" "occurs lit (rjust n u) = occurs lit u"
    by (simp_all add: rjust_def)
qed

lemmas occurs_rjusts = occurs_rjust [of "'': wall=''"] occurs_rjust [of "''spin lock waits: n=''"] occurs_rjust [of "''longest cb: slot=''"]
  occurs_rjust [of "''other threads: ''"]

lemma segs_list: "i < 5 \<Longrightarrow> SEGS ! i \<in> {''S0 pre'', ''S1 wait'', ''S2 disp'', ''S3 post'', ''S4 loop''}"
  by (auto simp: SEGS_def less_Suc_eq numeral_eq_Suc)

lemma seg_line_quiet:
  assumes "i < 5"
  shows "\<not> occurs ''spin lock waits: n='' (seg_line r i)" "\<not> occurs ''longest cb: slot='' (seg_line r i)"
    "\<not> occurs ''other threads: '' (seg_line r i)"
  using segs_list [OF assms] by (auto simp: seg_line_def Let_def occurs_rjusts occurs_decs occurs_lits)

lemma cb_line_quiet:
  "\<not> occurs '': wall='' (cb_line r)" "\<not> occurs ''spin lock waits: n='' (cb_line r)" "\<not> occurs ''other threads: '' (cb_line r)"
  by (simp_all add: cb_line_def Let_def occurs_decs occurs_lits)

lemma lk_line_quiet:
  assumes "list_all solid fn"
  shows "\<not> occurs '': wall='' (lk_line fn r)" "\<not> occurs ''longest cb: slot='' (lk_line fn r)" "\<not> occurs ''other threads: '' (lk_line fn r)"
  using assms by (simp_all add: lk_line_def Let_def occurs_decs occurs_lits)

lemma ol_line_quiet:
  assumes "list_all solid fn"
  shows "\<not> occurs '': wall='' (ol_line fn r)" "\<not> occurs ''longest cb: slot='' (ol_line fn r)" "\<not> occurs ''other threads: '' (ol_line fn r)"
  using assms by (simp_all add: ol_line_def Let_def occurs_decs occurs_lits)

section \<open>A whole block\<close>

text \<open>What a line of \<open>late_records.py\<close> shows of a record.\<close>

definition seg_shown :: "sd_dict \<Rightarrow> nat \<Rightarrow> string \<times> string \<times> string \<times> string \<times> string" where
  "seg_shown r i =
     (let wl = sd_get r (''wall'' @ dec_nat i); mn = sd_get r (''main'' @ dec_nat i); idl = sd_get r (''idle'' @ dec_nat i)
      in (''S'' @ dec_nat i, dec_int wl, dec_int mn, dec_int idl, dec_int (wl - mn - idl)))"

lemma skip_rjust: "skip_ws (rjust n (dec_int x) @ s) = dec_int x @ s"
proof -
  have "skip_ws (replicate k CHR '' '' @ t) = skip_ws t" for k t by (induction k) (auto simp: is_space_def)
  moreover have "dec_int x \<noteq> []" using dec_nat_digits by (auto simp: dec_int_def)
  then have "skip_ws (dec_int x @ s) = dec_int x @ s" using solid_texts(2) [of x] by (cases "dec_int x") auto
  ultimately show ?thesis by (simp add: rjust_def)
qed

lemma signed_dec: "s = [] \<or> \<not> is_digit (hd s) \<Longrightarrow> signed_num (dec_int x @ s) = Some (dec_int x, s)"
proof -
  assume s: "s = [] \<or> \<not> is_digit (hd s)"
  show ?thesis
  proof (cases "x < 0")
    case True
    then show ?thesis using eat_digits_dec [OF s] by (simp add: dec_int_def signed_num_def)
  next
    case False
    obtain c t where c: "dec_nat (nat x) = c # t" "is_digit c" using dec_nat_digits [of "nat x"] by (cases "dec_nat (nat x)") auto
    then have "c \<noteq> CHR ''-''" by (auto simp: is_digit_def)
    then show ?thesis using eat_digits_dec [OF s, of "nat x"] False c by (simp add: dec_int_def signed_num_def)
  qed
qed

lemma seg_at_line:
  assumes "i < 5" "nonneg r"
  shows "findall seg_at (seg_line r i @ newline # s) = seg_shown r i # findall seg_at s"
proof -
  have nn: "0 \<le> sd_get r k" for k using assms(2) by (simp add: nonneg_def)
  let ?w = "sd_get r (''wall'' @ dec_nat i)" and ?m = "sd_get r (''main'' @ dec_nat i)" and ?d = "sd_get r (''idle'' @ dec_nat i)"
  let ?rest = "'': wall='' @ rjust 6 (dec_int ?w) @ '' spin='' @ rjust 6 (dec_int ?m) @ '' idle='' @ rjust 6 (dec_int ?d)
    @ '' other='' @ rjust 6 (dec_int (?w - ?m - ?d)) @ newline # s"
  obtain w where w: "SEGS ! i = ''S'' @ dec_nat i @ '' '' @ w" "word w" "one_digit (dec_nat i @ '' '' @ w @ ?rest) = Some (dec_nat i, '' '' @ w @ ?rest)"
  proof -
    have "list_all (\<lambda>i. SEGS ! i = ''S'' @ dec_nat i @ '' '' @ drop 3 (SEGS ! i) \<and> word (drop 3 (SEGS ! i))) [0..<5]" by code_simp
    then have e: "\<exists>w. SEGS ! i = ''S'' @ dec_nat i @ '' '' @ w \<and> word w" using assms(1) by (auto simp: list_all_iff)
    moreover have "one_digit (dec_nat i @ t) = Some (dec_nat i, t)" for t
      using one_digit_dec [of "int i"] assms(1) by (simp add: dec_int_def)
    ultimately show ?thesis using that by auto
  qed
  have ew: "eat_word (w @ ?rest) = Some (w, ?rest)" by (rule eat_word_append [OF w(2)]) simp
  have at: "seg_at (''S'' @ dec_nat i @ '' '' @ w @ ?rest) = Some (seg_shown r i, newline # s)"
    using w(3) ew nn signed_dec [of "newline # s" "?w - ?m - ?d"]
    by (simp add: seg_at_def padded_num_def skip_rjust seg_shown_def Let_def)
  have none: "c \<noteq> CHR ''S'' \<Longrightarrow> seg_at (c # t) = None" for c t by (simp add: seg_at_def)
  have "seg_line r i @ newline # s = ''    '' @ ''S'' @ dec_nat i @ '' '' @ w @ ?rest" by (simp add: seg_line_def Let_def w(1))
  then have "findall seg_at (seg_line r i @ newline # s) = findall seg_at (''S'' @ dec_nat i @ '' '' @ w @ ?rest)"
    by (simp add: findall_skip none)
  also have "\<dots> = seg_shown r i # findall seg_at (newline # s)" by (rule findall_step [of seg_at, OF at]) simp
  finally show ?thesis by (simp add: findall_skip none)
qed

lemma segs_read:
  assumes "nonneg r" "\<forall>i \<in> set is. i < 5"
  shows "findall seg_at (concat (map (\<lambda>i. seg_line r i @ [newline]) is) @ s) = map (seg_shown r) is @ findall seg_at s"
  using assms(2) by (induction "is") (simp_all add: seg_at_line [OF _ assms(1)])

lemma segs_passed:
  assumes "needs lit p" "\<forall>i \<in> set is. \<not> occurs lit (seg_line r i) \<and> flat (seg_line r i)"
  shows "search p (concat (map (\<lambda>i. seg_line r i @ [newline]) is) @ s) = search p s"
  using assms(2) by (induction "is") (simp_all add: search_line [OF assms(1)])

lemma findall_none:
  assumes "needs lit p" "flat l" "\<not> occurs lit l" "r \<in> {[], [newline]}"
  shows "findall p (l @ r) = []"
proof -
  have e: "findall p [] = []" using needs_none [OF assms(1), of "[]"] assms(1) by (intro findall_end) (simp add: needs_def)
  have "findall p l = []"
    using assms(2,3)
  proof (induction l)
    case (Cons c l)
    have "p (c # l) = None" by (rule needs_none [OF assms(1)]) (subst first_of_line(2), use Cons.prems in auto)
    then show ?case using Cons by (simp add: findall_skip)
  qed (use e in simp)
  then show ?thesis using findall_line [OF assms(1-3), of "[]"] e assms(4) by auto
qed

definition end_text :: "(int \<Rightarrow> string list option) option \<Rightarrow> (int \<times> string) list \<Rightarrow> sd_dict \<Rightarrow> string \<Rightarrow> string" where
  "end_text elf thr r z =
     cb_line r @ newline # lk_line (fn_at elf (sd_get r ''lk_main_max_ra'')) r @ newline # ol_line (fn_at elf (sd_get r ''lk_oth_max_ra'')) r
     @ newline # ''    other threads: '' @ busy_threads thr r @ z"

lemma block_text:
  "join [newline] (block_of elf d (tag, r)) @ z
    = first_line (lvl_names d) tag r @ newline # concat (map (\<lambda>i. seg_line r i @ [newline]) [0..<5]) @ end_text elf (sp_thr d) r z"
  by (simp add: block_of_def rest_lines_def end_text_def upt_rec)

lemma busy_solid:
  assumes "texts_ok elf d"
  shows "flat (busy_threads (sp_thr d) r)" "\<not> occurs '': wall='' (busy_threads (sp_thr d) r)"
proof -
  let ?n = "\<lambda>i. case map_of (sp_thr d) (sd_get r (''tt'' @ dec_nat i)) of Some n \<Rightarrow> n | None \<Rightarrow> py_hex (sd_get r (''tt'' @ dec_nat i))"
  have n: "list_all solid (?n i)" for i using assms by (auto simp: texts_ok_def split: option.splits dest!: map_of_SomeD)
  have "flat (join '' '' xs) \<and> \<not> occurs '': wall='' (join '' '' xs)"
    if "\<forall>x \<in> set xs. \<exists>a k. x = a @ CHR ''='' # dec_int k @ ''us'' \<and> list_all solid a" for xs
    using that
  proof (induction "'' '' :: string" xs rule: join.induct)
    case (2 x)
    then show ?case by (auto simp: occurs_lits occurs_decs flat_solid)
  next
    case (3 x y xs)
    then show ?case by (auto simp: occurs_lits occurs_decs flat_solid)
  qed simp
  from this [of "map (\<lambda>i. ?n i @ ''='' @ dec_int (sd_get r (''tu'' @ dec_nat i)) @ ''us'') (filter (\<lambda>i. sd_get r (''tt'' @ dec_nat i) \<noteq> 0) [0..<3])"] n
  show "flat (busy_threads (sp_thr d) r)" "\<not> occurs '': wall='' (busy_threads (sp_thr d) r)"
    by (auto simp: busy_threads_def)
qed

lemma end_text_found:
  assumes "texts_ok elf d" "nonneg r" "z \<in> {[], [newline]}"
  shows "findall seg_at (end_text elf (sp_thr d) r z) = []"
    "search locks_at (end_text elf (sp_thr d) r z)
      = Some (dec_int (sd_get r ''lk_main_n''), dec_int (sd_get r ''lk_main_us''), dec_int (sd_get r ''lk_main_max_us''), fn_at elf (sd_get r ''lk_main_max_ra''))"
    "search longest_at (end_text elf (sp_thr d) r z)
      = Some (dec_int (sd_get r ''cb_slot''), dec_int (sd_get r ''cb_wall_us''), dec_int (sd_get r ''cb_main_us''))"
    "search others_at (end_text elf (sp_thr d) r z) = Some (busy_threads (sp_thr d) r)"
proof -
  have nn: "0 \<le> sd_get r k" for k using assms(2) by (simp add: nonneg_def)
  note fn = solid_fn_at [OF assms(1)] flat_fn_at [OF assms(1)] and bt = busy_solid [OF assms(1)]
  let ?f = "fn_at elf (sd_get r ''lk_main_max_ra'')" and ?g = "fn_at elf (sd_get r ''lk_oth_max_ra'')"
  have fl: "flat (cb_line r)" "flat (lk_line ?f r)" "flat (ol_line ?g r)"
    using fn by (simp_all add: cb_line_def lk_line_def ol_line_def Let_def)
  note cb = cb_line_quiet and lk = lk_line_quiet [OF conjunct1 [OF fn(1)]] and ol = ol_line_quiet [OF conjunct1 [OF fn(1)]]
  have none: "c \<noteq> CHR ''S'' \<Longrightarrow> seg_at (c # t) = None" for c t by (simp add: seg_at_def)
  have "findall seg_at (''    other threads: '' @ busy_threads (sp_thr d) r @ z) = findall seg_at (busy_threads (sp_thr d) r @ z)"
    by (simp add: findall_skip none)
  then show "findall seg_at (end_text elf (sp_thr d) r z) = []"
    unfolding end_text_def
    by (simp add: findall_line [OF needs_seg fl(1) cb(1)] findall_line [OF needs_seg fl(2) lk(1)] findall_line [OF needs_seg fl(3) ol(1)]
        findall_none [OF needs_seg bt assms(3)])
  show "search longest_at (end_text elf (sp_thr d) r z)
      = Some (dec_int (sd_get r ''cb_slot''), dec_int (sd_get r ''cb_wall_us''), dec_int (sd_get r ''cb_main_us''))"
    using nn by (simp add: end_text_def cb_line_def Let_def longest_at_def lit_num_def)
  have "search locks_at (lk_line ?f r @ s) = Some (dec_int (sd_get r ''lk_main_n''), dec_int (sd_get r ''lk_main_us''), dec_int (sd_get r ''lk_main_max_us''), ?f)" for s
    using nn fn(1) eat_while_append [of ?f solid "'' m='' @ py_hex (sd_get r ''lk_main_max_m'') @ s"]
    by (simp add: lk_line_def Let_def locks_at_def lit_num_def)
  then show "search locks_at (end_text elf (sp_thr d) r z)
      = Some (dec_int (sd_get r ''lk_main_n''), dec_int (sd_get r ''lk_main_us''), dec_int (sd_get r ''lk_main_max_us''), ?f)"
    unfolding end_text_def search_line [OF needs_locks fl(1) cb(2)] .
  have "first_of (busy_threads (sp_thr d) r @ z) = busy_threads (sp_thr d) r"
    using first_of_app [OF bt(1), where s = z] assms(3) by auto
  then have "search others_at (''    other threads: '' @ busy_threads (sp_thr d) r @ z) = Some (busy_threads (sp_thr d) r)"
    by (simp add: others_at_def)
  then show "search others_at (end_text elf (sp_thr d) r z) = Some (busy_threads (sp_thr d) r)"
    unfolding end_text_def search_line [OF needs_others fl(1) cb(3)] search_line [OF needs_others fl(2) lk(3)]
      search_line [OF needs_others fl(3) ol(3)] .
qed

text \<open>The line of a record of the reading.\<close>

definition record_line :: "(int \<Rightarrow> string list option) option \<Rightarrow> spin_view \<Rightarrow> sd_dict \<Rightarrow> string" where
  "record_line elf d r =
     (let v = (\<lambda>k. dec_int (sd_get r k))
      in ''lvl='' @ lvl_text (lvl_names d) r @ '' '' @ rjust 6 (v ''uptime_ms'') @ '' late='' @ rjust 6 (v ''late_us'')
         @ '' pb='' @ rjust 5 (if sd_get r ''park_bound_us'' = NO_BOUND then ''none'' else v ''park_bound_us'')
         @ '' ip='' @ v ''idle_path'' @ '' cb='' @ v ''ncb'' @ '' tk='' @ v ''ntake'' @ '' isr='' @ v ''isr_us'' @ ''/'' @ v ''isr_n'' @ '' | ''
         @ join '' '' (map (\<lambda>i. case seg_shown r i of (n, w, sp, idl, o1) \<Rightarrow> n @ '':'' @ w @ ''/'' @ sp @ ''/'' @ idl @ ''/'' @ o1)
             (filter (\<lambda>i. sd_get r (''wall'' @ dec_nat i) > 1500) [0..<5]))
         @ '' | lk='' @ v ''lk_main_n'' @ ''/'' @ v ''lk_main_us'' @ ''/'' @ v ''lk_main_max_us'' @ '' '' @ fn_at elf (sd_get r ''lk_main_max_ra'')
         @ '' cbmax='' @ v ''cb_slot'' @ '':'' @ v ''cb_wall_us'' @ ''/'' @ v ''cb_main_us'' @ '' | '' @ busy_threads (sp_thr d) r)"

lemma filter_shown:
  assumes "nonneg r"
  shows "map g (filter (\<lambda>(n, w, sp, i, o1). digits_int w > 1500) (map (seg_shown r) is))
    = map (g \<circ> seg_shown r) (filter (\<lambda>i. sd_get r (''wall'' @ dec_nat i) > 1500) is)"
  using assms by (induction "is") (auto simp: seg_shown_def Let_def nonneg_def)

lemma rest_text_block:
  assumes "texts_ok elf d" "nonneg r" "z \<in> {[], [newline]}" "tag_ok tag" "list_all solid (lvl_text (lvl_names d) r)"
  shows "head_text (groups_of (lvl_names d) r) @ rest_text (join [newline] (block_of elf d (tag, r)) @ z) = record_line elf d r"
proof -
  have nn: "0 \<le> sd_get r k" for k using assms(2) by (simp add: nonneg_def)
  note e = end_text_found [OF assms(1-3)] and q = first_line_quiet [OF assms(4,5)] and b = block_text [where elf = elf and d = d and tag = tag and r = r and z = z]
  have fl: "flat (first_line (lvl_names d) tag r)"
    using assms(4) flat_solid [OF assms(5)] by (auto simp: first_line_def Let_def bound_text_def tag_ok_def)
  have sf: "flat (seg_line r i)" if "i < 5" for i
    using segs_list [OF that] by (auto simp: seg_line_def Let_def)
  have sg: "findall seg_at (join [newline] (block_of elf d (tag, r)) @ z) = map (seg_shown r) [0..<5]"
    unfolding b findall_line [OF needs_seg fl q(1)] using e(1) by (subst segs_read [OF assms(2)]) auto
  have se: "search p (join [newline] (block_of elf d (tag, r)) @ z) = search p (end_text elf (sp_thr d) r z)"
    if "needs lit p" "\<not> occurs lit (first_line (lvl_names d) tag r)" "\<And>i. i < 5 \<Longrightarrow> \<not> occurs lit (seg_line r i)" for lit and p :: "string \<Rightarrow> 'a option"
    unfolding b search_line [OF that(1) fl that(2)] by (rule segs_passed [OF that(1)]) (use that(3) sf in auto)
  have s1: "search locks_at (join [newline] (block_of elf d (tag, r)) @ z) = search locks_at (end_text elf (sp_thr d) r z)"
    by (rule se [OF needs_locks q(2)]) (rule seg_line_quiet(1))
  have s2: "search longest_at (join [newline] (block_of elf d (tag, r)) @ z) = search longest_at (end_text elf (sp_thr d) r z)"
    by (rule se [OF needs_longest q(3)]) (rule seg_line_quiet(2))
  have s3: "search others_at (join [newline] (block_of elf d (tag, r)) @ z) = search others_at (end_text elf (sp_thr d) r z)"
    by (rule se [OF needs_others q(4)]) (rule seg_line_quiet(3))
  have pb: "bound_shown (bound_text r) = (if sd_get r ''park_bound_us'' = NO_BOUND then ''none'' else dec_int (sd_get r ''park_bound_us''))"
    by (simp add: bound_text_def bound_shown_def ends_with_def)
  show ?thesis
    unfolding rest_text_def sg filter_shown [OF assms(2)] s1 s2 s3 e(2-4) record_line_def head_text_def groups_of_def Let_def
    using nn by (simp add: pb comp_def case_prod_unfold split del: if_split)
qed

section \<open>A reading and its lines\<close>

lemma parsed_recs:
  assumes "parse blob = Inr (Parsed d)" "r \<in> snd ` set (shown_recs d)"
  shows "nonneg r"
proof -
  have z: "nonneg (zip REC ws)" if "\<forall>x \<in> set ws. 0 \<le> x" for ws
    using that by (auto simp: nonneg_def sd_get_def split: option.splits dest!: map_of_SomeD dest: set_zip_rightD)
  have rr: "nonneg r" if "read_rec b o1 = Inr r" for b o1 r
    using that z [of "words_at (length REC) b o1"] words_at_range
    by (auto simp: read_rec_def rbind_Inr_iff unpack_u32s_def split: if_splits)
  from assms(1) obtain lw dims hs where b: "read_body blob lw dims hs = Inr (Parsed d)"
    by (auto simp: parse_def rbind_Inr_iff Let_def split: if_splits)
  obtain nl bins rn nt where dims: "dims = (nl, bins, rn, nt)" by (cases dims) auto
  from b obtain levels thr ring where rd: "rmap (\<lambda>i. read_level blob bins (4 * HEAD_WORDS + i * 4 * lw) i) [0..<nl] = Inr levels"
    "rmap (\<lambda>i. read_rec blob (4 * HEAD_WORDS + nl * 4 * lw + nt * 24 + i * (4 * length REC))) [0..<rn] = Inr ring"
    and d: "sp_levels d = take (nat (hs ! 5)) levels"
      "sp_ring d = map (\<lambda>i. (i, ring ! i)) (map (\<lambda>i. nat ((hs ! 7 - int (min (nat (hs ! 7)) rn) + int i) mod int rn)) [0..<min (nat (hs ! 7)) rn])"
    by (auto simp: read_body_def dims Let_def rbind_Inr_iff mult.commute)
  have lv: "nonneg (x_worst x)" if "x \<in> set levels" for x
  proof -
    from that have "\<exists>i < length levels. x = levels ! i" by (auto simp: in_set_conv_nth)
    then obtain i where "i < length levels" "x = levels ! i" by blast
    with rmap_nth [OF rd(1), of i] rmap_Inr_length [OF rd(1)]
    have "read_level blob bins (4 * HEAD_WORDS + i * 4 * lw) i = Inr x" by simp
    then show ?thesis by (auto simp: read_level_def rbind_Inr_iff dest: rr)
  qed
  have rg: "nonneg (ring ! i)" if "i < rn" for i
    using rmap_nth [OF rd(2), of i] rmap_Inr_length [OF rd(2)] that by (auto intro: rr)
  from assms(2) consider x where "x \<in> set (sp_levels d)" "r = x_worst x" | i where "(i, r) \<in> set (sp_ring d)"
    by (auto simp: shown_recs_def)
  then show ?thesis
  proof cases
    case 1
    then show ?thesis using lv d(1) by (auto dest: in_set_takeD)
  next
    case 2
    then obtain j where j: "r = ring ! i" "i = nat ((hs ! 7 - int (min (nat (hs ! 7)) rn) + int j) mod int rn)" "j < rn"
      by (auto simp: d(2))
    then have "i < rn" by (simp add: nat_less_iff)
    with rg j(1) show ?thesis by simp
  qed
qed

text \<open>C16. Nothing of a reading is lost between the two tools: from the text that \<open>spin_diag.py\<close> prints of a struct, \<open>late_records.py\<close> gives
  one line for each level's worst and each record of the ring that is late enough, in their order, with the record's own
  numbers, provided the level and thread names and the source places hold no white space and the idle path has one digit.\<close>

theorem late_records_complete:
  assumes "parse blob = Inr (Parsed d)" "texts_ok elf d" and "\<forall>(tag, r) \<in> set (shown_recs d). sd_get r ''idle_path'' < 10"
  shows "\<exists>txt. spin_decode elf blob = Inr txt
    \<and> late_lines txt minlate = map (record_line elf d) (filter (\<lambda>r. minlate \<le> sd_get r ''late_us'') (map snd (shown_recs d)))"
proof -
  have lv: "lvl_text (lvl_names d) r \<noteq> [] \<and> list_all solid (lvl_text (lvl_names d) r)" for r
  proof -
    have "dec_int x \<noteq> []" for x using dec_nat_digits by (auto simp: dec_int_def)
    then show ?thesis using assms(2) by (fastforce simp: lvl_text_def lvl_names_def texts_ok_def split: option.splits dest!: map_of_SomeD)
  qed
  have tg: "tag_ok tag" if "(tag, r) \<in> set (shown_recs d)" for tag r
    using that by (auto simp: shown_recs_def tag_ok_def)
  have one: "late_line minlate (join [newline] (block_of elf d (tag, r)) @ z)
      = (if minlate \<le> sd_get r ''late_us'' then Some (record_line elf d r) else None)"
    if tr: "(tag, r) \<in> set (shown_recs d)" and z: "z \<in> {[], [newline]}" for tag r z
  proof -
    have nn: "nonneg r" using parsed_recs [OF assms(1)] tr by force
    have ip: "sd_get r ''idle_path'' < 10" using assms(3) tr by blast
    have m: "match_rec (join [newline] (block_of elf d (tag, r)) @ z) = Some (groups_of (lvl_names d) r)"
      unfolding block_text by (rule match_first_line [OF tg [OF tr] conjunct1 [OF lv] conjunct2 [OF lv] nn ip]) simp
    have "digits_int (lr_late (groups_of (lvl_names d) r)) = sd_get r ''late_us''"
      using nn by (simp add: groups_of_def Let_def nonneg_def)
    then show ?thesis
      unfolding late_line_def m using rest_text_block [OF assms(2) nn z tg [OF tr] conjunct2 [OF lv]] by simp
  qed
  have blk: "is_block (block_of elf d tr)" if "tr \<in> set (shown_recs d)" for tr
  proof -
    obtain tag r where tr: "tr = (tag, r)" by (cases tr)
    have "flat (first_line (lvl_names d) tag r)" "tagged (first_line (lvl_names d) tag r)"
      using tg [of tag r] flat_solid [OF conjunct2 [OF lv]] that tr
      by (auto simp: first_line_def Let_def bound_text_def tag_ok_def tagged_def)
    then show ?thesis using rest_lines_ok [OF assms(2) refl] tr by (auto simp: is_block_def block_of_def flat_def)
  qed
  let ?hd = "join [newline] (intro_lines d)" and ?bs = "map (\<lambda>tr. join [newline] (block_of elf d tr)) (shown_recs d)"
  note h = intro_lines_ok [OF assms(2)]
  have sp: "split_recs (decode_text elf d) = butlast (?hd # ?bs) @ [last (?hd # ?bs) @ [newline]]"
    using split_recs_blocks [OF h(1) _ h(3), of "map (block_of elf d) (shown_recs d)"] h(2) blk
    by (simp add: decode_text_blocks flat_def comp_def)
  have all: "List.map_filter (late_line minlate) (butlast bs @ [last bs @ [newline]])
      = map (record_line elf d) (filter (\<lambda>r. minlate \<le> sd_get r ''late_us'') (map snd trs))"
    if "bs = map (\<lambda>tr. join [newline] (block_of elf d tr)) trs" "trs \<noteq> []" "set trs \<subseteq> set (shown_recs d)" for bs trs
    using that
  proof (induction trs arbitrary: bs)
    case (Cons tr trs)
    obtain tag r where tr: "tr = (tag, r)" by (cases tr)
    note o1 = one [of tag r "[]"] and o2 = one [of tag r "[newline]"]
    show ?case
      using Cons.IH [OF refl] Cons.prems tr o1 o2 by (cases "trs = []") (auto simp: map_filter_simps)
  qed simp
  have none: "late_line minlate (?hd @ z) = None" for z using h(4) by (simp add: late_line_def)
  have "late_lines (decode_text elf d) minlate = map (record_line elf d) (filter (\<lambda>r. minlate \<le> sd_get r ''late_us'') (map snd (shown_recs d)))"
  proof (cases "shown_recs d = []")
    case True
    then show ?thesis using none [of "[newline]"] by (simp add: late_lines_def sp map_filter_simps)
  next
    case False
    then show ?thesis using none [of "[]"] all [OF refl False] by (simp add: late_lines_def sp map_filter_simps)
  qed
  then show ?thesis using assms(1) by (simp add: spin_decode_def)
qed

definition demo_blob :: bytes where   \<comment> \<open>no level, one record in a ring of one\<close>
  "demo_blob = pack_u32s ([SD_MAGIC, 47, 65, 65536, 2000, 0, 0, 1, 0] @ [63, 32600, 2000] @ replicate 14 0
     @ [29000, 1, 3, 1] @ replicate 25 0 @ [3600])"

theorem late_records_complete_witness:
  "\<exists>d txt. parse demo_blob = Inr (Parsed d) \<and> spin_decode None demo_blob = Inr txt \<and> length (late_lines txt 3000) = 1 \<and> late_lines txt 3601 = []"
proof -
  have "case parse demo_blob of Inr (Parsed d) \<Rightarrow> length (sp_levels d) = 0 \<and> length (sp_thr d) = 0 \<and> map (\<lambda>(tag, r). (sd_get r ''idle_path'', sd_get r ''late_us'')) (shown_recs d) = [(1, 3600)] | _ \<Rightarrow> False"
    by code_simp
  then obtain d where d: "parse demo_blob = Inr (Parsed d)" "sp_levels d = []" "sp_thr d = []"
    "map (\<lambda>(tag, r). (sd_get r ''idle_path'', sd_get r ''late_us'')) (shown_recs d) = [(1, 3600)]"
    by (auto split: sum.splits spin_parse.splits)
  then obtain tag r where r: "shown_recs d = [(tag, r)]" "sd_get r ''idle_path'' = 1" "sd_get r ''late_us'' = 3600" by auto
  have i: "\<forall>(tag, r) \<in> set (shown_recs d). sd_get r ''idle_path'' < 10" using r by simp
  have t: "texts_ok None d" using d(2,3) by (simp add: texts_ok_def)
  from late_records_complete [OF d(1) t i, of 3000] late_records_complete [OF d(1) t i, of 3601] d(1) r show ?thesis by auto
qed

end
