(* ===== verification/Probe.thy ===== *)
theory Probe
  imports Text_Scan
begin

text \<open>The contract probe, \<^verbatim>\<open>tools/board/probe.py\<close>, with what it uses of \<^verbatim>\<open>tools/board/tlcommon.py\<close>: every \<open>when:\<close> of the
  contract is resolved and grouped by topic, each message delivered to a subscription may write events, and the writer
  appends them to a JSONL file.

  A delivery (the receive time, the subscription's callback and the message) is a step; which subscription \<open>rclpy\<close> serves
  next is the order of the steps. A message is a tree of its fields (\<open>YDict\<close>). A callback that raises ends the process:
  what it wrote stays. \<open>files\<close> gives the content of a file, \<open>dumps\<close> is \<open>json.dumps\<close>. Floats are rationals, rounded once.\<close>

section \<open>Messages and constants\<close>

definition getattr :: "yaml \<Rightarrow> string \<Rightarrow> yaml res" where
  "getattr m part =
     (case m of YDict kvs \<Rightarrow> (case dict_of kvs part of Some v \<Rightarrow> Inr v | None \<Rightarrow> Inl AttributeError) | _ \<Rightarrow> Inl AttributeError)"

definition get_field :: "yaml \<Rightarrow> yaml \<Rightarrow> yaml res" where
  "get_field msg dotted =
     (case dotted of YStr d \<Rightarrow> rfoldl getattr msg (split_on CHR ''.'' d) | _ \<Rightarrow> Inl AttributeError)"

definition stamp_ns :: "yaml \<Rightarrow> yaml res" where
  "stamp_ns s =
     rbind (getattr s ''sec'') (\<lambda>a. rbind (getattr s ''nanosec'') (\<lambda>b.
       (case (yaml_num a, yaml_num b) of (Some p, Some q) \<Rightarrow> Inr (YNum (p * 1000000000 + q)) | _ \<Rightarrow> Inl TypeError)))"

text \<open>\<open>^[A-Z][A-Z0-9_]*$\<close>; \<open>$\<close> also matches before a final line break.\<close>

definition is_constant :: "string \<Rightarrow> bool" where
  "is_constant s =
     (let t = (if s \<noteq> [] \<and> last s = newline then butlast s else s)
      in t \<noteq> [] \<and> upper_char (hd t) \<and> list_all (\<lambda>c. upper_char c \<or> is_digit c \<or> c = CHR ''_'') (tl t))"

text \<open>\<open>^\s*\w+\s+\<close>, the constant's name, \<open>\s*=\s*(-?\d+)\<close>, and the number.\<close>

definition constant_on :: "string \<Rightarrow> string \<Rightarrow> int option" where
  "constant_on name line =
     Option.bind (eat_while ident_char (dropWhile is_space line)) (\<lambda>(_, a).
     Option.bind (eat_while is_space a) (\<lambda>(_, b).
     Option.bind (eat name b) (\<lambda>c.
     Option.bind (eat ''='' (dropWhile is_space c)) (\<lambda>d.
       (let e = dropWhile is_space d; neg = (e \<noteq> [] \<and> hd e = CHR ''-'')
        in map_option (\<lambda>(ds, _). if neg then - digits_int ds else digits_int ds)
             (eat_while is_digit (if neg then tl e else e)))))))"

definition path_join :: "string \<Rightarrow> string list \<Rightarrow> string" where   \<comment> \<open>\<open>os.path.join\<close>\<close>
  "path_join p qs =
     foldl (\<lambda>a b. if starts_with ''/'' b then b else if a = [] \<or> last a = CHR ''/'' then a @ b else a @ ''/'' @ b) p qs"

definition resolve_constant :: "(string \<Rightarrow> string option) \<Rightarrow> string \<Rightarrow> yaml \<Rightarrow> yaml \<Rightarrow> yaml res" where
  "resolve_constant files ament topic_type value =
     (case value of
        YStr name \<Rightarrow>
          if \<not> is_constant name then Inr value
          else (case topic_type of
              YStr t \<Rightarrow>
                (case split_on CHR ''/'' t of
                   [pkg, _, msg] \<Rightarrow>
                     (case concat (map (\<lambda>prefix.
                          (case files (path_join prefix [''share'', pkg, ''msg'', msg @ ''.msg'']) of
                             None \<Rightarrow> []
                           | Some content \<Rightarrow> List.map_filter (constant_on name) (split_on newline content)))
                          (split_on CHR '':'' ament)) of
                        n # _ \<Rightarrow> Inr (YNum (of_int n))
                      | [] \<Rightarrow> Inl (SystemExit ''constant not found on AMENT_PREFIX_PATH''))
                 | _ \<Rightarrow> Inl ValueError)
            | _ \<Rightarrow> Inl AttributeError)
      | _ \<Rightarrow> Inr value)"

text \<open>\<open>evaluate\<close> on what a message field may hold: only numbers and texts have an order.\<close>

definition scalar_of :: "yaml \<Rightarrow> scalar res" where
  "scalar_of y =
     (case y of YStr s \<Rightarrow> Inr (SStr s) | _ \<Rightarrow> (case yaml_num y of Some q \<Rightarrow> Inr (SNum q) | None \<Rightarrow> Inl TypeError))"

definition eval_pred :: "string \<Rightarrow> yaml \<Rightarrow> yaml \<Rightarrow> bool res" where
  "eval_pred op v m = rbind (scalar_of v) (\<lambda>v'. rbind (scalar_of m) (evaluate op v'))"

section \<open>Events\<close>

record event =
  ev_t :: int
  ev_source :: string
  ev_kind :: string
  ev_hazard :: yaml
  ev_rung :: yaml
  ev_marker :: yaml
  ev_value :: yaml
  ev_extra :: "(string \<times> yaml) list"

definition event_dict :: "event \<Rightarrow> yaml" where
  "event_dict e = YDict ([(''t_mono_ns'', YNum (of_int (ev_t e))), (''source'', YStr (ev_source e)), (''kind'', YStr (ev_kind e)),
     (''hazard'', ev_hazard e), (''rung'', ev_rung e), (''marker'', ev_marker e), (''value'', ev_value e)] @ ev_extra e)"

text \<open>The state the callbacks share, and the events written.\<close>

record probe =
  pr_state :: "string \<times> string \<Rightarrow> yaml option"
  pr_out :: "event list"

definition write_ev :: "event \<Rightarrow> probe \<Rightarrow> probe" where
  "write_ev e s = s\<lparr>pr_out := pr_out s @ [e]\<rparr>"

definition sample :: "int \<Rightarrow> string \<Rightarrow> yaml \<Rightarrow> event" where
  "sample t marker v = \<lparr>ev_t = t, ev_source = ''probe'', ev_kind = ''sample'', ev_hazard = YNone, ev_rung = YNone,
     ev_marker = YStr marker, ev_value = v, ev_extra = []\<rparr>"

definition file_text :: "(yaml \<Rightarrow> string) \<Rightarrow> event list \<Rightarrow> string" where   \<comment> \<open>\<open>Writer\<close>\<close>
  "file_text dumps es = concat (map (\<lambda>e. dumps (event_dict e) @ [newline]) es)"

section \<open>The predicates\<close>

record probe_pred = named_pred +
  pp_topic :: string
  pp_type :: yaml
  pp_resolved :: yaml

definition topic_types :: "yaml \<Rightarrow> (string \<times> yaml) list res" where   \<comment> \<open>\<open>topics\<close> of \<open>declared\<close>\<close>
  "topic_types model =
     (case model of YDict kvs \<Rightarrow>
        rbind (key_of kvs ''structure'') (\<lambda>s. (case s of YDict ss \<Rightarrow>
          rbind (key_of ss ''topics'') (\<lambda>t. rbind (yitems t) (rmap (\<lambda>(n, v). rbind (yget v ''type'') (\<lambda>ty. Inr (n, ty)))))
          | _ \<Rightarrow> Inl TypeError))
      | _ \<Rightarrow> Inl TypeError)"

definition resolve_pred :: "(string \<Rightarrow> string option) \<Rightarrow> string \<Rightarrow> (string \<times> yaml) list \<Rightarrow> named_pred \<Rightarrow> probe_pred res" where
  "resolve_pred files ament topics p =
     (let none = Inl (SystemExit ''a topic of a when: has no type in the model'')
      in case np_topic p of
           YStr t \<Rightarrow>
             (let ty = dget topics t
              in if yaml_falsy ty then none
                 else rbind (resolve_constant files ament ty (p_value (np_pred p))) (\<lambda>v.
                   Inr (named_pred.extend p (probe_pred.fields t ty v))))
         | YList _ \<Rightarrow> Inl TypeError
         | YDict _ \<Rightarrow> Inl TypeError
         | _ \<Rightarrow> none)"

text \<open>\<open>by_topic\<close>: the topics in the order they are first named, each with its predicates.\<close>

definition group_add :: "(string \<times> probe_pred list) list \<Rightarrow> probe_pred \<Rightarrow> (string \<times> probe_pred list) list" where
  "group_add gs p =
     (if pp_topic p \<in> fst ` set gs then map (\<lambda>(t, ps). if t = pp_topic p then (t, ps @ [p]) else (t, ps)) gs
      else gs @ [(pp_topic p, [p])])"

definition by_topic :: "(string \<Rightarrow> string option) \<Rightarrow> string \<Rightarrow> (string \<times> yaml) list \<Rightarrow> named_pred list
    \<Rightarrow> (string \<times> probe_pred list) list res" where
  "by_topic files ament topics ps = rbind (rmap (resolve_pred files ament topics) ps) (\<lambda>rs. Inr (foldl group_add [] rs))"

section \<open>Callbacks\<close>

definition pred_kind :: "probe_pred \<Rightarrow> string" where
  "pred_kind p = (if np_hazard p then ''hazard'' else ''function'')"

definition pred_key :: "probe_pred \<Rightarrow> string \<times> string" where
  "pred_key p = (pred_kind p, np_name p)"

definition pred_marker :: "string \<times> string \<Rightarrow> string" where
  "pred_marker k = fst k @ '':'' @ snd k"

text \<open>The observed field and whether the predicate holds.\<close>

definition observe :: "yaml \<Rightarrow> probe_pred \<Rightarrow> (yaml \<times> bool) res" where
  "observe msg p =
     rbind (get_field msg (p_field (np_pred p))) (\<lambda>v. rbind (eval_pred (p_op (np_pred p)) (pp_resolved p) v) (\<lambda>h. Inr (v, h)))"

definition judge :: "int \<Rightarrow> string \<Rightarrow> yaml \<times> bool \<Rightarrow> probe_pred \<Rightarrow> probe \<Rightarrow> probe" where
  "judge t topic vh p s =
     (if pr_state s (pred_key p) = Some (YBool (snd vh)) then s
      else write_ev \<lparr>ev_t = t, ev_source = ''probe'', ev_kind = ''predicate'',
               ev_hazard = (if np_hazard p then YStr (np_name p) else YNone), ev_rung = YNone,
               ev_marker = YStr (pred_marker (pred_key p)), ev_value = YBool (snd vh),
               ev_extra = [(''field'', p_field (np_pred p)), (''observed'', fst vh), (''topic'', YStr topic)]\<rparr>
             (s\<lparr>pr_state := (pr_state s)(pred_key p \<mapsto> YBool (snd vh))\<rparr>))"

fun on_preds :: "int \<Rightarrow> string \<Rightarrow> yaml \<Rightarrow> probe_pred list \<Rightarrow> probe \<Rightarrow> probe \<times> py_error option" where
  "on_preds t topic msg [] s = (s, None)"
| "on_preds t topic msg (p # ps) s =
     (case observe msg p of Inl e \<Rightarrow> (s, Some e) | Inr vh \<Rightarrow> on_preds t topic msg ps (judge t topic vh p s))"

text \<open>\<open>TABLE.get(x, dflt)\<close>, \<open>round(x, k)\<close>, and the tables of the message constants.\<close>

definition tab_get :: "(int \<times> string) list \<Rightarrow> yaml \<Rightarrow> yaml \<Rightarrow> yaml" where
  "tab_get tab y dflt =
     (case yaml_num y of Some q \<Rightarrow> (case find (\<lambda>(i, s). of_int i = q) tab of Some (i, s) \<Rightarrow> YStr s | None \<Rightarrow> dflt) | None \<Rightarrow> dflt)"

definition py_round :: "nat \<Rightarrow> rat \<Rightarrow> rat" where
  "py_round k q = of_int (half_even (q * 10 ^ k)) / 10 ^ k"

definition round_field :: "nat \<Rightarrow> yaml \<Rightarrow> yaml res" where
  "round_field k y = (case yaml_num y of Some q \<Rightarrow> Inr (YNum (py_round k q)) | None \<Rightarrow> Inl TypeError)"

definition MRM_STATE :: "(int \<times> string) list" where
  "MRM_STATE = [(0, ''UNKNOWN''), (1, ''NORMAL''), (2, ''MRM_OPERATING''), (3, ''MRM_SUCCEEDED''), (4, ''MRM_FAILED'')]"

definition MRM_BEHAVIOR :: "(int \<times> string) list" where
  "MRM_BEHAVIOR = [(0, ''UNKNOWN''), (1, ''NONE''), (2, ''EMERGENCY_STOP''), (3, ''COMFORTABLE_STOP''), (4, ''PULL_OVER'')]"

definition BEHAVIOR_STATUS :: "(int \<times> string) list" where
  "BEHAVIOR_STATUS = [(0, ''NOT_AVAILABLE''), (1, ''AVAILABLE''), (2, ''OPERATING'')]"

definition CONTROL_MODE :: "(int \<times> string) list" where
  "CONTROL_MODE = [(0, ''NO_COMMAND''), (1, ''AUTONOMOUS''), (2, ''AUTONOMOUS_STEER_ONLY''), (3, ''AUTONOMOUS_VELOCITY_ONLY''),
     (4, ''MANUAL''), (5, ''DISENGAGED''), (6, ''NOT_READY'')]"

definition HAZARD_LIGHTS :: "(int \<times> string) list" where
  "HAZARD_LIGHTS = [(0, ''NO_COMMAND''), (1, ''DISABLE''), (2, ''ENABLE'')]"

definition availability_value :: "yaml \<Rightarrow> yaml res" where
  "availability_value msg =
     rbind (getattr msg ''autonomous'') (\<lambda>a. rbind (getattr msg ''comfortable_stop'') (\<lambda>c. rbind (getattr msg ''emergency_stop'') (\<lambda>e.
     rbind (rbind (getattr msg ''stamp'') stamp_ns) (\<lambda>s.
       Inr (YDict [(''autonomous'', a), (''comfortable_stop'', c), (''emergency_stop'', e), (''stamp_ns'', s)])))))"

text \<open>A value sampled when it differs from the one stored under \<open>key\<close>; a missing entry reads as \<open>None\<close>.\<close>

definition on_new :: "string \<times> string \<Rightarrow> string \<Rightarrow> int \<Rightarrow> yaml \<Rightarrow> yaml \<Rightarrow> probe \<Rightarrow> probe" where
  "on_new key marker t old_form v s =
     (if (case pr_state s key of Some x \<Rightarrow> x | None \<Rightarrow> YNone) = old_form then s
      else write_ev (sample t marker v) (s\<lparr>pr_state := (pr_state s)(key \<mapsto> old_form)\<rparr>))"

definition on_pred_topic :: "int \<Rightarrow> string \<Rightarrow> probe_pred list \<Rightarrow> yaml \<Rightarrow> probe \<Rightarrow> probe \<times> py_error option" where
  "on_pred_topic t topic ps msg s =
     (case on_preds t topic msg ps s of
        (s1, Some e) \<Rightarrow> (s1, Some e)
      | (s1, None) \<Rightarrow>
          if topic = ''/system/operation_mode/availability'' then
            (case availability_value msg of Inl e \<Rightarrow> (s1, Some e) | Inr v \<Rightarrow> (write_ev (sample t ''availability'' v) s1, None))
          else if topic = ''/vehicle/status/control_mode'' then
            (case getattr msg ''mode'' of
               Inl e \<Rightarrow> (s1, Some e)
             | Inr m \<Rightarrow> (on_new (''cm'', topic) ''control_mode'' t m
                            (YDict [(''mode'', m), (''name'', tab_get CONTROL_MODE m YNone)]) s1, None))
          else (s1, None))"

text \<open>The lanes sampled on change: their topic, and the value of a message.\<close>

definition LANES :: "(string \<times> string \<times> (yaml \<Rightarrow> yaml res)) list" where
  "LANES =
     [(''mrm_state'', ''/system/fail_safe/mrm_state'', \<lambda>m. rbind (getattr m ''state'') (\<lambda>s. rbind (getattr m ''behavior'') (\<lambda>b.
         Inr (YDict [(''state'', tab_get MRM_STATE s YNone), (''behavior'', tab_get MRM_BEHAVIOR b YNone)])))),
      (''takeover_request_state'', ''/system/takeover_request/state'',
         \<lambda>m. rbind (getattr m ''state'') (\<lambda>s. Inr (tab_get BEHAVIOR_STATUS s YNone))),
      (''emergency_stop_status'', ''/system/mrm/emergency_stop/status'',
         \<lambda>m. rbind (getattr m ''state'') (\<lambda>s. Inr (tab_get BEHAVIOR_STATUS s YNone))),
      (''comfortable_stop_status'', ''/system/mrm/comfortable_stop/status'',
         \<lambda>m. rbind (getattr m ''state'') (\<lambda>s. Inr (tab_get BEHAVIOR_STATUS s YNone))),
      (''island_hazard_lights_cmd'', ''/system/emergency/hazard_lights_cmd'',
         \<lambda>m. rbind (getattr m ''command'') (\<lambda>c. Inr (tab_get HAZARD_LIGHTS c YNone))),
      (''vehicle_hazard_lights'', ''/vehicle/status/hazard_lights_status'',
         \<lambda>m. rbind (getattr m ''report'') (\<lambda>r. Inr (tab_get [(1, ''DISABLE''), (2, ''ENABLE'')] r r)))]"

definition lane_value :: "string \<Rightarrow> yaml \<Rightarrow> yaml res" where
  "lane_value name m = (case map_of LANES name of Some (_, f) \<Rightarrow> f m | None \<Rightarrow> Inl KeyError)"

definition on_change :: "int \<Rightarrow> string \<Rightarrow> yaml \<Rightarrow> probe \<Rightarrow> probe \<times> py_error option" where
  "on_change t name msg s =
     (case lane_value name msg of Inl e \<Rightarrow> (s, Some e) | Inr v \<Rightarrow> (on_new (''chg'', name) name t v v s, None))"

definition command_value :: "yaml \<Rightarrow> yaml res" where
  "command_value m =
     rbind (getattr m ''longitudinal'') (\<lambda>l.
     rbind (rbind (getattr l ''acceleration'') (round_field 4)) (\<lambda>a. rbind (rbind (getattr l ''velocity'') (round_field 4)) (\<lambda>v.
       Inr (YDict [(''acc'', a), (''vel'', v)]))))"

definition limit_value :: "yaml \<Rightarrow> yaml res" where
  "limit_value m =
     rbind (getattr m ''max_velocity'') (\<lambda>v. rbind (getattr m ''sender'') (\<lambda>s. rbind (getattr m ''use_constraints'') (\<lambda>u.
       Inr (YDict [(''max_velocity'', v), (''sender'', s), (''use_constraints'', u)]))))"

definition odom_value :: "yaml \<Rightarrow> yaml res" where
  "odom_value m =
     rbind (rfoldl getattr m [''twist'', ''twist'', ''linear'', ''x'']) (\<lambda>x.
       (case yaml_num x of Some q \<Rightarrow> Inr (YNum (py_round 5 \<bar>q\<bar>)) | None \<Rightarrow> Inl TypeError))"

text \<open>The callbacks of the subscriptions; \<open>Signal\<close> writes every sample.\<close>

datatype callback = On_pred string "probe_pred list" | On_change string | On_emerg | On_ctrl | On_limit | On_odom

definition every_sample :: "event res \<Rightarrow> probe \<Rightarrow> probe \<times> py_error option" where
  "every_sample r s = (case r of Inl e \<Rightarrow> (s, Some e) | Inr ev \<Rightarrow> (write_ev ev s, None))"

fun deliver :: "int \<times> callback \<times> yaml \<Rightarrow> probe \<Rightarrow> probe \<times> py_error option" where
  "deliver (t, On_pred topic ps, m) s = on_pred_topic t topic ps m s"
| "deliver (t, On_change name, m) s = on_change t name m s"
| "deliver (t, On_emerg, m) s = every_sample (rbind (command_value m) (\<lambda>v. Inr (sample t ''island_emergency_control_cmd'' v))) s"
| "deliver (t, On_ctrl, m) s = every_sample (rbind (command_value m) (\<lambda>v. Inr (sample t ''control_cmd'' v))) s"
| "deliver (t, On_limit, m) s = every_sample (rbind (limit_value m) (\<lambda>v. Inr (sample t ''velocity_limit'' v))) s"
| "deliver (t, On_odom, m) s =
     every_sample (rbind (odom_value m) (\<lambda>v. Inr ((sample t ''kinematic_state'' v)\<lparr>ev_kind := ''velocity''\<rparr>))) s"

text \<open>\<open>spin_once\<close> until a callback raises or the deliveries end.\<close>

fun spin :: "(int \<times> callback \<times> yaml) list \<Rightarrow> probe \<Rightarrow> probe \<times> py_error option" where
  "spin [] s = (s, None)"
| "spin (d # ds) s = (case deliver d s of (s1, Some e) \<Rightarrow> (s1, Some e) | (s1, None) \<Rightarrow> spin ds s1)"

section \<open>Start\<close>

definition ms_yaml :: "rat option \<Rightarrow> yaml" where
  "ms_yaml x = (case x of Some q \<Rightarrow> YNum q | None \<Rightarrow> YNone)"

text \<open>The first event: what the probe was configured with. The two paths are relative to the repository.\<close>

definition config_event :: "int \<Rightarrow> declarations \<Rightarrow> string \<Rightarrow> string \<Rightarrow> event" where
  "config_event t d contract model =
     \<lparr>ev_t = t, ev_source = ''probe'', ev_kind = ''config'', ev_hazard = YNone, ev_rung = YNone, ev_marker = YNone,
      ev_value = YDict
        [(''predicates'', YList (map (\<lambda>p. YDict [(''name'', YStr (np_name p)), (''kind'', YStr (if np_hazard p then ''hazard'' else ''function'')),
            (''topic'', np_topic p), (''field'', p_field (np_pred p)), (''op'', YStr (p_op (np_pred p))), (''value'', p_value (np_pred p))])
            (d_predicates d))),
         (''windows'', YDict (map (\<lambda>(n, w). (n, YDict [(''duration_ms'', ms_yaml (w_duration_ms w)), (''param'', w_param w)])) (d_windows d))),
         (''exits'', YDict (map (\<lambda>(n, kvs). (n, YDict kvs)) (d_exits d))),
         (''entry_speed'', YDict (map (\<lambda>(n, q). (n, YNum q)) (d_entry_speed d))),
         (''contract'', YStr contract), (''model'', YStr model)],
      ev_extra = []\<rparr>"

definition subscriptions :: "(string \<times> probe_pred list) list \<Rightarrow> bool \<Rightarrow> (string \<times> callback) list" where
  "subscriptions groups has_limit =
     map (\<lambda>(t, ps). (t, On_pred t ps)) groups @ map (\<lambda>(n, t, f). (t, On_change n)) LANES
     @ [(''/system/emergency/control_cmd'', On_emerg), (''/control/command/control_cmd'', On_ctrl)]
     @ (if has_limit then [(''/planning/scenario_planning/max_velocity_candidates'', On_limit)] else [])
     @ [(''/localization/kinematic_state'', On_odom)]"

definition probe_start :: "(string \<Rightarrow> string option) \<Rightarrow> string \<Rightarrow> (string \<times> yaml) list \<Rightarrow> declarations \<Rightarrow> int \<Rightarrow> string \<Rightarrow> string \<Rightarrow> bool
    \<Rightarrow> (probe \<times> (string \<times> callback) list) res" where
  "probe_start files ament topics d t contract model has_limit =
     rbind (by_topic files ament topics (d_predicates d)) (\<lambda>groups.
       Inr (write_ev (config_event t d contract model) \<lparr>pr_state = Map.empty, pr_out = []\<rparr>, subscriptions groups has_limit))"

section \<open>A log of changes\<close>

text \<open>What the probe's callbacks share: a stored value, and a log that grows by a value when a new one differs from it. A step
  may bring several values, or none; when no step raises, the log is the run of values without repetitions.\<close>

lemma remdups_adj_glue:
  "tl (remdups_adj (x # xs @ ys)) = tl (remdups_adj (x # xs)) @ tl (remdups_adj (last (x # xs) # ys))"
proof (induction xs arbitrary: x)
  case (Cons z zs)
  have h: "remdups_adj (a # l) = a # tl (remdups_adj (a # l))" for a and l :: "'a list"
    by (cases l) (auto simp: remdups_adj_Cons split: list.split)
  show ?case using Cons [of z] h [of z "zs @ ys"] h [of z zs] by (cases "x = z") auto
qed simp

locale change_log =
  fixes stored :: "'s \<Rightarrow> 'v" and logged :: "'s \<Rightarrow> 'v list" and feed :: "'d \<Rightarrow> 's \<Rightarrow> 's \<times> py_error option" and seen :: "'d \<Rightarrow> 'v list"
  assumes feed_stored: "feed d s = (s1, None) \<Longrightarrow> stored s1 = last (stored s # seen d)"
    and feed_logged: "feed d s = (s1, None) \<Longrightarrow> logged s1 = logged s @ tl (remdups_adj (stored s # seen d))"
begin

fun feeds :: "'d list \<Rightarrow> 's \<Rightarrow> 's \<times> py_error option" where
  "feeds [] s = (s, None)"
| "feeds (d # ds) s = (case feed d s of (s1, Some e) \<Rightarrow> (s1, Some e) | (s1, None) \<Rightarrow> feeds ds s1)"

lemma feeds_log:
  "feeds ds s = (s1, None) \<Longrightarrow> stored s1 = last (stored s # concat (map seen ds))
    \<and> logged s1 = logged s @ tl (remdups_adj (stored s # concat (map seen ds)))"
proof (induction ds arbitrary: s)
  case (Cons d ds)
  then obtain s2 where d: "feed d s = (s2, None)" and r: "feeds ds s2 = (s1, None)" by (auto split: prod.splits option.splits)
  show ?case
    using Cons.IH [OF r] feed_stored [OF d] feed_logged [OF d]
    by (simp add: remdups_adj_glue last_append)
qed simp

end

section \<open>The probe's logs\<close>

definition kind_word :: "bool \<Rightarrow> string" where
  "kind_word hz = (if hz then ''hazard'' else ''function'')"

lemma kind_word_facts: "kind_word hz \<noteq> ''cm''" "kind_word hz \<noteq> ''chg''" "kind_word a = kind_word b \<longleftrightarrow> a = b"
  "pred_key p = (kind_word (np_hazard p), np_name p)"
  by (simp_all add: kind_word_def pred_key_def pred_kind_def)

definition stored_at :: "string \<times> string \<Rightarrow> probe \<Rightarrow> yaml" where
  "stored_at key s = (case pr_state s key of Some x \<Rightarrow> x | None \<Rightarrow> YNone)"

definition events_of :: "string \<Rightarrow> string \<Rightarrow> probe \<Rightarrow> yaml list" where
  "events_of kind marker s = map ev_value (filter (\<lambda>e. ev_kind e = kind \<and> ev_marker e = YStr marker) (pr_out s))"

text \<open>The truth values a delivery brings for a predicate, and the values it brings for a lane.\<close>

fun truths :: "bool \<Rightarrow> string \<Rightarrow> int \<times> callback \<times> yaml \<Rightarrow> yaml list" where
  "truths hz name (t, On_pred topic ps, m) =
     concat (map (\<lambda>p. if np_hazard p = hz \<and> np_name p = name then (case observe m p of Inr vh \<Rightarrow> [YBool (snd vh)] | Inl _ \<Rightarrow> []) else []) ps)"
| "truths hz name (t, cb, m) = []"

fun lane_seen :: "string \<Rightarrow> int \<times> callback \<times> yaml \<Rightarrow> yaml list" where
  "lane_seen name (t, On_change n, m) = (if n = name then (case lane_value n m of Inr v \<Rightarrow> [v] | Inl _ \<Rightarrow> []) else [])"
| "lane_seen name (t, cb, m) = []"

definition lane_name :: "string \<Rightarrow> bool" where "lane_name n = (n \<in> fst ` set LANES)"

lemma marker_iff: "pred_marker (pred_key p) = pred_marker (kind_word hz, name) \<longleftrightarrow> np_hazard p = hz \<and> np_name p = name"
  by (auto simp: pred_marker_def pred_key_def pred_kind_def kind_word_def)

lemma key_iff: "pred_key p = (kind_word hz, name) \<longleftrightarrow> np_hazard p = hz \<and> np_name p = name"
  by (auto simp: kind_word_facts)

lemma write_sel [simp]:
  "stored_at k (write_ev e s) = stored_at k s" "pr_state (write_ev e s) = pr_state s" "pr_out (write_ev e s) = pr_out s @ [e]"
  "events_of kd mk (write_ev e s) = events_of kd mk s @ (if ev_kind e = kd \<and> ev_marker e = YStr mk then [ev_value e] else [])"
  by (simp_all add: write_ev_def stored_at_def events_of_def)

lemma judge_log:
  fixes hz name and p :: probe_pred and vh :: "yaml \<times> bool"
  defines "k \<equiv> (kind_word hz, name)"
  defines "new \<equiv> (if np_hazard p = hz \<and> np_name p = name then [YBool (snd vh)] else [])"
  shows "stored_at k (judge t topic vh p s) = last (stored_at k s # new)"
    and "events_of ''predicate'' (pred_marker k) (judge t topic vh p s)
      = events_of ''predicate'' (pred_marker k) s @ tl (remdups_adj (stored_at k s # new))"
  using key_iff [of p hz name] marker_iff [of p hz name]
  by (auto simp: judge_def k_def new_def write_ev_def stored_at_def events_of_def split: option.splits)

lemma on_preds_log:
  fixes hz name
  defines "k \<equiv> (kind_word hz, name)"
  shows "on_preds t topic m ps s = (s1, None) \<Longrightarrow>
      stored_at k s1 = last (stored_at k s # truths hz name (t, On_pred topic ps, m))
    \<and> events_of ''predicate'' (pred_marker k) s1
      = events_of ''predicate'' (pred_marker k) s @ tl (remdups_adj (stored_at k s # truths hz name (t, On_pred topic ps, m)))"
proof (induction ps arbitrary: s)
  case (Cons p ps)
  then obtain vh where o: "observe m p = Inr vh" and r: "on_preds t topic m ps (judge t topic vh p s) = (s1, None)"
    by (auto split: sum.splits)
  define new where "new = (if np_hazard p = hz \<and> np_name p = name then [YBool (snd vh)] else [])"
  have t: "truths hz name (t, On_pred topic (p # ps), m) = new @ truths hz name (t, On_pred topic ps, m)"
    using o by (simp add: new_def)
  have l: "last (last (x # new) # xs) = last (x # new @ xs)" for x xs by (simp add: last_append)
  note IH = Cons.IH [OF r] and j = judge_log [of hz name t topic vh p s, folded k_def new_def]
  show ?case
    unfolding t remdups_adj_glue using IH j l by (metis append.assoc)
qed simp

lemma judge_lane: "stored_at (''chg'', n) (judge t topic vh p s) = stored_at (''chg'', n) s
    \<and> events_of ''sample'' n (judge t topic vh p s) = events_of ''sample'' n s"
  by (auto simp: judge_def write_ev_def stored_at_def events_of_def pred_key_def pred_kind_def)

lemma on_preds_lane: "on_preds t topic m ps s = (s1, None) \<Longrightarrow> stored_at (''chg'', n) s1 = stored_at (''chg'', n) s
    \<and> events_of ''sample'' n s1 = events_of ''sample'' n s"
proof (induction ps arbitrary: s)
  case (Cons p ps)
  then obtain vh where "on_preds t topic m ps (judge t topic vh p s) = (s1, None)" by (auto split: sum.splits)
  then show ?case using Cons.IH judge_lane by metis
qed simp

lemma on_new_pred: "fst key \<in> {''cm'', ''chg''} \<Longrightarrow> stored_at (kind_word hz, n) (on_new key mk t x v s) = stored_at (kind_word hz, n) s
    \<and> events_of ''predicate'' m (on_new key mk t x v s) = events_of ''predicate'' m s"
  using kind_word_facts(1,2) [of hz] by (auto simp: on_new_def write_ev_def stored_at_def events_of_def sample_def)

lemma on_new_lane:
  "stored_at k (on_new k n t v v s) = v \<and> events_of ''sample'' n (on_new k n t v v s) = events_of ''sample'' n s @ tl (remdups_adj [stored_at k s, v])"
  "k' \<noteq> k \<Longrightarrow> stored_at k (on_new k' mk t x v s) = stored_at k s"
  "n \<noteq> mk \<Longrightarrow> events_of ''sample'' n (on_new k' mk t x v s) = events_of ''sample'' n s"
  by (auto simp: on_new_def write_ev_def stored_at_def events_of_def sample_def split: option.splits)

interpretation pred_log: change_log "stored_at (kind_word hz, name)" "events_of ''predicate'' (pred_marker (kind_word hz, name))" deliver "truths hz name"
  for hz name
proof unfold_locales
  fix d s s1 assume d: "deliver d s = (s1, None)"
  obtain t cb m where dd: "d = (t, cb, m)" by (cases d) auto
  have "stored_at (kind_word hz, name) s1 = last (stored_at (kind_word hz, name) s # truths hz name d)
      \<and> events_of ''predicate'' (pred_marker (kind_word hz, name)) s1
        = events_of ''predicate'' (pred_marker (kind_word hz, name)) s @ tl (remdups_adj (stored_at (kind_word hz, name) s # truths hz name d))"
  proof (cases cb)
    case (On_pred topic ps)
    obtain s2 where p: "on_preds t topic m ps s = (s2, None)"
      using d by (auto simp: dd On_pred on_pred_topic_def split: prod.splits option.splits)
    have "stored_at (kind_word hz, name) s1 = stored_at (kind_word hz, name) s2
        \<and> events_of ''predicate'' (pred_marker (kind_word hz, name)) s1 = events_of ''predicate'' (pred_marker (kind_word hz, name)) s2"
      using d p by (auto simp: dd On_pred on_pred_topic_def sample_def on_new_pred split: if_splits sum.splits)
    then show ?thesis using on_preds_log [OF p] by (simp add: dd On_pred)
  next
    case (On_change n)
    then show ?thesis using d by (auto simp: dd on_change_def on_new_pred split: sum.splits)
  qed (use d in \<open>auto simp: dd every_sample_def sample_def rbind_def split: sum.splits\<close>)
  then show "stored_at (kind_word hz, name) s1 = last (stored_at (kind_word hz, name) s # truths hz name d)"
    "events_of ''predicate'' (pred_marker (kind_word hz, name)) s1
        = events_of ''predicate'' (pred_marker (kind_word hz, name)) s @ tl (remdups_adj (stored_at (kind_word hz, name) s # truths hz name d))"
    by blast+
qed

text \<open>A lane's log; for a name that is none of the lanes, nothing.\<close>

definition lane_stored :: "string \<Rightarrow> probe \<Rightarrow> yaml" where
  "lane_stored n s = (if lane_name n then stored_at (''chg'', n) s else YNone)"

definition lane_events :: "string \<Rightarrow> probe \<Rightarrow> yaml list" where
  "lane_events n s = (if lane_name n then events_of ''sample'' n s else [])"

lemma lane_value_None: "\<not> lane_name n \<Longrightarrow> lane_value n m = Inl KeyError"
  using map_of_eq_None_iff [of LANES n] by (simp add: lane_name_def lane_value_def)

lemma lane_name_iff: "lane_name n \<longleftrightarrow> n \<in> {''mrm_state'', ''takeover_request_state'', ''emergency_stop_status'', ''comfortable_stop_status'',
    ''island_hazard_lights_cmd'', ''vehicle_hazard_lights''}"
  by (auto simp: lane_name_def LANES_def)

interpretation lane_log: change_log "lane_stored n" "lane_events n" deliver "lane_seen n" for n
proof unfold_locales
  fix d s s1 assume d: "deliver d s = (s1, None)"
  obtain t cb m where dd: "d = (t, cb, m)" by (cases d) auto
  have "lane_stored n s1 = last (lane_stored n s # lane_seen n d)
      \<and> lane_events n s1 = lane_events n s @ tl (remdups_adj (lane_stored n s # lane_seen n d))"
  proof (cases "lane_name n")
    case False
    then have "lane_seen n d = []" by (cases cb) (auto simp: dd lane_value_None)
    then show ?thesis using False by (simp add: lane_stored_def lane_events_def)
  next
    case True
    then have other: "n \<notin> {''availability'', ''control_mode'', ''island_emergency_control_cmd'', ''control_cmd'', ''velocity_limit''}"
      by (auto simp: lane_name_iff)
    show ?thesis
    proof (cases cb)
      case (On_pred topic ps)
      obtain s2 where p: "on_preds t topic m ps s = (s2, None)"
        using d by (auto simp: dd On_pred on_pred_topic_def split: prod.splits option.splits)
      have "stored_at (''chg'', n) s1 = stored_at (''chg'', n) s2 \<and> events_of ''sample'' n s1 = events_of ''sample'' n s2"
        using d p other by (auto simp: dd On_pred on_pred_topic_def sample_def on_new_lane(2,3) split: if_splits sum.splits)
      then show ?thesis using True on_preds_lane [OF p, of n] by (simp add: dd On_pred lane_stored_def lane_events_def)
    next
      case (On_change n')
      obtain v where v: "lane_value n' m = Inr v" "s1 = on_new (''chg'', n') n' t v v s"
        using d by (auto simp: dd On_change on_change_def split: sum.splits)
      show ?thesis
        using True v on_new_lane(1) [of "(''chg'', n)" n t v s] on_new_lane(2) [of "(''chg'', n')" "(''chg'', n)" n' t v v s] on_new_lane(3) [of n n' "(''chg'', n')" t v v s]
        by (cases "n' = n") (simp_all add: dd On_change lane_stored_def lane_events_def)
    qed (use d True other in \<open>auto simp: dd every_sample_def sample_def rbind_def lane_stored_def lane_events_def split: sum.splits\<close>)
  qed
  then show "lane_stored n s1 = last (lane_stored n s # lane_seen n d)"
    "lane_events n s1 = lane_events n s @ tl (remdups_adj (lane_stored n s # lane_seen n d))" by blast+
qed

lemma spin_feeds: "pred_log.feeds ds s = spin ds s" "lane_log.feeds ds s = spin ds s"
  by (induction ds arbitrary: s) (auto split: prod.splits option.splits)

section \<open>From the messages to the live view\<close>

lemma split_file_text:
  "\<forall>e \<in> set es. newline \<notin> set (dumps (event_dict e)) \<Longrightarrow>
     split_on newline (file_text dumps es) = map (dumps \<circ> event_dict) es @ [[]]"
proof (induction es)
  case (Cons e es)
  then show ?case using split_on_append [of newline "dumps (event_dict e)" "file_text dumps es"] by (simp add: file_text_def)
qed (simp add: file_text_def)

lemma lines_of_file:
  "\<forall>e \<in> set es. strip (dumps (event_dict e)) \<noteq> [] \<and> parse (dumps (event_dict e)) = Some (event_dict e) \<Longrightarrow>
     line_events parse (map (dumps \<circ> event_dict) es) = map event_dict es"
  by (induction es) (simp_all add: line_events_def map_filter_def)

text \<open>C31. From the messages to the live view: polled however often, the probe's file shows every event written, in order; and
  the events of a predicate, and the samples of a lane, are exactly the run of its values without repetitions, so the last
  one is the present value and two in a row differ. (\<open>json\<close> gives one line per event and reads it back.)\<close>

theorem probe_live_view:
  assumes "probe_start files ament topics d t0 contract model has_limit = Inr (s0, subs)" and "spin ds s0 = (s, None)"
    and "\<forall>e \<in> set (pr_out s). newline \<notin> set (dumps (event_dict e)) \<and> strip (dumps (event_dict e)) \<noteq> []
      \<and> parse (dumps (event_dict e)) = Some (event_dict e)"
    and "growing [] cs" "last ([] # cs) = file_text dumps (pr_out s)"
  shows "fst (polls parse (map Some cs) Tail) = map event_dict (pr_out s)
    \<and> events_of ''predicate'' (kind_word hz @ '':'' @ name) s = tl (remdups_adj (YNone # concat (map (truths hz name) ds)))
    \<and> (n \<in> fst ` set LANES \<longrightarrow> events_of ''sample'' n s = tl (remdups_adj (YNone # concat (map (lane_seen n) ds))))"
proof -
  obtain c where s0: "s0 = write_ev (config_event t0 d contract model) c" "pr_state c = Map.empty" "pr_out c = []"
    using assms(1) that [of "\<lparr>pr_state = Map.empty, pr_out = []\<rparr>"] by (auto simp: probe_start_def rbind_Inr_iff)
  have k: "ev_kind (config_event t0 d contract model) = ''config''" by (simp add: config_event_def)
  have start: "stored_at key s0 = YNone" "events_of ''predicate'' m s0 = []" "events_of ''sample'' m s0 = []" for key m
    using s0 k by (simp_all add: stored_at_def events_of_def)
  have "fst (polls parse (map Some cs) Tail) = line_events parse (map (dumps \<circ> event_dict) (pr_out s))"
    using tail_whole [OF assms(4), of parse] split_file_text [of "pr_out s" dumps] assms(3,5) by simp
  also have "\<dots> = map event_dict (pr_out s)" by (rule lines_of_file) (use assms(3) in blast)
  finally have v: "fst (polls parse (map Some cs) Tail) = map event_dict (pr_out s)" .
  have "events_of ''predicate'' (kind_word hz @ '':'' @ name) s = tl (remdups_adj (YNone # concat (map (truths hz name) ds)))"
    using pred_log.feeds_log [of ds s0 s hz name] assms(2) start by (simp add: spin_feeds pred_marker_def)
  moreover have "events_of ''sample'' n s = tl (remdups_adj (YNone # concat (map (lane_seen n) ds)))" if "n \<in> fst ` set LANES"
    using lane_log.feeds_log [of ds s0 s n] assms(2) start that by (simp add: spin_feeds lane_stored_def lane_events_def lane_name_def)
  ultimately show ?thesis using v by blast
qed

section \<open>Constants of the messages\<close>

lemma char_classes: "is_space c \<Longrightarrow> \<not> ident_char c" "upper_char c \<Longrightarrow> ident_char c" "is_digit c \<Longrightarrow> ident_char c"
  "is_space CHR ''='' = False" "is_space CHR ''-'' = False" "is_digit CHR ''-'' = False"
  by (auto simp: is_space_def ident_char_def ident_start_def upper_char_def is_digit_def Let_def)

lemma constant_line:
  assumes "list_all is_space a" "ty \<noteq> []" "list_all ident_char ty" "b \<noteq> []" "list_all is_space b"
    and "name \<noteq> []" "ident_char (hd name)" "list_all is_space c" "list_all is_space e" "rest = [] \<or> \<not> is_digit (hd rest)"
  shows "constant_on name (a @ ty @ b @ name @ c @ ''='' @ e @ dec_int v @ rest) = Some v"
proof -
  have nsp: "\<not> is_space (hd name)" "\<not> is_space (hd ty)" using assms(2,3,7) char_classes(1) by (cases ty; auto)+
  obtain b0 bs where b: "b = b0 # bs" "is_space b0" using assms(4,5) by (cases b) auto
  have dig: "list_all is_digit (dec_nat k)" "dec_nat k \<noteq> []" "digits_int (dec_nat k) = int k" for k using dec_nat_digits [of k] by simp_all
  have nd: "\<not> is_space (hd (dec_nat k))" "hd (dec_nat k) \<noteq> CHR ''-''" for k
    using dig(1,2) [of k] char_classes by (cases "dec_nat k"; auto)+
  have 1: "dropWhile is_space (a @ ty @ r) = ty @ r" for r using drop_spaces [OF assms(1), of "ty @ r"] assms(2) nsp by simp
  have 2: "eat_while ident_char (ty @ b @ r) = Some (ty, b @ r)" for r
    using eat_while_append [OF assms(2,3), of "b @ r"] b char_classes(1) by simp
  have 3: "eat_while is_space (b @ name @ r) = Some (b, name @ r)" for r
    using eat_while_append [OF assms(4,5), of "name @ r"] assms(6) nsp by simp
  have 4: "dropWhile is_space (c @ ''='' @ r) = ''='' @ r" for r using drop_spaces [OF assms(8), of "''='' @ r"] char_classes by simp
  have 5: "dropWhile is_space (e @ dec_int v @ rest) = dec_int v @ rest"
    using drop_spaces [OF assms(9), of "dec_int v @ rest"] nd dig(2) char_classes by (auto simp: dec_int_def)
  have 6: "eat_while is_digit (dec_nat k @ rest) = Some (dec_nat k, rest)" for k
    by (rule eat_while_append [OF dig(2,1) assms(10)])
  show ?thesis
    unfolding constant_on_def 1 2 3
    by (simp only: Option.bind.simps prod.case 2 3 4 5 eat_append Let_def)
       (use 6 dig nd in \<open>auto simp: dec_int_def\<close>)
qed

text \<open>A constant's name in the contract (MANUAL) becomes the number its message declares: the first declaration of the
  name in the first prefix that has the message's file.\<close>

theorem constant_resolved:
  assumes name: "is_constant name" and parts: "CHR ''/'' \<notin> set pkg" "CHR ''/'' \<notin> set sub" "CHR ''/'' \<notin> set msg"
    and prefixes: "ament = join '':'' (ps @ p # qs)" "\<forall>x \<in> set (ps @ p # qs). CHR '':'' \<notin> set x"
    and none: "\<forall>x \<in> set ps. files (path_join x [''share'', pkg, ''msg'', msg @ ''.msg'']) = None"
    and cont: "files (path_join p [''share'', pkg, ''msg'', msg @ ''.msg'']) = Some (join [newline] (abv @ line # blw))"
      "\<forall>l \<in> set (abv @ line # blw). newline \<notin> set l" "\<forall>l \<in> set abv. constant_on name l = None"
    and line: "line = a @ ty @ b @ name @ c @ ''='' @ e @ dec_int v @ rest" "list_all is_space a" "ty \<noteq> []" "list_all ident_char ty"
      "b \<noteq> []" "list_all is_space b" "list_all is_space c" "list_all is_space e" "rest = [] \<or> \<not> is_digit (hd rest)"
  shows "resolve_constant files ament (YStr (pkg @ ''/'' @ sub @ ''/'' @ msg)) (YStr name) = Inr (YNum (of_int v))"
proof -
  have n: "name \<noteq> []" "ident_char (hd name)"
    using name char_classes(2) by (auto simp: is_constant_def Let_def upper_char_def split: if_splits; cases name; auto)+
  have t: "split_on CHR ''/'' (pkg @ ''/'' @ sub @ ''/'' @ msg) = [pkg, sub, msg]"
    using parts by (simp add: split_on_append split_on_no_sep)
  have l: "constant_on name line = Some v" unfolding line(1) by (rule constant_line [OF line(2-6) n line(7-9)])
  have f: "\<exists>ns. List.map_filter (constant_on name) (abv @ line # blw) = v # ns"
  proof -
    have "List.map_filter (constant_on name) abv = []" using cont(3) by (induction abv) (auto simp: map_filter_def)
    then show ?thesis using l by (simp add: map_filter_def)
  qed
  have lines: "split_on newline (join [newline] (abv @ line # blw)) = abv @ line # blw"
    by (rule split_on_join) (use cont(2) in auto)
  have pre: "split_on CHR '':'' ament = ps @ p # qs" unfolding prefixes(1) by (rule split_on_join) (use prefixes(2) in auto)
  have z: "concat (map (\<lambda>x. case files (path_join x [''share'', pkg, ''msg'', msg @ ''.msg'']) of None \<Rightarrow> []
      | Some content \<Rightarrow> List.map_filter (constant_on name) (split_on newline content)) ps) = []" using none by simp
  obtain ns where ns: "List.map_filter (constant_on name) (abv @ line # blw) = v # ns" using f by blast
  show ?thesis
    unfolding resolve_constant_def
    using name by (simp only: yaml.case t list.case pre map_append concat_append z) (simp add: cont(1) lines ns)
qed

section \<open>Witnesses\<close>

definition demo_declared :: declarations where
  "demo_declared = \<lparr>d_predicates = [\<lparr>np_name = ''odd_exit'', np_hazard = True, np_topic = YStr ''/a'',
       np_pred = \<lparr>p_field = YStr ''autonomous'', p_op = ''equals'', p_value = YBool False\<rparr>\<rparr>],
     d_windows = [], d_exits = [], d_entry_speed = [], d_hazards = []\<rparr>"

definition demo_probe_pred :: probe_pred where
  "demo_probe_pred = \<lparr>np_name = ''odd_exit'', np_hazard = True, np_topic = YStr ''/a'',
     np_pred = \<lparr>p_field = YStr ''autonomous'', p_op = ''equals'', p_value = YBool False\<rparr>,
     pp_topic = ''/a'', pp_type = YStr ''p/msg/T'', pp_resolved = YBool False\<rparr>"

lemma demo_start:
  "probe_start (\<lambda>_. None) [] [(''/a'', YStr ''p/msg/T'')] demo_declared 1 ''c'' ''m'' False
    = Inr (write_ev (config_event 1 demo_declared ''c'' ''m'') \<lparr>pr_state = Map.empty, pr_out = []\<rparr>,
        subscriptions [(''/a'', [demo_probe_pred])] False)"
  by (simp add: probe_start_def by_topic_def demo_declared_def resolve_pred_def dget_def dict_of_def resolve_constant_def group_add_def
      demo_probe_pred_def named_pred.extend_def probe_pred.fields_def)

lemma demo_observe: "observe (YDict [(''autonomous'', YBool b)]) demo_probe_pred = Inr (YBool b, \<not> b)"
  by (auto simp: observe_def demo_probe_pred_def get_field_def getattr_def dict_of_def eval_pred_def scalar_of_def evaluate_def key_of_def)

theorem probe_live_view_witness:
  "\<exists>s. spin [(5, On_pred ''/a'' [demo_probe_pred], YDict [(''autonomous'', YBool False)])]
      (write_ev (config_event 1 demo_declared ''c'' ''m'') \<lparr>pr_state = Map.empty, pr_out = []\<rparr>) = (s, None)
    \<and> events_of ''predicate'' ''hazard:odd_exit'' s = [YBool True]"
proof -
  let ?ds = "[(5, On_pred ''/a'' [demo_probe_pred], YDict [(''autonomous'', YBool False)])]"
  define e0 where "e0 = config_event 1 demo_declared ''c'' ''m''"
  define s0 where "s0 = write_ev e0 \<lparr>pr_state = Map.empty, pr_out = []\<rparr>"
  define s where "s = judge 5 ''/a'' (YBool False, True) demo_probe_pred s0"
  have r: "spin ?ds s0 = (s, None)" by (simp add: on_pred_topic_def demo_observe s_def)
  obtain e1 where out: "pr_out s = [e0, e1]" "ev_kind e1 = ''predicate''"
    by (simp add: s_def judge_def s0_def write_ev_def)
  have k: "ev_kind e0 = ''config''" by (simp add: e0_def config_event_def)
  then have ne: "event_dict e1 \<noteq> event_dict e0" using out(2) by (simp add: event_dict_def)
  let ?dumps = "\<lambda>y. if y = event_dict e0 then ''a'' else ''b''"
  let ?parse = "\<lambda>l. if l = ''a'' then Some (event_dict e0) else Some (event_dict e1)"
  let ?cs = "[file_text ?dumps (pr_out s)]"
  have j: "\<forall>e \<in> set (pr_out s). newline \<notin> set (?dumps (event_dict e)) \<and> strip (?dumps (event_dict e)) \<noteq> []
      \<and> ?parse (?dumps (event_dict e)) = Some (event_dict e)"
    using ne by (simp add: out strip_def is_space_def)
  from probe_live_view [OF demo_start, folded e0_def, folded s0_def, OF r j, of ?cs True "''odd_exit''" "[]"]
  have "events_of ''predicate'' (kind_word True @ '':'' @ ''odd_exit'') s = tl (remdups_adj (YNone # concat (map (truths True ''odd_exit'') ?ds)))"
    by simp
  moreover have "truths True ''odd_exit'' (hd ?ds) = [YBool True]"
    using demo_observe [of False] by (simp add: demo_probe_pred_def)
  ultimately show ?thesis using r by (auto simp: s0_def e0_def kind_word_def)
qed

theorem constant_resolved_witness:
  "resolve_constant (\<lambda>f. if f = ''/opt/share/a_msgs/msg/M.msg'' then Some (join [newline] ([''# modes''] @ ''uint8 MANUAL = 4 # 4'' # [])) else None)
     (join '':'' ([''/nope''] @ ''/opt/'' # [])) (YStr (''a_msgs'' @ ''/'' @ ''msg'' @ ''/'' @ ''M'')) (YStr ''MANUAL'') = Inr (YNum (of_int 4))"
proof -
  have d: "dec_int 4 = ''4''" by code_simp
  have c: "is_constant ''MANUAL''" "\<forall>l \<in> set [''# modes'']. constant_on ''MANUAL'' l = None" by code_simp+
  have i: "list_all ident_char ''uint8''" "list_all is_space '' ''" "\<not> is_digit (hd '' # 4'')" by code_simp+
  show ?thesis
    by (rule constant_resolved [where a = "[]" and ty = "''uint8''" and b = "'' ''" and c = "'' ''" and e = "'' ''" and rest = "'' # 4''"
        and ps = "[''/nope'']" and p = "''/opt/''" and qs = "[]" and abv = "[''# modes'']" and blw = "[]" and line = "''uint8 MANUAL = 4 # 4''"])
      (use c i in \<open>simp_all add: d path_join_def starts_with_def\<close>)
qed

end
