(* ===== verification/Sntp.thy ===== *)
theory Sntp
  imports Yaml
begin

text \<open>The SNTP responder that gives the native_sim island its wall clock, \<^verbatim>\<open>scripts/sntp-server.py\<close>: the time stamp, the
  reply to a request, and the loop over the datagrams received.

  A datagram comes with the host's clock when it was received and when the reply is stamped (rationals, without the
  rounding of floats). The socket, the wait for the parent process and the printed lines are left out.\<close>

section \<open>Stamps and replies\<close>

definition NTP_DELTA :: int where "NTP_DELTA = 2208988800"

definition py_trunc :: "rat \<Rightarrow> int" where   \<comment> \<open>\<open>int(x)\<close> of a float\<close>
  "py_trunc x = (if x < 0 then - \<lfloor>- x\<rfloor> else \<lfloor>x\<rfloor>)"

definition be_bytes :: "nat \<Rightarrow> int \<Rightarrow> bytes" where
  "be_bytes n x = rev (le_bytes n x)"

definition be_int :: "bytes \<Rightarrow> int" where
  "be_int b = le_int (rev b)"

definition ntp_ts :: "rat \<Rightarrow> bytes" where
  "ntp_ts t =
     (let sec = py_trunc t; fr = py_trunc ((t - of_int sec) * 2 ^ 32) mod 2 ^ 32
      in be_bytes 4 ((sec + NTP_DELTA) mod 2 ^ 32) @ be_bytes 4 fr)"

text \<open>\<open>struct.pack("!BBbb", (vn << 3) | 4, 1, poll, -20)\<close>: the poll exponent is packed as a signed byte.\<close>

definition sntp_head :: "int \<Rightarrow> int \<Rightarrow> bytes res" where
  "sntp_head vn poll =
     (if poll \<ge> 128 then Inl StructError else Inr [word_of_int (vn * 8 + 4), 1, word_of_int poll, word_of_int (- 20)])"

text \<open>\<open>None\<close>: too short to answer.\<close>

definition sntp_reply :: "bytes \<Rightarrow> rat \<Rightarrow> rat \<Rightarrow> bytes option res" where
  "sntp_reply data rx now =
     (if length data < 48 then Inr None
      else rbind (sntp_head (uint (data ! 0) div 8 mod 8) (uint (data ! 2))) (\<lambda>h.
        Inr (Some (h @ be_bytes 4 0 @ be_bytes 4 0 @ ascii_encode ''LOCL'' @ ntp_ts rx @ bslice data 40 48 @ ntp_ts rx @ ntp_ts now))))"

text \<open>The loop: the replies sent (with the request each answers), until an exception ends the server.\<close>

fun sntp_serve :: "(bytes \<times> rat \<times> rat) list \<Rightarrow> (bytes \<times> bytes) list \<times> py_error option" where
  "sntp_serve [] = ([], None)"
| "sntp_serve ((data, rx, now) # ds) =
     (case sntp_reply data rx now of
        Inl e \<Rightarrow> ([], Some e)
      | Inr None \<Rightarrow> sntp_serve ds
      | Inr (Some pkt) \<Rightarrow> (let (out, e) = sntp_serve ds in ((data, pkt) # out, e)))"

text \<open>The address to listen on: \<open>arg.rpartition(":")\<close>, and the port as a number.\<close>

definition endpoint_of :: "string \<Rightarrow> (string \<times> int) res" where
  "endpoint_of arg =
     (let port = rev (takeWhile (\<lambda>c. c \<noteq> CHR '':'') (rev arg));
          host = (if CHR '':'' \<in> set arg then take (length arg - length port - 1) arg else [])
      in case py_int port of None \<Rightarrow> Inl ValueError | Some p \<Rightarrow> Inr (host, p))"

section \<open>Stamps\<close>

lemma be_facts [simp]: "length (be_bytes n x) = n" "0 \<le> x \<Longrightarrow> x < 256 ^ n \<Longrightarrow> be_int (be_bytes n x) = x"
  by (simp_all add: be_bytes_def be_int_def)

text \<open>The time a stamp tells, in seconds since 1900 within the era.\<close>

definition ntp_time :: "bytes \<Rightarrow> rat" where
  "ntp_time b = of_int (be_int (take 4 b)) + of_int (be_int (bslice b 4 8)) / 2 ^ 32"

lemma length_ntp_ts [simp]: "length (ntp_ts t) = 8"
  by (simp add: ntp_ts_def Let_def)

lemma ntp_time_ts:
  assumes "0 \<le> t"
  shows "\<exists>era. ntp_time (ntp_ts t) \<le> t + of_int NTP_DELTA - of_int era * 2 ^ 32
    \<and> t + of_int NTP_DELTA - of_int era * 2 ^ 32 < ntp_time (ntp_ts t) + 1 / 2 ^ 32 \<and> 0 \<le> ntp_time (ntp_ts t) \<and> ntp_time (ntp_ts t) < 2 ^ 32"
proof -
  define sec where "sec = \<lfloor>t\<rfloor>"
  define fr where "fr = \<lfloor>(t - of_int sec) * 2 ^ 32\<rfloor>"
  have s: "of_int sec \<le> t" "t < of_int sec + 1" by (simp_all add: sec_def) linarith
  have f0: "0 \<le> fr" using s by (simp add: fr_def)
  have "(t - of_int sec) * 2 ^ 32 < 2 ^ 32" using s by simp
  then have f1: "fr < 2 ^ 32" unfolding fr_def by (simp add: floor_less_iff)
  have f: "of_int fr \<le> (t - of_int sec) * 2 ^ 32" "(t - of_int sec) * 2 ^ 32 < of_int fr + 1" unfolding fr_def by simp_all linarith
  define m where "m = (sec + NTP_DELTA) mod 2 ^ 32"
  define era where "era = (sec + NTP_DELTA) div 2 ^ 32"
  have m: "0 \<le> m" "m < 2 ^ 32" by (simp_all add: m_def)
  have e: "sec + NTP_DELTA = era * 2 ^ 32 + m" by (simp add: m_def era_def)
  have "0 \<le> (t - of_int sec) * 2 ^ 32" using s by simp
  then have "py_trunc ((t - of_int sec) * 2 ^ 32) = fr" unfolding fr_def py_trunc_def by (simp only: not_less if_False flip: not_le) simp
  then have tr: "py_trunc t = sec" "py_trunc ((t - of_int sec) * 2 ^ 32) mod 2 ^ 32 = fr"
    using assms f0 f1 by (simp_all add: py_trunc_def sec_def)
  have ts: "ntp_ts t = be_bytes 4 m @ be_bytes 4 fr" unfolding ntp_ts_def Let_def tr m_def ..
  have nt: "ntp_time (ntp_ts t) = of_int m + of_int fr / 2 ^ 32"
    using m f0 f1 by (simp add: ntp_time_def ts bslice_def)
  have c: "(of_int (sec + NTP_DELTA) :: rat) = of_int era * 2 ^ 32 + of_int m" unfolding e by simp
  show ?thesis
    unfolding nt using f c m f0 f1
    by (intro exI [of _ era]) (auto simp: field_simps)
qed

text \<open>A stamp that tells \<open>t\<close>: within \<open>2 ^ (-32)\<close> s below it, in some era.\<close>

definition tells :: "bytes \<Rightarrow> rat \<Rightarrow> bool" where
  "tells b t \<longleftrightarrow> (\<exists>era. ntp_time b \<le> t + of_int NTP_DELTA - of_int era * 2 ^ 32
     \<and> t + of_int NTP_DELTA - of_int era * 2 ^ 32 < ntp_time b + 1 / 2 ^ 32)"

section \<open>The properties\<close>

lemma reply_pkt:
  assumes "48 \<le> length data" "uint (data ! 2) < 128"
  shows "sntp_reply data rx now = Inr (Some ([word_of_int (uint (data ! 0) div 8 mod 8 * 8 + 4), 1, data ! 2, word_of_int (- 20)]
    @ be_bytes 4 0 @ be_bytes 4 0 @ ascii_encode ''LOCL'' @ ntp_ts rx @ bslice data 40 48 @ ntp_ts rx @ ntp_ts now))"
  using assms by (simp add: sntp_reply_def sntp_head_def)

text \<open>C33. A request whose poll exponent is not negative is answered: 48 bytes, a server's reply in the request's version, the
  request's own transmit stamp as the originate stamp, and the host's times of reception and of the reply, each exact to
  the stamp's resolution in every NTP era.\<close>

theorem sntp_reply_valid:
  assumes "48 \<le> length data" "uint (data ! 2) < 128" "0 \<le> rx" "0 \<le> now"
  shows "\<exists>pkt. sntp_reply data rx now = Inr (Some pkt) \<and> length pkt = 48
    \<and> uint (pkt ! 0) mod 8 = 4 \<and> uint (pkt ! 0) div 8 mod 8 = uint (data ! 0) div 8 mod 8 \<and> pkt ! 1 = 1 \<and> pkt ! 2 = data ! 2
    \<and> bslice pkt 24 32 = bslice data 40 48 \<and> tells (bslice pkt 32 40) rx \<and> tells (bslice pkt 40 48) now"
proof -
  let ?vn = "uint (data ! 0) div 8 mod 8"
  have v: "uint (word_of_int (?vn * 8 + 4) :: byte) = ?vn * 8 + 4"
    unfolding uint_word_of_int by (rule mod_pos_pos_trivial) (use pos_mod_bound [of 8 "uint (data ! 0) div 8"] in simp_all)
  have ts: "tells (ntp_ts t) t" if "0 \<le> t" for t using ntp_time_ts [OF that] unfolding tells_def by blast
  define h where "h = (word_of_int (?vn * 8 + 4) :: byte)"
  define pkt where "pkt = [h, 1, data ! 2, word_of_int (- 20)] @ be_bytes 4 0 @ be_bytes 4 0 @ ascii_encode ''LOCL''
    @ ntp_ts rx @ bslice data 40 48 @ ntp_ts rx @ ntp_ts now"
  have r: "sntp_reply data rx now = Inr (Some pkt)" unfolding reply_pkt [OF assms(1,2)] pkt_def h_def ..
  have h: "uint h = ?vn * 8 + 4" unfolding h_def by (rule v)
  have l: "length (bslice data 40 48) = 8" using assms(1) by (simp add: bslice_def)
  have p: "length pkt = 48" "pkt ! 0 = h" "pkt ! 1 = 1" "pkt ! 2 = data ! 2" "bslice pkt 24 32 = bslice data 40 48"
    "bslice pkt 32 40 = ntp_ts rx" "bslice pkt 40 48 = ntp_ts now"
    using l by (simp_all add: pkt_def bslice_append_right bslice_append_left) (simp_all add: bslice_def)
  have "uint (pkt ! 0) mod 8 = 4" "uint (pkt ! 0) div 8 mod 8 = ?vn" unfolding p(2) h by simp_all
  then show ?thesis using r p ts [OF assms(3)] ts [OF assms(4)] by auto
qed

text \<open>A request whose third byte is 128 or more ends the server: the byte is packed as a signed one, \<open>struct.error\<close> is not
  caught, and no later request is answered.\<close>

theorem sntp_bad_poll:
  assumes "\<forall>(data, rx, now) \<in> set ds. length data < 48 \<or> uint (data ! 2) < 128" and "48 \<le> length bad" "128 \<le> uint (bad ! 2)"
  shows "sntp_serve (ds @ (bad, rx, now) # rest) = (fst (sntp_serve ds), Some StructError)"
  using assms(1)
proof (induction ds)
  case Nil
  then show ?case using assms(2,3) by (simp add: sntp_reply_def sntp_head_def)
next
  case (Cons d ds)
  obtain data r n where d: "d = (data, r, n)" by (cases d) auto
  show ?case
  proof (cases "length data < 48")
    case True
    then show ?thesis using Cons by (simp add: d sntp_reply_def)
  next
    case False
    then show ?thesis using Cons reply_pkt [of data r n] by (simp add: d split_beta)
  qed
qed

text \<open>A version 4 client request.\<close>

definition demo_request :: bytes where
  "demo_request = 35 # replicate 47 0"

theorem sntp_reply_valid_witness: "\<exists>pkt. sntp_reply demo_request 1 2 = Inr (Some pkt) \<and> length pkt = 48"
  using sntp_reply_valid [of demo_request 1 2] by (auto simp: demo_request_def)

theorem sntp_bad_poll_witness:
  "snd (sntp_serve ([(demo_request, 1, 2)] @ (demo_request[2 := 128], 3, 3) # [(demo_request, 4, 4)])) = Some StructError"
  by (subst sntp_bad_poll) (simp_all add: demo_request_def)

end
