(* ===== verification/Spin_Segment.thy ===== *)
theory Spin_Segment
  imports Spin_Diag
begin

text \<open>What a reading of the spin diagnostics says about a run: the sums the firmware keeps for each level, as
  functions of the intervals it filed, the ring of late intervals as an instance of \<open>ring_log\<close>, and the difference
  of two readings (\<open>segment\<close> of \<^verbatim>\<open>tools/board/spin_diag.py\<close>) as the act between them.\<close>

section \<open>What the firmware files\<close>

interpretation sd_ring: ring_log SD_RING "2 ^ 32" "\<lambda>s. unat (d_ring_next s)" d_ring push_late
proof
  show "0 < SD_RING" by (simp add: SD_RING_def)
  show "unat (d_ring_next (push_late x s)) = unat (d_ring_next s) + 1" if "unat (d_ring_next s) + 1 < 2 ^ 32" for s x
    using that by (simp add: push_late_def unat_step)
  show "d_ring (push_late x s) = (d_ring s)[unat (d_ring_next s) mod SD_RING := x]" for s x
    by (simp add: push_late_def SD_RING_def unat_mod)
qed

text \<open>The lateness of a filed interval, and the sums a level is to hold over its intervals.\<close>

definition late_n :: "sd_rec \<Rightarrow> nat" where
  "late_n c = unat (r_interval_us c) - unat (r_park_bound_us c)"

definition late_w :: "sd_rec \<Rightarrow> u32" where
  "late_w c = (if r_interval_us c > r_park_bound_us c then r_interval_us c - r_park_bound_us c else 0)"

definition of_level :: "nat \<Rightarrow> (bool \<times> sd_rec) list \<Rightarrow> (bool \<times> sd_rec) list" where
  "of_level i h = filter (\<lambda>(b, c). unat (r_level c) = i) h"

definition lates :: "(bool \<times> sd_rec) list \<Rightarrow> nat list" where
  "lates h = map (\<lambda>(b, c). late_n c) (filter fst h)"

definition late_recs :: "(bool \<times> sd_rec) list \<Rightarrow> sd_rec list" where
  "late_recs h = map (\<lambda>(b, c). c\<lparr>r_late_us := late_w c\<rparr>) (filter (\<lambda>(b, c). b \<and> 2000 \<le> late_n c) h)"

definition bin_of :: "nat \<Rightarrow> nat" where
  "bin_of x = min (x div 1000) 39"

definition in_bin :: "nat list \<Rightarrow> nat \<Rightarrow> nat" where
  "in_bin xs b = length (filter (\<lambda>x. bin_of x = b) xs)"

definition level_sums :: "sd_level \<Rightarrow> (bool \<times> sd_rec) list \<Rightarrow> bool" where
  "level_sums l h \<longleftrightarrow> unat (l_spins l) = length h \<and> unat (l_nobound l) = length (filter (\<lambda>x. \<not> fst x) h)
     \<and> unat (l_late l) = length (filter (\<lambda>x. 2000 \<le> x) (lates h)) \<and> unat (l_max_late_us l) = foldr max (lates h) 0
     \<and> map unat (l_hist l) = map (in_bin (lates h)) [0..<40]"

lemma unat_late: "unat (late_w c) = late_n c"
  by (auto simp: late_w_def late_n_def unat_sub word_less_nat_alt word_le_nat_alt)

lemma lates_simps [simp]:
  "lates [] = []" "lates (h @ h') = lates h @ lates h'" "lates [(b, c)] = (if b then [late_n c] else [])"
  by (simp_all add: lates_def)

lemma of_level_simps [simp]:
  "of_level i [] = []" "of_level i (h @ h') = of_level i h @ of_level i h'"
  "of_level i [(b, c)] = (if unat (r_level c) = i then [(b, c)] else [])"
  by (simp_all add: of_level_def)

lemma late_recs_simps [simp]:
  "late_recs [] = []" "late_recs (h @ h') = late_recs h @ late_recs h'"
  "late_recs [(b, c)] = (if b \<and> 2000 \<le> late_n c then [c\<lparr>r_late_us := late_w c\<rparr>] else [])"
  by (simp_all add: late_recs_def)

lemma length_lates: "length (lates h) = length (filter fst h)"
  by (simp add: lates_def)

lemma in_bin_le: "in_bin xs b \<le> length xs"
  by (simp add: in_bin_def)

lemma in_bin_Nil: "in_bin [] = (\<lambda>_. 0)"
  by (simp add: in_bin_def fun_eq_iff)

lemma foldr_max_from: "foldr max xs (x :: nat) = max (foldr max xs 0) x"
  by (induction xs) auto

lemma in_bin_snoc: "in_bin (xs @ [x]) b = in_bin xs b + (if bin_of x = b then 1 else 0)"
  by (simp add: in_bin_def)

lemma bin_word:
  "unat (if w div 1000 \<ge> of_nat SD_BINS then of_nat SD_BINS - 1 else w div 1000 :: u32) = bin_of (unat w)"
  by (simp add: bin_of_def SD_BINS_def word_le_nat_alt unat_div)

lemma hist_step:
  assumes "map unat (h :: u32 list) = map (in_bin xs) [0..<40]" "length xs + 1 < 2 ^ 32"
  shows "map unat (h[bin_of x := h ! bin_of x + 1]) = map (in_bin (xs @ [x])) [0..<40]"
proof (rule nth_equalityI)
  have len: "length h = 40" using assms(1) by (metis length_map diff_zero length_upt)
  then show "length (map unat (h[bin_of x := h ! bin_of x + 1])) = length (map (in_bin (xs @ [x])) [0..<40])" by simp
  fix i assume "i < length (map unat (h[bin_of x := h ! bin_of x + 1]))"
  then have i: "i < 40" using len by simp
  have e: "unat (h ! j) = in_bin xs j" if "j < 40" for j
    using arg_cong [OF assms(1), of "\<lambda>l. l ! j"] len that by simp
  have b: "bin_of x < 40" by (simp add: bin_of_def)
  have "unat (h ! bin_of x + 1) = in_bin xs (bin_of x) + 1"
    using e [OF b] in_bin_le [of xs "bin_of x"] assms(2) by (subst unat_step) simp_all
  then show "map unat (h[bin_of x := h ! bin_of x + 1]) ! i = map (in_bin (xs @ [x])) [0..<40] ! i"
    using i len e [OF i] by (cases "bin_of x = i") (simp_all add: in_bin_snoc)
qed

lemma close_nobound:
  assumes "level_sums l h" "length h + 1 < 2 ^ 32"
  shows "level_sums (close_any c l \<lparr>l_nobound := l_nobound (close_any c l) + 1\<rparr>) (h @ [(False, c)])"
proof -
  have "unat (l_nobound l) + 1 < 2 ^ 32"
    using assms length_filter_le [of "\<lambda>x. \<not> fst x" h] unfolding level_sums_def by linarith
  then show ?thesis using assms by (simp add: level_sums_def close_any_def unat_step)
qed

lemma close_judged_sums:
  assumes "level_sums l h" "length h + 1 < 2 ^ 32"
  shows "level_sums (close_judged (c\<lparr>r_late_us := late_w c\<rparr>) (late_w c) (close_any c l)) (h @ [(True, c)])"
proof -
  have h: "unat (l_spins l) = length h" "unat (l_nobound l) = length (filter (\<lambda>x. \<not> fst x) h)"
    "unat (l_late l) = length (filter (\<lambda>x. 2000 \<le> x) (lates h))" "unat (l_max_late_us l) = foldr max (lates h) 0"
    "map unat (l_hist l) = map (in_bin (lates h)) [0..<40]"
    using assms(1) by (simp_all add: level_sums_def)
  have n: "length (lates h) \<le> length h" by (simp add: length_lates)
  have lt: "unat (l_late l) + 1 < 2 ^ 32" using h(3) n assms(2) length_filter_le [of "\<lambda>x. 2000 \<le> x" "lates h"] by linarith
  have hist: "map unat ((l_hist l)[bin_of (late_n c) := l_hist l ! bin_of (late_n c) + 1]) = map (in_bin (lates h @ [late_n c])) [0..<40]"
    using hist_step [OF h(5), of "late_n c"] n assms(2) by linarith
  have "SD_LATE_US \<le> late_w c \<longleftrightarrow> 2000 \<le> late_n c" by (simp add: SD_LATE_US_def word_le_nat_alt unat_late)
  moreover have "l_max_late_us l < late_w c \<longleftrightarrow> foldr max (lates h) 0 < late_n c" by (simp add: word_less_nat_alt unat_late h(4))
  ultimately show ?thesis
    using h hist lt assms(2) unat_late [of c]
    by (simp add: level_sums_def close_judged_def close_any_def Let_def bin_word unat_step foldr_max_from [of _ "late_n c"] max_def)
qed


definition sd_inv :: "sdiag \<Rightarrow> (bool \<times> sd_rec) list \<Rightarrow> bool" where
  "sd_inv s h \<longleftrightarrow> sd_ok s \<and> (sd_live s \<or> d_magic s = 0 \<and> d_nlev s = 0 \<and> h = [])
     \<and> distinct (map l_tid (take (unat (d_nlev s)) (d_lev s)))
     \<and> (\<forall>i < 4. if i < unat (d_nlev s) then level_sums (d_lev s ! i) (of_level i h) else d_lev s ! i = level_zero \<and> of_level i h = [])
     \<and> sd_ring.holds s (late_recs h)"

lemma zero_ok: "rec_ok rec_zero" "sd_level_ok level_zero"
  by (simp_all add: rec_ok_def sd_level_ok_def rec_zero_def level_zero_def sd_consts)

lemma sd_inv_boot: "sd_inv sd_boot []"
  unfolding sd_inv_def sd_ring.holds_def
  by (simp add: sd_boot_def sd_ok_def zero_ok thr_ok_def SD_LEVELS_def SD_THREADS_def SD_RING_def list_all_length)

lemma length_copy_name: "length (sd_copy_name nm) = 16"
proof -
  have le: "length (takeWhile (\<lambda>c. c \<noteq> 0) (take 15 b)) \<le> 15" for b :: bytes
    using length_takeWhile_le [of "\<lambda>c. c \<noteq> 0" "take 15 b"] by simp
  show ?thesis
  proof (cases nm)
    case (Some a)
    then show ?thesis using le [of a] by (simp add: sd_copy_name_def Let_def)
  qed (simp add: sd_copy_name_def)
qed

lemma ring_cong: "d_ring s' = d_ring s \<Longrightarrow> d_ring_next s' = d_ring_next s \<Longrightarrow> sd_ring.holds s' hs = sd_ring.holds s hs"
  by (simp add: sd_ring.holds_def)

lemma magic_set_sel [simp]:
  "d_lev (sd_magic_set s) = d_lev s" "d_nlev (sd_magic_set s) = d_nlev s" "d_thr (sd_magic_set s) = d_thr s"
  "d_nthr (sd_magic_set s) = d_nthr s" "d_ring (sd_magic_set s) = d_ring s" "d_ring_next (sd_magic_set s) = d_ring_next s"
  by (simp_all add: sd_magic_set_def)

lemma dims_word: "(of_nat SD_LEVELS OR push_bit 8 (of_nat SD_BINS) OR push_bit 16 (of_nat SD_RING) OR push_bit 24 (of_nat SD_THREADS) :: u32) = 0x10302804"
  by (simp add: sd_consts)

lemma magic_set_live: "sd_live s \<or> d_magic s = 0 \<Longrightarrow> sd_live (sd_magic_set s)"
  unfolding sd_magic_set_def dims_word SD_LATE_US_def by (auto simp: sd_live_def)

lemma sd_work_of_None: "sd_work_of t s = None \<longleftrightarrow> (\<forall>i < unat (d_nlev s). l_tid (d_lev s ! i) \<noteq> t)"
  by (auto simp: sd_work_of_def find_None_iff)

lemma list_all_update: "list_all P xs \<Longrightarrow> P x \<Longrightarrow> list_all P (xs[i := x])"
  by (auto simp: list_all_iff dest: set_update_subset_insert [THEN subsetD])

lemma sd_inv_cong:
  assumes "sd_inv s h" "d_lev s' = d_lev s" "d_nlev s' = d_nlev s" "d_ring s' = d_ring s" "d_ring_next s' = d_ring_next s"
    and "sd_ok s'" "sd_live s' \<or> d_magic s' = 0 \<and> d_nlev s' = 0 \<and> h = []"
  shows "sd_inv s' h"
  using assms(1,6,7) unfolding sd_inv_def assms(2,3) ring_cong [OF assms(4,5)] by blast

lemma sd_inv_register:
  assumes inv: "sd_inv s h" and new: "sd_work_of t s = None"
  shows "sd_inv (sd_register t prio nm s) h"
proof (cases "unat (d_nlev s) < SD_LEVELS")
  case False
  have "sd_live (sd_magic_set s)" "sd_ok s" using inv magic_set_live [of s] by (auto simp: sd_inv_def)
  then show ?thesis
    using False by (intro sd_inv_cong [OF inv]) (simp_all add: sd_register_def Let_def sd_ok_def sd_live_def)
next
  case True
  let ?n = "unat (d_nlev s)" and ?s = "sd_register t prio nm s"
  let ?l = "(d_lev s ! ?n)\<lparr>l_tid := t, l_prio := prio, l_name := sd_copy_name nm, l_bound_min_us := SD_NO_BOUND\<rparr>"
  have n: "?n < 4" using True by (simp add: SD_LEVELS_def)
  have ok: "sd_ok s" and z: "d_lev s ! ?n = level_zero" "of_level ?n h = []" and len: "length (d_lev s) = 4"
    using inv n by (auto simp: sd_inv_def sd_ok_def)
  have n1: "unat (d_nlev s + 1) = ?n + 1" using n by (simp add: unat_step)
  have sel: "d_lev ?s = (d_lev s)[?n := ?l]" "d_nlev ?s = d_nlev s + 1" "d_ring ?s = d_ring s" "d_ring_next ?s = d_ring_next s"
    "d_thr ?s = d_thr s"
    using True by (simp_all add: sd_register_def Let_def)
  have l: "sd_level_ok ?l" "level_sums ?l []"
    using zero_ok(2) by (simp_all add: z sd_level_ok_def length_copy_name level_sums_def level_zero_def SD_BINS_def in_bin_Nil map_replicate_const)
  have "sd_live ?s" using inv magic_set_live [of s] True by (auto simp: sd_inv_def sd_register_def Let_def sd_live_def)
  moreover have "sd_ok ?s" using ok n l(1) by (simp add: sd_ok_def sel n1 list_all_update)
  moreover have "distinct (map l_tid (take (?n + 1) ((d_lev s)[?n := ?l])))"
  proof -
    have "t \<notin> set (map l_tid (take ?n (d_lev s)))" using new len n by (fastforce simp: sd_work_of_None in_set_conv_nth)
    moreover have "take (?n + 1) ((d_lev s)[?n := ?l]) = take ?n (d_lev s) @ [?l]" using len n by (simp add: take_Suc_conv_app_nth)
    ultimately show ?thesis using inv by (simp add: sd_inv_def)
  qed
  moreover have "if i < ?n + 1 then level_sums ((d_lev s)[?n := ?l] ! i) (of_level i h)
      else (d_lev s)[?n := ?l] ! i = level_zero \<and> of_level i h = []" if i: "i < 4" for i
    using inv i len l(2) z(2) by (cases "i = ?n") (auto simp: sd_inv_def)
  ultimately show ?thesis using inv unfolding sd_inv_def sel n1 ring_cong [OF sel(3,4)] by auto
qed

lemma sd_inv_thread:
  assumes "sd_inv s h"
  shows "sd_inv (sd_thread_cb t prio nm s) h"
proof (rule sd_inv_cong [OF assms])
  have "sd_ok s" using assms by (simp add: sd_inv_def)
  then show "sd_ok (sd_thread_cb t prio nm s)"
    by (simp add: sd_thread_cb_def sd_ok_def thr_ok_def length_copy_name list_all_update)
  show "sd_live (sd_thread_cb t prio nm s) \<or> d_magic (sd_thread_cb t prio nm s) = 0 \<and> d_nlev (sd_thread_cb t prio nm s) = 0 \<and> h = []"
    using assms by (auto simp: sd_inv_def sd_thread_cb_def sd_live_def)
qed (simp_all add: sd_thread_cb_def)


lemma sd_file_sel:
  "d_lev (sd_file b c s) = (d_lev s)[unat (r_level c) :=
     (let l = close_any c (d_lev s ! unat (r_level c))
      in if b then close_judged (c\<lparr>r_late_us := late_w c\<rparr>) (late_w c) l else l\<lparr>l_nobound := l_nobound l + 1\<rparr>)]"
  "d_nlev (sd_file b c s) = d_nlev s" "d_thr (sd_file b c s) = d_thr s"
  "d_magic (sd_file b c s) = d_magic s" "d_rec_words (sd_file b c s) = d_rec_words s" "d_lev_words (sd_file b c s) = d_lev_words s"
  "d_dims (sd_file b c s) = d_dims s" "d_late_us (sd_file b c s) = d_late_us s"
  by (simp_all add: sd_file_def Let_def push_late_def late_w_def)

lemma close_tid [simp]: "l_tid (close_any c l) = l_tid l" "l_tid (close_judged c w l) = l_tid l"
  by (simp_all add: close_any_def close_judged_def Let_def)

lemma close_ok: "sd_level_ok l \<Longrightarrow> rec_ok c \<Longrightarrow> sd_level_ok (close_any c l)" "sd_level_ok l \<Longrightarrow> rec_ok c \<Longrightarrow> sd_level_ok (close_judged c w l)"
  by (simp_all add: sd_level_ok_def close_any_def close_judged_def Let_def rec_ok_def)

lemma level_ok_nobound [simp]: "sd_level_ok (l\<lparr>l_nobound := w\<rparr>) = sd_level_ok l"
  by (simp add: sd_level_ok_def)

lemma rec_ok_late [simp]: "rec_ok (c\<lparr>r_late_us := w\<rparr>) = rec_ok c"
  by (simp add: rec_ok_def)

lemma sd_file_ring:
  assumes "sd_ring.holds s (late_recs h)" "length h + 1 < 2 ^ 32"
  shows "sd_ring.holds (sd_file b c s) (late_recs (h @ [(b, c)]))"
proof -
  have late: "SD_LATE_US \<le> late_w c \<longleftrightarrow> 2000 \<le> late_n c" by (simp add: SD_LATE_US_def word_le_nat_alt unat_late)
  have "length (late_recs h) \<le> length h" by (simp add: late_recs_def)
  then have lim: "length (late_recs h) + 1 < 2 ^ 32" using assms(2) by linarith
  show ?thesis
  proof (cases "b \<and> 2000 \<le> late_n c")
    case True
    define s2 where "s2 = s\<lparr>d_lev := d_lev (sd_file b c s)\<rparr>"
    have e: "sd_file b c s = push_late (c\<lparr>r_late_us := late_w c\<rparr>) s2"
      using late True unfolding s2_def by (simp add: sd_file_def Let_def late_w_def push_late_def)
    have "sd_ring.holds s2 (late_recs h)" using assms(1) ring_cong [of s2 s] by (simp add: s2_def)
    then show ?thesis unfolding e using sd_ring.holds_push [OF _ lim] True by simp
  next
    case False
    then have "d_ring (sd_file b c s) = d_ring s" "d_ring_next (sd_file b c s) = d_ring_next s"
      using late by (auto simp: sd_file_def Let_def late_w_def [symmetric])
    then have "sd_ring.holds (sd_file b c s) = sd_ring.holds s" by (intro ext ring_cong)
    then show ?thesis using assms(1) False by auto
  qed
qed

lemma sd_file_ring_ok: "rec_ok c \<Longrightarrow> list_all rec_ok (d_ring s) \<Longrightarrow> length (d_ring s) = 48
    \<Longrightarrow> list_all rec_ok (d_ring (sd_file b c s)) \<and> length (d_ring (sd_file b c s)) = 48"
  by (simp add: sd_file_def Let_def push_late_def list_all_update)

lemma sd_inv_file:
  assumes inv: "sd_inv s h" and c: "unat (r_level c) < unat (d_nlev s)" "rec_ok c" and lim: "length h + 1 < 2 ^ 32"
  shows "sd_inv (sd_file b c s) (h @ [(b, c)])"
proof -
  let ?i = "unat (r_level c)" and ?s = "sd_file b c s"
  define l where "l = (let l = close_any c (d_lev s ! ?i)
      in if b then close_judged (c\<lparr>r_late_us := late_w c\<rparr>) (late_w c) l else l\<lparr>l_nobound := l_nobound l + 1\<rparr>)"
  have sel: "d_lev ?s = (d_lev s)[?i := l]" by (simp add: sd_file_sel l_def)
  have ok: "sd_ok s" and i: "?i < 4" and len: "length (d_lev s) = 4" using inv c by (auto simp: sd_inv_def sd_ok_def)
  have "length (of_level ?i h) + 1 < 2 ^ 32" using lim length_filter_le [of _ h] unfolding of_level_def by (meson add_le_mono1 le_less_trans)
  moreover have "level_sums (d_lev s ! ?i) (of_level ?i h)" using inv i c(1) by (auto simp: sd_inv_def)
  ultimately have sums: "level_sums l (of_level ?i (h @ [(b, c)]))"
    using close_nobound close_judged_sums by (cases b) (auto simp: l_def Let_def)
  have "sd_level_ok (d_lev s ! ?i)" using ok i by (simp add: sd_ok_def list_all_length)
  then have "sd_level_ok l" using c(2) close_ok(1) [of "d_lev s ! ?i" c]
    by (simp add: l_def Let_def close_ok)
  then have "sd_ok ?s" using ok c(2) sd_file_ring_ok by (simp add: sd_ok_def sd_file_sel(2,3) sel list_all_update)
  moreover have "sd_live ?s" using inv c(1) by (auto simp: sd_inv_def sd_live_def sd_file_sel)
  moreover have "distinct (map l_tid (take (unat (d_nlev s)) ((d_lev s)[?i := l])))"
  proof -
    have "map l_tid ((d_lev s)[?i := l]) = map l_tid (d_lev s)"
      using i len by (intro nth_equalityI) (auto simp: nth_list_update l_def Let_def)
    then show ?thesis using inv by (simp add: sd_inv_def flip: take_map)
  qed
  moreover have "if j < unat (d_nlev s) then level_sums ((d_lev s)[?i := l] ! j) (of_level j (h @ [(b, c)]))
      else (d_lev s)[?i := l] ! j = level_zero \<and> of_level j (h @ [(b, c)]) = []" if j: "j < 4" for j
  proof (cases "j = ?i")
    case True
    then show ?thesis using sums c(1) i len by simp
  next
    case False
    then show ?thesis using inv j c(1) by (auto simp: sd_inv_def)
  qed
  moreover have "sd_ring.holds ?s (late_recs (h @ [(b, c)]))" using inv lim by (intro sd_file_ring) (simp_all add: sd_inv_def)
  ultimately show ?thesis unfolding sd_inv_def sel sd_file_sel(2) by blast
qed


lemma sd_run_inv:
  assumes "sd_run s0 h s" "sd_inv s0 h0" "length h0 + length h < 2 ^ 32"
  shows "sd_inv s (h0 @ h)"
  using assms
proof (induction rule: sd_run.induct)
  case (level h s t prio nm)
  then show ?case by (intro sd_inv_register) simp_all
next
  case (thread h s t prio nm)
  then show ?case by (intro sd_inv_thread) simp_all
next
  case (spin h s c b)
  then have "sd_inv s (h0 @ h)" by simp
  then have "sd_inv (sd_file b c s) ((h0 @ h) @ [(b, c)])" using spin by (intro sd_inv_file) simp_all
  then show ?case by simp
qed simp

text \<open>A level keeps its place and its thread.\<close>

lemma sd_register_keeps:
  assumes "i < unat (d_nlev s)" "length (d_lev s) = 4" "unat (d_nlev s) \<le> 4"
  shows "i < unat (d_nlev (sd_register t prio nm s)) \<and> l_tid (d_lev (sd_register t prio nm s) ! i) = l_tid (d_lev s ! i)"
  using assms by (simp add: sd_register_def Let_def SD_LEVELS_def unat_step)

lemma sd_run_keeps:
  assumes "sd_run s0 h s" "sd_inv s0 h0" "length h0 + length h < 2 ^ 32" "i < unat (d_nlev s0)"
  shows "i < unat (d_nlev s) \<and> l_tid (d_lev s ! i) = l_tid (d_lev s0 ! i)"
  using assms
proof (induction rule: sd_run.induct)
  case (level h s t prio nm)
  have "sd_ok s" using sd_run_inv [OF level.hyps(1) level.prems(1,2)] by (simp add: sd_inv_def)
  then show ?case using level sd_register_keeps [of i s t prio nm] by (simp add: sd_ok_def)
next
  case (thread h s t prio nm)
  then show ?case by (simp add: sd_thread_cb_def)
next
  case (spin h s c b)
  have "sd_ok s" using sd_run_inv [OF spin.hyps(1) spin.prems(1)] spin.prems(2) by (simp add: sd_inv_def)
  then show ?case using spin by (simp add: sd_file_sel nth_list_update sd_ok_def Let_def)
qed simp


section \<open>A reading of a run\<close>

lemma reading_live: "sd_inv s h \<Longrightarrow> sd_live s \<Longrightarrow> parse (sd_bytes s) = Inr (Parsed (sd_view s))"
  by (simp add: sd_inv_def parse_sd_bytes)

lemma reading_pre:
  assumes "sd_inv s h"
  shows "\<exists>p. parse (sd_bytes s) = Inr p \<and> pre_of p = (sp_levels (sd_view s), sp_ring_next (sd_view s))"
proof (cases "sd_live s")
  case True
  then show ?thesis using reading_live [OF assms] by (simp add: pre_of_def)
next
  case False
  then have z: "d_magic s = 0" "d_nlev s = 0" "h = []" using assms by (auto simp: sd_inv_def)
  then have "unat (d_ring_next s) = 0" using assms by (simp add: sd_inv_def sd_ring.holds_def)
  then show ?thesis using parse_sd_early [OF z(1)] z(2) by (auto simp: pre_of_def sd_view_def unat_eq_0)
qed

text \<open>The sums a level shows in a reading.\<close>

definition view_sums :: "lev_view \<Rightarrow> (bool \<times> sd_rec) list \<Rightarrow> bool" where
  "view_sums x h \<longleftrightarrow> x_spins x = int (length h) \<and> x_nobound x = int (length (filter (\<lambda>y. \<not> fst y) h))
     \<and> x_late x = int (length (filter (\<lambda>y. 2000 \<le> y) (lates h))) \<and> x_max_late x = int (foldr max (lates h) 0)
     \<and> x_hist x = map (\<lambda>b. int (in_bin (lates h) b)) [0..<40]"

lemma level_view_sums: "level_sums l h \<Longrightarrow> view_sums (level_view i l) h"
proof -
  assume l: "level_sums l h"
  then have "map int (map unat (l_hist l)) = map (\<lambda>b. int (in_bin (lates h) b)) [0..<40]" by (simp add: level_sums_def)
  then have "map uint (l_hist l) = map (\<lambda>b. int (in_bin (lates h) b)) [0..<40]" by (simp add: comp_def)
  moreover have u: "uint w = int n" if "unat w = n" for w :: u32 and n using that by auto
  ultimately show ?thesis
    using l u [of "l_spins l"] u [of "l_nobound l"] u [of "l_late l"] u [of "l_max_late_us l"]
    by (simp add: view_sums_def level_view_def level_sums_def)
qed

lemma zero_level_sums: "length (x_hist x) = 40 \<Longrightarrow> view_sums (zero_level x) []"
  by (simp add: view_sums_def zero_level_def in_bin_Nil map_replicate_const)

lemma inv_sums: "sd_inv s h \<Longrightarrow> i < unat (d_nlev s) \<Longrightarrow> view_sums (level_view i (d_lev s ! i)) (of_level i h)"
proof -
  assume i: "sd_inv s h" "i < unat (d_nlev s)"
  then have "i < 4" by (simp add: sd_inv_def sd_ok_def)
  then show ?thesis using i by (intro level_view_sums) (simp add: sd_inv_def)
qed


section \<open>Two readings\<close>

lemma x_tid_view [simp]: "x_tid (level_view i l) = uint (l_tid l)" "x_index (level_view i l) = i"
  by (simp_all add: level_view_def)

text \<open>The level of the earlier reading that \<open>seg_row_of\<close> subtracts.\<close>

lemma pre_level:
  assumes run: "sd_inv s1 h1" "sd_run s1 h2 s2" "length h1 + length h2 < 2 ^ 32" and i: "i < unat (d_nlev s2)"
  defines "x \<equiv> level_view i (d_lev s2 ! i)"
  shows "view_sums (case dict_of (map (\<lambda>y. (x_tid y, y)) (sp_levels (sd_view s1))) (x_tid x) of Some y \<Rightarrow> y | None \<Rightarrow> zero_level x)
    (of_level i h1)"
proof -
  let ?d = "map (\<lambda>y. (x_tid y, y)) (sp_levels (sd_view s1))" and ?n = "unat (d_nlev s1)"
  have inv2: "sd_inv s2 (h1 @ h2)" using sd_run_inv [OF run(2,1,3)] .
  have n4: "?n \<le> 4" "length (d_lev s1) = 4" "unat (d_nlev s2) \<le> 4" "length (d_lev s2) = 4"
    using run(1) inv2 by (simp_all add: sd_inv_def sd_ok_def)
  have keep: "j < unat (d_nlev s2) \<and> l_tid (d_lev s2 ! j) = l_tid (d_lev s1 ! j)" if "j < ?n" for j
    using sd_run_keeps [OF run(2,1,3) that] .
  have d: "?d = map (\<lambda>j. (uint (l_tid (d_lev s1 ! j)), level_view j (d_lev s1 ! j))) [0..<?n]" by (simp add: sd_view_def)
  show ?thesis
  proof (cases "i < ?n")
    case True
    have "map l_tid (take ?n (d_lev s1)) = map (\<lambda>j. l_tid (d_lev s1 ! j)) [0..<?n]"
      using n4 by (intro nth_equalityI) simp_all
    then have "distinct (map (\<lambda>j. l_tid (d_lev s1 ! j)) [0..<?n])" using run(1) by (simp add: sd_inv_def)
    then have "distinct (map fst ?d)" by (simp add: d distinct_map inj_on_def flip: word_uint_eq_iff)
    moreover have "(x_tid x, level_view i (d_lev s1 ! i)) \<in> set ?d" using True keep [OF True] by (auto simp: d x_def)
    ultimately have "dict_of ?d (x_tid x) = Some (level_view i (d_lev s1 ! i))" by (rule dict_of_mem)
    then show ?thesis using inv_sums [OF run(1) True] by simp
  next
    case False
    have dist: "distinct (map l_tid (take (unat (d_nlev s2)) (d_lev s2)))" using inv2 by (simp add: sd_inv_def)
    have "l_tid (d_lev s1 ! j) \<noteq> l_tid (d_lev s2 ! i)" if j: "j < ?n" for j
      using keep [OF j] False j i n4 nth_eq_iff_index_eq [OF dist, of i j] by auto
    then have "x_tid x \<notin> fst ` set ?d" by (auto simp: d x_def simp flip: word_uint_eq_iff) metis
    then have "dict_of ?d (x_tid x) = None" by (simp add: dict_of_None_iff)
    moreover have "of_level i h1 = []" using run(1) False i n4 by (auto simp: sd_inv_def)
    moreover have "length (x_hist x) = 40" using inv_sums [OF inv2 i] by (simp add: view_sums_def x_def)
    ultimately show ?thesis using zero_level_sums [of x] by simp
  qed
qed

lemma sum_bins: "sum_list (map (\<lambda>b. int (in_bin xs b)) [1..<40]) = int (length (filter (\<lambda>y. 1000 \<le> y) xs))"
proof (induction xs)
  case (Cons y xs)
  have "int (in_bin (y # xs) b) = (if bin_of y = b then 1 else 0) + int (in_bin xs b)" for b by (simp add: in_bin_def)
  then have "sum_list (map (\<lambda>b. int (in_bin (y # xs) b)) [1..<40])
      = sum_list (map (\<lambda>b. if bin_of y = b then 1 else 0) [1..<40]) + sum_list (map (\<lambda>b. int (in_bin xs b)) [1..<40])"
    by (simp only: sum_list_addf)
  moreover have "sum_list (map (\<lambda>b. if bin_of y = b then 1 else (0 :: int)) [1..<40]) = (if 1000 \<le> y then 1 else 0)"
  proof -
    have "sum_list (map (\<lambda>b. if bin_of y = b then 1 else (0 :: int)) [1..<40]) = (\<Sum>b \<in> {1..<40}. if bin_of y = b then 1 else 0)"
      by (simp add: interv_sum_list_conv_sum_set_nat)
    then show ?thesis by (auto simp: bin_of_def)
  qed
  ultimately show ?case using Cons by simp
qed (simp add: in_bin_Nil)

lemma row_counts:
  assumes "view_sums x (h1 @ h2)" "view_sums (case dict_of (map (\<lambda>y. (x_tid y, y)) ls) (x_tid x) of Some y \<Rightarrow> y | None \<Rightarrow> zero_level x) h1"
  shows "g_spins (seg_row_of (ls, n) a x) = int (length h2)" "g_judged (seg_row_of (ls, n) a x) = int (length (lates h2))"
    "g_late (seg_row_of (ls, n) a x) = int (length (filter (\<lambda>y. 2000 \<le> y) (lates h2)))"
    "g_hist (seg_row_of (ls, n) a x) = map (\<lambda>b. int (in_bin (lates h2) b)) [0..<40]"
    "g_ms1 (seg_row_of (ls, n) a x) = int (length (filter (\<lambda>y. 1000 \<le> y) (lates h2)))"
proof -
  define q where "q = (case dict_of (map (\<lambda>y. (x_tid y, y)) ls) (x_tid x) of Some y \<Rightarrow> y | None \<Rightarrow> zero_level x)"
  have q: "view_sums q h1" using assms(2) by (simp add: q_def)
  have h: "map (\<lambda>(c, c0). c - c0) (zip (x_hist x) (x_hist q)) = map (\<lambda>b. int (in_bin (lates h2) b)) [0..<40]"
    using assms(1) q by (intro nth_equalityI) (simp_all add: view_sums_def in_bin_def)
  have n: "length (filter (\<lambda>y. \<not> fst y) h2) + length (lates h2) = length h2"
    using sum_length_filter_compl [of fst h2] by (simp add: length_lates)
  show "g_spins (seg_row_of (ls, n) a x) = int (length h2)" "g_judged (seg_row_of (ls, n) a x) = int (length (lates h2))"
    "g_late (seg_row_of (ls, n) a x) = int (length (filter (\<lambda>y. 2000 \<le> y) (lates h2)))"
    using assms(1) q n by (simp_all add: seg_row_of_def Let_def view_sums_def flip: q_def)
  show g: "g_hist (seg_row_of (ls, n) a x) = map (\<lambda>b. int (in_bin (lates h2) b)) [0..<40]"
    by (simp add: seg_row_of_def Let_def h flip: q_def)
  have "g_ms1 (seg_row_of (ls, n) a x) = sum_list (drop 1 (g_hist (seg_row_of (ls, n) a x)))" by (simp add: seg_row_of_def Let_def)
  then show "g_ms1 (seg_row_of (ls, n) a x) = int (length (filter (\<lambda>y. 1000 \<le> y) (lates h2)))"
    using sum_bins [of "lates h2"] by (simp add: g drop_map)
qed


section \<open>The worst lateness of the act\<close>

lemma ring_view_snd:
  assumes "sd_inv s h"
  shows "map snd (ring_view s) = map rec_view (drop (length (late_recs h) - 48) (late_recs h))" and "length (late_recs h) = unat (d_ring_next s)"
proof -
  let ?N = "unat (d_ring_next s)"
  have hold: "sd_ring.holds s (late_recs h)" using assms by (simp add: sd_inv_def)
  then show N: "length (late_recs h) = ?N" by (simp add: sd_ring.holds_def)
  have "map snd (ring_view s) = map (\<lambda>i. rec_view (d_ring s ! (i mod 48))) [?N - min ?N 48..<?N]"
  proof -
    let ?n = "min ?N 48"
    have "map (\<lambda>i. ?N - ?n + i) [0..<?n] = [?N - ?n..<?N]" using map_add_upt [of "?N - ?n" ?n] by (simp add: add.commute)
    then have "map (\<lambda>i. rec_view (d_ring s ! (i mod 48))) (map (\<lambda>i. ?N - ?n + i) [0..<?n]) = map (\<lambda>i. rec_view (d_ring s ! (i mod 48))) [?N - ?n..<?N]"
      by (rule arg_cong)
    then show ?thesis by (simp add: ring_view_def Let_def comp_def)
  qed
  also have "\<dots> = map rec_view (map (\<lambda>i. d_ring s ! (i mod SD_RING)) [?N - 48..<?N])"
    by (auto simp: SD_RING_def min_def)
  also have "\<dots> = map rec_view (drop (?N - 48) (late_recs h))"
    using sd_ring.read_since [OF hold, of "?N - 48"] by (simp add: N SD_RING_def)
  finally show "map snd (ring_view s) = map rec_view (drop (length (late_recs h) - 48) (late_recs h))" by (simp only: N)
qed

lemma int_unat_iff: "uint w = int i \<longleftrightarrow> unat w = i" for w :: u32
  by (metis nat_int nat_uint_eq uint_nat)

lemma late_recs_level:
  assumes "\<forall>(b, c) \<in> set h. rec_ok c"
  shows "map (\<lambda>r. sd_get r ''late_us'') (filter (\<lambda>r. sd_get r ''level'' = int i) (map rec_view (late_recs h)))
    = map int (filter (\<lambda>y. 2000 \<le> y) (lates (of_level i h)))"
  using assms
proof (induction h)
  case (Cons x h)
  obtain b c where x: "x = (b, c)" by (cases x)
  have c: "rec_ok c" "\<forall>(b, c) \<in> set h. rec_ok c" using Cons.prems by (auto simp: x)
  have lv: "sd_get (rec_view (c\<lparr>r_late_us := late_w c\<rparr>)) ''level'' = int i \<longleftrightarrow> unat (r_level c) = i"
    using rec_view_get(1) [of "c\<lparr>r_late_us := late_w c\<rparr>"] c(1) int_unat_iff [of "r_level c" i] by simp
  have lt: "sd_get (rec_view (c\<lparr>r_late_us := late_w c\<rparr>)) ''late_us'' = int (late_n c)"
    using rec_view_get(2) [of "c\<lparr>r_late_us := late_w c\<rparr>"] c(1) unat_late [of c] int_unat_iff [of "late_w c" "late_n c"] by simp
  have "late_recs (x # h) = late_recs [x] @ late_recs h" "lates (of_level i (x # h)) = lates (of_level i [x]) @ lates (of_level i h)"
    using late_recs_simps(2) [of "[x]" h] of_level_simps(2) [of i "[x]" h] by simp_all
  then show ?case using Cons.IH [OF c(2)] lv lt by (simp add: x)
qed simp

lemma ring_lates_act:
  assumes "sd_inv s (h1 @ h2)" "\<forall>(b, c) \<in> set h2. rec_ok c" "length (late_recs h2) \<le> 48"
  shows "ring_lates (sd_view s) (int (length (late_recs h2))) i = map int (filter (\<lambda>y. 2000 \<le> y) (lates (of_level i h2)))"
proof -
  let ?n = "length (late_recs h2)" and ?R = "ring_view s"
  have R: "map snd ?R = map rec_view (drop (length (late_recs (h1 @ h2)) - 48) (late_recs (h1 @ h2)))"
    using ring_view_snd(1) [OF assms(1)] .
  have len: "length ?R = min (length (late_recs (h1 @ h2))) 48" using arg_cong [OF R, of length] by simp
  have "map snd (drop (length ?R - ?n) ?R) = map rec_view (late_recs h2)"
    using assms(3) by (simp only: drop_map [symmetric] R len) (simp add: min_def)
  moreover have "ring_lates (sd_view s) (int ?n) i
      = map (\<lambda>r. sd_get r ''late_us'') (filter (\<lambda>r. sd_get r ''level'' = int i) (map snd (drop (length ?R - ?n) ?R)))"
  proof -
    have "nat (max 0 (int a - int b)) = a - b" for a b by arith
    then show ?thesis by (simp add: ring_lates_def sd_view_def filter_map comp_def split_def)
  qed
  ultimately show ?thesis using late_recs_level [OF assms(2)] by simp
qed


text \<open>What the worst column may say of the latenesses \<open>xs\<close> of the act.\<close>

definition worst_right :: "nat list \<Rightarrow> seg_worst \<Rightarrow> bool" where
  "worst_right xs w = (case w of
     Exact m \<Rightarrow> xs \<noteq> [] \<and> m = int (foldr max xs 0)
   | Below k \<Rightarrow> xs \<noteq> [] \<and> list_all (\<lambda>y. y < 1000 * k) xs \<and> list_ex (\<lambda>y. 1000 * (k - 1) \<le> y) xs
   | No_late \<Rightarrow> xs = [])"

lemma foldr_max_append: "foldr max (xs @ ys) (0 :: nat) = max (foldr max xs 0) (foldr max ys 0)"
  by (induction xs) simp_all

lemma foldr_max_upper: "x \<in> set xs \<Longrightarrow> x \<le> foldr max xs (0 :: nat)"
  by (induction xs) auto

lemma foldr_max_filter: "filter (\<lambda>y. k \<le> y) xs \<noteq> [] \<Longrightarrow> foldr max (filter (\<lambda>y. k \<le> y) xs) (0 :: nat) = foldr max xs 0"
proof (induction xs)
  case (Cons x xs)
  then show ?case
  proof (cases "filter (\<lambda>y. k \<le> y) xs = []")
    case True
    then have "\<forall>y \<in> set xs. y < k" by (auto simp: filter_empty_conv)
    then have "foldr max xs 0 \<le> k" by (induction xs) auto
    with True Cons.prems show ?thesis by (auto split: if_splits)
  next
    case False
    then have "k \<le> foldr max xs 0" using foldr_max_upper by (fastforce simp: filter_empty_conv)
    with False Cons.IH show ?thesis by simp
  qed
qed simp

lemma foldr_max_int: "ls \<noteq> [] \<Longrightarrow> foldr max (tl (map int ls)) (hd (map int ls)) = int (foldr max ls 0)"
proof (induction ls)
  case (Cons x xs)
  have "foldr max (map int xs) (int x) = max (int (foldr max xs 0)) (int x)" by (induction xs) auto
  then show ?case by (simp add: max.commute)
qed simp

lemma bins_nonempty:
  "map fst (filter (\<lambda>(b, c). c \<noteq> 0) (enumerate 0 (map (\<lambda>b. int (in_bin xs b)) [0..<40]))) = filter (\<lambda>b. in_bin xs b \<noteq> 0) [0..<40]"
proof -
  have "enumerate 0 (map (\<lambda>b. int (in_bin xs b)) [0..<40]) = map (\<lambda>b. (b, int (in_bin xs b))) [0..<40]"
    by (intro nth_equalityI) (simp_all add: nth_enumerate_eq)
  then show ?thesis by (simp add: filter_map comp_def)
qed

lemma sorted_last: "sorted xs \<Longrightarrow> x \<in> set xs \<Longrightarrow> x \<le> last xs"
  by (induction xs) (auto split: if_splits)

lemma last_bin:
  assumes "xs \<noteq> []" and bs: "bs = filter (\<lambda>b. in_bin xs b \<noteq> 0) [0..<40]"
  shows "bs \<noteq> []" and "list_all (\<lambda>y. bin_of y \<le> last bs) xs" and "list_ex (\<lambda>y. bin_of y = last bs) xs"
proof -
  have set: "b \<in> set bs \<longleftrightarrow> b < 40 \<and> in_bin xs b \<noteq> 0" for b by (auto simp: bs)
  have srt: "sorted bs" unfolding bs by (rule sorted_wrt_filter) (simp add: sorted_upt)
  have mem: "bin_of y \<in> set bs" if "y \<in> set xs" for y
    using that unfolding set by (auto simp: in_bin_def bin_of_def filter_empty_conv)
  then show ne: "bs \<noteq> []" using assms(1) by (metis empty_iff hd_in_set list.set(1))
  show "list_all (\<lambda>y. bin_of y \<le> last bs) xs" using mem sorted_last [OF srt] by (auto simp: list_all_iff)
  have "in_bin xs (last bs) \<noteq> 0" using last_in_set [OF ne] set by blast
  then show "list_ex (\<lambda>y. bin_of y = last bs) xs" by (auto simp: in_bin_def list_ex_iff filter_empty_conv)
qed

lemma bin_bounds:
  assumes "bin_of y = b" "b < 39 \<or> y < 40000"
  shows "1000 * b \<le> y \<and> y < 1000 * (b + 1)"
  using assms by (auto simp: bin_of_def min_def split: if_splits)

lemma worst_of_right:
  assumes x: "view_sums x (h1 @ h2)" and q: "view_sums q h1" and i: "x_index x = i"
    and ring: "fresh \<le> int (sp_ring_n a) \<Longrightarrow> ring_lates a fresh i = map int (filter (\<lambda>y. 2000 \<le> y) (lates h2))"
    and small: "list_all (\<lambda>y. y < 40000) (lates h2)"
  shows "worst_right (lates h2) (worst_of a fresh x q (map (\<lambda>b. int (in_bin (lates h2) b)) [0..<40]))"
proof -
  let ?xs = "lates h2"
  define bs where "bs = filter (\<lambda>b. in_bin ?xs b \<noteq> 0) [0..<40]"
  have mx: "x_max_late x = max (int (foldr max (lates h1) 0)) (int (foldr max ?xs 0))" "x_max_late q = int (foldr max (lates h1) 0)"
    using x q by (simp_all add: view_sums_def foldr_max_append del: foldr_append)
  have w: "worst_of a fresh x q (map (\<lambda>b. int (in_bin ?xs b)) [0..<40]) =
      (if x_max_late x > x_max_late q then Exact (x_max_late x)
       else if ring_lates a fresh i \<noteq> [] \<and> fresh \<le> int (sp_ring_n a) then Exact (foldr max (tl (ring_lates a fresh i)) (hd (ring_lates a fresh i)))
       else if bs = [] then No_late else Below (last bs + 1))"
    unfolding worst_of_def Let_def bins_nonempty bs_def [symmetric] i ..
  consider "x_max_late x > x_max_late q" | "x_max_late x \<le> x_max_late q" "ring_lates a fresh i \<noteq> []" "fresh \<le> int (sp_ring_n a)"
    | "x_max_late x \<le> x_max_late q" "ring_lates a fresh i = [] \<or> fresh > int (sp_ring_n a)" by linarith
  then show ?thesis
  proof cases
    case 1
    then have "?xs \<noteq> []" using mx by auto
    then show ?thesis using 1 mx by (auto simp: w worst_right_def)
  next
    case 2
    then have f: "filter (\<lambda>y. 2000 \<le> y) ?xs \<noteq> []" using ring by auto
    then show ?thesis using 2 ring foldr_max_int [OF f] foldr_max_filter [OF f] by (auto simp: w worst_right_def)
  next
    case 3
    then have e: "worst_of a fresh x q (map (\<lambda>b. int (in_bin ?xs b)) [0..<40]) = (if bs = [] then No_late else Below (last bs + 1))"
      by (auto simp: w)
    show ?thesis
    proof (cases "?xs = []")
      case True
      then have "bs = []" by (simp add: bs_def in_bin_Nil)
      then show ?thesis unfolding e worst_right_def using True by simp
    next
      case False
      note lb = last_bin [OF False bs_def]
      have "y < 1000 * (last bs + 1)" if "y \<in> set ?xs" for y
        using lb(2) bin_bounds [of y "bin_of y"] small that by (fastforce simp: list_all_iff)
      moreover have "list_ex (\<lambda>y. 1000 * last bs \<le> y) ?xs" using lb(3) bin_bounds small by (fastforce simp: list_ex_iff list_all_iff)
      ultimately show ?thesis unfolding e worst_right_def using lb(1) False by (simp add: list_all_iff)
    qed
  qed
qed


lemma sd_run_ok: "sd_run s0 h s \<Longrightarrow> \<forall>(b, c) \<in> set h. rec_ok c"
  by (induction rule: sd_run.induct) auto

text \<open>The two readings, and the rows they give.\<close>

lemma two_readings:
  assumes run: "sd_run sd_boot h1 s1" "sd_run s1 h2 s2" "length h1 + length h2 < 2 ^ 32" and i: "i < unat (d_nlev s2)"
  obtains p q where "parse (sd_bytes s1) = Inr p" "parse (sd_bytes s2) = Inr (Parsed (sd_view s2))"
    "pre_of p = (sp_levels (sd_view s1), sp_ring_next (sd_view s1))" "sp_levels (sd_view s2) ! i = level_view i (d_lev s2 ! i)"
    "q = (case dict_of (map (\<lambda>y. (x_tid y, y)) (sp_levels (sd_view s1))) (uint (l_tid (d_lev s2 ! i))) of Some y \<Rightarrow> y
       | None \<Rightarrow> zero_level (level_view i (d_lev s2 ! i)))"
    "view_sums (level_view i (d_lev s2 ! i)) (of_level i h1 @ of_level i h2)" "view_sums q (of_level i h1)"
    "sp_ring_next (sd_view s2) - sp_ring_next (sd_view s1) = int (length (late_recs h2))"
    "sd_inv s2 (h1 @ h2)"
proof -
  have inv1: "sd_inv s1 h1" using sd_run_inv [OF run(1) sd_inv_boot] run(3) by simp
  have inv2: "sd_inv s2 (h1 @ h2)" using sd_run_inv [OF run(2) inv1 run(3)] .
  have live: "sd_live s2" using inv2 i by (auto simp: sd_inv_def)
  obtain p where p: "parse (sd_bytes s1) = Inr p" "pre_of p = (sp_levels (sd_view s1), sp_ring_next (sd_view s1))"
    using reading_pre [OF inv1] by blast
  have "view_sums (level_view i (d_lev s2 ! i)) (of_level i h1 @ of_level i h2)" using inv_sums [OF inv2 i] by simp
  moreover have "sp_ring_next (sd_view s2) - sp_ring_next (sd_view s1) = int (length (late_recs h2))"
    using ring_view_snd(2) [OF inv1] ring_view_snd(2) [OF inv2] uint_nat [of "d_ring_next s1"] uint_nat [of "d_ring_next s2"]
    by (simp only: sd_view_def spin_view.select_convs late_recs_simps length_append)
  moreover have "sp_levels (sd_view s2) ! i = level_view i (d_lev s2 ! i)" using i by (simp add: sd_view_def)
  ultimately show ?thesis
    using that [OF p(1) reading_live [OF inv2 live] p(2)] pre_level [OF inv1 run(2,3) i] inv2 by (simp only: x_tid_view)
qed

lemma act_row:
  assumes "sd_run sd_boot h1 s1" "sd_run s1 h2 s2" "length h1 + length h2 < 2 ^ 32" "i < unat (d_nlev s2)"
  obtains p q g where "parse (sd_bytes s1) = Inr p" "parse (sd_bytes s2) = Inr (Parsed (sd_view s2))"
    "g = seg_row_of (pre_of p) (sd_view s2) (sp_levels (sd_view s2) ! i)"
    "g_spins g = int (length (of_level i h2))" "g_judged g = int (length (lates (of_level i h2)))"
    "g_ms1 g = int (length (filter (\<lambda>y. 1000 \<le> y) (lates (of_level i h2))))"
    "g_late g = int (length (filter (\<lambda>y. 2000 \<le> y) (lates (of_level i h2))))"
    "g_hist g = map (\<lambda>b. int (in_bin (lates (of_level i h2)) b)) [0..<40]"
    "g_worst g = worst_of (sd_view s2) (int (length (late_recs h2))) (level_view i (d_lev s2 ! i)) q (g_hist g)"
    "view_sums (level_view i (d_lev s2 ! i)) (of_level i h1 @ of_level i h2)" "view_sums q (of_level i h1)" "sd_inv s2 (h1 @ h2)"
proof -
  obtain p q where r: "parse (sd_bytes s1) = Inr p" "parse (sd_bytes s2) = Inr (Parsed (sd_view s2))"
    "pre_of p = (sp_levels (sd_view s1), sp_ring_next (sd_view s1))" "sp_levels (sd_view s2) ! i = level_view i (d_lev s2 ! i)"
    and q: "q = (case dict_of (map (\<lambda>y. (x_tid y, y)) (sp_levels (sd_view s1))) (uint (l_tid (d_lev s2 ! i))) of Some y \<Rightarrow> y
       | None \<Rightarrow> zero_level (level_view i (d_lev s2 ! i)))"
    and v: "view_sums (level_view i (d_lev s2 ! i)) (of_level i h1 @ of_level i h2)" "view_sums q (of_level i h1)"
    and n: "sp_ring_next (sd_view s2) - sp_ring_next (sd_view s1) = int (length (late_recs h2))"
    and inv: "sd_inv s2 (h1 @ h2)"
    by (rule two_readings [OF assms])
  define g where "g = seg_row_of (pre_of p) (sd_view s2) (sp_levels (sd_view s2) ! i)"
  have g: "g = seg_row_of (sp_levels (sd_view s1), sp_ring_next (sd_view s1)) (sd_view s2) (level_view i (d_lev s2 ! i))"
    by (simp only: g_def r(3,4))
  note c = row_counts [OF v(1), where n = "sp_ring_next (sd_view s1)" and a = "sd_view s2" and ls = "sp_levels (sd_view s1)",
    unfolded x_tid_view, folded q, OF v(2), folded g]
  have "g_worst g = worst_of (sd_view s2) (int (length (late_recs h2))) (level_view i (d_lev s2 ! i)) q (g_hist g)"
    unfolding g seg_row_of_def Let_def x_tid_view q [symmetric] fst_conv snd_conv n by simp
  then show thesis by (rule that [OF r(1,2) g_def c(1,2,5,3,4) _ v inv])
qed

section \<open>Properties\<close>

text \<open>A reading of the diagnostics, taken anywhere in a run with a level, decodes to the struct the firmware holds: every level's counters and histogram are those of its filed intervals, and the ring lists the last 48 late intervals in the order they were filed.\<close>

theorem spin_reading_exact:
  assumes "sd_run sd_boot h s" "length h < 2 ^ 32" "0 < d_nlev s"
  shows "parse (sd_bytes s) = Inr (Parsed (sd_view s))
    \<and> map snd (sp_ring (sd_view s)) = map rec_view (drop (length (late_recs h) - 48) (late_recs h))
    \<and> list_all (\<lambda>x. view_sums x (of_level (x_index x) h)) (sp_levels (sd_view s))"
proof -
  have inv: "sd_inv s h" using sd_run_inv [OF assms(1) sd_inv_boot] assms(2) by simp
  have "sd_live s" using inv assms(3) by (auto simp: sd_inv_def)
  then show ?thesis
    using reading_live [OF inv] ring_view_snd(1) [OF inv] inv_sums [OF inv] by (simp add: list_all_length) (simp add: sd_view_def)
qed

text \<open>C27. The act segment of two readings counts, for every level, exactly the intervals filed between them: spins, judged intervals, those at least 1 ms and at least 2 ms late, and the histogram, also for a level that first spun in the act and for a first reading before any spin.\<close>

theorem segment_counts_act:
  assumes "sd_run sd_boot h1 s1" "sd_run s1 h2 s2" "length h1 + length h2 < 2 ^ 32" "i < unat (d_nlev s2)"
  shows "\<exists>p a. parse (sd_bytes s1) = Inr p \<and> parse (sd_bytes s2) = Inr (Parsed a)
    \<and> segment (sd_bytes s1) (sd_bytes s2) = Inr (segment_text (pre_of p) a)
    \<and> (let g = seg_row_of (pre_of p) a (sp_levels a ! i); act = of_level i h2; xs = lates act
       in g_spins g = int (length act) \<and> g_judged g = int (length xs)
        \<and> g_ms1 g = int (length (filter (\<lambda>y. 1000 \<le> y) xs)) \<and> g_late g = int (length (filter (\<lambda>y. 2000 \<le> y) xs))
        \<and> g_hist g = map (\<lambda>b. int (in_bin xs b)) [0..<40])"
proof (rule act_row [OF assms])
  fix p q g
  assume r: "parse (sd_bytes s1) = Inr p" "parse (sd_bytes s2) = Inr (Parsed (sd_view s2))"
    and g: "g = seg_row_of (pre_of p) (sd_view s2) (sp_levels (sd_view s2) ! i)"
    and c: "g_spins g = int (length (of_level i h2))" "g_judged g = int (length (lates (of_level i h2)))"
      "g_ms1 g = int (length (filter (\<lambda>y. 1000 \<le> y) (lates (of_level i h2))))"
      "g_late g = int (length (filter (\<lambda>y. 2000 \<le> y) (lates (of_level i h2))))"
      "g_hist g = map (\<lambda>b. int (in_bin (lates (of_level i h2)) b)) [0..<40]"
  have "segment (sd_bytes s1) (sd_bytes s2) = Inr (segment_text (pre_of p) (sd_view s2))" by (simp add: segment_def r)
  then show ?thesis unfolding Let_def using r c g by blast
qed

text \<open>The worst column of the act segment is right when no interval of the act is 40 ms late or more: an exact value is the act's maximum, ``<k ms'' bounds every lateness of the act and is reached within a millisecond, and ``-'' means that no interval was judged.\<close>

theorem segment_worst_exact:
  assumes "sd_run sd_boot h1 s1" "sd_run s1 h2 s2" "length h1 + length h2 < 2 ^ 32" "i < unat (d_nlev s2)"
    and "list_all (\<lambda>y. y < 40000) (lates (of_level i h2))"
  shows "\<exists>p a. parse (sd_bytes s1) = Inr p \<and> parse (sd_bytes s2) = Inr (Parsed a)
    \<and> worst_right (lates (of_level i h2)) (g_worst (seg_row_of (pre_of p) a (sp_levels a ! i)))"
proof (rule act_row [OF assms(1-4)])
  fix p q g
  assume r: "parse (sd_bytes s1) = Inr p" "parse (sd_bytes s2) = Inr (Parsed (sd_view s2))"
    and g: "g = seg_row_of (pre_of p) (sd_view s2) (sp_levels (sd_view s2) ! i)"
    and h: "g_hist g = map (\<lambda>b. int (in_bin (lates (of_level i h2)) b)) [0..<40]"
    and w: "g_worst g = worst_of (sd_view s2) (int (length (late_recs h2))) (level_view i (d_lev s2 ! i)) q (g_hist g)"
    and v: "view_sums (level_view i (d_lev s2 ! i)) (of_level i h1 @ of_level i h2)" "view_sums q (of_level i h1)"
    and inv: "sd_inv s2 (h1 @ h2)"
  have "worst_right (lates (of_level i h2)) (g_worst g)"
    unfolding w h using ring_lates_act [OF inv sd_run_ok [OF assms(2)]] assms(5)
    by (intro worst_of_right [OF v]) (simp_all add: sd_view_def)
  then show ?thesis using r g by blast
qed

text \<open>The last histogram bin is open, and the worst column does not know it: when the ring has wrapped in the act and the boot maximum did not move, a lateness of 39 ms or more prints as ``<40ms'', however late it was.\<close>

theorem segment_worst_open_bin:
  assumes "sd_run sd_boot h1 s1" "sd_run s1 h2 s2" "length h1 + length h2 < 2 ^ 32" "i < unat (d_nlev s2)"
    and "48 < length (late_recs h2)" "list_ex (\<lambda>y. 39000 \<le> y) (lates (of_level i h2))"
    and "foldr max (lates (of_level i h2)) 0 \<le> foldr max (lates (of_level i h1)) 0"
  shows "\<exists>p a. parse (sd_bytes s1) = Inr p \<and> parse (sd_bytes s2) = Inr (Parsed a)
    \<and> worst_text (g_worst (seg_row_of (pre_of p) a (sp_levels a ! i))) = ''<40ms''"
proof (rule act_row [OF assms(1-4)])
  fix p q g
  assume r: "parse (sd_bytes s1) = Inr p" "parse (sd_bytes s2) = Inr (Parsed (sd_view s2))"
    and g: "g = seg_row_of (pre_of p) (sd_view s2) (sp_levels (sd_view s2) ! i)"
    and h: "g_hist g = map (\<lambda>b. int (in_bin (lates (of_level i h2)) b)) [0..<40]"
    and w: "g_worst g = worst_of (sd_view s2) (int (length (late_recs h2))) (level_view i (d_lev s2 ! i)) q (g_hist g)"
    and v: "view_sums (level_view i (d_lev s2 ! i)) (of_level i h1 @ of_level i h2)" "view_sums q (of_level i h1)"
  define bs where "bs = filter (\<lambda>b. in_bin (lates (of_level i h2)) b \<noteq> 0) [0..<40]"
  obtain y where y: "y \<in> set (lates (of_level i h2))" "39000 \<le> y" using assms(6) by (auto simp: list_ex_iff)
  then have ne: "lates (of_level i h2) \<noteq> []" by auto
  have "bin_of y = 39" using y(2) by (simp add: bin_of_def)
  then have "39 \<le> last bs" using last_bin(2) [OF ne bs_def] y(1) by (auto simp: list_all_iff)
  moreover have "last bs \<le> 39" using last_bin(3) [OF ne bs_def] by (auto simp: list_ex_iff bin_of_def)
  ultimately have l: "last bs = 39" by simp
  have mx: "\<not> x_max_late (level_view i (d_lev s2 ! i)) > x_max_late q"
    using v assms(7) by (simp add: view_sums_def foldr_max_append del: foldr_append)
  have "g_worst g = Below 40"
    unfolding w h worst_of_def Let_def bins_nonempty bs_def [symmetric]
    using mx assms(5) last_bin(1) [OF ne bs_def] l by (simp add: sd_view_def)
  moreover have "dec_nat 40 = ''40''" by code_simp
  ultimately have "worst_text (g_worst g) = ''<40ms''" by (simp add: worst_text_def)
  then show ?thesis using r g by blast
qed


text \<open>A level that spins: one interval before the act, others in it.\<close>

definition demo_level :: sdiag where
  "demo_level = sd_register 0x20001000 5 (Some (ascii_encode ''derived-a'')) sd_boot"

definition demo_spin :: "u32 \<Rightarrow> u32 \<Rightarrow> sd_rec" where
  "demo_spin interval bound = rec_zero\<lparr>r_interval_us := interval, r_park_bound_us := bound\<rparr>"

lemma demo_level_run: "sd_run sd_boot [] demo_level"
  unfolding demo_level_def by (rule sd_run.level [OF sd_run.start]) (simp add: sd_work_of_def sd_boot_def)

lemma demo_level_nlev: "d_nlev demo_level = 1"
  by (simp add: demo_level_def sd_register_def sd_magic_set_def sd_boot_def SD_LEVELS_def Let_def)

lemma sd_run_spins:
  assumes "sd_run s0 h s" "d_nlev s = 1" "list_all (\<lambda>(b, c). r_level c = 0 \<and> rec_ok c) xs"
  shows "sd_run s0 (h @ xs) (foldl (\<lambda>s (b, c). sd_file b c s) s xs) \<and> d_nlev (foldl (\<lambda>s (b, c). sd_file b c s) s xs) = 1"
  using assms
proof (induction xs arbitrary: h s)
  case (Cons x xs)
  obtain b c where x: "x = (b, c)" by (cases x)
  have "sd_run s0 (h @ [(b, c)]) (sd_file b c s)" using Cons.prems by (intro sd_run.spin) (simp_all add: x)
  then show ?case using Cons.IH [of "h @ [(b, c)]" "sd_file b c s"] Cons.prems by (simp add: x sd_file_sel)
qed simp

lemma demo_spin_ok: "r_level (demo_spin i b) = 0 \<and> rec_ok (demo_spin i b)"
  using zero_ok(1) by (simp add: demo_spin_def rec_ok_def rec_zero_def)

definition demo_filed :: "(bool \<times> sd_rec) list \<Rightarrow> sdiag \<Rightarrow> sdiag" where
  "demo_filed xs s = foldl (\<lambda>s (b, c). sd_file b c s) s xs"

abbreviation demo_pre :: "(bool \<times> sd_rec) list" where "demo_pre \<equiv> [(True, demo_spin 80000 30000)]"
abbreviation demo_act :: "(bool \<times> sd_rec) list" where "demo_act \<equiv> [(True, demo_spin 31000 30000), (False, demo_spin 500 0), (True, demo_spin 33600 30000)]"
definition demo_storm :: "(bool \<times> sd_rec) list" where "demo_storm = replicate 49 (True, demo_spin 75000 30000)"

lemma demo_runs:
  "sd_run sd_boot demo_pre (demo_filed demo_pre demo_level)" "d_nlev (demo_filed demo_pre demo_level) = 1"
  "sd_run (demo_filed demo_pre demo_level) demo_act (demo_filed demo_act (demo_filed demo_pre demo_level))"
  "d_nlev (demo_filed demo_act (demo_filed demo_pre demo_level)) = 1"
  "sd_run (demo_filed demo_pre demo_level) demo_storm (demo_filed demo_storm (demo_filed demo_pre demo_level))"
  "d_nlev (demo_filed demo_storm (demo_filed demo_pre demo_level)) = 1"
proof -
  have all: "list_all (\<lambda>(b, c). r_level c = 0 \<and> rec_ok c) demo_pre" "list_all (\<lambda>(b, c). r_level c = 0 \<and> rec_ok c) demo_act"
    "list_all (\<lambda>(b, c). r_level c = 0 \<and> rec_ok c) demo_storm"
    using demo_spin_ok by (simp_all add: list_all_iff demo_storm_def)
  show a: "sd_run sd_boot demo_pre (demo_filed demo_pre demo_level)" "d_nlev (demo_filed demo_pre demo_level) = 1"
    using sd_run_spins [OF demo_level_run demo_level_nlev all(1)] by (simp_all add: demo_filed_def)
  show "sd_run (demo_filed demo_pre demo_level) demo_act (demo_filed demo_act (demo_filed demo_pre demo_level))"
    "d_nlev (demo_filed demo_act (demo_filed demo_pre demo_level)) = 1"
    using sd_run_spins [OF sd_run.start a(2) all(2)] unfolding demo_filed_def [symmetric] by simp_all
  show "sd_run (demo_filed demo_pre demo_level) demo_storm (demo_filed demo_storm (demo_filed demo_pre demo_level))"
    "d_nlev (demo_filed demo_storm (demo_filed demo_pre demo_level)) = 1"
    using sd_run_spins [OF sd_run.start a(2) all(3)] unfolding demo_filed_def [symmetric] by simp_all
qed

lemma foldr_max_replicate: "foldr max (replicate (Suc n) x) 0 = (x :: nat)"
  by (induction n) simp_all

lemma demo_late: "late_n (demo_spin i b) = unat i - unat b" "unat (r_level (demo_spin i b)) = 0"
  by (simp_all add: late_n_def demo_spin_def rec_zero_def)

theorem spin_reading_exact_witness:
  "let h = demo_pre @ demo_act; s = demo_filed demo_act (demo_filed demo_pre demo_level)
   in parse (sd_bytes s) = Inr (Parsed (sd_view s)) \<and> length (sp_ring (sd_view s)) = 2"
proof -
  have "sd_run sd_boot (demo_pre @ demo_act) (demo_filed demo_act (demo_filed demo_pre demo_level))"
    using sd_run_spins [OF demo_runs(1,2), of demo_act] demo_spin_ok by (simp add: demo_filed_def [of demo_act])
  from spin_reading_exact [OF this] demo_runs(4)
  have r: "parse (sd_bytes (demo_filed demo_act (demo_filed demo_pre demo_level))) = Inr (Parsed (sd_view (demo_filed demo_act (demo_filed demo_pre demo_level))))"
    "map snd (sp_ring (sd_view (demo_filed demo_act (demo_filed demo_pre demo_level)))) = map rec_view (drop (length (late_recs (demo_pre @ demo_act)) - 48) (late_recs (demo_pre @ demo_act)))"
    by (simp_all)
  from arg_cong [OF r(2), of length] r(1) show ?thesis by (simp add: late_recs_def demo_late)
qed

theorem segment_counts_act_witness:
  "let s1 = demo_filed demo_pre demo_level; s2 = demo_filed demo_act s1
   in \<exists>p a. parse (sd_bytes s1) = Inr p \<and> parse (sd_bytes s2) = Inr (Parsed a)
        \<and> g_spins (seg_row_of (pre_of p) a (sp_levels a ! 0)) = 3 \<and> g_judged (seg_row_of (pre_of p) a (sp_levels a ! 0)) = 2
        \<and> g_ms1 (seg_row_of (pre_of p) a (sp_levels a ! 0)) = 2 \<and> g_late (seg_row_of (pre_of p) a (sp_levels a ! 0)) = 1"
  using segment_counts_act [OF demo_runs(1,3), of 0] demo_runs(4) by (auto simp: Let_def of_level_def lates_def demo_late)

theorem segment_worst_exact_witness:
  "let s1 = demo_filed demo_pre demo_level; s2 = demo_filed demo_act s1
   in \<exists>p a. parse (sd_bytes s1) = Inr p \<and> parse (sd_bytes s2) = Inr (Parsed a)
        \<and> worst_right [1000, 3600] (g_worst (seg_row_of (pre_of p) a (sp_levels a ! 0)))"
  using segment_worst_exact [OF demo_runs(1,3), of 0] demo_runs(4) by (simp add: Let_def of_level_def lates_def demo_late)

theorem segment_worst_open_bin_witness:
  "let s1 = demo_filed demo_pre demo_level; s2 = demo_filed demo_storm s1
   in foldr max (lates (of_level 0 demo_storm)) 0 = 45000
    \<and> (\<exists>p a. parse (sd_bytes s1) = Inr p \<and> parse (sd_bytes s2) = Inr (Parsed a)
        \<and> worst_text (g_worst (seg_row_of (pre_of p) a (sp_levels a ! 0))) = ''<40ms'')"
proof -
  have l: "lates (of_level 0 demo_storm) = replicate 49 45000" "length (late_recs demo_storm) = 49"
    "lates (of_level 0 demo_pre) = [50000]" "length demo_storm = 49"
    by (simp_all add: lates_def of_level_def late_recs_def demo_late demo_storm_def)
  have m: "foldr max (lates (of_level 0 demo_storm)) 0 = 45000" "list_ex (\<lambda>y. 39000 \<le> y) (lates (of_level 0 demo_storm))"
    unfolding l(1) using foldr_max_replicate [of 48 45000] by (simp_all add: list_ex_iff)
  have "\<exists>p a. parse (sd_bytes (demo_filed demo_pre demo_level)) = Inr p
      \<and> parse (sd_bytes (demo_filed demo_storm (demo_filed demo_pre demo_level))) = Inr (Parsed a)
      \<and> worst_text (g_worst (seg_row_of (pre_of p) a (sp_levels a ! 0))) = ''<40ms''"
  proof (rule segment_worst_open_bin [OF demo_runs(1,5)])
    show "length demo_pre + length demo_storm < 2 ^ 32" unfolding l(4) by simp
    show "0 < unat (d_nlev (demo_filed demo_storm (demo_filed demo_pre demo_level)))" unfolding demo_runs(6) by simp
    show "48 < length (late_recs demo_storm)" unfolding l(2) by simp
    show "foldr max (lates (of_level 0 demo_storm)) 0 \<le> foldr max (lates (of_level 0 demo_pre)) 0" unfolding m(1) l(3) by simp
  qed (rule m(2))
  then show ?thesis unfolding Let_def using m(1) by simp
qed

end
