(* ===== verification/Lock_Holds.thy ===== *)
theory Lock_Holds
  imports Lock_Probe
begin

text \<open>The firmware side of the lock probe, \<^verbatim>\<open>src/zephyr_entry/src/island_lock_probe.c\<close>: the record, the wrapped lock
  and unlock, the benches, the stack scan and the level passes; and what a reading of the record says about a run of the
  executor: for each of the first four threads that held the lock, its holds and waits.\<close>

section \<open>The record\<close>

record lp_bench =
  lb_min :: u32
  lb_avg :: u32
  lb_max :: u32

record lp_holder =
  lh_tid :: u32
  lh_prio :: u32          \<comment> \<open>\<open>int32_t\<close>, by its bits\<close>
  lh_name :: bytes
  lh_holds :: u32
  lh_hold_max :: u32
  lh_hold_max_ms :: u32
  lh_steady_max :: u32
  lh_steady_max_ms :: u32
  lh_sum_lo :: u32
  lh_sum_hi :: u32
  lh_wait_max :: u32
  lh_steady_wait :: u32
  lh_waits5 :: u32
  lh_bucket :: "u32 list"

record lp_stack =
  ls_name :: bytes
  ls_size :: u32
  ls_used_max :: u32

record lp_level =
  ll_tid :: u32
  ll_name :: bytes
  ll_size :: u32
  ll_setup :: u32
  ll_entry :: u32
  ll_steady :: u32
  ll_passes :: u32
  ll_scans :: u32

record lock_probe =
  lp_magic :: u32
  lp_hz :: u32
  lp_n :: u32
  lp_empty :: u32
  lp_bench :: "lp_bench list"      \<comment> \<open>\<open>kmutex_pair\<close>, \<open>kmutex_nested\<close>, \<open>rec_pair\<close>, \<open>exec_pair\<close>\<close>
  lp_installed :: u32
  lp_overflow :: u32
  lp_depth_errors :: u32
  lp_steady_ms :: u32
  lp_scans :: u32
  lp_holder :: "lp_holder list"
  lp_stack :: "lp_stack list"
  lp_level_magic :: u32
  lp_level :: "lp_level list"

definition name0 :: bytes where "name0 = replicate 16 0"

definition bench_zero :: lp_bench where
  "bench_zero = \<lparr>lb_min = 0, lb_avg = 0, lb_max = 0\<rparr>"

definition holder_zero :: lp_holder where
  "holder_zero = \<lparr>lh_tid = 0, lh_prio = 0, lh_name = name0, lh_holds = 0, lh_hold_max = 0, lh_hold_max_ms = 0, lh_steady_max = 0,
     lh_steady_max_ms = 0, lh_sum_lo = 0, lh_sum_hi = 0, lh_wait_max = 0, lh_steady_wait = 0, lh_waits5 = 0,
     lh_bucket = replicate 8 0\<rparr>"

definition lp_zero :: lock_probe where
  "lp_zero = \<lparr>lp_magic = 0, lp_hz = 0, lp_n = 0, lp_empty = 0, lp_bench = replicate 4 bench_zero, lp_installed = 0,
     lp_overflow = 0, lp_depth_errors = 0, lp_steady_ms = 0, lp_scans = 0, lp_holder = replicate 4 holder_zero,
     lp_stack = replicate 16 \<lparr>ls_name = name0, ls_size = 0, ls_used_max = 0\<rparr>, lp_level_magic = 0,
     lp_level = replicate 4 \<lparr>ll_tid = 0, ll_name = name0, ll_size = 0, ll_setup = 0, ll_entry = 0, ll_steady = 0, ll_passes = 0,
       ll_scans = 0\<rparr>\<rparr>"

definition bench_bytes :: "lp_bench \<Rightarrow> bytes" where
  "bench_bytes b = pack_u32s (map uint [lb_min b, lb_avg b, lb_max b])"

definition holder_bytes :: "lp_holder \<Rightarrow> bytes" where
  "holder_bytes h = pack_u32s (map uint [lh_tid h]) @ pack_u32s (map uint [lh_prio h]) @ lh_name h
     @ pack_u32s (map uint ([lh_holds h, lh_hold_max h, lh_hold_max_ms h, lh_steady_max h, lh_steady_max_ms h, lh_sum_lo h,
         lh_sum_hi h, lh_wait_max h, lh_steady_wait h, lh_waits5 h] @ lh_bucket h))"

definition stack_bytes :: "lp_stack \<Rightarrow> bytes" where
  "stack_bytes s = ls_name s @ pack_u32s (map uint [ls_size s, ls_used_max s])"

definition frame_bytes :: "lp_level \<Rightarrow> bytes" where
  "frame_bytes l = pack_u32s (map uint [ll_tid l]) @ ll_name l
     @ pack_u32s (map uint [ll_size l, ll_setup l, ll_entry l, ll_steady l, ll_passes l, ll_scans l])"

definition lp_bytes :: "lock_probe \<Rightarrow> bytes" where
  "lp_bytes r = pack_u32s (map uint [lp_magic r, lp_hz r, lp_n r, lp_empty r]) @ concat (map bench_bytes (lp_bench r))
     @ pack_u32s (map uint [lp_installed r, lp_overflow r, lp_depth_errors r, lp_steady_ms r, lp_scans r])
     @ concat (map holder_bytes (lp_holder r)) @ concat (map stack_bytes (lp_stack r))
     @ pack_u32s (map uint [lp_level_magic r]) @ concat (map frame_bytes (lp_level r))"

section \<open>The cost at boot\<close>

definition lp_net :: "u32 \<Rightarrow> u32 \<Rightarrow> u32" where
  "lp_net d emp = (if d > emp then d - emp else 0)"

definition lp_fold :: "u32 \<Rightarrow> lp_bench \<times> 64 word \<Rightarrow> lp_bench \<times> 64 word" where
  "lp_fold d bs =
     (let b = fst bs; b1 = (if d < lb_min b then b\<lparr>lb_min := d\<rparr> else b);
          b2 = (if d > lb_max b1 then b1\<lparr>lb_max := d\<rparr> else b1)
      in (b2, snd bs + ucast d))"

text \<open>A loop of pairs, by the cycles \<open>cyc() - t0\<close> each took, and the average stored after it.\<close>

definition lp_pairs :: "u32 \<Rightarrow> u32 list \<Rightarrow> lp_bench" where
  "lp_pairs emp ds =
     (let (b, sum) = fold (\<lambda>d. lp_fold (lp_net d emp)) ds (bench_zero\<lparr>lb_min := 0xFFFFFFFF\<rparr>, 0)
      in b\<lparr>lb_avg := ucast (sum div 1000)\<rparr>)"

text \<open>\<open>rec\<close> and \<open>exec\<close> are \<open>None\<close> when the lock's storage does not fit or its \<open>init\<close> fails (or, for \<open>exec\<close>, it is not
  linked).\<close>

definition island_lock_probe_bench ::
    "u32 \<Rightarrow> u32 \<Rightarrow> u32 list \<Rightarrow> u32 list \<Rightarrow> u32 list \<Rightarrow> u32 list option \<Rightarrow> u32 list option \<Rightarrow> lock_probe \<Rightarrow> lock_probe" where
  "island_lock_probe_bench cfg hz es pair nested rec exec r =
     (let emp = fold (\<lambda>e m. if e < m then e else m) es 0xFFFFFFFF
      in r\<lparr>lp_hz := hz, lp_n := 1000, lp_steady_ms := cfg, lp_empty := emp,
           lp_bench := [lp_pairs emp pair, lp_pairs emp nested,
             lp_pairs emp (case rec of None \<Rightarrow> [] | Some ds \<Rightarrow> ds),
             (case exec of None \<Rightarrow> bench_zero | Some ds \<Rightarrow> lp_pairs emp ds)],
           lp_magic := 0x4C4B5052\<rparr>)"

section \<open>The lock, held\<close>

definition lp_edge_us :: "u32 list" where "lp_edge_us = [2, 5, 10, 50, 100, 500, 1000]"

definition lp_strncpy :: "bytes \<Rightarrow> bytes \<Rightarrow> bytes" where   \<comment> \<open>\<open>strncpy(dst, src, sizeof(dst) - 1)\<close>\<close>
  "lp_strncpy src dst = (let n = takeWhile (\<lambda>c. c \<noteq> 0) (take 15 src) in n @ replicate (15 - length n) 0 @ drop 15 dst)"

record lp_state =
  p_rec :: lock_probe
  p_depth :: u32
  p_start :: u32
  p_owner :: "nat option"

definition upd_holder :: "nat \<Rightarrow> (lp_holder \<Rightarrow> lp_holder) \<Rightarrow> lock_probe \<Rightarrow> lock_probe" where
  "upd_holder i f r = r\<lparr>lp_holder := (lp_holder r)[i := f (lp_holder r ! i)]\<rparr>"

definition lp_holder_of :: "u32 \<Rightarrow> u32 \<Rightarrow> bytes option \<Rightarrow> lock_probe \<Rightarrow> lock_probe \<times> nat option" where
  "lp_holder_of t prio nm r =
     (case List.find (\<lambda>i. lh_tid (lp_holder r ! i) = t \<or> lh_tid (lp_holder r ! i) = 0) [0..<4] of
        None \<Rightarrow> (r\<lparr>lp_overflow := lp_overflow r + 1\<rparr>, None)
      | Some i \<Rightarrow>
          (if lh_tid (lp_holder r ! i) = t then r
           else upd_holder i (\<lambda>h. h\<lparr>lh_tid := t, lh_prio := prio,
                  lh_name := (case nm of None \<Rightarrow> lh_name h | Some n \<Rightarrow> lp_strncpy n (lh_name h))\<rparr>) r, Some i))"

definition per_us :: "u32 \<Rightarrow> u32" where "per_us hz = hz div 1000000"

definition took :: "u32 \<Rightarrow> u32 \<Rightarrow> u32 \<Rightarrow> u32 \<Rightarrow> bytes option \<Rightarrow> u32 \<Rightarrow> lp_holder \<Rightarrow> lp_holder" where
  "took cfg hz w prio nm up h =
     h\<lparr>lh_name := (case nm of Some n \<Rightarrow> if lh_name h ! 0 = 0 then lp_strncpy n (lh_name h) else lh_name h | None \<Rightarrow> lh_name h),
       lh_prio := prio,
       lh_wait_max := (if w > lh_wait_max h then w else lh_wait_max h),
       lh_steady_wait := (if up \<ge> cfg \<and> w > lh_steady_wait h then w else lh_steady_wait h),
       lh_waits5 := (if w > 5 * per_us hz then lh_waits5 h + 1 else lh_waits5 h)\<rparr>"

definition lp_bin :: "u32 \<Rightarrow> u32 \<Rightarrow> nat" where
  "lp_bin hz d = length (takeWhile (\<lambda>e. d \<ge> e * per_us hz) lp_edge_us)"

definition gave :: "u32 \<Rightarrow> u32 \<Rightarrow> u32 \<Rightarrow> u32 \<Rightarrow> lp_holder \<Rightarrow> lp_holder" where
  "gave cfg hz d now h =
     (let sum = (push_bit 32 (ucast (lh_sum_hi h)) OR ucast (lh_sum_lo h) :: 64 word) + ucast d;
          b = lp_bin hz d
      in h\<lparr>lh_holds := lh_holds h + 1, lh_sum_lo := ucast sum, lh_sum_hi := ucast (drop_bit 32 sum),
           lh_hold_max := (if d > lh_hold_max h then d else lh_hold_max h),
           lh_hold_max_ms := (if d > lh_hold_max h then now else lh_hold_max_ms h),
           lh_steady_max := (if now \<ge> cfg \<and> d > lh_steady_max h then d else lh_steady_max h),
           lh_steady_max_ms := (if now \<ge> cfg \<and> d > lh_steady_max h then now else lh_steady_max_ms h),
           lh_bucket := (lh_bucket h)[b := lh_bucket h ! b + 1]\<rparr>)"

text \<open>\<open>rc\<close> is what the wrapped lock returned, \<open>t0\<close>, \<open>t1\<close> and \<open>t2\<close> the cycles before it, after it and at \<open>lp_start\<close>.\<close>

definition lp_lock :: "u32 \<Rightarrow> int \<Rightarrow> u32 \<times> u32 \<times> u32 \<Rightarrow> u32 \<Rightarrow> u32 \<Rightarrow> bytes option \<Rightarrow> u32 \<Rightarrow> lp_state \<Rightarrow> lp_state" where
  "lp_lock cfg rc cycs t prio nm up s =
     (let (t0, t1, t2) = cycs in
      if rc \<noteq> 0 then s
      else if p_depth s = 0 then
        (let (r, h) = lp_holder_of t prio nm (p_rec s)
         in s\<lparr>p_depth := 1, p_owner := h, p_start := t2,
              p_rec := (case h of None \<Rightarrow> r | Some i \<Rightarrow> upd_holder i (took cfg (lp_hz r) (t1 - t0) prio nm up) r)\<rparr>)
      else s\<lparr>p_depth := p_depth s + 1\<rparr>)"

definition lp_unlock :: "u32 \<Rightarrow> u32 \<Rightarrow> u32 \<Rightarrow> lp_state \<Rightarrow> lp_state" where
  "lp_unlock cfg c now s =
     (if p_depth s = 0 then s\<lparr>p_rec := (p_rec s)\<lparr>lp_depth_errors := lp_depth_errors (p_rec s) + 1\<rparr>\<rparr>
      else
        (let s1 = s\<lparr>p_depth := p_depth s - 1\<rparr>
         in if p_depth s1 \<noteq> 0 then s1
            else (case p_owner s of
                    None \<Rightarrow> s1
                  | Some i \<Rightarrow> s1\<lparr>p_rec := upd_holder i (gave cfg (lp_hz (p_rec s)) (c - p_start s) now) (p_rec s), p_owner := None\<rparr>)))"

definition wrap_set_lock :: "lock_probe \<Rightarrow> lock_probe" where
  "wrap_set_lock r = r\<lparr>lp_installed := 1\<rparr>"

section \<open>Stacks and level frames\<close>

definition strn15 :: "bytes \<Rightarrow> bytes" where   \<comment> \<open>what \<open>strncmp(a, b, 15)\<close> compares\<close>
  "strn15 a = takeWhile (\<lambda>c. c \<noteq> 0) (take 15 a)"

definition lp_stack_cb :: "bytes \<times> u32 \<times> u32 \<Rightarrow> lock_probe \<Rightarrow> lock_probe" where
  "lp_stack_cb info r =
     (let (name, sz, used) = info in
      case List.find (\<lambda>i. ls_name (lp_stack r ! i) ! 0 = 0 \<or> strn15 (ls_name (lp_stack r ! i)) = strn15 name) [0..<16] of
        None \<Rightarrow> r
      | Some i \<Rightarrow>
          (let s = lp_stack r ! i; n = (if ls_name s ! 0 = 0 then lp_strncpy name (ls_name s) else ls_name s)
           in r\<lparr>lp_stack := (lp_stack r)[i := \<lparr>ls_name = n, ls_size = sz, ls_used_max = (if used > ls_used_max s then used else ls_used_max s)\<rparr>]\<rparr>))"

definition lp_level_of :: "u32 \<Rightarrow> lock_probe \<Rightarrow> (nat \<times> bool) option" where
  "lp_level_of t r =
     map_option (\<lambda>i. (i, ll_tid (lp_level r ! i) \<noteq> t))
       (List.find (\<lambda>i. ll_tid (lp_level r ! i) = t \<or> ll_tid (lp_level r ! i) = 0) [0..<4])"

text \<open>\<open>unused\<close> is \<open>k_thread_stack_space_get\<close>'s answer, \<open>depth\<close> the bytes between the stack's end and \<open>sp\<close>. The repainted
  stack is memory outside the record.\<close>

definition island_lock_probe_level_pass :: "u32 \<Rightarrow> bytes option \<Rightarrow> u32 \<Rightarrow> u32 option \<Rightarrow> u32 \<Rightarrow> lock_probe \<Rightarrow> lock_probe" where
  "island_lock_probe_level_pass t nm sz unused depth r =
     (case lp_level_of t r of
        None \<Rightarrow> r
      | Some (i, first) \<Rightarrow>
          (let l = lp_level r ! i;
               l1 = (if first then l\<lparr>ll_tid := t, ll_name := (case nm of None \<Rightarrow> ll_name l | Some n \<Rightarrow> lp_strncpy n (ll_name l)), ll_size := sz,
                       ll_setup := (case unused of None \<Rightarrow> ll_setup l | Some u \<Rightarrow> sz - u), ll_entry := depth\<rparr> else l)
           in r\<lparr>lp_level := (lp_level r)[i := l1\<lparr>ll_passes := ll_passes l1 + 1\<rparr>],
                lp_level_magic := (if first then 0x4C564C46 else lp_level_magic r)\<rparr>))"

definition lp_level_scan :: "(u32 \<Rightarrow> u32 option) \<Rightarrow> lock_probe \<Rightarrow> lock_probe" where
  "lp_level_scan space r =
     r\<lparr>lp_level := map (\<lambda>l. if ll_tid l = 0 \<or> ll_passes l = 0 then l
         else l\<lparr>ll_steady := (case space (ll_tid l) of None \<Rightarrow> ll_steady l
                                | Some u \<Rightarrow> if ll_size l - u > ll_steady l then ll_size l - u else ll_steady l),
                ll_scans := ll_scans l + 1\<rparr>) (lp_level r)\<rparr>"

definition lp_stack_thread :: "(bytes \<times> u32 \<times> u32) list \<Rightarrow> (u32 \<Rightarrow> u32 option) \<Rightarrow> lock_probe \<Rightarrow> lock_probe" where
  \<comment> \<open>one turn of the loop: \<open>infos\<close> are the threads the analyzer reports\<close>
  "lp_stack_thread infos space r =
     (let r1 = lp_level_scan space (fold lp_stack_cb infos r) in r1\<lparr>lp_scans := lp_scans r1 + 1\<rparr>)"

section \<open>A run of the executor\<close>

text \<open>What happens to the lock: a thread takes it free after waiting \<open>w\<close> cycles, gives it up after holding it \<open>d\<close> cycles,
  or an unlock finds it free.\<close>

datatype lp_event = Taken u32 u32 u32 | Given u32 u32 u32 | Stray

text \<open>\<open>m\<close> is the wrapped lock: its owner, how often the owner holds it, and when it was taken. The records of the scan
  thread and of the level passes are written beside it.\<close>

inductive lp_run :: "u32 \<Rightarrow> lp_state \<Rightarrow> lp_event list \<Rightarrow> (u32 \<times> nat \<times> u32) option \<Rightarrow> lp_state \<Rightarrow> bool" for cfg s0 where
  boot: "lp_run cfg s0 [] None s0"
| fails: "lp_run cfg s0 h m s \<Longrightarrow> rc \<noteq> 0 \<Longrightarrow> lp_run cfg s0 h m (lp_lock cfg rc cycs t prio nm up s)"
| take: "lp_run cfg s0 h None s \<Longrightarrow> t \<noteq> 0
     \<Longrightarrow> lp_run cfg s0 (h @ [Taken t (t1 - t0) up]) (Some (t, 1, t2)) (lp_lock cfg 0 (t0, t1, t2) t prio nm up s)"
| nest: "lp_run cfg s0 h (Some (t, n, st)) s \<Longrightarrow> n + 1 < 2 ^ 32
     \<Longrightarrow> lp_run cfg s0 h (Some (t, n + 1, st)) (lp_lock cfg 0 cycs t prio nm up s)"
| unnest: "lp_run cfg s0 h (Some (t, n + 1, st)) s \<Longrightarrow> 0 < n \<Longrightarrow> lp_run cfg s0 h (Some (t, n, st)) (lp_unlock cfg c up s)"
| give: "lp_run cfg s0 h (Some (t, 1, st)) s \<Longrightarrow> lp_run cfg s0 (h @ [Given t (c - st) up]) None (lp_unlock cfg c up s)"
| stray: "lp_run cfg s0 h None s \<Longrightarrow> lp_run cfg s0 (h @ [Stray]) None (lp_unlock cfg c up s)"
| scan: "lp_run cfg s0 h m s \<Longrightarrow> lp_run cfg s0 h m (s\<lparr>p_rec := lp_stack_thread infos space (p_rec s)\<rparr>)"
| pass: "lp_run cfg s0 h m s \<Longrightarrow> lp_run cfg s0 h m (s\<lparr>p_rec := island_lock_probe_level_pass t nm sz unused dep (p_rec s)\<rparr>)"

section \<open>Reading the record back\<close>

definition holder_ok :: "lp_holder \<Rightarrow> bool" where
  "holder_ok h = (length (lh_name h) = 16 \<and> length (lh_bucket h) = 8)"

definition lp_ok :: "lock_probe \<Rightarrow> bool" where
  "lp_ok r = (length (lp_bench r) = 4 \<and> length (lp_holder r) = 4 \<and> list_all holder_ok (lp_holder r) \<and> length (lp_stack r) = 16
     \<and> list_all (\<lambda>s. length (ls_name s) = 16) (lp_stack r) \<and> length (lp_level r) = 4 \<and> list_all (\<lambda>l. length (ll_name l) = 16) (lp_level r))"

definition bench_of :: "lp_bench \<Rightarrow> bench_view" where
  "bench_of b = \<lparr>be_min = uint (lb_min b), be_avg = uint (lb_avg b), be_max = uint (lb_max b)\<rparr>"

definition holder_of :: "lp_holder \<Rightarrow> holder_view" where
  "holder_of h = \<lparr>hv_tid = uint (lh_tid h), hv_prio = sint (lh_prio h), hv_name = cstr (lh_name h), hv_holds = uint (lh_holds h),
     hv_hold_max = uint (lh_hold_max h), hv_hold_max_ms = uint (lh_hold_max_ms h), hv_steady_hold_max = uint (lh_steady_max h),
     hv_steady_hold_max_ms = uint (lh_steady_max_ms h), hv_hold_sum = uint (lh_sum_lo h) + 2 ^ 32 * uint (lh_sum_hi h),
     hv_wait_max = uint (lh_wait_max h), hv_steady_wait_max = uint (lh_steady_wait h), hv_waits_over_5us = uint (lh_waits5 h),
     hv_buckets = map uint (lh_bucket h)\<rparr>"

definition stack_of :: "lp_stack \<Rightarrow> stack_view option" where
  "stack_of s = (if ls_name s ! 0 \<noteq> 0 then Some \<lparr>sv_name = cstr (ls_name s), sv_size = uint (ls_size s), sv_used = uint (ls_used_max s)\<rparr> else None)"

definition frame_of :: "u32 \<Rightarrow> lp_level \<Rightarrow> frame_view option" where
  "frame_of m l = (if m = 0x4C564C46 \<and> ll_tid l \<noteq> 0
     then Some \<lparr>fv_name = cstr (ll_name l), fv_size = uint (ll_size l), fv_setup = uint (ll_setup l), fv_entry = uint (ll_entry l),
            fv_steady = uint (ll_steady l), fv_passes = uint (ll_passes l), fv_scans = uint (ll_scans l)\<rparr> else None)"

definition lp_view :: "lock_probe \<Rightarrow> probe_view" where
  "lp_view r = \<lparr>pv_levels = List.map_filter (frame_of (lp_level_magic r)) (lp_level r), pv_hz = uint (lp_hz r), pv_n = uint (lp_n r),
     pv_empty = uint (lp_empty r), pv_bench = zip (bench_keys 852) (map bench_of (lp_bench r)), pv_installed = uint (lp_installed r),
     pv_overflow = uint (lp_overflow r), pv_depth_errors = uint (lp_depth_errors r), pv_steady_ms = uint (lp_steady_ms r),
     pv_scans = uint (lp_scans r), pv_holders = map holder_of (filter (\<lambda>h. lh_tid h \<noteq> 0) (lp_holder r)),
     pv_stacks = List.map_filter stack_of (lp_stack r)\<rparr>"

lemma word_seg:
  assumes "blob = pre @ pack_u32s (map uint (ws :: u32 list)) @ post" "length ws = n"
  shows "words_at n blob (length pre) = map uint ws" "length pre + 4 * n \<le> length blob"
  using unpack_seg [OF assms] by (auto simp: unpack_u32s_def split: if_splits)

lemma sint_seg:
  assumes "blob = pre @ pack_u32s (map uint [w :: u32]) @ post"
  shows "le_sint (bslice blob (length pre) (length pre + 4)) = sint w"
proof -
  have "bslice blob (length pre) (length pre + 4) = le_bytes 4 (uint w)" by (simp add: assms bslice_def pack_u32s_def)
  moreover have "length (le_bytes 4 (uint w)) = 4" by simp
  moreover have "le_int (le_bytes 4 (uint w)) = uint w" using uint_lt2p [of w] by simp
  moreover have "le_bytes 4 (uint w) \<noteq> []" by (metis calculation(2) list.size(3) zero_neq_numeral)
  moreover have "sint w = (if 2 * uint w < 2 ^ 32 then uint w else uint w - 2 ^ 32)"
  proof -
    have r: "- (2 ^ 31) \<le> sint w" "sint w < 2 ^ 31" using sint_ge [of w] sint_lt [of w] by simp_all
    have "uint w = sint w mod 2 ^ 32" by (simp add: uint_sint take_bit_eq_mod)
    also have "\<dots> = (if 0 \<le> sint w then sint w else sint w + 2 ^ 32)"
    proof (cases "0 \<le> sint w")
      case False
      have "sint w mod 2 ^ 32 = (sint w + 2 ^ 32) mod 2 ^ 32" by simp
      also have "\<dots> = sint w + 2 ^ 32" by (rule mod_pos_pos_trivial) (use r False in simp_all)
      finally show ?thesis using False by simp
    qed (use r in simp)
    finally show ?thesis using r by (simp split: if_splits)
  qed
  ultimately show ?thesis by (simp add: le_sint_def)
qed

lemma length_blocks:
  "length (bench_bytes b) = 12" "holder_ok h \<Longrightarrow> length (holder_bytes h) = 96"
  "length (ls_name s) = 16 \<Longrightarrow> length (stack_bytes s) = 24" "length (ll_name l) = 16 \<Longrightarrow> length (frame_bytes l) = 44"
  by (simp_all add: bench_bytes_def holder_bytes_def holder_ok_def stack_bytes_def frame_bytes_def)

lemma read_bench_seg: "blob = pre @ bench_bytes b @ post \<Longrightarrow> read_bench blob (length pre) = Inr (bench_of b)"
  using unpack_seg [of blob pre "[lb_min b, lb_avg b, lb_max b]" post 3] by (simp add: read_bench_def bench_bytes_def bench_of_def)

lemma read_holder_seg:
  assumes ok: "holder_ok h" and blob: "blob = pre @ holder_bytes h @ post"
  shows "read_holder blob (length pre) = Inr (holder_of h)"
proof -
  let ?a = "pack_u32s (map uint [lh_tid h])" and ?p = "pack_u32s (map uint [lh_prio h])"
  let ?vs = "[lh_holds h, lh_hold_max h, lh_hold_max_ms h, lh_steady_max h, lh_steady_max_ms h, lh_sum_lo h,
         lh_sum_hi h, lh_wait_max h, lh_steady_wait h, lh_waits5 h] @ lh_bucket h"
  have len: "length (lh_name h) = 16" "length ?vs = 18" using ok by (simp_all add: holder_ok_def)
  have b: "blob = pre @ ?a @ (?p @ lh_name h @ pack_u32s (map uint ?vs) @ post)"
    "blob = (pre @ ?a) @ ?p @ (lh_name h @ pack_u32s (map uint ?vs) @ post)"
    "blob = (pre @ ?a @ ?p @ lh_name h) @ pack_u32s (map uint ?vs) @ post"
    by (simp_all only: blob holder_bytes_def append_assoc)
  have n: "bslice blob (length pre + 8) (length pre + 24) = lh_name h" using len(1) by (subst b(1)) (simp add: bslice_def)
  have w: "words_at 1 blob (length pre) = [uint (lh_tid h)]" "words_at 18 blob (length pre + 24) = map uint ?vs"
    "le_sint (bslice blob (length pre + 4) (length pre + 8)) = sint (lh_prio h)" "length pre + 24 + 72 \<le> length blob"
    using word_seg(1) [OF b(1), of 1] word_seg [OF b(3) len(2)] sint_seg [OF b(2)] len(1) by (simp_all add: add.commute)
  have sum: "uint lo OR push_bit 32 (uint hi) = uint lo + 2 ^ 32 * uint hi" for lo hi :: u32
    using or_shift [of "uint lo" 32 "uint hi"] uint_lt2p [of lo] by (simp add: or.commute)
  have v: "words_at (10 + BUCKETS) blob (length pre + 24) = map uint ?vs" using w(2) by (simp add: BUCKETS_def)
  have "\<not> length pre + 96 > length blob" using w(4) by simp
  then show ?thesis unfolding read_holder_def Let_def n w(1) w(3) v if_False holder_of_def by (simp add: sum)
qed

lemma read_stack_seg:
  assumes "length (ls_name s) = 16" and blob: "blob = pre @ stack_bytes s @ post"
  shows "read_stack blob (length pre) = Inr (stack_of s)"
proof -
  have b: "blob = (pre @ ls_name s) @ pack_u32s (map uint [ls_size s, ls_used_max s]) @ post"
    by (simp only: blob stack_bytes_def append_assoc)
  have "bslice blob (length pre) (length pre + 16) = ls_name s" by (subst b) (simp add: bslice_def assms(1))
  then show ?thesis using word_seg [OF b, of 2] assms(1) by (simp add: read_stack_def stack_of_def Let_def)
qed

lemma read_frame_seg:
  assumes "length (ll_name l) = 16" and blob: "blob = pre @ frame_bytes l @ post"
  shows "read_frame blob (uint m) (length pre) = Inr (frame_of m l)"
proof -
  let ?vs = "[ll_size l, ll_setup l, ll_entry l, ll_steady l, ll_passes l, ll_scans l]"
  have b: "blob = pre @ pack_u32s (map uint [ll_tid l]) @ (ll_name l @ pack_u32s (map uint ?vs) @ post)"
    "blob = (pre @ pack_u32s (map uint [ll_tid l]) @ ll_name l) @ pack_u32s (map uint ?vs) @ post"
    by (simp_all only: blob frame_bytes_def append_assoc)
  have n: "bslice blob (length pre + 4) (length pre + 20) = ll_name l" by (subst b(1)) (simp add: bslice_def assms(1))
  have m: "uint m = LEVEL_MAGIC \<longleftrightarrow> m = 0x4C564C46" by (simp add: LEVEL_MAGIC_def word_uint_eq_iff)
  show ?thesis using word_seg(1) [OF b(1), of 1] word_seg [OF b(2), of 6] assms(1) n
    by (simp add: read_frame_def frame_of_def m uint_0_iff Let_def)
qed

lemma length_table:
  "\<forall>x \<in> set xs. length (f x) = k \<Longrightarrow> length (concat (map f xs)) = length xs * k"
  by (induction xs) simp_all

lemma rmap_blocks:
  assumes "\<forall>x \<in> set xs. length (f x) = k \<and> (\<forall>pre post. blob = pre @ f x @ post \<longrightarrow> rd (length pre) = Inr (g x))"
    and "blob = pb @ concat (map f xs) @ qb" "length xs = n"
  shows "rmap (\<lambda>i. rd (length pb + i * k)) [0..<n] = Inr (map g xs)"
proof -
  have "rmap (\<lambda>i. (\<lambda>o1 _. rd o1) (length pb + i * k) i) [0..<n] = Inr (map (\<lambda>i. (\<lambda>_. g) i (xs ! i)) [0..<n])"
    using assms by (intro read_blocks [where qb = qb and f = f]) simp_all
  moreover have "map (\<lambda>i. g (xs ! i)) [0..<n] = map g xs" using assms(3) by (intro nth_equalityI) simp_all
  ultimately show ?thesis by simp
qed

lemma map_filter_id: "List.map_filter id (map f xs) = List.map_filter f xs"
  by (induction xs) (simp_all add: List.map_filter_simps split: option.split)

lemma lock_decode_bytes:
  assumes ok: "lp_ok r" and m: "lp_magic r = 0x4C4B5052"
  shows "lock_decode (lp_bytes r) = Inr (lp_view r)"
proof -
  let ?blob = "lp_bytes r"
  let ?h = "pack_u32s (map uint [lp_magic r, lp_hz r, lp_n r, lp_empty r])" and ?b = "concat (map bench_bytes (lp_bench r))"
  let ?t = "pack_u32s (map uint [lp_installed r, lp_overflow r, lp_depth_errors r, lp_steady_ms r, lp_scans r])"
  let ?hs = "concat (map holder_bytes (lp_holder r))" and ?ss = "concat (map stack_bytes (lp_stack r))"
  let ?m = "pack_u32s (map uint [lp_level_magic r])" and ?ls = "concat (map frame_bytes (lp_level r))"
  have n: "length (lp_bench r) = 4" "length (lp_holder r) = 4" "length (lp_stack r) = 16" "length (lp_level r) = 4"
    and oks: "\<forall>h \<in> set (lp_holder r). holder_ok h" "\<forall>s \<in> set (lp_stack r). length (ls_name s) = 16" "\<forall>l \<in> set (lp_level r). length (ll_name l) = 16"
    using ok by (simp_all add: lp_ok_def list_all_iff)
  have len: "length ?h = 16" "length ?b = 48" "length ?t = 20" "length ?hs = 384" "length ?ss = 384" "length ?m = 4" "length ?ls = 176"
    using length_table [of "lp_bench r" bench_bytes 12] length_table [of "lp_holder r" holder_bytes 96]
      length_table [of "lp_stack r" stack_bytes 24] length_table [of "lp_level r" frame_bytes 44] n oks
    by (simp_all add: length_blocks)
  have total: "length ?blob = 1032" unfolding lp_bytes_def by (simp only: length_append len)
  have blob: "?blob = [] @ ?h @ (?b @ ?t @ ?hs @ ?ss @ ?m @ ?ls)" "?blob = ?h @ ?b @ (?t @ ?hs @ ?ss @ ?m @ ?ls)"
    "?blob = (?h @ ?b) @ ?t @ (?hs @ ?ss @ ?m @ ?ls)" "?blob = (?h @ ?b @ ?t) @ ?hs @ (?ss @ ?m @ ?ls)"
    "?blob = (?h @ ?b @ ?t @ ?hs) @ ?ss @ (?m @ ?ls)" "?blob = (?h @ ?b @ ?t @ ?hs @ ?ss) @ ?m @ ?ls"
    "?blob = (?h @ ?b @ ?t @ ?hs @ ?ss @ ?m) @ ?ls @ []"
    by (simp_all only: lp_bytes_def append_assoc append_Nil append_Nil2)
  have r1: "unpack_u32s 4 ?blob 0 = Inr (map uint [lp_magic r, lp_hz r, lp_n r, lp_empty r])"
    using unpack_seg [OF blob(1), of 4] by simp
  have r2: "rmap (\<lambda>i. read_bench ?blob (16 + i * 12)) [0..<4] = Inr (map bench_of (lp_bench r))"
    using rmap_blocks [OF _ blob(2) n(1), of 12 "read_bench ?blob" bench_of] read_bench_seg
    unfolding len by (simp add: length_blocks)
  have r3: "unpack_u32s 5 ?blob 64 = Inr (map uint [lp_installed r, lp_overflow r, lp_depth_errors r, lp_steady_ms r, lp_scans r])"
    using unpack_seg [OF blob(3), of 5] by (simp only: length_append len) simp
  have r4: "rmap (\<lambda>i. read_holder ?blob (84 + i * 96)) [0..<4] = Inr (map holder_of (lp_holder r))"
    using rmap_blocks [OF _ blob(4) n(2), of 96 "read_holder ?blob" holder_of] read_holder_seg oks
    unfolding length_append len by (simp add: length_blocks)
  have r5: "rmap (\<lambda>i. read_stack ?blob (468 + i * 24)) [0..<16] = Inr (map stack_of (lp_stack r))"
    using rmap_blocks [OF _ blob(5) n(3), of 24 "read_stack ?blob" stack_of] read_stack_seg oks
    unfolding length_append len by (simp add: length_blocks)
  have r6: "unpack_u32 ?blob 852 = Inr (uint (lp_level_magic r))"
    using word_seg [OF blob(6), of 1] unfolding length_append len by (simp add: unpack_u_def words_at_def)
  have r7: "rmap (\<lambda>i. read_frame ?blob (uint (lp_level_magic r)) (856 + i * 44)) [0..<4] = Inr (map (frame_of (lp_level_magic r)) (lp_level r))"
    using rmap_blocks [OF _ blob(7) n(4), of 44 "read_frame ?blob (uint (lp_level_magic r))" "frame_of (lp_level_magic r)"] read_frame_seg oks
    unfolding length_append len by (simp add: length_blocks)
  have ks: "bench_keys 1032 = bench_keys 852" "length (bench_keys 852) = 4" by (simp_all add: bench_keys_def)
  have magic: "uint (lp_magic r) = LP_MAGIC" by (simp add: m LP_MAGIC_def)
  have fh: "filter (\<lambda>x. hv_tid x \<noteq> 0) (map holder_of hs) = map holder_of (filter (\<lambda>h. lh_tid h \<noteq> 0) hs)" for hs
    by (simp add: filter_map comp_def holder_of_def uint_0_iff)
  have o: "16 + 12 * 4 = (64 :: nat)" "64 + 20 = (84 :: nat)" "84 + 4 * 96 = (468 :: nat)" "468 + 16 * 24 = (852 :: nat)"
    "852 + 4 = (856 :: nat)" "856 + 4 * 44 \<le> (1032 :: nat)"
    by simp_all
  have h: "map uint [lp_magic r, lp_hz r, lp_n r, lp_empty r] ! 0 = LP_MAGIC" by (simp add: magic)
  show ?thesis
    unfolding lock_decode_def r1 rbind_simps Let_def h total ks HOLDERS_def STACKS_def LEVELS_def o(1-5) r2 r3 r4 r5 r6 r7
      if_P [OF o(6)] map_filter_id fh
    by (simp add: lp_view_def)
qed

end
