(* ===== verification/Lock_Reading.thy ===== *)
theory Lock_Reading
  imports Lock_Holds
begin

text \<open>What a reading of the lock probe says about the run it was taken in: the table of holders as a function of who took
  the lock, and each entry's sums as functions of that thread's waits and holds.\<close>

section \<open>What the table is to hold\<close>

definition takens :: "lp_event list \<Rightarrow> (u32 \<times> u32 \<times> u32) list" where
  "takens h = List.map_filter (\<lambda>e. case e of Taken t w u \<Rightarrow> Some (t, w, u) | _ \<Rightarrow> None) h"

definition givens :: "lp_event list \<Rightarrow> (u32 \<times> u32 \<times> u32) list" where
  "givens h = List.map_filter (\<lambda>e. case e of Given t d u \<Rightarrow> Some (t, d, u) | _ \<Rightarrow> None) h"

definition strays :: "lp_event list \<Rightarrow> nat" where
  "strays h = length (filter (\<lambda>e. e = Stray) h)"

definition of_thread :: "u32 \<Rightarrow> (u32 \<times> u32 \<times> u32) list \<Rightarrow> (u32 \<times> u32) list" where
  "of_thread t xs = map snd (filter (\<lambda>x. fst x = t) xs)"

text \<open>The threads that took the lock, in the order of their first hold; the first four are in the table.\<close>

definition takers :: "lp_event list \<Rightarrow> u32 list" where
  "takers h = rev (remdups (rev (map fst (takens h))))"

definition tabled :: "lp_event list \<Rightarrow> u32 list" where
  "tabled h = take 4 (takers h)"

definition lens :: "(u32 \<times> u32) list \<Rightarrow> nat list" where
  "lens xs = map (\<lambda>(d, u). unat d) xs"

definition steady :: "u32 \<Rightarrow> (u32 \<times> u32) list \<Rightarrow> (u32 \<times> u32) list" where
  "steady cfg xs = filter (\<lambda>(d, u). cfg \<le> u) xs"

definition longest :: "nat list \<Rightarrow> nat" where
  "longest xs = foldr max xs 0"

definition holder_sums :: "u32 \<Rightarrow> u32 \<Rightarrow> lp_holder \<Rightarrow> (u32 \<times> u32) list \<Rightarrow> (u32 \<times> u32) list \<Rightarrow> bool" where
  "holder_sums cfg hz l ws gs \<longleftrightarrow>
     unat (lh_holds l) = length gs \<and> unat (lh_hold_max l) = longest (lens gs)
     \<and> unat (lh_steady_max l) = longest (lens (steady cfg gs))
     \<and> unat (lh_sum_lo l) + 2 ^ 32 * unat (lh_sum_hi l) = sum_list (lens gs)
     \<and> map unat (lh_bucket l) = map (\<lambda>b. length (filter (\<lambda>(d, u). lp_bin hz d = b) gs)) [0..<8]
     \<and> unat (lh_wait_max l) = longest (lens ws) \<and> unat (lh_steady_wait l) = longest (lens (steady cfg ws))
     \<and> unat (lh_waits5 l) = length (filter (\<lambda>(w, u). 5 * unat (per_us hz) < unat w) ws)"

lemma event_simps [simp]:
  "takens [] = []" "takens (h @ h') = takens h @ takens h'" "takens [Taken t w u] = [(t, w, u)]" "takens [Given t d u] = []"
  "takens [Stray] = []" "givens [] = []" "givens (h @ h') = givens h @ givens h'" "givens [Taken t w u] = []"
  "givens [Given t d u] = [(t, d, u)]" "givens [Stray] = []"
  "strays [] = 0" "strays (h @ h') = strays h + strays h'" "strays [Taken t w u] = 0" "strays [Given t d u] = 0" "strays [Stray] = 1"
  by (simp_all add: takens_def givens_def strays_def List.map_filter_def)

lemma sums_simps [simp]:
  "of_thread t [] = []" "of_thread t (xs @ ys) = of_thread t xs @ of_thread t ys"
  "of_thread t [(t', x)] = (if t' = t then [x] else [])"
  "lens [] = []" "lens (ps @ qs) = lens ps @ lens qs" "lens [(d, u)] = [unat d]"
  "steady cfg [] = []" "steady cfg (ps @ qs) = steady cfg ps @ steady cfg qs" "steady cfg [(d, u)] = (if cfg \<le> u then [(d, u)] else [])"
  by (simp_all add: of_thread_def lens_def steady_def)

lemma longest_simps [simp]: "longest [] = 0" "longest (xs @ [x]) = max (longest xs) x"
proof -
  have *: "foldr max xs y = max (foldr max xs 0) y" for y :: nat by (induction xs) auto
  show "longest (xs @ [x]) = max (longest xs) x" using * [of x] by (simp add: longest_def)
qed (simp add: longest_def)

lemma event_counts: "length (takens h) + length (givens h) + strays h = length h"
proof (induction h rule: rev_induct)
  case (snoc e h)
  then show ?case by (cases e) simp_all
qed simp

lemma of_thread_le: "length (of_thread t xs) \<le> length xs"
  by (simp add: of_thread_def)

lemma takers_snoc:
  "takers (h @ [Taken t w u]) = (if t \<in> set (takers h) then takers h else takers h @ [t])"
  by (simp add: takers_def)

lemma takers_other [simp]: "takers (h @ [Given t w u]) = takers h" "takers (h @ [Stray]) = takers h"
  by (simp_all add: takers_def)

lemma set_takers: "set (takers h) = fst ` set (takens h)"
  by (simp add: takers_def)

lemma distinct_takers: "distinct (takers h)"
  by (simp add: takers_def)

section \<open>One hold\<close>

lemma unat_lt: "unat (w :: 'a :: len word) < 2 ^ LENGTH('a)"
  by (rule unsigned_less)

lemma sum64:
  fixes hi lo d :: u32
  defines "s \<equiv> (push_bit 32 (ucast hi) OR ucast lo :: 64 word) + ucast d"
  assumes "unat lo + 2 ^ 32 * unat hi + unat d < 2 ^ 64"
  shows "unat (ucast s :: u32) + 2 ^ 32 * unat (ucast (drop_bit 32 s) :: u32) = unat lo + 2 ^ 32 * unat hi + unat d"
proof -
  have "uint (push_bit 32 (ucast hi) OR ucast lo :: 64 word) = uint hi * 2 ^ 32 + uint lo"
  proof -
    have u: "uint (ucast w :: 64 word) = uint w" for w :: u32 using uint_lt2p [of w] by (simp add: unsigned_ucast_eq take_bit_int_eq_self)
    have "uint (push_bit 32 (ucast hi) :: 64 word) = take_bit 64 (push_bit 32 (uint hi))" by (simp only: unsigned_push_bit_eq u) simp
    also have "\<dots> = push_bit 32 (uint hi)" using uint_lt2p [of hi] by (simp add: take_bit_int_eq_self push_bit_eq_mult)
    finally show ?thesis using or_shift [of "uint lo" 32 "uint hi"] uint_lt2p [of lo] by (simp only: uint_or u) simp
  qed
  then have "int (unat (push_bit 32 (ucast hi) OR ucast lo :: 64 word)) = int (unat hi * 2 ^ 32 + unat lo)" by simp
  then have u: "unat (push_bit 32 (ucast hi) OR ucast lo :: 64 word) = unat hi * 2 ^ 32 + unat lo" by (rule of_nat_eq_iff [THEN iffD1])
  have "unat s = unat lo + 2 ^ 32 * unat hi + unat d"
    using assms(2) u by (simp add: s_def unat_word_ariths unsigned_ucast_eq take_bit_eq_mod)
  moreover have "unat (ucast s :: u32) = unat s mod 2 ^ 32" "unat (ucast (drop_bit 32 s) :: u32) = unat s div 2 ^ 32"
    using unat_lt [of s] by (simp_all add: unsigned_ucast_eq drop_bit_eq_div less_mult_imp_div_less take_bit_eq_mod unat_div)
  ultimately show ?thesis by (metis mult.commute mod_div_mult_eq)
qed

lemma lp_bin_lt: "lp_bin hz d < 8"
  using length_takeWhile_le [of "\<lambda>e. d \<ge> e * per_us hz" lp_edge_us] by (simp add: lp_bin_def lp_edge_us_def)

lemma took_sums:
  assumes "holder_sums cfg hz l ws gs" "length ws + 1 < 2 ^ 32"
  shows "holder_sums cfg hz (took cfg hz w prio nm up l) (ws @ [(w, up)]) gs"
proof -
  have "unat (lh_waits5 l) + 1 < 2 ^ 32"
    using assms length_filter_le [of "\<lambda>(w, u). 5 * unat (per_us hz) < unat w" ws] unfolding holder_sums_def by linarith
  moreover have "unat (5 * per_us hz) = 5 * unat (per_us hz)"
  proof -
    have "unat (per_us hz) \<le> 4294" using unat_lt [of hz] by (simp add: per_us_def unat_div div_le_mono)
    then show ?thesis by (simp add: unat_word_ariths)
  qed
  ultimately show ?thesis
    using assms(1) by (auto simp: holder_sums_def took_def unat_step word_less_nat_alt max_def)
qed

lemma sum_lens: "sum_list (lens gs) \<le> length gs * (2 ^ 32 - 1)"
proof (induction gs)
  case (Cons g gs)
  have "unat (fst g) \<le> 2 ^ 32 - 1" using unat_lt [of "fst g"] by simp
  with Cons show ?case by (simp add: lens_def split_beta)
qed (simp add: lens_def)

lemma gave_sums:
  assumes s: "holder_sums cfg hz l ws gs" and n: "length gs + 1 < 2 ^ 32"
  shows "holder_sums cfg hz (gave cfg hz d up l) ws (gs @ [(d, up)])"
proof -
  let ?b = "lp_bin hz d" and ?f = "\<lambda>b. length (filter (\<lambda>(d, u). lp_bin hz d = b) gs)"
  have bk: "map unat (lh_bucket l) = map ?f [0..<8]" using s by (simp add: holder_sums_def)
  from arg_cong [OF this, of length] have len: "length (lh_bucket l) = 8" by simp
  have e: "unat (lh_bucket l ! j) = ?f j" if "j < 8" for j using arg_cong [OF bk, of "\<lambda>xs. xs ! j"] len that by simp
  have "?f ?b + 1 \<le> length gs + 1" by simp
  then have "unat (lh_bucket l ! ?b) + 1 < 2 ^ 32" unfolding e [OF lp_bin_lt] using n by (rule le_less_trans)
  then have step: "unat (lh_bucket l ! ?b + 1) = ?f ?b + 1" using e [OF lp_bin_lt [of hz d]] by (subst unat_step) simp_all
  have "map unat ((lh_bucket l)[?b := lh_bucket l ! ?b + 1]) = map (\<lambda>b. length (filter (\<lambda>(d, u). lp_bin hz d = b) (gs @ [(d, up)]))) [0..<8]"
  proof (rule nth_equalityI)
    fix i assume "i < length (map unat ((lh_bucket l)[?b := lh_bucket l ! ?b + 1]))"
    then have i: "i < 8" using len by simp
    show "map unat ((lh_bucket l)[?b := lh_bucket l ! ?b + 1]) ! i = map (\<lambda>b. length (filter (\<lambda>(d, u). lp_bin hz d = b) (gs @ [(d, up)]))) [0..<8] ! i"
      using i len step e [OF i] by (cases "?b = i") simp_all
  qed (simp add: len)
  moreover have "sum_list (lens gs) + unat d < 2 ^ 64"
  proof -
    have "sum_list (lens gs) \<le> length gs * (2 ^ 32 - 1)" by (rule sum_lens)
    also have "\<dots> \<le> (2 ^ 32 - 2) * (2 ^ 32 - 1)" using n by (intro mult_right_mono) simp_all
    finally show ?thesis using unat_lt [of d] by simp
  qed
  ultimately show ?thesis
    using s n sum64 [of "lh_sum_lo l" "lh_sum_hi l" d]
    by (auto simp: holder_sums_def gave_def Let_def unat_step word_less_nat_alt max_def)
qed

lemma zero_sums: "holder_sums cfg hz (holder_zero\<lparr>lh_tid := t, lh_prio := p, lh_name := nm\<rparr>) [] []"
proof -
  have "map unat (replicate 8 (0 :: u32)) = map (\<lambda>b. 0) [0..<8]" by (intro nth_equalityI) simp_all
  then show ?thesis by (simp add: holder_sums_def holder_zero_def del: map_replicate)
qed

section \<open>The table\<close>

lemma length_strncpy [simp]: "length d = 16 \<Longrightarrow> length (lp_strncpy n d) = 16"
  using length_takeWhile_le [of "\<lambda>c. c \<noteq> 0" "take 15 n"] by (simp add: lp_strncpy_def Let_def)

lemma took_sel [simp]:
  "lh_tid (took cfg hz w prio nm up l) = lh_tid l" "holder_ok l \<Longrightarrow> holder_ok (took cfg hz w prio nm up l)"
  by (auto simp: took_def holder_ok_def split: option.split)

lemma gave_sel [simp]: "lh_tid (gave cfg hz d up l) = lh_tid l" "holder_ok l \<Longrightarrow> holder_ok (gave cfg hz d up l)"
  by (auto simp: gave_def holder_ok_def Let_def)

lemma upd_holder_sel [simp]:
  "lp_holder (upd_holder i f r) = (lp_holder r)[i := f (lp_holder r ! i)]" "lp_magic (upd_holder i f r) = lp_magic r"
  "lp_hz (upd_holder i f r) = lp_hz r" "lp_overflow (upd_holder i f r) = lp_overflow r"
  "lp_depth_errors (upd_holder i f r) = lp_depth_errors r"
  by (simp_all add: upd_holder_def)

lemma upd_holder_ok:
  assumes "lp_ok r" "i < 4" "holder_ok (lp_holder r ! i) \<Longrightarrow> holder_ok (f (lp_holder r ! i))"
  shows "lp_ok (upd_holder i f r)"
  using assms by (auto simp: lp_ok_def upd_holder_def list_all_length nth_list_update)

lemma tid_kept: "lh_tid y = lh_tid (xs ! i) \<Longrightarrow> map lh_tid (xs[i := y]) = map lh_tid xs"
  by (cases "i < length xs") (simp_all add: map_update list_update_same_conv list_update_beyond)

definition tids :: "lp_event list \<Rightarrow> u32 list" where
  "tids h = tabled h @ replicate (4 - length (tabled h)) 0"

definition table_inv :: "u32 \<Rightarrow> u32 \<Rightarrow> lp_event list \<Rightarrow> lock_probe \<Rightarrow> bool" where
  "table_inv cfg hz h r \<longleftrightarrow> lp_ok r \<and> lp_magic r = 0x4C4B5052 \<and> lp_hz r = hz
     \<and> map lh_tid (lp_holder r) = tids h \<and> (\<forall>i < 4. length (tabled h) \<le> i \<longrightarrow> lp_holder r ! i = holder_zero)
     \<and> 0 \<notin> set (takers h) \<and> fst ` set (givens h) \<subseteq> set (takers h)
     \<and> unat (lp_overflow r) = length (filter (\<lambda>x. fst x \<notin> set (tabled h)) (takens h)) \<and> unat (lp_depth_errors r) = strays h
     \<and> (\<forall>i < length (tabled h). holder_sums cfg hz (lp_holder r ! i) (of_thread (tabled h ! i) (takens h)) (of_thread (tabled h ! i) (givens h)))"

lemma tabled_le: "length (tabled h) \<le> 4" "set (tabled h) \<subseteq> set (takers h)" "distinct (tabled h)"
  using distinct_takers by (auto simp: tabled_def set_take_subset)

lemma tabled_short: "length (tabled h) < 4 \<Longrightarrow> takers h = tabled h"
  by (simp add: tabled_def)

lemma tabled_snoc:
  "tabled (h @ [Taken t w u]) = (if t \<in> set (takers h) \<or> length (tabled h) = 4 then tabled h else tabled h @ [t])"
  by (auto simp: tabled_def takers_snoc)

lemma tabled_other [simp]: "tabled (h @ [Given t w u]) = tabled h" "tabled (h @ [Stray]) = tabled h"
  by (simp_all add: tabled_def)

lemma tids_other [simp]: "tids (h @ [Given t w u]) = tids h" "tids (h @ [Stray]) = tids h"
  by (simp_all add: tids_def)

lemma slot_tid:
  assumes "table_inv cfg hz h r" "i < 4"
  shows "lh_tid (lp_holder r ! i) = (if i < length (tabled h) then tabled h ! i else 0)"
proof -
  have "map lh_tid (lp_holder r) = tids h" "length (lp_holder r) = 4" using assms(1) by (simp_all add: table_inv_def lp_ok_def)
  then have "lh_tid (lp_holder r ! i) = tids h ! i" using assms(2) by (metis nth_map)
  then show ?thesis using assms(2) tabled_le(1) [of h] by (simp add: tids_def nth_append)
qed

lemma find_slot:
  assumes inv: "table_inv cfg hz h r" and t: "t \<noteq> 0"
  shows "i < length (tabled h) \<Longrightarrow> tabled h ! i = t
      \<Longrightarrow> List.find (\<lambda>i. lh_tid (lp_holder r ! i) = t \<or> lh_tid (lp_holder r ! i) = 0) [0..<4] = Some i"
    and "t \<notin> set (tabled h) \<Longrightarrow> length (tabled h) < 4
      \<Longrightarrow> List.find (\<lambda>i. lh_tid (lp_holder r ! i) = t \<or> lh_tid (lp_holder r ! i) = 0) [0..<4] = Some (length (tabled h))"
    and "t \<notin> set (tabled h) \<Longrightarrow> length (tabled h) = 4
      \<Longrightarrow> List.find (\<lambda>i. lh_tid (lp_holder r ! i) = t \<or> lh_tid (lp_holder r ! i) = 0) [0..<4] = None"
proof -
  note slot = slot_tid [OF inv]
  have no0: "tabled h ! j \<noteq> 0" if "j < length (tabled h)" for j
    using nth_mem [OF that] tabled_le(2) [of h] inv by (auto simp: table_inv_def)
  have le: "length (tabled h) \<le> 4" by (rule tabled_le)
  { fix i assume i: "i < length (tabled h)" "tabled h ! i = t"
    have "tabled h ! j \<noteq> t" if "j < i" for j using that i tabled_le(3) [of h] by (auto simp: nth_eq_iff_index_eq)
    then have "\<forall>j < i. \<not> (lh_tid (lp_holder r ! j) = t \<or> lh_tid (lp_holder r ! j) = 0)" using i le slot no0 by auto
    then show "List.find (\<lambda>i. lh_tid (lp_holder r ! i) = t \<or> lh_tid (lp_holder r ! i) = 0) [0..<4] = Some i"
      unfolding find_Some_iff using i le slot [of i] by (intro exI [of _ i]) simp }
  { assume out: "t \<notin> set (tabled h)"
    have no: "\<not> (lh_tid (lp_holder r ! j) = t \<or> lh_tid (lp_holder r ! j) = 0)" if "j < length (tabled h)" for j
      using that le slot [of j] no0 out nth_mem [OF that] by auto
    show "length (tabled h) < 4 \<Longrightarrow> List.find (\<lambda>i. lh_tid (lp_holder r ! i) = t \<or> lh_tid (lp_holder r ! i) = 0) [0..<4] = Some (length (tabled h))"
      unfolding find_Some_iff using no slot [of "length (tabled h)"] by (intro exI [of _ "length (tabled h)"]) simp
    show "length (tabled h) = 4 \<Longrightarrow> List.find (\<lambda>i. lh_tid (lp_holder r ! i) = t \<or> lh_tid (lp_holder r ! i) = 0) [0..<4] = None"
      unfolding find_None_iff using no by simp }
qed

text \<open>A thread whose entry changes: the sums of the others stay.\<close>

lemma of_thread_other: "t \<noteq> t' \<Longrightarrow> of_thread t' (xs @ [(t, x)]) = of_thread t' xs"
  by simp

lemma of_thread_none: "t \<notin> fst ` set xs \<Longrightarrow> of_thread t xs = []"
  by (auto simp: of_thread_def filter_empty_conv)

definition owner_inv :: "lp_event list \<Rightarrow> u32 \<Rightarrow> nat option \<Rightarrow> bool" where
  "owner_inv h t ow = (case ow of Some i \<Rightarrow> i < length (tabled h) \<and> tabled h ! i = t | None \<Rightarrow> t \<notin> set (tabled h))"

definition taken_by :: "u32 \<Rightarrow> u32 \<Rightarrow> u32 \<Rightarrow> u32 \<Rightarrow> bytes option \<Rightarrow> u32 \<Rightarrow> lock_probe \<times> nat option \<Rightarrow> lock_probe" where
  "taken_by cfg hz w prio nm up rh = (case snd rh of None \<Rightarrow> fst rh | Some i \<Rightarrow> upd_holder i (took cfg hz w prio nm up) (fst rh))"

lemma table_take_old:
  assumes inv: "table_inv cfg hz h r" and t: "t \<noteq> 0" and n: "length h + 1 < 2 ^ 32" and i: "i < length (tabled h)" "tabled h ! i = t"
  shows "table_inv cfg hz (h @ [Taken t w up]) (taken_by cfg hz w prio nm up (lp_holder_of t prio nm r))"
    "owner_inv (h @ [Taken t w up]) t (snd (lp_holder_of t prio nm r))"
proof -
  have i4: "i < 4" using i tabled_le(1) [of h] by simp
  have tid: "lh_tid (lp_holder r ! i) = t" using slot_tid [OF inv i4] i by simp
  have ho: "lp_holder_of t prio nm r = (r, Some i)"
    using find_slot(1) [OF inv t i] tid by (simp add: lp_holder_of_def)
  have mem: "t \<in> set (takers h)" using i tabled_le(2) [of h] nth_mem by blast
  have T: "tabled (h @ [Taken t w up]) = tabled h" "takers (h @ [Taken t w up]) = takers h" using mem by (simp_all add: tabled_snoc takers_snoc)
  show "owner_inv (h @ [Taken t w up]) t (snd (lp_holder_of t prio nm r))" using i by (simp add: ho owner_inv_def T)
  have len: "length (of_thread t (takens h)) + 1 < 2 ^ 32" using n of_thread_le [of t "takens h"] event_counts [of h] by simp
  let ?r = "upd_holder i (took cfg hz w prio nm up) r"
  have sums: "holder_sums cfg hz (lp_holder ?r ! j) (of_thread (tabled h ! j) (takens h @ [(t, w, up)])) (of_thread (tabled h ! j) (givens h))"
    if j: "j < length (tabled h)" for j
  proof (cases "j = i")
    case True
    have "length (lp_holder r) = 4" using inv by (simp add: table_inv_def lp_ok_def)
    moreover have "holder_sums cfg hz (lp_holder r ! i) (of_thread t (takens h)) (of_thread t (givens h))"
      using inv i by (auto simp: table_inv_def)
    from took_sums [OF this len] have "holder_sums cfg hz (took cfg hz w prio nm up (lp_holder r ! i)) (of_thread t (takens h) @ [(w, up)]) (of_thread t (givens h))" .
    ultimately show ?thesis using True i i4 by simp
  next
    case False
    then have "tabled h ! j \<noteq> t" using i j tabled_le(3) [of h] by (auto simp: nth_eq_iff_index_eq)
    then show ?thesis using False inv j by (simp add: table_inv_def)
  qed
  have "map lh_tid (lp_holder ?r) = map lh_tid (lp_holder r)" by (simp add: tid_kept)
  moreover have "lp_ok ?r" using inv i4 by (intro upd_holder_ok) (simp_all add: table_inv_def)
  moreover have "tids (h @ [Taken t w up]) = tids h" by (simp add: tids_def T)
  moreover have "t \<in> set (tabled h)" using i nth_mem by blast
  ultimately show "table_inv cfg hz (h @ [Taken t w up]) (taken_by cfg hz w prio nm up (lp_holder_of t prio nm r))"
    using inv sums i unfolding taken_by_def ho by (simp add: table_inv_def T)
qed

lemma table_take_new:
  assumes inv: "table_inv cfg hz h r" and t: "t \<noteq> 0" and n: "length h + 1 < 2 ^ 32" and out: "t \<notin> set (tabled h)" and k: "length (tabled h) < 4"
  shows "table_inv cfg hz (h @ [Taken t w up]) (taken_by cfg hz w prio nm up (lp_holder_of t prio nm r))"
    "owner_inv (h @ [Taken t w up]) t (snd (lp_holder_of t prio nm r))"
proof -
  define m where "m = length (tabled h)"
  have m4: "m < 4" and z: "lp_holder r ! m = holder_zero" and l4: "length (lp_holder r) = 4"
    using k inv by (simp_all add: m_def table_inv_def lp_ok_def)
  define nm1 where "nm1 = (case nm of None \<Rightarrow> name0 | Some n \<Rightarrow> lp_strncpy n name0)"
  define r1 where "r1 = upd_holder m (\<lambda>h. h\<lparr>lh_tid := t, lh_prio := prio,
                  lh_name := (case nm of None \<Rightarrow> lh_name h | Some n \<Rightarrow> lp_strncpy n (lh_name h))\<rparr>) r"
  have r1m: "lp_holder r1 ! m = holder_zero\<lparr>lh_tid := t, lh_prio := prio, lh_name := nm1\<rparr>"
    using m4 l4 by (simp add: r1_def z nm1_def holder_zero_def split: option.split)
  have tid: "lh_tid (lp_holder r ! m) \<noteq> t" using t by (simp add: z holder_zero_def)
  have ho: "lp_holder_of t prio nm r = (r1, Some m)"
    using find_slot(2) [OF inv t out k] tid by (simp add: lp_holder_of_def r1_def m_def)
  have new: "t \<notin> set (takers h)" using out tabled_short [OF k] by simp
  have T: "tabled (h @ [Taken t w up]) = tabled h @ [t]" "takers (h @ [Taken t w up]) = takers h @ [t]"
    using new k by (simp_all add: tabled_snoc takers_snoc)
  show "owner_inv (h @ [Taken t w up]) t (snd (lp_holder_of t prio nm r))" by (simp add: ho owner_inv_def T m_def)
  let ?r = "upd_holder m (took cfg hz w prio nm up) r1"
  have none: "of_thread t (takens h) = []" "of_thread t (givens h) = []"
    using new inv by (auto intro!: of_thread_none simp: set_takers table_inv_def)
  have hs: "lp_holder ?r = (lp_holder r)[m := took cfg hz w prio nm up (holder_zero\<lparr>lh_tid := t, lh_prio := prio, lh_name := nm1\<rparr>)]"
    using r1m by (simp add: r1_def)
  have sums: "holder_sums cfg hz (lp_holder ?r ! j) (of_thread ((tabled h @ [t]) ! j) (takens h @ [(t, w, up)])) (of_thread ((tabled h @ [t]) ! j) (givens h))"
    if j: "j < m + 1" for j
  proof (cases "j = m")
    case True
    have "holder_sums cfg hz (took cfg hz w prio nm up (holder_zero\<lparr>lh_tid := t, lh_prio := prio, lh_name := nm1\<rparr>)) ([] @ [(w, up)]) []"
      by (rule took_sums [OF zero_sums]) simp
    then show ?thesis using True m4 l4 none unfolding hs by (simp add: m_def)
  next
    case False
    then have "j < length (tabled h)" using j by (simp add: m_def)
    then have "holder_sums cfg hz (lp_holder r ! j) (of_thread (tabled h ! j) (takens h)) (of_thread (tabled h ! j) (givens h))" "t \<noteq> tabled h ! j"
      using inv out nth_mem [of j "tabled h"] by (auto simp: table_inv_def)
    then show ?thesis using False \<open>j < length (tabled h)\<close> unfolding hs by (simp add: nth_append)
  qed
  have "map lh_tid (lp_holder ?r) = (map lh_tid (lp_holder r))[m := t]" unfolding hs by (simp add: map_update)
  also have "\<dots> = (tabled h @ replicate (4 - m) 0)[m := t]" using inv by (simp add: table_inv_def tids_def m_def)
  also have "\<dots> = tabled h @ t # replicate (4 - Suc m) 0"
    using m4 Suc_diff_Suc [of m 4] by (simp add: list_update_append m_def flip: replicate_Suc) (metis Suc_diff_Suc list_update_code(2) replicate_Suc)
  finally have ts: "map lh_tid (lp_holder ?r) = tids (h @ [Taken t w up])" by (simp add: tids_def T m_def)
  have "lp_ok r1" unfolding r1_def using inv m4 z by (intro upd_holder_ok) (auto simp: table_inv_def holder_ok_def holder_zero_def split: option.split)
  then have ok: "lp_ok ?r" using m4 by (intro upd_holder_ok) simp_all
  have "filter (\<lambda>x. fst x \<notin> set (tabled h @ [t])) (takens h) = filter (\<lambda>x. fst x \<notin> set (tabled h)) (takens h)"
    using new by (intro filter_cong) (auto simp: set_takers)
  then show "table_inv cfg hz (h @ [Taken t w up]) (taken_by cfg hz w prio nm up (lp_holder_of t prio nm r))"
    using inv sums ts ok t unfolding taken_by_def ho by (auto simp: table_inv_def T r1_def m_def hs)
qed

lemma table_take_full:
  assumes inv: "table_inv cfg hz h r" and t: "t \<noteq> 0" and n: "length h + 1 < 2 ^ 32" and out: "t \<notin> set (tabled h)" and k: "length (tabled h) = 4"
  shows "table_inv cfg hz (h @ [Taken t w up]) (taken_by cfg hz w prio nm up (lp_holder_of t prio nm r))"
    "owner_inv (h @ [Taken t w up]) t (snd (lp_holder_of t prio nm r))"
proof -
  have ho: "lp_holder_of t prio nm r = (r\<lparr>lp_overflow := lp_overflow r + 1\<rparr>, None)"
    using find_slot(3) [OF inv t out k] by (simp add: lp_holder_of_def)
  have T: "tabled (h @ [Taken t w up]) = tabled h" using k by (simp add: tabled_snoc)
  show "owner_inv (h @ [Taken t w up]) t (snd (lp_holder_of t prio nm r))" using out by (simp add: ho owner_inv_def T)
  have "unat (lp_overflow r) + 1 < 2 ^ 32"
    using inv n event_counts [of h] length_filter_le [of "\<lambda>x. fst x \<notin> set (tabled h)" "takens h"] unfolding table_inv_def by linarith
  moreover have "tabled h ! j \<noteq> t" if "j < length (tabled h)" for j using that out nth_mem by blast
  moreover have "set (takers h) \<subseteq> set (takers (h @ [Taken t w up]))" "0 \<notin> set (takers h) \<Longrightarrow> 0 \<notin> set (takers (h @ [Taken t w up]))"
    using t by (auto simp: takers_snoc)
  moreover have "lp_ok (r\<lparr>lp_overflow := lp_overflow r + 1\<rparr>)" using inv by (simp add: table_inv_def lp_ok_def)
  moreover have "tids (h @ [Taken t w up]) = tids h" by (simp add: tids_def T)
  ultimately show "table_inv cfg hz (h @ [Taken t w up]) (taken_by cfg hz w prio nm up (lp_holder_of t prio nm r))"
    using inv out unfolding taken_by_def ho by (auto simp: table_inv_def T unat_step)
qed

lemma table_take:
  assumes "table_inv cfg hz h r" "t \<noteq> 0" "length h + 1 < 2 ^ 32"
  shows "table_inv cfg hz (h @ [Taken t w up]) (taken_by cfg hz w prio nm up (lp_holder_of t prio nm r))
    \<and> owner_inv (h @ [Taken t w up]) t (snd (lp_holder_of t prio nm r))"
proof (cases "t \<in> set (tabled h)")
  case True
  then obtain i where "i < length (tabled h)" "tabled h ! i = t" by (auto simp: in_set_conv_nth)
  then show ?thesis using table_take_old assms by blast
next
  case False
  then show ?thesis using table_take_new [OF assms] table_take_full [OF assms] tabled_le(1) [of h] by (cases "length (tabled h) = 4") auto
qed

lemma table_give:
  assumes inv: "table_inv cfg hz h r" and n: "length h + 1 < 2 ^ 32" and ow: "owner_inv h t ow" and mem: "t \<in> set (takers h)"
  shows "table_inv cfg hz (h @ [Given t d up]) (case ow of None \<Rightarrow> r | Some i \<Rightarrow> upd_holder i (gave cfg hz d up) r)"
proof (cases ow)
  case None
  then have "t \<notin> set (tabled h)" using ow by (simp add: owner_inv_def)
  then have "tabled h ! j \<noteq> t" if "j < length (tabled h)" for j using that nth_mem by blast
  then show ?thesis using inv mem None by (auto simp: table_inv_def)
next
  case (Some i)
  then have i: "i < length (tabled h)" "tabled h ! i = t" using ow by (simp_all add: owner_inv_def)
  have i4: "i < 4" using i tabled_le(1) [of h] by simp
  let ?r = "upd_holder i (gave cfg hz d up) r"
  have len: "length (of_thread t (givens h)) + 1 < 2 ^ 32" using n of_thread_le [of t "givens h"] event_counts [of h] by simp
  have l4: "length (lp_holder r) = 4" using inv by (simp add: table_inv_def lp_ok_def)
  have sums: "holder_sums cfg hz (lp_holder ?r ! j) (of_thread (tabled h ! j) (takens h)) (of_thread (tabled h ! j) (givens h @ [(t, d, up)]))"
    if j: "j < length (tabled h)" for j
  proof (cases "j = i")
    case True
    have "holder_sums cfg hz (lp_holder r ! i) (of_thread t (takens h)) (of_thread t (givens h))"
      using inv i by (auto simp: table_inv_def)
    from gave_sums [OF this len, of d up] show ?thesis using True i i4 l4 by simp
  next
    case False
    then have "tabled h ! j \<noteq> t" using i j tabled_le(3) [of h] by (auto simp: nth_eq_iff_index_eq)
    then show ?thesis using False inv j by (simp add: table_inv_def)
  qed
  have "map lh_tid (lp_holder ?r) = map lh_tid (lp_holder r)" by (simp add: tid_kept)
  moreover have "lp_ok ?r" using inv i4 by (intro upd_holder_ok) (simp_all add: table_inv_def)
  ultimately show ?thesis using inv sums i mem Some by (auto simp: table_inv_def)
qed

section \<open>A run\<close>

definition lock_inv :: "lp_event list \<Rightarrow> (u32 \<times> nat \<times> u32) option \<Rightarrow> lp_state \<Rightarrow> bool" where
  "lock_inv h m s = (case m of None \<Rightarrow> p_depth s = 0
     | Some (t, n, st) \<Rightarrow> unat (p_depth s) = n \<and> 0 < n \<and> p_start s = st \<and> t \<in> set (takers h) \<and> owner_inv h t (p_owner s))"

definition beside :: "lock_probe \<Rightarrow> lock_probe \<Rightarrow> bool" where   \<comment> \<open>what the scans and the level passes leave alone\<close>
  "beside r r' \<longleftrightarrow> (lp_ok r \<longrightarrow> lp_ok r') \<and> lp_magic r' = lp_magic r \<and> lp_hz r' = lp_hz r \<and> lp_holder r' = lp_holder r
     \<and> lp_overflow r' = lp_overflow r \<and> lp_depth_errors r' = lp_depth_errors r"

lemma beside_trans: "beside r r' \<Longrightarrow> beside r' r'' \<Longrightarrow> beside r r''"
  by (simp add: beside_def)

lemma table_inv_beside: "table_inv cfg hz h r \<Longrightarrow> beside r r' \<Longrightarrow> table_inv cfg hz h r'"
  by (simp add: table_inv_def beside_def)

lemma all_upd: "list_all P xs \<Longrightarrow> (i < length xs \<Longrightarrow> P y) \<Longrightarrow> list_all P (xs[i := y])"
  by (cases "i < length xs") (auto simp: list_all_length nth_list_update list_update_beyond)

lemma beside_stack_cb: "beside r (lp_stack_cb info r)"
proof -
  obtain name sz used where info: "info = (name, sz, used)" by (cases info)
  show ?thesis
    by (auto simp: info beside_def lp_stack_cb_def Let_def lp_ok_def list_all_length [where xs = "lp_stack r"] split: option.split intro!: all_upd)
qed

lemma beside_fold: "beside r (fold lp_stack_cb infos r)"
proof (induction infos arbitrary: r)
  case (Cons x infos)
  show ?case using beside_trans [OF beside_stack_cb Cons.IH] by simp
qed (simp add: beside_def)

lemma beside_thread: "beside r (lp_stack_thread infos space r)"
proof -
  have "beside r' ((lp_level_scan space r')\<lparr>lp_scans := n\<rparr>)" for r' n
    by (auto simp: beside_def lp_level_scan_def lp_ok_def list_all_length)
  from beside_trans [OF beside_fold this] show ?thesis by (simp add: lp_stack_thread_def Let_def)
qed

lemma beside_pass: "beside r (island_lock_probe_level_pass t nm sz unused dep r)"
  by (auto simp: beside_def island_lock_probe_level_pass_def Let_def lp_ok_def list_all_length [where xs = "lp_level r"]
      split: option.split intro!: all_upd)

lemma lp_lock_taken:
  "p_depth s = 0 \<Longrightarrow> lp_lock cfg 0 (t0, t1, t2) t prio nm up s = s\<lparr>p_depth := 1, p_owner := snd (lp_holder_of t prio nm (p_rec s)), p_start := t2,
     p_rec := taken_by cfg (lp_hz (p_rec s)) (t1 - t0) prio nm up (lp_holder_of t prio nm (p_rec s))\<rparr>"
proof -
  have "lp_hz (fst (lp_holder_of t prio nm (p_rec s))) = lp_hz (p_rec s)" by (simp add: lp_holder_of_def split: option.split)
  then show "p_depth s = 0 \<Longrightarrow> ?thesis"
    by (simp add: lp_lock_def taken_by_def split_beta Let_def cong: option.case_cong)
qed

lemma lp_run_inv:
  assumes "lp_run cfg s0 h m s" "table_inv cfg hz [] (p_rec s0)" "p_depth s0 = 0" "length h < 2 ^ 32"
  shows "table_inv cfg hz h (p_rec s) \<and> lock_inv h m s"
  using assms
proof (induction rule: lp_run.induct)
  case boot
  then show ?case by (simp add: lock_inv_def)
next
  case (fails h m s rc cycs t prio nm up)
  then show ?case by (cases cycs) (simp add: lp_lock_def)
next
  case (take h s t t1 t0 up t2 prio nm)
  then have inv: "table_inv cfg hz h (p_rec s)" and d: "p_depth s = 0" and hz: "lp_hz (p_rec s) = hz"
    by (simp_all add: lock_inv_def table_inv_def)
  have n: "length h + 1 < 2 ^ 32" using take.prems by simp
  have mem: "t \<in> set (takers (h @ [Taken t (t1 - t0) up]))" by (simp add: takers_snoc)
  show ?case using table_take [OF inv take.hyps(2) n, of "t1 - t0" up prio nm] mem
    unfolding lp_lock_taken [OF d] hz by (simp add: lock_inv_def)
next
  case (nest h t n st s cycs prio nm up)
  then have "unat (p_depth s) = n" "p_depth s \<noteq> 0" by (auto simp: lock_inv_def)
  then show ?case using nest by (cases cycs) (simp add: lp_lock_def lock_inv_def unat_step)
next
  case (unnest h t n st s c up)
  then have d: "unat (p_depth s) = n + 1" by (simp add: lock_inv_def)
  then have "p_depth s \<noteq> 0" by auto
  then have "unat (p_depth s - 1) = n" using d by (simp add: unat_minus_one)
  then have "p_depth s \<noteq> 0" "unat (p_depth s - 1) = n" "p_depth s - 1 \<noteq> 0"
    using unnest.hyps(2) d by auto
  then show ?case using unnest by (simp add: lp_unlock_def lock_inv_def)
next
  case (give h t st s c up)
  then have inv: "table_inv cfg hz h (p_rec s)" and l: "unat (p_depth s) = 1" "p_start s = st" "t \<in> set (takers h)" "owner_inv h t (p_owner s)"
    and hz: "lp_hz (p_rec s) = hz"
    by (simp_all add: lock_inv_def table_inv_def)
  have d: "p_depth s = 1" using l(1) by (metis unat_1 word_unat_eq_iff)
  have n: "length h + 1 < 2 ^ 32" using give.prems by simp
  show ?case using table_give [OF inv n l(4) l(3), of "c - st" up] d hz l(2)
    by (cases "p_owner s") (simp_all add: lp_unlock_def lock_inv_def Let_def)
next
  case (stray h s c up)
  then have inv: "table_inv cfg hz h (p_rec s)" and d: "p_depth s = 0" by (simp_all add: lock_inv_def)
  have "unat (lp_depth_errors (p_rec s)) + 1 < 2 ^ 32" using inv stray.prems event_counts [of h] by (simp add: table_inv_def)
  then show ?case using inv d by (simp add: lp_unlock_def lock_inv_def table_inv_def lp_ok_def unat_step)
next
  case (scan h m s infos space)
  then show ?case using table_inv_beside [OF _ beside_thread] by (cases m) (auto simp: lock_inv_def)
next
  case (pass h m s t nm sz unused dep)
  then show ?case using table_inv_beside [OF _ beside_pass] by (cases m) (auto simp: lock_inv_def)
qed

section \<open>The reading\<close>

text \<open>The bounds of the report's bins in microseconds, and the bins in cycles on a clock of \<open>p\<close> cycles a microsecond.\<close>

definition us_from :: "nat list" where "us_from = [0, 2, 5, 10, 50, 100, 500, 1000]"

definition in_us_bin :: "nat \<Rightarrow> nat \<Rightarrow> nat \<Rightarrow> bool" where
  "in_us_bin p b d \<longleftrightarrow> us_from ! b * p \<le> d \<and> (b < 7 \<longrightarrow> d < us_from ! (b + 1) * p)"

text \<open>An entry of the reading holds the sums of a thread's waits and holds.\<close>

definition holder_exact :: "u32 \<Rightarrow> nat \<Rightarrow> lp_event list \<Rightarrow> holder_view \<Rightarrow> bool" where
  "holder_exact cfg p h v \<longleftrightarrow> (\<exists>t. hv_tid v = uint t \<and>
     (let ws = of_thread t (takens h); gs = of_thread t (givens h)
      in hv_holds v = int (length gs) \<and> hv_hold_max v = int (longest (lens gs)) \<and> hv_steady_hold_max v = int (longest (lens (steady cfg gs)))
         \<and> hv_hold_sum v = int (sum_list (lens gs)) \<and> sum_list (hv_buckets v) = hv_holds v
         \<and> hv_buckets v = map (\<lambda>b. int (length (filter (in_us_bin p b) (lens gs)))) [0..<8]
         \<and> hv_wait_max v = int (longest (lens ws)) \<and> hv_steady_wait_max v = int (longest (lens (steady cfg ws)))
         \<and> hv_waits_over_5us v = int (length (filter (\<lambda>w. 5 * p < w) (lens ws)))))"

lemma lp_bin_iff:
  assumes hz: "hz = 1000000 * p" and p: "unat p * 1000000 < 2 ^ 32" and b: "b < 8"
  shows "unat (per_us hz) = unat p" and "lp_bin hz d = b \<longleftrightarrow> in_us_bin (unat p) b (unat d)"
proof -
  have "unat hz = 1000000 * unat p" using p by (simp add: hz unat_word_ariths)
  then show per: "unat (per_us hz) = unat p" by (simp add: per_us_def unat_div)
  have e: "e * per_us hz \<le> d \<longleftrightarrow> unat e * unat p \<le> unat d" if "unat e \<le> 1000" for e
  proof -
    have "unat e * unat p \<le> 1000 * unat p" using that by (rule mult_right_mono) simp
    also have "\<dots> < 2 ^ 32" using p by simp
    finally have "unat (e * per_us hz) = unat e * unat p" unfolding unat_word_ariths(2) per by simp
    then show ?thesis by (simp add: word_le_nat_alt)
  qed
  have mono: "m \<le> n \<Longrightarrow> m * unat p \<le> n * unat p" for m n :: nat by (rule mult_right_mono) simp_all
  have "b \<in> {0, 1, 2, 3, 4, 5, 6, 7}" using b by auto
  then show "lp_bin hz d = b \<longleftrightarrow> in_us_bin (unat p) b (unat d)"
    using mono [of 2 5] mono [of 5 10] mono [of 10 50] mono [of 50 100] mono [of 100 500] mono [of 500 1000]
    by (auto simp: lp_bin_def lp_edge_us_def in_us_bin_def us_from_def e)
qed

lemma sum_counts: "\<forall>x \<in> set xs. f x < n \<Longrightarrow> sum_list (map (\<lambda>b. length (filter (\<lambda>x. f x = b) xs)) [0..<n]) = length xs"
proof (induction xs)
  case (Cons x xs)
  have "length (filter (\<lambda>x. f x = b) (x # xs)) = (if f x = b then 1 else 0) + length (filter (\<lambda>x. f x = b) xs)" for b by simp
  then have "sum_list (map (\<lambda>b. length (filter (\<lambda>x. f x = b) (x # xs))) [0..<n])
      = sum_list (map (\<lambda>b. if f x = b then 1 else 0) [0..<n]) + sum_list (map (\<lambda>b. length (filter (\<lambda>x. f x = b) xs)) [0..<n])"
    by (simp only: sum_list_addf)
  moreover have "sum_list (map (\<lambda>b. if f x = b then 1 else (0 :: nat)) [0..<n]) = 1"
    using Cons.prems by (simp add: interv_sum_list_conv_sum_set_nat atLeast0LessThan)
  ultimately show ?case using Cons by simp
qed simp

lemma uint_of: "unat w = n \<Longrightarrow> uint w = int n"
  by auto

lemma holder_of_exact:
  assumes hz: "hz = 1000000 * p" and p: "unat p * 1000000 < 2 ^ 32"
    and s: "holder_sums cfg hz l (of_thread (lh_tid l) (takens h)) (of_thread (lh_tid l) (givens h))"
  shows "holder_exact cfg (unat p) h (holder_of l)"
proof -
  define ws gs where "ws = of_thread (lh_tid l) (takens h)" and "gs = of_thread (lh_tid l) (givens h)"
  have s: "holder_sums cfg hz l ws gs" using s by (simp add: ws_def gs_def)
  have per: "unat (per_us hz) = unat p" by (rule lp_bin_iff(1) [OF hz p, of 0]) simp
  have u: "uint w = int (unat w)" for w :: u32 by simp
  have ul: "map uint xs = map int (map unat xs)" for xs :: "u32 list" by simp
  have cnt: "length (filter (\<lambda>(d, u). lp_bin hz d = b) gs) = length (filter (in_us_bin (unat p) b) (lens gs))" if "b < 8" for b
    by (simp add: lp_bin_iff(2) [OF hz p that] lens_def filter_map comp_def case_prod_unfold)
  have bk: "map uint (lh_bucket l) = map (\<lambda>b. int (length (filter (in_us_bin (unat p) b) (lens gs)))) [0..<8]"
  proof -
    have "map unat (lh_bucket l) = map (\<lambda>b. length (filter (\<lambda>(d, u). lp_bin hz d = b) gs)) [0..<8]" using s by (simp add: holder_sums_def)
    also have "\<dots> = map (\<lambda>b. length (filter (in_us_bin (unat p) b) (lens gs))) [0..<8]" using cnt by (intro map_cong) simp_all
    finally show ?thesis unfolding ul by simp
  qed
  have tot: "sum_list (map uint (lh_bucket l)) = int (length gs)"
  proof -
    have "sum_list (map unat (lh_bucket l)) = sum_list (map (\<lambda>b. length (filter (\<lambda>x. lp_bin hz (fst x) = b) gs)) [0..<8])"
      using s by (simp add: holder_sums_def case_prod_unfold)
    also have "\<dots> = length gs" by (rule sum_counts) (simp add: lp_bin_lt)
    finally show ?thesis unfolding ul sum_list_of_nat by simp
  qed
  have w5: "length (filter (\<lambda>(w, u). 5 * unat (per_us hz) < unat w) ws) = length (filter (\<lambda>w. 5 * unat p < w) (lens ws))"
    by (simp add: per lens_def filter_map comp_def case_prod_unfold)
  have n: "unat (lh_holds l) = length gs" "unat (lh_hold_max l) = longest (lens gs)" "unat (lh_steady_max l) = longest (lens (steady cfg gs))"
    "unat (lh_wait_max l) = longest (lens ws)" "unat (lh_steady_wait l) = longest (lens (steady cfg ws))"
    "unat (lh_waits5 l) = length (filter (\<lambda>w. 5 * unat p < w) (lens ws))"
    and sum: "unat (lh_sum_lo l) + 2 ^ 32 * unat (lh_sum_hi l) = sum_list (lens gs)"
    using s w5 by (simp_all add: holder_sums_def)
  have sum: "uint (lh_sum_lo l) + 2 ^ 32 * uint (lh_sum_hi l) = int (sum_list (lens gs))"
    using arg_cong [OF sum, of int] by simp
  show ?thesis
    unfolding holder_exact_def Let_def
    by (rule exI [of _ "lh_tid l"]) (use sum tot [unfolded bk] in \<open>simp add: holder_of_def bk n [THEN uint_of] flip: ws_def gs_def\<close>)
qed

text \<open>The state once the benches have run and the runner has installed the wrapped lock.\<close>

definition lp_booted :: "u32 \<Rightarrow> u32 \<Rightarrow> u32 list \<Rightarrow> u32 list \<Rightarrow> u32 list \<Rightarrow> u32 list option \<Rightarrow> u32 list option \<Rightarrow> lp_state" where
  "lp_booted cfg hz es pair nested rec exec =
     \<lparr>p_rec = wrap_set_lock (island_lock_probe_bench cfg hz es pair nested rec exec lp_zero), p_depth = 0, p_start = 0, p_owner = None\<rparr>"

lemma booted_inv: "table_inv cfg hz [] (p_rec (lp_booted cfg hz es pair nested rec exec))"
proof -
  have "holder_ok holder_zero" "length name0 = 16" by (simp_all add: holder_ok_def holder_zero_def name0_def)
  moreover have "takers [] = []" by (simp add: takers_def)
  ultimately show ?thesis
    by (simp add: table_inv_def lp_booted_def wrap_set_lock_def island_lock_probe_bench_def lp_zero_def lp_ok_def tids_def tabled_def
        list_all_length map_replicate_const Let_def holder_zero_def [THEN arg_cong [where f = lh_tid]])
qed

lemma view_holders:
  assumes inv: "table_inv cfg hz h r"
  shows "map hv_tid (pv_holders (lp_view r)) = map uint (tabled h)"
    and "\<forall>v \<in> set (pv_holders (lp_view r)). \<exists>i < length (tabled h). v = holder_of (lp_holder r ! i)"
proof -
  have l4: "length (lp_holder r) = 4" and m: "map lh_tid (lp_holder r) = tids h" using inv by (simp_all add: table_inv_def lp_ok_def)
  have no0: "\<forall>t \<in> set (tabled h). t \<noteq> 0" using inv tabled_le(2) [of h] by (auto simp: table_inv_def)
  have "map lh_tid (filter (\<lambda>l. lh_tid l \<noteq> 0) (lp_holder r)) = filter (\<lambda>t. t \<noteq> 0) (map lh_tid (lp_holder r))"
    by (simp add: filter_map comp_def)
  also have "\<dots> = tabled h" unfolding m tids_def using no0 by (simp add: filter_id_conv)
  finally have f: "map lh_tid (filter (\<lambda>l. lh_tid l \<noteq> 0) (lp_holder r)) = tabled h" .
  show "map hv_tid (pv_holders (lp_view r)) = map uint (tabled h)"
    by (simp add: lp_view_def holder_of_def comp_def flip: f)
  show "\<forall>v \<in> set (pv_holders (lp_view r)). \<exists>i < length (tabled h). v = holder_of (lp_holder r ! i)"
  proof
    fix v assume "v \<in> set (pv_holders (lp_view r))"
    then obtain i where i: "i < 4" "lh_tid (lp_holder r ! i) \<noteq> 0" "v = holder_of (lp_holder r ! i)"
      by (auto simp: lp_view_def in_set_conv_nth l4)
    then show "\<exists>i < length (tabled h). v = holder_of (lp_holder r ! i)" using slot_tid [OF inv, of i] by (auto split: if_splits)
  qed
qed

lemma report_total:
  assumes "pv_hz d \<noteq> 0"
  shows "\<exists>t. lock_report d = Inr t"
proof -
  have "\<exists>ls. bench_line d kl = Inr ls" for kl using assms by (auto simp: bench_line_def us_text_def split: option.split)
  then obtain f where f: "bench_line d kl = Inr (f kl)" for kl by metis
  have "\<exists>ls. holder_lines (pv_hz d) v = Inr ls" for v using assms by (simp add: holder_lines_def us_text_def Let_def)
  then obtain g where g: "holder_lines (pv_hz d) v = Inr (g v)" for v by metis
  have "rmap (bench_line d) bench_labels = Inr (map f bench_labels)" "rmap (holder_lines (pv_hz d)) (pv_holders d) = Inr (map g (pv_holders d))"
    by (rule rmap_total, rule f, rule rmap_total, rule g)
  then show ?thesis by (simp add: lock_report_def)
qed

text \<open>C40. The readout of the lock probe is exact: after any run of the executor's lock (up to \<open>2 ^ 32\<close> events, scans and level
  passes between them) the decoded record lists the first four threads that took the lock, in that order, and for each of
  them the number, longest length, sum and microsecond histogram of its outermost holds and its longest waits, overall and
  past the steady mark; the histogram accounts for every hold; a hold by a further thread and an unlock of the free lock are
  counted and nothing else; and the report is printed.\<close>

theorem lock_probe_exact:
  assumes "lp_run cfg (lp_booted cfg (1000000 * p) es pair nested rec exec) h m s"
    and "0 < unat p" and "unat p * 1000000 < 2 ^ 32" and "length h < 2 ^ 32"
  shows "\<exists>d text. lock_decode (lp_bytes (p_rec s)) = Inr d \<and> map hv_tid (pv_holders d) = map uint (tabled h)
    \<and> list_all (holder_exact cfg (unat p) h) (pv_holders d)
    \<and> pv_overflow d = int (length (filter (\<lambda>x. fst x \<notin> set (tabled h)) (takens h))) \<and> pv_depth_errors d = int (strays h)
    \<and> lock_report d = Inr text"
proof -
  define r where "r = p_rec s"
  have "p_depth (lp_booted cfg (1000000 * p) es pair nested rec exec) = 0" by (simp add: lp_booted_def)
  with lp_run_inv [OF assms(1) booted_inv _ assms(4)] have inv: "table_inv cfg (1000000 * p) h r" by (simp add: r_def)
  then have dec: "lock_decode (lp_bytes r) = Inr (lp_view r)" by (intro lock_decode_bytes) (simp_all add: table_inv_def)
  have "holder_exact cfg (unat p) h v" if "v \<in> set (pv_holders (lp_view r))" for v
  proof -
    from that view_holders(2) [OF inv] have "\<exists>i < length (tabled h). v = holder_of (lp_holder r ! i)" by (rule bspec [rotated])
    then obtain i where i: "i < length (tabled h)" "v = holder_of (lp_holder r ! i)" by auto
    then have "lh_tid (lp_holder r ! i) = tabled h ! i" using slot_tid [OF inv, of i] tabled_le(1) [of h] by simp
    then show ?thesis using holder_of_exact [OF refl assms(3), of cfg "lp_holder r ! i" h] inv i by (simp add: table_inv_def)
  qed
  then have all: "list_all (holder_exact cfg (unat p) h) (pv_holders (lp_view r))" by (simp add: list_all_iff)
  have "unat (1000000 * p) = 1000000 * unat p" using assms(3) by (simp add: unat_word_ariths)
  then have "uint (1000000 * p) = 1000000 * int (unat p)" using uint_of by fastforce
  moreover have "uint p \<noteq> 0" using assms(2) by (metis nat_0 uint_nat unat_eq_nat_uint less_irrefl)
  ultimately have "pv_hz (lp_view r) \<noteq> 0" using inv by (simp add: table_inv_def lp_view_def)
  then obtain t where "lock_report (lp_view r) = Inr t" using report_total by blast
  moreover have "pv_overflow (lp_view r) = int (length (filter (\<lambda>x. fst x \<notin> set (tabled h)) (takens h)))"
    "pv_depth_errors (lp_view r) = int (strays h)"
    using inv uint_of [of "lp_overflow r"] uint_of [of "lp_depth_errors r"] by (simp_all add: table_inv_def lp_view_def)
  ultimately show ?thesis using dec all view_holders(1) [OF inv] unfolding r_def by blast
qed

definition demo_lock :: "lp_event list" where
  "demo_lock = [Taken 5 7 20, Given 5 300 21, Taken 9 3 30, Given 9 90 31, Stray]"

lemma demo_lock_run:
  "\<exists>s. lp_run 0 s0 demo_lock None s"
proof -
  note run = lp_run.boot [of 0 s0]
  note run = lp_run.take [OF run, of 5 7 0 20 100]
  note run = lp_run.give [OF run, of 400 21]
  note run = lp_run.take [OF run, of 9 43 40 30 1000]
  note run = lp_run.give [OF run, of 1090 31]
  note run = lp_run.stray [OF run]
  from run [of 0 0 2 None 1 None] show ?thesis by (intro exI) (simp add: demo_lock_def)
qed

theorem lock_probe_exact_witness:
  "\<exists>s d. lp_run 0 (lp_booted 0 160000000 (replicate 1000 2) (replicate 1000 90) (replicate 1000 40) None None) demo_lock None s
    \<and> lock_decode (lp_bytes (p_rec s)) = Inr d \<and> map hv_tid (pv_holders d) = [5, 9] \<and> pv_depth_errors d = 1 \<and> pv_overflow d = 0"
proof -
  let ?s0 = "lp_booted 0 (1000000 * 160) (replicate 1000 2) (replicate 1000 90) (replicate 1000 40) None None"
  obtain s where s: "lp_run 0 ?s0 demo_lock None s" using demo_lock_run by blast
  have t: "tabled demo_lock = [5, 9]" "strays demo_lock = 1" "map fst (takens demo_lock) = [5, 9]"
    by (simp_all add: demo_lock_def tabled_def takers_def takens_def strays_def List.map_filter_def)
  have l: "length demo_lock < 2 ^ 32" by (simp add: demo_lock_def)
  have "filter (\<lambda>x. fst x \<notin> set (tabled demo_lock)) (takens demo_lock) = []"
    using arg_cong [OF t(3), of set] by (auto simp: t(1) filter_empty_conv)
  with lock_probe_exact [OF s _ _ l] t show ?thesis using s by fastforce
qed

end
