(* ===== verification/Trace_Window.thy ===== *)
theory Trace_Window
  imports Readout Marker_Table
begin

text \<open>The trace window of \<^verbatim>\<open>src/safety_island_tracing/include/island_trace.h\<close> (\<open>CONFIG_ISLAND_TRACE_WINDOW\<close>): the record
  policy, the pre-trigger ring of two halves, the trigger, the re-arm and the heartbeat, on the words the debugger sees
  (\<open>tw\<close>) and the state beside them.

  An operation runs under \<open>irq_lock\<close>, so it is one step. What it reads, the stamp and the uptime, are its arguments.
  \<open>w_out\<close> is the stream handed to the RAM backend since its \<open>init\<close>; the backend, which stops when its buffer is full, is
  Zephyr's. A half is its filled part. The sums of stamp differences (\<open>uint64_t\<close>, at most 13000 records of a \<open>uint32_t\<close>
  each) are naturals.\<close>

type_synonym u16 = "16 word"

record wconf =
  wc_dec :: dconf               \<comment> \<open>the event id's width and base\<close>
  wc_half :: nat                \<comment> \<open>\<open>ISLAND_TRACE_HALF\<close>\<close>
  wc_pre_ms :: nat
  wc_spin_keep :: nat
  wc_policy :: "rec_policy list"
  wc_trigger :: u16
  wc_arm :: u16
  wc_violation :: u16
  wc_prov :: string

text \<open>The record policy's state, by marker.\<close>

record pol =
  p_last_arg :: "u32 list"
  p_seen :: "bool list"
  p_skip :: "bool list"
  p_spins :: "u16 list"

record win = tw +
  w_pre :: "bytes list"
  w_pre_cur :: nat
  w_pol :: pol
  w_armed :: bool
  w_reopen :: bool
  w_filtered :: u32
  w_pre_lost :: u32
  w_pre_n :: u32
  w_out :: bytes

definition win_boot :: "wconf \<Rightarrow> win" where
  "win_boot cfg = \<lparr>w_hb_seq = 0, w_hb_uptime = 0, w_triggered = 0, w_trigger_uptime = 0, w_rearm = 0, w_rearms = 0, w_rearm_uptime = 0,
     w_pre = [[], []], w_pre_cur = 0,
     w_pol = (let n = length (wc_policy cfg) in \<lparr>p_last_arg = replicate n 0, p_seen = replicate n False, p_skip = replicate n False,
       p_spins = replicate n 0\<rparr>),
     w_armed = False, w_reopen = False, w_filtered = 0, w_pre_lost = 0, w_pre_n = 0, w_out = []\<rparr>"

section \<open>Records\<close>

definition marker_bytes :: "wconf \<Rightarrow> u32 \<Rightarrow> u16 \<Rightarrow> u32 \<Rightarrow> bytes" where
  "marker_bytes cfg ts m arg = put_rec (wc_dec cfg) (uint ts, WMarker (uint m) (uint arg))"

definition heartbeat_bytes :: "wconf \<Rightarrow> u32 \<Rightarrow> u32 \<Rightarrow> u32 \<Rightarrow> bytes" where
  "heartbeat_bytes cfg ts sq up = put_rec (wc_dec cfg) (uint ts, WHeartbeat (uint sq) (uint up))"

definition put_provenance :: "wconf \<Rightarrow> u32 \<Rightarrow> win \<Rightarrow> win" where
  "put_provenance cfg ts s = s\<lparr>w_out := w_out s @ put_rec (wc_dec cfg) (uint ts, WProvenance (wc_prov cfg))\<rparr>"

definition id_len :: "wconf \<Rightarrow> nat" where "id_len cfg = id_size (dc_tsdl (wc_dec cfg))"

definition rec_len :: "wconf \<Rightarrow> bytes \<Rightarrow> nat" where
  "rec_len cfg r =
     (if le_int (bslice r 4 (4 + id_len cfg)) = dc_base (wc_dec cfg) + 1 then 4 + id_len cfg + 8 else 4 + id_len cfg + 6)"

section \<open>The pre-trigger ring\<close>

definition pre_put :: "wconf \<Rightarrow> bytes \<Rightarrow> win \<Rightarrow> win" where
  "pre_put cfg r s =
     (let c = w_pre_cur s; swap = length (w_pre s ! c) + length r > wc_half cfg; c1 = (if swap then 1 - c else c);
          half = (if swap then [] else w_pre s ! c)
      in s\<lparr>w_pre_cur := c1, w_pre := (w_pre s)[c1 := half @ r], w_pre_n := w_pre_n s + 1\<rparr>)"

definition trace_keep :: "wconf \<Rightarrow> u16 \<Rightarrow> u32 \<Rightarrow> pol \<Rightarrow> bool \<times> pol" where
  "trace_keep cfg m16 arg p =
     (let m = unat m16 in
      if m = 0 \<or> m \<ge> length (wc_policy cfg) then (True, p)
      else (case wc_policy cfg ! m of
          REC_CHANGE \<Rightarrow>
            if p_seen p ! m \<and> p_last_arg p ! m = arg then (False, p)
            else (True, p\<lparr>p_seen := (p_seen p)[m := True], p_last_arg := (p_last_arg p)[m := arg]\<rparr>)
        | REC_SPIN_ENTRY \<Rightarrow>
            (let keep = (\<not> p_seen p ! m \<or> p_last_arg p ! m \<noteq> arg \<or> unat (p_spins p ! m) + 1 \<ge> wc_spin_keep cfg)
             in (keep, p\<lparr>p_seen := (p_seen p)[m := True], p_last_arg := (p_last_arg p)[m := arg],
                   p_spins := (p_spins p)[m := if keep then 0 else p_spins p ! m + 1], p_skip := (p_skip p)[m := \<not> keep]\<rparr>))
        | REC_SPIN_EXIT \<Rightarrow> (\<not> p_skip p ! (m - 1), p)
        | REC_EVERY \<Rightarrow> (True, p)))"

section \<open>The trigger\<close>

definition stamp_at :: "bytes \<Rightarrow> nat \<Rightarrow> u32" where
  "stamp_at seg i = word_of_int (le_int (bslice seg i (i + 4)))"

lemma rec_len_pos: "0 < rec_len cfg r"
  by (simp add: rec_len_def)

text \<open>Pass 1 over a half: the time since the oldest record, the last stamp, and whether there was one.\<close>

function age_scan :: "wconf \<Rightarrow> bytes \<Rightarrow> nat \<Rightarrow> nat \<times> u32 \<times> bool \<Rightarrow> nat \<times> u32 \<times> bool" where
  "age_scan cfg seg i st =
     (if i < length seg then
        (let (rel, prev, have) = st; ts = stamp_at seg i
         in age_scan cfg seg (i + rec_len cfg (drop i seg)) (rel + (if have then unat (ts - prev) else 0), ts, True))
      else st)"
  by pat_completeness auto

termination age_scan
  by (relation "measure (\<lambda>(cfg, seg, i, st). length seg - i)") (use rec_len_pos in \<open>auto simp: diff_less_mono2\<close>)

text \<open>Pass 2: \<open>start\<close>, the first record within \<open>pre_ms\<close> of now (the half's length when there is none), and how many from
  it on.\<close>

function flush_scan :: "wconf \<Rightarrow> nat \<Rightarrow> bytes \<Rightarrow> nat \<Rightarrow> (nat \<times> u32 \<times> bool) \<times> nat \<times> nat \<Rightarrow> (nat \<times> u32 \<times> bool) \<times> nat \<times> nat" where
  "flush_scan cfg now_rel seg i st =
     (if i < length seg then
        (let ((rel, prev, have), start, kept) = st; ts = stamp_at seg i; rel1 = rel + (if have then unat (ts - prev) else 0);
             start1 = (if start = length seg \<and> now_rel - rel1 \<le> wc_pre_ms cfg * 1000000 then i else start);
             kept1 = (if start1 \<noteq> length seg then kept + 1 else kept)
         in flush_scan cfg now_rel seg (i + rec_len cfg (drop i seg)) ((rel1, ts, True), start1, kept1))
      else st)"
  by pat_completeness auto

termination flush_scan
  by (relation "measure (\<lambda>(cfg, now, seg, i, st). length seg - i)") (use rec_len_pos in \<open>auto simp: diff_less_mono2\<close>)

declare age_scan.simps [simp del] flush_scan.simps [simp del]

definition trace_fire :: "wconf \<Rightarrow> u32 \<Rightarrow> u16 \<Rightarrow> u32 \<Rightarrow> win \<Rightarrow> win" where
  "trace_fire cfg now m up s =
     (let seg0 = w_pre s ! (1 - w_pre_cur s); seg1 = w_pre s ! w_pre_cur s;
          (rel, prev, have) = age_scan cfg seg1 0 (age_scan cfg seg0 0 (0, 0, False));
          now_rel = (if have then rel + unat (now - prev) else 0);
          (st0, start0, kept0) = flush_scan cfg now_rel seg0 0 ((0, prev, False), length seg0, 0);
          (st1, start1, kept) = flush_scan cfg now_rel seg1 0 (st0, length seg1, kept0);
          lost = w_pre_n s - of_nat kept;
          trig = put_rec (wc_dec cfg) (uint now, WTrigger (uint m) (int (wc_pre_ms cfg)) (int kept) (int (wc_spin_keep cfg))
                   (uint lost) (uint (w_filtered s)));
          p = w_pol s; n = length (wc_policy cfg)
      in s\<lparr>w_pre_lost := lost, w_out := w_out s @ drop start0 seg0 @ drop start1 seg1 @ trig,
           w_pol := p\<lparr>p_seen := replicate n False, p_spins := replicate n 0\<rparr>,
           w_trigger_uptime := up, w_triggered := 1\<rparr>)"

definition fires :: "wconf \<Rightarrow> bool \<Rightarrow> bool \<Rightarrow> u16 \<Rightarrow> bool" where
  "fires cfg armed reopen m \<longleftrightarrow> armed \<and> m = wc_trigger cfg \<or> reopen \<and> m = wc_arm cfg \<or> m = wc_violation cfg"

definition marker_windowed :: "wconf \<Rightarrow> u32 \<Rightarrow> u32 \<Rightarrow> u16 \<Rightarrow> u32 \<Rightarrow> win \<Rightarrow> win" where
  "marker_windowed cfg ts up m arg s =
     (let s1 = (if w_triggered s = 0 then
                  (let a = s\<lparr>w_armed := w_armed s \<or> m = wc_arm cfg \<and> arg \<noteq> 0\<rparr>
                   in if fires cfg (w_armed a) (w_reopen a) m then trace_fire cfg ts m up a else a)
                else s);
          (keep, p) = trace_keep cfg m arg (w_pol s1); s2 = s1\<lparr>w_pol := p\<rparr>
      in if \<not> keep then s2\<lparr>w_filtered := w_filtered s2 + 1\<rparr>
         else if w_triggered s2 \<noteq> 0 then s2\<lparr>w_out := w_out s2 @ marker_bytes cfg ts m arg\<rparr>
         else pre_put cfg (marker_bytes cfg ts m arg) s2)"

section \<open>Re-arm, heartbeat, start\<close>

definition window_rearm :: "wconf \<Rightarrow> u32 \<Rightarrow> u32 \<Rightarrow> win \<Rightarrow> win" where
  "window_rearm cfg ts up s =
     (let n = length (wc_policy cfg); s1 = put_provenance cfg ts (s\<lparr>w_out := []\<rparr>)
      in s1\<lparr>w_pre := [[], []], w_pre_cur := 0,
           w_pol := (w_pol s1)\<lparr>p_seen := replicate n False, p_spins := replicate n 0, p_skip := replicate n False\<rparr>,
           w_armed := False, w_reopen := True, w_pre_n := 0, w_pre_lost := 0, w_filtered := 0, w_trigger_uptime := 0,
           w_rearms := w_rearms s1 + 1, w_rearm_uptime := up, w_triggered := 0, w_rearm := 0\<rparr>)"

text \<open>\<open>re\<close> is the stamp and the uptime read again when the window is re-armed.\<close>

definition trace_heartbeat :: "wconf \<Rightarrow> u32 \<Rightarrow> u32 \<Rightarrow> u32 \<times> u32 \<Rightarrow> win \<Rightarrow> win" where
  "trace_heartbeat cfg ts up re s =
     (let sq = w_hb_seq s; s1 = s\<lparr>w_hb_seq := sq + 1, w_hb_uptime := up\<rparr>;
          s2 = (if w_rearm s1 \<noteq> 0 then window_rearm cfg (fst re) (snd re) s1 else s1)
      in if w_triggered s2 = 0 then pre_put cfg (heartbeat_bytes cfg ts sq up) s2
         else s2\<lparr>w_out := w_out s2 @ heartbeat_bytes cfg ts sq up\<rparr>)"

definition trace_start :: "wconf \<Rightarrow> u32 \<Rightarrow> win \<Rightarrow> win" where
  "trace_start cfg ts s = put_provenance cfg ts s"

end
