(* ===== verification/Window_Stream.thy ===== *)
theory Window_Stream
  imports Trace_Window
begin

text \<open>What a run of the trace window leaves in the stream: the records the policy keeps, from the last \<open>pre_ms\<close> before
  the trigger on, whole and in order, with the trigger's own counts; and what the decoder makes of it.\<close>

section \<open>A run and the records it is to keep\<close>

text \<open>A call, at its true time in ns: a marker with its argument, or the heartbeat timer; both with the uptime.\<close>

datatype wev = Mark int u16 u32 u32 | Beat int u32

fun wstep :: "wconf \<Rightarrow> win \<Rightarrow> wev \<Rightarrow> win" where
  "wstep cfg s (Mark T m arg up) = marker_windowed cfg (word_of_int T) up m arg s"
| "wstep cfg s (Beat T up) = trace_heartbeat cfg (word_of_int T) up (word_of_int T, up) s"

abbreviation wrun :: "wconf \<Rightarrow> wev list \<Rightarrow> win \<Rightarrow> win" where
  "wrun cfg es s \<equiv> foldl (wstep cfg) s es"

fun recs :: "wconf \<Rightarrow> pol \<Rightarrow> u32 \<Rightarrow> wev list \<Rightarrow> (int \<times> wrec) list" where
  "recs cfg p q [] = []"
| "recs cfg p q (Mark T m arg up # es) =
     (let (k, p1) = trace_keep cfg m arg p in (if k then [(T, WMarker (uint m) (uint arg))] else []) @ recs cfg p1 q es)"
| "recs cfg p q (Beat T up # es) = (T, WHeartbeat (uint q) (uint up)) # recs cfg p (q + 1) es"

fun pol_after :: "wconf \<Rightarrow> pol \<Rightarrow> wev list \<Rightarrow> pol" where
  "pol_after cfg p [] = p"
| "pol_after cfg p (Mark T m arg up # es) = pol_after cfg (snd (trace_keep cfg m arg p)) es"
| "pol_after cfg p (Beat T up # es) = pol_after cfg p es"

fun dropped :: "wconf \<Rightarrow> pol \<Rightarrow> wev list \<Rightarrow> nat" where   \<comment> \<open>markers the policy drops\<close>
  "dropped cfg p [] = 0"
| "dropped cfg p (Mark T m arg up # es) =
     (if fst (trace_keep cfg m arg p) then 0 else 1) + dropped cfg (snd (trace_keep cfg m arg p)) es"
| "dropped cfg p (Beat T up # es) = dropped cfg p es"

fun hb_calls :: "wev list \<Rightarrow> nat" where
  "hb_calls [] = 0"
| "hb_calls (Mark T m arg up # es) = hb_calls es"
| "hb_calls (Beat T up # es) = Suc (hb_calls es)"

text \<open>No call of \<open>es\<close> opens the window.\<close>

fun quiet :: "wconf \<Rightarrow> bool \<Rightarrow> bool \<Rightarrow> wev list \<Rightarrow> bool" where
  "quiet cfg re a [] = True"
| "quiet cfg re a (Mark T m arg up # es) =
     (let a1 = (a \<or> m = wc_arm cfg \<and> arg \<noteq> 0) in \<not> fires cfg a1 re m \<and> quiet cfg re a1 es)"
| "quiet cfg re a (Beat T up # es) = quiet cfg re a es"

fun armed_after :: "wconf \<Rightarrow> bool \<Rightarrow> wev list \<Rightarrow> bool" where
  "armed_after cfg a [] = a"
| "armed_after cfg a (Mark T m arg up # es) = armed_after cfg (a \<or> m = wc_arm cfg \<and> arg \<noteq> 0) es"
| "armed_after cfg a (Beat T up # es) = armed_after cfg a es"

definition reset_pol :: "wconf \<Rightarrow> pol \<Rightarrow> pol" where
  "reset_pol cfg p = p\<lparr>p_seen := replicate (length (wc_policy cfg)) False, p_spins := replicate (length (wc_policy cfg)) 0\<rparr>"

text \<open>The ring, at the level of records.\<close>

definition ring_put :: "wconf \<Rightarrow> (int \<times> wrec) list \<times> (int \<times> wrec) list \<Rightarrow> int \<times> wrec \<Rightarrow> (int \<times> wrec) list \<times> (int \<times> wrec) list" where
  "ring_put cfg ab r =
     (if length (stream (wc_dec cfg) (snd ab)) + length (put_rec (wc_dec cfg) r) > wc_half cfg then (snd ab, [r])
      else (fst ab, snd ab @ [r]))"

definition ring_of :: "wconf \<Rightarrow> (int \<times> wrec) list \<Rightarrow> (int \<times> wrec) list \<times> (int \<times> wrec) list" where
  "ring_of cfg rs = foldl (ring_put cfg) ([], []) rs"

definition ring_list :: "wconf \<Rightarrow> (int \<times> wrec) list \<Rightarrow> (int \<times> wrec) list" where
  "ring_list cfg rs = fst (ring_of cfg rs) @ snd (ring_of cfg rs)"

definition recent :: "wconf \<Rightarrow> int \<Rightarrow> int \<times> wrec \<Rightarrow> bool" where
  "recent cfg now r \<longleftrightarrow> now - fst r \<le> int (wc_pre_ms cfg) * 1000000"

definition wconf_ok :: "wconf \<Rightarrow> bool" where
  "wconf_ok cfg \<longleftrightarrow> conf_ok (wc_dec cfg) \<and> 14 \<le> wc_half cfg \<and> wc_half cfg < 2 ^ 16 \<and> wc_pre_ms cfg < 2 ^ 16 \<and> wc_spin_keep cfg < 2 ^ 16
     \<and> wrec_ok (WProvenance (wc_prov cfg))"

text \<open>The window freshly started or re-armed.\<close>

definition fresh :: "wconf \<Rightarrow> int \<Rightarrow> win \<Rightarrow> bool" where
  "fresh cfg Tp s \<longleftrightarrow> w_pre s = [[], []] \<and> w_pre_cur s = 0 \<and> w_triggered s = 0 \<and> w_rearm s = 0 \<and> \<not> w_armed s \<and> w_pre_n s = 0
     \<and> w_filtered s = 0 \<and> w_out s = put_rec (wc_dec cfg) (Tp, WProvenance (wc_prov cfg))"

section \<open>Records in memory\<close>

lemma put_rec_mod: "put_rec d (T, w) = put_rec d (uint (word_of_int T :: u32), w)"
proof -
  have "le_bytes n (x mod 256 ^ n) = le_bytes n x" for n x
  proof (induction n arbitrary: x)
    case (Suc n)
    have "x mod (256 * 256 ^ n) div 256 = x div 256 mod 256 ^ n" by (simp add: zmod_zmult2_eq)
    moreover have "(word_of_int (x mod (256 * 256 ^ n)) :: byte) = word_of_int x"
      by (simp add: word_of_int_eq_iff take_bit_eq_mod mod_mod_cancel)
    ultimately show ?case using Suc by simp
  qed simp
  from this [of 4 T] show ?thesis by (simp add: put_rec_def uint_word_of_int)
qed

lemma stream_simps [simp]: "stream d [] = []" "stream d (xs @ ys) = stream d xs @ stream d ys" "stream d (r # xs) = put_rec d r @ stream d xs"
  by (simp_all add: stream_def)

definition plain :: "int \<times> wrec \<Rightarrow> bool" where   \<comment> \<open>what the ring holds\<close>
  "plain r \<longleftrightarrow> (case snd r of WMarker _ _ \<Rightarrow> True | WHeartbeat _ _ \<Rightarrow> True | _ \<Rightarrow> False)"

lemma plain_len: "plain r \<Longrightarrow> length (put_rec d r) = 4 + id_size (dc_tsdl d) + (if wrec_ev (snd r) = 1 then 8 else 6)"
  by (cases r; cases "snd r") (auto simp: plain_def put_rec_def)

lemma rec_len_put:
  assumes "wconf_ok cfg" "plain r"
  shows "rec_len cfg (put_rec (wc_dec cfg) r @ rest) = length (put_rec (wc_dec cfg) r)"
proof -
  have ev: "wrec_ev (snd r) = 0 \<or> wrec_ev (snd r) = 1" using assms(2) by (cases r; cases "snd r") (auto simp: plain_def)
  have c: "id_size (dc_tsdl (wc_dec cfg)) \<in> {1, 2}" "dc_base (wc_dec cfg) = ev_base (dc_tsdl (wc_dec cfg))"
    using assms(1) by (simp_all add: wconf_ok_def conf_ok_def)
  have "bslice (put_rec (wc_dec cfg) r @ rest) 4 (4 + id_len cfg) = le_bytes (id_len cfg) (dc_base (wc_dec cfg) + wrec_ev (snd r))"
    by (simp add: put_rec_def bslice_def id_len_def)
  moreover have "le_int (le_bytes (id_len cfg) (dc_base (wc_dec cfg) + wrec_ev (snd r))) = dc_base (wc_dec cfg) + wrec_ev (snd r)"
    using c ev by (intro le_int_le_bytes_id) (auto simp: id_len_def ev_base_def)
  ultimately show ?thesis using ev plain_len [OF assms(2), of "wc_dec cfg"] by (simp add: rec_len_def id_len_def)
qed

lemma stamp_put: "stamp_at (pre @ put_rec d (T, w) @ rest) (length pre) = word_of_int T"
proof -
  have "bslice (pre @ put_rec d (T, w) @ rest) (length pre) (length pre + 4) = le_bytes 4 T"
    by (simp add: put_rec_def bslice_def)
  then show ?thesis by (simp add: stamp_at_def le_int_le_bytes word_of_int_eq_iff take_bit_eq_mod)
qed

lemma put_rec_ne: "0 < length (put_rec d r)"
  by (simp add: put_rec_def)

section \<open>The two passes of the trigger\<close>

definition age_step :: "nat \<times> u32 \<times> bool \<Rightarrow> int \<Rightarrow> nat \<times> u32 \<times> bool" where
  "age_step st T = (fst st + (if snd (snd st) then unat (word_of_int T - fst (snd st)) else 0), word_of_int T, True)"

abbreviation ages :: "nat \<times> u32 \<times> bool \<Rightarrow> (int \<times> wrec) list \<Rightarrow> nat \<times> u32 \<times> bool" where
  "ages st rs \<equiv> foldl age_step st (map fst rs)"

text \<open>In time order, consecutive stamps less than \<open>2 ^ 32\<close> ns apart.\<close>

fun near :: "int \<Rightarrow> int list \<Rightarrow> bool" where
  "near T0 [] = True"
| "near T0 (T # ts) = (T0 \<le> T \<and> T - T0 < 2 ^ 32 \<and> near T ts)"

lemma near_append: "near T0 (xs @ ys) \<longleftrightarrow> near T0 xs \<and> near (last (T0 # xs)) ys"
  by (induction xs arbitrary: T0) auto

lemma near_ge: "near T0 ts \<Longrightarrow> T \<in> set ts \<Longrightarrow> T0 \<le> T"
  by (induction ts arbitrary: T0) force+

lemma near_le_last: "near T0 ts \<Longrightarrow> T \<in> set (T0 # ts) \<Longrightarrow> T \<le> last (T0 # ts)"
proof (induction ts arbitrary: T0 T)
  case (Cons t ts)
  from Cons.prems have "near t ts" "T0 \<le> t" by auto
  with Cons.IH [of t t] Cons.IH [of t T] Cons.prems(2) show ?case by auto
qed simp

lemma age_scan_stream:
  assumes "wconf_ok cfg" "\<forall>r \<in> set rs. plain r"
  shows "age_scan cfg (pre @ stream (wc_dec cfg) rs) (length pre) st = ages st rs"
  using assms(2)
proof (induction rs arbitrary: pre st)
  case Nil
  show ?case by (subst age_scan.simps) simp
next
  case (Cons r rs)
  let ?d = "wc_dec cfg"
  obtain T w where r: "r = (T, w)" by (cases r)
  obtain rel prev have' where st: "st = (rel, prev, have')" by (cases st)
  have seg: "pre @ stream ?d (r # rs) = pre @ put_rec ?d r @ stream ?d rs" by (simp add: stream_def)
  have "rec_len cfg (drop (length pre) (pre @ put_rec ?d r @ stream ?d rs)) = length (put_rec ?d r)"
    using rec_len_put [OF assms(1), of r] Cons.prems by simp
  then have "age_scan cfg (pre @ stream ?d (r # rs)) (length pre) st
      = age_scan cfg ((pre @ put_rec ?d r) @ stream ?d rs) (length (pre @ put_rec ?d r)) (age_step st T)"
    unfolding seg by (subst age_scan.simps) (use put_rec_ne [of ?d r] in \<open>simp add: st age_step_def stamp_put [of pre ?d T w, folded r] Let_def\<close>)
  also have "\<dots> = ages (age_step st T) rs" by (rule Cons.IH) (use Cons.prems in simp)
  finally show ?case by (simp add: r)
qed

lemma age_step_next:
  assumes "T0 \<le> Tl" "Tl \<le> T" "T - Tl < 2 ^ 32"
  shows "age_step (nat (Tl - T0), word_of_int Tl, True) T = (nat (T - T0), word_of_int T, True)"
proof -
  have "uint (word_of_int T - word_of_int Tl :: u32) = T - Tl"
    using assms by (simp add: uint_word_ariths uint_word_of_int mod_diff_eq)
  then have "unat (word_of_int T - word_of_int Tl :: u32) = nat (T - Tl)" by (simp flip: nat_uint_eq)
  then show ?thesis using assms by (simp add: age_step_def flip: nat_add_distrib)
qed

lemma ages_near:
  "near Tl (map fst rs) \<Longrightarrow> T0 \<le> Tl \<Longrightarrow> ages (nat (Tl - T0), word_of_int Tl, True) rs
    = (nat (last (Tl # map fst rs) - T0), word_of_int (last (Tl # map fst rs)), True)"
proof (induction rs arbitrary: Tl)
  case (Cons r rs)
  then have "ages (nat (fst r - T0), word_of_int (fst r), True) rs
      = (nat (last (fst r # map fst rs) - T0), word_of_int (last (fst r # map fst rs)), True)" by simp
  then show ?case using Cons.prems age_step_next [of T0 Tl "fst r"] by simp
qed simp

lemma flush_scan_step:
  assumes ok: "wconf_ok cfg" "plain r" and seg: "seg = pre @ put_rec (wc_dec cfg) r @ rest"
    and T: "age_step st (fst r) = (nat (fst r - T0), word_of_int (fst r), True)" "T0 \<le> fst r" "fst r \<le> now"
  shows "flush_scan cfg (nat (now - T0)) seg (length pre) (st, start, kept)
    = flush_scan cfg (nat (now - T0)) seg (length (pre @ put_rec (wc_dec cfg) r))
        (age_step st (fst r), if start = length seg \<and> recent cfg now r then length pre else start,
         if start = length seg \<and> \<not> recent cfg now r then kept else kept + 1)"
proof -
  obtain U w where r: "r = (U, w)" by (cases r)
  obtain rel prev have' where st: "st = (rel, prev, have')" by (cases st)
  have "rec_len cfg (drop (length pre) seg) = length (put_rec (wc_dec cfg) r)" unfolding seg using rec_len_put [OF ok] by simp
  moreover have "stamp_at seg (length pre) = word_of_int U" unfolding seg r by (rule stamp_put)
  moreover have lt: "length pre < length seg" using put_rec_ne [of "wc_dec cfg" r] by (simp add: seg)
  moreover have "nat (now - T0) - nat (U - T0) \<le> wc_pre_ms cfg * 1000000 \<longleftrightarrow> recent cfg now r"
  proof -
    have "nat (now - T0) - nat (U - T0) = nat (now - U)" using T by (simp add: r flip: nat_diff_distrib)
    then show ?thesis by (simp add: recent_def r nat_le_iff)
  qed
  moreover have rel: "rel + (if have' then unat (word_of_int U - prev) else 0) = nat (U - T0)" using T(1) by (cases have') (simp_all add: st r age_step_def)
  moreover have "age_step st (fst r) = (nat (U - T0), word_of_int U, True)" using T(1) by (simp add: r)
  ultimately show ?thesis
    by (subst flush_scan.simps) (auto simp: st Let_def)
qed

definition chained :: "int \<Rightarrow> int \<Rightarrow> nat \<times> u32 \<times> bool \<Rightarrow> (int \<times> wrec) list \<Rightarrow> bool" where
  "chained T0 now st rs \<longleftrightarrow> (\<forall>r \<in> set rs. fst r \<le> now)
     \<and> (case rs of [] \<Rightarrow> True | r # rs' \<Rightarrow> age_step st (fst r) = (nat (fst r - T0), word_of_int (fst r), True) \<and> T0 \<le> fst r \<and> near (fst r) (map fst rs'))"

lemma chained_step:
  assumes "chained T0 now st (r # rs)"
  shows "chained T0 now (age_step st (fst r)) rs" "age_step st (fst r) = (nat (fst r - T0), word_of_int (fst r), True)" "T0 \<le> fst r" "fst r \<le> now"
proof -
  show c: "age_step st (fst r) = (nat (fst r - T0), word_of_int (fst r), True)" "T0 \<le> fst r" "fst r \<le> now"
    using assms by (simp_all add: chained_def)
  show "chained T0 now (age_step st (fst r)) rs"
    using assms age_step_next [of T0 "fst r"] order_trans [OF c(2)] by (cases rs) (auto simp: chained_def c)
qed

lemma flush_found:
  assumes ok: "wconf_ok cfg"
  shows "\<forall>r \<in> set rs. plain r \<Longrightarrow> chained T0 now st rs \<Longrightarrow> seg = pre @ stream (wc_dec cfg) rs \<Longrightarrow> start \<noteq> length seg
    \<Longrightarrow> flush_scan cfg (nat (now - T0)) seg (length pre) (st, start, kept) = (ages st rs, start, kept + length rs)"
proof (induction rs arbitrary: pre st kept)
  case Nil
  then show ?case by (subst flush_scan.simps) simp
next
  case (Cons r rs)
  have seg: "seg = pre @ put_rec (wc_dec cfg) r @ stream (wc_dec cfg) rs" using Cons.prems(3) by (simp add: stream_def)
  note c = chained_step [OF Cons.prems(2)]
  have "flush_scan cfg (nat (now - T0)) seg (length pre) (st, start, kept)
      = flush_scan cfg (nat (now - T0)) seg (length (pre @ put_rec (wc_dec cfg) r)) (age_step st (fst r), start, kept + 1)"
    using flush_scan_step [OF ok _ seg c(2-4)] Cons.prems by simp
  also have "\<dots> = (ages (age_step st (fst r)) rs, start, kept + 1 + length rs)"
    by (rule Cons.IH) (use Cons.prems seg c(1) in simp_all)
  finally show ?case by simp
qed

lemma flush_half:
  assumes ok: "wconf_ok cfg"
  shows "\<forall>r \<in> set rs. plain r \<Longrightarrow> chained T0 now st rs \<Longrightarrow> seg = pre @ stream (wc_dec cfg) rs
    \<Longrightarrow> \<exists>start. flush_scan cfg (nat (now - T0)) seg (length pre) (st, length seg, kept)
          = (ages st rs, start, kept + length (dropWhile (\<lambda>r. \<not> recent cfg now r) rs))
      \<and> drop start seg = stream (wc_dec cfg) (dropWhile (\<lambda>r. \<not> recent cfg now r) rs)"
proof (induction rs arbitrary: pre st kept)
  case Nil
  then show ?case by (subst flush_scan.simps) simp
next
  case (Cons r rs)
  let ?pre = "pre @ put_rec (wc_dec cfg) r"
  have seg: "seg = pre @ put_rec (wc_dec cfg) r @ stream (wc_dec cfg) rs" using Cons.prems(3) by (simp add: stream_def)
  note c = chained_step [OF Cons.prems(2)]
  have pl: "plain r" "\<forall>r \<in> set rs. plain r" using Cons.prems(1) by simp_all
  note step = flush_scan_step [OF ok pl(1) seg c(2-4), of "length seg" kept]
  show ?case
  proof (cases "recent cfg now r")
    case True
    have "length pre \<noteq> length seg" using put_rec_ne [of "wc_dec cfg" r] by (simp add: seg)
    then have "flush_scan cfg (nat (now - T0)) seg (length ?pre) (age_step st (fst r), length pre, kept + 1)
        = (ages (age_step st (fst r)) rs, length pre, kept + 1 + length rs)"
      by (intro flush_found [OF ok pl(2) c(1)]) (simp_all add: seg)
    then show ?thesis using True step by (simp add: seg stream_def)
  next
    case False
    have "\<exists>start. flush_scan cfg (nat (now - T0)) seg (length ?pre) (age_step st (fst r), length seg, kept)
          = (ages (age_step st (fst r)) rs, start, kept + length (dropWhile (\<lambda>r. \<not> recent cfg now r) rs))
      \<and> drop start seg = stream (wc_dec cfg) (dropWhile (\<lambda>r. \<not> recent cfg now r) rs)"
      by (rule Cons.IH [OF pl(2) c(1)]) (simp add: seg)
    then show ?thesis using False step by simp
  qed
qed

text \<open>Both halves together.\<close>

lemma near_mono: "near T0 ts \<Longrightarrow> T1 \<in> set ts \<Longrightarrow> T0 \<le> T1"
  by (rule near_ge)

lemma recent_suffix:
  assumes "near T0 (map fst rs)"
  shows "dropWhile (\<lambda>r. \<not> recent cfg now r) rs = filter (recent cfg now) rs"
  using assms
proof (induction rs arbitrary: T0)
  case (Cons r rs)
  then have n: "near (fst r) (map fst rs)" by simp
  show ?case
  proof (cases "recent cfg now r")
    case True
    have "recent cfg now x" if "x \<in> set rs" for x
      using True near_ge [OF n, of "fst x"] that by (simp add: recent_def)
    then have "filter (recent cfg now) rs = rs" by (simp add: filter_id_conv)
    then show ?thesis using True by simp
  next
    case False
    then show ?thesis using Cons.IH [OF n] by simp
  qed
qed simp

lemma flush_both:
  assumes ok: "wconf_ok cfg" and pl: "\<forall>r \<in> set (A @ B). plain r"
    and t: "A @ B \<noteq> [] \<Longrightarrow> near (fst (hd (A @ B))) (map fst (tl (A @ B)) @ [now])"
    and seg: "seg0 = stream (wc_dec cfg) A" "seg1 = stream (wc_dec cfg) B"
  defines "now_rel \<equiv> (case age_scan cfg seg1 0 (age_scan cfg seg0 0 (0, 0, False)) of (rel, prev, have') \<Rightarrow>
      if have' then rel + unat (word_of_int now - prev) else 0)"
  shows "\<exists>st0 start0 start1 st1.
     flush_scan cfg now_rel seg0 0 ((0, prev0, False), length seg0, 0) = (st0, start0, length (filter (recent cfg now) A))
   \<and> flush_scan cfg now_rel seg1 0 (st0, length seg1, length (filter (recent cfg now) A))
       = (st1, start1, length (filter (recent cfg now) (A @ B)))
   \<and> drop start0 seg0 @ drop start1 seg1 = stream (wc_dec cfg) (filter (recent cfg now) (A @ B))"
proof (cases "A @ B = []")
  case True
  then have "seg0 = []" "seg1 = []" using seg by simp_all
  then have "flush_scan cfg n seg0 0 (st, k, j) = (st, k, j)" "flush_scan cfg n seg1 0 (st, k, j) = (st, k, j)" for n st k j
    by (simp_all add: flush_scan.simps)
  then show ?thesis using True seg by (simp, intro exI [of _ False] notI)
next
  case False
  then obtain r0 rs where AB: "A @ B = r0 # rs" by (cases "A @ B") auto
  define T0 where "T0 = fst r0"
  have nr: "near T0 (map fst rs @ [now])" using t unfolding AB by (simp add: T0_def)
  then have n: "near T0 (map fst rs)" "last (T0 # map fst rs) \<le> now" "now - last (T0 # map fst rs) < 2 ^ 32" "T0 \<le> now"
    using near_ge [OF nr, of now] by (simp_all add: near_append)
  have one: "age_step (0, p, False) T0 = (nat (T0 - T0), word_of_int T0, True)" for p by (simp add: age_step_def)
  have "age_scan cfg seg0 0 st = ages st A" "age_scan cfg seg1 0 st = ages st B" for st
    using age_scan_stream [OF ok, of A "[]"] age_scan_stream [OF ok, of B "[]"] pl by (simp_all add: seg)
  then have "age_scan cfg seg1 0 (age_scan cfg seg0 0 (0, 0, False)) = ages (0, 0, False) (A @ B)" by simp
  also have "\<dots> = ages (nat (T0 - T0), word_of_int T0, True) rs" unfolding AB using one by (simp add: T0_def)
  also have "\<dots> = (nat (last (T0 # map fst rs) - T0), word_of_int (last (T0 # map fst rs)), True)" by (rule ages_near [OF n(1)]) simp
  finally have scan: "age_scan cfg seg1 0 (age_scan cfg seg0 0 (0, 0, False))
      = (nat (last (T0 # map fst rs) - T0), word_of_int (last (T0 # map fst rs)), True)" .
  have "T0 \<le> last (T0 # map fst rs)" using near_le_last [OF n(1)] by simp
  from age_step_next [OF this n(2,3)] have nrel: "now_rel = nat (now - T0)"
    unfolding now_rel_def scan by (simp add: age_step_def)
  have le: "\<forall>r \<in> set (A @ B). fst r \<le> now"
  proof
    fix r assume "r \<in> set (A @ B)"
    then have "fst r \<in> set (T0 # map fst rs)" unfolding AB by (auto simp: T0_def)
    then show "fst r \<le> now" using near_le_last [OF n(1)] n(2) by fastforce
  qed
  have ch: "chained T0 now (0, prev0, False) (A @ B)"
    using le one n(1) unfolding AB by (simp add: chained_def T0_def)
  have chA: "chained T0 now (0, prev0, False) A" and chB: "chained T0 now (ages (0, prev0, False) A) B"
  proof -
    have "chained T0 now st (xs @ ys) \<Longrightarrow> chained T0 now st xs \<and> chained T0 now (ages st xs) ys" for st xs ys
    proof (induction xs arbitrary: st)
      case Nil
      then show ?case by (simp add: chained_def)
    next
      case (Cons x xs)
      have "chained T0 now st (x # xs)" using Cons.prems by (auto simp: chained_def near_append)
      moreover have "chained T0 now (ages (age_step st (fst x)) xs) ys" using Cons.IH [OF chained_step(1)] Cons.prems by simp
      ultimately show ?case by simp
    qed
    from this [OF ch] show "chained T0 now (0, prev0, False) A" "chained T0 now (ages (0, prev0, False) A) B" by auto
  qed
  have sub: "\<exists>T. near T (map fst A)" "\<exists>T. near T (map fst B)"
  proof -
    have "near T0 (map fst (A @ B))" unfolding AB using n(1) by (simp add: T0_def)
    then show "\<exists>T. near T (map fst A)" "\<exists>T. near T (map fst B)" unfolding map_append near_append by blast+
  qed
  note dw = recent_suffix [THEN sym]
  obtain start0 where h0: "flush_scan cfg (nat (now - T0)) seg0 0 ((0, prev0, False), length seg0, 0)
      = (ages (0, prev0, False) A, start0, length (filter (recent cfg now) A))" "drop start0 seg0 = stream (wc_dec cfg) (filter (recent cfg now) A)"
    using flush_half [OF ok _ chA, of seg0 "[]" 0] pl sub(1) recent_suffix by (auto simp: seg)
  obtain start1 where h1: "flush_scan cfg (nat (now - T0)) seg1 0 (ages (0, prev0, False) A, length seg1, length (filter (recent cfg now) A))
      = (ages (ages (0, prev0, False) A) B, start1, length (filter (recent cfg now) A) + length (filter (recent cfg now) B))"
    "drop start1 seg1 = stream (wc_dec cfg) (filter (recent cfg now) B)"
    using flush_half [OF ok _ chB, of seg1 "[]" "length (filter (recent cfg now) A)"] pl sub(2) recent_suffix by (auto simp: seg)
  show ?thesis unfolding nrel
    by (rule exI [of _ "ages (0, prev0, False) A"], rule exI [of _ start0], rule exI [of _ start1],
        rule exI [of _ "ages (ages (0, prev0, False) A) B"]) (simp add: h0 h1)
qed

section \<open>The ring\<close>

definition open_inv :: "wconf \<Rightarrow> (int \<times> wrec) list \<Rightarrow> win \<Rightarrow> bool" where
  "open_inv cfg rs s \<longleftrightarrow> w_pre_cur s \<le> 1 \<and> length (w_pre s) = 2 \<and> w_pre s ! (1 - w_pre_cur s) = stream (wc_dec cfg) (fst (ring_of cfg rs))
     \<and> w_pre s ! w_pre_cur s = stream (wc_dec cfg) (snd (ring_of cfg rs)) \<and> w_pre_n s = of_nat (length rs) \<and> w_triggered s = 0 \<and> w_rearm s = 0"

lemma ring_of_snoc: "ring_of cfg (rs @ [r]) = ring_put cfg (ring_of cfg rs) r"
  by (simp add: ring_of_def)

lemma pre_put_open:
  assumes "open_inv cfg rs s" "b = put_rec (wc_dec cfg) r"
  shows "open_inv cfg (rs @ [r]) (pre_put cfg b s)"
proof -
  have "w_pre_cur s = 0 \<or> w_pre_cur s = 1" using assms(1) by (auto simp: open_inv_def)
  then show ?thesis
    using assms by (auto simp: open_inv_def pre_put_def Let_def ring_of_snoc ring_put_def numeral_2_eq_2)
qed

lemma pre_put_sel [simp]:
  "w_pol (pre_put cfg b s) = w_pol s" "w_hb_seq (pre_put cfg b s) = w_hb_seq s" "w_armed (pre_put cfg b s) = w_armed s"
  "w_reopen (pre_put cfg b s) = w_reopen s" "w_out (pre_put cfg b s) = w_out s" "w_filtered (pre_put cfg b s) = w_filtered s"
  by (simp_all add: pre_put_def Let_def)

text \<open>What the ring forgets: whole halves, so it always holds at least a half's worth of the last records.\<close>

lemma ring_suffix:
  assumes "wconf_ok cfg" "\<forall>r \<in> set rs. plain r"
  shows "\<exists>old. rs = old @ ring_list cfg rs
    \<and> (old \<noteq> [] \<longrightarrow> length (stream (wc_dec cfg) (fst (ring_of cfg rs))) + 14 > wc_half cfg)
    \<and> length (stream (wc_dec cfg) (fst (ring_of cfg rs))) \<le> wc_half cfg \<and> length (stream (wc_dec cfg) (snd (ring_of cfg rs))) \<le> wc_half cfg
    \<and> (fst (ring_of cfg rs) \<noteq> [] \<longrightarrow> snd (ring_of cfg rs) \<noteq> [])"
  using assms(2)
proof (induction rs rule: rev_induct)
  case Nil
  show ?case by (simp add: ring_list_def ring_of_def)
next
  case (snoc r rs)
  let ?d = "wc_dec cfg"
  obtain A B where AB: "ring_of cfg rs = (A, B)" by (cases "ring_of cfg rs")
  from snoc obtain old where old: "rs = old @ A @ B" "old \<noteq> [] \<longrightarrow> length (stream ?d A) + 14 > wc_half cfg"
    "length (stream ?d A) \<le> wc_half cfg" "length (stream ?d B) \<le> wc_half cfg" "A \<noteq> [] \<longrightarrow> B \<noteq> []"
    by (auto simp: ring_list_def AB)
  have "id_size (dc_tsdl ?d) \<le> 2" using assms(1) by (auto simp: wconf_ok_def conf_ok_def)
  then have len: "length (put_rec ?d r) \<le> 14" using plain_len [of r ?d] snoc.prems by simp
  then have half: "length (put_rec ?d r) \<le> wc_half cfg" using assms(1) by (simp add: wconf_ok_def)
  show ?case
  proof (cases "length (stream ?d B) + length (put_rec ?d r) > wc_half cfg")
    case True
    then have "ring_of cfg (rs @ [r]) = (B, [r])" by (simp add: ring_of_snoc ring_put_def AB)
    then show ?thesis using old half True len by (intro exI [of _ "old @ A"]) (simp add: ring_list_def)
  next
    case False
    then have "ring_of cfg (rs @ [r]) = (A, B @ [r])" by (simp add: ring_of_snoc ring_put_def AB)
    then show ?thesis using old False by (intro exI [of _ old]) (simp add: ring_list_def)
  qed
qed

lemma recs_plain: "\<forall>r \<in> set (recs cfg p q es). plain r"
proof (induction es arbitrary: p q)
  case (Cons e es)
  then show ?case by (cases e) (auto simp: plain_def split_beta)
qed simp

section \<open>Before the trigger\<close>

lemma wrun_quiet:
  "quiet cfg (w_reopen s) (w_armed s) es \<Longrightarrow> open_inv cfg rs s \<Longrightarrow>
    open_inv cfg (rs @ recs cfg (w_pol s) (w_hb_seq s) es) (wrun cfg es s) \<and> w_pol (wrun cfg es s) = pol_after cfg (w_pol s) es
    \<and> w_hb_seq (wrun cfg es s) = w_hb_seq s + of_nat (hb_calls es) \<and> w_armed (wrun cfg es s) = armed_after cfg (w_armed s) es
    \<and> w_reopen (wrun cfg es s) = w_reopen s \<and> w_out (wrun cfg es s) = w_out s
    \<and> w_filtered (wrun cfg es s) = w_filtered s + of_nat (dropped cfg (w_pol s) es)"
proof (induction es arbitrary: rs s)
  case Nil
  then show ?case by simp
next
  case (Cons e es)
  show ?case
  proof (cases e)
    case (Mark T m arg up)
    define a where "a = (w_armed s \<or> m = wc_arm cfg \<and> arg \<noteq> 0)"
    obtain k p where kp: "trace_keep cfg m arg (w_pol s) = (k, p)" by (cases "trace_keep cfg m arg (w_pol s)")
    have q: "\<not> fires cfg a (w_reopen s) m" "quiet cfg (w_reopen s) a es" using Cons.prems(1) by (simp_all add: Mark a_def Let_def)
    have t0: "w_triggered s = 0" using Cons.prems(2) by (simp add: open_inv_def)
    define s1 where "s1 = s\<lparr>w_armed := a, w_pol := p\<rparr>"
    have b: "marker_bytes cfg (word_of_int T) m arg = put_rec (wc_dec cfg) (T, WMarker (uint m) (uint arg))"
      unfolding marker_bytes_def by (rule put_rec_mod [symmetric])
    have step: "wstep cfg s e = (if k then pre_put cfg (marker_bytes cfg (word_of_int T) m arg) s1 else s1\<lparr>w_filtered := w_filtered s1 + 1\<rparr>)"
      using q(1) t0 kp by (simp add: Mark marker_windowed_def Let_def s1_def flip: a_def)
    have i1: "open_inv cfg rs s1" using Cons.prems(2) by (simp add: open_inv_def s1_def)
    show ?thesis
    proof (cases k)
      case True
      let ?s2 = "pre_put cfg (marker_bytes cfg (word_of_int T) m arg) s1"
      from Cons.IH [of ?s2, OF _ pre_put_open [OF i1 b]] q(2) step True kp show ?thesis by (simp add: Mark s1_def a_def)
    next
      case False
      let ?s2 = "s1\<lparr>w_filtered := w_filtered s1 + 1\<rparr>"
      have "open_inv cfg rs ?s2" using i1 by (simp add: open_inv_def)
      from Cons.IH [of ?s2, OF _ this] q(2) step False kp show ?thesis by (simp add: Mark s1_def a_def)
    qed
  next
    case (Beat T up)
    define s1 where "s1 = s\<lparr>w_hb_seq := w_hb_seq s + 1, w_hb_uptime := up\<rparr>"
    have b: "heartbeat_bytes cfg (word_of_int T) (w_hb_seq s) up = put_rec (wc_dec cfg) (T, WHeartbeat (uint (w_hb_seq s)) (uint up))"
      unfolding heartbeat_bytes_def by (rule put_rec_mod [symmetric])
    have step: "wstep cfg s e = pre_put cfg (heartbeat_bytes cfg (word_of_int T) (w_hb_seq s) up) s1"
      using Cons.prems(2) by (simp add: Beat trace_heartbeat_def Let_def open_inv_def s1_def)
    have i1: "open_inv cfg rs s1" using Cons.prems(2) by (simp add: open_inv_def s1_def)
    let ?s2 = "pre_put cfg (heartbeat_bytes cfg (word_of_int T) (w_hb_seq s) up) s1"
    from Cons.IH [of ?s2, OF _ pre_put_open [OF i1 b]] Cons.prems(1) step show ?thesis by (simp add: Beat s1_def)
  qed
qed

section \<open>The trigger and after\<close>

lemma wrun_open:
  "w_triggered s \<noteq> 0 \<Longrightarrow> w_rearm s = 0 \<Longrightarrow>
    w_out (wrun cfg es s) = w_out s @ stream (wc_dec cfg) (recs cfg (w_pol s) (w_hb_seq s) es)"
proof (induction es arbitrary: s)
  case Nil
  then show ?case by simp
next
  case (Cons e es)
  show ?case
  proof (cases e)
    case (Mark T m arg up)
    obtain k p where kp: "trace_keep cfg m arg (w_pol s) = (k, p)" by (cases "trace_keep cfg m arg (w_pol s)")
    define s1 where "s1 = (if k then s\<lparr>w_pol := p, w_out := w_out s @ put_rec (wc_dec cfg) (T, WMarker (uint m) (uint arg))\<rparr>
      else s\<lparr>w_pol := p, w_filtered := w_filtered s + 1\<rparr>)"
    have "wstep cfg s e = s1"
      using Cons.prems kp by (simp add: Mark marker_windowed_def Let_def s1_def marker_bytes_def put_rec_mod [of _ T, symmetric])
    then show ?thesis using Cons.IH [of s1] Cons.prems kp by (cases k) (simp_all add: Mark s1_def)
  next
    case (Beat T up)
    define s1 where "s1 = s\<lparr>w_hb_seq := w_hb_seq s + 1, w_hb_uptime := up,
      w_out := w_out s @ put_rec (wc_dec cfg) (T, WHeartbeat (uint (w_hb_seq s)) (uint up))\<rparr>"
    have "wstep cfg s e = s1"
      using Cons.prems by (simp add: Beat trace_heartbeat_def Let_def s1_def heartbeat_bytes_def put_rec_mod [of _ T, symmetric])
    then show ?thesis using Cons.IH [of s1] Cons.prems by (simp add: Beat s1_def)
  qed
qed

lemma trace_fire_ring:
  assumes ok: "wconf_ok cfg" and inv: "open_inv cfg rs s" and pl: "\<forall>r \<in> set rs. plain r" and n: "length rs < 2 ^ 32"
    and t: "rs \<noteq> [] \<Longrightarrow> near (fst (hd rs)) (map fst (tl rs) @ [now])"
  defines "fl \<equiv> filter (recent cfg now) (ring_list cfg rs)"
  shows "trace_fire cfg (word_of_int now) m up s = s\<lparr>w_pre_lost := of_nat (length rs - length fl),
     w_out := w_out s @ stream (wc_dec cfg) fl @ put_rec (wc_dec cfg) (now, WTrigger (uint m) (int (wc_pre_ms cfg)) (int (length fl))
       (int (wc_spin_keep cfg)) (int (length rs - length fl)) (uint (w_filtered s))),
     w_pol := reset_pol cfg (w_pol s), w_trigger_uptime := up, w_triggered := 1\<rparr>"
proof -
  obtain A B where AB: "ring_of cfg rs = (A, B)" by (cases "ring_of cfg rs")
  obtain old where old: "rs = old @ A @ B" using ring_suffix [OF ok pl] by (auto simp: ring_list_def AB)
  have fl: "fl = filter (recent cfg now) (A @ B)" by (simp add: fl_def ring_list_def AB)
  have seg: "w_pre s ! (1 - w_pre_cur s) = stream (wc_dec cfg) A" "w_pre s ! w_pre_cur s = stream (wc_dec cfg) B"
    using inv by (simp_all add: open_inv_def AB)
  have tAB: "near (fst (hd (A @ B))) (map fst (tl (A @ B)) @ [now])" if ne: "A @ B \<noteq> []"
  proof (cases old)
    case Nil
    then show ?thesis using t that old by auto
  next
    case (Cons x xs)
    then have "near (fst x) (map fst xs @ map fst (A @ B) @ [now])" using t old by simp
    moreover obtain r rest where "A @ B = r # rest" using ne by (cases "A @ B") auto
    ultimately show ?thesis by (simp add: near_append)
  qed
  have plAB: "\<forall>r \<in> set (A @ B). plain r" using pl old by simp
  let ?scan = "age_scan cfg (stream (wc_dec cfg) B) 0 (age_scan cfg (stream (wc_dec cfg) A) 0 (0, 0, False))"
  obtain rel prev have' where scan: "?scan = (rel, prev, have')" by (cases ?scan)
  have le: "length fl \<le> length rs" unfolding fl using length_filter_le [of "recent cfg now" "A @ B"] by (simp add: old)
  have lost: "w_pre_n s - of_nat (length fl) = of_nat (length rs - length fl)" using inv le by (simp add: open_inv_def of_nat_diff)
  have ul: "uint (of_nat (length rs - length fl) :: u32) = int (length rs - length fl)" using n by (simp add: unsigned_of_nat take_bit_nat_eq_self)
  obtain st0 start0 start1 st1 where f:
    "flush_scan cfg (if have' then rel + unat (word_of_int now - prev) else 0) (stream (wc_dec cfg) A) 0 ((0, prev, False), length (stream (wc_dec cfg) A), 0)
       = (st0, start0, length (filter (recent cfg now) A))"
    "flush_scan cfg (if have' then rel + unat (word_of_int now - prev) else 0) (stream (wc_dec cfg) B) 0 (st0, length (stream (wc_dec cfg) B), length (filter (recent cfg now) A))
       = (st1, start1, length fl)"
    "drop start0 (stream (wc_dec cfg) A) @ drop start1 (stream (wc_dec cfg) B) = stream (wc_dec cfg) fl"
    using flush_both [OF ok plAB tAB refl refl, of prev] unfolding scan fl by auto
  show ?thesis
    unfolding trace_fire_def Let_def seg scan prod.case f(1) f(2) lost ul
    using f(3) put_rec_mod [of "wc_dec cfg" now] by (simp add: reset_pol_def append_assoc [symmetric] del: append_assoc)
qed

section \<open>The times of the records\<close>

text \<open>The calls come in time order and a heartbeat comes at least every \<open>2 ^ 31\<close> ns (2.1 s; the timer's period is 100 ms),
  with an uptime as close to the clock. \<open>tb\<close> is the last heartbeat, \<open>t0\<close> the last call.\<close>

fun paced :: "int \<Rightarrow> int \<Rightarrow> wev list \<Rightarrow> bool" where
  "paced tb t0 [] = True"
| "paced tb t0 (Mark T m arg up # es) = (t0 \<le> T \<and> T - tb < 2 ^ 31 \<and> paced tb T es)"
| "paced tb t0 (Beat T up # es) = (t0 \<le> T \<and> T - tb < 2 ^ 31 \<and> \<bar>uint up * 1000000 - T\<bar> < 2 ^ 31 \<and> paced T T es)"

fun spaced :: "int \<Rightarrow> (int \<times> wrec) list \<Rightarrow> bool" where
  "spaced T0 [] = True"
| "spaced T0 (r # rs) = (T0 \<le> fst r \<and> fst r - T0 < 2 ^ 31 \<and> spaced (fst r) rs)"

lemma spaced_append: "spaced T0 (xs @ ys) \<longleftrightarrow> spaced T0 xs \<and> spaced (last (T0 # map fst xs)) ys"
  by (induction xs arbitrary: T0) auto

lemma spaced_near: "spaced T0 rs \<Longrightarrow> near T0 (map fst rs)"
  by (induction rs arbitrary: T0) auto

lemma spaced_times: "spaced T0 rs \<Longrightarrow> times_ok T0 rs"
  by (induction rs arbitrary: T0) auto

lemma paced_recs:
  "paced tb t0 (es @ es') \<Longrightarrow> tb \<le> tr \<Longrightarrow> tr \<le> t0 \<Longrightarrow> spaced tr (recs cfg p q es)
    \<and> (\<exists>tb' t0'. tb' \<le> last (tr # map fst (recs cfg p q es)) \<and> last (tr # map fst (recs cfg p q es)) \<le> t0' \<and> paced tb' t0' es')"
proof (induction es arbitrary: tb t0 tr p q)
  case Nil
  then show ?case by auto
next
  case (Cons e es)
  show ?case
  proof (cases e)
    case (Mark T m arg up)
    obtain k p1 where kp: "trace_keep cfg m arg p = (k, p1)" by (cases "trace_keep cfg m arg p")
    have "paced tb T (es @ es')" "t0 \<le> T" "T - tb < 2 ^ 31" using Cons.prems(1) by (simp_all add: Mark)
    then show ?thesis
      using Cons.IH [of tb T T p1 q] Cons.IH [of tb T tr p1 q] Cons.prems kp by (cases k) (auto simp: Mark)
  next
    case (Beat T up)
    then show ?thesis using Cons.IH [of T T T p "q + 1"] Cons.prems by auto
  qed
qed

definition hb_near :: "int \<times> wrec \<Rightarrow> bool" where
  "hb_near r = (case snd r of WHeartbeat sq up \<Rightarrow> \<bar>up * 1000000 - fst r\<bar> < 2 ^ 31 | _ \<Rightarrow> True)"

lemma recs_near: "paced tb t0 es \<Longrightarrow> \<forall>r \<in> set (recs cfg p q es). hb_near r"
proof (induction es arbitrary: tb t0 p q)
  case (Cons e es)
  then show ?case by (cases e) (fastforce simp: hb_near_def split_beta)+
qed simp

lemma paced_append: "paced tb t0 (es @ es') \<Longrightarrow> paced tb t0 es \<and> (\<exists>tb' t0'. paced tb' t0' es')"
proof (induction es arbitrary: tb t0)
  case (Cons e es)
  then show ?case by (cases e) auto
qed auto

lemma first_hb_in: "first_hb rs = Some (T, up) \<Longrightarrow> \<exists>sq. (T, WHeartbeat sq up) \<in> set rs"
  by (induction rs rule: first_hb.induct) auto

lemma first_hb_ex: "(T, WHeartbeat sq up) \<in> set rs \<Longrightarrow> \<exists>x. first_hb rs = Some x"
  by (induction rs rule: first_hb.induct) auto

lemma recs_beat: "0 < hb_calls es \<Longrightarrow> \<exists>T sq up. (T, WHeartbeat sq up) \<in> set (recs cfg p q es)"
proof (induction es arbitrary: p q)
  case (Cons e es)
  then show ?case by (cases e) (auto simp: split_beta, (metis Un_iff)?)
qed simp

lemma recs_ok: "\<forall>(T, w) \<in> set (recs cfg p q es). wrec_ok w \<and> \<not> opens w"
proof (induction es arbitrary: p q)
  case (Cons e es)
  have u: "u32_ok (uint x)" "u16_ok (uint y)" for x :: u32 and y :: u16
    using uint_lt2p [of x] uint_lt2p [of y] by (simp_all add: u32_ok_def u16_ok_def)
  show ?case using Cons by (cases e) (auto simp: split_beta u)
qed simp

lemma length_recs: "length (recs cfg p q es) + dropped cfg p es = length es"
proof (induction es arbitrary: p q)
  case (Cons e es)
  show ?case
  proof (cases e)
    case (Mark T m arg up)
    then show ?thesis using Cons [of "snd (trace_keep cfg m arg p)" q] by (simp add: split_beta)
  next
    case (Beat T up)
    then show ?thesis using Cons [of p "q + 1"] by simp
  qed
qed simp

section \<open>The stream of a window\<close>

definition pre_recs :: "wconf \<Rightarrow> win \<Rightarrow> wev list \<Rightarrow> (int \<times> wrec) list" where
  "pre_recs cfg s es = recs cfg (w_pol s) (w_hb_seq s) es"

definition flushed :: "wconf \<Rightarrow> win \<Rightarrow> wev list \<Rightarrow> int \<Rightarrow> (int \<times> wrec) list" where
  "flushed cfg s es T = filter (recent cfg T) (ring_list cfg (pre_recs cfg s es))"

text \<open>The records of a window: what the ring still holds from the last \<open>pre_ms\<close>, the trigger with its counts, and what
  the policy, started anew, keeps from the triggering call on.\<close>

definition window_recs :: "wconf \<Rightarrow> win \<Rightarrow> wev list \<Rightarrow> int \<Rightarrow> u16 \<Rightarrow> wev list \<Rightarrow> (int \<times> wrec) list" where
  "window_recs cfg s es T m es' =
     flushed cfg s es T
     @ (T, WTrigger (uint m) (int (wc_pre_ms cfg)) (int (length (flushed cfg s es T))) (int (wc_spin_keep cfg))
          (int (length (pre_recs cfg s es) - length (flushed cfg s es T))) (int (dropped cfg (w_pol s) es)))
     # recs cfg (reset_pol cfg (pol_after cfg (w_pol s) es)) (w_hb_seq s + of_nat (hb_calls es)) es'"

lemma wstep_trigger:
  assumes "w_triggered s = 0" "fires cfg (w_armed s \<or> m = wc_arm cfg \<and> arg \<noteq> 0) (w_reopen s) m"
    "trace_fire cfg (word_of_int T) m up (s\<lparr>w_armed := w_armed s \<or> m = wc_arm cfg \<and> arg \<noteq> 0\<rparr>) = f" "w_triggered f \<noteq> 0"
  shows "wstep cfg s (Mark T m arg up) = wstep cfg f (Mark T m arg up)"
  using assms by (simp add: marker_windowed_def Let_def)

lemma window_written:
  assumes ok: "wconf_ok cfg" and fr: "fresh cfg Tp s" and q: "quiet cfg (w_reopen s) False es"
    and fire: "fires cfg (armed_after cfg False es \<or> m = wc_arm cfg \<and> arg \<noteq> 0) (w_reopen s) m"
    and t: "pre_recs cfg s es \<noteq> [] \<Longrightarrow> near (fst (hd (pre_recs cfg s es))) (map fst (tl (pre_recs cfg s es)) @ [T])"
    and n: "length es < 2 ^ 32"
  shows "w_out (wrun cfg (es @ Mark T m arg up # es') s)
    = stream (wc_dec cfg) ((Tp, WProvenance (wc_prov cfg)) # window_recs cfg s es T m (Mark T m arg up # es'))"
proof -
  let ?d = "wc_dec cfg" and ?rs = "pre_recs cfg s es" and ?fl = "flushed cfg s es T"
  have "open_inv cfg [] s" "w_armed s = False" "w_filtered s = 0" "w_out s = put_rec ?d (Tp, WProvenance (wc_prov cfg))"
    using fr by (auto simp: fresh_def open_inv_def ring_of_def)
  with wrun_quiet [of cfg s es "[]"] q
  have run: "open_inv cfg ?rs (wrun cfg es s)" "w_pol (wrun cfg es s) = pol_after cfg (w_pol s) es"
    "w_hb_seq (wrun cfg es s) = w_hb_seq s + of_nat (hb_calls es)" "w_armed (wrun cfg es s) = armed_after cfg False es"
    "w_reopen (wrun cfg es s) = w_reopen s" "w_out (wrun cfg es s) = put_rec ?d (Tp, WProvenance (wc_prov cfg))"
    "w_filtered (wrun cfg es s) = of_nat (dropped cfg (w_pol s) es)"
    by (simp_all add: pre_recs_def)
  define s1 where "s1 = (wrun cfg es s)\<lparr>w_armed := armed_after cfg False es \<or> m = wc_arm cfg \<and> arg \<noteq> 0\<rparr>"
  have i1: "open_inv cfg ?rs s1" using run(1) by (simp add: open_inv_def s1_def)
  have len: "length ?rs < 2 ^ 32" "dropped cfg (w_pol s) es < 2 ^ 32"
    using n length_recs [of cfg "w_pol s" "w_hb_seq s" es] by (simp_all add: pre_recs_def)
  have uf: "uint (w_filtered s1) = int (dropped cfg (w_pol s) es)"
    using len(2) run(7) by (simp add: s1_def unsigned_of_nat take_bit_nat_eq_self)
  define f where "f = trace_fire cfg (word_of_int T) m up s1"
  have pl: "\<forall>r \<in> set ?rs. plain r" unfolding pre_recs_def by (rule recs_plain)
  note fire_eq = trace_fire_ring [OF ok i1 pl len(1) t, of m up, folded f_def]
  have ft: "w_triggered f \<noteq> 0" "w_rearm f = 0" "w_pol f = reset_pol cfg (pol_after cfg (w_pol s) es)"
    "w_hb_seq f = w_hb_seq s + of_nat (hb_calls es)"
    and fo: "w_out f = put_rec ?d (Tp, WProvenance (wc_prov cfg)) @ stream ?d ?fl @ put_rec ?d (T, WTrigger (uint m) (int (wc_pre_ms cfg))
       (int (length ?fl)) (int (wc_spin_keep cfg)) (int (length ?rs - length ?fl)) (int (dropped cfg (w_pol s) es)))"
    using i1 run uf by (simp_all add: fire_eq s1_def open_inv_def flushed_def)
  have "wstep cfg (wrun cfg es s) (Mark T m arg up) = wstep cfg f (Mark T m arg up)"
    using run(1) fire by (intro wstep_trigger [OF _ _ _ ft(1)]) (simp_all add: run(4,5) f_def s1_def open_inv_def)
  then have "wrun cfg (es @ Mark T m arg up # es') s = wrun cfg (Mark T m arg up # es') f" by simp
  then show ?thesis using wrun_open [OF ft(1,2), of cfg "Mark T m arg up # es'"] ft(3,4) fo by (simp add: window_recs_def)
qed

lemma ring_few:
  assumes "wconf_ok cfg" "\<forall>r \<in> set rs. plain r"
  shows "length (ring_list cfg rs) < 2 ^ 16"
proof -
  have len: "\<forall>r \<in> set xs. plain r \<Longrightarrow> length xs * 10 \<le> length (stream (wc_dec cfg) xs)" for xs
    by (induction xs) (auto simp: plain_len)
  obtain old where old: "rs = old @ ring_list cfg rs" "length (stream (wc_dec cfg) (fst (ring_of cfg rs))) \<le> wc_half cfg"
    "length (stream (wc_dec cfg) (snd (ring_of cfg rs))) \<le> wc_half cfg"
    using ring_suffix [OF assms] by blast
  have "\<forall>r \<in> set (ring_list cfg rs). plain r" using assms(2) old(1) by (metis UnCI set_append)
  from len [OF this] show ?thesis using old(2,3) assms(1) by (simp add: ring_list_def wconf_ok_def)
qed

lemma window_times:
  assumes ok: "wconf_ok cfg" and p: "paced Tp Tp (es @ Mark T m arg up # es')" and ew: "ew = Mark T m arg up # es'"
  shows "pre_recs cfg s es \<noteq> [] \<Longrightarrow> near (fst (hd (pre_recs cfg s es))) (map fst (tl (pre_recs cfg s es)) @ [T])"
    and "\<exists>T1. spaced T1 (window_recs cfg s es T m ew)"
    and "\<forall>r \<in> set (window_recs cfg s es T m ew). hb_near r"
proof -
  let ?rs = "pre_recs cfg s es" and ?fl = "flushed cfg s es T"
  obtain tb' t0' where pre: "spaced Tp ?rs" "tb' \<le> last (Tp # map fst ?rs)" "last (Tp # map fst ?rs) \<le> t0'" "paced tb' t0' ew"
    using paced_recs [OF p, of Tp cfg "w_pol s" "w_hb_seq s"] ew by (auto simp: pre_recs_def)
  have T: "last (Tp # map fst ?rs) \<le> T" "T - last (Tp # map fst ?rs) < 2 ^ 31" "T - tb' < 2 ^ 31" "tb' \<le> T" "paced tb' T es'"
    using pre by (auto simp: ew)
  show "?rs \<noteq> [] \<Longrightarrow> near (fst (hd ?rs)) (map fst (tl ?rs) @ [T])"
    using spaced_near [OF pre(1)] T(1,2) by (cases ?rs) (auto simp: near_append)
  obtain T1 where fl: "spaced T1 ?fl" "last (T1 # map fst ?fl) = last (Tp # map fst ?rs)"
  proof -
    have pl: "\<forall>r \<in> set ?rs. plain r" unfolding pre_recs_def by (rule recs_plain)
    obtain old where old: "?rs = old @ ring_list cfg ?rs" using ring_suffix [OF ok pl] by blast
    then have "spaced (last (Tp # map fst old)) (ring_list cfg ?rs)" using pre(1) spaced_append by metis
    from spaced_near [OF this] have "?fl = dropWhile (\<lambda>r. \<not> recent cfg T r) (ring_list cfg ?rs)"
      unfolding flushed_def using recent_suffix by metis
    then obtain old2 where old2: "ring_list cfg ?rs = old2 @ ?fl" by (metis takeWhile_dropWhile_id)
    then have all: "?rs = (old @ old2) @ ?fl" using old by (metis append_assoc)
    then have "spaced (last (Tp # map fst (old @ old2))) ?fl" using pre(1) spaced_append by metis
    moreover have "last (last (Tp # map fst (old @ old2)) # map fst ?fl) = last (Tp # map fst ?rs)" using arg_cong [OF all, of "\<lambda>x. last (Tp # map fst x)"] by simp
    ultimately show ?thesis by (rule that)
  qed
  let ?post = "recs cfg (reset_pol cfg (pol_after cfg (w_pol s) es)) (w_hb_seq s + of_nat (hb_calls es)) ew"
  have pw: "paced tb' T ew" using T by (simp add: ew)
  then have "spaced T ?post" using paced_recs [of tb' T ew "[]" T] T(4) by simp
  then have "spaced T1 (window_recs cfg s es T m ew)"
    using fl T(1,2) by (simp add: window_recs_def spaced_append)
  then show "\<exists>T1. spaced T1 (window_recs cfg s es T m ew)" ..
  have "\<forall>r \<in> set ?rs. hb_near r" unfolding pre_recs_def using paced_append [OF p] recs_near by blast
  moreover have "set ?fl \<subseteq> set ?rs"
    unfolding flushed_def using ring_suffix [OF ok, of ?rs] recs_plain [of cfg "w_pol s" "w_hb_seq s" es]
    by (metis (no_types) filter_is_subset pre_recs_def set_append subset_trans sup_ge2)
  ultimately show "\<forall>r \<in> set (window_recs cfg s es T m ew). hb_near r"
    using recs_near [OF pw] by (auto simp: window_recs_def hb_near_def [of "(T, WTrigger _ _ _ _ _ _)"])
qed

text \<open>The stream of a fresh window decodes.\<close>

lemma window_decodes:
  assumes ok: "wconf_ok cfg" and prov: "contains ''window=trigger'' (wc_prov cfg)" and fr: "fresh cfg Tp s" "0 \<le> Tp" "Tp < 2 ^ 32"
    and calls: "paced t0 t0 (es @ Mark T m arg up # es')" "length es < 2 ^ 32" "0 < hb_calls es'"
    and opn: "quiet cfg (w_reopen s) False es"
      "fires cfg (armed_after cfg False es \<or> m = wc_arm cfg \<and> arg \<noteq> 0) (w_reopen s) m"
  shows "\<exists>st. decode_loop (wc_dec cfg) (padded (w_out (wrun cfg (es @ Mark T m arg up # es') s))) dstate0 = Inr st
    \<and> anchor (ds_recs st) (ds_seg st)
        = expect (wc_dec cfg) 0 0 ((Tp, WProvenance (wc_prov cfg)) # window_recs cfg s es T m (Mark T m arg up # es'))
    \<and> ds_error st = None"
proof -
  let ?ew = "Mark T m arg up # es'"
  let ?rs = "window_recs cfg s es T m ?ew"
  note times = window_times [OF ok calls(1) refl, of s]
  obtain T1 where sp: "spaced T1 ?rs" using times(2) by blast
  have "\<exists>T sq up. (T, WHeartbeat sq up) \<in> set ?rs"
    using recs_beat [of ?ew] calls(3) by (fastforce simp: window_recs_def)
  then obtain Th hup where hb: "first_hb ?rs = Some (Th, hup)" using first_hb_ex by fastforce
  then have nh: "\<bar>hup * 1000000 - Th\<bar> < 2 ^ 31" using first_hb_in [OF hb] times(3) by (fastforce simp: hb_near_def)
  obtain r rest where rs: "?rs = r # rest" using hb by (cases ?rs) auto
  have pl: "\<forall>r \<in> set (pre_recs cfg s es). plain r" unfolding pre_recs_def by (rule recs_plain)
  have fl: "set (flushed cfg s es T) \<subseteq> set (pre_recs cfg s es)" "length (flushed cfg s es T) < 2 ^ 16"
  proof -
    obtain old where "pre_recs cfg s es = old @ ring_list cfg (pre_recs cfg s es)" using ring_suffix [OF ok pl] by blast
    then have "set (ring_list cfg (pre_recs cfg s es)) \<subseteq> set (pre_recs cfg s es)" by (metis set_append sup_ge2)
    then show "set (flushed cfg s es T) \<subseteq> set (pre_recs cfg s es)" by (auto simp: flushed_def)
    show "length (flushed cfg s es T) < 2 ^ 16"
      unfolding flushed_def using ring_few [OF ok pl] length_filter_le le_less_trans by blast
  qed
  have cnt: "length (pre_recs cfg s es) < 2 ^ 32" "dropped cfg (w_pol s) es < 2 ^ 32"
    using calls(2) length_recs [of cfg "w_pol s" "w_hb_seq s" es] by (simp_all add: pre_recs_def)
  have trig: "wrec_ok (WTrigger (uint m) (int (wc_pre_ms cfg)) (int (length (flushed cfg s es T))) (int (wc_spin_keep cfg))
          (int (length (pre_recs cfg s es) - length (flushed cfg s es T))) (int (dropped cfg (w_pol s) es)))"
    using ok fl(2) cnt uint_lt2p [of m] by (simp add: wconf_ok_def u16_ok_def u32_ok_def)
  have good: "\<forall>(T, w) \<in> set ?rs. wrec_ok w \<and> \<not> opens w"
  proof -
    have "\<forall>(T, w) \<in> set (flushed cfg s es T). wrec_ok w \<and> \<not> opens w"
      using fl(1) recs_ok [of cfg "w_pol s" "w_hb_seq s" es] by (auto simp: pre_recs_def)
    moreover have "\<forall>(T, w) \<in> set (recs cfg (reset_pol cfg (pol_after cfg (w_pol s) es)) (w_hb_seq s + of_nat (hb_calls es)) ?ew).
        wrec_ok w \<and> \<not> opens w" by (rule recs_ok)
    ultimately show ?thesis using trig unfolding window_recs_def by (simp only: set_append list.set ball_Un ball_simps split opens.simps) simp
  qed
  have out: "w_out (wrun cfg (es @ ?ew) s) = stream (wc_dec cfg) ((Tp, WProvenance (wc_prov cfg)) # ?rs)"
    by (rule window_written [OF ok fr(1) opn times(1) calls(2)])
  obtain T2 w where r: "r = (T2, w)" by (cases r)
  show ?thesis
    unfolding out rs r
  proof (rule decode_windowed_stream)
    show "conf_ok (wc_dec cfg)" "wrec_ok (WProvenance (wc_prov cfg))" using ok by (simp_all add: wconf_ok_def)
    show "times_ok T2 rest" using spaced_times [of T2 rest] sp by (simp add: rs r)
    show "\<forall>(T, w) \<in> set ((T2, w) # rest). wrec_ok w \<and> \<not> opens w" using good by (simp only: rs r)
    show "first_hb ((T2, w) # rest) = Some (Th, hup)" using hb by (simp only: rs r)
  qed (use prov fr nh in simp_all)
qed

text \<open>A window is fresh after the boot's \<open>island_trace_start\<close> and after a re-arm, and the heartbeat that re-arms is the
  first call of the new window.\<close>

lemma fresh_start: "fresh cfg (uint ts) (trace_start cfg ts (win_boot cfg))" "\<not> w_reopen (trace_start cfg ts (win_boot cfg))"
  by (simp_all add: fresh_def trace_start_def put_provenance_def win_boot_def Let_def)

lemma fresh_rearm: "fresh cfg (uint ts) (window_rearm cfg ts up s)" "w_reopen (window_rearm cfg ts up s)"
  by (simp_all add: fresh_def window_rearm_def put_provenance_def Let_def)

lemma rearm_beat:
  "w_rearm s \<noteq> 0 \<Longrightarrow> trace_heartbeat cfg (word_of_int T) up re s = wstep cfg (window_rearm cfg (fst re) (snd re) s) (Beat T up)"
  by (cases s) (simp add: trace_heartbeat_def window_rearm_def put_provenance_def Let_def)

section \<open>The properties\<close>

text \<open>C3. From the firmware's calls to the decoded trace: after the boot, whatever the components record before and after
  the first call that opens the window, the stream decodes without an error to exactly the provenance, the records of the
  last \<open>pre_ms\<close> that the ring still holds, the trigger record with the right counts of flushed, lost and filtered records,
  and every later record the policy keeps, each at its true time. (Calls in time order, a heartbeat at least every 2.1 s
  and one after the trigger.)\<close>

theorem window_trace_decodes:
  assumes "wconf_ok cfg" "contains ''window=trigger'' (wc_prov cfg)" "s = trace_start cfg ts (win_boot cfg)"
    and "paced t0 t0 (es @ Mark T m arg up # es')" "length es < 2 ^ 32" "0 < hb_calls es'"
    and "quiet cfg False False es" "fires cfg (armed_after cfg False es \<or> m = wc_arm cfg \<and> arg \<noteq> 0) False m"
  shows "\<exists>st. decode_loop (wc_dec cfg) (padded (w_out (wrun cfg (es @ Mark T m arg up # es') s))) dstate0 = Inr st
    \<and> anchor (ds_recs st) (ds_seg st)
        = expect (wc_dec cfg) 0 0 ((uint ts, WProvenance (wc_prov cfg)) # window_recs cfg s es T m (Mark T m arg up # es'))
    \<and> ds_error st = None"
  using assms fresh_start [of cfg ts] uint_lt2p [of ts] by (intro window_decodes [of cfg _ s t0 es T m arg up es']) simp_all

definition demo_win :: wconf where
  "demo_win = \<lparr>wc_dec = demo_conf, wc_half = 64, wc_pre_ms = 2000, wc_spin_keep = 5, wc_policy = [REC_EVERY, REC_EVERY, REC_EVERY, REC_EVERY],
     wc_trigger = 1, wc_arm = 2, wc_violation = 3, wc_prov = '';window=trigger''\<rparr>"

lemma demo_win_ok: "wconf_ok demo_win" "contains ''window=trigger'' (wc_prov demo_win)"
  by (simp_all add: wconf_ok_def demo_win_def conf_ok_def demo_conf_def demo_tsdl_def ev_base_def u16_ok_def is_ascii_def)

lemma demo_window_times:
  assumes "w_hb_seq s = q" "w_pol s = p"
  shows "map fst (window_recs demo_win s [Beat 1000000 1] 2000000 3 [Mark 2000000 3 7 2, Beat 101000000 101])
    = [1000000, 2000000, 2000000, 101000000]"
  using assms by (simp add: window_recs_def flushed_def pre_recs_def ring_list_def ring_of_def ring_put_def recent_def demo_win_def trace_keep_def
      put_rec_def demo_conf_def demo_tsdl_def split: rec_policy.splits)

lemma map_t_ns_expect: "map t_ns (expect d 0 pos rs) = map fst rs"
  by (induction rs arbitrary: pos) auto

theorem window_trace_decodes_witness:
  "\<exists>st. decode_loop demo_conf (padded (w_out (wrun demo_win ([Beat 1000000 1] @ Mark 2000000 3 7 2 # [Beat 101000000 101])
        (trace_start demo_win 500 (win_boot demo_win))))) dstate0 = Inr st
    \<and> map t_ns (anchor (ds_recs st) (ds_seg st)) = [500, 1000000, 2000000, 2000000, 101000000]"
proof -
  have d: "wc_dec demo_win = demo_conf" by (simp add: demo_win_def)
  obtain st where "decode_loop demo_conf (padded (w_out (wrun demo_win ([Beat 1000000 1] @ Mark 2000000 3 7 2 # [Beat 101000000 101])
        (trace_start demo_win 500 (win_boot demo_win))))) dstate0 = Inr st"
    "anchor (ds_recs st) (ds_seg st) = expect demo_conf 0 0 ((uint (500 :: u32), WProvenance (wc_prov demo_win))
       # window_recs demo_win (trace_start demo_win 500 (win_boot demo_win)) [Beat 1000000 1] 2000000 3 [Mark 2000000 3 7 2, Beat 101000000 101])"
    using window_trace_decodes [OF demo_win_ok refl, of 500 "[Beat 1000000 1]" 2000000 3 7 2 "[Beat 101000000 101]" 500, unfolded d]
    by (auto simp: fires_def demo_win_def)
  then show ?thesis using demo_window_times [OF refl refl] by (intro exI [of _ st]) (simp add: map_t_ns_expect)
qed

text \<open>C4. The next act: whatever the window held, the heartbeat that finds the debugger's request empties the buffer, and
  from then on the stream holds the new window alone, opened by the first guarded take, a detector entry after one or a
  violation, and decodes as the first one did.\<close>

theorem window_rearmed_decodes:
  assumes "wconf_ok cfg" "contains ''window=trigger'' (wc_prov cfg)" "w_rearm s \<noteq> 0"
    and "paced t0 t0 (Beat T0 up0 # es @ Mark T m arg up # es')" "length es + 1 < 2 ^ 32" "0 < hb_calls es'"
    and "quiet cfg True False es" "fires cfg (armed_after cfg False es \<or> m = wc_arm cfg \<and> arg \<noteq> 0) True m"
  shows "\<exists>st. decode_loop (wc_dec cfg)
      (padded (w_out (wrun cfg (es @ Mark T m arg up # es') (trace_heartbeat cfg (word_of_int T0) up0 (ts, up1) s)))) dstate0 = Inr st
    \<and> anchor (ds_recs st) (ds_seg st) = expect (wc_dec cfg) 0 0 ((uint ts, WProvenance (wc_prov cfg))
        # window_recs cfg (window_rearm cfg ts up1 s) (Beat T0 up0 # es) T m (Mark T m arg up # es'))
    \<and> ds_error st = None"
proof -
  let ?s = "window_rearm cfg ts up1 s"
  have run: "wrun cfg (es @ Mark T m arg up # es') (trace_heartbeat cfg (word_of_int T0) up0 (ts, up1) s)
      = wrun cfg ((Beat T0 up0 # es) @ Mark T m arg up # es') ?s" using rearm_beat [OF assms(3), of cfg T0 up0 "(ts, up1)"] by simp
  show ?thesis
    unfolding run using assms fresh_rearm [of cfg ts up1 s] uint_lt2p [of ts]
    by (intro window_decodes [of cfg "uint ts" ?s t0 "Beat T0 up0 # es" T m arg up es']) simp_all
qed

theorem window_rearmed_decodes_witness:
  "\<exists>st. decode_loop demo_conf (padded (w_out (wrun demo_win ([] @ Mark 2000000 3 7 2 # [Beat 101000000 101])
        (trace_heartbeat demo_win (word_of_int 1000000) 1 (1000200, 1) (win_boot demo_win\<lparr>w_rearm := 1, w_out := [1, 2, 3]\<rparr>))))) dstate0 = Inr st
    \<and> map t_ns (anchor (ds_recs st) (ds_seg st)) = [1000200, 1000000, 2000000, 2000000, 101000000]"
proof -
  let ?s = "win_boot demo_win\<lparr>w_rearm := 1, w_out := [1, 2, 3]\<rparr>"
  have d: "wc_dec demo_win = demo_conf" by (simp add: demo_win_def)
  have r: "w_rearm ?s \<noteq> 0" by simp
  obtain st where "decode_loop demo_conf (padded (w_out (wrun demo_win ([] @ Mark 2000000 3 7 2 # [Beat 101000000 101])
        (trace_heartbeat demo_win (word_of_int 1000000) 1 (1000200, 1) ?s)))) dstate0 = Inr st"
    "anchor (ds_recs st) (ds_seg st) = expect demo_conf 0 0 ((uint (1000200 :: u32), WProvenance (wc_prov demo_win))
       # window_recs demo_win (window_rearm demo_win 1000200 1 ?s) [Beat 1000000 1] 2000000 3 [Mark 2000000 3 7 2, Beat 101000000 101])"
    using window_rearmed_decodes [OF demo_win_ok r, of 500 1000000 1 "[]" 2000000 3 7 2 "[Beat 101000000 101]" 1000200 1, unfolded d]
    by (auto simp: fires_def demo_win_def)
  then show ?thesis using demo_window_times [OF refl refl] by (intro exI [of _ st]) (simp add: map_t_ns_expect)
qed

lemma truncate_out [simp]:
  "tw.truncate (w_out_update f s) = tw.truncate s" "tw.truncate (w_pol_update g s) = tw.truncate s"
  "tw.truncate (w_filtered_update h s) = tw.truncate s" "tw.truncate (w_armed_update k s) = tw.truncate s"
  "tw.truncate (pre_put cfg b s) = tw.truncate s"
  by (simp_all add: tw.truncate_def pre_put_def Let_def)

lemma truncate_rearm: "tw.truncate (window_rearm cfg ts up s) = rearm_now up (tw.truncate s)"
  by (simp add: window_rearm_def put_provenance_def rearm_now_def Let_def tw.truncate_def)

lemma handshake_beat: "tw.truncate (trace_heartbeat cfg ts up (ts', up) s) = fw_step (tw.truncate s) (Heartbeat_at up)"
proof -
  define s1 where "s1 = s\<lparr>w_hb_seq := w_hb_seq s + 1, w_hb_uptime := up\<rparr>"
  have "tw.truncate (trace_heartbeat cfg ts up (ts', up) s) = tw.truncate (if w_rearm s1 \<noteq> 0 then window_rearm cfg ts' up s1 else s1)"
    by (simp add: trace_heartbeat_def Let_def s1_def)
  also have "\<dots> = fw_step (tw.truncate s) (Heartbeat_at up)"
    by (simp add: truncate_rearm fw_step_def s1_def Let_def) (simp add: tw.truncate_def)
  finally show ?thesis .
qed

lemma handshake_fire: "w_triggered s = 0 \<Longrightarrow> tw.truncate (trace_fire cfg ts m up s) = fw_step (tw.truncate s) (Fire_at up)"
  by (simp add: trace_fire_def fw_step_def Let_def tw.truncate_def split_beta)

lemma handshake_mark:
  "tw.truncate (marker_windowed cfg ts up m arg s) \<in> {tw.truncate s, fw_step (tw.truncate s) (Fire_at up)}"
proof -
  define a where "a = s\<lparr>w_armed := w_armed s \<or> m = wc_arm cfg \<and> arg \<noteq> 0\<rparr>"
  define s1 where "s1 = (if w_triggered s = 0 then (if fires cfg (w_armed a) (w_reopen a) m then trace_fire cfg ts m up a else a) else s)"
  obtain k p where kp: "trace_keep cfg m arg (w_pol s1) = (k, p)" by (cases "trace_keep cfg m arg (w_pol s1)")
  have "marker_windowed cfg ts up m arg s = (if \<not> k then s1\<lparr>w_pol := p, w_filtered := w_filtered s1 + 1\<rparr>
      else if w_triggered s1 \<noteq> 0 then s1\<lparr>w_pol := p, w_out := w_out s1 @ marker_bytes cfg ts m arg\<rparr>
      else pre_put cfg (marker_bytes cfg ts m arg) (s1\<lparr>w_pol := p\<rparr>))"
    unfolding marker_windowed_def Let_def a_def [symmetric] s1_def [symmetric] kp by simp
  then have "tw.truncate (marker_windowed cfg ts up m arg s) = tw.truncate s1" by simp
  also have "\<dots> \<in> {tw.truncate s, fw_step (tw.truncate s) (Fire_at up)}"
    using handshake_fire [of a cfg ts m up] by (auto simp: s1_def a_def)
  finally show ?thesis .
qed


text \<open>C6. What the ring keeps: before the trigger its two halves hold a suffix of the records the policy kept, whole and in
  order, neither past its size; and once anything has been forgotten they still hold at least a half's worth.\<close>

theorem window_ring_keeps:
  assumes "wconf_ok cfg" "s = trace_start cfg ts (win_boot cfg)" "quiet cfg False False es" "t = wrun cfg es s"
    and "rs = recs cfg (w_pol s) (w_hb_seq s) es"
  shows "\<exists>old new. rs = old @ new \<and> w_pre t ! (1 - w_pre_cur t) @ w_pre t ! w_pre_cur t = stream (wc_dec cfg) new
    \<and> length (w_pre t ! 0) \<le> wc_half cfg \<and> length (w_pre t ! 1) \<le> wc_half cfg
    \<and> (old \<noteq> [] \<longrightarrow> wc_half cfg < length (stream (wc_dec cfg) new) + 14)
    \<and> w_pre_n t = of_nat (length rs) \<and> w_filtered t = of_nat (dropped cfg (w_pol s) es)"
proof -
  have "open_inv cfg [] s" "\<not> w_armed s" "w_filtered s = 0"
    using fresh_start [of cfg ts] assms(2) by (auto simp: fresh_def open_inv_def ring_of_def)
  then have inv: "open_inv cfg rs t" "w_filtered t = of_nat (dropped cfg (w_pol s) es)"
    using wrun_quiet [of cfg s es "[]"] assms fresh_start(2) [of cfg ts] by simp_all
  obtain old where old: "rs = old @ ring_list cfg rs"
    "old \<noteq> [] \<longrightarrow> length (stream (wc_dec cfg) (fst (ring_of cfg rs))) + 14 > wc_half cfg"
    "length (stream (wc_dec cfg) (fst (ring_of cfg rs))) \<le> wc_half cfg" "length (stream (wc_dec cfg) (snd (ring_of cfg rs))) \<le> wc_half cfg"
    using ring_suffix [OF assms(1), of rs] recs_plain assms(5) by blast
  have "w_pre_cur t = 0 \<or> w_pre_cur t = 1" using inv(1) by (auto simp: open_inv_def)
  then show ?thesis
    using inv old by (intro exI [of _ old] exI [of _ "ring_list cfg rs"]) (auto simp: open_inv_def ring_list_def)
qed

theorem window_ring_keeps_witness:
  "length (w_pre (wrun demo_win (replicate 12 (Mark 5 1 6 7)) (trace_start demo_win 3 (win_boot demo_win))) ! 0) \<le> 64"
proof -
  have "quiet demo_win False False (replicate 12 (Mark 5 1 6 7))" by (simp add: numeral_eq_Suc fires_def demo_win_def Let_def)
  from window_ring_keeps [OF demo_win_ok(1) refl this refl refl] show ?thesis by (auto simp: demo_win_def)
qed

end
