(* ===== verification/Terms.thy ===== *)
theory Terms
  imports Island_Prelude Complex_Main
begin

text \<open>The board's budget terms, \<^verbatim>\<open>tools/board/terms.py\<close>: the terms measured in a run's merged events (\<open>run_terms\<close>), the
  budgets the contract's measurement rule gives for them (\<open>propose\<close>) and the printed table.

  An event comes in parsed, as a record of the keys read from it. Times are integers in ns; durations in ms
  are rationals, without the rounding of floats: the factor \<open>MARGIN\<close> is six fifths.\<close>

section \<open>Measured terms\<close>

definition TICK :: string where "TICK = ''PATH_MRM_HANDLER_CALL_MRM_ENTRY''"
definition TICK_X :: string where "TICK_X = ''PATH_MRM_HANDLER_CALL_MRM_EXIT''"
definition TAKE :: string where "TAKE = ''TAKE_MRM_HANDLER_OPERATION_MODE_AVAILABILITY''"
definition TOR :: string where "TOR = ''PUB_MRM_HANDLER_TAKEOVER_REQUEST_STATE''"
definition CALL_CS :: string where "CALL_CS = ''CALL_MRM_HANDLER_COMFORTABLE_STOP_OPERATE''"
definition LIMIT :: string where "LIMIT = ''PUB_MRM_COMFORTABLE_STOP_OPERATOR_MAX_VELOCITY_CANDIDATES''"
definition TAKE_CM :: string where "TAKE_CM = ''TAKE_MRM_HANDLER_CONTROL_MODE''"

definition KEYS :: "string list" where
  "KEYS = [''link'', ''wait'', ''spacing'', ''work'', ''limit'', ''tor_on'', ''call'', ''tor_off'', ''operate'', ''exit'']"

definition MARGIN :: rat where "MARGIN = 6 / 5"

record isl_ev =
  i_kind :: string
  i_marker :: string
  i_ns :: int       \<comment> \<open>\<open>island_ns\<close>\<close>
  i_mono :: int     \<comment> \<open>\<open>t_mono_ns\<close>\<close>
  i_value :: int

record gate_ev =
  p_kind :: string
  p_mono :: int
  p_autonomous :: bool

definition ms_between :: "int \<Rightarrow> int \<Rightarrow> rat" where
  "ms_between a b = of_int (b - a) / 1000000"

definition marked :: "string \<Rightarrow> isl_ev list \<Rightarrow> isl_ev list" where
  "marked m mk = filter (\<lambda>e. i_marker e = m) mk"

definition spacing_of :: "isl_ev list \<Rightarrow> rat list" where
  "spacing_of ticks = filter (\<lambda>s. s < 150) (map (\<lambda>(a, b). ms_between (i_ns a) (i_ns b)) (pairs ticks))"

definition next_at :: "int \<Rightarrow> isl_ev list \<Rightarrow> isl_ev option" where
  "next_at ns es = List.find (\<lambda>e. i_ns e \<ge> ns) es"

definition tick_before :: "isl_ev list \<Rightarrow> int \<Rightarrow> isl_ev option" where
  "tick_before ticks ns = (let c = filter (\<lambda>t. i_ns t \<le> ns) ticks in if c = [] then None else Some (last c))"

definition work_of :: "isl_ev list \<Rightarrow> isl_ev list \<Rightarrow> rat list" where
  "work_of ticks exits =
     List.map_filter (\<lambda>t. case next_at (i_ns t) exits of
         None \<Rightarrow> None
       | Some x \<Rightarrow> (let d = ms_between (i_ns t) (i_ns x) in if d < 100 then Some d else None)) ticks"

definition tor_of :: "bool \<Rightarrow> isl_ev list \<Rightarrow> isl_ev list \<Rightarrow> rat list" where
  "tor_of on ticks tors =
     List.map_filter (\<lambda>e. if (i_value e = 2) \<noteq> on then None
       else (case tick_before ticks (i_ns e) of
               None \<Rightarrow> None
             | Some t \<Rightarrow> (let d = ms_between (i_ns t) (i_ns e) in if d < 100 then Some d else None))) tors"

definition call_of :: "isl_ev list \<Rightarrow> isl_ev list \<Rightarrow> rat list" where
  "call_of ticks calls =
     List.map_filter (\<lambda>e. map_option (\<lambda>t. ms_between (i_ns t) (i_ns e)) (tick_before ticks (i_ns e))) calls"

definition operate_of :: "isl_ev list \<Rightarrow> isl_ev list \<Rightarrow> isl_ev list \<Rightarrow> rat list" where
  "operate_of exits limits calls =
     List.map_filter (\<lambda>e. case (next_at (i_ns e) exits, next_at (i_ns e) limits) of
         (Some x, Some lm) \<Rightarrow> Some (ms_between (i_ns x) (i_ns lm))
       | _ \<Rightarrow> None) calls"

definition limit_of :: "isl_ev list \<Rightarrow> isl_ev list \<Rightarrow> isl_ev list \<Rightarrow> rat list" where
  "limit_of ticks limits calls =
     List.map_filter (\<lambda>e. case (tick_before ticks (i_ns e), next_at (i_ns e) limits) of
         (Some t, Some lm) \<Rightarrow> Some (ms_between (i_ns t) (i_ns lm))
       | _ \<Rightarrow> None) calls"

definition exit_of :: "isl_ev list \<Rightarrow> isl_ev list \<Rightarrow> rat list" where
  "exit_of tors manuals =
     List.map_filter (\<lambda>e. map_option (\<lambda>t. ms_between (i_ns e) (i_ns t))
       (List.find (\<lambda>t. i_ns t \<ge> i_ns e \<and> i_value t \<noteq> 2) tors)) manuals"

text \<open>The loop over the takes for one publish: the first edge to the published value, no more than 50 ms before it;
  what it finds counts within 500 ms.\<close>

fun edge_take :: "int \<Rightarrow> int \<Rightarrow> isl_ev option \<Rightarrow> isl_ev list \<Rightarrow> isl_ev option" where
  "edge_take pub want prev [] = None"
| "edge_take pub want prev (e # es) =
     (if i_mono e \<ge> pub - 50000000 \<and> i_value e = want \<and> (case prev of None \<Rightarrow> True | Some p \<Rightarrow> i_value p \<noteq> want)
      then Some e else edge_take pub want (Some e) es)"

definition link_edges :: "isl_ev list \<Rightarrow> gate_ev list \<Rightarrow> (gate_ev \<times> isl_ev) list" where
  "link_edges takes pubs =
     List.map_filter (\<lambda>p. case edge_take (p_mono p) (if p_autonomous p then 1 else 0) None takes of
         None \<Rightarrow> None
       | Some e \<Rightarrow> if i_mono e - p_mono p < 500000000 then Some (p, e) else None) pubs"

definition wait_of :: "isl_ev list \<Rightarrow> (gate_ev \<times> isl_ev) list \<Rightarrow> rat list" where
  "wait_of ticks edges =
     List.map_filter (\<lambda>(p, e). if p_autonomous p then None
       else map_option (\<lambda>t. ms_between (i_ns e) (i_ns t)) (List.find (\<lambda>t. i_ns t > i_ns e) ticks)) edges"

definition run_terms :: "isl_ev list \<Rightarrow> gate_ev list \<Rightarrow> string \<Rightarrow> rat list" where
  "run_terms island gate =
     (let mk = filter (\<lambda>e. i_kind e = ''marker'') island;
          ticks = marked TICK mk; exits = marked TICK_X mk; tors = marked TOR mk; limits = marked LIMIT mk;
          calls = filter (\<lambda>e. i_value e = 1) (marked CALL_CS mk);
          edges = link_edges (marked TAKE mk) (filter (\<lambda>p. p_kind p = ''publish'') gate)
      in (\<lambda>_. [])(''spacing'' := spacing_of ticks, ''work'' := work_of ticks exits,
           ''tor_on'' := tor_of True ticks tors, ''tor_off'' := tor_of False ticks tors,
           ''call'' := call_of ticks calls, ''operate'' := operate_of exits limits calls, ''limit'' := limit_of ticks limits calls,
           ''exit'' := exit_of tors (filter (\<lambda>e. i_value e = 4) (marked TAKE_CM mk)),
           ''link'' := map (\<lambda>(p, e). ms_between (p_mono p) (i_mono e)) edges, ''wait'' := wait_of ticks edges))"

text \<open>The act of a run: the marker of its first verdict.\<close>

definition run_act :: "(string \<times> string) list \<Rightarrow> string option" where
  "run_act scen = map_option snd (List.find (\<lambda>(k, m). k = ''verdict'') scen)"

section \<open>Budgets\<close>

definition rmax :: "rat list \<Rightarrow> rat" where
  "rmax v = foldr max (tl v) (hd v)"

definition rmin :: "rat list \<Rightarrow> rat" where
  "rmin v = foldr min (tl v) (hd v)"

text \<open>\<open>round(x, k)\<close>, half to even, and \<open>f"{x:.2f}"\<close>.\<close>

definition round_to :: "nat \<Rightarrow> rat \<Rightarrow> rat" where
  "round_to k x = of_int (half_even (x * 10 ^ k)) / 10 ^ k"

abbreviation fix2 :: "rat \<Rightarrow> string" where "fix2 \<equiv> fix_digits 2"

definition rng :: "rat list \<Rightarrow> string" where
  "rng v = (if v = [] then ''-'' else fix2 (rmin v) @ ''-'' @ fix2 (rmax v) @ '' (n='' @ dec_nat (length v) @ '')'')"

definition up :: "rat \<Rightarrow> int" where
  "up x = \<lceil>round_to 6 x\<rceil>"

definition opt_int :: "int option \<Rightarrow> string" where   \<comment> \<open>\<open>f"{x}"\<close> for an int or \<open>None\<close>\<close>
  "opt_int x = (case x of None \<Rightarrow> ''None'' | Some n \<Rightarrow> dec_int n)"

definition link_row :: "(string \<Rightarrow> rat list) \<Rightarrow> int option \<times> string" where
  "link_row allv =
     (if allv ''link'' = [] then (None, ''no link edges'')
      else (let m = rmax (allv ''link'')
            in (Some (up (m * MARGIN)), ''max '' @ fix2 m @ '' x 1.2 = '' @ fix2 (m * MARGIN))))"

definition tick_row :: "(string \<Rightarrow> rat list) \<Rightarrow> int \<Rightarrow> int option \<times> string" where
  "tick_row allv period =
     (if allv ''spacing'' = [] then (None, ''no consecutive ticks'')
      else (let m = rmax (allv ''spacing''); late = max 0 (m - of_int period)
            in (Some (period + up (late * MARGIN)), ''period '' @ g_ms (1000 * period) @ '' + lateness '' @ fix2 late @ '' x 1.2 = ''
                @ fix2 (late * MARGIN) @ '' (max spacing '' @ fix2 m @ ''; the period takes no margin)'')))"

definition work_row :: "(string \<Rightarrow> rat list) \<Rightarrow> int option \<times> string" where
  "work_row allv =
     (let wv = allv ''work'' @ allv ''limit''
      in if wv = [] then (None, ''no handler ticks'')
         else (let m = rmax wv;
                   src = (if allv ''limit'' \<noteq> [] \<and> m = rmax (allv ''limit'') then ''limit (tick -> velocity limit)''
                          else ''work (tick -> call_mrm exit)'')
               in (Some (up (m * MARGIN)), ''max '' @ fix2 m @ '' from '' @ src @ '' x 1.2 = '' @ fix2 (m * MARGIN))))"

definition propose :: "(string \<Rightarrow> rat list) \<Rightarrow> int \<Rightarrow> (string \<times> int option \<times> string) list" where
  "propose allv period =
     (let tick = fst (tick_row allv period); work = fst (work_row allv);
          s = (case (tick, work) of (Some t, Some w) \<Rightarrow> Some (t + w) | _ \<Rightarrow> None);
          how = opt_int tick @ '' + '' @ opt_int work
      in [(''max_transport (link)'', link_row allv), (''tick'', tick_row allv period), (''work'', work_row allv),
          (''call_mrm = tick + work'', s, how),
          (''driver_exit = tick + work'', s,
             how @ (if allv ''exit'' \<noteq> [] then ''; exit observed '' @ rng (allv ''exit'') else []))])"

section \<open>The printed table\<close>

definition all_terms :: "(string \<Rightarrow> rat list) list \<Rightarrow> string \<Rightarrow> rat list" where
  "all_terms ts k = concat (map (\<lambda>t. t k) ts)"

definition terms_row :: "(string \<Rightarrow> rat list) \<Rightarrow> string" where
  "terms_row t = join ''  '' (map (\<lambda>k. rjust 24 (rng (t k))) KEYS)"

definition budget_line :: "string \<times> int option \<times> string \<Rightarrow> string" where
  "budget_line r = (case r of (name, v, how) \<Rightarrow>
     ''  '' @ ljust 28 name @ '' '' @ rjust 8 (case v of None \<Rightarrow> ''-'' | Some n \<Rightarrow> dec_int n @ '' ms'') @ ''   '' @ how)"

definition NOTE :: "string list" where
  "NOTE =
     [''note: `link` compares the gate's host stamp with an island stamp moved onto the host clock by the'',
      ''smallest publish->receipt pair (merge.py). A receipt is never before its publish, so that offset'',
      ''places island events no EARLIER than they happened: `link` is over-stated by the smallest out-link'',
      ''delay, never under-stated. Every other term is on one clock (island).'']"

definition terms_lines :: "bool \<Rightarrow> int \<Rightarrow> (string \<times> string option \<times> (string \<Rightarrow> rat list)) list \<Rightarrow> string list" where
  "terms_lines prop period runs =
     (let allv = all_terms (map (snd \<circ> snd) runs)
      in [''run     act     '' @ join ''  '' (map (rjust 24) KEYS)]
         @ map (\<lambda>(r, act, t). ljust 7 r @ '' '' @ ljust 7 (case act of None \<Rightarrow> ''None'' | Some a \<Rightarrow> a) @ '' '' @ terms_row t) runs
         @ [''ALL             '' @ terms_row allv,
            ''max: '' @ join '', '' (map (\<lambda>k. k @ '' '' @ fix2 (rmax (allv k))) (filter (\<lambda>k. allv k \<noteq> []) KEYS))]
         @ NOTE
         @ (if prop then
              [[], ''proposed budgets (max x 1.2, rounded up to the next ms; the timer period takes no margin), over ''
                 @ dec_nat (length runs) @ '' run(s):''] @ map budget_line (propose allv period)
            else []))"


section \<open>Rounding\<close>

lemma half_even_near: "\<bar>of_int (half_even x) - x\<bar> \<le> 1 / 2"
proof -
  define q where "q = \<lfloor>x\<rfloor>"
  have "of_int q \<le> x" "x < of_int q + 1" using floor_correct [of x] by (simp_all add: q_def)
  then show ?thesis by (auto simp: half_even_def Let_def abs_le_iff simp flip: q_def)
qed

lemma half_even_int [simp]: "half_even (of_int n) = n"
  by (simp add: half_even_def)

lemma half_even_mono: "of_int n \<le> x \<Longrightarrow> n \<le> half_even x"
proof -
  assume "of_int n \<le> x"
  then have "n \<le> \<lfloor>x\<rfloor>" by (simp add: le_floor_iff)
  then show "n \<le> half_even x" by (auto simp: half_even_def Let_def)
qed

text \<open>A duration of whole ns.\<close>

definition whole_ns :: "rat \<Rightarrow> bool" where
  "whole_ns x = (x * 1000000 \<in> \<int>)"

lemma up_covers:
  assumes "whole_ns m" "0 \<le> m"
  shows "m \<le> of_int (up (m * MARGIN))"
proof -
  obtain n where n: "m * 1000000 = of_int n" using assms(1) by (auto simp: whole_ns_def elim: Ints_cases)
  have "of_int n \<le> m * MARGIN * 1000000" using assms(2) by (simp add: MARGIN_def flip: n)
  then have "n \<le> half_even (m * MARGIN * 10 ^ 6)" by (intro half_even_mono) simp
  then have "m * 1000000 \<le> of_int (half_even (m * MARGIN * 10 ^ 6))" by (simp only: n of_int_le_iff)
  then have "m \<le> round_to 6 (m * MARGIN)" by (simp add: round_to_def field_simps)
  then show ?thesis unfolding up_def by linarith
qed

lemma up_tight: "of_int (up x) < x + 1 + 1 / 2000000"
proof -
  have "\<bar>of_int (half_even (x * 10 ^ 6)) - x * 10 ^ 6\<bar> \<le> 1 / 2" by (rule half_even_near)
  then have "round_to 6 x \<le> x + 1 / 2000000" unfolding abs_le_iff by (simp add: round_to_def field_simps)
  then show ?thesis unfolding up_def by linarith
qed

lemma rmax_ge: "x \<in> set v \<Longrightarrow> x \<le> rmax v"
proof (cases v)
  case (Cons y ys)
  assume "x \<in> set v"
  moreover have "y \<le> foldr max ys y" "z \<in> set ys \<Longrightarrow> z \<le> foldr max ys y" for z by (induction ys) auto
  ultimately show ?thesis using Cons by (auto simp: rmax_def)
qed simp

lemma rmax_in: "v \<noteq> [] \<Longrightarrow> rmax v \<in> set v"
proof (cases v)
  case (Cons y ys)
  have "foldr max ys y \<in> set (y # ys)" by (induction ys) (auto simp: max_def)
  then show ?thesis by (simp add: Cons rmax_def)
qed simp

section \<open>What a run's terms are\<close>

lemma whole_ns_ms [simp]: "whole_ns (ms_between a b)"
proof -
  have "ms_between a b * 1000000 = of_int (b - a)" by (simp add: ms_between_def)
  then show ?thesis unfolding whole_ns_def by (simp only: Ints_of_int)
qed

lemma in_map_filter: "y \<in> set (List.map_filter f xs) \<longleftrightarrow> (\<exists>x \<in> set xs. f x = Some y)"
  by (force simp: map_filter_def)

lemma both_Some: "(case (a, b) of (Some x, Some y) \<Rightarrow> Some (f x y) | _ \<Rightarrow> None) = Some z \<longleftrightarrow> (\<exists>x y. a = Some x \<and> b = Some y \<and> z = f x y)"
  by (cases a; cases b) auto

lemma case_Some: "(case a of None \<Rightarrow> None | Some x \<Rightarrow> f x) = Some z \<longleftrightarrow> (\<exists>x. a = Some x \<and> f x = Some z)"
  by (cases a) auto

lemma if_Some: "(if b then Some x else None) = Some z \<longleftrightarrow> b \<and> z = x" "(if b then None else y) = Some z \<longleftrightarrow> \<not> b \<and> y = Some z"
  by auto

lemmas picks = in_map_filter both_Some case_Some if_Some map_option_eq_Some find_Some_iff

lemma terms_whole:
  "x \<in> set (spacing_of ticks) \<Longrightarrow> whole_ns x" "x \<in> set (work_of ticks exits) \<Longrightarrow> whole_ns x"
  "x \<in> set (tor_of on ticks tors) \<Longrightarrow> whole_ns x" "x \<in> set (call_of ticks calls) \<Longrightarrow> whole_ns x"
  "x \<in> set (operate_of exits limits calls) \<Longrightarrow> whole_ns x" "x \<in> set (limit_of ticks limits calls) \<Longrightarrow> whole_ns x"
  "x \<in> set (exit_of tors manuals) \<Longrightarrow> whole_ns x" "x \<in> set (wait_of ticks edges) \<Longrightarrow> whole_ns x"
  unfolding spacing_of_def work_of_def tor_of_def call_of_def operate_of_def limit_of_def exit_of_def wait_of_def Let_def picks
  by (auto simp: picks)

text \<open>The markers of a run, by name; the terms are read from them.\<close>

definition of_run :: "isl_ev list \<Rightarrow> string \<Rightarrow> isl_ev list" where
  "of_run island m = marked m (filter (\<lambda>e. i_kind e = ''marker'') island)"

lemma run_terms_sel:
  "run_terms island gate ''spacing'' = spacing_of (of_run island TICK)"
  "run_terms island gate ''work'' = work_of (of_run island TICK) (of_run island TICK_X)"
  "run_terms island gate ''tor_on'' = tor_of True (of_run island TICK) (of_run island TOR)"
  "run_terms island gate ''tor_off'' = tor_of False (of_run island TICK) (of_run island TOR)"
  "run_terms island gate ''call'' = call_of (of_run island TICK) (filter (\<lambda>e. i_value e = 1) (of_run island CALL_CS))"
  "run_terms island gate ''operate'' = operate_of (of_run island TICK_X) (of_run island LIMIT) (filter (\<lambda>e. i_value e = 1) (of_run island CALL_CS))"
  "run_terms island gate ''limit'' = limit_of (of_run island TICK) (of_run island LIMIT) (filter (\<lambda>e. i_value e = 1) (of_run island CALL_CS))"
  "run_terms island gate ''exit'' = exit_of (of_run island TOR) (filter (\<lambda>e. i_value e = 4) (of_run island TAKE_CM))"
  "run_terms island gate ''link'' = map (\<lambda>(p, e). ms_between (p_mono p) (i_mono e)) (link_edges (of_run island TAKE) (filter (\<lambda>p. p_kind p = ''publish'') gate))"
  "run_terms island gate ''wait'' = wait_of (of_run island TICK) (link_edges (of_run island TAKE) (filter (\<lambda>p. p_kind p = ''publish'') gate))"
  by (simp_all add: run_terms_def Let_def of_run_def)

lemma run_terms_key: "k \<notin> set KEYS \<Longrightarrow> run_terms island gate k = []"
  by (simp add: run_terms_def Let_def KEYS_def)

lemma run_terms_whole: "x \<in> set (run_terms island gate k) \<Longrightarrow> whole_ns x"
proof (cases "k \<in> set KEYS")
  case True
  assume "x \<in> set (run_terms island gate k)"
  with True show ?thesis using terms_whole by (auto simp: KEYS_def run_terms_sel)
qed (simp add: run_terms_key)

lemma next_at_ge: "next_at ns es = Some e \<Longrightarrow> ns \<le> i_ns e"
  by (auto simp: next_at_def find_Some_iff)

lemma tick_before_le: "tick_before ticks ns = Some t \<Longrightarrow> i_ns t \<le> ns"
proof -
  assume t: "tick_before ticks ns = Some t"
  define c where "c = filter (\<lambda>t. i_ns t \<le> ns) ticks"
  from t have "c \<noteq> []" "t = last c" by (auto simp: tick_before_def Let_def c_def split: if_splits)
  then have "t \<in> set c" by simp
  then show ?thesis by (simp add: c_def)
qed

lemma ms_nonneg [simp]: "0 \<le> ms_between a b \<longleftrightarrow> a \<le> b" "0 < ms_between a b \<longleftrightarrow> a < b"
  by (simp_all add: ms_between_def zero_le_divide_iff zero_less_divide_iff)

lemma edge_take_in: "edge_take pub want prev es = Some e \<Longrightarrow> pub - 50000000 \<le> i_mono e \<and> i_value e = want \<and> e \<in> set es"
  by (induction pub want prev es rule: edge_take.induct) (auto split: if_splits)

lemma link_edges_in:
  assumes "(p, e) \<in> set (link_edges takes pubs)"
  shows "p_mono p - 50000000 \<le> i_mono e \<and> i_mono e - p_mono p < 500000000"
proof -
  from assms obtain r where "(case edge_take (p_mono r) (if p_autonomous r then 1 else 0) None takes of
      None \<Rightarrow> None | Some e \<Rightarrow> if i_mono e - p_mono r < 500000000 then Some (r, e) else None) = Some (p, e)"
    unfolding link_edges_def in_map_filter by blast
  then show ?thesis using edge_take_in [of "p_mono r" _ None takes] by (cases "edge_take (p_mono r) (if p_autonomous r then 1 else 0) None takes") (auto split: if_split_asm)
qed

lemma ms_less: "ms_between a b < of_int k \<longleftrightarrow> b - a < k * 1000000"
proof -
  have "ms_between a b < of_int k \<longleftrightarrow> (of_int (b - a) :: rat) < of_int (k * 1000000)"
    by (simp add: ms_between_def divide_less_eq)
  then show ?thesis by (simp only: of_int_less_iff)
qed

lemma ms_ge: "of_int k \<le> ms_between a b \<longleftrightarrow> k * 1000000 \<le> b - a"
  using ms_less [of a b k] by linarith

lemma terms_range:
  "x \<in> set (work_of ticks exits) \<Longrightarrow> 0 \<le> x \<and> x < 100" "x \<in> set (tor_of on ticks tors) \<Longrightarrow> 0 \<le> x \<and> x < 100"
  "x \<in> set (call_of ticks calls) \<Longrightarrow> 0 \<le> x" "x \<in> set (limit_of ticks limits calls) \<Longrightarrow> 0 \<le> x"
  "x \<in> set (exit_of tors manuals) \<Longrightarrow> 0 \<le> x" "x \<in> set (wait_of ticks edges) \<Longrightarrow> 0 < x"
  unfolding work_of_def tor_of_def call_of_def limit_of_def exit_of_def wait_of_def Let_def picks
  by (auto simp: picks dest!: tick_before_le next_at_ge)

lemma link_range:
  assumes "x \<in> set (map (\<lambda>(p, e). ms_between (p_mono p) (i_mono e)) (link_edges takes pubs))"
  shows "- 50 \<le> x \<and> x < 500"
proof -
  from assms obtain p e where pe: "(p, e) \<in> set (link_edges takes pubs)" "x = ms_between (p_mono p) (i_mono e)" by auto
  show ?thesis using link_edges_in [OF pe(1)] ms_ge [of "- 50" "p_mono p" "i_mono e"] ms_less [of "p_mono p" "i_mono e" 500] by (simp add: pe(2))
qed

lemma run_terms_range:
  "x \<in> set (run_terms island gate ''spacing'') \<Longrightarrow> x < 150"
  "x \<in> set (run_terms island gate k) \<Longrightarrow> k \<in> {''work'', ''tor_on'', ''tor_off''} \<Longrightarrow> 0 \<le> x \<and> x < 100"
  "x \<in> set (run_terms island gate k) \<Longrightarrow> k \<in> {''call'', ''limit'', ''exit''} \<Longrightarrow> 0 \<le> x"
  "x \<in> set (run_terms island gate ''wait'') \<Longrightarrow> 0 < x"
  "x \<in> set (run_terms island gate ''link'') \<Longrightarrow> - 50 \<le> x \<and> x < 500"
  using terms_range link_range by (auto simp: run_terms_sel spacing_of_def)

section \<open>The budgets cover what was measured\<close>

definition budget :: "(string \<times> int option \<times> string) list \<Rightarrow> string \<Rightarrow> int option" where
  "budget rows name = (case map_of rows name of None \<Rightarrow> None | Some (v, _) \<Rightarrow> v)"

definition measured :: "(isl_ev list \<times> gate_ev list) list \<Rightarrow> string \<Rightarrow> rat list" where
  "measured runs = all_terms (map (\<lambda>r. run_terms (fst r) (snd r)) runs)"


lemma measured_in: "x \<in> set (measured runs k) \<longleftrightarrow> (\<exists>r \<in> set runs. x \<in> set (run_terms (fst r) (snd r) k))"
  by (auto simp: measured_def all_terms_def)

lemma measured_whole: "x \<in> set (measured runs k) \<Longrightarrow> whole_ns x"
  using run_terms_whole by (auto simp: measured_in)

lemma measured_range:
  "x \<in> set (measured runs ''spacing'') \<Longrightarrow> x < 150"
  "x \<in> set (measured runs k) \<Longrightarrow> k \<in> {''work'', ''tor_on'', ''tor_off''} \<Longrightarrow> 0 \<le> x \<and> x < 100"
  "x \<in> set (measured runs k) \<Longrightarrow> k \<in> {''call'', ''limit'', ''exit''} \<Longrightarrow> 0 \<le> x"
  "x \<in> set (measured runs ''wait'') \<Longrightarrow> 0 < x"
  "x \<in> set (measured runs ''link'') \<Longrightarrow> - 50 \<le> x \<and> x < 500"
  unfolding measured_in by (erule bexE, erule run_terms_range; assumption)+

lemma measured_work:
  assumes "x \<in> set (measured runs ''work'' @ measured runs ''limit'')"
  shows "0 \<le> x \<and> whole_ns x"
proof -
  consider "x \<in> set (measured runs ''work'')" | "x \<in> set (measured runs ''limit'')" using assms by auto
  then show ?thesis using measured_range(2) [of x runs "''work''"] measured_range(3) [of x runs "''limit''"] measured_whole by cases auto
qed

lemma budget_rows:
  "budget (propose allv period) ''max_transport (link)'' = fst (link_row allv)"
  "budget (propose allv period) ''tick'' = fst (tick_row allv period)"
  "budget (propose allv period) ''work'' = fst (work_row allv)"
  "budget (propose allv period) ''call_mrm = tick + work'' = (case (fst (tick_row allv period), fst (work_row allv)) of (Some t, Some w) \<Rightarrow> Some (t + w) | _ \<Rightarrow> None)"
  "budget (propose allv period) ''driver_exit = tick + work'' = (case (fst (tick_row allv period), fst (work_row allv)) of (Some t, Some w) \<Rightarrow> Some (t + w) | _ \<Rightarrow> None)"
  by (simp_all add: propose_def Let_def budget_def split: prod.split)

lemma margin_cover:
  assumes "x \<in> set v" "whole_ns (rmax v)" "0 \<le> rmax v"
  shows "x \<le> of_int (up (rmax v * MARGIN))"
  using up_covers [OF assms(2,3)] rmax_ge [OF assms(1)] by linarith

lemma tick_cover:
  assumes "x \<in> set (measured runs ''spacing'')"
  shows "\<exists>t. fst (tick_row (measured runs) period) = Some t \<and> x \<le> of_int t \<and> period \<le> t"
proof -
  let ?v = "measured runs ''spacing''"
  define late where "late = max 0 (rmax ?v - of_int period)"
  have ne: "?v \<noteq> []" using assms by auto
  have "whole_ns (rmax ?v - of_int period)"
    using measured_whole [OF rmax_in [OF ne]] by (simp add: whole_ns_def left_diff_distrib)
  then have "late \<le> of_int (up (late * MARGIN))" by (intro up_covers) (auto simp: late_def max_def whole_ns_def)
  moreover have "0 \<le> late" "x - of_int period \<le> late" using rmax_ge [OF assms] by (simp_all add: late_def)
  ultimately have "x \<le> of_int (period + up (late * MARGIN))" "period \<le> period + up (late * MARGIN)" by simp_all
  then show ?thesis using ne by (simp add: tick_row_def Let_def late_def)
qed

lemma work_cover:
  assumes "x \<in> set (measured runs ''work'') \<union> set (measured runs ''limit'')"
  shows "\<exists>w. fst (work_row (measured runs)) = Some w \<and> x \<le> of_int w"
proof -
  let ?v = "measured runs ''work'' @ measured runs ''limit''"
  have x: "x \<in> set ?v" and ne: "?v \<noteq> []" using assms by auto
  have "0 \<le> rmax ?v \<and> whole_ns (rmax ?v)" using measured_work [OF rmax_in [OF ne]] .
  then have "x \<le> of_int (up (rmax ?v * MARGIN))" using margin_cover [OF x] by blast
  then show ?thesis using ne by (simp add: work_row_def Let_def)
qed

section \<open>Properties\<close>


text \<open>C35. The proposed budgets cover every measurement of the round: the tick budget is at least the timer's period and every handler spacing, the work budget at least every tick's work and every velocity limit, and the two path budgets are their sum, so a tick followed by its work fits.\<close>

theorem proposed_budgets_cover:
  fixes runs period
  defines "b \<equiv> budget (propose (measured runs) period)"
  assumes "x \<in> set (measured runs ''spacing'')" "y \<in> set (measured runs ''work'') \<union> set (measured runs ''limit'')"
  shows "\<exists>t w. b ''tick'' = Some t \<and> b ''work'' = Some w \<and> b ''call_mrm = tick + work'' = Some (t + w)
    \<and> b ''driver_exit = tick + work'' = Some (t + w)
    \<and> period \<le> t \<and> x \<le> of_int t \<and> y \<le> of_int w \<and> x + y \<le> of_int (t + w)"
proof -
  obtain t w where "fst (tick_row (measured runs) period) = Some t" "x \<le> of_int t" "period \<le> t"
    "fst (work_row (measured runs)) = Some w" "y \<le> of_int w"
    using tick_cover [OF assms(2)] work_cover [OF assms(3)] by blast
  then show ?thesis by (simp add: b_def budget_rows)
qed

text \<open>The proposed transport bound covers every link delay measured and exceeds the largest one times 1.2 by no more than the rounding to the next ms.\<close>

theorem link_budget_covers:
  assumes "x \<in> set (measured runs ''link'')" "0 \<le> x"
  shows "\<exists>l. budget (propose (measured runs) period) ''max_transport (link)'' = Some l \<and> x \<le> of_int l
    \<and> of_int l < rmax (measured runs ''link'') * MARGIN + 1 + 1 / 2000000"
proof -
  let ?v = "measured runs ''link''"
  have ne: "?v \<noteq> []" using assms by auto
  have "0 \<le> rmax ?v" using rmax_ge [OF assms(1)] assms(2) by linarith
  then have "x \<le> of_int (up (rmax ?v * MARGIN))" using margin_cover [OF assms(1) measured_whole [OF rmax_in [OF ne]]] by blast
  then show ?thesis using ne up_tight [of "rmax ?v * MARGIN"] by (simp add: budget_rows link_row_def Let_def)
qed


text \<open>A run: two handler ticks 103 ms apart, the first one's work 5 ms, a fault edge taken 2 ms after its publish.\<close>

definition demo_ev :: "string \<Rightarrow> int \<Rightarrow> int \<Rightarrow> isl_ev" where
  "demo_ev m t v = \<lparr>i_kind = ''marker'', i_marker = m, i_ns = t * 1000000, i_mono = t * 1000000, i_value = v\<rparr>"

definition demo_terms_run :: "isl_ev list \<times> gate_ev list" where
  "demo_terms_run = ([demo_ev TAKE 3 0, demo_ev TICK 10 0, demo_ev TICK_X 15 0, demo_ev TICK 113 0],
     [\<lparr>p_kind = ''publish'', p_mono = 1000000, p_autonomous = False\<rparr>])"

lemma demo_terms:
  "measured [demo_terms_run] ''spacing'' = [103]" "measured [demo_terms_run] ''work'' = [5]" "measured [demo_terms_run] ''link'' = [2]"
  "measured [demo_terms_run] ''wait'' = [7]" "measured [demo_terms_run] ''limit'' = []"
  by code_simp+


theorem proposed_budgets_cover_witness:
  "\<exists>t w. budget (propose (measured [demo_terms_run]) 100) ''tick'' = Some t
    \<and> budget (propose (measured [demo_terms_run]) 100) ''work'' = Some w \<and> 100 \<le> t \<and> (103 :: rat) \<le> of_int t \<and> (5 :: rat) \<le> of_int w"
  using proposed_budgets_cover [of 103 "[demo_terms_run]" 5 100] demo_terms by auto

theorem link_budget_covers_witness:
  "\<exists>l. budget (propose (measured [demo_terms_run]) 100) ''max_transport (link)'' = Some l \<and> (2 :: rat) \<le> of_int l"
  using link_budget_covers [of 2 "[demo_terms_run]" 100] demo_terms by auto

end
