(* ===== verification/Plant.thy ===== *)
theory Plant
  imports Island_Prelude
begin

text \<open>The plant model of \<^verbatim>\<open>tools/board/tlcommon.py\<close>: the time a jerk-limited stop takes (\<open>settle_s\<close>) and the
  sampled speed curve the timeline draws (\<open>stop_curve\<close>). Floats are modelled as real numbers, without
  rounding; the divisions by zero and the square root of a negative number that raise are branches.

  The reference is the speed \<open>plant\<close> of a vehicle whose deceleration ramps up with the jerk and then holds.\<close>

section \<open>The code\<close>

definition settle_s :: "real \<Rightarrow> real \<Rightarrow> real \<Rightarrow> real res" where
  "settle_s v0 decel jerk =
     (let a = \<bar>decel\<bar>; j = \<bar>jerk\<bar>
      in if j = 0 then Inl ZeroDivisionError
         else (let vr = a * a / (2 * j)
               in if v0 \<le> vr then (if v0 < 0 then Inl ValueError else Inr (sqrt (2 * v0 / j)))
                  else if a = 0 then Inl ZeroDivisionError
                  else Inr (a / j + (v0 - vr) / a)))"

definition speed_at :: "real \<Rightarrow> real \<Rightarrow> real \<Rightarrow> real \<Rightarrow> real" where
  "speed_at v0 a j t =
     max (if t \<le> a / j \<and> v0 > a * a / (2 * j) then v0 - 1 / 2 * j * t * t
          else if v0 \<le> a * a / (2 * j) then max (v0 - 1 / 2 * j * t * t) 0
          else v0 - a * a / (2 * j) - a * (t - a / j)) 0"

definition stop_curve :: "real \<Rightarrow> real \<Rightarrow> real \<Rightarrow> nat \<Rightarrow> (real \<times> real) list res" where
  "stop_curve v0 decel jerk n =
     rbind (settle_s v0 decel jerk) (\<lambda>T.
       if n = 0 then Inl ZeroDivisionError
       else Inr (map (\<lambda>i. (T * real i / real n, speed_at v0 \<bar>decel\<bar> \<bar>jerk\<bar> (T * real i / real n))) [0..<n + 1]))"

section \<open>The reference\<close>

text \<open>The speed shed after \<open>t\<close> seconds by a deceleration \<open>min (j * t) a\<close>, and the speed left.\<close>

definition shed :: "real \<Rightarrow> real \<Rightarrow> real \<Rightarrow> real" where
  "shed a j t = (if t \<le> a / j then j * t\<^sup>2 / 2 else a * t - a\<^sup>2 / (2 * j))"

definition plant :: "real \<Rightarrow> real \<Rightarrow> real \<Rightarrow> real \<Rightarrow> real" where
  "plant v0 a j t = v0 - shed a j t"

lemma shed_deriv_ramp: "t < a / j \<Longrightarrow> (shed a j has_real_derivative j * t) (at t)"
proof -
  assume "t < a / j"
  then have "eventually (\<lambda>x. shed a j x = j * x\<^sup>2 / 2) (nhds t)"
    unfolding eventually_nhds by (intro exI [of _ "{..< a / j}"]) (auto simp: shed_def)
  moreover have "((\<lambda>x. j * x\<^sup>2 / 2) has_real_derivative j * t) (at t)"
    by (auto intro!: derivative_eq_intros)
  ultimately show ?thesis by (subst DERIV_cong_ev [OF refl _ refl]) simp_all
qed

lemma shed_deriv_hold: "a / j < t \<Longrightarrow> (shed a j has_real_derivative a) (at t)"
proof -
  assume "a / j < t"
  then have "eventually (\<lambda>x. shed a j x = a * x - a\<^sup>2 / (2 * j)) (nhds t)"
    unfolding eventually_nhds by (intro exI [of _ "{a / j <..}"]) (auto simp: shed_def)
  moreover have "((\<lambda>x. a * x - a\<^sup>2 / (2 * j)) has_real_derivative a) (at t)"
    by (auto intro!: derivative_eq_intros)
  ultimately show ?thesis by (subst DERIV_cong_ev [OF refl _ refl]) simp_all
qed

lemma shed_nonneg: "0 < a \<Longrightarrow> 0 < j \<Longrightarrow> 0 \<le> t \<Longrightarrow> 0 \<le> shed a j t"
proof (cases "t \<le> a / j")
  case False
  assume p: "0 < a" "0 < j" "0 \<le> t"
  with False have "a * (a / j) \<le> a * t" by (intro mult_left_mono) auto
  moreover have "a\<^sup>2 / (2 * j) \<le> a * (a / j)" using p by (simp add: power2_eq_square field_simps)
  ultimately show ?thesis using False by (simp add: shed_def)
qed (simp add: shed_def)

lemma shed_strict:
  assumes p: "0 < a" "0 < j" and t: "0 \<le> s" "s < t"
  shows "shed a j s < shed a j t"
proof -
  have ramp: "j * s\<^sup>2 / 2 < j * u\<^sup>2 / 2" if "s < u" for u
    using that t(1) p by (simp add: power_strict_mono)
  consider "t \<le> a / j" | "s \<le> a / j" "a / j < t" | "a / j < s" using t by linarith
  then show ?thesis
  proof cases
    case 1
    then show ?thesis using t ramp [OF t(2)] by (simp add: shed_def)
  next
    case 2
    have "j * s\<^sup>2 / 2 \<le> j * (a / j)\<^sup>2 / 2" using 2(1) t(1) p by (simp add: power_mono)
    also have "\<dots> = a * (a / j) - a\<^sup>2 / (2 * j)" using p by (simp add: power2_eq_square field_simps)
    also have "\<dots> < a * t - a\<^sup>2 / (2 * j)" using mult_strict_left_mono [OF 2(2) p(1)] by simp
    finally show ?thesis using 2 by (simp add: shed_def)
  next
    case 3
    then show ?thesis using t p by (simp add: shed_def)
  qed
qed

text \<open>A harder deceleration or a faster ramp sheds no less by any time.\<close>

lemma shed_mono_jerk:
  assumes p: "0 < a" "0 < j'" "j' \<le> j" "0 \<le> t"
  shows "shed a j' t \<le> shed a j t"
proof -
  have th: "a / j \<le> a / j'" using p by (simp add: frac_le)
  have q: "a\<^sup>2 / (2 * j) \<le> a\<^sup>2 / (2 * j')" using p by (intro divide_left_mono) simp_all
  consider "t \<le> a / j" | "a / j < t" "t \<le> a / j'" | "a / j' < t" by linarith
  then show ?thesis
  proof cases
    case 1
    then show ?thesis using th p by (simp add: shed_def mult_right_mono)
  next
    case 2
    have "j' * t \<le> a" using 2(2) p by (simp add: pos_le_divide_eq mult.commute)
    then have "j' * t * t \<le> a * t" using p by (intro mult_right_mono) simp_all
    moreover have "a * (a / j) \<le> a * t" using 2(1) p by (intro mult_left_mono) auto
    moreover have "a\<^sup>2 / (2 * j) = a * (a / j) / 2" by (simp add: power2_eq_square)
    ultimately have "j' * t\<^sup>2 / 2 \<le> a * t - a\<^sup>2 / (2 * j)" by (simp add: power2_eq_square)
    then show ?thesis using 2 by (simp add: shed_def)
  next
    case 3
    then show ?thesis using th q by (simp add: shed_def)
  qed
qed

lemma shed_mono_decel:
  assumes p: "0 < a'" "a' \<le> a" "0 < j" "0 \<le> t"
  shows "shed a' j t \<le> shed a j t"
proof -
  have th: "a' / j \<le> a / j" using p by (simp add: divide_right_mono)
  consider "t \<le> a' / j" | "a' / j < t" "t \<le> a / j" | "a / j < t" by linarith
  then show ?thesis
  proof cases
    case 1
    then show ?thesis using th by (simp add: shed_def)
  next
    case 2
    have "0 \<le> (j * t - a')\<^sup>2 / (2 * j)" using p by simp
    also have "\<dots> = j * t\<^sup>2 / 2 - (a' * t - a'\<^sup>2 / (2 * j))" using p by (simp add: power2_eq_square field_simps)
    finally show ?thesis using 2 by (simp add: shed_def)
  next
    case 3
    have "a \<le> j * t" using 3 p by (simp add: pos_divide_less_eq mult.commute)
    then have "0 \<le> (a - a') * (2 * j * t - a - a') / (2 * j)" using p by (intro divide_nonneg_pos mult_nonneg_nonneg) simp_all
    also have "\<dots> = (a * t - a\<^sup>2 / (2 * j)) - (a' * t - a'\<^sup>2 / (2 * j))" using p by (simp add: power2_eq_square field_simps)
    finally show ?thesis using 3 th by (simp add: shed_def)
  qed
qed

section \<open>The stop\<close>

lemma ramp_time: "0 < j \<Longrightarrow> v0 \<le> a * a / (2 * j) \<Longrightarrow> 2 * v0 / j \<le> (a / j)\<^sup>2" for a j v0 :: real
  by (simp add: power2_eq_square field_simps)

lemma settle_reaches:
  assumes "0 \<le> v0" "decel \<noteq> 0" "jerk \<noteq> 0"
  shows "\<exists>T. settle_s v0 decel jerk = Inr T \<and> 0 \<le> T \<and> shed \<bar>decel\<bar> \<bar>jerk\<bar> T = v0
    \<and> (v0 \<le> \<bar>decel\<bar> * \<bar>decel\<bar> / (2 * \<bar>jerk\<bar>) \<longrightarrow> T \<le> \<bar>decel\<bar> / \<bar>jerk\<bar>)"
proof -
  let ?a = "\<bar>decel\<bar>" and ?j = "\<bar>jerk\<bar>"
  have p: "0 < ?a" "0 < ?j" using assms by simp_all
  show ?thesis
  proof (cases "v0 \<le> ?a * ?a / (2 * ?j)")
    case True
    let ?T = "sqrt (2 * v0 / ?j)"
    have "2 * v0 / ?j \<le> (?a / ?j)\<^sup>2" by (rule ramp_time [OF p(2) True])
    then have le: "?T \<le> ?a / ?j" using p by (intro real_le_lsqrt) simp_all
    have "?j * ?T\<^sup>2 / 2 = v0" using assms p by simp
    then have "shed ?a ?j ?T = v0" using le by (simp add: shed_def)
    moreover have "settle_s v0 decel jerk = Inr ?T" using True assms by (simp add: settle_s_def Let_def)
    ultimately show ?thesis using le assms(1) by auto
  next
    case False
    let ?T = "?a / ?j + (v0 - ?a * ?a / (2 * ?j)) / ?a"
    have gt: "?a / ?j < ?T" using False p by (simp add: divide_pos_pos)
    have "?a * ?T = ?a * ?a / ?j + (v0 - ?a * ?a / (2 * ?j))" using p by (simp add: distrib_left)
    then have "shed ?a ?j ?T = v0" using gt p by (simp add: shed_def power2_eq_square field_simps)
    moreover have "settle_s v0 decel jerk = Inr ?T" using False assms by (simp add: settle_s_def Let_def)
    moreover have "0 \<le> ?T" using gt p by (meson divide_pos_pos less_eq_real_def order_less_trans)
    ultimately show ?thesis using False by auto
  qed
qed

lemma plant_before:
  assumes "decel \<noteq> 0" "jerk \<noteq> 0" "shed \<bar>decel\<bar> \<bar>jerk\<bar> T = v0" "0 \<le> t" "t < T"
  shows "0 < plant v0 \<bar>decel\<bar> \<bar>jerk\<bar> t"
  using shed_strict [of "\<bar>decel\<bar>" "\<bar>jerk\<bar>" t T] assms by (simp add: plant_def)

lemma plant_deriv:
  assumes "0 < a" "0 < j" "t \<noteq> a / j"
  shows "(plant v0 a j has_real_derivative - min (j * t) a) (at t)"
proof -
  have "(shed a j has_real_derivative min (j * t) a) (at t)"
  proof (cases "t < a / j")
    case True
    then have "j * t < a" using assms by (simp add: pos_less_divide_eq mult.commute)
    with shed_deriv_ramp [OF True] show ?thesis by (simp add: min_def)
  next
    case False
    with assms have gt: "a / j < t" by simp
    then have "a < j * t" using assms(2) by (simp add: pos_divide_less_eq mult.commute)
    with shed_deriv_hold [OF gt] show ?thesis by (simp add: min_def)
  qed
  then show ?thesis unfolding plant_def by (auto intro!: derivative_eq_intros)
qed

text \<open>C38. \<open>settle_s\<close> is the stopping time of the jerk-limited stop: the reference speed starts at the entry speed, its
  derivative is minus the smaller of the ramped jerk and the deceleration, and the time returned is the first at which it is zero.\<close>

theorem settle_is_first_standstill:
  assumes "0 \<le> v0" "decel \<noteq> 0" "jerk \<noteq> 0"
  shows "plant v0 \<bar>decel\<bar> \<bar>jerk\<bar> 0 = v0
    \<and> (\<forall>t. t \<noteq> \<bar>decel\<bar> / \<bar>jerk\<bar> \<longrightarrow>
          (plant v0 \<bar>decel\<bar> \<bar>jerk\<bar> has_real_derivative - min (\<bar>jerk\<bar> * t) \<bar>decel\<bar>) (at t))
    \<and> (\<exists>T. settle_s v0 decel jerk = Inr T \<and> 0 \<le> T \<and> plant v0 \<bar>decel\<bar> \<bar>jerk\<bar> T = 0
    \<and> (\<forall>t. 0 \<le> t \<and> t < T \<longrightarrow> 0 < plant v0 \<bar>decel\<bar> \<bar>jerk\<bar> t))"
proof -
  from settle_reaches [OF assms] obtain T where T: "settle_s v0 decel jerk = Inr T" "0 \<le> T" "shed \<bar>decel\<bar> \<bar>jerk\<bar> T = v0"
    by blast
  have "plant v0 \<bar>decel\<bar> \<bar>jerk\<bar> 0 = v0" "plant v0 \<bar>decel\<bar> \<bar>jerk\<bar> T = 0" using T(3) by (simp_all add: plant_def shed_def)
  then show ?thesis using T plant_before [OF assms(2,3) T(3)] plant_deriv [of "\<bar>decel\<bar>" "\<bar>jerk\<bar>"] assms by auto
qed

text \<open>The stopping time never falls with a higher entry speed, a weaker deceleration or a slower jerk, the monotonicity the
  contract checker states for the settle budget it derives.\<close>

theorem settle_monotone:
  assumes "0 \<le> v0" "v0 \<le> v0'" "decel' \<noteq> 0" "\<bar>decel'\<bar> \<le> \<bar>decel\<bar>" "jerk' \<noteq> 0" "\<bar>jerk'\<bar> \<le> \<bar>jerk\<bar>"
  shows "\<exists>T T'. settle_s v0 decel jerk = Inr T \<and> settle_s v0' decel' jerk' = Inr T' \<and> T \<le> T'"
proof -
  have nz: "0 \<le> v0'" "decel \<noteq> 0" "jerk \<noteq> 0" using assms by auto
  from settle_reaches [OF assms(1) nz(2,3)] obtain T where T: "settle_s v0 decel jerk = Inr T" "0 \<le> T" "shed \<bar>decel\<bar> \<bar>jerk\<bar> T = v0"
    by blast
  from settle_reaches [OF nz(1) assms(3,5)] obtain T' where T': "settle_s v0' decel' jerk' = Inr T'" "0 \<le> T'" "shed \<bar>decel'\<bar> \<bar>jerk'\<bar> T' = v0'"
    by blast
  have "v0 \<le> shed \<bar>decel'\<bar> \<bar>jerk'\<bar> T'" using T'(3) assms(2) by simp
  also have "\<dots> \<le> shed \<bar>decel'\<bar> \<bar>jerk\<bar> T'" using assms T'(2) by (intro shed_mono_jerk) simp_all
  also have "\<dots> \<le> shed \<bar>decel\<bar> \<bar>jerk\<bar> T'" using assms nz T'(2) by (intro shed_mono_decel) simp_all
  finally have "T \<le> T'" using plant_before [OF nz(2,3) T(3) T'(2)] by (force simp: plant_def)
  with T(1) T'(1) show ?thesis by blast
qed

lemma speed_is_plant:
  assumes "decel \<noteq> 0" "jerk \<noteq> 0" "shed \<bar>decel\<bar> \<bar>jerk\<bar> T = v0" "0 \<le> t" "t \<le> T"
    and le: "v0 \<le> \<bar>decel\<bar> * \<bar>decel\<bar> / (2 * \<bar>jerk\<bar>) \<longrightarrow> T \<le> \<bar>decel\<bar> / \<bar>jerk\<bar>"
  shows "speed_at v0 \<bar>decel\<bar> \<bar>jerk\<bar> t = plant v0 \<bar>decel\<bar> \<bar>jerk\<bar> t"
proof -
  let ?a = "\<bar>decel\<bar>" and ?j = "\<bar>jerk\<bar>"
  have "0 \<le> plant v0 ?a ?j t"
    using plant_before [OF assms(1-4)] assms(3,5) by (cases "t = T") (auto simp: plant_def)
  moreover have "speed_at v0 ?a ?j t = max (plant v0 ?a ?j t) 0"
  proof (cases "t \<le> ?a / ?j")
    case True
    then have "plant v0 ?a ?j t = v0 - 1 / 2 * ?j * t * t" by (simp add: plant_def shed_def power2_eq_square)
    with True show ?thesis by (simp add: speed_at_def)
  next
    case False
    then have "\<not> v0 \<le> ?a * ?a / (2 * ?j)" using le assms(5) by linarith
    moreover have "plant v0 ?a ?j t = v0 - ?a * ?a / (2 * ?j) - ?a * (t - ?a / ?j)"
      using False assms(1,2) by (simp add: plant_def shed_def power2_eq_square field_simps)
    ultimately show ?thesis using False by (simp add: speed_at_def)
  qed
  ultimately show ?thesis by simp
qed

text \<open>The curve drawn is the reference speed sampled at n + 1 evenly spaced times: it starts at the entry speed, ends at
  standstill at the settle time, and falls strictly from point to point.\<close>

theorem stop_curve_follows_plant:
  assumes "0 < v0" "decel \<noteq> 0" "jerk \<noteq> 0" "0 < n"
  shows "\<exists>T pts. settle_s v0 decel jerk = Inr T \<and> stop_curve v0 decel jerk n = Inr pts \<and> length pts = n + 1
    \<and> pts ! 0 = (0, v0) \<and> pts ! n = (T, 0)
    \<and> (\<forall>i \<le> n. pts ! i = (T * real i / real n, plant v0 \<bar>decel\<bar> \<bar>jerk\<bar> (T * real i / real n)))
    \<and> (\<forall>i k. i < k \<and> k \<le> n \<longrightarrow> fst (pts ! i) < fst (pts ! k) \<and> snd (pts ! k) < snd (pts ! i))"
proof -
  let ?a = "\<bar>decel\<bar>" and ?j = "\<bar>jerk\<bar>"
  from settle_reaches [of v0 decel jerk] assms obtain T where T: "settle_s v0 decel jerk = Inr T" "0 \<le> T" "shed ?a ?j T = v0"
    "v0 \<le> ?a * ?a / (2 * ?j) \<longrightarrow> T \<le> ?a / ?j" by auto
  have "T \<noteq> 0" using T(3) assms by (auto simp: shed_def)
  then have pos: "0 < T" using T(2) by simp
  let ?t = "\<lambda>i. T * real i / real n"
  have le: "0 \<le> ?t i" "i \<le> n \<Longrightarrow> ?t i \<le> T" for i
    using T(2) assms(4) by (simp_all add: divide_le_eq mult_left_mono)
  have lt: "?t i < ?t k" if "i < k" for i k using that pos assms(4) by (simp add: divide_strict_right_mono)
  define pts where "pts = map (\<lambda>i. (?t i, speed_at v0 ?a ?j (?t i))) [0..<n + 1]"
  have c: "stop_curve v0 decel jerk n = Inr pts" using T(1) assms(4) by (simp add: stop_curve_def pts_def)
  have e: "pts ! i = (?t i, plant v0 ?a ?j (?t i))" if "i \<le> n" for i
  proof -
    have "pts ! i = (?t i, speed_at v0 ?a ?j (?t i))"
      using that unfolding pts_def by (subst nth_map) (simp_all del: upt_Suc add: nth_upt)
    then show ?thesis using speed_is_plant [OF assms(2,3) T(3) le(1) le(2) [OF that] T(4)] by simp
  qed
  have "pts ! 0 = (0, v0)" using e [of 0] assms by (simp add: plant_def shed_def)
  moreover have "pts ! n = (T, 0)" using e [of n] assms T(3) by (simp add: plant_def)
  moreover have "snd (pts ! k) < snd (pts ! i)" if "i < k" "k \<le> n" for i k
    using that e [of i] e [of k] shed_strict [OF _ _ le(1) lt [OF that(1)], of ?a ?j] assms by (simp add: plant_def)
  moreover have "fst (pts ! i) < fst (pts ! k)" if "i < k" "k \<le> n" for i k
    using that e [of i] e [of k] lt [OF that(1)] by simp
  moreover have "length pts = n + 1" by (simp add: pts_def)
  ultimately show ?thesis using T(1) c e by blast
qed

theorem settle_is_first_standstill_witness: "settle_s (2 / 1) 1 1 = Inr (5 / 2) \<and> plant 2 1 1 (5 / 2) = 0"
proof -
  from settle_is_first_standstill [of 2 1 1] obtain T where "settle_s 2 1 1 = Inr T" "plant 2 1 1 T = 0" by auto
  moreover have "settle_s 2 1 1 = Inr (5 / 2)" by (simp add: settle_s_def)
  ultimately show ?thesis by (metis sum.inject(2) div_by_1)
qed

theorem settle_monotone_witness: "\<exists>T T'. settle_s 2 (- 1) 1 = Inr T \<and> settle_s 3 (- 1) 1 = Inr T' \<and> T \<le> T'"
  using settle_monotone [of 2 3 "- 1" "- 1" 1 1] by simp

theorem stop_curve_follows_plant_witness: "\<exists>pts. stop_curve 2 1 1 2 = Inr pts \<and> pts ! 0 = (0, 2) \<and> snd (pts ! 2) = 0"
  using stop_curve_follows_plant [of 2 1 1 2] by auto

end
