(* ===== verification/Spec2Isabelle.thy ===== *)
theory Spec2Isabelle
  imports Levels Board_Commands Readout_Session Qemu_Monitor Marker_Sites Late_Records Tsdl Trace_Text Violation_Session Probe Sntp Buttons Leds Spin_Segment Lock_Reading Readout Window_Stream Terms Plant Timeline
begin

text \<open>
  \<^bold>\<open>The tools of the safety island\<close>

  The island is a Zephyr image (ROS nodes on nano-ros, a supervisor, LEDs, buttons and a RAM trace) that
  runs on an S32K344 board, in QEMU or as a native process. The Python tools of the repository generate its
  trace marker table, read its memory over a debug probe, decode what they read and hold it against the
  contract. A wrong tool gives a wrong verdict on the island, so the tools are what is modelled here, with
  those parts of the C firmware whose memory they read, and the supervisor, which brakes the vehicle when
  everything else has failed.

  \<^bold>\<open>How the parts interact\<close>

  \<^item> \<^verbatim>\<open>src/safety_island_tracing/gen_markers.py\<close> numbers the markers of the resolved SystemModel and writes a C
    header and markers.json. The image records marker ids through \<^verbatim>\<open>include/island_trace.h\<close>.
  \<^item> \<^verbatim>\<open>src/safety_island_tracing/island_trace.py\<close> decodes the RAM buffer (wrapped by \<open>wrap\<close>), names the markers from
    markers.json, joins the violations, takes and timer ticks that span several records, checks the trace
    and exports it.
  \<^item> \<^verbatim>\<open>tools/board/readout.py\<close> halts the target, reads the buffer and the records by symbol, and re-arms the trace window
    for the next act.
  \<^item> \<^verbatim>\<open>tools/board/violations.py\<close> decodes the supervisor record and writes the debug words.
  \<^item> \<^verbatim>\<open>tools/board/board_buttons.py\<close> and \<^verbatim>\<open>tools/board/led_readout.py\<close> read the records of \<^verbatim>\<open>island_buttons.c\<close> and
    \<^verbatim>\<open>island_led.c\<close> while the firmware ticks.
  \<^item> \<^verbatim>\<open>tools/board/spin_diag.py\<close> reads the spin latency struct of \<^verbatim>\<open>include/island_spin_diag.h\<close> before and after an act,
    \<^verbatim>\<open>tools/diag/late_records.py\<close> reads its texts back; \<^verbatim>\<open>tools/board/lock_probe.py\<close> reads the lock probe's records.
  \<^item> \<^verbatim>\<open>tools/diag/swd_where.py\<close> and \<^verbatim>\<open>swd_stackwalk.py\<close> halt the core once and say where it is.
  \<^item> \<^verbatim>\<open>tools/board/probe.py\<close> subscribes to the contract's topics and writes the events the live view follows;
    \<^verbatim>\<open>scripts/sntp-server.py\<close> gives the image its wall clock.
  \<^item> \<^verbatim>\<open>tools/board/terms.py\<close> measures a round of board runs and proposes the contract's budgets.
  \<^item> \<^verbatim>\<open>tools/board/tlcommon.py\<close> reads the contract, the events of a run and the plant model for the timeline.

  \<^bold>\<open>Theories\<close>

  \<^item> \<open>Island_Prelude\<close>: Python's results and exceptions (\<open>res\<close>, \<open>rbind\<close>, \<open>rmap\<close>), byte strings and \<open>struct\<close> formats,
    texts, dictionaries as association lists. \<open>Yaml\<close>: parsed documents and their numbers.
  \<^item> \<open>Marker_Table\<close> (\<open>build_table\<close>, \<open>window_policy\<close>, \<open>fnv1a32\<close>) and \<open>Marker_Render\<close> (\<open>nros_violation_table\<close>, \<open>render\<close>,
    \<open>gen\<close>, \<open>check_gen\<close>): the ids are 1 to n in order with every EXIT after its ENTRY, they stay below the
    forwarded block, every marker has one policy, the trigger and the arm are recorded, the C tables are
    indexed by id, the renderer fails only with a reported error, and the hash is the 32-bit one. \<open>Marker_Sites\<close>: the call
    sites of the markers in the component sources and the commands \<open>gen\<close>, \<open>check\<close> and \<open>sites\<close>.
  \<^item> \<open>Trace_Decode\<close> (the record loop of \<open>load\<close>, \<open>anchor\<close>, \<open>wrap\<close>; \<open>put_rec\<close> is the writer of \<^verbatim>\<open>island_trace.h\<close>): decoding
    what was written gives the records at their 64-bit times, with and without a trace window; the loop
    ends without an exception on every buffer; zeros after the last record change nothing.
  \<^item> \<open>Trace_Join\<close> (\<open>names_of\<close>, \<open>join_violations\<close>, \<open>join_takes\<close>, \<open>timer_ticks\<close>, \<open>load\<close>; \<open>sink_step\<close> is the image's sink): the joins
    recover what the image meant, across records of other threads. \<open>Text_Scan\<close> has the
    searches of Python's regular expressions the tools use and \<open>Tsdl\<close> the metadata parser on it: it reads back every event
    layout, and a dump loads with its metadata file. \<open>Trace_Text\<close> has the reports the commands print.
  \<^item> \<open>Trace_Window\<close> is the trace window of the image (\<^verbatim>\<open>island_trace.h\<close>: two half rings before the trigger, the RAM buffer
    after it, the re-arm), and \<open>Window_Stream\<close> what the decoder reads from it: the records of the window at their true times, after
    a re-arm too, and the last records before the trigger are kept.
  \<^item> \<open>Trace_Check\<close> (\<open>param_value\<close>, \<open>window_stats\<close>, \<open>check\<close>, \<open>perfetto\<close>, \<open>main\<close>'s exit code): the verdict is its documented
    contract, and a full dump that passes has lost no heartbeat.
  \<^item> \<open>Supervisor_Record\<close>: the decoder inverts the C struct of every image generation, the priority verdict is the
    plan's, the report is total, debug writes stay in their word and range. \<open>Violation_Session\<close>: what each command of
    \<^verbatim>\<open>violations.py\<close> says, reads, writes and saves, and the text of the contract violation record.
  \<^item> \<open>Judge\<close>, \<open>Reaction\<close> and \<open>Levels\<close> are the supervisor (\<^verbatim>\<open>src/zephyr_entry/src/island_supervisor.c\<close> and its
    \<^verbatim>\<open>island_supervisor_judge.h\<close>): the verdicts on 32-bit words, every call, interrupt and pass of the reaction thread as a step
    (\<open>sup_do\<close>) with the reachable states an inductive predicate (\<open>reach\<close>), and the executor's levels with SWT0, whose spins are such
    steps. \<open>Reaction_Laws\<close> has what the steps keep; \<open>Reaction_Runs\<close> that the output is driven exactly on a miss and the direct commands
    follow in the same pass, that supervision is never lost, that a fault is recorded neither wrongly nor never, and that
    each slot has one publisher.
  \<^item> \<open>Ring_Log\<close>: the interfaces \<open>ring_log\<close> (a firmware ring read by a debugger) and \<open>line_feed\<close> (an incremental line
    reader), with the lemmas proved once in them. \<open>Buttons\<close>, \<open>Leds\<close> and \<open>Spin_Segment\<close> interpret the first on their
    records, \<open>Timeline\<close> the second on \<open>Tail\<close>.
  \<^item> \<open>Buttons\<close> and \<open>Leds\<close>: the firmware's tick as a function on its record at the C widths, its reachable states as
    an inductive predicate, and the reader; the reader shows exactly what the firmware logged, a press is
    debounced, the pads follow the state, the bridge reports each press once.
  \<^item> \<open>Spin_Diag\<close> (\<open>parse\<close>, \<open>spin_decode\<close>, \<open>segment\<close>; the struct, \<open>sd_register\<close>, \<open>sd_thread_cb\<close>, \<open>sd_file\<close>) and \<open>Spin_Segment\<close> (runs of the
    firmware as an inductive relation): a reading decodes to the struct, and the difference of two readings
    counts the intervals filed between them. \<open>Late_Records\<close>: every late record of a decoded struct is found in its text.
  \<^item> \<open>Lock_Probe\<close> (the reader of \<^verbatim>\<open>lock_probe.py\<close>), \<open>Lock_Holds\<close> (the firmware that files a hold) and \<open>Lock_Reading\<close>: a reading shows
    exactly what the firmware filed.
  \<^item> \<open>Readout\<close> (\<open>serial_decode\<close>, \<open>serial_text\<close>, \<open>assert_text\<close>, \<open>rearm\<close>, \<open>halted_session\<close>, \<open>readout\<close>; the firmware's assert hook and
    heartbeat): the re-arm helper ends and is acknowledged, every access of a readout lies between halt and
    resume, assert.txt names the first assert, and the trace file carries the counters of the halt.
  \<^item> \<open>Board_Session\<close>: sessions with a target, where every access may raise, with what a session leaves behind (\<open>uses\<close>,
    \<open>after_op\<close>), and the two SWD diagnostics. \<open>Readout_Session\<close>: the reading modes of \<^verbatim>\<open>readout.py\<close>; every halt is undone,
    and a run that ends well has saved a trace that loads; \<open>Qemu_Monitor\<close>: the monitor's answers, read however they are cut. \<open>Board_Commands\<close>: the commands of the button, LED, spin and lock readers;
    the probe is given back, and an injected press is reported only when the record counts it.
  \<^item> \<open>Terms\<close> (\<open>run_terms\<close>, \<open>propose\<close>, the printed table): the terms lie in their ranges and the budgets cover them.
  \<^item> \<open>Plant\<close>: \<open>settle_s\<close> is the first standstill of the jerk-limited stop and \<open>stop_curve\<close> samples it.
  \<^item> \<open>Contract\<close> and \<open>Timeline\<close>: durations, references, bounds, predicates, events and the checker's table. \<open>Probe\<close>: the
    contract probe's callbacks; the live view of its file shows each change of a predicate and of a lane once, in order.
  \<^item> \<open>Sntp\<close>: the replies of the SNTP responder, and the request that ends it.

  \<^bold>\<open>Conventions\<close>

  A Python exception is a value of \<open>py_error\<close> on the left of a \<open>res\<close>; an operation that cannot raise has a plain
  result. Python's integers are \<open>int\<close>, the firmware's are 32-bit words. Floats are rationals or reals without
  rounding. Code outside the repository (the YAML and JSON parsers, SHA-256, the constants and
  the record decoders of the pinned nano-ros, addr2line, the symbols of an ELF, GPIO drivers) is an argument of the definitions.
  Every loop is a structural recursion, or a \<open>function\<close> with a measure: the record loop consumes bytes, the word and
  number readers consume characters. The poll for an acknowledgement (\<open>poll_ack\<close>) is a \<open>partial_function\<close> proved to end. The loops
  over the host's clock in \<open>Board_Commands\<close> have fuel, \<open>Going\<close> being the outcome without it: \<open>inject\<close> needs 81 turns for its two
  seconds, proved enough, and more fuel changes nothing (\<open>sloop_more\<close>); a watch without an end goes on for as long as it has fuel. Counters of the firmware are bounded by
  hypotheses of the form ``fewer than \<open>2 ^ 32\<close> events since boot''.

  \<^bold>\<open>Not modelled\<close>

  The ROS nodes of the image, the supervisor's copy of the priority plan and its debug injections, argument parsing, the driver of the debug
  probe (its accesses are recorded as acts), pyelftools and subprocesses: input and
  output, or code whose behaviour is that of a library. The self-tests of the tools restate examples of the
  properties proved here.
\<close>

end
